(* ===== verification/Ham_Prelude.thy ===== *)
theory Ham_Prelude
  imports Main "HOL-Library.Word"
begin

text \<open>
  Shared vocabulary of the development: the status codes of the public header, the
  fixed-width integer types, the little-endian image of the packed structures that
  the log, the journal and the B-tree pages write to disk, and generic lemmas on
  lists that the component theories use.
\<close>

unbundle bit_operations_syntax

section \<open>Machine integers and status codes\<close>

type_synonym byte = "8 word"
type_synonym u16 = "16 word"
type_synonym u32 = "32 word"
type_synonym u64 = "64 word"

datatype ham_status =
    HAM_SUCCESS | HAM_INV_KEYSIZE | HAM_INV_PAGESIZE | HAM_OUT_OF_MEMORY
  | HAM_NOT_INITIALIZED | HAM_INV_PARAMETER | HAM_INV_FILE_HEADER
  | HAM_INV_FILE_VERSION | HAM_KEY_NOT_FOUND | HAM_DUPLICATE_KEY
  | HAM_INTEGRITY_VIOLATED | HAM_INTERNAL_ERROR | HAM_DB_READ_ONLY
  | HAM_BLOB_NOT_FOUND | HAM_PREFIX_REQUEST_FULLKEY | HAM_IO_ERROR
  | HAM_CACHE_FULL | HAM_NOT_IMPLEMENTED | HAM_FILE_NOT_FOUND | HAM_WOULD_BLOCK
  | HAM_NOT_READY | HAM_LIMITS_REACHED | HAM_ACCESS_DENIED
  | HAM_ALREADY_INITIALIZED | HAM_NEED_RECOVERY | HAM_CURSOR_STILL_OPEN
  | HAM_FILTER_NOT_FOUND | HAM_TXN_CONFLICT | HAM_KEY_ERASED_IN_TXN
  | HAM_TXN_STILL_OPEN | HAM_CURSOR_IS_NIL | HAM_DATABASE_NOT_FOUND
  | HAM_DATABASE_ALREADY_EXISTS | HAM_DATABASE_ALREADY_OPEN
  | HAM_ENVIRONMENT_ALREADY_OPEN | HAM_LOG_INV_FILE_HEADER | HAM_NETWORK_ERROR

fun ham_status_code :: "ham_status \<Rightarrow> int" where
  "ham_status_code HAM_SUCCESS = 0"
| "ham_status_code HAM_INV_KEYSIZE = -3"
| "ham_status_code HAM_INV_PAGESIZE = -4"
| "ham_status_code HAM_OUT_OF_MEMORY = -6"
| "ham_status_code HAM_NOT_INITIALIZED = -7"
| "ham_status_code HAM_INV_PARAMETER = -8"
| "ham_status_code HAM_INV_FILE_HEADER = -9"
| "ham_status_code HAM_INV_FILE_VERSION = -10"
| "ham_status_code HAM_KEY_NOT_FOUND = -11"
| "ham_status_code HAM_DUPLICATE_KEY = -12"
| "ham_status_code HAM_INTEGRITY_VIOLATED = -13"
| "ham_status_code HAM_INTERNAL_ERROR = -14"
| "ham_status_code HAM_DB_READ_ONLY = -15"
| "ham_status_code HAM_BLOB_NOT_FOUND = -16"
| "ham_status_code HAM_PREFIX_REQUEST_FULLKEY = -17"
| "ham_status_code HAM_IO_ERROR = -18"
| "ham_status_code HAM_CACHE_FULL = -19"
| "ham_status_code HAM_NOT_IMPLEMENTED = -20"
| "ham_status_code HAM_FILE_NOT_FOUND = -21"
| "ham_status_code HAM_WOULD_BLOCK = -22"
| "ham_status_code HAM_NOT_READY = -23"
| "ham_status_code HAM_LIMITS_REACHED = -24"
| "ham_status_code HAM_ACCESS_DENIED = -25"
| "ham_status_code HAM_ALREADY_INITIALIZED = -27"
| "ham_status_code HAM_NEED_RECOVERY = -28"
| "ham_status_code HAM_CURSOR_STILL_OPEN = -29"
| "ham_status_code HAM_FILTER_NOT_FOUND = -30"
| "ham_status_code HAM_TXN_CONFLICT = -31"
| "ham_status_code HAM_KEY_ERASED_IN_TXN = -32"
| "ham_status_code HAM_TXN_STILL_OPEN = -33"
| "ham_status_code HAM_CURSOR_IS_NIL = -100"
| "ham_status_code HAM_DATABASE_NOT_FOUND = -200"
| "ham_status_code HAM_DATABASE_ALREADY_EXISTS = -201"
| "ham_status_code HAM_DATABASE_ALREADY_OPEN = -202"
| "ham_status_code HAM_ENVIRONMENT_ALREADY_OPEN = -203"
| "ham_status_code HAM_LOG_INV_FILE_HEADER = -300"
| "ham_status_code HAM_NETWORK_ERROR = -400"

section \<open>Little-endian images of packed structures\<close>

primrec le_bytes :: "nat \<Rightarrow> nat \<Rightarrow> byte list" where
  "le_bytes 0 v = []"
| "le_bytes (Suc n) v = of_nat v # le_bytes n (v div 256)"

fun le_nat :: "byte list \<Rightarrow> nat" where
  "le_nat [] = 0"
| "le_nat (b # bs) = unat b + 256 * le_nat bs"

definition put_u16 :: "u16 \<Rightarrow> byte list" where
  "put_u16 w = le_bytes 2 (unat w)"

definition put_u32 :: "u32 \<Rightarrow> byte list" where
  "put_u32 w = le_bytes 4 (unat w)"

definition put_u64 :: "u64 \<Rightarrow> byte list" where
  "put_u64 w = le_bytes 8 (unat w)"

text \<open>Reading a field at a byte offset of a structure image.\<close>

definition get_u16 :: "nat \<Rightarrow> byte list \<Rightarrow> u16" where
  "get_u16 i bs = of_nat (le_nat (take 2 (drop i bs)))"

definition get_u32 :: "nat \<Rightarrow> byte list \<Rightarrow> u32" where
  "get_u32 i bs = of_nat (le_nat (take 4 (drop i bs)))"

definition get_u64 :: "nat \<Rightarrow> byte list \<Rightarrow> u64" where
  "get_u64 i bs = of_nat (le_nat (take 8 (drop i bs)))"

text \<open>Flags of an environment that several components test.\<close>

definition HAM_ENABLE_RECOVERY :: u32 where "HAM_ENABLE_RECOVERY = 0x8000"
definition HAM_OVERWRITE :: u32 where "HAM_OVERWRITE = 1"
definition HAM_PARTIAL :: u32 where "HAM_PARTIAL = 0x80"

text \<open>Flags of an insertion and of a lookup, and the marks an approximate lookup leaves in the key.\<close>

definition HAM_DUPLICATE :: u32 where "HAM_DUPLICATE = 2"
definition HAM_FIND_LT_MATCH :: u32 where "HAM_FIND_LT_MATCH = 0x1000"
definition HAM_FIND_GT_MATCH :: u32 where "HAM_FIND_GT_MATCH = 0x2000"
definition HAM_FIND_EXACT_MATCH :: u32 where "HAM_FIND_EXACT_MATCH = 0x4000"
definition HAM_FIND_LEQ_MATCH :: u32 where "HAM_FIND_LEQ_MATCH = HAM_FIND_LT_MATCH OR HAM_FIND_EXACT_MATCH"
definition HAM_FIND_GEQ_MATCH :: u32 where "HAM_FIND_GEQ_MATCH = HAM_FIND_GT_MATCH OR HAM_FIND_EXACT_MATCH"
definition KEY_IS_LT :: u32 where "KEY_IS_LT = 0x10000"
definition KEY_IS_GT :: u32 where "KEY_IS_GT = 0x20000"
definition KEY_IS_APPROXIMATE :: u32 where "KEY_IS_APPROXIMATE = KEY_IS_LT OR KEY_IS_GT"
definition HAM_ERASE_ALL_DUPLICATES :: u32 where "HAM_ERASE_ALL_DUPLICATES = 1"
definition HAM_SKIP_DUPLICATES :: u32 where "HAM_SKIP_DUPLICATES = 0x10"

text \<open>Flags of an entry: how its record is stored, and whether it has duplicates.\<close>

definition KEY_BLOB_SIZE_TINY :: byte where "KEY_BLOB_SIZE_TINY = 1"
definition KEY_BLOB_SIZE_SMALL :: byte where "KEY_BLOB_SIZE_SMALL = 2"
definition KEY_BLOB_SIZE_EMPTY :: byte where "KEY_BLOB_SIZE_EMPTY = 4"
definition KEY_IS_EXTENDED8 :: byte where "KEY_IS_EXTENDED8 = 8"
definition KEY_HAS_DUPLICATES :: byte where "KEY_HAS_DUPLICATES = 0x10"

named_theorems encoding \<open>lengths and round trips of the structure images\<close>

lemma length_le_bytes [simp]: "length (le_bytes n v) = n"
  by (induction n arbitrary: v) simp_all

lemma le_nat_le_bytes: "le_nat (le_bytes n v) = v mod 256 ^ n"
proof (induction n arbitrary: v)
  case 0
  then show ?case by simp
next
  case (Suc n)
  have "v mod 256 + 256 * (v div 256 mod 256 ^ n) = v mod (256 * 256 ^ n)"
    by (simp add: mod_mult2_eq)
  then show ?case by (simp add: Suc unat_of_nat)
qed

lemma le_nat_append: "le_nat (xs @ ys) = le_nat xs + 256 ^ length xs * le_nat ys"
  by (induction xs) (simp_all add: algebra_simps)

lemma length_put [simp, encoding]:
  "length (put_u16 a) = 2" "length (put_u32 b) = 4" "length (put_u64 c) = 8"
  by (simp_all add: put_u16_def put_u32_def put_u64_def)

lemma unat_lt2p_aux: "unat (w :: 'a :: len word) < 2 ^ LENGTH('a)"
  by (rule unsigned_less)

lemma unat_bound [simp]:
  "unat (a :: u16) < 65536" "unat (b :: u32) < 4294967296"
  "unat (c :: u64) < 18446744073709551616"
  using unat_lt2p_aux [of a] unat_lt2p_aux [of b] unat_lt2p_aux [of c] by simp_all

text \<open>
  A field that starts at offset \<open>length pre\<close> of an image is read back unchanged,
  whatever precedes and follows it.
\<close>

lemma get_u16_put [encoding]: "i = length pre \<Longrightarrow> get_u16 i (pre @ put_u16 w @ suf) = w"
  by (simp add: get_u16_def put_u16_def le_nat_le_bytes)

lemma get_u32_put [encoding]: "i = length pre \<Longrightarrow> get_u32 i (pre @ put_u32 w @ suf) = w"
  by (simp add: get_u32_def put_u32_def le_nat_le_bytes)

lemma get_u64_put [encoding]: "i = length pre \<Longrightarrow> get_u64 i (pre @ put_u64 w @ suf) = w"
  by (simp add: get_u64_def put_u64_def le_nat_le_bytes)

section \<open>Words as bounded numbers\<close>

lemma unat_of_nat64 [simp]: "n < 18446744073709551616 \<Longrightarrow> unat (of_nat n :: u64) = n"
  by (simp add: unat_of_nat)

lemma unat_ucast32 [simp]:
  "n < 4294967296 \<Longrightarrow> unat (ucast (of_nat n :: u64) :: u32) = n"
  by (simp add: unsigned_of_nat take_bit_nat_eq_self unat_of_nat)

lemma of_nat64_mod_8 [simp]: "8 dvd n \<Longrightarrow> n < 18446744073709551616 \<Longrightarrow> (of_nat n :: u64) mod 8 = 0"
  by (simp add: word_unat_eq_iff unat_mod)

lemma of_nat64_le: "m < 18446744073709551616 \<Longrightarrow> n < 18446744073709551616 \<Longrightarrow>
   (of_nat m :: u64) \<le> of_nat n \<longleftrightarrow> m \<le> n"
  by (simp add: word_le_nat_alt)

lemma of_nat64_inject: "m < 18446744073709551616 \<Longrightarrow> n < 18446744073709551616 \<Longrightarrow>
   (of_nat m :: u64) = of_nat n \<longleftrightarrow> m = n"
  by (simp add: word_unat_eq_iff)

section \<open>Generic list lemmas\<close>

lemma shrink_by_append [simp]:
  "i < n \<Longrightarrow> xs \<noteq> [] \<Longrightarrow> n - (i + length xs) < n - i"
  by (cases xs) auto

lemma find_SomeD: "find P xs = Some x \<Longrightarrow> x \<in> set xs \<and> P x"
  by (induction xs) (auto split: if_splits)

lemma find_NoneD: "find P xs = None \<Longrightarrow> x \<in> set xs \<Longrightarrow> \<not> P x"
  by (auto simp: find_None_iff)

lemma take_drop_mid: "take (length b) (drop (length a) (a @ b @ c)) = b"
  by simp

text \<open>Reading a field of a packed structure: skip the fields before it, then decode.\<close>

lemma get_skip [encoding]:
  "length xs \<le> i \<Longrightarrow> get_u16 i (xs @ ys) = get_u16 (i - length xs) ys"
  "length xs \<le> i \<Longrightarrow> get_u32 i (xs @ ys) = get_u32 (i - length xs) ys"
  "length xs \<le> i \<Longrightarrow> get_u64 i (xs @ ys) = get_u64 (i - length xs) ys"
  by (simp_all add: get_u16_def get_u32_def get_u64_def)

lemma get_here [encoding]:
  "get_u16 0 (put_u16 w @ ys) = w" "get_u16 0 (put_u16 w) = w"
  "get_u32 0 (put_u32 v @ ys) = v" "get_u32 0 (put_u32 v) = v"
  "get_u64 0 (put_u64 u @ ys) = u" "get_u64 0 (put_u64 u) = u"
  using get_u16_put [of 0 "[]" w ys] get_u16_put [of 0 "[]" w "[]"] get_u32_put [of 0 "[]" v ys]
    get_u32_put [of 0 "[]" v "[]"] get_u64_put [of 0 "[]" u ys] get_u64_put [of 0 "[]" u "[]"]
  by simp_all

end
