(* ===== verification/Os_Posix.thy ===== *)
theory Os_Posix
  imports Ham_Prelude
begin

text \<open>
  The operating system layer of \<open>src/os_posix.cc\<close>. An open file is its contents, the
  file pointer and a script of outcomes of the system calls still to come: an entry
  \<open>r < 0\<close> makes the next call fail, an entry \<open>r \<ge> 0\<close> bounds what the next transfer
  moves (a short read or write), and an exhausted script lets every call succeed in
  full. \<open>lseek\<close> on an open regular file fails only for offsets a signed 64-bit
  \<open>off_t\<close> cannot hold, so it takes no entry of the script.
\<close>

record os_file =
  fdata :: "byte list"
  fpos :: nat
  fscript :: "int list"

definition off_max :: nat where
  "off_max = 9223372036854775808"

subsection \<open>System calls\<close>

definition sys_result :: "os_file \<Rightarrow> nat \<Rightarrow> int \<times> os_file" where
  "sys_result f n =
     (case fscript f of
        [] \<Rightarrow> (int n, f)
      | r # rs \<Rightarrow> (min r (int n), f\<lparr>fscript := rs\<rparr>))"

text \<open>
  The contents after storing \<open>bs\<close> at offset \<open>a\<close>: a gap is filled with zeros, a
  transfer of no bytes changes nothing.
\<close>

definition write_at :: "byte list \<Rightarrow> nat \<Rightarrow> byte list \<Rightarrow> byte list" where
  "write_at d a bs =
     (if bs = [] then d
      else take a d @ replicate (a - length d) 0 @ bs @ drop (a + length bs) d)"

definition sys_pread :: "os_file \<Rightarrow> nat \<Rightarrow> nat \<Rightarrow> int \<times> byte list \<times> os_file" where
  "sys_pread f addr len =
     (let avail = take len (drop addr (fdata f));
          (r, f') = sys_result f (length avail)
      in if r < 0 \<or> addr \<ge> off_max then (-1, [], f') else (r, take (nat r) avail, f'))"

definition sys_pwrite :: "os_file \<Rightarrow> nat \<Rightarrow> byte list \<Rightarrow> int \<times> os_file" where
  "sys_pwrite f addr bs =
     (let (r, f') = sys_result f (length bs)
      in if r < 0 \<or> addr \<ge> off_max then (-1, f')
         else (r, f'\<lparr>fdata := write_at (fdata f') addr (take (nat r) bs)\<rparr>))"

definition sys_write :: "os_file \<Rightarrow> byte list \<Rightarrow> int \<times> os_file" where
  "sys_write f bs =
     (let (r, f') = sys_pwrite f (fpos f) bs
      in if r < 0 then (r, f') else (r, f'\<lparr>fpos := fpos f + nat r\<rparr>))"

subsection \<open>Reading and writing\<close>

function os_pread_loop ::
  "os_file \<Rightarrow> nat \<Rightarrow> byte list \<Rightarrow> nat \<Rightarrow> ham_status \<times> byte list \<times> os_file" where
  "os_pread_loop f addr acc bufferlen =
     (if length acc < bufferlen then
        (case sys_pread f (addr + length acc) (bufferlen - length acc) of
           (r, bs, f') \<Rightarrow>
             if r < 0 then (HAM_IO_ERROR, acc, f')
             else if bs = [] then (HAM_IO_ERROR, acc, f')
             else os_pread_loop f' addr (acc @ bs) bufferlen)
      else if length acc = bufferlen then (HAM_SUCCESS, acc, f)
      else (HAM_IO_ERROR, acc, f))"
  by pat_completeness auto
termination
  by (relation "measure (\<lambda>(f, addr, acc, n). n - length acc)") auto

definition os_pread :: "os_file \<Rightarrow> nat \<Rightarrow> nat \<Rightarrow> ham_status \<times> byte list \<times> os_file" where
  "os_pread f addr bufferlen = os_pread_loop f addr [] bufferlen"

function os_write_loop ::
  "os_file \<Rightarrow> byte list \<Rightarrow> nat \<Rightarrow> ham_status \<times> os_file" where
  "os_write_loop f buf tot =
     (if tot < length buf then
        (case sys_write f (drop tot buf) of
           (w, f') \<Rightarrow>
             if w < 0 then (HAM_IO_ERROR, f')
             else if w = 0 then (HAM_IO_ERROR, f')
             else os_write_loop f' buf (tot + nat w))
      else if tot = length buf then (HAM_SUCCESS, f)
      else (HAM_IO_ERROR, f))"
  by pat_completeness auto
termination
  by (relation "measure (\<lambda>(f, buf, tot). length buf - tot)") auto

definition os_write :: "os_file \<Rightarrow> byte list \<Rightarrow> ham_status \<times> os_file" where
  "os_write f buf = os_write_loop f buf 0"

definition os_seek_set :: "os_file \<Rightarrow> nat \<Rightarrow> ham_status \<times> os_file" where
  "os_seek_set f offset =
     (if offset \<ge> off_max then (HAM_IO_ERROR, f) else (HAM_SUCCESS, f\<lparr>fpos := offset\<rparr>))"

definition os_seek_end :: "os_file \<Rightarrow> ham_status \<times> os_file" where
  "os_seek_end f = os_seek_set f (length (fdata f))"

definition os_tell :: "os_file \<Rightarrow> nat" where
  "os_tell f = fpos f"

text \<open>
  The loop of \<open>os_pwrite\<close> hands the whole buffer to every \<open>pwrite\<close> call: only the
  file offset advances, neither the buffer pointer nor the remaining length does.
\<close>

function os_pwrite_loop ::
  "os_file \<Rightarrow> nat \<Rightarrow> byte list \<Rightarrow> nat \<Rightarrow> ham_status \<times> nat \<times> os_file" where
  "os_pwrite_loop f addr buf tot =
     (if tot < length buf then
        (case sys_pwrite f (addr + tot) buf of
           (s, f') \<Rightarrow>
             if s < 0 then (HAM_IO_ERROR, tot, f')
             else if s = 0 then (HAM_IO_ERROR, tot, f')
             else os_pwrite_loop f' addr buf (tot + nat s))
      else if tot \<noteq> length buf then (HAM_IO_ERROR, tot, f)
      else (HAM_SUCCESS, tot, f))"
  by pat_completeness auto
termination
  by (relation "measure (\<lambda>(f, addr, buf, tot). length buf - tot)") auto

definition os_pwrite :: "os_file \<Rightarrow> nat \<Rightarrow> byte list \<Rightarrow> ham_status \<times> os_file" where
  "os_pwrite f addr buf =
     (case os_pwrite_loop f addr buf 0 of
        (st, tot, f') \<Rightarrow>
          if st = HAM_SUCCESS then os_seek_set f' (addr + tot) else (st, f'))"

text \<open>
  \<open>os_writev\<close> gathers the buffers that are not null into one \<open>writev\<close> call at the
  file pointer; a short write is an error, but the bytes it moved stay in the file.
\<close>

definition os_writev :: "os_file \<Rightarrow> byte list option list \<Rightarrow> ham_status \<times> os_file" where
  "os_writev f bufs =
     (let bs = concat (map (case_option [] id) bufs);
          (w, f') = sys_write f bs
      in if w = -1 then (HAM_IO_ERROR, f')
         else if w \<noteq> int (length bs) then (HAM_IO_ERROR, f')
         else (HAM_SUCCESS, f'))"

definition os_get_filesize :: "os_file \<Rightarrow> ham_status \<times> nat \<times> os_file" where
  "os_get_filesize f =
     (case os_seek_end f of
        (st, f') \<Rightarrow> if st \<noteq> HAM_SUCCESS then (st, 0, f') else (HAM_SUCCESS, os_tell f', f'))"

definition os_truncate :: "os_file \<Rightarrow> nat \<Rightarrow> ham_status \<times> os_file" where
  "os_truncate f newsize =
     (case sys_result f 0 of
        (r, f') \<Rightarrow>
          if r < 0 \<or> newsize \<ge> off_max then (HAM_IO_ERROR, f')
          else (HAM_SUCCESS, f'\<lparr>fdata := take newsize (fdata f') @
                                   replicate (newsize - length (fdata f')) 0\<rparr>))"

definition os_flush :: "os_file \<Rightarrow> ham_status \<times> os_file" where
  "os_flush f =
     (case sys_result f 0 of
        (r, f') \<Rightarrow> if r < 0 then (HAM_IO_ERROR, f') else (HAM_SUCCESS, f'))"

definition os_close :: "os_file \<Rightarrow> ham_status \<times> os_file" where
  "os_close f =
     (case sys_result f 0 of
        (r, f') \<Rightarrow>
          if r < 0 then (HAM_IO_ERROR, f')
          else (case sys_result f' 0 of
                  (r', f'') \<Rightarrow> if r' < 0 then (HAM_IO_ERROR, f'') else (HAM_SUCCESS, f'')))"

text \<open>Opening and creating: the first script entry is for \<open>open\<close>, the next for \<open>flock\<close>.\<close>

definition lock_exclusive :: "os_file \<Rightarrow> ham_status \<times> os_file" where
  "lock_exclusive f =
     (case sys_result f 0 of
        (r, f') \<Rightarrow> if r < 0 then (HAM_WOULD_BLOCK, f') else (HAM_SUCCESS, f'))"

definition os_create :: "int list \<Rightarrow> ham_status \<times> os_file" where
  "os_create script =
     (case sys_result \<lparr>fdata = [], fpos = 0, fscript = script\<rparr> 0 of
        (r, f) \<Rightarrow> if r < 0 then (HAM_IO_ERROR, f) else lock_exclusive f)"

definition os_open :: "byte list option \<Rightarrow> int list \<Rightarrow> ham_status \<times> os_file" where
  "os_open content script =
     (case content of
        None \<Rightarrow> (HAM_FILE_NOT_FOUND, \<lparr>fdata = [], fpos = 0, fscript = script\<rparr>)
      | Some d \<Rightarrow>
          (case sys_result \<lparr>fdata = d, fpos = 0, fscript = script\<rparr> 0 of
             (r, f) \<Rightarrow> if r < 0 then (HAM_IO_ERROR, f) else lock_exclusive f))"

section \<open>Properties\<close>

declare os_pread_loop.simps [simp del] os_write_loop.simps [simp del]
  os_pwrite_loop.simps [simp del]

text \<open>One round of each loop, as conditional equations that evaluate closed calls.\<close>

lemma os_pread_loop_step:
  "length acc < n \<Longrightarrow> os_pread_loop f addr acc n =
     (case sys_pread f (addr + length acc) (n - length acc) of
        (r, bs, f') \<Rightarrow> if r < 0 \<or> bs = [] then (HAM_IO_ERROR, acc, f')
                       else os_pread_loop f' addr (acc @ bs) n)"
  by (simp add: os_pread_loop.simps [of f] split: prod.split)

lemma os_pread_loop_done: "length acc = n \<Longrightarrow> os_pread_loop f addr acc n = (HAM_SUCCESS, acc, f)"
  by (simp add: os_pread_loop.simps)

lemma os_write_loop_step:
  "i < length buf \<Longrightarrow> os_write_loop f buf i =
     (case sys_write f (drop i buf) of
        (w, f') \<Rightarrow> if w \<le> 0 then (HAM_IO_ERROR, f') else os_write_loop f' buf (i + nat w))"
  by (simp add: os_write_loop.simps [of f] split: prod.split)

lemma os_write_loop_done: "i = length buf \<Longrightarrow> os_write_loop f buf i = (HAM_SUCCESS, f)"
  by (simp add: os_write_loop.simps)

lemma os_pwrite_loop_step:
  "i < length buf \<Longrightarrow> os_pwrite_loop f addr buf i =
     (case sys_pwrite f (addr + i) buf of
        (w, f') \<Rightarrow> if w \<le> 0 then (HAM_IO_ERROR, i, f')
                   else os_pwrite_loop f' addr buf (i + nat w))"
  by (simp add: os_pwrite_loop.simps [of f] split: prod.split)

lemma os_pwrite_loop_done: "i = length buf \<Longrightarrow> os_pwrite_loop f addr buf i = (HAM_SUCCESS, i, f)"
  by (simp add: os_pwrite_loop.simps)

lemmas os_loops = os_pread_loop_step os_pread_loop_done os_write_loop_step os_write_loop_done
  os_pwrite_loop_step os_pwrite_loop_done

named_theorems os_ok \<open>behaviour of the system layer when no call fails\<close>

lemma sys_result_ok [os_ok]: "fscript f = [] \<Longrightarrow> sys_result f n = (int n, f)"
  by (simp add: sys_result_def)

lemma sys_result_le: "sys_result f n = (r, f') \<Longrightarrow> r \<le> int n"
  by (auto simp: sys_result_def split: list.splits)

lemma sys_result_frame:
  "sys_result f n = (r, f') \<Longrightarrow> fdata f' = fdata f \<and> fpos f' = fpos f"
  by (auto simp: sys_result_def split: list.splits)

lemma length_write_at:
  "length (write_at d a bs) = (if bs = [] then length d else max (length d) (a + length bs))"
  by (auto simp: write_at_def max_def)

lemma write_at_end [simp]: "write_at d (length d) bs = d @ bs"
  by (simp add: write_at_def)

lemma drop_write_at:
  "bs \<noteq> [] \<Longrightarrow> take (length bs) (drop a (write_at d a bs)) = bs"
  by (cases "a \<le> length d") (simp_all add: write_at_def)

lemma sys_pread_bytes:
  assumes "sys_pread f addr len = (r, bs, f')"
  shows "bs = take (nat r) (take len (drop addr (fdata f)))"
    and "fdata f' = fdata f" and "fpos f' = fpos f" and "length bs \<le> len"
    and "0 \<le> r \<Longrightarrow> nat r = length bs"
proof -
  let ?avail = "take len (drop addr (fdata f))"
  obtain q g where q: "sys_result f (length ?avail) = (q, g)" by (cases "sys_result f (length ?avail)")
  note fr = sys_result_frame [OF q] sys_result_le [OF q]
  show "bs = take (nat r) ?avail" and "fdata f' = fdata f" and "fpos f' = fpos f"
    using assms q fr by (auto simp: sys_pread_def split: if_splits)
  then show "length bs \<le> len" by simp
  assume "0 \<le> r"
  then have "r = q" "bs = take (nat q) ?avail"
    using assms q by (auto simp: sys_pread_def split: if_splits)
  then show "nat r = length bs" using fr(2) by simp
qed

text \<open>
  Short reads do not matter to \<open>os_pread\<close>: whenever it reports success the buffer
  holds exactly the requested bytes of the file, and the file is unchanged.
\<close>

lemma os_pread_loop_sound:
  assumes "os_pread_loop f addr acc n = (HAM_SUCCESS, bs, f')"
    and "acc = take (length acc) (drop addr (fdata f))"
  shows "bs = take n (drop addr (fdata f)) \<and> length bs = n \<and>
         fdata f' = fdata f \<and> fpos f' = fpos f"
  using assms
proof (induction f addr acc n rule: os_pread_loop.induct)
  case (1 f addr acc n)
  show ?case
  proof (cases "length acc < n")
    case False
    with "1.prems" show ?thesis
      by (auto simp: os_pread_loop.simps [of f] split: if_splits)
  next
    case True
    obtain r b g where s: "sys_pread f (addr + length acc) (n - length acc) = (r, b, g)"
      by (metis prod_cases3)
    note sb = sys_pread_bytes [OF s]
    from True s "1.prems"(1) have nz: "\<not> r < 0" "b \<noteq> []"
      and rec: "os_pread_loop g addr (acc @ b) n = (HAM_SUCCESS, bs, f')"
      by (auto simp: os_pread_loop.simps [of f] split: if_splits)
    have "b = take (length b) (drop (length acc) (drop addr (fdata f)))"
      using sb(1,4,5) nz by (simp add: min_def add.commute)
    then have "acc @ b = take (length (acc @ b)) (drop addr (fdata g))"
      using "1.prems"(2) sb(2) by (metis append_take_drop_id length_append take_add)
    from "1.IH" [OF True s [symmetric] refl nz rec this] sb(2,3) show ?thesis by metis
  qed
qed

lemma os_pread_sound:
  assumes "os_pread f addr n = (HAM_SUCCESS, bs, f')"
  shows "bs = take n (drop addr (fdata f))" "length bs = n"
    "fdata f' = fdata f" "fpos f' = fpos f"
  using os_pread_loop_sound [of f addr "[]" n bs f'] assms by (auto simp: os_pread_def)

lemma os_pread_ok [os_ok]:
  assumes "fscript f = []" and "addr + n \<le> length (fdata f)" and "addr + n < off_max"
  shows "os_pread f addr n = (HAM_SUCCESS, take n (drop addr (fdata f)), f)"
proof (cases "n = 0")
  case True
  then show ?thesis by (simp add: os_pread_def os_pread_loop.simps)
next
  case False
  from assms have len: "length (take n (drop addr (fdata f))) = n" by simp
  then have ne: "take n (drop addr (fdata f)) \<noteq> []" using False by auto
  from assms False have "sys_pread f addr n = (int n, take n (drop addr (fdata f)), f)"
    by (simp add: sys_pread_def sys_result_ok)
  with False len ne show ?thesis
    by (simp add: os_pread_def os_pread_loop.simps [of f] os_pread_loop.simps [of f _ "take n _"])
qed

lemma os_pread_beyond [os_ok]:
  assumes "fscript f = []" and "length (fdata f) \<le> addr" and "0 < n"
  shows "os_pread f addr n = (HAM_IO_ERROR, [], f)"
  using assms by (simp add: os_pread_def os_pread_loop.simps [of f] sys_pread_def sys_result_ok)

lemma os_pwrite_ok [os_ok]:
  assumes "fscript f = []" and "addr + length buf < off_max" and "buf \<noteq> []"
  shows "os_pwrite f addr buf =
    (HAM_SUCCESS, f\<lparr>fdata := write_at (fdata f) addr buf, fpos := addr + length buf\<rparr>)"
  using assms
  by (simp add: os_pwrite_def os_pwrite_loop.simps [of f] sys_pwrite_def sys_result_ok
      os_pwrite_loop.simps [of _ _ _ "length buf"] os_seek_set_def)

lemma os_write_ok [os_ok]:
  assumes "fscript f = []" and "fpos f < off_max" and "buf \<noteq> []"
  shows "os_write f buf = (HAM_SUCCESS, f\<lparr>fdata := write_at (fdata f) (fpos f) buf,
                                           fpos := fpos f + length buf\<rparr>)"
  using assms
  by (simp add: os_write_def os_write_loop.simps [of f] sys_write_def sys_pwrite_def
      sys_result_ok os_write_loop.simps [of _ _ "length buf"])

lemma os_writev_ok [os_ok]:
  assumes "fscript f = []" and "fpos f < off_max"
  shows "os_writev f bufs =
    (let bs = concat (map (case_option [] id) bufs)
     in (HAM_SUCCESS, f\<lparr>fdata := write_at (fdata f) (fpos f) bs, fpos := fpos f + length bs\<rparr>))"
  using assms by (simp add: os_writev_def sys_write_def sys_pwrite_def sys_result_ok Let_def)

lemma os_get_filesize_ok [os_ok]:
  "length (fdata f) < off_max \<Longrightarrow>
   os_get_filesize f = (HAM_SUCCESS, length (fdata f), f\<lparr>fpos := length (fdata f)\<rparr>)"
  by (simp add: os_get_filesize_def os_seek_end_def os_seek_set_def os_tell_def)

lemma os_truncate_ok [os_ok]:
  "fscript f = [] \<Longrightarrow> n \<le> length (fdata f) \<Longrightarrow> n < off_max \<Longrightarrow>
   os_truncate f n = (HAM_SUCCESS, f\<lparr>fdata := take n (fdata f)\<rparr>)"
  by (simp add: os_truncate_def sys_result_ok)

lemma write_at_append:
  "a \<le> length d \<Longrightarrow> write_at (write_at d a xs) (a + length xs) ys = write_at d a (xs @ ys)"
  by (cases "xs = [] \<or> ys = []") (auto simp: write_at_def ac_simps)

lemma sys_write_moves:
  assumes "sys_write f bs = (w, f')" and "0 \<le> w"
  shows "nat w \<le> length bs" and "fpos f' = fpos f + nat w"
    and "fdata f' = write_at (fdata f) (fpos f) (take (nat w) bs)"
proof -
  obtain q g where q: "sys_result f (length bs) = (q, g)" by (cases "sys_result f (length bs)")
  show "nat w \<le> length bs" "fpos f' = fpos f + nat w"
    "fdata f' = write_at (fdata f) (fpos f) (take (nat w) bs)"
    using assms q sys_result_le [OF q] sys_result_frame [OF q]
    by (auto simp: sys_write_def sys_pwrite_def split: if_splits)
qed

lemma os_write_loop_sound:
  assumes "os_write_loop f buf i = (HAM_SUCCESS, f')" and "fpos f \<le> length (fdata f)"
    and "i \<le> length buf"
  shows "fdata f' = write_at (fdata f) (fpos f) (drop i buf) \<and>
         fpos f' = fpos f + (length buf - i)"
  using assms
proof (induction f buf i rule: os_write_loop.induct)
  case (1 f buf i)
  show ?case
  proof (cases "i < length buf")
    case False
    with "1.prems" show ?thesis
      by (auto simp: os_write_loop.simps [of f] write_at_def split: if_splits)
  next
    case True
    obtain w g where s: "sys_write f (drop i buf) = (w, g)" by (cases "sys_write f (drop i buf)")
    from True s "1.prems"(1) have nz: "\<not> w < 0" "w \<noteq> 0"
      and rec: "os_write_loop g buf (i + nat w) = (HAM_SUCCESS, f')"
      by (auto simp: os_write_loop.simps [of f] split: if_splits)
    then have w: "0 \<le> w" by simp
    note mv = sys_write_moves [OF s w]
    have ge: "fpos g \<le> length (fdata g)" and le: "i + nat w \<le> length buf"
      using mv "1.prems"(2) True by (auto simp: length_write_at)
    have "take (nat w) (drop i buf) @ drop (i + nat w) buf = drop i buf"
      by (metis add.commute append_take_drop_id drop_drop)
    then have "write_at (write_at (fdata f) (fpos f) (take (nat w) (drop i buf)))
        (fpos f + nat w) (drop (i + nat w) buf) = write_at (fdata f) (fpos f) (drop i buf)"
      using write_at_append [OF "1.prems"(2), of "take (nat w) (drop i buf)" "drop (i + nat w) buf"]
        mv(1) by simp
    with "1.IH" [OF True s [symmetric] nz rec ge le] mv le show ?thesis by simp
  qed
qed

text \<open>
  \<open>os_pread\<close> tolerates short reads: for every sequence of system call outcomes,
  when it reports success the buffer holds exactly the requested range of the file,
  the whole range lies inside the file, and the file is unchanged.
\<close>

theorem os_pread_exact:
  assumes "os_pread f addr n = (HAM_SUCCESS, bs, f')"
  shows "bs = take n (drop addr (fdata f)) \<and> length bs = n \<and>
         addr + n \<le> max addr (length (fdata f)) \<and> fdata f' = fdata f \<and> fpos f' = fpos f"
  using os_pread_sound [OF assms] by auto

theorem os_pread_exact_witness:
  "os_pread \<lparr>fdata = [1, 2, 3, 4], fpos = 0, fscript = [1]\<rparr> 1 2
     = (HAM_SUCCESS, [2, 3], \<lparr>fdata = [1, 2, 3, 4], fpos = 0, fscript = []\<rparr>) \<and>
   [2, 3] = take 2 (drop 1 [1, 2, 3, 4 :: byte])"
proof -
  have h: "os_pread \<lparr>fdata = [1, 2, 3, 4], fpos = 0, fscript = [1]\<rparr> 1 2
     = (HAM_SUCCESS, [2, 3], \<lparr>fdata = [1, 2, 3, 4], fpos = 0, fscript = []\<rparr>)"
    by (simp add: os_pread_def os_loops sys_pread_def sys_result_def off_max_def)
  show ?thesis by (rule conjI [OF h]) (use os_pread_exact [OF h] in simp)
qed

text \<open>
  \<open>os_write\<close> tolerates short writes: for every sequence of system call outcomes,
  when it reports success the whole buffer is in the file at the old file pointer,
  which has advanced by exactly the length of the buffer.
\<close>

theorem os_write_complete:
  assumes "os_write f buf = (HAM_SUCCESS, f')" and "fpos f \<le> length (fdata f)"
  shows "fdata f' = write_at (fdata f) (fpos f) buf \<and> fpos f' = fpos f + length buf"
  using os_write_loop_sound [of f buf 0 f'] assms by (simp add: os_write_def)

theorem os_write_complete_witness:
  "let f = \<lparr>fdata = [9], fpos = 1, fscript = [2]\<rparr>;
       f' = \<lparr>fdata = [9, 1, 2, 3], fpos = 4, fscript = []\<rparr>
   in os_write f [1, 2, 3] = (HAM_SUCCESS, f') \<and> fdata f' = write_at (fdata f) 1 [1, 2, 3]"
proof -
  let ?f = "\<lparr>fdata = [9], fpos = 1, fscript = [2]\<rparr>"
  let ?g = "\<lparr>fdata = [9, 1, 2, 3], fpos = 4, fscript = []\<rparr>"
  have h: "os_write ?f [1, 2, 3] = (HAM_SUCCESS, ?g)"
    by (simp add: os_write_def os_loops sys_write_def sys_pwrite_def sys_result_def
        off_max_def write_at_def)
  show ?thesis using h os_write_complete [OF h] by simp
qed

text \<open>
  \<open>os_pwrite\<close> does not resume after a short write: if the first \<open>pwrite\<close> moves only
  \<open>s\<close> bytes, the second one stores the whole buffer again, \<open>s\<close> bytes further. The call
  then reports an I/O error although every system call succeeded, the requested range
  holds a corrupted mixture, and \<open>s\<close> bytes behind it are overwritten.
\<close>

theorem os_pwrite_short_write_corrupts:
  assumes "fscript f = [s]" and "0 < s" and "s < int (length buf)"
    and "addr + length buf \<le> length (fdata f)" and "addr + length buf < off_max"
  shows "os_pwrite f addr buf =
    (HAM_IO_ERROR,
     f\<lparr>fscript := [], fdata := write_at (write_at (fdata f) addr (take (nat s) buf)) (addr + nat s) buf\<rparr>)"
proof -
  let ?g = "f\<lparr>fscript := [], fdata := write_at (fdata f) addr (take (nat s) buf)\<rparr>"
  have first: "sys_pwrite f addr buf = (s, ?g)"
    using assms by (simp add: sys_pwrite_def sys_result_def)
  have second: "sys_pwrite ?g (addr + nat s) buf =
      (int (length buf), ?g\<lparr>fdata := write_at (fdata ?g) (addr + nat s) buf\<rparr>)"
    using assms by (simp add: sys_pwrite_def sys_result_def)
  have "0 < length buf" "nat s < length buf" "0 < nat s" using assms by auto
  with first second assms(2) show ?thesis
    by (simp add: os_pwrite_def os_pwrite_loop.simps [of f] os_pwrite_loop.simps [of ?g]
        os_pwrite_loop.simps [of _ _ _ "nat s + length buf"])
qed

theorem os_pwrite_short_write_corrupts_witness:
  "os_pwrite \<lparr>fdata = [0, 0, 0, 7], fpos = 0, fscript = [1]\<rparr> 0 [1, 2, 3]
   = (HAM_IO_ERROR, \<lparr>fdata = [1, 1, 2, 3], fpos = 0, fscript = []\<rparr>)"
  using os_pwrite_short_write_corrupts
    [of "\<lparr>fdata = [0, 0, 0, 7], fpos = 0, fscript = [1]\<rparr>" 1 "[1, 2, 3]" 0]
  by (simp add: off_max_def write_at_def)

end
