(* ===== verification/Dlist_Heap.thy ===== *)
theory Dlist_Heap
  imports Main
begin

text \<open>
  The contract of an intrusive doubly linked list. Pages, transactions, transaction
  operations and cursors are all nodes of such lists: the links are fields of the
  objects, and every operation is a sequence of link assignments on the shared store.
  The locale fixes the four accessors of one pair of link fields and proves once what
  the source's link sequences do to the list a head pointer represents.
\<close>

definition head_of :: "'p list \<Rightarrow> 'p option" where
  "head_of xs = (case xs of [] \<Rightarrow> None | x # _ \<Rightarrow> Some x)"

definition last_of :: "'p list \<Rightarrow> 'p option" where
  "last_of xs = (if xs = [] then None else Some (last xs))"

text \<open>
  \<open>chain nxt prv q xs e\<close>: the nodes \<open>xs\<close> are linked in order, the back link of the first
  is \<open>q\<close> and the forward link of the last is \<open>e\<close>.
\<close>

fun chain ::
  "('p \<Rightarrow> 'p option) \<Rightarrow> ('p \<Rightarrow> 'p option) \<Rightarrow> 'p option \<Rightarrow> 'p list \<Rightarrow> 'p option \<Rightarrow> bool" where
  "chain nxt prv q [] e = True"
| "chain nxt prv q (x # xs) e =
     (prv x = q \<and> nxt x = (if xs = [] then e else head_of xs) \<and> chain nxt prv (Some x) xs e)"

definition dlist :: "('p \<Rightarrow> 'p option) \<Rightarrow> ('p \<Rightarrow> 'p option) \<Rightarrow> 'p list \<Rightarrow> bool" where
  "dlist nxt prv xs \<longleftrightarrow> distinct xs \<and> chain nxt prv None xs None"

lemma head_of_simps [simp]: "head_of [] = None" "head_of (x # xs) = Some x"
  by (simp_all add: head_of_def)

lemma last_of_simps [simp]: "last_of [] = None" "last_of (xs @ [x]) = Some x"
  by (simp_all add: last_of_def)

lemma last_of_Cons: "last_of (x # xs) = (if xs = [] then Some x else last_of xs)"
  by (simp add: last_of_def)

lemma head_of_append: "head_of (xs @ ys) = (if xs = [] then head_of ys else head_of xs)"
  by (cases xs) simp_all

lemma head_of_None [simp]: "head_of xs = None \<longleftrightarrow> xs = []"
  by (cases xs) simp_all

lemma last_of_None [simp]: "last_of xs = None \<longleftrightarrow> xs = []"
  by (simp add: last_of_def)

lemma head_of_Some: "head_of xs = Some x \<longleftrightarrow> (\<exists>ys. xs = x # ys)"
  by (cases xs) auto

lemma last_of_Some: "last_of xs = Some x \<longleftrightarrow> (\<exists>ys. xs = ys @ [x])"
  by (auto simp: last_of_def) (metis append_butlast_last_id)

lemma chain_cong:
  "(\<And>x. x \<in> set xs \<Longrightarrow> nxt x = nxt' x \<and> prv x = prv' x) \<Longrightarrow>
   chain nxt prv q xs e = chain nxt' prv' q xs e"
  by (induction xs arbitrary: q) auto

lemma chain_append:
  "chain nxt prv q (xs @ ys) e \<longleftrightarrow>
     chain nxt prv q xs (if ys = [] then e else head_of ys) \<and>
     chain nxt prv (if xs = [] then q else last_of xs) ys e"
  by (induction xs arbitrary: q) (auto simp: head_of_append last_of_Cons)

lemma dlist_cong:
  "(\<And>x. x \<in> set xs \<Longrightarrow> nxt x = nxt' x \<and> prv x = prv' x) \<Longrightarrow> dlist nxt prv xs = dlist nxt' prv' xs"
  unfolding dlist_def by (simp cong: chain_cong)

lemma dlist_Nil [simp]: "dlist nxt prv []"
  by (simp add: dlist_def)

lemma dlist_mid:
  assumes "dlist nxt prv (as @ x # bs)"
  shows "nxt x = head_of bs" and "prv x = last_of as"
  using assms by (auto simp: dlist_def chain_append split: if_splits)

lemma chain_upd_other:
  "x \<notin> set xs \<Longrightarrow> chain (nxt(x := v)) prv q xs e = chain nxt prv q xs e"
  "x \<notin> set xs \<Longrightarrow> chain nxt (prv(x := v)) q xs e = chain nxt prv q xs e"
  by (rule chain_cong; auto)+

lemma chain_new_back: "distinct (x # xs) \<Longrightarrow> chain nxt prv q (x # xs) e \<Longrightarrow>
   chain nxt (prv(x := v)) v (x # xs) e"
  by (auto simp: chain_upd_other)

lemma chain_new_end:
  assumes "distinct (xs @ [x])" and "chain nxt prv q (xs @ [x]) e"
  shows "chain (nxt(x := v)) prv q (xs @ [x]) v"
  using assms by (auto simp: chain_append chain_upd_other)

lemma dlist_push_front:
  assumes "dlist nxt prv xs" and "x \<notin> set xs"
  shows "dlist (nxt(x := head_of xs))
    ((case head_of xs of None \<Rightarrow> prv | Some h \<Rightarrow> prv(h := Some x))(x := None)) (x # xs)"
proof (cases xs)
  case Nil
  then show ?thesis by (simp add: dlist_def)
next
  case (Cons h t)
  with assms have "chain nxt (prv(h := Some x)) (Some x) (h # t) None"
    by (intro chain_new_back) (auto simp: dlist_def)
  with Cons assms show ?thesis by (auto simp: dlist_def chain_upd_other)
qed

lemma dlist_push_back:
  assumes "dlist nxt prv xs" and "x \<notin> set xs"
  shows "dlist ((case last_of xs of None \<Rightarrow> nxt | Some l \<Rightarrow> nxt(l := Some x))(x := None))
    (prv(x := last_of xs)) (xs @ [x])"
proof (cases xs rule: rev_cases)
  case Nil
  then show ?thesis by (simp add: dlist_def)
next
  case (snoc t l)
  with assms have "chain (nxt(l := Some x)) prv None (t @ [l]) (Some x)"
    by (intro chain_new_end) (auto simp: dlist_def)
  with snoc assms show ?thesis
    by (auto simp: dlist_def chain_append chain_upd_other)
qed

lemma dlist_unlink:
  assumes d: "dlist nxt prv (as @ x # bs)"
  shows "dlist ((case last_of as of None \<Rightarrow> nxt | Some a \<Rightarrow> nxt(a := head_of bs))(x := None))
    ((case head_of bs of None \<Rightarrow> prv | Some b \<Rightarrow> prv(b := last_of as))(x := None)) (as @ bs)"
    (is "dlist ?n ?p _")
proof -
  from d have dis: "distinct (as @ bs)" "x \<notin> set as" "x \<notin> set bs" by (auto simp: dlist_def)
  from d have c: "chain nxt prv None as (Some x)" "chain nxt prv (Some x) bs None"
    by (auto simp: dlist_def chain_append)
  have l: "chain ?n ?p None as (head_of bs)"
  proof (cases as rule: rev_cases)
    case (snoc t a)
    with c(1) dis have "chain (nxt(a := head_of bs)) prv None (t @ [a]) (head_of bs)"
      by (intro chain_new_end) auto
    with snoc dis show ?thesis by (cases bs) (auto simp: chain_upd_other)
  qed simp
  have r: "chain ?n ?p (last_of as) bs None"
  proof (cases bs)
    case (Cons b t)
    with c(2) dis have "chain nxt (prv(b := last_of as)) (last_of as) (b # t) None"
      by (intro chain_new_back) auto
    with Cons dis show ?thesis
      by (cases as rule: rev_cases) (auto simp: chain_upd_other)
  qed simp
  from l r dis show ?thesis by (cases "as = []"; cases "bs = []") (auto simp: dlist_def chain_append)
qed

text \<open>
  Links of a list point only into the list, so the code's membership test (a link is
  set, or the node is the head) is exact for a node whose links are clear outside it.
\<close>

lemma dlist_member_iff:
  assumes "dlist nxt prv xs" and "x \<notin> set xs \<Longrightarrow> nxt x = None \<and> prv x = None"
  shows "(nxt x \<noteq> None \<or> prv x \<noteq> None \<or> head_of xs = Some x) \<longleftrightarrow> x \<in> set xs"
proof
  assume "x \<in> set xs"
  then obtain as bs where xs: "xs = as @ x # bs" by (auto simp: in_set_conv_decomp)
  with assms(1) have "prv x = last_of as" by (simp add: dlist_mid)
  then show "nxt x \<noteq> None \<or> prv x \<noteq> None \<or> head_of xs = Some x"
    by (cases as) (auto simp: xs head_of_append)
next
  assume "nxt x \<noteq> None \<or> prv x \<noteq> None \<or> head_of xs = Some x"
  then show "x \<in> set xs" using assms(2) by (cases "x \<in> set xs") (auto simp: head_of_Some)
qed

locale link_fields =
  fixes nxt :: "'s \<Rightarrow> 'p \<Rightarrow> 'p option"
    and prv :: "'s \<Rightarrow> 'p \<Rightarrow> 'p option"
    and set_nxt :: "'p \<Rightarrow> 'p option \<Rightarrow> 's \<Rightarrow> 's"
    and set_prv :: "'p \<Rightarrow> 'p option \<Rightarrow> 's \<Rightarrow> 's"
  assumes nxt_set_nxt: "nxt (set_nxt p q s) = (nxt s)(p := q)"
    and prv_set_nxt: "prv (set_nxt p q s) = prv s"
    and prv_set_prv: "prv (set_prv p q s) = (prv s)(p := q)"
    and nxt_set_prv: "nxt (set_prv p q s) = nxt s"
begin

lemmas link_simps = nxt_set_nxt prv_set_nxt prv_set_prv nxt_set_prv

text \<open>Clearing both links of a node and putting it in front of a list.\<close>

lemma link_front:
  assumes "dlist (nxt s) (prv s) xs" and "x \<notin> set xs"
    and "s' = (case head_of xs of
                 None \<Rightarrow> set_prv x None (set_nxt x None s)
               | Some h \<Rightarrow> set_prv h (Some x) (set_nxt x (Some h) (set_prv x None (set_nxt x None s))))"
  shows "dlist (nxt s') (prv s') (x # xs)"
    and "\<And>y. y \<noteq> x \<Longrightarrow> nxt s' y = nxt s y"
    and "\<And>y. y \<notin> set (x # xs) \<Longrightarrow> prv s' y = prv s y"
proof -
  have n: "nxt s' = (nxt s)(x := head_of xs)"
    and p: "prv s' = (case head_of xs of None \<Rightarrow> prv s | Some h \<Rightarrow> (prv s)(h := Some x))(x := None)"
    using assms(2,3) by (auto simp: link_simps head_of_Some fun_eq_iff split: option.splits)
  from dlist_push_front [OF assms(1,2)] show "dlist (nxt s') (prv s') (x # xs)"
    by (simp add: n p)
  show "\<And>y. y \<noteq> x \<Longrightarrow> nxt s' y = nxt s y" by (simp add: n)
  show "\<And>y. y \<notin> set (x # xs) \<Longrightarrow> prv s' y = prv s y"
    by (auto simp: p head_of_Some split: option.splits)
qed

text \<open>Unlinking a node: its neighbours are joined and its own links cleared.\<close>

lemma unlink:
  assumes d: "dlist (nxt s) (prv s) (as @ x # bs)"
    and s1: "s1 = (case last_of as of None \<Rightarrow> s | Some a \<Rightarrow> set_nxt a (head_of bs) s)"
    and s2: "s2 = (case head_of bs of None \<Rightarrow> s1 | Some b \<Rightarrow> set_prv b (last_of as) s1)"
    and s': "s' = set_prv x None (set_nxt x None s2)"
  shows "dlist (nxt s') (prv s') (as @ bs)"
    and "nxt s' x = None" "prv s' x = None"
    and "\<And>y. y \<notin> set (as @ x # bs) \<Longrightarrow> nxt s' y = nxt s y \<and> prv s' y = prv s y"
proof -
  have n: "nxt s' = (case last_of as of None \<Rightarrow> nxt s | Some a \<Rightarrow> (nxt s)(a := head_of bs))(x := None)"
    using s1 s2 s' by (auto simp: link_simps split: option.splits)
  have p: "prv s' = (case head_of bs of None \<Rightarrow> prv s | Some b \<Rightarrow> (prv s)(b := last_of as))(x := None)"
    using s1 s2 s' by (auto simp: link_simps split: option.splits)
  from dlist_unlink [OF d] show "dlist (nxt s') (prv s') (as @ bs)" by (simp add: n p)
  show "nxt s' x = None" "prv s' x = None" by (simp_all add: n p)
  show "\<And>y. y \<notin> set (as @ x # bs) \<Longrightarrow> nxt s' y = nxt s y \<and> prv s' y = prv s y"
    by (auto simp: n p head_of_Some last_of_Some split: option.splits)
qed

text \<open>Appending a node with clear links behind the last node of a list.\<close>

lemma link_back:
  assumes "dlist (nxt s) (prv s) xs" and "x \<notin> set xs"
    and "nxt s x = None" and "prv s x = None"
    and "s' = (case last_of xs of None \<Rightarrow> s | Some l \<Rightarrow> set_prv x (Some l) (set_nxt l (Some x) s))"
  shows "dlist (nxt s') (prv s') (xs @ [x])"
    and "\<And>y. y \<notin> set (xs @ [x]) \<Longrightarrow> nxt s' y = nxt s y \<and> prv s' y = prv s y"
proof -
  have n: "nxt s' = (case last_of xs of None \<Rightarrow> nxt s | Some l \<Rightarrow> (nxt s)(l := Some x))(x := None)"
    using assms(2-) by (auto simp: link_simps last_of_Some fun_eq_iff split: option.splits)
  have p: "prv s' = (prv s)(x := last_of xs)"
    using assms(2-) by (auto simp: link_simps fun_eq_iff split: option.splits)
  from dlist_push_back [OF assms(1,2)] show "dlist (nxt s') (prv s') (xs @ [x])"
    by (simp add: n p)
  show "\<And>y. y \<notin> set (xs @ [x]) \<Longrightarrow> nxt s' y = nxt s y \<and> prv s' y = prv s y"
    by (auto simp: n p last_of_Some split: option.splits)
qed

end

end
