(* ===== verification/Ham_Page.thy ===== *)
theory Ham_Page
  imports Os_Posix Dlist_Heap
begin

text \<open>
  The \<open>Page\<close> class of \<open>src/page.h\<close> without its device operations: its fields and the
  three intrusive linked lists it is a node of. Pages live in a store from page
  references to page objects, so that list surgery is surgery on the shared
  \<open>m_next\<close>/\<open>m_prev\<close> arrays, as in the code. The cursor list of a page is left out here.
\<close>

type_synonym pid = nat

record page =
  p_self :: u64
  p_flags :: u32
  p_dirty :: bool
  p_pers :: "byte list option"
  p_prev :: "nat \<Rightarrow> pid option"
  p_next :: "nat \<Rightarrow> pid option"

type_synonym page_store = "pid \<Rightarrow> page"

definition LIST_BUCKET :: nat where "LIST_BUCKET = 0"
definition LIST_CACHED :: nat where "LIST_CACHED = 1"
definition LIST_CHANGESET :: nat where "LIST_CHANGESET = 2"

definition NPERS_MALLOC :: u32 where "NPERS_MALLOC = 1"
definition NPERS_DELETE_PENDING :: u32 where "NPERS_DELETE_PENDING = 2"
definition NPERS_NO_HEADER :: u32 where "NPERS_NO_HEADER = 4"

definition TYPE_UNKNOWN :: u32 where "TYPE_UNKNOWN = 0x00000000"
definition TYPE_HEADER :: u32 where "TYPE_HEADER = 0x10000000"
definition TYPE_B_ROOT :: u32 where "TYPE_B_ROOT = 0x20000000"
definition TYPE_B_INDEX :: u32 where "TYPE_B_INDEX = 0x30000000"
definition TYPE_FREELIST :: u32 where "TYPE_FREELIST = 0x40000000"
definition TYPE_BLOB :: u32 where "TYPE_BLOB = 0x50000000"

definition is_header :: "page \<Rightarrow> bool" where
  "is_header p \<longleftrightarrow> p_self p = 0"

text \<open>The page type is the first, little-endian, field of the persistent header.\<close>

definition page_get_type :: "page \<Rightarrow> u32" where
  "page_get_type p = get_u32 0 (case_option [] id (p_pers p))"

subsection \<open>Intrusive doubly linked lists\<close>

definition set_next :: "nat \<Rightarrow> pid \<Rightarrow> pid option \<Rightarrow> page_store \<Rightarrow> page_store" where
  "set_next w p q S = S(p := (S p)\<lparr>p_next := (p_next (S p))(w := q)\<rparr>)"

definition set_previous :: "nat \<Rightarrow> pid \<Rightarrow> pid option \<Rightarrow> page_store \<Rightarrow> page_store" where
  "set_previous w p q S = S(p := (S p)\<lparr>p_prev := (p_prev (S p))(w := q)\<rparr>)"

definition get_next :: "nat \<Rightarrow> page_store \<Rightarrow> pid \<Rightarrow> pid option" where
  "get_next w S p = p_next (S p) w"

definition get_previous :: "nat \<Rightarrow> page_store \<Rightarrow> pid \<Rightarrow> pid option" where
  "get_previous w S p = p_prev (S p) w"

definition is_in_list :: "page_store \<Rightarrow> pid \<Rightarrow> pid option \<Rightarrow> nat \<Rightarrow> bool" where
  "is_in_list S p list_head w \<longleftrightarrow>
     get_next w S p \<noteq> None \<or> get_previous w S p \<noteq> None \<or> list_head = Some p"

definition list_insert ::
  "page_store \<Rightarrow> pid \<Rightarrow> pid option \<Rightarrow> nat \<Rightarrow> pid option \<times> page_store" where
  "list_insert S p list_head w =
     (let S1 = set_previous w p None (set_next w p None S) in
      case list_head of
        None \<Rightarrow> (Some p, S1)
      | Some h \<Rightarrow> (Some p, set_previous w h (Some p) (set_next w p (Some h) S1)))"

definition list_remove ::
  "page_store \<Rightarrow> pid \<Rightarrow> pid option \<Rightarrow> nat \<Rightarrow> pid option \<times> page_store" where
  "list_remove S p list_head w =
     (if list_head = Some p then
        (let n = get_next w S p;
             S1 = (case n of None \<Rightarrow> S | Some q \<Rightarrow> set_previous w q None S)
         in (n, set_previous w p None (set_next w p None S1)))
      else
        (let n = get_next w S p;
             pr = get_previous w S p;
             S1 = (case pr of None \<Rightarrow> S | Some q \<Rightarrow> set_next w q n S);
             S2 = (case n of None \<Rightarrow> S1 | Some q \<Rightarrow> set_previous w q pr S1)
         in (list_head, set_previous w p None (set_next w p None S2))))"


section \<open>Properties\<close>

text \<open>Every list index \<open>w\<close> of the page arrays is one pair of link fields.\<close>

interpretation page_links: link_fields "get_next w" "get_previous w" "set_next w" "set_previous w" for w
  by unfold_locales (auto simp: get_next_def get_previous_def set_next_def set_previous_def)

text \<open>
  Two stores are equal away from the links of list \<open>w\<close>: list surgery on one list touches
  neither the other lists nor any other field of a page.
\<close>

definition same_page :: "nat \<Rightarrow> page \<Rightarrow> page \<Rightarrow> bool" where
  "same_page w a b \<longleftrightarrow>
     p_self b = p_self a \<and> p_flags b = p_flags a \<and> p_dirty b = p_dirty a \<and>
     p_pers b = p_pers a \<and>
     (\<forall>v. v \<noteq> w \<longrightarrow> p_next b v = p_next a v \<and> p_prev b v = p_prev a v)"

definition same_but_links :: "nat \<Rightarrow> page_store \<Rightarrow> page_store \<Rightarrow> bool" where
  "same_but_links w S S' \<longleftrightarrow> (\<forall>p. same_page w (S p) (S' p))"

lemma same_page_upd [simp]:
  "same_page w a (b\<lparr>p_next := (p_next b)(w := q)\<rparr>) = same_page w a b"
  "same_page w a (b\<lparr>p_prev := (p_prev b)(w := q)\<rparr>) = same_page w a b"
  by (auto simp: same_page_def)

lemma same_but_links_refl [simp]: "same_but_links w S S"
  by (simp add: same_but_links_def same_page_def)

lemma same_but_links_trans:
  "same_but_links w S S' \<Longrightarrow> same_but_links w S' S'' \<Longrightarrow> same_but_links w S S''"
  by (simp add: same_but_links_def same_page_def)

lemma same_but_links_set [simp]:
  "same_but_links w S (set_next w p q S') = same_but_links w S S'"
  "same_but_links w S (set_previous w p q S') = same_but_links w S S'"
  by (auto simp: same_but_links_def set_next_def set_previous_def)

lemma same_but_links_fields:
  assumes "same_but_links w S S'"
  shows "p_self (S' p) = p_self (S p)" "p_flags (S' p) = p_flags (S p)"
    "p_dirty (S' p) = p_dirty (S p)" "p_pers (S' p) = p_pers (S p)"
    "v \<noteq> w \<Longrightarrow> get_next v S' p = get_next v S p"
    "v \<noteq> w \<Longrightarrow> get_previous v S' p = get_previous v S p"
  using assms by (auto simp: same_but_links_def same_page_def get_next_def get_previous_def)

abbreviation page_list :: "nat \<Rightarrow> page_store \<Rightarrow> pid list \<Rightarrow> bool" where
  "page_list w S xs \<equiv> dlist (get_next w S) (get_previous w S) xs"

definition unlinked :: "nat \<Rightarrow> page_store \<Rightarrow> pid \<Rightarrow> bool" where
  "unlinked w S p \<longleftrightarrow> get_next w S p = None \<and> get_previous w S p = None"

lemma is_in_list_iff:
  assumes "page_list w S xs" and "p \<notin> set xs \<Longrightarrow> unlinked w S p"
  shows "is_in_list S p (head_of xs) w \<longleftrightarrow> p \<in> set xs"
  using dlist_member_iff [OF assms(1), of p] assms(2)
  by (simp add: is_in_list_def unlinked_def)

lemma list_insert_frame:
  "list_insert S p h w = (h', S') \<Longrightarrow> same_but_links w S S' \<and> h' = Some p"
  by (auto simp: list_insert_def Let_def split: option.splits)

lemma list_remove_frame: "list_remove S p h w = (h', S') \<Longrightarrow> same_but_links w S S'"
  by (auto simp: list_remove_def Let_def split: option.splits if_splits)

lemma list_insert_list:
  assumes "page_list w S xs" and "p \<notin> set xs" and "list_insert S p (head_of xs) w = (h', S')"
  shows "page_list w S' (p # xs)" and "\<And>q. q \<notin> set (p # xs) \<Longrightarrow>
    get_next w S' q = get_next w S q \<and> get_previous w S' q = get_previous w S q"
proof -
  have eq: "S' = (case head_of xs of
        None \<Rightarrow> set_previous w p None (set_next w p None S)
      | Some h \<Rightarrow> set_previous w h (Some p) (set_next w p (Some h)
                   (set_previous w p None (set_next w p None S))))"
    using assms(3) by (auto simp: list_insert_def Let_def split: option.splits)
  note * = page_links.link_front [OF assms(1,2) eq]
  from * show "page_list w S' (p # xs)" by simp
  fix q assume "q \<notin> set (p # xs)"
  with * show "get_next w S' q = get_next w S q \<and> get_previous w S' q = get_previous w S q"
    by auto
qed

lemma list_remove_list:
  assumes d: "page_list w S (as @ p # bs)" and r: "list_remove S p (head_of (as @ p # bs)) w = (h', S')"
  shows "page_list w S' (as @ bs)" and "h' = head_of (as @ bs)" and "unlinked w S' p"
    and "\<And>q. q \<notin> set (as @ p # bs) \<Longrightarrow>
      get_next w S' q = get_next w S q \<and> get_previous w S' q = get_previous w S q"
proof -
  note mid = dlist_mid [OF d]
  from d have hd: "head_of (as @ p # bs) = Some p \<longleftrightarrow> as = []"
    by (cases as) (auto simp: dlist_def)
  define S1 where "S1 = (case last_of as of None \<Rightarrow> S | Some a \<Rightarrow> set_next w a (head_of bs) S)"
  define S2 where "S2 = (case head_of bs of None \<Rightarrow> S1 | Some b \<Rightarrow> set_previous w b (last_of as) S1)"
  have S': "S' = set_previous w p None (set_next w p None S2)" and h': "h' = head_of (as @ bs)"
    using r hd mid
    by (auto simp: list_remove_def S1_def S2_def Let_def head_of_append split: if_splits option.splits)
  note * = page_links.unlink [OF d S1_def S2_def S']
  from * show "page_list w S' (as @ bs)" "unlinked w S' p" by (simp_all add: unlinked_def)
  show "h' = head_of (as @ bs)" by (rule h')
  fix q assume "q \<notin> set (as @ p # bs)"
  with *(4) show "get_next w S' q = get_next w S q \<and> get_previous w S' q = get_previous w S q"
    by simp
qed

end
