(* ===== verification/Ham_Cache.thy ===== *)
theory Ham_Cache
  imports Ham_Page
begin

text \<open>
  The page cache of \<open>src/cache.h\<close> and \<open>src/cache.cc\<close>: a list of all cached pages in the
  order of their last use and a hash table of buckets, both threaded through the link
  fields of the pages. The bucket vector has a fixed size and is indexed modulo that
  size only, so it is a function of the bucket number. Loops over linked lists return
  an option, \<open>None\<close> standing for a traversal that does not end.
\<close>

definition CACHE_BUCKET_SIZE :: u64 where "CACHE_BUCKET_SIZE = 10317"
definition HAM_DEFAULT_CACHESIZE :: u64 where "HAM_DEFAULT_CACHESIZE = 2097152"
definition NOREMOVE :: u32 where "NOREMOVE = 1"

record cache =
  c_capacity :: u64
  c_cur_elements :: u64
  c_totallist :: "pid option"
  c_totallist_tail :: "pid option"
  c_buckets :: "u64 \<Rightarrow> pid option"

definition cache_new :: "u64 \<Rightarrow> cache" where
  "cache_new capacity_bytes =
     \<lparr>c_capacity = (if capacity_bytes = 0 then HAM_DEFAULT_CACHESIZE else capacity_bytes),
      c_cur_elements = 0, c_totallist = None, c_totallist_tail = None,
      c_buckets = (\<lambda>_. None)\<rparr>"

definition calc_hash :: "u64 \<Rightarrow> u64" where
  "calc_hash o' = o' mod CACHE_BUCKET_SIZE"

definition remove_page :: "page_store \<Rightarrow> cache \<Rightarrow> pid \<Rightarrow> page_store \<times> cache" where
  "remove_page S c p =
     (let c1 = (if c_totallist_tail c = Some p
                then c\<lparr>c_totallist_tail := get_previous LIST_CACHED S p\<rparr> else c);
          (S2, c2) =
            (if p_self (S p) \<noteq> 0 then
               (let hash = calc_hash (p_self (S p)) in
                if is_in_list S p (c_buckets c1 hash) LIST_BUCKET then
                  (case list_remove S p (c_buckets c1 hash) LIST_BUCKET of
                     (h, S') \<Rightarrow> (S', c1\<lparr>c_buckets := (c_buckets c1)(hash := h)\<rparr>))
                else (S, c1))
             else (S, c1))
      in if is_in_list S2 p (c_totallist c2) LIST_CACHED then
           (case list_remove S2 p (c_totallist c2) LIST_CACHED of
              (h, S') \<Rightarrow> (S', c2\<lparr>c_totallist := h, c_cur_elements := c_cur_elements c2 - 1\<rparr>))
         else (S2, c2))"

definition put_page :: "page_store \<Rightarrow> cache \<Rightarrow> pid \<Rightarrow> page_store \<times> cache" where
  "put_page S c p =
     (let hash = calc_hash (p_self (S p));
          (S1, c1) = (if is_in_list S p (c_totallist c) LIST_CACHED
                      then remove_page S c p else (S, c));
          (h, S2) = list_insert S1 p (c_totallist c1) LIST_CACHED;
          c2 = c1\<lparr>c_totallist := h, c_cur_elements := c_cur_elements c1 + 1\<rparr>;
          (b, S3) = (if is_in_list S2 p (c_buckets c2 hash) LIST_BUCKET
                     then list_remove S2 p (c_buckets c2 hash) LIST_BUCKET
                     else (c_buckets c2 hash, S2));
          (b', S4) = list_insert S3 p b LIST_BUCKET;
          c3 = c2\<lparr>c_buckets := (c_buckets c2)(hash := b')\<rparr>
      in (S4, if c_totallist_tail c3 = None then c3\<lparr>c_totallist_tail := Some p\<rparr> else c3))"

partial_function (option) bucket_search ::
  "page_store \<Rightarrow> u64 \<Rightarrow> pid option \<Rightarrow> pid option option" where
  "bucket_search S address pg =
     (case pg of
        None \<Rightarrow> Some None
      | Some p \<Rightarrow>
          if p_self (S p) = address then Some (Some p)
          else bucket_search S address (get_next LIST_BUCKET S p))"

definition get_page ::
  "page_store \<Rightarrow> cache \<Rightarrow> u64 \<Rightarrow> u32 \<Rightarrow> (pid option \<times> page_store \<times> cache) option" where
  "get_page S c address flags =
     (case bucket_search S address (c_buckets c (calc_hash address)) of
        None \<Rightarrow> None
      | Some None \<Rightarrow> Some (None, S, c)
      | Some (Some p) \<Rightarrow>
          (case remove_page S c p of
             (S1, c1) \<Rightarrow>
               if flags AND NOREMOVE \<noteq> 0
               then (case put_page S1 c1 p of (S2, c2) \<Rightarrow> Some (Some p, S2, c2))
               else Some (Some p, S1, c1)))"

text \<open>
  The search for a victim starts at the oldest page and follows the back links until a
  page is found that is in no changeset.
\<close>

partial_function (option) unused_search ::
  "page_store \<Rightarrow> pid option \<Rightarrow> pid \<Rightarrow> pid \<Rightarrow> pid option option" where
  "unused_search S cs_head oldest p =
     (if \<not> is_in_list S p cs_head LIST_CHANGESET then Some (Some p)
      else (case get_previous LIST_CACHED S p of
              None \<Rightarrow> Some None
            | Some q \<Rightarrow>
                if q = oldest then Some (Some q) else unused_search S cs_head oldest q))"

definition get_unused_page ::
  "page_store \<Rightarrow> cache \<Rightarrow> pid option \<Rightarrow> (pid option \<times> page_store \<times> cache) option" where
  "get_unused_page S c cs_head =
     (case c_totallist_tail c of
        None \<Rightarrow> Some (None, S, c)
      | Some oldest \<Rightarrow>
          (case unused_search S cs_head oldest oldest of
             None \<Rightarrow> None
           | Some None \<Rightarrow> Some (None, S, c)
           | Some (Some p) \<Rightarrow>
               (case remove_page S c p of (S1, c1) \<Rightarrow> Some (Some p, S1, c1))))"

definition is_too_big :: "cache \<Rightarrow> u32 \<Rightarrow> bool" where
  "is_too_big c pagesize \<longleftrightarrow> c_cur_elements c * ucast pagesize > c_capacity c"

partial_function (option) count_list_from ::
  "page_store \<Rightarrow> pid option \<Rightarrow> u32 \<Rightarrow> u32 option" where
  "count_list_from S pg elements =
     (case pg of
        None \<Rightarrow> Some elements
      | Some p \<Rightarrow> count_list_from S (get_next LIST_CACHED S p) (elements + 1))"

definition cache_check_integrity :: "page_store \<Rightarrow> cache \<Rightarrow> ham_status option" where
  "cache_check_integrity S c =
     (case count_list_from S (c_totallist c) 0 of
        None \<Rightarrow> None
      | Some elements \<Rightarrow>
          Some (if c_cur_elements c \<noteq> ucast elements then HAM_INTEGRITY_VIOLATED else HAM_SUCCESS))"

section \<open>Invariant and abstraction\<close>

text \<open>
  \<open>cache_rep S c xs bs\<close>: the cache holds the pages \<open>xs\<close>, most recently used first, and
  bucket \<open>h\<close> is the list \<open>bs h\<close> of the cached pages whose address hashes to \<open>h\<close>.
\<close>

definition cache_rep :: "page_store \<Rightarrow> cache \<Rightarrow> pid list \<Rightarrow> (u64 \<Rightarrow> pid list) \<Rightarrow> bool" where
  "cache_rep S c xs bs \<longleftrightarrow>
     page_list LIST_CACHED S xs \<and> c_totallist c = head_of xs \<and>
     c_totallist_tail c = last_of xs \<and> c_cur_elements c = of_nat (length xs) \<and>
     (\<forall>h. page_list LIST_BUCKET S (bs h) \<and> c_buckets c h = head_of (bs h) \<and>
          set (bs h) = {p \<in> set xs. calc_hash (p_self (S p)) = h}) \<and>
     (\<forall>p. p \<notin> set xs \<longrightarrow> unlinked LIST_CACHED S p \<and> unlinked LIST_BUCKET S p) \<and>
     (\<forall>p \<in> set xs. p_self (S p) \<noteq> 0)"

definition cache_holds :: "page_store \<Rightarrow> cache \<Rightarrow> pid list \<Rightarrow> bool" where
  "cache_holds S c xs \<longleftrightarrow> (\<exists>bs. cache_rep S c xs bs)"


lemma list_index_neq [simp]:
  "LIST_BUCKET \<noteq> LIST_CACHED" "LIST_CACHED \<noteq> LIST_BUCKET"
  "LIST_CHANGESET \<noteq> LIST_CACHED" "LIST_CHANGESET \<noteq> LIST_BUCKET"
  by (simp_all add: LIST_BUCKET_def LIST_CACHED_def LIST_CHANGESET_def)

lemma cache_repD:
  assumes "cache_rep S c xs bs"
  shows "page_list LIST_CACHED S xs" "c_totallist c = head_of xs"
    "c_totallist_tail c = last_of xs" "c_cur_elements c = of_nat (length xs)"
    "page_list LIST_BUCKET S (bs h)" "c_buckets c h = head_of (bs h)"
    "set (bs h) = {p \<in> set xs. calc_hash (p_self (S p)) = h}"
    "p \<notin> set xs \<Longrightarrow> unlinked LIST_CACHED S p" "p \<notin> set xs \<Longrightarrow> unlinked LIST_BUCKET S p"
    "p \<in> set xs \<Longrightarrow> p_self (S p) \<noteq> 0" "distinct xs"
  using assms by (auto simp: cache_rep_def dlist_def)

lemma cache_new_rep: "(\<And>p. unlinked LIST_CACHED S p \<and> unlinked LIST_BUCKET S p) \<Longrightarrow>
   cache_rep S (cache_new cap) [] (\<lambda>_. [])"
  by (simp add: cache_rep_def cache_new_def)

text \<open>Store changes that leave the links of a list's nodes alone leave the list alone.\<close>

lemma page_list_frame:
  "(\<And>q. q \<in> set xs \<Longrightarrow> get_next w S' q = get_next w S q \<and> get_previous w S' q = get_previous w S q) \<Longrightarrow>
   page_list w S xs \<Longrightarrow> page_list w S' xs"
  using dlist_cong [of xs "get_next w S'" "get_next w S" "get_previous w S'" "get_previous w S"]
  by simp

lemma page_list_other:
  "same_but_links v S S' \<Longrightarrow> w \<noteq> v \<Longrightarrow> page_list w S' xs = page_list w S xs"
  by (rule dlist_cong) (simp add: same_but_links_fields)

lemma unlinked_other: "same_but_links v S S' \<Longrightarrow> w \<noteq> v \<Longrightarrow> unlinked w S' p = unlinked w S p"
  by (simp add: unlinked_def same_but_links_fields)

lemma last_of_remove:
  assumes "distinct (as @ p # zs)"
  shows "(if last_of (as @ p # zs) = Some p then last_of as else last_of (as @ p # zs)) = last_of (as @ zs)"
  using assms by (cases zs rule: rev_cases) (auto simp: last_of_def)

text \<open>\<open>remove_page\<close> of a cached page unlinks it from both lists and nothing else.\<close>

lemma remove_page_rep:
  assumes rep: "cache_rep S c (as @ p # zs) bs" and r: "remove_page S c p = (S', c')"
  shows "cache_rep S' c' (as @ zs) (bs(calc_hash (p_self (S p)) := removeAll p (bs (calc_hash (p_self (S p))))))"
    and "\<And>q. p_self (S' q) = p_self (S q)"
    and "\<And>w q. w \<noteq> LIST_CACHED \<Longrightarrow> w \<noteq> LIST_BUCKET \<Longrightarrow>
      get_next w S' q = get_next w S q \<and> get_previous w S' q = get_previous w S q"
proof -
  let ?xs = "as @ p # zs" and ?h = "calc_hash (p_self (S p))"
  note R = cache_repD [OF rep]
  have "p \<in> set (bs ?h)" using R(7) by simp
  then obtain cs ds where b: "bs ?h = cs @ p # ds" by (auto simp: in_set_conv_decomp)
  then have cd: "removeAll p (bs ?h) = cs @ ds"
    using R(5) [of ?h] by (simp add: dlist_def)
  define t where "t = last_of (as @ zs)"
  define c1 where "c1 = c\<lparr>c_totallist_tail := t\<rparr>"
  have c1: "(if c_totallist_tail c = Some p
      then c\<lparr>c_totallist_tail := get_previous LIST_CACHED S p\<rparr> else c) = c1"
    using last_of_remove [OF R(11)] R(3) dlist_mid(2) [OF R(1)]
    by (auto simp: c1_def t_def split: if_splits)
  obtain hb S1 where b1: "list_remove S p (c_buckets c ?h) LIST_BUCKET = (hb, S1)"
    by (cases "list_remove S p (c_buckets c ?h) LIST_BUCKET")
  have inb: "is_in_list S p (c_buckets c ?h) LIST_BUCKET"
    using is_in_list_iff [OF R(5) [of ?h], of p] b R(6) by simp
  have fr1: "same_but_links LIST_BUCKET S S1" by (rule list_remove_frame [OF b1])
  note B = list_remove_list [of LIST_BUCKET S cs p ds hb S1, folded b, OF R(5) b1 [unfolded R(6)]]
  have tot1: "page_list LIST_CACHED S1 ?xs" using R(1) page_list_other [OF fr1] by simp
  obtain ht S2 where b2: "list_remove S1 p (c_totallist c) LIST_CACHED = (ht, S2)"
    by (cases "list_remove S1 p (c_totallist c) LIST_CACHED")
  have int: "is_in_list S1 p (c_totallist c) LIST_CACHED"
    using is_in_list_iff [OF tot1, of p] R(2) by simp
  have fr2: "same_but_links LIST_CACHED S1 S2" by (rule list_remove_frame [OF b2])
  note T = list_remove_list [OF tot1 b2 [unfolded R(2)]]
  have res: "S' = S2" "c' = c\<lparr>c_totallist_tail := t, c_buckets := (c_buckets c)(?h := hb),
      c_totallist := ht, c_cur_elements := c_cur_elements c - 1\<rparr>"
    using r R(10) [of p] inb int b1 b2 c1
    by (simp_all add: remove_page_def Let_def c1_def)
  show self: "p_self (S' q) = p_self (S q)" for q
    using fr1 fr2 res(1) by (simp add: same_but_links_fields)
  show "w \<noteq> LIST_CACHED \<Longrightarrow> w \<noteq> LIST_BUCKET \<Longrightarrow>
      get_next w S' q = get_next w S q \<and> get_previous w S' q = get_previous w S q" for w q
    using fr1 fr2 res(1) by (simp add: same_but_links_fields)
  have bl: "page_list LIST_BUCKET S' ((bs(?h := cs @ ds)) h)" for h
  proof (cases "h = ?h")
    case True
    then show ?thesis using B(1) res(1) page_list_other [OF fr2] by simp
  next
    case False
    then have "q \<notin> set (bs ?h)" if "q \<in> set (bs h)" for q using that R(7) by auto
    then have "page_list LIST_BUCKET S1 (bs h)"
      using page_list_frame [of "bs h" LIST_BUCKET S1 S] B(4) b R(5) by auto
    then show ?thesis using False res(1) page_list_other [OF fr2] by simp
  qed
  have un: "unlinked LIST_CACHED S' q" "unlinked LIST_BUCKET S' q" if "q \<notin> set (as @ zs)" for q
  proof -
    show "unlinked LIST_CACHED S' q"
      using that T(3,4) R(8) [of q] res(1) unlinked_other [OF fr1, of LIST_CACHED]
      by (cases "q = p") (auto simp: unlinked_def)
    have "q \<noteq> p \<Longrightarrow> q \<notin> set (bs ?h)" using that R(7) by auto
    then show "unlinked LIST_BUCKET S' q"
      using that B(3,4) b R(9) [of q] res(1) unlinked_other [OF fr2, of LIST_BUCKET]
      by (cases "q = p") (auto simp: unlinked_def)
  qed
  have len: "c_cur_elements c - 1 = of_nat (length (as @ zs))" using R(4) by simp
  have sets: "set ((bs(?h := cs @ ds)) h) = {q \<in> set (as @ zs). calc_hash (p_self (S' q)) = h}" for h
  proof -
    have "set ((bs(?h := cs @ ds)) h) = set (bs h) - {p}"
      unfolding cd [symmetric] using R(7) [of h] by auto
    also have "\<dots> = {q \<in> set (as @ zs). calc_hash (p_self (S' q)) = h}"
      using R(7) [of h] R(11) self by auto
    finally show ?thesis .
  qed
  show "cache_rep S' c' (as @ zs) (bs(?h := removeAll p (bs ?h)))"
    unfolding cache_rep_def cd
    using T(1,2) res(2) len bl sets un R(6,10) B(2) self
    by (auto simp: t_def res(1))
qed


text \<open>The insertion half of \<open>put_page\<close>, on a page that is not cached.\<close>

lemma put_page_new:
  assumes rep: "cache_rep S c xs bs" and new: "p \<notin> set xs" and nz: "p_self (S p) \<noteq> 0"
    and r: "put_page S c p = (S', c')"
  shows "cache_rep S' c' (p # xs) (bs(calc_hash (p_self (S p)) := p # bs (calc_hash (p_self (S p)))))"
    and "\<And>q. p_self (S' q) = p_self (S q)"
    and "\<And>w q. w \<noteq> LIST_CACHED \<Longrightarrow> w \<noteq> LIST_BUCKET \<Longrightarrow>
      get_next w S' q = get_next w S q \<and> get_previous w S' q = get_previous w S q"
proof -
  let ?h = "calc_hash (p_self (S p))"
  note R = cache_repD [OF rep]
  have notin: "\<not> is_in_list S p (c_totallist c) LIST_CACHED"
    using is_in_list_iff [OF R(1), of p] new R(2,8) by simp
  obtain ht S1 where i1: "list_insert S p (c_totallist c) LIST_CACHED = (ht, S1)"
    by (cases "list_insert S p (c_totallist c) LIST_CACHED")
  have fr1: "same_but_links LIST_CACHED S S1" and ht: "ht = Some p"
    using list_insert_frame [OF i1] by simp_all
  note T = list_insert_list [OF R(1) new i1 [unfolded R(2)]]
  have bl1: "page_list LIST_BUCKET S1 (bs h)" for h
    using R(5) page_list_other [OF fr1] by simp
  have pb: "p \<notin> set (bs ?h)" using R(7) new by auto
  have notb: "\<not> is_in_list S1 p (c_buckets c ?h) LIST_BUCKET"
    using is_in_list_iff [OF bl1 [of ?h], of p] pb R(6,9) new unlinked_other [OF fr1, of LIST_BUCKET]
    by simp
  obtain hb S2 where i2: "list_insert S1 p (c_buckets c ?h) LIST_BUCKET = (hb, S2)"
    by (cases "list_insert S1 p (c_buckets c ?h) LIST_BUCKET")
  have fr2: "same_but_links LIST_BUCKET S1 S2" and hb: "hb = Some p"
    using list_insert_frame [OF i2] by simp_all
  note B = list_insert_list [OF bl1 pb i2 [unfolded R(6)]]
  have res: "S' = S2" "c' = c\<lparr>c_totallist := Some p, c_cur_elements := c_cur_elements c + 1,
      c_buckets := (c_buckets c)(?h := Some p), c_totallist_tail := last_of (p # xs)\<rparr>"
    using r notin notb i1 i2 ht hb R(3)
    by (auto simp: put_page_def Let_def last_of_Cons split: if_splits)
  show self: "p_self (S' q) = p_self (S q)" for q
    using fr1 fr2 res(1) by (simp add: same_but_links_fields)
  show "w \<noteq> LIST_CACHED \<Longrightarrow> w \<noteq> LIST_BUCKET \<Longrightarrow>
      get_next w S' q = get_next w S q \<and> get_previous w S' q = get_previous w S q" for w q
    using fr1 fr2 res(1) by (simp add: same_but_links_fields)
  have bl: "page_list LIST_BUCKET S' ((bs(?h := p # bs ?h)) h)" for h
  proof (cases "h = ?h")
    case False
    then have "q \<notin> set (p # bs ?h)" if "q \<in> set (bs h)" for q using that R(7) new by auto
    then have "page_list LIST_BUCKET S2 (bs h)"
      using page_list_frame [of "bs h" LIST_BUCKET S2 S1] B(2) bl1 by auto
    then show ?thesis using False res(1) by simp
  qed (use B(1) res(1) in simp)
  have un: "unlinked LIST_CACHED S' q" "unlinked LIST_BUCKET S' q" if "q \<notin> set (p # xs)" for q
  proof -
    show "unlinked LIST_CACHED S' q"
      using that T(2) R(8) [of q] res(1) unlinked_other [OF fr2, of LIST_CACHED]
      by (auto simp: unlinked_def)
    have "q \<notin> set (p # bs ?h)" using that R(7) by auto
    then show "unlinked LIST_BUCKET S' q"
      using that B(2) R(9) [of q] res(1) unlinked_other [OF fr1, of LIST_BUCKET]
      by (auto simp: unlinked_def)
  qed
  have tl: "page_list LIST_CACHED S' (p # xs)" using T(1) res(1) page_list_other [OF fr2] by simp
  have sets: "set ((bs(?h := p # bs ?h)) h) = {q \<in> set (p # xs). calc_hash (p_self (S' q)) = h}" for h
    using R(7) self by auto
  show "cache_rep S' c' (p # xs) (bs(?h := p # bs ?h))"
    unfolding cache_rep_def using tl bl sets un R(4,6,10) self nz
    by (auto simp: res(2) add.commute)
qed

lemma cache_holdsD:
  assumes "cache_holds S c xs"
  shows "distinct xs" "page_list LIST_CACHED S xs" "c_totallist c = head_of xs"
    "c_totallist_tail c = last_of xs" "c_cur_elements c = of_nat (length xs)"
    "p \<notin> set xs \<Longrightarrow> unlinked LIST_CACHED S p" "p \<in> set xs \<Longrightarrow> p_self (S p) \<noteq> 0"
  using assms by (auto simp: cache_holds_def dest: cache_repD)

lemma remove_page_holds:
  assumes "cache_holds S c xs" and "p \<in> set xs" and "remove_page S c p = (S', c')"
  shows "cache_holds S' c' (removeAll p xs)" and "p_self (S' q) = p_self (S q)"
    and "w \<noteq> LIST_CACHED \<Longrightarrow> w \<noteq> LIST_BUCKET \<Longrightarrow>
      get_next w S' q = get_next w S q \<and> get_previous w S' q = get_previous w S q"
proof -
  from assms(2) obtain as zs where xs: "xs = as @ p # zs" by (auto simp: in_set_conv_decomp)
  with cache_holdsD(1) [OF assms(1)] have ra: "removeAll p xs = as @ zs" by simp
  from assms(1) obtain bs where "cache_rep S c (as @ p # zs) bs" by (auto simp: cache_holds_def xs)
  note * = remove_page_rep [OF this assms(3)]
  then show "cache_holds S' c' (removeAll p xs)" unfolding ra by (auto simp: cache_holds_def)
  from * show "p_self (S' q) = p_self (S q)"
    and "w \<noteq> LIST_CACHED \<Longrightarrow> w \<noteq> LIST_BUCKET \<Longrightarrow>
      get_next w S' q = get_next w S q \<and> get_previous w S' q = get_previous w S q" by auto
qed

lemma put_page_split:
  assumes "cache_holds S c xs" and "p \<in> set xs"
  shows "put_page S c p = (case remove_page S c p of (S1, c1) \<Rightarrow> put_page S1 c1 p)"
proof -
  obtain S1 c1 where r: "remove_page S c p = (S1, c1)" by (cases "remove_page S c p")
  note D = cache_holdsD [OF assms(1)] and E = cache_holdsD [OF remove_page_holds(1) [OF assms r]]
  have "is_in_list S p (c_totallist c) LIST_CACHED"
    using is_in_list_iff [OF D(2), of p] D(3) assms(2) by simp
  moreover have "\<not> is_in_list S1 p (c_totallist c1) LIST_CACHED"
    using is_in_list_iff [OF E(2), of p] E(3,6) by simp
  ultimately show ?thesis
    using remove_page_holds(2) [OF assms r, of p] by (simp add: put_page_def r)
qed

lemma put_page_holds:
  assumes "cache_holds S c xs" and "p_self (S p) \<noteq> 0" and "put_page S c p = (S', c')"
  shows "cache_holds S' c' (p # removeAll p xs)" and "p_self (S' q) = p_self (S q)"
    and "w \<noteq> LIST_CACHED \<Longrightarrow> w \<noteq> LIST_BUCKET \<Longrightarrow>
      get_next w S' q = get_next w S q \<and> get_previous w S' q = get_previous w S q"
proof -
  obtain S1 c1 where h1: "cache_holds S1 c1 (removeAll p xs)"
    and p1: "put_page S1 c1 p = (S', c')" and s1: "\<And>q. p_self (S1 q) = p_self (S q)"
    and f1: "\<And>w q. w \<noteq> LIST_CACHED \<Longrightarrow> w \<noteq> LIST_BUCKET \<Longrightarrow>
      get_next w S1 q = get_next w S q \<and> get_previous w S1 q = get_previous w S q"
  proof (cases "p \<in> set xs")
    case True
    obtain S2 c2 where r: "remove_page S c p = (S2, c2)" by (cases "remove_page S c p")
    show ?thesis
      by (rule that [of S2 c2])
        (use remove_page_holds [OF assms(1) True r] put_page_split [OF assms(1) True] r assms(3) in auto)
  qed (use that [of S c] assms in auto)
  from h1 obtain bs where "cache_rep S1 c1 (removeAll p xs) bs" by (auto simp: cache_holds_def)
  note * = put_page_new [OF this _ _ p1]
  show "cache_holds S' c' (p # removeAll p xs)" using *(1) s1 assms(2) by (auto simp: cache_holds_def)
  show "p_self (S' q) = p_self (S q)" using *(2) s1 assms(2) by simp
  show "w \<noteq> LIST_CACHED \<Longrightarrow> w \<noteq> LIST_BUCKET \<Longrightarrow>
      get_next w S' q = get_next w S q \<and> get_previous w S' q = get_previous w S q"
    using *(3) f1 s1 assms(2) by auto
qed


subsection \<open>Lookup, victims, integrity\<close>

lemma bucket_search_find:
  "chain (get_next LIST_BUCKET S) prv q ys None \<Longrightarrow>
   bucket_search S a (head_of ys) = Some (find (\<lambda>p. p_self (S p) = a) ys)"
proof (induction ys arbitrary: q)
  case Nil
  then show ?case by (subst bucket_search.simps) simp
next
  case (Cons y ys)
  then have "get_next LIST_BUCKET S y = head_of ys" by (auto split: if_splits)
  with Cons show ?case by (subst bucket_search.simps) auto
qed

lemma find_bucket:
  assumes "cache_rep S c xs bs"
  shows "bucket_search S a (c_buckets c (calc_hash a)) =
           Some (find (\<lambda>p. p_self (S p) = a) (bs (calc_hash a)))"
  using bucket_search_find cache_repD(5,6) [OF assms] by (fastforce simp: dlist_def)

lemma get_page_hit:
  assumes h: "cache_holds S c xs" and g: "get_page S c a flags = Some (Some p, S', c')"
  shows "p \<in> set xs" and "p_self (S p) = a"
    and "cache_holds S' c' (if flags AND NOREMOVE \<noteq> 0 then p # removeAll p xs else removeAll p xs)"
    and "p_self (S' q) = p_self (S q)"
proof -
  from h obtain bs where rep: "cache_rep S c xs bs" by (auto simp: cache_holds_def)
  have fp: "find (\<lambda>p. p_self (S p) = a) (bs (calc_hash a)) = Some p"
    using g find_bucket [OF rep, of a]
    by (auto simp: get_page_def split: option.splits prod.splits if_splits)
  then have "p \<in> set (bs (calc_hash a))" and pa: "p_self (S p) = a"
    by (auto simp: find_Some_iff)
  then show px: "p \<in> set xs" and "p_self (S p) = a" using cache_repD(7) [OF rep] by auto
  obtain S1 c1 where r: "remove_page S c p = (S1, c1)" by (cases "remove_page S c p")
  note R = remove_page_holds [OF h px r]
  obtain S2 c2 where pt: "put_page S1 c1 p = (S2, c2)" by (cases "put_page S1 c1 p")
  have "p_self (S1 p) \<noteq> 0" using R(2) cache_holdsD(7) [OF h px] by simp
  note P = put_page_holds [OF R(1) this pt]
  have res: "(S', c') = (if flags AND NOREMOVE \<noteq> 0 then (S2, c2) else (S1, c1))"
    using g find_bucket [OF rep, of a] fp r pt by (auto simp: get_page_def split: if_splits)
  show "cache_holds S' c' (if flags AND NOREMOVE \<noteq> 0 then p # removeAll p xs else removeAll p xs)"
    using res R(1) P(1) by (auto split: if_splits)
  show "p_self (S' q) = p_self (S q)" using res R(2) P(2) by (auto split: if_splits)
qed

lemma get_page_total:
  assumes h: "cache_holds S c xs"
  shows "if \<exists>p \<in> set xs. p_self (S p) = a
         then \<exists>p S' c'. get_page S c a flags = Some (Some p, S', c')
         else get_page S c a flags = Some (None, S, c)"
proof -
  from h obtain bs where rep: "cache_rep S c xs bs" by (auto simp: cache_holds_def)
  note B = find_bucket [OF rep, of a] and R = cache_repD(7) [OF rep, of "calc_hash a"]
  show ?thesis
  proof (cases "find (\<lambda>p. p_self (S p) = a) (bs (calc_hash a))")
    case None
    with R have "\<not> (\<exists>p \<in> set xs. p_self (S p) = a)" by (auto simp: find_None_iff)
    with None B show ?thesis by (auto simp: get_page_def)
  next
    case (Some p)
    then have "p \<in> set (bs (calc_hash a)) \<and> p_self (S p) = a" by (auto simp: find_Some_iff)
    with R have "\<exists>p \<in> set xs. p_self (S p) = a" by auto
    with Some B show ?thesis by (auto simp: get_page_def split: prod.splits)
  qed
qed

lemma unused_search_find:
  assumes "page_list LIST_CHANGESET S ys" and "\<And>p. p \<notin> set ys \<Longrightarrow> unlinked LIST_CHANGESET S p"
    and "chain nx (get_previous LIST_CACHED S) None (as @ [p]) e" and "oldest \<notin> set as"
  shows "unused_search S (head_of ys) oldest p = Some (find (\<lambda>p. p \<notin> set ys) (p # rev as))"
  using assms(3,4)
proof (induction as arbitrary: p e rule: rev_induct)
  case Nil
  then show ?case
    using is_in_list_iff [OF assms(1), of p] assms(2) by (subst unused_search.simps) auto
next
  case (snoc a as)
  then have "get_previous LIST_CACHED S p = Some a" "chain nx (get_previous LIST_CACHED S) None (as @ [a]) (Some p)"
    by (auto simp: chain_append last_of_def)
  with snoc show ?case
    using is_in_list_iff [OF assms(1), of p] assms(2) by (subst unused_search.simps) auto
qed

lemma get_unused_page_spec:
  assumes h: "cache_holds S c xs" and cs: "page_list LIST_CHANGESET S ys"
    and out: "\<And>p. p \<notin> set ys \<Longrightarrow> unlinked LIST_CHANGESET S p"
  shows "\<exists>S' c'. get_unused_page S c (head_of ys) =
      Some (find (\<lambda>p. p \<notin> set ys) (rev xs), S', c') \<and>
    cache_holds S' c' (case find (\<lambda>p. p \<notin> set ys) (rev xs) of None \<Rightarrow> xs | Some p \<Rightarrow> removeAll p xs)"
proof (cases xs rule: rev_cases)
  case Nil
  with h show ?thesis by (auto simp: get_unused_page_def cache_holdsD)
next
  case (snoc as l)
  note D = cache_holdsD [OF h]
  have s: "unused_search S (head_of ys) l l = Some (find (\<lambda>p. p \<notin> set ys) (rev xs))"
    using unused_search_find [OF cs out, of "get_next LIST_CACHED S" as l None l] D(1,2)
    by (simp add: snoc dlist_def)
  have t: "c_totallist_tail c = Some l" using D(4) by (simp add: snoc)
  show ?thesis
  proof (cases "find (\<lambda>p. p \<notin> set ys) (rev xs)")
    case None
    with s t h show ?thesis by (auto simp: get_unused_page_def)
  next
    case (Some p)
    then have px: "p \<in> set xs" by (auto dest: find_SomeD)
    obtain S1 c1 where r: "remove_page S c p = (S1, c1)" by (cases "remove_page S c p")
    from remove_page_holds(1) [OF h px r] s t Some r show ?thesis by (auto simp: get_unused_page_def)
  qed
qed

lemma count_list_from_chain:
  "chain (get_next LIST_CACHED S) prv q ys None \<Longrightarrow>
   count_list_from S (head_of ys) e = Some (e + of_nat (length ys))"
proof (induction ys arbitrary: q e)
  case Nil
  then show ?case by (subst count_list_from.simps) simp
next
  case (Cons y ys)
  then have "get_next LIST_CACHED S y = head_of ys" by (auto split: if_splits)
  with Cons show ?case by (subst count_list_from.simps) (auto simp: algebra_simps)
qed


subsection \<open>The cache as an interface\<close>

text \<open>Using a page moves it to the front of the recency order.\<close>

definition touch :: "'p list \<Rightarrow> 'p \<Rightarrow> 'p list" where
  "touch xs p = p # removeAll p xs"

lemma foldl_touch:
  "foldl touch xs ps = foldl touch [] ps @ filter (\<lambda>x. x \<notin> set ps) xs"
proof (induction ps rule: rev_induct)
  case (snoc p ps)
  then show ?case by (auto simp: touch_def removeAll_filter_not_eq intro: filter_cong)
qed simp

lemma set_foldl_touch: "set (foldl touch [] ps) = set ps"
  by (induction ps rule: rev_induct) (auto simp: touch_def)

text \<open>
  What the clients of the cache rely on: the cache holds a list of pages in the order
  of their last use, storing or fetching a page moves it to the front, and a fetch
  succeeds exactly for the addresses of held pages.
\<close>

locale recency_cache =
  fixes holds :: "'s \<Rightarrow> 'p list \<Rightarrow> bool"
    and addr :: "'s \<Rightarrow> 'p \<Rightarrow> 'a"
    and valid :: "'s \<Rightarrow> 'p \<Rightarrow> bool"
    and put :: "'s \<Rightarrow> 'p \<Rightarrow> 's"
    and get :: "'s \<Rightarrow> 'a \<Rightarrow> ('p option \<times> 's) option"
  assumes put_holds: "holds s xs \<Longrightarrow> valid s p \<Longrightarrow> holds (put s p) (touch xs p)"
    and put_addr: "holds s xs \<Longrightarrow> valid s p \<Longrightarrow> addr (put s p) = addr s"
    and put_valid: "holds s xs \<Longrightarrow> valid s p \<Longrightarrow> valid (put s p) = valid s"
    and get_defined: "holds s xs \<Longrightarrow> get s a \<noteq> None"
    and get_hit: "holds s xs \<Longrightarrow> get s a = Some (Some p, s') \<Longrightarrow>
      p \<in> set xs \<and> addr s p = a \<and> holds s' (touch xs p)"
    and get_miss: "holds s xs \<Longrightarrow> get s a = Some (None, s') \<Longrightarrow>
      s' = s \<and> (\<forall>p \<in> set xs. addr s p \<noteq> a)"
begin

lemma get_after_put:
  assumes "holds s xs" and "valid s p" and "\<And>q. q \<in> set xs \<Longrightarrow> addr s q = addr s p \<Longrightarrow> q = p"
  shows "\<exists>s'. get (put s p) (addr s p) = Some (Some p, s') \<and> holds s' (touch xs p)"
proof -
  have h: "holds (put s p) (touch xs p)" and ad: "addr (put s p) = addr s"
    using put_holds put_addr assms by auto
  obtain r s' where g: "get (put s p) (addr s p) = Some (r, s')"
    using get_defined [OF h] by fastforce
  show ?thesis
  proof (cases r)
    case None
    with get_miss [OF h g [unfolded None]] ad show ?thesis by (auto simp: touch_def)
  next
    case (Some q)
    from get_hit [OF h g [unfolded Some]] ad assms(3)
    have "q = p" "holds s' (touch (touch xs p) q)" by (auto simp: touch_def)
    with g Some show ?thesis by (auto simp: touch_def)
  qed
qed

lemma puts_recency:
  assumes "holds s xs" and "\<forall>p \<in> set ps. valid s p"
  shows "holds (foldl put s ps) (foldl touch xs ps)"
proof -
  have "holds (foldl put s ps) (foldl touch xs ps) \<and> valid (foldl put s ps) = valid s"
    using assms(2)
  proof (induction ps rule: rev_induct)
    case (snoc p ps)
    then have h: "holds (foldl put s ps) (foldl touch xs ps)"
      and v: "valid (foldl put s ps) = valid s" "valid (foldl put s ps) p" by simp_all
    from put_holds [OF h v(2)] put_valid [OF h v(2)] v(1) show ?case by simp
  qed (use assms(1) in simp)
  then show ?thesis by simp
qed

end

interpretation page_cache: recency_cache
  "\<lambda>(S, c). cache_holds S c" "\<lambda>(S, c) p. p_self (S p)" "\<lambda>(S, c) p. p_self (S p) \<noteq> 0"
  "\<lambda>(S, c) p. put_page S c p"
  "\<lambda>(S, c) a. map_option (\<lambda>(r, S', c'). (r, (S', c'))) (get_page S c a NOREMOVE)"
proof (unfold_locales, goal_cases)
  case (1 s xs p)
  then show ?case using put_page_holds(1) by (fastforce simp: touch_def split: prod.splits)
next
  case (2 s xs p)
  then show ?case using put_page_holds(2) by (fastforce split: prod.splits)
next
  case (3 s xs p)
  then show ?case using put_page_holds(2) by (fastforce split: prod.splits)
next
  case (4 s xs a)
  then show ?case using get_page_total by (fastforce split: prod.splits if_splits)
next
  case (5 s xs a p s')
  then show ?case
    using get_page_hit by (fastforce simp: touch_def NOREMOVE_def split: prod.splits if_splits)
next
  case (6 s xs a s')
  then show ?case
    using get_page_total [of "fst s" "snd s" xs a NOREMOVE] by (auto split: prod.splits if_splits)
qed


section \<open>Theorems\<close>

text \<open>A store of unlinked pages, page \<open>p\<close> at file offset \<open>1024 p\<close>.\<close>

definition fresh_store :: page_store where
  "fresh_store p = \<lparr>p_self = of_nat p * 1024, p_flags = 0, p_dirty = False, p_pers = None,
                    p_prev = (\<lambda>_. None), p_next = (\<lambda>_. None)\<rparr>"

lemma fresh_cache_holds: "cache_holds fresh_store (cache_new 0) []"
  unfolding cache_holds_def
  by (rule exI, rule cache_new_rep)
    (simp add: unlinked_def get_next_def get_previous_def fresh_store_def)

text \<open>
  Storing a page keeps the cache well formed (both linked lists, the tail pointer,
  the element counter and the hash buckets agree), makes it the most recently used
  page, and afterwards fetching its address returns that very page, provided no other
  cached page has the same address.
\<close>

theorem cache_put_then_get:
  assumes "cache_holds S c xs" and "p_self (S p) \<noteq> 0"
    and "\<And>q. q \<in> set xs \<Longrightarrow> p_self (S q) = p_self (S p) \<Longrightarrow> q = p"
  shows "\<exists>S1 c1 S2 c2. put_page S c p = (S1, c1) \<and> cache_holds S1 c1 (touch xs p) \<and>
     get_page S1 c1 (p_self (S p)) NOREMOVE = Some (Some p, S2, c2) \<and>
     cache_holds S2 c2 (touch xs p)"
proof -
  obtain S1 c1 where p: "put_page S c p = (S1, c1)" by (cases "put_page S c p")
  have "cache_holds S1 c1 (touch xs p)"
    using page_cache.put_holds [of "(S, c)" xs p] assms p by simp
  moreover obtain S2 c2 where "get_page S1 c1 (p_self (S p)) NOREMOVE = Some (Some p, S2, c2)"
    "cache_holds S2 c2 (touch xs p)"
    using page_cache.get_after_put [of "(S, c)" xs p] assms p by auto
  ultimately show ?thesis using p by blast
qed

theorem cache_put_then_get_witness:
  "\<exists>S1 c1 S2 c2. put_page fresh_store (cache_new 0) 7 = (S1, c1) \<and> cache_holds S1 c1 [7] \<and>
     get_page S1 c1 7168 NOREMOVE = Some (Some 7, S2, c2) \<and> cache_holds S2 c2 [7]"
  using cache_put_then_get [OF fresh_cache_holds, of 7] by (simp add: fresh_store_def touch_def)

text \<open>
  C29. A sequence of stores leaves the pages in the order of their last use: the pages
  used come first, the untouched ones keep their old order behind them.
\<close>

theorem cache_puts_recency:
  assumes "cache_holds S c xs" and "\<forall>p \<in> set ps. p_self (S p) \<noteq> 0"
    and "foldl (\<lambda>(S, c) p. put_page S c p) (S, c) ps = (S', c')"
  shows "cache_holds S' c' (foldl touch [] ps @ filter (\<lambda>x. x \<notin> set ps) xs)"
  using page_cache.puts_recency [of "(S, c)" xs ps] assms foldl_touch [of xs ps] by simp

theorem cache_puts_recency_witness:
  "case foldl (\<lambda>(S, c) p. put_page S c p) (fresh_store, cache_new 0) [1, 2, 1] of
     (S', c') \<Rightarrow> cache_holds S' c' [1, 2]"
proof -
  obtain S' c' where r: "foldl (\<lambda>(S, c) p. put_page S c p) (fresh_store, cache_new 0) [1, 2, 1] = (S', c')"
    by (metis surj_pair)
  have "\<forall>p \<in> set [1, 2, 1]. p_self (fresh_store p) \<noteq> 0" by (simp add: fresh_store_def)
  from cache_puts_recency [OF fresh_cache_holds this r] show ?thesis
    unfolding r by (simp add: touch_def)
qed

text \<open>
  C30. The replacement policy: \<open>get_unused_page\<close> always returns, picks the least recently
  used page that is in no changeset (none if all cached pages are in the changeset),
  and removes exactly that page from the cache.
\<close>

theorem cache_victim_is_oldest_unpinned:
  assumes "cache_holds S c xs" and "page_list LIST_CHANGESET S ys"
    and "\<And>p. p \<notin> set ys \<Longrightarrow> unlinked LIST_CHANGESET S p"
  shows "\<exists>S' c'. get_unused_page S c (head_of ys) =
      Some (find (\<lambda>p. p \<notin> set ys) (rev xs), S', c') \<and>
    cache_holds S' c' (case find (\<lambda>p. p \<notin> set ys) (rev xs) of None \<Rightarrow> xs | Some p \<Rightarrow> removeAll p xs)"
  by (rule get_unused_page_spec [OF assms])

theorem cache_victim_is_oldest_unpinned_witness:
  "\<exists>S c S' c'. cache_holds S c [1, 2] \<and>
     get_unused_page S c None = Some (Some 2, S', c') \<and> cache_holds S' c' [1]"
proof -
  obtain S c where r: "foldl (\<lambda>(S, c) p. put_page S c p) (fresh_store, cache_new 0) [2, 1] = (S, c)"
    by (metis surj_pair)
  obtain S1 c1 where r1: "put_page fresh_store (cache_new 0) 2 = (S1, c1)"
    by (metis surj_pair)
  have n2: "p_self (fresh_store 2) \<noteq> 0" "p_self (fresh_store 1) \<noteq> 0" by (simp_all add: fresh_store_def)
  note P1 = put_page_holds [OF fresh_cache_holds n2(1) r1]
  from r r1 have r2: "put_page S1 c1 1 = (S, c)" by simp
  have n1: "p_self (S1 1) \<noteq> 0" using P1(2) n2(2) by simp
  note P2 = put_page_holds [OF P1(1) n1 r2]
  have h: "cache_holds S c [1, 2]" using P2(1) by simp
  have "unlinked LIST_CHANGESET S p" for p
    using P1(3) [of LIST_CHANGESET p] P2(3) [of LIST_CHANGESET p]
    by (simp add: unlinked_def get_next_def get_previous_def fresh_store_def)
  with cache_victim_is_oldest_unpinned [OF h dlist_Nil] show ?thesis using h by fastforce
qed

text \<open>
  The built-in integrity check terminates and accepts every well-formed cache of
  fewer than \<open>2 ^ 32\<close> pages.
\<close>

theorem cache_check_integrity_accepts:
  assumes "cache_holds S c xs" and "length xs < 2 ^ 32"
  shows "cache_check_integrity S c = Some HAM_SUCCESS"
proof -
  note D = cache_holdsD [OF assms(1)]
  have "count_list_from S (head_of xs) 0 = Some (of_nat (length xs))"
    using count_list_from_chain [of S "get_previous LIST_CACHED S" None xs 0] D(2)
    by (simp add: dlist_def)
  moreover have "ucast (of_nat (length xs) :: u32) = (of_nat (length xs) :: u64)"
    using assms(2) by (simp add: unsigned_of_nat take_bit_nat_eq_self)
  ultimately show ?thesis using D(3,5) by (simp add: cache_check_integrity_def)
qed

theorem cache_check_integrity_accepts_witness:
  "cache_check_integrity fresh_store (cache_new 0) = Some HAM_SUCCESS"
  using cache_check_integrity_accepts [OF fresh_cache_holds] by simp

end
