(* ===== verification/Ham_Device.thy ===== *)
theory Ham_Device
  imports Ham_Page
begin

text \<open>
  The file device of \<open>src/device.h\<close> and \<open>src/device.cc\<close> and the device operations of
  \<open>src/page.cc\<close>. File filters are callbacks of the application: a filter is a record of
  two optional functions on page images. Memory allocation always succeeds; a mapped
  page is a private copy of the file range, zero beyond the end of the file (a fault on
  access beyond the last file page is not modelled). The granularity of mappings is a
  field of the device.
\<close>

record file_filter =
  before_write_cb :: "(byte list \<Rightarrow> ham_status \<times> byte list) option"
  after_read_cb :: "(byte list \<Rightarrow> ham_status \<times> byte list) option"

record device =
  dev_fd :: os_file
  dev_flags :: u32
  dev_pagesize :: nat
  dev_granularity :: nat

definition HAM_DISABLE_MMAP :: u32 where "HAM_DISABLE_MMAP = 0x200"

definition os_mmap :: "os_file \<Rightarrow> nat \<Rightarrow> nat \<Rightarrow> nat \<Rightarrow> ham_status \<times> byte list \<times> os_file" where
  "os_mmap f gran position size' =
     (case sys_result f 0 of
        (r, f') \<Rightarrow>
          if r < 0 \<or> position mod gran \<noteq> 0 \<or> size' = 0 then (HAM_IO_ERROR, [], f')
          else (HAM_SUCCESS,
                take size' (drop position (fdata f')) @
                  replicate (size' - (length (fdata f') - position)) 0, f'))"

fun run_after_read :: "file_filter list \<Rightarrow> byte list \<Rightarrow> ham_status \<times> byte list" where
  "run_after_read [] buf = (HAM_SUCCESS, buf)"
| "run_after_read (f # fs) buf =
     (case after_read_cb f of
        None \<Rightarrow> run_after_read fs buf
      | Some cb \<Rightarrow>
          (case cb buf of
             (st, buf') \<Rightarrow> if st \<noteq> HAM_SUCCESS then (st, buf') else run_after_read fs buf'))"

fun run_before_write :: "file_filter list \<Rightarrow> byte list \<Rightarrow> ham_status \<times> byte list" where
  "run_before_write [] buf = (HAM_SUCCESS, buf)"
| "run_before_write (f # fs) buf =
     (case before_write_cb f of
        None \<Rightarrow> run_before_write fs buf
      | Some cb \<Rightarrow>
          (case cb buf of
             (st, buf') \<Rightarrow> if st \<noteq> HAM_SUCCESS then (st, buf') else run_before_write fs buf'))"

definition device_read ::
  "device \<Rightarrow> file_filter list \<Rightarrow> u64 \<Rightarrow> nat \<Rightarrow> ham_status \<times> byte list \<times> device" where
  "device_read dev filters offset size' =
     (case os_pread (dev_fd dev) (unat offset) size' of
        (st, buf, fd) \<Rightarrow>
          (let dev' = dev\<lparr>dev_fd := fd\<rparr> in
           if st \<noteq> HAM_SUCCESS then (st, buf, dev')
           else if filters = [] \<or> offset = 0 then (HAM_SUCCESS, buf, dev')
           else (case run_after_read filters buf of (st', buf') \<Rightarrow> (st', buf', dev'))))"

text \<open>
  In the read/write fallback a page that already has a buffer keeps reading into it, but
  the function then stores its own uninitialised buffer pointer in the page: that page
  buffer is lost, written here as \<open>None\<close>.
\<close>

definition read_page_rw ::
  "device \<Rightarrow> file_filter list \<Rightarrow> page \<Rightarrow> ham_status \<times> byte list option \<times> page \<times> device" where
  "read_page_rw dev filters p =
     (let fresh = (p_pers p = None);
          p1 = (if fresh then p\<lparr>p_flags := p_flags p OR NPERS_MALLOC\<rparr> else p)
      in case device_read dev filters (p_self p) (dev_pagesize dev) of
           (st, buf, dev') \<Rightarrow> (st, if fresh then Some buf else None, p1\<lparr>p_pers := Some buf\<rparr>, dev'))"

definition read_page ::
  "device \<Rightarrow> file_filter list \<Rightarrow> page \<Rightarrow> ham_status \<times> page \<times> device" where
  "read_page dev filters p =
     (let (st, buffer, p1, dev1) =
        (if dev_flags dev AND HAM_DISABLE_MMAP = 0 then
           (case os_mmap (dev_fd dev) (dev_granularity dev) (unat (p_self p)) (dev_pagesize dev) of
              (st, buf, fd) \<Rightarrow>
                if st = HAM_LIMITS_REACHED then
                  read_page_rw (dev\<lparr>dev_fd := fd, dev_flags := dev_flags dev OR HAM_DISABLE_MMAP\<rparr>)
                    filters p
                else (st, Some buf, p, dev\<lparr>dev_fd := fd\<rparr>))
         else read_page_rw dev filters p)
      in if st \<noteq> HAM_SUCCESS then (st, p1, dev1)
         else if filters = [] \<or> is_header p1 then (HAM_SUCCESS, p1\<lparr>p_pers := buffer\<rparr>, dev1)
         else (case buffer of
                 None \<Rightarrow> (HAM_SUCCESS, p1\<lparr>p_pers := None\<rparr>, dev1)
               | Some buf \<Rightarrow>
                   (case run_after_read filters buf of
                      (st', buf') \<Rightarrow>
                        if st' \<noteq> HAM_SUCCESS then (st', p1, dev1)
                        else (HAM_SUCCESS, p1\<lparr>p_pers := Some buf'\<rparr>, dev1))))"

definition device_write ::
  "device \<Rightarrow> file_filter list \<Rightarrow> u64 \<Rightarrow> byte list \<Rightarrow> ham_status \<times> device" where
  "device_write dev filters offset buffer =
     (if filters = [] \<or> offset = 0 then
        (case os_pwrite (dev_fd dev) (unat offset) buffer of
           (st, fd) \<Rightarrow> (st, dev\<lparr>dev_fd := fd\<rparr>))
      else
        (case run_before_write filters buffer of
           (st, tempdata) \<Rightarrow>
             if st = HAM_SUCCESS then
               (case os_pwrite (dev_fd dev) (unat offset) tempdata of
                  (st', fd) \<Rightarrow> (st', dev\<lparr>dev_fd := fd\<rparr>))
             else (st, dev)))"

definition write_page :: "device \<Rightarrow> file_filter list \<Rightarrow> page \<Rightarrow> ham_status \<times> device" where
  "write_page dev filters p =
     (case p_pers p of
        None \<Rightarrow> (HAM_IO_ERROR, dev)
      | Some buf \<Rightarrow> device_write dev filters (p_self p) (take (dev_pagesize dev) buf))"

definition device_alloc :: "device \<Rightarrow> nat \<Rightarrow> ham_status \<times> u64 \<times> device" where
  "device_alloc dev size' =
     (case os_get_filesize (dev_fd dev) of
        (st, address, fd) \<Rightarrow>
          if st \<noteq> HAM_SUCCESS then (st, of_nat address, dev\<lparr>dev_fd := fd\<rparr>)
          else (case os_truncate fd (address + size') of
                  (st', fd') \<Rightarrow> (st', of_nat address, dev\<lparr>dev_fd := fd'\<rparr>)))"

definition alloc_page ::
  "device \<Rightarrow> file_filter list \<Rightarrow> page \<Rightarrow> ham_status \<times> page \<times> device" where
  "alloc_page dev filters p =
     (case os_get_filesize (dev_fd dev) of
        (st, pos, fd) \<Rightarrow>
          if st \<noteq> HAM_SUCCESS then (st, p, dev\<lparr>dev_fd := fd\<rparr>)
          else (case os_truncate fd (pos + dev_pagesize dev) of
                  (st', fd') \<Rightarrow>
                    if st' \<noteq> HAM_SUCCESS then (st', p, dev\<lparr>dev_fd := fd'\<rparr>)
                    else read_page (dev\<lparr>dev_fd := fd'\<rparr>) filters (p\<lparr>p_self := of_nat pos\<rparr>)))"

definition free_page :: "page \<Rightarrow> page" where
  "free_page p =
     (if p_pers p \<noteq> None \<and> p_flags p AND NPERS_MALLOC \<noteq> 0
      then p\<lparr>p_flags := p_flags p AND NOT NPERS_MALLOC, p_pers := None\<rparr>
      else p\<lparr>p_pers := None\<rparr>)"

definition page_fetch ::
  "device \<Rightarrow> file_filter list \<Rightarrow> page \<Rightarrow> u64 \<Rightarrow> ham_status \<times> page \<times> device" where
  "page_fetch dev filters p address = read_page dev filters (p\<lparr>p_self := address\<rparr>)"

definition page_flush ::
  "device \<Rightarrow> file_filter list \<Rightarrow> page \<Rightarrow> ham_status \<times> page \<times> device" where
  "page_flush dev filters p =
     (if \<not> p_dirty p then (HAM_SUCCESS, p, dev)
      else (case write_page dev filters p of
              (st, dev') \<Rightarrow>
                if st \<noteq> HAM_SUCCESS then (st, p, dev')
                else (HAM_SUCCESS, p\<lparr>p_dirty := False\<rparr>, dev')))"

definition new_page :: page where
  "new_page = \<lparr>p_self = 0, p_flags = 0, p_dirty = False, p_pers = None,
               p_prev = (\<lambda>_. None), p_next = (\<lambda>_. None)\<rparr>"

section \<open>Properties\<close>

text \<open>
  A device whose system calls succeed and whose file ends on a page boundary; \<open>page_at\<close>
  is the page image stored at an offset.
\<close>

definition device_ok :: "device \<Rightarrow> bool" where
  "device_ok dev \<longleftrightarrow> fscript (dev_fd dev) = [] \<and> 0 < dev_pagesize dev \<and>
     dev_granularity dev dvd dev_pagesize dev \<and>
     dev_pagesize dev dvd length (fdata (dev_fd dev)) \<and>
     length (fdata (dev_fd dev)) + dev_pagesize dev < off_max"

definition page_at :: "device \<Rightarrow> nat \<Rightarrow> byte list" where
  "page_at dev a = take (dev_pagesize dev) (drop a (fdata (dev_fd dev)))"

definition page_offset :: "device \<Rightarrow> u64 \<Rightarrow> bool" where
  "page_offset dev a \<longleftrightarrow> dev_pagesize dev dvd unat a \<and>
     unat a + dev_pagesize dev \<le> length (fdata (dev_fd dev))"

lemma length_page_at [simp]: "page_offset dev a \<Longrightarrow> length (page_at dev (unat a)) = dev_pagesize dev"
  by (auto simp: page_at_def page_offset_def)

lemma dvd_add_le:
  fixes n :: nat
  shows "n dvd a \<Longrightarrow> n dvd b \<Longrightarrow> a < b \<Longrightarrow> a + n \<le> b"
  by (auto elim!: dvdE) (metis Suc_leI add.commute mult_Suc_right mult_le_mono2 mult_less_cancel1)

lemma take_drop_write_at_other:
  assumes "length buf = n" and "a + n \<le> b \<or> b + n \<le> a" and "a + n \<le> length d"
  shows "take n (drop b (write_at d a buf)) = take n (drop b d)"
proof (cases "buf = []")
  case False
  with assms(1,3) have w: "write_at d a buf = take a d @ (buf @ drop (a + n) d)"
    by (simp add: write_at_def)
  from assms(2) show ?thesis
  proof
    assume "a + n \<le> b"
    then show ?thesis unfolding w using assms(1,3) by simp
  next
    assume "b + n \<le> a"
    then have "take n (drop b (take a d @ xs)) = take n (drop b d)" for xs
      using assms(3) by (auto simp: drop_take min_def)
    then show ?thesis unfolding w .
  qed
qed (simp add: write_at_def)

lemma device_write_ok:
  assumes "device_ok dev" and "page_offset dev a" and "length buf = dev_pagesize dev"
  shows "device_write dev [] a buf =
    (HAM_SUCCESS, dev\<lparr>dev_fd := (dev_fd dev)\<lparr>fdata := write_at (fdata (dev_fd dev)) (unat a) buf,
                                              fpos := unat a + dev_pagesize dev\<rparr>\<rparr>)"
proof -
  have "os_pwrite (dev_fd dev) (unat a) buf =
    (HAM_SUCCESS, (dev_fd dev)\<lparr>fdata := write_at (fdata (dev_fd dev)) (unat a) buf,
                               fpos := unat a + length buf\<rparr>)"
    by (rule os_pwrite_ok) (use assms in \<open>auto simp: device_ok_def page_offset_def\<close>)
  then show ?thesis using assms(3) by (simp add: device_write_def)
qed

text \<open>
  The effect of a page write seen as a map from offsets to page images: the written
  page has the new image, every other page of the file its old one.
\<close>

definition page_upd :: "device \<Rightarrow> u64 \<Rightarrow> byte list \<Rightarrow> device" where
  "page_upd dev a buf = dev\<lparr>dev_fd := (dev_fd dev)\<lparr>fdata := write_at (fdata (dev_fd dev)) (unat a) buf,
                                              fpos := unat a + dev_pagesize dev\<rparr>\<rparr>"

lemma page_upd_ok:
  assumes "device_ok dev" and "page_offset dev a" and "length buf = dev_pagesize dev"
  shows "device_ok (page_upd dev a buf)" "dev_pagesize (page_upd dev a buf) = dev_pagesize dev"
    "length (fdata (dev_fd (page_upd dev a buf))) = length (fdata (dev_fd dev))"
    "dev_flags (page_upd dev a buf) = dev_flags dev"
    "dev_granularity (page_upd dev a buf) = dev_granularity dev"
    "page_offset (page_upd dev a buf) b = page_offset dev b"
  using assms by (auto simp: device_ok_def page_offset_def page_upd_def length_write_at max_def)

lemma page_at_upd:
  assumes "device_ok dev" and "page_offset dev a" and "length buf = dev_pagesize dev"
    and "page_offset dev b"
  shows "page_at (page_upd dev a buf) (unat b) = (if b = a then buf else page_at dev (unat b))"
proof (cases "b = a")
  case True
  have "buf \<noteq> []" using assms by (auto simp: device_ok_def)
  from drop_write_at [OF this, of "unat a" "fdata (dev_fd dev)"] True assms(3) show ?thesis
    by (simp add: page_at_def page_upd_def)
next
  case False
  then have "unat a < unat b \<or> unat b < unat a"
    by (meson linorder_neqE_nat word_unat_eq_iff)
  then have "unat a + dev_pagesize dev \<le> unat b \<or> unat b + dev_pagesize dev \<le> unat a"
    using assms(2,4) dvd_add_le by (auto simp: page_offset_def)
  with False assms show ?thesis
    by (simp add: page_at_def page_upd_def page_offset_def take_drop_write_at_other)
qed

lemma os_mmap_ok:
  assumes "device_ok dev" and "page_offset dev a"
  shows "os_mmap (dev_fd dev) (dev_granularity dev) (unat a) (dev_pagesize dev) =
    (HAM_SUCCESS, page_at dev (unat a), dev_fd dev)"
  using assms
  by (auto simp: os_mmap_def sys_result_ok device_ok_def page_offset_def page_at_def
      dest: dvd_trans elim!: dvdE)

lemma device_read_ok:
  assumes "device_ok dev" and "page_offset dev a"
  shows "device_read dev filters a (dev_pagesize dev) =
    (case (if filters = [] \<or> a = 0 then (HAM_SUCCESS, page_at dev (unat a))
           else run_after_read filters (page_at dev (unat a))) of (st, buf) \<Rightarrow> (st, buf, dev))"
proof -
  have "os_pread (dev_fd dev) (unat a) (dev_pagesize dev) =
    (HAM_SUCCESS, page_at dev (unat a), dev_fd dev)"
    unfolding page_at_def
    by (rule os_pread_ok) (use assms in \<open>auto simp: device_ok_def page_offset_def\<close>)
  then show ?thesis by (simp add: device_read_def)
qed

lemma read_page_plain:
  assumes "device_ok dev" and "page_offset dev (p_self p)" and "p_pers p = None"
  shows "\<exists>fl. read_page dev [] p =
    (HAM_SUCCESS, p\<lparr>p_flags := fl, p_pers := Some (page_at dev (unat (p_self p)))\<rparr>, dev)"
  using assms os_mmap_ok [OF assms(1,2)] device_read_ok [OF assms(1,2), of "[]"]
  by (cases "dev_flags dev AND HAM_DISABLE_MMAP = 0")
    (auto simp: read_page_def read_page_rw_def Let_def intro: exI [of _ "p_flags p"])

lemma page_flush_plain:
  assumes "device_ok dev" and "page_offset dev (p_self p)" and "p_pers p = Some buf"
    and "length buf = dev_pagesize dev" and "p_dirty p"
  shows "page_flush dev [] p = (HAM_SUCCESS, p\<lparr>p_dirty := False\<rparr>, page_upd dev (p_self p) buf)"
  using device_write_ok [OF assms(1,2,4)] assms
  by (simp add: page_flush_def write_page_def page_upd_def)


lemma device_write_filtered:
  assumes "device_ok dev" and "page_offset dev a" and "a \<noteq> 0"
    and "run_before_write filters buf = (HAM_SUCCESS, raw)" and "length raw = dev_pagesize dev"
  shows "device_write dev filters a buf = (HAM_SUCCESS, page_upd dev a raw)"
proof (cases "filters = []")
  case True
  with assms show ?thesis using device_write_ok by (simp add: page_upd_def)
next
  case False
  with device_write_ok [OF assms(1,2,5)] assms(3,4) show ?thesis
    by (auto simp: device_write_def page_upd_def split: prod.splits)
qed

lemma page_flush_filtered:
  assumes "device_ok dev" and "page_offset dev (p_self p)" and "p_self p \<noteq> 0"
    and "p_pers p = Some buf" and "length buf = dev_pagesize dev" and "p_dirty p"
    and "run_before_write filters buf = (HAM_SUCCESS, raw)" and "length raw = dev_pagesize dev"
  shows "page_flush dev filters p = (HAM_SUCCESS, p\<lparr>p_dirty := False\<rparr>, page_upd dev (p_self p) raw)"
  using device_write_filtered [OF assms(1-3,7,8)] assms(4-6)
  by (simp add: page_flush_def write_page_def)

text \<open>Growing the file: the new bytes are zero.\<close>

definition grow_device :: "device \<Rightarrow> nat \<Rightarrow> device" where
  "grow_device dev n = dev\<lparr>dev_fd := (dev_fd dev)\<lparr>fdata := fdata (dev_fd dev) @ replicate n 0, fpos := length (fdata (dev_fd dev))\<rparr>\<rparr>"

lemma grow_device_simps [simp]:
  "dev_pagesize (grow_device dev n) = dev_pagesize dev" "length (fdata (dev_fd (grow_device dev n))) = length (fdata (dev_fd dev)) + n"
  by (simp_all add: grow_device_def)

lemma os_truncate_grow:
  "fscript f = [] \<Longrightarrow> length (fdata f) + n < off_max \<Longrightarrow>
   os_truncate f (length (fdata f) + n) = (HAM_SUCCESS, f\<lparr>fdata := fdata f @ replicate n 0\<rparr>)"
  by (simp add: os_truncate_def sys_result_ok)

lemma grow_device_ok:
  assumes "device_ok dev" "length (fdata (dev_fd dev)) + 2 * dev_pagesize dev < off_max"
  shows "device_ok (grow_device dev (dev_pagesize dev))"
    "page_offset dev b \<Longrightarrow> page_offset (grow_device dev (dev_pagesize dev)) b \<and> page_at (grow_device dev (dev_pagesize dev)) (unat b) = page_at dev (unat b)"
    "unat a = length (fdata (dev_fd dev)) \<Longrightarrow> page_offset (grow_device dev (dev_pagesize dev)) a"
  using assms by (auto simp: device_ok_def grow_device_def page_offset_def page_at_def)

lemma alloc_page_ok:
  assumes "device_ok dev" "length (fdata (dev_fd dev)) + 2 * dev_pagesize dev < off_max"
  shows "alloc_page dev filters p =
    read_page (grow_device dev (dev_pagesize dev)) filters (p\<lparr>p_self := of_nat (length (fdata (dev_fd dev)))\<rparr>)"
proof -
  have "dev\<lparr>dev_fd := (dev_fd dev)\<lparr>fpos := length (fdata (dev_fd dev)), fdata := fdata (dev_fd dev) @ replicate (dev_pagesize dev) 0\<rparr>\<rparr> =
      grow_device dev (dev_pagesize dev)" by (simp add: grow_device_def)
  then show ?thesis
    using assms os_truncate_grow [of "(dev_fd dev)\<lparr>fpos := length (fdata (dev_fd dev))\<rparr>" "dev_pagesize dev"]
    by (simp add: alloc_page_def device_ok_def os_get_filesize_ok)
qed

section \<open>Theorems\<close>

text \<open>
  Page round trip: flushing a dirty page and fetching its offset again into a new
  page object returns the same page contents, for memory-mapped access and any chain of
  file filters whose read callbacks undo its write callbacks on this page image; no other
  page of the file changes.
\<close>

theorem page_flush_fetch_roundtrip:
  assumes "device_ok dev" and "page_offset dev (p_self p)" and "p_self p \<noteq> 0"
    and "p_pers p = Some buf" and "length buf = dev_pagesize dev" and "p_dirty p"
    and "dev_flags dev AND HAM_DISABLE_MMAP = 0"
    and "run_before_write filters buf = (HAM_SUCCESS, raw)" and "length raw = dev_pagesize dev"
    and "run_after_read filters raw = (HAM_SUCCESS, buf)"
  shows "\<exists>dev' q. page_flush dev filters p = (HAM_SUCCESS, p\<lparr>p_dirty := False\<rparr>, dev') \<and>
     page_fetch dev' filters new_page (p_self p) = (HAM_SUCCESS, q, dev') \<and> p_pers q = Some buf \<and>
     (\<forall>b. page_offset dev b \<and> b \<noteq> p_self p \<longrightarrow> page_at dev' (unat b) = page_at dev (unat b))"
proof -
  let ?d = "page_upd dev (p_self p) raw"
  note U = page_upd_ok [OF assms(1,2,9)]
  have off: "page_offset ?d (p_self p)" using U(6) assms(2) by simp
  have at: "page_at ?d (unat (p_self p)) = raw" using page_at_upd [OF assms(1,2,9,2)] by simp
  have "page_fetch ?d filters new_page (p_self p) =
      (HAM_SUCCESS, new_page\<lparr>p_self := p_self p, p_pers := Some buf\<rparr>, ?d)"
    using os_mmap_ok [OF U(1) off] at assms(3,7,10) U(4)
    by (auto simp: page_fetch_def read_page_def is_header_def new_page_def)
  with page_flush_filtered [OF assms(1-6,8,9)] page_at_upd [OF assms(1,2,9)] show ?thesis by simp
qed

text \<open>A two-page file with two-byte pages and a filter that adds one to every byte.\<close>

definition sample_device :: "u32 \<Rightarrow> device" where
  "sample_device fl = \<lparr>dev_fd = \<lparr>fdata = [0, 0, 0, 0], fpos = 0, fscript = []\<rparr>, dev_flags = fl,
                       dev_pagesize = 2, dev_granularity = 1\<rparr>"

definition sample_page :: page where
  "sample_page = new_page\<lparr>p_self := 2, p_dirty := True, p_pers := Some [5, 6]\<rparr>"

definition shift_filter :: "byte \<Rightarrow> file_filter" where
  "shift_filter k = \<lparr>before_write_cb = Some (\<lambda>buf. (HAM_SUCCESS, map (\<lambda>b. b + k) buf)),
                     after_read_cb = Some (\<lambda>buf. (HAM_SUCCESS, map (\<lambda>b. b - k) buf))\<rparr>"

definition invert_filter :: file_filter where
  "invert_filter = \<lparr>before_write_cb = Some (\<lambda>buf. (HAM_SUCCESS, map NOT buf)),
                    after_read_cb = Some (\<lambda>buf. (HAM_SUCCESS, map NOT buf))\<rparr>"

lemma sample_device_ok:
  "device_ok (sample_device fl)" "page_offset (sample_device fl) 2"
  by (simp_all add: device_ok_def page_offset_def sample_device_def off_max_def)

theorem page_flush_fetch_roundtrip_witness:
  "\<exists>dev' q. page_flush (sample_device 0) [shift_filter 1] sample_page =
       (HAM_SUCCESS, sample_page\<lparr>p_dirty := False\<rparr>, dev') \<and>
     page_fetch dev' [shift_filter 1] new_page 2 = (HAM_SUCCESS, q, dev') \<and> p_pers q = Some [5, 6]"
  using page_flush_fetch_roundtrip
    [of "sample_device 0" sample_page "[5, 6]" "[shift_filter 1]" "[6, 7]"] sample_device_ok [of 0]
  by (auto simp: sample_page_def shift_filter_def sample_device_def)

text \<open>
  Without memory mapping the read callbacks run twice: \<open>FileDevice::read\<close> has already
  filtered the page image when \<open>read_page\<close> filters it again, so a page stored through a
  filter comes back as the callbacks' image of its contents, not as its contents.
\<close>

theorem read_page_filters_twice:
  assumes "device_ok dev" and "page_offset dev a" and "a \<noteq> 0" and "filters \<noteq> []"
    and "dev_flags dev AND HAM_DISABLE_MMAP \<noteq> 0"
    and "run_after_read filters (page_at dev (unat a)) = (HAM_SUCCESS, buf)"
    and "run_after_read filters buf = (HAM_SUCCESS, twice)"
  shows "\<exists>q. page_fetch dev filters new_page a = (HAM_SUCCESS, q, dev) \<and> p_pers q = Some twice"
  using device_read_ok [OF assms(1,2), of filters] assms(3-)
  by (simp add: page_fetch_def read_page_def read_page_rw_def new_page_def is_header_def)

theorem read_page_filters_twice_witness:
  "\<exists>dev' q. page_flush (sample_device HAM_DISABLE_MMAP) [shift_filter 1] sample_page =
       (HAM_SUCCESS, sample_page\<lparr>p_dirty := False\<rparr>, dev') \<and>
     page_fetch dev' [shift_filter 1] new_page 2 = (HAM_SUCCESS, q, dev') \<and> p_pers q = Some [4, 5]"
proof -
  let ?d = "sample_device HAM_DISABLE_MMAP" and ?f = "[shift_filter 1]"
  let ?u = "page_upd ?d 2 [6, 7]"
  have o: "device_ok ?d" "page_offset ?d 2" by (rule sample_device_ok)+
  have l: "length [6, 7 :: byte] = dev_pagesize ?d" by (simp add: sample_device_def)
  note U = page_upd_ok [OF o l]
  have at: "page_at ?u (unat (2 :: u64)) = [6, 7]" using page_at_upd [OF o l o(2)] by simp
  have "page_flush ?d ?f sample_page = (HAM_SUCCESS, sample_page\<lparr>p_dirty := False\<rparr>, ?u)"
    using page_flush_filtered [of ?d sample_page "[5, 6]" ?f "[6, 7]"] o l
    by (simp add: sample_page_def shift_filter_def)
  moreover have "\<exists>q. page_fetch ?u ?f new_page 2 = (HAM_SUCCESS, q, ?u) \<and> p_pers q = Some [4, 5]"
    by (rule read_page_filters_twice [where buf = "[5, 6]"])
      (use U o at in \<open>simp_all add: shift_filter_def sample_device_def HAM_DISABLE_MMAP_def\<close>)
  ultimately show ?thesis by blast
qed

text \<open>
  Writing applies the filters in the same order as reading, so with two filters the
  first one is not undone last: a page comes back as
  \<open>g' (f' (g (f contents)))\<close> and two filters that are correct on their own lose data.
\<close>

theorem filter_chain_order:
  assumes "before_write_cb f = Some (\<lambda>b. (HAM_SUCCESS, f_w b))"
    and "after_read_cb f = Some (\<lambda>b. (HAM_SUCCESS, f_r b))"
    and "before_write_cb g = Some (\<lambda>b. (HAM_SUCCESS, g_w b))"
    and "after_read_cb g = Some (\<lambda>b. (HAM_SUCCESS, g_r b))"
    and "run_before_write [f, g] buf = (HAM_SUCCESS, raw)"
  shows "run_after_read [f, g] raw = (HAM_SUCCESS, g_r (f_r (g_w (f_w buf))))"
  using assms by auto

theorem filter_chain_order_witness:
  "run_before_write [shift_filter 1, invert_filter] [5] = (HAM_SUCCESS, [249]) \<and>
   run_after_read [shift_filter 1, invert_filter] [249] = (HAM_SUCCESS, [7])"
proof -
  have w: "run_before_write [shift_filter 1, invert_filter] [5] = (HAM_SUCCESS, [249])"
    by (simp add: shift_filter_def invert_filter_def)
  show ?thesis
    using filter_chain_order [of "shift_filter 1" _ _ invert_filter, OF _ _ _ _ w] w
    by (simp add: shift_filter_def invert_filter_def)
qed

end
