(* ===== verification/Ham_Log.thy ===== *)
theory Ham_Log
  imports Ham_Device
begin

text \<open>
  The physical redo log of \<open>src/log.h\<close> and \<open>src/log.cc\<close>: its file format, appending page
  images, reading entries backwards and redoing a complete changeset after a crash. All
  offsets are 64-bit words, so the subtractions of the backward scan wrap around as in
  the code. The entry structure the caller of \<open>get_entry\<close> owns is passed in and out.
\<close>

definition LOG_HEADER_MAGIC :: u32 where "LOG_HEADER_MAGIC = 0x686c6f67"
definition CHANGESET_IS_COMPLETE :: u32 where "CHANGESET_IS_COMPLETE = 1"

record log_header =
  lh_magic :: u32
  lh_reserved :: u32
  lh_lsn :: u64

record log_entry =
  le_lsn :: u64
  le_flags :: u32
  le_reserved :: u32
  le_offset :: u64
  le_data_size :: u64

definition sizeof_log_header :: nat where "sizeof_log_header = 16"
definition sizeof_log_entry :: nat where "sizeof_log_entry = 32"

definition enc_log_header :: "log_header \<Rightarrow> byte list" where
  "enc_log_header h = put_u32 (lh_magic h) @ put_u32 (lh_reserved h) @ put_u64 (lh_lsn h)"

definition dec_log_header :: "byte list \<Rightarrow> log_header" where
  "dec_log_header bs = \<lparr>lh_magic = get_u32 0 bs, lh_reserved = get_u32 4 bs, lh_lsn = get_u64 8 bs\<rparr>"

definition enc_log_entry :: "log_entry \<Rightarrow> byte list" where
  "enc_log_entry e = put_u64 (le_lsn e) @ put_u32 (le_flags e) @ put_u32 (le_reserved e) @
                     put_u64 (le_offset e) @ put_u64 (le_data_size e)"

definition dec_log_entry :: "byte list \<Rightarrow> log_entry" where
  "dec_log_entry bs = \<lparr>le_lsn = get_u64 0 bs, le_flags = get_u32 8 bs, le_reserved = get_u32 12 bs,
                       le_offset = get_u64 16 bs, le_data_size = get_u64 24 bs\<rparr>"

definition log_entry_zero :: log_entry where
  "log_entry_zero = \<lparr>le_lsn = 0, le_flags = 0, le_reserved = 0, le_offset = 0, le_data_size = 0\<rparr>"

lemma log_entry_zero_simps [simp]:
  "le_lsn log_entry_zero = 0" "le_flags log_entry_zero = 0" "log_entry_zero\<lparr>le_lsn := 0\<rparr> = log_entry_zero"
  by (simp_all add: log_entry_zero_def)

record ham_log =
  log_lsn :: u64
  log_fd :: os_file
  log_is_open :: bool

definition log_new :: ham_log where
  "log_new = \<lparr>log_lsn = 0, log_fd = \<lparr>fdata = [], fpos = 0, fscript = []\<rparr>, log_is_open = False\<rparr>"

definition log_clear :: "ham_log \<Rightarrow> ham_status \<times> ham_log" where
  "log_clear l =
     (case os_truncate (log_fd l) sizeof_log_header of
        (st, fd) \<Rightarrow>
          if st \<noteq> HAM_SUCCESS then (st, l\<lparr>log_fd := fd\<rparr>)
          else (case os_seek_set fd sizeof_log_header of
                  (st', fd') \<Rightarrow> (st', l\<lparr>log_fd := fd'\<rparr>)))"

text \<open>
  \<open>Log::close\<close> rewrites the file header, clears the log unless told otherwise, and
  closes the descriptor; with an invalid descriptor the header write fails.
\<close>

definition log_close :: "ham_log \<Rightarrow> bool \<Rightarrow> ham_status \<times> ham_log" where
  "log_close l noclear =
     (if \<not> log_is_open l then (HAM_IO_ERROR, l)
      else
        (case os_pwrite (log_fd l) 0
                (enc_log_header \<lparr>lh_magic = LOG_HEADER_MAGIC, lh_reserved = 0, lh_lsn = log_lsn l\<rparr>) of
           (st, fd) \<Rightarrow>
             if st \<noteq> HAM_SUCCESS then (st, l\<lparr>log_fd := fd\<rparr>)
             else
               (let l1 = l\<lparr>log_fd := fd\<rparr>;
                    l2 = (if noclear then l1 else snd (log_clear l1))
                in case os_close (log_fd l2) of
                     (st', fd') \<Rightarrow>
                       if st' \<noteq> HAM_SUCCESS then (st', l2\<lparr>log_fd := fd'\<rparr>)
                       else (HAM_SUCCESS, l2\<lparr>log_fd := fd', log_is_open := False\<rparr>))))"

definition log_create :: "int list \<Rightarrow> ham_status \<times> ham_log" where
  "log_create script =
     (case os_create script of
        (st, fd) \<Rightarrow>
          (let l = log_new\<lparr>log_fd := fd, log_is_open := (st = HAM_SUCCESS)\<rparr> in
           if st \<noteq> HAM_SUCCESS then (st, l)
           else (case os_write fd (enc_log_header \<lparr>lh_magic = LOG_HEADER_MAGIC, lh_reserved = 0, lh_lsn = 0\<rparr>) of
                   (st', fd') \<Rightarrow>
                     if st' \<noteq> HAM_SUCCESS then (st', snd (log_close (l\<lparr>log_fd := fd'\<rparr>) False))
                     else (HAM_SUCCESS, l\<lparr>log_fd := fd'\<rparr>))))"

definition log_open :: "byte list option \<Rightarrow> int list \<Rightarrow> ham_status \<times> ham_log" where
  "log_open content script =
     (case os_open content script of
        (st, fd) \<Rightarrow>
          (let l = log_new\<lparr>log_fd := fd, log_is_open := (st = HAM_SUCCESS)\<rparr> in
           if st \<noteq> HAM_SUCCESS then (st, snd (log_close l False))
           else (case os_pread fd 0 sizeof_log_header of
                   (st', bs, fd') \<Rightarrow>
                     (let l' = l\<lparr>log_fd := fd'\<rparr> in
                      if st' \<noteq> HAM_SUCCESS then (st', snd (log_close l' False))
                      else if lh_magic (dec_log_header bs) \<noteq> LOG_HEADER_MAGIC
                      then (HAM_LOG_INV_FILE_HEADER, snd (log_close l' False))
                      else (HAM_SUCCESS, l'\<lparr>log_lsn := lh_lsn (dec_log_header bs)\<rparr>)))))"

definition log_is_empty :: "ham_log \<Rightarrow> bool \<times> ham_log" where
  "log_is_empty l =
     (case os_get_filesize (log_fd l) of
        (st, size', fd) \<Rightarrow>
          if st \<noteq> HAM_SUCCESS then (False, l\<lparr>log_fd := fd\<rparr>)
          else (\<not> (size' \<noteq> 0 \<and> size' \<noteq> sizeof_log_header), l\<lparr>log_fd := fd\<rparr>))"

definition log_append_write ::
  "ham_log \<Rightarrow> u64 \<Rightarrow> u32 \<Rightarrow> u64 \<Rightarrow> byte list \<Rightarrow> ham_status \<times> ham_log" where
  "log_append_write l lsn flags offset data =
     (let l1 = (if lsn \<noteq> 0 then l\<lparr>log_lsn := lsn\<rparr> else l);
          entry = \<lparr>le_lsn = lsn, le_flags = flags, le_reserved = 0, le_offset = offset,
                   le_data_size = of_nat (length data)\<rparr>
      in case os_writev (log_fd l1) [Some data, Some (enc_log_entry entry)] of
           (st, fd) \<Rightarrow> (st, l1\<lparr>log_fd := fd\<rparr>))"

definition log_append_page ::
  "ham_log \<Rightarrow> file_filter list \<Rightarrow> nat \<Rightarrow> page \<Rightarrow> u64 \<Rightarrow> u32 \<Rightarrow> ham_status \<times> ham_log" where
  "log_append_page l filters pagesize p lsn page_count =
     (let buf = take pagesize (case_option [] id (p_pers p));
          (st, data) = (if filters \<noteq> [] \<and> \<not> is_header p then run_before_write filters buf
                        else (HAM_SUCCESS, buf))
      in if st = HAM_SUCCESS then
           log_append_write l lsn (if page_count = 0 then CHANGESET_IS_COMPLETE else 0) (p_self p) data
         else (st, l))"

definition log_get_entry ::
  "ham_log \<Rightarrow> u64 \<Rightarrow> log_entry \<Rightarrow> ham_status \<times> u64 \<times> log_entry \<times> byte list option \<times> ham_log" where
  "log_get_entry l it entry =
     (let (st0, it0, fd0) =
        (if it = 0 then
           (case os_get_filesize (log_fd l) of (st, size', fd) \<Rightarrow> (st, of_nat size', fd))
         else (HAM_SUCCESS, it, log_fd l));
          l0 = l\<lparr>log_fd := fd0\<rparr>
      in if st0 \<noteq> HAM_SUCCESS then (st0, it0, entry, None, l0)
         else if it0 \<le> of_nat sizeof_log_header
         then (HAM_SUCCESS, it0, entry\<lparr>le_lsn := 0\<rparr>, None, l0)
         else
           (let it1 = it0 - of_nat sizeof_log_entry in
            case os_pread fd0 (unat it1) sizeof_log_entry of
              (st, bs, fd) \<Rightarrow>
                if st \<noteq> HAM_SUCCESS then (st, it1, entry, None, l0\<lparr>log_fd := fd\<rparr>)
                else
                  (let e = dec_log_entry bs in
                   if le_data_size e \<noteq> 0 then
                     (let pos = it1 - le_data_size e;
                          pos' = pos - pos mod 8
                      in case os_pread fd (unat pos') (unat (ucast (le_data_size e) :: u32)) of
                           (st', data, fd') \<Rightarrow>
                             if st' \<noteq> HAM_SUCCESS then (st', it1, e, None, l0\<lparr>log_fd := fd'\<rparr>)
                             else (HAM_SUCCESS, pos', e, Some data, l0\<lparr>log_fd := fd'\<rparr>))
                   else (HAM_SUCCESS, it1, e, None, l0\<lparr>log_fd := fd\<rparr>))))"

text \<open>
  Redoing one entry: the page is appended to the database file when its offset is the
  current end of the file and fetched otherwise, then overwritten and flushed. Filters
  are disabled during recovery.
\<close>

definition recover_entry ::
  "device \<Rightarrow> u64 \<Rightarrow> log_entry \<Rightarrow> byte list option \<Rightarrow> ham_status \<times> u64 \<times> device" where
  "recover_entry dev filesize entry data =
     (let (st, p, dev1, filesize') =
        (if le_offset entry = filesize then
           (case alloc_page dev [] new_page of
              (st, p, d) \<Rightarrow> (st, p, d, filesize + le_data_size entry))
         else
           (case page_fetch dev [] new_page (le_offset entry) of
              (st, p, d) \<Rightarrow> (st, p, d, filesize)))
      in if st \<noteq> HAM_SUCCESS then (st, filesize', dev1)
         else
           (let buf = case_option [] id (p_pers p);
                new = case_option [] id data @ drop (unat (le_data_size entry)) buf
            in case page_flush dev1 [] (p\<lparr>p_pers := Some new, p_dirty := True\<rparr>) of
                 (st', p', dev2) \<Rightarrow> (st', filesize', dev2)))"

datatype recover_exit = Clear_Log | Bail ham_status

partial_function (option) recover_loop ::
  "ham_log \<Rightarrow> device \<Rightarrow> u64 \<Rightarrow> log_entry \<Rightarrow> bool \<Rightarrow> u64 \<Rightarrow> (recover_exit \<times> ham_log \<times> device) option" where
  "recover_loop l dev it entry first_loop filesize =
     (case log_get_entry l it entry of
        (st, it', e, data, l') \<Rightarrow>
          if st \<noteq> HAM_SUCCESS then Some (Bail st, l', dev)
          else if first_loop \<and> le_flags e \<noteq> CHANGESET_IS_COMPLETE then Some (Clear_Log, l', dev)
          else if le_lsn e = 0 then Some (Clear_Log, l', dev)
          else
            (case recover_entry dev filesize e data of
               (st', filesize', dev') \<Rightarrow>
                 if st' \<noteq> HAM_SUCCESS then Some (Bail st', l', dev')
                 else recover_loop (l'\<lparr>log_lsn := le_lsn e\<rparr>) dev' it' e False filesize'))"

definition log_recover ::
  "u32 \<Rightarrow> ham_log \<Rightarrow> device \<Rightarrow> (ham_status \<times> u32 \<times> ham_log \<times> device) option" where
  "log_recover env_flags l dev =
     (case os_get_filesize (dev_fd dev) of
        (st, filesize, fd) \<Rightarrow>
          (let dev0 = dev\<lparr>dev_fd := fd\<rparr> in
           if st \<noteq> HAM_SUCCESS then Some (st, env_flags, l, dev0)
           else
             (case recover_loop l dev0 0 log_entry_zero True (of_nat filesize) of
                None \<Rightarrow> None
              | Some (Bail st', l', dev') \<Rightarrow> Some (st', env_flags OR HAM_ENABLE_RECOVERY, l', dev')
              | Some (Clear_Log, l', dev') \<Rightarrow>
                  (case log_clear l' of
                     (st', l'') \<Rightarrow> Some (st', env_flags OR HAM_ENABLE_RECOVERY, l'', dev')))))"


section \<open>The log as a list of page images\<close>

text \<open>
  The specification level: a log is a list of redo records (log serial number, flags,
  file offset, page image), oldest first. \<open>log_holds\<close> relates it to the file contents;
  every page image has a positive length divisible by 8, as every page size has.
\<close>

type_synonym redo = "u64 \<times> u32 \<times> u64 \<times> byte list"

definition redo_entry :: "redo \<Rightarrow> log_entry" where
  "redo_entry r = (case r of (lsn, flags, offset, data) \<Rightarrow>
     \<lparr>le_lsn = lsn, le_flags = flags, le_reserved = 0, le_offset = offset,
      le_data_size = of_nat (length data)\<rparr>)"

definition redo_data :: "redo \<Rightarrow> byte list" where
  "redo_data r = (case r of (lsn, flags, offset, data) \<Rightarrow> data)"

definition redo_image :: "redo \<Rightarrow> byte list" where
  "redo_image r = redo_data r @ enc_log_entry (redo_entry r)"

definition log_image :: "redo list \<Rightarrow> byte list" where
  "log_image rs = concat (map redo_image rs)"

definition redo_wf :: "redo \<Rightarrow> bool" where
  "redo_wf r \<longleftrightarrow> 8 dvd length (redo_data r) \<and> 0 < length (redo_data r) \<and> length (redo_data r) < 2 ^ 32"

definition log_holds :: "ham_log \<Rightarrow> redo list \<Rightarrow> bool" where
  "log_holds l rs \<longleftrightarrow>
     (\<exists>h. length h = sizeof_log_header \<and> fdata (log_fd l) = h @ log_image rs) \<and>
     fscript (log_fd l) = [] \<and> fpos (log_fd l) = length (fdata (log_fd l)) \<and>
     length (fdata (log_fd l)) < off_max \<and> (\<forall>r \<in> set rs. redo_wf r)"

lemma length_enc_log_entry [simp, encoding]: "length (enc_log_entry e) = 32"
  by (simp add: enc_log_entry_def)

lemma length_enc_log_header [simp, encoding]: "length (enc_log_header e) = 16"
  by (simp add: enc_log_header_def)

lemma enc_log_header_ne [simp]: "enc_log_header h \<noteq> []"
  by (metis length_enc_log_header list.size(3) zero_neq_numeral)

lemma dec_enc_log_entry [simp]: "dec_log_entry (enc_log_entry e) = e"
proof -
  have "le_lsn (dec_log_entry (enc_log_entry e)) = le_lsn e"
    using get_u64_put [of 0 "[]" "le_lsn e"] by (simp add: dec_log_entry_def enc_log_entry_def)
  moreover have "le_flags (dec_log_entry (enc_log_entry e)) = le_flags e"
    using get_u32_put [of 8 "put_u64 (le_lsn e)" "le_flags e"]
    by (simp add: dec_log_entry_def enc_log_entry_def)
  moreover have "le_reserved (dec_log_entry (enc_log_entry e)) = le_reserved e"
    using get_u32_put [of 12 "put_u64 (le_lsn e) @ put_u32 (le_flags e)" "le_reserved e"]
    by (simp add: dec_log_entry_def enc_log_entry_def)
  moreover have "le_offset (dec_log_entry (enc_log_entry e)) = le_offset e"
    using get_u64_put [of 16 "put_u64 (le_lsn e) @ put_u32 (le_flags e) @ put_u32 (le_reserved e)"
        "le_offset e"] by (simp add: dec_log_entry_def enc_log_entry_def)
  moreover have "le_data_size (dec_log_entry (enc_log_entry e)) = le_data_size e"
    using get_u64_put [of 24 "put_u64 (le_lsn e) @ put_u32 (le_flags e) @ put_u32 (le_reserved e) @
        put_u64 (le_offset e)" "le_data_size e" "[]"] by (simp add: dec_log_entry_def enc_log_entry_def)
  ultimately show ?thesis by simp
qed

lemma dec_enc_log_header [simp]: "dec_log_header (enc_log_header h) = h"
proof -
  have "lh_magic (dec_log_header (enc_log_header h)) = lh_magic h"
    using get_u32_put [of 0 "[]" "lh_magic h"] by (simp add: dec_log_header_def enc_log_header_def)
  moreover have "lh_reserved (dec_log_header (enc_log_header h)) = lh_reserved h"
    using get_u32_put [of 4 "put_u32 (lh_magic h)" "lh_reserved h"]
    by (simp add: dec_log_header_def enc_log_header_def)
  moreover have "lh_lsn (dec_log_header (enc_log_header h)) = lh_lsn h"
    using get_u64_put [of 8 "put_u32 (lh_magic h) @ put_u32 (lh_reserved h)" "lh_lsn h" "[]"]
    by (simp add: dec_log_header_def enc_log_header_def)
  ultimately show ?thesis by simp
qed

lemma log_image_simps [simp]:
  "log_image [] = []" "log_image (rs @ [r]) = log_image rs @ redo_image r"
  "length (redo_image r) = length (redo_data r) + 32"
  by (simp_all add: log_image_def redo_image_def)

lemma log_image_dvd: "\<forall>r \<in> set rs. redo_wf r \<Longrightarrow> 8 dvd length (log_image rs)"
  by (induction rs rule: rev_induct) (auto simp: redo_wf_def)

lemma redo_entry_simps [simp]:
  "le_lsn (redo_entry (lsn, flags, offset, data)) = lsn"
  "le_flags (redo_entry (lsn, flags, offset, data)) = flags"
  "le_offset (redo_entry (lsn, flags, offset, data)) = offset"
  "le_data_size (redo_entry r) = of_nat (length (redo_data r))"
  "redo_data (lsn, flags, offset, data) = data"
  by (simp_all add: redo_entry_def redo_data_def split: prod.split)

text \<open>Appending writes the record behind the others.\<close>

lemma log_append_write_holds:
  assumes "log_holds l rs" and "redo_wf (lsn, flags, offset, data)"
    and "length (fdata (log_fd l)) + length data + 32 < off_max"
  shows "\<exists>l'. log_append_write l lsn flags offset data = (HAM_SUCCESS, l') \<and>
     log_holds l' (rs @ [(lsn, flags, offset, data)]) \<and>
     length (fdata (log_fd l')) = length (fdata (log_fd l)) + length data + 32 \<and>
     log_lsn l' = (if lsn \<noteq> 0 then lsn else log_lsn l)"
proof -
  let ?r = "(lsn, flags, offset, data)"
  let ?l1 = "if lsn \<noteq> 0 then l\<lparr>log_lsn := lsn\<rparr> else l"
  let ?fd = "log_fd l"
  have fd1: "log_fd ?l1 = ?fd" by simp
  from assms(1) obtain h where h: "length h = sizeof_log_header" "fdata ?fd = h @ log_image rs"
    and sc: "fscript ?fd = []" "fpos ?fd = length (fdata ?fd)" "length (fdata ?fd) < off_max"
    and wf: "\<forall>r \<in> set rs. redo_wf r" by (auto simp: log_holds_def)
  let ?fd' = "?fd\<lparr>fdata := fdata ?fd @ redo_image ?r, fpos := fpos ?fd + length (redo_image ?r)\<rparr>"
  have "os_writev ?fd [Some data, Some (enc_log_entry (redo_entry ?r))] = (HAM_SUCCESS, ?fd')"
    using os_writev_ok [of ?fd] sc by (simp add: Let_def redo_image_def)
  then have r: "log_append_write l lsn flags offset data = (HAM_SUCCESS, ?l1\<lparr>log_fd := ?fd'\<rparr>)"
    by (cases "lsn = 0") (simp_all add: log_append_write_def Let_def redo_entry_def)
  have "log_holds (?l1\<lparr>log_fd := ?fd'\<rparr>) (rs @ [?r])"
    unfolding log_holds_def using h sc wf assms(2,3) by auto
  with r show ?thesis by auto
qed


text \<open>
  Reading backwards from the end of record \<open>r\<close> yields exactly that record and leaves the
  iterator at its beginning.
\<close>

definition log_offset :: "redo list \<Rightarrow> nat" where
  "log_offset rs = sizeof_log_header + length (log_image rs)"

lemma log_offset_simps [simp]:
  "log_offset [] = 16" "log_offset (rs @ [r]) = log_offset rs + length (redo_data r) + 32"
  by (simp_all add: log_offset_def sizeof_log_header_def)

lemma log_get_entry_record:
  assumes "fdata (log_fd l) = h @ log_image (rs @ [r]) @ rest" and "length h = sizeof_log_header"
    and "fscript (log_fd l) = []" and "length (fdata (log_fd l)) < off_max"
    and "\<forall>r \<in> set (rs @ [r]). redo_wf r"
    and "it = of_nat (log_offset (rs @ [r])) \<or> it = 0 \<and> rest = [] \<and> fpos (log_fd l) = length (fdata (log_fd l))"
  shows "log_get_entry l it e = (HAM_SUCCESS, of_nat (log_offset rs), redo_entry r, Some (redo_data r), l)"
proof -
  let ?fd = "log_fd l" and ?d = "length (redo_data r)" and ?n = "log_offset rs"
  have N: "?n + ?d + 32 \<le> length (fdata ?fd)" "rest = [] \<Longrightarrow> ?n + ?d + 32 = length (fdata ?fd)"
    using assms(1,2) by (simp_all add: log_offset_def)
  have bnd: "?n + ?d + 32 < 9223372036854775808" using N assms(4) by (simp add: off_max_def)
  have wf: "8 dvd ?d" "0 < ?d" "?d < 4294967296" using assms(5) by (auto simp: redo_wf_def)
  have n8: "8 dvd ?n"
    using log_image_dvd [of rs] assms(5) by (simp add: log_offset_def sizeof_log_header_def)
  have n16: "16 \<le> ?n" by (simp add: log_offset_def sizeof_log_header_def)
  define it0 :: u64 where "it0 = of_nat (?n + ?d + 32)"
  have it0: "(if it = 0 then (case os_get_filesize ?fd of (st, sz, fd) \<Rightarrow> (st, of_nat sz, fd))
              else (HAM_SUCCESS, it, ?fd)) = (HAM_SUCCESS, it0, ?fd)"
  proof (cases "it = 0")
    case True
    have "it0 \<noteq> 0" using bnd of_nat64_inject [of "?n + ?d + 32" 0] by (simp add: it0_def)
    with True assms(6) have "rest = []" "fpos ?fd = length (fdata ?fd)"
      by (auto simp: it0_def algebra_simps)
    with True N(2) os_get_filesize_ok [OF assms(4)] show ?thesis by (simp add: it0_def)
  next
    case False
    with assms(6) show ?thesis by (simp add: it0_def algebra_simps)
  qed
  have gt: "\<not> it0 \<le> of_nat sizeof_log_header"
    using of_nat64_le [of "?n + ?d + 32" 16] bnd n16 by (simp add: it0_def sizeof_log_header_def)
  have it1: "it0 - of_nat sizeof_log_entry = of_nat (?n + ?d)"
    by (simp add: it0_def sizeof_log_entry_def)
  have u1: "unat (of_nat (?n + ?d) :: u64) = ?n + ?d"
    by (rule unat_of_nat64) (use bnd in simp)
  have u2: "unat (of_nat ?n :: u64) = ?n" by (rule unat_of_nat64) (use bnd in simp)
  have img: "fdata ?fd = (h @ log_image rs) @ redo_data r @ enc_log_entry (redo_entry r) @ rest"
    using assms(1) by (simp add: redo_image_def)
  have lenpre: "length (h @ log_image rs) = ?n" using assms(2) by (simp add: log_offset_def)
  have bytes1: "take 32 (drop (?n + ?d) (fdata ?fd)) = enc_log_entry (redo_entry r)"
    unfolding img using lenpre by simp
  have bytes2: "take ?d (drop ?n (fdata ?fd)) = redo_data r"
    unfolding img using lenpre by simp
  have rd1: "os_pread ?fd (?n + ?d) 32 = (HAM_SUCCESS, enc_log_entry (redo_entry r), ?fd)"
    using os_pread_ok [of ?fd "?n + ?d" 32] assms(3,4) N(1) bytes1 by simp
  have rd2: "os_pread ?fd ?n ?d = (HAM_SUCCESS, redo_data r, ?fd)"
    using os_pread_ok [of ?fd ?n ?d] assms(3,4) N(1) bytes2 by simp
  have dnz: "(of_nat ?d :: u64) \<noteq> 0"
    using of_nat64_inject [of ?d 0] wf bnd by simp
  have pos: "(of_nat (?n + ?d) :: u64) - of_nat ?d = of_nat ?n" by simp
  have al: "(of_nat ?n :: u64) mod 8 = 0" by (rule of_nat64_mod_8 [OF n8]) (use bnd in simp)
  show ?thesis
    unfolding log_get_entry_def it0
    using gt rd1 rd2 dnz pos al u1 u2 it1 wf(3)
    by (simp add: Let_def sizeof_log_entry_def)
qed


subsection \<open>Recovery\<close>

text \<open>Redoing the records of a log, newest first, on the pages of the database file.\<close>

definition redo_page :: "redo \<Rightarrow> device \<Rightarrow> device" where
  "redo_page r dev = (case r of (lsn, flags, offset, data) \<Rightarrow> page_upd dev offset data)"

definition redo_all :: "redo list \<Rightarrow> device \<Rightarrow> device" where
  "redo_all rs dev = foldr redo_page rs dev"

definition redo_fits :: "device \<Rightarrow> redo \<Rightarrow> bool" where
  "redo_fits dev r = (case r of (lsn, flags, offset, data) \<Rightarrow>
     lsn \<noteq> 0 \<and> page_offset dev offset \<and> length data = dev_pagesize dev)"

lemma redo_page_ok:
  assumes "device_ok dev" and "redo_fits dev r"
  shows "device_ok (redo_page r dev)" "redo_fits (redo_page r dev) r' = redo_fits dev r'"
    "length (fdata (dev_fd (redo_page r dev))) = length (fdata (dev_fd dev))"
    "dev_pagesize (redo_page r dev) = dev_pagesize dev"
    "page_offset (redo_page r dev) b = page_offset dev b"
  using assms page_upd_ok by (auto simp: redo_page_def redo_fits_def split: prod.splits)

lemma redo_all_ok:
  assumes "device_ok dev" and "\<forall>r \<in> set rs. redo_fits dev r"
  shows "device_ok (redo_all rs dev) \<and> (\<forall>r'. redo_fits (redo_all rs dev) r' = redo_fits dev r') \<and>
    length (fdata (dev_fd (redo_all rs dev))) = length (fdata (dev_fd dev)) \<and>
    dev_pagesize (redo_all rs dev) = dev_pagesize dev \<and>
    (\<forall>b. page_offset (redo_all rs dev) b = page_offset dev b)"
  using assms(2)
proof (induction rs)
  case (Cons r rs)
  let ?d = "redo_all rs dev"
  from Cons have IH: "device_ok ?d" "\<And>r'. redo_fits ?d r' = redo_fits dev r'"
    "length (fdata (dev_fd ?d)) = length (fdata (dev_fd dev))" "dev_pagesize ?d = dev_pagesize dev"
    "\<And>b. page_offset ?d b = page_offset dev b" by auto
  have fit: "redo_fits ?d r" using IH(2) Cons.prems by simp
  have eq: "redo_all (r # rs) dev = redo_page r ?d" by (simp add: redo_all_def)
  show ?case unfolding eq using redo_page_ok [OF IH(1) fit] IH(2-) by (simp del: split_paired_All)
qed (simp add: redo_all_def assms(1))

text \<open>After redoing, a page has the image of its oldest record, and its old image without one.\<close>

lemma page_at_redo_all:
  assumes "device_ok dev" and "\<forall>r \<in> set rs. redo_fits dev r" and "page_offset dev b"
  shows "page_at (redo_all rs dev) (unat b) =
    (case find (\<lambda>(lsn, flags, offset, data). offset = b) rs of
       None \<Rightarrow> page_at dev (unat b) | Some r \<Rightarrow> redo_data r)"
  using assms(2)
proof (induction rs)
  case (Cons r rs)
  obtain lsn flags offset data where r: "r = (lsn, flags, offset, data)" by (cases r)
  from Cons.prems have fit: "\<forall>r \<in> set rs. redo_fits dev r" "redo_fits dev r" by auto
  note A = redo_all_ok [OF assms(1) fit(1)]
  have "page_at (redo_page r (redo_all rs dev)) (unat b) =
      (if b = offset then data else page_at (redo_all rs dev) (unat b))"
    using page_at_upd [of "redo_all rs dev" offset data b] A fit(2) assms(3)
    by (auto simp: r redo_page_def redo_fits_def)
  with Cons.IH [OF fit(1)] show ?case by (auto simp: redo_all_def r)
qed (simp add: redo_all_def)

lemma recover_entry_ok:
  assumes dok: "device_ok dev" and fit: "redo_fits dev r"
    and fs: "filesize = of_nat (length (fdata (dev_fd dev)))"
  shows "recover_entry dev filesize (redo_entry r) (Some (redo_data r)) =
    (HAM_SUCCESS, filesize, redo_page r dev)"
proof -
  obtain lsn flags offset data where r: "r = (lsn, flags, offset, data)" by (cases r)
  have po: "page_offset dev offset" and len: "length data = dev_pagesize dev"
    using fit by (auto simp: r redo_fits_def)
  have sz: "length (fdata (dev_fd dev)) < 18446744073709551616" "dev_pagesize dev < 18446744073709551616"
    using dok by (auto simp: device_ok_def off_max_def)
  have "unat offset < length (fdata (dev_fd dev))"
    using po dok by (auto simp: page_offset_def device_ok_def)
  then have ne: "offset \<noteq> filesize" using fs sz by auto
  obtain fl where rd: "read_page dev [] (new_page\<lparr>p_self := offset\<rparr>) =
      (HAM_SUCCESS, new_page\<lparr>p_self := offset, p_flags := fl, p_pers := Some (page_at dev (unat offset))\<rparr>, dev)"
    using read_page_plain [OF dok, of "new_page\<lparr>p_self := offset\<rparr>"] po by (auto simp: new_page_def)
  let ?q = "new_page\<lparr>p_self := offset, p_flags := fl, p_dirty := True, p_pers := Some data\<rparr>"
  have fl: "page_flush dev [] ?q = (HAM_SUCCESS, ?q\<lparr>p_dirty := False\<rparr>, page_upd dev offset data)"
    using page_flush_plain [OF dok, of ?q data] po len by simp
  have "data @ drop (unat (of_nat (length data) :: u64)) (page_at dev (unat offset)) = data"
    using len sz(2) po by simp
  then show ?thesis
    using ne rd fl by (simp add: recover_entry_def page_fetch_def r redo_page_def new_page_def)
qed

text \<open>
  Recovery with pages that are behind the end of the file: a record of the page just behind the end
  appends it. \<open>redo_seq\<close> says of a list of records, newest first, that each of them, when it is its turn, is for a page of the file or
  for the page just behind its end.
\<close>

definition redo_here :: "redo \<Rightarrow> device \<Rightarrow> device" where
  "redo_here r dev = redo_page r
     (if unat (le_offset (redo_entry r)) = length (fdata (dev_fd dev)) then grow_device dev (dev_pagesize dev) else dev)"

fun redo_seq :: "nat \<Rightarrow> nat \<Rightarrow> redo list \<Rightarrow> bool" where
  "redo_seq ps len [] \<longleftrightarrow> True"
| "redo_seq ps len ((lsn, flags, offset, data) # ns) \<longleftrightarrow>
     lsn \<noteq> 0 \<and> length data = ps \<and> ps dvd unat offset \<and> unat offset \<le> len \<and>
     (if unat offset = len then len + 2 * ps < off_max \<and> redo_seq ps (len + ps) ns else redo_seq ps len ns)"

fun redo_len :: "nat \<Rightarrow> nat \<Rightarrow> redo list \<Rightarrow> nat" where
  "redo_len ps len [] = len"
| "redo_len ps len (r # ns) = redo_len ps (if unat (le_offset (redo_entry r)) = len then len + ps else len) ns"

lemma redo_here_ok:
  assumes dok: "device_ok dev" and seq: "redo_seq (dev_pagesize dev) (length (fdata (dev_fd dev))) (r # ns)"
  shows "device_ok (redo_here r dev)" "dev_pagesize (redo_here r dev) = dev_pagesize dev"
    "length (fdata (dev_fd (redo_here r dev))) =
       (if unat (le_offset (redo_entry r)) = length (fdata (dev_fd dev)) then length (fdata (dev_fd dev)) + dev_pagesize dev
        else length (fdata (dev_fd dev)))"
    "page_offset (redo_here r dev) (le_offset (redo_entry r))"
    "page_at (redo_here r dev) (unat (le_offset (redo_entry r))) = redo_data r"
    "page_offset dev b \<Longrightarrow> page_offset (redo_here r dev) b"
    "page_offset dev b \<Longrightarrow> b \<noteq> le_offset (redo_entry r) \<Longrightarrow> page_at (redo_here r dev) (unat b) = page_at dev (unat b)"
    "recover_entry dev (of_nat (length (fdata (dev_fd dev)))) (redo_entry r) (Some (redo_data r)) =
       (HAM_SUCCESS, of_nat (length (fdata (dev_fd (redo_here r dev)))), redo_here r dev)"
proof -
  obtain lsn flags offset data where r: "r = (lsn, flags, offset, data)" by (cases r)
  let ?len = "length (fdata (dev_fd dev))" and ?ps = "dev_pagesize dev"
  define d where "d = (if unat offset = ?len then grow_device dev ?ps else dev)"
  have len: "length data = ?ps" "?ps dvd unat offset" "unat offset \<le> ?len" and room: "unat offset = ?len \<Longrightarrow> ?len + 2 * ?ps < off_max"
    using seq by (auto simp: r split: if_splits)
  have here: "redo_here r dev = page_upd d offset data" by (simp add: r redo_here_def redo_page_def d_def)
  have sz: "?len < off_max" "?ps < off_max" using dok by (auto simp: device_ok_def)
  have d: "device_ok d" "dev_pagesize d = ?ps" "length (fdata (dev_fd d)) = (if unat offset = ?len then ?len + ?ps else ?len)"
    using dok room grow_device_ok(1) by (auto simp: d_def)
  have po: "page_offset d offset"
  proof (cases "unat offset = ?len")
    case True
    then show ?thesis using grow_device_ok(3) [OF dok room] by (simp add: d_def)
  next
    case False
    then show ?thesis using len dvd_add_le [of ?ps "unat offset" ?len] dok by (simp add: d_def page_offset_def device_ok_def)
  qed
  have keep: "page_offset d b \<and> page_at d (unat b) = page_at dev (unat b)" if "page_offset dev b" for b
    using that grow_device_ok(2) [OF dok room] by (simp add: d_def)
  note U = page_upd_ok [OF d(1) po, of data] and A = page_at_upd [OF d(1) po, of data]
  show "device_ok (redo_here r dev)" "dev_pagesize (redo_here r dev) = ?ps" "page_offset (redo_here r dev) (le_offset (redo_entry r))"
    "page_at (redo_here r dev) (unat (le_offset (redo_entry r))) = redo_data r"
    "page_offset dev b \<Longrightarrow> page_offset (redo_here r dev) b"
    "page_offset dev b \<Longrightarrow> b \<noteq> le_offset (redo_entry r) \<Longrightarrow> page_at (redo_here r dev) (unat b) = page_at dev (unat b)"
    using U A [OF _ po] A [of b] keep [of b] len d(2) po unfolding here by (simp_all add: r)
  show l: "length (fdata (dev_fd (redo_here r dev))) = (if unat (le_offset (redo_entry r)) = ?len then ?len + ?ps else ?len)"
    using U(3) len(1) d(2,3) unfolding here by (simp add: r)
  obtain fl where rd: "read_page d [] (new_page\<lparr>p_self := offset\<rparr>) =
      (HAM_SUCCESS, new_page\<lparr>p_self := offset, p_flags := fl, p_pers := Some (page_at d (unat offset))\<rparr>, d)"
    using read_page_plain [OF d(1), of "new_page\<lparr>p_self := offset\<rparr>"] po by (auto simp: new_page_def)
  let ?q = "new_page\<lparr>p_self := offset, p_flags := fl, p_dirty := True, p_pers := Some data\<rparr>"
  have fl: "page_flush d [] ?q = (HAM_SUCCESS, ?q\<lparr>p_dirty := False\<rparr>, page_upd d offset data)"
    using page_flush_plain [OF d(1), of ?q data] po len d(2) by simp
  have cut: "data @ drop (unat (of_nat (length data) :: u64)) (page_at d (unat offset)) = data"
    using len sz(2) length_page_at [OF po] d(2) by (simp add: off_max_def)
  have eq: "offset = of_nat ?len \<longleftrightarrow> unat offset = ?len"
    using sz(1) unat_of_nat64 [of ?len] word_unat_eq_iff [of offset "of_nat ?len"] by (simp add: off_max_def)
  show "recover_entry dev (of_nat ?len) (redo_entry r) (Some (redo_data r)) =
       (HAM_SUCCESS, of_nat (length (fdata (dev_fd (redo_here r dev)))), redo_here r dev)"
  proof (cases "unat offset = ?len")
    case True
    then have "offset = of_nat ?len" "d = grow_device dev ?ps" "of_nat ?len + of_nat (length data) = (of_nat (?len + ?ps) :: u64)"
      using eq len by (simp_all add: d_def)
    then show ?thesis
      using rd fl cut alloc_page_ok [OF dok room [OF True], of "[]" new_page] l True unfolding here
      by (simp add: recover_entry_def r new_page_def)
  next
    case False
    then show ?thesis using eq rd fl cut l unfolding here
      by (simp add: recover_entry_def page_fetch_def r new_page_def d_def)
  qed
qed

lemma recover_loop_end:
  assumes "fscript (log_fd l) = []" and "it = 16"
  shows "recover_loop l dev it e False fs = Some (Clear_Log, l, dev)"
  by (subst recover_loop.simps) (simp add: log_get_entry_def assms sizeof_log_header_def)

lemma recover_loop_step:
  assumes "log_get_entry l it e = (HAM_SUCCESS, it', redo_entry r, Some (redo_data r), l)"
    and "device_ok dev" and "redo_fits dev r" and "fs = of_nat (length (fdata (dev_fd dev)))"
    and "first_loop \<Longrightarrow> le_flags (redo_entry r) = CHANGESET_IS_COMPLETE"
  shows "recover_loop l dev it e first_loop fs =
    recover_loop (l\<lparr>log_lsn := fst r\<rparr>) (redo_page r dev) it' (redo_entry r) False fs"
  using recover_entry_ok [OF assms(2,3,4)] assms
  by (subst recover_loop.simps) (cases r, auto simp: redo_fits_def)

lemma recover_loop_records:
  assumes "fdata (log_fd l) = h @ log_image rs @ rest" and "length h = sizeof_log_header"
    and "fscript (log_fd l) = []" and "length (fdata (log_fd l)) < off_max"
    and "\<forall>r \<in> set rs. redo_wf r" and "device_ok dev" and "\<forall>r \<in> set rs. redo_fits dev r"
    and "fs = of_nat (length (fdata (dev_fd dev)))"
  shows "\<exists>lsn. recover_loop l dev (of_nat (log_offset rs)) e False fs =
     Some (Clear_Log, l\<lparr>log_lsn := lsn\<rparr>, redo_all rs dev) \<and>
     lsn = (case rs of [] \<Rightarrow> log_lsn l | r # _ \<Rightarrow> fst r)"
  using assms
proof (induction rs arbitrary: l dev rest e rule: rev_induct)
  case Nil
  then show ?case by (auto simp: recover_loop_end redo_all_def)
next
  case (snoc r rs)
  let ?l = "l\<lparr>log_lsn := fst r\<rparr>"
  have g: "log_get_entry l (of_nat (log_offset (rs @ [r]))) e =
      (HAM_SUCCESS, of_nat (log_offset rs), redo_entry r, Some (redo_data r), l)"
    by (rule log_get_entry_record [of l h rs r rest]) (use snoc.prems in auto)
  have fit: "redo_fits dev r" using snoc.prems by simp
  note P = redo_page_ok [OF snoc.prems(6) fit]
  have "\<exists>lsn. recover_loop ?l (redo_page r dev) (of_nat (log_offset rs)) (redo_entry r) False fs =
      Some (Clear_Log, ?l\<lparr>log_lsn := lsn\<rparr>, redo_all rs (redo_page r dev)) \<and>
      lsn = (case rs of [] \<Rightarrow> log_lsn ?l | r # _ \<Rightarrow> fst r)"
    by (rule snoc.IH [of _ "redo_image r @ rest"]) (use snoc.prems P in auto)
  with recover_loop_step [OF g snoc.prems(6) fit snoc.prems(8), of False] show ?case
    by (auto simp: redo_all_def split: list.splits)
qed

lemma redo_run_ok:
  assumes "device_ok dev" and "redo_seq (dev_pagesize dev) (length (fdata (dev_fd dev))) ns"
    and "distinct (map (\<lambda>r. le_offset (redo_entry r)) ns)"
  shows "device_ok (fold redo_here ns dev) \<and> dev_pagesize (fold redo_here ns dev) = dev_pagesize dev \<and>
    length (fdata (dev_fd (fold redo_here ns dev))) = redo_len (dev_pagesize dev) (length (fdata (dev_fd dev))) ns \<and>
    (\<forall>b. page_offset dev b \<longrightarrow> page_offset (fold redo_here ns dev) b) \<and>
    (\<forall>q \<in> set ns. page_at (fold redo_here ns dev) (unat (le_offset (redo_entry q))) = redo_data q) \<and>
    (\<forall>b. page_offset dev b \<and> b \<notin> (\<lambda>r. le_offset (redo_entry r)) ` set ns \<longrightarrow>
         page_at (fold redo_here ns dev) (unat b) = page_at dev (unat b))"
  using assms
proof (induction ns arbitrary: dev)
  case (Cons r ns)
  note H = redo_here_ok [OF Cons.prems(1,2)]
  have s: "redo_seq (dev_pagesize (redo_here r dev)) (length (fdata (dev_fd (redo_here r dev)))) ns"
    using Cons.prems(2) unfolding H(2,3) by (cases r) (auto split: if_splits)
  have d: "distinct (map (\<lambda>r. le_offset (redo_entry r)) ns)" "le_offset (redo_entry r) \<notin> (\<lambda>r. le_offset (redo_entry r)) ` set ns"
    using Cons.prems(3) by auto
  note IH = Cons.IH [OF H(1) s d(1)]
  have "page_at (fold redo_here ns (redo_here r dev)) (unat (le_offset (redo_entry r))) = redo_data r"
    using IH [THEN conjunct2, THEN conjunct2, THEN conjunct2, THEN conjunct2, THEN conjunct2, THEN spec, of "le_offset (redo_entry r)"] H(4,5) d(2) by simp
  moreover have "redo_len (dev_pagesize dev) (length (fdata (dev_fd dev))) (r # ns) =
      redo_len (dev_pagesize dev) (length (fdata (dev_fd (redo_here r dev)))) ns" unfolding H(3) by simp
  ultimately show ?case using IH H(2,6,7) by auto
qed simp

lemma recover_loop_redo:
  assumes "fdata (log_fd l) = h @ log_image rs @ rest" and "length h = sizeof_log_header"
    and "fscript (log_fd l) = []" and "length (fdata (log_fd l)) < off_max"
    and "\<forall>r \<in> set rs. redo_wf r" and "device_ok dev" and "redo_seq (dev_pagesize dev) (length (fdata (dev_fd dev))) (rev rs)"
    and "first_loop \<Longrightarrow> rs \<noteq> [] \<and> le_flags (redo_entry (last rs)) = CHANGESET_IS_COMPLETE"
    and "log_get_entry l it e = log_get_entry l (of_nat (log_offset rs)) e"
  shows "\<exists>lsn. recover_loop l dev it e first_loop (of_nat (length (fdata (dev_fd dev)))) =
     Some (Clear_Log, l\<lparr>log_lsn := lsn\<rparr>, fold redo_here (rev rs) dev) \<and>
     lsn = (case rs of [] \<Rightarrow> log_lsn l | r # _ \<Rightarrow> fst r)"
  using assms
proof (induction rs arbitrary: l dev rest e it first_loop rule: rev_induct)
  case Nil
  then show ?case
    by (subst recover_loop.simps) (simp add: log_get_entry_def sizeof_log_header_def)
next
  case (snoc r rs)
  let ?l = "l\<lparr>log_lsn := fst r\<rparr>" and ?dev = "redo_here r dev"
  have g: "log_get_entry l it e = (HAM_SUCCESS, of_nat (log_offset rs), redo_entry r, Some (redo_data r), l)"
    unfolding snoc.prems(9) by (rule log_get_entry_record [of l h rs r rest]) (use snoc.prems in auto)
  have q: "redo_seq (dev_pagesize dev) (length (fdata (dev_fd dev))) (r # rev rs)" using snoc.prems(7) by simp
  note H = redo_here_ok [OF snoc.prems(6) q]
  have s: "redo_seq (dev_pagesize ?dev) (length (fdata (dev_fd ?dev))) (rev rs)"
    using q unfolding H(2,3) by (cases r) (auto split: if_splits)
  have "\<exists>lsn. recover_loop ?l ?dev (of_nat (log_offset rs)) (redo_entry r) False (of_nat (length (fdata (dev_fd ?dev)))) =
      Some (Clear_Log, ?l\<lparr>log_lsn := lsn\<rparr>, fold redo_here (rev rs) ?dev) \<and>
      lsn = (case rs of [] \<Rightarrow> log_lsn ?l | r # _ \<Rightarrow> fst r)"
    by (rule snoc.IH [of _ "redo_image r @ rest"]) (use snoc.prems H(1) s in auto)
  moreover have "recover_loop l dev it e first_loop (of_nat (length (fdata (dev_fd dev)))) =
      recover_loop ?l ?dev (of_nat (log_offset rs)) (redo_entry r) False (of_nat (length (fdata (dev_fd ?dev))))"
  proof -
    have "le_lsn (redo_entry r) = fst r" "fst r \<noteq> 0" using q by (cases r, simp add: redo_entry_def)+
    then show ?thesis using snoc.prems(8) by (subst recover_loop.simps) (auto simp: g H(8))
  qed
  ultimately show ?case by (auto split: list.splits)
qed

lemma log_clear_ok:
  assumes "fscript (log_fd l) = []" and "length h = sizeof_log_header" and "fdata (log_fd l) = h @ t"
  shows "\<exists>l'. log_clear l = (HAM_SUCCESS, l') \<and> log_holds l' [] \<and> log_lsn l' = log_lsn l"
  using assms os_truncate_ok [of "log_fd l" sizeof_log_header]
  by (auto simp: log_clear_def log_holds_def os_seek_set_def sizeof_log_header_def off_max_def)

lemma log_holdsE:
  assumes "log_holds l rs"
  obtains h where "length h = sizeof_log_header" "fdata (log_fd l) = h @ log_image rs"
    "fscript (log_fd l) = []" "fpos (log_fd l) = length (fdata (log_fd l))"
    "length (fdata (log_fd l)) < off_max" "\<forall>r \<in> set rs. redo_wf r"
  using assms by (auto simp: log_holds_def)

text \<open>
  The two outcomes of recovery on a well-formed log: a complete changeset is redone, an
  incomplete one is ignored; either way the log is empty afterwards. The file pointer of
  the database file, which \<open>get_filesize\<close> moves, is written \<open>at_end\<close>.
\<close>

definition at_end :: "device \<Rightarrow> device" where
  "at_end dev = dev\<lparr>dev_fd := (dev_fd dev)\<lparr>fpos := length (fdata (dev_fd dev))\<rparr>\<rparr>"

lemma at_end_simps [simp]:
  "device_ok (at_end dev) = device_ok dev" "redo_fits (at_end dev) r = redo_fits dev r"
  "page_at (at_end dev) b = page_at dev b" "page_offset (at_end dev) c = page_offset dev c"
  "dev_pagesize (at_end dev) = dev_pagesize dev" "fdata (dev_fd (at_end dev)) = fdata (dev_fd dev)"
  by (auto simp: at_end_def device_ok_def redo_fits_def page_at_def page_offset_def)

lemma log_recover_complete:
  assumes "log_holds l (rs @ [r])" and "device_ok dev" and "\<forall>r \<in> set (rs @ [r]). redo_fits dev r"
    and "le_flags (redo_entry r) = CHANGESET_IS_COMPLETE"
  shows "\<exists>l'. log_recover env_flags l dev =
      Some (HAM_SUCCESS, env_flags OR HAM_ENABLE_RECOVERY, l', redo_all (rs @ [r]) (at_end dev)) \<and>
    log_holds l' [] \<and> log_lsn l' = fst (hd (rs @ [r]))"
proof -
  from assms(1) obtain h where h: "length h = sizeof_log_header" "fdata (log_fd l) = h @ log_image (rs @ [r])"
    and sc: "fscript (log_fd l) = []" "fpos (log_fd l) = length (fdata (log_fd l))"
      "length (fdata (log_fd l)) < off_max" and wf: "\<forall>r \<in> set (rs @ [r]). redo_wf r"
    by (rule log_holdsE)
  let ?fs = "of_nat (length (fdata (dev_fd dev))) :: u64" and ?d = "at_end dev"
  have g: "log_get_entry l 0 log_entry_zero =
      (HAM_SUCCESS, of_nat (log_offset rs), redo_entry r, Some (redo_data r), l)"
    by (rule log_get_entry_record [of l h rs r "[]"]) (use h sc wf in auto)
  have fit: "redo_fits ?d r" using assms(3) by simp
  note P = redo_page_ok [of ?d r]
  have st: "recover_loop l ?d 0 log_entry_zero True ?fs =
      recover_loop (l\<lparr>log_lsn := fst r\<rparr>) (redo_page r ?d) (of_nat (log_offset rs)) (redo_entry r) False ?fs"
    using recover_loop_step [OF g _ fit] assms(2,4) by simp
  have "\<exists>lsn. recover_loop (l\<lparr>log_lsn := fst r\<rparr>) (redo_page r ?d) (of_nat (log_offset rs)) (redo_entry r) False ?fs =
      Some (Clear_Log, l\<lparr>log_lsn := fst r, log_lsn := lsn\<rparr>, redo_all rs (redo_page r ?d)) \<and>
      lsn = (case rs of [] \<Rightarrow> log_lsn (l\<lparr>log_lsn := fst r\<rparr>) | r # _ \<Rightarrow> fst r)"
    by (rule recover_loop_records [of _ h rs "redo_image r"]) (use h sc wf assms fit P in auto)
  then obtain l1 where lp: "recover_loop l ?d 0 log_entry_zero True ?fs =
      Some (Clear_Log, l1, redo_all (rs @ [r]) ?d)" "log_fd l1 = log_fd l" "log_lsn l1 = fst (hd (rs @ [r]))"
    using st by (cases rs) (auto simp: redo_all_def)
  obtain l' where "log_clear l1 = (HAM_SUCCESS, l')" "log_holds l' []" "log_lsn l' = log_lsn l1"
    using log_clear_ok [of l1 h] sc h lp(2) by auto
  moreover have "os_get_filesize (dev_fd dev) = (HAM_SUCCESS, length (fdata (dev_fd dev)), dev_fd ?d)"
    using assms(2) os_get_filesize_ok [of "dev_fd dev"] by (simp add: device_ok_def at_end_def)
  ultimately show ?thesis using lp by (auto simp: log_recover_def at_end_def)
qed

lemma log_recover_redo:
  assumes "log_holds l rs" and "rs \<noteq> []" and "device_ok dev" and "redo_seq (dev_pagesize dev) (length (fdata (dev_fd dev))) (rev rs)"
    and "le_flags (redo_entry (last rs)) = CHANGESET_IS_COMPLETE"
  shows "\<exists>l'. log_recover env_flags l dev =
      Some (HAM_SUCCESS, env_flags OR HAM_ENABLE_RECOVERY, l', fold redo_here (rev rs) (at_end dev)) \<and>
    log_holds l' [] \<and> log_lsn l' = fst (hd rs)"
proof -
  from assms(1) obtain h where h: "length h = sizeof_log_header" "fdata (log_fd l) = h @ log_image rs"
    and sc: "fscript (log_fd l) = []" "fpos (log_fd l) = length (fdata (log_fd l))"
      "length (fdata (log_fd l)) < off_max" and wf: "\<forall>r \<in> set rs. redo_wf r"
    by (rule log_holdsE)
  obtain qs q where rs: "rs = qs @ [q]" using assms(2) by (metis append_butlast_last_id)
  have "log_get_entry l i log_entry_zero = (HAM_SUCCESS, of_nat (log_offset qs), redo_entry q, Some (redo_data q), l)"
    if "i = 0 \<or> i = of_nat (log_offset rs)" for i
    by (rule log_get_entry_record [of l h qs q "[]"]) (use h sc wf that in \<open>auto simp: rs\<close>)
  then have g: "log_get_entry l 0 log_entry_zero = log_get_entry l (of_nat (log_offset rs)) log_entry_zero" by simp
  have "\<exists>lsn. recover_loop l (at_end dev) 0 log_entry_zero True (of_nat (length (fdata (dev_fd (at_end dev))))) =
      Some (Clear_Log, l\<lparr>log_lsn := lsn\<rparr>, fold redo_here (rev rs) (at_end dev)) \<and> lsn = (case rs of [] \<Rightarrow> log_lsn l | r # _ \<Rightarrow> fst r)"
    by (rule recover_loop_redo [of l h rs "[]"]) (use h sc wf assms g in auto)
  then obtain l1 where lp: "recover_loop l (at_end dev) 0 log_entry_zero True (of_nat (length (fdata (dev_fd dev)))) =
      Some (Clear_Log, l1, fold redo_here (rev rs) (at_end dev))" "log_fd l1 = log_fd l" "log_lsn l1 = fst (hd rs)"
    using assms(2) by (cases rs) auto
  obtain l' where "log_clear l1 = (HAM_SUCCESS, l')" "log_holds l' []" "log_lsn l' = log_lsn l1"
    using log_clear_ok [of l1 h] sc h lp(2) by auto
  moreover have "os_get_filesize (dev_fd dev) = (HAM_SUCCESS, length (fdata (dev_fd dev)), dev_fd (at_end dev))"
    using assms(3) os_get_filesize_ok [of "dev_fd dev"] by (simp add: device_ok_def at_end_def)
  ultimately show ?thesis using lp by (auto simp: log_recover_def at_end_def)
qed

lemma log_recover_incomplete:
  assumes "log_holds l (rs @ [r])" and "device_ok dev"
    and "le_flags (redo_entry r) \<noteq> CHANGESET_IS_COMPLETE"
  shows "\<exists>l'. log_recover env_flags l dev =
      Some (HAM_SUCCESS, env_flags OR HAM_ENABLE_RECOVERY, l', at_end dev) \<and> log_holds l' [] \<and>
    log_lsn l' = log_lsn l"
proof -
  from assms(1) obtain h where h: "length h = sizeof_log_header" "fdata (log_fd l) = h @ log_image (rs @ [r])"
    and sc: "fscript (log_fd l) = []" "fpos (log_fd l) = length (fdata (log_fd l))"
      "length (fdata (log_fd l)) < off_max" and wf: "\<forall>r \<in> set (rs @ [r]). redo_wf r"
    by (rule log_holdsE)
  have g: "log_get_entry l 0 log_entry_zero =
      (HAM_SUCCESS, of_nat (log_offset rs), redo_entry r, Some (redo_data r), l)"
    by (rule log_get_entry_record [of l h rs r "[]"]) (use h sc wf in auto)
  have lp: "recover_loop l d 0 log_entry_zero True fs = Some (Clear_Log, l, d)" for d fs
    using assms(3) by (subst recover_loop.simps) (simp add: g)
  obtain l' where "log_clear l = (HAM_SUCCESS, l')" "log_holds l' []" "log_lsn l' = log_lsn l"
    using log_clear_ok [of l h] sc h by auto
  moreover have "os_get_filesize (dev_fd dev) = (HAM_SUCCESS, length (fdata (dev_fd dev)), dev_fd (at_end dev))"
    using assms(2) os_get_filesize_ok [of "dev_fd dev"] by (simp add: device_ok_def at_end_def)
  ultimately show ?thesis by (auto simp: log_recover_def at_end_def lp)
qed

lemma log_recover_empty:
  assumes "log_holds l []" and "device_ok dev"
  shows "\<exists>l'. log_recover env_flags l dev =
      Some (HAM_SUCCESS, env_flags OR HAM_ENABLE_RECOVERY, l', at_end dev) \<and> log_holds l' [] \<and>
    log_lsn l' = log_lsn l"
proof -
  from assms(1) obtain h where h: "length h = sizeof_log_header" "fdata (log_fd l) = h"
    and sc: "fscript (log_fd l) = []" "fpos (log_fd l) = length (fdata (log_fd l))"
      "length (fdata (log_fd l)) < off_max"
    by (auto elim: log_holdsE)
  have fd: "(log_fd l)\<lparr>fpos := length (fdata (log_fd l))\<rparr> = log_fd l" using sc(2) by simp
  have g: "log_get_entry l 0 log_entry_zero = (HAM_SUCCESS, 16, log_entry_zero, None, l)"
    using os_get_filesize_ok [OF sc(3)] h(1)
    by (simp add: log_get_entry_def fd) (simp add: h(2) sizeof_log_header_def)
  have lp: "recover_loop l d 0 log_entry_zero True fs = Some (Clear_Log, l, d)" for d fs
    by (subst recover_loop.simps) (simp add: g CHANGESET_IS_COMPLETE_def)
  obtain l' where "log_clear l = (HAM_SUCCESS, l')" "log_holds l' []" "log_lsn l' = log_lsn l"
    using log_clear_ok [of l h "[]"] sc h by auto
  moreover have "os_get_filesize (dev_fd dev) = (HAM_SUCCESS, length (fdata (dev_fd dev)), dev_fd (at_end dev))"
    using assms(2) os_get_filesize_ok [of "dev_fd dev"] by (simp add: device_ok_def at_end_def)
  ultimately show ?thesis by (auto simp: log_recover_def at_end_def lp)
qed


lemma log_create_holds: "\<exists>l. log_create [] = (HAM_SUCCESS, l) \<and> log_holds l [] \<and> length (fdata (log_fd l)) = 16"
  by (simp add: log_create_def os_create_def lock_exclusive_def sys_result_def os_write_ok off_max_def
      log_holds_def sizeof_log_header_def write_at_def Let_def log_new_def)

section \<open>The contract of a redo log\<close>

text \<open>
  What a client may rely on: recovery from a log whose newest record carries the
  completion mark puts every recorded image into place and nothing else; recovery from
  any other log leaves the contents alone. From the two laws alone a client that logs a
  batch before it touches the database gets all or nothing, whatever the point at which
  it stops.
\<close>

locale redo_log =
  fixes holds :: "'l \<Rightarrow> 'r list \<Rightarrow> bool"
    and marked :: "'r \<Rightarrow> bool"
    and loc :: "'r \<Rightarrow> 'a"
    and image :: "'r \<Rightarrow> 'v"
    and usable :: "'d \<Rightarrow> bool"
    and fits :: "'d \<Rightarrow> 'r \<Rightarrow> bool"
    and shape :: "'d \<Rightarrow> 's"
    and valid :: "'d \<Rightarrow> 'a \<Rightarrow> bool"
    and content :: "'d \<Rightarrow> 'a \<Rightarrow> 'v"
    and recover :: "'l \<Rightarrow> 'd \<Rightarrow> 'd option"
  assumes recover_marked:
      "\<lbrakk>holds l rs; rs \<noteq> []; marked (last rs); usable d; \<forall>r \<in> set rs. fits d r; distinct (map loc rs)\<rbrakk>
       \<Longrightarrow> \<exists>d'. recover l d = Some d' \<and> usable d' \<and> shape d' = shape d \<and> valid d' = valid d \<and>
           (\<forall>r \<in> set rs. content d' (loc r) = image r) \<and>
           (\<forall>a. valid d a \<and> a \<notin> loc ` set rs \<longrightarrow> content d' a = content d a)"
    and recover_unmarked:
      "\<lbrakk>holds l rs; rs \<noteq> [] \<Longrightarrow> \<not> marked (last rs); usable d\<rbrakk>
       \<Longrightarrow> \<exists>d'. recover l d = Some d' \<and> usable d' \<and> shape d' = shape d \<and> valid d' = valid d \<and>
           (\<forall>a. valid d a \<longrightarrow> content d' a = content d a)"
begin

lemma all_or_nothing:
  assumes "holds l (take k rs)" and "rs \<noteq> []" and "marked (last rs)"
    and "\<And>r. k < length rs \<Longrightarrow> r \<in> set (take k rs) \<Longrightarrow> \<not> marked r" and "distinct (map loc rs)"
    and "usable d" and "\<forall>r \<in> set rs. fits d r" and "shape d = shape d0" and "valid d = valid d0"
    and "\<forall>a. valid d0 a \<and> (k < length rs \<or> a \<notin> loc ` set rs) \<longrightarrow> content d a = content d0 a"
  shows "\<exists>d'. recover l d = Some d' \<and> usable d' \<and> shape d' = shape d0 \<and> valid d' = valid d0 \<and>
    (if k < length rs then \<forall>a. valid d0 a \<longrightarrow> content d' a = content d0 a
     else (\<forall>r \<in> set rs. content d' (loc r) = image r) \<and>
       (\<forall>a. valid d0 a \<and> a \<notin> loc ` set rs \<longrightarrow> content d' a = content d0 a))"
proof (cases "k < length rs")
  case True
  have "\<not> marked (last (take k rs))" if "take k rs \<noteq> []"
    using assms(4) [OF True] last_in_set [OF that] by blast
  from recover_unmarked [OF assms(1) this assms(6)] True assms(8-) show ?thesis by auto
next
  case False
  then have "take k rs = rs" by simp
  with recover_marked [of l rs d] assms False show ?thesis by auto
qed

end

definition redo_complete :: "redo \<Rightarrow> bool" where
  "redo_complete r \<longleftrightarrow> le_flags (redo_entry r) = CHANGESET_IS_COMPLETE"

definition redo_loc :: "redo \<Rightarrow> u64" where
  "redo_loc r = le_offset (redo_entry r)"

definition log_recovered :: "u32 \<Rightarrow> ham_log \<Rightarrow> device \<Rightarrow> device option" where
  "log_recovered env_flags l dev =
     (case log_recover env_flags l dev of
        Some (HAM_SUCCESS, fl, l', dev') \<Rightarrow> Some dev'
      | _ \<Rightarrow> None)"

lemma redo_find:
  "find (\<lambda>(lsn, flags, offset, data). offset = b) rs = find (\<lambda>r. redo_loc r = b) rs"
  by (rule find_cong) (auto simp: redo_loc_def redo_entry_def)

lemma find_unique: "distinct (map f xs) \<Longrightarrow> x \<in> set xs \<Longrightarrow> find (\<lambda>y. f y = f x) xs = Some x"
  by (induction xs) (auto simp: image_iff)

lemma find_other: "b \<notin> f ` set xs \<Longrightarrow> find (\<lambda>y. f y = b) xs = None"
  by (induction xs) auto

interpretation ham_redo: redo_log log_holds redo_complete redo_loc redo_data device_ok redo_fits
  dev_pagesize page_offset "\<lambda>dev a. page_at dev (unat a)" "log_recovered env_flags" for env_flags
proof unfold_locales
  fix l rs d
  assume a: "log_holds l rs" "rs \<noteq> []" "redo_complete (last rs)" "device_ok d"
    "\<forall>r \<in> set rs. redo_fits d r" "distinct (map redo_loc rs)"
  let ?d = "redo_all rs (at_end d)"
  from a(2) obtain rs' r where rs: "rs = rs' @ [r]" by (metis append_butlast_last_id)
  have rec: "log_recovered env_flags l d = Some ?d"
    using log_recover_complete [of l rs' r d env_flags] a by (auto simp: rs log_recovered_def redo_complete_def)
  have ok: "device_ok ?d" "dev_pagesize ?d = dev_pagesize d" "page_offset ?d = page_offset d"
    using redo_all_ok [of "at_end d" rs] a(4,5) by auto
  have at: "page_at ?d (unat b) = (case find (\<lambda>r. redo_loc r = b) rs of
       None \<Rightarrow> page_at d (unat b) | Some r \<Rightarrow> redo_data r)" if "page_offset d b" for b
    using page_at_redo_all [of "at_end d" rs b] a(4,5) that by (simp add: redo_find split: option.split)
  have off: "page_offset d (redo_loc r)" if "r \<in> set rs" for r
    using a(5) that by (auto simp: redo_fits_def redo_loc_def redo_entry_def split: prod.splits)
  show "\<exists>d'. log_recovered env_flags l d = Some d' \<and> device_ok d' \<and> dev_pagesize d' = dev_pagesize d \<and> page_offset d' = page_offset d \<and>
      (\<forall>r\<in>set rs. page_at d' (unat (redo_loc r)) = redo_data r) \<and>
      (\<forall>a. page_offset d a \<and> a \<notin> redo_loc ` set rs \<longrightarrow> page_at d' (unat a) = page_at d (unat a))"
    using rec ok at off find_unique [OF a(6)] find_other [of _ redo_loc rs] by auto
next
  fix l rs d
  assume a: "log_holds l rs" "rs \<noteq> [] \<Longrightarrow> \<not> redo_complete (last rs)" "device_ok d"
  have "log_recovered env_flags l d = Some (at_end d)"
  proof (cases rs rule: rev_cases)
    case Nil
    then show ?thesis using log_recover_empty [of l d env_flags] a by (auto simp: log_recovered_def)
  next
    case (snoc rs' r)
    then show ?thesis using log_recover_incomplete [of l rs' r d env_flags] a
      by (auto simp: log_recovered_def redo_complete_def)
  qed
  then show "\<exists>d'. log_recovered env_flags l d = Some d' \<and> device_ok d' \<and> dev_pagesize d' = dev_pagesize d \<and> page_offset d' = page_offset d \<and>
      (\<forall>a. page_offset d a \<longrightarrow> page_at d' (unat a) = page_at d (unat a))"
    using a(3) by auto
qed

lemma log_open_good:
  assumes "fdata (log_fd l) = enc_log_header \<lparr>lh_magic = LOG_HEADER_MAGIC, lh_reserved = x, lh_lsn = n\<rparr> @ t"
  shows "log_open (Some (fdata (log_fd l))) [] =
    (HAM_SUCCESS, \<lparr>log_lsn = n, log_fd = \<lparr>fdata = fdata (log_fd l), fpos = 0, fscript = []\<rparr>, log_is_open = True\<rparr>)"
proof -
  let ?f = "\<lparr>fdata = fdata (log_fd l), fpos = 0, fscript = []\<rparr>"
  have "os_pread ?f 0 16 = (HAM_SUCCESS, enc_log_header \<lparr>lh_magic = LOG_HEADER_MAGIC, lh_reserved = x, lh_lsn = n\<rparr>, ?f)"
    using os_pread_ok [of ?f 0 16] assms by (simp add: off_max_def)
  then show ?thesis
    by (simp add: log_open_def os_open_def lock_exclusive_def sys_result_def sizeof_log_header_def
        log_new_def Let_def)
qed

section \<open>Theorems\<close>

text \<open>
  Log round trip: appending a page image to a well-formed log and asking for the
  first entry of a new backward scan returns that image with its serial number, flags
  and file offset, for every page size that is a positive multiple of 8.
\<close>

theorem log_append_get_entry_roundtrip:
  assumes "log_holds l rs" and "8 dvd length data" and "0 < length data" and "length data < 2 ^ 32"
    and "length (fdata (log_fd l)) + length data + 32 < off_max"
  shows "\<exists>l'. log_append_write l lsn flags offset data = (HAM_SUCCESS, l') \<and>
     log_get_entry l' 0 e =
       (HAM_SUCCESS, of_nat (log_offset rs),
        \<lparr>le_lsn = lsn, le_flags = flags, le_reserved = 0, le_offset = offset,
         le_data_size = of_nat (length data)\<rparr>, Some data, l')"
proof -
  let ?r = "(lsn, flags, offset, data)"
  have "redo_wf ?r" using assms(2-4) by (simp add: redo_wf_def)
  from log_append_write_holds [OF assms(1) this assms(5)] obtain l' where
    a: "log_append_write l lsn flags offset data = (HAM_SUCCESS, l')" and h: "log_holds l' (rs @ [?r])"
    by auto
  from h obtain k where "length k = sizeof_log_header" "fdata (log_fd l') = k @ log_image (rs @ [?r])"
    "fscript (log_fd l') = []" "fpos (log_fd l') = length (fdata (log_fd l'))"
    "length (fdata (log_fd l')) < off_max" "\<forall>r \<in> set (rs @ [?r]). redo_wf r"
    by (rule log_holdsE)
  with log_get_entry_record [of l' k rs ?r "[]" 0 e] a show ?thesis by (simp add: redo_entry_def)
qed

theorem log_append_get_entry_roundtrip_witness:
  "\<exists>l l'. log_create [] = (HAM_SUCCESS, l) \<and>
     log_append_write l 3 0 4096 (replicate 8 7) = (HAM_SUCCESS, l') \<and>
     log_get_entry l' 0 log_entry_zero =
       (HAM_SUCCESS, 16, \<lparr>le_lsn = 3, le_flags = 0, le_reserved = 0, le_offset = 4096, le_data_size = 8\<rparr>,
        Some (replicate 8 7), l')"
proof -
  obtain l where l: "log_create [] = (HAM_SUCCESS, l)" "log_holds l []" "length (fdata (log_fd l)) = 16"
    using log_create_holds by auto
  from log_append_get_entry_roundtrip [OF l(2), of "replicate 8 7" 3 0 4096 log_entry_zero] l(1,3)
  show ?thesis by (auto simp: off_max_def)
qed

text \<open>
  C2. Crash recovery redoes a complete changeset: if the newest record of the log carries
  the completion mark, recovery terminates successfully, every logged page holds its
  logged image, every other page of the database file is untouched, the file has grown by exactly the pages that were
  appended, the log is empty and its serial number is that of the changeset. The logged pages may be pages of
  the file and, in the order in which recovery reads the records (newest first), the page just behind the end of
  the file, which is appended; no page is logged twice, no record has the serial number 0, the images have the size of a page, and the
  system calls on the database file and the log succeed.
\<close>

theorem log_recover_applies_complete_changeset:
  assumes "log_holds l rs" and "rs \<noteq> []" and "device_ok dev"
    and "redo_seq (dev_pagesize dev) (length (fdata (dev_fd dev))) (rev rs)"
    and "le_flags (redo_entry (last rs)) = CHANGESET_IS_COMPLETE"
    and "distinct (map (\<lambda>r. le_offset (redo_entry r)) rs)"
  shows "\<exists>l' dev'. log_recover env_flags l dev =
      Some (HAM_SUCCESS, env_flags OR HAM_ENABLE_RECOVERY, l', dev') \<and>
    log_holds l' [] \<and> log_lsn l' = fst (hd rs) \<and>
    length (fdata (dev_fd dev')) = redo_len (dev_pagesize dev) (length (fdata (dev_fd dev))) (rev rs) \<and>
    (\<forall>q \<in> set rs. page_at dev' (unat (le_offset (redo_entry q))) = redo_data q) \<and>
    (\<forall>b. page_offset dev b \<and> b \<notin> (\<lambda>r. le_offset (redo_entry r)) ` set rs \<longrightarrow>
         page_at dev' (unat b) = page_at dev (unat b))"
proof -
  have "distinct (map (\<lambda>r. le_offset (redo_entry r)) (rev rs))" using assms(6) by (simp add: rev_map [symmetric])
  then show ?thesis
    using log_recover_redo [OF assms(1-5), of env_flags] redo_run_ok [of "at_end dev" "rev rs"] assms(3,4) by auto
qed

text \<open>
  Crash recovery never applies part of a changeset: if the newest record of the log
  does not carry the completion mark, recovery terminates successfully, leaves every
  page of the database file as it was and empties the log.
\<close>

theorem log_recover_ignores_incomplete_changeset:
  assumes "log_holds l (rs @ [r])" and "device_ok dev"
    and "le_flags (redo_entry r) \<noteq> CHANGESET_IS_COMPLETE"
  shows "\<exists>l' dev'. log_recover env_flags l dev =
      Some (HAM_SUCCESS, env_flags OR HAM_ENABLE_RECOVERY, l', dev') \<and>
    log_holds l' [] \<and> fdata (dev_fd dev') = fdata (dev_fd dev)"
  using log_recover_incomplete [OF assms, of env_flags] by auto

text \<open>A two-page database file with eight-byte pages, for the witnesses.\<close>

definition sample_db :: device where
  "sample_db = \<lparr>dev_fd = \<lparr>fdata = replicate 16 0, fpos = 0, fscript = []\<rparr>, dev_flags = 0,
                dev_pagesize = 8, dev_granularity = 1\<rparr>"

lemma sample_db_ok: "device_ok sample_db" "page_offset sample_db 8" "page_offset sample_db 0"
  by (simp_all add: device_ok_def page_offset_def sample_db_def off_max_def)

lemma sample_log: "\<exists>l. log_holds l [(3, fl, 8, replicate 8 7)] \<and> log_lsn l = 3 \<and> length (fdata (log_fd l)) = 56"
proof -
  obtain l where l: "log_holds l []" "length (fdata (log_fd l)) = 16"
    using log_create_holds by auto
  from log_append_write_holds [OF l(1), of 3 fl 8 "replicate 8 7"] l(2) show ?thesis
    by (auto simp: redo_wf_def off_max_def)
qed

text \<open>One page is overwritten, one is appended to the file.\<close>

theorem log_recover_applies_complete_changeset_witness:
  "\<exists>l l' dev'. log_holds l [(3, 0, 8, replicate 8 7), (3, CHANGESET_IS_COMPLETE, 16, replicate 8 9)] \<and>
     log_recover 0 l sample_db = Some (HAM_SUCCESS, HAM_ENABLE_RECOVERY, l', dev') \<and> length (fdata (dev_fd dev')) = 24 \<and>
     page_at dev' 16 = replicate 8 9 \<and> page_at dev' 8 = replicate 8 7 \<and> page_at dev' 0 = replicate 8 0"
proof -
  let ?q = "(3, 0, 8, replicate 8 7) :: redo" and ?r = "(3, CHANGESET_IS_COMPLETE, 16, replicate 8 9) :: redo"
  obtain l0 where l0: "log_holds l0 [?q]" "length (fdata (log_fd l0)) = 56" using sample_log by auto
  then obtain l where l: "log_holds l [?q, ?r]"
    using log_append_write_holds [OF l0(1), of 3 CHANGESET_IS_COMPLETE 16 "replicate 8 9"] by (auto simp: redo_wf_def off_max_def)
  have s: "redo_seq (dev_pagesize sample_db) (length (fdata (dev_fd sample_db))) (rev [?q, ?r])"
    by (simp add: sample_db_def off_max_def)
  have z: "page_at sample_db 0 = replicate 8 0" by (simp add: page_at_def sample_db_def)
  from log_recover_applies_complete_changeset [OF l _ sample_db_ok(1) s, of 0] obtain l' dev' where
    r: "log_recover 0 l sample_db = Some (HAM_SUCCESS, 0 OR HAM_ENABLE_RECOVERY, l', dev')" "length (fdata (dev_fd dev')) = 24"
      "page_at dev' (unat (8 :: u64)) = replicate 8 7" "page_at dev' (unat (16 :: u64)) = replicate 8 9"
    and o: "\<And>b. page_offset sample_db b \<Longrightarrow> b \<noteq> 8 \<Longrightarrow> b \<noteq> 16 \<Longrightarrow> page_at dev' (unat b) = page_at sample_db (unat b)"
    by (auto simp: sample_db_def)
  have "page_at dev' 0 = replicate 8 0" using o [OF sample_db_ok(3)] z by simp
  with l r show ?thesis by auto
qed

theorem log_recover_ignores_incomplete_changeset_witness:
  "\<exists>l l' dev'. log_recover 0 l sample_db = Some (HAM_SUCCESS, HAM_ENABLE_RECOVERY, l', dev') \<and>
     fdata (dev_fd dev') = replicate 16 0"
proof -
  obtain l where l: "log_holds l ([] @ [(3, 0, 8, replicate 8 7)])" using sample_log [of 0] by auto
  from log_recover_ignores_incomplete_changeset [OF l sample_db_ok(1), of 0] show ?thesis
    by (auto simp: sample_db_def CHANGESET_IS_COMPLETE_def)
qed

text \<open>
  Opening a log file whose magic is wrong reports an invalid header, but on the way
  out \<open>Log::close\<close> rewrites the header with the right magic and truncates the file: all
  records are lost, and the next attempt to open the file succeeds with an empty log.
\<close>

theorem log_open_bad_magic_destroys_log:
  assumes "length content \<ge> 16" and "length content < off_max"
    and "lh_magic (dec_log_header (take 16 content)) \<noteq> LOG_HEADER_MAGIC"
  shows "\<exists>l. log_open (Some content) [] = (HAM_LOG_INV_FILE_HEADER, l) \<and>
    fdata (log_fd l) = enc_log_header \<lparr>lh_magic = LOG_HEADER_MAGIC, lh_reserved = 0, lh_lsn = 0\<rparr> \<and>
    fst (log_open (Some (fdata (log_fd l))) []) = HAM_SUCCESS"
proof -
  let ?h = "enc_log_header \<lparr>lh_magic = LOG_HEADER_MAGIC, lh_reserved = 0, lh_lsn = 0\<rparr>"
  let ?f = "\<lparr>fdata = content, fpos = 0, fscript = []\<rparr>"
  have rd: "os_pread ?f 0 16 = (HAM_SUCCESS, take 16 content, ?f)"
    using os_pread_ok [of ?f 0 16] assms(1) by (simp add: off_max_def)
  have wr: "os_pwrite ?f 0 ?h = (HAM_SUCCESS, ?f\<lparr>fdata := write_at content 0 ?h, fpos := 16\<rparr>)"
    using os_pwrite_ok [of ?f 0 ?h] by (simp add: off_max_def)
  have tr: "take 16 (write_at content 0 ?h) = ?h"
    by (simp add: write_at_def)
  have len: "16 \<le> length (write_at content 0 ?h)" by (simp add: length_write_at)
  obtain l where l: "log_open (Some content) [] = (HAM_LOG_INV_FILE_HEADER, l)" "fdata (log_fd l) = ?h"
    using assms(3) rd wr tr len
    by (auto simp: log_open_def os_open_def lock_exclusive_def sys_result_def sizeof_log_header_def
        log_new_def Let_def log_close_def log_clear_def os_truncate_def os_seek_set_def os_close_def
        off_max_def)
  moreover have "fst (log_open (Some (fdata (log_fd l))) []) = HAM_SUCCESS"
    using log_open_good [of l 0 0 "[]"] l(2) by simp
  ultimately show ?thesis by blast
qed

theorem log_open_bad_magic_destroys_log_witness:
  "\<exists>l. log_open (Some (replicate 100 0)) [] = (HAM_LOG_INV_FILE_HEADER, l) \<and> length (fdata (log_fd l)) = 16"
proof -
  have z: "le_nat (replicate n 0) = 0" for n by (induction n) simp_all
  have "lh_magic (dec_log_header (take 16 (replicate 100 0))) \<noteq> LOG_HEADER_MAGIC"
    by (simp add: dec_log_header_def get_u32_def LOG_HEADER_MAGIC_def z)
  with log_open_bad_magic_destroys_log [of "replicate 100 0"] show ?thesis
    by (auto simp: off_max_def)
qed

end
