(* ===== verification/Ham_Changeset.thy ===== *)
theory Ham_Changeset
  imports Ham_Log Ham_Cache
begin

text \<open>
  The changeset of \<open>src/changeset.h\<close> and \<open>src/changeset.cc\<close>: the linked list of the pages
  one operation modifies, and \<open>Changeset::flush\<close>, which sorts the dirty pages into
  buckets, logs them when more than one index page (or a page of unknown type) is
  involved, writes them to the database file and clears changeset and log. The error
  inducer of \<open>src/errorinducer.h\<close>, with which the unit tests stop a flush at any of its
  induction points, is part of the model: it is the crash model of the atomicity theorem.
  \<open>db_flush_page\<close> of \<open>src/db.cc\<close> is included.
\<close>

record cs_env =
  cs_store :: page_store
  cs_head :: "pid option"
  cs_inducer :: "(nat \<times> ham_status) option"
  cs_log :: ham_log
  cs_dev :: device
  cs_cache :: cache
  cs_filters :: "file_filter list"

subsection \<open>The error inducer\<close>

definition induce :: "(nat \<times> ham_status) option \<Rightarrow> ham_status \<times> (nat \<times> ham_status) option" where
  "induce ind =
     (case ind of
        None \<Rightarrow> (HAM_SUCCESS, None)
      | Some (loops, err) \<Rightarrow>
          if loops > 0 then
            (if loops - 1 = 0 then (err, Some (0, err)) else (HAM_SUCCESS, Some (loops - 1, err)))
          else (HAM_SUCCESS, Some (loops, err)))"

definition cs_induce :: "cs_env \<Rightarrow> ham_status \<times> cs_env" where
  "cs_induce e = (case induce (cs_inducer e) of (st, ind) \<Rightarrow> (st, e\<lparr>cs_inducer := ind\<rparr>))"

subsection \<open>The page list\<close>

definition cs_add_page :: "cs_env \<Rightarrow> pid \<Rightarrow> cs_env" where
  "cs_add_page e p =
     (if is_in_list (cs_store e) p (cs_head e) LIST_CHANGESET then e
      else
        (let S1 = set_next LIST_CHANGESET p (cs_head e) (cs_store e);
             S2 = (case cs_head e of None \<Rightarrow> S1 | Some h \<Rightarrow> set_previous LIST_CHANGESET h (Some p) S1)
         in e\<lparr>cs_store := S2, cs_head := Some p\<rparr>))"

partial_function (option) cs_search :: "page_store \<Rightarrow> u64 \<Rightarrow> pid option \<Rightarrow> pid option option" where
  "cs_search S pageid pg =
     (case pg of
        None \<Rightarrow> Some None
      | Some p \<Rightarrow>
          if p_self (S p) = pageid then Some (Some p)
          else cs_search S pageid (get_next LIST_CHANGESET S p))"

definition cs_get_page :: "cs_env \<Rightarrow> u64 \<Rightarrow> pid option option" where
  "cs_get_page e pageid = cs_search (cs_store e) pageid (cs_head e)"

partial_function (option) cs_clear_loop :: "page_store \<Rightarrow> pid option \<Rightarrow> page_store option" where
  "cs_clear_loop S pg =
     (case pg of
        None \<Rightarrow> Some S
      | Some p \<Rightarrow>
          (let n = get_next LIST_CHANGESET S p
           in cs_clear_loop (set_previous LIST_CHANGESET p None (set_next LIST_CHANGESET p None S)) n))"

definition cs_clear :: "cs_env \<Rightarrow> cs_env option" where
  "cs_clear e =
     (case cs_clear_loop (cs_store e) (cs_head e) of
        None \<Rightarrow> None
      | Some S \<Rightarrow> Some (e\<lparr>cs_store := S, cs_head := None\<rparr>))"

subsection \<open>Flushing\<close>

record cs_buckets =
  cb_blobs :: "pid list"
  cb_freelists :: "pid list"
  cb_indices :: "pid list"
  cb_others :: "pid list"

definition cs_append :: "page \<Rightarrow> pid \<Rightarrow> cs_buckets \<Rightarrow> cs_buckets" where
  "cs_append pg p b =
     (if is_header pg then b\<lparr>cb_indices := cb_indices b @ [p]\<rparr>
      else if p_flags pg AND NPERS_NO_HEADER \<noteq> 0 then b\<lparr>cb_blobs := cb_blobs b @ [p]\<rparr>
      else if page_get_type pg = TYPE_BLOB then b\<lparr>cb_blobs := cb_blobs b @ [p]\<rparr>
      else if page_get_type pg = TYPE_B_ROOT \<or> page_get_type pg = TYPE_B_INDEX \<or>
              page_get_type pg = TYPE_HEADER then b\<lparr>cb_indices := cb_indices b @ [p]\<rparr>
      else if page_get_type pg = TYPE_FREELIST then b\<lparr>cb_freelists := cb_freelists b @ [p]\<rparr>
      else b\<lparr>cb_others := cb_others b @ [p]\<rparr>)"

partial_function (option) cs_sort ::
  "cs_env \<Rightarrow> pid option \<Rightarrow> cs_buckets \<Rightarrow> u32 \<Rightarrow> (ham_status \<times> cs_env \<times> cs_buckets \<times> u32) option" where
  "cs_sort e pg b page_count =
     (case pg of
        None \<Rightarrow> Some (HAM_SUCCESS, e, b, page_count)
      | Some p \<Rightarrow>
          (let n = get_next LIST_CHANGESET (cs_store e) p in
           if \<not> p_dirty (cs_store e p) then cs_sort e n b page_count
           else
             (let b' = cs_append (cs_store e p) p b in
              case cs_induce e of
                (st, e') \<Rightarrow>
                  if st \<noteq> HAM_SUCCESS then Some (st, e', b', page_count + 1)
                  else cs_sort e' n b' (page_count + 1))))"

fun log_bucket :: "cs_env \<Rightarrow> pid list \<Rightarrow> u64 \<Rightarrow> u32 \<Rightarrow> ham_status \<times> cs_env \<times> u32" where
  "log_bucket e [] lsn page_count = (HAM_SUCCESS, e, page_count)"
| "log_bucket e (p # ps) lsn page_count =
     (case cs_induce e of
        (st, e1) \<Rightarrow>
          if st \<noteq> HAM_SUCCESS then (st, e1, page_count)
          else
            (case log_append_page (cs_log e1) (cs_filters e1) (dev_pagesize (cs_dev e1))
                    (cs_store e1 p) lsn (page_count - 1) of
               (st', l) \<Rightarrow>
                 if st' \<noteq> HAM_SUCCESS then (st', e1\<lparr>cs_log := l\<rparr>, page_count - 1)
                 else log_bucket (e1\<lparr>cs_log := l\<rparr>) ps lsn (page_count - 1)))"

definition db_flush_page :: "cs_env \<Rightarrow> pid \<Rightarrow> ham_status \<times> cs_env" where
  "db_flush_page e p =
     (let (st, e1) =
        (if p_dirty (cs_store e p) then
           (case page_flush (cs_dev e) (cs_filters e) (cs_store e p) of
              (st, pg, dev) \<Rightarrow> (st, e\<lparr>cs_store := (cs_store e)(p := pg), cs_dev := dev\<rparr>))
         else (HAM_SUCCESS, e))
      in if st \<noteq> HAM_SUCCESS then (st, e1)
         else if \<not> is_header (cs_store e1 p) then
           (case put_page (cs_store e1) (cs_cache e1) p of
              (S, c) \<Rightarrow> (HAM_SUCCESS, e1\<lparr>cs_store := S, cs_cache := c\<rparr>))
         else (HAM_SUCCESS, e1))"

partial_function (option) cs_write ::
  "cs_env \<Rightarrow> pid option \<Rightarrow> (ham_status \<times> cs_env) option" where
  "cs_write e pg =
     (case pg of
        None \<Rightarrow> Some (HAM_SUCCESS, e)
      | Some p \<Rightarrow>
          (case (if p_dirty (cs_store e p) then db_flush_page e p else (HAM_SUCCESS, e)) of
             (st, e1) \<Rightarrow>
               if st \<noteq> HAM_SUCCESS then Some (st, e1)
               else
                 (let n = get_next LIST_CHANGESET (cs_store e1) p in
                  case cs_induce e1 of
                    (st', e2) \<Rightarrow>
                      if st' \<noteq> HAM_SUCCESS then Some (st', e2) else cs_write e2 n)))"

definition cs_log_buckets :: "cs_env \<Rightarrow> cs_buckets \<Rightarrow> u64 \<Rightarrow> u32 \<Rightarrow> ham_status \<times> cs_env" where
  "cs_log_buckets e b lsn page_count =
     (case log_bucket e (cb_blobs b) lsn page_count of
        (st, e1, n1) \<Rightarrow> if st \<noteq> HAM_SUCCESS then (st, e1) else
     (case log_bucket e1 (cb_freelists b) lsn n1 of
        (st, e2, n2) \<Rightarrow> if st \<noteq> HAM_SUCCESS then (st, e2) else
     (case log_bucket e2 (cb_indices b) lsn n2 of
        (st, e3, n3) \<Rightarrow> if st \<noteq> HAM_SUCCESS then (st, e3) else
     (case log_bucket e3 (cb_others b) lsn n3 of
        (st, e4, n4) \<Rightarrow> (st, e4)))))"

definition cs_flush :: "cs_env \<Rightarrow> u64 \<Rightarrow> (ham_status \<times> cs_env) option" where
  "cs_flush e lsn =
     (case cs_induce e of (st0, e0) \<Rightarrow>
      if st0 \<noteq> HAM_SUCCESS then Some (st0, e0) else
      (case cs_sort e0 (cs_head e0)
              \<lparr>cb_blobs = [], cb_freelists = [], cb_indices = [], cb_others = []\<rparr> 0 of
         None \<Rightarrow> None
       | Some (st1, e1, b, page_count) \<Rightarrow>
           if st1 \<noteq> HAM_SUCCESS then Some (st1, e1)
           else if page_count = 0 then
             (case cs_induce e1 of (st2, e2) \<Rightarrow>
                if st2 \<noteq> HAM_SUCCESS then Some (st2, e2)
                else map_option (Pair HAM_SUCCESS) (cs_clear e2))
           else
             (case cs_induce e1 of (st2, e2) \<Rightarrow>
              if st2 \<noteq> HAM_SUCCESS then Some (st2, e2) else
              (case (if cb_others b \<noteq> [] \<or> length (cb_indices b) > 1
                     then cs_log_buckets e2 b lsn page_count else (HAM_SUCCESS, e2)) of
                 (st3, e3) \<Rightarrow>
                   if st3 \<noteq> HAM_SUCCESS then Some (st3, e3) else
                   (case cs_induce e3 of (st4, e4) \<Rightarrow>
                    if st4 \<noteq> HAM_SUCCESS then Some (st4, e4) else
                    (case cs_write e4 (cs_head e4) of
                       None \<Rightarrow> None
                     | Some (st5, e5) \<Rightarrow>
                         if st5 \<noteq> HAM_SUCCESS then Some (st5, e5)
                         else
                           (case cs_clear e5 of
                              None \<Rightarrow> None
                            | Some e6 \<Rightarrow>
                                (case log_clear (cs_log e6) of
                                   (st6, l) \<Rightarrow> Some (st6, e6\<lparr>cs_log := l\<rparr>)))))))))"


section \<open>The page list represents a list of pages\<close>

text \<open>
  \<open>cs_same S S'\<close>: nothing a flush reads of a page differs between the stores, the dirty
  marks and the links of the other lists excepted.
\<close>

definition cs_same :: "page_store \<Rightarrow> page_store \<Rightarrow> bool" where
  "cs_same S S' \<longleftrightarrow> (\<forall>p. p_self (S' p) = p_self (S p) \<and> p_flags (S' p) = p_flags (S p) \<and>
     p_pers (S' p) = p_pers (S p) \<and> get_next LIST_CHANGESET S' p = get_next LIST_CHANGESET S p)"

lemma cs_same_refl [simp]: "cs_same S S"
  by (simp add: cs_same_def)

lemma cs_same_trans: "cs_same S S' \<Longrightarrow> cs_same S' S'' \<Longrightarrow> cs_same S S''"
  by (simp add: cs_same_def)

definition cs_frame :: "page_store \<Rightarrow> page_store \<Rightarrow> bool" where
  "cs_frame S S' \<longleftrightarrow> cs_same S S' \<and> (\<forall>q. p_dirty (S' q) = p_dirty (S q))"

lemma cs_frame_refl [simp]: "cs_frame S S"
  by (simp add: cs_frame_def)

lemma cs_frame_trans: "cs_frame S S' \<Longrightarrow> cs_frame S' S'' \<Longrightarrow> cs_frame S S''"
  by (auto simp: cs_frame_def intro: cs_same_trans)

lemma same_but_links_cs: "same_but_links w S S' \<Longrightarrow> w \<noteq> LIST_CHANGESET \<Longrightarrow> cs_frame S S'"
  by (simp add: cs_frame_def cs_same_def same_but_links_fields)

lemma list_surgery_cs:
  "list_remove S p h w = (h', S') \<Longrightarrow> w = LIST_CACHED \<or> w = LIST_BUCKET \<Longrightarrow> cs_frame S S'"
  "list_insert S p h w = (h', S') \<Longrightarrow> w = LIST_CACHED \<or> w = LIST_BUCKET \<Longrightarrow> cs_frame S S'"
  using same_but_links_cs list_remove_frame list_insert_frame list_index_neq by metis+

lemma remove_page_frame:
  assumes "remove_page S c p = (S', c')"
  shows "cs_frame S S'"
proof -
  define c1 where "c1 = (if c_totallist_tail c = Some p
      then c\<lparr>c_totallist_tail := get_previous LIST_CACHED S p\<rparr> else c)"
  obtain S2 c2 where 2: "(if p_self (S p) \<noteq> 0 then
               (let hash = calc_hash (p_self (S p)) in
                if is_in_list S p (c_buckets c1 hash) LIST_BUCKET then
                  (case list_remove S p (c_buckets c1 hash) LIST_BUCKET of
                     (h, S') \<Rightarrow> (S', c1\<lparr>c_buckets := (c_buckets c1)(hash := h)\<rparr>))
                else (S, c1))
             else (S, c1)) = (S2, c2)" by (metis surj_pair)
  have "cs_frame S S2"
    using 2 by (auto simp: Let_def split: if_splits prod.splits intro: list_surgery_cs)
  moreover have "cs_frame S2 S'"
    using assms unfolding remove_page_def Let_def c1_def [symmetric] 2 [unfolded Let_def]
    by (auto split: if_splits prod.splits intro: list_surgery_cs)
  ultimately show ?thesis by (rule cs_frame_trans)
qed

lemma put_page_frame:
  assumes "put_page S c p = (S', c')"
  shows "cs_frame S S'"
proof -
  obtain S1 c1 where 1: "(if is_in_list S p (c_totallist c) LIST_CACHED
      then remove_page S c p else (S, c)) = (S1, c1)" by (metis surj_pair)
  obtain h S2 where 2: "list_insert S1 p (c_totallist c1) LIST_CACHED = (h, S2)" by (metis surj_pair)
  let ?hash = "calc_hash (p_self (S p))"
  define c2 where "c2 = c1\<lparr>c_totallist := h, c_cur_elements := c_cur_elements c1 + 1\<rparr>"
  obtain b S3 where 3: "(if is_in_list S2 p (c_buckets c2 ?hash) LIST_BUCKET
      then list_remove S2 p (c_buckets c2 ?hash) LIST_BUCKET else (c_buckets c2 ?hash, S2)) = (b, S3)"
    by (metis surj_pair)
  obtain b' S4 where 4: "list_insert S3 p b LIST_BUCKET = (b', S4)" by (metis surj_pair)
  have S': "S' = S4"
    using assms unfolding put_page_def Let_def 1 prod.case 2 c2_def [symmetric] 3 4 by simp
  have "cs_frame S S1" using 1 remove_page_frame by (auto split: if_splits)
  moreover have "cs_frame S1 S2" using list_surgery_cs(2) [OF 2] by simp
  moreover have "cs_frame S2 S3" using 3 by (auto split: if_splits intro: list_surgery_cs)
  moreover have "cs_frame S3 S4" using list_surgery_cs(2) [OF 4] by simp
  ultimately show ?thesis unfolding S' by (blast intro: cs_frame_trans)
qed


section \<open>Phases of a flush\<close>

text \<open>The bytes a page is stored as, in the log and in the database file alike.\<close>

definition raw_image :: "file_filter list \<Rightarrow> page \<Rightarrow> ham_status \<times> byte list" where
  "raw_image filters p =
     (if filters \<noteq> [] \<and> \<not> is_header p then run_before_write filters (case_option [] id (p_pers p))
      else (HAM_SUCCESS, case_option [] id (p_pers p)))"

abbreviation disk_bytes :: "file_filter list \<Rightarrow> page \<Rightarrow> byte list" where
  "disk_bytes filters p \<equiv> snd (raw_image filters p)"

definition page_ready :: "device \<Rightarrow> file_filter list \<Rightarrow> page \<Rightarrow> bool" where
  "page_ready dev filters p \<longleftrightarrow>
     (\<exists>buf. p_pers p = Some buf \<and> length buf = dev_pagesize dev) \<and>
     fst (raw_image filters p) = HAM_SUCCESS \<and>
     length (disk_bytes filters p) = dev_pagesize dev \<and> page_offset dev (p_self p)"

lemma raw_image_same: "cs_same S S' \<Longrightarrow> raw_image filters (S' p) = raw_image filters (S p)"
  by (simp add: raw_image_def cs_same_def is_header_def)

lemma page_ready_same: "cs_same S S' \<Longrightarrow> page_ready dev filters (S' p) = page_ready dev filters (S p)"
  using raw_image_same [of S S'] by (simp add: page_ready_def cs_same_def)

lemma log_append_page_holds:
  assumes "log_holds l rs" and "page_ready dev filters p" and "8 dvd dev_pagesize dev"
    and "0 < dev_pagesize dev" and "dev_pagesize dev < 2 ^ 32"
    and "length (fdata (log_fd l)) + dev_pagesize dev + 32 < off_max"
  shows "\<exists>l'. log_append_page l filters (dev_pagesize dev) p lsn cnt = (HAM_SUCCESS, l') \<and>
     log_holds l' (rs @ [(lsn, if cnt = 0 then CHANGESET_IS_COMPLETE else 0, p_self p, disk_bytes filters p)]) \<and>
     length (fdata (log_fd l')) = length (fdata (log_fd l)) + dev_pagesize dev + 32"
proof -
  let ?raw = "disk_bytes filters p" and ?fl = "if cnt = 0 then CHANGESET_IS_COMPLETE else 0"
  from assms(2) obtain buf where b: "p_pers p = Some buf" "length buf = dev_pagesize dev"
    and r: "raw_image filters p = (HAM_SUCCESS, ?raw)" "length ?raw = dev_pagesize dev"
    by (auto simp: page_ready_def prod_eq_iff)
  obtain raw where raw: "raw_image filters p = (HAM_SUCCESS, raw)" using r(1) by blast
  have "log_append_page l filters (dev_pagesize dev) p lsn cnt =
      log_append_write l lsn ?fl (p_self p) raw"
    using raw b by (cases "filters \<noteq> [] \<and> \<not> is_header p") (auto simp: log_append_page_def raw_image_def)
  then have eq: "log_append_page l filters (dev_pagesize dev) p lsn cnt =
      log_append_write l lsn ?fl (p_self p) ?raw" using raw by simp
  have "redo_wf (lsn, ?fl, p_self p, ?raw)" using assms(3-5) r(2) by (simp add: redo_wf_def)
  from log_append_write_holds [OF assms(1) this] assms(6) r(2) show ?thesis unfolding eq by auto
qed

lemma page_flush_ready:
  assumes "device_ok dev" and "page_ready dev filters p" and "p_dirty p"
  shows "page_flush dev filters p =
    (HAM_SUCCESS, p\<lparr>p_dirty := False\<rparr>, page_upd dev (p_self p) (disk_bytes filters p))"
proof -
  let ?raw = "disk_bytes filters p"
  from assms(2) obtain buf where b: "p_pers p = Some buf" "length buf = dev_pagesize dev"
    and r: "raw_image filters p = (HAM_SUCCESS, ?raw)" "length ?raw = dev_pagesize dev"
      "page_offset dev (p_self p)"
    by (auto simp: page_ready_def prod_eq_iff)
  have "device_write dev filters (p_self p) buf = (HAM_SUCCESS, page_upd dev (p_self p) ?raw)"
  proof (cases "filters \<noteq> [] \<and> \<not> is_header p")
    case True
    then show ?thesis
      using device_write_filtered [OF assms(1) r(3), of filters buf ?raw] r b
      by (simp add: raw_image_def is_header_def)
  next
    case False
    then have raw: "?raw = buf" using b by (auto simp: raw_image_def)
    have "device_write dev [] (p_self p) buf = device_write dev filters (p_self p) buf"
      using False by (auto simp: device_write_def is_header_def)
    with device_write_ok [OF assms(1) r(3) b(2)] raw show ?thesis by (simp add: page_upd_def)
  qed
  then show ?thesis using b assms(3) by (simp add: page_flush_def write_page_def)
qed

lemma cs_induce_frame:
  "cs_induce e = (st, e') \<Longrightarrow> \<exists>ind. e' = e\<lparr>cs_inducer := ind\<rparr>"
  by (auto simp: cs_induce_def split: prod.splits)

lemma cs_induce_upd: "\<exists>st ind. cs_induce e = (st, e\<lparr>cs_inducer := ind\<rparr>)"
  using cs_induce_frame by (metis surj_pair)

text \<open>Sorting: only the inducer changes, and the buckets hold exactly the dirty pages.\<close>

definition cb_all :: "cs_buckets \<Rightarrow> pid list" where
  "cb_all b = cb_blobs b @ cb_freelists b @ cb_indices b @ cb_others b"

definition cb_empty :: cs_buckets where
  "cb_empty = \<lparr>cb_blobs = [], cb_freelists = [], cb_indices = [], cb_others = []\<rparr>"

definition cs_dirty :: "page_store \<Rightarrow> pid list \<Rightarrow> pid list" where
  "cs_dirty S ps = filter (\<lambda>p. p_dirty (S p)) ps"

definition sorted_buckets :: "page_store \<Rightarrow> pid list \<Rightarrow> cs_buckets \<Rightarrow> cs_buckets" where
  "sorted_buckets S ps b = fold (\<lambda>p. cs_append (S p) p) (cs_dirty S ps) b"

text \<open>The condition under which \<open>Changeset::flush\<close> writes the log first.\<close>

definition cs_logged :: "page_store \<Rightarrow> pid list \<Rightarrow> bool" where
  "cs_logged S ps \<longleftrightarrow> cb_others (sorted_buckets S ps cb_empty) \<noteq> [] \<or>
     length (cb_indices (sorted_buckets S ps cb_empty)) > 1"

lemma cb_append_all:
  "set (cb_all (cs_append pg p b)) = insert p (set (cb_all b))"
  "length (cb_all (cs_append pg p b)) = Suc (length (cb_all b))"
  by (auto simp: cs_append_def cb_all_def)

lemma cb_all_sorted:
  "set (cb_all (sorted_buckets S ps b)) = set (cs_dirty S ps) \<union> set (cb_all b)"
  "length (cb_all (sorted_buckets S ps b)) = length (cs_dirty S ps) + length (cb_all b)"
proof -
  have "set (cb_all (fold (\<lambda>p. cs_append (S p) p) qs b)) = set qs \<union> set (cb_all b) \<and>
    length (cb_all (fold (\<lambda>p. cs_append (S p) p) qs b)) = length qs + length (cb_all b)" for qs
    by (induction qs arbitrary: b) (auto simp: cb_append_all)
  then show "set (cb_all (sorted_buckets S ps b)) = set (cs_dirty S ps) \<union> set (cb_all b)"
    "length (cb_all (sorted_buckets S ps b)) = length (cs_dirty S ps) + length (cb_all b)"
    by (simp_all add: sorted_buckets_def)
qed

lemma sorted_buckets_simps [simp]:
  "sorted_buckets S [] b = b"
  "sorted_buckets S (p # ps) b =
     sorted_buckets S ps (if p_dirty (S p) then cs_append (S p) p b else b)"
  "cs_dirty S [] = []"
  "cs_dirty S (p # ps) = (if p_dirty (S p) then p # cs_dirty S ps else cs_dirty S ps)"
  by (simp_all add: sorted_buckets_def cs_dirty_def)

lemma cs_sort_list:
  assumes "chain (get_next LIST_CHANGESET (cs_store e)) prv q ys None"
  shows "\<exists>st ind b' n'. cs_sort e (head_of ys) b n = Some (st, e\<lparr>cs_inducer := ind\<rparr>, b', n') \<and>
    (st = HAM_SUCCESS \<longrightarrow> b' = sorted_buckets (cs_store e) ys b \<and>
       n' = n + of_nat (length (cs_dirty (cs_store e) ys)))"
  using assms
proof (induction ys arbitrary: e b n q)
  case Nil
  then show ?case
    by (subst cs_sort.simps) (auto intro!: exI [of _ "cs_inducer e"])
next
  case (Cons y ys)
  then have nx: "get_next LIST_CHANGESET (cs_store e) y = head_of ys"
    and ch: "chain (get_next LIST_CHANGESET (cs_store e)) prv (Some y) ys None"
    by (auto split: if_splits)
  show ?case
  proof (cases "p_dirty (cs_store e y)")
    case False
    then have "cs_sort e (head_of (y # ys)) b n = cs_sort e (head_of ys) b n"
      by (subst cs_sort.simps) (simp add: nx)
    with Cons.IH [OF ch, of b n] False show ?thesis by auto
  next
    case True
    let ?b = "cs_append (cs_store e y) y b"
    obtain st e1 where i: "cs_induce e = (st, e1)" by (metis surj_pair)
    obtain ind where e1: "e1 = e\<lparr>cs_inducer := ind\<rparr>" using cs_induce_frame [OF i] by auto
    have eq: "cs_sort e (head_of (y # ys)) b n =
       (if st \<noteq> HAM_SUCCESS then Some (st, e1, ?b, n + 1) else cs_sort e1 (head_of ys) ?b (n + 1))"
      using True by (subst cs_sort.simps) (simp add: nx i Let_def)
    show ?thesis
    proof (cases "st = HAM_SUCCESS")
      case False
      then show ?thesis using eq e1 by auto
    next
      case st: True
      have "chain (get_next LIST_CHANGESET (cs_store e1)) prv (Some y) ys None"
        using ch e1 by simp
      from Cons.IH [OF this, of ?b "n + 1"] eq st True show ?thesis
        unfolding e1 by (auto simp: algebra_simps)
    qed
  qed
qed

text \<open>Logging: the records of a prefix of the pages, the last of a complete set marked.\<close>

fun cs_records :: "page_store \<Rightarrow> file_filter list \<Rightarrow> u64 \<Rightarrow> u32 \<Rightarrow> pid list \<Rightarrow> redo list" where
  "cs_records S filters lsn n [] = []"
| "cs_records S filters lsn n (p # ps) =
     (lsn, if n - 1 = 0 then CHANGESET_IS_COMPLETE else 0, p_self (S p), disk_bytes filters (S p)) #
     cs_records S filters lsn (n - 1) ps"

lemma length_cs_records [simp]: "length (cs_records S filters lsn n ps) = length ps"
  by (induction ps arbitrary: n) simp_all

lemma log_bucket_append:
  "log_bucket e (ps @ qs) lsn n =
     (case log_bucket e ps lsn n of (st, e1, n1) \<Rightarrow>
        if st \<noteq> HAM_SUCCESS then (st, e1, n1) else log_bucket e1 qs lsn n1)"
  by (induction ps arbitrary: e n) (auto split: prod.split)

lemma cs_log_buckets_all:
  "cs_log_buckets e b lsn n = (case log_bucket e (cb_all b) lsn n of (st, e', n') \<Rightarrow> (st, e'))"
  by (auto simp: cs_log_buckets_def cb_all_def log_bucket_append split: prod.split)

lemma log_bucket_prefix:
  assumes "log_holds (cs_log e) rs" and "\<forall>p \<in> set ps. page_ready (cs_dev e) (cs_filters e) (cs_store e p)"
    and "8 dvd dev_pagesize (cs_dev e)" and "0 < dev_pagesize (cs_dev e)"
    and "dev_pagesize (cs_dev e) < 2 ^ 32"
    and "length (fdata (log_fd (cs_log e))) + length ps * (dev_pagesize (cs_dev e) + 32) < off_max"
  shows "\<exists>st ind l' n' k. log_bucket e ps lsn n = (st, e\<lparr>cs_inducer := ind, cs_log := l'\<rparr>, n') \<and>
    log_holds l' (rs @ take k (cs_records (cs_store e) (cs_filters e) lsn n ps)) \<and>
    (if st = HAM_SUCCESS then k = length ps else k < length ps)"
  using assms
proof (induction ps arbitrary: e rs n)
  case Nil
  then show ?case by (auto intro!: exI [of _ "cs_inducer e"] exI [of _ "cs_log e"])
next
  case (Cons p ps)
  obtain st e1 where i: "cs_induce e = (st, e1)" by (metis surj_pair)
  obtain ind where e1: "e1 = e\<lparr>cs_inducer := ind\<rparr>" using cs_induce_frame [OF i] by auto
  show ?case
  proof (cases "st = HAM_SUCCESS")
    case False
    with i e1 Cons.prems(1) show ?thesis
      by (auto intro!: exI [of _ 0] exI [of _ ind] exI [of _ "cs_log e"])
  next
    case True
    let ?r = "(lsn, if n - 1 = 0 then CHANGESET_IS_COMPLETE else 0, p_self (cs_store e p),
      disk_bytes (cs_filters e) (cs_store e p))"
    from log_append_page_holds [OF Cons.prems(1) _ Cons.prems(3-5), of "cs_filters e" "cs_store e p" lsn "n - 1"]
      Cons.prems(2,6)
    obtain l' where l': "log_append_page (cs_log e) (cs_filters e) (dev_pagesize (cs_dev e))
        (cs_store e p) lsn (n - 1) = (HAM_SUCCESS, l')" "log_holds l' (rs @ [?r])"
      "length (fdata (log_fd l')) = length (fdata (log_fd (cs_log e))) + dev_pagesize (cs_dev e) + 32"
      by auto
    let ?e = "e\<lparr>cs_inducer := ind, cs_log := l'\<rparr>"
    have eq: "log_bucket e (p # ps) lsn n = log_bucket ?e ps lsn (n - 1)"
      using i e1 True l'(1) by simp
    from Cons.IH [of ?e "rs @ [?r]" "n - 1"] l' Cons.prems(2-6)
    obtain st' ind' l'' n' k where r: "log_bucket ?e ps lsn (n - 1) =
        (st', ?e\<lparr>cs_inducer := ind', cs_log := l''\<rparr>, n')"
      "log_holds l'' ((rs @ [?r]) @ take k (cs_records (cs_store e) (cs_filters e) lsn (n - 1) ps))"
      "if st' = HAM_SUCCESS then k = length ps else k < length ps"
      by auto
    then show ?thesis unfolding eq
      by (intro exI [of _ st'] exI [of _ ind'] exI [of _ l''] exI [of _ n'] exI [of _ "Suc k"])
         (auto split: if_splits)
  qed
qed

lemma cs_records_prefix_flags:
  "length ps < 2 ^ 32 \<Longrightarrow> k < length ps \<Longrightarrow>
   r \<in> set (take k (cs_records S filters lsn (of_nat (length ps)) ps)) \<Longrightarrow>
   le_flags (redo_entry r) \<noteq> CHANGESET_IS_COMPLETE"
proof (induction ps arbitrary: k)
  case (Cons p ps)
  show ?case
  proof (cases k)
    case (Suc k')
    then have "ps \<noteq> []" using Cons.prems(2) by auto
    then have "(of_nat (length ps) :: u32) \<noteq> 0"
      using Cons.prems(1) by (simp add: word_unat_eq_iff unsigned_of_nat take_bit_nat_eq_self)
    with Cons.prems Suc have "r \<in> set (take k' (cs_records S filters lsn (of_nat (length ps)) ps)) \<or>
       r = (lsn, 0, p_self (S p), disk_bytes filters (S p))" by auto
    then show ?thesis
    proof
      assume "r \<in> set (take k' (cs_records S filters lsn (of_nat (length ps)) ps))"
      with Cons.IH Cons.prems Suc show ?thesis by simp
    qed (simp add: redo_entry_def CHANGESET_IS_COMPLETE_def)
  qed (use Cons.prems in simp)
qed simp

lemma cs_records_complete:
  "length ps < 2 ^ 32 \<Longrightarrow> ps \<noteq> [] \<Longrightarrow>
   le_flags (redo_entry (last (cs_records S filters lsn (of_nat (length ps)) ps))) = CHANGESET_IS_COMPLETE"
proof (induction ps)
  case (Cons p ps)
  have "cs_records S filters lsn n ps = [] \<longleftrightarrow> ps = []" for n
    by (metis length_0_conv length_cs_records)
  with Cons show ?case by (cases "ps = []") (auto simp: redo_entry_def)
qed simp

lemma map_cs_records:
  "map redo_loc (cs_records S filters lsn n ps) = map (\<lambda>p. p_self (S p)) ps"
  "map (\<lambda>r. (redo_loc r, redo_data r)) (cs_records S filters lsn n ps) =
     map (\<lambda>p. (p_self (S p), disk_bytes filters (S p))) ps"
  by (induction ps arbitrary: n) (auto simp: redo_loc_def redo_data_def redo_entry_def)

lemma cs_records_fit:
  assumes "lsn \<noteq> 0" and "\<forall>p \<in> set ps. page_ready dev filters (S p)"
  shows "\<forall>r \<in> set (cs_records S filters lsn n ps). redo_fits dev r"
  using assms(2) by (induction ps arbitrary: n) (auto simp: redo_fits_def page_ready_def assms(1))

lemma distinct_map_same_set:
  assumes "distinct (map f xs)" and "set ys = set xs" and "length ys = length xs"
  shows "distinct (map f ys)"
  using assms by (metis card_distinct distinct_card distinct_map)

text \<open>Writing: a prefix of the dirty pages reaches the database file.\<close>

definition wrote :: "page_store \<Rightarrow> file_filter list \<Rightarrow> pid list \<Rightarrow> device \<Rightarrow> device \<Rightarrow> bool" where
  "wrote S filters ps dev dev' \<longleftrightarrow> device_ok dev' \<and> dev_pagesize dev' = dev_pagesize dev \<and>
     (\<forall>b. page_offset dev' b = page_offset dev b) \<and>
     (\<forall>p \<in> set ps. page_at dev' (unat (p_self (S p))) = disk_bytes filters (S p)) \<and>
     (\<forall>b. page_offset dev b \<and> b \<notin> (\<lambda>p. p_self (S p)) ` set ps \<longrightarrow>
        page_at dev' (unat b) = page_at dev (unat b))"

lemma wrote_Nil [simp]: "wrote S filters [] dev dev \<longleftrightarrow> device_ok dev"
  by (simp add: wrote_def)

lemma wrote_step:
  assumes "wrote S filters ps dev dev'" and "page_ready dev filters (S p)"
    and "p_self (S p) \<notin> (\<lambda>p. p_self (S p)) ` set ps" and "\<forall>q \<in> set ps. page_ready dev filters (S q)"
  shows "wrote S filters (p # ps) dev (page_upd dev' (p_self (S p)) (disk_bytes filters (S p)))"
proof -
  let ?raw = "disk_bytes filters (S p)"
  have o: "device_ok dev'" "page_offset dev' (p_self (S p))" "length ?raw = dev_pagesize dev'"
    using assms(1,2) by (auto simp: wrote_def page_ready_def)
  show ?thesis
    unfolding wrote_def
    using page_upd_ok [OF o] page_at_upd [OF o] assms
    by (auto simp: wrote_def page_ready_def) (metis image_eqI)
qed

lemma wrote_set: "set ps = set qs \<Longrightarrow> wrote S filters ps dev dev' = wrote S filters qs dev dev'"
  by (simp add: wrote_def)

lemma page_ready_dev:
  "dev_pagesize dev' = dev_pagesize dev \<Longrightarrow> (\<forall>b. page_offset dev' b = page_offset dev b) \<Longrightarrow>
   page_ready dev' filters p = page_ready dev filters p"
  by (simp add: page_ready_def)

lemma db_flush_page_ready:
  assumes "device_ok (cs_dev e)" and "page_ready (cs_dev e) (cs_filters e) (cs_store e p)"
    and "p_dirty (cs_store e p)"
  shows "\<exists>S' c'. db_flush_page e p = (HAM_SUCCESS, e\<lparr>cs_store := S', cs_cache := c',
      cs_dev := page_upd (cs_dev e) (p_self (cs_store e p)) (disk_bytes (cs_filters e) (cs_store e p))\<rparr>) \<and>
    cs_same (cs_store e) S' \<and> (\<forall>q. q \<noteq> p \<longrightarrow> p_dirty (S' q) = p_dirty (cs_store e q)) \<and>
    \<not> p_dirty (S' p)"
proof -
  let ?S1 = "(cs_store e)(p := (cs_store e p)\<lparr>p_dirty := False\<rparr>)"
  have c: "cs_same (cs_store e) ?S1" by (auto simp: cs_same_def get_next_def)
  obtain S2 c2 where pp: "put_page ?S1 (cs_cache e) p = (S2, c2)" by (metis surj_pair)
  note f = put_page_frame [OF pp]
  show ?thesis
  proof (cases "is_header (cs_store e p)")
    case True
    then show ?thesis using page_flush_ready [OF assms] assms(3) c
      by (intro exI [of _ ?S1] exI [of _ "cs_cache e"])
         (auto simp: db_flush_page_def is_header_def)
  next
    case False
    then have "db_flush_page e p = (HAM_SUCCESS, e\<lparr>cs_store := S2, cs_cache := c2,
      cs_dev := page_upd (cs_dev e) (p_self (cs_store e p)) (disk_bytes (cs_filters e) (cs_store e p))\<rparr>)"
      using page_flush_ready [OF assms] assms(3) pp by (simp add: db_flush_page_def is_header_def)
    moreover have "cs_same (cs_store e) S2"
      using c f cs_same_trans by (auto simp: cs_frame_def)
    ultimately show ?thesis using f by (auto simp: cs_frame_def)
  qed
qed

lemma cs_dirty_cong:
  "(\<And>q. q \<in> set ps \<Longrightarrow> p_dirty (S' q) = p_dirty (S q)) \<Longrightarrow> cs_dirty S' ps = cs_dirty S ps"
  unfolding cs_dirty_def by (rule filter_cong) auto

lemma cs_write_prefix:
  assumes "chain (get_next LIST_CHANGESET (cs_store e)) prv q ys None" and "distinct ys"
    and "cs_same S (cs_store e)" and "wrote S (cs_filters e) ws dev (cs_dev e)"
    and "\<forall>p \<in> set (ws @ cs_dirty (cs_store e) ys). page_ready dev (cs_filters e) (S p)"
    and "distinct (map (\<lambda>p. p_self (S p)) (ws @ cs_dirty (cs_store e) ys))"
  shows "\<exists>st e' k. cs_write e (head_of ys) = Some (st, e') \<and> cs_log e' = cs_log e \<and>
    cs_head e' = cs_head e \<and> cs_filters e' = cs_filters e \<and> cs_same S (cs_store e') \<and>
    wrote S (cs_filters e) (ws @ take k (cs_dirty (cs_store e) ys)) dev (cs_dev e') \<and>
    (\<forall>p. p \<notin> set ys \<longrightarrow> p_dirty (cs_store e' p) = p_dirty (cs_store e p)) \<and>
    (st = HAM_SUCCESS \<longrightarrow> k \<ge> length (cs_dirty (cs_store e) ys) \<and> (\<forall>p \<in> set ys. \<not> p_dirty (cs_store e' p)))"
  using assms
proof (induction ys arbitrary: e ws q)
  case Nil
  then show ?case by (subst cs_write.simps) auto
next
  case (Cons y ys)
  let ?flush = "if p_dirty (cs_store e y) then db_flush_page e y else (HAM_SUCCESS, e)"
  obtain S1 c1 d1 where 1: "?flush = (HAM_SUCCESS, e\<lparr>cs_store := S1, cs_cache := c1, cs_dev := d1\<rparr>)"
    "cs_same (cs_store e) S1" "\<forall>q. q \<noteq> y \<longrightarrow> p_dirty (S1 q) = p_dirty (cs_store e q)" "\<not> p_dirty (S1 y)"
    "wrote S (cs_filters e) (ws @ take 1 (if p_dirty (cs_store e y) then [y] else [])) dev d1"
  proof (cases "p_dirty (cs_store e y)")
    case True
    have ry: "page_ready dev (cs_filters e) (S y)" using Cons.prems(5) True by auto
    then have rdy: "page_ready (cs_dev e) (cs_filters e) (cs_store e y)"
      using Cons.prems(3,4) page_ready_same page_ready_dev by (metis wrote_def)
    have self: "p_self (cs_store e y) = p_self (S y)"
      "disk_bytes (cs_filters e) (cs_store e y) = disk_bytes (cs_filters e) (S y)"
      using Cons.prems(3) raw_image_same [OF Cons.prems(3)] by (auto simp: cs_same_def)
    have "wrote S (cs_filters e) (y # ws) dev (page_upd (cs_dev e) (p_self (S y)) (disk_bytes (cs_filters e) (S y)))"
      by (rule wrote_step [OF Cons.prems(4) ry]) (use Cons.prems(5,6) True in auto)
    then have w: "wrote S (cs_filters e) (ws @ [y]) dev (page_upd (cs_dev e) (p_self (S y)) (disk_bytes (cs_filters e) (S y)))"
      using wrote_set [of "y # ws" "ws @ [y]"] by simp
    from db_flush_page_ready [OF _ rdy True] Cons.prems(4) w that True show thesis
      unfolding self by (auto simp: wrote_def)
  next
    case False
    then have "?flush = (HAM_SUCCESS, e\<lparr>cs_store := cs_store e, cs_cache := cs_cache e, cs_dev := cs_dev e\<rparr>)"
      by simp
    from that [OF this] False Cons.prems(4) show thesis by simp
  qed
  let ?ws = "ws @ (if p_dirty (cs_store e y) then [y] else [])"
  have w: "wrote S (cs_filters e) ?ws dev d1" using 1(5) by simp
  have nx: "get_next LIST_CHANGESET S1 y = head_of ys"
    using Cons.prems(1) 1(2) by (auto simp: cs_same_def split: if_splits)
  have ch: "chain (get_next LIST_CHANGESET S1) prv (Some y) ys None"
    using Cons.prems(1) 1(2) by (auto simp: cs_same_def cong: chain_cong)
  have dy: "cs_dirty S1 ys = cs_dirty (cs_store e) ys"
    by (rule cs_dirty_cong) (use Cons.prems(2) 1(3) in auto)
  have ss: "cs_same S S1" using Cons.prems(3) 1(2) by (rule cs_same_trans)
  let ?e1 = "e\<lparr>cs_store := S1, cs_cache := c1, cs_dev := d1\<rparr>"
  obtain st e2 where i: "cs_induce ?e1 = (st, e2)" by (metis surj_pair)
  obtain ind where e2: "e2 = ?e1\<lparr>cs_inducer := ind\<rparr>" using cs_induce_frame [OF i] by auto
  have eq: "cs_write e (head_of (y # ys)) =
      (if st \<noteq> HAM_SUCCESS then Some (st, e2) else cs_write e2 (head_of ys))"
    by (subst cs_write.simps) (simp add: 1(1) i nx)
  show ?case
  proof (cases "st = HAM_SUCCESS")
    case False
    have "ws @ take (if p_dirty (cs_store e y) then 1 else 0) (cs_dirty (cs_store e) (y # ys)) = ?ws" by simp
    with False w ss 1(3) show ?thesis unfolding eq e2
      by (intro exI [of _ st] exI [of _ "?e1\<lparr>cs_inducer := ind\<rparr>"]
            exI [of _ "if p_dirty (cs_store e y) then 1 else 0"]) simp
  next
    case True
    have pr: "\<forall>p \<in> set (?ws @ cs_dirty S1 ys). page_ready dev (cs_filters e) (S p)"
      "distinct (map (\<lambda>p. p_self (S p)) (?ws @ cs_dirty S1 ys))"
      using Cons.prems(5,6) dy by (auto split: if_splits)
    from Cons.IH [of e2 "Some y" ?ws] ch Cons.prems(2) ss w pr
    obtain st' e' k where r: "cs_write e2 (head_of ys) = Some (st', e')" "cs_log e' = cs_log e"
      "cs_head e' = cs_head e" "cs_filters e' = cs_filters e" "cs_same S (cs_store e')"
      "wrote S (cs_filters e) (?ws @ take k (cs_dirty S1 ys)) dev (cs_dev e')"
      "st' = HAM_SUCCESS \<longrightarrow> k \<ge> length (cs_dirty S1 ys) \<and> (\<forall>p \<in> set ys. \<not> p_dirty (cs_store e' p))"
      "\<forall>p. p \<notin> set ys \<longrightarrow> p_dirty (cs_store e' p) = p_dirty (S1 p)"
      unfolding e2 by auto
    have "ws @ take (if p_dirty (cs_store e y) then Suc k else k) (cs_dirty (cs_store e) (y # ys)) =
        ?ws @ take k (cs_dirty S1 ys)" using dy by simp
    moreover have "st' = HAM_SUCCESS \<longrightarrow> (\<forall>p \<in> set (y # ys). \<not> p_dirty (cs_store e' p))"
      "\<forall>p. p \<notin> set (y # ys) \<longrightarrow> p_dirty (cs_store e' p) = p_dirty (cs_store e p)"
      using r(7,8) 1(3,4) Cons.prems(2) by auto
    ultimately show ?thesis unfolding eq using True r dy
      by (intro exI [of _ st'] exI [of _ e'] exI [of _ "if p_dirty (cs_store e y) then Suc k else k"]) simp
  qed
qed

text \<open>Clearing: the loop ends at the last page and unlinks every page.\<close>

lemma cs_clear_loop_list:
  assumes "chain (get_next LIST_CHANGESET S) prv q ys None" and "distinct ys"
  shows "\<exists>S'. cs_clear_loop S (head_of ys) = Some S' \<and> same_but_links LIST_CHANGESET S S' \<and>
    (\<forall>p \<in> set ys. unlinked LIST_CHANGESET S' p) \<and>
    (\<forall>p. p \<notin> set ys \<longrightarrow> unlinked LIST_CHANGESET S' p = unlinked LIST_CHANGESET S p)"
  using assms
proof (induction ys arbitrary: S q)
  case Nil
  then show ?case by (subst cs_clear_loop.simps) auto
next
  case (Cons y ys)
  let ?S = "set_previous LIST_CHANGESET y None (set_next LIST_CHANGESET y None S)"
  have nx: "get_next LIST_CHANGESET ?S = (get_next LIST_CHANGESET S)(y := None)"
    "get_previous LIST_CHANGESET ?S = (get_previous LIST_CHANGESET S)(y := None)"
    by (simp_all add: page_links.link_simps)
  have eq: "cs_clear_loop S (head_of (y # ys)) = cs_clear_loop ?S (head_of ys)"
    using Cons.prems(1) by (subst cs_clear_loop.simps) (auto simp: Let_def split: if_splits)
  have ch: "chain (get_next LIST_CHANGESET ?S) prv (Some y) ys None"
    unfolding nx
    by (rule chain_cong [THEN iffD1, of ys "get_next LIST_CHANGESET S" _ prv]) (use Cons.prems in auto)
  have u: "unlinked LIST_CHANGESET ?S p = (p = y \<or> unlinked LIST_CHANGESET S p)" for p
    by (auto simp: unlinked_def nx)
  have "same_but_links LIST_CHANGESET S S'" if "same_but_links LIST_CHANGESET ?S S'" for S'
    by (rule same_but_links_trans [OF same_but_links_trans [of _ _ "set_next LIST_CHANGESET y None S"] that])
      simp_all
  with Cons.IH [OF ch] Cons.prems(2) u show ?case unfolding eq by auto
qed

text \<open>
  Where a flush may stop: the log holds a prefix of the records and a prefix of the
  dirty pages is written, but no page before the log is complete; a flush that succeeds
  has written them all and has cleared changeset and log.
\<close>

definition flush_order :: "page_store \<Rightarrow> pid list \<Rightarrow> pid list" where
  "flush_order S ps = cb_all (sorted_buckets S ps cb_empty)"

lemma flush_order: "set (flush_order S ps) = set (cs_dirty S ps)"
  "length (flush_order S ps) = length (cs_dirty S ps)"
  by (simp_all add: flush_order_def cb_all_sorted) (simp_all add: cb_all_def cb_empty_def)

definition cs_ready :: "cs_env \<Rightarrow> pid list \<Rightarrow> bool" where
  "cs_ready e ps \<longleftrightarrow>
     cs_head e = head_of ps \<and> page_list LIST_CHANGESET (cs_store e) ps \<and>
     (\<forall>p \<in> set (cs_dirty (cs_store e) ps). page_ready (cs_dev e) (cs_filters e) (cs_store e p)) \<and>
     distinct (map (\<lambda>p. p_self (cs_store e p)) (cs_dirty (cs_store e) ps)) \<and>
     length ps < 2 ^ 32 \<and> device_ok (cs_dev e) \<and> log_holds (cs_log e) [] \<and>
     8 dvd dev_pagesize (cs_dev e) \<and> dev_pagesize (cs_dev e) < 2 ^ 32 \<and>
     length (fdata (log_fd (cs_log e))) + length ps * (dev_pagesize (cs_dev e) + 32) < off_max"

definition flush_stopped :: "cs_env \<Rightarrow> pid list \<Rightarrow> u64 \<Rightarrow> cs_env \<Rightarrow> bool" where
  "flush_stopped e ps lsn e' \<longleftrightarrow>
     (\<exists>k j. log_holds (cs_log e') (take k (cs_records (cs_store e) (cs_filters e) lsn
              (of_nat (length (cs_dirty (cs_store e) ps))) (flush_order (cs_store e) ps))) \<and>
        wrote (cs_store e) (cs_filters e) (take j (cs_dirty (cs_store e) ps)) (cs_dev e) (cs_dev e') \<and>
        (k < length (cs_dirty (cs_store e) ps) \<longrightarrow> j = 0))"

definition flush_done :: "cs_env \<Rightarrow> pid list \<Rightarrow> cs_env \<Rightarrow> bool" where
  "flush_done e ps e' \<longleftrightarrow> cs_head e' = None \<and> log_holds (cs_log e') [] \<and>
     (\<forall>p \<in> set ps. unlinked LIST_CHANGESET (cs_store e') p \<and> \<not> p_dirty (cs_store e' p)) \<and>
     wrote (cs_store e) (cs_filters e) (cs_dirty (cs_store e) ps) (cs_dev e) (cs_dev e')"

lemma flush_stopped_start:
  "cs_ready e ps \<Longrightarrow> flush_stopped e ps lsn (e\<lparr>cs_inducer := ind\<rparr>)"
  unfolding flush_stopped_def
  by (intro exI [of _ 0]) (simp add: cs_ready_def)

lemma cs_flush_write:
  assumes "cs_ready e ps" and "log_holds l rs"
  shows "\<exists>st e' e6 k. cs_write (e\<lparr>cs_inducer := ind, cs_log := l\<rparr>) (cs_head e) = Some (st, e') \<and>
    wrote (cs_store e) (cs_filters e) (take k (cs_dirty (cs_store e) ps)) (cs_dev e) (cs_dev e') \<and>
    cs_log e' = l \<and>
    (st = HAM_SUCCESS \<longrightarrow> cs_clear e' = Some e6 \<and> cs_log e6 = l \<and> (\<forall>l'. log_holds l' [] \<longrightarrow>
      flush_done e ps (e6\<lparr>cs_log := l'\<rparr>)))"
proof -
  let ?e = "e\<lparr>cs_inducer := ind, cs_log := l\<rparr>" and ?S = "cs_store e"
  have ch: "chain (get_next LIST_CHANGESET ?S) (get_previous LIST_CHANGESET ?S) None ps None"
    "distinct ps" and h: "cs_head e = head_of ps"
    using assms(1) by (auto simp: cs_ready_def dlist_def)
  from cs_write_prefix [of ?e "get_previous LIST_CHANGESET ?S" None ps ?S "[]" "cs_dev e"] assms(1) ch
  obtain st e' k where r: "cs_write ?e (head_of ps) = Some (st, e')" "cs_log e' = l"
    "cs_same ?S (cs_store e')" "cs_head e' = head_of ps"
    "wrote ?S (cs_filters e) (take k (cs_dirty ?S ps)) (cs_dev e) (cs_dev e')"
    "st = HAM_SUCCESS \<longrightarrow> k \<ge> length (cs_dirty ?S ps) \<and> (\<forall>p \<in> set ps. \<not> p_dirty (cs_store e' p))"
    by (auto simp: cs_ready_def)
  have "chain (get_next LIST_CHANGESET (cs_store e')) (get_previous LIST_CHANGESET ?S) None ps None"
    using ch(1) r(3) by (auto simp: cs_same_def cong: chain_cong)
  from cs_clear_loop_list [OF this ch(2)] obtain S' where
    S': "cs_clear_loop (cs_store e') (head_of ps) = Some S'" "same_but_links LIST_CHANGESET (cs_store e') S'"
      "\<forall>p \<in> set ps. unlinked LIST_CHANGESET S' p" by blast
  have "flush_done e ps (e'\<lparr>cs_store := S', cs_head := None, cs_log := l'\<rparr>)"
    if "st = HAM_SUCCESS" "log_holds l' []" for l'
    using r(5,6) S'(2,3) that by (simp add: flush_done_def same_but_links_fields)
  with r S'(1) h show ?thesis
    by (intro exI [of _ st] exI [of _ e'] exI [of _ "e'\<lparr>cs_store := S', cs_head := None\<rparr>"] exI [of _ k])
       (auto simp: cs_clear_def)
qed

lemma cs_flush_logged:
  assumes "cs_ready e ps" and "cs_logged (cs_store e) ps"
  shows "\<exists>st e'. cs_flush e lsn = Some (st, e') \<and>
    (if st = HAM_SUCCESS then flush_done e ps e' else flush_stopped e ps lsn e')"
proof -
  let ?S = "cs_store e" and ?d = "cs_dirty (cs_store e) ps"
  let ?b = "sorted_buckets ?S ps cb_empty" and ?n = "of_nat (length ?d) :: u32"
  note start = flush_stopped_start [OF assms(1), of lsn]
  have ch: "chain (get_next LIST_CHANGESET ?S) (get_previous LIST_CHANGESET ?S) None ps None"
    and h: "cs_head e = head_of ps" using assms(1) by (auto simp: cs_ready_def dlist_def)
  have dl: "length ?d \<le> length ps" by (simp add: cs_dirty_def)
  have "?d \<noteq> []"
    using assms(2) flush_order [of ?S ps] by (auto simp: cs_logged_def flush_order_def cb_all_def)
  then have n0: "?n \<noteq> 0" using dl assms(1)
    by (simp add: cs_ready_def word_unat_eq_iff unsigned_of_nat take_bit_nat_eq_self)
  obtain st0 i0 where 0: "cs_induce e = (st0, e\<lparr>cs_inducer := i0\<rparr>)"
    using cs_induce_upd by blast
  obtain st1 i1 b n where 1: "cs_sort (e\<lparr>cs_inducer := i0\<rparr>) (head_of ps) cb_empty 0 =
      Some (st1, e\<lparr>cs_inducer := i1\<rparr>, b, n)" "st1 = HAM_SUCCESS \<longrightarrow> b = ?b \<and> n = ?n"
    using cs_sort_list [of "e\<lparr>cs_inducer := i0\<rparr>" "get_previous LIST_CHANGESET ?S" None ps cb_empty 0] ch
    by auto
  obtain st2 i2 where 2: "cs_induce (e\<lparr>cs_inducer := i1\<rparr>) = (st2, e\<lparr>cs_inducer := i2\<rparr>)"
    using cs_induce_upd [of "e\<lparr>cs_inducer := i1\<rparr>"] by auto
  have "\<exists>st ind l' n' k. log_bucket (e\<lparr>cs_inducer := i2\<rparr>) (flush_order ?S ps) lsn ?n =
      (st, e\<lparr>cs_inducer := ind, cs_log := l'\<rparr>, n') \<and>
      log_holds l' (take k (cs_records ?S (cs_filters e) lsn ?n (flush_order ?S ps))) \<and>
      (if st = HAM_SUCCESS then k = length ?d else k < length ?d)"
  proof -
    have "length (fdata (log_fd (cs_log e))) + length ?d * (dev_pagesize (cs_dev e) + 32) < off_max"
      using assms(1) mult_le_mono1 [OF dl, of "dev_pagesize (cs_dev e) + 32"]
      unfolding cs_ready_def by linarith
    with log_bucket_prefix [of "e\<lparr>cs_inducer := i2\<rparr>" "[]" "flush_order ?S ps" lsn ?n, unfolded flush_order] assms(1)
    show ?thesis by (auto simp: cs_ready_def device_ok_def)
  qed
  then obtain st3 i3 l n3 k where
    3: "cs_log_buckets (e\<lparr>cs_inducer := i2\<rparr>) ?b lsn ?n = (st3, e\<lparr>cs_inducer := i3, cs_log := l\<rparr>)"
      "log_holds l (take k (cs_records ?S (cs_filters e) lsn ?n (flush_order ?S ps)))"
      "if st3 = HAM_SUCCESS then k = length ?d else k < length ?d"
    by (auto simp: cs_log_buckets_all flush_order_def)
  let ?e3 = "\<lambda>i. e\<lparr>cs_inducer := i, cs_log := l\<rparr>"
  have logged: "flush_stopped e ps lsn (?e3 i)" for i
    unfolding flush_stopped_def using 3(2) assms(1) by (intro exI [of _ k] exI [of _ 0]) (simp add: cs_ready_def)
  obtain st4 i4 where 4: "cs_induce (?e3 i3) = (st4, ?e3 i4)"
  proof -
    from cs_induce_upd [of "?e3 i3"] obtain st4 i4
      where "cs_induce (?e3 i3) = (st4, (?e3 i3)\<lparr>cs_inducer := i4\<rparr>)" by blast
    then show thesis by (intro that [of st4 i4]) simp
  qed
  obtain st5 e5 e6 j where 5: "cs_write (?e3 i4) (cs_head e) = Some (st5, e5)"
    "wrote ?S (cs_filters e) (take j ?d) (cs_dev e) (cs_dev e5)" "cs_log e5 = l"
    "st5 = HAM_SUCCESS \<longrightarrow> cs_clear e5 = Some e6 \<and> cs_log e6 = l \<and> (\<forall>l'. log_holds l' [] \<longrightarrow>
      flush_done e ps (e6\<lparr>cs_log := l'\<rparr>))"
    using cs_flush_write [OF assms(1) 3(2), of i4] by blast
  obtain l6 where 6: "log_clear l = (HAM_SUCCESS, l6)" "log_holds l6 []"
    using log_clear_ok 3(2) by (metis log_holdsE)
  have written: "flush_stopped e ps lsn e5" if "st3 = HAM_SUCCESS"
    unfolding flush_stopped_def using 3(2,3) 5(2,3) that by (intro exI [of _ k] exI [of _ j]) simp
  have eq: "cs_flush e lsn =
    (if st0 \<noteq> HAM_SUCCESS then Some (st0, e\<lparr>cs_inducer := i0\<rparr>)
     else if st1 \<noteq> HAM_SUCCESS then Some (st1, e\<lparr>cs_inducer := i1\<rparr>)
     else if st2 \<noteq> HAM_SUCCESS then Some (st2, e\<lparr>cs_inducer := i2\<rparr>)
     else if st3 \<noteq> HAM_SUCCESS then Some (st3, ?e3 i3)
     else if st4 \<noteq> HAM_SUCCESS then Some (st4, ?e3 i4)
     else if st5 \<noteq> HAM_SUCCESS then Some (st5, e5)
     else Some (HAM_SUCCESS, e6\<lparr>cs_log := l6\<rparr>))"
    using 0 1 2 3 4 5 6 n0 h assms(2)
    by (simp add: cs_flush_def cb_empty_def [symmetric] cs_logged_def)
  show ?thesis unfolding eq using start logged written 5(4) 6(2) by auto
qed
definition same_pages :: "device \<Rightarrow> device \<Rightarrow> bool" where
  "same_pages dev dev' \<longleftrightarrow> device_ok dev' \<and> dev_pagesize dev' = dev_pagesize dev \<and>
     page_offset dev' = page_offset dev \<and>
     (\<forall>b. page_offset dev b \<longrightarrow> page_at dev' (unat b) = page_at dev (unat b))"

lemma wrote_same_pages:
  assumes "wrote S filters ps dev dev'" and "\<forall>p \<in> set ps. page_ready dev filters (S p)"
    and "same_pages dev' dev''"
  shows "wrote S filters ps dev dev''"
  using assms by (auto simp: wrote_def same_pages_def page_ready_def)

lemma stopped_flush_recovers:
  assumes "cs_ready e ps" and "cs_logged (cs_store e) ps" and "lsn \<noteq> 0" and "flush_stopped e ps lsn e'"
  shows "\<exists>dev'. log_recovered env_flags (cs_log e') (cs_dev e') = Some dev' \<and>
    (wrote (cs_store e) (cs_filters e) (cs_dirty (cs_store e) ps) (cs_dev e) dev' \<or>
     wrote (cs_store e) (cs_filters e) [] (cs_dev e) dev')"
proof -
  let ?S = "cs_store e" and ?d = "cs_dirty (cs_store e) ps" and ?o = "flush_order (cs_store e) ps"
  let ?rs = "cs_records ?S (cs_filters e) lsn (of_nat (length ?o)) ?o"
  from assms(4) obtain k j where h: "log_holds (cs_log e') (take k ?rs)"
    "wrote ?S (cs_filters e) (take j ?d) (cs_dev e) (cs_dev e')" "k < length ?rs \<longrightarrow> j = 0"
    by (auto simp: flush_stopped_def flush_order)
  have rdy: "\<forall>p \<in> set ?d. page_ready (cs_dev e) (cs_filters e) (?S p)"
    and rdy': "\<forall>p \<in> set ?o. page_ready (cs_dev e') (cs_filters e) (?S p)"
    using assms(1) h(2) page_ready_dev [of "cs_dev e'" "cs_dev e"]
    by (auto simp: cs_ready_def wrote_def flush_order)
  have len: "length ?o < 2 ^ 32"
    using assms(1) unfolding flush_order cs_ready_def cs_dirty_def by (meson le_less_trans length_filter_le)
  have ne: "?o \<noteq> []" using assms(2) by (auto simp: cs_logged_def flush_order_def cb_all_def)
  have locs: "map redo_loc ?rs = map (\<lambda>p. p_self (?S p)) ?o" by (rule map_cs_records)
  have dist: "distinct (map redo_loc ?rs)" unfolding locs
    by (rule distinct_map_same_set [where xs = ?d]) (use assms(1) in \<open>auto simp: cs_ready_def flush_order\<close>)
  have setl: "redo_loc ` set ?rs = (\<lambda>p. p_self (?S p)) ` set ?d"
    using arg_cong [OF locs, of set] by (simp add: flush_order)
  have imgs: "(\<forall>r \<in> set ?rs. page_at dev' (unat (redo_loc r)) = redo_data r) \<longleftrightarrow>
      (\<forall>p \<in> set ?d. page_at dev' (unat (p_self (?S p))) = disk_bytes (cs_filters e) (?S p))" for dev'
    using arg_cong [OF map_cs_records(2) [of ?S "cs_filters e" lsn "of_nat (length ?o)" ?o], of
        "\<lambda>xs. \<forall>(l, d) \<in> set xs. page_at dev' (unat l) = d"]
    by (simp add: flush_order)
  have "\<exists>dev'. log_recovered env_flags (cs_log e') (cs_dev e') = Some dev' \<and> device_ok dev' \<and>
    dev_pagesize dev' = dev_pagesize (cs_dev e) \<and> page_offset dev' = page_offset (cs_dev e) \<and>
    (if k < length ?rs then \<forall>a. page_offset (cs_dev e) a \<longrightarrow> page_at dev' (unat a) = page_at (cs_dev e) (unat a)
     else (\<forall>r \<in> set ?rs. page_at dev' (unat (redo_loc r)) = redo_data r) \<and>
       (\<forall>a. page_offset (cs_dev e) a \<and> a \<notin> redo_loc ` set ?rs \<longrightarrow>
          page_at dev' (unat a) = page_at (cs_dev e) (unat a)))"
  proof (rule ham_redo.all_or_nothing [OF h(1)])
    show "?rs \<noteq> []" using ne by (metis length_0_conv length_cs_records)
    show "redo_complete (last ?rs)" using cs_records_complete [OF len ne] by (simp add: redo_complete_def)
    show "\<not> redo_complete r" if "k < length ?rs" "r \<in> set (take k ?rs)" for r
      using cs_records_prefix_flags [OF len _ that(2)] that(1) by (simp add: redo_complete_def)
    show "\<forall>r \<in> set ?rs. redo_fits (cs_dev e') r" by (rule cs_records_fit [OF assms(3) rdy'])
    show "\<forall>a. page_offset (cs_dev e) a \<and> (k < length ?rs \<or> a \<notin> redo_loc ` set ?rs) \<longrightarrow>
        page_at (cs_dev e') (unat a) = page_at (cs_dev e) (unat a)"
      using h(2,3) image_mono [OF set_take_subset [of j ?d], of "\<lambda>p. p_self (?S p)"]
      unfolding setl wrote_def by (auto; blast)
  qed (use dist h(2) in \<open>auto simp: wrote_def\<close>)
  then show ?thesis unfolding imgs setl by (auto simp: wrote_def split: if_splits)
qed


section \<open>Theorems\<close>

text \<open>
  C1. Crash atomicity of a logged changeset. Whatever point the error inducer stops
  \<open>Changeset::flush\<close> at, the flush returns, and recovery from the log it left behind
  brings the database file to one of two states: all dirty pages of the changeset are in
  place, or none is, and every other page of the file keeps its contents; after a
  flush that reports success it is the first.
\<close>

theorem changeset_flush_crash_atomic:
  assumes "cs_ready e ps" and "cs_logged (cs_store e) ps" and "lsn \<noteq> 0"
  shows "\<exists>st e' dev'. cs_flush e lsn = Some (st, e') \<and>
    log_recovered env_flags (cs_log e') (cs_dev e') = Some dev' \<and>
    (wrote (cs_store e) (cs_filters e) (cs_dirty (cs_store e) ps) (cs_dev e) dev' \<or>
     st \<noteq> HAM_SUCCESS \<and> wrote (cs_store e) (cs_filters e) [] (cs_dev e) dev')"
proof -
  let ?S = "cs_store e" and ?d = "cs_dirty (cs_store e) ps"
  from cs_flush_logged [OF assms(1,2)] obtain st e' where f: "cs_flush e lsn = Some (st, e')"
    "if st = HAM_SUCCESS then flush_done e ps e' else flush_stopped e ps lsn e'" by blast
  show ?thesis
  proof (cases "st = HAM_SUCCESS")
    case True
    then have "flush_done e ps e'" using f(2) by simp
    then have h: "log_holds (cs_log e') []" and w: "wrote ?S (cs_filters e) ?d (cs_dev e) (cs_dev e')"
      by (simp_all add: flush_done_def)
    from ham_redo.recover_unmarked [OF h, of "cs_dev e'" env_flags] w obtain dev' where
      "log_recovered env_flags (cs_log e') (cs_dev e') = Some dev'" "same_pages (cs_dev e') dev'"
      by (auto simp: same_pages_def wrote_def)
    with f(1) wrote_same_pages [OF w] assms(1) show ?thesis by (auto simp: cs_ready_def)
  next
    case False
    then have "flush_stopped e ps lsn e'" using f(2) by simp
    from stopped_flush_recovers [OF assms this, of env_flags] f(1) False show ?thesis by blast
  qed
qed

definition sample_cs_page :: "u64 \<Rightarrow> byte \<Rightarrow> pid option \<Rightarrow> pid option \<Rightarrow> page" where
  "sample_cs_page a x prv nxt = \<lparr>p_self = a, p_flags = 0, p_dirty = True, p_pers = Some (replicate 8 x),
     p_prev = (\<lambda>w. if w = LIST_CHANGESET then prv else None),
     p_next = (\<lambda>w. if w = LIST_CHANGESET then nxt else None)\<rparr>"

definition sample_cs :: "(nat \<times> ham_status) option \<Rightarrow> ham_log \<Rightarrow> cs_env" where
  "sample_cs ind l = \<lparr>cs_store = (\<lambda>p. if p = 0 then sample_cs_page 0 1 None (Some 1) else sample_cs_page 8 7 (Some 0) None),
     cs_head = Some 0, cs_inducer = ind, cs_log = l, cs_dev = sample_db, cs_cache = cache_new 1024, cs_filters = []\<rparr>"

lemma sample_cs_ready:
  assumes "log_holds l []" and "length (fdata (log_fd l)) = 16"
  shows "cs_ready (sample_cs ind l) [0, 1]"
  using assms sample_db_ok
  by (simp add: cs_ready_def sample_cs_def sample_cs_page_def dlist_def get_next_def get_previous_def
      page_ready_def raw_image_def is_header_def off_max_def sample_db_def)

theorem changeset_flush_crash_atomic_witness:
  "\<exists>l st e' dev'. cs_flush (sample_cs (Some (7, HAM_INTERNAL_ERROR)) l) 3 = Some (st, e') \<and>
     log_recovered 0 (cs_log e') (cs_dev e') = Some dev' \<and>
     (wrote (cs_store (sample_cs (Some (7, HAM_INTERNAL_ERROR)) l)) [] [0, 1] sample_db dev' \<or>
      st \<noteq> HAM_SUCCESS \<and> wrote (cs_store (sample_cs (Some (7, HAM_INTERNAL_ERROR)) l)) [] [] sample_db dev')"
proof -
  obtain l where l: "log_holds l []" "length (fdata (log_fd l)) = 16" using log_create_holds by auto
  let ?e = "sample_cs (Some (7, HAM_INTERNAL_ERROR)) l"
  have "take 4 (replicate 8 7) = [7, 7, 7, 7 :: byte]" by (simp add: replicate_eq_replicate min_def numeral_nat)
  then have "get_u32 0 (replicate 8 7) = 0x07070707" by (simp add: get_u32_def)
  then have "cs_logged (cs_store ?e) [0, 1]"
    by (simp add: TYPE_BLOB_def TYPE_B_ROOT_def TYPE_B_INDEX_def TYPE_HEADER_def TYPE_FREELIST_def cs_logged_def sample_cs_def sample_cs_page_def cs_append_def cb_empty_def is_header_def
        page_get_type_def)
  from changeset_flush_crash_atomic [OF sample_cs_ready [OF l] this, of 3 0]
  have "\<exists>st e' dev'. cs_flush ?e 3 = Some (st, e') \<and> log_recovered 0 (cs_log e') (cs_dev e') = Some dev' \<and>
     (wrote (cs_store ?e) (cs_filters ?e) (cs_dirty (cs_store ?e) [0, 1]) (cs_dev ?e) dev' \<or>
      st \<noteq> HAM_SUCCESS \<and> wrote (cs_store ?e) (cs_filters ?e) [] (cs_dev ?e) dev')" by simp
  moreover have "cs_dirty (cs_store ?e) [0, 1] = [0, 1]" "cs_filters ?e = []" "cs_dev ?e = sample_db"
    by (simp_all add: sample_cs_def sample_cs_page_def)
  ultimately show ?thesis by auto
qed

lemma cs_search_list:
  assumes "chain (get_next LIST_CHANGESET S) prv q ys None"
  shows "cs_search S a (head_of ys) = Some (find (\<lambda>p. p_self (S p) = a) ys)"
  using assms
proof (induction ys arbitrary: q)
  case Nil
  then show ?case by (subst cs_search.simps) simp
next
  case (Cons y ys)
  then have "get_next LIST_CHANGESET S y = head_of ys"
    "cs_search S a (head_of ys) = Some (find (\<lambda>p. p_self (S p) = a) ys)"
    by (auto split: if_splits)
  then show ?case by (subst cs_search.simps) simp
qed

lemma cs_add_page_list:
  assumes "cs_head e = head_of ps" and "page_list LIST_CHANGESET (cs_store e) ps"
    and "p \<notin> set ps \<Longrightarrow> unlinked LIST_CHANGESET (cs_store e) p"
  defines "ps' \<equiv> (if p \<in> set ps then ps else p # ps)"
  shows "cs_head (cs_add_page e p) = head_of ps'" "page_list LIST_CHANGESET (cs_store (cs_add_page e p)) ps'"
    "same_but_links LIST_CHANGESET (cs_store e) (cs_store (cs_add_page e p))"
    "q \<notin> set ps' \<Longrightarrow> unlinked LIST_CHANGESET (cs_store e) q \<Longrightarrow> unlinked LIST_CHANGESET (cs_store (cs_add_page e p)) q"
proof -
  let ?S = "cs_store (cs_add_page e p)"
  have mem: "is_in_list (cs_store e) p (cs_head e) LIST_CHANGESET \<longleftrightarrow> p \<in> set ps"
    unfolding assms(1) by (rule is_in_list_iff [OF assms(2,3)])
  have "cs_head (cs_add_page e p) = head_of ps' \<and> page_list LIST_CHANGESET ?S ps' \<and>
      same_but_links LIST_CHANGESET (cs_store e) ?S \<and>
      (q \<notin> set ps' \<longrightarrow> unlinked LIST_CHANGESET (cs_store e) q \<longrightarrow> unlinked LIST_CHANGESET ?S q)"
  proof (cases "p \<in> set ps")
    case True
    then show ?thesis using mem assms(1,2) by (simp add: cs_add_page_def ps'_def)
  next
    case False
    then have "set_previous LIST_CHANGESET p None (set_next LIST_CHANGESET p None (cs_store e)) = cs_store e"
      using assms(3) by (cases "cs_store e p") (auto simp: unlinked_def set_next_def set_previous_def
          get_next_def get_previous_def fun_upd_idem_iff)
    moreover have "set_next LIST_CHANGESET p None (cs_store e) = cs_store e"
      using assms(3) False by (cases "cs_store e p") (auto simp: unlinked_def set_next_def get_next_def fun_upd_idem_iff)
    ultimately have "?S = (case head_of ps of
        None \<Rightarrow> set_previous LIST_CHANGESET p None (set_next LIST_CHANGESET p None (cs_store e))
      | Some h \<Rightarrow> set_previous LIST_CHANGESET h (Some p) (set_next LIST_CHANGESET p (Some h)
                   (set_previous LIST_CHANGESET p None (set_next LIST_CHANGESET p None (cs_store e)))))"
      using False mem assms(1) by (auto simp: cs_add_page_def Let_def split: option.splits)
    note * = page_links.link_front [OF assms(2) False this]
    have "unlinked LIST_CHANGESET ?S q" if "q \<notin> set ps'" "unlinked LIST_CHANGESET (cs_store e) q"
      using *(2) [of q] *(3) [of q] that False by (auto simp: unlinked_def ps'_def)
    with *(1) False mem assms(1) show ?thesis
      by (auto simp: cs_add_page_def ps'_def Let_def split: option.splits)
  qed
  then show "cs_head (cs_add_page e p) = head_of ps'" "page_list LIST_CHANGESET ?S ps'"
    "same_but_links LIST_CHANGESET (cs_store e) ?S"
    "q \<notin> set ps' \<Longrightarrow> unlinked LIST_CHANGESET (cs_store e) q \<Longrightarrow> unlinked LIST_CHANGESET ?S q" by auto
qed

text \<open>
  \<open>Changeset::add_page\<close> adds a page once: a page that is already a member changes
  nothing, a new one becomes the head of the doubly linked list, and \<open>get_page\<close> on the
  result terminates and returns the most recently added member with the given address,
  or nothing when there is none.
\<close>

theorem changeset_add_then_get:
  assumes "cs_head e = head_of ps" and "page_list LIST_CHANGESET (cs_store e) ps"
    and "p \<notin> set ps \<Longrightarrow> unlinked LIST_CHANGESET (cs_store e) p"
  defines "ps' \<equiv> (if p \<in> set ps then ps else p # ps)"
  shows "cs_head (cs_add_page e p) = head_of ps' \<and>
    page_list LIST_CHANGESET (cs_store (cs_add_page e p)) ps' \<and>
    cs_get_page (cs_add_page e p) a = Some (find (\<lambda>q. p_self (cs_store e q) = a) ps')"
proof -
  let ?S = "cs_store (cs_add_page e p)"
  note * = cs_add_page_list [OF assms(1-3), folded ps'_def]
  then have "p_self (?S q) = p_self (cs_store e q)" for q using same_but_links_fields(1) by blast
  with *(1,2) cs_search_list [of ?S "get_previous LIST_CHANGESET ?S" None ps' a] show ?thesis
    by (simp add: cs_get_page_def dlist_def)
qed

definition sample_cs3 :: cs_env where
  "sample_cs3 = (sample_cs None log_new)
     \<lparr>cs_store := (cs_store (sample_cs None log_new))(2 := sample_cs_page 8 3 None None)\<rparr>"

theorem changeset_add_then_get_witness:
  "cs_get_page (cs_add_page sample_cs3 2) 8 = Some (Some 2)"
proof -
  have h: "cs_head sample_cs3 = head_of [0, 1]" "page_list LIST_CHANGESET (cs_store sample_cs3) [0, 1]"
    "unlinked LIST_CHANGESET (cs_store sample_cs3) 2"
    by (simp_all add: sample_cs3_def sample_cs_def sample_cs_page_def dlist_def get_next_def
        get_previous_def unlinked_def)
  have "p_self (cs_store sample_cs3 2) = 8" by (simp add: sample_cs3_def sample_cs_page_def)
  with changeset_add_then_get [OF h, of 8] show ?thesis by simp
qed

end
