(* ===== verification/Ham_Env.thy ===== *)
theory Ham_Env
  imports Ham_Changeset
begin

text \<open>
  The page management of the environment: fetching and allocating pages through the cache
  (\<open>db_fetch_page_impl\<close> and \<open>db_alloc_page_impl\<close> of \<open>src/db.cc\<close>, called by \<open>env_fetch_page\<close> and
  \<open>env_alloc_page\<close>), writing and deleting pages, and purging the cache (\<open>env_purge_cache\<close> of
  \<open>src/env.cc\<close>). This is where page cache, changeset and device meet: the theorems show that
  the contents of the database, read through the cache, do not depend on what is cached.

  New page objects are numbered consecutively. The freelist's answer to a request for a page
  and the outcome of uncoupling the cursors of a page are fields of the state.
\<close>

definition HAM_IN_MEMORY_DB :: u32 where "HAM_IN_MEMORY_DB = 0x80"
definition HAM_CACHE_STRICT :: u32 where "HAM_CACHE_STRICT = 0x400"
definition DB_ONLY_FROM_CACHE :: u32 where "DB_ONLY_FROM_CACHE = 2"
definition DB_FLUSH_NODELETE :: u32 where "DB_FLUSH_NODELETE = 1"
definition PAGE_IGNORE_FREELIST :: u32 where "PAGE_IGNORE_FREELIST = 8"
definition PAGE_CLEAR_WITH_ZERO :: u32 where "PAGE_CLEAR_WITH_ZERO = 16"

record page_env =
  pe_cs :: cs_env
  pe_flags :: u32
  pe_next :: pid
  pe_uncouple :: "pid \<Rightarrow> ham_status"
  pe_freel_alloc_page :: "ham_status \<times> u64"

abbreviation pe_store :: "page_env \<Rightarrow> page_store" where "pe_store pe \<equiv> cs_store (pe_cs pe)"
abbreviation pe_cache :: "page_env \<Rightarrow> cache" where "pe_cache pe \<equiv> cs_cache (pe_cs pe)"
abbreviation pe_dev :: "page_env \<Rightarrow> device" where "pe_dev pe \<equiv> cs_dev (pe_cs pe)"

definition with_cache :: "page_store \<times> cache \<Rightarrow> page_env \<Rightarrow> page_env" where
  "with_cache sc pe = pe\<lparr>pe_cs := (pe_cs pe)\<lparr>cs_store := fst sc, cs_cache := snd sc\<rparr>\<rparr>"

definition with_page :: "pid \<Rightarrow> page \<Rightarrow> device \<Rightarrow> page_env \<Rightarrow> page_env" where
  "with_page p pg dev pe = pe\<lparr>pe_cs := (pe_cs pe)\<lparr>cs_store := (pe_store pe)(p := pg), cs_dev := dev\<rparr>\<rparr>"

definition too_big :: "page_env \<Rightarrow> bool" where
  "too_big pe = is_too_big (pe_cache pe) (of_nat (dev_pagesize (pe_dev pe)))"

section \<open>Fetching and allocating\<close>

text \<open>With recovery enabled every page that is handed out joins the changeset.\<close>

definition track_page :: "pid \<Rightarrow> page_env \<Rightarrow> page_env" where
  "track_page p pe =
     (if pe_flags pe AND HAM_ENABLE_RECOVERY \<noteq> 0 then pe\<lparr>pe_cs := cs_add_page (pe_cs pe) p\<rparr> else pe)"

text \<open>\<open>new Page(env, db)\<close>.\<close>

definition create_page :: "page_env \<Rightarrow> pid \<times> page_env" where
  "create_page pe =
     (pe_next pe, (with_page (pe_next pe) new_page (pe_dev pe) pe)\<lparr>pe_next := Suc (pe_next pe)\<rparr>)"

text \<open>\<open>page->fetch(address)\<close> for a page object of the store.\<close>

definition fetch_into :: "pid \<Rightarrow> u64 \<Rightarrow> page_env \<Rightarrow> ham_status \<times> page_env" where
  "fetch_into p address pe =
     (case page_fetch (pe_dev pe) (cs_filters (pe_cs pe)) (pe_store pe p) address of
        (st, pg, dev) \<Rightarrow> (st, with_page p pg dev pe))"

definition db_fetch_page_impl :: "page_env \<Rightarrow> u64 \<Rightarrow> u32 \<Rightarrow> (ham_status \<times> pid option \<times> page_env) option" where
  "db_fetch_page_impl pe address flags =
     (case get_page (pe_store pe) (pe_cache pe) address NOREMOVE of
        None \<Rightarrow> None
      | Some (Some p, sc) \<Rightarrow> Some (HAM_SUCCESS, Some p, track_page p (with_cache sc pe))
      | Some (None, sc) \<Rightarrow>
          (let pe = with_cache sc pe in
           if flags AND DB_ONLY_FROM_CACHE \<noteq> 0 then Some (HAM_SUCCESS, None, pe)
           else if too_big pe \<and> pe_flags pe AND HAM_CACHE_STRICT \<noteq> 0 then Some (HAM_CACHE_FULL, None, pe)
           else
             (case create_page pe of
                (p, pe1) \<Rightarrow>
                  (case fetch_into p address pe1 of
                     (st, pe2) \<Rightarrow>
                       if st \<noteq> HAM_SUCCESS then Some (st, None, pe2)
                       else Some (HAM_SUCCESS, Some p,
                                  track_page p (with_cache (put_page (pe_store pe2) (pe_cache pe2) p) pe2))))))"

text \<open>\<open>set_type\<close> writes the first field of the page image; \<open>memset\<close> clears the whole image.\<close>

definition set_type :: "u32 \<Rightarrow> page \<Rightarrow> page" where
  "set_type ty pg = pg\<lparr>p_pers := map_option (\<lambda>b. put_u32 ty @ drop 4 b) (p_pers pg)\<rparr>"

definition clear_image :: "nat \<Rightarrow> page \<Rightarrow> page" where
  "clear_image n pg = pg\<lparr>p_pers := map_option (\<lambda>b. replicate n 0 @ drop n b) (p_pers pg)\<rparr>"

text \<open>The common end of \<open>db_alloc_page_impl\<close>, label \<open>done\<close>.\<close>

definition init_page :: "u32 \<Rightarrow> u32 \<Rightarrow> pid \<Rightarrow> page_env \<Rightarrow> ham_status \<times> pid option \<times> page_env" where
  "init_page ty flags p pe =
     (let pg = (set_type ty (pe_store pe p))\<lparr>p_dirty := True\<rparr>;
          pg = (if flags AND PAGE_CLEAR_WITH_ZERO \<noteq> 0 then clear_image (dev_pagesize (pe_dev pe)) pg else pg);
          pe = track_page p (with_page p pg (pe_dev pe) pe)
      in (HAM_SUCCESS, Some p, with_cache (put_page (pe_store pe) (pe_cache pe) p) pe))"

definition alloc_new_page :: "u32 \<Rightarrow> u32 \<Rightarrow> page_env \<Rightarrow> ham_status \<times> pid option \<times> page_env" where
  "alloc_new_page ty flags pe =
     (case create_page pe of
        (p, pe1) \<Rightarrow>
          if too_big pe1 \<and> pe_flags pe1 AND HAM_CACHE_STRICT \<noteq> 0 then (HAM_CACHE_FULL, None, pe1)
          else
            (case alloc_page (pe_dev pe1) (cs_filters (pe_cs pe1)) (pe_store pe1 p) of
               (st, pg, dev) \<Rightarrow>
                 (let pe2 = with_page p pg dev pe1 in
                  if st \<noteq> HAM_SUCCESS then (st, None, pe2) else init_page ty flags p pe2)))"

definition db_alloc_page_impl :: "page_env \<Rightarrow> u32 \<Rightarrow> u32 \<Rightarrow> (ham_status \<times> pid option \<times> page_env) option" where
  "db_alloc_page_impl pe ty flags =
     (if flags AND PAGE_IGNORE_FREELIST \<noteq> 0 then Some (alloc_new_page ty flags pe)
      else
        (case pe_freel_alloc_page pe of
           (st, tellpos) \<Rightarrow>
             if tellpos \<noteq> 0 then
               (case get_page (pe_store pe) (pe_cache pe) tellpos 0 of
                  None \<Rightarrow> None
                | Some (Some p, sc) \<Rightarrow> Some (init_page ty flags p (with_cache sc pe))
                | Some (None, sc) \<Rightarrow>
                    (case create_page (with_cache sc pe) of
                       (p, pe1) \<Rightarrow>
                         (case fetch_into p tellpos pe1 of
                            (st', pe2) \<Rightarrow>
                              Some (if st' \<noteq> HAM_SUCCESS then (st', None, pe2) else init_page ty flags p pe2))))
             else if st \<noteq> HAM_SUCCESS then Some (st, None, pe)
             else Some (alloc_new_page ty flags pe)))"

section \<open>Writing and deleting\<close>

definition db_write_page_and_delete :: "pid \<Rightarrow> u32 \<Rightarrow> page_env \<Rightarrow> ham_status \<times> page_env" where
  "db_write_page_and_delete p flags pe =
     (let (st, pe1) =
        (if p_dirty (pe_store pe p) \<and> pe_flags pe AND HAM_IN_MEMORY_DB = 0 then
           (case page_flush (pe_dev pe) (cs_filters (pe_cs pe)) (pe_store pe p) of
              (st, pg, dev) \<Rightarrow> (st, with_page p pg dev pe))
         else (HAM_SUCCESS, pe))
      in if st \<noteq> HAM_SUCCESS then (st, pe1)
         else if flags AND DB_FLUSH_NODELETE \<noteq> 0 then (HAM_SUCCESS, pe1)
         else if pe_uncouple pe1 p \<noteq> HAM_SUCCESS then (pe_uncouple pe1 p, pe1)
         else
           (let pe2 = with_cache (remove_page (pe_store pe1) (pe_cache pe1) p) pe1
            in (HAM_SUCCESS, with_page p (free_page (pe_store pe2 p)) (pe_dev pe2) pe2)))"

partial_function (option) flush_all_loop :: "u32 \<Rightarrow> pid option \<Rightarrow> page_env \<Rightarrow> page_env option" where
  "flush_all_loop flags head pe =
     (case head of
        None \<Rightarrow> Some pe
      | Some p \<Rightarrow>
          (let n = get_next LIST_CACHED (pe_store pe) p;
               pe1 = (if flags AND DB_FLUSH_NODELETE = 0 then
                        (case list_remove (pe_store pe) p (c_totallist (pe_cache pe)) LIST_CACHED of
                           (h, S) \<Rightarrow> with_cache (S, (pe_cache pe)\<lparr>c_totallist := h,
                                        c_cur_elements := c_cur_elements (pe_cache pe) - 1\<rparr>) pe)
                      else pe)
           in flush_all_loop flags n (snd (db_write_page_and_delete p flags pe1))))"

definition db_flush_all :: "u32 \<Rightarrow> page_env \<Rightarrow> (ham_status \<times> page_env) option" where
  "db_flush_all flags pe = map_option (\<lambda>pe. (HAM_SUCCESS, pe)) (flush_all_loop flags (c_totallist (pe_cache pe)) pe)"

section \<open>Purging the cache\<close>

text \<open>
  The loop of \<open>__purge_cache_max20\<close> with \<open>n\<close> rounds left: a status to return at once, or the
  number of rounds that were run.
\<close>

fun purge_loop :: "nat \<Rightarrow> nat \<Rightarrow> page_env \<Rightarrow> ((ham_status + nat) \<times> page_env) option" where
  "purge_loop i 0 pe = Some (Inr i, pe)"
| "purge_loop i (Suc n) pe =
     (case get_unused_page (pe_store pe) (pe_cache pe) (cs_head (pe_cs pe)) of
        None \<Rightarrow> None
      | Some (None, sc) \<Rightarrow>
          Some (if i = 0 \<and> pe_flags pe AND HAM_CACHE_STRICT \<noteq> 0 then Inl HAM_CACHE_FULL else Inr i, with_cache sc pe)
      | Some (Some p, sc) \<Rightarrow>
          (case db_write_page_and_delete p 0 (with_cache sc pe) of
             (st, pe') \<Rightarrow> if st \<noteq> HAM_SUCCESS then Some (Inl st, pe') else purge_loop (Suc i) n pe'))"

definition purge_max_pages :: "page_env \<Rightarrow> nat" where
  "purge_max_pages pe =
     (let max_pages = unat (ucast (c_cur_elements (pe_cache pe)) :: u32) in
      if pe_flags pe AND HAM_CACHE_STRICT \<noteq> 0 then max_pages
      else if max_pages div 10 = 0 then 1
      else if max_pages div 10 > 20 then 20
      else max_pages div 10)"

definition purge_cache_max20 :: "page_env \<Rightarrow> (ham_status \<times> page_env) option" where
  "purge_cache_max20 pe =
     (if pe_flags pe AND HAM_IN_MEMORY_DB \<noteq> 0 then Some (HAM_SUCCESS, pe)
      else if \<not> too_big pe then Some (HAM_SUCCESS, pe)
      else
        (case purge_loop 0 (purge_max_pages pe) pe of
           None \<Rightarrow> None
         | Some (Inl st, pe') \<Rightarrow> Some (st, pe')
         | Some (Inr i, pe') \<Rightarrow>
             Some (if i = purge_max_pages pe \<and> purge_max_pages pe \<noteq> 0 then HAM_LIMITS_REACHED else HAM_SUCCESS, pe')))"

partial_function (option) env_purge_cache :: "page_env \<Rightarrow> (ham_status \<times> page_env) option" where
  "env_purge_cache pe =
     (case purge_cache_max20 pe of
        None \<Rightarrow> None
      | Some (st, pe') \<Rightarrow>
          if st \<noteq> HAM_SUCCESS \<and> st \<noteq> HAM_LIMITS_REACHED then Some (st, pe')
          else if st = HAM_LIMITS_REACHED \<and> too_big pe' then env_purge_cache pe'
          else Some (HAM_SUCCESS, pe'))"

section \<open>The contents seen through the cache\<close>

text \<open>
  The content of the page at an address: that of the cached page, if the cache finds one,
  otherwise that of the file.
\<close>

definition content :: "page_env \<Rightarrow> u64 \<Rightarrow> byte list option" where
  "content pe a =
     (case bucket_search (pe_store pe) a (c_buckets (pe_cache pe) (calc_hash a)) of
        Some (Some p) \<Rightarrow> p_pers (pe_store pe p)
      | _ \<Rightarrow> Some (page_at (pe_dev pe) (unat a)))"

text \<open>
  A cached page: it has an image, belongs to a page of the file, and equals it unless it is
  dirty.
\<close>

definition cached_ok :: "device \<Rightarrow> page \<Rightarrow> bool" where
  "cached_ok dev pg \<longleftrightarrow> page_offset dev (p_self pg) \<and>
     (\<exists>buf. p_pers pg = Some buf \<and> length buf = dev_pagesize dev \<and>
        (\<not> p_dirty pg \<longrightarrow> buf = page_at dev (unat (p_self pg))))"

text \<open>
  The state of the page management: \<open>xs\<close> are the cached pages, most recently used first, and
  \<open>ys\<close> the pages of the changeset.
\<close>

definition env_ok :: "page_env \<Rightarrow> pid list \<Rightarrow> pid list \<Rightarrow> bool" where
  "env_ok pe xs ys \<longleftrightarrow> cache_holds (pe_store pe) (pe_cache pe) xs \<and>
     cs_head (pe_cs pe) = head_of ys \<and> page_list LIST_CHANGESET (pe_store pe) ys \<and>
     (\<forall>p. p \<notin> set ys \<longrightarrow> unlinked LIST_CHANGESET (pe_store pe) p) \<and>
     device_ok (pe_dev pe) \<and> cs_filters (pe_cs pe) = [] \<and>
     (\<forall>p \<in> set xs. cached_ok (pe_dev pe) (pe_store pe p)) \<and>
     inj_on (\<lambda>p. p_self (pe_store pe p)) (set xs) \<and> length xs < 2 ^ 32 \<and>
     (\<forall>p. pe_next pe \<le> p \<longrightarrow> p \<notin> set xs \<and> p \<notin> set ys)"

lemma env_okD:
  assumes "env_ok pe xs ys"
  shows "cache_holds (pe_store pe) (pe_cache pe) xs" "cs_head (pe_cs pe) = head_of ys"
    "page_list LIST_CHANGESET (pe_store pe) ys" "p \<notin> set ys \<Longrightarrow> unlinked LIST_CHANGESET (pe_store pe) p"
    "device_ok (pe_dev pe)" "cs_filters (pe_cs pe) = []" "p \<in> set xs \<Longrightarrow> cached_ok (pe_dev pe) (pe_store pe p)"
    "inj_on (\<lambda>p. p_self (pe_store pe p)) (set xs)" "length xs < 2 ^ 32" "pe_next pe \<le> p \<Longrightarrow> p \<notin> set xs \<and> p \<notin> set ys"
  using assms by (simp_all add: env_ok_def)

lemma bucket_search_holds:
  assumes "cache_holds S c xs" "inj_on (\<lambda>p. p_self (S p)) (set xs)"
  shows "bucket_search S a (c_buckets c (calc_hash a)) = Some (find (\<lambda>p. p_self (S p) = a) xs)"
proof -
  from assms(1) obtain bs where rep: "cache_rep S c xs bs" by (auto simp: cache_holds_def)
  have "find (\<lambda>p. p_self (S p) = a) (bs (calc_hash a)) = find (\<lambda>p. p_self (S p) = a) xs"
  proof (cases "find (\<lambda>p. p_self (S p) = a) xs")
    case None
    then have "\<forall>p \<in> set (bs (calc_hash a)). p_self (S p) \<noteq> a"
      using cache_repD(7) [OF rep, of "calc_hash a"] by (auto simp: find_None_iff)
    then have "find (\<lambda>p. p_self (S p) = a) (bs (calc_hash a)) = None" by (simp add: find_None_iff)
    then show ?thesis using None by simp
  next
    case (Some p)
    then have p: "p \<in> set (bs (calc_hash a))" "p_self (S p) = a" "p \<in> set xs"
      using cache_repD(7) [OF rep, of "calc_hash a"] by (auto dest: find_SomeD)
    then obtain q where q: "find (\<lambda>p. p_self (S p) = a) (bs (calc_hash a)) = Some q"
      by (cases "find (\<lambda>p. p_self (S p) = a) (bs (calc_hash a))") (auto dest: find_NoneD)
    then have "q \<in> set xs" "p_self (S q) = a"
      using cache_repD(7) [OF rep, of "calc_hash a"] by (auto dest: find_SomeD)
    then show ?thesis using q Some p assms(2) by (auto dest: inj_onD)
  qed
  then show ?thesis using find_bucket [OF rep, of a] by simp
qed

lemma content_cached:
  assumes "env_ok pe xs ys" "p \<in> set xs"
  shows "content pe (p_self (pe_store pe p)) = p_pers (pe_store pe p)"
proof -
  have "find (\<lambda>q. p_self (pe_store pe q) = p_self (pe_store pe p)) xs = Some p"
    using assms(2) env_okD(8) [OF assms(1)]
    by (cases "find (\<lambda>q. p_self (pe_store pe q) = p_self (pe_store pe p)) xs")
      (auto dest!: find_SomeD find_NoneD dest: inj_onD)
  then show ?thesis
    using bucket_search_holds [OF env_okD(1,8) [OF assms(1)], of "p_self (pe_store pe p)"] by (simp add: content_def)
qed

lemma content_file:
  assumes "env_ok pe xs ys" "\<forall>p \<in> set xs. p_self (pe_store pe p) \<noteq> a"
  shows "content pe a = Some (page_at (pe_dev pe) (unat a))"
proof -
  have "find (\<lambda>q. p_self (pe_store pe q) = a) xs = None" using assms(2) by (simp add: find_None_iff)
  then show ?thesis using bucket_search_holds [OF env_okD(1,8) [OF assms(1)], of a] by (simp add: content_def)
qed

text \<open>
  Two states agree on the contents if every page that the second one has cached is cached
  with the same content by the first one or just as in the file, and so on: the contents are
  determined by the cached pages and the file.
\<close>

lemma content_same:
  assumes "env_ok pe xs ys" "env_ok pe' xs' ys'"
    and "\<And>p. p \<in> set xs' \<Longrightarrow> p_pers (pe_store pe' p) = content pe (p_self (pe_store pe' p))"
    and "\<And>a. page_offset (pe_dev pe) a \<Longrightarrow> \<forall>p \<in> set xs'. p_self (pe_store pe' p) \<noteq> a \<Longrightarrow>
      Some (page_at (pe_dev pe') (unat a)) = content pe a"
    and "page_offset (pe_dev pe) a"
  shows "content pe' a = content pe a"
proof (cases "\<exists>p \<in> set xs'. p_self (pe_store pe' p) = a")
  case True
  then obtain p where "p \<in> set xs'" "p_self (pe_store pe' p) = a" by blast
  then show ?thesis using content_cached [OF assms(2)] assms(3) by metis
next
  case False
  then show ?thesis using content_file [OF assms(2), of a] assms(4,5) by auto
qed

subsection \<open>Frames\<close>

text \<open>Changing a page object that is not in the lists leaves the lists alone.\<close>

lemma cache_holds_frame:
  assumes "\<And>w. w = LIST_CACHED \<or> w = LIST_BUCKET \<Longrightarrow> get_next w S' = get_next w S \<and> get_previous w S' = get_previous w S"
    and "\<And>p. p \<in> set xs \<Longrightarrow> p_self (S' p) = p_self (S p)"
  shows "cache_holds S' c xs = cache_holds S c xs"
proof -
  have "{p \<in> set xs. calc_hash (p_self (S' p)) = h} = {p \<in> set xs. calc_hash (p_self (S p)) = h}" for h
    using assms(2) by auto
  then show ?thesis unfolding cache_holds_def cache_rep_def using assms by (simp add: unlinked_def)
qed

lemma remove_page_absent:
  assumes "cache_holds S c xs" "p \<notin> set xs"
  shows "remove_page S c p = (S, c)"
proof -
  from assms(1) obtain bs where rep: "cache_rep S c xs bs" by (auto simp: cache_holds_def)
  note D = cache_repD [OF rep]
  have "c_totallist_tail c \<noteq> Some p" using D(3) assms(2) by (auto simp: last_of_Some)
  moreover have "\<not> is_in_list S p (c_totallist c) LIST_CACHED"
    using is_in_list_iff [OF D(1), of p] D(2,8) assms(2) by simp
  moreover have "p \<notin> set (bs h)" for h using D(7) [of h] assms(2) by auto
  then have "\<not> is_in_list S p (c_buckets c h) LIST_BUCKET" for h
    using is_in_list_iff [OF D(5) [of h], of p] D(6,9) assms(2) by simp
  ultimately show ?thesis by (simp add: remove_page_def Let_def)
qed

lemma with_simps [simp]:
  "pe_store (with_cache sc pe) = fst sc" "pe_cache (with_cache sc pe) = snd sc" "pe_dev (with_cache sc pe) = pe_dev pe"
  "cs_head (pe_cs (with_cache sc pe)) = cs_head (pe_cs pe)" "cs_filters (pe_cs (with_cache sc pe)) = cs_filters (pe_cs pe)"
  "pe_flags (with_cache sc pe) = pe_flags pe" "pe_next (with_cache sc pe) = pe_next pe" "pe_uncouple (with_cache sc pe) = pe_uncouple pe"
  "pe_store (with_page p pg dev pe) = (pe_store pe)(p := pg)" "pe_cache (with_page p pg dev pe) = pe_cache pe"
  "pe_dev (with_page p pg dev pe) = dev" "cs_head (pe_cs (with_page p pg dev pe)) = cs_head (pe_cs pe)"
  "cs_filters (pe_cs (with_page p pg dev pe)) = cs_filters (pe_cs pe)" "pe_flags (with_page p pg dev pe) = pe_flags pe"
  "pe_next (with_page p pg dev pe) = pe_next pe" "pe_uncouple (with_page p pg dev pe) = pe_uncouple pe"
  by (simp_all add: with_cache_def with_page_def)

text \<open>What stays the same when pages are written and dropped.\<close>

definition same_env :: "page_env \<Rightarrow> page_env \<Rightarrow> bool" where
  "same_env pe pe' \<longleftrightarrow> pe_flags pe' = pe_flags pe \<and> pe_uncouple pe' = pe_uncouple pe \<and>
     dev_pagesize (pe_dev pe') = dev_pagesize (pe_dev pe) \<and> page_offset (pe_dev pe') = page_offset (pe_dev pe) \<and>
     (\<forall>a. page_offset (pe_dev pe) a \<longrightarrow> content pe' a = content pe a)"

lemma same_env_refl [simp]: "same_env pe pe" by (simp add: same_env_def)

lemma same_env_trans: "same_env a b \<Longrightarrow> same_env b c \<Longrightarrow> same_env a c" by (simp add: same_env_def)

lemma cs_frameD:
  assumes "cs_frame S S'"
  shows "p_self (S' p) = p_self (S p)" "p_flags (S' p) = p_flags (S p)" "p_pers (S' p) = p_pers (S p)" "p_dirty (S' p) = p_dirty (S p)"
  using assms by (simp_all add: cs_frame_def cs_same_def)

lemma cached_ok_cong:
  "p_self pg' = p_self pg \<Longrightarrow> p_pers pg' = p_pers pg \<Longrightarrow> p_dirty pg' = p_dirty pg \<Longrightarrow> cached_ok dev pg' = cached_ok dev pg"
  by (simp add: cached_ok_def)

text \<open>A page that was dropped from the cache, with the device it was written to if necessary.\<close>

lemma env_ok_drop:
  assumes ok: "env_ok pe xs ys" and p: "p \<in> set xs" "p \<notin> set ys" and r: "remove_page (pe_store pe) (pe_cache pe) p = (S1, c1)"
    and dev: "dev = (if p_dirty (pe_store pe p) then page_upd (pe_dev pe) (p_self (pe_store pe p)) (the (p_pers (pe_store pe p))) else pe_dev pe)"
    and pg: "p_next pg = p_next (S1 p)" "p_prev pg = p_prev (S1 p)"
    and pe': "pe' = with_page p pg dev (with_cache (S1, c1) pe)"
  shows "env_ok pe' (removeAll p xs) ys \<and> same_env pe pe'"
proof -
  note D = env_okD [OF ok]
  note R = remove_page_holds [OF D(1) p(1) r] and F = cs_frameD [OF remove_page_frame [OF r]]
  let ?S = "pe_store pe" and ?S' = "S1(p := pg)"
  have links: "get_next w ?S' = get_next w S1" "get_previous w ?S' = get_previous w S1" for w
    using pg by (auto simp: get_next_def get_previous_def fun_eq_iff)
  have hold: "cache_holds ?S' c1 (removeAll p xs)"
    using R(1) cache_holds_frame [of ?S' S1 "removeAll p xs" c1] links by simp
  have cs: "get_next LIST_CHANGESET ?S' = get_next LIST_CHANGESET ?S"
    "get_previous LIST_CHANGESET ?S' = get_previous LIST_CHANGESET ?S"
    using R(3) [of LIST_CHANGESET] links by (auto simp: fun_eq_iff)
  obtain buf where buf: "page_offset (pe_dev pe) (p_self (?S p))" "p_pers (?S p) = Some buf" "length buf = dev_pagesize (pe_dev pe)"
    "\<not> p_dirty (?S p) \<Longrightarrow> buf = page_at (pe_dev pe) (unat (p_self (?S p)))"
    using D(7) [OF p(1)] by (auto simp: cached_ok_def)
  have up: "device_ok dev" "dev_pagesize dev = dev_pagesize (pe_dev pe)" "page_offset dev = page_offset (pe_dev pe)"
    using page_upd_ok [OF D(5) buf(1,3)] D(5) buf(2) by (auto simp: dev)
  have at: "page_at dev (unat a) = (if a = p_self (?S p) then buf else page_at (pe_dev pe) (unat a))"
    if "page_offset (pe_dev pe) a" for a
    using page_at_upd [OF D(5) buf(1,3) that] buf(2,4) by (auto simp: dev)
  have ne: "p_self (?S q) \<noteq> p_self (?S p)" if "q \<in> set xs" "q \<noteq> p" for q
    using that p(1) D(8) by (auto dest: inj_onD)
  have ok': "env_ok pe' (removeAll p xs) ys"
    unfolding env_ok_def
  proof (intro conjI)
    show "cache_holds (pe_store pe') (pe_cache pe') (removeAll p xs)" using hold by (simp add: pe')
    show "cs_head (pe_cs pe') = head_of ys" "cs_filters (pe_cs pe') = []" "device_ok (pe_dev pe')"
      using D(2,6) up(1) by (simp_all add: pe')
    show "page_list LIST_CHANGESET (pe_store pe') ys" using D(3) cs by (simp add: pe')
    show "\<forall>q. q \<notin> set ys \<longrightarrow> unlinked LIST_CHANGESET (pe_store pe') q" using D(4) cs by (simp add: pe' unlinked_def)
    show "\<forall>q \<in> set (removeAll p xs). cached_ok (pe_dev pe') (pe_store pe' q)"
    proof
      fix q assume q: "q \<in> set (removeAll p xs)"
      then have "cached_ok (pe_dev pe) (?S q)" using D(7) by auto
      then show "cached_ok (pe_dev pe') (pe_store pe' q)"
        using q ne [of q] at F up by (auto simp: cached_ok_def pe')
    qed
    show "inj_on (\<lambda>q. p_self (pe_store pe' q)) (set (removeAll p xs))"
      using D(8) F(1) by (auto simp: pe' inj_on_def)
    show "length (removeAll p xs) < 2 ^ 32" using D(9) length_removeAll_less_eq [of p xs] by linarith
    show "\<forall>q. pe_next pe' \<le> q \<longrightarrow> q \<notin> set (removeAll p xs) \<and> q \<notin> set ys" using D(10) by (auto simp: pe')
  qed
  have "content pe' a = content pe a" if "page_offset (pe_dev pe) a" for a
  proof (rule content_same [OF ok ok' _ _ that])
    fix q assume "q \<in> set (removeAll p xs)"
    then show "p_pers (pe_store pe' q) = content pe (p_self (pe_store pe' q))"
      using content_cached [OF ok, of q] F by (auto simp: pe')
  next
    fix a assume a: "page_offset (pe_dev pe) a" "\<forall>q \<in> set (removeAll p xs). p_self (pe_store pe' q) \<noteq> a"
    show "Some (page_at (pe_dev pe') (unat a)) = content pe a"
    proof (cases "a = p_self (?S p)")
      case True
      then show ?thesis using at [OF a(1)] content_cached [OF ok p(1)] buf(2) by (simp add: pe')
    next
      case False
      then have "\<forall>q \<in> set xs. p_self (?S q) \<noteq> a" using a(2) F(1) by (auto simp: pe')
      then show ?thesis using at [OF a(1)] content_file [OF ok] False by (simp add: pe')
    qed
  qed
  then show ?thesis using ok' up by (simp add: same_env_def pe')
qed

subsection \<open>Eviction\<close>

lemma db_write_page_and_delete_drops:
  assumes ok: "env_ok pe xs ys" and p: "p \<in> set xs" "p \<notin> set ys" and r: "remove_page (pe_store pe) (pe_cache pe) p = (S1, c1)"
    and f: "pe_flags pe AND HAM_IN_MEMORY_DB = 0" and u: "pe_uncouple pe p = HAM_SUCCESS"
  shows "\<exists>pe'. db_write_page_and_delete p 0 (with_cache (S1, c1) pe) = (HAM_SUCCESS, pe') \<and>
    env_ok pe' (removeAll p xs) ys \<and> same_env pe pe'"
proof -
  note D = env_okD [OF ok]
  note R = remove_page_holds [OF D(1) p(1) r] and F = cs_frameD [OF remove_page_frame [OF r]]
  obtain buf where buf: "page_offset (pe_dev pe) (p_self (pe_store pe p))" "p_pers (pe_store pe p) = Some buf"
    "length buf = dev_pagesize (pe_dev pe)" using D(7) [OF p(1)] by (auto simp: cached_ok_def)
  define dev where "dev = (if p_dirty (pe_store pe p) then page_upd (pe_dev pe) (p_self (pe_store pe p)) (the (p_pers (pe_store pe p))) else pe_dev pe)"
  define pg where "pg = (if p_dirty (pe_store pe p) then (S1 p)\<lparr>p_dirty := False\<rparr> else S1 p)"
  have flush: "(if p_dirty (S1 p) \<and> pe_flags pe AND HAM_IN_MEMORY_DB = 0 then
           (case page_flush (pe_dev pe) (cs_filters (pe_cs pe)) (S1 p) of
              (st, pg, dev) \<Rightarrow> (st, with_page p pg dev (with_cache (S1, c1) pe)))
         else (HAM_SUCCESS, with_cache (S1, c1) pe)) = (HAM_SUCCESS, with_page p pg dev (with_cache (S1, c1) pe))"
  proof (cases "p_dirty (S1 p)")
    case True
    then show ?thesis using page_flush_plain [OF D(5), of "S1 p" buf] buf F f D(6) by (simp add: dev_def pg_def)
  next
    case False
    then show ?thesis using F by (simp add: dev_def pg_def with_page_def with_cache_def)
  qed
  have "cache_holds (S1(p := pg)) c1 (removeAll p xs)"
    using R(1) cache_holds_frame [of "S1(p := pg)" S1 "removeAll p xs" c1]
    by (auto simp: pg_def get_next_def get_previous_def fun_eq_iff)
  then have absent: "remove_page (S1(p := pg)) c1 p = (S1(p := pg), c1)" by (intro remove_page_absent [of _ _ "removeAll p xs"]) auto
  define pe' where "pe' = with_page p (free_page pg) dev (with_cache (S1, c1) pe)"
  have "db_write_page_and_delete p 0 (with_cache (S1, c1) pe) = (HAM_SUCCESS, pe')"
    unfolding db_write_page_and_delete_def with_simps fst_conv snd_conv flush Let_def prod.case absent
    using u by (simp add: pe'_def) (simp add: with_page_def with_cache_def)
  moreover have "p_next (free_page pg) = p_next (S1 p)" "p_prev (free_page pg) = p_prev (S1 p)"
    by (simp_all add: free_page_def pg_def)
  ultimately show ?thesis using env_ok_drop [OF ok p r dev_def _ _ pe'_def] by simp
qed

text \<open>One round of the purge, in terms of the cached pages: the victim goes.\<close>

definition victim :: "pid list \<Rightarrow> pid list \<Rightarrow> pid option" where
  "victim xs ys = find (\<lambda>p. p \<notin> set ys) (rev xs)"

lemma victim_Some: "victim xs ys = Some p \<Longrightarrow> p \<in> set xs \<and> p \<notin> set ys"
  by (auto simp: victim_def dest: find_SomeD)

lemma victim_None: "victim xs ys = None \<longleftrightarrow> set xs \<subseteq> set ys"
  by (auto simp: victim_def find_None_iff)

lemma get_unused_page_victim:
  assumes "env_ok pe xs ys"
  shows "get_unused_page (pe_store pe) (pe_cache pe) (cs_head (pe_cs pe)) =
    (case victim xs ys of None \<Rightarrow> Some (None, pe_store pe, pe_cache pe)
     | Some p \<Rightarrow> (case remove_page (pe_store pe) (pe_cache pe) p of (S1, c1) \<Rightarrow> Some (Some p, S1, c1)))"
proof -
  note D = env_okD [OF assms]
  show ?thesis
  proof (cases "c_totallist_tail (pe_cache pe)")
    case None
    then have "xs = []" using cache_holdsD(4) [OF D(1)] by simp
    then show ?thesis using None by (simp add: get_unused_page_def victim_def)
  next
    case (Some l)
    then obtain as where xs: "xs = as @ [l]" using cache_holdsD(4) [OF D(1)] by (auto simp: last_of_Some)
    have "unused_search (pe_store pe) (head_of ys) l l = Some (find (\<lambda>p. p \<notin> set ys) (rev xs))"
      using unused_search_find [OF D(3,4), of "get_next LIST_CACHED (pe_store pe)" as l None l] cache_holdsD(1,2) [OF D(1)]
      by (simp add: xs dlist_def)
    then show ?thesis using Some D(2) by (simp add: get_unused_page_def victim_def split: option.split)
  qed
qed

lemma purge_loop_ok:
  assumes "env_ok pe xs ys" "pe_flags pe AND HAM_IN_MEMORY_DB = 0" "\<And>p. pe_uncouple pe p = HAM_SUCCESS"
  shows "\<exists>r pe' xs'. purge_loop i n pe = Some (r, pe') \<and> env_ok pe' xs' ys \<and> same_env pe pe' \<and>
    set xs \<inter> set ys \<subseteq> set xs' \<and> set xs' \<subseteq> set xs \<and>
    (case r of Inl st \<Rightarrow> st = HAM_CACHE_FULL \<and> set xs' \<subseteq> set ys
     | Inr k \<Rightarrow> if k = i + n then length xs = length xs' + n else k < i + n \<and> set xs' \<subseteq> set ys)"
  using assms
proof (induction n arbitrary: i pe xs)
  case 0
  then show ?case by (intro exI [of _ "Inr i"] exI [of _ pe] exI [of _ xs]) auto
next
  case (Suc n)
  show ?case
  proof (cases "victim xs ys")
    case None
    then have "purge_loop i (Suc n) pe =
        Some (if i = 0 \<and> pe_flags pe AND HAM_CACHE_STRICT \<noteq> 0 then Inl HAM_CACHE_FULL else Inr i, pe)"
      using get_unused_page_victim [OF Suc.prems(1)] by (simp add: with_cache_def)
    then show ?thesis using Suc.prems(1) None
      by (intro exI [of _ "if i = 0 \<and> pe_flags pe AND HAM_CACHE_STRICT \<noteq> 0 then Inl HAM_CACHE_FULL else Inr i"] exI [of _ pe] exI [of _ xs])
        (auto simp: victim_None)
  next
    case (Some p)
    note v = victim_Some [OF Some]
    obtain S1 c1 where r: "remove_page (pe_store pe) (pe_cache pe) p = (S1, c1)" by (metis surj_pair)
    from db_write_page_and_delete_drops [OF Suc.prems(1) conjunct1 [OF v] conjunct2 [OF v] r Suc.prems(2,3)]
    obtain pe1 where w: "db_write_page_and_delete p 0 (with_cache (S1, c1) pe) = (HAM_SUCCESS, pe1)"
      "env_ok pe1 (removeAll p xs) ys" "same_env pe pe1" by blast
    have "pe_flags pe1 AND HAM_IN_MEMORY_DB = 0" "\<And>p. pe_uncouple pe1 p = HAM_SUCCESS"
      using w(3) Suc.prems(2,3) by (simp_all add: same_env_def)
    from Suc.IH [OF w(2) this, of "Suc i"] obtain r' pe' xs' where ih: "purge_loop (Suc i) n pe1 = Some (r', pe')"
      "env_ok pe' xs' ys" "same_env pe1 pe'" "set (removeAll p xs) \<inter> set ys \<subseteq> set xs'" "set xs' \<subseteq> set (removeAll p xs)"
      "case r' of Inl st \<Rightarrow> st = HAM_CACHE_FULL \<and> set xs' \<subseteq> set ys
       | Inr k \<Rightarrow> if k = Suc i + n then length (removeAll p xs) = length xs' + n else k < Suc i + n \<and> set xs' \<subseteq> set ys" by blast
    have "purge_loop i (Suc n) pe = Some (r', pe')"
      using get_unused_page_victim [OF Suc.prems(1)] Some r w(1) ih(1) by simp
    moreover have "distinct xs" using cache_holdsD(1) [OF env_okD(1) [OF Suc.prems(1)]] .
    then have "length xs = Suc (length (removeAll p xs))"
      using v by (metis distinct_remove1_removeAll length_remove1 length_pos_if_in_set Suc_diff_1)
    then have "case r' of Inl st \<Rightarrow> st = HAM_CACHE_FULL \<and> set xs' \<subseteq> set ys
       | Inr k \<Rightarrow> if k = i + Suc n then length xs = length xs' + Suc n else k < i + Suc n \<and> set xs' \<subseteq> set ys"
      using ih(6) by (cases r') (auto split: if_splits)
    moreover have "set xs \<inter> set ys \<subseteq> set xs'" "set xs' \<subseteq> set xs" using ih(4,5) v by auto
    ultimately show ?thesis using ih(2) same_env_trans [OF w(3) ih(3)] by blast
  qed
qed

lemma purge_max_pages_pos:
  assumes "env_ok pe xs ys" "too_big pe"
  shows "0 < purge_max_pages pe"
proof -
  note D = env_okD [OF assms(1)]
  have c: "c_cur_elements (pe_cache pe) = of_nat (length xs)" by (rule cache_holdsD(5) [OF D(1)])
  have "xs \<noteq> []" using assms(2) c by (auto simp: too_big_def is_too_big_def)
  then have "unat (ucast (c_cur_elements (pe_cache pe)) :: u32) \<noteq> 0"
    using c D(9) by (simp add: unsigned_ucast_eq take_bit_eq_mod)
  then show ?thesis by (simp add: purge_max_pages_def Let_def)
qed

lemma purge_cache_max20_ok:
  assumes ok: "env_ok pe xs ys" and f: "pe_flags pe AND HAM_IN_MEMORY_DB = 0" and u: "\<And>p. pe_uncouple pe p = HAM_SUCCESS"
  shows "\<exists>st pe' xs'. purge_cache_max20 pe = Some (st, pe') \<and> env_ok pe' xs' ys \<and> same_env pe pe' \<and>
    set xs \<inter> set ys \<subseteq> set xs' \<and> set xs' \<subseteq> set xs \<and>
    (st = HAM_LIMITS_REACHED \<and> length xs' < length xs \<or>
     st = HAM_CACHE_FULL \<and> set xs' \<subseteq> set ys \<or> st = HAM_SUCCESS \<and> (\<not> too_big pe' \<or> set xs' \<subseteq> set ys))"
proof (cases "too_big pe")
  case False
  then show ?thesis using ok f
    by (intro exI [of _ HAM_SUCCESS] exI [of _ pe] exI [of _ xs]) (simp add: purge_cache_max20_def)
next
  case True
  note pos = purge_max_pages_pos [OF ok True]
  from purge_loop_ok [OF ok f u, of 0 "purge_max_pages pe"] obtain r pe' xs' where
    l: "purge_loop 0 (purge_max_pages pe) pe = Some (r, pe')" and
    e: "env_ok pe' xs' ys" "same_env pe pe'" "set xs \<inter> set ys \<subseteq> set xs'" "set xs' \<subseteq> set xs" and
    c: "case r of Inl st \<Rightarrow> st = HAM_CACHE_FULL \<and> set xs' \<subseteq> set ys
       | Inr k \<Rightarrow> if k = 0 + purge_max_pages pe then length xs = length xs' + purge_max_pages pe
                  else k < 0 + purge_max_pages pe \<and> set xs' \<subseteq> set ys" by blast
  define st where "st = (case r of Inl st \<Rightarrow> st | Inr i \<Rightarrow> if i = purge_max_pages pe then HAM_LIMITS_REACHED else HAM_SUCCESS)"
  have "purge_cache_max20 pe = Some (st, pe')"
    using True f l pos by (simp add: purge_cache_max20_def st_def split: sum.split)
  moreover have "st = HAM_LIMITS_REACHED \<and> length xs' < length xs \<or>
     st = HAM_CACHE_FULL \<and> set xs' \<subseteq> set ys \<or> st = HAM_SUCCESS \<and> (\<not> too_big pe' \<or> set xs' \<subseteq> set ys)"
    using c pos by (auto simp: st_def split: sum.splits if_splits)
  ultimately show ?thesis using e by blast
qed

section \<open>Properties\<close>

lemma env_purge_cache_file:
  assumes "env_ok pe xs ys" "pe_flags pe AND HAM_IN_MEMORY_DB = 0" "\<And>p. pe_uncouple pe p = HAM_SUCCESS"
  shows "\<exists>st pe' xs'. env_purge_cache pe = Some (st, pe') \<and> env_ok pe' xs' ys \<and>
    set xs \<inter> set ys \<subseteq> set xs' \<and> set xs' \<subseteq> set xs \<and>
    (st = HAM_SUCCESS \<and> \<not> too_big pe' \<or> st \<in> {HAM_SUCCESS, HAM_CACHE_FULL} \<and> set xs' \<subseteq> set ys) \<and>
    (\<forall>a. page_offset (pe_dev pe) a \<longrightarrow> content pe' a = content pe a)"
  using assms
proof (induction "length xs" arbitrary: pe xs rule: less_induct)
  case less
  from purge_cache_max20_ok [OF less.prems] obtain st pe1 xs1 where
    m: "purge_cache_max20 pe = Some (st, pe1)" and
    e: "env_ok pe1 xs1 ys" "same_env pe pe1" "set xs \<inter> set ys \<subseteq> set xs1" "set xs1 \<subseteq> set xs" and
    st: "st = HAM_LIMITS_REACHED \<and> length xs1 < length xs \<or>
     st = HAM_CACHE_FULL \<and> set xs1 \<subseteq> set ys \<or> st = HAM_SUCCESS \<and> (\<not> too_big pe1 \<or> set xs1 \<subseteq> set ys)" by blast
  have c: "content pe1 a = content pe a" if "page_offset (pe_dev pe) a" for a using e(2) that by (simp add: same_env_def)
  show ?case
  proof (cases "st = HAM_LIMITS_REACHED \<and> too_big pe1")
    case True
    have "env_purge_cache pe = env_purge_cache pe1" using True m by (subst env_purge_cache.simps) simp
    moreover have "length xs1 < length xs" using st True by auto
    moreover have "pe_flags pe1 AND HAM_IN_MEMORY_DB = 0" "\<And>p. pe_uncouple pe1 p = HAM_SUCCESS"
      "page_offset (pe_dev pe1) = page_offset (pe_dev pe)" using e(2) less.prems(2,3) by (simp_all add: same_env_def)
    ultimately obtain st' pe' xs' where ih: "env_purge_cache pe = Some (st', pe')" "env_ok pe' xs' ys"
      "set xs1 \<inter> set ys \<subseteq> set xs'" "set xs' \<subseteq> set xs1"
      "st' = HAM_SUCCESS \<and> \<not> too_big pe' \<or> st' \<in> {HAM_SUCCESS, HAM_CACHE_FULL} \<and> set xs' \<subseteq> set ys"
      "\<forall>a. page_offset (pe_dev pe) a \<longrightarrow> content pe' a = content pe1 a" using less.hyps [OF _ e(1)] by metis
    have "set xs \<inter> set ys \<subseteq> set xs'" "set xs' \<subseteq> set xs" using ih(3,4) e(3,4) by auto
    with ih(1,2,5,6) c show ?thesis by (intro exI [of _ st'] exI [of _ pe'] exI [of _ xs']) simp
  next
    case False
    define st' where "st' = (if st = HAM_LIMITS_REACHED then HAM_SUCCESS else st)"
    have "env_purge_cache pe = Some (st', pe1)" using False m st by (subst env_purge_cache.simps) (auto simp: st'_def)
    moreover have "st' = HAM_SUCCESS \<and> \<not> too_big pe1 \<or> st' \<in> {HAM_SUCCESS, HAM_CACHE_FULL} \<and> set xs1 \<subseteq> set ys"
      using st False by (auto simp: st'_def)
    ultimately show ?thesis using e c by blast
  qed
qed


subsection \<open>Fetching\<close>

text \<open>A page enters the cache, or is touched in it.\<close>

lemma env_ok_put:
  assumes ok: "env_ok pe xs ys" and h: "cache_holds S' c' xs'" "set xs' = insert p (set xs)" "length xs' < 2 ^ 32"
    and same: "\<And>q. q \<in> set xs \<Longrightarrow> p_self (S' q) = p_self (pe_store pe q) \<and> p_pers (S' q) = p_pers (pe_store pe q) \<and>
      p_dirty (S' q) = p_dirty (pe_store pe q)"
    and cs: "get_next LIST_CHANGESET S' = get_next LIST_CHANGESET (pe_store pe)"
      "get_previous LIST_CHANGESET S' = get_previous LIST_CHANGESET (pe_store pe)"
    and new: "p \<notin> set xs \<Longrightarrow> cached_ok (pe_dev pe) (S' p) \<and> (\<forall>q \<in> set xs. p_self (pe_store pe q) \<noteq> p_self (S' p))"
    and n: "pe_next pe \<le> n" "p < n"
    and pe': "pe' = (with_cache (S', c') pe)\<lparr>pe_next := n\<rparr>"
  shows "env_ok pe' xs' ys"
  unfolding env_ok_def
proof (intro conjI)
  note D = env_okD [OF ok]
  show "cache_holds (pe_store pe') (pe_cache pe') xs'" "cs_head (pe_cs pe') = head_of ys" "cs_filters (pe_cs pe') = []"
    "device_ok (pe_dev pe')" "page_list LIST_CHANGESET (pe_store pe') ys" "length xs' < 2 ^ 32"
    using h D(2,3,5,6) cs by (simp_all add: pe')
  show "\<forall>q. q \<notin> set ys \<longrightarrow> unlinked LIST_CHANGESET (pe_store pe') q" using D(4) cs by (simp add: pe' unlinked_def)
  show "\<forall>q \<in> set xs'. cached_ok (pe_dev pe') (pe_store pe' q)"
  proof
    fix q assume "q \<in> set xs'"
    then show "cached_ok (pe_dev pe') (pe_store pe' q)"
      using h(2) new D(7) [of q] cached_ok_cong [of "S' q" "pe_store pe q"] same [of q] by (cases "q \<in> set xs") (auto simp: pe')
  qed
  show "inj_on (\<lambda>q. p_self (pe_store pe' q)) (set xs')"
  proof (cases "p \<in> set xs")
    case True
    then show ?thesis using D(8) same h(2) by (auto simp: pe' inj_on_def insert_absorb)
  next
    case False
    then show ?thesis using D(8) same new h(2) by (fastforce simp: pe' inj_on_def)
  qed
  show "\<forall>q. pe_next pe' \<le> q \<longrightarrow> q \<notin> set xs' \<and> q \<notin> set ys" using D(10) n h(2) by (auto simp: pe')
qed

text \<open>If it enters with the image that the file has, no content changes.\<close>

lemma env_ok_enter:
  assumes ok: "env_ok pe xs ys" and h: "cache_holds S' c' xs'" "set xs' = insert p (set xs)" "length xs' < 2 ^ 32"
    and same: "\<And>q. q \<in> set xs \<Longrightarrow> p_self (S' q) = p_self (pe_store pe q) \<and> p_pers (S' q) = p_pers (pe_store pe q) \<and>
      p_dirty (S' q) = p_dirty (pe_store pe q)"
    and cs: "get_next LIST_CHANGESET S' = get_next LIST_CHANGESET (pe_store pe)"
      "get_previous LIST_CHANGESET S' = get_previous LIST_CHANGESET (pe_store pe)"
    and new: "p \<notin> set xs \<Longrightarrow> cached_ok (pe_dev pe) (S' p) \<and> \<not> p_dirty (S' p) \<and> (\<forall>q \<in> set xs. p_self (pe_store pe q) \<noteq> p_self (S' p))"
    and n: "pe_next pe \<le> n" "p < n"
    and pe': "pe' = (with_cache (S', c') pe)\<lparr>pe_next := n\<rparr>"
  shows "env_ok pe' xs' ys \<and> same_env pe pe' \<and> p_pers (S' p) = content pe (p_self (S' p))"
proof -
  have ok': "env_ok pe' xs' ys" using env_ok_put [OF ok h same cs _ n pe'] new by blast
  have img: "p_pers (S' p) = content pe (p_self (S' p))"
  proof (cases "p \<in> set xs")
    case True
    then show ?thesis using content_cached [OF ok True] same [OF True] by simp
  next
    case False
    then show ?thesis using new content_file [OF ok, of "p_self (S' p)"] by (auto simp: cached_ok_def)
  qed
  have "content pe' a = content pe a" if "page_offset (pe_dev pe) a" for a
  proof (rule content_same [OF ok ok' _ _ that])
    fix q assume "q \<in> set xs'"
    then show "p_pers (pe_store pe' q) = content pe (p_self (pe_store pe' q))"
      using img h(2) content_cached [OF ok, of q] same [of q] by (auto simp: pe')
  next
    fix a assume a: "\<forall>q \<in> set xs'. p_self (pe_store pe' q) \<noteq> a"
    then have "\<forall>q \<in> set xs. p_self (pe_store pe q) \<noteq> a" using h(2) same by (auto simp: pe')
    then show "Some (page_at (pe_dev pe') (unat a)) = content pe a" using content_file [OF ok] by (simp add: pe')
  qed
  then show ?thesis using ok' img by (simp add: same_env_def pe')
qed

lemma cs_add_page_fields [simp]:
  "cs_cache (cs_add_page e p) = cs_cache e" "cs_dev (cs_add_page e p) = cs_dev e" "cs_filters (cs_add_page e p) = cs_filters e"
  by (simp_all add: cs_add_page_def Let_def)

lemma track_page_ok:
  assumes ok: "env_ok pe xs ys" and p: "p < pe_next pe"
  shows "\<exists>ys'. env_ok (track_page p pe) xs ys' \<and> same_env pe (track_page p pe) \<and>
    (pe_flags pe AND HAM_ENABLE_RECOVERY \<noteq> 0 \<longrightarrow> p \<in> set ys') \<and>
    (\<forall>q. p_self (pe_store (track_page p pe) q) = p_self (pe_store pe q) \<and> p_pers (pe_store (track_page p pe) q) = p_pers (pe_store pe q) \<and>
      p_dirty (pe_store (track_page p pe) q) = p_dirty (pe_store pe q))"
proof (cases "pe_flags pe AND HAM_ENABLE_RECOVERY \<noteq> 0")
  case False
  then show ?thesis using ok by (auto simp: track_page_def)
next
  case True
  note D = env_okD [OF ok]
  define ys' where "ys' = (if p \<in> set ys then ys else p # ys)"
  define pe' where "pe' = track_page p pe"
  note A = cs_add_page_list [OF D(2,3,4), of p, folded ys'_def]
  have pe'': "pe' = pe\<lparr>pe_cs := cs_add_page (pe_cs pe) p\<rparr>" using True by (simp add: track_page_def pe'_def)
  note S = same_but_links_fields [OF A(3)]
  have hold: "cache_holds (pe_store pe') (pe_cache pe') xs"
  proof -
    have "get_next w (pe_store pe') = get_next w (pe_store pe) \<and> get_previous w (pe_store pe') = get_previous w (pe_store pe)"
      if "w = LIST_CACHED \<or> w = LIST_BUCKET" for w
    proof -
      have "w \<noteq> LIST_CHANGESET" using that list_index_neq(3,4) by metis
      then show ?thesis using S(5,6) by (auto simp: pe'' fun_eq_iff)
    qed
    then have "cache_holds (pe_store pe') (pe_cache pe) xs = cache_holds (pe_store pe) (pe_cache pe) xs"
      by (intro cache_holds_frame) (simp_all add: pe'' S(1))
    then show ?thesis using D(1) by (simp add: pe'')
  qed
  have ok': "env_ok pe' xs ys'"
    unfolding env_ok_def
  proof (intro conjI)
    show "cache_holds (pe_store pe') (pe_cache pe') xs" by (rule hold)
    show "cs_head (pe_cs pe') = head_of ys'" "page_list LIST_CHANGESET (pe_store pe') ys'" using A(1,2) by (simp_all add: pe'')
    show "\<forall>q. q \<notin> set ys' \<longrightarrow> unlinked LIST_CHANGESET (pe_store pe') q"
      using A(4) D(4) by (auto simp: pe'' ys'_def split: if_splits)
    show "device_ok (pe_dev pe')" "cs_filters (pe_cs pe') = []" "length xs < 2 ^ 32" using D(5,6,9) by (simp_all add: pe'')
    show "\<forall>q \<in> set xs. cached_ok (pe_dev pe') (pe_store pe' q)" using D(7) S by (auto simp: pe'' cached_ok_def)
    show "inj_on (\<lambda>q. p_self (pe_store pe' q)) (set xs)" using D(8) S(1) by (simp add: pe'')
    show "\<forall>q. pe_next pe' \<le> q \<longrightarrow> q \<notin> set xs \<and> q \<notin> set ys'" using D(10) p by (auto simp: pe'' ys'_def)
  qed
  have "bucket_search (pe_store pe') a (c_buckets (pe_cache pe') (calc_hash a)) =
      bucket_search (pe_store pe) a (c_buckets (pe_cache pe) (calc_hash a))" for a
    using bucket_search_holds [OF hold, of a] bucket_search_holds [OF D(1,8), of a] D(8) S(1) by (simp add: pe'')
  then have "content pe' = content pe" using S(4) by (auto simp: content_def fun_eq_iff pe'' split: option.split)
  then show ?thesis using ok' S(1,3,4) by (intro exI [of _ ys']) (auto simp: same_env_def pe'' pe'_def [symmetric] ys'_def)
qed

lemma get_page_hit_frame:
  assumes h: "cache_holds S c xs" and g: "get_page S c a NOREMOVE = Some (Some p, S', c')"
  shows "cs_frame S S'" "get_next LIST_CHANGESET S' = get_next LIST_CHANGESET S"
    "get_previous LIST_CHANGESET S' = get_previous LIST_CHANGESET S"
proof -
  obtain S1 c1 where r: "remove_page S c p = (S1, c1)" by (metis surj_pair)
  have pt: "put_page S1 c1 p = (S', c')"
    using g r by (auto simp: get_page_def NOREMOVE_def split: option.splits prod.splits)
  have px: "p \<in> set xs" using get_page_hit(1) [OF h g] .
  note R = remove_page_holds [OF h px r]
  have "p_self (S1 p) \<noteq> 0" using R(2) cache_holdsD(7) [OF h px] by simp
  note P = put_page_holds [OF R(1) this pt]
  show "cs_frame S S'" using cs_frame_trans [OF remove_page_frame [OF r] put_page_frame [OF pt]] .
  show "get_next LIST_CHANGESET S' = get_next LIST_CHANGESET S" "get_previous LIST_CHANGESET S' = get_previous LIST_CHANGESET S"
    using R(3) [of LIST_CHANGESET] P(3) [of LIST_CHANGESET] by (auto simp: fun_eq_iff)
qed

text \<open>A new page object is in no list.\<close>

lemma new_object:
  assumes ok: "env_ok pe xs ys" and pg: "p_next pg = (\<lambda>_. None)" "p_prev pg = (\<lambda>_. None)"
  defines "S' \<equiv> (pe_store pe)(pe_next pe := pg)"
  shows "w \<in> {LIST_CACHED, LIST_BUCKET, LIST_CHANGESET} \<Longrightarrow>
      get_next w S' = get_next w (pe_store pe) \<and> get_previous w S' = get_previous w (pe_store pe)"
    and "cache_holds S' (pe_cache pe) xs"
proof -
  note D = env_okD [OF ok]
  have nx: "pe_next pe \<notin> set xs" "pe_next pe \<notin> set ys" using D(10) by auto
  obtain bs where rep: "cache_rep (pe_store pe) (pe_cache pe) xs bs" using D(1) by (auto simp: cache_holds_def)
  have "unlinked w (pe_store pe) (pe_next pe)" if "w \<in> {LIST_CACHED, LIST_BUCKET, LIST_CHANGESET}" for w
    using that cache_repD(8,9) [OF rep nx(1)] D(4) [OF nx(2)] by auto
  then show links: "get_next w S' = get_next w (pe_store pe) \<and> get_previous w S' = get_previous w (pe_store pe)"
    if "w \<in> {LIST_CACHED, LIST_BUCKET, LIST_CHANGESET}" for w
    using that pg by (fastforce simp: S'_def fun_eq_iff unlinked_def get_next_def get_previous_def)
  have "cache_holds S' (pe_cache pe) xs = cache_holds (pe_store pe) (pe_cache pe) xs"
    by (rule cache_holds_frame) (use links nx(1) in \<open>auto simp: S'_def\<close>)
  then show "cache_holds S' (pe_cache pe) xs" using D(1) by simp
qed

lemma fetch_new_page:
  assumes ok: "env_ok pe xs ys" and a: "page_offset (pe_dev pe) address" "address \<noteq> 0" "\<forall>q \<in> set xs. p_self (pe_store pe q) \<noteq> address"
    and len: "length xs < 2 ^ 32 - 1"
  shows "\<exists>pe1 pe2 pe3. create_page pe = (pe_next pe, pe1) \<and> fetch_into (pe_next pe) address pe1 = (HAM_SUCCESS, pe2) \<and>
    pe3 = with_cache (put_page (pe_store pe2) (pe_cache pe2) (pe_next pe)) pe2 \<and>
    env_ok pe3 (pe_next pe # xs) ys \<and> same_env pe pe3 \<and> pe_dev pe3 = pe_dev pe \<and>
    p_self (pe_store pe3 (pe_next pe)) = address \<and> p_pers (pe_store pe3 (pe_next pe)) = content pe address"
proof -
  let ?n = "pe_next pe" and ?S = "pe_store pe"
  note D = env_okD [OF ok]
  have nx: "?n \<notin> set xs" "?n \<notin> set ys" using D(10) by auto
  define pe1 where "pe1 = (with_page ?n new_page (pe_dev pe) pe)\<lparr>pe_next := Suc ?n\<rparr>"
  obtain fl where fl: "read_page (pe_dev pe) [] (new_page\<lparr>p_self := address\<rparr>) =
      (HAM_SUCCESS, new_page\<lparr>p_self := address, p_flags := fl, p_pers := Some (page_at (pe_dev pe) (unat address))\<rparr>, pe_dev pe)"
    using read_page_plain [OF D(5), of "new_page\<lparr>p_self := address\<rparr>"] a(1) by (auto simp: new_page_def)
  define pg where "pg = new_page\<lparr>p_self := address, p_flags := fl, p_pers := Some (page_at (pe_dev pe) (unat address))\<rparr>"
  define pe2 where "pe2 = with_page ?n pg (pe_dev pe) pe1"
  have f: "fetch_into ?n address pe1 = (HAM_SUCCESS, pe2)"
    using fl D(6) by (simp add: fetch_into_def page_fetch_def pe1_def pe2_def pg_def)
  have S2: "pe_store pe2 = ?S(?n := pg)" "pe_cache pe2 = pe_cache pe" by (simp_all add: pe2_def pe1_def)
  have "p_next pg = (\<lambda>_. None)" "p_prev pg = (\<lambda>_. None)" by (simp_all add: pg_def new_page_def)
  note links = new_object(1) [OF ok this] and hold = new_object(2) [OF ok this]
  obtain S3 c3 where pt: "put_page (?S(?n := pg)) (pe_cache pe) ?n = (S3, c3)" by (metis surj_pair)
  have "p_self ((?S(?n := pg)) ?n) \<noteq> 0" using a(2) by (simp add: pg_def)
  note P = put_page_holds [OF hold this pt] and F = cs_frameD [OF put_page_frame [OF pt]]
  have n: "p_self (S3 ?n) = address" "p_pers (S3 ?n) = Some (page_at (pe_dev pe) (unat address))" "\<not> p_dirty (S3 ?n)"
    using F [of ?n] by (simp_all add: pg_def new_page_def)
  define pe3 where "pe3 = (with_cache (S3, c3) pe)\<lparr>pe_next := Suc ?n\<rparr>"
  have "env_ok pe3 (?n # removeAll ?n xs) ys \<and> same_env pe pe3 \<and> p_pers (S3 ?n) = content pe (p_self (S3 ?n))"
  proof (rule env_ok_enter [OF ok P(1) _ _ _ _ _ _ _ _ pe3_def])
    show "set (?n # removeAll ?n xs) = insert ?n (set xs)" by auto
    show "length (?n # removeAll ?n xs) < 2 ^ 32" using len nx(1) by (simp add: removeAll_id)
    show "get_next LIST_CHANGESET S3 = get_next LIST_CHANGESET ?S" "get_previous LIST_CHANGESET S3 = get_previous LIST_CHANGESET ?S"
      using P(3) [of LIST_CHANGESET] links [of LIST_CHANGESET] by (auto simp: fun_eq_iff)
    show "cached_ok (pe_dev pe) (S3 ?n) \<and> \<not> p_dirty (S3 ?n) \<and> (\<forall>q \<in> set xs. p_self (?S q) \<noteq> p_self (S3 ?n))"
      using n a by (simp add: cached_ok_def)
  qed (use F nx(1) in auto)
  moreover have "pe3 = with_cache (put_page (pe_store pe2) (pe_cache pe2) ?n) pe2"
    using pt by (simp add: S2 pe3_def) (simp add: pe2_def pe1_def with_cache_def with_page_def)
  moreover have "pe_store pe3 ?n = S3 ?n" "pe_dev pe3 = pe_dev pe" by (simp_all add: pe3_def)
  ultimately show ?thesis using f n(1) nx(1)
    by (intro exI [of _ pe1] exI [of _ pe2] exI [of _ pe3]) (simp add: create_page_def pe1_def removeAll_id)
qed

text \<open>Page \<open>p\<close> was handed out for an address, before it is added to the changeset.\<close>

definition fetched :: "page_env \<Rightarrow> pid list \<Rightarrow> pid list \<Rightarrow> u64 \<Rightarrow> pid \<Rightarrow> page_env \<Rightarrow> bool" where
  "fetched pe xs ys address p pe1 \<longleftrightarrow> (\<exists>xs1. env_ok pe1 xs1 ys \<and> set xs \<subseteq> set xs1 \<and> same_env pe pe1 \<and> pe_dev pe1 = pe_dev pe \<and> p \<in> set xs1 \<and>
     p_self (pe_store pe1 p) = address \<and> p_pers (pe_store pe1 p) = content pe address)"

lemma with_cache_same [simp]: "with_cache (pe_store pe, pe_cache pe) pe = pe"
  by (simp add: with_cache_def)

lemma fetch_hit:
  assumes ok: "env_ok pe xs ys" and len: "length xs < 2 ^ 32 - 1" and hit: "\<exists>q \<in> set xs. p_self (pe_store pe q) = address"
  shows "\<exists>p pe1. db_fetch_page_impl pe address flags = Some (HAM_SUCCESS, Some p, track_page p pe1) \<and> fetched pe xs ys address p pe1"
proof -
  note D = env_okD [OF ok]
  obtain p S' c' where g: "get_page (pe_store pe) (pe_cache pe) address NOREMOVE = Some (Some p, S', c')"
    using get_page_total [OF D(1), of address NOREMOVE] hit by auto
  note H = get_page_hit [OF D(1) g] and G = get_page_hit_frame [OF D(1) g]
  note F = cs_frameD [OF G(1)]
  have "env_ok (with_cache (S', c') pe) (p # removeAll p xs) ys \<and> same_env pe (with_cache (S', c') pe) \<and>
      p_pers (S' p) = content pe (p_self (S' p))"
  proof (rule env_ok_enter [OF ok _ _ _ _ G(2,3), of c' "p # removeAll p xs" p "pe_next pe"])
    show "cache_holds S' c' (p # removeAll p xs)" using H(3) by (simp add: NOREMOVE_def)
    show "length (p # removeAll p xs) < 2 ^ 32"
      using len le_less_trans [OF length_removeAll_less_eq [of p xs]] by fastforce
    show "with_cache (S', c') pe = (with_cache (S', c') pe)\<lparr>pe_next := pe_next pe\<rparr>" by (simp add: with_cache_def)
    show "p < pe_next pe" using H(1) D(10) by (meson not_le)
  qed (use H F in auto)
  then have "fetched pe xs ys address p (with_cache (S', c') pe)"
    using H(2) F unfolding fetched_def by (intro exI [of _ "p # removeAll p xs"]) auto
  moreover have "db_fetch_page_impl pe address flags = Some (HAM_SUCCESS, Some p, track_page p (with_cache (S', c') pe))"
    using g by (simp add: db_fetch_page_impl_def)
  ultimately show ?thesis by blast
qed

lemma fetch_miss:
  assumes ok: "env_ok pe xs ys" and len: "length xs < 2 ^ 32 - 1" and off: "page_offset (pe_dev pe) address" "address \<noteq> 0"
    and strict: "too_big pe \<longrightarrow> pe_flags pe AND HAM_CACHE_STRICT = 0"
    and miss: "\<forall>q \<in> set xs. p_self (pe_store pe q) \<noteq> address"
  shows "if flags AND DB_ONLY_FROM_CACHE \<noteq> 0 then db_fetch_page_impl pe address flags = Some (HAM_SUCCESS, None, pe)
    else \<exists>p pe1. db_fetch_page_impl pe address flags = Some (HAM_SUCCESS, Some p, track_page p pe1) \<and> fetched pe xs ys address p pe1"
proof -
  have g: "get_page (pe_store pe) (pe_cache pe) address NOREMOVE = Some (None, pe_store pe, pe_cache pe)"
    using get_page_total [OF env_okD(1) [OF ok], of address NOREMOVE] miss by auto
  show ?thesis
  proof (cases "flags AND DB_ONLY_FROM_CACHE = 0")
    case True
    from fetch_new_page [OF ok off miss len] obtain pe1 pe2 pe3 where
      f: "create_page pe = (pe_next pe, pe1)" "fetch_into (pe_next pe) address pe1 = (HAM_SUCCESS, pe2)"
      "pe3 = with_cache (put_page (pe_store pe2) (pe_cache pe2) (pe_next pe)) pe2"
      "env_ok pe3 (pe_next pe # xs) ys" "same_env pe pe3" "pe_dev pe3 = pe_dev pe" "p_self (pe_store pe3 (pe_next pe)) = address"
      "p_pers (pe_store pe3 (pe_next pe)) = content pe address" by blast
    have "db_fetch_page_impl pe address flags = Some (HAM_SUCCESS, Some (pe_next pe), track_page (pe_next pe) pe3)"
      using g f(1-3) True strict by (simp add: db_fetch_page_impl_def Let_def)
    moreover have "fetched pe xs ys address (pe_next pe) pe3"
      using f(4-8) unfolding fetched_def by (intro exI [of _ "pe_next pe # xs"]) auto
    ultimately show ?thesis using True by auto
  qed (use g in \<open>simp add: db_fetch_page_impl_def Let_def\<close>)
qed

text \<open>Both outcomes of a fetch, with and without reading from the file.\<close>

lemma db_fetch_page_spec:
  assumes ok: "env_ok pe xs ys" and off: "page_offset (pe_dev pe) address" "address \<noteq> 0" and len: "length xs < 2 ^ 32 - 1"
    and strict: "too_big pe \<longrightarrow> pe_flags pe AND HAM_CACHE_STRICT = 0"
  shows "\<exists>r pe' xs' ys'. db_fetch_page_impl pe address flags = Some (HAM_SUCCESS, r, pe') \<and>
    env_ok pe' xs' ys' \<and> set xs \<subseteq> set xs' \<and> same_env pe pe' \<and> pe_dev pe' = pe_dev pe \<and>
    (case r of
       Some p \<Rightarrow> p \<in> set xs' \<and> p_self (pe_store pe' p) = address \<and> p_pers (pe_store pe' p) = content pe address \<and>
         (pe_flags pe AND HAM_ENABLE_RECOVERY \<noteq> 0 \<longrightarrow> p \<in> set ys')
     | None \<Rightarrow> flags AND DB_ONLY_FROM_CACHE \<noteq> 0 \<and> (\<forall>q \<in> set xs'. p_self (pe_store pe' q) \<noteq> address))"
proof (cases "(\<forall>q \<in> set xs. p_self (pe_store pe q) \<noteq> address) \<and> flags AND DB_ONLY_FROM_CACHE \<noteq> 0")
  case True
  then show ?thesis using fetch_miss [OF ok len off strict, of flags] ok
    by (intro exI [of _ None] exI [of _ pe] exI [of _ xs] exI [of _ ys]) simp
next
  case False
  then obtain p pe1 where m: "db_fetch_page_impl pe address flags = Some (HAM_SUCCESS, Some p, track_page p pe1)" "fetched pe xs ys address p pe1"
    using fetch_hit [OF ok len, of address flags] fetch_miss [OF ok len off strict, of flags] by (cases "\<forall>q \<in> set xs. p_self (pe_store pe q) \<noteq> address") auto
  then obtain xs1 where f: "env_ok pe1 xs1 ys" "same_env pe pe1" "pe_dev pe1 = pe_dev pe" "p \<in> set xs1"
    "p_self (pe_store pe1 p) = address" "p_pers (pe_store pe1 p) = content pe address" "set xs \<subseteq> set xs1" by (auto simp: fetched_def)
  have "p < pe_next pe1" using env_okD(10) [OF f(1)] f(4) by (meson not_le)
  from track_page_ok [OF f(1) this] obtain ys' where
    t: "env_ok (track_page p pe1) xs1 ys'" "same_env pe1 (track_page p pe1)" "pe_flags pe1 AND HAM_ENABLE_RECOVERY \<noteq> 0 \<longrightarrow> p \<in> set ys'"
    "p_self (pe_store (track_page p pe1) p) = p_self (pe_store pe1 p)" "p_pers (pe_store (track_page p pe1) p) = p_pers (pe_store pe1 p)" by blast
  have "pe_dev (track_page p pe1) = pe_dev pe1" by (simp add: track_page_def)
  then show ?thesis using m(1) f t same_env_trans [OF f(2) t(2)]
    by (intro exI [of _ "Some p"] exI [of _ "track_page p pe1"] exI [of _ xs1] exI [of _ ys']) (auto simp: same_env_def)
qed

lemma fetched_track:
  assumes f: "fetched pe xs ys address p pe1"
  shows "\<exists>xs' ys'. env_ok (track_page p pe1) xs' ys' \<and> p \<in> set xs' \<and> (pe_flags pe AND HAM_ENABLE_RECOVERY \<noteq> 0 \<longrightarrow> p \<in> set ys') \<and>
    p_self (pe_store (track_page p pe1) p) = address \<and> p_pers (pe_store (track_page p pe1) p) = content pe address \<and>
    (\<forall>a. page_offset (pe_dev pe) a \<longrightarrow> content (track_page p pe1) a = content pe a)"
proof -
  from f obtain xs1 where f: "env_ok pe1 xs1 ys" "same_env pe pe1" "p \<in> set xs1"
    "p_self (pe_store pe1 p) = address" "p_pers (pe_store pe1 p) = content pe address" by (auto simp: fetched_def)
  have "p < pe_next pe1" using env_okD(10) [OF f(1)] f(3) by (meson not_le)
  from track_page_ok [OF f(1) this] obtain ys' where
    t: "env_ok (track_page p pe1) xs1 ys'" "same_env pe1 (track_page p pe1)" "pe_flags pe1 AND HAM_ENABLE_RECOVERY \<noteq> 0 \<longrightarrow> p \<in> set ys'"
    "p_self (pe_store (track_page p pe1) p) = p_self (pe_store pe1 p)" "p_pers (pe_store (track_page p pe1) p) = p_pers (pe_store pe1 p)" by blast
  show ?thesis using f t same_env_trans [OF f(2) t(2)] by (intro exI [of _ xs1] exI [of _ ys']) (auto simp: same_env_def)
qed

text \<open>C24. Fetching a page returns what the database contains: for every page of the file but the header page, the
  cached image if there is one, dirty or not, otherwise the image in the file. The page is
  in the cache afterwards and, with recovery enabled, in the changeset; no content changes,
  and the consistency of cache, changeset and file is kept. A page that is not cached is not fetched in two cases, in which nothing
  changes: with \<open>DB_ONLY_FROM_CACHE\<close> the status is 0 and there is no page, and otherwise, if the cache is full and its limit is
  strict, the status is \<open>HAM_CACHE_FULL\<close>. Assumed are that cache, changeset and file are consistent, that the system
  calls succeed, that no file filter is installed and that less than \<open>2^32 - 1\<close> pages are cached.\<close>

theorem db_fetch_page_returns_content:
  assumes ok: "env_ok pe xs ys" and off: "page_offset (pe_dev pe) address" "address \<noteq> 0" and len: "length xs < 2 ^ 32 - 1"
  shows "if (\<forall>q \<in> set xs. p_self (pe_store pe q) \<noteq> address) \<and> flags AND DB_ONLY_FROM_CACHE \<noteq> 0
    then db_fetch_page_impl pe address flags = Some (HAM_SUCCESS, None, pe)
    else if (\<forall>q \<in> set xs. p_self (pe_store pe q) \<noteq> address) \<and> too_big pe \<and> pe_flags pe AND HAM_CACHE_STRICT \<noteq> 0
    then db_fetch_page_impl pe address flags = Some (HAM_CACHE_FULL, None, pe)
    else \<exists>p pe' xs' ys'. db_fetch_page_impl pe address flags = Some (HAM_SUCCESS, Some p, pe') \<and>
      env_ok pe' xs' ys' \<and> p \<in> set xs' \<and> (pe_flags pe AND HAM_ENABLE_RECOVERY \<noteq> 0 \<longrightarrow> p \<in> set ys') \<and>
      p_self (pe_store pe' p) = address \<and> p_pers (pe_store pe' p) = content pe address \<and>
      (\<forall>a. page_offset (pe_dev pe) a \<longrightarrow> content pe' a = content pe a)"
proof (cases "\<forall>q \<in> set xs. p_self (pe_store pe q) \<noteq> address")
  case False
  then have "\<exists>q \<in> set xs. p_self (pe_store pe q) = address" by blast
  from fetch_hit [OF ok len this] obtain p pe1 where
    f: "db_fetch_page_impl pe address flags = Some (HAM_SUCCESS, Some p, track_page p pe1)" "fetched pe xs ys address p pe1" by blast
  show ?thesis unfolding f(1) using fetched_track [OF f(2)] False by simp
next
  case miss: True
  have g: "get_page (pe_store pe) (pe_cache pe) address NOREMOVE = Some (None, pe_store pe, pe_cache pe)"
    using get_page_total [OF env_okD(1) [OF ok], of address NOREMOVE] miss by auto
  show ?thesis
  proof (cases "flags AND DB_ONLY_FROM_CACHE = 0 \<and> (too_big pe \<longrightarrow> pe_flags pe AND HAM_CACHE_STRICT = 0)")
    case True
    then obtain p pe1 where
      f: "db_fetch_page_impl pe address flags = Some (HAM_SUCCESS, Some p, track_page p pe1)" "fetched pe xs ys address p pe1"
      using fetch_miss [OF ok len off _ miss, of flags] by auto
    show ?thesis unfolding f(1) using fetched_track [OF f(2)] True by auto
  next
    case False
    then show ?thesis using g miss by (auto simp: db_fetch_page_impl_def Let_def)
  qed
qed

subsection \<open>Cleared pages have no type\<close>

text \<open>
  \<open>db_alloc_page_impl\<close> stores the type before it clears the page, so that a page that was
  requested with \<open>PAGE_CLEAR_WITH_ZERO\<close>, such as every freelist page, has the type 0.
\<close>

lemma clear_image_type:
  assumes "p_pers pg = Some buf" "4 \<le> n"
  shows "page_get_type (clear_image n (set_type ty pg)) = TYPE_UNKNOWN"
proof -
  have "take 4 (replicate n 0 @ xs) = [0, 0, 0, 0 :: byte]" for xs
    using assms(2) by (simp add: min_def numeral_nat)
  then have "get_u32 0 (replicate n 0 @ xs) = 0" for xs by (simp add: get_u32_def del: take_append)
  then show ?thesis using assms(1) by (simp add: page_get_type_def clear_image_def set_type_def TYPE_UNKNOWN_def)
qed

subsection \<open>Growing the file\<close>

lemma device_alloc_ok:
  assumes "device_ok dev" "length (fdata (dev_fd dev)) + n < off_max"
  shows "device_alloc dev n = (HAM_SUCCESS, of_nat (length (fdata (dev_fd dev))), grow_device dev n)"
  using assms os_truncate_grow [of "(dev_fd dev)\<lparr>fpos := length (fdata (dev_fd dev))\<rparr>" n]
  by (simp add: device_alloc_def device_ok_def os_get_filesize_ok grow_device_def)

lemma env_ok_grow:
  assumes ok: "env_ok pe xs ys" and n: "dev_pagesize (pe_dev pe) dvd n" "length (fdata (dev_fd (pe_dev pe))) + n + dev_pagesize (pe_dev pe) < off_max"
    and pe': "pe' = pe\<lparr>pe_cs := (pe_cs pe)\<lparr>cs_dev := grow_device (pe_dev pe) n\<rparr>\<rparr>"
  shows "env_ok pe' xs ys"
proof -
  note D = env_okD [OF ok]
  have "cached_ok (grow_device (pe_dev pe) n) (pe_store pe p)" if "p \<in> set xs" for p
    using D(7) [OF that] by (auto simp: cached_ok_def page_offset_def page_at_def grow_device_def)
  moreover have "device_ok (grow_device (pe_dev pe) n)" using D(5) n by (auto simp: device_ok_def grow_device_def)
  ultimately show ?thesis unfolding env_ok_def using D by (simp add: pe')
qed

text \<open>Allocating a page at the end of the file: it is cached, dirty, and all zero but for its type.\<close>

lemma env_ok_create:
  assumes ok: "env_ok pe xs ys" and pg: "p_next pg = (\<lambda>_. None)" "p_prev pg = (\<lambda>_. None)"
    and pe': "pe' = (with_page (pe_next pe) pg (pe_dev pe) pe)\<lparr>pe_next := Suc (pe_next pe)\<rparr>"
  shows "env_ok pe' xs ys"
proof -
  note D = env_okD [OF ok] and L = new_object(1) [OF ok pg] and H = new_object(2) [OF ok pg]
  have nx: "pe_next pe \<notin> set xs" using D(10) by auto
  then have "inj_on (\<lambda>p. p_self (pe_store pe' p)) (set xs)" using D(8) by (auto simp: pe' inj_on_def)
  moreover have "\<forall>p \<in> set xs. cached_ok (pe_dev pe') (pe_store pe' p)" using D(7) nx by (auto simp: pe')
  ultimately show ?thesis unfolding env_ok_def using D(2-6,9,10) L [of LIST_CHANGESET] H by (simp add: pe' unlinked_def)
qed

lemma put_new_page:
  assumes ok: "env_ok pe xs ys" and p: "p \<notin> set xs" "p < pe_next pe" "cached_ok (pe_dev pe) (pe_store pe p)" "p_self (pe_store pe p) \<noteq> 0"
    "\<forall>q \<in> set xs. p_self (pe_store pe q) \<noteq> p_self (pe_store pe p)" and len: "length xs < 2 ^ 32 - 1"
    and pe': "pe' = with_cache (put_page (pe_store pe) (pe_cache pe) p) pe"
  shows "env_ok pe' (p # xs) ys" "p_self (pe_store pe' p) = p_self (pe_store pe p)"
proof -
  obtain S' c' where pt: "put_page (pe_store pe) (pe_cache pe) p = (S', c')" by (metis surj_pair)
  note P = put_page_holds [OF env_okD(1) [OF ok] p(4) pt] and F = cs_frameD [OF put_page_frame [OF pt]]
  have c: "cached_ok (pe_dev pe) (S' p)" using p(3) cached_ok_cong F by metis
  show "env_ok pe' (p # xs) ys"
  proof (rule env_ok_put [OF ok, of S' c' _ p "pe_next pe"])
    show "cache_holds S' c' (p # xs)" using P(1) p(1) by (simp add: removeAll_id)
    show "get_next LIST_CHANGESET S' = get_next LIST_CHANGESET (pe_store pe)" "get_previous LIST_CHANGESET S' = get_previous LIST_CHANGESET (pe_store pe)"
      using P(3) [of LIST_CHANGESET] by (auto simp: fun_eq_iff)
    show "pe' = (with_cache (S', c') pe)\<lparr>pe_next := pe_next pe\<rparr>" by (simp add: pe' pt with_cache_def)
  qed (use p len F c in auto)
  show "p_self (pe_store pe' p) = p_self (pe_store pe p)" using F by (simp add: pe' pt)
qed

lemma init_page_image:
  assumes "p_pers pg = Some b" "length b = n" "4 \<le> n"
  shows "\<exists>b'. p_pers (if c then clear_image n ((set_type ty pg)\<lparr>p_dirty := True\<rparr>) else (set_type ty pg)\<lparr>p_dirty := True\<rparr>) = Some b' \<and> length b' = n"
  using assms by (auto simp: clear_image_def set_type_def)

lemma alloc_new_page_ok:
  assumes ok: "env_ok pe xs ys" and len: "length xs < 2 ^ 32 - 1" and strict: "pe_flags pe AND HAM_CACHE_STRICT = 0"
    and size: "4 \<le> dev_pagesize (pe_dev pe)" "0 < length (fdata (dev_fd (pe_dev pe)))"
      "length (fdata (dev_fd (pe_dev pe))) + 2 * dev_pagesize (pe_dev pe) < off_max"
  shows "\<exists>pe' ys'. alloc_new_page ty flags pe = (HAM_SUCCESS, Some (pe_next pe), pe') \<and> env_ok pe' (pe_next pe # xs) ys' \<and>
    p_self (pe_store pe' (pe_next pe)) = of_nat (length (fdata (dev_fd (pe_dev pe)))) \<and> pe_flags pe' = pe_flags pe \<and>
    pe_dev pe' = grow_device (pe_dev pe) (dev_pagesize (pe_dev pe))"
proof -
  let ?n = "pe_next pe" and ?ps = "dev_pagesize (pe_dev pe)" and ?len = "length (fdata (dev_fd (pe_dev pe)))"
  let ?a = "of_nat ?len :: u64" and ?dev = "grow_device (pe_dev pe) ?ps"
  note D = env_okD [OF ok]
  have u: "unat ?a = ?len" using size(3) by (simp add: off_max_def)
  define pe0 where "pe0 = pe\<lparr>pe_cs := (pe_cs pe)\<lparr>cs_dev := ?dev\<rparr>\<rparr>"
  have ok0: "env_ok pe0 xs ys" by (rule env_ok_grow [OF ok dvd_refl _ pe0_def]) (use size(3) in simp)
  have off: "page_offset ?dev ?a" using D(5) u by (auto simp: page_offset_def device_ok_def)
  obtain fl where fl: "read_page ?dev [] (new_page\<lparr>p_self := ?a\<rparr>) =
      (HAM_SUCCESS, new_page\<lparr>p_self := ?a, p_flags := fl, p_pers := Some (page_at ?dev ?len)\<rparr>, ?dev)"
    using read_page_plain [of ?dev "new_page\<lparr>p_self := ?a\<rparr>"] env_okD(5) [OF ok0] off u by (auto simp: new_page_def pe0_def)
  define pg where "pg = new_page\<lparr>p_self := ?a, p_flags := fl, p_pers := Some (page_at ?dev ?len)\<rparr>"
  have al: "alloc_page (pe_dev pe) [] new_page = (HAM_SUCCESS, pg, ?dev)"
  proof -
    have "(pe_dev pe)\<lparr>dev_fd := (dev_fd (pe_dev pe))\<lparr>fpos := ?len, fdata := fdata (dev_fd (pe_dev pe)) @ replicate ?ps 0\<rparr>\<rparr> = ?dev"
      by (simp add: grow_device_def)
    then show ?thesis using fl os_truncate_grow [of "(dev_fd (pe_dev pe))\<lparr>fpos := ?len\<rparr>" ?ps] D(5) size(3)
      by (simp add: alloc_page_def device_ok_def os_get_filesize_ok pg_def)
  qed
  define pg1 where "pg1 = (if flags AND PAGE_CLEAR_WITH_ZERO \<noteq> 0 then clear_image ?ps ((set_type ty pg)\<lparr>p_dirty := True\<rparr>) else (set_type ty pg)\<lparr>p_dirty := True\<rparr>)"
  have pg1: "p_self pg1 = ?a" "p_dirty pg1" "p_next pg1 = (\<lambda>_. None)" "p_prev pg1 = (\<lambda>_. None)"
    by (simp_all add: pg1_def pg_def clear_image_def set_type_def new_page_def)
  obtain b where b: "p_pers pg1 = Some b" "length b = ?ps"
    using init_page_image [of pg "page_at ?dev ?len" ?ps] length_page_at [OF off] u size(1) unfolding pg1_def by (auto simp: pg_def)
  define pe2 where "pe2 = (with_page ?n pg1 (pe_dev pe0) pe0)\<lparr>pe_next := Suc ?n\<rparr>"
  have ok2: "env_ok pe2 xs ys" by (rule env_ok_create [OF ok0 pg1(3,4)]) (simp add: pe2_def pe0_def)
  have "?n < pe_next pe2" by (simp add: pe2_def)
  from track_page_ok [OF ok2 this] obtain ys' where t: "env_ok (track_page ?n pe2) xs ys'"
    "\<And>q. p_self (pe_store (track_page ?n pe2) q) = p_self (pe_store pe2 q) \<and> p_pers (pe_store (track_page ?n pe2) q) = p_pers (pe_store pe2 q) \<and>
      p_dirty (pe_store (track_page ?n pe2) q) = p_dirty (pe_store pe2 q)" by blast
  have dirty: "p_dirty (pe_store (track_page ?n pe2) ?n)" using t(2) [of ?n] pg1(2) by (simp add: pe2_def)
  have tf: "pe_dev (track_page ?n pe2) = ?dev" "pe_next (track_page ?n pe2) = Suc ?n" "pe_flags (track_page ?n pe2) = pe_flags pe"
    by (simp_all add: track_page_def pe2_def pe0_def)
  have nx: "?n \<notin> set xs" using D(10) by auto
  have s: "p_self (pe_store (track_page ?n pe2) ?n) = ?a" using t(2) pg1(1) by (simp add: pe2_def)
  have ne: "p_self (pe_store (track_page ?n pe2) q) \<noteq> ?a" if "q \<in> set xs" for q
  proof -
    have "page_offset (pe_dev pe) (p_self (pe_store pe q))" using D(7) [OF that] by (simp add: cached_ok_def)
    then have "unat (p_self (pe_store pe q)) \<noteq> ?len" using size(1) by (auto simp: page_offset_def)
    then show ?thesis using t(2) [of q] that nx u by (auto simp: pe2_def pe0_def)
  qed
  define pe' where "pe' = with_cache (put_page (pe_store (track_page ?n pe2)) (pe_cache (track_page ?n pe2)) ?n) (track_page ?n pe2)"
  have "cached_ok (pe_dev (track_page ?n pe2)) (pe_store (track_page ?n pe2) ?n)"
    using s t(2) [of ?n] b dirty off tf(1) by (simp add: cached_ok_def pe2_def)
  moreover have "?a \<noteq> 0" using u size(2) by (metis less_numeral_extra(3) unsigned_0)
  ultimately have "env_ok pe' (?n # xs) ys'" "p_self (pe_store pe' ?n) = ?a"
    using put_new_page [OF t(1) nx _ _ _ _ len pe'_def] s ne tf(2) by auto
  moreover have "alloc_new_page ty flags pe = (HAM_SUCCESS, Some ?n, pe')"
  proof -
    have "with_page ?n pg1 ?dev (with_page ?n pg ?dev ((with_page ?n new_page (pe_dev pe) pe)\<lparr>pe_next := Suc ?n\<rparr>)) = pe2"
      by (simp add: pe2_def pe0_def with_page_def)
    then show ?thesis using al strict D(6)
      by (cases "flags AND PAGE_CLEAR_WITH_ZERO = 0")
        (simp_all add: alloc_new_page_def create_page_def init_page_def Let_def pg1_def pe'_def)
  qed
  ultimately show ?thesis using tf by (intro exI [of _ pe'] exI [of _ ys']) (simp add: pe'_def)
qed

section \<open>A concrete environment\<close>

text \<open>One dirty page of two bytes in a cache with room for less than one page.\<close>

definition small_store :: page_store where
  "small_store = (\<lambda>p. if p = 1 then sample_page else new_page)"

definition small_pe :: page_env where
  "small_pe =
     (let sc = put_page small_store (cache_new 1) 1
      in \<lparr>pe_cs = (sample_cs None log_new)\<lparr>cs_store := fst sc, cs_cache := snd sc, cs_head := None, cs_dev := sample_device 0\<rparr>,
          pe_flags = HAM_ENABLE_RECOVERY, pe_next = 2, pe_uncouple = (\<lambda>p. HAM_SUCCESS), pe_freel_alloc_page = (HAM_SUCCESS, 0)\<rparr>)"

lemma small_pe_page: "p_self (pe_store small_pe 1) = 2" "p_pers (pe_store small_pe 1) = Some [5, 6]" "p_dirty (pe_store small_pe 1)"
proof -
  obtain S c where p: "put_page small_store (cache_new 1) 1 = (S, c)" by (metis surj_pair)
  then have s: "pe_store small_pe = S" by (simp add: small_pe_def)
  show "p_self (pe_store small_pe 1) = 2" "p_pers (pe_store small_pe 1) = Some [5, 6]" "p_dirty (pe_store small_pe 1)"
    unfolding s using cs_frameD [OF put_page_frame [OF p], of 1] by (simp_all add: small_store_def sample_page_def)
qed

lemma small_pe_ok: "env_ok small_pe [1] []"
proof -
  obtain S c where p: "put_page small_store (cache_new 1) 1 = (S, c)" by (metis surj_pair)
  have un: "unlinked w small_store q" for w q
    by (simp add: unlinked_def get_next_def get_previous_def small_store_def sample_page_def new_page_def)
  have h: "cache_holds small_store (cache_new 1) []" unfolding cache_holds_def using cache_new_rep [of small_store 1] un by blast
  have "p_self (small_store 1) \<noteq> 0" by (simp add: small_store_def sample_page_def)
  then have P: "cache_holds S c [1]"
    and L: "get_next LIST_CHANGESET S q = get_next LIST_CHANGESET small_store q \<and>
            get_previous LIST_CHANGESET S q = get_previous LIST_CHANGESET small_store q" for q
    using put_page_holds [OF h _ p] by simp_all
  have s: "pe_store small_pe = S" "pe_cache small_pe = c" "pe_dev small_pe = sample_device 0" "cs_head (pe_cs small_pe) = None"
    "cs_filters (pe_cs small_pe) = []" "pe_next small_pe = 2" using p by (simp_all add: small_pe_def sample_cs_def)
  have "unlinked LIST_CHANGESET S q" for q using L [of q] un by (simp add: unlinked_def)
  moreover have "cached_ok (sample_device 0) (S 1)"
    using small_pe_page sample_device_ok by (auto simp: cached_ok_def s sample_device_def)
  ultimately show ?thesis using P sample_device_ok by (simp add: env_ok_def s)
qed


theorem db_fetch_page_returns_content_witness:
  "\<exists>p pe'. db_fetch_page_impl small_pe 2 0 = Some (HAM_SUCCESS, Some p, pe') \<and> p_pers (pe_store pe' p) = Some [5, 6]"
proof -
  have f: "pe_flags small_pe AND HAM_CACHE_STRICT = 0" "pe_dev small_pe = sample_device 0"
    by (simp_all add: small_pe_def Let_def HAM_ENABLE_RECOVERY_def HAM_CACHE_STRICT_def)
  show ?thesis
    using db_fetch_page_returns_content [OF small_pe_ok, of 2 0] f content_cached [OF small_pe_ok, of 1] small_pe_page sample_device_ok
    by (fastforce simp: Ball_def)
qed

end
