(* ===== verification/Ham_Freelist.thy ===== *)
theory Ham_Freelist
  imports Ham_Prelude
begin

text \<open>
  The freelist of \<open>src/freelist.cc\<close> in its 32-bit form: a bitmap with one bit per chunk of 32
  bytes, set when the chunk is free, spread over the header page and a chain of freelist
  pages, with a table of entries in memory. Modelled are the update of a range of bits, which
  works on 64-bit words as far as it can, the bit scans of the search, the table with its
  growth, the allocation of freelist pages and \<open>__freel_mark_free\<close>. The statistics that the
  functions update on the way only give hints to later searches and are left out, as is the
  search itself.

  Sizes and addresses count bytes, chunks and bits of a file and are natural numbers. Where the code computes
  in 32 bits, the wrap-around is written out: the number of bytes that so many chunks have (\<open>chunk_bytes\<close>), the offset of
  an address in its entry, the counters and the estimate of \<open>__freel_cache_get_entry\<close>. Addresses are 64-bit
  file offsets, which the operating system keeps below \<open>2^63\<close>, and do not wrap.
\<close>

unbundle bit_operations_syntax

definition DB_CHUNKSIZE :: nat where "DB_CHUNKSIZE = 32"

text \<open>The bytes of \<open>n\<close> chunks, a product of 32-bit integers.\<close>

definition chunk_bytes :: "nat \<Rightarrow> nat" where "chunk_bytes n = n * DB_CHUNKSIZE mod 2 ^ 32"

lemma chunk_bytes_simps:
  "n < 2 ^ 27 \<Longrightarrow> chunk_bytes n = n * DB_CHUNKSIZE" "chunk_bytes n \<le> n * DB_CHUNKSIZE" "DB_CHUNKSIZE dvd chunk_bytes n" "chunk_bytes n < 2 ^ 32"
  by (simp_all add: chunk_bytes_def DB_CHUNKSIZE_def dvd_mod)

section \<open>Ranges of bits\<close>

text \<open>\<open>p[i>>3] |= 1 << (i&7)\<close> and its counterpart for clearing, with \<open>p\<close> at the byte \<open>base\<close>.\<close>

definition put_bit :: "bool \<Rightarrow> nat \<Rightarrow> nat \<Rightarrow> byte list \<Rightarrow> byte list" where
  "put_bit v base i p =
     p[base + i div 8 := (if v then (p ! (base + i div 8)) OR push_bit (i mod 8) 1
                          else (p ! (base + i div 8)) AND NOT (push_bit (i mod 8) 1))]"

fun bit_loop :: "bool \<Rightarrow> nat \<Rightarrow> nat \<Rightarrow> nat \<Rightarrow> byte list \<Rightarrow> byte list" where
  "bit_loop v base i 0 p = p"
| "bit_loop v base i (Suc n) p = bit_loop v base (Suc i) n (put_bit v base i p)"

text \<open>\<open>p64[i] = 0xFF..\<close> or \<open>0\<close>: eight bytes at once.\<close>

definition put_qword :: "bool \<Rightarrow> nat \<Rightarrow> byte list \<Rightarrow> byte list" where
  "put_qword v j p = take (8 * j) p @ replicate 8 (if v then 0xFF else 0) @ drop (8 * j + 8) p"

fun qword_loop :: "bool \<Rightarrow> nat \<Rightarrow> nat \<Rightarrow> byte list \<Rightarrow> byte list" where
  "qword_loop v j 0 p = p"
| "qword_loop v j (Suc n) p = qword_loop v (Suc j) n (put_qword v j p)"

definition freel_set_bits :: "nat \<Rightarrow> nat \<Rightarrow> nat \<Rightarrow> bool \<Rightarrow> byte list \<Rightarrow> nat \<times> byte list" where
  "freel_set_bits max_bits start_bit size_bits v p =
     (let qw_offset = start_bit mod 64;
          qw_start = (start_bit + 63) div 64;
          size_bits = (if start_bit + size_bits > max_bits then max_bits - start_bit else size_bits);
          qw_end = (start_bit + size_bits) div 64
      in if qw_end \<le> qw_start then (size_bits, bit_loop v 0 start_bit size_bits p)
         else
           (let p1 = (if qw_offset \<noteq> 0 then bit_loop v (8 * (qw_start - 1)) qw_offset (64 - qw_offset) p else p);
                n1 = (if qw_offset \<noteq> 0 then size_bits - (64 - qw_offset) else size_bits);
                qw = qw_end - qw_start;
                p2 = qword_loop v qw_start qw p1
            in (size_bits, bit_loop v (8 * (qw_start + qw)) 0 (n1 - 64 * qw) p2)))"

text \<open>The bit for a chunk.\<close>

definition chunk_free :: "byte list \<Rightarrow> nat \<Rightarrow> bool" where
  "chunk_free p k = bit (p ! (k div 8)) (k mod 8)"

section \<open>Scanning a word\<close>

text \<open>
  The length of the run of ones at the top and at the bottom of a word. The position is a
  32-bit counter.
\<close>

lemma drop_bit_less: "v \<noteq> 0 \<Longrightarrow> unat (drop_bit 1 (v :: 'a::len word)) < unat v"
proof -
  assume "v \<noteq> 0"
  then have "0 < unat v" by (simp add: unsigned_eq_0_iff neq0_conv [symmetric] del: neq0_conv)
  moreover have "unat (drop_bit 1 v) \<le> unat v div 2"
    by (simp add: drop_bit_eq_div unat_div)
  ultimately show ?thesis by linarith
qed

text \<open>The simplifier writes the shift as a product.\<close>

lemma bit_times_2 [simp]:
  "bit (v * 2 :: 'a::len word) i \<longleftrightarrow> i \<noteq> 0 \<and> i < LENGTH('a) \<and> bit v (i - 1)"
  by (auto simp: mult.commute [of v 2] bit_double_iff)

lemma bits_of_shifted: "{i. bit (v * 2 :: 'a::len word) i} = Suc ` ({i. bit v i} - {LENGTH('a) - 1})"
proof -
  have "i \<in> Suc ` ({i. bit v i} - {LENGTH('a) - 1}) \<longleftrightarrow> bit (v * 2) i" for i
    using bit_imp_le_length [of v "i - 1"] by (cases i) (auto simp: image_iff)
  then show ?thesis by blast
qed

lemma finite_bits: "finite {i. bit (v :: 'a::len word) i}"
  by (rule finite_subset [of _ "{..< LENGTH('a)}"]) (auto dest: bit_imp_le_length)

lemma shift_out_less:
  assumes "bit (v :: 'a::len word) (LENGTH('a) - Suc 0)"
  shows "card (Collect (bit (v * 2))) < card (Collect (bit v))"
proof -
  have "card (Collect (bit (v * 2))) = card (Collect (bit v) - {LENGTH('a) - 1})"
    using bits_of_shifted [of v] by (simp add: card_image del: bit_times_2)
  also have "\<dots> < card (Collect (bit v))"
    using assms by (intro card_Diff1_less finite_bits) simp
  finally show ?thesis .
qed

function BITSCAN_LSBit :: "'a::len word \<Rightarrow> u32 \<Rightarrow> u32" where
  "BITSCAN_LSBit v pos = (if v AND 1 \<noteq> 0 then BITSCAN_LSBit (drop_bit 1 v) (pos + 1) else pos)"
  by pat_completeness auto
termination
  by (relation "measure (\<lambda>(v, pos). unat v)") (auto intro!: drop_bit_less [unfolded One_nat_def])

function BITSCAN_MSBit :: "'a::len word \<Rightarrow> u32 \<Rightarrow> u32" where
  "BITSCAN_MSBit v pos = (if bit v (LENGTH('a) - 1) then BITSCAN_MSBit (push_bit 1 v) (pos - 1) else pos)"
  by pat_completeness auto
termination
  by (relation "measure (\<lambda>(v, pos). card {i. bit v i})") (auto intro: shift_out_less simp del: bit_times_2)

declare BITSCAN_LSBit.simps [simp del] BITSCAN_MSBit.simps [simp del]

lemma BITSCAN_LSBit_run:
  "\<exists>k \<le> LENGTH('a). BITSCAN_LSBit (v :: 'a::len word) pos = pos + of_nat k \<and> (\<forall>i < k. bit v i) \<and> (k < LENGTH('a) \<longrightarrow> \<not> bit v k)"
proof (induction v pos rule: BITSCAN_LSBit.induct)
  case (1 v pos)
  have b0: "v AND 1 \<noteq> 0 \<longleftrightarrow> bit v 0" by (simp add: and_one_eq bit_0 odd_iff_mod_2_eq_one)
  show ?case
  proof (cases "bit v 0")
    case False
    then show ?thesis using b0 by (intro exI [of _ 0]) (simp add: BITSCAN_LSBit.simps)
  next
    case True
    from 1 True b0 obtain k where k: "k \<le> LENGTH('a)" "BITSCAN_LSBit (drop_bit 1 v) (pos + 1) = pos + 1 + of_nat k"
      "\<forall>i < k. bit (drop_bit 1 v) i" "k < LENGTH('a) \<longrightarrow> \<not> bit (drop_bit 1 v) k" by blast
    have ones: "bit v i" if "i < Suc k" for i using that True k(3) by (cases i) (auto simp: bit_simps)
    then have "Suc k \<le> LENGTH('a)" using bit_imp_le_length [of v k] by (simp add: Suc_leI)
    moreover have "\<not> bit v (Suc k)" if "Suc k < LENGTH('a)" using that k(4) by (simp add: bit_simps)
    moreover have "BITSCAN_LSBit v pos = pos + of_nat (Suc k)"
      using True b0 k(2) by (subst BITSCAN_LSBit.simps) simp
    ultimately show ?thesis using ones by blast
  qed
qed

lemma BITSCAN_MSBit_run:
  "\<exists>k \<le> LENGTH('a). BITSCAN_MSBit (v :: 'a::len word) pos = pos - of_nat k \<and>
     (\<forall>i < k. bit v (LENGTH('a) - 1 - i)) \<and> (k < LENGTH('a) \<longrightarrow> \<not> bit v (LENGTH('a) - 1 - k))"
proof (induction v pos rule: BITSCAN_MSBit.induct)
  case (1 v pos)
  show ?case
  proof (cases "bit v (LENGTH('a) - 1)")
    case False
    then show ?thesis by (intro exI [of _ 0]) (simp add: BITSCAN_MSBit.simps)
  next
    case True
    from 1 [OF True] obtain k where k: "k \<le> LENGTH('a)" "BITSCAN_MSBit (push_bit 1 v) (pos - 1) = pos - 1 - of_nat k"
      "\<forall>i < k. bit (push_bit 1 v) (LENGTH('a) - 1 - i)"
      "k < LENGTH('a) \<longrightarrow> \<not> bit (push_bit 1 v) (LENGTH('a) - 1 - k)" by blast
    have shift: "bit (push_bit 1 v) (LENGTH('a) - 1 - i) \<longleftrightarrow> Suc i < LENGTH('a) \<and> bit v (LENGTH('a) - 1 - Suc i)"
      if "i < LENGTH('a)" for i
      using that by auto
    have kl: "k < LENGTH('a)"
    proof (rule ccontr)
      assume "\<not> k < LENGTH('a)"
      then have "LENGTH('a) - 1 < k" using len_gt_0 [where ?'a = 'a] by linarith
      with k(3) have "bit (push_bit 1 v) (LENGTH('a) - 1 - (LENGTH('a) - 1))" by blast
      then show False by simp
    qed
    have ones: "bit v (LENGTH('a) - 1 - i)" if "i < Suc k" for i
      using that True k(3) shift kl by (cases i) auto
    moreover have "\<not> bit v (LENGTH('a) - 1 - Suc k)" if "Suc k < LENGTH('a)" using that k(4) kl shift by auto
    moreover have "BITSCAN_MSBit v pos = pos - of_nat (Suc k)"
      using True k(2) by (subst BITSCAN_MSBit.simps) simp
    ultimately show ?thesis using kl by (intro exI [of _ "Suc k"]) auto
  qed
qed

section \<open>The update of a range\<close>

lemma length_put_bits [simp]: "length (put_bit v base i p) = length p" "8 * j + 8 \<le> length p \<Longrightarrow> length (put_qword v j p) = length p"
  by (simp_all add: put_bit_def put_qword_def)

lemma length_bit_loop [simp]: "length (bit_loop v base i n p) = length p"
  by (induction v base i n p rule: bit_loop.induct) simp_all

lemma chunk_free_put_bit:
  assumes "base + i div 8 < length p"
  shows "chunk_free (put_bit v base i p) k = (if k = 8 * base + i then v else chunk_free p k)"
proof (cases "k div 8 = base + i div 8")
  case True
  have "k = 8 * (k div 8) + k mod 8" "i = 8 * (i div 8) + i mod 8" by simp_all
  with True have k: "k = 8 * base + i \<longleftrightarrow> k mod 8 = i mod 8" by linarith
  have "bit (push_bit (i mod 8) (1 :: byte)) (k mod 8) \<longleftrightarrow> k mod 8 = i mod 8"
    by (auto simp: bit_simps)
  with True k assms show ?thesis
    by (auto simp: chunk_free_def put_bit_def bit_or_iff bit_and_iff bit_not_iff)
next
  case False
  then have "k \<noteq> 8 * base + i" by auto
  with False show ?thesis by (simp add: chunk_free_def put_bit_def)
qed

lemma chunk_free_bit_loop:
  assumes "8 * base + i + n \<le> 8 * length p"
  shows "chunk_free (bit_loop v base i n p) k =
    (if 8 * base + i \<le> k \<and> k < 8 * base + i + n then v else chunk_free p k)"
  using assms
proof (induction n arbitrary: i p)
  case (Suc n)
  have "base + i div 8 < length p" using Suc.prems by linarith
  with Suc chunk_free_put_bit [of base i p v k] show ?case by auto
qed auto

lemma chunk_free_put_qword:
  assumes "8 * j + 8 \<le> length p"
  shows "chunk_free (put_qword v j p) k = (if 64 * j \<le> k \<and> k < 64 * j + 64 then v else chunk_free p k)"
proof -
  have ff: "bit (if v then 0xFF else 0 :: byte) (k mod 8) = v"
  proof -
    have "k mod 8 < 8" by simp
    then have "k mod 8 \<in> {0, 1, 2, 3, 4, 5, 6, 7}" by auto
    then show ?thesis by auto
  qed
  have k: "k = 8 * (k div 8) + k mod 8" "k mod 8 < 8" by simp_all
  consider "k div 8 < 8 * j" | "8 * j \<le> k div 8" "k div 8 < 8 * j + 8" | "8 * j + 8 \<le> k div 8" by linarith
  then show ?thesis
  proof cases
    case 1
    then have "\<not> (64 * j \<le> k \<and> k < 64 * j + 64)" using k by linarith
    with 1 assms show ?thesis by (auto simp: chunk_free_def put_qword_def nth_append)
  next
    case 2
    then have "64 * j \<le> k \<and> k < 64 * j + 64" using k by linarith
    moreover have "put_qword v j p ! (k div 8) = (if v then 0xFF else 0)"
      using 2 assms by (auto simp: put_qword_def nth_append)
    ultimately show ?thesis using ff by (simp add: chunk_free_def)
  next
    case 3
    then have "\<not> (64 * j \<le> k \<and> k < 64 * j + 64)" using k by linarith
    moreover have "put_qword v j p ! (k div 8) = p ! (k div 8)"
      using 3 assms by (cases "k div 8 < length p") (auto simp: put_qword_def nth_append not_less)
    ultimately show ?thesis by (auto simp: chunk_free_def)
  qed
qed

lemma length_qword_loop: "8 * (j + n) \<le> length p \<Longrightarrow> length (qword_loop v j n p) = length p"
  by (induction v j n p rule: qword_loop.induct) simp_all

lemma chunk_free_qword_loop:
  assumes "8 * (j + n) \<le> length p"
  shows "chunk_free (qword_loop v j n p) k = (if 64 * j \<le> k \<and> k < 64 * (j + n) then v else chunk_free p k)"
  using assms
proof (induction n arbitrary: j p)
  case (Suc n)
  then have "8 * j + 8 \<le> length p" by simp
  with Suc chunk_free_put_qword [of j p v k] show ?case by auto
qed auto

lemma freel_set_bits_effect:
  assumes "start_bit < max_bits" and "max_bits \<le> 8 * length p"
    and "n = (if start_bit + size_bits > max_bits then max_bits - start_bit else size_bits)"
  shows "\<exists>p'. freel_set_bits max_bits start_bit size_bits v p = (n, p') \<and> length p' = length p \<and>
    (\<forall>k. chunk_free p' k = (if start_bit \<le> k \<and> k < start_bit + n then v else chunk_free p k))"
proof -
  define o' qs qe where "o' = start_bit mod 64" and "qs = (start_bit + 63) div 64" and "qe = (start_bit + n) div 64"
  have n: "start_bit + n \<le> 8 * length p" using assms by auto
  show ?thesis
  proof (cases "qe \<le> qs")
    case True
    then have "freel_set_bits max_bits start_bit size_bits v p = (n, bit_loop v 0 start_bit n p)"
      using assms(3) by (simp add: freel_set_bits_def Let_def qs_def qe_def)
    with chunk_free_bit_loop [of 0 start_bit n p v] n show ?thesis by simp
  next
    case False
    define p1 where "p1 = (if o' \<noteq> 0 then bit_loop v (8 * (qs - 1)) o' (64 - o') p else p)"
    define n1 where "n1 = (if o' \<noteq> 0 then n - (64 - o') else n)"
    define p2 where "p2 = qword_loop v qs (qe - qs) p1"
    have f: "freel_set_bits max_bits start_bit size_bits v p =
        (n, bit_loop v (8 * (qs + (qe - qs))) 0 (n1 - 64 * (qe - qs)) p2)"
      using False unfolding freel_set_bits_def Let_def assms(3) [symmetric] o'_def [symmetric] qs_def [symmetric]
        qe_def [symmetric] p1_def [symmetric] n1_def [symmetric] p2_def [symmetric]
      by (simp only: if_False)
    have s: "start_bit = 64 * (start_bit div 64) + o'" by (simp add: o'_def)
    have o: "o' < 64" by (simp add: o'_def)
    have qs: "qs = (if o' = 0 then start_bit div 64 else Suc (start_bit div 64))"
      unfolding qs_def by (rule div_nat_eqI) (use s o in auto)
    have qe: "64 * qe \<le> start_bit + n" by (simp add: qe_def)
    have aln: "o' \<noteq> 0 \<Longrightarrow> 64 * (qs - 1) + o' = start_bit" "o' \<noteq> 0 \<Longrightarrow> start_bit + (64 - o') = 64 * qs"
      "o' = 0 \<Longrightarrow> start_bit = 64 * qs" using qs s o by (auto split: if_splits)
    have tail: "n1 + 64 * qs = start_bit + n" using aln o False qe by (auto simp: n1_def)
    have le: "8 * qe \<le> length p" using qe n by linarith
    have c1: "chunk_free p1 k = (if start_bit \<le> k \<and> k < 64 * qs then v else chunk_free p k)" for k
    proof (cases "o' = 0")
      case False
      have "8 * (8 * (qs - 1)) + o' + (64 - o') \<le> 8 * length p"
        using aln False le \<open>\<not> qe \<le> qs\<close> o by linarith
      moreover have "64 * (qs - Suc 0) + 64 = 64 * qs" using False aln(1,2) o by linarith
      ultimately show ?thesis using chunk_free_bit_loop [of "8 * (qs - 1)" o' "64 - o'" p v k] False aln o by (simp add: p1_def)
    qed (use aln in \<open>auto simp: p1_def\<close>)
    have l1: "length p1 = length p" by (simp add: p1_def)
    have q: "8 * (qs + (qe - qs)) \<le> length p1" using le l1 False by simp
    have ge: "start_bit \<le> 64 * qs" using aln o by (cases "o' = 0") auto
    have sp: "64 * (qs + (qe - qs)) = 64 * qe" using False by simp
    have c2: "chunk_free p2 k = (if start_bit \<le> k \<and> k < 64 * qe then v else chunk_free p k)" for k
      using chunk_free_qword_loop [OF q, of v k] c1 [of k] False ge unfolding p2_def sp by (auto split: if_splits)
    have l2: "length p2 = length p" using length_qword_loop [OF q] l1 by (simp add: p2_def)
    have "8 * (8 * (qs + (qe - qs))) + 0 + (n1 - 64 * (qe - qs)) \<le> 8 * length p2"
      using l2 tail n False qe by simp
    from chunk_free_bit_loop [OF this, of v] c2 tail False qe ge
    have "chunk_free (bit_loop v (8 * (qs + (qe - qs))) 0 (n1 - 64 * (qe - qs)) p2) k =
        (if start_bit \<le> k \<and> k < start_bit + n then v else chunk_free p k)" for k by auto
    with f l2 show ?thesis by simp
  qed
qed

section \<open>Entries, pages and the table\<close>

text \<open>
  \<open>freelist_entry_t\<close>, an element of the table in memory; \<open>freelist_payload_t\<close>, the persistent
  content of the header page's freelist area or of a freelist page; and the freelist with the
  pages it lives in. \<open>fl_dirty\<close> collects the addresses of the pages that were marked dirty, 0
  for the header page.
\<close>

record freelist_entry =
  fe_start_address :: nat
  fe_max_bits :: nat
  fe_allocated_bits :: nat
  fe_page_id :: nat

record freelist_payload =
  fp_start_address :: nat
  fp_overflow :: nat
  fp_max_bits :: nat
  fp_allocated_bits :: nat
  fp_bitmap :: "byte list"

record freelist =
  fl_entries :: "freelist_entry list"
  fl_header :: freelist_payload
  fl_pages :: "nat \<Rightarrow> freelist_payload"
  fl_dirty :: "nat set"

text \<open>
  What the freelist calls: the page size, the size of the fixed part of a freelist page, the
  allocator's answer to the request for a table of so many entries, and the outcome of
  \<open>env_fetch_page\<close> (the status and whether a page came back), of \<open>env_alloc_page\<close> (the status
  and the address of the new page) and of \<open>get_filesize\<close>.
\<close>

record freel_env =
  en_pagesize :: nat
  en_freelist_header_size :: nat
  en_table_alloc :: "nat \<Rightarrow> bool"
  en_fetch_page :: "nat \<Rightarrow> ham_status \<times> bool"
  en_alloc_page :: "freelist \<Rightarrow> ham_status \<times> nat option"
  en_get_filesize :: "freelist \<Rightarrow> ham_status"

definition sizeof_persistent_header :: nat where "sizeof_persistent_header = 12"

definition freel_get_freelist_entry_maxspan :: "freel_env \<Rightarrow> nat" where
  "freel_get_freelist_entry_maxspan env =
     (let sz = en_pagesize env - sizeof_persistent_header - en_freelist_header_size env
      in ((sz - sz mod 8) * 8) mod 2 ^ 32)"

subsection \<open>The table\<close>

definition new_entry :: "nat \<Rightarrow> freelist_entry \<Rightarrow> freelist_entry" where
  "new_entry size_bits prev =
     \<lparr>fe_start_address = fe_start_address prev + chunk_bytes (fe_max_bits prev),
      fe_max_bits = size_bits, fe_allocated_bits = 0, fe_page_id = 0\<rparr>"

fun append_entries :: "nat \<Rightarrow> nat \<Rightarrow> freelist_entry list \<Rightarrow> freelist_entry list" where
  "append_entries size_bits 0 es = es"
| "append_entries size_bits (Suc n) es = append_entries size_bits n (es @ [new_entry size_bits (last es)])"

definition freel_cache_resize ::
  "freel_env \<Rightarrow> freelist_entry list \<Rightarrow> nat \<Rightarrow> ham_status + freelist_entry list" where
  "freel_cache_resize env es new_count =
     (if \<not> en_table_alloc env new_count then Inl HAM_OUT_OF_MEMORY
      else Inr (append_entries (freel_get_freelist_entry_maxspan env) (new_count - length es) es))"

definition covers :: "freelist_entry \<Rightarrow> nat \<Rightarrow> bool" where
  "covers e address \<longleftrightarrow> fe_start_address e \<le> address \<and> address < fe_start_address e + chunk_bytes (fe_max_bits e)"

text \<open>The number of entries to add, computed in 32 bits from the last entry of the table.\<close>

definition entries_to_add :: "nat \<Rightarrow> freelist_entry \<Rightarrow> nat \<Rightarrow> nat" where
  "entries_to_add size_bits e address =
     (let add = (address - fe_start_address e - fe_max_bits e) mod 2 ^ 32;
          add = ((add + (DB_CHUNKSIZE - 1)) mod 2 ^ 32) div DB_CHUNKSIZE
      in ((add + (size_bits - 1)) mod 2 ^ 32) div size_bits)"

text \<open>
  \<open>__freel_cache_get_entry\<close>: the entry that covers the address, after growing the table if
  there is none. The scan resumes at the first new entry.
\<close>

partial_function (option) freel_cache_get_entry ::
  "freel_env \<Rightarrow> nat \<Rightarrow> freelist_entry list \<Rightarrow> nat \<Rightarrow> ((ham_status + nat) \<times> freelist_entry list) option" where
  "freel_cache_get_entry env address es i =
     (case find (\<lambda>k. covers (es ! k) address) [i..<length es] of
        Some k \<Rightarrow> Some (Inr k, es)
      | None \<Rightarrow>
          (let add = entries_to_add (freel_get_freelist_entry_maxspan env) (last es) address
           in case freel_cache_resize env es (length es + add) of
                Inl st \<Rightarrow> Some (Inl st, es)
              | Inr es' \<Rightarrow> freel_cache_get_entry env address es' (length es)))"

subsection \<open>The chain of freelist pages\<close>

definition set_dirty :: "nat \<Rightarrow> freelist \<Rightarrow> freelist" where
  "set_dirty a fl = fl\<lparr>fl_dirty := insert a (fl_dirty fl)\<rparr>"

definition set_page :: "nat \<Rightarrow> freelist_payload \<Rightarrow> freelist \<Rightarrow> freelist" where
  "set_page a fp fl = fl\<lparr>fl_pages := (fl_pages fl)(a := fp)\<rparr>"

definition set_entry :: "nat \<Rightarrow> freelist_entry \<Rightarrow> freelist \<Rightarrow> freelist" where
  "set_entry i e fl = fl\<lparr>fl_entries := (fl_entries fl)[i := e]\<rparr>"

text \<open>\<open>st ? st : HAM_INTERNAL_ERROR\<close> for a page that did not come.\<close>

definition no_page :: "ham_status \<Rightarrow> ham_status" where
  "no_page st = (if st = HAM_SUCCESS then HAM_INTERNAL_ERROR else st)"

text \<open>
  The step of \<open>__freel_alloc_page\<close> for one entry without a page: make the predecessor dirty,
  allocate a cleared page, link it to the predecessor and fill in its header. The result is
  the status and the new page.
\<close>

definition link_new_page :: "freel_env \<Rightarrow> nat \<Rightarrow> freelist \<Rightarrow> (ham_status + nat) \<times> freelist" where
  "link_new_page env i fl =
     (let prev = fe_page_id (fl_entries fl ! (i - 1));
          got = (if i = 1 then (HAM_SUCCESS, True) else en_fetch_page env prev)
      in if \<not> snd got then (Inl (no_page (fst got)), fl)
         else
           (let fl1 = set_dirty (if i = 1 then 0 else prev) fl
            in case en_alloc_page env fl1 of
                 (st, None) \<Rightarrow> (Inl st, fl1)
               | (st, Some a) \<Rightarrow>
                   (let size_bits = freel_get_freelist_entry_maxspan env;
                        fl2 = (if i = 1 then fl1\<lparr>fl_header := (fl_header fl1)\<lparr>fp_overflow := a\<rparr>\<rparr>
                               else set_page prev ((fl_pages fl1 prev)\<lparr>fp_overflow := a\<rparr>) fl1);
                        fl3 = set_page a \<lparr>fp_start_address = fe_start_address (fl_entries fl2 ! i), fp_overflow = 0,
                                fp_max_bits = size_bits, fp_allocated_bits = 0,
                                fp_bitmap = replicate (size_bits div 8) 0\<rparr> fl2;
                        fl4 = set_entry i ((fl_entries fl3 ! i)\<lparr>fe_page_id := a\<rparr>) (set_dirty a fl3)
                    in if en_get_filesize env fl4 \<noteq> HAM_SUCCESS then (Inl (en_get_filesize env fl4), fl4)
                       else (Inr a, fl4))))"

text \<open>
  The loop over the table from entry \<open>i\<close> to the entry asked for, \<open>n\<close> entries on; \<open>page\<close> is the
  page allocated last.
\<close>

fun alloc_page_loop :: "freel_env \<Rightarrow> nat \<Rightarrow> nat \<Rightarrow> nat option \<Rightarrow> freelist \<Rightarrow> (ham_status \<times> nat option) \<times> freelist" where
  "alloc_page_loop env i n page fl =
     (case (if fe_page_id (fl_entries fl ! i) = 0
            then (case link_new_page env i fl of (r, fl') \<Rightarrow> (map_sum id Some r, fl'))
            else (Inr page, fl)) of
        (Inl st, fl') \<Rightarrow> ((st, None), fl')
      | (Inr page', fl') \<Rightarrow>
          (case n of 0 \<Rightarrow> ((HAM_SUCCESS, page'), fl')
           | Suc m \<Rightarrow> alloc_page_loop env (Suc i) m page' fl'))"

declare alloc_page_loop.simps [simp del]

definition freel_alloc_page_entry :: "freel_env \<Rightarrow> nat \<Rightarrow> freelist \<Rightarrow> (ham_status \<times> nat option) \<times> freelist" where
  "freel_alloc_page_entry env idx fl = alloc_page_loop env 1 (idx - 1) None fl"

subsection \<open>Freeing an area\<close>

text \<open>
  The payload of an entry: the header page for the first entry, a newly allocated page for an
  entry without a page, otherwise the fetched page. \<open>None\<close> stands for the header page.
\<close>

definition payload_for_update :: "freel_env \<Rightarrow> nat \<Rightarrow> freelist \<Rightarrow> (ham_status + nat option) \<times> freelist" where
  "payload_for_update env i fl =
     (let e = fl_entries fl ! i
      in if fe_page_id e = 0 then
           (if fe_start_address e = en_pagesize env then (Inr None, fl)
            else (case freel_alloc_page_entry env i fl of
                    ((st, None), fl') \<Rightarrow> (Inl (no_page st), fl')
                  | ((st, Some a), fl') \<Rightarrow> (Inr (Some a), fl')))
         else (case en_fetch_page env (fe_page_id e) of
                 (st, False) \<Rightarrow> (Inl (no_page st), fl)
               | (st, True) \<Rightarrow> (Inr (Some (fe_page_id e)), fl)))"

definition payload_at :: "nat option \<Rightarrow> freelist \<Rightarrow> freelist_payload" where
  "payload_at page fl = (case page of None \<Rightarrow> fl_header fl | Some a \<Rightarrow> fl_pages fl a)"

definition set_payload :: "nat option \<Rightarrow> freelist_payload \<Rightarrow> freelist \<Rightarrow> freelist" where
  "set_payload page fp fl = (case page of None \<Rightarrow> fl\<lparr>fl_header := fp\<rparr> | Some a \<Rightarrow> set_page a fp fl)"

text \<open>Setting the bits of an area in one payload, with the counters; returns the number of chunks.\<close>

definition mark_free_in :: "nat \<Rightarrow> nat option \<Rightarrow> nat \<Rightarrow> nat \<Rightarrow> freelist \<Rightarrow> nat \<times> freelist" where
  "mark_free_in i page address sz fl =
     (let fp = payload_at page fl;
          r = freel_set_bits (fp_max_bits fp) ((address - fp_start_address fp) mod 2 ^ 32 div DB_CHUNKSIZE) (sz div DB_CHUNKSIZE) True (fp_bitmap fp);
          s = fst r;
          fp' = fp\<lparr>fp_bitmap := snd r, fp_allocated_bits := (fp_allocated_bits fp + s) mod 2 ^ 32\<rparr>;
          fl1 = set_payload page fp' fl;
          fl2 = set_entry i ((fl_entries fl1 ! i)\<lparr>fe_allocated_bits := fp_allocated_bits fp'\<rparr>) fl1
      in (s, set_dirty (case_option 0 id page) fl2))"

partial_function (option) freel_mark_free :: "freel_env \<Rightarrow> nat \<Rightarrow> nat \<Rightarrow> freelist \<Rightarrow> (ham_status \<times> freelist) option" where
  "freel_mark_free env address sz fl =
     (if sz = 0 then Some (HAM_SUCCESS, fl)
      else
        (case freel_cache_get_entry env address (fl_entries fl) 0 of
           None \<Rightarrow> None
         | Some (Inl st, es) \<Rightarrow> Some (st, fl\<lparr>fl_entries := es\<rparr>)
         | Some (Inr i, es) \<Rightarrow>
             (case payload_for_update env i (fl\<lparr>fl_entries := es\<rparr>) of
                (Inl st, fl1) \<Rightarrow> Some (st, fl1)
              | (Inr page, fl1) \<Rightarrow>
                  (let r = mark_free_in i page address sz fl1; s = fst r
                   in freel_mark_free env (address + chunk_bytes s) (sz - chunk_bytes s) (snd r)))))"

section \<open>The table covers the file\<close>

definition entry_end :: "freelist_entry \<Rightarrow> nat" where
  "entry_end e = fe_start_address e + chunk_bytes (fe_max_bits e)"

definition table_ok :: "freel_env \<Rightarrow> freelist_entry list \<Rightarrow> bool" where
  "table_ok env es \<longleftrightarrow> es \<noteq> [] \<and> fe_start_address (es ! 0) = en_pagesize env \<and> fe_page_id (es ! 0) = 0 \<and>
     0 < fe_max_bits (es ! 0) \<and> (\<forall>i < length es. fe_max_bits (es ! i) < 2 ^ 27) \<and>
     (\<forall>i. Suc i < length es \<longrightarrow> fe_start_address (es ! Suc i) = entry_end (es ! i) \<and>
        fe_max_bits (es ! Suc i) = freel_get_freelist_entry_maxspan env)"

definition span_ok :: "freel_env \<Rightarrow> bool" where
  "span_ok env \<longleftrightarrow> DB_CHUNKSIZE dvd en_pagesize env \<and>
     0 < freel_get_freelist_entry_maxspan env \<and> freel_get_freelist_entry_maxspan env < 2 ^ 27"

text \<open>At \<open>2^27\<close> chunks the product is 0 and the entry covers no address, so the search for an entry never ends.\<close>

lemma covers_wraps: "fe_max_bits e = 2 ^ 27 \<Longrightarrow> \<not> covers e address"
  by (simp add: covers_def chunk_bytes_def DB_CHUNKSIZE_def)

lemma maxspan_dvd: "8 dvd freel_get_freelist_entry_maxspan env"
  by (simp add: freel_get_freelist_entry_maxspan_def Let_def dvd_mod)

lemma covers_iff: "covers e a \<longleftrightarrow> fe_start_address e \<le> a \<and> a < entry_end e"
  by (simp add: covers_def entry_end_def)

lemma table_start: "table_ok env es \<Longrightarrow> i < length es \<Longrightarrow>
    DB_CHUNKSIZE dvd en_pagesize env \<Longrightarrow> DB_CHUNKSIZE dvd fe_start_address (es ! i)"
  by (induction i) (auto simp: table_ok_def entry_end_def chunk_bytes_simps(3))

lemma table_end: "table_ok env es \<Longrightarrow> i < length es \<Longrightarrow> entry_end (es ! i) = fe_start_address (es ! i) + fe_max_bits (es ! i) * DB_CHUNKSIZE"
  by (simp add: table_ok_def entry_end_def chunk_bytes_simps(1))

lemma table_max_pos: "table_ok env es \<Longrightarrow> span_ok env \<Longrightarrow> i < length es \<Longrightarrow> 0 < fe_max_bits (es ! i)"
  by (cases i) (auto simp: table_ok_def span_ok_def)

lemma table_ordered: "table_ok env es \<Longrightarrow> i < j \<Longrightarrow> j < length es \<Longrightarrow> entry_end (es ! i) \<le> fe_start_address (es ! j)"
proof (induction j)
  case (Suc j)
  then have "fe_start_address (es ! Suc j) = entry_end (es ! j)" by (auto simp: table_ok_def)
  moreover have "entry_end (es ! i) \<le> fe_start_address (es ! j)" if "i \<noteq> j" using Suc that by auto
  ultimately show ?case using Suc.prems by (cases "i = j") (auto simp: entry_end_def)
qed simp

lemma table_cover_unique:
  assumes "table_ok env es" "i < length es" "j < length es" "covers (es ! i) a" "covers (es ! j) a"
  shows "i = j"
  using table_ordered [OF assms(1), of i j] table_ordered [OF assms(1), of j i] assms(2-)
  by (auto simp: covers_iff intro: linorder_cases [of i j])

lemma table_covers:
  assumes "table_ok env es" "en_pagesize env \<le> a" "j < length es" "a < entry_end (es ! j)"
  shows "\<exists>k \<le> j. covers (es ! k) a"
  using assms(3,4)
proof (induction j)
  case 0
  then show ?case using assms(1,2) by (auto simp: covers_iff table_ok_def)
next
  case (Suc j)
  show ?case
  proof (cases "a < entry_end (es ! j)")
    case True
    then show ?thesis using Suc by (auto intro: le_SucI)
  next
    case False
    then have "covers (es ! Suc j) a" using Suc.prems assms(1) by (auto simp: covers_iff table_ok_def)
    then show ?thesis by blast
  qed
qed

lemma table_ok_snoc:
  assumes "table_ok env es" "span_ok env"
  shows "table_ok env (es @ [new_entry (freel_get_freelist_entry_maxspan env) (last es)])"
proof -
  have "length es - Suc 0 = i" if "Suc i = length es" for i using that by linarith
  with assms show ?thesis
    by (auto simp: table_ok_def nth_append new_entry_def entry_end_def span_ok_def last_conv_nth less_Suc_eq)
qed

lemma append_entries_effect:
  assumes "table_ok env es" "span_ok env" and "m = freel_get_freelist_entry_maxspan env"
  shows "\<exists>ns. append_entries m n es = es @ ns \<and> length ns = n \<and> table_ok env (es @ ns) \<and>
    (\<forall>e \<in> set ns. fe_page_id e = 0) \<and> entry_end (last (es @ ns)) = entry_end (last es) + n * m * DB_CHUNKSIZE"
  using assms
proof (induction n arbitrary: es)
  case (Suc n)
  let ?e = "new_entry m (last es)"
  have m: "chunk_bytes m = m * DB_CHUNKSIZE" using Suc.prems(2,3) by (simp add: span_ok_def chunk_bytes_simps(1))
  from Suc.IH [of "es @ [?e]"] table_ok_snoc [OF Suc.prems(1,2)] Suc.prems(2,3)
  obtain ns where "append_entries m n (es @ [?e]) = (es @ [?e]) @ ns" "length ns = n" "table_ok env ((es @ [?e]) @ ns)"
    "\<forall>e \<in> set ns. fe_page_id e = 0"
    "entry_end (last ((es @ [?e]) @ ns)) = entry_end (last (es @ [?e])) + n * m * DB_CHUNKSIZE" by blast
  then show ?case
    by (intro exI [of _ "?e # ns"]) (auto simp: new_entry_def entry_end_def m algebra_simps)
qed simp

text \<open>One growth is enough: the estimate reaches past the address as long as it fits in 32 bits.\<close>

lemma entries_to_add_enough:
  assumes "entry_end e \<le> address" "address \<le> fe_start_address e + fe_max_bits e + (2 ^ 32 - 32)"
    and "0 < m" "m < 2 ^ 27" "0 < fe_max_bits e" "fe_max_bits e < 2 ^ 27"
  shows "address < entry_end e + entries_to_add m e address * m * DB_CHUNKSIZE"
proof -
  define x where "x = address - fe_start_address e - fe_max_bits e"
  have en: "entry_end e = fe_start_address e + fe_max_bits e * 32"
    using assms(6) by (simp add: entry_end_def chunk_bytes_simps(1) DB_CHUNKSIZE_def)
  have x: "x \<le> 2 ^ 32 - 32" "address = x + fe_start_address e + fe_max_bits e"
    using assms(1,2) en by (auto simp: x_def)
  define y where "y = (x + 31) div 32"
  have y: "x \<le> 32 * y" "y < 2 ^ 27" unfolding y_def using x(1) by auto
  have "entries_to_add m e address = (y + (m - 1)) div m"
    unfolding entries_to_add_def Let_def x_def [symmetric] DB_CHUNKSIZE_def
    using x(1) y(2) assms(3,4) by (simp add: y_def)
  moreover have "y \<le> (y + (m - 1)) div m * m"
    using assms(3) div_mult_mod_eq [of "y + (m - 1)" m] mod_less_divisor [of m "y + (m - 1)"] by linarith
  ultimately have "32 * y \<le> entries_to_add m e address * m * 32" by simp
  then show ?thesis using x(2) y(1) assms(5) en by (auto simp: DB_CHUNKSIZE_def)
qed

definition within_reach :: "freelist_entry list \<Rightarrow> nat \<Rightarrow> bool" where
  "within_reach es a \<longleftrightarrow> a \<le> fe_start_address (last es) + fe_max_bits (last es) + (2 ^ 32 - 32)"

lemma find_upt_Some: "k \<in> {i..<n} \<Longrightarrow> P k \<Longrightarrow> \<exists>k'. find P [i..<n] = Some k' \<and> P k' \<and> k' < n"
  by (cases "find P [i..<n]") (auto dest: find_SomeD find_NoneD)

lemma freel_cache_get_entry_finds:
  assumes "table_ok env es" "span_ok env" "en_pagesize env \<le> address" "within_reach es address"
    and "\<And>n. en_table_alloc env n"
  shows "\<exists>k ns. freel_cache_get_entry env address es 0 = Some (Inr k, es @ ns) \<and> k < length (es @ ns) \<and>
    covers ((es @ ns) ! k) address \<and> table_ok env (es @ ns) \<and> (\<forall>e \<in> set ns. fe_page_id e = 0)"
proof (cases "find (\<lambda>k. covers (es ! k) address) [0..<length es]")
  case (Some k)
  then show ?thesis using find_SomeD [OF Some] assms(1)
    by (intro exI [of _ k] exI [of _ "[]"]) (simp add: freel_cache_get_entry.simps [of _ _ es])
next
  case None
  let ?m = "freel_get_freelist_entry_maxspan env"
  let ?n = "entries_to_add ?m (last es) address"
  have ne: "es \<noteq> []" using assms(1) by (auto simp: table_ok_def)
  have nc: "\<not> covers (es ! k) address" if "k < length es" for k using find_NoneD [OF None] that by auto
  have "entry_end (last es) \<le> address"
  proof (rule ccontr)
    assume "\<not> entry_end (last es) \<le> address"
    then obtain k where "k \<le> length es - 1" "covers (es ! k) address"
      using table_covers [OF assms(1,3), of "length es - 1"] ne by (auto simp: last_conv_nth)
    then show False using nc [of k] ne by (cases es) auto
  qed
  moreover have "0 < fe_max_bits (last es)" "fe_max_bits (last es) < 2 ^ 27"
    using table_max_pos [OF assms(1,2), of "length es - 1"] assms(1) ne by (simp_all add: last_conv_nth table_ok_def)
  ultimately have r: "address < entry_end (last es) + ?n * ?m * DB_CHUNKSIZE"
    using entries_to_add_enough assms(2,4) by (simp add: span_ok_def within_reach_def)
  from append_entries_effect [OF assms(1,2) refl, of ?n] obtain ns where
    ns: "append_entries ?m ?n es = es @ ns" "table_ok env (es @ ns)" "\<forall>e \<in> set ns. fe_page_id e = 0"
      "entry_end (last (es @ ns)) = entry_end (last es) + ?n * ?m * DB_CHUNKSIZE" by blast
  from table_covers [OF ns(2) assms(3), of "length (es @ ns) - 1"] r ns(4) ne
  obtain k where k: "k < length (es @ ns)" "covers ((es @ ns) ! k) address"
    by (auto simp: last_conv_nth simp del: length_append) (metis diff_Suc_less le_less_trans length_greater_0_conv length_append append_is_Nil_conv)
  have "length es \<le> k" using nc [of k] k(2) by (cases "k < length es") (auto simp: nth_append)
  with k obtain k' where k': "find (\<lambda>k. covers ((es @ ns) ! k) address) [length es..<length (es @ ns)] = Some k'"
    "covers ((es @ ns) ! k') address" "k' < length (es @ ns)"
    using find_upt_Some [of k "length es" "length (es @ ns)" "\<lambda>k. covers ((es @ ns) ! k) address"] by auto
  have "freel_cache_get_entry env address es 0 = freel_cache_get_entry env address (es @ ns) (length es)"
    using None ns(1) assms(5) by (subst freel_cache_get_entry.simps) (simp add: Let_def freel_cache_resize_def)
  also have "\<dots> = Some (Inr k', es @ ns)" using k'(1) by (subst freel_cache_get_entry.simps) simp
  finally show ?thesis using k' ns by blast
qed

section \<open>Freeing an area\<close>

definition page_of :: "freelist \<Rightarrow> nat \<Rightarrow> nat option" where
  "page_of fl i = (if i = 0 then None else Some (fe_page_id (fl_entries fl ! i)))"

definition has_payload :: "freelist \<Rightarrow> nat \<Rightarrow> bool" where
  "has_payload fl i \<longleftrightarrow> i < length (fl_entries fl) \<and> (i = 0 \<or> fe_page_id (fl_entries fl ! i) \<noteq> 0)"

abbreviation payload :: "freelist \<Rightarrow> nat \<Rightarrow> freelist_payload" where
  "payload fl i \<equiv> payload_at (page_of fl i) fl"

definition payload_ok :: "freelist_entry \<Rightarrow> freelist_payload \<Rightarrow> bool" where
  "payload_ok e fp \<longleftrightarrow> fp_start_address fp = fe_start_address e \<and> fp_max_bits fp = fe_max_bits e \<and>
     fp_max_bits fp \<le> 8 * length (fp_bitmap fp)"

text \<open>
  The invariant: the entries follow one another, every entry with a page agrees with it, no
  two share one, and the pages form a chain from the header page in the order of the table.
\<close>

definition freel_inv :: "freel_env \<Rightarrow> freelist \<Rightarrow> bool" where
  "freel_inv env fl \<longleftrightarrow> table_ok env (fl_entries fl) \<and>
     (\<forall>i. has_payload fl i \<longrightarrow> payload_ok (fl_entries fl ! i) (payload fl i)) \<and>
     (\<forall>i j. has_payload fl i \<longrightarrow> has_payload fl j \<longrightarrow> page_of fl i = page_of fl j \<longrightarrow> i = j) \<and>
     (\<forall>i. has_payload fl (Suc i) \<longrightarrow> has_payload fl i \<and> Some (fp_overflow (payload fl i)) = page_of fl (Suc i))"

text \<open>The chunk at the address \<open>32 * c\<close> is free.\<close>

definition free_in_entry :: "freelist \<Rightarrow> nat \<Rightarrow> nat \<Rightarrow> bool" where
  "free_in_entry fl i c \<longleftrightarrow> covers (fl_entries fl ! i) (DB_CHUNKSIZE * c) \<and>
     chunk_free (fp_bitmap (payload fl i)) ((DB_CHUNKSIZE * c - fe_start_address (fl_entries fl ! i)) div DB_CHUNKSIZE)"

definition free_chunk :: "freelist \<Rightarrow> nat \<Rightarrow> bool" where
  "free_chunk fl c \<longleftrightarrow> (\<exists>i. has_payload fl i \<and> free_in_entry fl i c)"

text \<open>An environment in which nothing fails and new pages are new.\<close>

definition env_provides :: "freel_env \<Rightarrow> bool" where
  "env_provides env \<longleftrightarrow> (\<forall>n. en_table_alloc env n) \<and> (\<forall>a. en_fetch_page env a = (HAM_SUCCESS, True)) \<and>
     (\<forall>fl. en_get_filesize env fl = HAM_SUCCESS) \<and>
     (\<forall>fl. \<exists>a. en_alloc_page env fl = (HAM_SUCCESS, Some a) \<and> a \<noteq> 0 \<and> a \<notin> fe_page_id ` set (fl_entries fl))"

subsection \<open>Growing the table\<close>

lemma grown_simps:
  assumes "\<forall>e \<in> set ns. fe_page_id e = 0" and "fl_entries fl \<noteq> []"
  shows "has_payload (fl\<lparr>fl_entries := fl_entries fl @ ns\<rparr>) i = has_payload fl i"
    and "has_payload fl i \<Longrightarrow> page_of (fl\<lparr>fl_entries := fl_entries fl @ ns\<rparr>) i = page_of fl i"
    and "has_payload fl i \<Longrightarrow> (fl_entries fl @ ns) ! i = fl_entries fl ! i"
  using assms by (auto simp: has_payload_def page_of_def nth_append intro: gr0I)

lemma payload_at_entries [simp]: "payload_at p (fl\<lparr>fl_entries := es\<rparr>) = payload_at p fl"
  by (simp add: payload_at_def split: option.split)

lemma freel_inv_grow:
  assumes "freel_inv env fl" "\<forall>e \<in> set ns. fe_page_id e = 0" "table_ok env (fl_entries fl @ ns)"
  shows "freel_inv env (fl\<lparr>fl_entries := fl_entries fl @ ns\<rparr>) \<and>
    free_chunk (fl\<lparr>fl_entries := fl_entries fl @ ns\<rparr>) = free_chunk fl"
proof -
  have ne: "fl_entries fl \<noteq> []" using assms(1) by (auto simp: freel_inv_def table_ok_def)
  have "has_payload fl (Suc i) \<Longrightarrow> has_payload fl i" for i using assms(1) by (auto simp: freel_inv_def)
  with assms grown_simps [OF assms(2) ne] show ?thesis
    unfolding freel_inv_def free_chunk_def free_in_entry_def fun_eq_iff by (simp cong: conj_cong)
qed

subsection \<open>Setting bits in one payload\<close>

lemma payload_at_set_payload: "payload_at p (set_payload q fp fl) = (if p = q then fp else payload_at p fl)"
  by (auto simp: payload_at_def set_payload_def set_page_def split: option.splits)

lemma set_payload_entries [simp]: "fl_entries (set_payload q fp fl) = fl_entries fl"
  "fl_entries (set_dirty a fl) = fl_entries fl" "fl_entries (set_page b fp fl) = fl_entries fl"
  "fl_entries (set_entry i e fl) = (fl_entries fl)[i := e]"
  "payload_at p (set_dirty a fl) = payload_at p fl" "payload_at p (set_entry i e fl) = payload_at p fl"
  by (auto simp: set_payload_def set_page_def set_dirty_def set_entry_def payload_at_def split: option.split)

lemma chunk_offset:
  assumes "DB_CHUNKSIZE dvd start" "DB_CHUNKSIZE dvd address" "start \<le> address" "start \<le> DB_CHUNKSIZE * c"
  shows "(address - start) div DB_CHUNKSIZE \<le> (DB_CHUNKSIZE * c - start) div DB_CHUNKSIZE \<longleftrightarrow> address div DB_CHUNKSIZE \<le> c"
    and "(DB_CHUNKSIZE * c - start) div DB_CHUNKSIZE < (address - start) div DB_CHUNKSIZE + n \<longleftrightarrow> c < address div DB_CHUNKSIZE + n"
  using assms by (auto elim!: dvdE simp: DB_CHUNKSIZE_def diff_mult_distrib2 [symmetric])

text \<open>
  Two freelists with the same table, up to the counters, whose payloads agree but for the one
  of entry \<open>i\<close>.
\<close>

definition same_shape :: "freelist \<Rightarrow> freelist \<Rightarrow> bool" where
  "same_shape fl fl' \<longleftrightarrow> length (fl_entries fl') = length (fl_entries fl) \<and>
     (\<forall>k < length (fl_entries fl). fe_start_address (fl_entries fl' ! k) = fe_start_address (fl_entries fl ! k) \<and>
        fe_max_bits (fl_entries fl' ! k) = fe_max_bits (fl_entries fl ! k))"

lemma same_shape_refl [simp]: "same_shape fl fl" by (simp add: same_shape_def)

lemma same_shape_trans: "same_shape a b \<Longrightarrow> same_shape b c \<Longrightarrow> same_shape a c" by (simp add: same_shape_def)

lemma same_shape_last:
  "same_shape fl fl' \<Longrightarrow> fl_entries fl \<noteq> [] \<Longrightarrow> within_reach (fl_entries fl') a = within_reach (fl_entries fl) a"
  by (cases "fl_entries fl' = []") (auto simp: same_shape_def within_reach_def last_conv_nth)

lemma same_shape_covers:
  "same_shape fl fl' \<Longrightarrow> i < length (fl_entries fl) \<Longrightarrow> covers (fl_entries fl' ! i) = covers (fl_entries fl ! i)"
  by (simp add: same_shape_def covers_def fun_eq_iff)

lemma same_shape_table_ok:
  "same_shape fl fl' \<Longrightarrow> table_ok env (fl_entries fl) \<Longrightarrow> fe_page_id (fl_entries fl' ! 0) = 0 \<Longrightarrow> table_ok env (fl_entries fl')"
  by (auto simp: same_shape_def table_ok_def entry_end_def)

definition updated_at :: "nat \<Rightarrow> freelist_payload \<Rightarrow> freelist \<Rightarrow> freelist \<Rightarrow> bool" where
  "updated_at i fp fl fl' \<longleftrightarrow> same_shape fl fl' \<and>
     (\<forall>k < length (fl_entries fl). fe_page_id (fl_entries fl' ! k) = fe_page_id (fl_entries fl ! k)) \<and>
     (\<forall>j. has_payload fl j \<longrightarrow> payload fl' j = (if j = i then fp else payload fl j))"

lemma updated_at_pages:
  assumes "updated_at i fp fl fl'"
  shows "has_payload fl' j = has_payload fl j" and "has_payload fl j \<Longrightarrow> page_of fl' j = page_of fl j"
    and "has_payload fl j \<Longrightarrow> covers (fl_entries fl' ! j) = covers (fl_entries fl ! j)"
    and "has_payload fl j \<Longrightarrow> fe_start_address (fl_entries fl' ! j) = fe_start_address (fl_entries fl ! j)"
    and "has_payload fl j \<Longrightarrow> payload_ok (fl_entries fl' ! j) = payload_ok (fl_entries fl ! j)"
    and "has_payload fl j \<Longrightarrow> payload_at (page_of fl j) fl' = (if j = i then fp else payload fl j)"
proof -
  have p: "page_of fl' j = page_of fl j" if "has_payload fl j" for j
    using assms that by (auto simp: updated_at_def has_payload_def page_of_def)
  show "has_payload fl j \<Longrightarrow> page_of fl' j = page_of fl j" by (rule p)
  show "has_payload fl j \<Longrightarrow> payload_at (page_of fl j) fl' = (if j = i then fp else payload fl j)"
    using assms p [of j] unfolding updated_at_def by metis
qed (use assms in \<open>auto simp: updated_at_def same_shape_def has_payload_def covers_def payload_ok_def fun_eq_iff\<close>)

lemma updated_at_inv:
  assumes inv: "freel_inv env fl" and u: "updated_at i fp fl fl'"
    and ok: "payload_ok (fl_entries fl ! i) fp" "fp_overflow fp = fp_overflow (payload fl i)"
  shows "freel_inv env fl'"
proof -
  note sim = updated_at_pages [OF u]
  have tab: "table_ok env (fl_entries fl)" using inv by (simp add: freel_inv_def)
  then have "0 < length (fl_entries fl)" "fe_page_id (fl_entries fl ! 0) = 0" by (simp_all add: table_ok_def)
  then have "fe_page_id (fl_entries fl' ! 0) = 0" "same_shape fl fl'" using u by (simp_all add: updated_at_def)
  then have "table_ok env (fl_entries fl')" using same_shape_table_ok tab by blast
  moreover have "payload_ok (fl_entries fl' ! j) (payload fl' j)" if "has_payload fl j" for j
    using that inv ok by (simp add: sim freel_inv_def)
  moreover have "j = k" if "has_payload fl j" "has_payload fl k" "page_of fl' j = page_of fl' k" for j k
    using that inv by (simp add: sim freel_inv_def)
  moreover have "has_payload fl j \<and> Some (fp_overflow (payload fl' j)) = page_of fl' (Suc j)" if "has_payload fl (Suc j)" for j
  proof -
    have "has_payload fl j" "Some (fp_overflow (payload fl j)) = page_of fl (Suc j)"
      using that inv by (simp_all add: freel_inv_def)
    then show ?thesis using that ok(2) by (cases "j = i") (simp_all add: sim)
  qed
  ultimately show ?thesis unfolding freel_inv_def sim(1) by blast
qed

lemma mark_free_in_updates:
  assumes inv: "freel_inv env fl" and i: "has_payload fl i" and b: "b = (address - fp_start_address (payload fl i)) mod 2 ^ 32 div DB_CHUNKSIZE"
    and r: "freel_set_bits (fp_max_bits (payload fl i)) b (sz div DB_CHUNKSIZE) True (fp_bitmap (payload fl i)) = (s, p)"
  shows "\<exists>fp' fl'. mark_free_in i (page_of fl i) address sz fl = (s, fl') \<and> updated_at i fp' fl fl' \<and> fp_bitmap fp' = p \<and>
    fp_start_address fp' = fp_start_address (payload fl i) \<and> fp_max_bits fp' = fp_max_bits (payload fl i) \<and>
    fp_overflow fp' = fp_overflow (payload fl i)"
proof -
  define fp' where "fp' = (payload fl i)\<lparr>fp_bitmap := p, fp_allocated_bits := (fp_allocated_bits (payload fl i) + s) mod 2 ^ 32\<rparr>"
  define fl' where "fl' = set_dirty (case_option 0 id (page_of fl i)) (set_entry i ((fl_entries fl ! i)\<lparr>fe_allocated_bits := fp_allocated_bits fp'\<rparr>) (set_payload (page_of fl i) fp' fl))"
  have "mark_free_in i (page_of fl i) address sz fl = (s, fl')"
    using r b by (simp add: mark_free_in_def Let_def fl'_def fp'_def)
  moreover have "page_of fl' k = page_of fl k" if "k < length (fl_entries fl)" for k
    using that by (cases "k = i") (auto simp: fl'_def page_of_def)
  moreover have "page_of fl j = page_of fl i \<Longrightarrow> has_payload fl j \<Longrightarrow> j = i" for j
    using inv i by (auto simp: freel_inv_def)
  moreover have "payload_at q fl' = (if q = page_of fl i then fp' else payload_at q fl)" for q
    by (simp add: fl'_def payload_at_set_payload)
  moreover have "fe_start_address (fl_entries fl' ! k) = fe_start_address (fl_entries fl ! k) \<and>
      fe_max_bits (fl_entries fl' ! k) = fe_max_bits (fl_entries fl ! k) \<and>
      fe_page_id (fl_entries fl' ! k) = fe_page_id (fl_entries fl ! k)" if "k < length (fl_entries fl)" for k
    using that by (cases "k = i") (simp_all add: fl'_def)
  ultimately have "updated_at i fp' fl fl'"
    by (auto simp: updated_at_def same_shape_def has_payload_def fl'_def)
  with \<open>mark_free_in i (page_of fl i) address sz fl = (s, fl')\<close> show ?thesis by (auto simp: fp'_def)
qed

lemma mark_free_in_effect:
  assumes inv: "freel_inv env fl" and i: "has_payload fl i" and c: "covers (fl_entries fl ! i) address"
    and al: "DB_CHUNKSIZE dvd en_pagesize env" "DB_CHUNKSIZE dvd address" "DB_CHUNKSIZE dvd sz" and sz: "0 < sz"
  shows "\<exists>s fl'. mark_free_in i (page_of fl i) address sz fl = (s, fl') \<and> 0 < s \<and> s * DB_CHUNKSIZE \<le> sz \<and> chunk_bytes s = s * DB_CHUNKSIZE \<and>
    freel_inv env fl' \<and> same_shape fl fl' \<and>
    (\<forall>c. free_chunk fl' c \<longleftrightarrow> free_chunk fl c \<or> address div DB_CHUNKSIZE \<le> c \<and> c < address div DB_CHUNKSIZE + s)"
proof -
  let ?e = "fl_entries fl ! i" and ?fp = "payload fl i"
  define b where "b = (address - fe_start_address ?e) div DB_CHUNKSIZE"
  define s where "s = (if b + sz div DB_CHUNKSIZE > fe_max_bits ?e then fe_max_bits ?e - b else sz div DB_CHUNKSIZE)"
  have tab: "table_ok env (fl_entries fl)" and ok: "payload_ok ?e ?fp" using inv i by (simp_all add: freel_inv_def)
  have start: "DB_CHUNKSIZE dvd fe_start_address ?e" using table_start [OF tab _ al(1)] i by (simp add: has_payload_def)
  have en: "entry_end ?e = fe_start_address ?e + fe_max_bits ?e * DB_CHUNKSIZE" using table_end [OF tab] i by (simp add: has_payload_def)
  have b: "b < fe_max_bits ?e" using c en by (auto simp: b_def covers_iff DB_CHUNKSIZE_def)
  have cut: "(address - fe_start_address ?e) mod 2 ^ 32 = address - fe_start_address ?e"
    using c chunk_bytes_simps(4) [of "fe_max_bits ?e"] by (auto simp: covers_def)
  have m27: "fe_max_bits ?e < 2 ^ 27" using tab i by (simp add: table_ok_def has_payload_def)
  have s: "0 < s" "s * DB_CHUNKSIZE \<le> sz" "b + s \<le> fe_max_bits ?e"
    using b sz al(3) by (auto simp: s_def DB_CHUNKSIZE_def elim!: dvdE)
  have "fe_max_bits ?e \<le> 8 * length (fp_bitmap ?fp)" using ok by (simp add: payload_ok_def)
  from freel_set_bits_effect [OF b this s_def, of True]
  obtain p where p: "freel_set_bits (fe_max_bits ?e) b (sz div DB_CHUNKSIZE) True (fp_bitmap ?fp) = (s, p)"
    "length p = length (fp_bitmap ?fp)"
    "\<And>k. chunk_free p k \<longleftrightarrow> b \<le> k \<and> k < b + s \<or> chunk_free (fp_bitmap ?fp) k" by metis
  from mark_free_in_updates [OF inv i, of b address sz s p] p(1) ok
  obtain fp' fl' where fl': "mark_free_in i (page_of fl i) address sz fl = (s, fl')" "updated_at i fp' fl fl'" "fp_bitmap fp' = p"
    "fp_start_address fp' = fp_start_address ?fp" "fp_max_bits fp' = fp_max_bits ?fp" "fp_overflow fp' = fp_overflow ?fp"
    using cut by (auto simp: payload_ok_def b_def)
  note sim = updated_at_pages [OF fl'(2)]
  have inv': "freel_inv env fl'"
    by (rule updated_at_inv [OF inv fl'(2)]) (use ok fl' p(2) in \<open>auto simp: payload_ok_def\<close>)
  have range: "covers ?e (DB_CHUNKSIZE * c) \<and> b \<le> (DB_CHUNKSIZE * c - fe_start_address ?e) div DB_CHUNKSIZE \<and>
      (DB_CHUNKSIZE * c - fe_start_address ?e) div DB_CHUNKSIZE < b + s \<longleftrightarrow>
      address div DB_CHUNKSIZE \<le> c \<and> c < address div DB_CHUNKSIZE + s" for c
  proof -
    obtain x y where "fe_start_address ?e = DB_CHUNKSIZE * x" "address = DB_CHUNKSIZE * y"
      using start al(2) by (auto elim!: dvdE)
    then show ?thesis using c s(3) b en by (auto simp: b_def covers_iff DB_CHUNKSIZE_def diff_mult_distrib2 [symmetric])
  qed
  have "free_chunk fl' d \<longleftrightarrow> free_chunk fl d \<or> address div DB_CHUNKSIZE \<le> d \<and> d < address div DB_CHUNKSIZE + s" for d
  proof -
    have other: "has_payload fl' j \<and> free_in_entry fl' j d \<longleftrightarrow> has_payload fl j \<and> free_in_entry fl j d" if "j \<noteq> i" for j
      using that by (auto simp: free_in_entry_def sim)
    have "has_payload fl' i \<and> free_in_entry fl' i d \<longleftrightarrow> free_in_entry fl i d \<or> address div DB_CHUNKSIZE \<le> d \<and> d < address div DB_CHUNKSIZE + s"
      using i fl'(3) p(3) range [of d] by (auto simp: free_in_entry_def sim)
    with other i show ?thesis unfolding free_chunk_def by metis
  qed
  moreover have "chunk_bytes s = s * DB_CHUNKSIZE" using s(3) m27 by (intro chunk_bytes_simps(1)) simp
  ultimately show ?thesis using fl' inv' s by (auto simp: updated_at_def)
qed

subsection \<open>Linking new pages\<close>

text \<open>
  Linking a page to the entry behind the last one with a page keeps the invariant and frees
  nothing, since the page is empty.
\<close>

lemma set_page_simps [simp]:
  "page_of (set_page a fp fl) i = page_of fl i" "page_of (set_dirty b fl) i = page_of fl i"
  "has_payload (set_page a fp fl) i = has_payload fl i" "has_payload (set_dirty b fl) i = has_payload fl i"
  "payload_at p (set_page a fp fl) = (if p = Some a then fp else payload_at p fl)"
  by (auto simp: page_of_def has_payload_def payload_at_def set_page_def set_dirty_def split: option.splits)

definition fresh_payload :: "freel_env \<Rightarrow> freelist_entry \<Rightarrow> freelist_payload" where
  "fresh_payload env e =
     \<lparr>fp_start_address = fe_start_address e, fp_overflow = 0, fp_max_bits = freel_get_freelist_entry_maxspan env,
      fp_allocated_bits = 0, fp_bitmap = replicate (freel_get_freelist_entry_maxspan env div 8) 0\<rparr>"

lemma fresh_payload_taken:
  assumes "k < freel_get_freelist_entry_maxspan env"
  shows "\<not> chunk_free (fp_bitmap (fresh_payload env e)) k"
proof -
  have "k div 8 < freel_get_freelist_entry_maxspan env div 8"
    using assms maxspan_dvd [of env] by (auto elim!: dvdE)
  then show ?thesis by (simp add: fresh_payload_def chunk_free_def)
qed

lemma link_new_page_effect:
  assumes inv: "freel_inv env fl" and pr: "env_provides env"
    and i: "Suc j < length (fl_entries fl)" "has_payload fl j" "fe_page_id (fl_entries fl ! Suc j) = 0"
  shows "\<exists>a fl'. link_new_page env (Suc j) fl = (Inr a, fl') \<and> a \<noteq> 0 \<and> a \<notin> fe_page_id ` set (fl_entries fl) \<and>
    fl_entries fl' = (fl_entries fl)[Suc j := (fl_entries fl ! Suc j)\<lparr>fe_page_id := a\<rparr>] \<and>
    (\<forall>k. has_payload fl k \<longrightarrow> payload_at (page_of fl k) fl' =
       (if k = j then (payload fl j)\<lparr>fp_overflow := a\<rparr> else payload fl k)) \<and>
    payload_at (Some a) fl' = fresh_payload env (fl_entries fl ! Suc j)"
proof -
  let ?prev = "fe_page_id (fl_entries fl ! j)"
  define fl1 where "fl1 = set_dirty (if j = 0 then 0 else ?prev) fl"
  obtain a where a: "en_alloc_page env fl1 = (HAM_SUCCESS, Some a)" "a \<noteq> 0" "a \<notin> fe_page_id ` set (fl_entries fl)"
  proof -
    have "fl_entries fl1 = fl_entries fl" by (simp add: fl1_def)
    then show ?thesis using pr that unfolding env_provides_def by metis
  qed
  define fl2 where "fl2 = set_payload (page_of fl j) ((payload fl j)\<lparr>fp_overflow := a\<rparr>) fl1"
  define fl4 where "fl4 = set_entry (Suc j) ((fl_entries fl ! Suc j)\<lparr>fe_page_id := a\<rparr>)
    (set_dirty a (set_page a (fresh_payload env (fl_entries fl ! Suc j)) fl2))"
  have fl2: "(if Suc j = 1 then fl1\<lparr>fl_header := (fl_header fl1)\<lparr>fp_overflow := a\<rparr>\<rparr>
      else set_page ?prev ((fl_pages fl1 ?prev)\<lparr>fp_overflow := a\<rparr>) fl1) = fl2"
    by (auto simp: fl2_def fl1_def set_payload_def page_of_def payload_at_def set_dirty_def)
  have f: "en_fetch_page env b = (HAM_SUCCESS, True)" "en_get_filesize env x = HAM_SUCCESS" for b x
    using pr by (simp_all add: env_provides_def)
  have "link_new_page env (Suc j) fl = (Inr a, fl4)"
    unfolding link_new_page_def Let_def diff_Suc_1 f using fl2 a(1)
    by (auto simp: fl1_def [symmetric] fl4_def fresh_payload_def f)
      (simp_all add: fl2_def fl1_def)
  moreover have "page_of fl k \<noteq> Some a" if "has_payload fl k" for k
    using a(2,3) that by (auto simp: page_of_def has_payload_def)
  moreover have "page_of fl k = page_of fl j \<Longrightarrow> has_payload fl k \<Longrightarrow> k = j" for k
    using inv i(2) by (auto simp: freel_inv_def)
  moreover have "fl_entries fl4 = (fl_entries fl)[Suc j := (fl_entries fl ! Suc j)\<lparr>fe_page_id := a\<rparr>]"
    by (simp add: fl4_def fl2_def fl1_def)
  moreover have "payload_at q fl4 = (if q = Some a then fresh_payload env (fl_entries fl ! Suc j)
      else if q = page_of fl j then (payload fl j)\<lparr>fp_overflow := a\<rparr> else payload_at q fl)" for q
    by (simp add: fl4_def fl2_def fl1_def payload_at_set_payload)
  ultimately show ?thesis using a(2,3) by (intro exI [of _ a] exI [of _ fl4]) auto
qed

lemma link_new_page_inv:
  assumes inv: "freel_inv env fl" and pr: "env_provides env"
    and i: "Suc j < length (fl_entries fl)" "has_payload fl j" "fe_page_id (fl_entries fl ! Suc j) = 0"
  shows "\<exists>a fl'. link_new_page env (Suc j) fl = (Inr a, fl') \<and> page_of fl' (Suc j) = Some a \<and> has_payload fl' (Suc j) \<and>
    freel_inv env fl' \<and> same_shape fl fl' \<and> free_chunk fl' = free_chunk fl"
proof -
  let ?e = "fl_entries fl ! Suc j" and ?m = "freel_get_freelist_entry_maxspan env"
  from link_new_page_effect [OF assms] obtain a fl' where
    l: "link_new_page env (Suc j) fl = (Inr a, fl')" and a: "a \<noteq> 0" "a \<notin> fe_page_id ` set (fl_entries fl)" and
    es: "fl_entries fl' = (fl_entries fl)[Suc j := ?e\<lparr>fe_page_id := a\<rparr>]" and
    old: "\<And>k. has_payload fl k \<Longrightarrow> payload_at (page_of fl k) fl' = (if k = j then (payload fl j)\<lparr>fp_overflow := a\<rparr> else payload fl k)" and
    new: "payload_at (Some a) fl' = fresh_payload env ?e" by blast
  have tab: "table_ok env (fl_entries fl)" and chain: "has_payload fl (Suc k) \<Longrightarrow> has_payload fl k" for k
    using inv by (simp_all add: freel_inv_def)
  have shape: "same_shape fl fl'" using i(1) by (auto simp: same_shape_def es nth_list_update)
  have np: "\<not> has_payload fl (Suc j)" using i(3) by (simp add: has_payload_def)
  have hp: "has_payload fl' k \<longleftrightarrow> has_payload fl k \<or> k = Suc j" for k
    using i(1) a(1) by (auto simp: has_payload_def es nth_list_update)
  have po: "page_of fl' (Suc j) = Some a" "has_payload fl k \<Longrightarrow> page_of fl' k = page_of fl k" for k
    using i(1) np by (auto simp: page_of_def es nth_list_update)
  have fresh: "has_payload fl k \<Longrightarrow> page_of fl k \<noteq> Some a" for k
    using a by (auto simp: page_of_def has_payload_def)
  have en: "has_payload fl k \<Longrightarrow> fl_entries fl' ! k = fl_entries fl ! k" for k
    using np i(1) by (auto simp: es nth_list_update)
  have en': "fl_entries fl' ! Suc j = ?e\<lparr>fe_page_id := a\<rparr>" using i(1) by (simp add: es)
  have m: "fe_max_bits ?e = ?m" using tab i(1) by (simp add: table_ok_def)
  have "fe_page_id (fl_entries fl' ! 0) = 0" using tab by (simp add: es table_ok_def)
  then have "table_ok env (fl_entries fl')" using same_shape_table_ok [OF shape tab] by simp
  moreover have "payload_ok (fl_entries fl' ! k) (payload fl' k)" if "has_payload fl' k" for k
  proof (cases "k = Suc j")
    case True
    then show ?thesis using maxspan_dvd [of env] m by (simp add: po new en' payload_ok_def fresh_payload_def)
  next
    case False
    then show ?thesis using that inv hp by (auto simp: po old en payload_ok_def freel_inv_def)
  qed
  moreover have "k = k'" if "has_payload fl' k" "has_payload fl' k'" "page_of fl' k = page_of fl' k'" for k k'
    using that fresh [of k] fresh [of k'] po inv hp unfolding freel_inv_def by metis
  moreover have "has_payload fl' k \<and> Some (fp_overflow (payload fl' k)) = page_of fl' (Suc k)" if "has_payload fl' (Suc k)" for k
  proof (cases "k = j")
    case True
    then show ?thesis using i(2) by (simp add: hp po old)
  next
    case False
    with that hp have "has_payload fl (Suc k)" by simp
    moreover from this have "has_payload fl k" "Some (fp_overflow (payload fl k)) = page_of fl (Suc k)"
      using inv by (simp_all add: freel_inv_def)
    ultimately show ?thesis using False by (simp add: hp po old)
  qed
  ultimately have "freel_inv env fl'" by (simp add: freel_inv_def)
  moreover have "free_chunk fl' c \<longleftrightarrow> free_chunk fl c" for c
  proof -
    have "\<not> free_in_entry fl' (Suc j) c"
      using fresh_payload_taken [of "(DB_CHUNKSIZE * c - fe_start_address ?e) div DB_CHUNKSIZE" env ?e] m
        chunk_bytes_simps(2) [of ?m]
      by (auto simp: free_in_entry_def po new en' covers_def DB_CHUNKSIZE_def)
    moreover have "free_in_entry fl' k c = free_in_entry fl k c" if "has_payload fl k" for k
      using that by (auto simp: free_in_entry_def po old en)
    ultimately show ?thesis by (auto simp: free_chunk_def hp)
  qed
  ultimately show ?thesis using l po hp shape by (intro exI [of _ a] exI [of _ fl']) auto
qed

text \<open>The loop reaches the entry asked for and gives it a page.\<close>

lemma alloc_page_loop_inv:
  assumes "freel_inv env fl" "env_provides env" "has_payload fl j" "Suc j + n < length (fl_entries fl)"
    and "fe_page_id (fl_entries fl ! (Suc j + n)) = 0"
  shows "\<exists>a fl'. alloc_page_loop env (Suc j) n page fl = ((HAM_SUCCESS, Some a), fl') \<and> page_of fl' (Suc j + n) = Some a \<and>
    has_payload fl' (Suc j + n) \<and> freel_inv env fl' \<and> same_shape fl fl' \<and> free_chunk fl' = free_chunk fl"
  using assms
proof (induction n arbitrary: j page fl)
  case 0
  from link_new_page_inv [OF 0(1,2) _ 0(3)] 0(4,5)
  obtain a fl' where "link_new_page env (Suc j) fl = (Inr a, fl')" "page_of fl' (Suc j) = Some a" "has_payload fl' (Suc j)"
    "freel_inv env fl'" "same_shape fl fl'" "free_chunk fl' = free_chunk fl" by auto
  then show ?case using 0(5) by (subst alloc_page_loop.simps) simp
next
  case (Suc n)
  have "\<exists>page' fl1. (if fe_page_id (fl_entries fl ! Suc j) = 0
        then case link_new_page env (Suc j) fl of (r, fl') \<Rightarrow> (map_sum id Some r, fl') else (Inr page, fl)) = (Inr page', fl1) \<and>
      has_payload fl1 (Suc j) \<and> freel_inv env fl1 \<and> same_shape fl fl1 \<and> free_chunk fl1 = free_chunk fl \<and>
      fe_page_id (fl_entries fl1 ! (Suc (Suc j) + n)) = 0"
  proof (cases "fe_page_id (fl_entries fl ! Suc j) = 0")
    case True
    have "Suc j < length (fl_entries fl)" using Suc.prems(4) by simp
    from link_new_page_effect [OF Suc.prems(1,2) this Suc.prems(3) True] link_new_page_inv [OF Suc.prems(1,2) this Suc.prems(3) True]
    show ?thesis using True Suc.prems(5) by auto
  next
    case False
    then show ?thesis using Suc.prems by (simp add: has_payload_def)
  qed
  then obtain page' fl1 where one: "(if fe_page_id (fl_entries fl ! Suc j) = 0
        then case link_new_page env (Suc j) fl of (r, fl') \<Rightarrow> (map_sum id Some r, fl') else (Inr page, fl)) = (Inr page', fl1)"
    and fl1: "has_payload fl1 (Suc j)" "freel_inv env fl1" "same_shape fl fl1" "free_chunk fl1 = free_chunk fl"
      "fe_page_id (fl_entries fl1 ! (Suc (Suc j) + n)) = 0" by blast
  have "Suc (Suc j) + n < length (fl_entries fl1)" using Suc.prems(4) fl1(3) by (simp add: same_shape_def)
  from Suc.IH [OF fl1(2) Suc.prems(2) fl1(1) this fl1(5), of page'] obtain a fl' where
    "alloc_page_loop env (Suc (Suc j)) n page' fl1 = ((HAM_SUCCESS, Some a), fl')" "page_of fl' (Suc (Suc j) + n) = Some a"
    "has_payload fl' (Suc (Suc j) + n)" "freel_inv env fl'" "same_shape fl1 fl'" "free_chunk fl' = free_chunk fl1" by blast
  moreover have "alloc_page_loop env (Suc j) (Suc n) page fl = alloc_page_loop env (Suc (Suc j)) n page' fl1"
    by (subst alloc_page_loop.simps) (simp add: one del: alloc_page_loop.simps)
  ultimately show ?case using fl1(3,4) same_shape_trans by (intro exI [of _ a] exI [of _ fl']) auto
qed

lemma payload_for_update_inv:
  assumes inv: "freel_inv env fl" and pr: "env_provides env" "span_ok env" and i: "i < length (fl_entries fl)"
  shows "\<exists>page fl'. payload_for_update env i fl = (Inr page, fl') \<and> page = page_of fl' i \<and> has_payload fl' i \<and>
    freel_inv env fl' \<and> same_shape fl fl' \<and> free_chunk fl' = free_chunk fl"
proof (cases "fe_page_id (fl_entries fl ! i) = 0")
  case False
  then have "i \<noteq> 0" using inv by (cases i) (auto simp: freel_inv_def table_ok_def)
  then show ?thesis using False inv i pr(1)
    by (auto simp: payload_for_update_def Let_def env_provides_def page_of_def has_payload_def)
next
  case True
  have tab: "table_ok env (fl_entries fl)" using inv by (simp add: freel_inv_def)
  show ?thesis
  proof (cases i)
    case 0
    then show ?thesis using True tab inv i
      by (auto simp: payload_for_update_def Let_def page_of_def has_payload_def table_ok_def)
  next
    case (Suc n)
    have "entry_end (fl_entries fl ! 0) \<le> fe_start_address (fl_entries fl ! i)"
      using table_ordered [OF tab, of 0 i] Suc i by simp
    then have "fe_start_address (fl_entries fl ! i) \<noteq> en_pagesize env"
      using tab table_end [OF tab, of 0] i by (auto simp: table_ok_def DB_CHUNKSIZE_def)
    moreover have "has_payload fl 0" using i by (auto simp: has_payload_def)
    moreover have "Suc 0 + n = i" "i - 1 = n" using Suc by simp_all
    ultimately show ?thesis using alloc_page_loop_inv [OF inv pr(1), of 0 n None] True i
      by (auto simp: payload_for_update_def Let_def freel_alloc_page_entry_def)
  qed
qed

section \<open>Properties\<close>

text \<open>\<open>__freel_set_bits\<close>, which works with whole 64-bit words where it can, gives exactly the
  bits of the range the new value and leaves every other bit as it was: the same as one bit
  at a time. A range that goes past the end of the page is cut there; the number of bits
  that were written is returned.\<close>

theorem freel_set_bits_exact:
  assumes "start_bit < max_bits" and "max_bits \<le> 8 * length p"
  shows "fst (freel_set_bits max_bits start_bit size_bits v p) = min size_bits (max_bits - start_bit) \<and>
    length (snd (freel_set_bits max_bits start_bit size_bits v p)) = length p \<and>
    (\<forall>k. chunk_free (snd (freel_set_bits max_bits start_bit size_bits v p)) k =
       (if start_bit \<le> k \<and> k < start_bit + min size_bits (max_bits - start_bit) then v else chunk_free p k))"
proof -
  have "min size_bits (max_bits - start_bit) =
      (if start_bit + size_bits > max_bits then max_bits - start_bit else size_bits)" using assms(1) by auto
  from freel_set_bits_effect [OF assms this, of v] show ?thesis by auto
qed

theorem freel_set_bits_exact_witness:
  "chunk_free (snd (freel_set_bits 256 3 200 True (replicate 32 0))) 100 \<and>
   \<not> chunk_free (snd (freel_set_bits 256 3 200 True (replicate 32 0))) 203"
proof -
  have "\<not> chunk_free (replicate 32 0) 203" by (simp add: chunk_free_def)
  with freel_set_bits_exact [of 3 256 "replicate 32 0" 200 True] show ?thesis by simp
qed

text \<open>C38. The scans of a word: \<open>BITSCAN_LSBit\<close> and \<open>BITSCAN_MSBit\<close> stop after at most as many
  rounds as the word has bits, and move the position by the exact length of the run of set
  bits at the bottom and at the top of the word.\<close>

theorem bitscan_counts_the_run:
  fixes v :: "'a::len word"
  shows "(\<exists>k \<le> LENGTH('a). BITSCAN_LSBit v pos = pos + of_nat k \<and> (\<forall>i < k. bit v i) \<and>
            (k < LENGTH('a) \<longrightarrow> \<not> bit v k)) \<and>
         (\<exists>k \<le> LENGTH('a). BITSCAN_MSBit v pos = pos - of_nat k \<and> (\<forall>i < k. bit v (LENGTH('a) - 1 - i)) \<and>
            (k < LENGTH('a) \<longrightarrow> \<not> bit v (LENGTH('a) - 1 - k)))"
  using BITSCAN_LSBit_run BITSCAN_MSBit_run by blast

theorem bitscan_counts_the_run_witness:
  "BITSCAN_LSBit (0x17 :: 8 word) 100 = 103 \<and>
   (\<exists>k \<le> 8. BITSCAN_MSBit (0x17 :: 8 word) 100 = 100 - of_nat k)"
  using bitscan_counts_the_run [of "0x17 :: 8 word" 100] by (auto simp: BITSCAN_LSBit.simps)

lemma within_reach_grow:
  assumes "table_ok env (es @ ns)" "es \<noteq> []" "within_reach es a"
  shows "within_reach (es @ ns) a"
proof (cases "ns = []")
  case False
  then have "entry_end ((es @ ns) ! (length es - 1)) \<le> fe_start_address ((es @ ns) ! (length (es @ ns) - 1))"
    using assms(2) by (intro table_ordered [OF assms(1)]) (auto simp: length_greater_0_conv [symmetric] simp del: length_greater_0_conv)
  then have "entry_end (last es) \<le> fe_start_address (last (es @ ns))"
    using assms(2) False by (simp add: last_conv_nth nth_append)
  moreover have "fe_start_address (last es) + fe_max_bits (last es) \<le> entry_end (last es)"
  proof -
    have l: "length es - 1 < length es" using assms(2) by (cases es) simp_all
    then have "length es - 1 < length (es @ ns)" by simp
    from table_end [OF assms(1) this] l show ?thesis using assms(2) by (simp add: last_conv_nth nth_append DB_CHUNKSIZE_def)
  qed
  ultimately show ?thesis using assms(3) by (simp add: within_reach_def)
qed (use assms in simp)

text \<open>C23. Freeing an area: when memory, pages and the file size can be had, \<open>__freel_mark_free\<close>
  returns with success for every chunk-aligned area behind the first page, growing the table
  and the chain of freelist pages as needed and splitting the area over the pages. Afterwards
  exactly the chunks of the area are free besides those that were free before, and the table,
  the payloads and the chain of pages are consistent. The bounds are that the area is smaller than 4 GB and ends
  less than 4 GB behind the start of the last entry, and that an entry covers less than \<open>2^27\<close> chunks, that is pages of less than about
  16 MB, from which on the 32-bit product of chunks and chunk size wraps.\<close>

theorem freel_mark_free_frees:
  assumes "freel_inv env fl" "env_provides env" "span_ok env" "en_pagesize env \<le> address"
    and "DB_CHUNKSIZE dvd address" "DB_CHUNKSIZE dvd sz" "within_reach (fl_entries fl) (address + sz)" "sz < 2 ^ 32"
  shows "\<exists>fl'. freel_mark_free env address sz fl = Some (HAM_SUCCESS, fl') \<and> freel_inv env fl' \<and>
    (\<forall>c. free_chunk fl' c \<longleftrightarrow> free_chunk fl c \<or> address div DB_CHUNKSIZE \<le> c \<and> c < (address + sz) div DB_CHUNKSIZE)"
  using assms
proof (induction sz arbitrary: address fl rule: less_induct)
  case (less sz)
  show ?case
  proof (cases "sz = 0")
    case True
    then show ?thesis using less.prems(1) by (subst freel_mark_free.simps) auto
  next
    case False
    have tab: "table_ok env (fl_entries fl)" and ne: "fl_entries fl \<noteq> []"
      using less.prems(1) by (auto simp: freel_inv_def table_ok_def)
    have reach: "within_reach (fl_entries fl) address" using less.prems(7) by (simp add: within_reach_def)
    from freel_cache_get_entry_finds [OF tab less.prems(3,4) reach] less.prems(2)
    obtain i ns where g: "freel_cache_get_entry env address (fl_entries fl) 0 = Some (Inr i, fl_entries fl @ ns)"
      "i < length (fl_entries fl @ ns)" "covers ((fl_entries fl @ ns) ! i) address" "table_ok env (fl_entries fl @ ns)"
      "\<forall>e \<in> set ns. fe_page_id e = 0" by (auto simp: env_provides_def)
    define fl0 where "fl0 = fl\<lparr>fl_entries := fl_entries fl @ ns\<rparr>"
    have inv0: "freel_inv env fl0" "free_chunk fl0 = free_chunk fl"
      using freel_inv_grow [OF less.prems(1) g(5,4)] by (simp_all add: fl0_def)
    from payload_for_update_inv [OF inv0(1) less.prems(2,3), of i] g(2)
    obtain fl1 where p: "payload_for_update env i fl0 = (Inr (page_of fl1 i), fl1)" "has_payload fl1 i"
      "freel_inv env fl1" "same_shape fl0 fl1" "free_chunk fl1 = free_chunk fl0" by (auto simp: fl0_def)
    have "covers (fl_entries fl1 ! i) address" using same_shape_covers [OF p(4), of i] g(2,3) by (simp add: fl0_def)
    from mark_free_in_effect [OF p(3,2) this _ less.prems(5,6)] less.prems(3) False
    obtain s fl2 where m: "mark_free_in i (page_of fl1 i) address sz fl1 = (s, fl2)" "0 < s" "s * DB_CHUNKSIZE \<le> sz"
      "freel_inv env fl2" "same_shape fl1 fl2"
      "\<And>c. free_chunk fl2 c \<longleftrightarrow> free_chunk fl1 c \<or> address div DB_CHUNKSIZE \<le> c \<and> c < address div DB_CHUNKSIZE + s"
      and cs: "chunk_bytes s = s * DB_CHUNKSIZE" by (auto simp: span_ok_def)
    have e: "address + s * DB_CHUNKSIZE + (sz - s * DB_CHUNKSIZE) = address + sz" using m(3) by simp
    have "within_reach (fl_entries fl2) (address + s * DB_CHUNKSIZE + (sz - s * DB_CHUNKSIZE))"
      using within_reach_grow [OF g(4) ne less.prems(7)] same_shape_last [OF same_shape_trans [OF p(4) m(5)]] ne
      unfolding e by (simp add: fl0_def)
    moreover have "sz - s * DB_CHUNKSIZE < 2 ^ 32" using less.prems(8) by simp
    moreover have "sz - s * DB_CHUNKSIZE < sz" using m(2,3) by (simp add: DB_CHUNKSIZE_def)
    moreover have "en_pagesize env \<le> address + s * DB_CHUNKSIZE" using less.prems(4) by simp
    moreover have "DB_CHUNKSIZE dvd address + s * DB_CHUNKSIZE" "DB_CHUNKSIZE dvd sz - s * DB_CHUNKSIZE"
      using less.prems(5,6) by (simp_all add: dvd_diff_nat)
    ultimately obtain fl' where r: "freel_mark_free env (address + s * DB_CHUNKSIZE) (sz - s * DB_CHUNKSIZE) fl2 = Some (HAM_SUCCESS, fl')"
      "freel_inv env fl'" "\<And>c. free_chunk fl' c \<longleftrightarrow> free_chunk fl2 c \<or>
        (address + s * DB_CHUNKSIZE) div DB_CHUNKSIZE \<le> c \<and> c < (address + sz) div DB_CHUNKSIZE"
      using less.IH [OF _ m(4) less.prems(2,3), of "sz - s * DB_CHUNKSIZE" "address + s * DB_CHUNKSIZE"] unfolding e by blast
    have le: "address div DB_CHUNKSIZE + s \<le> (address + sz) div DB_CHUNKSIZE"
      using less.prems(5,6) m(3) by (auto simp: DB_CHUNKSIZE_def elim!: dvdE)
    have mid: "(address + s * DB_CHUNKSIZE) div DB_CHUNKSIZE = address div DB_CHUNKSIZE + s" by (simp add: DB_CHUNKSIZE_def)
    have "freel_mark_free env address sz fl = freel_mark_free env (address + s * DB_CHUNKSIZE) (sz - s * DB_CHUNKSIZE) fl2"
      unfolding freel_mark_free.simps [of env address sz fl] g(1) fl0_def [symmetric] option.case prod.case sum.case p(1) m(1) Let_def
        fst_conv snd_conv cs by (simp only: False if_False)
    moreover have "free_chunk fl' c \<longleftrightarrow> free_chunk fl c \<or> address div DB_CHUNKSIZE \<le> c \<and> c < (address + sz) div DB_CHUNKSIZE" for c
      unfolding r(3) m(6) p(5) inv0(2) mid using le by linarith
    ultimately show ?thesis using r(1,2) by (intro exI [of _ fl']) simp
  qed
qed

definition small_env :: freel_env where
  "small_env = \<lparr>en_pagesize = 1024, en_freelist_header_size = 52, en_table_alloc = (\<lambda>n. True),
     en_fetch_page = (\<lambda>a. (HAM_SUCCESS, True)),
     en_alloc_page = (\<lambda>fl. (HAM_SUCCESS, Some (Suc (sum_list (map fe_page_id (fl_entries fl)))))),
     en_get_filesize = (\<lambda>fl. HAM_SUCCESS)\<rparr>"

definition small_freelist :: freelist where
  "small_freelist =
     \<lparr>fl_entries = [\<lparr>fe_start_address = 1024, fe_max_bits = 64, fe_allocated_bits = 0, fe_page_id = 0\<rparr>],
      fl_header = \<lparr>fp_start_address = 1024, fp_overflow = 0, fp_max_bits = 64, fp_allocated_bits = 0, fp_bitmap = replicate 8 0\<rparr>,
      fl_pages = (\<lambda>a. \<lparr>fp_start_address = 0, fp_overflow = 0, fp_max_bits = 0, fp_allocated_bits = 0, fp_bitmap = []\<rparr>),
      fl_dirty = {}\<rparr>"

lemma small_env_provides: "env_provides small_env"
proof -
  have "Suc (sum_list (map fe_page_id es)) \<notin> fe_page_id ` set es" for es
    using member_le_sum_list [of _ "map fe_page_id es"] by fastforce
  then show ?thesis unfolding env_provides_def small_env_def by simp blast
qed

lemma small_freelist_ok: "freel_inv small_env small_freelist \<and> span_ok small_env \<and> table_ok small_env (fl_entries small_freelist)"
  by (auto simp: freel_inv_def table_ok_def span_ok_def small_freelist_def small_env_def has_payload_def page_of_def
      payload_at_def payload_ok_def freel_get_freelist_entry_maxspan_def sizeof_persistent_header_def DB_CHUNKSIZE_def)

theorem freel_mark_free_frees_witness:
  "\<exists>fl'. freel_mark_free small_env 2048 4096 small_freelist = Some (HAM_SUCCESS, fl') \<and> free_chunk fl' 64 \<and> free_chunk fl' 191"
  using freel_mark_free_frees [of small_env small_freelist 2048 4096] small_env_provides small_freelist_ok
  by (auto simp: within_reach_def small_freelist_def small_env_def DB_CHUNKSIZE_def)

text \<open>A table that the estimate does not grow: the search for the entry goes round for ever.\<close>

lemma freel_cache_get_entry_stuck:
  assumes "entries_to_add (freel_get_freelist_entry_maxspan env) (last es) address = 0" "\<And>n. en_table_alloc env n"
  shows "freel_cache_get_entry env address es (length es) = None"
proof -
  have "\<not> (e = env \<and> a = address \<and> l = es \<and> i = length es)"
    if "freel_cache_get_entry e a l i = Some y" for e a l i y
  proof (rule freel_cache_get_entry.raw_induct [OF _ that, where P = "\<lambda>e a l i y. \<not> (e = env \<and> a = address \<and> l = es \<and> i = length es)"])
    fix f e a l i y
    assume ih: "\<And>e a l i y. f e a l i = Some y \<Longrightarrow> \<not> (e = env \<and> a = address \<and> l = es \<and> i = length es)"
      and body: "(case find (\<lambda>k. covers (l ! k) a) [i..<length l] of Some k \<Rightarrow> Some (Inr k, l)
        | None \<Rightarrow> let add = entries_to_add (freel_get_freelist_entry_maxspan e) (last l) a
            in case freel_cache_resize e l (length l + add) of Inl st \<Rightarrow> Some (Inl st, l) | Inr es' \<Rightarrow> f e a es' (length l)) = Some y"
    show "\<not> (e = env \<and> a = address \<and> l = es \<and> i = length es)"
    proof
      assume "e = env \<and> a = address \<and> l = es \<and> i = length es"
      with body assms have "f env address es (length es) = Some y" by (simp add: Let_def freel_cache_resize_def)
      with ih show False by blast
    qed
  qed
  then show ?thesis by (metis not_None_eq)
qed

text \<open>The estimate of the number of entries to add is cut to 32 bits. For an address exactly
  4 GB, or a multiple of it, behind the last entry's start plus its number of bits it is 0,
  the table does not grow and \<open>__freel_mark_free\<close> never returns.\<close>

theorem freel_mark_free_hangs:
  assumes "table_ok env (fl_entries fl)" "\<And>n. en_table_alloc env n" "0 < sz" "span_ok env"
    and "address = fe_start_address (last (fl_entries fl)) + fe_max_bits (last (fl_entries fl)) + k * 2 ^ 32"
    and "entry_end (last (fl_entries fl)) \<le> address"
  shows "freel_mark_free env address sz fl = None"
proof -
  let ?es = "fl_entries fl"
  have "entries_to_add (freel_get_freelist_entry_maxspan env) (last ?es) address = 0"
    using assms(4,5) by (auto simp: entries_to_add_def Let_def DB_CHUNKSIZE_def span_ok_def)
  note stuck = freel_cache_get_entry_stuck [OF this assms(2)]
  have "\<not> covers (?es ! i) address" if "i < length ?es" for i
  proof (cases "Suc i = length ?es")
    case True
    then have "last ?es = ?es ! i" by (metis diff_Suc_1 last_conv_nth length_0_conv nat.discI)
    then show ?thesis using assms(6) by (simp add: covers_iff)
  next
    case False
    then have "entry_end (?es ! i) \<le> fe_start_address (?es ! (length ?es - 1))"
      using that by (intro table_ordered [OF assms(1)]) auto
    also have "\<dots> \<le> entry_end (last ?es)" using that by (cases "?es = []") (simp_all add: last_conv_nth entry_end_def)
    finally show ?thesis using assms(6) by (simp add: covers_iff)
  qed
  then have "find (\<lambda>k. covers (?es ! k) address) [0..<length ?es] = None" by (simp add: find_None_iff)
  then have "freel_cache_get_entry env address ?es 0 = None"
    using stuck assms(2) \<open>entries_to_add _ _ _ = 0\<close>
    by (subst freel_cache_get_entry.simps) (simp add: Let_def freel_cache_resize_def)
  then show ?thesis using assms(3) by (subst freel_mark_free.simps) simp
qed

theorem freel_mark_free_hangs_witness: "freel_mark_free small_env 4294968384 32 small_freelist = None"
proof -
  have "fl_entries small_freelist = [\<lparr>fe_start_address = 1024, fe_max_bits = 64, fe_allocated_bits = 0, fe_page_id = 0\<rparr>]"
    by (simp add: small_freelist_def)
  then show ?thesis using small_freelist_ok
    by (intro freel_mark_free_hangs [of _ _ _ _ 1]) (auto simp: small_env_def entry_end_def chunk_bytes_def DB_CHUNKSIZE_def)
qed

end
