(* ===== verification/Ham_Journal.thy ===== *)
theory Ham_Journal
  imports Os_Posix
begin

text \<open>
  The journal of \<open>src/journal.h\<close>, \<open>src/journal_entries.h\<close> and \<open>src/journal.cc\<close>: two append-only
  files of logical redo records (transaction begin, abort and commit, insert, erase).
  New transactions go to the current file until it has seen \<open>m_threshold\<close> of them; then
  the other file is emptied and becomes the current one, provided none of its
  transactions is still open. Recovery reads the older file and then the newer one and
  re-applies every record. The operations it re-applies belong to the environment; they
  are arguments of the model (\<open>replay\<close>). Memory allocation does not fail.
\<close>

section \<open>Packed structures\<close>

definition JOURNAL_HEADER_MAGIC :: u32 where "JOURNAL_HEADER_MAGIC = 0x686a6f31"
definition JOURNAL_DEFAULT_THRESHOLD :: u32 where "JOURNAL_DEFAULT_THRESHOLD = 16"
definition ENTRY_TYPE_TXN_BEGIN :: u32 where "ENTRY_TYPE_TXN_BEGIN = 1"
definition ENTRY_TYPE_TXN_ABORT :: u32 where "ENTRY_TYPE_TXN_ABORT = 2"
definition ENTRY_TYPE_TXN_COMMIT :: u32 where "ENTRY_TYPE_TXN_COMMIT = 3"
definition ENTRY_TYPE_INSERT :: u32 where "ENTRY_TYPE_INSERT = 4"
definition ENTRY_TYPE_ERASE :: u32 where "ENTRY_TYPE_ERASE = 5"
definition HAM_WRITE_THROUGH :: u32 where "HAM_WRITE_THROUGH = 1"
definition HAM_DONT_LOCK :: u32 where "HAM_DONT_LOCK = 0xf0000000"

definition sizeof_jrn_header :: nat where "sizeof_jrn_header = 16"
definition sizeof_jrn_entry :: nat where "sizeof_jrn_entry = 32"

definition enc_jrn_header :: "u32 \<Rightarrow> u64 \<Rightarrow> byte list" where
  "enc_jrn_header magic lsn = put_u32 magic @ put_u32 0 @ put_u64 lsn"

record journal_entry =
  je_lsn :: u64
  je_followup_size :: u64
  je_txn_id :: u64
  je_type :: u32
  je_dbname :: u16
  je_reserved :: u16

definition journal_entry_zero :: journal_entry where
  "journal_entry_zero = \<lparr>je_lsn = 0, je_followup_size = 0, je_txn_id = 0, je_type = 0, je_dbname = 0,
     je_reserved = 0\<rparr>"

definition enc_journal_entry :: "journal_entry \<Rightarrow> byte list" where
  "enc_journal_entry e = put_u64 (je_lsn e) @ put_u64 (je_followup_size e) @ put_u64 (je_txn_id e) @
     put_u32 (je_type e) @ put_u16 (je_dbname e) @ put_u16 (je_reserved e)"

definition dec_journal_entry :: "byte list \<Rightarrow> journal_entry" where
  "dec_journal_entry bs = \<lparr>je_lsn = get_u64 0 bs, je_followup_size = get_u64 8 bs,
     je_txn_id = get_u64 16 bs, je_type = get_u32 24 bs, je_dbname = get_u16 28 bs,
     je_reserved = get_u16 30 bs\<rparr>"

text \<open>The packed structures that follow an entry, without their trailing data byte.\<close>

record journal_entry_insert =
  ji_key_size :: u16
  ji_record_size :: u32
  ji_record_partial_size :: u32
  ji_record_partial_offset :: u32
  ji_insert_flags :: u32

definition enc_journal_insert :: "journal_entry_insert \<Rightarrow> byte list" where
  "enc_journal_insert i = put_u16 (ji_key_size i) @ put_u32 (ji_record_size i) @
     put_u32 (ji_record_partial_size i) @ put_u32 (ji_record_partial_offset i) @ put_u32 (ji_insert_flags i)"

definition dec_journal_insert :: "byte list \<Rightarrow> journal_entry_insert" where
  "dec_journal_insert bs = \<lparr>ji_key_size = get_u16 0 bs, ji_record_size = get_u32 2 bs,
     ji_record_partial_size = get_u32 6 bs, ji_record_partial_offset = get_u32 10 bs,
     ji_insert_flags = get_u32 14 bs\<rparr>"

record journal_entry_erase =
  jx_key_size :: u16
  jx_erase_flags :: u32
  jx_duplicate :: u32

definition enc_journal_erase :: "journal_entry_erase \<Rightarrow> byte list" where
  "enc_journal_erase x = put_u16 (jx_key_size x) @ put_u32 (jx_erase_flags x) @ put_u32 (jx_duplicate x)"

definition dec_journal_erase :: "byte list \<Rightarrow> journal_entry_erase" where
  "dec_journal_erase bs = \<lparr>jx_key_size = get_u16 0 bs, jx_erase_flags = get_u32 2 bs,
     jx_duplicate = get_u32 6 bs\<rparr>"

definition sizeof_jrn_insert :: u32 where "sizeof_jrn_insert = 19"
definition sizeof_jrn_erase :: u32 where "sizeof_jrn_erase = 11"

definition insert_key_data :: "byte list \<Rightarrow> byte list" where
  "insert_key_data aux = take (unat (ji_key_size (dec_journal_insert aux))) (drop 18 aux)"

definition insert_record_data :: "byte list \<Rightarrow> byte list" where
  "insert_record_data aux = take (unat (ji_record_size (dec_journal_insert aux)))
     (drop (18 + unat (ji_key_size (dec_journal_insert aux))) aux)"

definition erase_key_data :: "byte list \<Rightarrow> byte list" where
  "erase_key_data aux = take (unat (jx_key_size (dec_journal_erase aux))) (drop 10 aux)"

definition get_aligned_entry_size :: "u32 \<Rightarrow> u32" where
  "get_aligned_entry_size s = (let s' = s + (8 - 1) in s' - s' mod 8)"


section \<open>State and operations\<close>

record journal =
  j_current_fd :: nat
  j_fd :: "nat \<Rightarrow> os_file"
  j_fd_valid :: "nat \<Rightarrow> bool"
  j_open_txn :: "nat \<Rightarrow> u32"
  j_closed_txn :: "nat \<Rightarrow> u32"
  j_lsn :: u64
  j_last_cp_lsn :: u64
  j_threshold :: u32

definition jrn_new :: journal where
  "jrn_new = \<lparr>j_current_fd = 0, j_fd = (\<lambda>_. \<lparr>fdata = [], fpos = 0, fscript = []\<rparr>), j_fd_valid = (\<lambda>_. False),
     j_open_txn = (\<lambda>_. 0), j_closed_txn = (\<lambda>_. 0), j_lsn = 0, j_last_cp_lsn = 0,
     j_threshold = JOURNAL_DEFAULT_THRESHOLD\<rparr>"

definition set_fd :: "nat \<Rightarrow> os_file \<Rightarrow> journal \<Rightarrow> journal" where
  "set_fd i f j = j\<lparr>j_fd := (j_fd j)(i := f)\<rparr>"

definition jrn_clear_file :: "journal \<Rightarrow> nat \<Rightarrow> ham_status \<times> journal" where
  "jrn_clear_file j idx =
     (if \<not> j_fd_valid j idx then (HAM_IO_ERROR, j)
      else
        (case os_truncate (j_fd j idx) sizeof_jrn_header of
           (st, fd) \<Rightarrow>
             if st \<noteq> HAM_SUCCESS then (st, set_fd idx fd j)
             else (case os_seek_set fd sizeof_jrn_header of
                     (st', fd') \<Rightarrow>
                       if st' \<noteq> HAM_SUCCESS then (st', set_fd idx fd' j)
                       else (HAM_SUCCESS, (set_fd idx fd' j)
                               \<lparr>j_open_txn := (j_open_txn j)(idx := 0),
                                j_closed_txn := (j_closed_txn j)(idx := 0)\<rparr>))))"

definition jrn_clear :: "journal \<Rightarrow> ham_status \<times> journal" where
  "jrn_clear j =
     (case jrn_clear_file j 0 of
        (st, j1) \<Rightarrow> if st \<noteq> HAM_SUCCESS then (st, j1) else jrn_clear_file j1 1)"

definition jrn_close_fd :: "nat \<Rightarrow> journal \<Rightarrow> journal" where
  "jrn_close_fd i j =
     (if j_fd_valid j i
      then (set_fd i (snd (os_close (j_fd j i))) j)\<lparr>j_fd_valid := (j_fd_valid j)(i := False)\<rparr>
      else j)"

definition jrn_close :: "journal \<Rightarrow> bool \<Rightarrow> ham_status \<times> journal" where
  "jrn_close j noclear =
     (let (st, j1) =
        (if noclear then (HAM_SUCCESS, j)
         else
           (let j0 = snd (jrn_clear j) in
            if \<not> j_fd_valid j0 0 then (HAM_IO_ERROR, j0)
            else (case os_pwrite (j_fd j0 0) 0 (enc_jrn_header JOURNAL_HEADER_MAGIC (j_lsn j0)) of
                    (st, fd) \<Rightarrow> (st, set_fd 0 fd j0))))
      in (st, jrn_close_fd 1 (jrn_close_fd 0 j1)))"

text \<open>Creating and opening; the arguments are what the file system holds and will do.\<close>

definition jrn_create_file :: "int list \<Rightarrow> nat \<Rightarrow> journal \<Rightarrow> ham_status \<times> journal" where
  "jrn_create_file script i j =
     (case os_create script of
        (st, fd) \<Rightarrow>
          (let j1 = (set_fd i fd j)\<lparr>j_fd_valid := (j_fd_valid j)(i := (st = HAM_SUCCESS))\<rparr> in
           if st \<noteq> HAM_SUCCESS then (st, snd (jrn_close j1 False))
           else (case os_write fd (enc_jrn_header JOURNAL_HEADER_MAGIC 0) of
                   (st', fd') \<Rightarrow>
                     (let j2 = set_fd i fd' j1 in
                      if st' \<noteq> HAM_SUCCESS then (st', snd (jrn_close j2 False)) else (HAM_SUCCESS, j2)))))"

definition jrn_create :: "int list \<Rightarrow> int list \<Rightarrow> ham_status \<times> journal" where
  "jrn_create script0 script1 =
     (case jrn_create_file script0 0 (jrn_new\<lparr>j_lsn := 1\<rparr>) of
        (st, j) \<Rightarrow> if st \<noteq> HAM_SUCCESS then (st, j) else jrn_create_file script1 1 j)"

definition jrn_open_file :: "byte list option \<Rightarrow> int list \<Rightarrow> nat \<Rightarrow> journal \<Rightarrow> ham_status \<times> journal" where
  "jrn_open_file content script i j =
     (case os_open content script of
        (st, fd) \<Rightarrow>
          (let j1 = (set_fd i fd j)\<lparr>j_fd_valid := (j_fd_valid j)(i := (st = HAM_SUCCESS))\<rparr> in
           if st \<noteq> HAM_SUCCESS then (st, snd (jrn_close j1 False))
           else (case os_pread fd 0 sizeof_jrn_header of
                   (st', bs, fd') \<Rightarrow>
                     (let j2 = set_fd i fd' j1 in
                      if st' \<noteq> HAM_SUCCESS then (st', snd (jrn_close j2 False))
                      else if get_u32 0 bs \<noteq> JOURNAL_HEADER_MAGIC
                      then (HAM_LOG_INV_FILE_HEADER, snd (jrn_close j2 False))
                      else (HAM_SUCCESS, if j_lsn j2 < get_u64 8 bs then j2\<lparr>j_lsn := get_u64 8 bs\<rparr> else j2)))))"

definition jrn_last_lsn :: "nat \<Rightarrow> journal \<Rightarrow> ham_status \<times> u64 \<times> journal" where
  "jrn_last_lsn i j =
     (case os_get_filesize (j_fd j i) of
        (st, sz, fd) \<Rightarrow>
          if st \<noteq> HAM_SUCCESS then (st, 0, snd (jrn_close (set_fd i fd j) False))
          else if sz \<ge> sizeof_jrn_entry then
            (case os_pread fd (sz - sizeof_jrn_entry) sizeof_jrn_entry of
               (st', bs, fd') \<Rightarrow>
                 if st' \<noteq> HAM_SUCCESS then (st', 0, snd (jrn_close (set_fd i fd' j) False))
                 else (HAM_SUCCESS, je_lsn (dec_journal_entry bs), set_fd i fd' j))
          else (HAM_SUCCESS, 0, set_fd i fd j))"

definition jrn_open ::
  "byte list option \<Rightarrow> int list \<Rightarrow> byte list option \<Rightarrow> int list \<Rightarrow> ham_status \<times> journal" where
  "jrn_open content0 script0 content1 script1 =
     (case jrn_open_file content0 script0 0 (jrn_new\<lparr>j_lsn := 0, j_current_fd := 0\<rparr>) of
        (st, j) \<Rightarrow> if st \<noteq> HAM_SUCCESS then (st, j) else
     (case jrn_open_file content1 script1 1 j of
        (st, j1) \<Rightarrow> if st \<noteq> HAM_SUCCESS then (st, j1) else
     (case jrn_last_lsn 0 j1 of
        (st, lsn0, j2) \<Rightarrow> if st \<noteq> HAM_SUCCESS then (st, j2) else
     (case jrn_last_lsn 1 j2 of
        (st, lsn1, j3) \<Rightarrow> if st \<noteq> HAM_SUCCESS then (st, j3) else
     (if lsn1 > lsn0 then
        (HAM_SUCCESS, j3\<lparr>j_fd := (j_fd j3)(0 := j_fd j3 1, 1 := j_fd j3 0),
                         j_lsn := (if j_lsn j3 < lsn1 then lsn1 else j_lsn j3)\<rparr>)
      else (HAM_SUCCESS, j3\<lparr>j_lsn := (if j_lsn j3 < lsn0 then lsn0 else j_lsn j3)\<rparr>))))))"

definition jrn_file_empty :: "nat \<Rightarrow> journal \<Rightarrow> bool \<times> journal" where
  "jrn_file_empty i j =
     (case os_get_filesize (j_fd j i) of
        (st, sz, fd) \<Rightarrow>
          if st \<noteq> HAM_SUCCESS then (False, set_fd i fd j)
          else (\<not> (sz \<noteq> 0 \<and> sz \<noteq> sizeof_jrn_header), set_fd i fd j))"

definition jrn_is_empty :: "journal \<Rightarrow> bool \<times> journal" where
  "jrn_is_empty j =
     (case jrn_file_empty 0 j of (b, j1) \<Rightarrow> if \<not> b then (False, j1) else jrn_file_empty 1 j1)"

definition jrn_append_entry :: "journal \<Rightarrow> nat \<Rightarrow> byte list option list \<Rightarrow> ham_status \<times> journal" where
  "jrn_append_entry j fdidx bufs =
     (case os_writev (j_fd j fdidx) bufs of (st, fd) \<Rightarrow> (st, set_fd fdidx fd j))"

definition get_incremented_lsn :: "journal \<Rightarrow> u64 \<times> journal" where
  "get_incremented_lsn j = (j_lsn j, j\<lparr>j_lsn := j_lsn j + 1\<rparr>)"

text \<open>
  \<open>append_txn_begin\<close> also chooses the file of the transaction; the third component is the
  log descriptor it stores in the transaction, if it gets that far. \<open>name\<close> is the argument,
  \<open>txn_name\<close> the name the transaction carries; strings are kept without their final zero.
\<close>

definition jrn_append_txn_begin ::
  "journal \<Rightarrow> u64 \<Rightarrow> byte list option \<Rightarrow> byte list option \<Rightarrow> u64 \<Rightarrow> ham_status \<times> journal \<times> nat option" where
  "jrn_append_txn_begin j txn_id txn_name name lsn =
     (let cur = j_current_fd j;
          other = (if cur \<noteq> 0 then 0 else 1);
          entry = journal_entry_zero\<lparr>je_txn_id := txn_id, je_type := ENTRY_TYPE_TXN_BEGIN, je_lsn := lsn,
                    je_followup_size := (case name of None \<Rightarrow> 0 | Some n \<Rightarrow> of_nat (length n + 1))\<rparr>;
          (st, cur', j1) =
            (if j_open_txn j cur + j_closed_txn j cur < j_threshold j then (HAM_SUCCESS, cur, j)
             else if j_open_txn j other = 0 then
               (case jrn_clear_file j other of
                  (st, j0) \<Rightarrow> if st \<noteq> HAM_SUCCESS then (st, cur, j0)
                             else (HAM_SUCCESS, other, j0\<lparr>j_current_fd := other\<rparr>))
             else (HAM_SUCCESS, cur, j))
      in if st \<noteq> HAM_SUCCESS then (st, j1, None)
         else
           (case jrn_append_entry j1 cur'
                   ([Some (enc_journal_entry entry)] @
                    (case txn_name of None \<Rightarrow> [] | Some n \<Rightarrow> [Some (n @ [0])])) of
              (st', j2) \<Rightarrow>
                if st' \<noteq> HAM_SUCCESS then (st', j2, Some cur')
                else (HAM_SUCCESS, j2\<lparr>j_open_txn := (j_open_txn j2)(cur' := j_open_txn j2 cur' + 1),
                                     j_current_fd := cur'\<rparr>, Some cur')))"

definition jrn_append_txn_end :: "u32 \<Rightarrow> journal \<Rightarrow> u32 \<Rightarrow> u64 \<Rightarrow> nat \<Rightarrow> u64 \<Rightarrow> ham_status \<times> journal" where
  "jrn_append_txn_end type j env_flags txn_id idx lsn =
     (let entry = journal_entry_zero\<lparr>je_lsn := lsn, je_txn_id := txn_id, je_type := type\<rparr>;
          j1 = j\<lparr>j_open_txn := (j_open_txn j)(idx := j_open_txn j idx - 1),
                 j_closed_txn := (j_closed_txn j)(idx := j_closed_txn j idx + 1)\<rparr>
      in case jrn_append_entry j1 idx [Some (enc_journal_entry entry)] of
           (st, j2) \<Rightarrow>
             if st \<noteq> HAM_SUCCESS then (st, j2)
             else if env_flags AND HAM_WRITE_THROUGH \<noteq> 0 then
               (case os_flush (j_fd j2 idx) of (st', fd) \<Rightarrow> (st', set_fd idx fd j2))
             else (HAM_SUCCESS, j2))"

definition jrn_append_txn_abort :: "journal \<Rightarrow> u32 \<Rightarrow> u64 \<Rightarrow> nat \<Rightarrow> u64 \<Rightarrow> ham_status \<times> journal" where
  "jrn_append_txn_abort = jrn_append_txn_end ENTRY_TYPE_TXN_ABORT"

definition jrn_append_txn_commit :: "journal \<Rightarrow> u32 \<Rightarrow> u64 \<Rightarrow> nat \<Rightarrow> u64 \<Rightarrow> ham_status \<times> journal" where
  "jrn_append_txn_commit = jrn_append_txn_end ENTRY_TYPE_TXN_COMMIT"

record ham_record =
  rec_data :: "byte list"
  rec_partial_size :: u32
  rec_partial_offset :: u32

definition jrn_append_insert ::
  "journal \<Rightarrow> u16 \<Rightarrow> u64 \<Rightarrow> nat \<Rightarrow> byte list \<Rightarrow> ham_record \<Rightarrow> u32 \<Rightarrow> u64 \<Rightarrow> ham_status \<times> journal" where
  "jrn_append_insert j dbname txn_id idx key rec flags lsn =
     (let key_size = of_nat (length key) :: u16;
          record_size = of_nat (length (rec_data rec)) :: u32;
          sz = sizeof_jrn_insert + ucast key_size + record_size - 1;
          padding_size = get_aligned_entry_size sz - sz;
          entry = journal_entry_zero\<lparr>je_lsn := lsn, je_dbname := dbname, je_txn_id := txn_id,
                    je_type := ENTRY_TYPE_INSERT, je_followup_size := ucast (sz + padding_size)\<rparr>;
          ins = \<lparr>ji_key_size = key_size, ji_record_size = record_size,
                 ji_record_partial_size = rec_partial_size rec,
                 ji_record_partial_offset = rec_partial_offset rec, ji_insert_flags = flags\<rparr>
      in jrn_append_entry j idx
           [Some (enc_journal_entry entry), Some (enc_journal_insert ins), Some key, Some (rec_data rec),
            Some (replicate (unat padding_size) 0)])"

definition jrn_append_erase ::
  "journal \<Rightarrow> u16 \<Rightarrow> u64 \<Rightarrow> nat \<Rightarrow> byte list \<Rightarrow> u32 \<Rightarrow> u32 \<Rightarrow> u64 \<Rightarrow> ham_status \<times> journal" where
  "jrn_append_erase j dbname txn_id idx key dupe flags lsn =
     (let key_size = of_nat (length key) :: u16;
          sz = sizeof_jrn_erase + ucast key_size - 1;
          padding_size = get_aligned_entry_size sz - sz;
          entry = journal_entry_zero\<lparr>je_lsn := lsn, je_dbname := dbname, je_txn_id := txn_id,
                    je_type := ENTRY_TYPE_ERASE, je_followup_size := ucast (sz + padding_size)\<rparr>;
          er = \<lparr>jx_key_size = key_size, jx_erase_flags = flags, jx_duplicate = dupe\<rparr>
      in jrn_append_entry j idx
           [Some (enc_journal_entry entry), Some (enc_journal_erase er), Some key,
            Some (replicate (unat padding_size) 0)])"

subsection \<open>Reading\<close>

record jrn_iterator =
  it_fdidx :: nat
  it_fdstart :: nat
  it_offset :: nat

definition iterator_zero :: jrn_iterator where
  "iterator_zero = \<lparr>it_fdidx = 0, it_fdstart = 0, it_offset = 0\<rparr>"

definition jrn_get_entry ::
  "journal \<Rightarrow> jrn_iterator \<Rightarrow> journal_entry \<Rightarrow>
   ham_status \<times> jrn_iterator \<times> journal_entry \<times> byte list option \<times> journal" where
  "jrn_get_entry j it entry =
     (let it0 = (if it_offset it = 0 then
                   (let i = (if j_current_fd j = 0 then 1 else 0)
                    in \<lparr>it_fdidx = i, it_fdstart = i, it_offset = sizeof_jrn_header\<rparr>)
                 else it);
          (st0, size0, fd0) = os_get_filesize (j_fd j (it_fdidx it0));
          j0 = set_fd (it_fdidx it0) fd0 j
      in if st0 \<noteq> HAM_SUCCESS then (st0, it0, entry, None, j0)
         else if size0 = it_offset it0 \<and> it_fdstart it0 \<noteq> it_fdidx it0
         then (HAM_SUCCESS, it0, entry\<lparr>je_lsn := 0\<rparr>, None, j0)
         else
           (let it1 = (if size0 = it_offset it0
                       then it0\<lparr>it_fdidx := (if it_fdidx it0 = 1 then 0 else 1), it_offset := sizeof_jrn_header\<rparr>
                       else it0);
                (st1, size1, j1) =
                  (if size0 = it_offset it0
                   then (case os_get_filesize (j_fd j0 (it_fdidx it1)) of
                           (st, sz, fd) \<Rightarrow> (st, sz, set_fd (it_fdidx it1) fd j0))
                   else (HAM_SUCCESS, size0, j0))
            in if st1 \<noteq> HAM_SUCCESS then (st1, it1, entry, None, j1)
               else if size1 = it_offset it1 then (HAM_SUCCESS, it1, entry\<lparr>je_lsn := 0\<rparr>, None, j1)
               else
                 (case os_pread (j_fd j1 (it_fdidx it1)) (it_offset it1) sizeof_jrn_entry of
                    (st2, bs, fd2) \<Rightarrow>
                      (let j2 = set_fd (it_fdidx it1) fd2 j1 in
                       if st2 \<noteq> HAM_SUCCESS then (st2, it1, entry, None, j2)
                       else
                         (let e = dec_journal_entry bs;
                              it2 = it1\<lparr>it_offset := it_offset it1 + sizeof_jrn_entry\<rparr>
                          in if je_followup_size e = 0 then (HAM_SUCCESS, it2, e, None, j2)
                             else
                               (case os_pread fd2 (it_offset it2) (unat (je_followup_size e)) of
                                  (st3, aux, fd3) \<Rightarrow>
                                    (let j3 = set_fd (it_fdidx it1) fd3 j2 in
                                     if st3 \<noteq> HAM_SUCCESS then (st3, it2, e, None, j3)
                                     else (HAM_SUCCESS,
                                           it2\<lparr>it_offset := it_offset it2 + unat (je_followup_size e)\<rparr>,
                                           e, Some aux, j3))))))))"

subsection \<open>Recovery\<close>

text \<open>
  The environment a journal is replayed into: the list of its transactions, oldest
  first, the open databases, and the public operations recovery calls. All of them are
  parameters; \<open>'s\<close> is the environment, \<open>'t\<close> a transaction and \<open>'d\<close> a database handle.
\<close>

record ('s, 't, 'd) replay =
  rp_txns :: "'s \<Rightarrow> 't list"
  rp_txn_id :: "'s \<Rightarrow> 't \<Rightarrow> u64"
  rp_committed :: "'s \<Rightarrow> 't \<Rightarrow> bool"
  rp_txn_begin :: "byte list option \<Rightarrow> 's \<Rightarrow> ham_status \<times> 't \<times> 's"
  rp_set_txn_id :: "'t \<Rightarrow> u64 \<Rightarrow> 's \<Rightarrow> 's"
  rp_txn_abort :: "'t \<Rightarrow> 's \<Rightarrow> ham_status \<times> 's"
  rp_txn_commit :: "'t \<Rightarrow> 's \<Rightarrow> ham_status \<times> 's"
  rp_databases :: "'s \<Rightarrow> (u16 \<times> 'd) list"
  rp_open_db :: "u16 \<Rightarrow> 's \<Rightarrow> ham_status \<times> 'd \<times> 's"
  rp_insert :: "'d \<Rightarrow> 't \<Rightarrow> byte list \<Rightarrow> ham_record \<Rightarrow> u32 \<Rightarrow> 's \<Rightarrow> ham_status \<times> 's"
  rp_erase :: "'d \<Rightarrow> 't \<Rightarrow> byte list \<Rightarrow> u32 \<Rightarrow> 's \<Rightarrow> ham_status \<times> 's"
  rp_close_all :: "'s \<Rightarrow> 's"

definition recover_get_db :: "('s, 't, 'd) replay \<Rightarrow> u16 \<Rightarrow> 's \<Rightarrow> ham_status \<times> 'd option \<times> 's" where
  "recover_get_db R dbname s =
     (case find (\<lambda>(name, db). name = dbname) (rp_databases R s) of
        Some (name, db) \<Rightarrow> (HAM_SUCCESS, Some db, s)
      | None \<Rightarrow> (case rp_open_db R dbname s of
                   (st, db, s') \<Rightarrow> if st \<noteq> HAM_SUCCESS then (st, None, s') else (HAM_SUCCESS, Some db, s')))"

definition recover_get_txn :: "('s, 't, 'd) replay \<Rightarrow> u64 \<Rightarrow> 's \<Rightarrow> ham_status \<times> 't option" where
  "recover_get_txn R txn_id s =
     (case find (\<lambda>t. rp_txn_id R s t = txn_id) (rp_txns R s) of
        Some t \<Rightarrow> (HAM_SUCCESS, Some t)
      | None \<Rightarrow> (HAM_INTERNAL_ERROR, None))"

fun abort_txns :: "('s, 't, 'd) replay \<Rightarrow> 't list \<Rightarrow> 's \<Rightarrow> ham_status \<times> 's" where
  "abort_txns R [] s = (HAM_SUCCESS, s)"
| "abort_txns R (t # ts) s =
     (if \<not> rp_committed R s t then
        (case rp_txn_abort R t s of (st, s') \<Rightarrow> if st \<noteq> HAM_SUCCESS then (st, s') else abort_txns R ts s')
      else abort_txns R ts s)"

definition abort_uncommitted_txns :: "('s, 't, 'd) replay \<Rightarrow> 's \<Rightarrow> ham_status \<times> 's" where
  "abort_uncommitted_txns R s = abort_txns R (rp_txns R s) s"

text \<open>One record: \<open>None\<close> means the record was skipped because it is already on disk.\<close>

definition replay_begin :: "('s, 't, 'd) replay \<Rightarrow> u64 \<Rightarrow> byte list option \<Rightarrow> 's \<Rightarrow> ham_status \<times> 's" where
  "replay_begin R txn_id name s =
     (case rp_txn_begin R name s of
        (st, t, s') \<Rightarrow> if st = HAM_SUCCESS then (HAM_SUCCESS, rp_set_txn_id R t txn_id s') else (st, s'))"

definition replay_end ::
  "('s, 't, 'd) replay \<Rightarrow> ('t \<Rightarrow> 's \<Rightarrow> ham_status \<times> 's) \<Rightarrow> u64 \<Rightarrow> 's \<Rightarrow> ham_status \<times> 's" where
  "replay_end R f txn_id s =
     (case recover_get_txn R txn_id s of
        (st, Some t) \<Rightarrow> f t s
      | (st, None) \<Rightarrow> (st, s))"

definition replay_data ::
  "('s, 't, 'd) replay \<Rightarrow> ('d \<Rightarrow> 't \<Rightarrow> 's \<Rightarrow> ham_status \<times> 's) \<Rightarrow> u64 \<Rightarrow> u16 \<Rightarrow> 's \<Rightarrow> ham_status \<times> 's" where
  "replay_data R f txn_id dbname s =
     (case recover_get_txn R txn_id s of
        (st, None) \<Rightarrow> (st, s)
      | (st, Some t) \<Rightarrow>
          (case recover_get_db R dbname s of
             (st', None, s') \<Rightarrow> (st', s')
           | (st', Some db, s') \<Rightarrow> f db t s'))"

definition ignore_missing_key :: "ham_status \<times> 's \<Rightarrow> ham_status \<times> 's" where
  "ignore_missing_key r = (if fst r = HAM_KEY_NOT_FOUND then (HAM_SUCCESS, snd r) else r)"

definition recover_record ::
  "('s, 't, 'd) replay \<Rightarrow> u64 \<Rightarrow> journal_entry \<Rightarrow> byte list option \<Rightarrow> 's \<Rightarrow> (ham_status \<times> 's) option" where
  "recover_record R start_lsn e aux s =
     (if je_type e = ENTRY_TYPE_TXN_BEGIN then
        Some (replay_begin R (je_txn_id e) (map_option (takeWhile (\<lambda>b. b \<noteq> 0)) aux) s)
      else if je_type e = ENTRY_TYPE_TXN_ABORT then Some (replay_end R (rp_txn_abort R) (je_txn_id e) s)
      else if je_type e = ENTRY_TYPE_TXN_COMMIT then Some (replay_end R (rp_txn_commit R) (je_txn_id e) s)
      else if je_type e = ENTRY_TYPE_INSERT then
        (case aux of
           None \<Rightarrow> Some (HAM_IO_ERROR, s)
         | Some a \<Rightarrow>
             if je_lsn e \<le> start_lsn then None
             else
               (let ins = dec_journal_insert a in
                Some (replay_data R (\<lambda>db t. rp_insert R db t (insert_key_data a)
                        \<lparr>rec_data = insert_record_data a, rec_partial_size = ji_record_partial_size ins,
                         rec_partial_offset = ji_record_partial_offset ins\<rparr>
                        (ji_insert_flags ins OR HAM_DONT_LOCK)) (je_txn_id e) (je_dbname e) s)))
      else if je_type e = ENTRY_TYPE_ERASE then
        (case aux of
           None \<Rightarrow> Some (HAM_IO_ERROR, s)
         | Some a \<Rightarrow>
             if je_lsn e \<le> start_lsn then None
             else
               Some (replay_data R (\<lambda>db t s'. ignore_missing_key (rp_erase R db t (erase_key_data a)
                       (jx_erase_flags (dec_journal_erase a) OR HAM_DONT_LOCK) s'))
                       (je_txn_id e) (je_dbname e) s))
      else Some (HAM_IO_ERROR, s))"

partial_function (option) jrn_recover_loop ::
  "('s, 't, 'd) replay \<Rightarrow> u64 \<Rightarrow> journal \<Rightarrow> jrn_iterator \<Rightarrow> 's \<Rightarrow> (ham_status \<times> journal \<times> 's) option" where
  "jrn_recover_loop R start_lsn j it s =
     (case jrn_get_entry j it journal_entry_zero of
        (st, it', e, aux, j') \<Rightarrow>
          if st \<noteq> HAM_SUCCESS then Some (st, j', s)
          else if je_lsn e = 0 then Some (HAM_SUCCESS, j', s)
          else
            (case recover_record R start_lsn e aux s of
               None \<Rightarrow> jrn_recover_loop R start_lsn j' it' s
             | Some (st', s') \<Rightarrow>
                 if st' \<noteq> HAM_SUCCESS then Some (st', j', s')
                 else jrn_recover_loop R start_lsn (j'\<lparr>j_lsn := je_lsn e\<rparr>) it' s'))"

definition jrn_recover ::
  "('s, 't, 'd) replay \<Rightarrow> u64 \<Rightarrow> journal \<Rightarrow> 's \<Rightarrow> (ham_status \<times> journal \<times> 's) option" where
  "jrn_recover R start_lsn j s =
     (case jrn_recover_loop R start_lsn j iterator_zero s of
        None \<Rightarrow> None
      | Some (st, j1, s1) \<Rightarrow>
          (let s2 = rp_close_all R (snd (abort_uncommitted_txns R s1)) in
           if st \<noteq> HAM_SUCCESS then Some (st, j1, s2)
           else (case jrn_clear j1 of (st', j2) \<Rightarrow> Some (st', j2, s2))))"

section \<open>The journal as two lists of records\<close>

text \<open>
  The specification level: a record is a log serial number, a transaction id and an
  operation; a file is a list of records, oldest first.
\<close>

datatype jop =
    JBegin "byte list option"
  | JAbort
  | JCommit
  | JInsert u16 "byte list" ham_record u32
  | JErase u16 "byte list" u32 u32

type_synonym jrec = "u64 \<times> u64 \<times> jop"

definition pad8 :: "nat \<Rightarrow> nat" where
  "pad8 n = (n + 7) - (n + 7) mod 8 - n"

fun jop_type :: "jop \<Rightarrow> u32" where
  "jop_type (JBegin _) = ENTRY_TYPE_TXN_BEGIN"
| "jop_type JAbort = ENTRY_TYPE_TXN_ABORT"
| "jop_type JCommit = ENTRY_TYPE_TXN_COMMIT"
| "jop_type (JInsert _ _ _ _) = ENTRY_TYPE_INSERT"
| "jop_type (JErase _ _ _ _) = ENTRY_TYPE_ERASE"

fun jop_dbname :: "jop \<Rightarrow> u16" where
  "jop_dbname (JInsert d _ _ _) = d"
| "jop_dbname (JErase d _ _ _) = d"
| "jop_dbname _ = 0"

fun jop_follow :: "jop \<Rightarrow> byte list" where
  "jop_follow (JBegin name) = (case name of None \<Rightarrow> [] | Some n \<Rightarrow> n @ [0])"
| "jop_follow JAbort = []"
| "jop_follow JCommit = []"
| "jop_follow (JInsert d key rec flags) =
     enc_journal_insert \<lparr>ji_key_size = of_nat (length key), ji_record_size = of_nat (length (rec_data rec)),
       ji_record_partial_size = rec_partial_size rec, ji_record_partial_offset = rec_partial_offset rec,
       ji_insert_flags = flags\<rparr> @ key @ rec_data rec @
     replicate (pad8 (18 + length key + length (rec_data rec))) 0"
| "jop_follow (JErase d key dupe flags) =
     enc_journal_erase \<lparr>jx_key_size = of_nat (length key), jx_erase_flags = flags, jx_duplicate = dupe\<rparr> @
     key @ replicate (pad8 (10 + length key)) 0"

fun jop_wf :: "jop \<Rightarrow> bool" where
  "jop_wf (JBegin name) = (case name of None \<Rightarrow> True | Some n \<Rightarrow> 0 \<notin> set n \<and> length n < 2 ^ 32)"
| "jop_wf (JInsert d key rec flags) =
     (length key < 2 ^ 16 \<and> length key + length (rec_data rec) + 32 < 2 ^ 32)"
| "jop_wf (JErase d key dupe flags) = (length key < 2 ^ 16)"
| "jop_wf _ = True"

definition jrec_entry :: "jrec \<Rightarrow> journal_entry" where
  "jrec_entry r = (case r of (lsn, txn_id, op) \<Rightarrow>
     \<lparr>je_lsn = lsn, je_followup_size = of_nat (length (jop_follow op)), je_txn_id = txn_id,
      je_type = jop_type op, je_dbname = jop_dbname op, je_reserved = 0\<rparr>)"

definition jrec_aux :: "jrec \<Rightarrow> byte list option" where
  "jrec_aux r = (case r of (lsn, txn_id, op) \<Rightarrow>
     if jop_follow op = [] then None else Some (jop_follow op))"

definition jrec_image :: "jrec \<Rightarrow> byte list" where
  "jrec_image r = enc_journal_entry (jrec_entry r) @ jop_follow (snd (snd r))"

definition jrn_image :: "jrec list \<Rightarrow> byte list" where
  "jrn_image rs = concat (map jrec_image rs)"

definition jrec_wf :: "jrec \<Rightarrow> bool" where
  "jrec_wf r \<longleftrightarrow> fst r \<noteq> 0 \<and> jop_wf (snd (snd r))"

definition jrn_holds :: "journal \<Rightarrow> nat \<Rightarrow> jrec list \<Rightarrow> bool" where
  "jrn_holds j i rs \<longleftrightarrow>
     (\<exists>h. length h = sizeof_jrn_header \<and> fdata (j_fd j i) = h @ jrn_image rs) \<and> j_fd_valid j i \<and>
     fscript (j_fd j i) = [] \<and> fpos (j_fd j i) = length (fdata (j_fd j i)) \<and>
     length (fdata (j_fd j i)) < off_max \<and> (\<forall>r \<in> set rs. jrec_wf r)"

lemma length_enc_journal [simp, encoding]:
  "length (enc_journal_entry e) = 32" "length (enc_journal_insert i) = 18" "length (enc_journal_erase x) = 10"
  "length (enc_jrn_header m l) = 16"
  by (simp_all add: enc_journal_entry_def enc_journal_insert_def enc_journal_erase_def enc_jrn_header_def)

lemma enc_journal_entry_ne [simp]: "enc_journal_entry e \<noteq> []"
  by (metis length_enc_journal(1) list.size(3) zero_neq_numeral)

lemma dec_enc_journal_entry [simp]: "dec_journal_entry (enc_journal_entry e) = e"
  by (simp add: dec_journal_entry_def enc_journal_entry_def encoding)

lemma dec_enc_journal_insert [simp]: "dec_journal_insert (enc_journal_insert i @ xs) = i"
  by (simp add: dec_journal_insert_def enc_journal_insert_def encoding)

lemma dec_enc_journal_erase [simp]: "dec_journal_erase (enc_journal_erase x @ xs) = x"
  by (simp add: dec_journal_erase_def enc_journal_erase_def encoding)

lemma jrn_image_simps [simp]:
  "jrn_image [] = []" "jrn_image (r # rs) = jrec_image r @ jrn_image rs"
  "jrn_image (rs @ rs') = jrn_image rs @ jrn_image rs'"
  by (simp_all add: jrn_image_def)

lemma pad8_le: "pad8 n \<le> 7"
  by (simp add: pad8_def)

lemma padding_size:
  assumes "n + 8 < 2 ^ 32"
  shows "unat (get_aligned_entry_size (of_nat n) - of_nat n) = pad8 n"
proof -
  have le: "n + 7 - (n + 7) mod 8 \<ge> n" "(n + 7) mod 8 \<le> n + 7"
    using mod_less_divisor [of 8 "n + 7"] by linarith+
  have "unat (of_nat (n + 7) mod 8 :: u32) = (n + 7) mod 8"
    using assms unfolding unat_mod by (simp add: unat_of_nat del: of_nat_add)
  then have "(of_nat (n + 7) mod 8 :: u32) = of_nat ((n + 7) mod 8)"
    by (simp add: word_unat_eq_iff unat_of_nat)
  then have "get_aligned_entry_size (of_nat n) - of_nat n = of_nat (n + 7) - of_nat ((n + 7) mod 8) - of_nat n"
    by (simp add: get_aligned_entry_size_def Let_def)
  also have "\<dots> = of_nat (pad8 n)"
    using le by (simp add: pad8_def of_nat_diff)
  finally show ?thesis using pad8_le [of n] by (simp add: unat_of_nat)
qed

lemma set_fd_simps [simp]:
  "j_fd (set_fd i f j) = (j_fd j)(i := f)" "j_fd_valid (set_fd i f j) = j_fd_valid j"
  "j_open_txn (set_fd i f j) = j_open_txn j" "j_closed_txn (set_fd i f j) = j_closed_txn j"
  "j_current_fd (set_fd i f j) = j_current_fd j" "j_threshold (set_fd i f j) = j_threshold j"
  "j_lsn (set_fd i f j) = j_lsn j" "set_fd i (j_fd j i) j = j"
  by (simp_all add: set_fd_def)

lemma jrn_holds_cong:
  "j_fd j' i = j_fd j i \<Longrightarrow> j_fd_valid j' i = j_fd_valid j i \<Longrightarrow> jrn_holds j' i rs = jrn_holds j i rs"
  by (simp add: jrn_holds_def)

lemma jrn_holds_lsn [simp]: "jrn_holds (j\<lparr>j_lsn := x\<rparr>) i rs = jrn_holds j i rs"
  by (simp add: jrn_holds_def)

lemma jrn_append_entry_holds:
  assumes "jrn_holds j i rs" and "jrec_wf r" and "concat (map (case_option [] id) bufs) = jrec_image r"
    and "length (fdata (j_fd j i)) + length (jrec_image r) < off_max"
  shows "\<exists>f. jrn_append_entry j i bufs = (HAM_SUCCESS, set_fd i f j) \<and>
    jrn_holds (set_fd i f j) i (rs @ [r]) \<and>
    length (fdata f) = length (fdata (j_fd j i)) + length (jrec_image r) \<and> fscript f = []"
  using assms by (auto simp: jrn_append_entry_def jrn_holds_def os_ok Let_def)

lemma follow_size:
  "jop_wf (JInsert d key rec flags) \<Longrightarrow>
     sizeof_jrn_insert + ucast (of_nat (length key) :: u16) + of_nat (length (rec_data rec)) - 1 =
     (of_nat (18 + length key + length (rec_data rec)) :: u32)"
  "jop_wf (JErase d key dupe flags) \<Longrightarrow>
     sizeof_jrn_erase + ucast (of_nat (length key) :: u16) - 1 = (of_nat (10 + length key) :: u32)"
  by (simp_all add: sizeof_jrn_insert_def sizeof_jrn_erase_def unsigned_of_nat take_bit_nat_eq_self)

lemma length_follow:
  "length (jop_follow (JInsert d key rec flags)) =
     18 + length key + length (rec_data rec) + pad8 (18 + length key + length (rec_data rec))"
  "length (jop_follow (JErase d key dupe flags)) = 10 + length key + pad8 (10 + length key)"
  by simp_all

lemma follow_ucast:
  assumes "n + 8 < 2 ^ 32"
  shows "ucast (of_nat n + (get_aligned_entry_size (of_nat n) - of_nat n) :: u32) = (of_nat (n + pad8 n) :: u64)"
proof -
  have "get_aligned_entry_size (of_nat n) - of_nat n = (of_nat (pad8 n) :: u32)"
    by (simp add: padding_size [OF assms, symmetric])
  then have "of_nat n + (get_aligned_entry_size (of_nat n) - of_nat n) = (of_nat (n + pad8 n) :: u32)" by simp
  moreover have "n + pad8 n < 2 ^ 32" using assms pad8_le [of n] by simp
  ultimately show ?thesis by (simp add: unsigned_of_nat take_bit_nat_eq_self del: of_nat_add)
qed

lemma jrn_append_insert_holds:
  assumes "jrn_holds j i rs" and "jrec_wf (lsn, txn_id, JInsert d key rec flags)"
    and "length (fdata (j_fd j i)) + length (jrec_image (lsn, txn_id, JInsert d key rec flags)) < off_max"
  shows "\<exists>f. jrn_append_insert j d txn_id i key rec flags lsn = (HAM_SUCCESS, set_fd i f j) \<and>
    jrn_holds (set_fd i f j) i (rs @ [(lsn, txn_id, JInsert d key rec flags)])"
proof -
  let ?n = "18 + length key + length (rec_data rec)"
  have wf: "jop_wf (JInsert d key rec flags)" using assms(2) by (simp add: jrec_wf_def)
  then have n: "?n + 8 < 2 ^ 32" by simp
  have "\<exists>bufs. jrn_append_insert j d txn_id i key rec flags lsn = jrn_append_entry j i bufs \<and>
      concat (map (case_option [] id) bufs) = jrec_image (lsn, txn_id, JInsert d key rec flags)"
    unfolding jrn_append_insert_def Let_def follow_size(1) [OF wf] padding_size [OF n] follow_ucast [OF n]
    by (rule exI, rule conjI [OF refl])
       (simp add: jrec_image_def jrec_entry_def journal_entry_zero_def add.assoc)
  with jrn_append_entry_holds [OF assms(1,2) _ assms(3)] show ?thesis by metis
qed

lemma jrn_append_erase_holds:
  assumes "jrn_holds j i rs" and "jrec_wf (lsn, txn_id, JErase d key dupe flags)"
    and "length (fdata (j_fd j i)) + length (jrec_image (lsn, txn_id, JErase d key dupe flags)) < off_max"
  shows "\<exists>f. jrn_append_erase j d txn_id i key dupe flags lsn = (HAM_SUCCESS, set_fd i f j) \<and>
    jrn_holds (set_fd i f j) i (rs @ [(lsn, txn_id, JErase d key dupe flags)])"
proof -
  let ?n = "10 + length key"
  have wf: "jop_wf (JErase d key dupe flags)" using assms(2) by (simp add: jrec_wf_def)
  then have n: "?n + 8 < 2 ^ 32" by simp
  have "\<exists>bufs. jrn_append_erase j d txn_id i key dupe flags lsn = jrn_append_entry j i bufs \<and>
      concat (map (case_option [] id) bufs) = jrec_image (lsn, txn_id, JErase d key dupe flags)"
    unfolding jrn_append_erase_def Let_def follow_size(2) [OF wf] padding_size [OF n] follow_ucast [OF n]
    by (rule exI, rule conjI [OF refl])
       (simp add: jrec_image_def jrec_entry_def journal_entry_zero_def add.assoc)
  with jrn_append_entry_holds [OF assms(1,2) _ assms(3)] show ?thesis by metis
qed

lemma jrn_append_txn_end_holds:
  assumes "jrn_holds j i rs" and "jrec_wf (lsn, txn_id, op)" and "op = JAbort \<or> op = JCommit"
    and "length (fdata (j_fd j i)) + 32 < off_max"
  shows "\<exists>f. jrn_append_txn_end (jop_type op) j env_flags txn_id i lsn = (HAM_SUCCESS, (set_fd i f j)
      \<lparr>j_open_txn := (j_open_txn j)(i := j_open_txn j i - 1),
       j_closed_txn := (j_closed_txn j)(i := j_closed_txn j i + 1)\<rparr>) \<and>
    jrn_holds (set_fd i f j) i (rs @ [(lsn, txn_id, op)])"
proof -
  let ?j = "j\<lparr>j_open_txn := (j_open_txn j)(i := j_open_txn j i - 1),
       j_closed_txn := (j_closed_txn j)(i := j_closed_txn j i + 1)\<rparr>"
  have im: "jrec_image (lsn, txn_id, op) = enc_journal_entry (journal_entry_zero\<lparr>je_lsn := lsn,
      je_txn_id := txn_id, je_type := jop_type op\<rparr>)"
    using assms(3) by (auto simp: jrec_image_def jrec_entry_def journal_entry_zero_def)
  have "jrn_holds ?j i rs" using assms(1) by (simp add: jrn_holds_def)
  from jrn_append_entry_holds [OF this assms(2), of "[Some (jrec_image (lsn, txn_id, op))]"] assms(4) im
  obtain f where f: "jrn_append_entry ?j i [Some (jrec_image (lsn, txn_id, op))] = (HAM_SUCCESS, set_fd i f ?j)"
    "jrn_holds (set_fd i f ?j) i (rs @ [(lsn, txn_id, op)])" "fscript f = []" by auto
  have eq: "set_fd i f ?j = (set_fd i f j)\<lparr>j_open_txn := (j_open_txn j)(i := j_open_txn j i - 1),
       j_closed_txn := (j_closed_txn j)(i := j_closed_txn j i + 1)\<rparr>"
    by (simp add: set_fd_def)
  have "jrn_holds (set_fd i f j) i (rs @ [(lsn, txn_id, op)])"
    using f(2) by (simp add: jrn_holds_def)
  moreover have "os_flush f = (HAM_SUCCESS, f)" using f(3) by (simp add: os_flush_def os_ok)
  ultimately show ?thesis
    unfolding jrn_append_txn_end_def Let_def im [symmetric] f(1) prod.case eq [symmetric]
    by (intro exI [of _ f]) (auto simp: set_fd_def)
qed

text \<open>Clearing one file keeps the other and resets the counters.\<close>

lemma jrn_clear_file_holds:
  assumes "jrn_holds j i rs"
  shows "\<exists>f. jrn_clear_file j i = (HAM_SUCCESS, (set_fd i f j)
      \<lparr>j_open_txn := (j_open_txn j)(i := 0), j_closed_txn := (j_closed_txn j)(i := 0)\<rparr>) \<and>
    jrn_holds (set_fd i f j) i []"
  using assms
  by (auto simp: jrn_clear_file_def jrn_holds_def os_ok os_seek_set_def sizeof_jrn_header_def off_max_def)

lemma jrn_clear_holds:
  assumes "jrn_holds j 0 rs" and "jrn_holds j 1 rs'"
  shows "\<exists>j'. jrn_clear j = (HAM_SUCCESS, j') \<and> jrn_holds j' 0 [] \<and> jrn_holds j' 1 [] \<and> j_lsn j' = j_lsn j \<and>
    j_current_fd j' = j_current_fd j"
proof -
  obtain f where f: "jrn_clear_file j 0 = (HAM_SUCCESS, (set_fd 0 f j)
      \<lparr>j_open_txn := (j_open_txn j)(0 := 0), j_closed_txn := (j_closed_txn j)(0 := 0)\<rparr>)"
    "jrn_holds (set_fd 0 f j) 0 []" using jrn_clear_file_holds [OF assms(1)] by blast
  let ?j = "(set_fd 0 f j)\<lparr>j_open_txn := (j_open_txn j)(0 := 0), j_closed_txn := (j_closed_txn j)(0 := 0)\<rparr>"
  have "jrn_holds ?j 1 rs'" using assms(2) by (simp add: jrn_holds_def)
  from jrn_clear_file_holds [OF this] obtain g where g: "jrn_clear_file ?j 1 = (HAM_SUCCESS, (set_fd 1 g ?j)
      \<lparr>j_open_txn := (j_open_txn ?j)(1 := 0), j_closed_txn := (j_closed_txn ?j)(1 := 0)\<rparr>)"
    "jrn_holds (set_fd 1 g ?j) 1 []" by blast
  then show ?thesis using f by (simp add: jrn_clear_def jrn_holds_def)
qed

definition jrn_other :: "journal \<Rightarrow> nat" where
  "jrn_other j = (if j_current_fd j = 0 then 1 else 0)"

lemma jrn_get_record:
  assumes "jrn_holds j i (seen @ r # rest)"
    and "it_offset it = sizeof_jrn_header + length (jrn_image seen)" and "it_fdidx it = i"
  shows "jrn_get_entry j it e = (HAM_SUCCESS,
    it\<lparr>it_offset := sizeof_jrn_header + length (jrn_image (seen @ [r]))\<rparr>, jrec_entry r, jrec_aux r, j)"
proof -
  let ?f = "j_fd j i" and ?off = "sizeof_jrn_header + length (jrn_image seen)"
  let ?fl = "jop_follow (snd (snd r))"
  from assms(1) obtain h where h: "length h = sizeof_jrn_header"
    "fdata ?f = h @ jrn_image seen @ enc_journal_entry (jrec_entry r) @ ?fl @ jrn_image rest"
    "fscript ?f = []" "fpos ?f = length (fdata ?f)" "length (fdata ?f) < off_max"
    by (auto simp: jrn_holds_def jrec_image_def)
  have sz: "os_get_filesize ?f = (HAM_SUCCESS, length (fdata ?f), ?f)"
    using os_get_filesize_ok [OF h(5)] h(4) by (cases ?f) simp
  have r1: "os_pread ?f ?off sizeof_jrn_entry = (HAM_SUCCESS, enc_journal_entry (jrec_entry r), ?f)"
    using os_pread_ok [of ?f ?off sizeof_jrn_entry] h by (simp add: sizeof_jrn_entry_def sizeof_jrn_header_def)
  have r2: "os_pread ?f (?off + sizeof_jrn_entry) (length ?fl) = (HAM_SUCCESS, ?fl, ?f)"
    using os_pread_ok [of ?f "?off + sizeof_jrn_entry" "length ?fl"] h
    by (simp add: sizeof_jrn_entry_def sizeof_jrn_header_def)
  have fs: "unat (je_followup_size (jrec_entry r)) = length ?fl" "je_followup_size (jrec_entry r) = 0 \<longleftrightarrow> ?fl = []"
  proof -
    have "length ?fl < 18446744073709551616" using h(2,5) by (simp add: off_max_def)
    then show "unat (je_followup_size (jrec_entry r)) = length ?fl"
      by (auto simp: jrec_entry_def split: prod.splits)
    then show "je_followup_size (jrec_entry r) = 0 \<longleftrightarrow> ?fl = []" by (auto simp: unat_eq_0)
  qed
  have ne: "length (fdata ?f) \<noteq> ?off" using h(1,2) by (simp add: sizeof_jrn_header_def)
  have ln: "length (jrec_image r) = sizeof_jrn_entry + length ?fl"
    by (simp add: jrec_image_def sizeof_jrn_entry_def)
  have aux: "jrec_aux r = (if ?fl = [] then None else Some ?fl)"
    by (simp add: jrec_aux_def split: prod.split)
  show ?thesis
    using ne sz r1 r2 fs ln unfolding sizeof_jrn_header_def
    by (cases "?fl = []") (simp_all add: jrn_get_entry_def assms(2,3) aux sizeof_jrn_header_def)
qed

lemma jrn_get_end:
  assumes "jrn_holds j i rs" and "it_offset it = sizeof_jrn_header + length (jrn_image rs)"
    and "it_fdidx it = i" and "it_fdstart it \<noteq> i"
  shows "jrn_get_entry j it e = (HAM_SUCCESS, it, e\<lparr>je_lsn := 0\<rparr>, None, j)"
proof -
  let ?f = "j_fd j i"
  from assms(1) have h: "length (fdata ?f) = sizeof_jrn_header + length (jrn_image rs)"
    "fpos ?f = length (fdata ?f)" "length (fdata ?f) < off_max" by (auto simp: jrn_holds_def)
  have "os_get_filesize ?f = (HAM_SUCCESS, length (fdata ?f), ?f)"
    using os_get_filesize_ok [OF h(3)] h(2) by (cases ?f) simp
  then show ?thesis using h(1) assms(2-4) by (simp add: jrn_get_entry_def sizeof_jrn_header_def)
qed

lemma jrn_get_start:
  assumes "it_offset it = 0"
  shows "jrn_get_entry j it e =
    jrn_get_entry j \<lparr>it_fdidx = jrn_other j, it_fdstart = jrn_other j, it_offset = sizeof_jrn_header\<rparr> e"
  using assms by (simp add: jrn_get_entry_def jrn_other_def sizeof_jrn_header_def)

lemma jrn_get_skip:
  assumes "j_current_fd j \<le> 1" and "jrn_holds j (jrn_other j) old" and "jrn_holds j (j_current_fd j) new"
    and "it_fdidx it = jrn_other j" and "it_fdstart it = jrn_other j"
    and "it_offset it = sizeof_jrn_header + length (jrn_image old)"
  defines "it1 \<equiv> it\<lparr>it_fdidx := j_current_fd j, it_offset := sizeof_jrn_header\<rparr>"
  shows "jrn_get_entry j it e =
    (if new = [] then (HAM_SUCCESS, it1, e\<lparr>je_lsn := 0\<rparr>, None, j) else jrn_get_entry j it1 e)"
proof -
  let ?c = "j_current_fd j" and ?o = "jrn_other j"
  have sz: "os_get_filesize (j_fd j i) = (HAM_SUCCESS, length (fdata (j_fd j i)), j_fd j i)"
    if "jrn_holds j i rs" for i rs
    using os_get_filesize_ok [of "j_fd j i"] that by (cases "j_fd j i") (simp add: jrn_holds_def)
  have len: "length (fdata (j_fd j ?o)) = sizeof_jrn_header + length (jrn_image old)"
    "length (fdata (j_fd j ?c)) = sizeof_jrn_header + length (jrn_image new)"
    using assms(2,3) by (auto simp: jrn_holds_def)
  have new: "jrn_image new = [] \<longleftrightarrow> new = []" by (cases new) (auto simp: jrec_image_def)
  have "?c = 0 \<and> ?o = 1 \<or> ?c = 1 \<and> ?o = 0" using assms(1) by (auto simp: jrn_other_def)
  then show ?thesis
    using sz [OF assms(2)] sz [OF assms(3)] len new
    by (cases "new = []"; elim disjE conjE)
       (simp_all add: jrn_get_entry_def assms(4-6) it1_def sizeof_jrn_header_def)
qed

text \<open>The position of an iterator that has been started: the records it has not returned yet.\<close>

definition jrn_started :: "journal \<Rightarrow> jrec list \<Rightarrow> jrec list \<Rightarrow> jrn_iterator \<Rightarrow> jrec list \<Rightarrow> bool" where
  "jrn_started j old new it rs \<longleftrightarrow>
     j_current_fd j \<le> 1 \<and> jrn_holds j (jrn_other j) old \<and> jrn_holds j (j_current_fd j) new \<and>
     it_fdstart it = jrn_other j \<and>
     (\<exists>seen rest. it_offset it = sizeof_jrn_header + length (jrn_image seen) \<and>
        (it_fdidx it = jrn_other j \<and> old = seen @ rest \<and> rs = rest @ new \<or>
         it_fdidx it = j_current_fd j \<and> new = seen @ rest \<and> rs = rest))"

lemma jrn_started_current:
  assumes "j_current_fd j \<le> 1" "jrn_holds j (jrn_other j) old" "jrn_holds j (j_current_fd j) (seen @ r # rs)"
    and "it_fdstart it = jrn_other j" "it_fdidx it = j_current_fd j"
    and "it_offset it = sizeof_jrn_header + length (jrn_image seen)"
  shows "\<exists>it'. jrn_get_entry j it e = (HAM_SUCCESS, it', jrec_entry r, jrec_aux r, j) \<and>
    jrn_started j old (seen @ r # rs) it' rs"
proof (intro exI conjI)
  show "jrn_get_entry j it e = (HAM_SUCCESS,
      it\<lparr>it_offset := sizeof_jrn_header + length (jrn_image (seen @ [r]))\<rparr>, jrec_entry r, jrec_aux r, j)"
    by (rule jrn_get_record [OF assms(3,6,5)])
  show "jrn_started j old (seen @ r # rs) (it\<lparr>it_offset := sizeof_jrn_header + length (jrn_image (seen @ [r]))\<rparr>) rs"
    unfolding jrn_started_def by (intro conjI exI [of _ "seen @ [r]"] exI [of _ rs]) (use assms in simp_all)
qed

lemma jrn_started_next:
  assumes "jrn_started j old new it (r # rs)"
  shows "\<exists>it'. jrn_get_entry j it e = (HAM_SUCCESS, it', jrec_entry r, jrec_aux r, j) \<and>
    jrn_started j old new it' rs"
proof -
  from assms obtain seen rest where
    a: "j_current_fd j \<le> 1" "jrn_holds j (jrn_other j) old" "jrn_holds j (j_current_fd j) new"
      "it_fdstart it = jrn_other j" "it_offset it = sizeof_jrn_header + length (jrn_image seen)"
    and b: "it_fdidx it = jrn_other j \<and> old = seen @ rest \<and> r # rs = rest @ new \<or>
      it_fdidx it = j_current_fd j \<and> new = seen @ rest \<and> r # rs = rest"
    unfolding jrn_started_def by blast
  from b consider (Old) rest' where "it_fdidx it = jrn_other j" "old = seen @ r # rest'" "rs = rest' @ new"
    | (Skip) "it_fdidx it = jrn_other j" "old = seen" "new = r # rs"
    | (New) "it_fdidx it = j_current_fd j" "new = seen @ r # rs"
    by (cases rest) auto
  then show ?thesis
  proof cases
    case Old
    have "jrn_holds j (jrn_other j) (seen @ r # rest')" using a(2) Old by simp
    note g = jrn_get_record [OF this a(5) Old(1), of e]
    have "jrn_started j old new (it\<lparr>it_offset := sizeof_jrn_header + length (jrn_image (seen @ [r]))\<rparr>) rs"
      unfolding jrn_started_def
      by (intro conjI exI [of _ "seen @ [r]"] exI [of _ rest']) (use a Old in simp_all)
    with g show ?thesis by blast
  next
    case Skip
    let ?it = "it\<lparr>it_fdidx := j_current_fd j, it_offset := sizeof_jrn_header\<rparr>"
    have "jrn_get_entry j it e = jrn_get_entry j ?it e"
      using jrn_get_skip [OF a(1-3) Skip(1) a(4), of e] a(5) Skip by simp
    with jrn_started_current [of j old "[]" r rs ?it e] a Skip show ?thesis by simp
  next
    case New
    with jrn_started_current [of j old seen r rs it e] a show ?thesis by simp
  qed
qed

lemma jrn_started_end:
  assumes "jrn_started j old new it []"
  shows "\<exists>it'. jrn_get_entry j it e = (HAM_SUCCESS, it', e\<lparr>je_lsn := 0\<rparr>, None, j)"
proof -
  from assms obtain seen rest where
    a: "j_current_fd j \<le> 1" "jrn_holds j (jrn_other j) old" "jrn_holds j (j_current_fd j) new"
      "it_fdstart it = jrn_other j" "it_offset it = sizeof_jrn_header + length (jrn_image seen)"
    and b: "it_fdidx it = jrn_other j \<and> old = seen \<and> new = [] \<or> it_fdidx it = j_current_fd j \<and> new = seen"
    unfolding jrn_started_def by auto
  from b show ?thesis
  proof
    assume c: "it_fdidx it = jrn_other j \<and> old = seen \<and> new = []"
    then show ?thesis using jrn_get_skip [OF a(1-3) _ a(4), of e] a(5) by simp
  next
    assume c: "it_fdidx it = j_current_fd j \<and> new = seen"
    moreover have "jrn_other j \<noteq> j_current_fd j" using a(1) by (auto simp: jrn_other_def)
    ultimately show ?thesis using jrn_get_end [OF a(3), of it e] a(4,5) by simp
  qed
qed

lemma jrn_rest_started:
  assumes "j_current_fd j \<le> 1" "jrn_holds j (jrn_other j) old" "jrn_holds j (j_current_fd j) new"
    and "it_offset it = 0"
  shows "\<exists>it'. jrn_get_entry j it e = jrn_get_entry j it' e \<and> jrn_started j old new it' (old @ new)"
proof (intro exI conjI)
  show "jrn_get_entry j it e = jrn_get_entry j
      \<lparr>it_fdidx = jrn_other j, it_fdstart = jrn_other j, it_offset = sizeof_jrn_header\<rparr> e"
    by (rule jrn_get_start [OF assms(4)])
  show "jrn_started j old new
      \<lparr>it_fdidx = jrn_other j, it_fdstart = jrn_other j, it_offset = sizeof_jrn_header\<rparr> (old @ new)"
    unfolding jrn_started_def by (intro conjI exI [of _ "[]"] exI [of _ old]) (use assms in simp_all)
qed

section \<open>Replaying records\<close>

text \<open>What recovery does with a record, over the records instead of their bytes.\<close>

fun replay_op :: "('s, 't, 'd) replay \<Rightarrow> u64 \<Rightarrow> jrec \<Rightarrow> 's \<Rightarrow> (ham_status \<times> 's) option" where
  "replay_op R start_lsn (lsn, txn_id, JBegin name) s = Some (replay_begin R txn_id name s)"
| "replay_op R start_lsn (lsn, txn_id, JAbort) s = Some (replay_end R (rp_txn_abort R) txn_id s)"
| "replay_op R start_lsn (lsn, txn_id, JCommit) s = Some (replay_end R (rp_txn_commit R) txn_id s)"
| "replay_op R start_lsn (lsn, txn_id, JInsert dbname key rec flags) s =
     (if lsn \<le> start_lsn then None
      else Some (replay_data R (\<lambda>db t. rp_insert R db t key rec (flags OR HAM_DONT_LOCK)) txn_id dbname s))"
| "replay_op R start_lsn (lsn, txn_id, JErase dbname key dupe flags) s =
     (if lsn \<le> start_lsn then None
      else Some (replay_data R (\<lambda>db t s'. ignore_missing_key (rp_erase R db t key (flags OR HAM_DONT_LOCK) s'))
             txn_id dbname s))"

fun replay_all ::
  "('s, 't, 'd) replay \<Rightarrow> u64 \<Rightarrow> u64 \<Rightarrow> jrec list \<Rightarrow> 's \<Rightarrow> ham_status \<times> u64 \<times> 's" where
  "replay_all R start_lsn last_lsn [] s = (HAM_SUCCESS, last_lsn, s)"
| "replay_all R start_lsn last_lsn (r # rs) s =
     (case replay_op R start_lsn r s of
        None \<Rightarrow> replay_all R start_lsn last_lsn rs s
      | Some (st, s') \<Rightarrow>
          if st \<noteq> HAM_SUCCESS then (st, last_lsn, s') else replay_all R start_lsn (fst r) rs s')"

lemma ucast_lengths [simp]:
  "n < 65536 \<Longrightarrow> unat (of_nat n :: u16) = n" "n < 4294967296 \<Longrightarrow> unat (of_nat n :: u32) = n"
  by (simp_all add: unat_of_nat)

lemma insert_follow:
  assumes "jop_wf (JInsert d key rec flags)"
  defines "a \<equiv> jop_follow (JInsert d key rec flags)"
  shows "insert_key_data a = key" "insert_record_data a = rec_data rec" "a \<noteq> []"
    "ji_record_partial_size (dec_journal_insert a) = rec_partial_size rec"
    "ji_record_partial_offset (dec_journal_insert a) = rec_partial_offset rec"
    "ji_insert_flags (dec_journal_insert a) = flags"
  using assms by (auto simp: a_def insert_key_data_def insert_record_data_def simp flip: length_0_conv)

lemma erase_follow:
  assumes "jop_wf (JErase d key dupe flags)"
  defines "a \<equiv> jop_follow (JErase d key dupe flags)"
  shows "erase_key_data a = key" "a \<noteq> []" "jx_erase_flags (dec_journal_erase a) = flags"
    "jx_duplicate (dec_journal_erase a) = dupe"
  using assms by (auto simp: a_def erase_key_data_def simp flip: length_0_conv)

lemmas entry_types = ENTRY_TYPE_TXN_BEGIN_def ENTRY_TYPE_TXN_ABORT_def ENTRY_TYPE_TXN_COMMIT_def
  ENTRY_TYPE_INSERT_def ENTRY_TYPE_ERASE_def

lemma recover_record_op:
  assumes "jrec_wf r"
  shows "recover_record R start_lsn (jrec_entry r) (jrec_aux r) s = replay_op R start_lsn r s"
proof -
  obtain lsn txn_id op where r: "r = (lsn, txn_id, op)" by (cases r) auto
  with assms have wf: "jop_wf op" by (simp add: jrec_wf_def)
  show ?thesis
  proof (cases op)
    case (JBegin name)
    have "takeWhile (\<lambda>b. b \<noteq> 0) (n @ [0]) = n" if "0 \<notin> set n" for n :: "byte list"
      using that by (induction n) auto
    then show ?thesis using wf JBegin
      by (auto simp: r recover_record_def jrec_entry_def jrec_aux_def split: option.splits)
  next
    case (JInsert d key rec flags)
    note f = insert_follow [OF wf [unfolded JInsert]]
    with JInsert show ?thesis
      by (cases rec) (simp add: r recover_record_def jrec_entry_def jrec_aux_def entry_types Let_def del: jop_follow.simps)
  next
    case (JErase d key dupe flags)
    note f = erase_follow [OF wf [unfolded JErase]]
    with JErase show ?thesis
      by (simp add: r recover_record_def jrec_entry_def jrec_aux_def entry_types Let_def del: jop_follow.simps)
  qed (simp_all add: r recover_record_def jrec_entry_def jrec_aux_def entry_types)
qed

lemma jrn_started_lsn [simp]:
  "jrn_started (j\<lparr>j_lsn := x\<rparr>) old new it rs = jrn_started j old new it rs"
  by (simp add: jrn_started_def jrn_holds_def jrn_other_def)

lemma jrn_started_wf: "jrn_started j old new it rs \<Longrightarrow> r \<in> set rs \<Longrightarrow> jrec_wf r"
  by (auto simp: jrn_started_def jrn_holds_def)

lemma jrn_recover_loop_all:
  assumes "jrn_started j old new it rs"
  shows "jrn_recover_loop R start_lsn j it s =
    (case replay_all R start_lsn (j_lsn j) rs s of (st, lsn, s') \<Rightarrow> Some (st, j\<lparr>j_lsn := lsn\<rparr>, s'))"
  using assms
proof (induction rs arbitrary: j it s)
  case Nil
  then show ?case using jrn_started_end [OF Nil, of journal_entry_zero]
    by (subst jrn_recover_loop.simps) (auto simp: journal_entry_zero_def)
next
  case (Cons r rs)
  from jrn_started_next [OF Cons.prems, of journal_entry_zero] obtain it' where
    g: "jrn_get_entry j it journal_entry_zero = (HAM_SUCCESS, it', jrec_entry r, jrec_aux r, j)"
    and st: "jrn_started j old new it' rs" by blast
  have wf: "jrec_wf r" using jrn_started_wf [OF Cons.prems] by simp
  then have lsn: "je_lsn (jrec_entry r) = fst r" "fst r \<noteq> 0"
    by (auto simp: jrec_entry_def jrec_wf_def split: prod.split)
  show ?case
  proof (cases "replay_op R start_lsn r s")
    case None
    then show ?thesis using Cons.IH [OF st, of s] g lsn
      by (subst jrn_recover_loop.simps) (simp add: recover_record_op [OF wf])
  next
    case (Some p)
    obtain st' s' where p: "p = (st', s')" by (cases p)
    have "jrn_started (j\<lparr>j_lsn := fst r\<rparr>) old new it' rs" using st by simp
    from Cons.IH [OF this, of s'] Some p g lsn show ?thesis
      by (subst jrn_recover_loop.simps)
         (auto simp: recover_record_op [OF wf] simp del: split_paired_All)
  qed
qed


section \<open>Theorems\<close>

text \<open>
  C3. Journal recovery replays the journal. For a journal whose files hold the records
  \<open>old\<close> (in the file not written to) and \<open>new\<close>, recovery returns, and what it does to the
  environment is: apply the operations of \<open>old\<close> and then of \<open>new\<close> in order, leave out
  inserts and erases whose serial number is not above the log's, stop at the first
  error, abort every transaction that is not committed and close the databases. The
  files are emptied exactly when there was no error.
\<close>

theorem journal_recover_replays:
  assumes "j_current_fd j \<le> 1" and "jrn_holds j (jrn_other j) old" and "jrn_holds j (j_current_fd j) new"
    and "replay_all R start_lsn (j_lsn j) (old @ new) s = (st, lsn, s1)"
  shows "\<exists>j'. jrn_recover R start_lsn j s =
      Some (st, j', rp_close_all R (snd (abort_uncommitted_txns R s1))) \<and> j_lsn j' = lsn \<and>
    (if st = HAM_SUCCESS then jrn_holds j' 0 [] \<and> jrn_holds j' 1 []
     else jrn_holds j' (jrn_other j) old \<and> jrn_holds j' (j_current_fd j) new)"
proof -
  from jrn_rest_started [OF assms(1-3), of iterator_zero journal_entry_zero] obtain it where
    g: "jrn_get_entry j iterator_zero journal_entry_zero = jrn_get_entry j it journal_entry_zero"
    and st: "jrn_started j old new it (old @ new)" by (auto simp: iterator_zero_def)
  have "jrn_recover_loop R start_lsn j iterator_zero s = jrn_recover_loop R start_lsn j it s"
    by (subst (1 2) jrn_recover_loop.simps) (simp add: g)
  then have loop: "jrn_recover_loop R start_lsn j iterator_zero s = Some (st, j\<lparr>j_lsn := lsn\<rparr>, s1)"
    using jrn_recover_loop_all [OF st, of R start_lsn s] assms(4) by simp
  obtain rs rs' where "jrn_holds (j\<lparr>j_lsn := lsn\<rparr>) 0 rs" "jrn_holds (j\<lparr>j_lsn := lsn\<rparr>) 1 rs'"
    using assms(1-3) by (auto simp: jrn_other_def le_Suc_eq)
  from jrn_clear_holds [OF this] obtain j' where "jrn_clear (j\<lparr>j_lsn := lsn\<rparr>) = (HAM_SUCCESS, j')"
    "jrn_holds j' 0 []" "jrn_holds j' 1 []" "j_lsn j' = lsn" by auto
  with loop assms(2,3) show ?thesis by (cases "st = HAM_SUCCESS") (simp_all add: jrn_recover_def)
qed

text \<open>
  C36. An insert survives the journal unchanged: after \<open>append_insert\<close> the iterator that
  stands behind the earlier records reads an entry with the serial number, transaction
  and database of the operation, and the key, record, partial-record fields and flags
  taken from its follow-up bytes are the ones that were written, for every key and
  record whose sizes fit their fields.
\<close>

theorem journal_insert_roundtrip:
  assumes "jrn_holds j i rs" and "lsn \<noteq> 0" and "length key < 2 ^ 16"
    and "length key + length (rec_data rec) + 32 < 2 ^ 32"
    and "length (fdata (j_fd j i)) + length key + length (rec_data rec) + 64 < off_max"
    and "it_fdidx it = i" and "it_offset it = length (fdata (j_fd j i))"
  shows "\<exists>j' it' ent aux. jrn_append_insert j d txn_id i key rec flags lsn = (HAM_SUCCESS, j') \<and>
    jrn_get_entry j' it e = (HAM_SUCCESS, it', ent, Some aux, j') \<and>
    it_offset it' = length (fdata (j_fd j' i)) \<and>
    je_lsn ent = lsn \<and> je_txn_id ent = txn_id \<and> je_dbname ent = d \<and> je_type ent = ENTRY_TYPE_INSERT \<and>
    insert_key_data aux = key \<and> insert_record_data aux = rec_data rec \<and>
    ji_record_partial_size (dec_journal_insert aux) = rec_partial_size rec \<and>
    ji_record_partial_offset (dec_journal_insert aux) = rec_partial_offset rec \<and>
    ji_insert_flags (dec_journal_insert aux) = flags"
proof -
  let ?op = "JInsert d key rec flags"
  let ?r = "(lsn, txn_id, ?op)"
  have wf: "jop_wf ?op" "jrec_wf ?r" using assms(2-4) by (simp_all add: jrec_wf_def)
  have "length (jrec_image ?r) \<le> length key + length (rec_data rec) + 57"
    using pad8_le [of "18 + length key + length (rec_data rec)"] by (simp add: jrec_image_def)
  then obtain f where f: "jrn_append_insert j d txn_id i key rec flags lsn = (HAM_SUCCESS, set_fd i f j)"
    "jrn_holds (set_fd i f j) i (rs @ [?r])"
    using jrn_append_insert_holds [OF assms(1) wf(2)] assms(5) by auto
  have off: "it_offset it = sizeof_jrn_header + length (jrn_image rs)" "it_fdidx it = i"
    using assms(1,6,7) by (auto simp: jrn_holds_def)
  have len: "length (fdata f) = sizeof_jrn_header + length (jrn_image (rs @ [?r]))"
    using f(2) by (auto simp: jrn_holds_def)
  have "jrn_get_entry (set_fd i f j) it e = (HAM_SUCCESS,
      it\<lparr>it_offset := length (fdata f)\<rparr>, jrec_entry ?r, Some (jop_follow ?op), set_fd i f j)"
    using jrn_get_record [OF f(2) off, of e] len insert_follow(3) [OF wf(1)]
    by (simp add: jrec_aux_def del: jop_follow.simps)
  with f(1) insert_follow [OF wf(1)] show ?thesis
    by (simp add: jrec_entry_def del: jop_follow.simps)
qed

text \<open>
  C37. A new transaction never costs an open one its records: \<open>append_txn_begin\<close> appends
  its record to the file it selects; the current file is only ever extended, and the
  other file is emptied only when no transaction in it is open. The counter of open
  transactions of the selected file grows by one.
\<close>

theorem journal_switch_keeps_open_transactions:
  assumes "j_current_fd j \<le> 1" and "jrn_holds j 0 (rs 0)" and "jrn_holds j 1 (rs 1)"
    and "lsn \<noteq> 0" and "case name of None \<Rightarrow> True | Some n \<Rightarrow> 0 \<notin> set n \<and> length n < 2 ^ 32"
    and "\<forall>i \<le> 1. length (fdata (j_fd j i)) + 33 + length (case_option [] id name) < off_max"
  shows "\<exists>j' d. jrn_append_txn_begin j txn_id name name lsn = (HAM_SUCCESS, j', Some d) \<and>
    d \<le> 1 \<and> j_current_fd j' = d \<and>
    (jrn_holds j' d (rs d @ [(lsn, txn_id, JBegin name)]) \<or>
     jrn_holds j' d [(lsn, txn_id, JBegin name)] \<and> d \<noteq> j_current_fd j \<and> j_open_txn j d = 0) \<and>
    jrn_holds j' (1 - d) (rs (1 - d)) \<and>
    j_open_txn j' = (j_open_txn j)(d := j_open_txn j d + 1)"
proof -
  let ?r = "(lsn, txn_id, JBegin name)" and ?c = "j_current_fd j"
  let ?o = "if ?c \<noteq> 0 then 0 else 1 :: nat"
  define bufs where "bufs = [Some (enc_journal_entry (jrec_entry ?r))] @
     (case name of None \<Rightarrow> [] | Some n \<Rightarrow> [Some (n @ [0])])"
  have wf: "jrec_wf ?r" using assms(4,5) by (simp add: jrec_wf_def)
  have im: "concat (map (case_option [] id) bufs) = jrec_image ?r"
    "length (jrec_image ?r) \<le> 33 + length (case_option [] id name)"
    by (simp_all add: bufs_def jrec_image_def split: option.split)
  have ent: "journal_entry_zero\<lparr>je_txn_id := txn_id, je_type := ENTRY_TYPE_TXN_BEGIN, je_lsn := lsn,
      je_followup_size := (case name of None \<Rightarrow> 0 | Some n \<Rightarrow> of_nat (length n + 1))\<rparr> = jrec_entry ?r"
    by (simp add: journal_entry_zero_def jrec_entry_def split: option.split)
  have app: "\<exists>f. jrn_append_entry k d bufs = (HAM_SUCCESS, set_fd d f k) \<and> jrn_holds (set_fd d f k) d (us @ [?r])"
    if "jrn_holds k d us" "length (fdata (j_fd k d)) + 33 + length (case_option [] id name) < off_max" for k d us
    using jrn_append_entry_holds [OF that(1) wf im(1)] im(2) that(2) by fastforce
  have c: "?c = 0 \<or> ?c = 1" using assms(1) by auto
  show ?thesis
  proof (cases "\<not> j_open_txn j ?c + j_closed_txn j ?c < j_threshold j \<and> j_open_txn j ?o = 0")
    case False
    then have eq: "jrn_append_txn_begin j txn_id name name lsn =
      (case jrn_append_entry j ?c bufs of (st', j2) \<Rightarrow>
         if st' \<noteq> HAM_SUCCESS then (st', j2, Some ?c)
         else (HAM_SUCCESS, j2\<lparr>j_open_txn := (j_open_txn j2)(?c := j_open_txn j2 ?c + 1), j_current_fd := ?c\<rparr>, Some ?c))"
      unfolding jrn_append_txn_begin_def Let_def ent bufs_def by auto
    have "jrn_holds j ?c (rs ?c)" using c assms(2,3) by auto
    from app [OF this] assms(1,6) obtain f where
      f: "jrn_append_entry j ?c bufs = (HAM_SUCCESS, set_fd ?c f j)" "jrn_holds (set_fd ?c f j) ?c (rs ?c @ [?r])"
      by auto
    have "jrn_holds j (1 - ?c) (rs (1 - ?c))" using c assms(2,3) by auto
    with f c show ?thesis unfolding eq by (auto simp: jrn_holds_def)
  next
    case True
    have o: "?o \<noteq> ?c" "1 - ?o = ?c" "?o \<le> 1" using c by auto
    have ho: "jrn_holds j ?o (rs ?o)" "jrn_holds j ?c (rs ?c)" using c assms(2,3) by auto
    from jrn_clear_file_holds [OF ho(1)] obtain f where
      f: "jrn_clear_file j ?o = (HAM_SUCCESS, (set_fd ?o f j)
        \<lparr>j_open_txn := (j_open_txn j)(?o := 0), j_closed_txn := (j_closed_txn j)(?o := 0)\<rparr>)"
      "jrn_holds (set_fd ?o f j) ?o []" by blast
    define k where "k = (set_fd ?o f j)\<lparr>j_open_txn := (j_open_txn j)(?o := 0),
      j_closed_txn := (j_closed_txn j)(?o := 0), j_current_fd := ?o\<rparr>"
    have eq: "jrn_append_txn_begin j txn_id name name lsn =
      (case jrn_append_entry k ?o bufs of (st', j2) \<Rightarrow>
         if st' \<noteq> HAM_SUCCESS then (st', j2, Some ?o)
         else (HAM_SUCCESS, j2\<lparr>j_open_txn := (j_open_txn j2)(?o := j_open_txn j2 ?o + 1), j_current_fd := ?o\<rparr>, Some ?o))"
      using True f(1) unfolding jrn_append_txn_begin_def Let_def ent bufs_def k_def by auto
    have "jrn_holds k ?o []" using f(2) by (simp add: k_def jrn_holds_def)
    moreover have "length (fdata (j_fd k ?o)) \<le> length (fdata (j_fd j ?o))"
      using f(2) ho(1) by (auto simp: k_def jrn_holds_def)
    ultimately obtain g where
      g: "jrn_append_entry k ?o bufs = (HAM_SUCCESS, set_fd ?o g k)" "jrn_holds (set_fd ?o g k) ?o [?r]"
      using app [of k ?o "[]"] assms(6) o(3) by fastforce
    have "jrn_holds (set_fd ?o g k) ?c (rs ?c)" using ho(2) o(1) by (simp add: k_def jrn_holds_def)
    with g True o show ?thesis unfolding eq
      by (intro exI [of _ "(set_fd ?o g k)\<lparr>j_open_txn := (j_open_txn k)(?o := j_open_txn k ?o + 1), j_current_fd := ?o\<rparr>"]
            exI [of _ ?o]) (auto simp: jrn_holds_def k_def)
  qed
qed

text \<open>
  \<open>Journal::open\<close> loses the serial number of a journal that ends with an insert. It
  takes the last 32 bytes of a file for the last entry, but an insert is followed by its
  key and record. For a journal whose only record is an insert of an empty key and
  record, the number it computes is made of the entry's type and database name and does
  not depend on the serial number that was written.
\<close>

theorem journal_open_misreads_lsn:
  "\<exists>j. jrn_open
      (Some (enc_jrn_header JOURNAL_HEADER_MAGIC 0 @
             jrec_image (lsn, txn_id, JInsert d [] \<lparr>rec_data = [], rec_partial_size = 0, rec_partial_offset = 0\<rparr> 0)))
      [] (Some (enc_jrn_header JOURNAL_HEADER_MAGIC 0)) [] = (HAM_SUCCESS, j) \<and>
    j_lsn j = 4 + push_bit 32 (ucast d)"
proof -
  let ?rec = "\<lparr>rec_data = [], rec_partial_size = 0, rec_partial_offset = 0\<rparr> :: ham_record"
  let ?r = "(lsn, txn_id, JInsert d [] ?rec 0) :: jrec"
  let ?h = "enc_jrn_header JOURNAL_HEADER_MAGIC 0"
  let ?f = "\<lambda>c. \<lparr>fdata = c, fpos = 0, fscript = []\<rparr> :: os_file"
  define fl where "fl = jop_follow (JInsert d [] ?rec 0)"
  have fl: "length fl = 24" by (simp add: fl_def pad8_def)
  define pre where "pre = put_u64 lsn @ put_u64 24 @ put_u64 txn_id"
  define tl where "tl = put_u32 ENTRY_TYPE_INSERT @ put_u16 d @ put_u16 0"
  have im: "jrec_image ?r = pre @ tl @ fl"
    using fl by (simp add: jrec_image_def jrec_entry_def enc_journal_entry_def pre_def tl_def fl_def)
  have len: "length pre = 24" "length tl = 8" by (simp_all add: pre_def tl_def)
  have hd: "get_u32 0 ?h = JOURNAL_HEADER_MAGIC" "get_u64 8 ?h = 0" by (simp_all add: enc_jrn_header_def encoding)
  have p1: "os_pread (?f (?h @ xs)) 0 16 = (HAM_SUCCESS, ?h, ?f (?h @ xs))" for xs
    using os_pread_ok [of "?f (?h @ xs)" 0 16] by (simp add: off_max_def)
  let ?g = "\<lparr>fdata = ?h @ pre @ tl @ fl, fpos = 72, fscript = []\<rparr> :: os_file"
  have p2: "os_pread ?g 40 32 = (HAM_SUCCESS, tl @ fl, ?g)"
    using os_pread_ok [of ?g 40 32] fl len by (simp add: off_max_def)
  have sz: "os_get_filesize (?f (?h @ pre @ tl @ fl)) = (HAM_SUCCESS, 72, ?g)"
    "os_get_filesize (?f ?h) = (HAM_SUCCESS, 16, \<lparr>fdata = ?h, fpos = 16, fscript = []\<rparr>)"
    using fl len os_get_filesize_ok [of "?f (?h @ pre @ tl @ fl)"] os_get_filesize_ok [of "?f ?h"]
    by (simp_all add: off_max_def)
  have "le_nat tl = 4 + 4294967296 * unat d"
    by (simp add: tl_def le_nat_append put_u32_def put_u16_def le_nat_le_bytes ENTRY_TYPE_INSERT_def)
  then have "je_lsn (dec_journal_entry (tl @ fl)) = 4 + push_bit 32 (ucast d)"
    using len by (simp add: dec_journal_entry_def get_u64_def push_bit_eq_mult mult.commute)
  moreover have "\<exists>j. jrn_open (Some (?h @ pre @ tl @ fl)) [] (Some ?h) [] = (HAM_SUCCESS, j) \<and>
     j_lsn j = je_lsn (dec_journal_entry (tl @ fl))"
    using p1 [of "pre @ tl @ fl"] p1 [of "[]"] p2 sz hd
    by (simp add: jrn_open_def jrn_open_file_def jrn_last_lsn_def os_open_def lock_exclusive_def sys_result_def
        sizeof_jrn_header_def sizeof_jrn_entry_def jrn_new_def Let_def word_gt_0)
  ultimately show ?thesis unfolding im by simp
qed

section \<open>Concrete journals\<close>

definition jrn_file :: "jrec list \<Rightarrow> os_file" where
  "jrn_file rs = \<lparr>fdata = enc_jrn_header JOURNAL_HEADER_MAGIC 0 @ jrn_image rs,
     fpos = 16 + length (jrn_image rs), fscript = []\<rparr>"

definition jrn_of :: "jrec list \<Rightarrow> jrec list \<Rightarrow> journal" where
  "jrn_of rs0 rs1 = jrn_new\<lparr>j_fd := (\<lambda>i. if i = 0 then jrn_file rs0 else jrn_file rs1), j_fd_valid := (\<lambda>_. True)\<rparr>"

lemma jrn_of_holds:
  assumes "\<forall>r \<in> set rs0. jrec_wf r" and "length (jrn_image rs0) < 2 ^ 32"
    and "\<forall>r \<in> set rs1. jrec_wf r" and "length (jrn_image rs1) < 2 ^ 32"
  shows "jrn_holds (jrn_of rs0 rs1) 0 rs0" "jrn_holds (jrn_of rs0 rs1) 1 rs1"
    "j_current_fd (jrn_of rs0 rs1) = 0" "jrn_other (jrn_of rs0 rs1) = 1"
  using assms by (simp_all add: jrn_of_def jrn_holds_def jrn_file_def jrn_new_def jrn_other_def
      sizeof_jrn_header_def off_max_def)

text \<open>A small environment: the ids of the active transactions and the inserted keys.\<close>

definition sample_replay :: "(u64 list \<times> byte list list, u64, unit) replay" where
  "sample_replay = \<lparr>rp_txns = fst, rp_txn_id = (\<lambda>s t. t), rp_committed = (\<lambda>s t. False),
     rp_txn_begin = (\<lambda>n s. (HAM_SUCCESS, 0, (fst s @ [0], snd s))),
     rp_set_txn_id = (\<lambda>t i s. (map (\<lambda>x. if x = t then i else x) (fst s), snd s)),
     rp_txn_abort = (\<lambda>t s. (HAM_SUCCESS, (filter (\<lambda>x. x \<noteq> t) (fst s), snd s))),
     rp_txn_commit = (\<lambda>t s. (HAM_SUCCESS, (filter (\<lambda>x. x \<noteq> t) (fst s), snd s))),
     rp_databases = (\<lambda>s. [(1, ())]), rp_open_db = (\<lambda>d s. (HAM_DATABASE_NOT_FOUND, (), s)),
     rp_insert = (\<lambda>d t k r f s. (HAM_SUCCESS, (fst s, snd s @ [k]))),
     rp_erase = (\<lambda>d t k f s. (HAM_KEY_NOT_FOUND, s)), rp_close_all = id\<rparr>"

definition sample_records :: "jrec list" where
  "sample_records = [(1, 7, JBegin None),
     (2, 7, JInsert 1 [65] \<lparr>rec_data = [66, 67], rec_partial_size = 0, rec_partial_offset = 0\<rparr> 0), (3, 7, JCommit)]"

lemma sample_records_wf: "\<forall>r \<in> set sample_records. jrec_wf r" "length (jrn_image sample_records) = 120"
  by (simp_all add: sample_records_def jrec_wf_def jrec_image_def pad8_def)

theorem journal_recover_replays_witness:
  "\<exists>j'. jrn_recover sample_replay 0 (jrn_of sample_records []) ([], []) = Some (HAM_SUCCESS, j', ([], [[65]])) \<and>
     j_lsn j' = 3 \<and> jrn_holds j' 0 [] \<and> jrn_holds j' 1 []"
proof -
  let ?j = "jrn_of sample_records []"
  have h: "jrn_holds ?j 0 sample_records" "jrn_holds ?j 1 []" "j_current_fd ?j = 0" "jrn_other ?j = 1"
    using jrn_of_holds [of sample_records "[]"] sample_records_wf by simp_all
  have r: "replay_all sample_replay 0 (j_lsn ?j) ([] @ sample_records) ([], []) = (HAM_SUCCESS, 3, ([], [[65]]))"
    by (simp add: sample_records_def sample_replay_def replay_begin_def replay_end_def replay_data_def
        recover_get_txn_def recover_get_db_def)
  have "abort_uncommitted_txns sample_replay ([], [[65]]) = (HAM_SUCCESS, ([], [[65]]))"
    by (simp add: abort_uncommitted_txns_def sample_replay_def)
  with journal_recover_replays [of ?j "[]" sample_records, OF _ _ _ r] h show ?thesis
    by (simp add: sample_replay_def)
qed

theorem journal_insert_roundtrip_witness:
  "\<exists>j' it' ent aux.
     jrn_append_insert (jrn_of sample_records []) 1 9 0 [70, 71]
       \<lparr>rec_data = [72], rec_partial_size = 4, rec_partial_offset = 5\<rparr> 6 4 = (HAM_SUCCESS, j') \<and>
     jrn_get_entry j' \<lparr>it_fdidx = 0, it_fdstart = 1, it_offset = 136\<rparr> journal_entry_zero =
       (HAM_SUCCESS, it', ent, Some aux, j') \<and>
     je_lsn ent = 4 \<and> insert_key_data aux = [70, 71] \<and> insert_record_data aux = [72]"
proof -
  let ?j = "jrn_of sample_records []" and ?it = "\<lparr>it_fdidx = 0, it_fdstart = 1, it_offset = 136\<rparr> :: jrn_iterator"
  let ?rec = "\<lparr>rec_data = [72], rec_partial_size = 4, rec_partial_offset = 5\<rparr> :: ham_record"
  have h: "jrn_holds ?j 0 sample_records" using jrn_of_holds [of sample_records "[]"] sample_records_wf by simp
  have len: "length (fdata (j_fd ?j 0)) = 136"
    using sample_records_wf(2) by (simp add: jrn_of_def jrn_file_def)
  from journal_insert_roundtrip [OF h, of 4 "[70, 71]" ?rec ?it 1 9 6 journal_entry_zero] len show ?thesis
    by (fastforce simp: off_max_def)
qed

theorem journal_switch_keeps_open_transactions_witness:
  "\<exists>j' d. jrn_append_txn_begin (jrn_of sample_records []) 8 None None 4 = (HAM_SUCCESS, j', Some d) \<and>
     (jrn_holds j' d ((if d = 0 then sample_records else []) @ [(4, 8, JBegin None)]) \<or>
      jrn_holds j' d [(4, 8, JBegin None)] \<and> d \<noteq> 0)"
proof -
  let ?j = "jrn_of sample_records []" and ?rs = "\<lambda>i :: nat. if i = 0 then sample_records else []"
  note h = jrn_of_holds [of sample_records "[]"]
  have len: "length (fdata (j_fd ?j i)) \<le> 136" for i
    using sample_records_wf(2) by (simp add: jrn_of_def jrn_file_def)
  have "\<forall>i \<le> 1. length (fdata (j_fd ?j i)) + 33 + length (case_option [] id (None :: byte list option)) < off_max"
    using le_less_trans [OF len, of 9223372036854775775] by (simp add: off_max_def)
  moreover have "j_current_fd ?j \<le> 1" "jrn_holds ?j 0 (?rs 0)" "jrn_holds ?j 1 (?rs 1)"
    using h sample_records_wf by simp_all
  ultimately obtain j' d where "jrn_append_txn_begin ?j 8 None None 4 = (HAM_SUCCESS, j', Some d)"
    "jrn_holds j' d (?rs d @ [(4, 8, JBegin None)]) \<or> jrn_holds j' d [(4, 8, JBegin None)] \<and> d \<noteq> j_current_fd ?j"
    using journal_switch_keeps_open_transactions [of ?j ?rs 4 None 8] by auto
  then show ?thesis using h(3) sample_records_wf by auto
qed

end
