(* ===== verification/Ham_Txn.thy ===== *)
theory Ham_Txn
  imports Ham_Journal Dlist_Heap
begin

text \<open>
  Transactions: \<open>src/txn.h\<close>, \<open>src/txn.cc\<close>, the transaction cursor of \<open>src/txn_cursor.cc\<close> as far as the
  operations use it, and the transaction list of the environment (\<open>env_append_txn\<close>,
  \<open>env_remove_txn\<close>, \<open>__flush_txn\<close> and \<open>env_flush_committed_txns\<close> of \<open>src/env.cc\<close>).

  Objects live in a heap of numbered cells; every link of the source is a field. An
  operation is in two lists: that of its key (its node) and that of its transaction.
  The nodes of a database are kept in a red-black tree (the vendored \<open>src/rb.h\<close>), which is
  represented by its in-order sequence; the compare function of the database is an
  argument. The B+tree backend is an argument, too. Allocation does not fail.
\<close>

unbundle bit_operations_syntax

definition TXN_OP_NOP :: u32 where "TXN_OP_NOP = 0"
definition TXN_OP_INSERT :: u32 where "TXN_OP_INSERT = 0x010000"
definition TXN_OP_INSERT_OW :: u32 where "TXN_OP_INSERT_OW = 0x020000"
definition TXN_OP_INSERT_DUP :: u32 where "TXN_OP_INSERT_DUP = 0x040000"
definition TXN_OP_ERASE :: u32 where "TXN_OP_ERASE = 0x080000"
definition TXN_OP_FLUSHED :: u32 where "TXN_OP_FLUSHED = 0x100000"
definition TXN_STATE_ABORTED :: u32 where "TXN_STATE_ABORTED = 0x10000"
definition TXN_STATE_COMMITTED :: u32 where "TXN_STATE_COMMITTED = 0x20000"
definition HAM_ENABLE_TRANSACTIONS :: u32 where "HAM_ENABLE_TRANSACTIONS = 0x20000"

section \<open>Heap objects\<close>

record txn_op =
  to_flags :: u32
  to_orig_flags :: u32
  to_referenced_dupe :: u32
  to_txn :: nat
  to_node :: nat
  to_node_next :: "nat option"
  to_node_prev :: "nat option"
  to_txn_next :: "nat option"
  to_txn_prev :: "nat option"
  to_lsn :: u64
  to_other_lsn :: u64
  to_record :: ham_record
  to_cursors :: "nat option"

record txn_opnode =
  on_key :: "byte list"
  on_oldest_op :: "nat option"
  on_newest_op :: "nat option"

record transaction =
  tx_id :: u64
  tx_name :: "byte list option"
  tx_flags :: u32
  tx_cursor_refcount :: u32
  tx_log_desc :: nat
  tx_newer :: "nat option"
  tx_older :: "nat option"
  tx_oldest_op :: "nat option"
  tx_newest_op :: "nat option"

text \<open>
  A transaction cursor with the fields of its parent cursor that matter here: whether it
  is coupled to the transaction, its position among duplicates, the last operation and
  whether it is used for the first time.
\<close>

record txn_cursor =
  tc_op :: "nat option"
  tc_next :: "nat option"
  tc_previous :: "nat option"
  tc_on_txnop :: bool
  tc_dupecache_index :: u32
  tc_lastop :: u32
  tc_first_use :: bool

record txn_heap =
  h_ops :: "nat \<Rightarrow> txn_op"
  h_op_alive :: "nat \<Rightarrow> bool"
  h_nodes :: "nat \<Rightarrow> txn_opnode"
  h_txns :: "nat \<Rightarrow> transaction"
  h_txn_alive :: "nat \<Rightarrow> bool"
  h_cursors :: "nat \<Rightarrow> txn_cursor"
  h_tree :: "nat list"
  h_next :: nat
  h_oldest_txn :: "nat option"
  h_newest_txn :: "nat option"
  h_txn_id :: u64

definition upd_op :: "nat \<Rightarrow> (txn_op \<Rightarrow> txn_op) \<Rightarrow> txn_heap \<Rightarrow> txn_heap" where
  "upd_op p f h = h\<lparr>h_ops := (h_ops h)(p := f (h_ops h p))\<rparr>"

definition upd_node :: "nat \<Rightarrow> (txn_opnode \<Rightarrow> txn_opnode) \<Rightarrow> txn_heap \<Rightarrow> txn_heap" where
  "upd_node p f h = h\<lparr>h_nodes := (h_nodes h)(p := f (h_nodes h p))\<rparr>"

definition upd_txn :: "nat \<Rightarrow> (transaction \<Rightarrow> transaction) \<Rightarrow> txn_heap \<Rightarrow> txn_heap" where
  "upd_txn p f h = h\<lparr>h_txns := (h_txns h)(p := f (h_txns h p))\<rparr>"

definition upd_cursor :: "nat \<Rightarrow> (txn_cursor \<Rightarrow> txn_cursor) \<Rightarrow> txn_heap \<Rightarrow> txn_heap" where
  "upd_cursor p f h = h\<lparr>h_cursors := (h_cursors h)(p := f (h_cursors h p))\<rparr>"

text \<open>The link fields of the four lists.\<close>

definition next_in_node :: "txn_heap \<Rightarrow> nat \<Rightarrow> nat option" where
  "next_in_node h p = to_node_next (h_ops h p)"
definition previous_in_node :: "txn_heap \<Rightarrow> nat \<Rightarrow> nat option" where
  "previous_in_node h p = to_node_prev (h_ops h p)"
definition set_next_in_node :: "nat \<Rightarrow> nat option \<Rightarrow> txn_heap \<Rightarrow> txn_heap" where
  "set_next_in_node p q = upd_op p (\<lambda>x. x\<lparr>to_node_next := q\<rparr>)"
definition set_previous_in_node :: "nat \<Rightarrow> nat option \<Rightarrow> txn_heap \<Rightarrow> txn_heap" where
  "set_previous_in_node p q = upd_op p (\<lambda>x. x\<lparr>to_node_prev := q\<rparr>)"

definition next_in_txn :: "txn_heap \<Rightarrow> nat \<Rightarrow> nat option" where
  "next_in_txn h p = to_txn_next (h_ops h p)"
definition previous_in_txn :: "txn_heap \<Rightarrow> nat \<Rightarrow> nat option" where
  "previous_in_txn h p = to_txn_prev (h_ops h p)"
definition set_next_in_txn :: "nat \<Rightarrow> nat option \<Rightarrow> txn_heap \<Rightarrow> txn_heap" where
  "set_next_in_txn p q = upd_op p (\<lambda>x. x\<lparr>to_txn_next := q\<rparr>)"
definition set_previous_in_txn :: "nat \<Rightarrow> nat option \<Rightarrow> txn_heap \<Rightarrow> txn_heap" where
  "set_previous_in_txn p q = upd_op p (\<lambda>x. x\<lparr>to_txn_prev := q\<rparr>)"

definition txn_newer :: "txn_heap \<Rightarrow> nat \<Rightarrow> nat option" where
  "txn_newer h p = tx_newer (h_txns h p)"
definition txn_older :: "txn_heap \<Rightarrow> nat \<Rightarrow> nat option" where
  "txn_older h p = tx_older (h_txns h p)"
definition set_txn_newer :: "nat \<Rightarrow> nat option \<Rightarrow> txn_heap \<Rightarrow> txn_heap" where
  "set_txn_newer p q = upd_txn p (\<lambda>x. x\<lparr>tx_newer := q\<rparr>)"
definition set_txn_older :: "nat \<Rightarrow> nat option \<Rightarrow> txn_heap \<Rightarrow> txn_heap" where
  "set_txn_older p q = upd_txn p (\<lambda>x. x\<lparr>tx_older := q\<rparr>)"

definition coupled_next :: "txn_heap \<Rightarrow> nat \<Rightarrow> nat option" where
  "coupled_next h p = tc_next (h_cursors h p)"
definition coupled_previous :: "txn_heap \<Rightarrow> nat \<Rightarrow> nat option" where
  "coupled_previous h p = tc_previous (h_cursors h p)"
definition set_coupled_next :: "nat \<Rightarrow> nat option \<Rightarrow> txn_heap \<Rightarrow> txn_heap" where
  "set_coupled_next p q = upd_cursor p (\<lambda>x. x\<lparr>tc_next := q\<rparr>)"
definition set_coupled_previous :: "nat \<Rightarrow> nat option \<Rightarrow> txn_heap \<Rightarrow> txn_heap" where
  "set_coupled_previous p q = upd_cursor p (\<lambda>x. x\<lparr>tc_previous := q\<rparr>)"

lemmas txn_fields = upd_op_def upd_node_def upd_txn_def upd_cursor_def
  next_in_node_def previous_in_node_def set_next_in_node_def set_previous_in_node_def
  next_in_txn_def previous_in_txn_def set_next_in_txn_def set_previous_in_txn_def
  txn_newer_def txn_older_def set_txn_newer_def set_txn_older_def
  coupled_next_def coupled_previous_def set_coupled_next_def set_coupled_previous_def

interpretation node_ops: link_fields next_in_node previous_in_node set_next_in_node set_previous_in_node
  by unfold_locales (auto simp: txn_fields)

interpretation txn_ops: link_fields next_in_txn previous_in_txn set_next_in_txn set_previous_in_txn
  by unfold_locales (auto simp: txn_fields)

interpretation txn_list: link_fields txn_newer txn_older set_txn_newer set_txn_older
  by unfold_locales (auto simp: txn_fields)

interpretation op_cursors: link_fields coupled_next coupled_previous set_coupled_next set_coupled_previous
  by unfold_locales (auto simp: txn_fields)

section \<open>Operations\<close>

subsection \<open>Cursors of an operation\<close>

definition txn_op_add_cursor :: "txn_heap \<Rightarrow> nat \<Rightarrow> nat \<Rightarrow> txn_heap" where
  "txn_op_add_cursor h op cursor =
     (let old = to_cursors (h_ops h op);
          h1 = set_coupled_previous cursor None (set_coupled_next cursor old h);
          h2 = (case old of None \<Rightarrow> h1 | Some c \<Rightarrow> set_coupled_previous c (Some cursor) h1)
      in upd_op op (\<lambda>x. x\<lparr>to_cursors := Some cursor\<rparr>) h2)"

definition txn_op_remove_cursor :: "txn_heap \<Rightarrow> nat \<Rightarrow> nat \<Rightarrow> txn_heap" where
  "txn_op_remove_cursor h op cursor =
     (let n = coupled_next h cursor; p = coupled_previous h cursor;
          h1 = (if to_cursors (h_ops h op) = Some cursor then
                  (let h0 = upd_op op (\<lambda>x. x\<lparr>to_cursors := n\<rparr>) h
                   in case n of None \<Rightarrow> h0 | Some c \<Rightarrow> set_coupled_previous c None h0)
                else
                  (let h0 = (case n of None \<Rightarrow> h | Some c \<Rightarrow> set_coupled_previous c p h)
                   in case p of None \<Rightarrow> h0 | Some c \<Rightarrow> set_coupled_next c n h0))
      in set_coupled_previous cursor None (set_coupled_next cursor None h1))"

definition txn_cursor_set_to_nil :: "txn_heap \<Rightarrow> nat \<Rightarrow> txn_heap" where
  "txn_cursor_set_to_nil h cursor =
     (case tc_op (h_cursors h cursor) of
        None \<Rightarrow> h
      | Some op \<Rightarrow> upd_cursor cursor (\<lambda>x. x\<lparr>tc_op := None\<rparr>) (txn_op_remove_cursor h op cursor))"

definition txn_cursor_couple :: "txn_heap \<Rightarrow> nat \<Rightarrow> nat \<Rightarrow> txn_heap" where
  "txn_cursor_couple h cursor op =
     (let h1 = txn_cursor_set_to_nil h cursor;
          h2 = upd_cursor cursor (\<lambda>x. x\<lparr>tc_op := Some op\<rparr>) h1
      in txn_op_add_cursor h2 op cursor)"

text \<open>\<open>couple_to_btree\<close> and \<open>set_to_nil(CURSOR_TXN)\<close> of the parent cursor.\<close>

definition couple_to_btree :: "nat \<Rightarrow> txn_heap \<Rightarrow> txn_heap" where
  "couple_to_btree c = upd_cursor c (\<lambda>x. x\<lparr>tc_on_txnop := False\<rparr>)"

definition cursor_set_txn_nil :: "nat \<Rightarrow> txn_heap \<Rightarrow> txn_heap" where
  "cursor_set_txn_nil c h = couple_to_btree c (txn_cursor_set_to_nil h c)"

subsection \<open>Conflicts\<close>

definition txn_aborted :: "txn_heap \<Rightarrow> nat \<Rightarrow> bool" where
  "txn_aborted h t \<longleftrightarrow> tx_flags (h_txns h t) AND TXN_STATE_ABORTED \<noteq> 0"

definition txn_committed :: "txn_heap \<Rightarrow> nat \<Rightarrow> bool" where
  "txn_committed h t \<longleftrightarrow> tx_flags (h_txns h t) AND TXN_STATE_COMMITTED \<noteq> 0"

definition txn_op_conflicts :: "txn_heap \<Rightarrow> nat \<Rightarrow> nat \<Rightarrow> bool" where
  "txn_op_conflicts h op current_txn =
     (let optxn = to_txn (h_ops h op)
      in if txn_aborted h optxn then False
         else if txn_committed h optxn \<or> current_txn = optxn then False
         else True)"

subsection \<open>The tree of a database\<close>

type_synonym key_cmp = "byte list \<Rightarrow> byte list \<Rightarrow> int"

definition rbt_search :: "key_cmp \<Rightarrow> txn_heap \<Rightarrow> byte list \<Rightarrow> nat option" where
  "rbt_search cmp h key = find (\<lambda>n. cmp key (on_key (h_nodes h n)) = 0) (h_tree h)"

definition rbt_nsearch :: "key_cmp \<Rightarrow> txn_heap \<Rightarrow> byte list \<Rightarrow> nat option" where
  "rbt_nsearch cmp h key = find (\<lambda>n. cmp key (on_key (h_nodes h n)) \<le> 0) (h_tree h)"

definition rbt_psearch :: "key_cmp \<Rightarrow> txn_heap \<Rightarrow> byte list \<Rightarrow> nat option" where
  "rbt_psearch cmp h key = find (\<lambda>n. cmp key (on_key (h_nodes h n)) \<ge> 0) (rev (h_tree h))"

fun elem_after :: "nat \<Rightarrow> nat list \<Rightarrow> nat option" where
  "elem_after n [] = None"
| "elem_after n (m # ms) = (if n = m then head_of ms else elem_after n ms)"

definition txn_opnode_get_next_sibling :: "txn_heap \<Rightarrow> nat \<Rightarrow> nat option" where
  "txn_opnode_get_next_sibling h n = elem_after n (h_tree h)"

definition txn_opnode_get_previous_sibling :: "txn_heap \<Rightarrow> nat \<Rightarrow> nat option" where
  "txn_opnode_get_previous_sibling h n = elem_after n (rev (h_tree h))"

definition txn_tree_get_first :: "txn_heap \<Rightarrow> nat option" where
  "txn_tree_get_first h = head_of (h_tree h)"

definition txn_tree_get_last :: "txn_heap \<Rightarrow> nat option" where
  "txn_tree_get_last h = last_of (h_tree h)"

fun tree_insert :: "key_cmp \<Rightarrow> (nat \<Rightarrow> byte list) \<Rightarrow> nat \<Rightarrow> nat list \<Rightarrow> nat list" where
  "tree_insert cmp k n [] = [n]"
| "tree_insert cmp k n (m # ms) = (if cmp (k n) (k m) < 0 then n # m # ms else m # tree_insert cmp k n ms)"

text \<open>The second component is the new value of the internal flags of the key.\<close>

definition txn_opnode_get :: "key_cmp \<Rightarrow> txn_heap \<Rightarrow> byte list \<Rightarrow> u32 \<Rightarrow> u32 \<Rightarrow> nat option \<times> u32" where
  "txn_opnode_get cmp h key intflags flags =
     (let approx = (flags AND HAM_FIND_GEQ_MATCH = HAM_FIND_GEQ_MATCH \<or>
                    flags AND HAM_FIND_LEQ_MATCH = HAM_FIND_LEQ_MATCH \<or>
                    flags AND HAM_FIND_GT_MATCH \<noteq> 0 \<or> flags AND HAM_FIND_LT_MATCH \<noteq> 0);
          match_of = (\<lambda>r. case r of None \<Rightarrow> 0 | Some n \<Rightarrow> cmp key (on_key (h_nodes h n)));
          (node, m) =
            (if flags AND HAM_FIND_GEQ_MATCH = HAM_FIND_GEQ_MATCH then
               (let r = rbt_nsearch cmp h key in (r, match_of r))
             else if flags AND HAM_FIND_LEQ_MATCH = HAM_FIND_LEQ_MATCH then
               (let r = rbt_psearch cmp h key in (r, match_of r))
             else if flags AND HAM_FIND_GT_MATCH \<noteq> 0 then
               (case rbt_search cmp h key of
                  Some n \<Rightarrow> (txn_opnode_get_next_sibling h n, 1)
                | None \<Rightarrow> (rbt_nsearch cmp h key, 1))
             else if flags AND HAM_FIND_LT_MATCH \<noteq> 0 then
               (case rbt_search cmp h key of
                  Some n \<Rightarrow> (txn_opnode_get_previous_sibling h n, -1)
                | None \<Rightarrow> (rbt_psearch cmp h key, -1))
             else (rbt_search cmp h key, 0))
      in if \<not> approx then (node, intflags)
         else
           (case node of
              None \<Rightarrow> (None, intflags)
            | Some n \<Rightarrow>
                (Some n,
                 if m < 0 then (intflags AND NOT KEY_IS_APPROXIMATE) OR KEY_IS_LT
                 else if m > 0 then (intflags AND NOT KEY_IS_APPROXIMATE) OR KEY_IS_GT
                 else intflags)))"

definition txn_opnode_create :: "key_cmp \<Rightarrow> txn_heap \<Rightarrow> byte list \<Rightarrow> nat \<times> txn_heap" where
  "txn_opnode_create cmp h key =
     (let n = h_next h;
          h1 = h\<lparr>h_nodes := (h_nodes h)(n := \<lparr>on_key = key, on_oldest_op = None, on_newest_op = None\<rparr>),
                 h_next := n + 1\<rparr>
      in (n, h1\<lparr>h_tree := tree_insert cmp (\<lambda>i. on_key (h_nodes h1 i)) n (h_tree h1)\<rparr>))"

definition txn_opnode_free :: "txn_heap \<Rightarrow> nat \<Rightarrow> txn_heap" where
  "txn_opnode_free h node = h\<lparr>h_tree := remove1 node (h_tree h)\<rparr>"

definition empty_record :: ham_record where
  "empty_record = \<lparr>rec_data = [], rec_partial_size = 0, rec_partial_offset = 0\<rparr>"

definition txn_opnode_append ::
  "txn_heap \<Rightarrow> nat \<Rightarrow> nat \<Rightarrow> u32 \<Rightarrow> u32 \<Rightarrow> u64 \<Rightarrow> ham_record option \<Rightarrow> nat \<times> txn_heap" where
  "txn_opnode_append h txn node orig_flags flags lsn rec =
     (let op = h_next h;
          new = \<lparr>to_flags = flags, to_orig_flags = orig_flags, to_referenced_dupe = 0, to_txn = txn,
                 to_node = node, to_node_next = None, to_node_prev = None, to_txn_next = None,
                 to_txn_prev = None, to_lsn = lsn, to_other_lsn = 0,
                 to_record = (case rec of None \<Rightarrow> empty_record | Some r \<Rightarrow> r), to_cursors = None\<rparr>;
          h1 = h\<lparr>h_ops := (h_ops h)(op := new), h_op_alive := (h_op_alive h)(op := True), h_next := op + 1\<rparr>;
          h2 = (case on_newest_op (h_nodes h1 node) of
                  None \<Rightarrow> upd_node node (\<lambda>n. n\<lparr>on_newest_op := Some op, on_oldest_op := Some op\<rparr>) h1
                | Some newest \<Rightarrow>
                    upd_node node (\<lambda>n. n\<lparr>on_newest_op := Some op\<rparr>)
                      (set_previous_in_node op (Some newest) (set_next_in_node newest (Some op) h1)));
          h3 = (case tx_newest_op (h_txns h2 txn) of
                  None \<Rightarrow> upd_txn txn (\<lambda>t. t\<lparr>tx_newest_op := Some op, tx_oldest_op := Some op\<rparr>) h2
                | Some newest \<Rightarrow>
                    upd_txn txn (\<lambda>t. t\<lparr>tx_newest_op := Some op\<rparr>)
                      (set_previous_in_txn op (Some newest) (set_next_in_txn newest (Some op) h2)))
      in (op, h3))"

subsection \<open>Transactions\<close>

definition env_append_txn :: "txn_heap \<Rightarrow> nat \<Rightarrow> txn_heap" where
  "env_append_txn h txn =
     (case h_newest_txn h of
        None \<Rightarrow> h\<lparr>h_oldest_txn := Some txn, h_newest_txn := Some txn\<rparr>
      | Some newest \<Rightarrow>
          (let h1 = (set_txn_newer newest (Some txn) (set_txn_older txn (Some newest) h))\<lparr>h_newest_txn := Some txn\<rparr>
           in if h_oldest_txn h1 = None then h1\<lparr>h_oldest_txn := Some txn\<rparr> else h1))"

definition env_remove_txn :: "txn_heap \<Rightarrow> nat \<Rightarrow> txn_heap" where
  "env_remove_txn h txn =
     (let h1 = (if h_newest_txn h = Some txn then h\<lparr>h_newest_txn := txn_older h txn\<rparr> else h)
      in if h_oldest_txn h1 = Some txn then
           (let n = txn_newer h1 txn; h2 = h1\<lparr>h_oldest_txn := n\<rparr>
            in case n of None \<Rightarrow> h2 | Some m \<Rightarrow> set_txn_older m None h2)
         else h1)"

definition txn_begin :: "txn_heap \<Rightarrow> byte list option \<Rightarrow> u32 \<Rightarrow> nat \<times> txn_heap" where
  "txn_begin h name flags =
     (let t = h_next h;
          new = \<lparr>tx_id = h_txn_id h + 1, tx_name = name, tx_flags = flags, tx_cursor_refcount = 0,
                 tx_log_desc = 0, tx_newer = None, tx_older = None, tx_oldest_op = None, tx_newest_op = None\<rparr>;
          h1 = h\<lparr>h_txns := (h_txns h)(t := new), h_txn_alive := (h_txn_alive h)(t := True), h_next := t + 1,
                 h_txn_id := tx_id new\<rparr>
      in (t, env_append_txn h1 t))"

definition txn_op_free :: "txn_heap \<Rightarrow> nat \<Rightarrow> txn_heap" where
  "txn_op_free h op =
     (let n = next_in_node h op; p = previous_in_node h op;
          h1 = (case n of None \<Rightarrow> h | Some x \<Rightarrow> set_previous_in_node x p h);
          h2 = (case p of None \<Rightarrow> h1 | Some x \<Rightarrow> set_next_in_node x n h1);
          n' = next_in_txn h2 op; p' = previous_in_txn h2 op;
          h3 = (case n' of None \<Rightarrow> h2 | Some x \<Rightarrow> set_previous_in_txn x p' h2);
          h4 = (case p' of None \<Rightarrow> h3 | Some x \<Rightarrow> set_next_in_txn x n' h3);
          node = to_node (h_ops h4 op);
          h5 = (if on_oldest_op (h_nodes h4 node) = Some op
                then upd_node node (\<lambda>x. x\<lparr>on_oldest_op := next_in_node h4 op\<rparr>) h4 else h4);
          h6 = (if on_oldest_op (h_nodes h5 node) = None then txn_opnode_free h5 node else h5)
      in h6\<lparr>h_op_alive := (h_op_alive h6)(op := False)\<rparr>)"

partial_function (option) free_ops_loop :: "txn_heap \<Rightarrow> nat option \<Rightarrow> txn_heap option" where
  "free_ops_loop h op =
     (case op of
        None \<Rightarrow> Some h
      | Some p \<Rightarrow> (let n = next_in_txn h p in free_ops_loop (txn_op_free h p) n))"

definition txn_free_ops :: "txn_heap \<Rightarrow> nat \<Rightarrow> txn_heap option" where
  "txn_free_ops h txn =
     (case free_ops_loop h (tx_oldest_op (h_txns h txn)) of
        None \<Rightarrow> None
      | Some h' \<Rightarrow> Some (upd_txn txn (\<lambda>t. t\<lparr>tx_oldest_op := None, tx_newest_op := None\<rparr>) h'))"

definition txn_free :: "txn_heap \<Rightarrow> nat \<Rightarrow> txn_heap option" where
  "txn_free h txn =
     (case txn_free_ops h txn of
        None \<Rightarrow> None
      | Some h1 \<Rightarrow>
          (let h2 = (case txn_older h1 txn of None \<Rightarrow> h1 | Some o' \<Rightarrow> set_txn_newer o' (txn_newer h1 txn) h1);
               h3 = (case txn_newer h2 txn of None \<Rightarrow> h2 | Some n \<Rightarrow> set_txn_older n (txn_older h2 txn) h2)
           in Some (h3\<lparr>h_txn_alive := (h_txn_alive h3)(txn := False)\<rparr>)))"

text \<open>
  \<open>txn_abort\<close>; clearing the changeset, its last step, is an operation on the backend
  state \<open>'b\<close> and passed as an argument.
\<close>

definition txn_abort :: "('b \<Rightarrow> 'b) \<Rightarrow> txn_heap \<Rightarrow> 'b \<Rightarrow> nat \<Rightarrow> (ham_status \<times> txn_heap \<times> 'b) option" where
  "txn_abort clear_changeset h b txn =
     (if tx_cursor_refcount (h_txns h txn) \<noteq> 0 then Some (HAM_CURSOR_STILL_OPEN, h, b)
      else
        (case txn_free_ops (upd_txn txn (\<lambda>t. t\<lparr>tx_flags := tx_flags t OR TXN_STATE_ABORTED\<rparr>) h) txn of
           None \<Rightarrow> None
         | Some h' \<Rightarrow> Some (HAM_SUCCESS, h', clear_changeset b)))"

subsection \<open>Flushing committed transactions\<close>

text \<open>
  What a flush needs of the B+tree, the changeset and the parent cursors: the state \<open>'b\<close> and
  the operations are arguments of the model. A lookup takes a key with its internal flags
  and the search flags; it returns the key that was found, its internal flags and its record.
\<close>

record 'b backend =
  bk_insert :: "byte list \<Rightarrow> ham_record \<Rightarrow> u32 \<Rightarrow> 'b \<Rightarrow> ham_status \<times> 'b"
  bk_cursor_insert :: "nat \<Rightarrow> byte list \<Rightarrow> ham_record \<Rightarrow> u32 \<Rightarrow> 'b \<Rightarrow> ham_status \<times> 'b"
  bk_couple_to_other :: "nat \<Rightarrow> nat \<Rightarrow> 'b \<Rightarrow> 'b"
  bk_erase :: "byte list \<Rightarrow> u32 \<Rightarrow> 'b \<Rightarrow> ham_status \<times> 'b"
  bk_erase_duplicate :: "byte list \<Rightarrow> u32 \<Rightarrow> u32 \<Rightarrow> 'b \<Rightarrow> ham_status \<times> 'b"
  bk_find :: "byte list \<Rightarrow> u32 \<Rightarrow> u32 \<Rightarrow> 'b \<Rightarrow> ham_status \<times> (byte list \<times> u32 \<times> ham_record) \<times> 'b"
  bk_cursor_points_to_key :: "nat \<Rightarrow> byte list \<Rightarrow> 'b \<Rightarrow> bool \<times> 'b"
  bk_cursor_is_nil :: "nat \<Rightarrow> 'b \<Rightarrow> bool"
  bk_cursor_set_to_nil :: "nat \<Rightarrow> 'b \<Rightarrow> 'b"
  bk_flush_changeset :: "u64 \<Rightarrow> 'b \<Rightarrow> ham_status \<times> 'b"
  bk_clear_changeset :: "'b \<Rightarrow> 'b"

definition op_is :: "txn_heap \<Rightarrow> nat \<Rightarrow> u32 \<Rightarrow> bool" where
  "op_is h op fl \<longleftrightarrow> to_flags (h_ops h op) AND fl \<noteq> 0"

definition op_is_insert :: "txn_heap \<Rightarrow> nat \<Rightarrow> bool" where
  "op_is_insert h op \<longleftrightarrow> op_is h op TXN_OP_INSERT \<or> op_is h op TXN_OP_INSERT_OW \<or> op_is h op TXN_OP_INSERT_DUP"

partial_function (option) uncouple_rest ::
  "'b backend \<Rightarrow> nat \<Rightarrow> nat \<Rightarrow> txn_heap \<Rightarrow> 'b \<Rightarrow> (txn_heap \<times> 'b) option" where
  "uncouple_rest B op c1 h b =
     (case to_cursors (h_ops h op) of
        None \<Rightarrow> Some (h, b)
      | Some c2 \<Rightarrow>
          uncouple_rest B op c1
            (cursor_set_txn_nil c2 (couple_to_btree c2 (txn_op_remove_cursor h op c2)))
            (bk_couple_to_other B c2 c1 b))"

partial_function (option) uncouple_all :: "nat \<Rightarrow> txn_heap \<Rightarrow> txn_heap option" where
  "uncouple_all op h =
     (case to_cursors (h_ops h op) of
        None \<Rightarrow> Some h
      | Some c \<Rightarrow> uncouple_all op (cursor_set_txn_nil c (couple_to_btree c h)))"

text \<open>The B+tree update of one operation, up to the label \<open>bail\<close>.\<close>

definition flush_op_btree ::
  "'b backend \<Rightarrow> txn_heap \<Rightarrow> 'b \<Rightarrow> nat \<Rightarrow> (ham_status \<times> txn_heap \<times> 'b) option" where
  "flush_op_btree B h b op =
     (let x = h_ops h op; key = on_key (h_nodes h (to_node x));
          additional = (if op_is h op TXN_OP_INSERT_DUP then HAM_DUPLICATE else HAM_OVERWRITE)
      in if op_is_insert h op then
           (case to_cursors x of
              None \<Rightarrow>
                (case bk_insert B key (to_record x) (to_orig_flags x OR additional) b of
                   (st, b1) \<Rightarrow> Some (st, h, b1))
            | Some c1 \<Rightarrow>
                (case bk_cursor_insert B c1 key (to_record x) (to_orig_flags x OR additional) b of
                   (st, b1) \<Rightarrow>
                     if st \<noteq> HAM_SUCCESS then Some (st, h, b1)
                     else
                       (case uncouple_rest B op c1
                               (cursor_set_txn_nil c1 (couple_to_btree c1 (txn_op_remove_cursor h op c1))) b1 of
                          None \<Rightarrow> None
                        | Some (h1, b2) \<Rightarrow> Some (HAM_SUCCESS, h1, b2))))
         else if op_is h op TXN_OP_ERASE then
           (if to_referenced_dupe x \<noteq> 0 then
              (case bk_erase_duplicate B key (to_referenced_dupe x) (to_flags x) b of (st, b1) \<Rightarrow> Some (st, h, b1))
            else (case bk_erase B key (to_flags x) b of (st, b1) \<Rightarrow> Some (st, h, b1)))
         else Some (HAM_SUCCESS, h, b))"

definition flush_op ::
  "'b backend \<Rightarrow> u32 \<Rightarrow> txn_heap \<Rightarrow> 'b \<Rightarrow> nat \<Rightarrow> (ham_status \<times> txn_heap \<times> 'b) option" where
  "flush_op B env_flags h b op =
     (case flush_op_btree B h b op of
        None \<Rightarrow> None
      | Some (st, h1, b1) \<Rightarrow>
          (case (if env_flags AND HAM_ENABLE_RECOVERY \<noteq> 0
                 then bk_flush_changeset B (to_lsn (h_ops h1 op)) b1 else (st, b1)) of
             (st', b2) \<Rightarrow>
               if st' \<noteq> HAM_SUCCESS then Some (st', h1, b2)
               else
                 (case uncouple_all op (upd_op op (\<lambda>x. x\<lparr>to_flags := TXN_OP_FLUSHED\<rparr>) h1) of
                    None \<Rightarrow> None
                  | Some h2 \<Rightarrow> Some (HAM_SUCCESS, h2, b2))))"

partial_function (option) flush_ops ::
  "'b backend \<Rightarrow> u32 \<Rightarrow> txn_heap \<Rightarrow> 'b \<Rightarrow> nat option \<Rightarrow> (ham_status \<times> txn_heap \<times> 'b) option" where
  "flush_ops B env_flags h b op =
     (case op of
        None \<Rightarrow> Some (HAM_SUCCESS, h, b)
      | Some p \<Rightarrow>
          (case flush_op B env_flags h b p of
             None \<Rightarrow> None
           | Some (st, h1, b1) \<Rightarrow>
               if st \<noteq> HAM_SUCCESS then Some (st, h1, b1)
               else flush_ops B env_flags h1 b1 (next_in_txn h1 p)))"

definition flush_txn ::
  "'b backend \<Rightarrow> u32 \<Rightarrow> txn_heap \<Rightarrow> 'b \<Rightarrow> nat \<Rightarrow> (ham_status \<times> txn_heap \<times> 'b) option" where
  "flush_txn B env_flags h b txn = flush_ops B env_flags h b (tx_oldest_op (h_txns h txn))"

partial_function (option) flush_committed_loop ::
  "'b backend \<Rightarrow> u32 \<Rightarrow> txn_heap \<Rightarrow> 'b \<Rightarrow> (ham_status \<times> txn_heap \<times> 'b) option" where
  "flush_committed_loop B env_flags h b =
     (case h_oldest_txn h of
        None \<Rightarrow> Some (HAM_SUCCESS, h, b)
      | Some oldest \<Rightarrow>
          if \<not> txn_committed h oldest \<and> \<not> txn_aborted h oldest then Some (HAM_SUCCESS, h, b)
          else
            (case (if txn_committed h oldest then flush_txn B env_flags h b oldest
                   else Some (HAM_SUCCESS, h, b)) of
               None \<Rightarrow> None
             | Some (st, h1, b1) \<Rightarrow>
                 if st \<noteq> HAM_SUCCESS then Some (st, h1, b1)
                 else
                   (case txn_free (env_remove_txn h1 oldest) oldest of
                      None \<Rightarrow> None
                    | Some h2 \<Rightarrow> flush_committed_loop B env_flags h2 b1)))"

definition env_flush_committed_txns ::
  "'b backend \<Rightarrow> u32 \<Rightarrow> txn_heap \<Rightarrow> 'b \<Rightarrow> (ham_status \<times> txn_heap \<times> 'b) option" where
  "env_flush_committed_txns B env_flags h b =
     (case flush_committed_loop B env_flags h b of
        None \<Rightarrow> None
      | Some (st, h1, b1) \<Rightarrow>
          if st \<noteq> HAM_SUCCESS then Some (st, h1, b1) else Some (HAM_SUCCESS, h1, bk_clear_changeset B b1))"

definition txn_commit ::
  "'b backend \<Rightarrow> u32 \<Rightarrow> txn_heap \<Rightarrow> 'b \<Rightarrow> nat \<Rightarrow> (ham_status \<times> txn_heap \<times> 'b) option" where
  "txn_commit B env_flags h b txn =
     env_flush_committed_txns B env_flags
       (upd_txn txn (\<lambda>t. t\<lparr>tx_flags := tx_flags t OR TXN_STATE_COMMITTED\<rparr>) h) b"

section \<open>The lists a heap represents\<close>

definition node_list :: "txn_heap \<Rightarrow> nat \<Rightarrow> nat list \<Rightarrow> bool" where
  "node_list h n os \<longleftrightarrow> dlist (next_in_node h) (previous_in_node h) os \<and>
     on_oldest_op (h_nodes h n) = head_of os \<and> on_newest_op (h_nodes h n) = last_of os \<and>
     (\<forall>p \<in> set os. to_node (h_ops h p) = n \<and> h_op_alive h p)"

definition txn_op_list :: "txn_heap \<Rightarrow> nat \<Rightarrow> nat list \<Rightarrow> bool" where
  "txn_op_list h t us \<longleftrightarrow> dlist (next_in_txn h) (previous_in_txn h) us \<and>
     tx_oldest_op (h_txns h t) = head_of us \<and> tx_newest_op (h_txns h t) = last_of us \<and>
     (\<forall>p \<in> set us. to_txn (h_ops h p) = t \<and> h_op_alive h p)"

definition heap_fresh :: "txn_heap \<Rightarrow> bool" where
  "heap_fresh h \<longleftrightarrow> (\<forall>p \<ge> h_next h. \<not> h_op_alive h p \<and> \<not> h_txn_alive h p)"

text \<open>Fields of an operation that list surgery leaves alone.\<close>

definition op_core :: "txn_op \<Rightarrow> u32 \<times> u32 \<times> u32 \<times> nat \<times> nat \<times> u64 \<times> ham_record \<times> nat option" where
  "op_core x = (to_flags x, to_orig_flags x, to_referenced_dupe x, to_txn x, to_node x, to_lsn x,
     to_record x, to_cursors x)"

lemma op_core_eq:
  "op_core x = op_core y \<longleftrightarrow> to_flags x = to_flags y \<and> to_orig_flags x = to_orig_flags y \<and>
     to_referenced_dupe x = to_referenced_dupe y \<and> to_txn x = to_txn y \<and> to_node x = to_node y \<and>
     to_lsn x = to_lsn y \<and> to_record x = to_record y \<and> to_cursors x = to_cursors y"
  by (simp add: op_core_def)

text \<open>What each primitive update leaves alone.\<close>

lemma node_link_frames [simp]:
  "next_in_txn (set_next_in_node p q h) = next_in_txn h" "previous_in_txn (set_next_in_node p q h) = previous_in_txn h"
  "next_in_txn (set_previous_in_node p q h) = next_in_txn h" "previous_in_txn (set_previous_in_node p q h) = previous_in_txn h"
  "h_nodes (set_next_in_node p q h) = h_nodes h" "h_nodes (set_previous_in_node p q h) = h_nodes h"
  "h_txns (set_next_in_node p q h) = h_txns h" "h_txns (set_previous_in_node p q h) = h_txns h"
  "h_cursors (set_next_in_node p q h) = h_cursors h" "h_cursors (set_previous_in_node p q h) = h_cursors h"
  "h_op_alive (set_next_in_node p q h) = h_op_alive h" "h_op_alive (set_previous_in_node p q h) = h_op_alive h"
  "h_txn_alive (set_next_in_node p q h) = h_txn_alive h" "h_txn_alive (set_previous_in_node p q h) = h_txn_alive h"
  "h_tree (set_next_in_node p q h) = h_tree h" "h_tree (set_previous_in_node p q h) = h_tree h"
  "h_next (set_next_in_node p q h) = h_next h" "h_next (set_previous_in_node p q h) = h_next h"
  "h_oldest_txn (set_next_in_node p q h) = h_oldest_txn h" "h_oldest_txn (set_previous_in_node p q h) = h_oldest_txn h"
  "h_newest_txn (set_next_in_node p q h) = h_newest_txn h" "h_newest_txn (set_previous_in_node p q h) = h_newest_txn h"
  "op_core (h_ops (set_next_in_node p q h) r) = op_core (h_ops h r)"
  "op_core (h_ops (set_previous_in_node p q h) r) = op_core (h_ops h r)"
  by (auto simp: txn_fields op_core_def)

lemma txn_link_frames [simp]:
  "next_in_node (set_next_in_txn p q h) = next_in_node h" "previous_in_node (set_next_in_txn p q h) = previous_in_node h"
  "next_in_node (set_previous_in_txn p q h) = next_in_node h" "previous_in_node (set_previous_in_txn p q h) = previous_in_node h"
  "h_nodes (set_next_in_txn p q h) = h_nodes h" "h_nodes (set_previous_in_txn p q h) = h_nodes h"
  "h_txns (set_next_in_txn p q h) = h_txns h" "h_txns (set_previous_in_txn p q h) = h_txns h"
  "h_cursors (set_next_in_txn p q h) = h_cursors h" "h_cursors (set_previous_in_txn p q h) = h_cursors h"
  "h_op_alive (set_next_in_txn p q h) = h_op_alive h" "h_op_alive (set_previous_in_txn p q h) = h_op_alive h"
  "h_txn_alive (set_next_in_txn p q h) = h_txn_alive h" "h_txn_alive (set_previous_in_txn p q h) = h_txn_alive h"
  "h_tree (set_next_in_txn p q h) = h_tree h" "h_tree (set_previous_in_txn p q h) = h_tree h"
  "h_next (set_next_in_txn p q h) = h_next h" "h_next (set_previous_in_txn p q h) = h_next h"
  "h_oldest_txn (set_next_in_txn p q h) = h_oldest_txn h" "h_oldest_txn (set_previous_in_txn p q h) = h_oldest_txn h"
  "h_newest_txn (set_next_in_txn p q h) = h_newest_txn h" "h_newest_txn (set_previous_in_txn p q h) = h_newest_txn h"
  "op_core (h_ops (set_next_in_txn p q h) r) = op_core (h_ops h r)"
  "op_core (h_ops (set_previous_in_txn p q h) r) = op_core (h_ops h r)"
  by (auto simp: txn_fields op_core_def)

lemma upd_frames [simp]:
  "h_ops (upd_node n f h) = h_ops h" "h_txns (upd_node n f h) = h_txns h" "h_cursors (upd_node n f h) = h_cursors h"
  "h_op_alive (upd_node n f h) = h_op_alive h" "h_txn_alive (upd_node n f h) = h_txn_alive h"
  "h_tree (upd_node n f h) = h_tree h" "h_next (upd_node n f h) = h_next h"
  "h_oldest_txn (upd_node n f h) = h_oldest_txn h" "h_newest_txn (upd_node n f h) = h_newest_txn h"
  "h_nodes (upd_node n f h) = (h_nodes h)(n := f (h_nodes h n))"
  "h_ops (upd_txn t g h) = h_ops h" "h_nodes (upd_txn t g h) = h_nodes h" "h_cursors (upd_txn t g h) = h_cursors h"
  "h_op_alive (upd_txn t g h) = h_op_alive h" "h_txn_alive (upd_txn t g h) = h_txn_alive h"
  "h_tree (upd_txn t g h) = h_tree h" "h_next (upd_txn t g h) = h_next h"
  "h_oldest_txn (upd_txn t g h) = h_oldest_txn h" "h_newest_txn (upd_txn t g h) = h_newest_txn h"
  "h_txns (upd_txn t g h) = (h_txns h)(t := g (h_txns h t))"
  by (simp_all add: upd_node_def upd_txn_def)

lemma op_links_upd [simp]:
  "next_in_node (upd_node n f h) = next_in_node h" "previous_in_node (upd_node n f h) = previous_in_node h"
  "next_in_txn (upd_node n f h) = next_in_txn h" "previous_in_txn (upd_node n f h) = previous_in_txn h"
  "next_in_node (upd_txn t g h) = next_in_node h" "previous_in_node (upd_txn t g h) = previous_in_node h"
  "next_in_txn (upd_txn t g h) = next_in_txn h" "previous_in_txn (upd_txn t g h) = previous_in_txn h"
  "next_in_node (h\<lparr>h_op_alive := al\<rparr>) = next_in_node h" "previous_in_node (h\<lparr>h_op_alive := al\<rparr>) = previous_in_node h"
  "next_in_txn (h\<lparr>h_op_alive := al\<rparr>) = next_in_txn h" "previous_in_txn (h\<lparr>h_op_alive := al\<rparr>) = previous_in_txn h"
  "next_in_node (h\<lparr>h_tree := tr\<rparr>) = next_in_node h" "previous_in_node (h\<lparr>h_tree := tr\<rparr>) = previous_in_node h"
  "next_in_txn (h\<lparr>h_tree := tr\<rparr>) = next_in_txn h" "previous_in_txn (h\<lparr>h_tree := tr\<rparr>) = previous_in_txn h"
  by (simp_all add: next_in_node_def previous_in_node_def next_in_txn_def previous_in_txn_def fun_eq_iff)

lemmas link_effects = node_ops.link_simps txn_ops.link_simps

subsection \<open>Appending an operation\<close>

lemma txn_opnode_append_lists:
  assumes "txn_opnode_append h t n orig_flags flags lsn rec = (op, h')"
    and "node_list h n os" and "txn_op_list h t us" and "heap_fresh h"
  shows "op = h_next h" "node_list h' n (os @ [op])" "txn_op_list h' t (us @ [op])"
    "to_flags (h_ops h' op) = flags \<and> to_lsn (h_ops h' op) = lsn \<and> to_orig_flags (h_ops h' op) = orig_flags \<and>
       to_txn (h_ops h' op) = t \<and> to_node (h_ops h' op) = n \<and>
       to_record (h_ops h' op) = (case rec of None \<Rightarrow> empty_record | Some r \<Rightarrow> r)"
    "\<And>p. p \<noteq> op \<Longrightarrow> op_core (h_ops h' p) = op_core (h_ops h p)"
    "\<And>p. p \<notin> set (os @ [op]) \<Longrightarrow> next_in_node h' p = next_in_node h p \<and> previous_in_node h' p = previous_in_node h p"
    "\<And>p. p \<notin> set (us @ [op]) \<Longrightarrow> next_in_txn h' p = next_in_txn h p \<and> previous_in_txn h' p = previous_in_txn h p"
    "h_op_alive h' = (h_op_alive h)(op := True)" "h_tree h' = h_tree h"
    "\<And>m. on_key (h_nodes h' m) = on_key (h_nodes h m)" "\<And>m. m \<noteq> n \<Longrightarrow> h_nodes h' m = h_nodes h m"
    "\<And>s. tx_flags (h_txns h' s) = tx_flags (h_txns h s)" "\<And>s. s \<noteq> t \<Longrightarrow> h_txns h' s = h_txns h s"
proof -
  let ?op = "h_next h"
  have fresh: "?op \<notin> set os" "?op \<notin> set us"
    using assms(2-4) by (auto simp: node_list_def txn_op_list_def heap_fresh_def)
  have new: "on_newest_op (h_nodes h n) = last_of os" "tx_newest_op (h_txns h t) = last_of us"
    "on_oldest_op (h_nodes h n) = head_of os" "tx_oldest_op (h_txns h t) = head_of us"
    and dl: "dlist (next_in_node h) (previous_in_node h) os" "dlist (next_in_txn h) (previous_in_txn h) us"
    and mem: "\<forall>p \<in> set os. to_node (h_ops h p) = n \<and> h_op_alive h p"
      "\<forall>p \<in> set us. to_txn (h_ops h p) = t \<and> h_op_alive h p"
    using assms(2,3) by (auto simp: node_list_def txn_op_list_def)
  define new where "new = \<lparr>to_flags = flags, to_orig_flags = orig_flags, to_referenced_dupe = 0, to_txn = t,
                 to_node = n, to_node_next = None, to_node_prev = None, to_txn_next = None,
                 to_txn_prev = None, to_lsn = lsn, to_other_lsn = 0,
                 to_record = (case rec of None \<Rightarrow> empty_record | Some r \<Rightarrow> r), to_cursors = None\<rparr>"
  define h1 where "h1 = h\<lparr>h_ops := (h_ops h)(?op := new), h_op_alive := (h_op_alive h)(?op := True), h_next := ?op + 1\<rparr>"
  define g where "g = (case last_of os of None \<Rightarrow> h1
    | Some l \<Rightarrow> set_previous_in_node ?op (Some l) (set_next_in_node l (Some ?op) h1))"
  define h2 where "h2 = upd_node n (case last_of os of None \<Rightarrow> (\<lambda>x. x\<lparr>on_newest_op := Some ?op, on_oldest_op := Some ?op\<rparr>)
    | Some l \<Rightarrow> (\<lambda>x. x\<lparr>on_newest_op := Some ?op\<rparr>)) g"
  define k where "k = (case last_of us of None \<Rightarrow> h2
    | Some l \<Rightarrow> set_previous_in_txn ?op (Some l) (set_next_in_txn l (Some ?op) h2))"
  define h3 where "h3 = upd_txn t (case last_of us of None \<Rightarrow> (\<lambda>x. x\<lparr>tx_newest_op := Some ?op, tx_oldest_op := Some ?op\<rparr>)
    | Some l \<Rightarrow> (\<lambda>x. x\<lparr>tx_newest_op := Some ?op\<rparr>)) k"
  have a: "next_in_node h1 = (next_in_node h)(?op := None)" "previous_in_node h1 = (previous_in_node h)(?op := None)"
    "next_in_txn h1 = (next_in_txn h)(?op := None)" "previous_in_txn h1 = (previous_in_txn h)(?op := None)"
    "h_nodes h1 = h_nodes h" "h_txns h1 = h_txns h" "h_tree h1 = h_tree h"
    "h_op_alive h1 = (h_op_alive h)(?op := True)" "h_ops h1 = (h_ops h)(?op := new)"
    by (auto simp: h1_def new_def txn_fields)
  have gf: "h_nodes g = h_nodes h" "h_txns g = h_txns h" "h_tree g = h_tree h" "h_op_alive g = (h_op_alive h)(?op := True)"
    "next_in_txn g = (next_in_txn h)(?op := None)" "previous_in_txn g = (previous_in_txn h)(?op := None)"
    "\<And>p. op_core (h_ops g p) = op_core (((h_ops h)(?op := new)) p)"
    by (simp_all add: g_def a split: option.split)
  have h2t: "h_txns h2 = h_txns h" by (simp add: h2_def gf)
  have "txn_opnode_append h t n orig_flags flags lsn rec = (?op, h3)"
  proof -
    have "on_newest_op (h_nodes h1 n) = last_of os" using a new by simp
    then have A: "(case on_newest_op (h_nodes h1 n) of
                  None \<Rightarrow> upd_node n (\<lambda>x. x\<lparr>on_newest_op := Some ?op, on_oldest_op := Some ?op\<rparr>) h1
                | Some newest \<Rightarrow> upd_node n (\<lambda>x. x\<lparr>on_newest_op := Some ?op\<rparr>)
                      (set_previous_in_node ?op (Some newest) (set_next_in_node newest (Some ?op) h1))) = h2"
      by (simp add: h2_def g_def split: option.split)
    have B: "(case tx_newest_op (h_txns h2 t) of
                  None \<Rightarrow> upd_txn t (\<lambda>x. x\<lparr>tx_newest_op := Some ?op, tx_oldest_op := Some ?op\<rparr>) h2
                | Some newest \<Rightarrow> upd_txn t (\<lambda>x. x\<lparr>tx_newest_op := Some ?op\<rparr>)
                      (set_previous_in_txn ?op (Some newest) (set_next_in_txn newest (Some ?op) h2))) = h3"
      using h2t new by (simp add: h3_def k_def split: option.split)
    show ?thesis
      unfolding txn_opnode_append_def Let_def new_def [symmetric] h1_def [symmetric] A B ..
  qed
  with assms(1) have op: "op = ?op" and h': "h' = h3" by simp_all
  show "op = h_next h" by (rule op)
  have nn: "next_in_node h' = (case last_of os of None \<Rightarrow> next_in_node h | Some l \<Rightarrow> (next_in_node h)(l := Some op))(op := None)"
    and pn: "previous_in_node h' = (previous_in_node h)(op := last_of os)"
    using fresh
    by (auto simp: h' op h3_def k_def h2_def g_def a link_effects last_of_Some fun_eq_iff split: option.split)
  have nt: "next_in_txn h' = (case last_of us of None \<Rightarrow> next_in_txn h | Some l \<Rightarrow> (next_in_txn h)(l := Some op))(op := None)"
    and pt: "previous_in_txn h' = (previous_in_txn h)(op := last_of us)"
    using fresh
    by (auto simp: h' op h3_def k_def h2_def gf link_effects last_of_Some fun_eq_iff split: option.split)
  have core: "op_core (h_ops h' p) = op_core (((h_ops h)(op := new)) p)" for p
    by (simp add: h' op h3_def k_def h2_def gf split: option.split)
  show same: "op_core (h_ops h' p) = op_core (h_ops h p)" if "p \<noteq> op" for p
    using core [of p] that by simp
  show alive: "h_op_alive h' = (h_op_alive h)(op := True)" "h_tree h' = h_tree h"
    by (simp_all add: h' op h3_def k_def h2_def gf split: option.split)
  show opf: "to_flags (h_ops h' op) = flags \<and> to_lsn (h_ops h' op) = lsn \<and> to_orig_flags (h_ops h' op) = orig_flags \<and>
       to_txn (h_ops h' op) = t \<and> to_node (h_ops h' op) = n \<and>
       to_record (h_ops h' op) = (case rec of None \<Rightarrow> empty_record | Some r \<Rightarrow> r)"
    using core [of op] by (simp add: op_core_eq) (simp add: new_def)
  have nodes: "h_nodes h' = (h_nodes h)(n := (case last_of os of
      None \<Rightarrow> (h_nodes h n)\<lparr>on_newest_op := Some op, on_oldest_op := Some op\<rparr>
    | Some l \<Rightarrow> (h_nodes h n)\<lparr>on_newest_op := Some op\<rparr>))"
    by (simp add: h' op h3_def k_def h2_def gf split: option.split)
  have txns: "h_txns h' = (h_txns h)(t := (case last_of us of
      None \<Rightarrow> (h_txns h t)\<lparr>tx_newest_op := Some op, tx_oldest_op := Some op\<rparr>
    | Some l \<Rightarrow> (h_txns h t)\<lparr>tx_newest_op := Some op\<rparr>))"
    by (simp add: h' op h3_def k_def h2t split: option.split)
  show "on_key (h_nodes h' m) = on_key (h_nodes h m)" for m
    by (simp add: nodes split: option.split)
  show "h_nodes h' m = h_nodes h m" if "m \<noteq> n" for m
    using that by (simp add: nodes)
  show "tx_flags (h_txns h' s) = tx_flags (h_txns h s)" for s
    by (simp add: txns split: option.split)
  show "h_txns h' s = h_txns h s" if "s \<noteq> t" for s
    using that by (simp add: txns)
  show "next_in_node h' p = next_in_node h p \<and> previous_in_node h' p = previous_in_node h p"
    if "p \<notin> set (os @ [op])" for p
    using that by (auto simp: nn pn last_of_Some split: option.splits)
  show "next_in_txn h' p = next_in_txn h p \<and> previous_in_txn h' p = previous_in_txn h p"
    if "p \<notin> set (us @ [op])" for p
    using that by (auto simp: nt pt last_of_Some split: option.splits)
  have hd: "on_newest_op (h_nodes h' n) = Some op" "on_oldest_op (h_nodes h' n) = head_of (os @ [op])"
    "tx_newest_op (h_txns h' t) = Some op" "tx_oldest_op (h_txns h' t) = head_of (us @ [op])"
    using new by (auto simp: nodes txns head_of_append split: option.splits)
  have keep: "to_node (h_ops h' p) = to_node (h_ops h p)" "to_txn (h_ops h' p) = to_txn (h_ops h p)" if "p \<noteq> op" for p
    using same [OF that] by (auto simp: op_core_eq)
  show "node_list h' n (os @ [op])"
    unfolding node_list_def nn pn
    using dlist_push_back [OF dl(1), of op] fresh op hd mem keep opf alive by auto
  show "txn_op_list h' t (us @ [op])"
    unfolding txn_op_list_def nt pt
    using dlist_push_back [OF dl(2), of op] fresh op hd mem keep opf alive by auto
qed

subsection \<open>Releasing an operation\<close>

lemma free_node_frames [simp]:
  "next_in_node (txn_opnode_free h n) = next_in_node h" "previous_in_node (txn_opnode_free h n) = previous_in_node h"
  "next_in_txn (txn_opnode_free h n) = next_in_txn h" "previous_in_txn (txn_opnode_free h n) = previous_in_txn h"
  "h_ops (txn_opnode_free h n) = h_ops h" "h_nodes (txn_opnode_free h n) = h_nodes h"
  "h_txns (txn_opnode_free h n) = h_txns h" "h_cursors (txn_opnode_free h n) = h_cursors h"
  "h_op_alive (txn_opnode_free h n) = h_op_alive h" "h_txn_alive (txn_opnode_free h n) = h_txn_alive h"
  "h_next (txn_opnode_free h n) = h_next h" "h_oldest_txn (txn_opnode_free h n) = h_oldest_txn h"
  "h_newest_txn (txn_opnode_free h n) = h_newest_txn h"
  by (simp_all add: txn_opnode_free_def)

lemma to_node_core: "op_core x = op_core y \<Longrightarrow> to_node x = to_node y"
  by (simp add: op_core_eq)

text \<open>The four links that are rewritten, as one heap update.\<close>

definition unlink_op :: "txn_heap \<Rightarrow> nat \<Rightarrow> txn_heap" where
  "unlink_op h op =
     (let h1 = (case next_in_node h op of None \<Rightarrow> h | Some x \<Rightarrow> set_previous_in_node x (previous_in_node h op) h);
          h2 = (case previous_in_node h op of None \<Rightarrow> h1 | Some x \<Rightarrow> set_next_in_node x (next_in_node h op) h1);
          h3 = (case next_in_txn h op of None \<Rightarrow> h2 | Some x \<Rightarrow> set_previous_in_txn x (previous_in_txn h op) h2)
      in (case previous_in_txn h op of None \<Rightarrow> h3 | Some x \<Rightarrow> set_next_in_txn x (next_in_txn h op) h3))"

lemma unlink_op_fields:
  "next_in_node (unlink_op h op) = (case previous_in_node h op of None \<Rightarrow> next_in_node h
      | Some a \<Rightarrow> (next_in_node h)(a := next_in_node h op))"
  "previous_in_node (unlink_op h op) = (case next_in_node h op of None \<Rightarrow> previous_in_node h
      | Some b \<Rightarrow> (previous_in_node h)(b := previous_in_node h op))"
  "next_in_txn (unlink_op h op) = (case previous_in_txn h op of None \<Rightarrow> next_in_txn h
      | Some a \<Rightarrow> (next_in_txn h)(a := next_in_txn h op))"
  "previous_in_txn (unlink_op h op) = (case next_in_txn h op of None \<Rightarrow> previous_in_txn h
      | Some b \<Rightarrow> (previous_in_txn h)(b := previous_in_txn h op))"
  by (simp_all add: unlink_op_def link_effects split: option.split)

lemma unlink_op_frames [simp]:
  "h_nodes (unlink_op h op) = h_nodes h" "h_txns (unlink_op h op) = h_txns h" "h_cursors (unlink_op h op) = h_cursors h"
  "h_op_alive (unlink_op h op) = h_op_alive h" "h_txn_alive (unlink_op h op) = h_txn_alive h"
  "h_tree (unlink_op h op) = h_tree h" "h_next (unlink_op h op) = h_next h"
  "h_oldest_txn (unlink_op h op) = h_oldest_txn h" "h_newest_txn (unlink_op h op) = h_newest_txn h"
  "op_core (h_ops (unlink_op h op) p) = op_core (h_ops h p)"
  by (simp_all add: unlink_op_def split: option.split)

lemma txn_op_free_unlink:
  "txn_op_free h op =
     (let h4 = unlink_op h op; node = to_node (h_ops h op);
          h5 = (if on_oldest_op (h_nodes h node) = Some op
                then upd_node node (\<lambda>x. x\<lparr>on_oldest_op := next_in_node h4 op\<rparr>) h4 else h4);
          h6 = (if on_oldest_op (h_nodes h5 node) = None then txn_opnode_free h5 node else h5)
      in h6\<lparr>h_op_alive := (h_op_alive h)(op := False)\<rparr>)"
proof -
  define n p n' p' where "n = next_in_node h op" and "p = previous_in_node h op"
    and "n' = next_in_txn h op" and "p' = previous_in_txn h op"
  define h1 where "h1 = (case n of None \<Rightarrow> h | Some x \<Rightarrow> set_previous_in_node x p h)"
  define h2 where "h2 = (case p of None \<Rightarrow> h1 | Some x \<Rightarrow> set_next_in_node x n h1)"
  define h3 where "h3 = (case n' of None \<Rightarrow> h2 | Some x \<Rightarrow> set_previous_in_txn x p' h2)"
  define h4 where "h4 = (case p' of None \<Rightarrow> h3 | Some x \<Rightarrow> set_next_in_txn x n' h3)"
  have u: "unlink_op h op = h4"
    unfolding unlink_op_def Let_def h4_def h3_def h2_def h1_def n_def p_def n'_def p'_def ..
  have l: "next_in_txn h2 op = n'" "previous_in_txn h2 op = p'"
    by (simp_all add: h2_def h1_def n'_def p'_def split: option.split)
  have nd: "to_node (h_ops h4 op) = to_node (h_ops h op)"
    using unlink_op_frames(10) [of h op op] by (intro to_node_core) (simp add: u)
  have nodes: "h_nodes h4 = h_nodes h" "h_op_alive h4 = h_op_alive h" using unlink_op_frames(1,4) [of h op] by (simp_all add: u)
  show ?thesis
    unfolding txn_op_free_def u Let_def n_def [symmetric] p_def [symmetric] h1_def [symmetric] h2_def [symmetric]
      l h3_def [symmetric] h4_def [symmetric] nd nodes
    by (simp add: nodes)
qed

lemma txn_op_free_fields:
  fixes h op
  defines "h' \<equiv> txn_op_free h op" and "n \<equiv> to_node (h_ops h op)"
  shows "next_in_node h' = next_in_node (unlink_op h op)" "previous_in_node h' = previous_in_node (unlink_op h op)"
    "next_in_txn h' = next_in_txn (unlink_op h op)" "previous_in_txn h' = previous_in_txn (unlink_op h op)"
    "op_core (h_ops h' p) = op_core (h_ops h p)" "h_txns h' = h_txns h" "h_cursors h' = h_cursors h"
    "h_op_alive h' = (h_op_alive h)(op := False)" "h_txn_alive h' = h_txn_alive h" "h_next h' = h_next h"
    "h_oldest_txn h' = h_oldest_txn h" "h_newest_txn h' = h_newest_txn h"
    "h_nodes h' = (if on_oldest_op (h_nodes h n) = Some op
       then (h_nodes h)(n := (h_nodes h n)\<lparr>on_oldest_op := next_in_node (unlink_op h op) op\<rparr>) else h_nodes h)"
    "h_tree h' = (if on_oldest_op (h_nodes h' n) = None then remove1 n (h_tree h) else h_tree h)"
  by (simp_all add: h'_def n_def txn_op_free_unlink Let_def) (auto simp: txn_opnode_free_def)

lemma dlist_drop_node:
  assumes d: "dlist nxt prv (as @ x # bs)"
    and n: "nxt' = (case prv x of None \<Rightarrow> nxt | Some a \<Rightarrow> nxt(a := nxt x))"
    and p: "prv' = (case nxt x of None \<Rightarrow> prv | Some b \<Rightarrow> prv(b := prv x))"
  shows "dlist nxt' prv' (as @ bs)"
    "\<And>y. y \<notin> set (as @ bs) \<Longrightarrow> nxt' y = nxt y \<and> prv' y = prv y" "nxt' x = nxt x" "prv' x = prv x"
proof -
  note mid = dlist_mid [OF d]
  have x: "x \<notin> set as" "x \<notin> set bs" using d by (auto simp: dlist_def)
  have "dlist (nxt'(x := None)) (prv'(x := None)) (as @ bs)"
    using dlist_unlink [OF d] n p mid by (auto split: option.splits)
  then show "dlist nxt' prv' (as @ bs)"
    by (rule dlist_cong [THEN iffD1, rotated]) (use x in auto)
  show "nxt' y = nxt y \<and> prv' y = prv y" if "y \<notin> set (as @ bs)" for y
    using that n p mid by (auto simp: head_of_Some last_of_Some split: option.splits)
  then show "nxt' x = nxt x" "prv' x = prv x" using x by auto
qed

lemma txn_op_free_node:
  assumes "node_list h n (as @ op # bs)"
  defines "h' \<equiv> txn_op_free h op"
  shows "dlist (next_in_node h') (previous_in_node h') (as @ bs)"
    "on_oldest_op (h_nodes h' n) = head_of (as @ bs)" "on_newest_op (h_nodes h' n) = last_of (as @ op # bs)"
    "\<forall>p \<in> set (as @ bs). to_node (h_ops h' p) = n \<and> h_op_alive h' p" "\<not> h_op_alive h' op"
    "h_tree h' = (if as @ bs = [] then remove1 n (h_tree h) else h_tree h)"
proof -
  note F = txn_op_free_fields [of h op, folded h'_def]
  have d: "dlist (next_in_node h) (previous_in_node h) (as @ op # bs)"
    and hd: "on_oldest_op (h_nodes h n) = head_of (as @ op # bs)"
    and ls: "on_newest_op (h_nodes h n) = last_of (as @ op # bs)"
    and mem: "\<forall>p \<in> set (as @ op # bs). to_node (h_ops h p) = n \<and> h_op_alive h p"
    using assms(1) by (auto simp: node_list_def)
  have x: "op \<notin> set as" "op \<notin> set bs" using d by (auto simp: dlist_def)
  have nd: "to_node (h_ops h op) = n" using mem by simp
  note D = dlist_drop_node [OF d unlink_op_fields(1,2)]
  show "dlist (next_in_node h') (previous_in_node h') (as @ bs)" unfolding F(1,2) by (rule D(1))
  have nx: "next_in_node (unlink_op h op) op = head_of bs" using D(3) dlist_mid [OF d] by simp
  have hdop: "on_oldest_op (h_nodes h n) = Some op \<longleftrightarrow> as = []"
    using hd x by (cases as) auto
  show od: "on_oldest_op (h_nodes h' n) = head_of (as @ bs)"
    unfolding F(13) nd using hdop hd nx by (auto simp: head_of_append)
  show "on_newest_op (h_nodes h' n) = last_of (as @ op # bs)" unfolding F(13) nd using ls by auto
  show "\<forall>p \<in> set (as @ bs). to_node (h_ops h' p) = n \<and> h_op_alive h' p"
    using mem x to_node_core [OF F(5)] by (auto simp: F(8))
  show "\<not> h_op_alive h' op" by (simp add: F(8))
  show "h_tree h' = (if as @ bs = [] then remove1 n (h_tree h) else h_tree h)"
    unfolding F(14) nd od by simp
qed

text \<open>Releasing all operations of a transaction: only they and their lists are touched.\<close>

definition ops_freed :: "txn_heap \<Rightarrow> nat list \<Rightarrow> txn_heap \<Rightarrow> bool" where
  "ops_freed h us h' \<longleftrightarrow>
     (\<forall>p. p \<notin> set us \<longrightarrow> next_in_txn h' p = next_in_txn h p \<and> previous_in_txn h' p = previous_in_txn h p \<and>
        h_op_alive h' p = h_op_alive h p) \<and>
     (\<forall>p \<in> set us. \<not> h_op_alive h' p) \<and> (\<forall>p. op_core (h_ops h' p) = op_core (h_ops h p)) \<and>
     h_txns h' = h_txns h \<and> h_txn_alive h' = h_txn_alive h \<and> h_oldest_txn h' = h_oldest_txn h \<and>
     h_newest_txn h' = h_newest_txn h \<and> h_next h' = h_next h \<and> h_cursors h' = h_cursors h \<and>
     (\<forall>m. on_key (h_nodes h' m) = on_key (h_nodes h m))"

lemma free_ops_loop_list:
  assumes "dlist (next_in_txn h) (previous_in_txn h) us"
  shows "\<exists>h'. free_ops_loop h (head_of us) = Some h' \<and> ops_freed h us h'"
  using assms
proof (induction us arbitrary: h)
  case Nil
  then show ?case by (subst free_ops_loop.simps) (simp add: ops_freed_def)
next
  case (Cons y ys)
  let ?h = "txn_op_free h y"
  note F = txn_op_free_fields [of h y]
  have d: "dlist (next_in_txn h) (previous_in_txn h) ([] @ y # ys)" using Cons.prems by simp
  note D = dlist_drop_node [OF d unlink_op_fields(3,4)]
  have "dlist (next_in_txn ?h) (previous_in_txn ?h) ys" unfolding F(3,4) using D(1) by simp
  from Cons.IH [OF this] obtain h' where h': "free_ops_loop ?h (head_of ys) = Some h'" "ops_freed ?h ys h'" by blast
  have "free_ops_loop h (head_of (y # ys)) = Some h'"
    using h'(1) dlist_mid(1) [OF d] by (subst free_ops_loop.simps) (simp add: Let_def)
  moreover have "ops_freed h (y # ys) h'"
  proof -
    have "y \<notin> set ys" using d by (simp add: dlist_def)
    moreover have "next_in_txn ?h p = next_in_txn h p \<and> previous_in_txn ?h p = previous_in_txn h p"
      if "p \<notin> set ys" for p
      unfolding F(3,4) using D(2) [of p] that by simp
    moreover have "on_key (h_nodes ?h m) = on_key (h_nodes h m)" for m unfolding F(13) by simp
    ultimately show ?thesis using h'(2) F(5-12) unfolding ops_freed_def by (auto; fail)
  qed
  ultimately show ?case by blast
qed

lemma txn_free_ops_list:
  assumes "txn_op_list h t us"
  shows "\<exists>h'. txn_free_ops h t = Some (upd_txn t (\<lambda>x. x\<lparr>tx_oldest_op := None, tx_newest_op := None\<rparr>) h') \<and>
    ops_freed h us h'"
  using free_ops_loop_list [of h us] assms by (auto simp: txn_free_ops_def txn_op_list_def)

lemma ops_freed_other:
  assumes "ops_freed h us h'" and "txn_op_list h s vs" and "txn_op_list h t us" and "s \<noteq> t"
  shows "txn_op_list h' s vs"
proof -
  have dis: "p \<notin> set us" if "p \<in> set vs" for p
    using assms(2-4) that by (auto simp: txn_op_list_def)
  have "dlist (next_in_txn h') (previous_in_txn h') vs = dlist (next_in_txn h) (previous_in_txn h) vs"
    by (rule dlist_cong) (use assms(1) dis in \<open>auto simp: ops_freed_def\<close>)
  moreover have "to_txn (h_ops h' p) = to_txn (h_ops h p)" for p
    using assms(1) by (simp add: ops_freed_def op_core_eq)
  ultimately show ?thesis using assms(1,2) dis by (auto simp: txn_op_list_def ops_freed_def)
qed

subsection \<open>The transaction list\<close>

definition txn_core :: "transaction \<Rightarrow> u64 \<times> u32 \<times> u32 \<times> nat option \<times> nat option" where
  "txn_core x = (tx_id x, tx_flags x, tx_cursor_refcount x, tx_oldest_op x, tx_newest_op x)"

lemma txn_core_eq:
  "txn_core x = txn_core y \<longleftrightarrow> tx_id x = tx_id y \<and> tx_flags x = tx_flags y \<and>
     tx_cursor_refcount x = tx_cursor_refcount y \<and> tx_oldest_op x = tx_oldest_op y \<and> tx_newest_op x = tx_newest_op y"
  by (simp add: txn_core_def)

lemma txn_list_frames [simp]:
  "h_ops (set_txn_newer p q h) = h_ops h" "h_ops (set_txn_older p q h) = h_ops h"
  "h_nodes (set_txn_newer p q h) = h_nodes h" "h_nodes (set_txn_older p q h) = h_nodes h"
  "h_op_alive (set_txn_newer p q h) = h_op_alive h" "h_op_alive (set_txn_older p q h) = h_op_alive h"
  "h_txn_alive (set_txn_newer p q h) = h_txn_alive h" "h_txn_alive (set_txn_older p q h) = h_txn_alive h"
  "h_oldest_txn (set_txn_newer p q h) = h_oldest_txn h" "h_oldest_txn (set_txn_older p q h) = h_oldest_txn h"
  "h_newest_txn (set_txn_newer p q h) = h_newest_txn h" "h_newest_txn (set_txn_older p q h) = h_newest_txn h"
  "txn_core (h_txns (set_txn_newer p q h) s) = txn_core (h_txns h s)"
  "txn_core (h_txns (set_txn_older p q h) s) = txn_core (h_txns h s)"
  by (simp_all add: set_txn_newer_def set_txn_older_def txn_core_def)

lemma txn_links_upd [simp]:
  "txn_newer (h\<lparr>h_oldest_txn := x\<rparr>) = txn_newer h" "txn_older (h\<lparr>h_oldest_txn := x\<rparr>) = txn_older h"
  "txn_newer (h\<lparr>h_newest_txn := x\<rparr>) = txn_newer h" "txn_older (h\<lparr>h_newest_txn := x\<rparr>) = txn_older h"
  "txn_newer (h\<lparr>h_txn_alive := y\<rparr>) = txn_newer h" "txn_older (h\<lparr>h_txn_alive := y\<rparr>) = txn_older h"
  by (simp_all add: txn_newer_def txn_older_def fun_eq_iff)

definition txn_rep :: "txn_heap \<Rightarrow> nat list \<Rightarrow> (nat \<Rightarrow> nat list) \<Rightarrow> bool" where
  "txn_rep h ts ops \<longleftrightarrow> dlist (txn_newer h) (txn_older h) ts \<and> h_oldest_txn h = head_of ts \<and>
     h_newest_txn h = last_of ts \<and> (\<forall>t \<in> set ts. txn_op_list h t (ops t) \<and> h_txn_alive h t)"

lemma txn_op_list_core:
  assumes "h_ops h' = h_ops h" and "h_op_alive h' = h_op_alive h" and "txn_core (h_txns h' t) = txn_core (h_txns h t)"
  shows "txn_op_list h' t us = txn_op_list h t us"
  using assms by (simp add: txn_op_list_def txn_core_eq next_in_txn_def [abs_def] previous_in_txn_def [abs_def])

lemma env_remove_oldest:
  assumes "txn_rep h (t # ts) ops"
  defines "h1 \<equiv> env_remove_txn h t"
  shows "txn_newer h1 = txn_newer h" "dlist (txn_newer h1) (txn_older h1) ts"
    "h_oldest_txn h1 = head_of ts" "h_newest_txn h1 = last_of ts" "txn_older h1 t = None"
    "h_ops h1 = h_ops h" "h_nodes h1 = h_nodes h" "h_op_alive h1 = h_op_alive h" "h_txn_alive h1 = h_txn_alive h"
    "\<And>s. txn_core (h_txns h1 s) = txn_core (h_txns h s)"
proof -
  have d: "dlist (txn_newer h) (txn_older h) ([] @ t # ts)" and hd: "h_oldest_txn h = Some t"
    and ls: "h_newest_txn h = last_of (t # ts)" using assms(1) by (auto simp: txn_rep_def)
  note mid = dlist_mid [OF d]
  have t: "t \<notin> set ts" using d by (simp add: dlist_def)
  have nl: "h_newest_txn h = Some t \<longleftrightarrow> ts = []"
    using ls t by (auto simp: last_of_Cons last_of_Some split: if_splits)
  have eq: "h1 = (case head_of ts of None \<Rightarrow> h\<lparr>h_newest_txn := None, h_oldest_txn := None\<rparr>
      | Some m \<Rightarrow> set_txn_older m None (h\<lparr>h_oldest_txn := head_of ts\<rparr>))"
    using nl hd mid by (cases ts) (auto simp: h1_def env_remove_txn_def Let_def)
  show n: "txn_newer h1 = txn_newer h"
    by (simp add: eq txn_list.link_simps split: option.split)
  have p: "txn_older h1 = (case head_of ts of None \<Rightarrow> txn_older h | Some m \<Rightarrow> (txn_older h)(m := None))"
    by (simp add: eq txn_list.link_simps split: option.split)
  note D = dlist_drop_node [OF d refl refl]
  show "dlist (txn_newer h1) (txn_older h1) ts"
    using D(1) mid unfolding n p by (cases ts) auto
  show "h_oldest_txn h1 = head_of ts" "h_ops h1 = h_ops h" "h_nodes h1 = h_nodes h" "h_op_alive h1 = h_op_alive h"
    "h_txn_alive h1 = h_txn_alive h" "\<And>s. txn_core (h_txns h1 s) = txn_core (h_txns h s)"
    by (simp_all add: eq split: option.split)
  show "h_newest_txn h1 = last_of ts" using ls by (cases ts) (simp_all add: eq last_of_Cons)
  show "txn_older h1 t = None" using mid t by (cases ts) (auto simp: p)
qed

lemma txn_discard_oldest:
  assumes "txn_rep h (t # ts) ops"
  shows "\<exists>h'. txn_free (env_remove_txn h t) t = Some h' \<and> txn_rep h' ts ops \<and> \<not> h_txn_alive h' t \<and>
    (\<forall>p \<in> set (ops t). \<not> h_op_alive h' p) \<and>
    (\<forall>p. op_core (h_ops h' p) = op_core (h_ops h p)) \<and> (\<forall>m. on_key (h_nodes h' m) = on_key (h_nodes h m)) \<and>
    (\<forall>s. s \<noteq> t \<longrightarrow> tx_flags (h_txns h' s) = tx_flags (h_txns h s))"
proof -
  let ?h1 = "env_remove_txn h t"
  note R = env_remove_oldest [OF assms]
  have d: "dlist (txn_newer h) (txn_older h) ([] @ t # ts)" using assms by (simp add: txn_rep_def)
  have tn: "t \<notin> set ts" using d by (simp add: dlist_def)
  have ol: "txn_op_list ?h1 s us = txn_op_list h s us" for s us by (rule txn_op_list_core) (simp_all add: R)
  have own: "txn_op_list ?h1 t (ops t)" using assms ol by (simp add: txn_rep_def)
  from txn_free_ops_list [OF own] obtain h2 where
    h2: "txn_free_ops ?h1 t = Some (upd_txn t (\<lambda>x. x\<lparr>tx_oldest_op := None, tx_newest_op := None\<rparr>) h2)"
      "ops_freed ?h1 (ops t) h2" by blast
  let ?g = "upd_txn t (\<lambda>x. x\<lparr>tx_oldest_op := None, tx_newest_op := None\<rparr>) h2"
  have tx: "h_txns h2 = h_txns ?h1" using h2(2) by (simp add: ops_freed_def)
  have l: "txn_newer ?g = txn_newer h" "txn_older ?g = txn_older ?h1"
    using R(1) by (auto simp: txn_newer_def txn_older_def fun_eq_iff tx)
  define h' where "h' = (case head_of ts of None \<Rightarrow> ?g | Some m \<Rightarrow> set_txn_older m None ?g)
      \<lparr>h_txn_alive := (h_txn_alive ?g)(t := False)\<rparr>"
  have eq: "txn_free ?h1 t = Some h'"
    using h2(1) l R(5) dlist_mid(1) [OF d]
    by (auto simp: txn_free_def Let_def h'_def split: option.split)
  have older: "txn_older h' = txn_older ?h1"
  proof -
    have "txn_older ?h1 m = None" if "head_of ts = Some m" for m
      using R(2) that by (cases ts) (auto simp: dlist_def)
    then show ?thesis
      by (auto simp: h'_def l txn_list.link_simps fun_eq_iff split: option.split)
  qed
  have newer: "txn_newer h' = txn_newer h" by (simp add: h'_def l txn_list.link_simps split: option.split)
  have F: "h_ops h' = h_ops h2" "h_nodes h' = h_nodes h2" "h_op_alive h' = h_op_alive h2"
    "h_oldest_txn h' = head_of ts" "h_newest_txn h' = last_of ts" "h_txn_alive h' = (h_txn_alive h)(t := False)"
    "\<And>s. s \<noteq> t \<Longrightarrow> txn_core (h_txns h' s) = txn_core (h_txns h2 s)"
    using h2(2) R(3,4,9) by (simp_all add: h'_def ops_freed_def split: option.split)
  have "txn_op_list h' s (ops s) \<and> h_txn_alive h' s" if "s \<in> set ts" for s
  proof -
    have s: "s \<noteq> t" using tn that by auto
    have "txn_op_list ?h1 s (ops s)" using assms ol that by (simp add: txn_rep_def)
    from ops_freed_other [OF h2(2) this own s] have "txn_op_list h2 s (ops s)" .
    then show ?thesis using txn_op_list_core [of h' h2 s] F s assms that by (simp add: txn_rep_def)
  qed
  then have "txn_rep h' ts ops" unfolding txn_rep_def newer older using R(1,2) F(4,5) by simp
  moreover have "tx_flags (h_txns h' s) = tx_flags (h_txns h s)" if "s \<noteq> t" for s
    using F(7) [OF that] R(10) [of s] by (simp add: txn_core_eq tx)
  ultimately show ?thesis using eq F h2(2) R(6-8) by (auto simp: ops_freed_def)
qed

subsection \<open>Flushing\<close>

text \<open>The effect of one operation without cursors on the backend.\<close>

definition op_effect :: "'b backend \<Rightarrow> txn_heap \<Rightarrow> nat \<Rightarrow> 'b \<Rightarrow> ham_status \<times> 'b" where
  "op_effect B h op b =
     (let x = h_ops h op; key = on_key (h_nodes h (to_node x)) in
      if op_is_insert h op then
        bk_insert B key (to_record x)
          (to_orig_flags x OR (if op_is h op TXN_OP_INSERT_DUP then HAM_DUPLICATE else HAM_OVERWRITE)) b
      else if op_is h op TXN_OP_ERASE then
        (if to_referenced_dupe x \<noteq> 0 then bk_erase_duplicate B key (to_referenced_dupe x) (to_flags x) b
         else bk_erase B key (to_flags x) b)
      else (HAM_SUCCESS, b))"

definition apply_op :: "'b backend \<Rightarrow> u32 \<Rightarrow> txn_heap \<Rightarrow> nat \<Rightarrow> 'b \<Rightarrow> 'b" where
  "apply_op B env_flags h op b =
     (if env_flags AND HAM_ENABLE_RECOVERY \<noteq> 0
      then snd (bk_flush_changeset B (to_lsn (h_ops h op)) (snd (op_effect B h op b)))
      else snd (op_effect B h op b))"

definition backend_ok :: "'b backend \<Rightarrow> bool" where
  "backend_ok B \<longleftrightarrow> (\<forall>k r f b. fst (bk_insert B k r f b) = HAM_SUCCESS) \<and>
     (\<forall>k f b. fst (bk_erase B k f b) = HAM_SUCCESS) \<and> (\<forall>k d f b. fst (bk_erase_duplicate B k d f b) = HAM_SUCCESS) \<and>
     (\<forall>l b. fst (bk_flush_changeset B l b) = HAM_SUCCESS)"

lemma flush_op_plain:
  assumes "to_cursors (h_ops h op) = None"
  shows "flush_op B env_flags h b op =
    (case op_effect B h op b of (st, b1) \<Rightarrow>
     case (if env_flags AND HAM_ENABLE_RECOVERY \<noteq> 0 then bk_flush_changeset B (to_lsn (h_ops h op)) b1 else (st, b1)) of
       (st', b2) \<Rightarrow>
         if st' \<noteq> HAM_SUCCESS then Some (st', h, b2)
         else Some (HAM_SUCCESS, upd_op op (\<lambda>x. x\<lparr>to_flags := TXN_OP_FLUSHED\<rparr>) h, b2))"
proof -
  have bt: "flush_op_btree B h b op = (case op_effect B h op b of (st, b1) \<Rightarrow> Some (st, h, b1))"
    using assms by (simp add: flush_op_btree_def op_effect_def Let_def split: prod.split)
  have un: "uncouple_all op (upd_op op (\<lambda>x. x\<lparr>to_flags := TXN_OP_FLUSHED\<rparr>) h) =
      Some (upd_op op (\<lambda>x. x\<lparr>to_flags := TXN_OP_FLUSHED\<rparr>) h)"
    using assms by (subst uncouple_all.simps) (simp add: upd_op_def)
  show ?thesis unfolding flush_op_def bt by (simp add: un split: prod.split)
qed

lemma op_effect_cong:
  assumes "op_core (h_ops h' op) = op_core (h_ops h op)" and "\<And>m. on_key (h_nodes h' m) = on_key (h_nodes h m)"
  shows "op_effect B h' op b = op_effect B h op b" "apply_op B env_flags h' op b = apply_op B env_flags h op b"
  using assms by (simp_all add: op_effect_def apply_op_def op_is_def op_is_insert_def op_core_eq Let_def)

lemma op_effect_ok: "backend_ok B \<Longrightarrow> fst (op_effect B h op b) = HAM_SUCCESS"
  by (simp add: op_effect_def backend_ok_def Let_def)

lemma flush_op_ok:
  assumes "to_cursors (h_ops h op) = None" and "backend_ok B"
  shows "flush_op B env_flags h b op =
    Some (HAM_SUCCESS, upd_op op (\<lambda>x. x\<lparr>to_flags := TXN_OP_FLUSHED\<rparr>) h, apply_op B env_flags h op b)"
proof -
  obtain b1 where e: "op_effect B h op b = (HAM_SUCCESS, b1)"
    using op_effect_ok [OF assms(2), of h op b] by (cases "op_effect B h op b") auto
  obtain b2 where c: "bk_flush_changeset B (to_lsn (h_ops h op)) b1 = (HAM_SUCCESS, b2)"
  proof -
    have "fst (bk_flush_changeset B (to_lsn (h_ops h op)) b1) = HAM_SUCCESS" using assms(2) by (simp add: backend_ok_def)
    then show thesis by (intro that [of "snd (bk_flush_changeset B (to_lsn (h_ops h op)) b1)"]) (simp add: prod_eq_iff)
  qed
  show ?thesis by (simp add: flush_op_plain [OF assms(1)] e c apply_op_def)
qed

text \<open>Marking operations as flushed changes nothing but their flags.\<close>

definition ops_flushed :: "txn_heap \<Rightarrow> nat list \<Rightarrow> txn_heap \<Rightarrow> bool" where
  "ops_flushed h us h' \<longleftrightarrow> (\<exists>f. h' = h\<lparr>h_ops := f\<rparr> \<and> (\<forall>p. p \<notin> set us \<longrightarrow> f p = h_ops h p) \<and>
     (\<forall>p \<in> set us. f p = (h_ops h p)\<lparr>to_flags := TXN_OP_FLUSHED\<rparr>))"

lemma ops_flushed_links:
  assumes "ops_flushed h us h'"
  shows "next_in_txn h' = next_in_txn h" "previous_in_txn h' = previous_in_txn h"
    "txn_op_list h' s vs = txn_op_list h s vs" "txn_newer h' = txn_newer h" "txn_older h' = txn_older h"
proof -
  from assms obtain f where f: "h' = h\<lparr>h_ops := f\<rparr>"
    "\<And>p. f p = h_ops h p \<or> f p = (h_ops h p)\<lparr>to_flags := TXN_OP_FLUSHED\<rparr>"
    unfolding ops_flushed_def by blast
  have "to_txn_next (f p) = to_txn_next (h_ops h p) \<and> to_txn_prev (f p) = to_txn_prev (h_ops h p) \<and>
      to_txn (f p) = to_txn (h_ops h p)" for p
    using f(2) [of p] by auto
  then show n: "next_in_txn h' = next_in_txn h" and p: "previous_in_txn h' = previous_in_txn h"
    "txn_op_list h' s vs = txn_op_list h s vs"
    by (simp_all add: f(1) next_in_txn_def [abs_def] previous_in_txn_def [abs_def] txn_op_list_def)
  show "txn_newer h' = txn_newer h" "txn_older h' = txn_older h"
    by (simp_all add: f(1) txn_newer_def [abs_def] txn_older_def [abs_def])
qed

lemma flush_ops_list:
  assumes "chain (next_in_txn h) prv q us None" and "distinct us" and "backend_ok B"
    and "\<forall>p \<in> set us. to_cursors (h_ops h p) = None"
  shows "\<exists>h'. flush_ops B env_flags h b (head_of us) = Some (HAM_SUCCESS, h', fold (apply_op B env_flags h) us b) \<and>
    ops_flushed h us h'"
  using assms
proof (induction us arbitrary: h b q)
  case Nil
  then show ?case by (subst flush_ops.simps) (auto simp: ops_flushed_def intro!: exI [of _ "h_ops h"])
next
  case (Cons y ys)
  let ?h = "upd_op y (\<lambda>x. x\<lparr>to_flags := TXN_OP_FLUSHED\<rparr>) h"
  have y: "y \<notin> set ys" using Cons.prems(2) by simp
  have nt: "next_in_txn ?h = next_in_txn h" by (simp add: next_in_txn_def [abs_def] upd_op_def fun_eq_iff)
  have keep: "h_ops ?h p = h_ops h p" if "p \<in> set ys" for p using that y by (auto simp: upd_op_def)
  have ch: "chain (next_in_txn ?h) prv (Some y) ys None" using Cons.prems(1) nt by simp
  obtain h' where h': "flush_ops B env_flags ?h (apply_op B env_flags h y b) (head_of ys) =
      Some (HAM_SUCCESS, h', fold (apply_op B env_flags ?h) ys (apply_op B env_flags h y b))" "ops_flushed ?h ys h'"
    using Cons.IH [OF ch _ Cons.prems(3), of "apply_op B env_flags h y b"] Cons.prems(2,4) keep by auto
  have "fold (apply_op B env_flags ?h) ys c = fold (apply_op B env_flags h) ys c" for c
    by (rule fold_cong [OF refl refl], rule ext, rule op_effect_cong(2)) (use keep in \<open>auto simp: upd_op_def\<close>)
  moreover have "flush_ops B env_flags h b (head_of (y # ys)) =
      flush_ops B env_flags ?h (apply_op B env_flags h y b) (head_of ys)"
    using flush_op_ok [of h y B env_flags b] Cons.prems nt
    by (subst flush_ops.simps) (auto split: if_splits)
  moreover have "ops_flushed h (y # ys) h'"
    using h'(2) y by (auto simp: ops_flushed_def upd_op_def)
  ultimately show ?case using h'(1) by auto
qed

definition txn_finished :: "txn_heap \<Rightarrow> nat \<Rightarrow> bool" where
  "txn_finished h t \<longleftrightarrow> txn_committed h t \<or> txn_aborted h t"

lemma flush_txn_rep:
  assumes "txn_rep h (t # ts) ops" and "backend_ok B" and "\<forall>p \<in> set (ops t). to_cursors (h_ops h p) = None"
  shows "\<exists>h'. flush_txn B env_flags h b t = Some (HAM_SUCCESS, h', fold (apply_op B env_flags h) (ops t) b) \<and>
    txn_rep h' (t # ts) ops \<and> ops_flushed h (ops t) h'"
proof -
  have own: "txn_op_list h t (ops t)" using assms(1) by (simp add: txn_rep_def)
  then have "chain (next_in_txn h) (previous_in_txn h) None (ops t) None" "distinct (ops t)"
    "tx_oldest_op (h_txns h t) = head_of (ops t)" by (auto simp: txn_op_list_def dlist_def)
  with flush_ops_list [of h "previous_in_txn h" None "ops t" B env_flags b] assms(2,3) obtain h' where
    h': "flush_txn B env_flags h b t = Some (HAM_SUCCESS, h', fold (apply_op B env_flags h) (ops t) b)"
      "ops_flushed h (ops t) h'" by (auto simp: flush_txn_def)
  note L = ops_flushed_links [OF h'(2)]
  have "h_oldest_txn h' = h_oldest_txn h" "h_newest_txn h' = h_newest_txn h" "h_txn_alive h' = h_txn_alive h"
    using h'(2) by (auto simp: ops_flushed_def)
  then have "txn_rep h' (t # ts) ops" using assms(1) L by (simp add: txn_rep_def)
  with h' show ?thesis by blast
qed

lemma flush_committed_loop_list:
  assumes "txn_rep h ts ops" and "backend_ok B"
    and "\<forall>t \<in> set (takeWhile (txn_finished h) ts). \<forall>p \<in> set (ops t). to_cursors (h_ops h p) = None"
  shows "\<exists>h'. flush_committed_loop B env_flags h b = Some (HAM_SUCCESS, h',
      fold (apply_op B env_flags h) (concat (map ops (filter (txn_committed h) (takeWhile (txn_finished h) ts)))) b) \<and>
    txn_rep h' (dropWhile (txn_finished h) ts) ops"
  using assms
proof (induction ts arbitrary: h b)
  case Nil
  then have "h_oldest_txn h = None" by (simp add: txn_rep_def)
  then show ?case using Nil by (subst flush_committed_loop.simps) simp
next
  case (Cons t ts)
  have hd: "h_oldest_txn h = Some t" using Cons.prems(1) by (simp add: txn_rep_def)
  show ?case
  proof (cases "txn_finished h t")
    case False
    then show ?thesis using Cons.prems(1) hd
      by (subst flush_committed_loop.simps) (simp add: txn_finished_def)
  next
    case True
    have tn: "t \<notin> set ts" using Cons.prems(1) by (simp add: txn_rep_def dlist_def)
    let ?us = "if txn_committed h t then ops t else []"
    obtain h1 where h1: "(if txn_committed h t then flush_txn B env_flags h b t else Some (HAM_SUCCESS, h, b)) =
        Some (HAM_SUCCESS, h1, fold (apply_op B env_flags h) ?us b)" "txn_rep h1 (t # ts) ops"
      "ops_flushed h ?us h1"
    proof (cases "txn_committed h t")
      case True
      with flush_txn_rep [OF Cons.prems(1,2)] Cons.prems(3) \<open>txn_finished h t\<close> that show thesis by auto
    next
      case False
      have "ops_flushed h [] h" unfolding ops_flushed_def by (intro exI [of _ "h_ops h"]) simp
      with False that [of h] Cons.prems(1) show thesis by simp
    qed
    from txn_discard_oldest [OF h1(2)] obtain h2 where
      h2: "txn_free (env_remove_txn h1 t) t = Some h2" "txn_rep h2 ts ops"
      "\<And>p. op_core (h_ops h2 p) = op_core (h_ops h1 p)" "\<And>m. on_key (h_nodes h2 m) = on_key (h_nodes h1 m)"
      "\<And>s. s \<noteq> t \<Longrightarrow> tx_flags (h_txns h2 s) = tx_flags (h_txns h1 s)" by blast
    have key: "on_key (h_nodes h2 m) = on_key (h_nodes h m)" for m using h1(3) h2(4) by (auto simp: ops_flushed_def)
    have "h_txns h1 = h_txns h" using h1(3) by (auto simp: ops_flushed_def)
    then have fl: "tx_flags (h_txns h2 s) = tx_flags (h_txns h s)" if "s \<in> set ts" for s
      using h2(5) [of s] tn that by (cases "s = t") simp_all
    have other: "op_core (h_ops h2 p) = op_core (h_ops h p)" if "s \<in> set ts" "p \<in> set (ops s)" for s p
    proof -
      have "p \<notin> set ?us"
        using Cons.prems(1) that tn by (auto simp: txn_rep_def txn_op_list_def)
      then show ?thesis using h1(3) h2(3) [of p] by (auto simp: ops_flushed_def)
    qed
    have fin: "txn_finished h2 s = txn_finished h s" "txn_committed h2 s = txn_committed h s" if "s \<in> set ts" for s
      using fl [OF that] by (simp_all add: txn_finished_def txn_committed_def txn_aborted_def)
    have tw: "takeWhile (txn_finished h2) ts = takeWhile (txn_finished h) ts"
      "dropWhile (txn_finished h2) ts = dropWhile (txn_finished h) ts"
      by (rule takeWhile_cong dropWhile_cong; use fin in auto)+
    let ?fin = "takeWhile (txn_finished h) ts"
    have sub: "set ?fin \<subseteq> set ts" using set_takeWhileD by fast
    have flt: "filter (txn_committed h2) ?fin = filter (txn_committed h) ?fin"
      by (rule filter_cong) (use fin sub in auto)
    have cur: "\<forall>s \<in> set ?fin. \<forall>p \<in> set (ops s). to_cursors (h_ops h2 p) = None"
      using Cons.prems(3) other sub True by (auto simp: op_core_eq; blast)
    have fold: "fold (apply_op B env_flags h2) (concat (map ops (filter (txn_committed h) ?fin))) c =
        fold (apply_op B env_flags h) (concat (map ops (filter (txn_committed h) ?fin))) c" for c
      by (rule fold_cong [OF refl refl], rule ext, rule op_effect_cong(2)) (use other key sub in auto)
    from Cons.IH [OF h2(2) Cons.prems(2), unfolded tw, OF cur, of "fold (apply_op B env_flags h) ?us b"]
    obtain h3 where h3: "flush_committed_loop B env_flags h2 (fold (apply_op B env_flags h) ?us b) =
      Some (HAM_SUCCESS, h3, fold (apply_op B env_flags h) (concat (map ops (filter (txn_committed h) ?fin)))
        (fold (apply_op B env_flags h) ?us b))" "txn_rep h3 (dropWhile (txn_finished h) ts) ops"
      unfolding flt fold by blast
    have "flush_committed_loop B env_flags h b = flush_committed_loop B env_flags h2 (fold (apply_op B env_flags h) ?us b)"
      using hd True h1(1) h2(1) by (subst flush_committed_loop.simps) (auto simp: txn_finished_def)
    with h3 True show ?thesis by auto
  qed
qed

lemma txn_opnode_append_counters:
  "h_next (snd (txn_opnode_append h t n orig_flags flags lsn rec)) = Suc (h_next h)"
  "h_txn_alive (snd (txn_opnode_append h t n orig_flags flags lsn rec)) = h_txn_alive h"
  "h_cursors (snd (txn_opnode_append h t n orig_flags flags lsn rec)) = h_cursors h"
  "to_cursors (h_ops (snd (txn_opnode_append h t n orig_flags flags lsn rec)) q) =
     (if q = h_next h then None else to_cursors (h_ops h q))"
  by (simp_all add: txn_opnode_append_def Let_def txn_fields split: option.split)

text \<open>The lists of other keys and of other transactions are left as they were.\<close>

lemma txn_opnode_append_others:
  assumes "txn_opnode_append h t n orig_flags flags lsn rec = (op, h')"
    and "node_list h n os" and "txn_op_list h t us" and "heap_fresh h"
  shows "m \<noteq> n \<Longrightarrow> node_list h m os' \<Longrightarrow> node_list h' m os'"
    and "s \<noteq> t \<Longrightarrow> txn_op_list h s us' \<Longrightarrow> txn_op_list h' s us'"
proof -
  note A = txn_opnode_append_lists [OF assms]
  have core: "to_node (h_ops h' p) = to_node (h_ops h p)" "to_txn (h_ops h' p) = to_txn (h_ops h p)" if "p \<noteq> op" for p
    using A(5) [OF that] by (auto simp: op_core_eq)
  have fresh: "p \<noteq> op" if "h_op_alive h p" for p
    using assms(4) A(1) that by (auto simp: heap_fresh_def)
  show "node_list h' m os'" if mn: "m \<noteq> n" and l: "node_list h m os'"
  proof -
    have dis: "p \<notin> set (os @ [op])" if "p \<in> set os'" for p
      using that fresh assms(2) mn l by (auto simp: node_list_def)
    have "dlist (next_in_node h') (previous_in_node h') os'"
      using l dlist_cong [of os' "next_in_node h'" "next_in_node h"] A(6) dis by (auto simp: node_list_def)
    then show ?thesis using l mn A(8,11) fresh core by (auto simp: node_list_def)
  qed
  show "txn_op_list h' s us'" if st: "s \<noteq> t" and l: "txn_op_list h s us'"
  proof -
    have dis: "p \<notin> set (us @ [op])" if "p \<in> set us'" for p
      using that fresh assms(3) st l by (auto simp: txn_op_list_def)
    have "dlist (next_in_txn h') (previous_in_txn h') us'"
      using l dlist_cong [of us' "next_in_txn h'" "next_in_txn h"] A(7) dis by (auto simp: txn_op_list_def)
    then show ?thesis using l st A(8,13) fresh core by (auto simp: txn_op_list_def)
  qed
qed

section \<open>Theorems\<close>

text \<open>
  C7. Commit order. \<open>env_flush_committed_txns\<close> ends, and takes from the list of
  transactions exactly the longest prefix, oldest first, of transactions that are
  committed or aborted; the operations of the committed ones reach the B+tree in the
  order of the transactions and, within each, in the order in which they were issued
  (each followed by the flush of its changeset when recovery is on); operations of
  aborted and of still active transactions do not. The rest of the list is intact. The
  backend is one whose operations succeed, and no cursor is coupled to a flushed
  operation.
\<close>

theorem committed_transactions_flush_in_order:
  assumes "txn_rep h ts ops" and "backend_ok B"
    and "\<forall>t \<in> set (takeWhile (txn_finished h) ts). \<forall>p \<in> set (ops t). to_cursors (h_ops h p) = None"
  shows "\<exists>h'. env_flush_committed_txns B env_flags h b = Some (HAM_SUCCESS, h', bk_clear_changeset B
      (fold (apply_op B env_flags h) (concat (map ops (filter (txn_committed h) (takeWhile (txn_finished h) ts)))) b)) \<and>
    txn_rep h' (dropWhile (txn_finished h) ts) ops"
  using flush_committed_loop_list [OF assms, of env_flags b] by (auto simp: env_flush_committed_txns_def)

definition sample_backend :: "byte list list backend" where
  "sample_backend = \<lparr>bk_insert = (\<lambda>k r f b. (HAM_SUCCESS, b @ [k])), bk_cursor_insert = (\<lambda>c k r f b. (HAM_SUCCESS, b @ [k])),
     bk_couple_to_other = (\<lambda>c d b. b), bk_erase = (\<lambda>k f b. (HAM_SUCCESS, filter (\<lambda>x. x \<noteq> k) b)),
     bk_erase_duplicate = (\<lambda>k d f b. (HAM_SUCCESS, b)), bk_find = (\<lambda>k i f b. (if k \<in> set b then HAM_SUCCESS else HAM_KEY_NOT_FOUND, (k, i, empty_record), b)),
     bk_cursor_points_to_key = (\<lambda>c k b. (False, b)), bk_cursor_is_nil = (\<lambda>c b. True), bk_cursor_set_to_nil = (\<lambda>c b. b),
     bk_flush_changeset = (\<lambda>l b. (HAM_SUCCESS, b)), bk_clear_changeset = id\<rparr>"

definition sample_txn :: "u32 \<Rightarrow> nat option \<Rightarrow> nat option \<Rightarrow> nat option \<Rightarrow> transaction" where
  "sample_txn flags newer older op = \<lparr>tx_id = 0, tx_name = None, tx_flags = flags, tx_cursor_refcount = 0, tx_log_desc = 0,
     tx_newer = newer, tx_older = older, tx_oldest_op = op, tx_newest_op = op\<rparr>"

definition sample_op :: "nat \<Rightarrow> nat \<Rightarrow> nat option \<Rightarrow> nat option \<Rightarrow> txn_op" where
  "sample_op t n prv nxt = \<lparr>to_flags = TXN_OP_INSERT, to_orig_flags = 0, to_referenced_dupe = 0, to_txn = t, to_node = n,
     to_node_next = nxt, to_node_prev = prv, to_txn_next = None, to_txn_prev = None, to_lsn = 1, to_other_lsn = 0,
     to_record = empty_record, to_cursors = None\<rparr>"

text \<open>A committed transaction 0 and an active transaction 1, each with one insert of the key in node 2.\<close>

definition sample_heap :: txn_heap where
  "sample_heap = \<lparr>h_ops = (\<lambda>p. if p = 3 then sample_op 0 2 None (Some 4) else sample_op 1 2 (Some 3) None),
     h_op_alive = (\<lambda>p. p = 3 \<or> p = 4),
     h_nodes = (\<lambda>_. \<lparr>on_key = [65], on_oldest_op = Some 3, on_newest_op = Some 4\<rparr>),
     h_txns = (\<lambda>t. if t = 0 then sample_txn TXN_STATE_COMMITTED (Some 1) None (Some 3) else sample_txn 0 None (Some 0) (Some 4)),
     h_txn_alive = (\<lambda>t. t \<le> 1), h_cursors = (\<lambda>_. \<lparr>tc_op = None, tc_next = None, tc_previous = None, tc_on_txnop = False,
       tc_dupecache_index = 0, tc_lastop = 0, tc_first_use = True\<rparr>),
     h_tree = [2], h_next = 5, h_oldest_txn = Some 0, h_newest_txn = Some 1, h_txn_id = 2\<rparr>"

lemma sample_heap_rep:
  "txn_rep sample_heap [0, 1] (\<lambda>t. [t + 3])" "node_list sample_heap 2 ([3] @ [4])"
  "txn_finished sample_heap 0" "\<not> txn_finished sample_heap (Suc 0)" "txn_committed sample_heap 0"
  by (simp_all add: last_of_Cons txn_rep_def txn_op_list_def node_list_def dlist_def txn_finished_def txn_committed_def txn_aborted_def
      sample_heap_def sample_txn_def sample_op_def TXN_STATE_COMMITTED_def TXN_STATE_ABORTED_def
      txn_newer_def txn_older_def next_in_txn_def previous_in_txn_def next_in_node_def previous_in_node_def)

theorem committed_transactions_flush_in_order_witness:
  "\<exists>h'. env_flush_committed_txns sample_backend 0 sample_heap [] = Some (HAM_SUCCESS, h', [[65]]) \<and>
     txn_rep h' [1] (\<lambda>t. [t + 3])"
proof -
  have B: "backend_ok sample_backend" "bk_clear_changeset sample_backend = id"
    by (simp_all add: backend_ok_def sample_backend_def)
  have tw: "takeWhile (txn_finished sample_heap) [0, 1] = [0]" "dropWhile (txn_finished sample_heap) [0, 1] = [1]"
    "filter (txn_committed sample_heap) [0] = [0]"
    using sample_heap_rep(3-5) by simp_all
  have cur: "\<forall>t \<in> set (takeWhile (txn_finished sample_heap) [0, 1]). \<forall>p \<in> set [t + 3].
      to_cursors (h_ops sample_heap p) = None"
    unfolding tw by (simp add: sample_heap_def sample_op_def)
  have "apply_op sample_backend 0 sample_heap 3 [] = [[65]]"
    by (simp add: apply_op_def op_effect_def op_is_insert_def op_is_def sample_heap_def sample_op_def
        sample_backend_def TXN_OP_INSERT_def)
  with committed_transactions_flush_in_order [OF sample_heap_rep(1) B(1) cur, of 0 "[]", unfolded tw B(2)]
  show ?thesis by simp
qed

text \<open>
  Operations keep their order: \<open>txn_opnode_append\<close> puts the new operation at the end of
  the list of its key and at the end of the list of its transaction, both well-formed
  doubly linked lists before and after, stores the flags, serial number and record, and
  leaves the lists of every other key and transaction as they were.
\<close>

theorem append_keeps_chronological_lists:
  assumes "txn_opnode_append h t n orig_flags flags lsn rec = (op, h')"
    and "node_list h n os" and "txn_op_list h t us" and "heap_fresh h"
    and "m \<noteq> n" and "node_list h m os'" and "s \<noteq> t" and "txn_op_list h s us'"
  shows "node_list h' n (os @ [op]) \<and> txn_op_list h' t (us @ [op]) \<and> node_list h' m os' \<and> txn_op_list h' s us' \<and>
    to_flags (h_ops h' op) = flags \<and> to_lsn (h_ops h' op) = lsn \<and>
    to_record (h_ops h' op) = (case rec of None \<Rightarrow> empty_record | Some r \<Rightarrow> r)"
  using txn_opnode_append_lists [OF assms(1-4)] txn_opnode_append_others [OF assms(1-4)] assms(5-8) by blast

theorem append_keeps_chronological_lists_witness:
  "\<exists>op h'. txn_opnode_append (sample_heap\<lparr>h_nodes := (h_nodes sample_heap)(6 := \<lparr>on_key = [66], on_oldest_op = None, on_newest_op = None\<rparr>),
       h_next := 7\<rparr>) 1 6 0 TXN_OP_INSERT 9 None = (op, h') \<and>
     node_list h' 6 [op] \<and> txn_op_list h' 1 [4, op] \<and> node_list h' 2 [3, 4] \<and> txn_op_list h' 0 [3]"
proof -
  let ?h = "sample_heap\<lparr>h_nodes := (h_nodes sample_heap)(6 := \<lparr>on_key = [66], on_oldest_op = None, on_newest_op = None\<rparr>),
       h_next := 7\<rparr>"
  obtain op h' where e: "txn_opnode_append ?h 1 6 0 TXN_OP_INSERT 9 None = (op, h')" by (metis surj_pair)
  have r: "node_list ?h 6 []" "txn_op_list ?h 1 [4]" "heap_fresh ?h" "node_list ?h 2 [3, 4]" "txn_op_list ?h 0 [3]"
    by (simp_all add: last_of_Cons node_list_def txn_op_list_def heap_fresh_def dlist_def
      sample_heap_def sample_txn_def sample_op_def
      next_in_txn_def previous_in_txn_def next_in_node_def previous_in_node_def)
  from append_keeps_chronological_lists [OF e r(1-3) _ r(4) _ r(5)] e show ?thesis by auto
qed

text \<open>
  Aborting can leave a node with a dangling pointer. \<open>txn_op_free\<close> repairs the list of
  the node and its oldest operation, and removes the node when the list gets empty; it
  never updates the pointer to the newest operation. When the released operation is the
  newest of several, the node still points to it, although its memory is free.
\<close>

theorem op_free_leaves_newest_dangling:
  assumes "node_list h n (as @ [op])" and "as \<noteq> []"
  shows "on_newest_op (h_nodes (txn_op_free h op) n) = Some op \<and> \<not> h_op_alive (txn_op_free h op) op \<and>
    on_oldest_op (h_nodes (txn_op_free h op) n) = head_of as \<and> h_tree (txn_op_free h op) = h_tree h"
  using txn_op_free_node [OF assms(1)] assms(2) by simp

theorem op_free_leaves_newest_dangling_witness:
  "on_newest_op (h_nodes (txn_op_free sample_heap 4) 2) = Some 4 \<and> \<not> h_op_alive (txn_op_free sample_heap 4) 4"
  using op_free_leaves_newest_dangling [OF sample_heap_rep(2)] by simp

end
