(* ===== verification/Ham_Extkeys.thy ===== *)
theory Ham_Extkeys
  imports Ham_Prelude
begin

text \<open>
  The hash table template \<open>src/hash-table.h\<close> and the cache of extended keys built on it,
  \<open>src/extkeys.h\<close> and \<open>src/extkeys.cc\<close>.

  The objects of a bucket form a singly linked list that only the table reaches; it is kept
  as a list, head first. The helper object of the template is a record of functions. The
  contract of a cache of keys is the locale \<open>key_cache\<close>; \<open>memoised\<close> extends it with a source
  of keys and proves what a client of the cache relies on.
\<close>

section \<open>The hash table\<close>

record ('t, 'k) hash_helper =
  hh_key :: "'t \<Rightarrow> 'k"
  hh_hash :: "'k \<Rightarrow> u32"

type_synonym 't buckets = "'t list list"

definition hash_table_new :: "nat \<Rightarrow> 't buckets" where
  "hash_table_new bucket_size = replicate bucket_size []"

definition ht_hash :: "('t, 'k) hash_helper \<Rightarrow> 't buckets \<Rightarrow> 'k \<Rightarrow> nat" where
  "ht_hash hp m key = unat (hh_hash hp key) mod length m"

definition ht_put :: "('t, 'k) hash_helper \<Rightarrow> 't \<Rightarrow> 't buckets \<Rightarrow> 't buckets" where
  "ht_put hp p m = (let h = ht_hash hp m (hh_key hp p) in m[h := p # m ! h])"

fun bucket_get :: "('t, 'k) hash_helper \<Rightarrow> 'k \<Rightarrow> 't list \<Rightarrow> 't option" where
  "bucket_get hp key [] = None"
| "bucket_get hp key (p # ps) = (if hh_key hp p = key then Some p else bucket_get hp key ps)"

definition ht_get :: "('t, 'k) hash_helper \<Rightarrow> 't buckets \<Rightarrow> 'k \<Rightarrow> 't option" where
  "ht_get hp m key = bucket_get hp key (m ! ht_hash hp m key)"

fun bucket_remove :: "('t, 'k) hash_helper \<Rightarrow> 'k \<Rightarrow> 't list \<Rightarrow> 't option \<times> 't list" where
  "bucket_remove hp key [] = (None, [])"
| "bucket_remove hp key (p # ps) =
     (if hh_key hp p = key then (Some p, ps)
      else (case bucket_remove hp key ps of (r, qs) \<Rightarrow> (r, p # qs)))"

definition ht_remove :: "('t, 'k) hash_helper \<Rightarrow> 'k \<Rightarrow> 't buckets \<Rightarrow> 't option \<times> 't buckets" where
  "ht_remove hp key m =
     (let h = ht_hash hp m key in case bucket_remove hp key (m ! h) of (r, ps) \<Rightarrow> (r, m[h := ps]))"

definition ht_remove_if :: "('t \<Rightarrow> bool) \<Rightarrow> 't buckets \<Rightarrow> 't buckets" where
  "ht_remove_if cond m = map (filter (\<lambda>p. \<not> cond p)) m"

text \<open>An update of the object that a lookup returned, in place.\<close>

fun bucket_update :: "('t, 'k) hash_helper \<Rightarrow> 'k \<Rightarrow> ('t \<Rightarrow> 't) \<Rightarrow> 't list \<Rightarrow> 't list" where
  "bucket_update hp key f [] = []"
| "bucket_update hp key f (p # ps) = (if hh_key hp p = key then f p # ps else p # bucket_update hp key f ps)"

definition ht_update :: "('t, 'k) hash_helper \<Rightarrow> 'k \<Rightarrow> ('t \<Rightarrow> 't) \<Rightarrow> 't buckets \<Rightarrow> 't buckets" where
  "ht_update hp key f m = (let h = ht_hash hp m key in m[h := bucket_update hp key f (m ! h)])"

text \<open>Every object is in the bucket of its key.\<close>

definition ht_inv :: "('t, 'k) hash_helper \<Rightarrow> 't buckets \<Rightarrow> bool" where
  "ht_inv hp m \<longleftrightarrow> m \<noteq> [] \<and> (\<forall>i < length m. \<forall>p \<in> set (m ! i). ht_hash hp m (hh_key hp p) = i)"

lemma ht_hash_lt: "m \<noteq> [] \<Longrightarrow> ht_hash hp m key < length m"
  by (simp add: ht_hash_def)

lemma ht_hash_length: "length m' = length m \<Longrightarrow> ht_hash hp m' = ht_hash hp m"
  by (simp add: ht_hash_def fun_eq_iff)

lemma bucket_remove_set: "set (snd (bucket_remove hp key ps)) \<subseteq> set ps"
  by (induction ps) (auto split: prod.splits)

lemma bucket_remove_fst: "fst (bucket_remove hp key ps) = bucket_get hp key ps"
  by (induction ps) (auto split: prod.splits)

lemma bucket_get_remove_other: "key' \<noteq> key \<Longrightarrow> bucket_get hp key' (snd (bucket_remove hp key ps)) = bucket_get hp key' ps"
  by (induction ps) (auto split: prod.splits)

lemma bucket_get_None: "bucket_get hp key ps = None \<longleftrightarrow> key \<notin> hh_key hp ` set ps"
  by (induction ps) auto

lemma bucket_get_key: "bucket_get hp key ps = Some p \<Longrightarrow> hh_key hp p = key \<and> p \<in> set ps"
  by (induction ps) (auto split: if_splits)

lemma bucket_remove_gone:
  "distinct (map (hh_key hp) ps) \<Longrightarrow> bucket_get hp key (snd (bucket_remove hp key ps)) = None"
proof (induction ps)
  case (Cons p ps)
  then show ?case by (cases "hh_key hp p = key") (auto simp: bucket_get_None split: prod.splits)
qed simp

lemma bucket_remove_distinct:
  "distinct (map (hh_key hp) ps) \<Longrightarrow> distinct (map (hh_key hp) (snd (bucket_remove hp key ps)))"
proof (induction ps)
  case (Cons p ps)
  then show ?case using bucket_remove_set [of hp key ps] by (fastforce split: prod.splits)
qed simp

lemma bucket_get_update:
  "(\<And>p. hh_key hp (f p) = hh_key hp p) \<Longrightarrow>
   bucket_get hp key' (bucket_update hp key f ps) =
     (if key' = key then map_option f (bucket_get hp key' ps) else bucket_get hp key' ps)"
  by (induction ps) auto

lemma map_key_update: "(\<And>p. hh_key hp (f p) = hh_key hp p) \<Longrightarrow> map (hh_key hp) (bucket_update hp key f ps) = map (hh_key hp) ps"
  by (induction ps) auto

lemma bucket_get_filter:
  "distinct (map (hh_key hp) ps) \<Longrightarrow>
   bucket_get hp key (filter c ps) = (case bucket_get hp key ps of None \<Rightarrow> None | Some p \<Rightarrow> if c p then Some p else None)"
proof (induction ps)
  case (Cons p ps)
  show ?case
  proof (cases "hh_key hp p = key")
    case True
    with Cons.prems have "bucket_get hp key ps = None" "bucket_get hp key (filter c ps) = None"
      by (auto simp: bucket_get_None)
    with True show ?thesis by simp
  qed (use Cons in simp)
qed simp

section \<open>The cache of extended keys\<close>

definition EXTKEY_MAX_AGE :: u64 where "EXTKEY_MAX_AGE = 25"

record extkey =
  ek_blobid :: u64
  ek_age :: u64
  ek_size :: u32
  ek_data :: "byte list"

definition extkey_helper :: "(extkey, u64) hash_helper" where
  "extkey_helper = \<lparr>hh_key = ek_blobid, hh_hash = ucast\<rparr>"

record extkey_cache =
  ec_usedsize :: u32
  ec_hash :: "extkey buckets"

definition extkey_cache_new :: extkey_cache where
  "extkey_cache_new = \<lparr>ec_usedsize = 0, ec_hash = hash_table_new 10317\<rparr>"

definition extkey_insert :: "u64 \<Rightarrow> u64 \<Rightarrow> u32 \<Rightarrow> byte list \<Rightarrow> extkey_cache \<Rightarrow> extkey_cache" where
  "extkey_insert txn_id blobid sz data c =
     c\<lparr>ec_hash := ht_put extkey_helper
         \<lparr>ek_blobid = blobid, ek_age = txn_id, ek_size = sz, ek_data = take (unat sz) data\<rparr> (ec_hash c)\<rparr>"

definition extkey_cache_remove :: "u64 \<Rightarrow> extkey_cache \<Rightarrow> extkey_cache" where
  "extkey_cache_remove blobid c =
     (case ht_remove extkey_helper blobid (ec_hash c) of
        (None, m) \<Rightarrow> c\<lparr>ec_hash := m\<rparr>
      | (Some e, m) \<Rightarrow> c\<lparr>ec_usedsize := ec_usedsize c - ek_size e, ec_hash := m\<rparr>)"

definition extkey_fetch :: "u64 \<Rightarrow> u64 \<Rightarrow> extkey_cache \<Rightarrow> ham_status \<times> (u32 \<times> byte list) option \<times> extkey_cache" where
  "extkey_fetch txn_id blobid c =
     (case ht_get extkey_helper (ec_hash c) blobid of
        Some e \<Rightarrow> (HAM_SUCCESS, Some (ek_size e, ek_data e),
                   c\<lparr>ec_hash := ht_update extkey_helper blobid (\<lambda>x. x\<lparr>ek_age := txn_id\<rparr>) (ec_hash c)\<rparr>)
      | None \<Rightarrow> (HAM_KEY_NOT_FOUND, None, c))"

definition extkey_remove_if :: "bool \<Rightarrow> u64 \<Rightarrow> extkey \<Rightarrow> bool" where
  "extkey_remove_if removeall txn_id e \<longleftrightarrow> removeall \<or> txn_id - ek_age e > EXTKEY_MAX_AGE"

definition extkey_purge :: "u64 \<Rightarrow> extkey_cache \<Rightarrow> extkey_cache" where
  "extkey_purge txn_id c = c\<lparr>ec_hash := ht_remove_if (extkey_remove_if False txn_id) (ec_hash c)\<rparr>"

definition extkey_purge_all :: "u64 \<Rightarrow> extkey_cache \<Rightarrow> extkey_cache" where
  "extkey_purge_all txn_id c = c\<lparr>ec_hash := ht_remove_if (extkey_remove_if True txn_id) (ec_hash c)\<rparr>"

text \<open>\<open>extkey_remove\<close>: the cached key, if there is a cache, and its blob.\<close>

definition extkey_remove :: "(u64 \<Rightarrow> 'b \<Rightarrow> ham_status \<times> 'b) \<Rightarrow> u64 \<Rightarrow> extkey_cache option \<Rightarrow> 'b \<Rightarrow> ham_status \<times> extkey_cache option \<times> 'b" where
  "extkey_remove blob_free blobid c b =
     (case blob_free blobid b of (st, b') \<Rightarrow> (st, map_option (extkey_cache_remove blobid) c, b'))"

text \<open>The map a cache represents, and its invariant.\<close>

definition extkey_abs :: "extkey_cache \<Rightarrow> u64 \<rightharpoonup> byte list" where
  "extkey_abs c blobid = map_option ek_data (ht_get extkey_helper (ec_hash c) blobid)"

definition extkey_inv :: "extkey_cache \<Rightarrow> bool" where
  "extkey_inv c \<longleftrightarrow> ht_inv extkey_helper (ec_hash c) \<and>
     (\<forall>b \<in> set (ec_hash c). distinct (map ek_blobid b) \<and> (\<forall>e \<in> set b. unat (ek_size e) = length (ek_data e)))"

section \<open>The contract of a key cache\<close>

locale key_cache =
  fixes put :: "'k \<Rightarrow> 'v \<Rightarrow> 'c \<Rightarrow> 'c"
    and get :: "'k \<Rightarrow> 'c \<Rightarrow> 'v option \<times> 'c"
    and del :: "'k \<Rightarrow> 'c \<Rightarrow> 'c"
    and purge :: "'c \<Rightarrow> 'c"
    and abs :: "'c \<Rightarrow> 'k \<rightharpoonup> 'v"
    and inv :: "'c \<Rightarrow> bool"
    and valid :: "'v \<Rightarrow> bool"
  assumes inv_put: "inv c \<Longrightarrow> abs c k = None \<Longrightarrow> valid v \<Longrightarrow> inv (put k v c)"
    and abs_put: "inv c \<Longrightarrow> abs c k = None \<Longrightarrow> valid v \<Longrightarrow> abs (put k v c) = (abs c)(k \<mapsto> v)"
    and get_value: "inv c \<Longrightarrow> fst (get k c) = abs c k"
    and inv_get: "inv c \<Longrightarrow> inv (snd (get k c))"
    and abs_get: "inv c \<Longrightarrow> abs (snd (get k c)) = abs c"
    and inv_del: "inv c \<Longrightarrow> inv (del k c)"
    and abs_del: "inv c \<Longrightarrow> abs (del k c) = (abs c)(k := None)"
    and inv_purge: "inv c \<Longrightarrow> inv (purge c)"
    and abs_purge: "inv c \<Longrightarrow> abs (purge c) \<subseteq>\<^sub>m abs c"

text \<open>A cache in front of a source that does not change: it never answers anything but the source.\<close>

locale memoised = key_cache put get del purge abs inv valid
  for put :: "'k \<Rightarrow> 'v \<Rightarrow> 'c \<Rightarrow> 'c" and get del purge abs inv valid +
  fixes source :: "'k \<Rightarrow> 'v"
  assumes source_valid: "valid (source k)"
begin

lemma sound_get:
  assumes "inv c" and "abs c \<subseteq>\<^sub>m (\<lambda>k. Some (source k))"
  shows "fst (get k c) = None \<or> fst (get k c) = Some (source k)"
    and "inv (snd (get k c)) \<and> abs (snd (get k c)) \<subseteq>\<^sub>m (\<lambda>k. Some (source k))"
    and "fst (get k c) = None \<Longrightarrow> abs (snd (get k c)) k = None"
  using assms get_value [OF assms(1), of k] abs_get [OF assms(1), of k] inv_get [OF assms(1), of k]
  by (auto simp: map_le_def dom_def)

lemma sound_put:
  assumes "inv c" and "abs c \<subseteq>\<^sub>m (\<lambda>k. Some (source k))" and "abs c k = None"
  shows "inv (put k (source k) c) \<and> abs (put k (source k) c) \<subseteq>\<^sub>m (\<lambda>k. Some (source k))"
  using assms inv_put [OF assms(1,3) source_valid] abs_put [OF assms(1,3) source_valid]
  by (auto simp: map_le_def dom_def)

lemma sound_purge:
  assumes "inv c" and "abs c \<subseteq>\<^sub>m (\<lambda>k. Some (source k))"
  shows "inv (purge c) \<and> abs (purge c) \<subseteq>\<^sub>m (\<lambda>k. Some (source k))"
  using inv_purge [OF assms(1)] map_le_trans [OF abs_purge [OF assms(1)] assms(2)] by blast

end

subsection \<open>The cache of extended keys keeps it\<close>

lemma extkey_helper_simps [simp]: "hh_key extkey_helper = ek_blobid" "hh_hash extkey_helper = ucast"
  by (simp_all add: extkey_helper_def)

lemma extkey_bucket:
  assumes "extkey_inv c"
  shows "ht_hash extkey_helper (ec_hash c) k < length (ec_hash c)"
    and "distinct (map ek_blobid (ec_hash c ! ht_hash extkey_helper (ec_hash c) k))"
  using assms ht_hash_lt [of "ec_hash c" extkey_helper k] by (auto simp: extkey_inv_def ht_inv_def)

text \<open>Replacing one bucket by another with keys that belong there.\<close>

lemma extkey_replace_bucket:
  assumes "extkey_inv c" and "h < length (ec_hash c)"
    and "distinct (map ek_blobid b)" and "\<forall>e \<in> set b. unat (ek_size e) = length (ek_data e)"
    and "\<forall>e \<in> set b. ht_hash extkey_helper (ec_hash c) (ek_blobid e) = h"
  shows "extkey_inv (c\<lparr>ec_hash := (ec_hash c)[h := b]\<rparr>)"
  using assms set_update_subset_insert [of "ec_hash c" h b]
  by (auto simp: extkey_inv_def ht_inv_def nth_list_update ht_hash_def)

lemma extkey_abs_replace:
  assumes "h < length (ec_hash c)"
  shows "extkey_abs (c\<lparr>ec_hash := (ec_hash c)[h := b]\<rparr>) k =
    (if ht_hash extkey_helper (ec_hash c) k = h then map_option ek_data (bucket_get extkey_helper k b) else extkey_abs c k)"
  using assms by (simp add: extkey_abs_def ht_get_def ht_hash_def nth_list_update)

lemma extkey_members:
  assumes "extkey_inv c" and "e \<in> set (ec_hash c ! h)" and "h < length (ec_hash c)"
  shows "unat (ek_size e) = length (ek_data e)" "ht_hash extkey_helper (ec_hash c) (ek_blobid e) = h"
  using assms by (auto simp: extkey_inv_def ht_inv_def)

lemma extkey_abs_None:
  "extkey_abs c k = None \<longleftrightarrow> k \<notin> ek_blobid ` set (ec_hash c ! ht_hash extkey_helper (ec_hash c) k)"
  by (simp add: extkey_abs_def ht_get_def bucket_get_None)

lemma extkey_abs_at:
  "ht_hash extkey_helper (ec_hash c) x = h \<Longrightarrow> extkey_abs c x = map_option ek_data (bucket_get extkey_helper x (ec_hash c ! h))"
  by (auto simp: extkey_abs_def ht_get_def)

lemma extkey_usedsize [simp]:
  "extkey_abs (c\<lparr>ec_usedsize := u\<rparr>) = extkey_abs c" "extkey_inv (c\<lparr>ec_usedsize := u\<rparr>) = extkey_inv c"
  by (simp_all add: extkey_abs_def extkey_inv_def fun_eq_iff)

lemma extkey_insert_map:
  assumes "extkey_inv c" and "extkey_abs c k = None" and "length v < 2 ^ 32"
  shows "extkey_inv (extkey_insert t k (of_nat (length v)) v c)"
    and "extkey_abs (extkey_insert t k (of_nat (length v)) v c) = (extkey_abs c)(k \<mapsto> v)"
proof -
  let ?h = "ht_hash extkey_helper (ec_hash c) k"
  let ?e = "\<lparr>ek_blobid = k, ek_age = t, ek_size = of_nat (length v), ek_data = v\<rparr>"
  have len: "unat (of_nat (length v) :: u32) = length v" using assms(3) by (simp add: unat_of_nat take_bit_nat_eq_self)
  have ins: "extkey_insert t k (of_nat (length v)) v c = c\<lparr>ec_hash := (ec_hash c)[?h := ?e # ec_hash c ! ?h]\<rparr>"
    by (simp add: extkey_insert_def ht_put_def len Let_def)
  note b = extkey_bucket [OF assms(1), of k]
  show "extkey_inv (extkey_insert t k (of_nat (length v)) v c)"
    unfolding ins using b assms(2) len extkey_members [OF assms(1) _ b(1)]
    by (intro extkey_replace_bucket [OF assms(1)]) (auto simp: extkey_abs_None)
  show "extkey_abs (extkey_insert t k (of_nat (length v)) v c) = (extkey_abs c)(k \<mapsto> v)"
    unfolding ins by (rule ext, subst extkey_abs_replace [OF b(1)]) (auto simp: extkey_abs_at)
qed

lemma extkey_remove_map:
  assumes "extkey_inv c"
  shows "extkey_inv (extkey_cache_remove k c)" "extkey_abs (extkey_cache_remove k c) = (extkey_abs c)(k := None)"
proof -
  let ?h = "ht_hash extkey_helper (ec_hash c) k"
  let ?b = "snd (bucket_remove extkey_helper k (ec_hash c ! ?h))"
  have "\<exists>u. extkey_cache_remove k c = (c\<lparr>ec_hash := (ec_hash c)[?h := ?b]\<rparr>)\<lparr>ec_usedsize := u\<rparr>"
    by (intro exI [of _ "case fst (bucket_remove extkey_helper k (ec_hash c ! ?h)) of None \<Rightarrow> ec_usedsize c
          | Some e \<Rightarrow> ec_usedsize c - ek_size e"])
       (simp add: extkey_cache_remove_def ht_remove_def Let_def split: prod.split option.split)
  then obtain u where rem: "extkey_cache_remove k c = (c\<lparr>ec_hash := (ec_hash c)[?h := ?b]\<rparr>)\<lparr>ec_usedsize := u\<rparr>"
    by blast
  note b = extkey_bucket [OF assms, of k]
  have sub: "e \<in> set (ec_hash c ! ?h)" if "e \<in> set ?b" for e
    using that bucket_remove_set [of extkey_helper k "ec_hash c ! ?h"] by blast
  have "extkey_inv (c\<lparr>ec_hash := (ec_hash c)[?h := ?b]\<rparr>)"
    using b bucket_remove_distinct [of extkey_helper, OF b(2) [folded extkey_helper_simps]]
      extkey_members [OF assms sub b(1)]
    by (intro extkey_replace_bucket [OF assms]) auto
  then show "extkey_inv (extkey_cache_remove k c)" unfolding rem by simp
  show "extkey_abs (extkey_cache_remove k c) = (extkey_abs c)(k := None)"
    unfolding rem extkey_usedsize using bucket_remove_gone [of extkey_helper "ec_hash c ! ?h" k] b(2)
    by (intro ext, subst extkey_abs_replace [OF b(1)]) (auto simp: extkey_abs_at bucket_get_remove_other)
qed

lemma bucket_update_mem:
  "e \<in> set (bucket_update hp k f ps) \<Longrightarrow> \<exists>e0 \<in> set ps. e = e0 \<or> e = f e0"
  by (induction ps) (auto split: if_splits)

lemma extkey_fetch_map:
  assumes "extkey_inv c" and "extkey_fetch t k c = (st, r, c')"
  shows "map_option snd r = extkey_abs c k" "extkey_inv c'" "extkey_abs c' = extkey_abs c"
    "st = (if r = None then HAM_KEY_NOT_FOUND else HAM_SUCCESS)" "\<And>n d. r = Some (n, d) \<Longrightarrow> unat n = length d"
proof -
  let ?h = "ht_hash extkey_helper (ec_hash c) k"
  let ?f = "\<lambda>x. x\<lparr>ek_age := t\<rparr>"
  let ?b = "bucket_update extkey_helper k ?f (ec_hash c ! ?h)"
  note b = extkey_bucket [OF assms(1), of k]
  show "map_option snd r = extkey_abs c k" "st = (if r = None then HAM_KEY_NOT_FOUND else HAM_SUCCESS)"
    using assms(2) by (auto simp: extkey_fetch_def extkey_abs_def split: option.splits)
  show "unat n = length d" if "r = Some (n, d)" for n d
    using assms(2) that extkey_members(1) [OF assms(1) _ b(1)]
    by (auto simp: extkey_fetch_def ht_get_def dest!: bucket_get_key split: option.splits)
  have keys: "map ek_blobid ?b = map ek_blobid (ec_hash c ! ?h)"
    using map_key_update [of extkey_helper ?f k] by simp
  have "c' = c \<or> c' = c\<lparr>ec_hash := (ec_hash c)[?h := ?b]\<rparr>"
    using assms(2) by (auto simp: extkey_fetch_def ht_update_def Let_def split: option.splits)
  moreover have "extkey_inv (c\<lparr>ec_hash := (ec_hash c)[?h := ?b]\<rparr>)"
    using b keys extkey_members [OF assms(1) _ b(1)]
    by (intro extkey_replace_bucket [OF assms(1)]) (auto dest!: bucket_update_mem)
  moreover have "extkey_abs (c\<lparr>ec_hash := (ec_hash c)[?h := ?b]\<rparr>) = extkey_abs c"
    by (rule ext, subst extkey_abs_replace [OF b(1)])
       (auto simp: extkey_abs_at bucket_get_update option.map_comp comp_def)
  ultimately show "extkey_inv c'" "extkey_abs c' = extkey_abs c" using assms(1) by auto
qed

lemma extkey_purge_map:
  assumes "extkey_inv c"
  shows "extkey_inv (c\<lparr>ec_hash := ht_remove_if cond (ec_hash c)\<rparr>)"
    "extkey_abs (c\<lparr>ec_hash := ht_remove_if cond (ec_hash c)\<rparr>) k =
       (case ht_get extkey_helper (ec_hash c) k of None \<Rightarrow> None | Some e \<Rightarrow> if cond e then None else Some (ek_data e))"
proof -
  let ?m = "ht_remove_if cond (ec_hash c)"
  have len: "length ?m = length (ec_hash c)" by (simp add: ht_remove_if_def)
  show "extkey_inv (c\<lparr>ec_hash := ?m\<rparr>)"
    using assms by (auto simp: extkey_inv_def ht_inv_def ht_remove_if_def ht_hash_def distinct_map_filter)
  have "?m ! ht_hash extkey_helper (ec_hash c) k = filter (\<lambda>p. \<not> cond p) (ec_hash c ! ht_hash extkey_helper (ec_hash c) k)"
    using extkey_bucket(1) [OF assms, of k] by (simp add: ht_remove_if_def)
  then show "extkey_abs (c\<lparr>ec_hash := ?m\<rparr>) k =
       (case ht_get extkey_helper (ec_hash c) k of None \<Rightarrow> None | Some e \<Rightarrow> if cond e then None else Some (ek_data e))"
    using extkey_bucket(2) [OF assms, of k]
    by (simp add: extkey_abs_def ht_get_def ht_hash_length [OF len] bucket_get_filter split: option.split)
qed

definition extkey_lookup :: "u64 \<Rightarrow> u64 \<Rightarrow> extkey_cache \<Rightarrow> byte list option \<times> extkey_cache" where
  "extkey_lookup t k c = (case extkey_fetch t k c of (st, r, c') \<Rightarrow> (map_option snd r, c'))"

interpretation ek: key_cache "\<lambda>k v. extkey_insert t k (of_nat (length v)) v" "extkey_lookup t" extkey_cache_remove
  "extkey_purge t" extkey_abs extkey_inv "\<lambda>v. length v < 2 ^ 32"
  for t
proof
  fix c :: extkey_cache and k v
  assume inv: "extkey_inv c"
  show "fst (extkey_lookup t k c) = extkey_abs c k" "extkey_inv (snd (extkey_lookup t k c))"
    "extkey_abs (snd (extkey_lookup t k c)) = extkey_abs c"
    using extkey_fetch_map [OF inv] by (auto simp: extkey_lookup_def split: prod.split)
  show "extkey_inv (extkey_purge t c)" using extkey_purge_map(1) [OF inv] by (simp add: extkey_purge_def)
  show "extkey_abs (extkey_purge t c) \<subseteq>\<^sub>m extkey_abs c"
    unfolding extkey_purge_def map_le_def using extkey_purge_map(2) [OF inv]
    by (auto simp: extkey_abs_def dom_def split: option.splits if_splits)
qed (use extkey_insert_map extkey_remove_map in auto)

text \<open>The cache in front of a function that gives the full key of every blob; keys are shorter than 64 kB.\<close>

interpretation ek_memo: memoised "\<lambda>k v. extkey_insert t k (of_nat (length v)) v" "extkey_lookup t" extkey_cache_remove
  "extkey_purge t" extkey_abs extkey_inv "\<lambda>v. length v < 2 ^ 32" "\<lambda>k. take 65535 (full k)"
  for t and full :: "u64 \<Rightarrow> byte list"
  by unfold_locales (simp add: min_less_iff_disj)

lemma extkey_new_inv: "extkey_inv extkey_cache_new" "extkey_abs extkey_cache_new = Map.empty"
  by (auto simp: extkey_inv_def ht_inv_def extkey_cache_new_def hash_table_new_def extkey_abs_def ht_get_def ht_hash_def
      fun_eq_iff)

section \<open>The age of an entry\<close>

text \<open>The transaction that used an entry last, for every cached key.\<close>

definition extkey_used :: "extkey_cache \<Rightarrow> u64 \<rightharpoonup> u64" where
  "extkey_used c blobid = map_option ek_age (ht_get extkey_helper (ec_hash c) blobid)"

lemma extkey_used_abs: "extkey_used c k = None \<longleftrightarrow> extkey_abs c k = None"
  by (simp add: extkey_used_def extkey_abs_def)

lemma extkey_insert_used:
  assumes "extkey_inv c"
  shows "extkey_used (extkey_insert t k sz v c) = (extkey_used c)(k \<mapsto> t)"
  using extkey_bucket(1) [OF assms]
  by (auto simp: fun_eq_iff extkey_used_def extkey_insert_def ht_put_def ht_get_def ht_hash_def Let_def nth_list_update)

lemma extkey_fetch_used:
  assumes "extkey_inv c" and "extkey_fetch t k c = (st, r, c')"
  shows "extkey_used c' = (if extkey_abs c k = None then extkey_used c else (extkey_used c)(k \<mapsto> t))"
proof (cases "ht_get extkey_helper (ec_hash c) k")
  case None
  then show ?thesis using assms(2) by (auto simp: extkey_fetch_def extkey_abs_def)
next
  case (Some e)
  then have c': "c' = c\<lparr>ec_hash := ht_update extkey_helper k (\<lambda>x. x\<lparr>ek_age := t\<rparr>) (ec_hash c)\<rparr>"
    using assms(2) by (simp add: extkey_fetch_def)
  show ?thesis using Some extkey_bucket(1) [OF assms(1)]
    by (auto simp: fun_eq_iff c' extkey_used_def extkey_abs_def ht_update_def ht_get_def ht_hash_def Let_def nth_list_update
        bucket_get_update)
qed

lemma extkey_remove_used:
  assumes "extkey_inv c"
  shows "extkey_used (extkey_cache_remove k c) = (extkey_used c)(k := None)"
proof -
  let ?h = "ht_hash extkey_helper (ec_hash c) k"
  have m: "ec_hash (extkey_cache_remove k c) = (ec_hash c)[?h := snd (bucket_remove extkey_helper k (ec_hash c ! ?h))]"
    by (simp add: extkey_cache_remove_def ht_remove_def Let_def split: prod.split option.split)
  note b = extkey_bucket [OF assms, of k]
  show ?thesis using b(1) bucket_remove_gone [of extkey_helper "ec_hash c ! ?h" k] b(2)
    by (auto simp: fun_eq_iff extkey_used_def ht_get_def m ht_hash_def nth_list_update bucket_get_remove_other)
qed

lemma ht_get_remove_if:
  assumes "extkey_inv c"
  shows "ht_get extkey_helper (ht_remove_if cond (ec_hash c)) k =
    (case ht_get extkey_helper (ec_hash c) k of None \<Rightarrow> None | Some e \<Rightarrow> if cond e then None else Some e)"
proof -
  have len: "length (ht_remove_if cond (ec_hash c)) = length (ec_hash c)" by (simp add: ht_remove_if_def)
  have "ht_remove_if cond (ec_hash c) ! ht_hash extkey_helper (ec_hash c) k =
      filter (\<lambda>p. \<not> cond p) (ec_hash c ! ht_hash extkey_helper (ec_hash c) k)"
    using extkey_bucket(1) [OF assms, of k] by (simp add: ht_remove_if_def)
  then show ?thesis using extkey_bucket(2) [OF assms, of k]
    by (simp add: ht_get_def ht_hash_length [OF len] bucket_get_filter split: option.split)
qed

lemma extkey_purge_used:
  assumes "extkey_inv c"
  shows "extkey_abs (extkey_purge t c) k = (if \<exists>a. extkey_used c k = Some a \<and> t - a \<le> 25 then extkey_abs c k else None)"
    and "extkey_used (extkey_purge t c) k = (if \<exists>a. extkey_used c k = Some a \<and> t - a \<le> 25 then extkey_used c k else None)"
  by (auto simp: extkey_purge_def extkey_abs_def extkey_used_def ht_get_remove_if [OF assms] extkey_remove_if_def
      EXTKEY_MAX_AGE_def not_le split: option.split)

section \<open>Theorems\<close>

text \<open>
  C33. The cache of extended keys refines a partial map from blob ids to keys, together with the id of
  the transaction that used each entry last. Inserting an id that is not cached adds exactly this
  entry, used by the current transaction. A fetch returns what the map holds and leaves the map as it is; if the
  key is cached, its entry, and no other, is now used by the current transaction. A removal deletes exactly this
  entry. A purge in transaction \<open>t\<close> keeps exactly the entries whose last use, by an insert or a fetch, lies at most
  25 transactions before \<open>t\<close> (the difference of the ids, in 64 bits), and leaves what it keeps as it is.
  The well-formedness of the table (every entry in the bucket of its id, one entry per id, stored sizes that match) is kept
  by all of them.
\<close>

theorem extkey_cache_refines_map:
  assumes "extkey_inv c"
  shows "(extkey_abs c k = None \<and> length v < 2 ^ 32 \<longrightarrow>
      extkey_inv (extkey_insert t k (of_nat (length v)) v c) \<and>
      extkey_abs (extkey_insert t k (of_nat (length v)) v c) = (extkey_abs c)(k \<mapsto> v) \<and>
      extkey_used (extkey_insert t k (of_nat (length v)) v c) = (extkey_used c)(k \<mapsto> t)) \<and>
    extkey_inv (extkey_cache_remove k c) \<and> extkey_abs (extkey_cache_remove k c) = (extkey_abs c)(k := None) \<and>
    extkey_used (extkey_cache_remove k c) = (extkey_used c)(k := None) \<and>
    (\<exists>st r c'. extkey_fetch t k c = (st, r, c') \<and> map_option snd r = extkey_abs c k \<and>
       st = (if extkey_abs c k = None then HAM_KEY_NOT_FOUND else HAM_SUCCESS) \<and>
       extkey_inv c' \<and> extkey_abs c' = extkey_abs c \<and>
       extkey_used c' = (if extkey_abs c k = None then extkey_used c else (extkey_used c)(k \<mapsto> t))) \<and>
    extkey_inv (extkey_purge t c) \<and>
    (\<forall>x. extkey_abs (extkey_purge t c) x = (if \<exists>a. extkey_used c x = Some a \<and> t - a \<le> 25 then extkey_abs c x else None) \<and>
      extkey_used (extkey_purge t c) x = (if \<exists>a. extkey_used c x = Some a \<and> t - a \<le> 25 then extkey_used c x else None))"
proof -
  obtain st r c' where f: "extkey_fetch t k c = (st, r, c')" by (metis prod_cases3)
  note F = extkey_fetch_map [OF assms f]
  have "st = (if extkey_abs c k = None then HAM_KEY_NOT_FOUND else HAM_SUCCESS)"
    using F(1,4) by (cases r) (auto dest: sym)
  then have "\<exists>st r c'. extkey_fetch t k c = (st, r, c') \<and> map_option snd r = extkey_abs c k \<and>
       st = (if extkey_abs c k = None then HAM_KEY_NOT_FOUND else HAM_SUCCESS) \<and>
       extkey_inv c' \<and> extkey_abs c' = extkey_abs c \<and>
       extkey_used c' = (if extkey_abs c k = None then extkey_used c else (extkey_used c)(k \<mapsto> t))"
    using f F(1-3) extkey_fetch_used [OF assms f] by blast
  moreover note extkey_purge_used [OF assms, of t]
  ultimately show ?thesis
    using ek.inv_put [OF assms, of k v t] ek.abs_put [OF assms, of k v t] extkey_insert_used [OF assms, of t k _ v]
      ek.inv_del [OF assms] ek.abs_del [OF assms] extkey_remove_used [OF assms]
      ek.inv_purge [OF assms] by blast
qed

text \<open>A key is inserted in transaction 3 and fetched in transaction 20: a purge in transaction 40 keeps it, one in transaction 60 does not.\<close>

theorem extkey_cache_refines_map_witness:
  "\<exists>c1. extkey_fetch 20 7 (extkey_insert 3 7 2 [1, 2] extkey_cache_new) = (HAM_SUCCESS, Some (2, [1, 2]), c1) \<and>
     extkey_abs (extkey_purge 40 c1) 7 = Some [1, 2] \<and> extkey_abs (extkey_purge 60 c1) 7 = None \<and>
     extkey_abs (extkey_purge 40 (extkey_insert 3 7 2 [1, 2] extkey_cache_new)) 7 = None \<and>
     extkey_abs (extkey_cache_remove 7 c1) 7 = None"
proof -
  let ?c0 = "extkey_insert 3 7 2 [1, 2] extkey_cache_new"
  have P: "extkey_abs (extkey_purge t c) 7 = (if \<exists>a. extkey_used c 7 = Some a \<and> t - a \<le> 25 then extkey_abs c 7 else None)"
    "extkey_abs (extkey_cache_remove 7 c) = (extkey_abs c)(7 := None)" if "extkey_inv c" for t c
    using extkey_cache_refines_map [OF that, of 7 "[]" t] by blast+
  have i: "length [1, 2 :: byte] < 2 ^ 32" "of_nat (length [1, 2 :: byte]) = (2 :: u32)" by simp_all
  have "extkey_inv ?c0 \<and> extkey_abs ?c0 = [7 \<mapsto> [1, 2]] \<and> extkey_used ?c0 = (extkey_used extkey_cache_new)(7 \<mapsto> 3)"
    using conjunct1 [OF extkey_cache_refines_map [OF extkey_new_inv(1), of 7 "[1, 2]" 3]] i by (simp add: extkey_new_inv(2))
  then have c0: "extkey_inv ?c0" "extkey_abs ?c0 7 = Some [1, 2]" "extkey_used ?c0 7 = Some 3" by simp_all
  have "\<exists>st r c1. extkey_fetch 20 7 ?c0 = (st, r, c1) \<and> map_option snd r = extkey_abs ?c0 7 \<and>
       st = (if extkey_abs ?c0 7 = None then HAM_KEY_NOT_FOUND else HAM_SUCCESS) \<and> extkey_inv c1 \<and> extkey_abs c1 = extkey_abs ?c0 \<and>
       extkey_used c1 = (if extkey_abs ?c0 7 = None then extkey_used ?c0 else (extkey_used ?c0)(7 \<mapsto> 20))"
    using extkey_cache_refines_map [OF c0(1), of 7 "[]" 20] by blast
  then obtain r c1 where c1: "extkey_fetch 20 7 ?c0 = (HAM_SUCCESS, r, c1)" "map_option snd r = Some [1, 2]" "extkey_inv c1"
      "extkey_abs c1 = extkey_abs ?c0" "extkey_used c1 = (extkey_used ?c0)(7 \<mapsto> 20)"
    by (simp only: c0 if_False option.distinct simp_thms) blast
  note f = c1(1-3) trans [OF fun_cong [OF c1(4)] c0(2)] trans [OF fun_cong [OF c1(5)] fun_upd_same]
  from f(2) obtain n where n: "r = Some (n, [1, 2])" by auto
  then have "unat n = unat (2 :: u32)" using extkey_fetch_map(5) [OF c0(1) f(1), of n "[1, 2]"] by simp
  then have r: "r = Some (2, [1, 2])" using n by (simp only: word_unat_eq_iff [symmetric])
  show ?thesis unfolding f(1) r by (intro exI [of _ c1]) (simp add: P [OF f(3)] P [OF c0(1)] c0 f(4,5))
qed

end
