(* ===== verification/Ham_Compare.thy ===== *)
theory Ham_Compare
  imports Ham_Extkeys
begin

text \<open>
  Key comparison, \<open>src/db.cc\<close> and \<open>src/db.h\<close>: the default compare functions, the prefix
  compare that avoids loading an extended key, \<open>Database::get_extended_key\<close> with its cache,
  and \<open>Database::compare_keys\<close> that puts them together.

  A key that is too long for an index entry is extended: the entry holds the first bytes
  and, in its last eight bytes, the id of the blob with the rest. Reading a blob is an
  argument, \<open>blob_read\<close>.
\<close>

unbundle bit_operations_syntax

section \<open>The default compare functions\<close>

fun memcmp :: "byte list \<Rightarrow> byte list \<Rightarrow> nat \<Rightarrow> int" where
  "memcmp (x # xs) (y # ys) (Suc n) = (if x = y then memcmp xs ys n else int (unat x) - int (unat y))"
| "memcmp _ _ _ = 0"

definition db_default_compare :: "byte list \<Rightarrow> byte list \<Rightarrow> int" where
  "db_default_compare lhs rhs =
     (if length lhs < length rhs then
        (let m = memcmp lhs rhs (length lhs) in if m < 0 then -1 else if m > 0 then 1 else -1)
      else if length rhs < length lhs then
        (let m = memcmp lhs rhs (length rhs) in if m < 0 then -1 else if m > 0 then 1 else 1)
      else
        (let m = memcmp lhs rhs (length lhs) in if m < 0 then -1 else if m > 0 then 1 else 0))"

definition PREFIX_REQUEST_FULLKEY :: int where
  "PREFIX_REQUEST_FULLKEY = ham_status_code HAM_PREFIX_REQUEST_FULLKEY"

definition db_default_prefix_compare :: "byte list \<Rightarrow> nat \<Rightarrow> nat \<Rightarrow> byte list \<Rightarrow> nat \<Rightarrow> nat \<Rightarrow> int" where
  "db_default_prefix_compare lhs lhs_length lhs_real_length rhs rhs_length rhs_real_length =
     (if lhs_length < rhs_length then
        (let m = memcmp lhs rhs lhs_length
         in if m < 0 then -1 else if m > 0 then 1
            else if lhs_length = lhs_real_length then -1 else PREFIX_REQUEST_FULLKEY)
      else if rhs_length < lhs_length then
        (let m = memcmp lhs rhs rhs_length
         in if m < 0 then -1 else if m > 0 then 1
            else if rhs_length = rhs_real_length then 1 else PREFIX_REQUEST_FULLKEY)
      else
        (let m = memcmp lhs rhs lhs_length
         in if m < 0 then -1 else if m > 0 then 1
            else if lhs_length = lhs_real_length then
              (if lhs_real_length < rhs_real_length then -1 else PREFIX_REQUEST_FULLKEY)
            else if rhs_length = rhs_real_length then
              (if lhs_real_length > rhs_real_length then 1 else PREFIX_REQUEST_FULLKEY)
            else PREFIX_REQUEST_FULLKEY))"

definition db_default_recno_compare :: "byte list \<Rightarrow> byte list \<Rightarrow> int" where
  "db_default_recno_compare lhs rhs =
     (let l = get_u64 0 lhs; r = get_u64 0 rhs in if l < r then -1 else if l = r then 0 else 1)"

section \<open>Extended keys\<close>

definition KEY_IS_EXTENDED :: u32 where "KEY_IS_EXTENDED = 8"

record ham_key =
  k_data :: "byte list"
  k_size :: u16
  k_flags :: u32

text \<open>
  \<open>Database::get_extended_key\<close>. \<open>blob_read blobid n\<close> reads \<open>n\<close> bytes of a blob. The cache is
  created on demand, but never for an in-memory database.
\<close>

definition get_extended_key ::
  "(u64 \<Rightarrow> nat \<Rightarrow> ham_status \<times> byte list) \<Rightarrow> bool \<Rightarrow> nat \<Rightarrow> u64 \<Rightarrow> byte list \<Rightarrow> nat \<Rightarrow> ham_key \<Rightarrow> extkey_cache option \<Rightarrow>
   ham_status \<times> ham_key \<times> extkey_cache option" where
  "get_extended_key blob_read in_memory keysize txn_id key_data key_length ext_key cache =
     (let cache1 = (if in_memory then cache else Some (case cache of None \<Rightarrow> extkey_cache_new | Some c \<Rightarrow> c));
          blobid = get_u64 (keysize - 8) key_data;
          (st, hit, cache2) =
            (case cache1 of
               Some c \<Rightarrow>
                 if in_memory then (HAM_KEY_NOT_FOUND, None, cache1)
                 else (case extkey_fetch txn_id blobid c of (st, r, c') \<Rightarrow> (st, r, Some c'))
             | None \<Rightarrow> (HAM_KEY_NOT_FOUND, None, None))
      in case hit of
           Some (n, ptr) \<Rightarrow> (HAM_SUCCESS, ext_key\<lparr>k_data := take key_length ptr, k_size := of_nat key_length\<rparr>, cache2)
         | None \<Rightarrow>
             if st \<noteq> HAM_KEY_NOT_FOUND then (st, ext_key, cache2)
             else
               (case blob_read blobid (key_length - (keysize - 8)) of
                  (st, rest) \<Rightarrow>
                    if st \<noteq> HAM_SUCCESS then (st, ext_key\<lparr>k_data := take (keysize - 8) key_data\<rparr>, cache2)
                    else
                      (let full = take (keysize - 8) key_data @ rest
                       in (HAM_SUCCESS, ext_key\<lparr>k_data := full, k_size := of_nat key_length\<rparr>,
                           map_option (extkey_insert txn_id blobid (of_nat key_length) full) cache2))))"

definition load_extended_key ::
  "(u64 \<Rightarrow> nat \<Rightarrow> ham_status \<times> byte list) \<Rightarrow> bool \<Rightarrow> nat \<Rightarrow> u64 \<Rightarrow> ham_key \<Rightarrow> extkey_cache option \<Rightarrow>
   ham_status \<times> ham_key \<times> extkey_cache option" where
  "load_extended_key blob_read in_memory keysize txn_id key cache =
     (if k_flags key AND KEY_IS_EXTENDED = 0 then (HAM_SUCCESS, key, cache)
      else
        (case get_extended_key blob_read in_memory keysize txn_id (k_data key) (unat (k_size key)) key cache of
           (st, key', cache') \<Rightarrow>
             if st \<noteq> HAM_SUCCESS then (st, key', cache')
             else (HAM_SUCCESS, key'\<lparr>k_flags := k_flags key' AND NOT KEY_IS_EXTENDED\<rparr>, cache')))"

text \<open>
  \<open>Database::compare_keys\<close> with the compare function \<open>foo\<close> and the prefix compare function
  \<open>prefoo\<close>, if there is one. An error comes back as its (negative) status code.
\<close>

definition key_bytes :: "ham_key \<Rightarrow> byte list" where
  "key_bytes key = take (unat (k_size key)) (k_data key)"

definition key_prefix_len :: "nat \<Rightarrow> ham_key \<Rightarrow> nat" where
  "key_prefix_len keysize key = (if k_flags key AND KEY_IS_EXTENDED \<noteq> 0 then keysize - 8 else unat (k_size key))"

definition compare_keys ::
  "(byte list \<Rightarrow> byte list \<Rightarrow> int) \<Rightarrow> (byte list \<Rightarrow> nat \<Rightarrow> nat \<Rightarrow> byte list \<Rightarrow> nat \<Rightarrow> nat \<Rightarrow> int) option \<Rightarrow>
   (u64 \<Rightarrow> nat \<Rightarrow> ham_status \<times> byte list) \<Rightarrow> bool \<Rightarrow> nat \<Rightarrow> u64 \<Rightarrow> ham_key \<Rightarrow> ham_key \<Rightarrow> extkey_cache option \<Rightarrow>
   int \<times> ham_key \<times> ham_key \<times> extkey_cache option" where
  "compare_keys foo prefoo blob_read in_memory keysize txn_id lhs rhs cache =
     (if k_flags lhs AND KEY_IS_EXTENDED = 0 \<and> k_flags rhs AND KEY_IS_EXTENDED = 0
      then (foo (key_bytes lhs) (key_bytes rhs), lhs, rhs, cache)
      else
        (let cmp = (case prefoo of
                      None \<Rightarrow> PREFIX_REQUEST_FULLKEY
                    | Some f \<Rightarrow> f (k_data lhs) (key_prefix_len keysize lhs) (unat (k_size lhs))
                                 (k_data rhs) (key_prefix_len keysize rhs) (unat (k_size rhs)))
         in if cmp \<noteq> PREFIX_REQUEST_FULLKEY then (cmp, lhs, rhs, cache)
            else
              (case load_extended_key blob_read in_memory keysize txn_id lhs cache of
                 (st, lhs', cache1) \<Rightarrow>
                   if st \<noteq> HAM_SUCCESS then (ham_status_code st, lhs', rhs, cache1)
                   else
                     (case load_extended_key blob_read in_memory keysize txn_id rhs cache1 of
                        (st, rhs', cache2) \<Rightarrow>
                          if st \<noteq> HAM_SUCCESS then (ham_status_code st, lhs', rhs', cache2)
                          else (foo (key_bytes lhs') (key_bytes rhs'), lhs', rhs', cache2)))))"

section \<open>The order of keys\<close>

text \<open>The order the default compare function implements: byte by byte, a proper prefix comes first.\<close>

fun lex_compare :: "byte list \<Rightarrow> byte list \<Rightarrow> int" where
  "lex_compare [] [] = 0"
| "lex_compare [] (y # ys) = -1"
| "lex_compare (x # xs) [] = 1"
| "lex_compare (x # xs) (y # ys) = (if x < y then -1 else if y < x then 1 else lex_compare xs ys)"

lemma memcmp_0 [simp]: "memcmp xs ys 0 = 0"
  by (cases "(xs, ys, 0 :: nat)" rule: memcmp.cases) simp_all

lemma memcmp_sign_lex:
  assumes "n \<le> length a" and "n \<le> length b"
  shows "memcmp a b n < 0 \<Longrightarrow> lex_compare a b = -1" "memcmp a b n > 0 \<Longrightarrow> lex_compare a b = 1"
    "memcmp a b n = 0 \<Longrightarrow> lex_compare a b = lex_compare (drop n a) (drop n b)"
  using assms by (induction a b n rule: memcmp.induct) (auto simp: word_less_def word_uint_eq_iff split: if_splits)

lemma lex_compare_Nil: "ys \<noteq> [] \<Longrightarrow> lex_compare [] ys = -1" "ys \<noteq> [] \<Longrightarrow> lex_compare ys [] = 1"
  by (auto simp: neq_Nil_conv)

lemma lex_compare_prefix:
  "n = length a \<Longrightarrow> n < length b \<Longrightarrow> lex_compare (drop n a) (drop n b) = -1"
  "n = length b \<Longrightarrow> n < length a \<Longrightarrow> lex_compare (drop n a) (drop n b) = 1"
  by (simp_all add: lex_compare_Nil)

lemma default_compare_lex: "db_default_compare lhs rhs = lex_compare lhs rhs"
proof -
  define n where "n = min (length lhs) (length rhs)"
  have n: "n \<le> length lhs" "n \<le> length rhs" by (simp_all add: n_def)
  have "db_default_compare lhs rhs =
      (if memcmp lhs rhs n < 0 then -1 else if memcmp lhs rhs n > 0 then 1 else lex_compare (drop n lhs) (drop n rhs))"
    using lex_compare_Nil
    by (cases "length lhs" "length rhs" rule: linorder_cases) (auto simp: db_default_compare_def n_def Let_def)
  then show ?thesis using memcmp_sign_lex [OF n] by (cases "memcmp lhs rhs n" "0 :: int" rule: linorder_cases) simp_all
qed

definition key_order :: "(byte list \<Rightarrow> byte list \<Rightarrow> int) \<Rightarrow> bool" where
  "key_order cmp \<longleftrightarrow> (\<forall>a b. cmp a b < 0 \<longleftrightarrow> cmp b a > 0) \<and> (\<forall>a. cmp a a = 0) \<and>
     (\<forall>a b c. cmp a b < 0 \<and> cmp b c \<le> 0 \<longrightarrow> cmp a c < 0) \<and> (\<forall>a b c. cmp a b \<le> 0 \<and> cmp b c < 0 \<longrightarrow> cmp a c < 0)"

lemma key_orderD:
  assumes "key_order cmp"
  shows "cmp a b < 0 \<longleftrightarrow> cmp b a > 0" "cmp a a = 0" "cmp a b = 0 \<longleftrightarrow> cmp b a = 0"
    "cmp a b < 0 \<Longrightarrow> cmp b c \<le> 0 \<Longrightarrow> cmp a c < 0" "cmp a b \<le> 0 \<Longrightarrow> cmp b c < 0 \<Longrightarrow> cmp a c < 0"
  using assms unfolding key_order_def by (blast, blast, smt (verit, best), blast, blast)

lemma lex_compare_range: "lex_compare a b \<in> {-1, 0, 1}"
  by (induction a b rule: lex_compare.induct) auto

lemma lex_compare_zero: "lex_compare a b = 0 \<longleftrightarrow> a = b"
  by (induction a b rule: lex_compare.induct) auto

lemma lex_compare_swap: "lex_compare b a = - lex_compare a b"
  by (induction a b rule: lex_compare.induct) auto

lemma lex_compare_trans: "lex_compare a b < 0 \<Longrightarrow> lex_compare b c < 0 \<Longrightarrow> lex_compare a c < 0"
proof (induction a b arbitrary: c rule: lex_compare.induct)
  case (2 y ys)
  then show ?case by (cases c) auto
next
  case (4 x xs y ys)
  show ?case
  proof (cases c)
    case (Cons z zs)
    with 4 show ?thesis by (auto split: if_splits)
  qed (use 4 in simp)
qed auto

lemma key_order_default: "key_order db_default_compare"
  unfolding key_order_def default_compare_lex [abs_def]
proof (intro conjI allI impI)
  fix a b c
  show "lex_compare a b < 0 \<longleftrightarrow> 0 < lex_compare b a" using lex_compare_swap [of b a] by simp
  show "lex_compare a a = 0" by (simp add: lex_compare_zero)
  show "lex_compare a c < 0" if "lex_compare a b < 0 \<and> lex_compare b c \<le> 0"
    using that lex_compare_trans [of a b c] lex_compare_zero [of b c] by (cases "lex_compare b c = 0") auto
  show "lex_compare a c < 0" if "lex_compare a b \<le> 0 \<and> lex_compare b c < 0"
    using that lex_compare_trans [of a b c] lex_compare_zero [of a b] by (cases "lex_compare a b = 0") auto
qed

subsection \<open>Comparing prefixes\<close>

lemma memcmp_take: "memcmp xs ys n = memcmp (take n xs) (take n ys) n"
  by (induction xs ys n rule: memcmp.induct) auto

text \<open>Whenever the prefix compare function decides, it decides like the compare of the full keys.\<close>

lemma prefix_compare_decides:
  assumes "l \<le> length a" and "r \<le> length b" and "take l dl = take l a" and "take r dr = take r b"
    and "db_default_prefix_compare dl l (length a) dr r (length b) \<noteq> PREFIX_REQUEST_FULLKEY"
  shows "db_default_prefix_compare dl l (length a) dr r (length b) = db_default_compare a b"
proof -
  define n where "n = min l r"
  have "take n dl = take n a" "take n dr = take n b"
    using assms(3,4) unfolding n_def by (metis min.commute take_take)+
  then have m: "memcmp dl dr n = memcmp a b n" by (metis memcmp_take)
  have n: "n \<le> length a" "n \<le> length b" using assms(1,2) by (simp_all add: n_def)
  note S = memcmp_sign_lex [OF n]
  note d = lex_compare_prefix(1) [of n a b] and e = lex_compare_prefix(2) [of n b a]
  have "memcmp a b n = memcmp dl dr l" if "l \<le> r" using that m by (simp add: n_def)
  moreover have "memcmp a b n = memcmp dl dr r" if "r \<le> l" using that m by (simp add: n_def min_absorb2)
  ultimately show ?thesis using assms(1,2,5) S d e
    unfolding default_compare_lex db_default_prefix_compare_def Let_def
    by (auto simp: n_def min_def split: if_splits)
qed

subsection \<open>Extended keys\<close>

text \<open>The cache agrees with the keys \<open>full\<close> of all blobs; an in-memory database has none.\<close>

definition cache_agrees :: "bool \<Rightarrow> (u64 \<Rightarrow> byte list) \<Rightarrow> extkey_cache option \<Rightarrow> bool" where
  "cache_agrees in_memory full cache \<longleftrightarrow>
     (case cache of None \<Rightarrow> True
      | Some c \<Rightarrow> \<not> in_memory \<and> extkey_inv c \<and> extkey_abs c \<subseteq>\<^sub>m (\<lambda>k. Some (take 65535 (full k))))"

text \<open>
  A key as it is stored stands for the bytes \<open>a\<close>: a short key holds them, an extended key
  holds the first bytes and the id of a blob from which the rest can be read.
\<close>

definition key_stands_for ::
  "(u64 \<Rightarrow> nat \<Rightarrow> ham_status \<times> byte list) \<Rightarrow> nat \<Rightarrow> (u64 \<Rightarrow> byte list) \<Rightarrow> ham_key \<Rightarrow> byte list \<Rightarrow> bool" where
  "key_stands_for blob_read keysize full key a \<longleftrightarrow> unat (k_size key) = length a \<and>
     (if k_flags key AND KEY_IS_EXTENDED = 0 then key_bytes key = a
      else let blobid = get_u64 (keysize - 8) (k_data key)
           in keysize - 8 \<le> length a \<and> take (keysize - 8) (k_data key) = take (keysize - 8) a \<and> full blobid = a \<and>
              blob_read blobid (length a - (keysize - 8)) = (HAM_SUCCESS, drop (keysize - 8) a))"

lemma get_extended_key_full:
  assumes "cache_agrees in_memory full cache" and "key_stands_for blob_read keysize full key a"
    and "k_flags key AND KEY_IS_EXTENDED \<noteq> 0"
  shows "\<exists>cache'. get_extended_key blob_read in_memory keysize t (k_data key) (unat (k_size key)) key cache =
      (HAM_SUCCESS, key\<lparr>k_data := a, k_size := of_nat (length a)\<rparr>, cache') \<and> cache_agrees in_memory full cache'"
proof -
  let ?id = "get_u64 (keysize - 8) (k_data key)"
  have len: "length a \<le> 65535" "unat (k_size key) = length a"
    using assms(2) unsigned_less [of "k_size key", where ?'a = nat] by (auto simp: key_stands_for_def)
  have src: "full ?id = a" "take (keysize - 8) (k_data key) @ drop (keysize - 8) a = a"
    "blob_read ?id (length a - (keysize - 8)) = (HAM_SUCCESS, drop (keysize - 8) a)"
    using assms(2,3) by (auto simp: key_stands_for_def Let_def)
  have u: "take 65535 (full ?id) = a" using src(1) len(1) by simp
  show ?thesis
  proof (cases in_memory)
    case True
    with assms(1) have "cache = None" by (cases cache) (auto simp: cache_agrees_def)
    with True src len show ?thesis by (auto simp: get_extended_key_def Let_def cache_agrees_def)
  next
    case False
    define c where "c = (case cache of None \<Rightarrow> extkey_cache_new | Some c \<Rightarrow> c)"
    have c: "extkey_inv c" "extkey_abs c \<subseteq>\<^sub>m (\<lambda>k. Some (take 65535 (full k)))"
      using assms(1) extkey_new_inv by (auto simp: c_def cache_agrees_def map_le_def split: option.splits)
    obtain st r c' where f: "extkey_fetch t ?id c = (st, r, c')" by (metis prod_cases3)
    have lk: "extkey_lookup t ?id c = (map_option snd r, c')" by (simp add: extkey_lookup_def f)
    note G = ek_memo.sound_get [OF c, of t ?id, unfolded lk fst_conv snd_conv u]
    have st: "st = (if r = None then HAM_KEY_NOT_FOUND else HAM_SUCCESS)" by (rule extkey_fetch_map(4) [OF c(1) f])
    show ?thesis
    proof (cases r)
      case None
      from ek_memo.sound_put [of c' full ?id t] G(2,3) None u
      have "extkey_inv (extkey_insert t ?id (of_nat (length a)) a c') \<and>
        extkey_abs (extkey_insert t ?id (of_nat (length a)) a c') \<subseteq>\<^sub>m (\<lambda>k. Some (take 65535 (full k)))" by auto
      then show ?thesis using None False f st src len
        by (auto simp: get_extended_key_def Let_def cache_agrees_def c_def [symmetric])
    next
      case (Some p)
      with G(1) have "snd p = a" by auto
      then show ?thesis using Some False f st src len G(2)
        by (cases p) (auto simp: get_extended_key_def Let_def cache_agrees_def c_def [symmetric])
    qed
  qed
qed

lemma load_extended_key_full:
  assumes "cache_agrees in_memory full cache" and "key_stands_for blob_read keysize full key a"
  shows "\<exists>key' cache'. load_extended_key blob_read in_memory keysize t key cache = (HAM_SUCCESS, key', cache') \<and>
    key_bytes key' = a \<and> cache_agrees in_memory full cache'"
proof (cases "k_flags key AND KEY_IS_EXTENDED = 0")
  case True
  with assms show ?thesis by (auto simp: load_extended_key_def key_stands_for_def)
next
  case False
  have "length a < 2 ^ 16" using assms(2) unsigned_less [of "k_size key", where ?'a = nat] by (auto simp: key_stands_for_def)
  then have "unat (of_nat (length a) :: u16) = length a" by (simp add: unat_of_nat take_bit_nat_eq_self)
  with get_extended_key_full [OF assms False, of t] False show ?thesis
    by (auto simp: load_extended_key_def key_bytes_def)
qed

lemma prefix_compare_stored:
  assumes "key_stands_for blob_read keysize full lhs a" and "key_stands_for blob_read keysize full rhs b"
    and "db_default_prefix_compare (k_data lhs) (key_prefix_len keysize lhs) (unat (k_size lhs))
           (k_data rhs) (key_prefix_len keysize rhs) (unat (k_size rhs)) = c" and "c \<noteq> PREFIX_REQUEST_FULLKEY"
  shows "c = db_default_compare a b"
proof -
  have p: "key_prefix_len keysize k \<le> length x" "take (key_prefix_len keysize k) (k_data k) = take (key_prefix_len keysize k) x"
    "unat (k_size k) = length x" if "key_stands_for blob_read keysize full k x" for k x
    using that by (auto simp: key_stands_for_def key_prefix_len_def key_bytes_def Let_def split: if_splits)
  from prefix_compare_decides [OF p(1) [OF assms(1)] p(1) [OF assms(2)] p(2) [OF assms(1)] p(2) [OF assms(2)]]
    assms(3,4) p(3) [OF assms(1)] p(3) [OF assms(2)] show ?thesis by simp
qed

section \<open>Theorems\<close>

text \<open>
  The default compare function is the lexicographic order of the bytes, in which a
  proper prefix comes before the longer key: its results are -1, 0 and 1, it is 0 only for
  equal keys, it is antisymmetric and transitive. (A comment in the source calls shorter
  keys the higher ones; they are the lower ones.)
\<close>

theorem default_compare_is_lexicographic:
  "db_default_compare a b = lex_compare a b \<and> db_default_compare a b \<in> {-1, 0, 1} \<and>
   (db_default_compare a b = 0 \<longleftrightarrow> a = b) \<and> db_default_compare b a = - db_default_compare a b \<and>
   key_order db_default_compare \<and> db_default_compare a (a @ [x]) = -1"
proof -
  have "lex_compare a (a @ [x]) = -1" by (induction a) auto
  with lex_compare_range [of a b] lex_compare_zero [of a b] lex_compare_swap [of b a] key_order_default show ?thesis
    by (simp add: default_compare_lex)
qed

text \<open>
  C10. Extended keys compare like the keys they stand for. Whatever part of each key is in the
  index entry, whether the prefix compare function is used and whatever it can decide, and
  whether the rest comes from the cache or from its blob, \<open>compare_keys\<close> returns the result
  of the default compare function on the complete keys, and the cache still holds only true
  keys. Reading a blob is assumed to give the rest of the key.
\<close>

theorem compare_keys_on_full_keys:
  assumes "cache_agrees in_memory full cache" and "prefoo \<in> {None, Some db_default_prefix_compare}"
    and "key_stands_for blob_read keysize full lhs a" and "key_stands_for blob_read keysize full rhs b"
  shows "\<exists>lhs' rhs' cache'. compare_keys db_default_compare prefoo blob_read in_memory keysize t lhs rhs cache =
      (db_default_compare a b, lhs', rhs', cache') \<and> cache_agrees in_memory full cache'"
proof (cases "k_flags lhs AND KEY_IS_EXTENDED = 0 \<and> k_flags rhs AND KEY_IS_EXTENDED = 0")
  case True
  with assms show ?thesis by (auto simp: compare_keys_def key_stands_for_def)
next
  case False
  let ?c = "case prefoo of None \<Rightarrow> PREFIX_REQUEST_FULLKEY
    | Some f \<Rightarrow> f (k_data lhs) (key_prefix_len keysize lhs) (unat (k_size lhs))
                 (k_data rhs) (key_prefix_len keysize rhs) (unat (k_size rhs))"
  show ?thesis
  proof (cases "?c = PREFIX_REQUEST_FULLKEY")
    case pre: False
    have "?c = db_default_compare a b"
      using assms(2) pre prefix_compare_stored [OF assms(3,4) refl] by (cases prefoo) auto
    then have "compare_keys db_default_compare prefoo blob_read in_memory keysize t lhs rhs cache =
        (db_default_compare a b, lhs, rhs, cache)"
      using False pre by (auto simp: compare_keys_def Let_def)
    with assms(1) show ?thesis by blast
  next
    case True
    from load_extended_key_full [OF assms(1,3), of t] obtain lhs' c1 where
      l: "load_extended_key blob_read in_memory keysize t lhs cache = (HAM_SUCCESS, lhs', c1)" "key_bytes lhs' = a"
        "cache_agrees in_memory full c1" by blast
    from load_extended_key_full [OF l(3) assms(4), of t] obtain rhs' c2 where
      r: "load_extended_key blob_read in_memory keysize t rhs c1 = (HAM_SUCCESS, rhs', c2)" "key_bytes rhs' = b"
        "cache_agrees in_memory full c2" by blast
    have "compare_keys db_default_compare prefoo blob_read in_memory keysize t lhs rhs cache =
        (db_default_compare a b, lhs', rhs', c2)"
      using False True l r unfolding compare_keys_def Let_def by auto
    with r(3) show ?thesis by blast
  qed
qed

text \<open>Two extended keys of ten bytes in entries of ten bytes; they differ in the last byte.\<close>

definition sample_ext_key :: "byte \<Rightarrow> ham_key" where
  "sample_ext_key i = \<lparr>k_data = [65, 66, i, 0, 0, 0, 0, 0, 0, 0], k_size = 10, k_flags = 8\<rparr>"

definition sample_full :: "u64 \<Rightarrow> byte list" where
  "sample_full i = [65, 66, 67, 68, 69, 70, 71, 72, 73, ucast i]"

theorem compare_keys_on_full_keys_witness:
  "\<exists>l r c. compare_keys db_default_compare (Some db_default_prefix_compare) (\<lambda>i n. (HAM_SUCCESS, drop 2 (sample_full i)))
     False 10 0 (sample_ext_key 1) (sample_ext_key 2) None = (-1, l, r, c)"
proof -
  have s: "key_stands_for (\<lambda>i n. (HAM_SUCCESS, drop 2 (sample_full i))) 10 sample_full (sample_ext_key i) (sample_full (ucast i))"
    for i
    by (simp add: key_stands_for_def sample_ext_key_def sample_full_def KEY_IS_EXTENDED_def get_u64_def)
  have "db_default_compare (sample_full (ucast (1 :: byte))) (sample_full (ucast (2 :: byte))) = -1"
    by (simp add: default_compare_lex sample_full_def)
  with compare_keys_on_full_keys [OF _ _ s [of 1] s [of 2], of False None "Some db_default_prefix_compare" 0] show ?thesis
    by (auto simp: cache_agrees_def)
qed

end
