(* ===== verification/Ham_Filter.thy ===== *)
theory Ham_Filter
  imports Dlist_Heap Ham_Prelude
begin

text \<open>
  Record filters: the chain of \<open>ham_add_record_filter\<close> and \<open>ham_remove_record_filter\<close> in
  \<open>src/hamsterdb.cc\<close>, and the two functions of \<open>src/db.cc\<close> that run the chain when a record
  is written and when it is read.

  A filter is a numbered cell with its two links; the callbacks, supplied by the user, are
  arguments: they transform a record of type \<open>'r\<close> and return a status. The \<open>_prev\<close> link of
  the first filter leads to the last one.
\<close>

record filter_chain =
  rf_head :: "nat option"
  rf_next :: "nat \<Rightarrow> nat option"
  rf_prev :: "nat \<Rightarrow> nat option"

type_synonym 'r filter_cb = "nat \<Rightarrow> ('r \<Rightarrow> ham_status \<times> 'r) option"

section \<open>The chain\<close>

text \<open>The walk to the last filter.\<close>

partial_function (option) last_filter :: "(nat \<Rightarrow> nat option) \<Rightarrow> nat \<Rightarrow> nat option" where
  "last_filter nxt h = (case nxt h of None \<Rightarrow> Some h | Some n \<Rightarrow> last_filter nxt n)"

definition ham_add_record_filter :: "nat option \<Rightarrow> filter_chain \<Rightarrow> (ham_status \<times> filter_chain) option" where
  "ham_add_record_filter flt c =
     (case flt of
        None \<Rightarrow> Some (HAM_INV_PARAMETER, c)
      | Some f \<Rightarrow>
          (case rf_head c of
             None \<Rightarrow> Some (HAM_SUCCESS, c\<lparr>rf_head := Some f, rf_prev := (rf_prev c)(f := Some f)\<rparr>)
           | Some head \<Rightarrow>
               (case last_filter (rf_next c) head of
                  None \<Rightarrow> None
                | Some l \<Rightarrow> Some (HAM_SUCCESS,
                    c\<lparr>rf_prev := (rf_prev c)(head := Some f, f := Some l), rf_next := (rf_next c)(l := Some f)\<rparr>))))"

text \<open>The loop that looks for the filter behind \<open>prev\<close>.\<close>

partial_function (option) remove_filter_loop ::
  "nat \<Rightarrow> nat \<Rightarrow> filter_chain \<Rightarrow> (ham_status \<times> filter_chain) option" where
  "remove_filter_loop f prev c =
     (case rf_next c prev of
        None \<Rightarrow> Some (HAM_FILTER_NOT_FOUND, c)
      | Some head \<Rightarrow>
          if head = f then
            (let n = rf_next c head;
                 c1 = c\<lparr>rf_next := (rf_next c)(prev := n)\<rparr>
             in Some (HAM_SUCCESS, case n of None \<Rightarrow> c1 | Some m \<Rightarrow> c1\<lparr>rf_prev := (rf_prev c1)(m := Some prev)\<rparr>))
          else remove_filter_loop f head c)"

definition ham_remove_record_filter :: "nat option \<Rightarrow> filter_chain \<Rightarrow> (ham_status \<times> filter_chain) option" where
  "ham_remove_record_filter flt c =
     (case flt of
        None \<Rightarrow> Some (HAM_INV_PARAMETER, c)
      | Some f \<Rightarrow>
          (let unlinked = (\<lambda>c. c\<lparr>rf_prev := (rf_prev c)(f := None), rf_next := (rf_next c)(f := None)\<rparr>)
           in case rf_head c of
                None \<Rightarrow> Some (HAM_FILTER_NOT_FOUND, c)
              | Some head \<Rightarrow>
                  if head = f then
                    (let n = rf_next c head;
                         c1 = (case n of None \<Rightarrow> c | Some m \<Rightarrow> c\<lparr>rf_prev := (rf_prev c)(m := rf_prev c head)\<rparr>)
                     in Some (HAM_SUCCESS, unlinked (c1\<lparr>rf_head := n\<rparr>)))
                  else
                    (let c1 = (if rf_prev c head = Some f then c\<lparr>rf_prev := (rf_prev c)(head := rf_prev c f)\<rparr> else c)
                     in case remove_filter_loop f head c1 of
                          None \<Rightarrow> None
                        | Some (st, c2) \<Rightarrow> Some (st, if st = HAM_SUCCESS then unlinked c2 else c2))))"

section \<open>Running the chain\<close>

definition call_filter :: "'r filter_cb \<Rightarrow> nat \<Rightarrow> 'r \<Rightarrow> ham_status \<times> 'r" where
  "call_filter cb f r = (case cb f of None \<Rightarrow> (HAM_SUCCESS, r) | Some g \<Rightarrow> g r)"

partial_function (option) before_write_loop ::
  "'r filter_cb \<Rightarrow> filter_chain \<Rightarrow> nat option \<Rightarrow> 'r \<Rightarrow> (ham_status \<times> 'r) option" where
  "before_write_loop cb c head r =
     (case head of
        None \<Rightarrow> Some (HAM_SUCCESS, r)
      | Some f \<Rightarrow>
          (case call_filter cb f r of
             (st, r') \<Rightarrow> if st \<noteq> HAM_SUCCESS then Some (st, r') else before_write_loop cb c (rf_next c f) r'))"

definition record_filters_before_write :: "'r filter_cb \<Rightarrow> filter_chain \<Rightarrow> 'r \<Rightarrow> (ham_status \<times> 'r) option" where
  "record_filters_before_write cb c r = before_write_loop cb c (rf_head c) r"

text \<open>The \<open>do\<close> loop; following a missing link is the outcome \<open>None\<close>, too.\<close>

partial_function (option) after_find_loop ::
  "'r filter_cb \<Rightarrow> filter_chain \<Rightarrow> nat \<Rightarrow> 'r \<Rightarrow> (ham_status \<times> 'r) option" where
  "after_find_loop cb c f r =
     (case call_filter cb f r of
        (st, r') \<Rightarrow>
          if st \<noteq> HAM_SUCCESS then Some (st, r')
          else
            (case rf_prev c f of
               None \<Rightarrow> None
             | Some g \<Rightarrow>
                 (case rf_prev c g of
                    None \<Rightarrow> None
                  | Some p \<Rightarrow> if rf_next c p = None then Some (HAM_SUCCESS, r') else after_find_loop cb c g r')))"

definition record_filters_after_find :: "'r filter_cb \<Rightarrow> filter_chain \<Rightarrow> 'r \<Rightarrow> (ham_status \<times> 'r) option" where
  "record_filters_after_find cb c r =
     (case rf_head c of
        None \<Rightarrow> Some (HAM_SUCCESS, r)
      | Some h \<Rightarrow> (case rf_prev c h of None \<Rightarrow> None | Some l \<Rightarrow> after_find_loop cb c l r))"

section \<open>Lemmas\<close>

text \<open>The filters \<open>fs\<close>, in the order in which they were added.\<close>

definition filter_rep :: "filter_chain \<Rightarrow> nat list \<Rightarrow> bool" where
  "filter_rep c fs \<longleftrightarrow> distinct fs \<and> rf_head c = head_of fs \<and> chain (rf_next c) (rf_prev c) (last_of fs) fs None"

text \<open>Running filters one after the other until one fails.\<close>

fun run_filters :: "'r filter_cb \<Rightarrow> nat list \<Rightarrow> 'r \<Rightarrow> ham_status \<times> 'r" where
  "run_filters cb [] r = (HAM_SUCCESS, r)"
| "run_filters cb (f # fs) r =
     (case call_filter cb f r of (st, r') \<Rightarrow> if st \<noteq> HAM_SUCCESS then (st, r') else run_filters cb fs r')"

lemma last_filter_chain: "chain nx pv q (f # fs) None \<Longrightarrow> last_filter nx f = last_of (f # fs)"
proof (induction fs arbitrary: f q)
  case Nil
  then show ?case by (subst last_filter.simps) (simp add: last_of_Cons)
next
  case (Cons g gs)
  then show ?case by (subst last_filter.simps) (auto simp: last_of_Cons)
qed

lemma before_write_runs: "chain (rf_next c) pv q fs None \<Longrightarrow> before_write_loop cb c (head_of fs) r = Some (run_filters cb fs r)"
proof (induction fs arbitrary: r q)
  case Nil
  show ?case by (subst before_write_loop.simps) simp
next
  case (Cons f fs)
  then have n: "rf_next c f = head_of fs" by (auto split: if_splits)
  from Cons have "before_write_loop cb c (head_of fs) r' = Some (run_filters cb fs r')" for r' by auto
  with n show ?case by (subst before_write_loop.simps) (simp split: prod.split)
qed

lemma filter_rep_links:
  assumes "filter_rep c (as @ f # bs)"
  shows "rf_next c f = head_of bs" "rf_prev c f = (if as = [] then last_of (f # bs) else last_of as)"
  using assms unfolding filter_rep_def
  by (cases bs; auto simp: chain_append last_of_Cons split: if_splits)+

text \<open>From the last filter backwards, the loop stops in front of the first one.\<close>

lemma after_find_stops_early:
  assumes "filter_rep c (g # gs)" and "gs = as @ f # bs"
  shows "after_find_loop cb c f r = Some (run_filters cb (rev (as @ [f])) r)"
  using assms(2)
proof (induction as arbitrary: f bs r rule: rev_induct)
  case Nil
  have rep: "filter_rep c ([g] @ f # bs)" using assms(1) Nil by simp
  have "rf_prev c f = Some g" using filter_rep_links(2) [OF rep] by (simp add: last_of_Cons)
  moreover obtain l where l: "rf_prev c g = Some l" "rf_next c l = None"
  proof -
    obtain cs l where "f # bs = cs @ [l]" by (metis rev_exhaust list.distinct(1))
    then have "filter_rep c ((g # cs) @ l # [])" and g: "filter_rep c ([] @ g # cs @ [l])" using rep by simp_all
    with filter_rep_links(1) [of c "g # cs" l "[]"] filter_rep_links(2) [OF g] that [of l] show thesis
      by (simp add: last_of_Cons)
  qed
  ultimately show ?case by (subst after_find_loop.simps) (simp split: prod.split)
next
  case (snoc a as)
  have rep: "filter_rep c ((g # as) @ a # f # bs)" "filter_rep c ((g # as @ [a]) @ f # bs)"
    using assms(1) snoc.prems by simp_all
  have pf: "rf_prev c f = Some a" using filter_rep_links(2) [OF rep(2)] by (simp add: last_of_Cons)
  obtain p where p: "rf_prev c a = Some p" "rf_next c p = Some a"
  proof -
    obtain cs p where e: "g # as = cs @ [p]" by (metis rev_exhaust list.distinct(1))
    then have "filter_rep c (cs @ p # a # f # bs)" using rep(1) by simp
    from filter_rep_links(1) [OF this] filter_rep_links(2) [OF rep(1)] e that [of p] show thesis by simp
  qed
  have "after_find_loop cb c a r' = Some (run_filters cb (rev (as @ [a])) r')" for r'
    using snoc.IH [of a "f # bs"] snoc.prems by simp
  with pf p show ?case by (subst after_find_loop.simps) (simp split: prod.split)
qed

section \<open>Theorems\<close>

text \<open>
  Filters are added at the end of the chain and run in this order when a record is
  written, until one of them fails.
\<close>

theorem record_filters_write_in_order:
  assumes "filter_rep c fs" and "f \<notin> set fs" and "rf_next c f = None"
  shows "\<exists>c'. ham_add_record_filter (Some f) c = Some (HAM_SUCCESS, c') \<and> filter_rep c' (fs @ [f]) \<and>
    record_filters_before_write cb c' r = Some (run_filters cb (fs @ [f]) r)"
proof -
  have "\<exists>c'. ham_add_record_filter (Some f) c = Some (HAM_SUCCESS, c') \<and> filter_rep c' (fs @ [f])"
  proof (cases fs)
    case Nil
    with assms show ?thesis by (auto simp: ham_add_record_filter_def filter_rep_def last_of_Cons)
  next
    case (Cons g gs)
    obtain as l where l: "fs = as @ [l]" using Cons by (metis rev_exhaust list.distinct(1))
    have "last_of fs = Some l" by (simp add: l)
    then have "last_filter (rf_next c) g = Some l"
      using assms(1) Cons last_filter_chain [of "rf_next c" "rf_prev c" _ g gs] by (auto simp: filter_rep_def)
    moreover define c' where "c' = c\<lparr>rf_prev := (rf_prev c)(g := Some f, f := Some l), rf_next := (rf_next c)(l := Some f)\<rparr>"
    ultimately have a: "ham_add_record_filter (Some f) c = Some (HAM_SUCCESS, c')"
      using assms(1) Cons by (simp add: ham_add_record_filter_def filter_rep_def)
    have R: "distinct fs \<and> rf_head c = head_of fs \<and> chain (rf_next c) (rf_prev c) (last_of fs) fs None"
      using assms(1) by (simp only: filter_rep_def)
    have ch: "chain (rf_next c) (rf_prev c) (Some l) (as @ [l]) None" "distinct (as @ [l])" "f \<notin> set (as @ [l])"
      using R assms(2) unfolding l by simp_all
    have hd: "head_of (as @ [l]) = Some g" unfolding l [symmetric] Cons by simp
    have "chain (rf_next c') (rf_prev c') (Some f) (as @ [l]) (Some f)"
    proof (cases as)
      case Nil
      with ch hd show ?thesis by (auto simp: c'_def)
    next
      case (Cons a as')
      then have "a = g" using hd by simp
      with Cons ch have "chain (rf_next c') (rf_prev c') (Some g) as' (Some l) =
          chain (rf_next c) (rf_prev c) (Some g) as' (Some l)"
        by (intro chain_cong) (auto simp: c'_def)
      with Cons ch \<open>a = g\<close> show ?thesis
        by (auto simp: chain_append c'_def last_of_Some last_of_Cons split: if_splits)
    qed
    moreover have "rf_prev c' f = Some l" "rf_next c' f = None" "rf_head c' = head_of fs"
      using ch(3) assms(3) R by (auto simp: c'_def)
    ultimately have "filter_rep c' (fs @ [f])"
      using ch(2,3) unfolding filter_rep_def l
      by (simp add: chain_append [of _ _ _ "as @ [l]" "[f]"] head_of_append [of "as @ [l]"] del: append_assoc)
    with a show ?thesis by blast
  qed
  then obtain c' where c': "ham_add_record_filter (Some f) c = Some (HAM_SUCCESS, c')" "filter_rep c' (fs @ [f])" by blast
  have "record_filters_before_write cb c' r = Some (run_filters cb (fs @ [f]) r)"
    using before_write_runs [of c' "rf_prev c'" _ "fs @ [f]"] c'(2)
    by (auto simp: record_filters_before_write_def filter_rep_def)
  with c' show ?thesis by blast
qed

definition sample_chain :: filter_chain where
  "sample_chain = \<lparr>rf_head = Some 0, rf_next = (\<lambda>i. if i = 0 then Some 1 else None),
     rf_prev = (\<lambda>i. if i = 0 then Some 1 else if i = 1 then Some 0 else None)\<rparr>"

lemma sample_chain_rep: "filter_rep sample_chain [0, 1]"
  by (simp add: filter_rep_def sample_chain_def last_of_Cons)

theorem record_filters_write_in_order_witness:
  "\<exists>c'. ham_add_record_filter (Some 2) sample_chain = Some (HAM_SUCCESS, c') \<and> filter_rep c' [0, 1, 2] \<and>
    record_filters_before_write (\<lambda>f. Some (\<lambda>r. (HAM_SUCCESS, r @ [f]))) c' [] = Some (HAM_SUCCESS, [0, 1, 2])"
  using record_filters_write_in_order [OF sample_chain_rep, of 2 "\<lambda>f. Some (\<lambda>r. (HAM_SUCCESS, r @ [f]))" "[]"]
  by (simp add: sample_chain_def call_filter_def)

text \<open>
  Reading undoes too little. With two or more record filters, the function that runs the
  chain after a record was found calls all filters but the first one, in reverse order: the
  loop ends when it reaches the first filter, before calling it. The transformation that
  the first filter made when the record was written is not undone.
\<close>

theorem record_filters_read_skips_first:
  assumes "filter_rep c (g # f # fs)"
  shows "record_filters_after_find cb c r = Some (run_filters cb (rev (f # fs)) r) \<and>
    record_filters_before_write cb' c r' = Some (run_filters cb' (g # f # fs) r')"
proof -
  obtain as l where l: "f # fs = as @ [l]" by (metis rev_exhaust list.distinct(1))
  have h: "rf_head c = Some g" "rf_prev c g = Some l"
    using assms l by (auto simp: filter_rep_def last_of_Cons last_of_def)
  have "after_find_loop cb c l r = Some (run_filters cb (rev (f # fs)) r)"
    using after_find_stops_early [OF assms, of as l "[]"] l by simp
  moreover have "before_write_loop cb' c (head_of (g # f # fs)) r' = Some (run_filters cb' (g # f # fs) r')"
    by (rule before_write_runs [of c "rf_prev c" "last_of (g # f # fs)"]) (use assms in \<open>simp only: filter_rep_def\<close>)
  ultimately show ?thesis using h by (simp add: record_filters_after_find_def record_filters_before_write_def)
qed

theorem record_filters_read_skips_first_witness:
  "record_filters_after_find (\<lambda>f. Some (\<lambda>r. (HAM_SUCCESS, remove1 f r))) sample_chain [0, 1] = Some (HAM_SUCCESS, [0])"
  using record_filters_read_skips_first [OF sample_chain_rep, of "\<lambda>f. Some (\<lambda>r. (HAM_SUCCESS, remove1 f r))" "[0, 1]", THEN conjunct1]
  by (simp add: call_filter_def)

end
