(* ===== verification/Ham_Db.thy ===== *)
theory Ham_Db
  imports Ham_Txn Ham_Compare
begin

text \<open>
  The transactional half of the database, \<open>src/db.cc\<close>: the conflict checks, insert, erase
  and lookup of a key under a transaction, the key counter, and the transaction entry points
  of the environment (\<open>_local_fun_txn_begin\<close>, \<open>_local_fun_txn_commit\<close>,
  \<open>_local_fun_txn_abort\<close>, \<open>env_get_incremented_lsn\<close> in \<open>src/env.cc\<close>).

  The B+tree and its cursors are the argument \<open>B\<close>, as in the flush of transactions; the
  compare function of the database is \<open>cmp\<close>. A walk over a list in the heap is a
  \<^theory_text>\<open>partial_function\<close> whose value \<open>None\<close> means that it does not end; a null pointer that is
  followed is the outcome \<open>FindFault\<close>.
\<close>

unbundle bit_operations_syntax

definition HAM_FAST_ESTIMATE :: u32 where "HAM_FAST_ESTIMATE = 1"
definition CURSOR_LOOKUP_INSERT :: u32 where "CURSOR_LOOKUP_INSERT = 0x10000"

text \<open>
  The environment as these functions see it: its flags, the heap of transactions, the
  journal (if there is one), the state of the B+tree, and the cursors of the database in
  the order of their list.
\<close>

record 'b db_env =
  e_flags :: u32
  e_heap :: txn_heap
  e_journal :: "journal option"
  e_backend :: 'b
  e_cursors :: "nat list"

definition e_recovery :: "'b db_env \<Rightarrow> bool" where
  "e_recovery e \<longleftrightarrow> e_flags e AND HAM_ENABLE_RECOVERY \<noteq> 0 \<and> e_flags e AND HAM_ENABLE_TRANSACTIONS \<noteq> 0"

definition clear_changeset :: "'b backend \<Rightarrow> 'b db_env \<Rightarrow> 'b db_env" where
  "clear_changeset B e = e\<lparr>e_backend := bk_clear_changeset B (e_backend e)\<rparr>"

definition env_get_incremented_lsn :: "'b db_env \<Rightarrow> ham_status \<times> u64 \<times> 'b db_env" where
  "env_get_incremented_lsn e =
     (case e_journal e of
        Some j \<Rightarrow>
          if j_lsn j = 0xffffffffffffffff then (HAM_LIMITS_REACHED, 0, e)
          else (case get_incremented_lsn j of (lsn, j') \<Rightarrow> (HAM_SUCCESS, lsn, e\<lparr>e_journal := Some j'\<rparr>))
      | None \<Rightarrow> (HAM_INTERNAL_ERROR, 0, e))"

section \<open>Conflicts\<close>

partial_function (option) check_insert_walk ::
  "'b backend \<Rightarrow> txn_heap \<Rightarrow> 'b \<Rightarrow> nat option \<Rightarrow> byte list \<Rightarrow> u32 \<Rightarrow> nat option \<Rightarrow> (ham_status \<times> 'b) option" where
  "check_insert_walk B h b txn key flags op =
     (case op of
        None \<Rightarrow>
          if flags AND HAM_OVERWRITE \<noteq> 0 \<or> flags AND HAM_DUPLICATE \<noteq> 0 then Some (HAM_SUCCESS, b)
          else
            (case bk_find B key 0 flags b of
               (st, _, b') \<Rightarrow>
                 Some (if st = HAM_KEY_NOT_FOUND then HAM_SUCCESS
                       else if st = HAM_SUCCESS then HAM_DUPLICATE_KEY else st, b'))
      | Some p \<Rightarrow>
          (let optxn = to_txn (h_ops h p); older = previous_in_node h p
           in if txn_aborted h optxn then check_insert_walk B h b txn key flags older
              else if txn_committed h optxn \<or> txn = Some optxn then
                (if op_is h p TXN_OP_ERASE then Some (HAM_SUCCESS, b)
                 else if op_is h p TXN_OP_NOP then check_insert_walk B h b txn key flags older
                 else if op_is_insert h p then
                   Some (if flags AND HAM_OVERWRITE \<noteq> 0 \<or> flags AND HAM_DUPLICATE \<noteq> 0 then HAM_SUCCESS
                         else HAM_DUPLICATE_KEY, b)
                 else Some (HAM_DUPLICATE_KEY, b))
              else Some (HAM_TXN_CONFLICT, b)))"

definition db_check_insert_conflicts ::
  "'b backend \<Rightarrow> txn_heap \<Rightarrow> 'b \<Rightarrow> nat option \<Rightarrow> nat \<Rightarrow> byte list \<Rightarrow> u32 \<Rightarrow> (ham_status \<times> 'b) option" where
  "db_check_insert_conflicts B h b txn node key flags =
     check_insert_walk B h b txn key flags (on_newest_op (h_nodes h node))"

partial_function (option) check_erase_walk ::
  "'b backend \<Rightarrow> txn_heap \<Rightarrow> 'b \<Rightarrow> nat option \<Rightarrow> byte list \<Rightarrow> u32 \<Rightarrow> nat option \<Rightarrow> (ham_status \<times> 'b) option" where
  "check_erase_walk B h b txn key flags op =
     (case op of
        None \<Rightarrow> (case bk_find B key 0 flags b of (st, _, b') \<Rightarrow> Some (st, b'))
      | Some p \<Rightarrow>
          (let optxn = to_txn (h_ops h p); older = previous_in_node h p
           in if txn_aborted h optxn then check_erase_walk B h b txn key flags older
              else if txn_committed h optxn \<or> txn = Some optxn then
                (if op_is h p TXN_OP_ERASE then Some (HAM_KEY_NOT_FOUND, b)
                 else if op_is h p TXN_OP_NOP then check_erase_walk B h b txn key flags older
                 else if op_is_insert h p then Some (HAM_SUCCESS, b)
                 else Some (HAM_KEY_NOT_FOUND, b))
              else Some (HAM_TXN_CONFLICT, b)))"

definition db_check_erase_conflicts ::
  "'b backend \<Rightarrow> txn_heap \<Rightarrow> 'b \<Rightarrow> nat option \<Rightarrow> nat \<Rightarrow> byte list \<Rightarrow> u32 \<Rightarrow> (ham_status \<times> 'b) option" where
  "db_check_erase_conflicts B h b txn node key flags =
     check_erase_walk B h b txn key flags (on_newest_op (h_nodes h node))"

section \<open>Counting keys\<close>

text \<open>
  \<open>__get_key_count_txn\<close> for one node; \<open>c\<close> is the counter. The insert branch with
  \<open>TXN_OP_INSERT\<close> is taken before the one that asks the B+tree.
\<close>

partial_function (option) get_key_count_walk ::
  "'b backend \<Rightarrow> txn_heap \<Rightarrow> nat option \<Rightarrow> u32 \<Rightarrow> byte list \<Rightarrow> nat option \<Rightarrow> u64 \<Rightarrow> 'b \<Rightarrow> (u64 \<times> 'b) option" where
  "get_key_count_walk B h txn flags key op c b =
     (case op of
        None \<Rightarrow> Some (c, b)
      | Some p \<Rightarrow>
          (let optxn = to_txn (h_ops h p); older = previous_in_node h p
           in if txn_aborted h optxn then get_key_count_walk B h txn flags key older c b
              else if txn_committed h optxn \<or> txn = Some optxn then
                (if op_is h p TXN_OP_ERASE then Some (c, b)
                 else if op_is h p TXN_OP_NOP then get_key_count_walk B h txn flags key older c b
                 else if op_is h p TXN_OP_INSERT then Some (c + 1, b)
                 else if op_is h p TXN_OP_INSERT_OW then
                   (if flags AND HAM_FAST_ESTIMATE \<noteq> 0 then Some (c + 1, b)
                    else (case bk_find B key 0 0 b of
                            (st, _, b') \<Rightarrow> Some (if st = HAM_KEY_NOT_FOUND then c + 1 else c, b')))
                 else if op_is h p TXN_OP_INSERT_DUP then
                   (if flags AND HAM_FAST_ESTIMATE \<noteq> 0 then get_key_count_walk B h txn flags key older (c + 1) b
                    else
                      (case bk_find B key 0 0 b of
                         (st, _, b') \<Rightarrow>
                           if st = HAM_SUCCESS then
                             (if flags AND HAM_SKIP_DUPLICATES \<noteq> 0 then Some (c, b')
                              else get_key_count_walk B h txn flags key older (c + 1) b')
                           else if flags AND HAM_SKIP_DUPLICATES \<noteq> 0 then Some (c + 1, b')
                           else get_key_count_walk B h txn flags key older (c + 1) b'))
                 else Some (c, b))
              else get_key_count_walk B h txn flags key older (c + 1) b))"

definition get_key_count_txn ::
  "'b backend \<Rightarrow> txn_heap \<Rightarrow> nat option \<Rightarrow> u32 \<Rightarrow> nat \<Rightarrow> u64 \<Rightarrow> 'b \<Rightarrow> (u64 \<times> 'b) option" where
  "get_key_count_txn B h txn flags node c b =
     get_key_count_walk B h txn flags (on_key (h_nodes h node)) (on_newest_op (h_nodes h node)) c b"

section \<open>Insert\<close>

definition increment_dupe_index_step ::
  "'b backend \<Rightarrow> nat \<Rightarrow> nat \<Rightarrow> u32 \<Rightarrow> nat \<Rightarrow> txn_heap \<times> 'b \<Rightarrow> txn_heap \<times> 'b" where
  "increment_dupe_index_step B node skip start c s =
     (case s of (h, b) \<Rightarrow>
        if c = skip \<or> bk_cursor_is_nil B c b then (h, b)
        else
          (let (hit, b') =
             (if tc_on_txnop (h_cursors h c)
              then (case tc_op (h_cursors h c) of None \<Rightarrow> False | Some p \<Rightarrow> to_node (h_ops h p) = node, b)
              else bk_cursor_points_to_key B c (on_key (h_nodes h node)) b)
           in if hit \<and> tc_dupecache_index (h_cursors h c) > start
              then (upd_cursor c (\<lambda>x. x\<lparr>tc_dupecache_index := tc_dupecache_index x + 1\<rparr>) h, b')
              else (h, b')))"

definition increment_dupe_index :: "'b backend \<Rightarrow> nat \<Rightarrow> nat \<Rightarrow> u32 \<Rightarrow> 'b db_env \<Rightarrow> 'b db_env" where
  "increment_dupe_index B node skip start e =
     (case fold (increment_dupe_index_step B node skip start) (e_cursors e) (e_heap e, e_backend e) of
        (h, b) \<Rightarrow> e\<lparr>e_heap := h, e_backend := b\<rparr>)"

text \<open>The node of a key, created when there is none; the flag says whether it was created.\<close>

definition get_or_create_node :: "key_cmp \<Rightarrow> txn_heap \<Rightarrow> byte list \<Rightarrow> nat \<times> bool \<times> txn_heap" where
  "get_or_create_node cmp h key =
     (case fst (txn_opnode_get cmp h key 0 0) of
        Some n \<Rightarrow> (n, False, h)
      | None \<Rightarrow> (case txn_opnode_create cmp h key of (n, h') \<Rightarrow> (n, True, h')))"

definition drop_node :: "bool \<Rightarrow> nat \<Rightarrow> 'b db_env \<Rightarrow> 'b db_env" where
  "drop_node created node e = (if created then e\<lparr>e_heap := txn_opnode_free (e_heap e) node\<rparr> else e)"

definition insert_op_flags :: "u32 \<Rightarrow> u32" where
  "insert_op_flags flags = (flags AND HAM_PARTIAL) OR
     (if flags AND HAM_DUPLICATE \<noteq> 0 then TXN_OP_INSERT_DUP
      else if flags AND HAM_OVERWRITE \<noteq> 0 then TXN_OP_INSERT_OW else TXN_OP_INSERT)"

definition journal_insert ::
  "u16 \<Rightarrow> nat \<Rightarrow> byte list \<Rightarrow> ham_record \<Rightarrow> u32 \<Rightarrow> u64 \<Rightarrow> 'b db_env \<Rightarrow> ham_status \<times> 'b db_env" where
  "journal_insert dbname txn key rec flags lsn e =
     (case e_journal e of
        None \<Rightarrow> (HAM_SUCCESS, e)
      | Some j \<Rightarrow>
          if \<not> e_recovery e then (HAM_SUCCESS, e)
          else
            (let t = h_txns (e_heap e) txn
             in case jrn_append_insert j dbname (tx_id t) (tx_log_desc t) key rec
                       (if flags AND HAM_DUPLICATE \<noteq> 0 then flags else flags OR HAM_OVERWRITE) lsn of
                  (st, j') \<Rightarrow> (st, e\<lparr>e_journal := Some j'\<rparr>)))"

definition db_insert_txn ::
  "key_cmp \<Rightarrow> 'b backend \<Rightarrow> u16 \<Rightarrow> 'b db_env \<Rightarrow> nat \<Rightarrow> byte list \<Rightarrow> ham_record \<Rightarrow> u32 \<Rightarrow> nat option \<Rightarrow>
   (ham_status \<times> 'b db_env) option" where
  "db_insert_txn cmp B dbname e txn key rec flags cursor =
     (case get_or_create_node cmp (e_heap e) key of
        (node, created, h1) \<Rightarrow>
          (case db_check_insert_conflicts B h1 (e_backend e) (Some txn) node key flags of
             None \<Rightarrow> None
           | Some (st, b1) \<Rightarrow>
               (let e1 = clear_changeset B (e\<lparr>e_heap := h1, e_backend := b1\<rparr>)
                in if st \<noteq> HAM_SUCCESS then Some (st, drop_node created node e1)
                   else
                     (case env_get_incremented_lsn e1 of
                        (st, lsn, e2) \<Rightarrow>
                          if st \<noteq> HAM_SUCCESS then Some (st, drop_node created node e2)
                          else
                            (case txn_opnode_append (e_heap e2) txn node flags (insert_op_flags flags) lsn (Some rec) of
                               (op, h3) \<Rightarrow>
                                 (let e3 = e2\<lparr>e_heap := h3\<rparr>;
                                      e4 = (case cursor of
                                              None \<Rightarrow> e3
                                            | Some c \<Rightarrow>
                                                (let idx = tc_dupecache_index (h_cursors h3 c);
                                                     h4 = (if idx \<noteq> 0 then upd_op op (\<lambda>x. x\<lparr>to_referenced_dupe := idx\<rparr>) h3 else h3);
                                                     h5 = txn_cursor_couple (cursor_set_txn_nil c h4) c op
                                                 in increment_dupe_index B node c idx (e3\<lparr>e_heap := h5\<rparr>)))
                                  in Some (journal_insert dbname txn key rec flags lsn e4)))))))"

section \<open>Erase\<close>

text \<open>
  \<open>__nil_all_cursors_in_node\<close>: for every operation of the node, from the newest, the
  cursors that are coupled to it. The walk over the cursors starts again at the head of the
  list after a cursor was taken out of it.
\<close>

partial_function (option) nil_cursors_of_op :: "nat option \<Rightarrow> nat \<Rightarrow> nat option \<Rightarrow> txn_heap \<Rightarrow> txn_heap option" where
  "nil_cursors_of_op current op cursor h =
     (case cursor of
        None \<Rightarrow> Some h
      | Some c \<Rightarrow>
          (let cur = (case current of None \<Rightarrow> 0 | Some d \<Rightarrow> tc_dupecache_index (h_cursors h d));
               idx = tc_dupecache_index (h_cursors h c)
           in if cur \<noteq> 0 \<and> cur < idx then
                (let h' = upd_cursor c (\<lambda>x. x\<lparr>tc_dupecache_index := tc_dupecache_index x - 1\<rparr>) h
                 in nil_cursors_of_op current op (coupled_next h' c) h')
              else if cur \<noteq> 0 \<and> cur > idx then nil_cursors_of_op current op (coupled_next h c) h
              else
                (let h1 = cursor_set_txn_nil c (couple_to_btree c h)
                 in nil_cursors_of_op current op (to_cursors (h_ops h1 op))
                      (upd_cursor c (\<lambda>x. x\<lparr>tc_lastop := CURSOR_LOOKUP_INSERT\<rparr>) h1))))"

partial_function (option) nil_cursors_walk :: "nat option \<Rightarrow> nat option \<Rightarrow> txn_heap \<Rightarrow> txn_heap option" where
  "nil_cursors_walk current op h =
     (case op of
        None \<Rightarrow> Some h
      | Some p \<Rightarrow>
          (case nil_cursors_of_op current p (to_cursors (h_ops h p)) h of
             None \<Rightarrow> None
           | Some h' \<Rightarrow> nil_cursors_walk current (previous_in_node h' p) h'))"

definition nil_all_cursors_in_node :: "nat option \<Rightarrow> nat \<Rightarrow> txn_heap \<Rightarrow> txn_heap option" where
  "nil_all_cursors_in_node current node h = nil_cursors_walk current (on_newest_op (h_nodes h node)) h"

text \<open>\<open>__nil_all_cursors_in_btree\<close>, with \<open>set_to_nil(0)\<close> of the parent cursor.\<close>

definition cursor_set_to_nil :: "'b backend \<Rightarrow> nat \<Rightarrow> txn_heap \<times> 'b \<Rightarrow> txn_heap \<times> 'b" where
  "cursor_set_to_nil B c s =
     (case s of (h, b) \<Rightarrow>
        (upd_cursor c (\<lambda>x. x\<lparr>tc_first_use := True\<rparr>) (txn_cursor_set_to_nil h c), bk_cursor_set_to_nil B c b))"

definition nil_btree_cursor_step :: "'b backend \<Rightarrow> nat option \<Rightarrow> byte list \<Rightarrow> nat \<Rightarrow> txn_heap \<times> 'b \<Rightarrow> txn_heap \<times> 'b" where
  "nil_btree_cursor_step B current key c s =
     (case s of (h, b) \<Rightarrow>
        if bk_cursor_is_nil B c b \<or> current = Some c \<or> tc_on_txnop (h_cursors h c) then (h, b)
        else
          (case bk_cursor_points_to_key B c key b of
             (False, b') \<Rightarrow> (h, b')
           | (True, b') \<Rightarrow>
               (let cur = (case current of None \<Rightarrow> 0 | Some d \<Rightarrow> tc_dupecache_index (h_cursors h d));
                    idx = tc_dupecache_index (h_cursors h c)
                in if cur \<noteq> 0 \<and> cur < idx
                   then (upd_cursor c (\<lambda>x. x\<lparr>tc_dupecache_index := tc_dupecache_index x - 1\<rparr>) h, b')
                   else if cur \<noteq> 0 \<and> cur > idx then (h, b')
                   else cursor_set_to_nil B c (h, b'))))"

definition nil_all_cursors_in_btree :: "'b backend \<Rightarrow> nat option \<Rightarrow> byte list \<Rightarrow> 'b db_env \<Rightarrow> 'b db_env" where
  "nil_all_cursors_in_btree B current key e =
     (case fold (nil_btree_cursor_step B current key) (e_cursors e) (e_heap e, e_backend e) of
        (h, b) \<Rightarrow> e\<lparr>e_heap := h, e_backend := b\<rparr>)"

definition journal_erase :: "u16 \<Rightarrow> nat \<Rightarrow> byte list \<Rightarrow> u32 \<Rightarrow> u64 \<Rightarrow> 'b db_env \<Rightarrow> ham_status \<times> 'b db_env" where
  "journal_erase dbname txn key flags lsn e =
     (case e_journal e of
        None \<Rightarrow> (HAM_SUCCESS, e)
      | Some j \<Rightarrow>
          if \<not> e_recovery e then (HAM_SUCCESS, e)
          else
            (let t = h_txns (e_heap e) txn
             in case jrn_append_erase j dbname (tx_id t) (tx_log_desc t) key 0 (flags OR HAM_ERASE_ALL_DUPLICATES) lsn of
                  (st, j') \<Rightarrow> (st, e\<lparr>e_journal := Some j'\<rparr>)))"

definition db_erase_txn ::
  "key_cmp \<Rightarrow> 'b backend \<Rightarrow> u16 \<Rightarrow> 'b db_env \<Rightarrow> nat \<Rightarrow> byte list \<Rightarrow> u32 \<Rightarrow> nat option \<Rightarrow>
   (ham_status \<times> 'b db_env) option" where
  "db_erase_txn cmp B dbname e txn key flags cursor =
     (case get_or_create_node cmp (e_heap e) key of
        (node, created, h1) \<Rightarrow>
          (let idx = (case cursor of None \<Rightarrow> 0 | Some c \<Rightarrow> tc_dupecache_index (h_cursors h1 c));
               e0 = e\<lparr>e_heap := h1\<rparr>
           in case (if idx = 0 then
                      (case db_check_erase_conflicts B h1 (e_backend e) (Some txn) node key flags of
                         None \<Rightarrow> None
                       | Some (st, b1) \<Rightarrow> Some (st, clear_changeset B (e0\<lparr>e_backend := b1\<rparr>)))
                    else Some (HAM_SUCCESS, e0)) of
                None \<Rightarrow> None
              | Some (st, e1) \<Rightarrow>
                  if st \<noteq> HAM_SUCCESS then Some (st, drop_node created node e1)
                  else
                    (case env_get_incremented_lsn e1 of
                       (st, lsn, e2) \<Rightarrow>
                         if st \<noteq> HAM_SUCCESS then Some (st, drop_node created node e2)
                         else
                           (case txn_opnode_append (e_heap e2) txn node flags TXN_OP_ERASE lsn None of
                              (op, h3) \<Rightarrow>
                                (let h4 = (if idx \<noteq> 0 then upd_op op (\<lambda>x. x\<lparr>to_referenced_dupe := idx\<rparr>) h3 else h3)
                                 in case nil_all_cursors_in_node cursor node h4 of
                                      None \<Rightarrow> None
                                    | Some h5 \<Rightarrow>
                                        Some (journal_erase dbname txn key flags lsn
                                          (nil_all_cursors_in_btree B cursor (on_key (h_nodes h5 node)) (e2\<lparr>e_heap := h5\<rparr>))))))))"

section \<open>Lookup\<close>

datatype walk_end =
    WalkFault
  | WalkReturn ham_status
  | WalkRecord nat
  | WalkBtree "nat option"

text \<open>
  The labelled loop of \<open>db_find_txn\<close>: \<open>node\<close> and \<open>op\<close> are its variables, \<open>kf\<close> the internal flags
  of the key. At the label \<open>retry\<close> the variable \<open>op\<close> is only set when there is a node.
\<close>

partial_function (option) find_walk ::
  "txn_heap \<Rightarrow> nat option \<Rightarrow> u32 \<Rightarrow> nat option \<Rightarrow> nat option \<Rightarrow> u32 \<Rightarrow> bool \<Rightarrow> bool \<Rightarrow>
   (walk_end \<times> u32 \<times> bool) option" where
  "find_walk h txn flags node op kf first erased =
     (case op of
        None \<Rightarrow> Some (WalkBtree None, kf, erased)
      | Some p \<Rightarrow>
          (let optxn = to_txn (h_ops h p); older = previous_in_node h p
           in if txn_aborted h optxn then find_walk h txn flags node older kf first erased
              else if txn_committed h optxn \<or> txn = Some optxn then
                (if op_is h p TXN_OP_ERASE then
                   (let erased' = (erased \<or> first \<and> kf AND KEY_IS_APPROXIMATE = 0)
                    in if flags AND (HAM_FIND_LT_MATCH OR HAM_FIND_GT_MATCH) = 0
                       then Some (WalkReturn HAM_KEY_NOT_FOUND, kf, erased')
                       else
                         (case node of
                            None \<Rightarrow> Some (WalkFault, kf, erased')
                          | Some n \<Rightarrow>
                              (let node' = (if flags AND HAM_FIND_LT_MATCH \<noteq> 0
                                            then txn_opnode_get_previous_sibling h n
                                            else txn_opnode_get_next_sibling h n);
                                   op' = (case node' of None \<Rightarrow> Some p | Some m \<Rightarrow> on_newest_op (h_nodes h m))
                               in find_walk h txn flags node' op' (kf OR KEY_IS_APPROXIMATE) False erased')))
                 else if op_is h p TXN_OP_NOP then find_walk h txn flags node older kf first erased
                 else if op_is_insert h p then
                   Some (if kf AND KEY_IS_APPROXIMATE \<noteq> 0 then WalkBtree (Some p) else WalkRecord p, kf, erased)
                 else Some (WalkReturn HAM_KEY_NOT_FOUND, kf, erased))
              else Some (WalkReturn HAM_TXN_CONFLICT, kf, erased)))"

datatype find_end =
    FindFault
  | FindReturn ham_status "byte list" u32 "ham_record option"

definition find_btree ::
  "'b backend \<Rightarrow> byte list \<Rightarrow> u32 \<Rightarrow> u32 \<Rightarrow> 'b \<Rightarrow> find_end \<times> 'b" where
  "find_btree B key kf flags b =
     (case bk_find B key kf flags b of
        (st, (key', kf', rec), b') \<Rightarrow>
          (if st = HAM_SUCCESS then FindReturn st key' kf' (Some rec) else FindReturn st key' kf' None, b'))"

definition mark_approximate :: "find_end \<Rightarrow> find_end" where
  "mark_approximate r =
     (case r of FindReturn st key kf rec \<Rightarrow>
        if st = HAM_SUCCESS then FindReturn st key (kf OR KEY_IS_APPROXIMATE) rec else r
      | FindFault \<Rightarrow> r)"

partial_function (option) db_find_txn ::
  "key_cmp \<Rightarrow> 'b backend \<Rightarrow> txn_heap \<Rightarrow> nat option \<Rightarrow> byte list \<Rightarrow> u32 \<Rightarrow> u32 \<Rightarrow> 'b \<Rightarrow> (find_end \<times> 'b) option" where
  "db_find_txn cmp B h txn key kf flags b =
     (case txn_opnode_get cmp h key (kf AND NOT KEY_IS_APPROXIMATE) flags of
        (node, kf1) \<Rightarrow>
          (case find_walk h txn flags node
                  (case node of None \<Rightarrow> None | Some n \<Rightarrow> on_newest_op (h_nodes h n)) kf1 True False of
             None \<Rightarrow> None
           | Some (w, kf2, erased) \<Rightarrow>
               (case w of
                  WalkFault \<Rightarrow> Some (FindFault, b)
                | WalkReturn st \<Rightarrow> Some (FindReturn st key kf2 None, b)
                | WalkRecord p \<Rightarrow> Some (FindReturn HAM_SUCCESS key kf2 (Some (to_record (h_ops h p))), b)
                | WalkBtree None \<Rightarrow> Some (find_btree B key kf2 flags b)
                | WalkBtree (Some p) \<Rightarrow>
                    (let txnkey = on_key (h_nodes h (to_node (h_ops h p)));
                         rec = to_record (h_ops h p);
                         flags' = (if erased then flags AND NOT HAM_FIND_EXACT_MATCH else flags)
                     in case bk_find B key 0 flags' b of
                          (st, (key', kf', rec'), b') \<Rightarrow>
                            if st = HAM_KEY_NOT_FOUND then
                              Some (FindReturn HAM_SUCCESS key' (kf' OR KEY_IS_APPROXIMATE) (Some rec), b')
                            else if st \<noteq> HAM_SUCCESS then Some (FindReturn st key' kf' None, b')
                            else if kf' AND KEY_IS_APPROXIMATE = 0 \<and> flags' AND HAM_FIND_EXACT_MATCH \<noteq> 0 then
                              Some (FindReturn HAM_SUCCESS key' kf' (Some rec'), b')
                            else if (if flags' AND HAM_FIND_GT_MATCH \<noteq> 0 then cmp key' txnkey < 0
                                     else flags' AND HAM_FIND_LT_MATCH \<noteq> 0 \<and> cmp key' txnkey > 0) then
                              Option.bind (db_find_txn cmp B h txn key' kf' (flags' OR HAM_FIND_EXACT_MATCH) b')
                                (\<lambda>(r, b''). Some (mark_approximate r, b''))
                            else Some (FindReturn HAM_SUCCESS txnkey KEY_IS_APPROXIMATE (Some rec), b')))))"

section \<open>Transactions of an environment\<close>

text \<open>
  The three entry points. The flush of the file handles after a commit or abort with
  \<open>HAM_WRITE_THROUGH\<close>, whose result the code discards, does not change this state.
\<close>

definition local_txn_begin ::
  "'b db_env \<Rightarrow> byte list option \<Rightarrow> u32 \<Rightarrow> ham_status \<times> nat \<times> 'b db_env" where
  "local_txn_begin e name flags =
     (case txn_begin (e_heap e) name flags of
        (t, h) \<Rightarrow>
          (let e1 = e\<lparr>e_heap := h\<rparr>
           in if \<not> e_recovery e then (HAM_SUCCESS, t, e1)
              else
                (case env_get_incremented_lsn e1 of
                   (st, lsn, e2) \<Rightarrow>
                     (case e_journal e2 of
                        Some j \<Rightarrow>
                          if st \<noteq> HAM_SUCCESS then (st, t, e2)
                          else
                            (case jrn_append_txn_begin j (tx_id (h_txns h t)) (tx_name (h_txns h t)) name lsn of
                               (st, j', idx) \<Rightarrow>
                                 (st, t, e2\<lparr>e_journal := Some j',
                                   e_heap := (case idx of None \<Rightarrow> e_heap e2
                                              | Some i \<Rightarrow> upd_txn t (\<lambda>x. x\<lparr>tx_log_desc := i\<rparr>) (e_heap e2))\<rparr>))
                      | None \<Rightarrow> (st, t, e2)))))"

text \<open>The journal record of the end of a transaction; \<open>put\<close> is the journal's operation.\<close>

definition journal_txn_end ::
  "(journal \<Rightarrow> u32 \<Rightarrow> u64 \<Rightarrow> nat \<Rightarrow> u64 \<Rightarrow> ham_status \<times> journal) \<Rightarrow> 'b db_env \<Rightarrow> nat \<Rightarrow> ham_status \<times> 'b db_env" where
  "journal_txn_end put e txn =
     (if \<not> e_recovery e then (HAM_SUCCESS, e)
      else
        (case env_get_incremented_lsn e of
           (st, lsn, e1) \<Rightarrow>
             (case e_journal e1 of
                Some j \<Rightarrow>
                  if st \<noteq> HAM_SUCCESS then (st, e1)
                  else
                    (case put j (e_flags e) (tx_id (h_txns (e_heap e) txn)) (tx_log_desc (h_txns (e_heap e) txn)) lsn of
                       (st, j') \<Rightarrow> (st, e1\<lparr>e_journal := Some j'\<rparr>))
              | None \<Rightarrow> (st, e1))))"

definition local_txn_commit :: "'b backend \<Rightarrow> 'b db_env \<Rightarrow> nat \<Rightarrow> (ham_status \<times> 'b db_env) option" where
  "local_txn_commit B e txn =
     (if tx_cursor_refcount (h_txns (e_heap e) txn) \<noteq> 0 then Some (HAM_CURSOR_STILL_OPEN, e)
      else
        (case journal_txn_end jrn_append_txn_commit e txn of
           (st, e1) \<Rightarrow>
             if st \<noteq> HAM_SUCCESS then Some (st, e1)
             else
               (case txn_commit B (e_flags e1) (e_heap e1) (e_backend e1) txn of
                  None \<Rightarrow> None
                | Some (st, h, b) \<Rightarrow> Some (st, e1\<lparr>e_heap := h, e_backend := b\<rparr>))))"

definition local_txn_abort :: "'b backend \<Rightarrow> 'b db_env \<Rightarrow> nat \<Rightarrow> (ham_status \<times> 'b db_env) option" where
  "local_txn_abort B e txn =
     (if tx_cursor_refcount (h_txns (e_heap e) txn) \<noteq> 0 then Some (HAM_CURSOR_STILL_OPEN, e)
      else
        (case journal_txn_end jrn_append_txn_abort e txn of
           (st, e1) \<Rightarrow>
             if st \<noteq> HAM_SUCCESS then Some (st, e1)
             else
               (case txn_abort (bk_clear_changeset B) (e_heap e1) (e_backend e1) txn of
                  None \<Rightarrow> None
                | Some (st, h, b) \<Rightarrow> Some (st, e1\<lparr>e_heap := h, e_backend := b\<rparr>))))"

section \<open>The deciding operation of a key\<close>

text \<open>
  Every walk is decided by the newest operation whose transaction was not aborted:
  \<open>decisive\<close> of the list of the node.
\<close>

definition decisive :: "txn_heap \<Rightarrow> nat list \<Rightarrow> nat option" where
  "decisive h os = find (\<lambda>p. \<not> txn_aborted h (to_txn (h_ops h p))) (rev os)"

definition visible_to :: "txn_heap \<Rightarrow> nat option \<Rightarrow> nat \<Rightarrow> bool" where
  "visible_to h txn p \<longleftrightarrow> txn_committed h (to_txn (h_ops h p)) \<or> txn = Some (to_txn (h_ops h p))"

lemma op_is_nop [simp]: "\<not> op_is h p TXN_OP_NOP"
  by (simp add: op_is_def TXN_OP_NOP_def)

lemma decisive_snoc:
  "decisive h (os @ [p]) = (if txn_aborted h (to_txn (h_ops h p)) then decisive h os else Some p)"
  "decisive h [] = None"
  by (simp_all add: decisive_def)

lemma decisive_None_iff: "decisive h os = None \<longleftrightarrow> (\<forall>p \<in> set os. txn_aborted h (to_txn (h_ops h p)))"
  by (auto simp: decisive_def find_None_iff)

lemma decisive_SomeD:
  assumes "decisive h os = Some p"
  shows "\<exists>as bs. os = as @ p # bs \<and> \<not> txn_aborted h (to_txn (h_ops h p)) \<and>
    (\<forall>q \<in> set bs. txn_aborted h (to_txn (h_ops h q)))"
  using assms
proof (induction os rule: rev_induct)
  case (snoc q os)
  show ?case
  proof (cases "txn_aborted h (to_txn (h_ops h q))")
    case True
    with snoc obtain as bs where "os = as @ p # bs" "\<not> txn_aborted h (to_txn (h_ops h p))"
      "\<forall>q \<in> set bs. txn_aborted h (to_txn (h_ops h q))" by (auto simp: decisive_snoc)
    with True show ?thesis by (intro exI [of _ as] exI [of _ "bs @ [q]"]) auto
  next
    case False
    with snoc.prems show ?thesis by (intro exI [of _ os] exI [of _ "[]"]) (simp add: decisive_snoc)
  qed
qed (simp add: decisive_snoc)

text \<open>The answers of the two checks, given the deciding operation.\<close>

definition insert_verdict ::
  "'b backend \<Rightarrow> txn_heap \<Rightarrow> 'b \<Rightarrow> nat option \<Rightarrow> byte list \<Rightarrow> u32 \<Rightarrow> nat option \<Rightarrow> ham_status \<times> 'b" where
  "insert_verdict B h b txn key flags d =
     (let replaces = (flags AND HAM_OVERWRITE \<noteq> 0 \<or> flags AND HAM_DUPLICATE \<noteq> 0)
      in case d of
           Some p \<Rightarrow>
             (if \<not> visible_to h txn p then HAM_TXN_CONFLICT
              else if op_is h p TXN_OP_ERASE \<or> op_is_insert h p \<and> replaces then HAM_SUCCESS
              else HAM_DUPLICATE_KEY, b)
         | None \<Rightarrow>
             if replaces then (HAM_SUCCESS, b)
             else (case bk_find B key 0 flags b of
                     (st, _, b') \<Rightarrow> (if st = HAM_KEY_NOT_FOUND then HAM_SUCCESS
                                   else if st = HAM_SUCCESS then HAM_DUPLICATE_KEY else st, b')))"

definition erase_verdict ::
  "'b backend \<Rightarrow> txn_heap \<Rightarrow> 'b \<Rightarrow> nat option \<Rightarrow> byte list \<Rightarrow> u32 \<Rightarrow> nat option \<Rightarrow> ham_status \<times> 'b" where
  "erase_verdict B h b txn key flags d =
     (case d of
        Some p \<Rightarrow>
          (if \<not> visible_to h txn p then HAM_TXN_CONFLICT
           else if op_is h p TXN_OP_ERASE \<or> \<not> op_is_insert h p then HAM_KEY_NOT_FOUND else HAM_SUCCESS, b)
      | None \<Rightarrow> (case bk_find B key 0 flags b of (st, _, b') \<Rightarrow> (st, b')))"

text \<open>A walk from the newest operation of a list goes through it backwards.\<close>

lemma chain_snocD:
  "chain nx pv None (os @ [p]) e \<Longrightarrow> pv p = last_of os \<and> chain nx pv None os (Some p)"
  by (auto simp: chain_append)

text \<open>
  The interface of the walks: a walk skips the operations of aborted transactions and
  stops at the first other one, or at the end of the list, with a verdict that depends on
  where it stopped. Then it ends, and the deciding operation gives its result.
\<close>

locale node_walk =
  fixes h :: txn_heap
    and walk :: "nat option \<Rightarrow> 'r option"
    and verdict :: "nat option \<Rightarrow> 'r"
  assumes walk_end: "walk None = Some (verdict None)"
    and walk_aborted: "txn_aborted h (to_txn (h_ops h p)) \<Longrightarrow> walk (Some p) = walk (previous_in_node h p)"
    and walk_stop: "\<not> txn_aborted h (to_txn (h_ops h p)) \<Longrightarrow> walk (Some p) = Some (verdict (Some p))"
begin

lemma decided_chain: "chain nx (previous_in_node h) None os e \<Longrightarrow> walk (last_of os) = Some (verdict (decisive h os))"
proof (induction os arbitrary: e rule: rev_induct)
  case Nil
  show ?case by (simp add: decisive_snoc walk_end)
next
  case (snoc p os)
  then show ?case using chain_snocD [OF snoc.prems] snoc.IH [of "Some p"]
    by (simp add: decisive_snoc walk_aborted walk_stop)
qed

lemma decided: "node_list h n os \<Longrightarrow> walk (on_newest_op (h_nodes h n)) = Some (verdict (decisive h os))"
  using decided_chain by (auto simp: node_list_def dlist_def)

end

interpretation insert_walk: node_walk h "check_insert_walk B h b txn key flags" "insert_verdict B h b txn key flags"
  for h B b txn key flags
  by unfold_locales
     (subst check_insert_walk.simps; auto simp: insert_verdict_def visible_to_def Let_def split: prod.split)+

interpretation erase_walk: node_walk h "check_erase_walk B h b txn key flags" "erase_verdict B h b txn key flags"
  for h B b txn key flags
  by unfold_locales
     (subst check_erase_walk.simps; auto simp: erase_verdict_def visible_to_def Let_def split: prod.split)+

text \<open>A lookup that does not ask for an approximate match is decided in the same way.\<close>

definition find_verdict :: "txn_heap \<Rightarrow> nat option \<Rightarrow> nat option \<Rightarrow> walk_end" where
  "find_verdict h txn d =
     (case d of
        None \<Rightarrow> WalkBtree None
      | Some p \<Rightarrow>
          if \<not> visible_to h txn p then WalkReturn HAM_TXN_CONFLICT
          else if op_is h p TXN_OP_ERASE \<or> \<not> op_is_insert h p then WalkReturn HAM_KEY_NOT_FOUND
          else WalkRecord p)"

definition exact_flags :: "u32 \<Rightarrow> u32" where
  "exact_flags flags = flags AND NOT (HAM_FIND_LT_MATCH OR HAM_FIND_GT_MATCH)"

lemma exact_flags_simps [simp]:
  "exact_flags flags AND (HAM_FIND_LT_MATCH OR HAM_FIND_GT_MATCH) = 0"
  "(kf AND NOT KEY_IS_APPROXIMATE) AND KEY_IS_APPROXIMATE = (0 :: u32)"
  by (auto intro!: bit_word_eqI simp: exact_flags_def bit_simps)

interpretation exact_walk: node_walk h
  "\<lambda>op. map_option fst (find_walk h txn (exact_flags flags) node op (kf AND NOT KEY_IS_APPROXIMATE) True False)"
  "find_verdict h txn"
  for h txn flags node kf
  by unfold_locales (subst find_walk.simps; auto simp: find_verdict_def visible_to_def Let_def)+

section \<open>Isolation of writers\<close>

text \<open>
  The rule that a key has at most one active writer, for the list of its operations: what
  follows an operation of an active transaction belongs to that transaction or was
  aborted.
\<close>

definition txn_active :: "txn_heap \<Rightarrow> nat \<Rightarrow> bool" where
  "txn_active h t \<longleftrightarrow> \<not> txn_aborted h t \<and> \<not> txn_committed h t"

fun isolated :: "txn_heap \<Rightarrow> nat list \<Rightarrow> bool" where
  "isolated h [] = True"
| "isolated h (p # ps) =
     ((txn_active h (to_txn (h_ops h p)) \<longrightarrow>
        (\<forall>q \<in> set ps. to_txn (h_ops h q) = to_txn (h_ops h p) \<or> txn_aborted h (to_txn (h_ops h q)))) \<and>
      isolated h ps)"

lemma isolated_append:
  "isolated h (as @ bs) \<longleftrightarrow> isolated h as \<and> isolated h bs \<and>
     (\<forall>p \<in> set as. txn_active h (to_txn (h_ops h p)) \<longrightarrow>
        (\<forall>q \<in> set bs. to_txn (h_ops h q) = to_txn (h_ops h p) \<or> txn_aborted h (to_txn (h_ops h q))))"
  by (induction as) auto

text \<open>If the deciding operation does not stop a writer, no other active transaction has written the key.\<close>

lemma isolated_sole_writer:
  assumes "isolated h os" and "\<forall>p. decisive h os = Some p \<longrightarrow> visible_to h (Some t) p" and "q \<in> set os"
  shows "\<not> txn_active h (to_txn (h_ops h q)) \<or> to_txn (h_ops h q) = t"
proof (cases "decisive h os")
  case None
  with assms(3) show ?thesis by (simp add: decisive_None_iff txn_active_def)
next
  case (Some p)
  from decisive_SomeD [OF Some] obtain as bs where
    s: "os = as @ p # bs" "\<not> txn_aborted h (to_txn (h_ops h p))" "\<forall>q \<in> set bs. txn_aborted h (to_txn (h_ops h q))"
    by blast
  from assms(2) Some have "txn_committed h (to_txn (h_ops h p)) \<or> to_txn (h_ops h p) = t" by (auto simp: visible_to_def)
  with s assms(1,3) show ?thesis by (auto simp: isolated_append txn_active_def)
qed

lemma isolated_cong:
  assumes "\<And>p. p \<in> set os \<Longrightarrow> to_txn (h_ops h' p) = to_txn (h_ops h p)"
    and "\<And>p. p \<in> set os \<Longrightarrow> tx_flags (h_txns h' (to_txn (h_ops h p))) = tx_flags (h_txns h (to_txn (h_ops h p)))"
  shows "isolated h' os = isolated h os"
  using assms by (induction os) (simp_all add: txn_active_def txn_aborted_def txn_committed_def)

section \<open>The invariant of the transactional store\<close>

text \<open>The compare function of the database is assumed to order the keys, \<open>key_order\<close>.\<close>

definition tree_sorted :: "key_cmp \<Rightarrow> txn_heap \<Rightarrow> bool" where
  "tree_sorted cmp h \<longleftrightarrow> sorted_wrt (\<lambda>n m. cmp (on_key (h_nodes h n)) (on_key (h_nodes h m)) < 0) (h_tree h)"

text \<open>\<open>nl\<close> gives the operations of each node and \<open>ul\<close> those of each transaction, oldest first.\<close>

definition db_inv :: "key_cmp \<Rightarrow> txn_heap \<Rightarrow> (nat \<Rightarrow> nat list) \<Rightarrow> (nat \<Rightarrow> nat list) \<Rightarrow> bool" where
  "db_inv cmp h nl ul \<longleftrightarrow> heap_fresh h \<and> tree_sorted cmp h \<and>
     (\<forall>n \<in> set (h_tree h). n < h_next h \<and> node_list h n (nl n) \<and> isolated h (nl n)) \<and>
     (\<forall>t. h_txn_alive h t \<longrightarrow> txn_op_list h t (ul t))"

lemma set_tree_insert: "set (tree_insert cmp k n ms) = insert n (set ms)"
  by (induction ms) auto

lemma remove1_tree_insert: "n \<notin> set ms \<Longrightarrow> remove1 n (tree_insert cmp k n ms) = ms"
  by (induction ms) auto

lemma tree_insert_sorted:
  assumes "key_order cmp" and "sorted_wrt (\<lambda>n m. cmp (k n) (k m) < 0) ms" and "\<forall>m \<in> set ms. cmp (k n) (k m) \<noteq> 0"
  shows "sorted_wrt (\<lambda>n m. cmp (k n) (k m) < 0) (tree_insert cmp k n ms)"
  using assms(2,3)
proof (induction ms)
  case (Cons m ms)
  show ?case
  proof (cases "cmp (k n) (k m) < 0")
    case True
    with Cons.prems show ?thesis by (auto intro: key_orderD(4) [OF assms(1)] simp: less_imp_le)
  next
    case False
    with Cons.prems(2) have "cmp (k m) (k n) < 0" using key_orderD(1,3) [OF assms(1)] by (smt (verit) list.set_intros(1))
    with False Cons show ?thesis by (auto simp: set_tree_insert)
  qed
qed simp

lemma tree_insert_cong: "(\<And>m. m \<in> insert n (set ms) \<Longrightarrow> k m = k' m) \<Longrightarrow> tree_insert cmp k n ms = tree_insert cmp k' n ms"
  by (induction ms) auto

subsection \<open>The steps keep the invariant\<close>

lemma opnode_get_exact: "txn_opnode_get cmp h key kf flags = (rbt_search cmp h key, kf)"
  if "flags AND (HAM_FIND_LT_MATCH OR HAM_FIND_GT_MATCH) = 0"
proof -
  have z: "flags AND HAM_FIND_LT_MATCH = 0" "flags AND HAM_FIND_GT_MATCH = 0"
    using that by (simp_all add: bit.conj_disj_distrib or_eq_0_iff)
  have "flags AND HAM_FIND_GEQ_MATCH \<noteq> HAM_FIND_GEQ_MATCH" "flags AND HAM_FIND_LEQ_MATCH \<noteq> HAM_FIND_LEQ_MATCH"
  proof -
    have "(flags AND HAM_FIND_GEQ_MATCH) AND HAM_FIND_GT_MATCH = 0" "(flags AND HAM_FIND_LEQ_MATCH) AND HAM_FIND_LT_MATCH = 0"
      using z by (simp_all add: and.assoc and.commute and.left_commute)
    then show "flags AND HAM_FIND_GEQ_MATCH \<noteq> HAM_FIND_GEQ_MATCH" "flags AND HAM_FIND_LEQ_MATCH \<noteq> HAM_FIND_LEQ_MATCH"
      by (auto simp: HAM_FIND_GEQ_MATCH_def HAM_FIND_LEQ_MATCH_def HAM_FIND_GT_MATCH_def HAM_FIND_LT_MATCH_def
          HAM_FIND_EXACT_MATCH_def)
  qed
  with z show ?thesis by (simp add: txn_opnode_get_def Let_def)
qed

lemma get_or_create_node_inv:
  assumes "db_inv cmp h nl ul" and "key_order cmp" and "get_or_create_node cmp h key = (n, created, h1)"
  shows "db_inv cmp h1 (if created then nl(n := []) else nl) ul" "n \<in> set (h_tree h1)"
    "cmp key (on_key (h_nodes h1 n)) = 0"
    "h_ops h1 = h_ops h" "h_txns h1 = h_txns h" "h_txn_alive h1 = h_txn_alive h" "h_cursors h1 = h_cursors h"
    "\<not> created \<Longrightarrow> h1 = h" "created \<Longrightarrow> n \<notin> set (h_tree h) \<and> remove1 n (h_tree h1) = h_tree h"
    "\<And>m. m \<in> set (h_tree h) \<Longrightarrow> h_nodes h1 m = h_nodes h m" "h_op_alive h1 = h_op_alive h" "h_next h \<le> h_next h1"
proof -
  have g: "get_or_create_node cmp h key = (case rbt_search cmp h key of Some n \<Rightarrow> (n, False, h)
      | None \<Rightarrow> (case txn_opnode_create cmp h key of (n, h') \<Rightarrow> (n, True, h')))"
    by (simp add: get_or_create_node_def opnode_get_exact)
  have "db_inv cmp h1 (if created then nl(n := []) else nl) ul \<and> n \<in> set (h_tree h1) \<and>
    cmp key (on_key (h_nodes h1 n)) = 0 \<and>
    h_ops h1 = h_ops h \<and> h_txns h1 = h_txns h \<and> h_txn_alive h1 = h_txn_alive h \<and> h_cursors h1 = h_cursors h \<and>
    (\<not> created \<longrightarrow> h1 = h) \<and> (created \<longrightarrow> n \<notin> set (h_tree h) \<and> remove1 n (h_tree h1) = h_tree h) \<and>
    (\<forall>m \<in> set (h_tree h). h_nodes h1 m = h_nodes h m) \<and> h_op_alive h1 = h_op_alive h \<and> h_next h \<le> h_next h1"
  proof (cases "rbt_search cmp h key")
    case (Some m)
    then have "m \<in> set (h_tree h)" "cmp key (on_key (h_nodes h m)) = 0"
      by (auto simp: rbt_search_def find_Some_iff)
    with Some assms(1,3) g show ?thesis by auto
  next
    case None
    let ?n = "h_next h"
    let ?k = "\<lambda>i. if i = ?n then key else on_key (h_nodes h i)"
    have fresh: "?n \<notin> set (h_tree h)" using assms(1) by (auto simp: db_inv_def)
    have ne: "\<forall>m \<in> set (h_tree h). cmp key (on_key (h_nodes h m)) \<noteq> 0"
      using None by (auto simp: rbt_search_def find_None_iff)
    have c: "created" "n = ?n" "h1 = h\<lparr>h_nodes := (h_nodes h)(?n := \<lparr>on_key = key, on_oldest_op = None, on_newest_op = None\<rparr>),
        h_next := Suc ?n, h_tree := tree_insert cmp ?k ?n (h_tree h)\<rparr>"
      using assms(3) None g by (auto simp: txn_opnode_create_def Let_def if_distrib cong: if_cong)
    have "sorted_wrt (\<lambda>n m. cmp (?k n) (?k m) < 0) (h_tree h)"
      using assms(1) fresh by (auto simp: db_inv_def tree_sorted_def elim!: sorted_wrt_mono_rel [rotated])
    moreover have "\<forall>m \<in> set (h_tree h). cmp (?k ?n) (?k m) \<noteq> 0" using ne fresh by auto
    ultimately have "sorted_wrt (\<lambda>n m. cmp (?k n) (?k m) < 0) (tree_insert cmp ?k ?n (h_tree h))"
      by (rule tree_insert_sorted [OF assms(2)])
    moreover have "on_key (h_nodes h1 i) = ?k i" for i by (simp add: c(3))
    ultimately have srt: "tree_sorted cmp h1" unfolding tree_sorted_def by (simp add: c(3))
    have lk: "next_in_node h1 = next_in_node h" "previous_in_node h1 = previous_in_node h"
      "next_in_txn h1 = next_in_txn h" "previous_in_txn h1 = previous_in_txn h"
      by (simp_all add: c(3) fun_eq_iff next_in_node_def previous_in_node_def next_in_txn_def previous_in_txn_def)
    have same: "isolated h1 os = isolated h os" for os by (rule isolated_cong) (simp_all add: c(3))
    have "db_inv cmp h1 (nl(?n := [])) ul"
      using assms(1) fresh srt same lk unfolding db_inv_def
      by (auto simp: c(3) set_tree_insert heap_fresh_def node_list_def txn_op_list_def)
    moreover have "remove1 ?n (tree_insert cmp ?k ?n (h_tree h)) = h_tree h" by (rule remove1_tree_insert [OF fresh])
    ultimately show ?thesis using c fresh key_orderD(2) [OF assms(2)] by (auto simp: set_tree_insert)
  qed
  then show "db_inv cmp h1 (if created then nl(n := []) else nl) ul" "n \<in> set (h_tree h1)"
    "cmp key (on_key (h_nodes h1 n)) = 0"
    "h_ops h1 = h_ops h" "h_txns h1 = h_txns h" "h_txn_alive h1 = h_txn_alive h" "h_cursors h1 = h_cursors h"
    "\<not> created \<Longrightarrow> h1 = h" "created \<Longrightarrow> n \<notin> set (h_tree h) \<and> remove1 n (h_tree h1) = h_tree h"
    "\<And>m. m \<in> set (h_tree h) \<Longrightarrow> h_nodes h1 m = h_nodes h m" "h_op_alive h1 = h_op_alive h" "h_next h \<le> h_next h1"
    by blast+
qed

text \<open>Changes that leave the lists, the tree and the states of the transactions alone.\<close>

lemma db_inv_frame:
  assumes "db_inv cmp h nl ul" and "h_tree h' = h_tree h" and "\<And>m. m \<in> set (h_tree h) \<Longrightarrow> h_nodes h' m = h_nodes h m"
    and "next_in_node h' = next_in_node h" "previous_in_node h' = previous_in_node h"
    and "next_in_txn h' = next_in_txn h" "previous_in_txn h' = previous_in_txn h"
    and "h_op_alive h' = h_op_alive h" "h_txn_alive h' = h_txn_alive h" "h_txns h' = h_txns h" "h_next h \<le> h_next h'"
    and "\<And>p. to_node (h_ops h' p) = to_node (h_ops h p)" "\<And>p. to_txn (h_ops h' p) = to_txn (h_ops h p)"
  shows "db_inv cmp h' nl ul"
proof -
  have "isolated h' os = isolated h os" for os by (rule isolated_cong) (simp_all add: assms(10,13))
  moreover have "node_list h' n os = node_list h n os" if "n \<in> set (h_tree h)" for n os
    using that by (simp add: node_list_def assms(3-5,8,12))
  moreover have "txn_op_list h' t us = txn_op_list h t us" for t us
    by (simp add: txn_op_list_def assms(6-8,10,13))
  moreover have "tree_sorted cmp h'"
  proof -
    have "sorted_wrt (\<lambda>n m. cmp (on_key (h_nodes h n)) (on_key (h_nodes h m)) < 0) (h_tree h)"
      using assms(1) by (simp add: db_inv_def tree_sorted_def)
    then have "sorted_wrt (\<lambda>n m. cmp (on_key (h_nodes h' n)) (on_key (h_nodes h' m)) < 0) (h_tree h)"
      by (rule sorted_wrt_mono_rel [rotated]) (simp add: assms(3))
    then show ?thesis by (simp add: tree_sorted_def assms(2))
  qed
  moreover have "heap_fresh h'"
    using assms(1,11) by (simp add: db_inv_def heap_fresh_def assms(8,9))
  ultimately show ?thesis using assms(1,11) unfolding db_inv_def assms(2,9)
    by (auto dest: less_le_trans)
qed

lemma append_op_inv:
  assumes "db_inv cmp h nl ul" and "n \<in> set (h_tree h)" and "h_txn_alive h t"
    and "txn_opnode_append h t n orig_flags flags lsn rec = (op, h')"
    and "\<forall>q \<in> set (nl n). \<not> txn_active h (to_txn (h_ops h q)) \<or> to_txn (h_ops h q) = t"
  shows "db_inv cmp h' (nl(n := nl n @ [op])) (ul(t := ul t @ [op]))"
proof -
  have pre: "node_list h n (nl n)" "txn_op_list h t (ul t)" "heap_fresh h"
    using assms(1-3) by (auto simp: db_inv_def)
  note A = txn_opnode_append_lists [OF assms(4) pre]
  note others = txn_opnode_append_others [OF assms(4) pre]
  have cnt: "h_next h' = Suc (h_next h)" "h_txn_alive h' = h_txn_alive h"
    using txn_opnode_append_counters [of h t n orig_flags flags lsn rec] assms(4) by simp_all
  have op: "\<not> h_op_alive h op" using pre(3) A(1) by (auto simp: heap_fresh_def)
  have old: "to_txn (h_ops h' p) = to_txn (h_ops h p)" if "h_op_alive h p" for p
    using A(5) [of p] that op by (cases "p = op") (simp_all add: op_core_eq)
  have iso: "isolated h' os = isolated h os" if "\<forall>p \<in> set os. h_op_alive h p" for os
    by (rule isolated_cong) (use A(12) that old in auto)
  have act: "txn_active h' s = txn_active h s" for s
    using A(12) by (simp add: txn_active_def txn_aborted_def txn_committed_def)
  have mem: "to_txn (h_ops h' q) = to_txn (h_ops h q)" if "q \<in> set (nl n)" for q
    using that pre(1) old by (auto simp: node_list_def)
  have "isolated h' (nl n)" using iso pre(1) assms(1,2) by (auto simp: db_inv_def node_list_def)
  then have isn: "isolated h' (nl n @ [op])"
    using assms(5) A(4) act mem by (auto simp: isolated_append)
  have "tree_sorted cmp h'" using assms(1) A(9,10) by (simp add: db_inv_def tree_sorted_def)
  moreover have "heap_fresh h'" using pre(3) A(1,8) cnt by (auto simp: heap_fresh_def)
  moreover have "m < h_next h' \<and> node_list h' m ((nl(n := nl n @ [op])) m) \<and> isolated h' ((nl(n := nl n @ [op])) m)"
    if "m \<in> set (h_tree h')" for m
    using that assms(1) A(2,9) others(1) cnt isn iso [of "nl m"] unfolding db_inv_def
    by (cases "m = n") (auto simp: node_list_def less_Suc_eq)
  moreover have "txn_op_list h' s ((ul(t := ul t @ [op])) s)" if "h_txn_alive h' s" for s
    using that assms(1) A(3) others(2) cnt unfolding db_inv_def by (cases "s = t") auto
  ultimately show ?thesis unfolding db_inv_def by blast
qed

lemma drop_node_inv:
  assumes "db_inv cmp h nl ul" and "key_order cmp" and "get_or_create_node cmp h key = (n, created, h1)" and "e_heap e = h1"
  shows "db_inv cmp (e_heap (drop_node created n e)) nl ul" "h_tree (e_heap (drop_node created n e)) = h_tree h"
proof -
  note G = get_or_create_node_inv [OF assms(1-3)]
  show t: "h_tree (e_heap (drop_node created n e)) = h_tree h"
    using G(8,9) assms(4) by (cases created) (auto simp: drop_node_def txn_opnode_free_def)
  show "db_inv cmp (e_heap (drop_node created n e)) nl ul"
  proof (cases created)
    case True
    let ?h = "e_heap (drop_node created n e)"
    have h: "?h = h1\<lparr>h_tree := h_tree h\<rparr>" using True t assms(4) by (simp add: drop_node_def txn_opnode_free_def)
    show ?thesis unfolding h
      by (rule db_inv_frame [OF assms(1)])
         (simp_all add: G fun_eq_iff next_in_node_def previous_in_node_def next_in_txn_def previous_in_txn_def)
  next
    case False
    then show ?thesis using assms(1,4) G(8) by (simp add: drop_node_def)
  qed
qed

subsection \<open>Cursors leave the store alone\<close>

text \<open>Everything of an operation but its cursors and its duplicate; everything of the heap but its cursors.\<close>

definition op_content ::
  "txn_op \<Rightarrow> u32 \<times> u32 \<times> nat \<times> nat \<times> nat option \<times> nat option \<times> nat option \<times> nat option \<times> u64 \<times> u64 \<times> ham_record" where
  "op_content x = (to_flags x, to_orig_flags x, to_txn x, to_node x, to_node_next x, to_node_prev x, to_txn_next x,
     to_txn_prev x, to_lsn x, to_other_lsn x, to_record x)"

definition store_same :: "txn_heap \<Rightarrow> txn_heap \<Rightarrow> bool" where
  "store_same h h' \<longleftrightarrow> (\<forall>p. op_content (h_ops h' p) = op_content (h_ops h p)) \<and>
     h_op_alive h' = h_op_alive h \<and> h_nodes h' = h_nodes h \<and> h_txns h' = h_txns h \<and> h_txn_alive h' = h_txn_alive h \<and>
     h_tree h' = h_tree h \<and> h_next h' = h_next h"

lemma store_same_refl [simp]: "store_same h h"
  by (simp add: store_same_def)

lemma store_same_trans: "store_same h h1 \<Longrightarrow> store_same h1 h2 \<Longrightarrow> store_same h h2"
  by (simp add: store_same_def)

lemma store_same_upd [simp]:
  "store_same h (upd_cursor c f h') = store_same h h'"
  "store_same h (upd_op p (\<lambda>x. x\<lparr>to_cursors := q\<rparr>) h') = store_same h h'"
  "store_same h (upd_op p (\<lambda>x. x\<lparr>to_referenced_dupe := i\<rparr>) h') = store_same h h'"
  "store_same h (set_coupled_next c q h') = store_same h h'" "store_same h (set_coupled_previous c q h') = store_same h h'"
  "store_same h (couple_to_btree c h') = store_same h h'"
  by (auto simp: store_same_def op_content_def upd_cursor_def upd_op_def set_coupled_next_def set_coupled_previous_def
      couple_to_btree_def split: if_splits)

lemma store_same_cursor_ops [simp]:
  "store_same h (txn_op_add_cursor h' op c) = store_same h h'"
  "store_same h (txn_op_remove_cursor h' op c) = store_same h h'"
  "store_same h (txn_cursor_set_to_nil h' c) = store_same h h'"
  "store_same h (txn_cursor_couple h' c op) = store_same h h'"
  "store_same h (cursor_set_txn_nil c h') = store_same h h'"
  by (simp_all add: txn_op_add_cursor_def txn_op_remove_cursor_def txn_cursor_set_to_nil_def txn_cursor_couple_def
      cursor_set_txn_nil_def Let_def split: option.split)

lemma store_same_increment: "store_same h (e_heap (increment_dupe_index B node skip start e)) = store_same h (e_heap e)"
proof -
  have "store_same h (fst (fold (increment_dupe_index_step B node skip start) cs (g, b))) = store_same h g" for cs g b
    by (induction cs arbitrary: g b)
       (simp_all add: increment_dupe_index_step_def Let_def split: prod.split if_split)
  from this [of "e_cursors e" "e_heap e" "e_backend e"] show ?thesis
    by (simp add: increment_dupe_index_def case_prod_beta)
qed

lemma db_inv_store_same: "store_same h h' \<Longrightarrow> db_inv cmp h nl ul \<Longrightarrow> db_inv cmp h' nl ul"
  by (rule db_inv_frame)
     (simp_all add: store_same_def op_content_def fun_eq_iff next_in_node_def previous_in_node_def
       next_in_txn_def previous_in_txn_def)

lemma journal_insert_frame [simp]:
  "e_heap (snd (journal_insert dbname txn key rec flags lsn e)) = e_heap e"
  "e_backend (snd (journal_insert dbname txn key rec flags lsn e)) = e_backend e"
  by (simp_all add: journal_insert_def Let_def split: option.split prod.split)

lemma incremented_lsn_frame:
  "env_get_incremented_lsn e = (st, lsn, e') \<Longrightarrow> e_heap e' = e_heap e \<and> e_backend e' = e_backend e \<and>
     e_cursors e' = e_cursors e \<and> e_flags e' = e_flags e"
  by (auto simp: env_get_incremented_lsn_def get_incremented_lsn_def split: option.splits if_splits)

lemma clear_changeset_frame [simp]: "e_heap (clear_changeset B e) = e_heap e" "e_journal (clear_changeset B e) = e_journal e"
  "e_cursors (clear_changeset B e) = e_cursors e" "e_flags (clear_changeset B e) = e_flags e"
  by (simp_all add: clear_changeset_def)

lemma insert_verdict_success:
  assumes "insert_verdict B h b (Some t) key flags (decisive h os) = (HAM_SUCCESS, b')" and "isolated h os" and "q \<in> set os"
  shows "\<not> txn_active h (to_txn (h_ops h q)) \<or> to_txn (h_ops h q) = t"
  using isolated_sole_writer [OF assms(2) _ assms(3)] assms(1)
  by (auto simp: insert_verdict_def Let_def split: option.splits if_splits)

section \<open>Insert and erase\<close>

text \<open>
  What an insert or erase that got past the conflict check leaves behind: one more
  operation, at the end of the lists of its key and of its transaction, and no other active
  transaction among the writers of the key.
\<close>

definition op_recorded ::
  "key_cmp \<Rightarrow> txn_heap \<Rightarrow> txn_heap \<Rightarrow> (nat \<Rightarrow> nat list) \<Rightarrow> (nat \<Rightarrow> nat list) \<Rightarrow> nat \<Rightarrow> byte list \<Rightarrow> nat \<Rightarrow> nat \<Rightarrow> bool" where
  "op_recorded cmp h h' nl ul t key n op \<longleftrightarrow>
     (let os = (if n \<in> set (h_tree h) then nl n else [])
      in n \<in> set (h_tree h') \<and> cmp key (on_key (h_nodes h' n)) = 0 \<and>
         db_inv cmp h' (nl(n := os @ [op])) (ul(t := ul t @ [op])) \<and>
         to_txn (h_ops h' op) = t \<and> to_node (h_ops h' op) = n \<and>
         (\<forall>q \<in> set os. \<not> txn_active h' (to_txn (h_ops h' q)) \<or> to_txn (h_ops h' q) = t) \<and>
         (\<forall>s. tx_flags (h_txns h' s) = tx_flags (h_txns h s)))"

lemma op_recorded_store_same:
  "store_same h1 h2 \<Longrightarrow> op_recorded cmp h h1 nl ul t key n op \<Longrightarrow> op_recorded cmp h h2 nl ul t key n op"
  using db_inv_store_same [of h1 h2]
  by (auto simp: op_recorded_def Let_def store_same_def op_content_def txn_active_def txn_aborted_def txn_committed_def)

lemma append_op_recorded:
  assumes "db_inv cmp h nl ul" and "key_order cmp" and "h_txn_alive h t"
    and "get_or_create_node cmp h key = (n, created, h1)"
    and "txn_opnode_append h1 t n orig_flags flags lsn rec = (op, h2)"
    and "\<forall>q \<in> set (if created then [] else nl n). \<not> txn_active h1 (to_txn (h_ops h1 q)) \<or> to_txn (h_ops h1 q) = t"
  shows "op_recorded cmp h h2 nl ul t key n op" "to_flags (h_ops h2 op) = flags" "to_lsn (h_ops h2 op) = lsn"
    "to_record (h_ops h2 op) = (case rec of None \<Rightarrow> empty_record | Some r \<Rightarrow> r)"
    "h_cursors h2 = h_cursors h"
proof -
  note G = get_or_create_node_inv [OF assms(1,2,4)]
  let ?nl = "if created then nl(n := []) else nl"
  have sel: "?nl n = (if created then [] else nl n)" by simp
  have al: "h_txn_alive h1 t" using assms(3) G(6) by simp
  have "node_list h1 n (?nl n)" "txn_op_list h1 t (ul t)" "heap_fresh h1"
    using G(1,2) al by (auto simp: db_inv_def)
  note A = txn_opnode_append_lists [OF assms(5) this]
  have inv: "db_inv cmp h2 (?nl(n := ?nl n @ [op])) (ul(t := ul t @ [op]))"
    by (rule append_op_inv [OF G(1,2) al assms(5)]) (use assms(6) sel in simp)
  have os: "(if n \<in> set (h_tree h) then nl n else []) = ?nl n"
    using G(2,8,9) by (cases created) auto
  have nl: "?nl(n := ?nl n @ [op]) = nl(n := ?nl n @ [op])" by (cases created) simp_all
  have alive: "h_op_alive h1 q" if "q \<in> set (?nl n)" for q
    using that G(1,2) by (auto simp: db_inv_def node_list_def)
  have mem: "to_txn (h_ops h2 q) = to_txn (h_ops h1 q)" if "q \<in> set (?nl n)" for q
  proof -
    have "q \<noteq> op" using alive [OF that] A(1) G(1) by (auto simp: db_inv_def heap_fresh_def)
    from A(5) [OF this] show ?thesis by (simp add: op_core_eq)
  qed
  have act: "txn_active h2 s = txn_active h1 s" for s
    using A(12) by (simp add: txn_active_def txn_aborted_def txn_committed_def)
  show "op_recorded cmp h h2 nl ul t key n op"
    unfolding op_recorded_def Let_def os
    using inv nl A(4,9,10,12) G(2,3,5) assms(6) sel mem act by auto
  show "to_flags (h_ops h2 op) = flags" "to_lsn (h_ops h2 op) = lsn"
    "to_record (h_ops h2 op) = (case rec of None \<Rightarrow> empty_record | Some r \<Rightarrow> r)" using A(4) by simp_all
  show "h_cursors h2 = h_cursors h"
    using txn_opnode_append_counters(3) [of h1 t n orig_flags flags lsn rec] assms(5) G(7) by simp
qed

definition op_rejected :: "key_cmp \<Rightarrow> txn_heap \<Rightarrow> txn_heap \<Rightarrow> (nat \<Rightarrow> nat list) \<Rightarrow> (nat \<Rightarrow> nat list) \<Rightarrow> bool" where
  "op_rejected cmp h h' nl ul \<longleftrightarrow> db_inv cmp h' nl ul \<and> h_tree h' = h_tree h"

lemma created_node_list:
  assumes "db_inv cmp h nl ul" and "key_order cmp" and "get_or_create_node cmp h key = (n, created, h1)"
  shows "node_list h1 n (if created then [] else nl n)" "isolated h1 (if created then [] else nl n)"
  using get_or_create_node_inv(1,2) [OF assms] unfolding db_inv_def by (cases created; auto)+

lemma db_insert_txn_outcome:
  assumes "db_inv cmp (e_heap e) nl ul" and "key_order cmp" and "h_txn_alive (e_heap e) t"
  shows "\<exists>st e'. db_insert_txn cmp B dbname e t key rec flags cursor = Some (st, e') \<and>
    (st \<noteq> HAM_SUCCESS \<and> op_rejected cmp (e_heap e) (e_heap e') nl ul \<or>
     (\<exists>n op. op_recorded cmp (e_heap e) (e_heap e') nl ul t key n op \<and>
        to_flags (h_ops (e_heap e') op) = insert_op_flags flags \<and> to_record (h_ops (e_heap e') op) = rec))"
proof -
  obtain n created h1 where g: "get_or_create_node cmp (e_heap e) key = (n, created, h1)" by (metis prod_cases3)
  note nl = created_node_list [OF assms(1,2) g]
  let ?os = "if created then [] else nl n"
  obtain st b1 where v: "insert_verdict B h1 (e_backend e) (Some t) key flags (decisive h1 ?os) = (st, b1)"
    by (metis surj_pair)
  have c: "db_check_insert_conflicts B h1 (e_backend e) (Some t) n key flags = Some (st, b1)"
    using insert_walk.decided [OF nl(1), of B "e_backend e" "Some t" key flags] v
    by (simp add: db_check_insert_conflicts_def)
  define e1 where "e1 = clear_changeset B (e\<lparr>e_heap := h1, e_backend := b1\<rparr>)"
  have h1: "e_heap e1 = h1" by (simp add: e1_def)
  have rej: "op_rejected cmp (e_heap e) (e_heap (drop_node created n x)) nl ul" if "e_heap x = h1" for x :: "'a db_env"
    using drop_node_inv [OF assms(1,2) g that] by (simp add: op_rejected_def)
  show ?thesis
  proof (cases "st = HAM_SUCCESS")
    case False
    then show ?thesis using rej [OF h1] by (simp add: db_insert_txn_def g c e1_def [symmetric])
  next
    case True
    obtain st2 lsn e2 where l: "env_get_incremented_lsn e1 = (st2, lsn, e2)" by (metis prod_cases3)
    have h2: "e_heap e2 = h1" using incremented_lsn_frame [OF l] h1 by simp
    show ?thesis
    proof (cases "st2 = HAM_SUCCESS")
      case False
      then show ?thesis using rej [OF h2] True by (simp add: db_insert_txn_def g c e1_def [symmetric] l)
    next
      case ok: True
      obtain op h3 where a: "txn_opnode_append h1 t n flags (insert_op_flags flags) lsn (Some rec) = (op, h3)" by (metis surj_pair)
      have "\<forall>q \<in> set ?os. \<not> txn_active h1 (to_txn (h_ops h1 q)) \<or> to_txn (h_ops h1 q) = t"
        using insert_verdict_success [OF v [unfolded True] nl(2)] by blast
      note R = append_op_recorded [OF assms g a this]
      define e4 where "e4 = (case cursor of None \<Rightarrow> e2\<lparr>e_heap := h3\<rparr> | Some c \<Rightarrow>
         (let idx = tc_dupecache_index (h_cursors h3 c);
              h4 = (if idx \<noteq> 0 then upd_op op (\<lambda>x. x\<lparr>to_referenced_dupe := idx\<rparr>) h3 else h3);
              h5 = txn_cursor_couple (cursor_set_txn_nil c h4) c op
          in increment_dupe_index B n c idx (e2\<lparr>e_heap := h3, e_heap := h5\<rparr>)))"
      have s: "store_same h3 (e_heap e4)"
        by (simp add: e4_def store_same_increment Let_def split: option.split)
      obtain st3 e5 where j: "journal_insert dbname t key rec flags lsn e4 = (st3, e5)" by (metis surj_pair)
      then have e5: "e_heap e5 = e_heap e4" using journal_insert_frame(1) [of dbname t key rec flags lsn e4] by simp
      have "db_insert_txn cmp B dbname e t key rec flags cursor = Some (st3, e5)"
        using True ok j by (simp add: db_insert_txn_def g c e1_def [symmetric] l h2 a Let_def e4_def)
      moreover have "op_recorded cmp (e_heap e) (e_heap e5) nl ul t key n op"
        unfolding e5 by (rule op_recorded_store_same [OF s R(1)])
      moreover have "to_flags (h_ops (e_heap e5) op) = insert_op_flags flags" "to_record (h_ops (e_heap e5) op) = rec"
        using s R(2,4) by (simp_all add: e5 store_same_def op_content_def)
      ultimately show ?thesis by blast
    qed
  qed
qed

subsection \<open>Taking all cursors off a key\<close>

text \<open>\<open>cl\<close> gives the cursors coupled to each operation, in the order of its list.\<close>

definition cursor_lists :: "txn_heap \<Rightarrow> nat set \<Rightarrow> (nat \<Rightarrow> nat list) \<Rightarrow> bool" where
  "cursor_lists h P cl \<longleftrightarrow> (\<forall>p \<in> P. dlist (coupled_next h) (coupled_previous h) (cl p) \<and>
     to_cursors (h_ops h p) = head_of (cl p) \<and> (\<forall>c \<in> set (cl p). tc_op (h_cursors h c) = Some p))"

text \<open>One turn of the loop for a cursor at the head of the list.\<close>

definition nil_head :: "nat \<Rightarrow> txn_heap \<Rightarrow> txn_heap" where
  "nil_head c h = upd_cursor c (\<lambda>x. x\<lparr>tc_lastop := CURSOR_LOOKUP_INSERT\<rparr>) (cursor_set_txn_nil c (couple_to_btree c h))"

lemma nil_head_fields:
  assumes "tc_op (h_cursors h c) = Some p" and "to_cursors (h_ops h p) = Some c"
  shows "to_cursors (h_ops (nil_head c h) p) = coupled_next h c"
    "q \<noteq> p \<Longrightarrow> to_cursors (h_ops (nil_head c h) q) = to_cursors (h_ops h q)"
    "tc_op (h_cursors (nil_head c h) d) = (if d = c then None else tc_op (h_cursors h d))"
    "d \<noteq> c \<Longrightarrow> coupled_next (nil_head c h) d = coupled_next h d"
    "d \<noteq> c \<Longrightarrow> coupled_previous (nil_head c h) d = (if coupled_next h c = Some d then None else coupled_previous h d)"
    "store_same h (nil_head c h)" "to_cursors (h_ops (cursor_set_txn_nil c (couple_to_btree c h)) p) = coupled_next h c"
  using assms
  by (auto simp: nil_head_def cursor_set_txn_nil_def txn_cursor_set_to_nil_def txn_op_remove_cursor_def
      couple_to_btree_def upd_op_def upd_cursor_def set_coupled_next_def set_coupled_previous_def
      coupled_next_def coupled_previous_def Let_def split: option.splits) (simp_all add: store_same_def op_content_def)

lemma nil_head_lists:
  assumes "cursor_lists h P cl" and "p \<in> P" and "cl p = c # cs"
  shows "cursor_lists (nil_head c h) P (cl(p := cs))" "store_same h (nil_head c h)"
    "to_cursors (h_ops (cursor_set_txn_nil c (couple_to_btree c h)) p) = head_of cs"
proof -
  have L: "dlist (coupled_next h) (coupled_previous h) (c # cs)" "to_cursors (h_ops h p) = Some c"
    "\<forall>d \<in> set (c # cs). tc_op (h_cursors h d) = Some p"
    using assms by (auto simp: cursor_lists_def)
  from L(3) have tc: "tc_op (h_cursors h c) = Some p" by simp
  note F = nil_head_fields [OF tc L(2)]
  have nx: "coupled_next h c = head_of cs" using L(1) by (cases cs) (auto simp: dlist_def)
  have mem: "d \<noteq> c" if "q \<in> P" "d \<in> set ((cl(p := cs)) q)" for q d
    using that assms(1,3) tc L(1) by (auto simp: cursor_lists_def dlist_def split: if_splits)
  have "dlist (coupled_next (nil_head c h)) (coupled_previous (nil_head c h)) ((cl(p := cs)) q)" if "q \<in> P" for q
  proof (cases "q = p")
    case True
    have "dlist (coupled_next h) (coupled_previous h) (c # cs)" by (rule L(1))
    then have "chain (coupled_next h) (coupled_previous h) (Some c) cs None" "distinct (c # cs)"
      by (auto simp: dlist_def)
    then have "chain (coupled_next (nil_head c h)) (coupled_previous (nil_head c h)) None cs None"
    proof (cases cs)
      case (Cons d ds)
      then have away: "x \<noteq> c \<and> coupled_next h c \<noteq> Some x" if "x \<in> set ds" for x
        using \<open>distinct (c # cs)\<close> nx that by auto
      have "chain (coupled_next (nil_head c h)) (coupled_previous (nil_head c h)) (Some d) ds None =
          chain (coupled_next h) (coupled_previous h) (Some d) ds None"
        by (intro chain_cong) (simp add: F(4,5) away)
      with Cons \<open>chain _ _ (Some c) cs None\<close> \<open>distinct (c # cs)\<close> F(4,5) nx show ?thesis by auto
    qed simp
    with True \<open>distinct (c # cs)\<close> show ?thesis by (simp add: dlist_def)
  next
    case False
    have "coupled_next h c \<noteq> Some d" if "d \<in> set (cl q)" for d
      using that nx False \<open>q \<in> P\<close> assms(1) L(3) by (cases cs) (auto simp: cursor_lists_def)
    then show ?thesis using False that assms(1) mem [OF that] F(4,5)
      by (subst dlist_cong [of _ _ "coupled_next h" _ "coupled_previous h"]) (auto simp: cursor_lists_def)
  qed
  then show "cursor_lists (nil_head c h) P (cl(p := cs))"
    using assms mem F(1-3) nx unfolding cursor_lists_def by auto
  show "store_same h (nil_head c h)" by (rule F)
  show "to_cursors (h_ops (cursor_set_txn_nil c (couple_to_btree c h)) p) = head_of cs" using F(7) nx by simp
qed

lemma nil_cursors_of_op_all:
  assumes "cursor_lists h P cl" and "p \<in> P"
  shows "\<exists>h'. nil_cursors_of_op None p (head_of (cl p)) h = Some h' \<and> cursor_lists h' P (cl(p := [])) \<and> store_same h h'"
  using assms
proof (induction "cl p" arbitrary: h cl)
  case Nil
  then have "cl(p := []) = cl" by auto
  with Nil show ?case by (subst nil_cursors_of_op.simps) auto
next
  case (Cons c cs)
  note N = nil_head_lists [OF Cons.prems Cons.hyps(2) [symmetric]]
  from Cons.hyps(1) [of "cl(p := cs)", OF _ N(1) Cons.prems(2)] obtain h' where
    "nil_cursors_of_op None p (head_of cs) (nil_head c h) = Some h'" "cursor_lists h' P (cl(p := []))"
    "store_same (nil_head c h) h'" by auto
  moreover have "nil_cursors_of_op None p (head_of (cl p)) h = nil_cursors_of_op None p (head_of cs) (nil_head c h)"
    unfolding Cons.hyps(2) [symmetric]
    by (subst nil_cursors_of_op.simps) (simp add: N(3) nil_head_def [symmetric] Let_def)
  ultimately show ?case using store_same_trans [OF N(2)] by auto
qed

lemma nil_cursors_walk_all:
  assumes "chain nx (previous_in_node h) None os e" and "cursor_lists h P cl" and "set os \<subseteq> P"
  shows "\<exists>h'. nil_cursors_walk None (last_of os) h = Some h' \<and>
    cursor_lists h' P (\<lambda>p. if p \<in> set os then [] else cl p) \<and> store_same h h'"
  using assms
proof (induction os arbitrary: h cl e rule: rev_induct)
  case Nil
  then show ?case by (subst nil_cursors_walk.simps) auto
next
  case (snoc p os)
  then have p: "p \<in> P" "set os \<subseteq> P" by auto
  from nil_cursors_of_op_all [OF snoc.prems(2) p(1)] obtain h1 where
    h1: "nil_cursors_of_op None p (head_of (cl p)) h = Some h1" "cursor_lists h1 P (cl(p := []))" "store_same h h1" by blast
  have pv: "previous_in_node h1 = previous_in_node h"
    using h1(3) by (auto simp: store_same_def op_content_def previous_in_node_def)
  have "to_cursors (h_ops h p) = head_of (cl p)" using snoc.prems(2) p(1) by (simp add: cursor_lists_def)
  with h1(1) chain_snocD [OF snoc.prems(1)] pv
  have step: "nil_cursors_walk None (last_of (os @ [p])) h = nil_cursors_walk None (last_of os) h1"
    by (subst nil_cursors_walk.simps) simp
  have "chain nx (previous_in_node h1) None os (Some p)" using chain_snocD [OF snoc.prems(1)] pv by simp
  from snoc.IH [OF this h1(2) p(2)] obtain h2 where
    "nil_cursors_walk None (last_of os) h1 = Some h2"
    "cursor_lists h2 P (\<lambda>q. if q \<in> set os then [] else (cl(p := [])) q)" "store_same h1 h2" by blast
  moreover have "(\<lambda>q. if q \<in> set os then [] else (cl(p := [])) q) = (\<lambda>q. if q \<in> set (os @ [p]) then [] else cl q)"
    by auto
  ultimately show ?case using step store_same_trans [OF h1(3)] by auto
qed

lemma nil_btree_frame:
  "store_same h (e_heap (nil_all_cursors_in_btree B current key e)) = store_same h (e_heap e)"
proof -
  have step: "store_same h (fst (nil_btree_cursor_step B current key c (g, b))) = store_same h g" for c g b
    by (simp add: nil_btree_cursor_step_def cursor_set_to_nil_def Let_def split: prod.split bool.split)
  have "store_same h (fst (fold (nil_btree_cursor_step B current key) cs (g, b))) = store_same h g" for cs g b
  proof (induction cs arbitrary: g b)
    case (Cons c cs)
    show ?case using Cons step [of c g b] by (cases "nil_btree_cursor_step B current key c (g, b)") simp
  qed simp
  from this [of "e_cursors e" "e_heap e" "e_backend e"] show ?thesis
    by (simp add: nil_all_cursors_in_btree_def case_prod_beta)
qed

lemma journal_erase_frame [simp]: "e_heap (snd (journal_erase dbname txn key flags lsn e)) = e_heap e"
  by (simp add: journal_erase_def Let_def split: option.split prod.split)

lemma erase_verdict_success:
  assumes "erase_verdict B h b (Some t) key flags (decisive h os) = (HAM_SUCCESS, b')" and "isolated h os" and "q \<in> set os"
  shows "\<not> txn_active h (to_txn (h_ops h q)) \<or> to_txn (h_ops h q) = t"
  using isolated_sole_writer [OF assms(2) _ assms(3)] assms(1)
  by (auto simp: erase_verdict_def Let_def split: option.splits if_splits)

lemma append_then_nil:
  assumes "db_inv cmp h nl ul" and "key_order cmp" and "h_txn_alive h t"
    and "cursor_lists h {p. h_op_alive h p} cl"
    and "get_or_create_node cmp h key = (n, created, h1)"
    and "txn_opnode_append h1 t n orig_flags flags lsn rec = (op, h2)" and "op_recorded cmp h h2 nl ul t key n op"
  shows "\<exists>h3. nil_all_cursors_in_node None n h2 = Some h3 \<and> store_same h2 h3"
proof -
  note G = get_or_create_node_inv [OF assms(1,2,5)]
  let ?P = "insert op {p. h_op_alive h p}"
  have cur: "h_cursors h2 = h_cursors h" "\<And>q. to_cursors (h_ops h2 q) = (if q = op then None else to_cursors (h_ops h q))"
    using txn_opnode_append_counters(3,4) [of h1 t n orig_flags flags lsn rec] assms(6) G(4,7)
    by (auto simp: txn_opnode_append_def Let_def)
  have cl: "cursor_lists h2 ?P (cl(op := []))"
    using assms(4) by (auto simp: cursor_lists_def cur coupled_next_def [abs_def] coupled_previous_def [abs_def])
  define os where "os = (if n \<in> set (h_tree h) then nl n else [])"
  have "db_inv cmp h2 (nl(n := os @ [op])) (ul(t := ul t @ [op]))" "n \<in> set (h_tree h2)"
    using assms(7) by (simp_all add: op_recorded_def Let_def os_def)
  then have "node_list h2 n (os @ [op])" by (auto simp: db_inv_def)
  then have l: "chain (next_in_node h2) (previous_in_node h2) None (os @ [op]) None"
    "on_newest_op (h_nodes h2 n) = last_of (os @ [op])" by (simp_all add: node_list_def dlist_def)
  have "set (os @ [op]) \<subseteq> ?P" using assms(1) unfolding os_def by (auto simp: db_inv_def node_list_def)
  from nil_cursors_walk_all [OF l(1) cl this] show ?thesis
    unfolding nil_all_cursors_in_node_def l(2) by blast
qed

lemma db_erase_txn_outcome:
  assumes "db_inv cmp (e_heap e) nl ul" and "key_order cmp" and "h_txn_alive (e_heap e) t"
    and "cursor_lists (e_heap e) {p. h_op_alive (e_heap e) p} cl"
  shows "\<exists>st e'. db_erase_txn cmp B dbname e t key flags None = Some (st, e') \<and>
    (st \<noteq> HAM_SUCCESS \<and> op_rejected cmp (e_heap e) (e_heap e') nl ul \<or>
     (\<exists>n op. op_recorded cmp (e_heap e) (e_heap e') nl ul t key n op \<and> to_flags (h_ops (e_heap e') op) = TXN_OP_ERASE))"
proof -
  obtain n created h1 where g: "get_or_create_node cmp (e_heap e) key = (n, created, h1)" by (metis prod_cases3)
  note nl = created_node_list [OF assms(1,2) g]
  let ?os = "if created then [] else nl n"
  obtain st b1 where v: "erase_verdict B h1 (e_backend e) (Some t) key flags (decisive h1 ?os) = (st, b1)"
    by (metis surj_pair)
  have c: "db_check_erase_conflicts B h1 (e_backend e) (Some t) n key flags = Some (st, b1)"
    using erase_walk.decided [OF nl(1), of B "e_backend e" "Some t" key flags] v
    by (simp add: db_check_erase_conflicts_def)
  define e1 where "e1 = clear_changeset B (e\<lparr>e_heap := h1, e_backend := b1\<rparr>)"
  have h1: "e_heap e1 = h1" by (simp add: e1_def)
  have rej: "op_rejected cmp (e_heap e) (e_heap (drop_node created n x)) nl ul" if "e_heap x = h1" for x :: "'a db_env"
    using drop_node_inv [OF assms(1,2) g that] by (simp add: op_rejected_def)
  show ?thesis
  proof (cases "st = HAM_SUCCESS")
    case False
    then show ?thesis using rej [OF h1] by (simp add: db_erase_txn_def g c e1_def [symmetric])
  next
    case True
    obtain st2 lsn e2 where l: "env_get_incremented_lsn e1 = (st2, lsn, e2)" by (metis prod_cases3)
    have h2: "e_heap e2 = h1" using incremented_lsn_frame [OF l] h1 by simp
    show ?thesis
    proof (cases "st2 = HAM_SUCCESS")
      case False
      then show ?thesis using rej [OF h2] True by (simp add: db_erase_txn_def g c e1_def [symmetric] l)
    next
      case ok: True
      obtain op h3 where a: "txn_opnode_append h1 t n flags TXN_OP_ERASE lsn None = (op, h3)" by (metis surj_pair)
      have "\<forall>q \<in> set ?os. \<not> txn_active h1 (to_txn (h_ops h1 q)) \<or> to_txn (h_ops h1 q) = t"
        using erase_verdict_success [OF v [unfolded True] nl(2)] by blast
      note R = append_op_recorded [OF assms(1-3) g a this]
      obtain h5 where h5: "nil_all_cursors_in_node None n h3 = Some h5" "store_same h3 h5"
        using append_then_nil [OF assms g a R(1)] by blast
      define e4 where "e4 = nil_all_cursors_in_btree B None (on_key (h_nodes h5 n)) (e2\<lparr>e_heap := h5\<rparr>)"
      have s: "store_same h3 (e_heap e4)" using h5(2) by (simp add: e4_def nil_btree_frame)
      obtain st3 e5 where j: "journal_erase dbname t key flags lsn e4 = (st3, e5)" by (metis surj_pair)
      then have e5: "e_heap e5 = e_heap e4" using journal_erase_frame [of dbname t key flags lsn e4] by simp
      have "db_erase_txn cmp B dbname e t key flags None = Some (st3, e5)"
        using True ok j by (simp add: db_erase_txn_def g c e1_def [symmetric] l h2 a h5(1) e4_def [symmetric])
      moreover have "op_recorded cmp (e_heap e) (e_heap e5) nl ul t key n op"
        unfolding e5 by (rule op_recorded_store_same [OF s R(1)])
      moreover have "to_flags (h_ops (e_heap e5) op) = TXN_OP_ERASE"
        using s R(2) by (simp add: e5 store_same_def op_content_def)
      ultimately show ?thesis by blast
    qed
  qed
qed

subsection \<open>Looking up what was written\<close>

lemma rbt_search_unique:
  assumes "key_order cmp" and "tree_sorted cmp h" and "n \<in> set (h_tree h)" and "cmp key (on_key (h_nodes h n)) = 0"
  shows "rbt_search cmp h key = Some n"
proof -
  let ?k = "\<lambda>i. on_key (h_nodes h i)"
  from assms(3,4) have "rbt_search cmp h key \<noteq> None" by (auto simp: rbt_search_def find_None_iff)
  then obtain m where m: "rbt_search cmp h key = Some m" by blast
  then have mm: "m \<in> set (h_tree h)" "cmp key (?k m) = 0" by (auto simp: rbt_search_def find_Some_iff)
  have "m = n"
  proof (rule ccontr)
    assume "m \<noteq> n"
    with assms(2,3) mm(1) have "cmp (?k m) (?k n) < 0 \<or> cmp (?k n) (?k m) < 0"
      unfolding tree_sorted_def sorted_wrt_iff_nth_less by (metis in_set_conv_nth linorder_neqE_nat)
    moreover have "cmp key (?k n) < 0" if "cmp (?k m) (?k n) < 0"
      using key_orderD(5) [OF assms(1), of key "?k m" "?k n"] mm(2) that by simp
    moreover have "cmp key (?k m) < 0" if "cmp (?k n) (?k m) < 0"
      using key_orderD(5) [OF assms(1), of key "?k n" "?k m"] assms(4) that by simp
    ultimately show False using mm(2) assms(4) by auto
  qed
  with m show ?thesis by simp
qed

lemma exact_flags_id:
  "flags AND (HAM_FIND_LT_MATCH OR HAM_FIND_GT_MATCH) = 0 \<Longrightarrow> exact_flags flags = flags"
proof -
  assume a: "flags AND (HAM_FIND_LT_MATCH OR HAM_FIND_GT_MATCH) = 0"
  have "flags = (flags AND (HAM_FIND_LT_MATCH OR HAM_FIND_GT_MATCH)) OR exact_flags flags"
    unfolding exact_flags_def by (rule bit_word_eqI) (auto simp: bit_simps)
  with a show ?thesis by simp
qed

text \<open>The walk of an exact lookup does not touch the internal flags of the key.\<close>

interpretation exact_walk_flags: node_walk h
  "\<lambda>op. map_option (\<lambda>r. fst (snd r)) (find_walk h txn (exact_flags flags) node op (kf AND NOT KEY_IS_APPROXIMATE) True False)"
  "\<lambda>_. kf AND NOT KEY_IS_APPROXIMATE"
  for h txn flags node kf
  by unfold_locales (subst find_walk.simps; auto simp: Let_def)+

text \<open>An exact lookup of a key that has a node is decided by the operations of the node.\<close>

lemma db_find_txn_decided:
  assumes "db_inv cmp h nl ul" and "key_order cmp" and "n \<in> set (h_tree h)" and "cmp key (on_key (h_nodes h n)) = 0"
    and "flags AND (HAM_FIND_LT_MATCH OR HAM_FIND_GT_MATCH) = 0"
  shows "db_find_txn cmp B h txn key kf flags b =
    Some (case find_verdict h txn (decisive h (nl n)) of
       WalkReturn st \<Rightarrow> (FindReturn st key (kf AND NOT KEY_IS_APPROXIMATE) None, b)
     | WalkRecord p \<Rightarrow> (FindReturn HAM_SUCCESS key (kf AND NOT KEY_IS_APPROXIMATE) (Some (to_record (h_ops h p))), b)
     | _ \<Rightarrow> find_btree B key (kf AND NOT KEY_IS_APPROXIMATE) flags b)"
proof -
  have n: "node_list h n (nl n)" "rbt_search cmp h key = Some n"
    using assms(1,3) rbt_search_unique [OF assms(2) _ assms(3,4)] by (auto simp: db_inv_def)
  obtain er kf' where w: "find_walk h txn flags (Some n) (on_newest_op (h_nodes h n)) (kf AND NOT KEY_IS_APPROXIMATE) True False =
      Some (find_verdict h txn (decisive h (nl n)), kf', er)"
    using exact_walk.decided [OF n(1), of txn flags "Some n" kf] exact_flags_id [OF assms(5)] by auto
  have "kf' = kf AND NOT KEY_IS_APPROXIMATE"
    using exact_walk_flags.decided [OF n(1), of txn flags "Some n" kf] exact_flags_id [OF assms(5)] w by simp
  moreover have "find_verdict h txn d \<noteq> WalkFault" "find_verdict h txn d \<noteq> WalkBtree (Some p)" for d p
    by (auto simp: find_verdict_def split: option.split)
  ultimately show ?thesis using w
    by (subst db_find_txn.simps)
       (auto simp: opnode_get_exact [OF assms(5)] n(2) split: walk_end.split option.split)
qed

lemma insert_flags_insert:
  assumes "to_flags (h_ops h p) = insert_op_flags flags"
  shows "op_is_insert h p" "\<not> op_is h p TXN_OP_ERASE"
proof -
  have z: "(flags AND 128) AND 524288 = 0" by (simp add: and.assoc)
  show "op_is_insert h p" "\<not> op_is h p TXN_OP_ERASE"
    unfolding op_is_insert_def op_is_def assms insert_op_flags_def
    by (auto simp: bit.conj_disj_distrib2 z HAM_PARTIAL_def TXN_OP_INSERT_def TXN_OP_INSERT_OW_def TXN_OP_INSERT_DUP_def
        TXN_OP_ERASE_def)
qed

section \<open>Theorems\<close>

text \<open>
  C34. Conflict checks end and are decided by one operation. For a key whose operations form
  a well-formed list, both checks return what the newest operation of a transaction that
  was not aborted says: a conflict if its transaction is another active one; for an insert,
  success after an erase, and after an insert only if the caller overwrites or adds a
  duplicate; for an erase, a missing key after an erase. Only if there is no such operation
  is the B+tree asked.
\<close>

theorem conflict_checks_decided:
  assumes "node_list h n os"
  shows "db_check_insert_conflicts B h b txn n key flags = Some (insert_verdict B h b txn key flags (decisive h os)) \<and>
    db_check_erase_conflicts B h b txn n key flags = Some (erase_verdict B h b txn key flags (decisive h os))"
  using insert_walk.decided [OF assms, of B b txn key flags] erase_walk.decided [OF assms, of B b txn key flags]
  by (simp add: db_check_insert_conflicts_def db_check_erase_conflicts_def)

theorem conflict_checks_decided_witness:
  "db_check_insert_conflicts sample_backend sample_heap [] (Some 0) 2 [65] 0 = Some (HAM_TXN_CONFLICT, []) \<and>
   db_check_insert_conflicts sample_backend sample_heap [] (Some 1) 2 [65] 0 = Some (HAM_DUPLICATE_KEY, [])"
proof -
  have d: "decisive sample_heap [3, 4] = Some 4"
    unfolding decisive_def
    by (simp add: txn_aborted_def sample_heap_def sample_op_def sample_txn_def TXN_STATE_ABORTED_def)
  have v: "visible_to sample_heap (Some t) 4 \<longleftrightarrow> t = 1" "op_is sample_heap 4 TXN_OP_ERASE = False" for t
    by (simp_all add: visible_to_def txn_committed_def op_is_def sample_heap_def sample_op_def sample_txn_def
        TXN_STATE_COMMITTED_def TXN_OP_ERASE_def TXN_OP_INSERT_def)
  from conflict_checks_decided [OF sample_heap_rep(2), of sample_backend "[]" "Some 0" "[65]" 0]
    conflict_checks_decided [OF sample_heap_rep(2), of sample_backend "[]" "Some 1" "[65]" 0] show ?thesis
    by (simp add: d insert_verdict_def v)
qed

text \<open>
  C8. A key has at most one active writer. From a state that satisfies the invariant, an
  insert under a live transaction, with or without a cursor, returns and keeps the
  invariant; the lists of all other keys and transactions are as before. Either it is
  rejected with an error and the tree and every list are unchanged, or it recorded one
  operation with the record, at the end of the list of its key, and no other active
  transaction has an operation on this key.
\<close>

theorem insert_keeps_writers_isolated:
  assumes "db_inv cmp (e_heap e) nl ul" and "key_order cmp" and "h_txn_alive (e_heap e) t"
  shows "\<exists>st e'. db_insert_txn cmp B dbname e t key rec flags cursor = Some (st, e') \<and>
    (st \<noteq> HAM_SUCCESS \<and> op_rejected cmp (e_heap e) (e_heap e') nl ul \<or>
     (\<exists>n op. op_recorded cmp (e_heap e) (e_heap e') nl ul t key n op \<and>
        to_flags (h_ops (e_heap e') op) = insert_op_flags flags \<and> to_record (h_ops (e_heap e') op) = rec))"
  by (rule db_insert_txn_outcome [OF assms])

definition sample_env :: "byte list list db_env" where
  "sample_env = \<lparr>e_flags = 0, e_heap = sample_heap, e_journal = Some jrn_new, e_backend = [], e_cursors = []\<rparr>"

lemma sample_env_inv:
  "db_inv db_default_compare (e_heap sample_env) (\<lambda>_. [3, 4]) (\<lambda>t. [t + 3])" "h_txn_alive (e_heap sample_env) 1"
proof -
  have t: "txn_op_list sample_heap s [s + 3]" if "h_txn_alive sample_heap s" for s
    using that sample_heap_rep(1) by (auto simp: txn_rep_def sample_heap_def le_Suc_eq)
  have "isolated sample_heap [3, 4]"
    by (simp add: txn_active_def txn_committed_def sample_heap_def sample_op_def sample_txn_def TXN_STATE_COMMITTED_def)
  moreover have "h_tree sample_heap = [2]" "h_next sample_heap = 5" "heap_fresh sample_heap"
    by (simp_all add: sample_heap_def heap_fresh_def)
  ultimately show "db_inv db_default_compare (e_heap sample_env) (\<lambda>_. [3, 4]) (\<lambda>t. [t + 3])"
    using sample_heap_rep(2) t by (simp add: db_inv_def tree_sorted_def sample_env_def)
  show "h_txn_alive (e_heap sample_env) 1" by (simp add: sample_env_def sample_heap_def)
qed

theorem insert_keeps_writers_isolated_witness:
  "\<exists>st e'. db_insert_txn db_default_compare sample_backend 1 sample_env 1 [65] empty_record HAM_OVERWRITE None = Some (st, e') \<and>
    (\<exists>nl ul. db_inv db_default_compare (e_heap e') nl ul)"
  using insert_keeps_writers_isolated [OF sample_env_inv(1) key_order_default sample_env_inv(2),
      of sample_backend 1 "[65]" empty_record HAM_OVERWRITE None]
  by (auto simp: op_rejected_def op_recorded_def Let_def)

text \<open>
  C31. Erasing keeps the invariant, too: an erase that is not made through a cursor returns,
  however many cursors are coupled to the operations of the key, and is either rejected
  with everything unchanged or recorded as the newest operation of its key, with no other
  active writer.
\<close>

theorem erase_keeps_writers_isolated:
  assumes "db_inv cmp (e_heap e) nl ul" and "key_order cmp" and "h_txn_alive (e_heap e) t"
    and "cursor_lists (e_heap e) {p. h_op_alive (e_heap e) p} cl"
  shows "\<exists>st e'. db_erase_txn cmp B dbname e t key flags None = Some (st, e') \<and>
    (st \<noteq> HAM_SUCCESS \<and> op_rejected cmp (e_heap e) (e_heap e') nl ul \<or>
     (\<exists>n op. op_recorded cmp (e_heap e) (e_heap e') nl ul t key n op \<and> to_flags (h_ops (e_heap e') op) = TXN_OP_ERASE))"
  by (rule db_erase_txn_outcome [OF assms])

lemma sample_cursors: "cursor_lists (e_heap sample_env) {p. h_op_alive (e_heap sample_env) p} (\<lambda>_. [])"
  by (simp add: cursor_lists_def sample_env_def sample_heap_def sample_op_def)

theorem erase_keeps_writers_isolated_witness:
  "\<exists>st e'. db_erase_txn db_default_compare sample_backend 1 sample_env 1 [65] 0 None = Some (st, e') \<and>
    (\<exists>nl ul. db_inv db_default_compare (e_heap e') nl ul)"
  using erase_keeps_writers_isolated [OF sample_env_inv(1) key_order_default sample_env_inv(2) sample_cursors,
      of sample_backend 1 "[65]" 0]
  by (auto simp: op_rejected_def op_recorded_def Let_def)

text \<open>
  C11. A transaction reads its own writes, and nobody else does. After an insert under a
  transaction that is still active recorded its operation, an exact lookup under the same
  transaction returns the inserted record without asking the B+tree; under any other
  transaction, or none, it fails with a conflict.
\<close>

theorem insert_then_find:
  assumes "db_inv cmp (e_heap e) nl ul" and "key_order cmp" and "h_txn_alive (e_heap e) t"
    and "txn_active (e_heap e) t" and "db_insert_txn cmp B dbname e t key rec flags cursor = Some (HAM_SUCCESS, e')"
    and "fflags AND (HAM_FIND_LT_MATCH OR HAM_FIND_GT_MATCH) = 0"
  shows "db_find_txn cmp B (e_heap e') (Some t) key kf fflags b =
      Some (FindReturn HAM_SUCCESS key (kf AND NOT KEY_IS_APPROXIMATE) (Some rec), b) \<and>
    (s \<noteq> Some t \<longrightarrow> db_find_txn cmp B (e_heap e') s key kf fflags b =
      Some (FindReturn HAM_TXN_CONFLICT key (kf AND NOT KEY_IS_APPROXIMATE) None, b))"
proof -
  let ?h = "e_heap e'"
  from db_insert_txn_outcome [OF assms(1-3), of B dbname key rec flags cursor] assms(5) obtain n op where
    r: "op_recorded cmp (e_heap e) ?h nl ul t key n op" "to_flags (h_ops ?h op) = insert_op_flags flags"
      "to_record (h_ops ?h op) = rec" by auto
  define os where "os = (if n \<in> set (h_tree (e_heap e)) then nl n else [])"
  have R: "n \<in> set (h_tree ?h)" "cmp key (on_key (h_nodes ?h n)) = 0" "to_txn (h_ops ?h op) = t"
    "db_inv cmp ?h (nl(n := os @ [op])) (ul(t := ul t @ [op]))" "tx_flags (h_txns ?h t) = tx_flags (h_txns (e_heap e) t)"
    using r(1) by (simp_all add: op_recorded_def Let_def os_def)
  have act: "\<not> txn_aborted ?h t" "\<not> txn_committed ?h t"
    using assms(4) R(5) by (simp_all add: txn_active_def txn_aborted_def txn_committed_def)
  then have d: "decisive ?h ((nl(n := os @ [op])) n) = Some op" using R(3) by (simp add: decisive_snoc)
  have "visible_to ?h x op \<longleftrightarrow> x = Some t" for x using act R(3) by (auto simp: visible_to_def)
  with insert_flags_insert [OF r(2)] have v: "find_verdict ?h (Some t) (Some op) = WalkRecord op"
    "s \<noteq> Some t \<Longrightarrow> find_verdict ?h s (Some op) = WalkReturn HAM_TXN_CONFLICT" by (simp_all add: find_verdict_def)
  show ?thesis
    unfolding db_find_txn_decided [OF R(4) assms(2) R(1,2) assms(6)] d using v r(3) by auto
qed

text \<open>A fresh environment with one transaction, without recovery.\<close>

definition sample_heap0 :: txn_heap where
  "sample_heap0 = sample_heap\<lparr>h_op_alive := (\<lambda>_. False), h_txns := (\<lambda>_. sample_txn 0 None None None),
     h_txn_alive := (\<lambda>t. t = 1), h_tree := [], h_oldest_txn := Some 1, h_newest_txn := Some 1\<rparr>"

definition sample_env0 :: "byte list list db_env" where
  "sample_env0 = sample_env\<lparr>e_heap := sample_heap0\<rparr>"

lemma sample_env0_inv:
  "db_inv db_default_compare (e_heap sample_env0) (\<lambda>_. []) (\<lambda>_. [])" "h_txn_alive (e_heap sample_env0) 1"
  "txn_active (e_heap sample_env0) 1"
  by (simp_all add: sample_env0_def sample_heap0_def sample_env_def sample_heap_def db_inv_def heap_fresh_def tree_sorted_def
      txn_op_list_def sample_txn_def txn_active_def txn_aborted_def txn_committed_def)

lemma sample_insert:
  "\<exists>e'. db_insert_txn db_default_compare sample_backend 1 sample_env0 1 [66] (empty_record\<lparr>rec_data := [7]\<rparr>) 0 None = Some (HAM_SUCCESS, e')"
proof -
  have g: "get_or_create_node db_default_compare sample_heap0 [66] = (5, True, snd (txn_opnode_create db_default_compare sample_heap0 [66]))"
    by (simp add: get_or_create_node_def opnode_get_exact rbt_search_def sample_heap0_def txn_opnode_create_def Let_def sample_heap_def)
  have n: "on_newest_op (h_nodes (snd (txn_opnode_create db_default_compare sample_heap0 [66])) 5) = None"
    by (simp add: txn_opnode_create_def sample_heap0_def Let_def sample_heap_def)
  have c: "check_insert_walk sample_backend h [] t [66] 0 None = Some (HAM_SUCCESS, [])" for h t
    by (subst check_insert_walk.simps) (simp add: sample_backend_def)
  show ?thesis
    by (simp add: db_insert_txn_def sample_env0_def sample_env_def g db_check_insert_conflicts_def n c clear_changeset_def
        env_get_incremented_lsn_def jrn_new_def get_incremented_lsn_def journal_insert_def e_recovery_def case_prod_beta)
qed

theorem insert_then_find_witness:
  "\<exists>e'. db_insert_txn db_default_compare sample_backend 1 sample_env0 1 [66] (empty_record\<lparr>rec_data := [7]\<rparr>) 0 None = Some (HAM_SUCCESS, e') \<and>
    db_find_txn db_default_compare sample_backend (e_heap e') (Some 1) [66] 0 0 [] =
      Some (FindReturn HAM_SUCCESS [66] 0 (Some (empty_record\<lparr>rec_data := [7]\<rparr>)), [])"
proof -
  obtain e' where e: "db_insert_txn db_default_compare sample_backend 1 sample_env0 1 [66] (empty_record\<lparr>rec_data := [7]\<rparr>) 0 None =
      Some (HAM_SUCCESS, e')" using sample_insert by blast
  from insert_then_find [OF sample_env0_inv(1) key_order_default sample_env0_inv(2,3) e, of 0 0 "[]"] e show ?thesis by auto
qed

text \<open>
  C40. An approximate lookup can follow a null pointer, in both directions. If the newest operation
  of the first node it looks at is an erase that the transaction sees, and there is no further
  node in the direction of the search (the previous one if smaller keys are asked for, else the
  next one), then the loop of \<open>db_find_txn\<close> is entered again with
  the same operation but without a node, and asks for the sibling of that node.
\<close>

theorem approximate_find_faults:
  assumes "txn_opnode_get cmp h key (kf AND NOT KEY_IS_APPROXIMATE) flags = (Some n, kf1)"
    and "on_newest_op (h_nodes h n) = Some p" and "\<not> txn_aborted h (to_txn (h_ops h p))" and "visible_to h txn p"
    and "op_is h p TXN_OP_ERASE"
    and "flags AND HAM_FIND_LT_MATCH \<noteq> 0 \<and> txn_opnode_get_previous_sibling h n = None \<or>
      flags AND HAM_FIND_LT_MATCH = 0 \<and> flags AND HAM_FIND_GT_MATCH \<noteq> 0 \<and> txn_opnode_get_next_sibling h n = None"
  shows "db_find_txn cmp B h txn key kf flags b = Some (FindFault, b)"
proof -
  have f: "flags AND (HAM_FIND_LT_MATCH OR HAM_FIND_GT_MATCH) \<noteq> 0"
    using assms(6) by (auto simp: bit.conj_disj_distrib or_eq_0_iff)
  have v: "txn_committed h (to_txn (h_ops h p)) \<or> txn = Some (to_txn (h_ops h p))" using assms(4) by (simp add: visible_to_def)
  have second: "find_walk h txn flags None (Some p) k False er = Some (WalkFault, k, er)" for k er
    using assms(3,5) v f by (subst find_walk.simps) (simp add: Let_def)
  have "\<exists>k er. find_walk h txn flags (Some n) (Some p) kf1 True False = Some (WalkFault, k, er)"
    using assms(3,5,6) v f second by (subst find_walk.simps) (auto simp: Let_def)
  then show ?thesis using assms(1,2) by (subst db_find_txn.simps) auto
qed

text \<open>One key, erased by the active transaction 1.\<close>

definition sample_heap_erased :: txn_heap where
  "sample_heap_erased = sample_heap\<lparr>h_ops := (\<lambda>_. (sample_op 1 2 None None)\<lparr>to_flags := TXN_OP_ERASE\<rparr>)\<rparr>"

lemma sample_heap_erased_props:
  "on_newest_op (h_nodes sample_heap_erased 2) = Some 4" "\<not> txn_aborted sample_heap_erased (to_txn (h_ops sample_heap_erased 4))"
  "visible_to sample_heap_erased (Some 1) 4" "op_is sample_heap_erased 4 TXN_OP_ERASE"
  "txn_opnode_get_previous_sibling sample_heap_erased 2 = None" "txn_opnode_get_next_sibling sample_heap_erased 2 = None"
  by (simp_all add: sample_heap_erased_def sample_heap_def sample_op_def sample_txn_def txn_aborted_def visible_to_def op_is_def
      TXN_OP_ERASE_def txn_opnode_get_next_sibling_def txn_opnode_get_previous_sibling_def)

lemmas find_flag_defs = HAM_FIND_GEQ_MATCH_def HAM_FIND_LEQ_MATCH_def HAM_FIND_LT_MATCH_def HAM_FIND_GT_MATCH_def HAM_FIND_EXACT_MATCH_def

theorem approximate_find_faults_witness:
  "db_find_txn db_default_compare sample_backend sample_heap_erased (Some 1) [65] 0 HAM_FIND_GEQ_MATCH [] = Some (FindFault, []) \<and>
   db_find_txn db_default_compare sample_backend sample_heap_erased (Some 1) [65] 0 HAM_FIND_LEQ_MATCH [] = Some (FindFault, [])"
proof
  note F = approximate_find_faults [OF _ sample_heap_erased_props(1-4)]
  have "txn_opnode_get db_default_compare sample_heap_erased [65] (0 AND NOT KEY_IS_APPROXIMATE) HAM_FIND_GEQ_MATCH = (Some 2, 0)"
    by (simp add: txn_opnode_get_def rbt_nsearch_def sample_heap_erased_def sample_heap_def default_compare_lex)
  then show "db_find_txn db_default_compare sample_backend sample_heap_erased (Some 1) [65] 0 HAM_FIND_GEQ_MATCH [] = Some (FindFault, [])"
    by (rule F) (simp add: sample_heap_erased_props find_flag_defs)
  have "txn_opnode_get db_default_compare sample_heap_erased [65] (0 AND NOT KEY_IS_APPROXIMATE) HAM_FIND_LEQ_MATCH = (Some 2, 0)"
    by (simp add: txn_opnode_get_def rbt_psearch_def sample_heap_erased_def sample_heap_def default_compare_lex find_flag_defs)
  then show "db_find_txn db_default_compare sample_backend sample_heap_erased (Some 1) [65] 0 HAM_FIND_LEQ_MATCH [] = Some (FindFault, [])"
    by (rule F) (simp add: sample_heap_erased_props find_flag_defs)
qed

text \<open>
  An approximate match that only the transaction has comes back under the wrong name. If
  the closest key in the transaction tree is an inserted one and the B+tree finds nothing
  (and, as for every failed search, leaves the key of the caller alone), \<open>db_find_txn\<close> reports
  success with the record of the match, but the key still holds the bytes that were searched
  for; the key that was found is lost.
\<close>

theorem approximate_find_keeps_searched_key:
  assumes "txn_opnode_get cmp h key (kf AND NOT KEY_IS_APPROXIMATE) flags = (Some n, kf1)" and "kf1 AND KEY_IS_APPROXIMATE \<noteq> 0"
    and "on_newest_op (h_nodes h n) = Some p" and "\<not> txn_aborted h (to_txn (h_ops h p))" and "visible_to h txn p"
    and "op_is_insert h p" and "\<not> op_is h p TXN_OP_ERASE"
    and "bk_find B key 0 flags b = (HAM_KEY_NOT_FOUND, (key, 0, r), b')"
  shows "db_find_txn cmp B h txn key kf flags b =
    Some (FindReturn HAM_SUCCESS key KEY_IS_APPROXIMATE (Some (to_record (h_ops h p))), b')"
proof -
  have v: "txn_committed h (to_txn (h_ops h p)) \<or> txn = Some (to_txn (h_ops h p))" using assms(5) by (simp add: visible_to_def)
  have "find_walk h txn flags (Some n) (Some p) kf1 True False = Some (WalkBtree (Some p), kf1, False)"
    using assms(2,4,6,7) v by (subst find_walk.simps) (simp add: Let_def)
  then show ?thesis using assms(1,3,8) by (subst db_find_txn.simps) (simp add: Let_def)
qed

theorem approximate_find_keeps_searched_key_witness:
  "db_find_txn db_default_compare sample_backend sample_heap (Some 1) [60] 0 HAM_FIND_GEQ_MATCH [] =
    Some (FindReturn HAM_SUCCESS [60] KEY_IS_APPROXIMATE (Some empty_record), []) \<and> on_key (h_nodes sample_heap 2) = [65]"
proof -
  have g: "txn_opnode_get db_default_compare sample_heap [60] (0 AND NOT KEY_IS_APPROXIMATE) HAM_FIND_GEQ_MATCH = (Some 2, KEY_IS_LT)"
    by (simp add: txn_opnode_get_def rbt_nsearch_def sample_heap_def default_compare_lex)
  have "db_find_txn db_default_compare sample_backend sample_heap (Some 1) [60] 0 HAM_FIND_GEQ_MATCH [] =
    Some (FindReturn HAM_SUCCESS [60] KEY_IS_APPROXIMATE (Some (to_record (h_ops sample_heap 4))), [])"
    by (rule approximate_find_keeps_searched_key [OF g, where r = empty_record])
       (simp_all add: sample_heap_def sample_op_def sample_txn_def txn_aborted_def visible_to_def op_is_def op_is_insert_def
         TXN_OP_ERASE_def TXN_OP_INSERT_def KEY_IS_LT_def KEY_IS_APPROXIMATE_def KEY_IS_GT_def sample_backend_def)
  then show ?thesis by (simp add: sample_heap_def sample_op_def)
qed

end
