(* ===== verification/Ham_Blob.thy ===== *)
theory Ham_Blob
  imports Ham_Env Ham_Freelist
begin

text \<open>
  The blobs of \<open>src/blob.cc\<close>: records of any size, stored with a header somewhere in the file.
  Small pieces, and with recovery enabled all pieces at the edge of a blob, go through the
  page cache; whole pages in the middle of a large blob are read and written directly on the
  device unless they happen to be cached. Modelled are the transfer of chunks in both
  directions, allocating, reading, measuring, overwriting and freeing a blob of a database in
  a file. Blobs of in-memory databases are plain heap memory and left out, as are the tables
  of duplicates.

  Addresses and sizes are natural numbers; where the code computes a size in 32 bits, \<open>sz32\<close>
  cuts it. The space management is a parameter: the answer of
  the freelist to a request for an area and the effect of freeing one, and so is whether the build checks its
  assertions (\<open>bc_debug\<close>). \<open>None\<close> stands for a loop
  that does not end, for an access outside a buffer and for an assertion that fails.
\<close>

section \<open>Chunks\<close>

record blob_ctx =
  bc_debug :: bool
  bc_has_log :: bool
  bc_freel_alloc_area :: "nat \<Rightarrow> page_env \<Rightarrow> ham_status \<times> nat \<times> page_env"
  bc_freel_mark_free :: "nat \<Rightarrow> nat \<Rightarrow> page_env \<Rightarrow> ham_status \<times> page_env"

abbreviation pagesize_of :: "page_env \<Rightarrow> nat" where "pagesize_of pe \<equiv> dev_pagesize (pe_dev pe)"

definition blob_from_cache :: "blob_ctx \<Rightarrow> page_env \<Rightarrow> nat \<Rightarrow> bool" where
  "blob_from_cache B pe sz =
     (if bc_has_log B then sz < pagesize_of pe - sizeof_persistent_header else sz < pagesize_of pe div 8)"

text \<open>The page of a piece: the current one, or one that is fetched and marked as having no header.\<close>

definition mark_no_header :: "pid \<Rightarrow> page_env \<Rightarrow> page_env" where
  "mark_no_header p pe =
     with_page p ((pe_store pe p)\<lparr>p_flags := p_flags (pe_store pe p) OR NPERS_NO_HEADER\<rparr>) (pe_dev pe) pe"

definition blob_page :: "page_env \<Rightarrow> pid option \<Rightarrow> u64 \<Rightarrow> u32 \<Rightarrow> (ham_status \<times> pid option \<times> page_env) option" where
  "blob_page pe page pageid flags =
     (case (case page of None \<Rightarrow> None | Some p \<Rightarrow> if p_self (pe_store pe p) \<noteq> pageid then None else Some p) of
        Some p \<Rightarrow> Some (HAM_SUCCESS, Some p, pe)
      | None \<Rightarrow>
          (case db_fetch_page_impl pe pageid flags of
             None \<Rightarrow> None
           | Some (st, Some p, pe') \<Rightarrow> Some (HAM_SUCCESS, Some p, mark_no_header p pe')
           | Some (st, None, pe') \<Rightarrow> Some (st, None, pe')))"

text \<open>\<open>memcpy\<close> into the image of a page.\<close>

definition write_image :: "pid \<Rightarrow> nat \<Rightarrow> byte list \<Rightarrow> page_env \<Rightarrow> page_env" where
  "write_image p start d pe =
     with_page p ((pe_store pe p)\<lparr>p_pers := map_option (\<lambda>b. take start b @ d @ drop (start + length d) b) (p_pers (pe_store pe p)),
                                p_dirty := True\<rparr>) (pe_dev pe) pe"

text \<open>One chunk of \<open>__write_chunks\<close>; the result has the current page and the address behind the chunk.\<close>

partial_function (option) write_chunk ::
  "blob_ctx \<Rightarrow> bool \<Rightarrow> byte list \<Rightarrow> pid option \<Rightarrow> nat \<Rightarrow> page_env \<Rightarrow> (ham_status \<times> pid option \<times> nat \<times> page_env) option" where
  "write_chunk B freshly_created d page addr pe =
     (if d = [] then Some (HAM_SUCCESS, page, addr, pe)
      else
        (let ps = pagesize_of pe;
             pageid = addr - addr mod ps;
             at_blob_edge = (blob_from_cache B pe (length d) \<or> addr mod ps \<noteq> 0 \<or> length d < ps);
             cacheonly = (\<not> at_blob_edge \<and> (\<not> bc_has_log B \<or> freshly_created))
         in case blob_page pe page (of_nat pageid) (if cacheonly then DB_ONLY_FROM_CACHE else 0) of
              None \<Rightarrow> None
            | Some (st, Some p, pe1) \<Rightarrow>
                (let writestart = addr - unat (p_self (pe_store pe1 p));
                     writesize = (if ps - writestart > length d then length d else ps - writestart)
                 in write_chunk B freshly_created (drop writesize d) (Some p) (addr + writesize)
                      (write_image p writestart (take writesize d) pe1))
            | Some (st, None, pe1) \<Rightarrow>
                if st \<noteq> HAM_SUCCESS then Some (st, None, addr, pe1)
                else
                  (let s = (if length d > pageid + ps - addr then pageid + ps - addr else length d)
                   in case device_write (pe_dev pe1) (cs_filters (pe_cs pe1)) (of_nat addr) (take s d) of
                        (st', dev) \<Rightarrow>
                          (let pe2 = pe1\<lparr>pe_cs := (pe_cs pe1)\<lparr>cs_dev := dev\<rparr>\<rparr>
                           in if st' \<noteq> HAM_SUCCESS then Some (st', None, addr, pe2)
                              else write_chunk B freshly_created (drop s d) None (addr + s) pe2))))"

fun write_chunks ::
  "blob_ctx \<Rightarrow> bool \<Rightarrow> byte list list \<Rightarrow> pid option \<Rightarrow> nat \<Rightarrow> page_env \<Rightarrow> (ham_status \<times> page_env) option" where
  "write_chunks B freshly_created [] page addr pe = Some (HAM_SUCCESS, pe)"
| "write_chunks B freshly_created (d # ds) page addr pe =
     (case write_chunk B freshly_created d page addr pe of
        None \<Rightarrow> None
      | Some (st, page', addr', pe') \<Rightarrow>
          if st \<noteq> HAM_SUCCESS then Some (st, pe') else write_chunks B freshly_created ds page' addr' pe')"

text \<open>\<open>__read_chunk\<close>, with the bytes read so far; the result has the page the last byte came from.\<close>

partial_function (option) read_chunk ::
  "blob_ctx \<Rightarrow> nat \<Rightarrow> byte list \<Rightarrow> pid option \<Rightarrow> nat \<Rightarrow> page_env \<Rightarrow> (ham_status \<times> pid option \<times> byte list \<times> page_env) option" where
  "read_chunk B sz acc page addr pe =
     (if sz = 0 then Some (HAM_SUCCESS, page, acc, pe)
      else
        (let ps = pagesize_of pe;
             pageid = addr - addr mod ps
         in case blob_page pe page (of_nat pageid) (if blob_from_cache B pe sz then 0 else DB_ONLY_FROM_CACHE) of
              None \<Rightarrow> None
            | Some (st, Some p, pe1) \<Rightarrow>
                (let readstart = addr - unat (p_self (pe_store pe1 p));
                     readsize = (if ps - readstart > sz then sz else ps - readstart)
                 in read_chunk B (sz - readsize) (acc @ take readsize (drop readstart (case_option [] id (p_pers (pe_store pe1 p)))))
                      (Some p) (addr + readsize) pe1)
            | Some (st, None, pe1) \<Rightarrow>
                if st \<noteq> HAM_SUCCESS then Some (st, None, acc, pe1)
                else
                  (let s = (if sz < ps then sz else ps);
                       s = (if s > pageid + ps - addr then pageid + ps - addr else s)
                   in case device_read (pe_dev pe1) (cs_filters (pe_cs pe1)) (of_nat addr) s of
                        (st', buf, dev) \<Rightarrow>
                          (let pe2 = pe1\<lparr>pe_cs := (pe_cs pe1)\<lparr>cs_dev := dev\<rparr>\<rparr>
                           in if st' \<noteq> HAM_SUCCESS then Some (st', None, acc, pe2)
                              else read_chunk B (sz - s) (acc @ buf) None (addr + s) pe2))))"

section \<open>Blobs\<close>

text \<open>\<open>blob_t\<close>, 28 bytes in the file.\<close>

record blob_hdr =
  bh_self :: u64
  bh_alloc_size :: u64
  bh_size :: u64
  bh_flags :: u32

definition sizeof_blob_t :: nat where "sizeof_blob_t = 28"

definition enc_blob :: "blob_hdr \<Rightarrow> byte list" where
  "enc_blob h = put_u64 (bh_self h) @ put_u64 (bh_alloc_size h) @ put_u64 (bh_size h) @ put_u32 (bh_flags h)"

definition dec_blob :: "byte list \<Rightarrow> blob_hdr" where
  "dec_blob b = \<lparr>bh_self = get_u64 0 b, bh_alloc_size = get_u64 8 b, bh_size = get_u64 16 b, bh_flags = get_u32 24 b\<rparr>"

text \<open>The members of \<open>ham_record_t\<close> that the blobs use.\<close>

record blob_rec =
  br_data :: "byte list"
  br_size :: nat
  br_partial_offset :: nat
  br_partial_size :: nat

definition SMALLEST_CHUNK_SIZE :: nat where "SMALLEST_CHUNK_SIZE = 8 + sizeof_blob_t + 1"

text \<open>Storing a number in a \<open>ham_size_t\<close>.\<close>

definition sz32 :: "nat \<Rightarrow> nat" where "sz32 n = n mod 2 ^ 32"

definition partial_end :: "blob_rec \<Rightarrow> nat" where
  "partial_end r = sz32 (br_partial_offset r + br_partial_size r)"

text \<open>A partial write that covers the whole record is a full write.\<close>

definition is_partial :: "u32 \<Rightarrow> blob_rec \<Rightarrow> bool" where
  "is_partial flags r \<longleftrightarrow> flags AND HAM_PARTIAL \<noteq> 0 \<and>
     \<not> (br_partial_offset r = 0 \<and> partial_end r = br_size r)"

definition round_up :: "nat \<Rightarrow> nat \<Rightarrow> nat" where
  "round_up n x = (let y = sz32 (x + (n - 1)) in y - y mod n)"

record blob_space =
  bs_addr :: nat
  bs_alloc_size :: nat
  bs_page :: "pid option"
  bs_fresh :: bool

text \<open>Finding room for a blob: in the freelist, in a new page, or at the end of the file.\<close>

definition blob_find_space ::
  "blob_ctx \<Rightarrow> nat \<Rightarrow> page_env \<Rightarrow> ((ham_status + blob_space) \<times> page_env) option" where
  "blob_find_space B alloc_size pe =
     (case bc_freel_alloc_area B alloc_size pe of
        (st, addr, pe1) \<Rightarrow>
          if addr \<noteq> 0 then Some (Inr \<lparr>bs_addr = addr, bs_alloc_size = alloc_size, bs_page = None, bs_fresh = False\<rparr>, pe1)
          else if st \<noteq> HAM_SUCCESS then Some (Inl st, pe1)
          else if blob_from_cache B pe1 alloc_size then
            (case db_alloc_page_impl pe1 TYPE_BLOB PAGE_IGNORE_FREELIST of
               None \<Rightarrow> None
             | Some (st', None, pe2) \<Rightarrow> Some (Inl st', pe2)
             | Some (st', Some p, pe2) \<Rightarrow>
                 (let pe3 = mark_no_header p pe2;
                      addr = unat (p_self (pe_store pe3 p));
                      pe4 = snd (bc_freel_mark_free B (addr + alloc_size) (pagesize_of pe3 - alloc_size) pe3)
                  in Some (Inr \<lparr>bs_addr = addr, bs_alloc_size = alloc_size, bs_page = Some p, bs_fresh = False\<rparr>, pe4)))
          else
            (let aligned = round_up (pagesize_of pe1) alloc_size
             in case device_alloc (pe_dev pe1) aligned of
                  (st', addr, dev) \<Rightarrow>
                    (let pe2 = pe1\<lparr>pe_cs := (pe_cs pe1)\<lparr>cs_dev := dev\<rparr>\<rparr>; diff = aligned - alloc_size
                     in if st' \<noteq> HAM_SUCCESS then Some (Inl st', pe2)
                        else if diff > SMALLEST_CHUNK_SIZE then
                          Some (Inr \<lparr>bs_addr = unat addr, bs_alloc_size = aligned - diff, bs_page = None, bs_fresh = True\<rparr>,
                                snd (bc_freel_mark_free B (unat addr + alloc_size) diff pe2))
                        else Some (Inr \<lparr>bs_addr = unat addr, bs_alloc_size = aligned, bs_page = None, bs_fresh = True\<rparr>, pe2))))"

text \<open>
  The zeros in front of a partial record, in pieces of a page. A failed write ends the loop
  without being reported; the rest is then written from the page-sized buffer, whatever its
  length.
\<close>

partial_function (option) head_gap ::
  "blob_ctx \<Rightarrow> blob_space \<Rightarrow> nat \<Rightarrow> nat \<Rightarrow> page_env \<Rightarrow> (nat \<times> nat \<times> page_env) option" where
  "head_gap B sp gapsize addr pe =
     (if gapsize < pagesize_of pe then Some (gapsize, addr, pe)
      else
        (case write_chunks B (bs_fresh sp) [replicate (pagesize_of pe) 0] (bs_page sp) addr pe of
           None \<Rightarrow> None
         | Some (st, pe') \<Rightarrow>
             if st \<noteq> HAM_SUCCESS then (if gapsize > pagesize_of pe then None else Some (gapsize, addr, pe'))
             else head_gap B sp (gapsize - pagesize_of pe) (addr + pagesize_of pe) pe'))"

text \<open>The zeros behind it, with the assertion that the last piece is shorter than a page.\<close>

partial_function (option) tail_gap ::
  "blob_ctx \<Rightarrow> blob_space \<Rightarrow> nat \<Rightarrow> nat \<Rightarrow> page_env \<Rightarrow> (ham_status \<times> page_env) option" where
  "tail_gap B sp gapsize addr pe =
     (if gapsize \<le> pagesize_of pe then
        (if bc_debug B \<and> \<not> gapsize < pagesize_of pe then None
         else write_chunks B (bs_fresh sp) [replicate gapsize 0] (bs_page sp) addr pe)
      else
        (case write_chunks B (bs_fresh sp) [replicate (pagesize_of pe) 0] (bs_page sp) addr pe of
           None \<Rightarrow> None
         | Some (st, pe') \<Rightarrow>
             if st \<noteq> HAM_SUCCESS then Some (st, pe')
             else tail_gap B sp (gapsize - pagesize_of pe) (addr + pagesize_of pe) pe'))"

text \<open>Header, front gap and data; the result has the address behind them.\<close>

definition write_front ::
  "blob_ctx \<Rightarrow> blob_space \<Rightarrow> byte list \<Rightarrow> blob_rec \<Rightarrow> bool \<Rightarrow> page_env \<Rightarrow> (ham_status \<times> nat \<times> page_env) option" where
  "write_front B sp hdr r partial pe =
     (if partial \<and> br_partial_offset r \<noteq> 0 then
        (case write_chunks B (bs_fresh sp) [hdr] (bs_page sp) (bs_addr sp) pe of
           None \<Rightarrow> None
         | Some (st, pe1) \<Rightarrow>
             if st \<noteq> HAM_SUCCESS then Some (st, 0, pe1)
             else
               (case head_gap B sp (br_partial_offset r) (bs_addr sp + sizeof_blob_t) pe1 of
                  None \<Rightarrow> None
                | Some (gapsize, addr, pe2) \<Rightarrow>
                    (case (if gapsize \<noteq> 0 then write_chunks B (bs_fresh sp) [replicate gapsize 0] (bs_page sp) addr pe2
                           else Some (HAM_SUCCESS, pe2)) of
                       None \<Rightarrow> None
                     | Some (st, pe3) \<Rightarrow>
                         if st \<noteq> HAM_SUCCESS then Some (st, 0, pe3)
                         else
                           map_option (\<lambda>(st, pe4). (st, addr + gapsize + br_partial_size r, pe4))
                             (write_chunks B (bs_fresh sp) [take (br_partial_size r) (br_data r)] (bs_page sp) (addr + gapsize) pe3))))
      else
        (let n = (if partial then br_partial_size r else br_size r)
         in map_option (\<lambda>(st, pe'). (st, bs_addr sp + sizeof_blob_t + n, pe'))
              (write_chunks B (bs_fresh sp) [hdr, take n (br_data r)] (bs_page sp) (bs_addr sp) pe)))"

definition blob_allocate ::
  "blob_ctx \<Rightarrow> blob_rec \<Rightarrow> u32 \<Rightarrow> page_env \<Rightarrow> (ham_status \<times> nat \<times> page_env) option" where
  "blob_allocate B r flags pe =
     (let partial = is_partial flags r;
          alloc_size = round_up DB_CHUNKSIZE (sz32 (sizeof_blob_t + br_size r))
      in case blob_find_space B alloc_size pe of
           None \<Rightarrow> None
         | Some (Inl st, pe1) \<Rightarrow> Some (st, 0, pe1)
         | Some (Inr sp, pe1) \<Rightarrow>
             (let hdr = enc_blob \<lparr>bh_self = of_nat (bs_addr sp), bh_alloc_size = of_nat (bs_alloc_size sp),
                          bh_size = of_nat (br_size r), bh_flags = 0\<rparr>
              in case write_front B sp hdr r partial pe1 of
                   None \<Rightarrow> None
                 | Some (st, addr, pe2) \<Rightarrow>
                     if st \<noteq> HAM_SUCCESS then Some (st, 0, pe2)
                     else if partial \<and> partial_end r < br_size r then
                       map_option (\<lambda>(st, pe3). (st, bs_addr sp, pe3))
                         (tail_gap B sp (br_size r - partial_end r) addr pe2)
                     else Some (HAM_SUCCESS, bs_addr sp, pe2)))"

text \<open>\<open>blob_read\<close>: the data, whose length is the new record size.\<close>

definition blob_read ::
  "blob_ctx \<Rightarrow> nat \<Rightarrow> blob_rec \<Rightarrow> u32 \<Rightarrow> page_env \<Rightarrow> (ham_status \<times> byte list \<times> page_env) option" where
  "blob_read B blobid r flags pe =
     (case read_chunk B sizeof_blob_t [] None blobid pe of
        None \<Rightarrow> None
      | Some (st, page, b, pe1) \<Rightarrow>
          if st \<noteq> HAM_SUCCESS then Some (st, [], pe1)
          else
            (let hdr = dec_blob b; blobsize = sz32 (unat (bh_size hdr)); partial = (flags AND HAM_PARTIAL \<noteq> 0)
             in if bh_self hdr \<noteq> of_nat blobid then Some (HAM_BLOB_NOT_FOUND, [], pe1)
                else if partial \<and> br_partial_offset r > blobsize then Some (HAM_INV_PARAMETER, [], pe1)
                else
                  (let n = (if \<not> partial then blobsize
                            else if partial_end r > blobsize then blobsize - br_partial_offset r
                            else br_partial_size r)
                   in if n = 0 then Some (HAM_SUCCESS, [], pe1)
                      else
                        map_option (\<lambda>(st, _, d, pe2). (st, if st = HAM_SUCCESS then d else [], pe2))
                          (read_chunk B n [] page (blobid + sizeof_blob_t + (if partial then br_partial_offset r else 0)) pe1))))"

definition blob_get_datasize :: "blob_ctx \<Rightarrow> nat \<Rightarrow> page_env \<Rightarrow> (ham_status \<times> nat \<times> page_env) option" where
  "blob_get_datasize B blobid pe =
     (case read_chunk B sizeof_blob_t [] None blobid pe of
        None \<Rightarrow> None
      | Some (st, page, b, pe1) \<Rightarrow>
          if st \<noteq> HAM_SUCCESS then Some (st, 0, pe1)
          else if bh_self (dec_blob b) \<noteq> of_nat blobid then Some (HAM_BLOB_NOT_FOUND, 0, pe1)
          else Some (HAM_SUCCESS, unat (bh_size (dec_blob b)), pe1))"

text \<open>Writing over a blob that is large enough.\<close>

definition write_in_place ::
  "blob_ctx \<Rightarrow> pid option \<Rightarrow> nat \<Rightarrow> byte list \<Rightarrow> blob_rec \<Rightarrow> bool \<Rightarrow> page_env \<Rightarrow> (ham_status \<times> page_env) option" where
  "write_in_place B page addr hdr r partial pe =
     (if partial \<and> br_partial_offset r \<noteq> 0 then
        (case write_chunks B False [hdr] page addr pe of
           None \<Rightarrow> None
         | Some (st, pe1) \<Rightarrow>
             if st \<noteq> HAM_SUCCESS then Some (st, pe1)
             else write_chunks B False [take (br_partial_size r) (br_data r)] page (addr + sizeof_blob_t + br_partial_offset r) pe1)
      else write_chunks B False [hdr, take (if partial then br_partial_size r else br_size r) (br_data r)] page addr pe)"

definition blob_overwrite ::
  "blob_ctx \<Rightarrow> nat \<Rightarrow> blob_rec \<Rightarrow> u32 \<Rightarrow> page_env \<Rightarrow> (ham_status \<times> nat \<times> page_env) option" where
  "blob_overwrite B old_blobid r flags pe =
     (let alloc_size = round_up DB_CHUNKSIZE (sz32 (sizeof_blob_t + br_size r))
      in case read_chunk B sizeof_blob_t [] None old_blobid pe of
           None \<Rightarrow> None
         | Some (st, page, b, pe1) \<Rightarrow>
             if st \<noteq> HAM_SUCCESS then Some (st, 0, pe1)
             else
               (let old = dec_blob b; old_alloc = unat (bh_alloc_size old)
                in if bh_self old \<noteq> of_nat old_blobid then Some (HAM_BLOB_NOT_FOUND, 0, pe1)
                   else if alloc_size \<le> old_alloc then
                     (let new_alloc = (if old_alloc - alloc_size > SMALLEST_CHUNK_SIZE then alloc_size else old_alloc);
                          hdr = enc_blob \<lparr>bh_self = bh_self old, bh_alloc_size = of_nat new_alloc,
                                  bh_size = of_nat (br_size r), bh_flags = bh_flags old\<rparr>
                      in case write_in_place B page old_blobid hdr r (is_partial flags r) pe1 of
                           None \<Rightarrow> None
                         | Some (st, pe2) \<Rightarrow>
                             if st \<noteq> HAM_SUCCESS then Some (st, 0, pe2)
                             else Some (HAM_SUCCESS, old_blobid,
                                        if old_alloc \<noteq> new_alloc
                                        then snd (bc_freel_mark_free B (old_blobid + new_alloc) (sz32 (old_alloc - new_alloc)) pe2)
                                        else pe2))
                   else
                     (case blob_allocate B r flags pe1 of
                        None \<Rightarrow> None
                      | Some (st, blobid, pe2) \<Rightarrow>
                          if st \<noteq> HAM_SUCCESS then Some (st, blobid, pe2)
                          else Some (HAM_SUCCESS, blobid, snd (bc_freel_mark_free B old_blobid (sz32 old_alloc) pe2)))))"

definition blob_free :: "blob_ctx \<Rightarrow> nat \<Rightarrow> page_env \<Rightarrow> (ham_status \<times> page_env) option" where
  "blob_free B blobid pe =
     (case read_chunk B sizeof_blob_t [] None blobid pe of
        None \<Rightarrow> None
      | Some (st, page, b, pe1) \<Rightarrow>
          if st \<noteq> HAM_SUCCESS then Some (st, pe1)
          else if bh_self (dec_blob b) \<noteq> of_nat blobid then Some (HAM_BLOB_NOT_FOUND, pe1)
          else Some (bc_freel_mark_free B blobid (sz32 (unat (bh_alloc_size (dec_blob b)))) pe1))"

section \<open>The file as a sequence of bytes\<close>

abbreviation file_len :: "page_env \<Rightarrow> nat" where "file_len pe \<equiv> length (fdata (dev_fd (pe_dev pe)))"

definition page_start :: "page_env \<Rightarrow> nat \<Rightarrow> nat" where
  "page_start pe x = x - x mod pagesize_of pe"

definition byte_at :: "page_env \<Rightarrow> nat \<Rightarrow> byte" where
  "byte_at pe x = the (content pe (of_nat (page_start pe x))) ! (x mod pagesize_of pe)"

definition bytes_at :: "page_env \<Rightarrow> nat \<Rightarrow> nat \<Rightarrow> byte list" where
  "bytes_at pe x n = map (byte_at pe) [x..<x + n]"

text \<open>
  An environment for blobs: consistent, without a strict cache limit, with fewer than \<open>2 ^ 32\<close>
  pages; \<open>xs\<close> are the cached pages. The current page of a loop is a cached one.
\<close>

definition blob_ok :: "page_env \<Rightarrow> pid list \<Rightarrow> bool" where
  "blob_ok pe xs \<longleftrightarrow> (\<exists>ys. env_ok pe xs ys) \<and> pe_flags pe AND HAM_CACHE_STRICT = 0 \<and>
     file_len pe < (2 ^ 32 - 1) * pagesize_of pe"

definition page_ok :: "pid list \<Rightarrow> pid option \<Rightarrow> bool" where
  "page_ok xs page \<longleftrightarrow> (\<forall>p. page = Some p \<longrightarrow> p \<in> set xs)"

lemma device_pos: "env_ok pe xs ys \<Longrightarrow> 0 < pagesize_of pe \<and> pagesize_of pe dvd file_len pe \<and> file_len pe < off_max"
  using env_okD(5) [of pe xs ys] by (auto simp: device_ok_def)

lemma blob_okD:
  assumes "blob_ok pe xs"
  shows "0 < pagesize_of pe" "pagesize_of pe dvd file_len pe" "file_len pe < off_max"
  using assms device_pos by (auto simp: blob_ok_def)

lemma page_start_props:
  assumes "blob_ok pe xs" "x < file_len pe"
  shows "pagesize_of pe dvd page_start pe x" "page_start pe x \<le> x" "x < page_start pe x + pagesize_of pe"
    "page_start pe x + pagesize_of pe \<le> file_len pe" "page_start pe x + x mod pagesize_of pe = x"
    "unat (of_nat (page_start pe x) :: u64) = page_start pe x" "page_offset (pe_dev pe) (of_nat (page_start pe x))"
proof -
  note p = blob_okD [OF assms(1)]
  show d: "pagesize_of pe dvd page_start pe x" by (simp add: page_start_def minus_mod_eq_mult_div)
  show le: "page_start pe x \<le> x" and s: "page_start pe x + x mod pagesize_of pe = x" by (simp_all add: page_start_def)
  then show "x < page_start pe x + pagesize_of pe" using p(1) by (metis mod_less_divisor nat_add_left_cancel_less)
  show e: "page_start pe x + pagesize_of pe \<le> file_len pe" using dvd_add_le [OF d p(2)] le assms(2) by simp
  show u: "unat (of_nat (page_start pe x) :: u64) = page_start pe x" using le assms(2) p(3) by (simp add: off_max_def)
  show "page_offset (pe_dev pe) (of_nat (page_start pe x))" using d e u by (simp add: page_offset_def)
qed

text \<open>The cached pages are pages of the file other than the first: there are fewer than \<open>2 ^ 32\<close>.\<close>

lemma cached_count:
  assumes ok: "env_ok pe xs ys" and small: "file_len pe < (2 ^ 32 - 1) * pagesize_of pe"
  shows "length xs < 2 ^ 32 - 1"
proof -
  let ?f = "\<lambda>p. unat (p_self (pe_store pe p)) div pagesize_of pe" and ?n = "file_len pe div pagesize_of pe"
  note D = env_okD [OF ok] and pos = device_pos [OF ok]
  have off: "pagesize_of pe dvd unat (p_self (pe_store pe p))" "unat (p_self (pe_store pe p)) + pagesize_of pe \<le> file_len pe"
    if "p \<in> set xs" for p using D(7) [OF that] by (auto simp: cached_ok_def page_offset_def)
  have "inj_on ?f (set xs)"
  proof (rule inj_onI)
    fix p q assume a: "p \<in> set xs" "q \<in> set xs" "?f p = ?f q"
    then have "unat (p_self (pe_store pe p)) = unat (p_self (pe_store pe q))"
      using off(1) [of p] off(1) [of q] by (metis dvd_mult_div_cancel)
    then have "p_self (pe_store pe p) = p_self (pe_store pe q)" by (simp add: word_unat_eq_iff)
    then show "p = q" using a D(8) by (auto dest: inj_onD)
  qed
  moreover have "?f ` set xs \<subseteq> {..<?n}"
  proof
    fix k assume "k \<in> ?f ` set xs"
    then obtain p where p: "p \<in> set xs" "k = ?f p" by blast
    have "unat (p_self (pe_store pe p)) < file_len pe" using off(2) [OF p(1)] pos by linarith
    then show "k \<in> {..<?n}" using p(2) pos off(1) [OF p(1)] by (auto elim!: dvdE)
  qed
  ultimately have "card (set xs) \<le> ?n" using card_inj_on_le [of ?f "set xs" "{..<?n}"] by simp
  moreover have "?n < 2 ^ 32 - 1" using small pos by (auto elim!: dvdE)
  ultimately show ?thesis using distinct_card [OF cache_holdsD(1) [OF D(1)]] by simp
qed

text \<open>What a write of \<open>d\<close> at \<open>addr\<close> does to the bytes of the file.\<close>

definition wrote_bytes :: "nat \<Rightarrow> byte list \<Rightarrow> page_env \<Rightarrow> page_env \<Rightarrow> bool" where
  "wrote_bytes addr d pe pe' \<longleftrightarrow> pagesize_of pe' = pagesize_of pe \<and> file_len pe' = file_len pe \<and>
     (\<forall>x < file_len pe. byte_at pe' x = (if addr \<le> x \<and> x < addr + length d then d ! (x - addr) else byte_at pe x))"

lemma wrote_bytes_Nil [simp]: "wrote_bytes a [] pe pe" by (auto simp: wrote_bytes_def)

lemma wrote_bytes_append:
  assumes "wrote_bytes a d pe pe1" "wrote_bytes (a + length d) d' pe1 pe2"
  shows "wrote_bytes a (d @ d') pe pe2"
  using assms by (auto simp: wrote_bytes_def nth_append)

lemma wrote_bytes_same:
  assumes "wrote_bytes a [] pe pe1" "wrote_bytes b d pe1 pe2"
  shows "wrote_bytes b d pe pe2"
  using assms by (auto simp: wrote_bytes_def)

lemma same_env_bytes:
  assumes "blob_ok pe xs" "same_env pe pe'" "pe_dev pe' = pe_dev pe"
  shows "wrote_bytes a [] pe pe'"
  using assms page_start_props(7) [OF assms(1)] by (auto simp: wrote_bytes_def same_env_def byte_at_def page_start_def)

text \<open>Replacing a part of one page.\<close>

lemma page_update_bytes:
  assumes ok: "blob_ok pe xs" "x0 < file_len pe" and st: "pagesize_of pe' = pagesize_of pe" "file_len pe' = file_len pe"
    and img: "content pe (of_nat (page_start pe x0)) = Some img" "length img = pagesize_of pe"
    and d: "x0 mod pagesize_of pe + length d \<le> pagesize_of pe"
    and c: "\<And>a. page_offset (pe_dev pe) a \<Longrightarrow> content pe' a =
      (if a = of_nat (page_start pe x0)
       then Some (take (x0 mod pagesize_of pe) img @ d @ drop (x0 mod pagesize_of pe + length d) img) else content pe a)"
  shows "wrote_bytes x0 d pe pe'"
  unfolding wrote_bytes_def
proof (intro conjI allI impI st)
  fix x assume x: "x < file_len pe"
  let ?ps = "pagesize_of pe" and ?s = "x0 mod pagesize_of pe"
  note P = page_start_props [OF ok(1) x] and P0 = page_start_props [OF ok]
  have b: "byte_at pe' x = the (content pe' (of_nat (page_start pe x))) ! (x mod ?ps)" by (simp add: byte_at_def page_start_def st)
  show "byte_at pe' x = (if x0 \<le> x \<and> x < x0 + length d then d ! (x - x0) else byte_at pe x)"
  proof (cases "page_start pe x = page_start pe x0")
    case True
    then have m: "x mod ?ps < ?ps" "x = page_start pe x0 + x mod ?ps" "x0 = page_start pe x0 + ?s"
      using blob_okD(1) [OF ok(1)] P(5) P0(5) by simp_all
    have "byte_at pe' x = (take ?s img @ d @ drop (?s + length d) img) ! (x mod ?ps)" using c [OF P(7)] True b by simp
    moreover have "byte_at pe x = img ! (x mod ?ps)" using img True by (simp add: byte_at_def)
    moreover have "?s < length img" using blob_okD(1) [OF ok(1)] img(2) by simp
    moreover have "x0 \<le> x \<longleftrightarrow> ?s \<le> x mod ?ps" "x < x0 + length d \<longleftrightarrow> x mod ?ps < ?s + length d" "x - x0 = x mod ?ps - ?s"
      using m(2,3) by linarith+
    ultimately show ?thesis using m(1) img(2) d by (auto simp: nth_append)
  next
    case False
    then have "of_nat (page_start pe x) \<noteq> (of_nat (page_start pe x0) :: u64)" using P(6) P0(6) by metis
    moreover have "\<not> (x0 \<le> x \<and> x < x0 + length d)"
    proof
      assume a: "x0 \<le> x \<and> x < x0 + length d"
      then have "page_start pe x0 \<le> x" "x < page_start pe x0 + ?ps" using P0(2,5) d by linarith+
      then have "x div ?ps = page_start pe x0 div ?ps"
        using P0(1) blob_okD(1) [OF ok(1)] by (auto elim!: dvdE intro!: div_nat_eqI simp: algebra_simps)
      then have "page_start pe x = page_start pe x0" using P0(1) by (simp add: page_start_def minus_mod_eq_mult_div)
      then show False using False by simp
    qed
    ultimately show ?thesis using c [OF P(7)] b by (auto simp: byte_at_def)
  qed
qed

section \<open>One piece\<close>

text \<open>Changing the image of a cached page, and writing a page that is not cached.\<close>

lemma env_ok_page:
  assumes ok: "env_ok pe xs ys" and p: "p \<in> set xs"
    and pg: "p_next pg = p_next (pe_store pe p)" "p_prev pg = p_prev (pe_store pe p)" "p_self pg = p_self (pe_store pe p)" "cached_ok (pe_dev pe) pg"
    and pe': "pe' = with_page p pg (pe_dev pe) pe"
  shows "env_ok pe' xs ys \<and> (\<forall>a. page_offset (pe_dev pe) a \<longrightarrow>
    content pe' a = (if a = p_self (pe_store pe p) then p_pers pg else content pe a))"
proof -
  note D = env_okD [OF ok]
  have links: "get_next w (pe_store pe') = get_next w (pe_store pe)" "get_previous w (pe_store pe') = get_previous w (pe_store pe)" for w
    using pg by (auto simp: pe' get_next_def get_previous_def fun_eq_iff)
  have self: "p_self (pe_store pe' q) = p_self (pe_store pe q)" for q using pg(3) by (simp add: pe')
  have hold: "cache_holds (pe_store pe') (pe_cache pe') xs"
    using D(1) cache_holds_frame [of "pe_store pe'" "pe_store pe" xs "pe_cache pe"] links self by (simp add: pe')
  have ok': "env_ok pe' xs ys"
    unfolding env_ok_def using D hold links self pg(4) by (auto simp: pe' unlinked_def inj_on_def)
  moreover have "content pe' a = (if a = p_self (pe_store pe p) then p_pers pg else content pe a)" for a
  proof (cases "\<exists>q \<in> set xs. p_self (pe_store pe q) = a")
    case True
    then obtain q where q: "q \<in> set xs" "a = p_self (pe_store pe q)" by blast
    then show ?thesis using content_cached [OF ok' q(1)] content_cached [OF ok q(1)] self [of q] D(8) p
      by (cases "q = p") (auto simp: pe' dest: inj_onD)
  next
    case False
    then show ?thesis using content_file [OF ok', of a] content_file [OF ok, of a] self p by (auto simp: pe')
  qed
  ultimately show ?thesis by blast
qed

lemma env_ok_device_write:
  assumes ok: "env_ok pe xs ys" and a: "page_offset (pe_dev pe) a" "\<forall>q \<in> set xs. p_self (pe_store pe q) \<noteq> a" "length buf = pagesize_of pe"
    and pe': "pe' = pe\<lparr>pe_cs := (pe_cs pe)\<lparr>cs_dev := page_upd (pe_dev pe) a buf\<rparr>\<rparr>"
  shows "env_ok pe' xs ys \<and> (\<forall>b. page_offset (pe_dev pe) b \<longrightarrow> content pe' b = (if b = a then Some buf else content pe b))"
proof -
  note D = env_okD [OF ok] and U = page_upd_ok [OF env_okD(5) [OF ok] a(1,3)]
  have "cached_ok (pe_dev pe') (pe_store pe' q)" if "q \<in> set xs" for q
    using D(7) [OF that] a(2) that U page_at_upd [OF D(5) a(1,3), of "p_self (pe_store pe q)"]
    by (auto simp: cached_ok_def pe')
  then have ok': "env_ok pe' xs ys" unfolding env_ok_def using D U by (simp add: pe')
  moreover have "content pe' b = (if b = a then Some buf else content pe b)" if "page_offset (pe_dev pe) b" for b
  proof (cases "\<exists>q \<in> set xs. p_self (pe_store pe q) = b")
    case True
    then obtain q where q: "q \<in> set xs" "b = p_self (pe_store pe q)" by blast
    then show ?thesis using content_cached [OF ok' q(1)] content_cached [OF ok q(1)] a(2) by (auto simp: pe')
  next
    case False
    then show ?thesis using content_file [OF ok', of b] content_file [OF ok, of b] page_at_upd [OF D(5) a(1,3) that] by (auto simp: pe')
  qed
  ultimately show ?thesis by blast
qed

lemma content_image:
  assumes "env_ok pe xs ys" "page_offset (pe_dev pe) a"
  shows "\<exists>img. content pe a = Some img \<and> length img = pagesize_of pe"
proof (cases "\<exists>q \<in> set xs. p_self (pe_store pe q) = a")
  case True
  then show ?thesis using content_cached [OF assms(1)] env_okD(7) [OF assms(1)] by (fastforce simp: cached_ok_def)
next
  case False
  then show ?thesis using content_file [OF assms(1), of a] assms(2) by auto
qed

lemma mark_no_header_ok:
  assumes ok: "env_ok pe xs ys" and p: "p \<in> set xs"
  shows "env_ok (mark_no_header p pe) xs ys \<and> same_env pe (mark_no_header p pe) \<and> pe_dev (mark_no_header p pe) = pe_dev pe \<and>
    p_self (pe_store (mark_no_header p pe) p) = p_self (pe_store pe p)"
proof -
  let ?pg = "(pe_store pe p)\<lparr>p_flags := p_flags (pe_store pe p) OR NPERS_NO_HEADER\<rparr>"
  have "cached_ok (pe_dev pe) ?pg" using env_okD(7) [OF ok p] by (simp add: cached_ok_def)
  from env_ok_page [OF ok p _ _ _ this mark_no_header_def] content_cached [OF ok p]
  show ?thesis by (auto simp: same_env_def mark_no_header_def)
qed

lemma blob_page_spec:
  assumes ok: "blob_ok pe xs" and pg: "page_ok xs page" and addr: "pagesize_of pe \<le> addr" "addr < file_len pe"
    and id: "pageid = of_nat (page_start pe addr)"
  shows "\<exists>r pe1 xs1 ys1. blob_page pe page pageid flags = Some (HAM_SUCCESS, r, pe1) \<and> env_ok pe1 xs1 ys1 \<and> blob_ok pe1 xs1 \<and>
    set xs \<subseteq> set xs1 \<and> same_env pe pe1 \<and> pe_dev pe1 = pe_dev pe \<and>
    (case r of Some p \<Rightarrow> p \<in> set xs1 \<and> p_self (pe_store pe1 p) = pageid
     | None \<Rightarrow> flags AND DB_ONLY_FROM_CACHE \<noteq> 0 \<and> (\<forall>q \<in> set xs1. p_self (pe_store pe1 q) \<noteq> pageid))"
proof (cases "\<exists>p. page = Some p \<and> p_self (pe_store pe p) = pageid")
  case True
  then obtain p where "page = Some p" "p_self (pe_store pe p) = pageid" by blast
  moreover obtain ys where "env_ok pe xs ys" using ok by (auto simp: blob_ok_def)
  ultimately show ?thesis using ok pg
    by (intro exI [of _ "Some p"] exI [of _ pe] exI [of _ xs] exI [of _ ys]) (simp add: blob_page_def page_ok_def)
next
  case False
  then have b: "blob_page pe page pageid flags =
      (case db_fetch_page_impl pe pageid flags of
             None \<Rightarrow> None
           | Some (st, Some p, pe') \<Rightarrow> Some (HAM_SUCCESS, Some p, mark_no_header p pe')
           | Some (st, None, pe') \<Rightarrow> Some (st, None, pe'))"
    by (auto simp: blob_page_def split: option.splits)
  obtain ys where e: "env_ok pe xs ys" using ok by (auto simp: blob_ok_def)
  have strict: "too_big pe \<longrightarrow> pe_flags pe AND HAM_CACHE_STRICT = 0" and small: "file_len pe < (2 ^ 32 - 1) * pagesize_of pe"
    using ok by (simp_all add: blob_ok_def)
  note P = page_start_props [OF ok addr(2)]
  have "page_start pe addr \<noteq> 0" using P(3) addr(1) by (metis add_0 not_le)
  then have nz: "pageid \<noteq> 0" using P(6) id by (metis unsigned_0)
  have po: "page_offset (pe_dev pe) pageid" using P(7) id by simp
  from db_fetch_page_spec [OF e po nz cached_count [OF e small] strict, of flags]
  obtain r pe1 xs1 ys1 where f: "db_fetch_page_impl pe pageid flags = Some (HAM_SUCCESS, r, pe1)" "env_ok pe1 xs1 ys1" "same_env pe pe1"
    "pe_dev pe1 = pe_dev pe" "set xs \<subseteq> set xs1" "case r of Some p \<Rightarrow> p \<in> set xs1 \<and> p_self (pe_store pe1 p) = pageid \<and> p_pers (pe_store pe1 p) = content pe pageid \<and>
         (pe_flags pe AND HAM_ENABLE_RECOVERY \<noteq> 0 \<longrightarrow> p \<in> set ys1)
     | None \<Rightarrow> flags AND DB_ONLY_FROM_CACHE \<noteq> 0 \<and> (\<forall>q \<in> set xs1. p_self (pe_store pe1 q) \<noteq> pageid)" by blast
  have ok1: "blob_ok pe2 xs1" if "env_ok pe2 xs1 ys1" "same_env pe pe2" "pe_dev pe2 = pe_dev pe" for pe2
    using that ok unfolding blob_ok_def by (auto simp: same_env_def)
  show ?thesis
  proof (cases r)
    case None
    then show ?thesis using b f ok1 [OF f(2-4)] by (intro exI [of _ None] exI [of _ pe1] exI [of _ xs1] exI [of _ ys1]) simp
  next
    case (Some p)
    then have px: "p \<in> set xs1" "p_self (pe_store pe1 p) = pageid" using f(6) by simp_all
    note M = mark_no_header_ok [OF f(2) px(1)]
    have "same_env pe (mark_no_header p pe1)" using same_env_trans [OF f(3)] M by blast
    then show ?thesis using b f M Some px ok1 [of "mark_no_header p pe1"]
      by (intro exI [of _ "Some p"] exI [of _ "mark_no_header p pe1"] exI [of _ xs1] exI [of _ ys1]) simp
  qed
qed

section \<open>Transfers\<close>

definition blob_keeps :: "pid list \<Rightarrow> page_env \<Rightarrow> page_env \<Rightarrow> pid list \<Rightarrow> bool" where
  "blob_keeps xs pe pe' xs' \<longleftrightarrow> blob_ok pe' xs' \<and> set xs \<subseteq> set xs' \<and> pagesize_of pe' = pagesize_of pe \<and> file_len pe' = file_len pe"

lemma keeps_blob_ok: "blob_keeps xs pe pe' xs' \<Longrightarrow> blob_ok pe' xs'"
  by (simp add: blob_keeps_def)

lemma blob_keeps_trans: "blob_keeps xs a b xs1 \<Longrightarrow> blob_keeps xs1 b c xs2 \<Longrightarrow> blob_keeps xs a c xs2"
  by (auto simp: blob_keeps_def)

lemma page_ok_mono: "page_ok xs page \<Longrightarrow> set xs \<subseteq> set xs' \<Longrightarrow> page_ok xs' page"
  by (auto simp: page_ok_def)

lemma page_ok_simps [simp]: "page_ok xs None" "page_ok xs (Some p) \<longleftrightarrow> p \<in> set xs"
  by (auto simp: page_ok_def)

text \<open>Into a cached page.\<close>

lemma write_image_ok:
  assumes ok: "blob_ok pe xs" "env_ok pe xs ys" and p: "p \<in> set xs" "p_self (pe_store pe p) = of_nat (page_start pe addr)"
    and addr: "addr < file_len pe" and d: "addr mod pagesize_of pe + length d \<le> pagesize_of pe"
  shows "blob_keeps xs pe (write_image p (addr mod pagesize_of pe) d pe) xs \<and>
    wrote_bytes addr d pe (write_image p (addr mod pagesize_of pe) d pe)"
proof -
  let ?s = "addr mod pagesize_of pe" and ?pe' = "write_image p (addr mod pagesize_of pe) d pe"
  note P = page_start_props [OF ok(1) addr]
  obtain img where img: "content pe (of_nat (page_start pe addr)) = Some img" "length img = pagesize_of pe"
    using content_image [OF ok(2) P(7)] by blast
  then have pers: "p_pers (pe_store pe p) = Some img" using content_cached [OF ok(2) p(1)] p(2) by simp
  define pg where "pg = (pe_store pe p)\<lparr>p_pers := map_option (\<lambda>b. take ?s b @ d @ drop (?s + length d) b) (p_pers (pe_store pe p)), p_dirty := True\<rparr>"
  have pe': "?pe' = with_page p pg (pe_dev pe) pe" by (simp add: write_image_def pg_def)
  have new: "p_pers pg = Some (take ?s img @ d @ drop (?s + length d) img)" by (simp add: pg_def pers)
  have "cached_ok (pe_dev pe) pg"
    using new img(2) d p(2) P(7) unfolding cached_ok_def by (auto simp: pg_def)
  then have e: "env_ok ?pe' xs ys" and c: "\<And>a. page_offset (pe_dev pe) a \<Longrightarrow>
      content ?pe' a = (if a = p_self (pe_store pe p) then p_pers pg else content pe a)"
    using env_ok_page [OF ok(2) p(1) _ _ _ _ pe'] by (simp_all add: pg_def)
  have "wrote_bytes addr d pe ?pe'"
    by (rule page_update_bytes [OF ok(1) addr _ _ img d]) (use c p(2) new in \<open>auto simp: pe'\<close>)
  moreover have "blob_ok ?pe' xs" using ok(1) e by (auto simp: blob_ok_def pe')
  ultimately show ?thesis by (simp add: blob_keeps_def pe')
qed

text \<open>Around the cache.\<close>

lemma device_write_page_ok:
  assumes ok: "blob_ok pe xs" "env_ok pe xs ys" and un: "\<forall>q \<in> set xs. p_self (pe_store pe q) \<noteq> of_nat addr"
    and addr: "addr < file_len pe" "addr mod pagesize_of pe = 0" and d: "length d = pagesize_of pe"
  shows "\<exists>dev. device_write (pe_dev pe) (cs_filters (pe_cs pe)) (of_nat addr) d = (HAM_SUCCESS, dev) \<and>
    blob_keeps xs pe (pe\<lparr>pe_cs := (pe_cs pe)\<lparr>cs_dev := dev\<rparr>\<rparr>) xs \<and> wrote_bytes addr d pe (pe\<lparr>pe_cs := (pe_cs pe)\<lparr>cs_dev := dev\<rparr>\<rparr>)"
proof -
  note P = page_start_props [OF ok(1) addr(1)] and D = env_okD [OF ok(2)]
  have s: "page_start pe addr = addr" using addr(2) by (simp add: page_start_def)
  then have po: "page_offset (pe_dev pe) (of_nat addr)" using P(7) by simp
  define dev where "dev = page_upd (pe_dev pe) (of_nat addr) d"
  define pe' where "pe' = pe\<lparr>pe_cs := (pe_cs pe)\<lparr>cs_dev := dev\<rparr>\<rparr>"
  have "device_write (pe_dev pe) (cs_filters (pe_cs pe)) (of_nat addr) d = (HAM_SUCCESS, dev)"
    using device_write_ok [OF D(5) po d] D(6) by (simp add: dev_def page_upd_def)
  moreover have e: "env_ok pe' xs ys" and c: "\<And>b. page_offset (pe_dev pe) b \<Longrightarrow> content pe' b = (if b = of_nat addr then Some d else content pe b)"
    using env_ok_device_write [OF ok(2) po un d, of pe'] by (simp_all add: pe'_def dev_def)
  moreover have len: "pagesize_of pe' = pagesize_of pe" "file_len pe' = file_len pe"
    using page_upd_ok [OF D(5) po d] by (simp_all add: pe'_def dev_def)
  moreover obtain img where img: "content pe (of_nat addr) = Some img" "length img = pagesize_of pe"
    using content_image [OF ok(2) po] by blast
  moreover have "wrote_bytes addr d pe pe'"
    by (rule page_update_bytes [OF ok(1) addr(1) len, of img]) (use c img d s addr(2) in auto)
  moreover have "blob_ok pe' xs" using ok(1) e len by (auto simp: blob_ok_def pe'_def)
  ultimately show ?thesis unfolding blob_keeps_def pe'_def by blast
qed

lemma write_chunk_step:
  assumes ok: "blob_ok pe xs" "page_ok xs page" and d: "d \<noteq> []" and addr: "pagesize_of pe \<le> addr" "addr + length d \<le> file_len pe"
  shows "\<exists>n page' pe' xs'. 0 < n \<and> n \<le> length d \<and>
    write_chunk B fr d page addr pe = write_chunk B fr (drop n d) page' (addr + n) pe' \<and>
    blob_keeps xs pe pe' xs' \<and> page_ok xs' page' \<and> wrote_bytes addr (take n d) pe pe'"
proof -
  let ?ps = "pagesize_of pe"
  have lt: "addr < file_len pe" using addr(2) d by (cases d) auto
  note P = page_start_props [OF ok(1) lt] and pos = blob_okD [OF ok(1)]
  define cacheonly where "cacheonly = (\<not> (blob_from_cache B pe (length d) \<or> addr mod ?ps \<noteq> 0 \<or> length d < ?ps) \<and> (\<not> bc_has_log B \<or> fr))"
  define flags where "flags = (if cacheonly then DB_ONLY_FROM_CACHE else 0)"
  from blob_page_spec [OF ok addr(1) lt refl, of flags] obtain r pe1 xs1 ys1 where
    b: "blob_page pe page (of_nat (page_start pe addr)) flags = Some (HAM_SUCCESS, r, pe1)" and
    e: "env_ok pe1 xs1 ys1" "blob_ok pe1 xs1" "set xs \<subseteq> set xs1" "same_env pe pe1" "pe_dev pe1 = pe_dev pe" and
    r: "case r of Some p \<Rightarrow> p \<in> set xs1 \<and> p_self (pe_store pe1 p) = of_nat (page_start pe addr)
     | None \<Rightarrow> flags AND DB_ONLY_FROM_CACHE \<noteq> 0 \<and> (\<forall>q \<in> set xs1. p_self (pe_store pe1 q) \<noteq> of_nat (page_start pe addr))" by blast
  have s1: "page_start pe1 addr = page_start pe addr" using e(5) by (simp add: page_start_def)
  have k1: "blob_keeps xs pe pe1 xs1" using e by (simp add: blob_keeps_def)
  have w1: "wrote_bytes 0 [] pe pe1" using same_env_bytes [OF ok(1) e(4,5)] .
  note unf = write_chunk.simps [of B fr d page addr pe, unfolded Let_def page_start_def [symmetric], folded cacheonly_def, folded flags_def]
  show ?thesis
  proof (cases r)
    case (Some p)
    then have p: "p \<in> set xs1" "p_self (pe_store pe1 p) = of_nat (page_start pe1 addr)" using r s1 by simp_all
    define n where "n = (if ?ps - addr mod ?ps > length d then length d else ?ps - addr mod ?ps)"
    have st: "addr - unat (p_self (pe_store pe1 p)) = addr mod ?ps" using p(2) P(5,6) s1 by simp
    have n: "0 < n" "n \<le> length d" "addr mod ?ps + n \<le> ?ps" using d pos(1) by (auto simp: n_def)
    let ?pe' = "write_image p (addr mod ?ps) (take n d) pe1"
    from write_image_ok [OF e(2,1) p, of "take n d"] n lt e(5)
    have w: "blob_keeps xs1 pe1 ?pe' xs1" "wrote_bytes addr (take n d) pe1 ?pe'" by (simp_all add: min_def)
    have "write_chunk B fr d page addr pe = write_chunk B fr (drop n d) (Some p) (addr + n) ?pe'"
      unfolding unf b using d Some by (simp add: st n_def)
    then show ?thesis using n blob_keeps_trans [OF k1 w(1)] wrote_bytes_same [OF w1 w(2)] p(1) by (auto intro!: exI)
  next
    case None
    then have f: "flags AND DB_ONLY_FROM_CACHE \<noteq> 0" and un: "\<forall>q \<in> set xs1. p_self (pe_store pe1 q) \<noteq> of_nat addr" and
      c: "addr mod ?ps = 0" "?ps \<le> length d" "page_start pe addr = addr"
      using r by (auto simp: flags_def cacheonly_def page_start_def split: if_splits)
    from device_write_page_ok [OF e(2,1) un, of "take ?ps d"] c lt e(5)
    obtain dev where w: "device_write (pe_dev pe1) (cs_filters (pe_cs pe1)) (of_nat addr) (take ?ps d) = (HAM_SUCCESS, dev)"
      "blob_keeps xs1 pe1 (pe1\<lparr>pe_cs := (pe_cs pe1)\<lparr>cs_dev := dev\<rparr>\<rparr>) xs1"
      "wrote_bytes addr (take ?ps d) pe1 (pe1\<lparr>pe_cs := (pe_cs pe1)\<lparr>cs_dev := dev\<rparr>\<rparr>)" by auto
    have "write_chunk B fr d page addr pe = write_chunk B fr (drop ?ps d) None (addr + ?ps) (pe1\<lparr>pe_cs := (pe_cs pe1)\<lparr>cs_dev := dev\<rparr>\<rparr>)"
    proof (cases "?ps < length d")
      case True
      then show ?thesis unfolding unf b using d None c(3) w(1) by simp
    next
      case False
      then have "length d = ?ps" using c(2) by simp
      then show ?thesis unfolding unf b using d None c(3) w(1) by simp
    qed
    then show ?thesis using c(2) pos(1) blob_keeps_trans [OF k1 w(2)] wrote_bytes_same [OF w1 w(3)]
      by (intro exI [of _ ?ps] exI [of _ None] exI [of _ "pe1\<lparr>pe_cs := (pe_cs pe1)\<lparr>cs_dev := dev\<rparr>\<rparr>"] exI [of _ xs1]) simp
  qed
qed

lemma write_chunk_ok:
  assumes "blob_ok pe xs" "page_ok xs page" "pagesize_of pe \<le> addr" "addr + length d \<le> file_len pe"
  shows "\<exists>page' pe' xs'. write_chunk B fr d page addr pe = Some (HAM_SUCCESS, page', addr + length d, pe') \<and>
    blob_keeps xs pe pe' xs' \<and> page_ok xs' page' \<and> wrote_bytes addr d pe pe'"
  using assms
proof (induction "length d" arbitrary: d page addr pe xs rule: less_induct)
  case less
  show ?case
  proof (cases "d = []")
    case True
    then show ?thesis using less.prems by (subst write_chunk.simps) (auto simp: blob_keeps_def intro!: exI)
  next
    case False
    from write_chunk_step [OF less.prems(1,2) False less.prems(3,4)] obtain n page1 pe1 xs1 where
      s: "0 < n" "n \<le> length d" "write_chunk B fr d page addr pe = write_chunk B fr (drop n d) page1 (addr + n) pe1"
      "blob_keeps xs pe pe1 xs1" "page_ok xs1 page1" "wrote_bytes addr (take n d) pe pe1" by metis
    have "length (drop n d) < length d" "blob_ok pe1 xs1" "pagesize_of pe1 \<le> addr + n" "addr + n + length (drop n d) \<le> file_len pe1"
      using s(1,2,4) less.prems(3,4) by (simp_all add: blob_keeps_def)
    from less.hyps [OF this(1,2) s(5) this(3,4)] obtain page' pe' xs' where
      i: "write_chunk B fr (drop n d) page1 (addr + n) pe1 = Some (HAM_SUCCESS, page', addr + n + length (drop n d), pe')"
      "blob_keeps xs1 pe1 pe' xs'" "page_ok xs' page'" "wrote_bytes (addr + n) (drop n d) pe1 pe'" by blast
    have "length (take n d) = n" using s(2) by simp
    then have "wrote_bytes addr (take n d @ drop n d) pe pe'" using wrote_bytes_append [OF s(6)] i(4) by metis
    then show ?thesis using s(2,3) i blob_keeps_trans [OF s(4) i(2)] by (intro exI [of _ page'] exI [of _ pe'] exI [of _ xs']) simp
  qed
qed

lemma write_chunks_ok:
  assumes "blob_ok pe xs" "page_ok xs page" "pagesize_of pe \<le> addr" "addr + length (concat ds) \<le> file_len pe"
  shows "\<exists>pe' xs'. write_chunks B fr ds page addr pe = Some (HAM_SUCCESS, pe') \<and> blob_keeps xs pe pe' xs' \<and> wrote_bytes addr (concat ds) pe pe'"
  using assms
proof (induction ds arbitrary: page addr pe xs)
  case Nil
  then show ?case by (auto simp: blob_keeps_def)
next
  case (Cons d ds)
  from write_chunk_ok [OF Cons.prems(1-3), of d B fr] Cons.prems(4) obtain page1 pe1 xs1 where
    w: "write_chunk B fr d page addr pe = Some (HAM_SUCCESS, page1, addr + length d, pe1)" "blob_keeps xs pe pe1 xs1"
    "page_ok xs1 page1" "wrote_bytes addr d pe pe1" by auto
  from Cons.IH [of pe1 xs1 page1 "addr + length d"] w(2,3) Cons.prems(3,4) obtain pe' xs' where
    i: "write_chunks B fr ds page1 (addr + length d) pe1 = Some (HAM_SUCCESS, pe')" "blob_keeps xs1 pe1 pe' xs'"
    "wrote_bytes (addr + length d) (concat ds) pe1 pe'" by (auto simp: blob_keeps_def)
  then show ?case using w(1) wrote_bytes_append [OF w(4) i(3)] blob_keeps_trans [OF w(2) i(2)] by auto
qed

text \<open>Reading: a part of a page image is a part of the file.\<close>

lemma bytes_at_add: "bytes_at pe x (m + n) = bytes_at pe x m @ bytes_at pe (x + m) n"
  using upt_add_eq_append [of x "x + m" n] by (simp add: bytes_at_def add.assoc)

lemma length_bytes_at [simp]: "length (bytes_at pe x n) = n"
  by (simp add: bytes_at_def)

lemma page_slice:
  assumes ok: "blob_ok pe xs" "x < file_len pe" and img: "content pe (of_nat (page_start pe x)) = Some img" "length img = pagesize_of pe"
    and n: "x mod pagesize_of pe + n \<le> pagesize_of pe"
  shows "take n (drop (x mod pagesize_of pe) img) = bytes_at pe x n"
proof (rule nth_equalityI)
  let ?ps = "pagesize_of pe"
  show "length (take n (drop (x mod ?ps) img)) = length (bytes_at pe x n)" using n img(2) by simp
  fix i assume "i < length (take n (drop (x mod ?ps) img))"
  then have i: "i < n" by simp
  note P = page_start_props [OF ok]
  obtain k where k: "page_start pe x = ?ps * k" using P(1) by (elim dvdE)
  have "(x + i) mod ?ps = (?ps * k + (x mod ?ps + i)) mod ?ps" using P(5) k by (metis add.assoc)
  then have m: "(x + i) mod ?ps = x mod ?ps + i" using i n by simp
  then have "page_start pe (x + i) = page_start pe x" by (simp add: page_start_def)
  then show "take n (drop (x mod ?ps) img) ! i = bytes_at pe x n ! i" using i n img m by (simp add: bytes_at_def byte_at_def)
qed

lemma wrote_bytes_at:
  assumes "wrote_bytes a d pe pe'" "x + n \<le> file_len pe" "x + n \<le> a \<or> a + length d \<le> x"
  shows "bytes_at pe' x n = bytes_at pe x n"
  using assms by (auto simp: wrote_bytes_def bytes_at_def)

lemma read_direct:
  assumes ok: "blob_ok pe xs" "env_ok pe xs ys" and un: "\<forall>q \<in> set xs. p_self (pe_store pe q) \<noteq> of_nat (page_start pe addr)"
    and addr: "addr + n \<le> file_len pe" "addr mod pagesize_of pe + n \<le> pagesize_of pe" and n: "0 < n"
  shows "device_read (pe_dev pe) (cs_filters (pe_cs pe)) (of_nat addr) n = (HAM_SUCCESS, bytes_at pe addr n, pe_dev pe)"
proof -
  have lt: "addr < file_len pe" using addr(1) n by simp
  note P = page_start_props [OF ok(1) lt] and D = env_okD [OF ok(2)] and pos = blob_okD [OF ok(1)]
  have fd: "fscript (dev_fd (pe_dev pe)) = []" using D(5) by (simp add: device_ok_def)
  have u: "unat (of_nat addr :: u64) = addr" using lt pos(3) by (simp add: off_max_def)
  have r: "os_pread (dev_fd (pe_dev pe)) addr n = (HAM_SUCCESS, take n (drop addr (fdata (dev_fd (pe_dev pe)))), dev_fd (pe_dev pe))"
    by (rule os_pread_ok) (use fd addr(1) pos(3) in auto)
  have c: "content pe (of_nat (page_start pe addr)) = Some (page_at (pe_dev pe) (page_start pe addr))"
    using content_file [OF ok(2) un] P(6) by simp
  have "take n (drop (addr mod pagesize_of pe) (page_at (pe_dev pe) (page_start pe addr))) = take n (drop addr (fdata (dev_fd (pe_dev pe))))"
    using addr(2) P(5) by (simp add: page_at_def drop_take add.commute min_def)
  moreover have "length (page_at (pe_dev pe) (page_start pe addr)) = pagesize_of pe" using P(4) by (simp add: page_at_def)
  ultimately have "take n (drop addr (fdata (dev_fd (pe_dev pe)))) = bytes_at pe addr n"
    using page_slice [OF ok(1) lt c _ addr(2)] by simp
  then show ?thesis using r u D(6) by (simp add: device_read_def)
qed

lemma read_chunk_step:
  assumes ok: "blob_ok pe xs" "page_ok xs page" and sz: "0 < sz" and addr: "pagesize_of pe \<le> addr" "addr + sz \<le> file_len pe"
  shows "\<exists>n page' pe' xs'. 0 < n \<and> n \<le> sz \<and>
    read_chunk B sz acc page addr pe = read_chunk B (sz - n) (acc @ bytes_at pe addr n) page' (addr + n) pe' \<and>
    blob_keeps xs pe pe' xs' \<and> page_ok xs' page' \<and> wrote_bytes 0 [] pe pe'"
proof -
  let ?ps = "pagesize_of pe"
  have lt: "addr < file_len pe" using addr(2) sz by simp
  note P = page_start_props [OF ok(1) lt] and pos = blob_okD [OF ok(1)]
  define flags where "flags = (if blob_from_cache B pe sz then 0 else DB_ONLY_FROM_CACHE)"
  from blob_page_spec [OF ok addr(1) lt refl, of flags] obtain r pe1 xs1 ys1 where
    b: "blob_page pe page (of_nat (page_start pe addr)) flags = Some (HAM_SUCCESS, r, pe1)" and
    e: "env_ok pe1 xs1 ys1" "blob_ok pe1 xs1" "set xs \<subseteq> set xs1" "same_env pe pe1" "pe_dev pe1 = pe_dev pe" and
    r: "case r of Some p \<Rightarrow> p \<in> set xs1 \<and> p_self (pe_store pe1 p) = of_nat (page_start pe addr)
     | None \<Rightarrow> flags AND DB_ONLY_FROM_CACHE \<noteq> 0 \<and> (\<forall>q \<in> set xs1. p_self (pe_store pe1 q) \<noteq> of_nat (page_start pe addr))" by blast
  have s1: "page_start pe1 addr = page_start pe addr" using e(5) by (simp add: page_start_def)
  have k1: "blob_keeps xs pe pe1 xs1" using e by (simp add: blob_keeps_def)
  have w1: "wrote_bytes 0 [] pe pe1" using same_env_bytes [OF ok(1) e(4,5)] .
  define n where "n = (if ?ps - addr mod ?ps > sz then sz else ?ps - addr mod ?ps)"
  have n: "0 < n" "n \<le> sz" "addr mod ?ps + n \<le> ?ps" using sz pos(1) by (auto simp: n_def)
  have B1: "bytes_at pe1 addr n = bytes_at pe addr n" using wrote_bytes_at [OF w1, of addr n] addr(2) n(2) by simp
  note unf = read_chunk.simps [of B sz acc page addr pe, unfolded Let_def page_start_def [symmetric], folded flags_def]
  show ?thesis
  proof (cases r)
    case (Some p)
    then have p: "p \<in> set xs1" "p_self (pe_store pe1 p) = of_nat (page_start pe1 addr)" using r s1 by simp_all
    have st: "addr - unat (p_self (pe_store pe1 p)) = addr mod ?ps" using p(2) P(5,6) s1 by simp
    obtain img where img: "content pe1 (of_nat (page_start pe1 addr)) = Some img" "length img = pagesize_of pe1"
      using content_image [OF e(1), of "of_nat (page_start pe1 addr)"] P(7) s1 e(5) by auto
    have "p_pers (pe_store pe1 p) = Some img" using content_cached [OF e(1) p(1)] p(2) img(1) by simp
    then have "take n (drop (addr mod ?ps) (case_option [] id (p_pers (pe_store pe1 p)))) = bytes_at pe addr n"
      using page_slice [OF e(2) _ img, of n] lt n(3) e(5) B1 by simp
    then have "read_chunk B sz acc page addr pe = read_chunk B (sz - n) (acc @ bytes_at pe addr n) (Some p) (addr + n) pe1"
      unfolding unf b using sz Some by (cases "?ps - addr mod ?ps > sz") (simp_all add: st n_def)
    then show ?thesis using n k1 w1 p(1) by (intro exI [of _ n] exI [of _ "Some p"] exI [of _ pe1] exI [of _ xs1]) simp
  next
    case None
    then have un: "\<forall>q \<in> set xs1. p_self (pe_store pe1 q) \<noteq> of_nat (page_start pe1 addr)" using r s1 by simp
    have d: "device_read (pe_dev pe1) (cs_filters (pe_cs pe1)) (of_nat addr) n = (HAM_SUCCESS, bytes_at pe addr n, pe_dev pe1)"
      using read_direct [OF e(2,1) un, of n] n addr(2) e(5) B1 by simp
    have "(if (if sz < ?ps then sz else ?ps) > page_start pe addr + ?ps - addr then page_start pe addr + ?ps - addr
       else if sz < ?ps then sz else ?ps) = n" using P(5) by (auto simp: n_def)
    then have "read_chunk B sz acc page addr pe = read_chunk B (sz - n) (acc @ bytes_at pe addr n) None (addr + n) pe1"
      unfolding unf b using sz None d by simp
    then show ?thesis using n k1 w1 by (intro exI [of _ n] exI [of _ None] exI [of _ pe1] exI [of _ xs1]) simp
  qed
qed

lemma read_chunk_ok:
  assumes "blob_ok pe xs" "page_ok xs page" "pagesize_of pe \<le> addr" "addr + sz \<le> file_len pe"
  shows "\<exists>page' pe' xs'. read_chunk B sz acc page addr pe = Some (HAM_SUCCESS, page', acc @ bytes_at pe addr sz, pe') \<and>
    blob_keeps xs pe pe' xs' \<and> page_ok xs' page' \<and> wrote_bytes 0 [] pe pe'"
  using assms
proof (induction sz arbitrary: acc page addr pe xs rule: less_induct)
  case (less sz)
  show ?case
  proof (cases "sz = 0")
    case True
    then show ?thesis using less.prems by (subst read_chunk.simps) (auto simp: blob_keeps_def bytes_at_def intro!: exI)
  next
    case False
    then have "0 < sz" by simp
    from read_chunk_step [OF less.prems(1,2) this less.prems(3,4), of B acc] obtain n page1 pe1 xs1 where
      s: "0 < n" "n \<le> sz" "read_chunk B sz acc page addr pe = read_chunk B (sz - n) (acc @ bytes_at pe addr n) page1 (addr + n) pe1"
      "blob_keeps xs pe pe1 xs1" "page_ok xs1 page1" "wrote_bytes 0 [] pe pe1" by metis
    have "sz - n < sz" "blob_ok pe1 xs1" "pagesize_of pe1 \<le> addr + n" "addr + n + (sz - n) \<le> file_len pe1"
      using s(1,2,4) less.prems(3,4) by (simp_all add: blob_keeps_def)
    from less.IH [OF this(1,2) s(5) this(3,4), of "acc @ bytes_at pe addr n"] obtain page' pe' xs' where
      i: "read_chunk B (sz - n) (acc @ bytes_at pe addr n) page1 (addr + n) pe1 =
         Some (HAM_SUCCESS, page', (acc @ bytes_at pe addr n) @ bytes_at pe1 (addr + n) (sz - n), pe')"
      "blob_keeps xs1 pe1 pe' xs'" "page_ok xs' page'" "wrote_bytes 0 [] pe1 pe'" by blast
    have "bytes_at pe1 (addr + n) (sz - n) = bytes_at pe (addr + n) (sz - n)" using wrote_bytes_at [OF s(6)] less.prems(4) s(2) by simp
    then have "(acc @ bytes_at pe addr n) @ bytes_at pe1 (addr + n) (sz - n) = acc @ bytes_at pe addr sz"
      using bytes_at_add [of pe addr n "sz - n"] s(2) by simp
    then show ?thesis using s(3) i blob_keeps_trans [OF s(4) i(2)] wrote_bytes_same [OF s(6) i(4)]
      by (intro exI [of _ page'] exI [of _ pe'] exI [of _ xs']) simp
  qed
qed

section \<open>Room for a blob\<close>

lemma round_up_props:
  assumes "0 < n" "x + n \<le> 2 ^ 32"
  shows "n dvd round_up n x" "x \<le> round_up n x" "round_up n x < x + n"
proof -
  define y where "y = x + (n - 1)"
  have r: "round_up n x = y - y mod n" using assms by (simp add: round_up_def sz32_def y_def)
  have m: "y mod n < n" "y mod n \<le> y" using assms(1) by simp_all
  show "n dvd round_up n x" by (simp add: r minus_mod_eq_mult_div)
  show "x \<le> round_up n x" "round_up n x < x + n" using m assms(1) y_def r by linarith+
qed

text \<open>An operation that may let the file grow.\<close>

definition blob_grows :: "pid list \<Rightarrow> page_env \<Rightarrow> page_env \<Rightarrow> pid list \<Rightarrow> bool" where
  "blob_grows xs pe pe' xs' \<longleftrightarrow> blob_ok pe' xs' \<and> set xs \<subseteq> set xs' \<and> pagesize_of pe' = pagesize_of pe \<and> file_len pe \<le> file_len pe'"

text \<open>
  What the blobs rely on in the freelist: it hands out areas of the file behind the header
  page, or none, and freeing an area keeps the environment consistent.
\<close>

definition freel_ok :: "blob_ctx \<Rightarrow> bool" where
  "freel_ok B \<longleftrightarrow>
     (\<forall>n pe xs. blob_ok pe xs \<longrightarrow> (\<exists>addr pe1 xs1. bc_freel_alloc_area B n pe = (HAM_SUCCESS, addr, pe1) \<and>
        blob_keeps xs pe pe1 xs1 \<and> (addr = 0 \<or> pagesize_of pe \<le> addr \<and> addr + n \<le> file_len pe))) \<and>
     (\<forall>a n pe xs. blob_ok pe xs \<longrightarrow> a + n \<le> file_len pe \<longrightarrow> (\<exists>xs1. blob_grows xs pe (snd (bc_freel_mark_free B a n pe)) xs1))"

text \<open>There is room in the file, and in the 32 bits of a size, for an area of \<open>n\<close> bytes and two pages.\<close>

definition blob_room :: "page_env \<Rightarrow> nat \<Rightarrow> bool" where
  "blob_room pe n \<longleftrightarrow> pagesize_of pe \<le> file_len pe \<and> n + pagesize_of pe \<le> 2 ^ 32 \<and>
     file_len pe + n + 2 * pagesize_of pe < off_max \<and> file_len pe + n + 2 * pagesize_of pe < (2 ^ 32 - 1) * pagesize_of pe"

definition space_ok :: "pid list \<Rightarrow> page_env \<Rightarrow> nat \<Rightarrow> blob_space \<Rightarrow> bool" where
  "space_ok xs pe n sp \<longleftrightarrow> page_ok xs (bs_page sp) \<and> pagesize_of pe \<le> bs_addr sp \<and> bs_addr sp + n \<le> file_len pe"

lemma space_ok_mono: "space_ok xs pe n sp \<Longrightarrow> blob_grows xs pe pe' xs' \<Longrightarrow> space_ok xs' pe' n sp"
  by (auto simp: space_ok_def blob_grows_def intro: page_ok_mono)

lemma blob_grows_trans: "blob_grows xs a b xs1 \<Longrightarrow> blob_grows xs1 b c xs2 \<Longrightarrow> blob_grows xs a c xs2"
  by (auto simp: blob_grows_def)

lemma keeps_grows: "blob_keeps xs pe pe' xs' \<Longrightarrow> blob_grows xs pe pe' xs'"
  by (simp add: blob_keeps_def blob_grows_def)

text \<open>A page of its own.\<close>

lemma blob_alloc_page:
  assumes ok: "blob_ok pe xs" and room: "blob_room pe n" and ps: "4 \<le> pagesize_of pe" "n \<le> pagesize_of pe"
  shows "\<exists>p pe' xs'. db_alloc_page_impl pe TYPE_BLOB PAGE_IGNORE_FREELIST = Some (HAM_SUCCESS, Some p, pe') \<and>
    blob_grows xs pe (mark_no_header p pe') xs' \<and> p \<in> set xs' \<and> unat (p_self (pe_store (mark_no_header p pe') p)) = file_len pe \<and>
    file_len (mark_no_header p pe') = file_len pe + pagesize_of pe"
proof -
  obtain ys where e: "env_ok pe xs ys" using ok by (auto simp: blob_ok_def)
  have strict: "pe_flags pe AND HAM_CACHE_STRICT = 0" and small: "file_len pe < (2 ^ 32 - 1) * pagesize_of pe"
    using ok by (simp_all add: blob_ok_def)
  have len: "0 < file_len pe" "file_len pe + 2 * pagesize_of pe < off_max"
    "file_len pe + pagesize_of pe < (2 ^ 32 - 1) * pagesize_of pe" using room blob_okD(1) [OF ok] by (auto simp: blob_room_def)
  from alloc_new_page_ok [OF e cached_count [OF e small] strict ps(1) len(1,2), of TYPE_BLOB PAGE_IGNORE_FREELIST]
  obtain pe' ys' where a: "alloc_new_page TYPE_BLOB PAGE_IGNORE_FREELIST pe = (HAM_SUCCESS, Some (pe_next pe), pe')"
    "env_ok pe' (pe_next pe # xs) ys'" "p_self (pe_store pe' (pe_next pe)) = of_nat (file_len pe)" "pe_flags pe' = pe_flags pe"
    "pe_dev pe' = grow_device (pe_dev pe) (pagesize_of pe)" by blast
  from mark_no_header_ok [OF a(2), of "pe_next pe"] have
    m: "env_ok (mark_no_header (pe_next pe) pe') (pe_next pe # xs) ys'" "pe_flags (mark_no_header (pe_next pe) pe') = pe_flags pe"
    "pe_dev (mark_no_header (pe_next pe) pe') = pe_dev pe'" "p_self (pe_store (mark_no_header (pe_next pe) pe') (pe_next pe)) = of_nat (file_len pe)"
    using a(3,4) by (simp_all add: same_env_def)
  have "blob_grows xs pe (mark_no_header (pe_next pe) pe') (pe_next pe # xs)"
    using m a(5) strict len(3) unfolding blob_grows_def blob_ok_def by auto
  moreover have "db_alloc_page_impl pe TYPE_BLOB PAGE_IGNORE_FREELIST = Some (HAM_SUCCESS, Some (pe_next pe), pe')"
    using a(1) by (simp add: db_alloc_page_impl_def PAGE_IGNORE_FREELIST_def)
  moreover have "unat (of_nat (file_len pe) :: u64) = file_len pe" using len(2) by (simp add: off_max_def)
  ultimately show ?thesis using m(3,4) a(5)
    by (intro exI [of _ "pe_next pe"] exI [of _ pe'] exI [of _ "pe_next pe # xs"]) simp
qed

text \<open>Whole pages at the end of the file.\<close>

lemma blob_grow_file:
  assumes ok: "blob_ok pe xs" and n: "pagesize_of pe dvd n" "file_len pe + n + pagesize_of pe < off_max"
      "file_len pe + n < (2 ^ 32 - 1) * pagesize_of pe"
    and pe': "pe' = pe\<lparr>pe_cs := (pe_cs pe)\<lparr>cs_dev := grow_device (pe_dev pe) n\<rparr>\<rparr>"
  shows "device_alloc (pe_dev pe) n = (HAM_SUCCESS, of_nat (file_len pe), grow_device (pe_dev pe) n)" "blob_grows xs pe pe' xs"
    "file_len pe' = file_len pe + n"
proof -
  obtain ys where e: "env_ok pe xs ys" using ok by (auto simp: blob_ok_def)
  show "device_alloc (pe_dev pe) n = (HAM_SUCCESS, of_nat (file_len pe), grow_device (pe_dev pe) n)"
    by (rule device_alloc_ok [OF env_okD(5) [OF e]]) (use n(2) in simp)
  show "blob_grows xs pe pe' xs" using env_ok_grow [OF e n(1,2) pe'] ok n(3) unfolding blob_grows_def blob_ok_def by (auto simp: pe')
  show "file_len pe' = file_len pe + n" by (simp add: pe')
qed

lemma blob_find_space_ok:
  assumes ok: "blob_ok pe xs" and B: "freel_ok B" and room: "blob_room pe n" "0 < n"
  shows "\<exists>sp pe' xs'. blob_find_space B n pe = Some (Inr sp, pe') \<and> blob_grows xs pe pe' xs' \<and> space_ok xs' pe' n sp"
proof -
  from B ok obtain addr pe1 xs1 where
    a: "bc_freel_alloc_area B n pe = (HAM_SUCCESS, addr, pe1)" "blob_keeps xs pe pe1 xs1" "addr = 0 \<or> pagesize_of pe \<le> addr \<and> addr + n \<le> file_len pe"
    unfolding freel_ok_def by metis
  have free: "\<exists>xs1. blob_grows xs pe (snd (bc_freel_mark_free B a n pe)) xs1" if "blob_ok pe xs" "a + n \<le> file_len pe" for a n pe xs
    using B that by (simp add: freel_ok_def)
  have ok1: "blob_ok pe1 xs1" and room1: "blob_room pe1 n" using a(2) room(1) by (simp_all add: blob_keeps_def blob_room_def)
  note g1 = keeps_grows [OF a(2)]
  have lens: "file_len pe1 + n + 2 * pagesize_of pe1 < off_max" "n + pagesize_of pe1 \<le> 2 ^ 32"
    "file_len pe1 + n + 2 * pagesize_of pe1 < (2 ^ 32 - 1) * pagesize_of pe1" "pagesize_of pe1 \<le> file_len pe1"
    using room1 by (simp_all add: blob_room_def)
  consider "addr \<noteq> 0" | "addr = 0" "blob_from_cache B pe1 n" | "addr = 0" "\<not> blob_from_cache B pe1 n" by blast
  then show ?thesis
  proof cases
    case 1
    then show ?thesis using a g1 by (auto simp: blob_find_space_def space_ok_def blob_keeps_def intro!: exI [of _ xs1])
  next
    case 2
    then have ps: "4 \<le> pagesize_of pe1" "n \<le> pagesize_of pe1" using room(2)
      by (auto simp: blob_from_cache_def sizeof_persistent_header_def split: if_splits)
    from blob_alloc_page [OF ok1 room1 ps] obtain p pe2 xs2 where
      p: "db_alloc_page_impl pe1 TYPE_BLOB PAGE_IGNORE_FREELIST = Some (HAM_SUCCESS, Some p, pe2)" "blob_grows xs1 pe1 (mark_no_header p pe2) xs2"
      "p \<in> set xs2" "unat (p_self (pe_store (mark_no_header p pe2) p)) = file_len pe1"
      "file_len (mark_no_header p pe2) = file_len pe1 + pagesize_of pe1" by blast
    let ?pe3 = "mark_no_header p pe2"
    define sp where "sp = \<lparr>bs_addr = file_len pe1, bs_alloc_size = n, bs_page = Some p, bs_fresh = False\<rparr>"
    have ps3: "pagesize_of ?pe3 = pagesize_of pe1" "blob_ok ?pe3 xs2" using p(2) by (simp_all add: blob_grows_def)
    have "file_len pe1 + n + (pagesize_of ?pe3 - n) \<le> file_len ?pe3" using p(5) ps ps3 by simp
    from free [OF ps3(2) this] obtain xs3 where f: "blob_grows xs2 ?pe3 (snd (bc_freel_mark_free B (file_len pe1 + n) (pagesize_of ?pe3 - n) ?pe3)) xs3" by blast
    have "space_ok xs2 ?pe3 n sp" using p(3,5) ps ps3 lens(4) by (simp add: space_ok_def sp_def)
    moreover have "blob_find_space B n pe = Some (Inr sp, snd (bc_freel_mark_free B (file_len pe1 + n) (pagesize_of ?pe3 - n) ?pe3))"
      using a(1) 2 p(1,4) by (simp add: blob_find_space_def sp_def Let_def)
    ultimately show ?thesis using blob_grows_trans [OF g1 blob_grows_trans [OF p(2) f]] space_ok_mono [OF _ f] by blast
  next
    case 3
    let ?al = "round_up (pagesize_of pe1) n"
    note R = round_up_props [OF blob_okD(1) [OF ok1] lens(2)]
    define pe2 where "pe2 = pe1\<lparr>pe_cs := (pe_cs pe1)\<lparr>cs_dev := grow_device (pe_dev pe1) ?al\<rparr>\<rparr>"
    have "file_len pe1 + ?al + pagesize_of pe1 < off_max" "file_len pe1 + ?al < (2 ^ 32 - 1) * pagesize_of pe1" using R(3) lens(1,3) by linarith+
    note G = blob_grow_file [OF ok1 R(1) this pe2_def]
    have u: "unat (of_nat (file_len pe1) :: u64) = file_len pe1" using lens(1) by (simp add: off_max_def)
    have s: "space_ok xs1 pe2 n sp" if "bs_addr sp = file_len pe1" "bs_page sp = None" for sp
      using that G(2,3) R(2) lens(4) by (simp add: space_ok_def blob_grows_def)
    show ?thesis
    proof (cases "?al - n > SMALLEST_CHUNK_SIZE")
      case True
      have "file_len pe1 + n + (?al - n) \<le> file_len pe2" using G(3) R(2) by simp
      moreover have "blob_ok pe2 xs1" using G(2) by (simp add: blob_grows_def)
      ultimately obtain xs3 where f: "blob_grows xs1 pe2 (snd (bc_freel_mark_free B (file_len pe1 + n) (?al - n) pe2)) xs3" using free by blast
      show ?thesis using a(1) 3 G(1) u True blob_grows_trans [OF g1 blob_grows_trans [OF G(2) f]] space_ok_mono [OF s f]
        by (auto simp: blob_find_space_def Let_def pe2_def [symmetric] intro!: exI [of _ xs3])
    next
      case False
      then show ?thesis using a(1) 3 G(1) u blob_grows_trans [OF g1 G(2)] s
        by (auto simp: blob_find_space_def Let_def pe2_def [symmetric] intro!: exI [of _ xs1])
    qed
  qed
qed

section \<open>Writing a blob\<close>

text \<open>
  \<open>inside\<close>: \<open>n\<close> bytes at \<open>a\<close> are part of the file behind the header page. \<open>stored\<close>: an operation
  has written \<open>d\<close> at \<open>a\<close> and nothing else.
\<close>

definition inside :: "blob_space \<Rightarrow> pid list \<Rightarrow> page_env \<Rightarrow> nat \<Rightarrow> nat \<Rightarrow> bool" where
  "inside sp xs pe a n \<longleftrightarrow> blob_ok pe xs \<and> page_ok xs (bs_page sp) \<and> pagesize_of pe \<le> a \<and> a + n \<le> file_len pe"

definition stored :: "blob_space \<Rightarrow> pid list \<Rightarrow> page_env \<Rightarrow> nat \<Rightarrow> byte list \<Rightarrow> page_env \<Rightarrow> pid list \<Rightarrow> bool" where
  "stored sp xs pe a d pe' xs' \<longleftrightarrow> blob_keeps xs pe pe' xs' \<and> page_ok xs' (bs_page sp) \<and> wrote_bytes a d pe pe'"

lemma stored_append:
  "stored sp xs pe a d pe1 xs1 \<Longrightarrow> stored sp xs1 pe1 (a + length d) d' pe2 xs2 \<Longrightarrow> stored sp xs pe a (d @ d') pe2 xs2"
  using blob_keeps_trans wrote_bytes_append by (auto simp: stored_def)

lemma stored_zeros:
  assumes "stored sp xs pe a (replicate m 0) pe1 xs1" "stored sp xs1 pe1 (a + m) (replicate n 0) pe2 xs2"
  shows "stored sp xs pe a (replicate (m + n) 0) pe2 xs2"
  using stored_append [OF assms(1), of "replicate n 0"] assms(2) by (simp add: replicate_add)

lemma stored_Nil: "inside sp xs pe a n \<Longrightarrow> stored sp xs pe a [] pe xs"
  by (simp add: inside_def stored_def blob_keeps_def)

lemma inside_next: "inside sp xs pe a (m + n) \<Longrightarrow> stored sp xs pe b d pe' xs' \<Longrightarrow> inside sp xs' pe' (a + m) n"
  by (simp add: inside_def stored_def blob_keeps_def)

lemma inside_mono: "inside sp xs pe a m \<Longrightarrow> n \<le> m \<Longrightarrow> inside sp xs pe a n"
  by (simp add: inside_def)

lemma write_piece:
  assumes "inside sp xs pe a (length (concat ds))"
  shows "\<exists>pe' xs'. write_chunks B (bs_fresh sp) ds (bs_page sp) a pe = Some (HAM_SUCCESS, pe') \<and> stored sp xs pe a (concat ds) pe' xs'"
  using write_chunks_ok [of pe xs "bs_page sp" a ds B "bs_fresh sp"] assms
  by (auto simp: inside_def stored_def blob_keeps_def dest: page_ok_mono)

lemma write_piece1:
  assumes "inside sp xs pe a (length d)"
  shows "\<exists>pe' xs'. write_chunks B (bs_fresh sp) [d] (bs_page sp) a pe = Some (HAM_SUCCESS, pe') \<and> stored sp xs pe a d pe' xs'"
  using write_piece [of sp xs pe a "[d]" B] assms by (simp del: write_chunks.simps)

text \<open>The gaps of a partial record.\<close>

lemma write_zero_page:
  assumes "inside sp xs pe a gap" "pagesize_of pe \<le> gap"
  shows "\<exists>pe' xs'. write_chunks B (bs_fresh sp) [replicate (pagesize_of pe) 0] (bs_page sp) a pe = Some (HAM_SUCCESS, pe') \<and>
    stored sp xs pe a (replicate (pagesize_of pe) 0) pe' xs' \<and> inside sp xs' pe' (a + pagesize_of pe) (gap - pagesize_of pe) \<and>
    gap - pagesize_of pe < gap"
proof -
  have pos: "0 < pagesize_of pe" using assms(1) blob_okD(1) by (auto simp: inside_def)
  from write_piece1 [of sp xs pe a "replicate (pagesize_of pe) 0" B] inside_mono [OF assms] obtain pe' xs' where
    w: "write_chunks B (bs_fresh sp) [replicate (pagesize_of pe) 0] (bs_page sp) a pe = Some (HAM_SUCCESS, pe')"
    "stored sp xs pe a (replicate (pagesize_of pe) 0) pe' xs'" by (auto simp del: write_chunks.simps)
  have "inside sp xs' pe' (a + pagesize_of pe) (gap - pagesize_of pe)" by (rule inside_next [OF _ w(2)]) (use assms in simp)
  then show ?thesis using w pos assms(2) by (intro exI [of _ pe'] exI [of _ xs']) (simp del: write_chunks.simps)
qed

lemma head_gap_ok:
  assumes "inside sp xs pe a gap"
  shows "\<exists>g pe' xs'. head_gap B sp gap a pe = Some (g, a + (gap - g), pe') \<and> g \<le> gap \<and> stored sp xs pe a (replicate (gap - g) 0) pe' xs'"
  using assms
proof (induction gap arbitrary: a pe xs rule: less_induct)
  case (less gap)
  let ?ps = "pagesize_of pe"
  show ?case
  proof (cases "gap < ?ps")
    case True
    then show ?thesis using stored_Nil [OF less.prems]
      by (subst head_gap.simps) (auto intro!: exI [of _ gap] exI [of _ pe] exI [of _ xs])
  next
    case False
    then have le: "?ps \<le> gap" by simp
    from write_zero_page [OF less.prems le, of B] obtain pe1 xs1 where
      w: "write_chunks B (bs_fresh sp) [replicate ?ps 0] (bs_page sp) a pe = Some (HAM_SUCCESS, pe1)"
      "stored sp xs pe a (replicate ?ps 0) pe1 xs1" "inside sp xs1 pe1 (a + ?ps) (gap - ?ps)" "gap - ?ps < gap" by blast
    from less.IH [OF w(4,3)] obtain g pe' xs' where
      i: "head_gap B sp (gap - ?ps) (a + ?ps) pe1 = Some (g, a + ?ps + (gap - ?ps - g), pe')" "g \<le> gap - ?ps"
      "stored sp xs1 pe1 (a + ?ps) (replicate (gap - ?ps - g) 0) pe' xs'" by blast
    have "head_gap B sp gap a pe = Some (g, a + (gap - g), pe')" using w(1) i(1,2) le by (subst head_gap.simps) simp
    moreover have "?ps + (gap - ?ps - g) = gap - g" using le i(2) by simp
    ultimately show ?thesis using stored_zeros [OF w(2) i(3)] i(2) by (intro exI [of _ g] exI [of _ pe'] exI [of _ xs']) simp
  qed
qed

lemma tail_gap_ok:
  assumes "inside sp xs pe a gap" "bc_debug B \<longrightarrow> gap = 0 \<or> \<not> pagesize_of pe dvd gap"
  shows "\<exists>pe' xs'. tail_gap B sp gap a pe = Some (HAM_SUCCESS, pe') \<and> stored sp xs pe a (replicate gap 0) pe' xs'"
  using assms
proof (induction gap arbitrary: a pe xs rule: less_induct)
  case (less gap)
  let ?ps = "pagesize_of pe"
  have pos: "0 < ?ps" using less.prems(1) blob_okD(1) by (auto simp: inside_def)
  show ?case
  proof (cases "gap \<le> ?ps")
    case True
    moreover have "\<not> (bc_debug B \<and> \<not> gap < ?ps)" using True less.prems(2) pos by (cases "gap = ?ps") auto
    ultimately show ?thesis using write_piece1 [of sp xs pe a "replicate gap 0" B] less.prems(1)
      by (subst tail_gap.simps) (simp del: write_chunks.simps)
  next
    case False
    then have le: "?ps \<le> gap" by simp
    from write_zero_page [OF less.prems(1) le, of B] obtain pe1 xs1 where
      w: "write_chunks B (bs_fresh sp) [replicate ?ps 0] (bs_page sp) a pe = Some (HAM_SUCCESS, pe1)"
      "stored sp xs pe a (replicate ?ps 0) pe1 xs1" "inside sp xs1 pe1 (a + ?ps) (gap - ?ps)" "gap - ?ps < gap" by blast
    have "pagesize_of pe1 = ?ps" using w(2) by (simp add: stored_def blob_keeps_def)
    then have "bc_debug B \<longrightarrow> gap - ?ps = 0 \<or> \<not> pagesize_of pe1 dvd gap - ?ps"
      using less.prems(2) le False by (auto simp: dvd_minus_self)
    from less.IH [OF w(4,3) this] obtain pe' xs' where
      i: "tail_gap B sp (gap - ?ps) (a + ?ps) pe1 = Some (HAM_SUCCESS, pe')"
      "stored sp xs1 pe1 (a + ?ps) (replicate (gap - ?ps) 0) pe' xs'" by blast
    have "tail_gap B sp gap a pe = Some (HAM_SUCCESS, pe')" using w(1) i(1) False by (subst tail_gap.simps) simp
    then show ?thesis using stored_zeros [OF w(2) i(2)] le by auto
  qed
qed

text \<open>The assertion fails for every gap that is a positive multiple of the page size.\<close>

lemma tail_gap_asserts:
  assumes "inside sp xs pe a gap" "bc_debug B" "0 < gap" "pagesize_of pe dvd gap"
  shows "tail_gap B sp gap a pe = None"
  using assms
proof (induction gap arbitrary: a pe xs rule: less_induct)
  case (less gap)
  let ?ps = "pagesize_of pe"
  have le: "?ps \<le> gap" using less.prems(3,4) by (simp add: dvd_imp_le)
  show ?case
  proof (cases "gap \<le> ?ps")
    case True
    then show ?thesis using le less.prems(2) by (subst tail_gap.simps) simp
  next
    case False
    from write_zero_page [OF less.prems(1) le, of B] obtain pe1 xs1 where
      w: "write_chunks B (bs_fresh sp) [replicate ?ps 0] (bs_page sp) a pe = Some (HAM_SUCCESS, pe1)"
      "stored sp xs pe a (replicate ?ps 0) pe1 xs1" "inside sp xs1 pe1 (a + ?ps) (gap - ?ps)" "gap - ?ps < gap" by blast
    have "pagesize_of pe1 = ?ps" using w(2) by (simp add: stored_def blob_keeps_def)
    then have "tail_gap B sp (gap - ?ps) (a + ?ps) pe1 = None"
      using less.IH [OF w(4,3) less.prems(2)] less.prems(4) False le by (simp add: dvd_minus_self)
    then show ?thesis using w(1) False by (subst tail_gap.simps) simp
  qed
qed

text \<open>The data of a record as it is stored, with zeros in the gaps of a partial one.\<close>

definition blob_image :: "u32 \<Rightarrow> blob_rec \<Rightarrow> byte list" where
  "blob_image flags r =
     (if is_partial flags r
      then replicate (br_partial_offset r) 0 @ take (br_partial_size r) (br_data r) @
        replicate (br_size r - (br_partial_offset r + br_partial_size r)) 0
      else take (br_size r) (br_data r))"

definition rec_ok :: "u32 \<Rightarrow> blob_rec \<Rightarrow> bool" where
  "rec_ok flags r \<longleftrightarrow>
     (if is_partial flags r then br_partial_offset r + br_partial_size r \<le> br_size r \<and> br_partial_size r \<le> length (br_data r)
      else br_size r \<le> length (br_data r))"

lemma length_blob_image: "rec_ok flags r \<Longrightarrow> length (blob_image flags r) = br_size r"
  by (auto simp: rec_ok_def blob_image_def)

lemma write_front_gap:
  assumes s: "inside sp xs pe (bs_addr sp) (length hdr + br_partial_offset r + br_partial_size r)" and hdr: "length hdr = sizeof_blob_t"
    and r: "br_partial_offset r \<noteq> 0" "br_partial_size r \<le> length (br_data r)"
  defines "d \<equiv> hdr @ replicate (br_partial_offset r) 0 @ take (br_partial_size r) (br_data r)"
  shows "\<exists>pe' xs'. write_front B sp hdr r True pe = Some (HAM_SUCCESS, bs_addr sp + length d, pe') \<and> stored sp xs pe (bs_addr sp) d pe' xs'"
proof -
  let ?a = "bs_addr sp" and ?off = "br_partial_offset r" and ?t = "take (br_partial_size r) (br_data r)"
  from write_piece1 [OF inside_mono [OF s, of "length hdr"], of B] obtain pe1 xs1 where
    w1: "write_chunks B (bs_fresh sp) [hdr] (bs_page sp) ?a pe = Some (HAM_SUCCESS, pe1)" "stored sp xs pe ?a hdr pe1 xs1" by auto
  have s1: "inside sp xs1 pe1 (?a + length hdr) (?off + br_partial_size r)" using inside_next [OF _ w1(2)] s by (simp add: add.assoc)
  from head_gap_ok [OF inside_mono [OF s1, of ?off], of B] obtain g pe2 xs2 where
    w2: "head_gap B sp ?off (?a + length hdr) pe1 = Some (g, ?a + length hdr + (?off - g), pe2)" "g \<le> ?off"
    "stored sp xs1 pe1 (?a + length hdr) (replicate (?off - g) 0) pe2 xs2" by auto
  define b where "b = ?a + length hdr + (?off - g)"
  have bg: "b + g = ?a + length hdr + ?off" using w2(2) by (simp add: b_def)
  note gap = w2(1) [folded b_def, unfolded hdr]
  have s2: "inside sp xs2 pe2 b (g + br_partial_size r)"
    unfolding b_def by (rule inside_next [OF _ w2(3)]) (use s1 w2(2) in simp)
  from write_piece1 [of sp xs2 pe2 b "replicate g 0" B] inside_mono [OF s2, of g] obtain pe3 xs3 where
    w3: "write_chunks B (bs_fresh sp) [replicate g 0] (bs_page sp) b pe2 = Some (HAM_SUCCESS, pe3)" "stored sp xs2 pe2 b (replicate g 0) pe3 xs3"
    by (auto simp del: write_chunks.simps)
  have g: "(if g \<noteq> 0 then write_chunks B (bs_fresh sp) [replicate g 0] (bs_page sp) b pe2 else Some (HAM_SUCCESS, pe2)) = Some (HAM_SUCCESS, pe3)"
    using w3(1) by (auto simp: write_chunk.simps)
  from write_piece1 [of sp xs3 pe3 "b + g" ?t B] inside_next [OF s2 w3(2)] r(2) obtain pe4 xs4 where
    w4: "write_chunks B (bs_fresh sp) [?t] (bs_page sp) (b + g) pe3 = Some (HAM_SUCCESS, pe4)" "stored sp xs3 pe3 (b + g) ?t pe4 xs4"
    by (auto simp del: write_chunks.simps)
  have "stored sp xs1 pe1 (?a + length hdr) (replicate ?off 0) pe3 xs3" using stored_zeros [OF w2(3) w3(2) [unfolded b_def]] w2(2) by simp
  from stored_append [OF this] w4(2) bg have "stored sp xs1 pe1 (?a + length hdr) (replicate ?off 0 @ ?t) pe4 xs4" by simp
  from stored_append [OF w1(2) this] have "stored sp xs pe ?a d pe4 xs4" by (simp add: d_def)
  moreover have "write_front B sp hdr r True pe = Some (HAM_SUCCESS, ?a + length d, pe4)"
    unfolding write_front_def using r w1(1) gap g w4(1) bg hdr by (cases "g = 0") (simp_all add: d_def del: write_chunks.simps)
  ultimately show ?thesis by blast
qed

lemma write_front_plain:
  assumes s: "inside sp xs pe (bs_addr sp) (length hdr + length d)" and hdr: "length hdr = sizeof_blob_t"
    and d: "d = take (if partial then br_partial_size r else br_size r) (br_data r)" "length d = (if partial then br_partial_size r else br_size r)"
    and r: "\<not> (partial \<and> br_partial_offset r \<noteq> 0)"
  shows "\<exists>pe' xs'. write_front B sp hdr r partial pe = Some (HAM_SUCCESS, bs_addr sp + length (hdr @ d), pe') \<and>
    stored sp xs pe (bs_addr sp) (hdr @ d) pe' xs'"
proof -
  from write_piece [of sp xs pe "bs_addr sp" "[hdr, d]" B] s obtain pe' xs' where
    w: "write_chunks B (bs_fresh sp) [hdr, d] (bs_page sp) (bs_addr sp) pe = Some (HAM_SUCCESS, pe')" "stored sp xs pe (bs_addr sp) (hdr @ d) pe' xs'"
    by (auto simp del: write_chunks.simps)
  have "write_front B sp hdr r partial pe = Some (HAM_SUCCESS, bs_addr sp + length (hdr @ d), pe')"
    using w(1) hdr d(2) unfolding write_front_def if_not_P [OF r] Let_def d(1) [symmetric] by (simp del: write_chunks.simps)
  then show ?thesis using w(2) by blast
qed

lemma write_front_ok:
  assumes s: "inside sp xs pe (bs_addr sp) (length hdr + br_size r)" and hdr: "length hdr = sizeof_blob_t" and r: "rec_ok flags r"
  defines "d \<equiv> hdr @ (if is_partial flags r then replicate (br_partial_offset r) 0 @ take (br_partial_size r) (br_data r)
    else take (br_size r) (br_data r))"
  shows "\<exists>pe' xs'. write_front B sp hdr r (is_partial flags r) pe = Some (HAM_SUCCESS, bs_addr sp + length d, pe') \<and>
    stored sp xs pe (bs_addr sp) d pe' xs'"
proof (cases "is_partial flags r \<and> br_partial_offset r \<noteq> 0")
  case True
  then show ?thesis using write_front_gap [OF inside_mono [OF s] hdr, of r B] r by (simp add: rec_ok_def d_def)
next
  case False
  let ?t = "take (if is_partial flags r then br_partial_size r else br_size r) (br_data r)"
  have "length ?t = (if is_partial flags r then br_partial_size r else br_size r)" using r by (auto simp: rec_ok_def)
  moreover from this have "inside sp xs pe (bs_addr sp) (length hdr + length ?t)" using inside_mono [OF s] r
    by (cases "is_partial flags r") (simp_all add: rec_ok_def)
  moreover have "d = hdr @ ?t" using False by (auto simp: d_def)
  ultimately show ?thesis using write_front_plain [OF _ hdr refl _ False] by metis
qed

lemma length_enc_blob [simp]: "length (enc_blob h) = sizeof_blob_t"
  by (simp add: enc_blob_def sizeof_blob_t_def)

lemma dec_enc_blob [simp]: "dec_blob (enc_blob h) = h"
  by (simp add: enc_blob_def dec_blob_def encoding)

text \<open>A blob with data \<open>img\<close> is stored at \<open>blobid\<close>.\<close>

definition blob_at :: "page_env \<Rightarrow> nat \<Rightarrow> byte list \<Rightarrow> bool" where
  "blob_at pe blobid img \<longleftrightarrow> pagesize_of pe \<le> blobid \<and> blobid + sizeof_blob_t + length img \<le> file_len pe \<and>
     (\<exists>h. bytes_at pe blobid (sizeof_blob_t + length img) = enc_blob h @ img \<and> bh_self h = of_nat blobid \<and> unat (bh_size h) = length img)"

lemma wrote_bytes_read:
  assumes "wrote_bytes a d pe pe'" "a + length d \<le> file_len pe"
  shows "bytes_at pe' a (length d) = d"
  by (rule nth_equalityI) (use assms in \<open>auto simp: bytes_at_def wrote_bytes_def\<close>)

lemma chunk_aligned:
  assumes "sizeof_blob_t + n + DB_CHUNKSIZE \<le> 2 ^ 32"
  shows "sizeof_blob_t + n \<le> round_up DB_CHUNKSIZE (sz32 (sizeof_blob_t + n))"
    "round_up DB_CHUNKSIZE (sz32 (sizeof_blob_t + n)) < sizeof_blob_t + n + DB_CHUNKSIZE"
proof -
  have "sz32 (sizeof_blob_t + n) = sizeof_blob_t + n" "0 < DB_CHUNKSIZE" using assms by (simp_all add: sz32_def DB_CHUNKSIZE_def)
  then show "sizeof_blob_t + n \<le> round_up DB_CHUNKSIZE (sz32 (sizeof_blob_t + n))"
    "round_up DB_CHUNKSIZE (sz32 (sizeof_blob_t + n)) < sizeof_blob_t + n + DB_CHUNKSIZE"
    using round_up_props [of DB_CHUNKSIZE "sizeof_blob_t + n"] assms by simp_all
qed

text \<open>Allocating a blob finds space and writes everything but the gap behind a partial record.\<close>

lemma blob_allocate_front:
  assumes ok: "blob_ok pe xs" and B: "freel_ok B" and r: "rec_ok flags r" and room: "blob_room pe (sizeof_blob_t + br_size r + DB_CHUNKSIZE)"
  obtains sp h pe1 xs1 d pe2 xs2 where "blob_grows xs pe pe1 xs1" "stored sp xs1 pe1 (bs_addr sp) d pe2 xs2"
    "inside sp xs1 pe1 (bs_addr sp) (length (enc_blob h) + br_size r)" "bh_self h = of_nat (bs_addr sp)" "bh_size h = of_nat (br_size r)"
    "length d + (if is_partial flags r then br_size r - partial_end r else 0) = length (enc_blob h) + br_size r"
    "d @ (if is_partial flags r then replicate (br_size r - partial_end r) 0 else []) = enc_blob h @ blob_image flags r"
    "blob_allocate B r flags pe = (if is_partial flags r \<and> partial_end r < br_size r
       then map_option (\<lambda>(st, pe3). (st, bs_addr sp, pe3)) (tail_gap B sp (br_size r - partial_end r) (bs_addr sp + length d) pe2)
       else Some (HAM_SUCCESS, bs_addr sp, pe2))"
proof -
  define n where "n = round_up DB_CHUNKSIZE (sz32 (sizeof_blob_t + br_size r))"
  have "sizeof_blob_t + br_size r + DB_CHUNKSIZE \<le> 2 ^ 32" using room by (simp add: blob_room_def)
  note n = chunk_aligned [OF this, folded n_def]
  have "blob_room pe n" using room n(2) by (simp add: blob_room_def)
  moreover have "0 < n" using n(1) by (simp add: sizeof_blob_t_def)
  ultimately obtain sp pe1 xs1 where f: "blob_find_space B n pe = Some (Inr sp, pe1)" "blob_grows xs pe pe1 xs1" "space_ok xs1 pe1 n sp"
    using blob_find_space_ok [OF ok B] by blast
  let ?a = "bs_addr sp" and ?p = "is_partial flags r"
  define h where "h = \<lparr>bh_self = of_nat ?a, bh_alloc_size = of_nat (bs_alloc_size sp), bh_size = of_nat (br_size r), bh_flags = 0\<rparr>"
  have s: "inside sp xs1 pe1 ?a (length (enc_blob h) + br_size r)"
    using f(2,3) n(1) by (simp add: inside_def space_ok_def blob_grows_def)
  define d where "d = enc_blob h @ (if ?p then replicate (br_partial_offset r) 0 @ take (br_partial_size r) (br_data r)
    else take (br_size r) (br_data r))"
  from write_front_ok [OF s length_enc_blob r, of B, folded d_def] obtain pe2 xs2 where
    w: "write_front B sp (enc_blob h) r ?p pe1 = Some (HAM_SUCCESS, ?a + length d, pe2)" "stored sp xs1 pe1 ?a d pe2 xs2" by blast
  have e: "partial_end r = br_partial_offset r + br_partial_size r" if ?p
    using that r room by (simp add: partial_end_def sz32_def rec_ok_def blob_room_def)
  show ?thesis
  proof (rule that [OF f(2) w(2) s])
    show "bh_self h = of_nat ?a" "bh_size h = of_nat (br_size r)" by (simp_all add: h_def)
    show "length d + (if ?p then br_size r - partial_end r else 0) = length (enc_blob h) + br_size r"
      using e r by (simp add: d_def rec_ok_def)
    show "d @ (if ?p then replicate (br_size r - partial_end r) 0 else []) = enc_blob h @ blob_image flags r"
      using e by (simp add: d_def blob_image_def)
    show "blob_allocate B r flags pe = (if ?p \<and> partial_end r < br_size r
       then map_option (\<lambda>(st, pe3). (st, ?a, pe3)) (tail_gap B sp (br_size r - partial_end r) (?a + length d) pe2)
       else Some (HAM_SUCCESS, ?a, pe2))"
      unfolding blob_allocate_def Let_def n_def [symmetric] f(1) using w(1) by (simp add: h_def)
  qed
qed

text \<open>A gap behind a partial record at which the assertion of a debug build fails.\<close>

definition full_gap :: "page_env \<Rightarrow> u32 \<Rightarrow> blob_rec \<Rightarrow> bool" where
  "full_gap pe flags r \<longleftrightarrow> is_partial flags r \<and> partial_end r < br_size r \<and> pagesize_of pe dvd br_size r - partial_end r"

text \<open>Allocating a blob stores the record.\<close>

lemma blob_allocate_ok:
  assumes ok: "blob_ok pe xs" and B: "freel_ok B" and r: "rec_ok flags r" and room: "blob_room pe (sizeof_blob_t + br_size r + DB_CHUNKSIZE)"
    and gap: "\<not> (bc_debug B \<and> full_gap pe flags r)"
  shows "\<exists>blobid pe' xs'. blob_allocate B r flags pe = Some (HAM_SUCCESS, blobid, pe') \<and> blob_grows xs pe pe' xs' \<and>
    blob_at pe' blobid (blob_image flags r)"
proof -
  from blob_allocate_front [OF ok B r room] obtain sp h pe1 xs1 d pe2 xs2 where
    f: "blob_grows xs pe pe1 xs1" "stored sp xs1 pe1 (bs_addr sp) d pe2 xs2"
      "inside sp xs1 pe1 (bs_addr sp) (length (enc_blob h) + br_size r)" "bh_self h = of_nat (bs_addr sp)" "bh_size h = of_nat (br_size r)"
      "length d + (if is_partial flags r then br_size r - partial_end r else 0) = length (enc_blob h) + br_size r"
      "d @ (if is_partial flags r then replicate (br_size r - partial_end r) 0 else []) = enc_blob h @ blob_image flags r"
    and al: "blob_allocate B r flags pe = (if is_partial flags r \<and> partial_end r < br_size r
       then map_option (\<lambda>(st, pe3). (st, bs_addr sp, pe3)) (tail_gap B sp (br_size r - partial_end r) (bs_addr sp + length d) pe2)
       else Some (HAM_SUCCESS, bs_addr sp, pe2))" .
  let ?a = "bs_addr sp" and ?p = "is_partial flags r"
  have psz: "pagesize_of pe2 = pagesize_of pe" using f(1,2) by (simp add: stored_def blob_keeps_def blob_grows_def)
  obtain pe3 xs3 where a: "blob_allocate B r flags pe = Some (HAM_SUCCESS, ?a, pe3)"
    and st: "stored sp xs1 pe1 ?a (enc_blob h @ blob_image flags r) pe3 xs3"
  proof (cases "?p \<and> partial_end r < br_size r")
    case True
    have "inside sp xs2 pe2 (?a + length d) (br_size r - partial_end r)" using inside_next [OF _ f(2)] f(3,6) True by simp
    moreover have "bc_debug B \<longrightarrow> br_size r - partial_end r = 0 \<or> \<not> pagesize_of pe2 dvd br_size r - partial_end r"
      using gap True by (auto simp: full_gap_def psz)
    ultimately obtain pe3 xs3 where
      t: "tail_gap B sp (br_size r - partial_end r) (?a + length d) pe2 = Some (HAM_SUCCESS, pe3)"
      "stored sp xs2 pe2 (?a + length d) (replicate (br_size r - partial_end r) 0) pe3 xs3" using tail_gap_ok by blast
    have "blob_allocate B r flags pe = Some (HAM_SUCCESS, ?a, pe3)" using al True t(1) by simp
    moreover have "d @ replicate (br_size r - partial_end r) 0 = enc_blob h @ blob_image flags r" using True f(7) by simp
    ultimately show ?thesis using that stored_append [OF f(2) t(2)] by metis
  next
    case False
    then have "blob_allocate B r flags pe = Some (HAM_SUCCESS, ?a, pe2)" "d = enc_blob h @ blob_image flags r" using al f(7) by (auto split: if_splits)
    then show ?thesis using that f(2) by blast
  qed
  have l: "length (blob_image flags r) = br_size r" by (rule length_blob_image [OF r])
  have "blob_grows xs1 pe1 pe3 xs3" and wb: "wrote_bytes ?a (enc_blob h @ blob_image flags r) pe1 pe3"
    and "pagesize_of pe3 = pagesize_of pe1" "file_len pe3 = file_len pe1"
    using st keeps_grows by (auto simp: stored_def blob_keeps_def)
  moreover have "bytes_at pe3 ?a (sizeof_blob_t + length (blob_image flags r)) = enc_blob h @ blob_image flags r"
    using wrote_bytes_read [OF wb] f(3) l by (simp add: inside_def)
  moreover have "unat (of_nat (br_size r) :: u64) = br_size r" using room by (simp add: blob_room_def)
  ultimately have "blob_at pe3 ?a (blob_image flags r)" using f(3-5) l
    unfolding blob_at_def by (intro conjI exI [of _ h]) (simp_all add: inside_def)
  then show ?thesis using a blob_grows_trans [OF f(1) \<open>blob_grows xs1 pe1 pe3 xs3\<close>] by blast
qed

lemma blob_allocate_asserts:
  assumes ok: "blob_ok pe xs" and B: "freel_ok B" and r: "rec_ok flags r" and room: "blob_room pe (sizeof_blob_t + br_size r + DB_CHUNKSIZE)"
    and gap: "bc_debug B" "full_gap pe flags r"
  shows "blob_allocate B r flags pe = None"
proof -
  from blob_allocate_front [OF ok B r room] obtain sp h pe1 xs1 d pe2 xs2 where
    f: "blob_grows xs pe pe1 xs1" "stored sp xs1 pe1 (bs_addr sp) d pe2 xs2"
      "inside sp xs1 pe1 (bs_addr sp) (length (enc_blob h) + br_size r)"
      "length d + (if is_partial flags r then br_size r - partial_end r else 0) = length (enc_blob h) + br_size r"
    and al: "blob_allocate B r flags pe = (if is_partial flags r \<and> partial_end r < br_size r
       then map_option (\<lambda>(st, pe3). (st, bs_addr sp, pe3)) (tail_gap B sp (br_size r - partial_end r) (bs_addr sp + length d) pe2)
       else Some (HAM_SUCCESS, bs_addr sp, pe2))" .
  have "pagesize_of pe2 = pagesize_of pe" using f(1,2) by (simp add: stored_def blob_keeps_def blob_grows_def)
  moreover have "inside sp xs2 pe2 (bs_addr sp + length d) (br_size r - partial_end r)"
    using inside_next [OF _ f(2)] f(3,4) gap(2) by (simp add: full_gap_def)
  ultimately have "tail_gap B sp (br_size r - partial_end r) (bs_addr sp + length d) pe2 = None"
    using tail_gap_asserts gap by (simp add: full_gap_def)
  then show ?thesis using al gap(2) by (simp add: full_gap_def)
qed

text \<open>Reading a stored blob.\<close>

lemma bytes_at_part: "o' + n \<le> m \<Longrightarrow> bytes_at pe (x + o') n = take n (drop o' (bytes_at pe x m))"
  using bytes_at_add [of pe x o' "m - o'"] bytes_at_add [of pe "x + o'" n "m - o' - n"] by simp

definition blob_part :: "u32 \<Rightarrow> blob_rec \<Rightarrow> byte list \<Rightarrow> byte list" where
  "blob_part flags r img =
     (if flags AND HAM_PARTIAL = 0 then img else take (br_partial_size r) (drop (br_partial_offset r) img))"

lemma blob_header_ok:
  assumes "blob_ok pe xs" "blob_at pe blobid img"
  shows "\<exists>h page pe' xs'. read_chunk B sizeof_blob_t [] None blobid pe = Some (HAM_SUCCESS, page, enc_blob h, pe') \<and>
    bh_self h = of_nat blobid \<and> unat (bh_size h) = length img \<and> blob_keeps xs pe pe' xs' \<and> page_ok xs' page \<and> wrote_bytes 0 [] pe pe' \<and>
    blob_at pe' blobid img \<and> bytes_at pe' (blobid + sizeof_blob_t) (length img) = img"
proof -
  let ?n = "sizeof_blob_t + length img"
  from assms(2) obtain h where h: "bytes_at pe blobid ?n = enc_blob h @ img" "bh_self h = of_nat blobid" "unat (bh_size h) = length img"
    "pagesize_of pe \<le> blobid" "blobid + ?n \<le> file_len pe" by (auto simp: blob_at_def add.assoc)
  have hd: "bytes_at pe blobid sizeof_blob_t = enc_blob h" using bytes_at_part [of 0 sizeof_blob_t ?n pe blobid] h(1) by simp
  from read_chunk_ok [OF assms(1) _ h(4), of None sizeof_blob_t B "[]"] h(5) hd obtain page pe' xs' where
    k: "read_chunk B sizeof_blob_t [] None blobid pe = Some (HAM_SUCCESS, page, enc_blob h, pe')" "blob_keeps xs pe pe' xs'"
    "page_ok xs' page" "wrote_bytes 0 [] pe pe'" by auto
  have b: "bytes_at pe' blobid ?n = enc_blob h @ img" using wrote_bytes_at [OF k(4) h(5)] h(1) by simp
  then have "blob_at pe' blobid img" using h k(2) unfolding blob_at_def by (auto simp: blob_keeps_def)
  moreover have "bytes_at pe' (blobid + sizeof_blob_t) (length img) = img"
    using bytes_at_part [of sizeof_blob_t "length img" ?n pe' blobid] b by simp
  ultimately show ?thesis using k h(2,3) by blast
qed

lemma blob_read_ok:
  assumes ok: "blob_ok pe xs" "blob_at pe blobid img" and size: "length img < 2 ^ 32" "br_partial_offset r + br_partial_size r < 2 ^ 32"
  shows "\<exists>pe' xs'. blob_read B blobid r flags pe =
      Some (if flags AND HAM_PARTIAL \<noteq> 0 \<and> length img < br_partial_offset r then (HAM_INV_PARAMETER, [], pe')
            else (HAM_SUCCESS, blob_part flags r img, pe')) \<and>
    blob_keeps xs pe pe' xs' \<and> wrote_bytes 0 [] pe pe'"
proof -
  from blob_header_ok [OF ok, of B] obtain h page pe1 xs1 where
    k: "read_chunk B sizeof_blob_t [] None blobid pe = Some (HAM_SUCCESS, page, enc_blob h, pe1)" "bh_self h = of_nat blobid"
    "unat (bh_size h) = length img" "blob_keeps xs pe pe1 xs1" "page_ok xs1 page" "wrote_bytes 0 [] pe pe1" "blob_at pe1 blobid img"
    "bytes_at pe1 (blobid + sizeof_blob_t) (length img) = img" by blast
  let ?p = "flags AND HAM_PARTIAL \<noteq> 0"
  define off where "off = (if ?p then br_partial_offset r else 0)"
  define n where "n = (if \<not> ?p then length img else if partial_end r > length img then length img - br_partial_offset r else br_partial_size r)"
  have pe: "partial_end r = br_partial_offset r + br_partial_size r" and sz: "sz32 (length img) = length img"
    using size by (simp_all add: partial_end_def sz32_def)
  show ?thesis
  proof (cases "?p \<and> length img < br_partial_offset r")
    case True
    then show ?thesis using k(1-4,6) sz by (intro exI [of _ pe1] exI [of _ xs1]) (simp add: blob_read_def Let_def)
  next
    case False
    then have on: "off + n \<le> length img" "take n (drop off img) = blob_part flags r img" by (auto simp: off_def n_def pe blob_part_def)
    have d: "bytes_at pe1 (blobid + sizeof_blob_t + off) n = blob_part flags r img"
      using bytes_at_part [OF on(1), of pe1 "blobid + sizeof_blob_t"] k(8) on(2) by simp
    have u: "blob_read B blobid r flags pe = (if n = 0 then Some (HAM_SUCCESS, [], pe1)
        else map_option (\<lambda>(st, _, d, pe2). (st, if st = HAM_SUCCESS then d else [], pe2))
          (read_chunk B n [] page (blobid + sizeof_blob_t + off) pe1))"
      unfolding blob_read_def k(1) option.case prod.case Let_def dec_enc_blob k(3) sz using False k(2) by (auto simp: n_def off_def)
    have a: "pagesize_of pe1 \<le> blobid + sizeof_blob_t + off" "blobid + sizeof_blob_t + off + n \<le> file_len pe1"
      using k(7) on(1) by (simp_all add: blob_at_def)
    from read_chunk_ok [OF keeps_blob_ok [OF k(4)] k(5) a, of B "[]"] d obtain page2 pe2 xs2 where
      c: "read_chunk B n [] page (blobid + sizeof_blob_t + off) pe1 = Some (HAM_SUCCESS, page2, blob_part flags r img, pe2)"
      "blob_keeps xs1 pe1 pe2 xs2" "wrote_bytes 0 [] pe1 pe2" by auto
    show ?thesis
    proof (cases "n = 0")
      case True
      then have "blob_part flags r img = []" using on(2) by simp
      then show ?thesis using u True False k(4,6) by (intro exI [of _ pe1] exI [of _ xs1]) auto
    next
      case n0: False
      show ?thesis using u n0 False c blob_keeps_trans [OF k(4) c(2)] wrote_bytes_same [OF k(6) c(3)]
        by (intro exI [of _ pe2] exI [of _ xs2]) auto
    qed
  qed
qed

section \<open>Properties\<close>

text \<open>C25. Blobs come back as they were stored. Allocating a blob succeeds wherever the freelist,
  a page of its own or the end of the file has room for it, and reading it returns the data of
  the record, with zeros in front of and behind a partial record: all of it, or the part that
  is asked for (cut at the end of the blob); an offset behind the end is refused. It does not
  matter which pieces went through the cache and which directly to the file. There is one exception: in a build with assertions
  a partial record with a gap behind it that is a multiple of the page size fails the assertion that the last piece of the
  gap is shorter than a page. Assumed are a consistent environment of a file without file filters, whose cache has no strict limit and whose system calls succeed, a freelist that hands out
  areas of the file, a partial record that lies inside the size of the record, and sizes below 4 GB.\<close>

theorem blob_allocate_read_roundtrip:
  assumes "blob_ok pe xs" "freel_ok B" "rec_ok flags r" "blob_room pe (sizeof_blob_t + br_size r + DB_CHUNKSIZE)"
    and "br_partial_offset r' + br_partial_size r' < 2 ^ 32"
  shows "if bc_debug B \<and> full_gap pe flags r then blob_allocate B r flags pe = None
    else \<exists>blobid pe1 xs1. blob_allocate B r flags pe = Some (HAM_SUCCESS, blobid, pe1) \<and> blob_ok pe1 xs1 \<and> blobid \<noteq> 0 \<and>
    (\<exists>pe2 xs2. blob_read B blobid r' flags' pe1 =
       Some (if flags' AND HAM_PARTIAL \<noteq> 0 \<and> br_size r < br_partial_offset r' then (HAM_INV_PARAMETER, [], pe2)
             else (HAM_SUCCESS, blob_part flags' r' (blob_image flags r), pe2)) \<and> blob_ok pe2 xs2)"
proof (cases "bc_debug B \<and> full_gap pe flags r")
  case True
  then show ?thesis using blob_allocate_asserts [OF assms(1-4)] by simp
next
  case False
  from blob_allocate_ok [OF assms(1-4) False] obtain blobid pe1 xs1 where
    a: "blob_allocate B r flags pe = Some (HAM_SUCCESS, blobid, pe1)" "blob_grows xs pe pe1 xs1" "blob_at pe1 blobid (blob_image flags r)" by blast
  have ok1: "blob_ok pe1 xs1" using a(2) by (simp add: blob_grows_def)
  have "blobid \<noteq> 0" using a(3) blob_okD(1) [OF ok1] by (auto simp: blob_at_def)
  moreover have l: "length (blob_image flags r) = br_size r" by (rule length_blob_image [OF assms(3)])
  moreover have "br_size r < 2 ^ 32" using assms(4) blob_okD(1) [OF assms(1)] by (simp add: blob_room_def)
  ultimately show ?thesis using False a(1) ok1 blob_read_ok [OF ok1 a(3) _ assms(5), of B flags'] unfolding l by (metis keeps_blob_ok)
qed

text \<open>C26. Writing chunks to a range of the file behind the header page changes the bytes of their range and no other byte of the file, whatever is
  cached, whether recovery is on and whether the blob is new, so that a blob never damages its
  neighbours; it ends, and keeps cache, changeset and file consistent. Reading the range back
  returns the chunks. The environment has no file filters, its cache has no strict limit, and the system calls succeed.\<close>

theorem blob_chunks_exact:
  assumes "blob_ok pe xs" "pagesize_of pe \<le> addr" "addr + length (concat ds) \<le> file_len pe"
  shows "\<exists>pe' xs'. write_chunks B fresh ds None addr pe = Some (HAM_SUCCESS, pe') \<and> blob_ok pe' xs' \<and>
    (\<forall>x < file_len pe. byte_at pe' x = (if addr \<le> x \<and> x < addr + length (concat ds) then concat ds ! (x - addr) else byte_at pe x)) \<and>
    (\<exists>page pe''. read_chunk B (length (concat ds)) [] None addr pe' = Some (HAM_SUCCESS, page, concat ds, pe''))"
proof -
  from write_chunks_ok [OF assms(1) _ assms(2,3), of None B fresh] obtain pe' xs' where
    w: "write_chunks B fresh ds None addr pe = Some (HAM_SUCCESS, pe')" "blob_keeps xs pe pe' xs'" "wrote_bytes addr (concat ds) pe pe'" by auto
  have "pagesize_of pe' \<le> addr" "addr + length (concat ds) \<le> file_len pe'" using w(2) assms(2,3) by (simp_all add: blob_keeps_def)
  from read_chunk_ok [OF keeps_blob_ok [OF w(2)] _ this, of None B "[]"] wrote_bytes_read [OF w(3) assms(3)]
  have "\<exists>page pe''. read_chunk B (length (concat ds)) [] None addr pe' = Some (HAM_SUCCESS, page, concat ds, pe'')" by auto
  then show ?thesis using w keeps_blob_ok [OF w(2)] by (auto simp: wrote_bytes_def)
qed

section \<open>A concrete environment\<close>

text \<open>The small environment of two pages of two bytes, and a freelist that is always empty.\<close>

definition plain_blobs :: blob_ctx where
  "plain_blobs = \<lparr>bc_debug = True, bc_has_log = False, bc_freel_alloc_area = (\<lambda>n pe. (HAM_SUCCESS, 0, pe)), bc_freel_mark_free = (\<lambda>a n pe. (HAM_SUCCESS, pe))\<rparr>"

lemma plain_blobs_ok: "freel_ok plain_blobs"
  unfolding freel_ok_def plain_blobs_def by (auto simp: blob_keeps_def blob_grows_def)

lemma small_pe_blob_ok: "blob_ok small_pe [1]" "pagesize_of small_pe = 2" "file_len small_pe = 4"
proof -
  have d: "pe_dev small_pe = sample_device 0" "pe_flags small_pe AND HAM_CACHE_STRICT = 0"
    by (simp_all add: small_pe_def Let_def HAM_ENABLE_RECOVERY_def HAM_CACHE_STRICT_def)
  then show "pagesize_of small_pe = 2" "file_len small_pe = 4" by (simp_all add: sample_device_def)
  then show "blob_ok small_pe [1]" using small_pe_ok d(2) by (auto simp: blob_ok_def)
qed

theorem blob_allocate_read_roundtrip_witness:
  "\<exists>blobid pe1 pe2. blob_allocate plain_blobs \<lparr>br_data = [7, 8], br_size = 5, br_partial_offset = 2, br_partial_size = 2\<rparr> HAM_PARTIAL small_pe =
       Some (HAM_SUCCESS, blobid, pe1) \<and>
     blob_read plain_blobs blobid \<lparr>br_data = [], br_size = 0, br_partial_offset = 1, br_partial_size = 2\<rparr> HAM_PARTIAL pe1 = Some (HAM_SUCCESS, [0, 7], pe2)"
proof -
  let ?r = "\<lparr>br_data = [7, 8 :: byte], br_size = 5, br_partial_offset = 2, br_partial_size = 2\<rparr>"
  let ?r' = "\<lparr>br_data = [] :: byte list, br_size = 0, br_partial_offset = 1, br_partial_size = 2\<rparr>"
  have "is_partial HAM_PARTIAL ?r" by (simp add: is_partial_def partial_end_def sz32_def HAM_PARTIAL_def)
  moreover have "HAM_PARTIAL AND HAM_PARTIAL \<noteq> 0" by (simp add: HAM_PARTIAL_def)
  ultimately have "rec_ok HAM_PARTIAL ?r" "blob_part HAM_PARTIAL ?r' (blob_image HAM_PARTIAL ?r) = [0, 7]"
    by (simp_all add: rec_ok_def blob_part_def blob_image_def numeral_nat)
  moreover have "blob_room small_pe (sizeof_blob_t + br_size ?r + DB_CHUNKSIZE)"
    using small_pe_blob_ok by (simp add: blob_room_def sizeof_blob_t_def DB_CHUNKSIZE_def off_max_def)
  moreover have "\<not> full_gap small_pe HAM_PARTIAL ?r" using small_pe_blob_ok(2) by (simp add: full_gap_def partial_end_def sz32_def)
  ultimately show ?thesis
    using blob_allocate_read_roundtrip [OF small_pe_blob_ok(1) plain_blobs_ok, of HAM_PARTIAL ?r ?r' HAM_PARTIAL] by fastforce
qed

theorem blob_chunks_exact_witness:
  "\<exists>page pe' pe''. write_chunks plain_blobs False [[7], [8]] None 2 small_pe = Some (HAM_SUCCESS, pe') \<and>
     read_chunk plain_blobs 2 [] None 2 pe' = Some (HAM_SUCCESS, page, [7, 8], pe'')"
  using blob_chunks_exact [OF small_pe_blob_ok(1), of 2 "[[7], [8]]" plain_blobs False] small_pe_blob_ok(2,3)
  by (auto simp: eval_nat_numeral simp del: write_chunks.simps)

end
