(* ===== verification/Ham_Dupes.thy ===== *)
theory Ham_Dupes
  imports Ham_Blob
begin

text \<open>
  The tables of duplicate keys of \<open>src/blob.cc\<close>. The records of a key that has several are listed
  in a table, which is itself stored as a blob: a counter, a capacity and an array of entries.
  Modelled are loading a table (as a pointer into the cached page if the table is in one
  page, otherwise as a copy), finding the position of a record in a sorted table, inserting,
  overwriting and erasing entries with the growth of the table, and the queries.

  The memory of a table is the list of the entries that fit into it; \<open>None\<close> stands for an access
  outside it and for a loop that does not end. The duplicate compare function of the
  application and the reader of records (\<open>btree_read_record\<close>) are parameters.
\<close>

section \<open>Tables\<close>

definition HAM_DUPLICATE_INSERT_BEFORE :: u32 where "HAM_DUPLICATE_INSERT_BEFORE = 4"
definition HAM_DUPLICATE_INSERT_AFTER :: u32 where "HAM_DUPLICATE_INSERT_AFTER = 8"
definition HAM_DUPLICATE_INSERT_FIRST :: u32 where "HAM_DUPLICATE_INSERT_FIRST = 0x10"
definition HAM_DUPLICATE_INSERT_LAST :: u32 where "HAM_DUPLICATE_INSERT_LAST = 0x20"
definition HAM_SORT_DUPLICATES :: u32 where "HAM_SORT_DUPLICATES = 0x100000"
definition HAM_DAM_SEQUENTIAL_INSERT :: u16 where "HAM_DAM_SEQUENTIAL_INSERT = 2"

record dupe_entry =
  de_padding :: "byte list"
  de_flags :: byte
  de_rid :: u64

record dupe_table =
  dt_count :: nat
  dt_capacity :: nat
  dt_entries :: "dupe_entry list"

definition sizeof_dupe_entry :: nat where "sizeof_dupe_entry = 16"

text \<open>
  \<open>sizeof(dupe_table_t)\<close> counts one entry, as do the size computations of the code, whose result is
  stored in the 32 bits of a record size or passed to the allocator as such.
\<close>

definition dupe_table_bytes :: "nat \<Rightarrow> nat" where
  "dupe_table_bytes cap = sz32 (8 + cap * sizeof_dupe_entry)"

definition enc_dupe_entry :: "dupe_entry \<Rightarrow> byte list" where
  "enc_dupe_entry e = de_padding e @ [de_flags e] @ put_u64 (de_rid e)"

definition dec_dupe_entry :: "byte list \<Rightarrow> dupe_entry" where
  "dec_dupe_entry b = \<lparr>de_padding = take 7 b, de_flags = b ! 7, de_rid = get_u64 8 b\<rparr>"

definition enc_dupe_table :: "dupe_table \<Rightarrow> byte list" where
  "enc_dupe_table t = put_u32 (of_nat (dt_count t)) @ put_u32 (of_nat (dt_capacity t)) @ concat (map enc_dupe_entry (dt_entries t))"

text \<open>A table in a piece of memory: the entries are those that lie in it.\<close>

definition dec_dupe_table :: "byte list \<Rightarrow> dupe_table" where
  "dec_dupe_table b =
     \<lparr>dt_count = unat (get_u32 0 b), dt_capacity = unat (get_u32 4 b),
      dt_entries = map (\<lambda>i. dec_dupe_entry (take sizeof_dupe_entry (drop (8 + i * sizeof_dupe_entry) b)))
        [0..<(length b - 8) div sizeof_dupe_entry]\<rparr>"

definition dupe_table_get_entry :: "dupe_table \<Rightarrow> nat \<Rightarrow> dupe_entry option" where
  "dupe_table_get_entry t i = (if i < length (dt_entries t) then Some (dt_entries t ! i) else None)"

definition zero_entry :: dupe_entry where
  "zero_entry = \<lparr>de_padding = replicate 7 0, de_flags = 0, de_rid = 0\<rparr>"

text \<open>The record of an entry is a blob unless it is small enough to be stored in the entry.\<close>

definition has_blob :: "dupe_entry \<Rightarrow> bool" where
  "has_blob e \<longleftrightarrow> de_flags e AND (KEY_BLOB_SIZE_SMALL OR KEY_BLOB_SIZE_TINY OR KEY_BLOB_SIZE_EMPTY) = 0"

section \<open>Loading\<close>

text \<open>The table, and where in which page it is if the caller works on the page.\<close>

definition get_duplicate_table ::
  "blob_ctx \<Rightarrow> nat \<Rightarrow> page_env \<Rightarrow> ((ham_status + dupe_table \<times> (pid \<times> nat) option) \<times> page_env) option" where
  "get_duplicate_table B table_id pe =
     (case read_chunk B sizeof_blob_t [] None table_id pe of
        None \<Rightarrow> None
      | Some (st, hdrpage, b, pe1) \<Rightarrow>
          if st \<noteq> HAM_SUCCESS then Some (Inl st, pe1)
          else
            (case hdrpage of
               None \<Rightarrow> None
             | Some p \<Rightarrow>
                 (let self = unat (p_self (pe_store pe1 p)); sz = unat (bh_size (dec_blob b)); start = table_id - self + sizeof_blob_t
                  in if self + (pagesize_of pe1 - sizeof_persistent_header) \<ge> table_id + sz
                     then Some (Inr (dec_dupe_table (drop start (case_option [] id (p_pers (pe_store pe1 p)))), Some (p, start)), pe1)
                     else
                       (case read_chunk B (sz32 sz) [] (Some p) (table_id + sizeof_blob_t) pe1 of
                          None \<Rightarrow> None
                        | Some (st, _, d, pe2) \<Rightarrow>
                            Some (if st \<noteq> HAM_SUCCESS then Inl st else Inr (dec_dupe_table d, None), pe2)))))"

text \<open>The number of duplicates and, on request, the last one; the index of that one is computed in 32 bits.\<close>

definition blob_duplicate_get_count ::
  "blob_ctx \<Rightarrow> nat \<Rightarrow> bool \<Rightarrow> page_env \<Rightarrow> ((ham_status + nat \<times> dupe_entry option) \<times> page_env) option" where
  "blob_duplicate_get_count B table_id want_entry pe =
     (case get_duplicate_table B table_id pe of
        None \<Rightarrow> None
      | Some (Inl st, pe') \<Rightarrow> Some (Inl st, pe')
      | Some (Inr (t, _), pe') \<Rightarrow>
          if want_entry
          then map_option (\<lambda>e. (Inr (dt_count t, Some e), pe')) (dupe_table_get_entry t (sz32 (dt_count t + (2 ^ 32 - 1))))
          else Some (Inr (dt_count t, None), pe'))"

definition blob_duplicate_get ::
  "blob_ctx \<Rightarrow> nat \<Rightarrow> nat \<Rightarrow> page_env \<Rightarrow> ((ham_status + dupe_entry) \<times> page_env) option" where
  "blob_duplicate_get B table_id position pe =
     (case get_duplicate_table B table_id pe of
        None \<Rightarrow> None
      | Some (Inl st, pe') \<Rightarrow> Some (Inl st, pe')
      | Some (Inr (t, _), pe') \<Rightarrow>
          if position \<ge> dt_count t then Some (Inl HAM_KEY_NOT_FOUND, pe')
          else map_option (\<lambda>e. (Inr e, pe')) (dupe_table_get_entry t position))"

text \<open>The whole table, and whether the caller has to free it.\<close>

definition blob_duplicate_get_table ::
  "blob_ctx \<Rightarrow> nat \<Rightarrow> page_env \<Rightarrow> ((ham_status + dupe_table \<times> bool) \<times> page_env) option" where
  "blob_duplicate_get_table B table_id pe =
     map_option (\<lambda>(r, pe'). (case r of Inl st \<Rightarrow> Inl st | Inr (t, page) \<Rightarrow> Inr (t, page = None), pe')) (get_duplicate_table B table_id pe)"

section \<open>The position of a record\<close>

record dupe_ctx =
  dc_rt_flags :: u32
  dc_data_access_mode :: u16
  dc_duplicate_compare :: "byte list \<Rightarrow> byte list \<Rightarrow> int"
  dc_read_record :: "dupe_entry \<Rightarrow> ham_status + byte list"

text \<open>The loop of \<open>__get_sorted_position\<close>. A failed read of a record returns its status as a position.\<close>

partial_function (option) sorted_position_loop :: "dupe_ctx \<Rightarrow> dupe_table \<Rightarrow> byte list \<Rightarrow> nat \<Rightarrow> nat \<Rightarrow> nat \<Rightarrow> nat option" where
  "sorted_position_loop D t d l r m =
     (if l > r then Some m
      else
        (case dupe_table_get_entry t m of
           None \<Rightarrow> None
         | Some e \<Rightarrow>
             (case dc_read_record D e of
                Inl st \<Rightarrow> Some (unat (word_of_int (ham_status_code st) :: u32))
              | Inr item \<Rightarrow>
                  (let cmp = dc_duplicate_compare D d item
                   in if m = l \<and> cmp < 0 then Some m
                      else if l = r then Some (if cmp \<ge> 0 then m + 1 else m)
                      else if cmp = 0 then Some (m + 1)
                      else if cmp < 0 then
                        (if m = 0 then Some m else sorted_position_loop D t d l (m - 1) (sz32 (l + (m - 1)) div 2))
                      else sorted_position_loop D t d (m + 1) r (sz32 (m + 1 + r) div 2)))))"

definition get_sorted_position :: "dupe_ctx \<Rightarrow> dupe_table \<Rightarrow> byte list \<Rightarrow> nat option" where
  "get_sorted_position D t d =
     (let r = sz32 (dt_count t + (2 ^ 32 - 1))
      in sorted_position_loop D t d 0 r (if dc_data_access_mode D AND HAM_DAM_SEQUENTIAL_INSERT \<noteq> 0 then r else r div 2))"

definition dupe_position :: "dupe_ctx \<Rightarrow> u32 \<Rightarrow> nat \<Rightarrow> byte list \<Rightarrow> dupe_table \<Rightarrow> nat option" where
  "dupe_position D flags position d t =
     (if dc_rt_flags D AND HAM_SORT_DUPLICATES \<noteq> 0 then get_sorted_position D t d
      else if flags AND HAM_DUPLICATE_INSERT_BEFORE \<noteq> 0 then Some position
      else if flags AND HAM_DUPLICATE_INSERT_AFTER \<noteq> 0 then Some (if sz32 (position + 1) > dt_count t then dt_count t else sz32 (position + 1))
      else if flags AND HAM_DUPLICATE_INSERT_FIRST \<noteq> 0 then Some 0
      else Some (dt_count t))"

section \<open>Inserting\<close>

definition dupe_table_needs_resize :: "u32 \<Rightarrow> dupe_table \<Rightarrow> bool" where
  "dupe_table_needs_resize flags t \<longleftrightarrow> flags AND HAM_OVERWRITE = 0 \<and> sz32 (dt_count t + 1) \<ge> dt_capacity t"

text \<open>The new table has the entries that fit into the memory that was allocated for it.\<close>

definition dupe_table_resize :: "dupe_table \<Rightarrow> dupe_table option" where
  "dupe_table_resize t =
     (let new_cap = (if dt_capacity t < 3 * 8 then sz32 (dt_capacity t + 8) else sz32 (dt_capacity t + dt_capacity t div 3));
          room = (dupe_table_bytes new_cap - 8) div sizeof_dupe_entry
      in if dt_count t \<le> length (dt_entries t) \<and> dt_count t \<le> room
         then Some \<lparr>dt_count = dt_count t, dt_capacity = new_cap,
                    dt_entries = take (dt_count t) (dt_entries t) @ replicate (room - dt_count t) zero_entry\<rparr>
         else None)"

text \<open>\<open>memmove\<close> of the entries behind the position, unless it is the end, and \<open>memcpy\<close> of the new one.\<close>

definition dupe_table_insert :: "nat \<Rightarrow> dupe_entry \<Rightarrow> dupe_table \<Rightarrow> dupe_table option" where
  "dupe_table_insert position e t =
     (let es = dt_entries t; n = dt_count t
      in if position \<noteq> n \<and> (n < position \<or> length es < n + 1) \<or> length es \<le> position then None
         else
           (let es' = (if position = n then es
                       else take (position + 1) es @ take (n - position) (drop position es) @ drop (n + 1) es)
            in Some (t\<lparr>dt_count := n + 1, dt_entries := es'[position := e]\<rparr>)))"

text \<open>Overwriting frees the blob of the entry, whatever the result, and replaces the entry.\<close>

definition dupe_table_overwrite ::
  "blob_ctx \<Rightarrow> nat \<Rightarrow> dupe_entry \<Rightarrow> dupe_table \<Rightarrow> page_env \<Rightarrow> (dupe_table \<times> page_env) option" where
  "dupe_table_overwrite B position e t pe =
     (case dupe_table_get_entry t position of
        None \<Rightarrow> None
      | Some old \<Rightarrow>
          map_option (\<lambda>pe'. (t\<lparr>dt_entries := (dt_entries t)[position := e]\<rparr>, pe'))
            (if has_blob old then map_option snd (blob_free B (unat (de_rid old)) pe) else Some pe))"

definition dupe_record :: "dupe_table \<Rightarrow> blob_rec" where
  "dupe_record t = \<lparr>br_data = enc_dupe_table t, br_size = dupe_table_bytes (dt_capacity t), br_partial_offset = 0, br_partial_size = 0\<rparr>"

text \<open>Writing the table back; the id of the table, if it is set.\<close>

definition dupe_write_back ::
  "blob_ctx \<Rightarrow> nat \<Rightarrow> (pid \<times> nat) option \<Rightarrow> bool \<Rightarrow> dupe_table \<Rightarrow> page_env \<Rightarrow> (ham_status \<times> nat option \<times> page_env) option" where
  "dupe_write_back B table_id page resize t pe =
     (if table_id \<noteq> 0 \<and> page = None \<or> resize then
        map_option (\<lambda>(st, rid, pe'). (st, Some rid, pe')) (blob_overwrite B table_id (dupe_record t) 0 pe)
      else if table_id = 0 then
        map_option (\<lambda>(st, rid, pe'). (st, Some rid, pe')) (blob_allocate B (dupe_record t) 0 pe)
      else (case page of None \<Rightarrow> None | Some (p, start) \<Rightarrow> Some (HAM_SUCCESS, None, write_image p start (enc_dupe_table t) pe)))"

text \<open>A new table has room for eight entries and starts with the first of two.\<close>

definition dupe_table_new :: "dupe_entry \<Rightarrow> dupe_table" where
  "dupe_table_new e = \<lparr>dt_count = 1, dt_capacity = 8, dt_entries = e # replicate 7 zero_entry\<rparr>"

definition dupe_load ::
  "blob_ctx \<Rightarrow> nat \<Rightarrow> dupe_entry list \<Rightarrow> page_env \<Rightarrow> ((ham_status + dupe_table \<times> (pid \<times> nat) option \<times> dupe_entry) \<times> page_env) option" where
  "dupe_load B table_id entries pe =
     (if table_id = 0 then
        (case entries of e # e' # _ \<Rightarrow> Some (Inr (dupe_table_new e, None, e'), pe) | _ \<Rightarrow> None)
      else
        (case get_duplicate_table B table_id pe of
           None \<Rightarrow> None
         | Some (Inl st, pe') \<Rightarrow> Some (Inl st, pe')
         | Some (Inr (t, page), pe') \<Rightarrow> (case entries of e # _ \<Rightarrow> Some (Inr (t, page, e), pe') | [] \<Rightarrow> None)))"

text \<open>The change of the table in memory; the position of the entry comes with it.\<close>

definition dupe_modify ::
  "blob_ctx \<Rightarrow> dupe_ctx \<Rightarrow> byte list \<Rightarrow> nat \<Rightarrow> u32 \<Rightarrow> dupe_entry \<Rightarrow> dupe_table \<Rightarrow> page_env \<Rightarrow> (nat \<times> dupe_table \<times> page_env) option" where
  "dupe_modify B D d position flags e t pe =
     (if flags AND HAM_OVERWRITE \<noteq> 0
      then map_option (\<lambda>(t', pe'). (position, t', pe')) (dupe_table_overwrite B position e t pe)
      else
        (case dupe_position D flags position d t of
           None \<Rightarrow> None
         | Some pos \<Rightarrow> map_option (\<lambda>t'. (pos, t', pe)) (dupe_table_insert pos e t)))"

definition blob_duplicate_insert ::
  "blob_ctx \<Rightarrow> dupe_ctx \<Rightarrow> nat \<Rightarrow> byte list \<Rightarrow> nat \<Rightarrow> u32 \<Rightarrow> dupe_entry list \<Rightarrow> page_env \<Rightarrow>
   (ham_status \<times> nat option \<times> nat \<times> page_env) option" where
  "blob_duplicate_insert B D table_id d position flags entries pe =
     (case dupe_load B table_id entries pe of
        None \<Rightarrow> None
      | Some (Inl st, pe1) \<Rightarrow> Some (st, None, position, pe1)
      | Some (Inr (t, page, e), pe1) \<Rightarrow>
          (let resize = dupe_table_needs_resize flags t
           in case (if resize then dupe_table_resize t else Some t) of
                None \<Rightarrow> None
              | Some t1 \<Rightarrow>
                  (case dupe_modify B D d position flags e t1 pe1 of
                     None \<Rightarrow> None
                   | Some (pos, t2, pe2) \<Rightarrow>
                       map_option (\<lambda>(st, rid, pe3). (st, rid, pos, pe3)) (dupe_write_back B table_id page resize t2 pe2))))"

section \<open>Erasing\<close>

fun free_entries :: "blob_ctx \<Rightarrow> dupe_entry list \<Rightarrow> page_env \<Rightarrow> (ham_status \<times> page_env) option" where
  "free_entries B [] pe = Some (HAM_SUCCESS, pe)"
| "free_entries B (e # es) pe =
     (if has_blob e then
        (case blob_free B (unat (de_rid e)) pe of
           None \<Rightarrow> None
         | Some (st, pe') \<Rightarrow> if st \<noteq> HAM_SUCCESS then Some (st, pe') else free_entries B es pe')
      else free_entries B es pe)"

definition dupe_table_erase :: "nat \<Rightarrow> dupe_table \<Rightarrow> dupe_table option" where
  "dupe_table_erase position t =
     (let es = dt_entries t; n = dt_count t
      in if n \<le> position \<or> length es < n then None
         else Some (t\<lparr>dt_count := n - 1,
                     dt_entries := take position es @ take (n - position - 1) (drop (position + 1) es) @ drop (n - 1) es\<rparr>))"

definition blob_duplicate_erase ::
  "blob_ctx \<Rightarrow> nat \<Rightarrow> nat \<Rightarrow> u32 \<Rightarrow> page_env \<Rightarrow> (ham_status \<times> nat \<times> page_env) option" where
  "blob_duplicate_erase B table_id position flags pe =
     (case blob_read B table_id \<lparr>br_data = [], br_size = 0, br_partial_offset = 0, br_partial_size = 0\<rparr> 0 pe of
        None \<Rightarrow> None
      | Some (st, b, pe1) \<Rightarrow>
          if st \<noteq> HAM_SUCCESS then Some (st, table_id, pe1)
          else
            (let t = dec_dupe_table b
             in if flags AND HAM_ERASE_ALL_DUPLICATES \<noteq> 0 \<or> position = 0 \<and> dt_count t = 1 then
                  (if length (dt_entries t) < dt_count t then None
                   else
                     (case free_entries B (take (dt_count t) (dt_entries t)) pe1 of
                        None \<Rightarrow> None
                      | Some (st, pe2) \<Rightarrow>
                          if st \<noteq> HAM_SUCCESS then Some (st, table_id, pe2)
                          else
                            (case blob_free B table_id pe2 of
                               None \<Rightarrow> None
                             | Some (st, pe3) \<Rightarrow> Some (st, if st \<noteq> HAM_SUCCESS then table_id else 0, pe3))))
                else
                  (case dupe_table_get_entry t position of
                     None \<Rightarrow> None
                   | Some e \<Rightarrow>
                       (case free_entries B [e] pe1 of
                          None \<Rightarrow> None
                        | Some (st, pe2) \<Rightarrow>
                            if st \<noteq> HAM_SUCCESS then Some (st, table_id, pe2)
                            else
                              (case dupe_table_erase position t of
                                 None \<Rightarrow> None
                               | Some t' \<Rightarrow>
                                   (case blob_overwrite B table_id (dupe_record t') 0 pe2 of
                                      None \<Rightarrow> None
                                    | Some (st, rid, pe3) \<Rightarrow>
                                        if st \<noteq> HAM_SUCCESS then Some (st, table_id, pe3)
                                        else Some (HAM_SUCCESS, if dt_count t' = 0 then 0 else rid, pe3)))))))"

section \<open>Sorted tables\<close>

text \<open>The entries in use.\<close>

definition dupes :: "dupe_table \<Rightarrow> dupe_entry list" where
  "dupes t = take (dt_count t) (dt_entries t)"

text \<open>
  The comparison of a record with the entries of a sorted table never increases along the
  table: first the entries that are smaller, then those that are equal, then the larger ones.
\<close>

definition falling :: "int list \<Rightarrow> bool" where
  "falling cs \<longleftrightarrow> sorted_wrt (\<lambda>a b. sgn b \<le> sgn a) cs"

lemma fallingD:
  assumes "falling cs" "i \<le> j" "j < length cs"
  shows "cs ! i \<le> 0 \<Longrightarrow> cs ! j \<le> 0" "cs ! i < 0 \<Longrightarrow> cs ! j < 0" "0 \<le> cs ! j \<Longrightarrow> 0 \<le> cs ! i"
proof -
  have "sgn (cs ! j) \<le> sgn (cs ! i)"
  proof (cases "i = j")
    case False
    then show ?thesis using assms sorted_wrt_nth_less [of "\<lambda>a b. sgn b \<le> sgn a" cs i j] by (simp add: falling_def)
  qed simp
  then show "cs ! i \<le> 0 \<Longrightarrow> cs ! j \<le> 0" "cs ! i < 0 \<Longrightarrow> cs ! j < 0" "0 \<le> cs ! j \<Longrightarrow> 0 \<le> cs ! i"
    by (auto simp: sgn_if split: if_splits)
qed

text \<open>Position \<open>p\<close> splits the table: nothing before it is larger, nothing from it on is smaller.\<close>

definition splits :: "int list \<Rightarrow> nat \<Rightarrow> bool" where
  "splits cs p \<longleftrightarrow> p \<le> length cs \<and> (\<forall>i < p. 0 \<le> cs ! i) \<and> (\<forall>i. p \<le> i \<longrightarrow> i < length cs \<longrightarrow> cs ! i \<le> 0)"

lemma splits_here:
  assumes "falling cs" "m < length cs" "cs ! m = 0"
  shows "splits cs (m + 1)"
  using assms fallingD [OF assms(1), of _ m] fallingD [OF assms(1), of m] by (auto simp: splits_def less_Suc_eq_le)

lemma sorted_position_loop_ok:
  assumes len: "length cs = dt_count t" "dt_count t \<le> length (dt_entries t)" "dt_count t < 2 ^ 31"
    and rd: "\<And>i. i < dt_count t \<Longrightarrow> \<exists>item. dc_read_record D (dt_entries t ! i) = Inr item \<and> dc_duplicate_compare D d item = cs ! i"
    and f: "falling cs" and lr: "l \<le> r" "r < dt_count t" "m = (l + r) div 2"
    and inv: "\<forall>i < l. 0 \<le> cs ! i" "\<forall>i. r < i \<longrightarrow> i < length cs \<longrightarrow> cs ! i \<le> 0"
  shows "\<exists>p. sorted_position_loop D t d l r m = Some p \<and> splits cs p"
  using lr inv
proof (induction "r - l" arbitrary: l r m rule: less_induct)
  case less
  have m: "l \<le> m" "m \<le> r" "m < length (dt_entries t)" "m < length cs" "l < r \<Longrightarrow> m < r" using less.prems(1-3) len by auto
  obtain item where item: "dc_read_record D (dt_entries t ! m) = Inr item" "dc_duplicate_compare D d item = cs ! m"
    using rd [of m] m(4) len(1) by auto
  define b where "b = cs ! m"
  have unf: "sorted_position_loop D t d l r m =
      (if m = l \<and> b < 0 then Some m else if l = r then Some (if b \<ge> 0 then m + 1 else m) else if b = 0 then Some (m + 1)
       else if b < 0 then (if m = 0 then Some m else sorted_position_loop D t d l (m - 1) (sz32 (l + (m - 1)) div 2))
       else sorted_position_loop D t d (m + 1) r (sz32 (m + 1 + r) div 2))"
    unfolding sorted_position_loop.simps [of D t d l r m] using less.prems(1) m(3) item by (auto simp: dupe_table_get_entry_def b_def Let_def)
  have above: "cs ! i \<le> 0" if "b \<le> 0" "m \<le> i" "i < length cs" for i using fallingD(1) [OF f that(2,3)] that(1) by (simp add: b_def)
  have below: "0 \<le> cs ! i" if "0 \<le> b" "i \<le> m" for i using fallingD(3) [OF f that(2) m(4)] that(1) by (simp add: b_def)
  consider "m = l" "b < 0" | "l = r" "0 \<le> b" | "b = 0" "l \<noteq> r" | "b < 0" "l < m" | "0 < b" "l < r"
    using m(1,2) less.prems(1) by fastforce
  then show ?case
  proof cases
    case 1
    then show ?thesis using unf less.prems(4) above m(4) by (auto simp: splits_def)
  next
    case 2
    then show ?thesis using unf m below less.prems(5) by (auto simp: splits_def less_Suc_eq_le)
  next
    case 3
    then show ?thesis using unf splits_here [OF f m(4)] by (auto simp: b_def)
  next
    case 4
    have s: "sz32 (l + (m - 1)) = l + (m - 1)" using m len 4 by (simp add: sz32_def)
    have "m - 1 - l < r - l" "l \<le> m - 1" "m - 1 < dt_count t" "(l + (m - 1)) div 2 = (l + (m - 1)) div 2"
      "\<forall>i. m - 1 < i \<longrightarrow> i < length cs \<longrightarrow> cs ! i \<le> 0" using 4 m len above by auto
    from less.hyps [OF this(1-4) less.prems(4) this(5)] show ?thesis using unf 4 m(2) s by auto
  next
    case 5
    have s: "sz32 (m + 1 + r) = m + 1 + r" using m len less.prems(2) by (simp add: sz32_def)
    have "r - (m + 1) < r - l" "m + 1 \<le> r" "(m + 1 + r) div 2 = (m + 1 + r) div 2" "\<forall>i < m + 1. 0 \<le> cs ! i"
      using 5 m below by (auto simp: less_Suc_eq_le)
    from less.hyps [OF this(1,2) less.prems(2) this(3,4) less.prems(5)] show ?thesis using unf 5 s by auto
  qed
qed

lemma last_index: "0 < n \<Longrightarrow> n < 2 ^ 31 \<Longrightarrow> sz32 (n + (2 ^ 32 - 1)) = n - 1"
proof -
  assume n: "0 < n" "n < 2 ^ 31"
  then have "n + (2 ^ 32 - 1) = 2 ^ 32 + (n - 1)" by simp
  then show ?thesis using n(2) by (simp only: sz32_def mod_add_self1) simp
qed

text \<open>A compare function that orders records by a key.\<close>

definition orders_by :: "(byte list \<Rightarrow> 'a :: linorder) \<Rightarrow> (byte list \<Rightarrow> byte list \<Rightarrow> int) \<Rightarrow> bool" where
  "orders_by key cmp \<longleftrightarrow> (\<forall>a b. (cmp a b < 0 \<longleftrightarrow> key a < key b) \<and> (cmp a b = 0 \<longleftrightarrow> key a = key b))"

lemma orders_byD:
  assumes "orders_by key cmp"
  shows "cmp a b \<le> 0 \<longleftrightarrow> key a \<le> key b" "0 \<le> cmp a b \<longleftrightarrow> key b \<le> key a"
  using assms unfolding orders_by_def by (metis le_less, metis not_less)

lemma falling_sorted:
  assumes "orders_by key cmp" "sorted (map key ds)"
  shows "falling (map (cmp d) ds)"
  unfolding falling_def sorted_wrt_map
proof (rule sorted_wrt_mono_rel [OF _ assms(2) [unfolded sorted_map]])
  fix a b assume "key a \<le> key b"
  then show "sgn (cmp d b) \<le> sgn (cmp d a)"
    using orders_byD [OF assms(1), of d a] orders_byD [OF assms(1), of d b] by (auto simp: sgn_if)
qed

lemma splits_sorted:
  assumes "orders_by key cmp" "sorted (map key ds)" "splits (map (cmp d) ds) p"
  shows "sorted (map key (take p ds @ d # drop p ds))"
proof -
  have "key (ds ! i) \<le> key d" if "i < p" "i < length ds" for i
    using assms(3) that orders_byD(2) [OF assms(1)] by (auto simp: splits_def)
  moreover have "key d \<le> key (ds ! i)" if "p \<le> i" "i < length ds" for i
    using assms(3) that orders_byD(1) [OF assms(1)] by (auto simp: splits_def)
  ultimately have "\<forall>x \<in> set (take p ds). key x \<le> key d" "\<forall>x \<in> set (drop p ds). key d \<le> key x"
    by (auto simp: in_set_conv_nth)
  moreover have "sorted (map key (take p ds))" "sorted (map key (drop p ds))"
    using assms(2) by (simp_all add: take_map [symmetric] drop_map [symmetric] sorted_wrt_take sorted_wrt_drop)
  ultimately show ?thesis by (force simp: sorted_append)
qed

section \<open>Tables as lists\<close>

text \<open>A table has memory for its capacity and at least one free entry.\<close>

definition dupe_ok :: "dupe_table \<Rightarrow> bool" where
  "dupe_ok t \<longleftrightarrow> dt_count t < dt_capacity t \<and> length (dt_entries t) = dt_capacity t"

lemma length_dupes: "dupe_ok t \<Longrightarrow> length (dupes t) = dt_count t"
  by (simp add: dupe_ok_def dupes_def)

lemma dupe_table_new_ok: "dupe_ok (dupe_table_new e)" "dupes (dupe_table_new e) = [e]"
  by (simp_all add: dupe_ok_def dupes_def dupe_table_new_def)

text \<open>Growing, if necessary, makes room for the new entry and one more.\<close>

lemma dupe_table_room:
  assumes "dupe_ok t" "flags AND HAM_OVERWRITE = 0" "dt_capacity t < 2 ^ 27"
  shows "\<exists>t'. (if dupe_table_needs_resize flags t then dupe_table_resize t else Some t) = Some t' \<and>
    dupe_ok t' \<and> dt_count t' + 1 < dt_capacity t' \<and> dt_capacity t' < 2 ^ 28 \<and> dupes t' = dupes t \<and> dt_count t' = dt_count t"
proof (cases "dupe_table_needs_resize flags t")
  case True
  define c where "c = (if dt_capacity t < 3 * 8 then dt_capacity t + 8 else dt_capacity t + dt_capacity t div 3)"
  have c: "dt_count t + 1 < c" "c < 2 ^ 28" using assms(1,3) by (auto simp: c_def dupe_ok_def)
  have cut: "(if dt_capacity t < 3 * 8 then sz32 (dt_capacity t + 8) else sz32 (dt_capacity t + dt_capacity t div 3)) = c"
    using c(2) by (auto simp: c_def sz32_def)
  have "(dupe_table_bytes c - 8) div sizeof_dupe_entry = c"
    using c(2) by (simp add: dupe_table_bytes_def sizeof_dupe_entry_def sz32_def)
  then show ?thesis using True assms(1) c unfolding dupe_table_resize_def cut Let_def
    by (auto simp: dupe_ok_def dupes_def)
next
  case False
  moreover have "sz32 (dt_count t + 1) = dt_count t + 1" using assms(1,3) by (simp add: dupe_ok_def sz32_def)
  ultimately show ?thesis using assms by (auto simp: dupe_table_needs_resize_def)
qed

text \<open>
  From a capacity of \<open>2^28\<close> on, the size of the new table does not fit into 32 bits: the memory that is allocated is
  too small for the entries that are copied into it.
\<close>

lemma dupe_table_resize_overruns:
  assumes "dt_capacity t = 3 * 2 ^ 26" "0 < dt_count t"
  shows "dupe_table_resize t = None"
  using assms by (simp add: dupe_table_resize_def Let_def dupe_table_bytes_def sizeof_dupe_entry_def sz32_def)

lemma dupe_table_insert_ok:
  assumes ok: "dupe_ok t" "dt_count t + 1 < dt_capacity t" and p: "p \<le> dt_count t"
  shows "\<exists>t'. dupe_table_insert p e t = Some t' \<and> dupe_ok t' \<and> dupes t' = take p (dupes t) @ e # drop p (dupes t)"
proof -
  let ?es = "dt_entries t" and ?n = "dt_count t"
  have len: "?n + 1 < length ?es" using ok by (simp add: dupe_ok_def)
  define es where "es = (if p = ?n then ?es else take (p + 1) ?es @ take (?n - p) (drop p ?es) @ drop (?n + 1) ?es)"
  have l: "length es = length ?es" using len p by (auto simp: es_def)
  have "take (?n + 1) (es[p := e]) = take p ?es @ e # take (?n - p) (drop p ?es)"
  proof (cases "p = ?n")
    case True
    then show ?thesis using len by (simp add: es_def take_Suc_conv_app_nth take_update_swap list_update_append)
  next
    case False
    then have "es[p := e] = take p ?es @ e # take (?n - p) (drop p ?es) @ drop (?n + 1) ?es"
      using len p by (simp add: es_def take_Suc_conv_app_nth list_update_append)
    then show ?thesis using len p by (simp add: Suc_diff_le)
  qed
  then have "take (?n + 1) (es[p := e]) = take p (dupes t) @ e # drop p (dupes t)" using p by (simp add: dupes_def drop_take min_def)
  moreover have "dupe_table_insert p e t = Some (t\<lparr>dt_count := ?n + 1, dt_entries := es[p := e]\<rparr>)"
    using len p by (simp add: dupe_table_insert_def es_def [symmetric] Let_def)
  ultimately show ?thesis using ok l by (simp add: dupe_ok_def dupes_def)
qed

lemma dupe_table_erase_ok:
  assumes ok: "dupe_ok t" and p: "p < dt_count t"
  shows "\<exists>t'. dupe_table_erase p t = Some t' \<and> dupe_ok t' \<and> dupes t' = take p (dupes t) @ drop (p + 1) (dupes t)"
proof -
  let ?es = "dt_entries t" and ?n = "dt_count t"
  have len: "?n < length ?es" using ok by (simp add: dupe_ok_def)
  define as where "as = take p ?es @ take (?n - p - 1) (drop (p + 1) ?es)"
  define es where "es = take p ?es @ take (?n - p - 1) (drop (p + 1) ?es) @ drop (?n - 1) ?es"
  have "length as = ?n - 1" "es = as @ drop (?n - 1) ?es" using len p by (simp_all add: as_def es_def)
  then have "take (?n - 1) es = as" by simp
  moreover have "as = take p (dupes t) @ drop (p + 1) (dupes t)" using p by (simp add: as_def dupes_def drop_take min_def)
  moreover have "length es = length ?es" using len p by (simp add: es_def)
  moreover have "dupe_table_erase p t = Some (t\<lparr>dt_count := ?n - 1, dt_entries := es\<rparr>)"
    using len p by (simp add: dupe_table_erase_def es_def Let_def)
  ultimately show ?thesis using ok by (auto simp: dupe_ok_def dupes_def)
qed

text \<open>The bytes of a table.\<close>

definition entry_ok :: "dupe_entry \<Rightarrow> bool" where
  "entry_ok e \<longleftrightarrow> length (de_padding e) = 7"

lemma length_enc_dupe_entry: "entry_ok e \<Longrightarrow> length (enc_dupe_entry e) = sizeof_dupe_entry"
  by (simp add: entry_ok_def enc_dupe_entry_def sizeof_dupe_entry_def)

lemma dec_enc_dupe_entry: "entry_ok e \<Longrightarrow> dec_dupe_entry (enc_dupe_entry e) = e"
  using get_u64_put [of 8 "de_padding e @ [de_flags e]" "de_rid e" "[]"]
  by (simp add: entry_ok_def enc_dupe_entry_def dec_dupe_entry_def nth_append)

lemma concat_fixed:
  assumes "\<And>x. x \<in> set xs \<Longrightarrow> length (f x) = k"
  shows "length (concat (map f xs)) = length xs * k"
    "i < length xs \<Longrightarrow> take k (drop (i * k) (concat (map f xs) @ ys)) = f (xs ! i)"
proof -
  show l: "length (concat (map f xs)) = length xs * k" using assms by (induction xs) auto
  assume i: "i < length xs"
  then show "take k (drop (i * k) (concat (map f xs) @ ys)) = f (xs ! i)"
    using assms
  proof (induction xs arbitrary: i)
    case (Cons x xs)
    then show ?case by (cases i) auto
  qed simp
qed

text \<open>The size of a table with \<open>n\<close> entries, without the cut to 32 bits.\<close>

definition table_len :: "nat \<Rightarrow> nat" where
  "table_len n = 8 + n * sizeof_dupe_entry"

lemma dupe_table_bytes_len: "n < 2 ^ 28 \<Longrightarrow> dupe_table_bytes n = table_len n"
  by (simp add: dupe_table_bytes_def table_len_def sizeof_dupe_entry_def sz32_def)

lemma length_enc_dupe_table:
  assumes "\<forall>e \<in> set (dt_entries t). entry_ok e"
  shows "length (enc_dupe_table t) = table_len (length (dt_entries t))"
  using concat_fixed(1) [of "dt_entries t" enc_dupe_entry sizeof_dupe_entry] assms length_enc_dupe_entry
  by (simp add: enc_dupe_table_def table_len_def)

text \<open>A table that is read from memory that holds it, and perhaps more behind it.\<close>

lemma dec_enc_dupe_table:
  fixes ys :: "byte list"
  assumes ok: "\<forall>e \<in> set (dt_entries t). entry_ok e" "dt_count t < 2 ^ 32" "dt_capacity t < 2 ^ 32"
  defines "t' \<equiv> dec_dupe_table (enc_dupe_table t @ ys)"
  shows "dt_count t' = dt_count t" "dt_capacity t' = dt_capacity t" "take (length (dt_entries t)) (dt_entries t') = dt_entries t"
    "length (dt_entries t) \<le> length (dt_entries t')"
proof -
  let ?b = "enc_dupe_table t @ ys" and ?n = "length (dt_entries t)"
  have b: "?b = put_u32 (of_nat (dt_count t)) @ put_u32 (of_nat (dt_capacity t)) @ concat (map enc_dupe_entry (dt_entries t)) @ ys"
    by (simp add: enc_dupe_table_def)
  show "dt_count t' = dt_count t" "dt_capacity t' = dt_capacity t"
    using ok(2,3) unfolding t'_def dec_dupe_table_def b by (simp_all add: encoding unat_of_nat)
  have len: "length ?b = 8 + ?n * sizeof_dupe_entry + length ys"
    using length_enc_dupe_table [OF ok(1)] by (simp add: table_len_def)
  then have m: "length (dt_entries t') = ?n + length ys div sizeof_dupe_entry"
    by (simp add: t'_def dec_dupe_table_def sizeof_dupe_entry_def)
  then show "?n \<le> length (dt_entries t')" by simp
  show "take ?n (dt_entries t') = dt_entries t"
  proof (rule nth_equalityI)
    fix i assume "i < length (take ?n (dt_entries t'))"
    then have i: "i < ?n" by simp
    have "drop (8 + i * sizeof_dupe_entry) ?b = drop (i * sizeof_dupe_entry) (concat (map enc_dupe_entry (dt_entries t)) @ ys)" by (simp add: b)
    then have "take sizeof_dupe_entry (drop (8 + i * sizeof_dupe_entry) ?b) = enc_dupe_entry (dt_entries t ! i)"
      using concat_fixed(2) [of "dt_entries t" enc_dupe_entry sizeof_dupe_entry i ys] ok(1) length_enc_dupe_entry i by simp
    moreover have "dt_entries t' ! i = dec_dupe_entry (take sizeof_dupe_entry (drop (8 + i * sizeof_dupe_entry) ?b))"
      using i m by (simp add: t'_def dec_dupe_table_def sizeof_dupe_entry_def)
    ultimately show "take ?n (dt_entries t') ! i = dt_entries t ! i" using dec_enc_dupe_entry ok(1) i by simp
  qed (use m in simp)
qed

section \<open>Tables in the file\<close>

text \<open>The header of a table is read through the cache; the page of the header comes with it.\<close>

lemma read_in_page:
  assumes ok: "blob_ok pe xs" and sz: "0 < sz" "blob_from_cache B pe sz" "addr mod pagesize_of pe + sz \<le> pagesize_of pe"
    and addr: "pagesize_of pe \<le> addr" "addr + sz \<le> file_len pe"
  shows "\<exists>p img pe' xs'. read_chunk B sz [] None addr pe = Some (HAM_SUCCESS, Some p, bytes_at pe addr sz, pe') \<and> blob_keeps xs pe pe' xs' \<and>
    wrote_bytes 0 [] pe pe' \<and> p \<in> set xs' \<and> unat (p_self (pe_store pe' p)) = page_start pe addr \<and> p_pers (pe_store pe' p) = Some img \<and>
    length img = pagesize_of pe \<and> (\<forall>n. addr mod pagesize_of pe + n \<le> pagesize_of pe \<longrightarrow> take n (drop (addr mod pagesize_of pe) img) = bytes_at pe addr n)"
proof -
  let ?ps = "pagesize_of pe" and ?s = "addr mod pagesize_of pe"
  have lt: "addr < file_len pe" using addr(2) sz(1) by simp
  note P = page_start_props [OF ok lt]
  from blob_page_spec [OF ok _ addr(1) lt refl, of None 0] obtain p pe1 xs1 ys1 where
    b: "blob_page pe None (of_nat (page_start pe addr)) 0 = Some (HAM_SUCCESS, Some p, pe1)" and
    e: "env_ok pe1 xs1 ys1" "blob_ok pe1 xs1" "set xs \<subseteq> set xs1" "same_env pe pe1" "pe_dev pe1 = pe_dev pe" and
    p: "p \<in> set xs1" "p_self (pe_store pe1 p) = of_nat (page_start pe addr)" by (auto split: option.splits)
  have w: "wrote_bytes 0 [] pe pe1" using same_env_bytes [OF ok e(4,5)] .
  obtain img where img: "content pe1 (of_nat (page_start pe addr)) = Some img" "length img = ?ps"
    using content_image [OF e(1), of "of_nat (page_start pe addr)"] P(7) e(5) by auto
  have pers: "p_pers (pe_store pe1 p) = Some img" using content_cached [OF e(1) p(1)] p(2) img(1) by simp
  have s1: "page_start pe1 addr = page_start pe addr" using e(5) by (simp add: page_start_def)
  have sl: "take n (drop ?s img) = bytes_at pe addr n" if "?s + n \<le> ?ps" for n
  proof -
    have "addr + n \<le> file_len pe" using P(4,5) that by linarith
    then have "bytes_at pe1 addr n = bytes_at pe addr n" using wrote_bytes_at [OF w] by simp
    then show ?thesis using page_slice [OF e(2), of addr img n] lt img s1 e(5) that by simp
  qed
  have st: "addr - unat (p_self (pe_store pe1 p)) = ?s" using p(2) P(5,6) by simp
  have n: "\<not> sz < ?ps - ?s \<Longrightarrow> ?ps - ?s = sz" using sz(3) by simp
  have "read_chunk B sz [] None addr pe = read_chunk B 0 (take sz (drop ?s img)) (Some p) (addr + sz) pe1"
    unfolding read_chunk.simps [of B sz "[]" None addr pe] Let_def page_start_def [symmetric] using sz(1,2) b pers by (cases "sz < ?ps - ?s") (simp_all add: st n)
  also have "\<dots> = Some (HAM_SUCCESS, Some p, bytes_at pe addr sz, pe1)" using sl [OF sz(3)] by (subst read_chunk.simps) simp
  finally show ?thesis using e w p P(6) pers img(2) sl
    by (intro exI [of _ p] exI [of _ img] exI [of _ pe1] exI [of _ xs1]) (simp add: blob_keeps_def)
qed

text \<open>A table is stored at \<open>table_id\<close>; its header does not cross a page boundary.\<close>

definition dupes_at :: "page_env \<Rightarrow> nat \<Rightarrow> dupe_table \<Rightarrow> bool" where
  "dupes_at pe table_id t \<longleftrightarrow> blob_at pe table_id (enc_dupe_table t) \<and> dupe_ok t \<and> (\<forall>e \<in> set (dt_entries t). entry_ok e) \<and>
     table_len (dt_capacity t) < 2 ^ 32 \<and> table_id mod pagesize_of pe + sizeof_blob_t \<le> pagesize_of pe"

text \<open>
  The test whether the table lies in one page compares the end of a range that starts with
  the blob header but has only the length of the data.
\<close>

definition claims_in_page :: "page_env \<Rightarrow> nat \<Rightarrow> dupe_table \<Rightarrow> bool" where
  "claims_in_page pe table_id t \<longleftrightarrow>
     table_id mod pagesize_of pe + table_len (dt_capacity t) \<le> pagesize_of pe - sizeof_persistent_header"

definition fits_in_page :: "page_env \<Rightarrow> nat \<Rightarrow> dupe_table \<Rightarrow> bool" where
  "fits_in_page pe table_id t \<longleftrightarrow> table_id mod pagesize_of pe + sizeof_blob_t + table_len (dt_capacity t) \<le> pagesize_of pe"

lemma dupes_atD:
  assumes "dupes_at pe table_id t"
  shows "length (enc_dupe_table t) = table_len (dt_capacity t)" "dt_count t < 2 ^ 32" "dt_capacity t < 2 ^ 32"
  using assms length_enc_dupe_table [of t]
  by (auto simp: dupes_at_def dupe_ok_def table_len_def sizeof_dupe_entry_def)

lemma get_duplicate_table_ok:
  assumes ok: "blob_ok pe xs" and t: "dupes_at pe table_id t" and cache: "blob_from_cache B pe sizeof_blob_t"
  shows "\<exists>b page pe' xs'. get_duplicate_table B table_id pe = Some (Inr (dec_dupe_table b, page), pe') \<and> blob_keeps xs pe pe' xs' \<and>
    wrote_bytes 0 [] pe pe' \<and>
    (if claims_in_page pe table_id t
     then b = bytes_at pe (table_id + sizeof_blob_t) (pagesize_of pe - (table_id mod pagesize_of pe + sizeof_blob_t))
     else b = enc_dupe_table t)"
proof -
  let ?ps = "pagesize_of pe" and ?s = "table_id mod pagesize_of pe" and ?n = "table_len (dt_capacity t)"
  note T = dupes_atD [OF t]
  from t have at: "blob_at pe table_id (enc_dupe_table t)" and hs: "?s + sizeof_blob_t \<le> ?ps" and small: "?n < 2 ^ 32" by (simp_all add: dupes_at_def)
  from at obtain h where h: "bytes_at pe table_id (sizeof_blob_t + ?n) = enc_blob h @ enc_dupe_table t" "unat (bh_size h) = ?n"
    "?ps \<le> table_id" "table_id + sizeof_blob_t + ?n \<le> file_len pe" using T(1) by (auto simp: blob_at_def)
  have hd: "bytes_at pe table_id sizeof_blob_t = enc_blob h" using bytes_at_part [of 0 sizeof_blob_t "sizeof_blob_t + ?n" pe table_id] h(1) by simp
  have tb: "bytes_at pe (table_id + sizeof_blob_t) ?n = enc_dupe_table t"
    using bytes_at_part [of sizeof_blob_t ?n "sizeof_blob_t + ?n" pe table_id] h(1) T(1) by simp
  have pos: "0 < sizeof_blob_t" by (simp add: sizeof_blob_t_def)
  have "table_id + sizeof_blob_t \<le> file_len pe" using h(4) by simp
  from read_in_page [OF ok pos cache hs h(3) this] hd obtain p img pe1 xs1 where
    r: "read_chunk B sizeof_blob_t [] None table_id pe = Some (HAM_SUCCESS, Some p, enc_blob h, pe1)" "blob_keeps xs pe pe1 xs1"
    "wrote_bytes 0 [] pe pe1" "p \<in> set xs1" "unat (p_self (pe_store pe1 p)) = page_start pe table_id" "p_pers (pe_store pe1 p) = Some img"
    "length img = ?ps" "\<And>n. ?s + n \<le> ?ps \<Longrightarrow> take n (drop ?s img) = bytes_at pe table_id n" by auto
  have lt: "table_id < file_len pe" using h(4) pos by linarith
  note P = page_start_props [OF ok lt]
  have ps1: "pagesize_of pe1 = ?ps" "file_len pe1 = file_len pe" using r(2) by (simp_all add: blob_keeps_def)
  have start: "table_id - page_start pe table_id = ?s" using P(5) by simp
  have cl: "page_start pe table_id + (?ps - sizeof_persistent_header) \<ge> table_id + ?n \<longleftrightarrow> claims_in_page pe table_id t"
    using P(5) by (auto simp: claims_in_page_def)
  have rest: "drop (?s + sizeof_blob_t) img = bytes_at pe (table_id + sizeof_blob_t) (?ps - (?s + sizeof_blob_t))"
  proof -
    have "drop ?s img = bytes_at pe table_id (?ps - ?s)" using r(8) [of "?ps - ?s"] r(7) hs by simp
    then have "drop sizeof_blob_t (drop ?s img) = bytes_at pe (table_id + sizeof_blob_t) (?ps - ?s - sizeof_blob_t)"
      using bytes_at_part [of sizeof_blob_t "?ps - ?s - sizeof_blob_t" "?ps - ?s" pe table_id] hs by simp
    then show ?thesis by (simp add: add.commute)
  qed
  show ?thesis
  proof (cases "claims_in_page pe table_id t")
    case True
    then have "get_duplicate_table B table_id pe = Some (Inr (dec_dupe_table (drop (?s + sizeof_blob_t) img), Some (p, ?s + sizeof_blob_t)), pe1)"
      unfolding get_duplicate_table_def r(1) using r(5,6) h(2) ps1 cl start by (simp add: Let_def)
    then show ?thesis using True r(2,3) rest by auto
  next
    case False
    have "table_id + sizeof_blob_t + ?n \<le> file_len pe1" "pagesize_of pe1 \<le> table_id + sizeof_blob_t" using h(3,4) ps1 by simp_all
    from read_chunk_ok [OF keeps_blob_ok [OF r(2)] _ this(2,1), of "Some p" B "[]"] r(4) obtain page2 pe2 xs2 where
      q: "read_chunk B ?n [] (Some p) (table_id + sizeof_blob_t) pe1 = Some (HAM_SUCCESS, page2, bytes_at pe1 (table_id + sizeof_blob_t) ?n, pe2)"
      "blob_keeps xs1 pe1 pe2 xs2" "wrote_bytes 0 [] pe1 pe2" by auto
    have "bytes_at pe1 (table_id + sizeof_blob_t) ?n = enc_dupe_table t" using wrote_bytes_at [OF r(3), of "table_id + sizeof_blob_t" ?n] h(4) tb by simp
    moreover have "sz32 ?n = ?n" using small by (simp add: sz32_def)
    ultimately have "get_duplicate_table B table_id pe = Some (Inr (dec_dupe_table (enc_dupe_table t), None), pe2)"
      unfolding get_duplicate_table_def r(1) using r(5) h(2) ps1 cl False q(1) start by (simp add: Let_def)
    then show ?thesis using False blob_keeps_trans [OF r(2) q(2)] wrote_bytes_same [OF r(3) q(3)] by auto
  qed
qed

text \<open>The first entries of a table, read from memory that holds at least these.\<close>

lemma entries_ok_take:
  "\<forall>e \<in> set (dt_entries t). entry_ok e \<Longrightarrow> \<forall>e \<in> set (dt_entries (t\<lparr>dt_entries := take n (dt_entries t)\<rparr>)). entry_ok e"
  using set_take_subset [of n "dt_entries t"] by auto

lemma enc_take:
  assumes "\<forall>e \<in> set (dt_entries t). entry_ok e" "n \<le> length (dt_entries t)"
  shows "take (table_len n) (enc_dupe_table t) = enc_dupe_table (t\<lparr>dt_entries := take n (dt_entries t)\<rparr>)"
proof -
  let ?u = "t\<lparr>dt_entries := take n (dt_entries t)\<rparr>"
  have "concat (map enc_dupe_entry (dt_entries t)) = concat (map enc_dupe_entry (take n (dt_entries t))) @ concat (map enc_dupe_entry (drop n (dt_entries t)))"
    by (metis append_take_drop_id concat_append map_append)
  then have "enc_dupe_table t = enc_dupe_table ?u @ concat (map enc_dupe_entry (drop n (dt_entries t)))" by (simp add: enc_dupe_table_def)
  moreover have "length (enc_dupe_table ?u) = table_len n"
    using length_enc_dupe_table [OF entries_ok_take [OF assms(1), of n]] assms(2) by simp
  ultimately show ?thesis by simp
qed

lemma dec_dupe_table_prefix:
  assumes t: "\<forall>e \<in> set (dt_entries t). entry_ok e" "dt_count t < 2 ^ 32" "dt_capacity t < 2 ^ 32" and n: "n \<le> length (dt_entries t)"
    and b: "take (table_len n) b = take (table_len n) (enc_dupe_table t)"
  shows "dt_count (dec_dupe_table b) = dt_count t" "dt_capacity (dec_dupe_table b) = dt_capacity t"
    "take n (dt_entries (dec_dupe_table b)) = take n (dt_entries t)" "n \<le> length (dt_entries (dec_dupe_table b))"
proof -
  let ?u = "t\<lparr>dt_entries := take n (dt_entries t)\<rparr>"
  have b': "b = enc_dupe_table ?u @ drop (table_len n) b" using b enc_take [OF t(1) n] by (metis append_take_drop_id)
  note D = dec_enc_dupe_table [OF entries_ok_take [OF t(1), of n], of "drop (table_len n) b", folded b']
  show "dt_count (dec_dupe_table b) = dt_count t" "dt_capacity (dec_dupe_table b) = dt_capacity t"
    "take n (dt_entries (dec_dupe_table b)) = take n (dt_entries t)" "n \<le> length (dt_entries (dec_dupe_table b))"
    using D t(2,3) n by simp_all
qed

text \<open>
  What is loaded has the counter and the capacity of the table and all its entries but
  possibly the last one, which is never in use. The in-page test may be wrong by the
  difference between a blob header and a page header, which is the size of an entry.
\<close>

lemma loaded_table:
  assumes ok: "blob_ok pe xs" and t: "dupes_at pe table_id t" and cache: "blob_from_cache B pe sizeof_blob_t"
  shows "\<exists>t' page pe' xs'. get_duplicate_table B table_id pe = Some (Inr (t', page), pe') \<and> blob_keeps xs pe pe' xs' \<and> wrote_bytes 0 [] pe pe' \<and>
    dt_count t' = dt_count t \<and> dt_capacity t' = dt_capacity t \<and> dt_count t \<le> length (dt_entries t') \<and> dupes t' = dupes t"
proof -
  let ?s = "table_id mod pagesize_of pe" and ?n = "dt_capacity t - 1" and ?m = "pagesize_of pe - (table_id mod pagesize_of pe + sizeof_blob_t)"
  from get_duplicate_table_ok [OF assms] obtain b page pe' xs' where
    g: "get_duplicate_table B table_id pe = Some (Inr (dec_dupe_table b, page), pe')" "blob_keeps xs pe pe' xs'" "wrote_bytes 0 [] pe pe'" and
    b: "if claims_in_page pe table_id t then b = bytes_at pe (table_id + sizeof_blob_t) ?m else b = enc_dupe_table t" by blast
  note T = dupes_atD [OF t]
  have e: "\<forall>e \<in> set (dt_entries t). entry_ok e" and d: "dupe_ok t" and at: "blob_at pe table_id (enc_dupe_table t)" using t by (simp_all add: dupes_at_def)
  have tb: "bytes_at pe (table_id + sizeof_blob_t) (table_len (dt_capacity t)) = enc_dupe_table t"
    using at T(1) bytes_at_part [of sizeof_blob_t "table_len (dt_capacity t)" "sizeof_blob_t + table_len (dt_capacity t)" pe table_id]
    by (auto simp: blob_at_def)
  have le: "table_len ?n \<le> table_len (dt_capacity t)" by (simp add: table_len_def)
  have "take (table_len ?n) b = take (table_len ?n) (enc_dupe_table t)"
  proof (cases "claims_in_page pe table_id t")
    case True
    then have "table_len ?n \<le> ?m"
      using d by (auto simp: claims_in_page_def table_len_def dupe_ok_def sizeof_dupe_entry_def sizeof_blob_t_def sizeof_persistent_header_def)
    then have "take (table_len ?n) b = bytes_at pe (table_id + sizeof_blob_t) (table_len ?n)"
      using b True bytes_at_part [of 0 "table_len ?n" ?m pe "table_id + sizeof_blob_t"] by simp
    then show ?thesis using bytes_at_part [of 0 "table_len ?n" "table_len (dt_capacity t)" pe "table_id + sizeof_blob_t"] le tb by simp
  qed (use b in simp)
  note D = dec_dupe_table_prefix [OF e T(2,3) _ this]
  have n: "?n \<le> length (dt_entries t)" "dt_count t \<le> ?n" using d by (auto simp: dupe_ok_def)
  have "take (dt_count t) (take ?n (dt_entries (dec_dupe_table b))) = take (dt_count t) (take ?n (dt_entries t))" using D(3) [OF n(1)] by simp
  then have "dupes (dec_dupe_table b) = dupes t" using D(1) [OF n(1)] n(2) by (simp add: dupes_def min_def)
  then show ?thesis using g D [OF n(1)] n(2) by (intro exI [of _ "dec_dupe_table b"] exI [of _ page] exI [of _ pe'] exI [of _ xs']) simp
qed

section \<open>Properties\<close>

text \<open>C27. The position of a new record in a sorted table of duplicates, for a database whose access mode is not
  \<open>HAM_DAM_SEQUENTIAL_INSERT\<close> (in that mode the search starts at the last entry and a larger record is put in front of it, see the
  findings): the binary search ends, and inserting the record at the position it returns keeps the table sorted, for every compare
  function that orders records by some key, if all records can be read and there are less than \<open>2^31\<close> of them.\<close>

theorem sorted_position_keeps_order:
  assumes "orders_by key (dc_duplicate_compare D)" "\<forall>e \<in> set (dupes t). dc_read_record D e = Inr (data e)"
    and "sorted (map (key \<circ> data) (dupes t))" "dc_data_access_mode D AND HAM_DAM_SEQUENTIAL_INSERT = 0"
    and "0 < dt_count t" "dt_count t \<le> length (dt_entries t)" "dt_count t < 2 ^ 31"
  shows "\<exists>p. get_sorted_position D t d = Some p \<and> p \<le> dt_count t \<and>
    sorted (map key (take p (map data (dupes t)) @ d # drop p (map data (dupes t))))"
proof -
  let ?ds = "map data (dupes t)" and ?cmp = "dc_duplicate_compare D"
  define cs where "cs = map (?cmp d) ?ds"
  have len: "length cs = dt_count t" using assms(6) by (simp add: cs_def dupes_def)
  have s: "sorted (map key ?ds)" using assms(3) by simp
  have rd: "\<exists>item. dc_read_record D (dt_entries t ! i) = Inr item \<and> ?cmp d item = cs ! i" if "i < dt_count t" for i
  proof -
    have l: "length (dupes t) = dt_count t" and "dupes t ! i = dt_entries t ! i" using that assms(6) by (simp_all add: dupes_def)
    moreover have "dupes t ! i \<in> set (dupes t)" by (rule nth_mem) (simp add: l that)
    ultimately show ?thesis using assms(2) that by (auto simp: cs_def)
  qed
  note r = last_index [OF assms(5,7)]
  have "\<exists>p. sorted_position_loop D t d 0 (dt_count t - 1) ((dt_count t - 1) div 2) = Some p \<and> splits cs p"
    by (rule sorted_position_loop_ok [OF len assms(6,7) rd]) (use falling_sorted [OF assms(1) s] assms(5) len in \<open>auto simp: cs_def\<close>)
  then obtain p where p: "get_sorted_position D t d = Some p" "splits cs p"
    unfolding get_sorted_position_def Let_def r using assms(4) by auto
  then show ?thesis using splits_sorted [OF assms(1) s, of d p] len by (auto simp: cs_def splits_def)
qed

text \<open>In the access mode for sequential inserts the search starts at the last entry, and a record
  that belongs behind it is put in front of it: the position is advanced, but computed anew
  from the exhausted range before the loop ends.\<close>

theorem sorted_position_sequential_misplaces:
  assumes "dc_data_access_mode D AND HAM_DAM_SEQUENTIAL_INSERT \<noteq> 0" "2 \<le> dt_count t" "dt_count t \<le> length (dt_entries t)" "dt_count t < 2 ^ 31"
    and "dc_read_record D (dt_entries t ! (dt_count t - 1)) = Inr item" "0 < dc_duplicate_compare D d item"
  shows "get_sorted_position D t d = Some (dt_count t - 1)"
proof -
  let ?r = "dt_count t - 1"
  have "0 < dt_count t" and m: "?r < length (dt_entries t)" using assms(2,3) by linarith+
  note r = last_index [OF this(1) assms(4)]
  have "sz32 (?r + 1 + ?r) div 2 = ?r" using assms(4) by (simp add: sz32_def)
  then have "sorted_position_loop D t d 0 ?r ?r = sorted_position_loop D t d (?r + 1) ?r ?r"
    unfolding sorted_position_loop.simps [of D t d 0 ?r ?r] using assms(2,5,6) m by (simp add: dupe_table_get_entry_def Let_def)
  also have "\<dots> = Some ?r" by (subst sorted_position_loop.simps) simp
  finally show ?thesis unfolding get_sorted_position_def Let_def r using assms(1) by simp
qed

lemma duplicate_get_ok:
  assumes "blob_ok pe xs" "dupes_at pe table_id t" "blob_from_cache B pe sizeof_blob_t"
  shows "\<exists>pe' xs'. blob_duplicate_get B table_id i pe = Some (if i < dt_count t then Inr (dupes t ! i) else Inl HAM_KEY_NOT_FOUND, pe') \<and>
    blob_keeps xs pe pe' xs' \<and> wrote_bytes 0 [] pe pe' \<and> dupes_at pe' table_id t"
proof -
  from loaded_table [OF assms] obtain t' page pe' xs' where
    g: "get_duplicate_table B table_id pe = Some (Inr (t', page), pe')" "blob_keeps xs pe pe' xs'" "wrote_bytes 0 [] pe pe'"
    "dt_count t' = dt_count t" "dt_count t \<le> length (dt_entries t')" "dupes t' = dupes t" by blast
  have "dupe_table_get_entry t' i = Some (dupes t ! i)" if "i < dt_count t"
    using that g(4-6) unfolding g(6) [symmetric] by (simp add: dupe_table_get_entry_def dupes_def)
  moreover have "dupes_at pe' table_id t"
  proof -
    have "bytes_at pe' table_id (sizeof_blob_t + length (enc_dupe_table t)) = bytes_at pe table_id (sizeof_blob_t + length (enc_dupe_table t))"
      by (rule wrote_bytes_at [OF g(3)]) (use assms(2) in \<open>auto simp: dupes_at_def blob_at_def\<close>)
    then show ?thesis using assms(2) g(2) by (auto simp: dupes_at_def blob_at_def blob_keeps_def)
  qed
  ultimately show ?thesis using g(1-4) by (auto simp: blob_duplicate_get_def)
qed

text \<open>C32. Reading a duplicate returns the entry at its position of the stored table, or reports that
  there is none, whether the table is used in its page or copied. The test for the former
  forgets the blob header, so that the last entry of the table may lie behind the page; that
  entry is never in use.\<close>

theorem duplicate_get_returns_entry:
  assumes "blob_ok pe xs" "dupes_at pe table_id t" "blob_from_cache B pe sizeof_blob_t"
  shows "\<exists>pe' xs'. blob_duplicate_get B table_id i pe = Some (if i < dt_count t then Inr (dupes t ! i) else Inl HAM_KEY_NOT_FOUND, pe') \<and>
    blob_ok pe' xs' \<and> dupes_at pe' table_id t"
  using duplicate_get_ok [OF assms, of i] keeps_blob_ok by blast

lemma dupe_table_ops:
  assumes ok: "dupe_ok t" and cap: "dt_capacity t < 2 ^ 27"
  shows "flags AND HAM_OVERWRITE = 0 \<Longrightarrow>
      \<exists>t1. (if dupe_table_needs_resize flags t then dupe_table_resize t else Some t) = Some t1 \<and>
        (\<forall>p. dupe_position D flags position d t1 = Some p \<and> p \<le> dt_count t \<longrightarrow>
          (\<exists>t2. dupe_modify B D d position flags e t1 pe = Some (p, t2, pe) \<and> dupe_ok t2 \<and> dupes t2 = take p (dupes t) @ e # drop p (dupes t))) \<and>
        (dc_rt_flags D AND HAM_SORT_DUPLICATES = 0 \<and> position \<le> dt_count t \<longrightarrow> dupe_position D flags position d t1 = Some
          (if flags AND HAM_DUPLICATE_INSERT_BEFORE \<noteq> 0 then position
           else if flags AND HAM_DUPLICATE_INSERT_AFTER \<noteq> 0 then min (position + 1) (dt_count t)
           else if flags AND HAM_DUPLICATE_INSERT_FIRST \<noteq> 0 then 0 else dt_count t))"
    and "flags AND HAM_OVERWRITE \<noteq> 0 \<Longrightarrow> position < dt_count t \<Longrightarrow>
      has_blob (dupes t ! position) \<longrightarrow> blob_free B (unat (de_rid (dupes t ! position))) pe = Some (st, pe') \<Longrightarrow>
      \<exists>t2. dupe_modify B D d position flags e t pe = Some (position, t2, if has_blob (dupes t ! position) then pe' else pe) \<and>
        dupe_ok t2 \<and> dupes t2 = (dupes t)[position := e]"
    and "i < dt_count t \<Longrightarrow> \<exists>t2. dupe_table_erase i t = Some t2 \<and> dupe_ok t2 \<and> dupes t2 = take i (dupes t) @ drop (i + 1) (dupes t)"
proof -
  assume fl: "flags AND HAM_OVERWRITE = 0"
  from dupe_table_room [OF ok fl cap] obtain t1 where
    r: "(if dupe_table_needs_resize flags t then dupe_table_resize t else Some t) = Some t1" "dupe_ok t1" "dt_count t1 + 1 < dt_capacity t1"
    "dupes t1 = dupes t" "dt_count t1 = dt_count t" by blast
  have "\<exists>t2. dupe_modify B D d position flags e t1 pe = Some (p, t2, pe) \<and> dupe_ok t2 \<and> dupes t2 = take p (dupes t) @ e # drop p (dupes t)"
    if p: "dupe_position D flags position d t1 = Some p" "p \<le> dt_count t" for p
    using dupe_table_insert_ok [OF r(2,3), of p e] p r(4,5) fl by (auto simp: dupe_modify_def)
  moreover have "sz32 (position + 1) = position + 1" if "position \<le> dt_count t" using that ok cap by (simp add: dupe_ok_def sz32_def)
  ultimately show "\<exists>t1. (if dupe_table_needs_resize flags t then dupe_table_resize t else Some t) = Some t1 \<and>
        (\<forall>p. dupe_position D flags position d t1 = Some p \<and> p \<le> dt_count t \<longrightarrow>
          (\<exists>t2. dupe_modify B D d position flags e t1 pe = Some (p, t2, pe) \<and> dupe_ok t2 \<and> dupes t2 = take p (dupes t) @ e # drop p (dupes t))) \<and>
        (dc_rt_flags D AND HAM_SORT_DUPLICATES = 0 \<and> position \<le> dt_count t \<longrightarrow> dupe_position D flags position d t1 = Some
          (if flags AND HAM_DUPLICATE_INSERT_BEFORE \<noteq> 0 then position
           else if flags AND HAM_DUPLICATE_INSERT_AFTER \<noteq> 0 then min (position + 1) (dt_count t)
           else if flags AND HAM_DUPLICATE_INSERT_FIRST \<noteq> 0 then 0 else dt_count t))"
    using r by (intro exI [of _ t1]) (auto simp: dupe_position_def)
next
  assume fl: "flags AND HAM_OVERWRITE \<noteq> 0" and p: "position < dt_count t"
    and bl: "has_blob (dupes t ! position) \<longrightarrow> blob_free B (unat (de_rid (dupes t ! position))) pe = Some (st, pe')"
  have e: "dupe_table_get_entry t position = Some (dupes t ! position)" using p ok by (simp add: dupe_table_get_entry_def dupe_ok_def dupes_def)
  have "dupe_ok (t\<lparr>dt_entries := (dt_entries t)[position := e]\<rparr>)" "dupes (t\<lparr>dt_entries := (dt_entries t)[position := e]\<rparr>) = (dupes t)[position := e]"
    using ok p by (simp_all add: dupe_ok_def dupes_def take_update_swap)
  then show "\<exists>t2. dupe_modify B D d position flags e t pe = Some (position, t2, if has_blob (dupes t ! position) then pe' else pe) \<and>
        dupe_ok t2 \<and> dupes t2 = (dupes t)[position := e]"
    using fl bl e by (simp add: dupe_modify_def dupe_table_overwrite_def)
next
  assume "i < dt_count t"
  from dupe_table_erase_ok [OF ok this] show "\<exists>t2. dupe_table_erase i t = Some t2 \<and> dupe_ok t2 \<and> dupes t2 = take i (dupes t) @ drop (i + 1) (dupes t)" by blast
qed

text \<open>C28. A table of duplicates with a capacity below \<open>2^27\<close> entries behaves like a list, under each of its operations. Inserting:
  after the table has been made larger if there is room for one entry only, the new entry is put at the position that is computed from
  the flags or, for sorted duplicates, by the search, as long as that is not behind the last entry (the search returns such a position only
  when a record cannot be read); the others keep their order, no entry is written
  outside the memory of the table, and the table again has a free entry. Without sorted duplicates, and for a given position not behind the last entry,
  the position is the one that the flags ask for.
  Overwriting replaces the entry at its position, after the blob of the old record was freed, which has to succeed if there is one. Erasing removes exactly the entry at its
  position, whichever it is. The bound is needed: the code computes the size of a table in 32 bits, which overflow when the capacity grows to \<open>2^28\<close>.\<close>

theorem dupe_table_refines_list:
  assumes ok: "dupe_ok t" and cap: "dt_capacity t < 2 ^ 27"
  shows "(flags AND HAM_OVERWRITE = 0 \<longrightarrow>
      (\<exists>t1. (if dupe_table_needs_resize flags t then dupe_table_resize t else Some t) = Some t1 \<and>
        (\<forall>p. dupe_position D flags position d t1 = Some p \<and> p \<le> dt_count t \<longrightarrow>
          (\<exists>t2. dupe_modify B D d position flags e t1 pe = Some (p, t2, pe) \<and> dupe_ok t2 \<and> dupes t2 = take p (dupes t) @ e # drop p (dupes t))) \<and>
        (dc_rt_flags D AND HAM_SORT_DUPLICATES = 0 \<and> position \<le> dt_count t \<longrightarrow> dupe_position D flags position d t1 = Some
          (if flags AND HAM_DUPLICATE_INSERT_BEFORE \<noteq> 0 then position
           else if flags AND HAM_DUPLICATE_INSERT_AFTER \<noteq> 0 then min (position + 1) (dt_count t)
           else if flags AND HAM_DUPLICATE_INSERT_FIRST \<noteq> 0 then 0 else dt_count t)))) \<and>
    (flags AND HAM_OVERWRITE \<noteq> 0 \<and> position < dt_count t \<and>
      (has_blob (dupes t ! position) \<longrightarrow> blob_free B (unat (de_rid (dupes t ! position))) pe = Some (st, pe')) \<longrightarrow>
      (\<exists>t2. dupe_modify B D d position flags e t pe = Some (position, t2, if has_blob (dupes t ! position) then pe' else pe) \<and>
        dupe_ok t2 \<and> dupes t2 = (dupes t)[position := e])) \<and>
    (i < dt_count t \<longrightarrow>
      (\<exists>t2. dupe_table_erase i t = Some t2 \<and> dupe_ok t2 \<and> dupes t2 = take i (dupes t) @ drop (i + 1) (dupes t)))"
  using dupe_table_ops [OF ok cap] by (intro conjI impI) (elim conjE, assumption | simp)+

section \<open>Concrete tables\<close>

text \<open>Records of one byte, stored in the entries, in the order of their values.\<close>

definition byte_entry :: "byte \<Rightarrow> dupe_entry" where
  "byte_entry b = \<lparr>de_padding = replicate 7 0, de_flags = KEY_BLOB_SIZE_TINY, de_rid = ucast b\<rparr>"

definition byte_dupes :: "u16 \<Rightarrow> dupe_ctx" where
  "byte_dupes dam = \<lparr>dc_rt_flags = HAM_SORT_DUPLICATES, dc_data_access_mode = dam,
     dc_duplicate_compare = (\<lambda>a b. uint (hd a) - uint (hd b)), dc_read_record = (\<lambda>e. Inr [ucast (de_rid e)])\<rparr>"

definition byte_table :: dupe_table where
  "byte_table = \<lparr>dt_count = 3, dt_capacity = 8, dt_entries = map byte_entry [10, 20, 30] @ replicate 5 zero_entry\<rparr>"

lemma byte_table_dupes: "dupes byte_table = map byte_entry [10, 20, 30]" "dupe_ok byte_table"
  by (simp_all add: byte_table_def dupes_def dupe_ok_def)

theorem sorted_position_keeps_order_witness:
  "\<exists>p. get_sorted_position (byte_dupes 0) byte_table [25] = Some p \<and>
     sorted (map (\<lambda>d. uint (hd d)) (take p [[10], [20], [30]] @ [25] # drop p [[10], [20], [30 :: byte]]))"
proof -
  have "orders_by (\<lambda>d. uint (hd d)) (dc_duplicate_compare (byte_dupes 0))" by (auto simp: orders_by_def byte_dupes_def)
  from sorted_position_keeps_order [OF this, of byte_table "\<lambda>e. [ucast (de_rid e)]" "[25]"] show ?thesis
    by (simp add: byte_table_dupes) (auto simp: byte_table_def byte_dupes_def byte_entry_def)
qed

theorem sorted_position_sequential_misplaces_witness:
  "get_sorted_position (byte_dupes HAM_DAM_SEQUENTIAL_INSERT) byte_table [40] = Some 2"
  using sorted_position_sequential_misplaces [of "byte_dupes HAM_DAM_SEQUENTIAL_INSERT" byte_table "[30]" "[40]"]
  by (simp add: byte_table_def byte_dupes_def byte_entry_def HAM_DAM_SEQUENTIAL_INSERT_def)

theorem dupe_table_refines_list_witness:
  "(\<exists>t2. dupe_modify plain_blobs (byte_dupes 0\<lparr>dc_rt_flags := 0\<rparr>) [] 1 HAM_DUPLICATE_INSERT_AFTER (byte_entry 9) byte_table small_pe =
       Some (2, t2, small_pe) \<and> dupes t2 = map byte_entry [10, 20, 9, 30]) \<and>
   (\<exists>t2. dupe_modify plain_blobs (byte_dupes 0) [] 1 HAM_OVERWRITE (byte_entry 9) byte_table small_pe =
       Some (1, t2, small_pe) \<and> dupes t2 = map byte_entry [10, 9, 30]) \<and>
   (\<exists>t2. dupe_table_erase 1 byte_table = Some t2 \<and> dupes t2 = map byte_entry [10, 30])"
proof -
  have c: "dt_count byte_table = 3" "dt_capacity byte_table < 2 ^ 27" and n: "\<not> dupe_table_needs_resize HAM_DUPLICATE_INSERT_AFTER byte_table"
    by (simp_all add: dupe_table_needs_resize_def byte_table_def sz32_def)
  have f: "HAM_DUPLICATE_INSERT_AFTER AND HAM_OVERWRITE = 0" "HAM_DUPLICATE_INSERT_AFTER AND HAM_DUPLICATE_INSERT_BEFORE = 0"
    "HAM_DUPLICATE_INSERT_AFTER \<noteq> 0" "HAM_OVERWRITE AND HAM_OVERWRITE \<noteq> 0"
    by (simp_all add: HAM_DUPLICATE_INSERT_AFTER_def HAM_DUPLICATE_INSERT_BEFORE_def HAM_OVERWRITE_def)
  have b: "\<not> has_blob (dupes byte_table ! 1)"
    by (simp add: byte_table_dupes has_blob_def byte_entry_def KEY_BLOB_SIZE_TINY_def KEY_BLOB_SIZE_SMALL_def KEY_BLOB_SIZE_EMPTY_def)
  note T = dupe_table_refines_list [OF byte_table_dupes(2) c(2)]
  let ?D = "byte_dupes 0\<lparr>dc_rt_flags := 0\<rparr>"
  note I = conjunct1 [OF T [of HAM_DUPLICATE_INSERT_AFTER ?D 1 "[]" plain_blobs "byte_entry 9" small_pe]]
  have p: "dupe_position ?D HAM_DUPLICATE_INSERT_AFTER 1 [] byte_table = Some 2" using I by (simp add: f c n numeral_2_eq_2)
  have "\<exists>t2. dupe_modify plain_blobs ?D [] 1 HAM_DUPLICATE_INSERT_AFTER (byte_entry 9) byte_table small_pe = Some (2, t2, small_pe) \<and>
       dupe_ok t2 \<and> dupes t2 = take 2 (dupes byte_table) @ byte_entry 9 # drop 2 (dupes byte_table)"
    using I p by (simp add: f c n)
  then have "\<exists>t2. dupe_modify plain_blobs ?D [] 1 HAM_DUPLICATE_INSERT_AFTER (byte_entry 9) byte_table small_pe = Some (2, t2, small_pe) \<and>
       dupes t2 = map byte_entry [10, 20, 9, 30]"
    by (auto simp: byte_table_dupes)
  moreover have "\<exists>t2. dupe_modify plain_blobs (byte_dupes 0) [] 1 HAM_OVERWRITE (byte_entry 9) byte_table small_pe =
       Some (1, t2, small_pe) \<and> dupes t2 = map byte_entry [10, 9, 30]"
    using conjunct1 [OF conjunct2 [OF T [of HAM_OVERWRITE "byte_dupes 0" 1 "[]" plain_blobs "byte_entry 9" small_pe]]] b
    by (auto simp: f(4) [simplified] c byte_table_dupes)
  moreover have "\<exists>t2. dupe_table_erase 1 byte_table = Some t2 \<and> dupes t2 = map byte_entry [10, 30]"
    using conjunct2 [OF conjunct2 [OF T [of 0 _ _ _ _ _ _ _ _ 1]]] by (auto simp: c byte_table_dupes)
  ultimately show ?thesis by blast
qed

text \<open>The table in the second page of a file of two pages; nothing is cached.\<close>

lemma bytes_at_uncached:
  assumes ok: "blob_ok pe []" and e: "env_ok pe [] ys" and n: "a + n \<le> file_len pe"
  shows "bytes_at pe a n = take n (drop a (fdata (dev_fd (pe_dev pe))))"
proof (rule nth_equalityI)
  fix i assume "i < length (bytes_at pe a n)"
  then have i: "i < n" "a + i < file_len pe" using n by simp_all
  note P = page_start_props [OF ok i(2)]
  have "byte_at pe (a + i) = page_at (pe_dev pe) (page_start pe (a + i)) ! ((a + i) mod pagesize_of pe)"
    using content_file [OF e, of "of_nat (page_start pe (a + i))"] P(6) by (simp add: byte_at_def)
  also have "\<dots> = fdata (dev_fd (pe_dev pe)) ! (a + i)" using P(3-5) blob_okD(1) [OF ok] by (simp add: page_at_def)
  finally show "bytes_at pe a n ! i = take n (drop a (fdata (dev_fd (pe_dev pe)))) ! i" using i n by (simp add: bytes_at_def)
qed (use n in simp)

definition dupe_pe :: page_env where
  "dupe_pe = \<lparr>pe_cs = (sample_cs None log_new)\<lparr>cs_store := (\<lambda>_. new_page), cs_cache := cache_new 1, cs_head := None,
       cs_dev := \<lparr>dev_fd = \<lparr>fdata = replicate 256 0 @ enc_blob \<lparr>bh_self = 256, bh_alloc_size = 192, bh_size = 136, bh_flags = 0\<rparr> @
         enc_dupe_table byte_table @ replicate 92 0, fpos = 0, fscript = []\<rparr>, dev_flags = 0, dev_pagesize = 256, dev_granularity = 1\<rparr>\<rparr>,
     pe_flags = 0, pe_next = 0, pe_uncouple = (\<lambda>p. HAM_SUCCESS), pe_freel_alloc_page = (HAM_SUCCESS, 0)\<rparr>"

lemma byte_table_bytes: "\<forall>e \<in> set (dt_entries byte_table). entry_ok e" "length (enc_dupe_table byte_table) = 136"
proof -
  show e: "\<forall>e \<in> set (dt_entries byte_table). entry_ok e" by (auto simp: byte_table_def byte_entry_def zero_entry_def entry_ok_def)
  show "length (enc_dupe_table byte_table) = 136"
    using length_enc_dupe_table [OF e] by (simp add: byte_table_def table_len_def sizeof_dupe_entry_def)
qed

lemma dupe_pe_ok: "env_ok dupe_pe [] []" "blob_ok dupe_pe []" "pagesize_of dupe_pe = 256" "file_len dupe_pe = 512"
proof -
  show p: "pagesize_of dupe_pe = 256" and l: "file_len dupe_pe = 512"
    by (simp_all add: dupe_pe_def byte_table_bytes sizeof_blob_t_def)
  have s: "pe_store dupe_pe = (\<lambda>_. new_page)" "pe_cache dupe_pe = cache_new 1" "cs_head (pe_cs dupe_pe) = None" "cs_filters (pe_cs dupe_pe) = []"
    by (simp_all add: dupe_pe_def sample_cs_def)
  have un: "unlinked w (\<lambda>_. new_page) q" for w q by (simp add: unlinked_def get_next_def get_previous_def new_page_def)
  have h: "cache_holds (\<lambda>_. new_page) (cache_new 1) []" unfolding cache_holds_def using cache_new_rep [of "\<lambda>_. new_page" 1] un by blast
  have d: "device_ok (pe_dev dupe_pe)" using p l by (simp add: device_ok_def off_max_def) (simp add: dupe_pe_def)
  show e: "env_ok dupe_pe [] []" unfolding env_ok_def using h un d by (simp add: s)
  show "blob_ok dupe_pe []" using e p l by (auto simp: blob_ok_def) (simp add: dupe_pe_def)
qed

lemma dupe_pe_dupes: "dupes_at dupe_pe 256 byte_table"
proof -
  have "bytes_at dupe_pe 256 (sizeof_blob_t + 136) =
      enc_blob \<lparr>bh_self = 256, bh_alloc_size = 192, bh_size = 136, bh_flags = 0\<rparr> @ enc_dupe_table byte_table"
    using bytes_at_uncached [OF dupe_pe_ok(2,1), of 256 "sizeof_blob_t + 136"] dupe_pe_ok(4) byte_table_bytes(2)
    by (simp add: dupe_pe_def sizeof_blob_t_def)
  then show ?thesis using byte_table_bytes byte_table_dupes(2) dupe_pe_ok(3,4)
    by (auto simp: dupes_at_def blob_at_def sizeof_blob_t_def) (simp_all add: byte_table_def table_len_def sizeof_dupe_entry_def)
qed

theorem duplicate_get_returns_entry_witness:
  "\<exists>pe'. blob_duplicate_get (plain_blobs\<lparr>bc_has_log := True\<rparr>) 256 1 dupe_pe = Some (Inr (byte_entry 20), pe')"
proof -
  have "blob_from_cache (plain_blobs\<lparr>bc_has_log := True\<rparr>) dupe_pe sizeof_blob_t"
    using dupe_pe_ok(3) by (simp add: blob_from_cache_def sizeof_blob_t_def sizeof_persistent_header_def)
  from duplicate_get_returns_entry [OF dupe_pe_ok(2) dupe_pe_dupes this, of 1] show ?thesis
    by (auto simp: byte_table_dupes) (simp add: byte_table_def)
qed

end
