(* ===== verification/Ham_Btree.thy ===== *)
theory Ham_Btree
  imports Ham_Compare Ham_Page
begin

text \<open>
  The B+tree backend, \<open>src/btree.cc\<close>, \<open>src/btree.h\<close> and \<open>src/btree_key.h\<close>: index entries and
  nodes, the binary search in a node, the capacity of a node, the descent to a child, the
  search in a leaf with its approximate matches, and the life cycle of a backend (create,
  open, flush, close) with its record in the header page.

  A node is the list of its used entries, so its count is the length of the list. An entry
  has the whole data of its key: the bytes in the page and, of an extended key, those of its
  blob, whose id is \<open>be_ext\<close> (comparing such entries is comparing whole keys, which is the
  subject of \<open>Ham_Compare\<close>). The pages of the file are a function from addresses to nodes.
  Statuses are the integer codes of the source, because the comparison of two keys returns
  errors and orderings in the same integer. What the tree calls in other modules, fetching and allocating
  pages, records, extended keys, cursors, is the record \<open>bt_ctx\<close> of arguments, over a state \<open>'r\<close>.
\<close>

unbundle bit_operations_syntax

section \<open>Entries and nodes\<close>

record bt_entry =
  be_ptr :: u64
  be_size :: nat
  be_flags :: byte
  be_data :: "byte list"
  be_ext :: u64

definition entry_key :: "bt_entry \<Rightarrow> byte list" where
  "entry_key e = take (be_size e) (be_data e)"

record bt_node =
  bn_left :: u64
  bn_right :: u64
  bn_ptr_left :: u64
  bn_entries :: "bt_entry list"

definition btree_node_is_leaf :: "bt_node \<Rightarrow> bool" where
  "btree_node_is_leaf n = (bn_ptr_left n = 0)"

definition btree_node_get_count :: "bt_node \<Rightarrow> nat" where
  "btree_node_get_count n = length (bn_entries n)"

definition MAX_KEYS_PER_NODE :: nat where "MAX_KEYS_PER_NODE = 0xFFFF"

definition btree_get_minkeys :: "nat \<Rightarrow> nat" where "btree_get_minkeys maxkeys = maxkeys div 2"

definition SIZEOF_NODE_HEADER :: nat where "SIZEOF_NODE_HEADER = 28"
definition SIZEOF_PAGE_HEADER :: nat where "SIZEOF_PAGE_HEADER = 12"
definition db_get_int_key_header_size :: nat where "db_get_int_key_header_size = 11"

text \<open>The persistent description of a database in the header page, and the backend.\<close>

record db_indexdata =
  ix_dbname :: u16
  ix_maxkeys :: u16
  ix_keysize :: u16
  ix_reserved1 :: u16
  ix_self :: u64
  ix_flags :: u32
  ix_recno :: u64
  ix_reserved2 :: u32

definition index_clear_reserved :: "db_indexdata \<Rightarrow> db_indexdata" where
  "index_clear_reserved ix = ix\<lparr>ix_reserved1 := 0, ix_reserved2 := 0\<rparr>"

text \<open>
  The backend and what it can reach: its own fields, the index record of its database and
  the dirty flag of the environment, whether the header page is in the changeset, the nodes
  and types of the pages, the pages marked dirty, and the state of the other modules.
\<close>

record 'r btree =
  bt_rootpage :: u64
  bt_maxkeys :: nat
  bt_keysize :: u16
  bt_flags :: u32
  bt_recno :: u64
  bt_dirty :: bool
  bt_active :: bool
  bt_index :: db_indexdata
  bt_env_dirty :: bool
  bt_header_logged :: bool
  bt_nodes :: "u64 \<Rightarrow> bt_node"
  bt_types :: "u64 \<Rightarrow> u32"
  bt_dirty_pages :: "u64 set"
  bt_env :: 'r

text \<open>
  The arguments that stand for other modules. \<open>bx_fetch\<close> is the status of \<open>db_fetch_page\<close> and
  \<open>bx_cached\<close> whether the page is in the cache; \<open>bx_alloc\<close> is \<open>db_alloc_page\<close>;
  \<open>bx_set_record\<close> is \<open>key_set_record\<close> on the pointer and the flags of an entry, with the
  position of the duplicate; \<open>bx_erase_record\<close> is \<open>key_erase_record\<close>; \<open>bx_read_record\<close> is
  \<open>btree_read_record\<close>; \<open>bx_insert_extended\<close> is \<open>key_insert_extended\<close>; \<open>bx_copy_key\<close> is
  \<open>Database::copy_key\<close>; \<open>bx_uncouple\<close> is \<open>btree_uncouple_all_cursors\<close>.
\<close>

record 'r bt_ctx =
  bx_compare :: "byte list \<Rightarrow> byte list \<Rightarrow> int"
  bx_pagesize :: nat
  bx_recovery :: bool
  bx_sequential :: bool
  bx_fetch :: "u64 \<Rightarrow> int"
  bx_cached :: "u64 \<Rightarrow> bool"
  bx_alloc :: "u32 \<Rightarrow> 'r \<Rightarrow> int \<times> u64 \<times> 'r"
  bx_free :: "u64 \<Rightarrow> 'r \<Rightarrow> 'r"
  bx_set_record :: "u64 \<times> byte \<Rightarrow> nat \<Rightarrow> u32 \<Rightarrow> 'r \<Rightarrow> int \<times> (u64 \<times> byte) \<times> nat \<times> 'r"
  bx_erase_record :: "u64 \<times> byte \<Rightarrow> nat \<Rightarrow> u32 \<Rightarrow> 'r \<Rightarrow> int \<times> (u64 \<times> byte) \<times> 'r"
  bx_read_record :: "u64 \<times> byte \<Rightarrow> u32 \<Rightarrow> 'r \<Rightarrow> int \<times> byte list"
  bx_insert_extended :: "byte list \<Rightarrow> 'r \<Rightarrow> int \<times> u64 \<times> 'r"
  bx_remove_extended :: "u64 \<Rightarrow> 'r \<Rightarrow> int \<times> 'r"
  bx_copy_extended :: "u64 \<Rightarrow> 'r \<Rightarrow> int \<times> u64 \<times> 'r"
  bx_read_key :: "bt_entry \<Rightarrow> int"
  bx_copy_key :: "bt_entry \<Rightarrow> int"
  bx_uncouple :: "u64 \<Rightarrow> nat \<Rightarrow> int"

definition btree_compare_keys :: "'r bt_ctx \<Rightarrow> bt_node \<Rightarrow> byte list \<Rightarrow> nat \<Rightarrow> int" where
  "btree_compare_keys X n lhs i = bx_compare X lhs (entry_key (bn_entries n ! i))"

section \<open>Searching a node\<close>

text \<open>
  \<open>btree_get_slot\<close>. The result has the status, the slot and the outcome of the comparison.
  \<open>lst\<close> (\<open>last\<close> in the source) is the last slot whose key was smaller than the key searched, at first none.
\<close>

partial_function (option) get_slot_loop ::
  "(nat \<Rightarrow> int) \<Rightarrow> int \<Rightarrow> int \<Rightarrow> int \<Rightarrow> (int \<times> int \<times> int) option" where
  "get_slot_loop cmp l r lst =
     (let i = (l + r) div 2
      in if i = lst then Some (0, i, 1)
         else
           (let c = cmp (nat i)
            in if c < -1 then Some (c, 0, c)
               else if c = 0 then Some (0, i, 0)
               else if c < 0 then
                 (if r = 0 then Some (0, -1, c) else get_slot_loop cmp l (i - 1) lst)
               else get_slot_loop cmp (i + 1) r i))"

declare get_slot_loop.simps [code]

definition btree_get_slot :: "'r bt_ctx \<Rightarrow> bt_node \<Rightarrow> byte list \<Rightarrow> (int \<times> int \<times> int) option" where
  "btree_get_slot X n key =
     (let r = int (btree_node_get_count n) - 1
      in if r = 0 then
           (let c = btree_compare_keys X n key 0
            in if c < -1 then Some (c, 0, c) else Some (0, if c < 0 then -1 else 0, c))
         else get_slot_loop (btree_compare_keys X n key) 1 r (int MAX_KEYS_PER_NODE + 1))"

text \<open>
  \<open>btree_calc_maxkeys\<close>, on 32-bit unsigned integers.
\<close>

definition btree_calc_maxkeys :: "u32 \<Rightarrow> u16 \<Rightarrow> u32" where
  "btree_calc_maxkeys pagesize keysize =
     (let p = pagesize - of_nat SIZEOF_NODE_HEADER - of_nat SIZEOF_PAGE_HEADER;
          k = ucast keysize + of_nat db_get_int_key_header_size;
          max = p div k
      in if max AND 1 \<noteq> 0 then max - 1 else max)"

definition calc_keycount_per_page :: "u32 \<Rightarrow> 'r btree \<Rightarrow> u16 \<Rightarrow> ham_status \<times> u32" where
  "calc_keycount_per_page pagesize T keysize =
     (if keysize = 0 then (HAM_SUCCESS, of_nat (bt_maxkeys T))
      else
        (let m = btree_calc_maxkeys pagesize keysize
         in if unat m > MAX_KEYS_PER_NODE then (HAM_INV_KEYSIZE, m)
            else if m = 0 then (HAM_INV_KEYSIZE, m) else (HAM_SUCCESS, m)))"

text \<open>
  \<open>btree_traverse_tree\<close>: the slot of the key in an inner node and the address of the child,
  when its page could be fetched.
\<close>

definition child_of :: "bt_node \<Rightarrow> int \<Rightarrow> u64" where
  "child_of n slot = (if slot = -1 then bn_ptr_left n else be_ptr (bn_entries n ! nat slot))"

definition btree_traverse_tree :: "'r bt_ctx \<Rightarrow> bt_node \<Rightarrow> byte list \<Rightarrow> (int \<times> int \<times> u64 option) option" where
  "btree_traverse_tree X n key =
     (case btree_get_slot X n key of
        None \<Rightarrow> None
      | Some (st, slot, _) \<Rightarrow>
          if st \<noteq> 0 then Some (st, slot, None)
          else
            (let a = child_of n slot; st = bx_fetch X a
             in Some (st, slot, if st = 0 then Some a else None)))"

text \<open>
  \<open>btree_node_search_by_key\<close>, on the internal flags of the key: the slot of the key or, when
  the flags ask for it, of a neighbour; -1 when there is none; an error below that.
\<close>

definition btree_node_search_by_key ::
  "'r bt_ctx \<Rightarrow> bt_node \<Rightarrow> byte list \<Rightarrow> u32 \<Rightarrow> u32 \<Rightarrow> (int \<times> u32) option" where
  "btree_node_search_by_key X n key kf flags =
     (let kf = kf AND NOT KEY_IS_APPROXIMATE
      in if btree_node_get_count n = 0 then Some (-1, kf)
         else
           (case btree_get_slot X n key of
              None \<Rightarrow> None
            | Some (st, slot, cmp) \<Rightarrow>
                if st \<noteq> 0 then Some (st, kf)
                else if cmp = 0 then Some (slot, kf)
                else
                  (let slot = (if slot < 0 then 0 else slot)
                   in if flags AND HAM_FIND_LT_MATCH \<noteq> 0 then
                        (if cmp < 0 then
                           (if slot > 0 then Some (slot - 1, kf OR KEY_IS_LT)
                            else if flags AND HAM_FIND_GT_MATCH \<noteq> 0 then Some (slot, kf OR KEY_IS_GT)
                            else Some (-1, kf))
                         else Some (slot, kf OR KEY_IS_LT))
                      else if flags AND HAM_FIND_GT_MATCH \<noteq> 0 then
                        (if cmp < 0 then Some (slot, kf OR KEY_IS_GT)
                         else if slot < int (btree_node_get_count n) - 1 then Some (slot + 1, kf OR KEY_IS_GT)
                         else Some (-1, kf))
                      else Some (-1, kf))))"

section \<open>The life cycle of a backend\<close>

definition empty_node :: bt_node where
  "empty_node = \<lparr>bn_left = 0, bn_right = 0, bn_ptr_left = 0, bn_entries = []\<rparr>"

text \<open>\<open>BtreeBackend::create\<close>, \<open>open\<close>, \<open>flush\<close> and \<open>close\<close>.\<close>

definition btree_create :: "'r bt_ctx \<Rightarrow> u16 \<Rightarrow> u32 \<Rightarrow> 'r btree \<Rightarrow> int \<times> 'r btree" where
  "btree_create X keysize flags T =
     (if bt_active T then (ham_status_code HAM_ALREADY_INITIALIZED, T)
      else
        (let maxkeys = btree_calc_maxkeys (of_nat (bx_pagesize X)) keysize
         in if unat maxkeys > MAX_KEYS_PER_NODE then (ham_status_code HAM_INV_KEYSIZE, T)
            else if maxkeys = 0 then (ham_status_code HAM_INV_KEYSIZE, T)
            else
              (case bx_alloc X TYPE_B_ROOT (bt_env T) of
                 (st, root, r) \<Rightarrow>
                   if st \<noteq> 0 then (st, T\<lparr>bt_env := r\<rparr>)
                   else
                     (0, T\<lparr>bt_env := r, bt_nodes := (bt_nodes T)(root := empty_node),
                           bt_types := (bt_types T)(root := TYPE_B_ROOT),
                           bt_dirty_pages := insert root (bt_dirty_pages T),
                           bt_maxkeys := unat (ucast maxkeys :: u16), bt_dirty := True, bt_keysize := keysize,
                           bt_flags := flags, bt_rootpage := root,
                           bt_index := index_clear_reserved ((bt_index T)
                             \<lparr>ix_maxkeys := ucast maxkeys, ix_keysize := keysize, ix_self := root,
                              ix_flags := flags, ix_recno := 0\<rparr>),
                           bt_env_dirty := True, bt_active := True\<rparr>))))"

definition btree_open :: "'r btree \<Rightarrow> int \<times> 'r btree" where
  "btree_open T =
     (0, T\<lparr>bt_rootpage := ix_self (bt_index T), bt_maxkeys := unat (ix_maxkeys (bt_index T)),
           bt_keysize := ix_keysize (bt_index T), bt_flags := ix_flags (bt_index T),
           bt_recno := ix_recno (bt_index T), bt_active := True\<rparr>)"

definition btree_flush :: "'r btree \<Rightarrow> int \<times> 'r btree" where
  "btree_flush T =
     (if \<not> bt_dirty T then (0, T)
      else
        (0, T\<lparr>bt_index := index_clear_reserved ((bt_index T)
                \<lparr>ix_maxkeys := of_nat (bt_maxkeys T), ix_keysize := bt_keysize T, ix_self := bt_rootpage T,
                 ix_flags := bt_flags T, ix_recno := bt_recno T\<rparr>),
              bt_env_dirty := True, bt_dirty := False\<rparr>))"

definition btree_close :: "'r btree \<Rightarrow> int \<times> 'r btree" where
  "btree_close T =
     (case btree_flush T of (st, T') \<Rightarrow> if st \<noteq> 0 then (st, T') else (st, T'\<lparr>bt_active := False\<rparr>))"

section \<open>Ordered nodes\<close>

definition entries_sorted :: "(byte list \<Rightarrow> byte list \<Rightarrow> int) \<Rightarrow> bt_entry list \<Rightarrow> bool" where
  "entries_sorted cmp = sorted_wrt (\<lambda>a b. cmp (entry_key a) (entry_key b) < 0)"

text \<open>
  A compare function for the tree: an order whose results are not errors.
\<close>

definition tree_order :: "(byte list \<Rightarrow> byte list \<Rightarrow> int) \<Rightarrow> bool" where
  "tree_order cmp \<longleftrightarrow> key_order cmp \<and> (\<forall>a b. cmp a b \<ge> -1) \<and> (\<forall>a b. cmp a b = 0 \<longrightarrow> a = b)"

lemma tree_orderD:
  assumes "tree_order cmp"
  shows "key_order cmp" "cmp a b \<ge> -1" "cmp a b = 0 \<longleftrightarrow> a = b" "cmp a b < 0 \<longleftrightarrow> cmp b a > 0"
    "cmp a b < 0 \<Longrightarrow> cmp b c \<le> 0 \<Longrightarrow> cmp a c < 0" "cmp a b \<le> 0 \<Longrightarrow> cmp b c < 0 \<Longrightarrow> cmp a c < 0"
proof -
  show "key_order cmp" "cmp a b \<ge> -1" using assms by (simp_all add: tree_order_def)
  then show "cmp a b = 0 \<longleftrightarrow> a = b" "cmp a b < 0 \<longleftrightarrow> cmp b a > 0"
    using assms key_orderD(1,2) [of cmp] by (auto simp: tree_order_def)
  show "cmp a b < 0 \<Longrightarrow> cmp b c \<le> 0 \<Longrightarrow> cmp a c < 0" "cmp a b \<le> 0 \<Longrightarrow> cmp b c < 0 \<Longrightarrow> cmp a c < 0"
    using assms key_orderD(4,5) [of cmp a b c] by (auto simp: tree_order_def)
qed

lemma tree_order_default: "tree_order db_default_compare"
proof -
  have "lex_compare a b \<ge> -1" for a b using lex_compare_range [of a b] by auto
  then show ?thesis using key_order_default by (simp add: tree_order_def default_compare_lex lex_compare_zero)
qed

subsection \<open>The binary search\<close>

text \<open>
  What a search in \<open>n\<close> slots finds, with \<open>c i\<close> the outcome of comparing the key with slot \<open>i\<close>:
  the greatest slot that is not bigger than the key.
\<close>

definition slot_found :: "(nat \<Rightarrow> int) \<Rightarrow> nat \<Rightarrow> int \<Rightarrow> int \<Rightarrow> bool" where
  "slot_found c n s pc \<longleftrightarrow>
     -1 \<le> s \<and> s < int n \<and> (\<forall>i. int i \<le> s \<longrightarrow> c i \<ge> 0) \<and> (\<forall>i < n. s < int i \<longrightarrow> c i < 0) \<and>
     (s = -1 \<longrightarrow> pc < 0) \<and> (s \<ge> 0 \<longrightarrow> pc \<ge> 0 \<and> (pc = 0 \<longleftrightarrow> c (nat s) = 0))"

definition falls :: "(nat \<Rightarrow> int) \<Rightarrow> nat \<Rightarrow> bool" where
  "falls c n \<longleftrightarrow> (\<forall>i < n. c i \<ge> -1) \<and> (\<forall>i j. i < j \<and> j < n \<longrightarrow> (c i \<le> 0 \<longrightarrow> c j < 0) \<and> (c j \<ge> 0 \<longrightarrow> c i > 0))"

lemma fallsD:
  assumes "falls c n"
  shows "i < n \<Longrightarrow> c i \<ge> -1" "i < j \<Longrightarrow> j < n \<Longrightarrow> c i \<le> 0 \<Longrightarrow> c j < 0" "i < j \<Longrightarrow> j < n \<Longrightarrow> c j \<ge> 0 \<Longrightarrow> c i > 0"
  using assms by (auto simp: falls_def)

lemma get_slot_loop_correct:
  assumes f: "falls c n" and n: "n \<le> MAX_KEYS_PER_NODE"
    and inv: "1 \<le> l" "0 \<le> r" "r < int n" "l \<le> r + 1"
      "r = int n - 1 \<or> c (nat (r + 1)) < 0"
      "lst = l - 1 \<and> c (nat lst) > 0 \<or> l = 1 \<and> lst = int MAX_KEYS_PER_NODE + 1"
  shows "\<exists>s pc. get_slot_loop c l r lst = Some (0, s, pc) \<and> slot_found c n s pc"
  using inv
proof (induction "nat (r - l + 2) + (if lst = l - 1 then 0 else 1)" arbitrary: l r lst rule: less_induct)
  case less
  define i where "i = (l + r) div 2"
  have i: "0 \<le> i" "i \<le> r" "l \<le> r \<Longrightarrow> l \<le> i" "l = r + 1 \<Longrightarrow> i = r" using less.prems unfolding i_def by auto
  have right: "c j < 0" if "r < int j" "j < n" for j
  proof (cases "int j = r + 1")
    case False
    with that less.prems have "c (nat (r + 1)) < 0" by auto
    with that False show ?thesis using fallsD(2) [OF f, of "nat (r + 1)" j] less.prems by simp
  next
    case True
    then have "nat (r + 1) = j" by simp
    with that True less.prems show ?thesis by auto
  qed
  note unf = get_slot_loop.simps [of c l r lst, folded i_def]
  have left: "c j \<ge> 0" if "c (nat i) \<ge> 0" "int j \<le> i" for j
  proof -
    have "j < nat i \<or> j = nat i" "nat i < n" using that(2) i less.prems by linarith+
    then show ?thesis using that(1) fallsD(3) [OF f, of j "nat i"] by auto
  qed
  have ci: "c (nat i) \<ge> -1" using fallsD(1) [OF f, of "nat i"] i less.prems by simp
  show ?case
  proof (cases "i = lst")
    case True
    with less.prems i n have l: "i = l - 1" "c (nat i) > 0" by auto
    have "l = r + 1" using l i less.prems by linarith
    then have "r = i" using i by simp
    have "slot_found c n i 1" using i l less.prems right left \<open>r = i\<close> by (auto simp: slot_found_def)
    with True show ?thesis by (simp add: unf Let_def)
  next
    case ne: False
    consider "c (nat i) = 0" | "c (nat i) < 0" | "c (nat i) > 0" by linarith
    then show ?thesis
    proof cases
      case 1
      have "c j < 0" if "i < int j" "j < n" for j
        using that 1 fallsD(2) [OF f, of "nat i" j] i by linarith
      then have "slot_found c n i 0" using i 1 less.prems left by (auto simp: slot_found_def)
      with 1 ne show ?thesis by (simp add: unf Let_def)
    next
      case 2
      show ?thesis
      proof (cases "r = 0")
        case True
        have "slot_found c n (-1) (c (nat i))"
          using 2 True i right by (auto simp: slot_found_def) (metis 2 gr0I of_nat_0 nat_0 right True of_nat_0_less_iff)
        moreover have "get_slot_loop c l r lst = Some (0, -1, c (nat i))"
          unfolding unf using True 2 ne ci by (simp add: Let_def)
        ultimately show ?thesis by blast
      next
        case False
        have lr: "l \<le> r"
        proof (rule ccontr)
          assume "\<not> l \<le> r"
          with less.prems i have "l = r + 1" "i = r" by auto
          with less.prems ne 2 False show False by auto
        qed
        have "\<exists>s pc. get_slot_loop c l (i - 1) lst = Some (0, s, pc) \<and> slot_found c n s pc"
        proof (rule less.hyps)
          show "nat (i - 1 - l + 2) + (if lst = l - 1 then 0 else 1) < nat (r - l + 2) + (if lst = l - 1 then 0 else 1)"
            using i lr by auto
          show "i - 1 = int n - 1 \<or> c (nat (i - 1 + 1)) < 0" using 2 by simp
          show "0 \<le> i - 1" "l \<le> i - 1 + 1" "i - 1 < int n" using i lr less.prems by auto
        qed (use less.prems in auto)
        with 2 ne ci False show ?thesis by (simp add: unf Let_def)
      qed
    next
      case 3
      have "\<exists>s pc. get_slot_loop c (i + 1) r i = Some (0, s, pc) \<and> slot_found c n s pc"
      proof (rule less.hyps)
        show "nat (r - (i + 1) + 2) + (if i = i + 1 - 1 then 0 else 1) < nat (r - l + 2) + (if lst = l - 1 then 0 else 1)"
          using i less.prems ne by (cases "l \<le> r") auto
      qed (use less.prems i 3 in auto)
      with 3 ne show ?thesis by (simp add: unf Let_def)
    qed
  qed
qed

text \<open>
  The number of entries that are not bigger than a key: the slot that the search finds is
  the last of them.
\<close>

definition rank :: "(byte list \<Rightarrow> byte list \<Rightarrow> int) \<Rightarrow> byte list \<Rightarrow> bt_entry list \<Rightarrow> nat" where
  "rank cmp k es = length (takeWhile (\<lambda>e. cmp k (entry_key e) \<ge> 0) es)"

lemma rank_le: "rank cmp k es \<le> length es"
  unfolding rank_def by (rule length_takeWhile_le)

lemma rank_below: "i < rank cmp k es \<Longrightarrow> cmp k (entry_key (es ! i)) \<ge> 0"
  unfolding rank_def by (metis nth_mem set_takeWhileD takeWhile_nth)

lemma rank_at: "rank cmp k es < length es \<Longrightarrow> cmp k (entry_key (es ! rank cmp k es)) < 0"
  unfolding rank_def using nth_length_takeWhile [of "\<lambda>e. cmp k (entry_key e) \<ge> 0" es] by simp

lemma rankI:
  assumes "m \<le> length es" "\<And>i. i < m \<Longrightarrow> cmp k (entry_key (es ! i)) \<ge> 0"
    "m < length es \<Longrightarrow> cmp k (entry_key (es ! m)) < 0"
  shows "rank cmp k es = m"
proof -
  have "\<not> rank cmp k es < m" using rank_at [of cmp k es] assms(1,2) by fastforce
  moreover have "\<not> m < rank cmp k es" using rank_below [of m cmp k es] assms(3) rank_le [of cmp k es] by fastforce
  ultimately show ?thesis by simp
qed

lemma sorted_falls:
  assumes o: "tree_order cmp" and s: "entries_sorted cmp es"
  shows "falls (\<lambda>i. cmp k (entry_key (es ! i))) (length es)"
  unfolding falls_def
proof (intro conjI allI impI)
  fix i j assume ij: "i < j \<and> j < length es"
  then have lt: "cmp (entry_key (es ! i)) (entry_key (es ! j)) < 0"
    using s by (simp add: entries_sorted_def sorted_wrt_iff_nth_less)
  show "cmp k (entry_key (es ! j)) < 0" if "cmp k (entry_key (es ! i)) \<le> 0"
    using tree_orderD(6) [OF o that lt] .
  show "cmp k (entry_key (es ! i)) > 0" if "cmp k (entry_key (es ! j)) \<ge> 0"
  proof -
    have "cmp (entry_key (es ! j)) k \<le> 0" using that tree_orderD(4) [OF o, of k "entry_key (es ! j)"] by simp
    then show ?thesis using tree_orderD(5) [OF o lt] tree_orderD(4) [OF o, of "entry_key (es ! i)" k] by simp
  qed
qed (use tree_orderD(2) [OF o] in simp)

lemma btree_get_slot_rank:
  assumes o: "tree_order (bx_compare X)" and s: "entries_sorted (bx_compare X) (bn_entries n)"
    and ne: "bn_entries n \<noteq> []" and len: "length (bn_entries n) \<le> MAX_KEYS_PER_NODE"
  shows "\<exists>pc. btree_get_slot X n key = Some (0, int (rank (bx_compare X) key (bn_entries n)) - 1, pc) \<and>
     (rank (bx_compare X) key (bn_entries n) = 0 \<longrightarrow> pc < 0) \<and>
     (rank (bx_compare X) key (bn_entries n) > 0 \<longrightarrow> pc \<ge> 0 \<and>
        (pc = 0 \<longleftrightarrow> entry_key (bn_entries n ! (rank (bx_compare X) key (bn_entries n) - 1)) = key))"
proof -
  let ?es = "bn_entries n"
  let ?c = "\<lambda>i. bx_compare X key (entry_key (?es ! i))"
  note f = sorted_falls [OF o s, of key]
  have c: "btree_compare_keys X n key = ?c" by (simp add: btree_compare_keys_def fun_eq_iff)
  have "\<exists>s pc. btree_get_slot X n key = Some (0, s, pc) \<and> slot_found ?c (length ?es) s pc"
  proof (cases "length ?es = 1")
    case True
    moreover have "?c 0 \<ge> -1" using tree_orderD(2) [OF o] by simp
    ultimately show ?thesis
      by (cases "?c 0 < 0") (auto simp: btree_get_slot_def c btree_node_get_count_def Let_def slot_found_def)
  next
    case False
    with ne have "length ?es \<ge> 2" by (cases ?es rule: list.exhaust) (auto simp: neq_Nil_conv Suc_le_eq)
    then show ?thesis using get_slot_loop_correct [OF f len, of 1 "int (length ?es) - 1" "int MAX_KEYS_PER_NODE + 1"] False ne
      by (simp add: btree_get_slot_def c btree_node_get_count_def Let_def)
  qed
  then obtain s pc where g: "btree_get_slot X n key = Some (0, s, pc)" "slot_found ?c (length ?es) s pc" by blast
  have r: "rank (bx_compare X) key ?es = nat (s + 1)"
  proof (rule rankI)
    show "nat (s + 1) \<le> length ?es" using g(2) unfolding slot_found_def by linarith
    show "?c i \<ge> 0" if "i < nat (s + 1)" for i
    proof -
      have "int i \<le> s" using that by linarith
      with g(2) show ?thesis by (simp add: slot_found_def)
    qed
    show "?c (nat (s + 1)) < 0" if "nat (s + 1) < length ?es"
    proof -
      have "s < int (nat (s + 1))" by linarith
      with that g(2) show ?thesis by (simp add: slot_found_def)
    qed
  qed
  have "s = int (rank (bx_compare X) key ?es) - 1" using g(2) r by (simp add: slot_found_def)
  with g tree_orderD(3) [OF o] show ?thesis by (auto simp: slot_found_def nat_diff_distrib')
qed

section \<open>The capacity of a node\<close>

lemma btree_calc_maxkeys_nat:
  fixes pagesize :: u32 and keysize :: u16
  assumes "40 \<le> unat pagesize"
  defines "m \<equiv> (unat pagesize - 40) div (unat keysize + 11)"
  shows "unat (btree_calc_maxkeys pagesize keysize) = m - m mod 2"
proof -
  have p: "unat (pagesize - 28 - 12) = unat pagesize - 40"
  proof -
    have a: "unat (pagesize - 40) = unat pagesize - unat (40 :: u32)"
      by (rule unat_sub) (use assms in \<open>simp add: word_le_nat_alt\<close>)
    have b: "pagesize - 28 - 12 = pagesize - 40" by simp
    show ?thesis unfolding b using a by simp
  qed
  have k: "unat (ucast keysize + 11 :: u32) = unat keysize + 11"
  proof -
    have lt: "unat keysize < 65536" by simp
    then have "unat keysize < 2 ^ 32" by (rule order.strict_trans) simp
    then have "take_bit 32 (unat keysize) = unat keysize" by (rule take_bit_nat_eq_self)
    then have "unat (ucast keysize :: u32) = unat keysize" by (simp add: unsigned_ucast_eq)
    moreover have "unat keysize + 11 < 4294967296" using lt by linarith
    ultimately show ?thesis by (simp add: unat_word_ariths)
  qed
  let ?max = "(pagesize - 28 - 12) div (ucast keysize + 11) :: u32"
  have mx: "unat ?max = m" unfolding unat_div p k m_def ..
  have bit: "?max AND 1 \<noteq> 0 \<longleftrightarrow> m mod 2 = 1"
  proof -
    have "unat (?max AND 1) = unat ?max mod 2" by (simp only: and_one_eq unat_mod) simp
    then have "unat (?max AND 1) = m mod 2" by (simp only: mx)
    then show ?thesis by (metis mod2_eq_if unat_0 unsigned_word_eqI zero_neq_one)
  qed
  show ?thesis
  proof (cases "m mod 2 = 1")
    case True
    then have "m \<ge> 1" by (cases m) auto
    then have "unat (?max - 1) = m - 1" using unat_sub [of 1 ?max] mx by (simp add: word_le_nat_alt)
    with True bit show ?thesis
      by (simp add: btree_calc_maxkeys_def Let_def SIZEOF_NODE_HEADER_def SIZEOF_PAGE_HEADER_def db_get_int_key_header_size_def)
  next
    case False
    with bit mx show ?thesis
      by (simp add: btree_calc_maxkeys_def Let_def SIZEOF_NODE_HEADER_def SIZEOF_PAGE_HEADER_def db_get_int_key_header_size_def)
  qed
qed

text \<open>
  C35. A node fits into its page. When \<open>BtreeBackend::create\<close> succeeds, on a page size of 32
  bits that holds the two headers, the capacity of a node is an even number between 2 and the
  16-bit limit, a node of that many entries fits into a page with its headers, and opening
  the backend from the index record that was written gives the same root, capacity, key size
  and flags.
\<close>

theorem btree_create_capacity:
  assumes "btree_create X keysize flags T = (0, T')" "40 \<le> bx_pagesize X" "bx_pagesize X < 2 ^ 32"
  shows "even (bt_maxkeys T') \<and> 2 \<le> bt_maxkeys T' \<and> bt_maxkeys T' \<le> MAX_KEYS_PER_NODE \<and>
     SIZEOF_PAGE_HEADER + SIZEOF_NODE_HEADER + bt_maxkeys T' * (unat keysize + db_get_int_key_header_size) \<le> bx_pagesize X \<and>
     btree_open T' = (0, T'\<lparr>bt_recno := 0\<rparr>)"
proof -
  let ?p = "of_nat (bx_pagesize X) :: u32"
  let ?m = "btree_calc_maxkeys ?p keysize"
  obtain st root r where al: "bx_alloc X TYPE_B_ROOT (bt_env T) = (st, root, r)" by (metis prod_cases3)
  have up: "unat ?p = bx_pagesize X" using assms(3) by (simp add: unat_of_nat)
  have c: "\<not> bt_active T" "\<not> unat ?m > MAX_KEYS_PER_NODE" "?m \<noteq> 0" "st = 0"
    using assms(1) al by (auto simp: btree_create_def Let_def split: if_splits)
  have T': "bt_maxkeys T' = unat (ucast ?m :: u16)" "btree_open T' = (0, T'\<lparr>bt_recno := 0\<rparr>)"
    using assms(1) al c by (auto simp: btree_create_def btree_open_def Let_def index_clear_reserved_def)
  have m: "bt_maxkeys T' = unat ?m"
    using c(2) T'(1) by (simp add: unsigned_ucast_eq take_bit_nat_eq_self MAX_KEYS_PER_NODE_def)
  define q where "q = (bx_pagesize X - 40) div (unat keysize + 11)"
  have q: "unat ?m = q - q mod 2" using btree_calc_maxkeys_nat [of ?p keysize] assms(2) unfolding up q_def by simp
  have "q * (unat keysize + 11) \<le> bx_pagesize X - 40" unfolding q_def by (rule div_times_less_eq_dividend)
  moreover have "(q - q mod 2) * (unat keysize + 11) \<le> q * (unat keysize + 11)" by (rule mult_right_mono) auto
  ultimately have fit: "40 + unat ?m * (unat keysize + 11) \<le> bx_pagesize X" unfolding q using assms(2) by linarith
  have "even (unat ?m)" "unat ?m \<noteq> 0" using c(3) q by (auto simp: unat_eq_0 even_iff_mod_2_eq_zero mod_diff_left_eq)
  then have "even (unat ?m)" "2 \<le> unat ?m" by (auto elim!: evenE)
  with m fit c(2) T'(2) show ?thesis
    by (simp add: SIZEOF_NODE_HEADER_def SIZEOF_PAGE_HEADER_def db_get_int_key_header_size_def)
qed

text \<open>
  An environment in which every operation succeeds, pages have 1024 bytes and are allocated one
  after the other, and an empty tree in it. The applications of the theorems below are to these.
\<close>

definition example_ctx :: "nat bt_ctx" where
  "example_ctx =
     \<lparr>bx_compare = db_default_compare, bx_pagesize = 1024, bx_recovery = True, bx_sequential = False,
      bx_fetch = (\<lambda>_. 0), bx_cached = (\<lambda>_. True), bx_alloc = (\<lambda>_ r. (0, of_nat r * 1024, Suc r)), bx_free = (\<lambda>_ r. r),
      bx_set_record = (\<lambda>(p, fl) d flags r. (0, (7, fl), d, r)), bx_erase_record = (\<lambda>(p, fl) d flags r. (0, (0, fl), r)),
      bx_read_record = (\<lambda>_ _ _. (0, [42])), bx_insert_extended = (\<lambda>_ r. (0, 9, r)), bx_remove_extended = (\<lambda>_ r. (0, r)),
      bx_copy_extended = (\<lambda>_ r. (0, 9, r)), bx_read_key = (\<lambda>_. 0), bx_copy_key = (\<lambda>_. 0), bx_uncouple = (\<lambda>_ _. 0)\<rparr>"

definition example_new :: "nat btree" where
  "example_new =
     \<lparr>bt_rootpage = 0, bt_maxkeys = 0, bt_keysize = 0, bt_flags = 0, bt_recno = 0, bt_dirty = False, bt_active = False,
      bt_index = \<lparr>ix_dbname = 1, ix_maxkeys = 0, ix_keysize = 0, ix_reserved1 = 0, ix_self = 0, ix_flags = 0, ix_recno = 0, ix_reserved2 = 0\<rparr>,
      bt_env_dirty = False, bt_header_logged = False, bt_nodes = (\<lambda>_. empty_node), bt_types = (\<lambda>_. 0), bt_dirty_pages = {}, bt_env = 1\<rparr>"

theorem btree_create_capacity_witness:
  "\<exists>T'. btree_create example_ctx 21 0 example_new = (0, T') \<and> bt_maxkeys T' = 30 \<and>
     SIZEOF_PAGE_HEADER + SIZEOF_NODE_HEADER + bt_maxkeys T' * (21 + db_get_int_key_header_size) \<le> 1024 \<and>
     btree_open T' = (0, T'\<lparr>bt_recno := 0\<rparr>)"
proof -
  have m: "btree_calc_maxkeys 1024 21 = 30" by code_simp
  obtain T' where c: "btree_create example_ctx 21 0 example_new = (0, T')" "bt_maxkeys T' = 30"
    by (simp add: btree_create_def Let_def example_ctx_def example_new_def m MAX_KEYS_PER_NODE_def)
  have "40 \<le> bx_pagesize example_ctx" "bx_pagesize example_ctx < 2 ^ 32" "bx_pagesize example_ctx = 1024" by (simp_all add: example_ctx_def)
  with btree_create_capacity [OF c(1)] c show ?thesis by (intro exI [of _ T']) simp
qed

end
