(* ===== verification/Ham_Bt_Tree.thy ===== *)
theory Ham_Bt_Tree
  imports Ham_Btree
begin

text \<open>
  The shape of a B+tree in the pages of a file, by recursion on its height: which pages are
  its nodes, in which range the keys of each lie, the pages of each level from left to right
  and their sibling links, and the entries of its leaves, which are the contents of the tree.
  The lemmas say how a tree, its levels and its contents decompose at a child, what a change of
  other pages leaves alone, and what the insertion of a page does to the links of a level.
\<close>

section \<open>Trees\<close>

definition in_range :: "(byte list \<Rightarrow> byte list \<Rightarrow> int) \<Rightarrow> byte list option \<Rightarrow> byte list option \<Rightarrow> byte list \<Rightarrow> bool" where
  "in_range cmp lo hi k \<longleftrightarrow>
     (case lo of None \<Rightarrow> True | Some l \<Rightarrow> cmp l k \<le> 0) \<and> (case hi of None \<Rightarrow> True | Some u \<Rightarrow> cmp k u < 0)"

text \<open>The children of an inner node, each with the range of its keys.\<close>

fun kids :: "byte list option \<Rightarrow> byte list option \<Rightarrow> u64 \<Rightarrow> bt_entry list \<Rightarrow> (byte list option \<times> byte list option \<times> u64) list" where
  "kids lo hi p [] = [(lo, hi, p)]"
| "kids lo hi p (e # es) = (lo, Some (entry_key e), p) # kids (Some (entry_key e)) hi (be_ptr e) es"

definition child_ptrs :: "bt_node \<Rightarrow> u64 list" where
  "child_ptrs n = bn_ptr_left n # map be_ptr (bn_entries n)"

definition ext_ok :: "bt_entry \<Rightarrow> bool" where
  "ext_ok e \<longleftrightarrow> (be_flags e AND KEY_IS_EXTENDED8 \<noteq> 0 \<longrightarrow> be_ext e \<noteq> 0)"

definition node_ok :: "(byte list \<Rightarrow> byte list \<Rightarrow> int) \<Rightarrow> nat \<Rightarrow> byte list option \<Rightarrow> byte list option \<Rightarrow> bt_node \<Rightarrow> bool" where
  "node_ok cmp m lo hi n \<longleftrightarrow>
     entries_sorted cmp (bn_entries n) \<and> length (bn_entries n) \<le> m \<and>
     (\<forall>e \<in> set (bn_entries n). in_range cmp lo hi (entry_key e) \<and> ext_ok e)"

definition inner_ok :: "bt_node \<Rightarrow> bool" where
  "inner_ok n \<longleftrightarrow> bn_ptr_left n \<noteq> 0 \<and> bn_entries n \<noteq> [] \<and>
     (\<forall>e \<in> set (bn_entries n). be_flags e = 0 \<or> be_flags e = KEY_IS_EXTENDED8)"

primrec bt_tree ::
  "(byte list \<Rightarrow> byte list \<Rightarrow> int) \<Rightarrow> nat \<Rightarrow> (u64 \<Rightarrow> bt_node) \<Rightarrow> nat \<Rightarrow> byte list option \<Rightarrow> byte list option \<Rightarrow> u64 \<Rightarrow> bool" where
  "bt_tree cmp m N 0 lo hi a \<longleftrightarrow> a \<noteq> 0 \<and> bn_ptr_left (N a) = 0 \<and> node_ok cmp m lo hi (N a)"
| "bt_tree cmp m N (Suc h) lo hi a \<longleftrightarrow> a \<noteq> 0 \<and> inner_ok (N a) \<and> node_ok cmp m lo hi (N a) \<and>
     (\<forall>x \<in> set (kids lo hi (bn_ptr_left (N a)) (bn_entries (N a))). bt_tree cmp m N h (fst x) (fst (snd x)) (snd (snd x)))"

primrec level :: "(u64 \<Rightarrow> bt_node) \<Rightarrow> nat \<Rightarrow> nat \<Rightarrow> u64 \<Rightarrow> u64 list" where
  "level N 0 k a = (if k = 0 then [a] else [])"
| "level N (Suc h) k a = (if k = Suc h then [a] else concat (map (level N h k) (child_ptrs (N a))))"

primrec pages :: "(u64 \<Rightarrow> bt_node) \<Rightarrow> nat \<Rightarrow> u64 \<Rightarrow> u64 set" where
  "pages N 0 a = {a}"
| "pages N (Suc h) a = insert a (\<Union>c \<in> set (child_ptrs (N a)). pages N h c)"

definition contents :: "(u64 \<Rightarrow> bt_node) \<Rightarrow> nat \<Rightarrow> u64 \<Rightarrow> bt_entry list" where
  "contents N h a = concat (map (\<lambda>x. bn_entries (N x)) (level N h 0 a))"

lemma bt_tree_nonzero: "bt_tree cmp m N h lo hi a \<Longrightarrow> a \<noteq> 0"
  by (cases h) auto

lemma concat_map_concat: "concat (map f (concat xss)) = concat (map (\<lambda>xs. concat (map f xs)) xss)"
  by (induction xss) simp_all

lemma contents_simps [simp]:
  "contents N 0 a = bn_entries (N a)"
  "contents N (Suc h) a = concat (map (contents N h) (child_ptrs (N a)))"
  by (simp_all add: contents_def [abs_def] concat_map_concat comp_def)

lemma level_above: "h < k \<Longrightarrow> level N h k a = []"
  by (induction h arbitrary: a) (auto simp: child_ptrs_def)

lemma level_nonempty: "k \<le> h \<Longrightarrow> level N h k a \<noteq> []"
  by (induction h arbitrary: a) (auto simp: child_ptrs_def le_Suc_eq)

lemma pages_level: "x \<in> pages N h a \<longleftrightarrow> (\<exists>k \<le> h. x \<in> set (level N h k a))"
proof (induction h arbitrary: a)
  case (Suc h)
  have "(\<exists>k \<le> Suc h. x \<in> set (level N (Suc h) k a)) \<longleftrightarrow>
      x = a \<or> (\<exists>c \<in> set (child_ptrs (N a)). \<exists>k \<le> h. x \<in> set (level N h k c))"
    (is "?L = ?R")
  proof
    assume ?R
    then show ?L
    proof
      assume "x = a"
      then show ?L by (intro exI [of _ "Suc h"]) simp
    next
      assume "\<exists>c \<in> set (child_ptrs (N a)). \<exists>k \<le> h. x \<in> set (level N h k c)"
      then obtain c k where "c \<in> set (child_ptrs (N a))" "k \<le> h" "x \<in> set (level N h k c)" by blast
      then show ?L by (intro exI [of _ k]) auto
    qed
  qed (auto simp: le_Suc_eq split: if_splits)
  with Suc show ?case by auto
qed simp

section \<open>The children of a node\<close>

lemma kids_ptrs: "map (\<lambda>x. snd (snd x)) (kids lo hi p es) = p # map be_ptr es"
  by (induction lo hi p es rule: kids.induct) simp_all

lemma length_kids [simp]: "length (kids lo hi p es) = Suc (length es)"
  by (induction lo hi p es rule: kids.induct) simp_all

lemma kid_ptr: "x \<in> set (kids lo hi (bn_ptr_left n) (bn_entries n)) \<Longrightarrow> snd (snd x) \<in> set (child_ptrs n)"
  using kids_ptrs [of lo hi "bn_ptr_left n" "bn_entries n"] unfolding child_ptrs_def
  by (metis (mono_tags, lifting) image_eqI list.set_map)

lemma kids_append:
  "kids lo hi p (as @ e # bs) = kids lo (Some (entry_key e)) p as @ kids (Some (entry_key e)) hi (be_ptr e) bs"
  by (induction as arbitrary: lo p) simp_all

lemma kids_nth:
  "i \<le> length es \<Longrightarrow> kids lo hi p es ! i =
     (if i = 0 then lo else Some (entry_key (es ! (i - 1))),
      if i = length es then hi else Some (entry_key (es ! i)), (p # map be_ptr es) ! i)"
  by (induction es arbitrary: lo p i) (auto simp: nth_Cons split: nat.split)

section \<open>Changing other pages\<close>

definition body :: "bt_node \<Rightarrow> u64 \<times> bt_entry list" where
  "body n = (bn_ptr_left n, bn_entries n)"

lemma body_eq: "body n = body n' \<longleftrightarrow> bn_ptr_left n = bn_ptr_left n' \<and> bn_entries n = bn_entries n'"
  by (simp add: body_def)

lemma frame:
  assumes "\<And>x. x \<in> pages N h a \<Longrightarrow> body (N' x) = body (N x)"
  shows "pages N' h a = pages N h a" "level N' h k a = level N h k a" "contents N' h a = contents N h a"
    "bt_tree cmp m N' h lo hi a = bt_tree cmp m N h lo hi a"
proof -
  have "pages N' h a = pages N h a \<and> (\<forall>k. level N' h k a = level N h k a) \<and> contents N' h a = contents N h a \<and>
      (\<forall>lo hi. bt_tree cmp m N' h lo hi a = bt_tree cmp m N h lo hi a)"
    using assms
  proof (induction h arbitrary: a)
    case 0
    then show ?case by (auto simp: body_eq node_ok_def)
  next
    case (Suc h)
    have b: "bn_ptr_left (N' a) = bn_ptr_left (N a)" "bn_entries (N' a) = bn_entries (N a)"
      using Suc.prems [of a] by (auto simp: body_eq)
    then have c: "child_ptrs (N' a) = child_ptrs (N a)" by (simp add: child_ptrs_def)
    have IH: "pages N' h c = pages N h c" "\<And>k. level N' h k c = level N h k c" "contents N' h c = contents N h c"
      "\<And>lo hi. bt_tree cmp m N' h lo hi c = bt_tree cmp m N h lo hi c" if "c \<in> set (child_ptrs (N a))" for c
      using Suc.IH [of c] Suc.prems that by auto
    have "pages N' (Suc h) a = pages N (Suc h) a" using IH(1) c by simp
    moreover have "level N' (Suc h) k a = level N (Suc h) k a" for k
    proof -
      have "map (level N' h k) (child_ptrs (N a)) = map (level N h k) (child_ptrs (N a))"
        using IH(2) by (intro map_cong) simp_all
      then show ?thesis unfolding level.simps c by (rule if_cong [OF refl refl arg_cong])
    qed
    moreover have "contents N' (Suc h) a = contents N (Suc h) a"
    proof -
      have "map (contents N' h) (child_ptrs (N a)) = map (contents N h) (child_ptrs (N a))"
        using IH(3) by (intro map_cong) simp_all
      then show ?thesis unfolding contents_simps c by (rule arg_cong)
    qed
    moreover have "bt_tree cmp m N' (Suc h) lo hi a = bt_tree cmp m N (Suc h) lo hi a" for lo hi
      using IH(4) [OF kid_ptr] by (simp add: b inner_ok_def node_ok_def)
    ultimately show ?case by blast
  qed
  then show "pages N' h a = pages N h a" "level N' h k a = level N h k a" "contents N' h a = contents N h a"
    "bt_tree cmp m N' h lo hi a = bt_tree cmp m N h lo hi a" by auto
qed

section \<open>Ranges and order\<close>

lemma entries_sorted_simps [simp]:
  "entries_sorted cmp []" "entries_sorted cmp (e # es) \<longleftrightarrow> (\<forall>x \<in> set es. cmp (entry_key e) (entry_key x) < 0) \<and> entries_sorted cmp es"
  "entries_sorted cmp (as @ bs) \<longleftrightarrow> entries_sorted cmp as \<and> entries_sorted cmp bs \<and>
     (\<forall>a \<in> set as. \<forall>b \<in> set bs. cmp (entry_key a) (entry_key b) < 0)"
  by (auto simp: entries_sorted_def sorted_wrt_append)

lemma in_range_lower: "in_range cmp (Some l) hi k \<Longrightarrow> cmp l k \<le> 0"
  and in_range_upper: "in_range cmp lo (Some u) k \<Longrightarrow> cmp k u < 0"
  by (simp_all add: in_range_def)

lemma in_range_None [simp]: "in_range cmp None None k"
  by (simp add: in_range_def)

lemma in_range_widen_low:
  assumes o: "tree_order cmp" and "in_range cmp lo hi s" "in_range cmp (Some s) hi k"
  shows "in_range cmp lo hi k"
proof -
  have "cmp l k \<le> 0" if "lo = Some l" for l
  proof -
    have ls: "cmp l s \<le> 0" using that assms(2) by (simp add: in_range_def)
    have "cmp s k \<le> 0" using assms(3) by (simp add: in_range_def)
    then show ?thesis using ls tree_orderD(3,6) [OF o] by (metis order.order_iff_strict)
  qed
  with assms(3) show ?thesis by (auto simp: in_range_def split: option.splits)
qed

lemma in_range_widen_high:
  assumes o: "tree_order cmp" and "in_range cmp lo hi s" "in_range cmp lo (Some s) k"
  shows "in_range cmp lo hi k"
proof -
  have "cmp k u < 0" if "hi = Some u" for u
  proof -
    have "cmp s u < 0" using that assms(2) by (simp add: in_range_def)
    moreover have "cmp k s < 0" using assms(3) by (simp add: in_range_def)
    ultimately show ?thesis using tree_orderD(5) [OF o, of k s u] by simp
  qed
  with assms(3) show ?thesis by (auto simp: in_range_def split: option.splits)
qed

text \<open>The entries below a list of children, when those below each child are ordered and in its range.\<close>

lemma kids_concat:
  assumes o: "tree_order cmp" and "entries_sorted cmp es" "\<And>e. e \<in> set es \<Longrightarrow> in_range cmp lo hi (entry_key e)"
    and "\<And>x. x \<in> set (kids lo hi p es) \<Longrightarrow> entries_sorted cmp (f (snd (snd x))) \<and>
      (\<forall>e \<in> set (f (snd (snd x))). in_range cmp (fst x) (fst (snd x)) (entry_key e))"
  shows "entries_sorted cmp (concat (map f (p # map be_ptr es))) \<and>
     (\<forall>e \<in> set (concat (map f (p # map be_ptr es))). in_range cmp lo hi (entry_key e))"
  using assms(2-)
proof (induction es arbitrary: lo p)
  case Nil
  then show ?case by simp
next
  case (Cons e es)
  have r: "in_range cmp (Some (entry_key e)) hi (entry_key x)" if "x \<in> set es" for x
    using that Cons.prems(1) Cons.prems(2) [of x] by (auto simp: in_range_def)
  define R where "R = concat (map f (be_ptr e # map be_ptr es))"
  have rest: "entries_sorted cmp R \<and> (\<forall>x \<in> set R. in_range cmp (Some (entry_key e)) hi (entry_key x))"
    unfolding R_def by (rule Cons.IH) (use Cons.prems r in auto)
  have first: "entries_sorted cmp (f p)" "\<And>x. x \<in> set (f p) \<Longrightarrow> in_range cmp lo (Some (entry_key e)) (entry_key x)"
    using Cons.prems(3) [of "(lo, Some (entry_key e), p)"] by auto
  have e: "in_range cmp lo hi (entry_key e)" using Cons.prems(2) by simp
  have "cmp (entry_key x) (entry_key y) < 0" if "x \<in> set (f p)" "y \<in> set R" for x y
    using tree_orderD(5) [OF o in_range_upper [OF first(2) [OF that(1)]]] in_range_lower rest that(2) by blast
  moreover have "in_range cmp lo hi (entry_key x)" if "x \<in> set (f p)" for x
    using in_range_widen_high [OF o e first(2) [OF that]] .
  moreover have "in_range cmp lo hi (entry_key y)" if "y \<in> set R" for y
    using in_range_widen_low [OF o e] rest that by blast
  moreover have "concat (map f (p # map be_ptr (e # es))) = f p @ R" by (simp add: R_def)
  ultimately show ?case using rest first(1) by auto
qed

lemma bt_tree_contents:
  assumes o: "tree_order cmp" and "bt_tree cmp m N h lo hi a"
  shows "entries_sorted cmp (contents N h a)" "e \<in> set (contents N h a) \<Longrightarrow> in_range cmp lo hi (entry_key e)"
proof -
  have "entries_sorted cmp (contents N h a) \<and> (\<forall>e \<in> set (contents N h a). in_range cmp lo hi (entry_key e))"
    using assms(2)
  proof (induction h arbitrary: a lo hi)
    case 0
    then show ?case by (simp add: node_ok_def)
  next
    case (Suc h)
    show ?case unfolding contents_simps child_ptrs_def
      by (rule kids_concat [OF o]) (use Suc in \<open>auto simp: node_ok_def\<close>)
  qed
  then show "entries_sorted cmp (contents N h a)" "e \<in> set (contents N h a) \<Longrightarrow> in_range cmp lo hi (entry_key e)"
    by auto
qed

text \<open>The child that the search descends to has the key in its range.\<close>

lemma rank_kid:
  assumes o: "tree_order cmp" and "in_range cmp lo hi k"
  shows "\<exists>l u. kids lo hi p es ! rank cmp k es = (l, u, (p # map be_ptr es) ! rank cmp k es) \<and> in_range cmp l u k"
proof -
  let ?r = "rank cmp k es"
  have low: "cmp (entry_key (es ! (?r - 1))) k \<le> 0" if "?r > 0"
    using rank_below [of "?r - 1" cmp k es] that tree_orderD(4) [OF o, of k "entry_key (es ! (?r - 1))"] by simp
  show ?thesis
    using kids_nth [OF rank_le [of cmp k es], of lo hi p] low rank_at [of cmp k es] rank_le [of cmp k es] assms(2)
    by (auto simp: in_range_def split: if_splits)
qed

section \<open>Inserting into an ordered list\<close>

definition upd :: "(byte list \<Rightarrow> byte list \<Rightarrow> int) \<Rightarrow> byte list \<Rightarrow> bt_entry \<Rightarrow> bt_entry list \<Rightarrow> bt_entry list" where
  "upd cmp k e es = takeWhile (\<lambda>x. cmp k (entry_key x) > 0) es @ e # dropWhile (\<lambda>x. cmp k (entry_key x) \<ge> 0) es"

definition find_entry :: "byte list \<Rightarrow> bt_entry list \<Rightarrow> bt_entry option" where
  "find_entry k es = List.find (\<lambda>e. entry_key e = k) es"

lemma find_entry_None: "find_entry k es = None \<longleftrightarrow> k \<notin> entry_key ` set es"
  by (auto simp: find_entry_def find_None_iff)

lemma find_entry_append:
  "find_entry k (as @ bs) = (case find_entry k as of None \<Rightarrow> find_entry k bs | Some e \<Rightarrow> Some e)"
  by (induction as) (auto simp: find_entry_def)

lemma upd_left:
  assumes "\<And>b. b \<in> set bs \<Longrightarrow> cmp k (entry_key b) < 0"
  shows "upd cmp k e (as @ bs) = upd cmp k e as @ bs"
proof -
  have h: "bs = [] \<or> \<not> 0 \<le> cmp k (entry_key (hd bs)) \<and> \<not> 0 < cmp k (entry_key (hd bs))"
    using assms [of "hd bs"] by (cases bs) auto
  have "takeWhile (\<lambda>x. cmp k (entry_key x) > 0) (as @ bs) = takeWhile (\<lambda>x. cmp k (entry_key x) > 0) as"
    using h by (induction as) (auto simp: takeWhile_eq_Nil_iff)
  moreover have "dropWhile (\<lambda>x. cmp k (entry_key x) \<ge> 0) (as @ bs) = dropWhile (\<lambda>x. cmp k (entry_key x) \<ge> 0) as @ bs"
    using h by (induction as) (auto simp: dropWhile_eq_self_iff)
  ultimately show ?thesis by (simp add: upd_def)
qed

lemma upd_right: "(\<And>a. a \<in> set as \<Longrightarrow> cmp k (entry_key a) > 0) \<Longrightarrow> upd cmp k e (as @ bs) = as @ upd cmp k e bs"
  by (simp add: upd_def dropWhile_append2 takeWhile_append2 order.strict_implies_order)

lemma upd_mid:
  assumes "\<And>a. a \<in> set as \<Longrightarrow> cmp k (entry_key a) > 0" "\<And>b. b \<in> set bs \<Longrightarrow> cmp k (entry_key b) < 0"
  shows "upd cmp k e (as @ bs) = as @ e # bs"
  using upd_right [of as cmp k e bs, OF assms(1)] upd_left [of bs cmp k e "[]", OF assms(2)] by (simp add: upd_def)

lemma upd_replace:
  assumes "tree_order cmp" "\<And>a. a \<in> set as \<Longrightarrow> cmp k (entry_key a) > 0" "\<And>b. b \<in> set bs \<Longrightarrow> cmp k (entry_key b) < 0"
    "entry_key x = k"
  shows "upd cmp k e (as @ x # bs) = as @ e # bs"
proof -
  have "upd cmp k e ([x] @ bs) = upd cmp k e [x] @ bs" by (rule upd_left) (rule assms(3))
  moreover have "cmp k k = 0" using tree_orderD(3) [OF assms(1)] by simp
  ultimately show ?thesis
    using upd_right [of as cmp k e "x # bs", OF assms(2)] assms(4) by (simp add: upd_def)
qed

section \<open>The pages of a level\<close>

lemma in_concat_take: "x \<in> set (concat (map f (take r cs))) \<Longrightarrow> \<exists>i < r. i < length cs \<and> x \<in> set (f (cs ! i))"
  by (fastforce simp: in_set_conv_nth [of _ "take r cs"])

lemma in_concat_drop: "x \<in> set (concat (map f (drop r cs))) \<Longrightarrow> \<exists>i \<ge> r. i < length cs \<and> x \<in> set (f (cs ! i))"
proof -
  assume "x \<in> set (concat (map f (drop r cs)))"
  then obtain j where "j < length (drop r cs)" "x \<in> set (f (drop r cs ! j))"
    by (auto simp: in_set_conv_nth [of _ "drop r cs"])
  then show ?thesis by (intro exI [of _ "r + j"]) auto
qed

lemma level_split:
  assumes "r < length (child_ptrs (N a))" "k \<le> h"
  shows "level N (Suc h) k a = concat (map (level N h k) (take r (child_ptrs (N a)))) @
     level N h k (child_ptrs (N a) ! r) @ concat (map (level N h k) (drop (Suc r) (child_ptrs (N a))))"
proof -
  have "level N (Suc h) k a = concat (map (level N h k) (child_ptrs (N a)))" using assms(2) by simp
  then show ?thesis
    using id_take_nth_drop [OF assms(1)] by (metis concat.simps(2) concat_append list.simps(9) map_append)
qed

lemma contents_split:
  assumes "r < length (child_ptrs (N a))"
  shows "contents N (Suc h) a = concat (map (contents N h) (take r (child_ptrs (N a)))) @
     contents N h (child_ptrs (N a) ! r) @ concat (map (contents N h) (drop (Suc r) (child_ptrs (N a))))"
proof -
  have "contents N (Suc h) a = concat (map (contents N h) (child_ptrs (N a)))" by simp
  then show ?thesis
    using id_take_nth_drop [OF assms(1)] by (metis concat.simps(2) concat_append list.simps(9) map_append)
qed

text \<open>The sibling links along a list of pages between two others, 0 standing for none.\<close>

fun seg :: "(u64 \<Rightarrow> bt_node) \<Rightarrow> u64 \<Rightarrow> u64 list \<Rightarrow> u64 \<Rightarrow> bool" where
  "seg N p [] q = True"
| "seg N p (x # xs) q = (bn_left (N x) = p \<and> bn_right (N x) = hd (xs @ [q]) \<and> seg N x xs q)"

lemma seg_append: "seg N p (xs @ ys) q \<longleftrightarrow> seg N p xs (hd (ys @ [q])) \<and> seg N (last (p # xs)) ys q"
  by (induction xs arbitrary: p) (auto simp: hd_append)

lemma seg_cong:
  "(\<And>x. x \<in> set xs \<Longrightarrow> bn_left (N' x) = bn_left (N x) \<and> bn_right (N' x) = bn_right (N x)) \<Longrightarrow> seg N' p xs q = seg N p xs q"
  by (induction xs arbitrary: p) auto

lemma seg_nth:
  "seg N p xs q \<Longrightarrow> i < length xs \<Longrightarrow>
     bn_left (N (xs ! i)) = (if i = 0 then p else xs ! (i - 1)) \<and>
     bn_right (N (xs ! i)) = (if Suc i = length xs then q else xs ! Suc i)"
proof (induction xs arbitrary: p i)
  case (Cons x xs)
  then show ?case by (cases i; cases xs) (auto simp: hd_append nth_Cons split: nat.splits)
qed simp

definition linked :: "(u64 \<Rightarrow> bt_node) \<Rightarrow> (nat \<Rightarrow> u64 list) \<Rightarrow> bool" where
  "linked N L \<longleftrightarrow> (\<forall>k. seg N 0 (L k) 0 \<and> distinct (L k) \<and> 0 \<notin> set (L k)) \<and>
     (\<forall>j k. j \<noteq> k \<longrightarrow> set (L j) \<inter> set (L k) = {})"

lemma linkedD:
  assumes "linked N L"
  shows "seg N 0 (L k) 0" "distinct (L k)" "0 \<notin> set (L k)" "x \<in> set (L j) \<Longrightarrow> x \<in> set (L k) \<Longrightarrow> j = k"
  using assms by (auto simp: linked_def)

lemma linked_cong:
  assumes "\<And>x k. x \<in> set (L k) \<Longrightarrow> bn_left (N' x) = bn_left (N x) \<and> bn_right (N' x) = bn_right (N x)"
  shows "linked N' L = linked N L"
  unfolding linked_def using seg_cong [of _ N' N] assms by metis

text \<open>
  Linking the page \<open>y\<close> behind the page \<open>x\<close>.
\<close>

definition link_after :: "u64 \<Rightarrow> u64 \<Rightarrow> (u64 \<Rightarrow> bt_node) \<Rightarrow> u64 \<Rightarrow> bt_node" where
  "link_after x y N =
     (let r = bn_right (N x);
          N1 = N(y := (N y)\<lparr>bn_left := x, bn_right := r\<rparr>);
          N2 = N1(x := (N1 x)\<lparr>bn_right := y\<rparr>)
      in if r \<noteq> 0 then N2(r := (N2 r)\<lparr>bn_left := y\<rparr>) else N2)"

lemma body_link_after [simp]: "body (link_after x y N b) = body (N b)"
  by (simp add: link_after_def Let_def body_def)

lemma link_after_other:
  "b \<notin> {x, y, bn_right (N x)} \<Longrightarrow> link_after x y N b = N b"
  by (simp add: link_after_def Let_def)

lemma linked_link_after:
  assumes l: "linked N L" and k: "L k = pre @ x # post" and y: "y \<noteq> 0" "\<And>j. y \<notin> set (L j)"
  shows "linked (link_after x y N) (L(k := pre @ x # y # post))"
proof -
  let ?N = "link_after x y N" and ?r = "bn_right (N x)"
  have s: "seg N 0 pre x" "bn_left (N x) = last (0 # pre)" "?r = hd (post @ [0])" "seg N x post 0"
    using linkedD(1) [OF l, of k] unfolding k seg_append by (auto simp: hd_append)
  have d: "distinct (pre @ x # post)" "0 \<notin> set (pre @ x # post)" using linkedD(2,3) [OF l, of k] k by simp_all
  have yn: "y \<notin> set (pre @ x # post)" using y(2) [of k] k by simp
  have r: "?r = 0 \<and> post = [] \<or> (\<exists>ps. post = ?r # ps)" using s(3) by (cases post) auto
  have other: "link_after x y N b = N b" if "b \<in> set (L j)" "j \<noteq> k" for b j
  proof (rule link_after_other)
    have "b \<notin> set (L k)" "b \<noteq> 0" using linkedD(4) [OF l that(1), of k] linkedD(3) [OF l, of j] that by auto
    with k r y(2) [of j] that(1) show "b \<notin> {x, y, ?r}" by auto
  qed
  have pre: "?N b = N b" if "b \<in> set pre" for b
  proof (rule link_after_other)
    show "b \<notin> {x, y, ?r}" using that d yn r by auto
  qed
  have x: "bn_left (?N x) = bn_left (N x)" "bn_right (?N x) = y" "bn_left (?N y) = x" "bn_right (?N y) = ?r"
    using d yn r y(1) by (auto simp: link_after_def Let_def)
  have post: "seg ?N y post 0"
  proof (cases post)
    case (Cons p ps)
    with s(3) have p: "?r = p" "p \<noteq> 0" "p \<noteq> x" "p \<noteq> y" using d yn by auto
    have "seg ?N p ps 0 = seg N p ps 0"
    proof (rule seg_cong)
      fix b assume "b \<in> set ps"
      then have "b \<notin> {x, y, ?r}" using Cons d yn p by auto
      then show "bn_left (?N b) = bn_left (N b) \<and> bn_right (?N b) = bn_right (N b)" by (simp add: link_after_other)
    qed
    moreover have "bn_left (?N p) = y" "bn_right (?N p) = bn_right (N p)" using p by (simp_all add: link_after_def Let_def)
    ultimately show ?thesis using s(4) Cons by simp
  qed simp
  have "seg ?N 0 pre x = seg N 0 pre x" by (rule seg_cong) (simp add: pre)
  then have "seg ?N 0 (pre @ x # y # post) 0" unfolding seg_append using s x post by simp
  moreover have "seg ?N 0 (L j) 0 = seg N 0 (L j) 0" if "j \<noteq> k" for j
    by (rule seg_cong) (simp add: other [OF _ that])
  moreover have "distinct (pre @ x # y # post)" "0 \<notin> set (pre @ x # y # post)" using d yn y(1) by auto
  moreover have "set (pre @ x # y # post) \<inter> set (L j) = {}" if "j \<noteq> k" for j
    using linkedD(4) [OF l, of _ j k] that y(2) [of j] k by auto
  ultimately show ?thesis using l by (auto simp: linked_def)
qed

section \<open>Keys beside the child that the search descends to\<close>

lemma rank_above:
  assumes "tree_order cmp" "entries_sorted cmp es" "rank cmp k es \<le> j" "j < length es"
  shows "cmp k (entry_key (es ! j)) < 0"
proof (cases "j = rank cmp k es")
  case False
  then show ?thesis using fallsD(2) [OF sorted_falls [OF assms(1,2)], of "rank cmp k es" j k] rank_at [of cmp k es] assms(3,4)
    by simp
qed (use rank_at [of cmp k es] assms(4) in simp)

lemma kids_beside:
  assumes o: "tree_order cmp" and s: "entries_sorted cmp es" and i: "i < Suc (length es)"
    and e: "in_range cmp (fst (kids lo hi p es ! i)) (fst (snd (kids lo hi p es ! i))) (entry_key e)"
  shows "i < rank cmp k es \<Longrightarrow> cmp k (entry_key e) > 0" "rank cmp k es < i \<Longrightarrow> cmp k (entry_key e) < 0"
proof -
  note n = kids_nth [of i es lo hi p]
  show "cmp k (entry_key e) > 0" if "i < rank cmp k es"
  proof -
    have lt: "i < length es" using that rank_le [of cmp k es] by simp
    have "cmp (entry_key e) (entry_key (es ! i)) < 0" using e n lt by (simp add: in_range_def)
    moreover have "cmp (entry_key (es ! i)) k \<le> 0"
      using rank_below [OF that] tree_orderD(4) [OF o, of k "entry_key (es ! i)"] by linarith
    ultimately show ?thesis using tree_orderD(5) [OF o] tree_orderD(4) [OF o, of "entry_key e" k] by blast
  qed
  show "cmp k (entry_key e) < 0" if "rank cmp k es < i"
  proof -
    have "cmp k (entry_key (es ! (i - 1))) < 0" using rank_above [OF o s, of k "i - 1"] that i by simp
    moreover have "cmp (entry_key (es ! (i - 1))) (entry_key e) \<le> 0" using e n that i by (simp add: in_range_def)
    ultimately show ?thesis by (rule tree_orderD(5) [OF o])
  qed
qed

lemma bt_tree_kid:
  assumes "bt_tree cmp m N (Suc h) lo hi a" "i < length (child_ptrs (N a))"
  defines "x \<equiv> kids lo hi (bn_ptr_left (N a)) (bn_entries (N a)) ! i"
  shows "bt_tree cmp m N h (fst x) (fst (snd x)) (child_ptrs (N a) ! i)"
proof -
  have "snd (snd x) = child_ptrs (N a) ! i"
    using assms(2) kids_nth [of i "bn_entries (N a)" lo hi "bn_ptr_left (N a)"] by (simp add: x_def child_ptrs_def less_Suc_eq_le)
  moreover have "x \<in> set (kids lo hi (bn_ptr_left (N a)) (bn_entries (N a)))"
    using assms(2) by (simp add: x_def child_ptrs_def)
  ultimately show ?thesis using assms(1) by (metis bt_tree.simps(2))
qed

lemma tree_beside:
  assumes o: "tree_order cmp" and t: "bt_tree cmp m N (Suc h) lo hi a"
    and i: "i < length (child_ptrs (N a))" and e: "e \<in> set (contents N h (child_ptrs (N a) ! i))"
  shows "i < rank cmp k (bn_entries (N a)) \<Longrightarrow> cmp k (entry_key e) > 0"
    "rank cmp k (bn_entries (N a)) < i \<Longrightarrow> cmp k (entry_key e) < 0"
proof -
  have s: "entries_sorted cmp (bn_entries (N a))" using t by (simp add: node_ok_def)
  have i': "i < Suc (length (bn_entries (N a)))" using i by (simp add: child_ptrs_def)
  note r = bt_tree_contents(2) [OF o bt_tree_kid [OF t i] e]
  show "i < rank cmp k (bn_entries (N a)) \<Longrightarrow> cmp k (entry_key e) > 0"
    "rank cmp k (bn_entries (N a)) < i \<Longrightarrow> cmp k (entry_key e) < 0"
    using kids_beside [OF o s i' r] by auto
qed

text \<open>The descent to a child of a tree.\<close>

lemma tree_child:
  assumes o: "tree_order cmp" and t: "bt_tree cmp m N (Suc h) lo hi a" and k: "in_range cmp lo hi k"
  defines "r \<equiv> rank cmp k (bn_entries (N a))"
  shows "r < length (child_ptrs (N a))"
    "\<exists>l u. kids lo hi (bn_ptr_left (N a)) (bn_entries (N a)) ! r = (l, u, child_ptrs (N a) ! r) \<and>
       in_range cmp l u k \<and> bt_tree cmp m N h l u (child_ptrs (N a) ! r)"
proof -
  show r: "r < length (child_ptrs (N a))" using rank_le [of cmp k "bn_entries (N a)"] by (simp add: r_def child_ptrs_def)
  from rank_kid [OF o k, of "bn_ptr_left (N a)" "bn_entries (N a)"] bt_tree_kid [OF t r]
  show "\<exists>l u. kids lo hi (bn_ptr_left (N a)) (bn_entries (N a)) ! r = (l, u, child_ptrs (N a) ! r) \<and>
       in_range cmp l u k \<and> bt_tree cmp m N h l u (child_ptrs (N a) ! r)"
    by (auto simp: r_def child_ptrs_def)
qed

lemma child_of_rank: "child_of n (int r - 1) = child_ptrs n ! r"  if "r \<le> length (bn_entries n)"
  using that by (cases r) (auto simp: child_of_def child_ptrs_def)

lemma traverse_rank:
  assumes o: "tree_order (bx_compare X)" and m: "m \<le> MAX_KEYS_PER_NODE" and fetch: "\<And>b. bx_fetch X b = 0"
    and t: "bt_tree (bx_compare X) m N (Suc h) lo hi a"
  shows "btree_traverse_tree X (N a) k = Some (0, int (rank (bx_compare X) k (bn_entries (N a))) - 1,
     Some (child_ptrs (N a) ! rank (bx_compare X) k (bn_entries (N a))))"
proof -
  have n: "entries_sorted (bx_compare X) (bn_entries (N a))" "bn_entries (N a) \<noteq> []" "length (bn_entries (N a)) \<le> MAX_KEYS_PER_NODE"
    using t m by (auto simp: node_ok_def inner_ok_def)
  obtain pc where g: "btree_get_slot X (N a) k = Some (0, int (rank (bx_compare X) k (bn_entries (N a))) - 1, pc)"
    using btree_get_slot_rank [OF o n, of k] by blast
  show ?thesis unfolding btree_traverse_tree_def g by (simp only: option.case prod.case child_of_rank [OF rank_le] fetch Let_def) simp
qed

section \<open>The whole tree\<close>

text \<open>
  The invariant of a backend whose tree has height \<open>h\<close>: the tree is well formed, the siblings
  of every level are linked, no page is in two places, and no leaf is empty unless it is the root.
\<close>

definition bt_inv :: "(byte list \<Rightarrow> byte list \<Rightarrow> int) \<Rightarrow> 'r btree \<Rightarrow> nat \<Rightarrow> bool" where
  "bt_inv cmp T h \<longleftrightarrow>
     bt_tree cmp (bt_maxkeys T) (bt_nodes T) h None None (bt_rootpage T) \<and>
     linked (bt_nodes T) (\<lambda>k. level (bt_nodes T) h k (bt_rootpage T)) \<and>
     (0 < h \<longrightarrow> (\<forall>x \<in> set (level (bt_nodes T) h 0 (bt_rootpage T)). bn_entries (bt_nodes T x) \<noteq> [])) \<and>
     bt_maxkeys T \<le> MAX_KEYS_PER_NODE"

definition bt_leaves :: "'r btree \<Rightarrow> nat \<Rightarrow> u64 list" where
  "bt_leaves T h = level (bt_nodes T) h 0 (bt_rootpage T)"

definition bt_contents :: "'r btree \<Rightarrow> nat \<Rightarrow> bt_entry list" where
  "bt_contents T h = contents (bt_nodes T) h (bt_rootpage T)"

lemma bt_tree_leaves:
  "bt_tree cmp m N h lo hi a \<Longrightarrow> x \<in> set (level N h 0 a) \<Longrightarrow> \<exists>l u. bt_tree cmp m N 0 l u x"
proof (induction h arbitrary: a lo hi)
  case (Suc h)
  then obtain i where i: "i < length (child_ptrs (N a))" "x \<in> set (level N h 0 (child_ptrs (N a) ! i))"
    by (auto simp: in_set_conv_nth [of _ "child_ptrs (N a)"])
  show ?case by (rule Suc.IH [OF bt_tree_kid [OF Suc.prems(1) i(1)] i(2)])
qed auto

section \<open>A tree of two levels\<close>

text \<open>
  The tree to which the theorems are applied as examples: an inner node and two leaves of which one is full.
\<close>

definition example_entry :: "byte \<Rightarrow> bt_entry" where
  "example_entry b = \<lparr>be_ptr = 7, be_size = 1, be_flags = 0, be_data = [b], be_ext = 0\<rparr>"

definition example_nodes :: "u64 \<Rightarrow> bt_node" where
  "example_nodes =
     (\<lambda>_. empty_node)
       (0x400 := \<lparr>bn_left = 0, bn_right = 0x800, bn_ptr_left = 0, bn_entries = map example_entry [1, 2]\<rparr>,
        0x800 := \<lparr>bn_left = 0x400, bn_right = 0, bn_ptr_left = 0, bn_entries = map example_entry [5, 6, 7, 8]\<rparr>,
        0xc00 := \<lparr>bn_left = 0, bn_right = 0, bn_ptr_left = 0x400, bn_entries = [(example_entry 5)\<lparr>be_ptr := 0x800\<rparr>]\<rparr>)"

definition example_tree :: "nat btree" where
  "example_tree = example_new\<lparr>bt_rootpage := 0xc00, bt_maxkeys := 4, bt_keysize := 21, bt_active := True, bt_nodes := example_nodes, bt_env := 4\<rparr>"

lemma example_tree_simps [simp]:
  "bt_rootpage example_tree = 0xc00" "bt_maxkeys example_tree = 4" "bt_keysize example_tree = 21" "bt_nodes example_tree = example_nodes"
  "bt_env example_tree = 4"
  by (simp_all add: example_tree_def)

lemma example_node_simps [simp]:
  "example_nodes 0x400 = \<lparr>bn_left = 0, bn_right = 0x800, bn_ptr_left = 0, bn_entries = map example_entry [1, 2]\<rparr>"
  "example_nodes 0x800 = \<lparr>bn_left = 0x400, bn_right = 0, bn_ptr_left = 0, bn_entries = map example_entry [5, 6, 7, 8]\<rparr>"
  "example_nodes 0xc00 = \<lparr>bn_left = 0, bn_right = 0, bn_ptr_left = 0x400, bn_entries = [(example_entry 5)\<lparr>be_ptr := 0x800\<rparr>]\<rparr>"
  by (simp_all add: example_nodes_def)

lemma example_compare [simp]:
  "bx_compare example_ctx = db_default_compare" "entry_key (example_entry b) = [b]" "entry_key ((example_entry b)\<lparr>be_ptr := p\<rparr>) = [b]"
  "be_flags (example_entry b) = 0" "be_flags ((example_entry b)\<lparr>be_ptr := p\<rparr>) = 0"
  by (simp_all add: example_ctx_def entry_key_def example_entry_def)

lemma example_level: "level example_nodes (Suc 0) k 0xc00 = (if k = 1 then [0xc00] else if k = 0 then [0x400, 0x800] else [])"
  by (simp add: child_ptrs_def)

lemma example_inv: "bt_inv db_default_compare example_tree (Suc 0)"
proof -
  have c: "db_default_compare [1] [2] < 0" "db_default_compare [1] [5] < 0" "db_default_compare [2] [5] < 0" "db_default_compare [5] [5] = 0"
    "db_default_compare [5] [6] < 0" "db_default_compare [5] [7] < 0" "db_default_compare [5] [8] < 0" "db_default_compare [6] [7] < 0"
    "db_default_compare [6] [8] < 0" "db_default_compare [7] [8] < 0" by code_simp+
  have "bt_tree db_default_compare 4 example_nodes (Suc 0) None None 0xc00"
    unfolding bt_tree.simps example_node_simps
    using c by (simp add: node_ok_def inner_ok_def in_range_def ext_ok_def less_imp_le)
  moreover have "linked example_nodes (\<lambda>k. level example_nodes (Suc 0) k 0xc00)"
    unfolding example_level linked_def by auto
  moreover have "\<forall>x \<in> set (level example_nodes (Suc 0) 0 0xc00). bn_entries (example_nodes x) \<noteq> []" unfolding example_level by simp
  ultimately show ?thesis by (simp add: bt_inv_def MAX_KEYS_PER_NODE_def del: level.simps bt_tree.simps)
qed

lemma example_contents:
  "bt_contents example_tree (Suc 0) = map example_entry [1, 2, 5, 6, 7, 8]" "bt_leaves example_tree (Suc 0) = [0x400, 0x800]"
  unfolding bt_contents_def bt_leaves_def contents_def example_tree_simps example_level by simp_all

end
