(* ===== verification/Ham_Bt_Find.thy ===== *)
theory Ham_Bt_Find
  imports Ham_Bt_Tree
begin

text \<open>
  Looking up a key, \<open>src/btree_find.cc\<close>: \<open>btree_find_cursor\<close> with its fast track over a hinted
  leaf, the descent from the root, and the step to a neighbour that the approximate
  searches need. What the statistics suggest (\<open>btree_find_get_hints\<close>) is an argument: whether
  the key is out of bounds, and a leaf to try first. The result has the status, the internal
  flags of the key, the page and slot a cursor is coupled to, and the key and record read.

  The theorem of this theory is that the lookup agrees with a search in the ordered list of
  all entries of the tree, for every combination of the match flags.
\<close>

section \<open>The lookup\<close>

definition CURSOR_SYNC_DONT_LOAD_KEY :: u32 where "CURSOR_SYNC_DONT_LOAD_KEY = 0x100000"

record find_out =
  fo_status :: int
  fo_flags :: u32
  fo_pos :: "(u64 \<times> nat) option"
  fo_key :: "byte list option"
  fo_record :: "byte list option"

definition find_fail :: "int \<Rightarrow> u32 \<Rightarrow> find_out" where
  "find_fail st kf = \<lparr>fo_status = st, fo_flags = kf, fo_pos = None, fo_key = None, fo_record = None\<rparr>"

definition NOT_FOUND :: int where "NOT_FOUND = ham_status_code HAM_KEY_NOT_FOUND"

text \<open>From the root to a leaf; the left result is a status.\<close>

partial_function (option) find_leaf ::
  "'r bt_ctx \<Rightarrow> (u64 \<Rightarrow> bt_node) \<Rightarrow> u64 \<Rightarrow> byte list \<Rightarrow> (int + u64) option" where
  "find_leaf X N page key =
     (if btree_node_is_leaf (N page) then Some (Inr page)
      else
        (case btree_traverse_tree X (N page) key of
           None \<Rightarrow> None
         | Some (st, _, child) \<Rightarrow>
             (case child of
                None \<Rightarrow> Some (Inl (if st \<noteq> 0 then st else NOT_FOUND))
              | Some c \<Rightarrow> find_leaf X N c key)))"

declare find_leaf.simps [code]

text \<open>One entry to the left or to the right, if need be on the sibling page.\<close>

definition find_left :: "'r bt_ctx \<Rightarrow> (u64 \<Rightarrow> bt_node) \<Rightarrow> u64 \<Rightarrow> int \<Rightarrow> int + u64 \<times> int" where
  "find_left X N page idx =
     (if idx > 0 then Inr (page, idx - 1)
      else if bn_left (N page) = 0 then Inl NOT_FOUND
      else if bx_fetch X (bn_left (N page)) \<noteq> 0 then Inl (bx_fetch X (bn_left (N page)))
      else Inr (bn_left (N page), int (btree_node_get_count (N (bn_left (N page)))) - 1))"

definition find_right :: "'r bt_ctx \<Rightarrow> (u64 \<Rightarrow> bt_node) \<Rightarrow> u64 \<Rightarrow> int \<Rightarrow> int + u64 \<times> int" where
  "find_right X N page idx =
     (if idx + 1 < int (btree_node_get_count (N page)) then Inr (page, idx + 1)
      else if bn_right (N page) = 0 then Inl NOT_FOUND
      else if bx_fetch X (bn_right (N page)) \<noteq> 0 then Inl (bx_fetch X (bn_right (N page)))
      else Inr (bn_right (N page), 0))"

definition mark_key :: "u32 \<Rightarrow> u32 \<Rightarrow> u32" where
  "mark_key kf sign = (kf AND NOT KEY_IS_APPROXIMATE) OR sign"

definition moved :: "u32 \<Rightarrow> int + u64 \<times> int \<Rightarrow> int + u64 \<times> int \<times> u32" where
  "moved kf r = (case r of Inl st \<Rightarrow> Inl st | Inr (page, idx) \<Rightarrow> Inr (page, idx, kf))"

text \<open>The step to the neighbour, depending on what was found and what was asked for.\<close>

definition find_adjust ::
  "'r bt_ctx \<Rightarrow> (u64 \<Rightarrow> bt_node) \<Rightarrow> u64 \<Rightarrow> int \<Rightarrow> u32 \<Rightarrow> u32 \<Rightarrow> int + u64 \<times> int \<times> u32" where
  "find_adjust X N page idx kf oflags =
     (let both = HAM_FIND_LT_MATCH OR HAM_FIND_GT_MATCH
      in if kf AND KEY_IS_APPROXIMATE \<noteq> 0 \<and> oflags AND both \<noteq> both then
           (if kf AND KEY_IS_GT \<noteq> 0 \<and> oflags AND HAM_FIND_LT_MATCH \<noteq> 0 then
              moved (mark_key kf KEY_IS_LT) (find_left X N page idx)
            else if kf AND KEY_IS_LT \<noteq> 0 \<and> oflags AND HAM_FIND_GT_MATCH \<noteq> 0 then
              moved (mark_key kf KEY_IS_GT) (find_right X N page idx)
            else Inr (page, idx, kf))
         else if kf AND KEY_IS_APPROXIMATE = 0 \<and> oflags AND HAM_FIND_EXACT_MATCH = 0 \<and> oflags \<noteq> 0 then
           (if oflags AND HAM_FIND_LT_MATCH \<noteq> 0 then
              (if idx \<le> 0 \<and> bn_left (N page) = 0 then
                 (if oflags AND HAM_FIND_GT_MATCH \<noteq> 0 then moved (mark_key kf KEY_IS_GT) (find_right X N page idx)
                  else Inl NOT_FOUND)
               else moved (mark_key kf KEY_IS_LT) (find_left X N page idx))
            else if oflags AND HAM_FIND_GT_MATCH \<noteq> 0 then
              moved (mark_key kf KEY_IS_GT) (find_right X N page idx)
            else Inr (page, idx, kf))
         else Inr (page, idx, kf))"

text \<open>
  The fast track: a slot in the hinted leaf that is not one of its edges. The result \<open>None\<close> of
  the inner option is no hit.
\<close>

definition find_fast_track ::
  "'r bt_ctx \<Rightarrow> (u64 \<Rightarrow> bt_node) \<Rightarrow> u64 option \<Rightarrow> byte list \<Rightarrow> u32 \<Rightarrow> u32 \<Rightarrow> (int + (u64 \<times> int \<times> u32) option) option" where
  "find_fast_track X N hint key kf flags =
     (case hint of
        None \<Rightarrow> Some (Inr None)
      | Some p \<Rightarrow>
          if bx_fetch X p \<noteq> 0 then Some (Inl (bx_fetch X p))
          else if \<not> bx_cached X p then Some (Inr None)
          else if btree_node_get_count (N p) < 3 then Some (Inr None)
          else
            (case btree_node_search_by_key X (N p) key kf flags of
               None \<Rightarrow> None
             | Some (idx, kf') \<Rightarrow>
                 if idx \<le> 0 \<or> idx \<ge> int (btree_node_get_count (N p)) - 1 then Some (Inr None)
                 else Some (Inr (Some (p, idx, kf')))))"

definition find_regular ::
  "'r bt_ctx \<Rightarrow> 'r btree \<Rightarrow> byte list \<Rightarrow> u32 \<Rightarrow> u32 \<Rightarrow> (int + u64 \<times> int \<times> u32) option" where
  "find_regular X T key kf flags =
     (let root = bt_rootpage T; both = HAM_FIND_LT_MATCH OR HAM_FIND_GT_MATCH
      in if root = 0 then Some (Inl NOT_FOUND)
         else if bx_fetch X root \<noteq> 0 then Some (Inl (bx_fetch X root))
         else
           (let flags' = (if \<not> btree_node_is_leaf (bt_nodes T root) \<and> flags AND both \<noteq> 0 then flags OR both else flags)
            in case find_leaf X (bt_nodes T) root key of
                 None \<Rightarrow> None
               | Some (Inl st) \<Rightarrow> Some (Inl st)
               | Some (Inr page) \<Rightarrow>
                   (case btree_node_search_by_key X (bt_nodes T page) key kf flags' of
                      None \<Rightarrow> None
                    | Some (idx, kf') \<Rightarrow> if idx < -1 then Some (Inl idx) else Some (Inr (page, idx, kf')))))"

definition find_finish ::
  "'r bt_ctx \<Rightarrow> 'r btree \<Rightarrow> byte list \<Rightarrow> bool \<Rightarrow> u32 \<Rightarrow> u64 \<Rightarrow> int \<Rightarrow> u32 \<Rightarrow> find_out" where
  "find_finish X T key want_record flags page idx kf =
     (if idx < 0 then find_fail NOT_FOUND kf
      else
        (let e = bn_entries (bt_nodes T page) ! nat idx;
             out = \<lparr>fo_status = 0, fo_flags = kf, fo_pos = Some (page, nat idx), fo_key = None, fo_record = None\<rparr>;
             load = (kf AND KEY_IS_APPROXIMATE \<noteq> 0 \<and> flags AND CURSOR_SYNC_DONT_LOAD_KEY = 0)
         in if load \<and> bx_read_key X e \<noteq> 0 then out\<lparr>fo_status := bx_read_key X e\<rparr>
            else
              (let out = (if load then out\<lparr>fo_key := Some (entry_key e)\<rparr> else out)
               in if want_record then
                    (case bx_read_record X (be_ptr e, be_flags e) flags (bt_env T) of
                       (st, d) \<Rightarrow> if st \<noteq> 0 then out\<lparr>fo_status := st\<rparr> else out\<lparr>fo_record := Some d\<rparr>)
                  else out)))"

definition btree_find_cursor ::
  "'r bt_ctx \<Rightarrow> bool \<Rightarrow> u64 option \<Rightarrow> 'r btree \<Rightarrow> byte list \<Rightarrow> u32 \<Rightarrow> bool \<Rightarrow> u32 \<Rightarrow> find_out option" where
  "btree_find_cursor X oob hint T key kf want_record flags =
     (if oob then Some (find_fail NOT_FOUND kf)
      else
        (case find_fast_track X (bt_nodes T) hint key kf flags of
           None \<Rightarrow> None
         | Some (Inl st) \<Rightarrow> Some (find_fail st kf)
         | Some (Inr fast) \<Rightarrow>
             (case (case fast of Some hit \<Rightarrow> Some (Inr hit) | None \<Rightarrow> find_regular X T key kf flags) of
                None \<Rightarrow> None
              | Some (Inl st) \<Rightarrow> Some (find_fail st kf)
              | Some (Inr (page, idx, kf')) \<Rightarrow>
                  (case (if idx \<ge> 0 then find_adjust X (bt_nodes T) page idx kf' flags else Inr (page, idx, kf')) of
                     Inl st \<Rightarrow> Some (find_fail st kf')
                   | Inr (page', idx', kf'') \<Rightarrow> Some (find_finish X T key want_record flags page' idx' kf'')))))"

section \<open>The descent finds the leaf of a key\<close>

text \<open>The leaf \<open>p\<close> of a tree is the one where the key belongs: every entry of an earlier leaf
  is smaller and every entry of a later one is bigger.\<close>

definition leaf_for ::
  "(byte list \<Rightarrow> byte list \<Rightarrow> int) \<Rightarrow> (u64 \<Rightarrow> bt_node) \<Rightarrow> u64 list \<Rightarrow> byte list \<Rightarrow> u64 list \<Rightarrow> u64 \<Rightarrow> u64 list \<Rightarrow> bool" where
  "leaf_for cmp N leaves k pre p post \<longleftrightarrow> leaves = pre @ p # post \<and>
     (\<forall>x \<in> set pre. \<forall>e \<in> set (bn_entries (N x)). cmp k (entry_key e) > 0) \<and>
     (\<forall>x \<in> set post. \<forall>e \<in> set (bn_entries (N x)). cmp k (entry_key e) < 0)"

lemma find_leaf_correct:
  assumes o: "tree_order (bx_compare X)" and m: "m \<le> MAX_KEYS_PER_NODE" and fetch: "\<And>b. bx_fetch X b = 0"
    and "bt_tree (bx_compare X) m N h lo hi a" "in_range (bx_compare X) lo hi k"
  shows "\<exists>pre p post l u. find_leaf X N a k = Some (Inr p) \<and>
     leaf_for (bx_compare X) N (level N h 0 a) k pre p post \<and> bt_tree (bx_compare X) m N 0 l u p"
  using assms(4,5)
proof (induction h arbitrary: a lo hi)
  case 0
  then have "find_leaf X N a k = Some (Inr a)" by (simp add: find_leaf.simps btree_node_is_leaf_def)
  moreover have "leaf_for (bx_compare X) N (level N 0 0 a) k [] a []" by (simp add: leaf_for_def)
  ultimately show ?case using 0 by blast
next
  case (Suc h)
  let ?cmp = "bx_compare X" and ?cs = "child_ptrs (N a)"
  define r where "r = rank ?cmp k (bn_entries (N a))"
  have r: "r < length ?cs" unfolding r_def by (rule tree_child(1) [OF o Suc.prems])
  obtain l u where c: "in_range ?cmp l u k" "bt_tree ?cmp m N h l u (?cs ! r)"
    using tree_child(2) [OF o Suc.prems] unfolding r_def by blast
  obtain pre p post l' u' where IH: "find_leaf X N (?cs ! r) k = Some (Inr p)"
    "leaf_for ?cmp N (level N h 0 (?cs ! r)) k pre p post" "bt_tree ?cmp m N 0 l' u' p"
    using Suc.IH [OF c(2,1)] by blast
  have "\<not> btree_node_is_leaf (N a)" using Suc.prems(1) by (simp add: btree_node_is_leaf_def inner_ok_def)
  then have f: "find_leaf X N a k = Some (Inr p)"
    using IH(1) traverse_rank [OF o m fetch Suc.prems(1), of k] find_leaf.simps [of X N a k] by (simp add: r_def)
  define A B where "A = concat (map (level N h 0) (take r ?cs))" and "B = concat (map (level N h 0) (drop (Suc r) ?cs))"
  have "level N (Suc h) 0 a = (A @ pre) @ p # (post @ B)"
    using level_split [where N = N and a = a and k = 0 and h = h, OF r] IH(2) by (simp add: leaf_for_def A_def B_def)
  moreover have "?cmp k (entry_key e) > 0" if "x \<in> set A" "e \<in> set (bn_entries (N x))" for x e
  proof -
    note in_A = that
    obtain i where "i < r" "x \<in> set (level N h 0 (?cs ! i))" using in_concat_take [OF in_A(1) [unfolded A_def]] by blast
    moreover from this have "e \<in> set (contents N h (?cs ! i))" using in_A(2) by (auto simp: contents_def)
    ultimately show ?thesis using tree_beside(1) [OF o Suc.prems(1), of i e k] r by (simp add: r_def)
  qed
  moreover have "?cmp k (entry_key e) < 0" if "x \<in> set B" "e \<in> set (bn_entries (N x))" for x e
  proof -
    note in_B = that
    obtain i where "i \<ge> Suc r" "i < length ?cs" "x \<in> set (level N h 0 (?cs ! i))" using in_concat_drop [OF in_B(1) [unfolded B_def]] by blast
    moreover from this have "e \<in> set (contents N h (?cs ! i))" using in_B(2) by (auto simp: contents_def)
    ultimately show ?thesis using tree_beside(2) [OF o Suc.prems(1), of i e k] by (simp add: r_def)
  qed
  ultimately have "leaf_for ?cmp N (level N (Suc h) 0 a) k (A @ pre) p (post @ B)"
    using IH(2) unfolding leaf_for_def by auto
  with f IH(3) show ?case by blast
qed

section \<open>Match flags and the marks of the key\<close>

lemma and_exp_of_bool: "x AND 2 ^ n = of_bool (bit x n) * (2 ^ n :: 'a :: len word)"
  by (rule bit_word_eqI) (auto simp: bit_simps)

definition lt_flag :: "u32 \<Rightarrow> bool" where "lt_flag flags \<longleftrightarrow> flags AND HAM_FIND_LT_MATCH \<noteq> 0"
definition gt_flag :: "u32 \<Rightarrow> bool" where "gt_flag flags \<longleftrightarrow> flags AND HAM_FIND_GT_MATCH \<noteq> 0"

lemma both_flags:
  "flags AND (HAM_FIND_LT_MATCH OR HAM_FIND_GT_MATCH) = HAM_FIND_LT_MATCH OR HAM_FIND_GT_MATCH \<longleftrightarrow> lt_flag flags \<and> gt_flag flags"
  "flags AND (HAM_FIND_LT_MATCH OR HAM_FIND_GT_MATCH) = 0 \<longleftrightarrow> \<not> lt_flag flags \<and> \<not> gt_flag flags"
proof -
  have c: "HAM_FIND_LT_MATCH = 2 ^ 12" "HAM_FIND_GT_MATCH = 2 ^ 13"
    by (simp_all add: HAM_FIND_LT_MATCH_def HAM_FIND_GT_MATCH_def)
  have d: "flags AND (2 ^ 12 OR 2 ^ 13) = (flags AND 2 ^ 12) OR (flags AND 2 ^ 13)" by (rule bit.conj_disj_distrib)
  show "flags AND (HAM_FIND_LT_MATCH OR HAM_FIND_GT_MATCH) = HAM_FIND_LT_MATCH OR HAM_FIND_GT_MATCH \<longleftrightarrow> lt_flag flags \<and> gt_flag flags"
    "flags AND (HAM_FIND_LT_MATCH OR HAM_FIND_GT_MATCH) = 0 \<longleftrightarrow> \<not> lt_flag flags \<and> \<not> gt_flag flags"
    unfolding lt_flag_def gt_flag_def c d and_exp_of_bool
    by (cases "bit flags 12"; cases "bit flags 13"; simp)+
qed

lemma or_both_flags [simp]:
  "lt_flag (flags OR (HAM_FIND_LT_MATCH OR HAM_FIND_GT_MATCH))" "gt_flag (flags OR (HAM_FIND_LT_MATCH OR HAM_FIND_GT_MATCH))"
  by (simp_all add: lt_flag_def gt_flag_def HAM_FIND_LT_MATCH_def HAM_FIND_GT_MATCH_def bit.conj_disj_distrib2)

definition unmarked :: "u32 \<Rightarrow> bool" where "unmarked kf \<longleftrightarrow> kf AND KEY_IS_APPROXIMATE = 0"

lemma marks:
  assumes "unmarked kf"
  shows "kf AND KEY_IS_APPROXIMATE = 0" "(kf OR KEY_IS_LT) AND KEY_IS_APPROXIMATE = KEY_IS_LT"
    "(kf OR KEY_IS_GT) AND KEY_IS_APPROXIMATE = KEY_IS_GT" "(kf OR KEY_IS_LT) AND KEY_IS_LT = KEY_IS_LT"
    "(kf OR KEY_IS_LT) AND KEY_IS_GT = 0" "(kf OR KEY_IS_GT) AND KEY_IS_GT = KEY_IS_GT"
    "(kf OR KEY_IS_GT) AND KEY_IS_LT = 0"
proof -
  show z: "kf AND KEY_IS_APPROXIMATE = 0" using assms by (simp add: unmarked_def)
  have "kf AND KEY_IS_LT = (kf AND KEY_IS_APPROXIMATE) AND KEY_IS_LT" "kf AND KEY_IS_GT = (kf AND KEY_IS_APPROXIMATE) AND KEY_IS_GT"
    by (simp_all add: and.assoc KEY_IS_APPROXIMATE_def KEY_IS_LT_def KEY_IS_GT_def)
  then have "kf AND KEY_IS_LT = 0" "kf AND KEY_IS_GT = 0" using z by simp_all
  with z show "(kf OR KEY_IS_LT) AND KEY_IS_APPROXIMATE = KEY_IS_LT" "(kf OR KEY_IS_GT) AND KEY_IS_APPROXIMATE = KEY_IS_GT"
    "(kf OR KEY_IS_LT) AND KEY_IS_LT = KEY_IS_LT" "(kf OR KEY_IS_LT) AND KEY_IS_GT = 0"
    "(kf OR KEY_IS_GT) AND KEY_IS_GT = KEY_IS_GT" "(kf OR KEY_IS_GT) AND KEY_IS_LT = 0"
    by (simp_all add: bit.conj_disj_distrib2 KEY_IS_APPROXIMATE_def KEY_IS_LT_def KEY_IS_GT_def)
qed

lemma unmarked_clear: "unmarked (kf AND NOT KEY_IS_APPROXIMATE)"
  by (simp add: unmarked_def and.assoc)

lemma mark_key_marks [simp]:
  "mark_key kf KEY_IS_LT AND KEY_IS_APPROXIMATE = KEY_IS_LT" "mark_key kf KEY_IS_GT AND KEY_IS_APPROXIMATE = KEY_IS_GT"
  using marks(2,3) [OF unmarked_clear] by (simp_all add: mark_key_def)

lemma key_marks_nonzero [simp]: "KEY_IS_LT \<noteq> 0" "KEY_IS_GT \<noteq> 0"
  by (simp_all add: KEY_IS_LT_def KEY_IS_GT_def)

section \<open>The search in one leaf\<close>

text \<open>The slot and the mark that a search for a key of rank \<open>r\<close> gives among \<open>n\<close> entries.\<close>

definition leaf_result :: "bool \<Rightarrow> bool \<Rightarrow> bool \<Rightarrow> nat \<Rightarrow> nat \<Rightarrow> int \<times> u32" where
  "leaf_result present lt gt r n =
     (if present then (int r - 1, 0)
      else if lt \<and> r > 0 then (int r - 1, KEY_IS_LT)
      else if gt \<and> r < n \<and> (lt \<longrightarrow> r = 0) then (int r, KEY_IS_GT)
      else (-1, 0))"

definition present :: "(byte list \<Rightarrow> byte list \<Rightarrow> int) \<Rightarrow> byte list \<Rightarrow> bt_entry list \<Rightarrow> bool" where
  "present cmp k es \<longleftrightarrow> rank cmp k es > 0 \<and> entry_key (es ! (rank cmp k es - 1)) = k"

lemma search_by_key_leaf:
  fixes k :: "byte list"
  assumes o: "tree_order (bx_compare X)" and s: "entries_sorted (bx_compare X) (bn_entries n)"
    and len: "length (bn_entries n) \<le> MAX_KEYS_PER_NODE"
  defines "r \<equiv> rank (bx_compare X) k (bn_entries n)"
  shows "\<exists>idx mark. leaf_result (present (bx_compare X) k (bn_entries n)) (lt_flag flags) (gt_flag flags) r (length (bn_entries n)) = (idx, mark) \<and>
     btree_node_search_by_key X n k kf flags = Some (idx, (kf AND NOT KEY_IS_APPROXIMATE) OR mark)"
proof (cases "bn_entries n = []")
  case True
  then show ?thesis
    by (simp add: btree_node_search_by_key_def btree_node_get_count_def r_def rank_def leaf_result_def present_def Let_def)
next
  case False
  obtain pc where g: "btree_get_slot X n k = Some (0, int r - 1, pc)" "r = 0 \<longrightarrow> pc < 0"
    "r > 0 \<longrightarrow> pc \<ge> 0 \<and> (pc = 0 \<longleftrightarrow> entry_key (bn_entries n ! (r - 1)) = k)"
    using btree_get_slot_rank [OF o s False len, of k, folded r_def] by (elim exE conjE) rule
  have r: "r \<le> length (bn_entries n)" unfolding r_def by (rule rank_le)
  have p: "present (bx_compare X) k (bn_entries n) \<longleftrightarrow> r > 0 \<and> pc = 0" using g(3) by (auto simp: present_def r_def)
  note d = btree_node_search_by_key_def btree_node_get_count_def Let_def leaf_result_def p lt_flag_def [symmetric] gt_flag_def [symmetric]
  show ?thesis
  proof (cases "r = 0")
    case True
    with g have "btree_get_slot X n k = Some (0, -1, pc)" "pc < 0" by auto
    then show ?thesis using False True by (simp add: d)
  next
    case r0: False
    with g have pc: "pc \<ge> 0" by simp
    show ?thesis
    proof (cases "pc = 0")
      case True
      then show ?thesis using g(1) False r0 by (simp add: d)
    next
      case ne: False
      have "int r - 1 < int (length (bn_entries n)) - 1 \<longleftrightarrow> r < length (bn_entries n)" by linarith
      then show ?thesis using g(1) False r0 ne pc by (simp add: d)
    qed
  qed
qed

section \<open>Neighbours of a leaf\<close>

definition entries_of :: "(u64 \<Rightarrow> bt_node) \<Rightarrow> u64 list \<Rightarrow> bt_entry list" where
  "entries_of N xs = concat (map (\<lambda>x. bn_entries (N x)) xs)"

lemma entries_of_append [simp]:
  "entries_of N [] = []" "entries_of N (x # xs) = bn_entries (N x) @ entries_of N xs"
  "entries_of N (xs @ ys) = entries_of N xs @ entries_of N ys"
  by (simp_all add: entries_of_def)

text \<open>
  A leaf for the key in a linked row of leaves, none of which is empty unless it is the only one.
\<close>

definition leaf_row ::
  "(byte list \<Rightarrow> byte list \<Rightarrow> int) \<Rightarrow> (u64 \<Rightarrow> bt_node) \<Rightarrow> u64 list \<Rightarrow> byte list \<Rightarrow> u64 list \<Rightarrow> u64 \<Rightarrow> u64 list \<Rightarrow> bool" where
  "leaf_row cmp N leaves k pre p post \<longleftrightarrow> leaf_for cmp N leaves k pre p post \<and> seg N 0 leaves 0 \<and> 0 \<notin> set leaves \<and>
     (length leaves > 1 \<longrightarrow> (\<forall>x \<in> set leaves. bn_entries (N x) \<noteq> [])) \<and> entries_sorted cmp (entries_of N leaves)"

definition found_at :: "(u64 \<Rightarrow> bt_node) \<Rightarrow> int + u64 \<times> int \<Rightarrow> bt_entry option \<Rightarrow> bool" where
  "found_at N r e \<longleftrightarrow>
     (case e of None \<Rightarrow> r = Inl NOT_FOUND
      | Some e \<Rightarrow> \<exists>q i. r = Inr (q, i) \<and> 0 \<le> i \<and> nat i < length (bn_entries (N q)) \<and> bn_entries (N q) ! nat i = e)"

definition last_of :: "bt_entry list \<Rightarrow> bt_entry option" where
  "last_of es = (if es = [] then None else Some (last es))"

definition first_of :: "bt_entry list \<Rightarrow> bt_entry option" where
  "first_of es = (if es = [] then None else Some (hd es))"

lemma find_left_neighbour:
  assumes r: "leaf_row cmp N leaves k pre p post" and fetch: "\<And>b. bx_fetch X b = 0"
    and i: "0 \<le> idx" "nat idx < length (bn_entries (N p))"
  shows "found_at N (find_left X N p idx) (last_of (entries_of N pre @ take (nat idx) (bn_entries (N p))))"
proof (cases "idx = 0")
  case False
  then have "nat idx > 0" using i by simp
  moreover from this have "last (take (nat idx) (bn_entries (N p))) = bn_entries (N p) ! (nat idx - 1)"
    using i by (subst last_conv_nth) (auto simp: min_def)
  moreover have "nat (idx - 1) = nat idx - 1" "take (nat idx) (bn_entries (N p)) \<noteq> []" using i \<open>nat idx > 0\<close> by auto
  ultimately show ?thesis using i False by (auto simp: found_at_def last_of_def find_left_def last_append)
next
  case z: True
  have l: "leaves = pre @ p # post" using r by (simp add: leaf_row_def leaf_for_def)
  have left: "bn_left (N p) = last (0 # pre)" using r unfolding leaf_row_def l seg_append by simp
  show ?thesis
  proof (cases pre rule: rev_cases)
    case Nil
    then show ?thesis using z left by (simp add: found_at_def last_of_def find_left_def)
  next
    case (snoc ps q)
    have ne: "bn_entries (N q) \<noteq> []" "q \<noteq> 0" using r l snoc by (auto simp: leaf_row_def)
    have lq: "bn_left (N p) = q" using left snoc by simp
    have "find_left X N p idx = Inr (q, int (length (bn_entries (N q))) - 1)"
      using z ne fetch unfolding find_left_def lq by (simp add: btree_node_get_count_def)
    moreover have "nat (int (length (bn_entries (N q))) - 1) = length (bn_entries (N q)) - 1"
      "0 \<le> int (length (bn_entries (N q))) - 1" using ne(1) by (auto simp: neq_Nil_conv nat_diff_distrib')
    moreover have "last (bn_entries (N q)) = bn_entries (N q) ! (length (bn_entries (N q)) - 1)"
      using ne(1) by (rule last_conv_nth)
    ultimately show ?thesis using ne snoc z by (simp add: found_at_def last_of_def)
  qed
qed

lemma find_right_neighbour:
  assumes r: "leaf_row cmp N leaves k pre p post" and fetch: "\<And>b. bx_fetch X b = 0"
    and i: "0 \<le> idx" "nat idx < length (bn_entries (N p))"
  shows "found_at N (find_right X N p idx) (first_of (drop (Suc (nat idx)) (bn_entries (N p)) @ entries_of N post))"
proof (cases "Suc (nat idx) < length (bn_entries (N p))")
  case True
  have n: "nat (idx + 1) = Suc (nat idx)" "idx + 1 < int (length (bn_entries (N p)))" "0 \<le> idx + 1"
    using i True by linarith+
  have "drop (Suc (nat idx)) (bn_entries (N p)) \<noteq> []" using True by simp
  then have "first_of (drop (Suc (nat idx)) (bn_entries (N p)) @ entries_of N post) = Some (bn_entries (N p) ! nat (idx + 1))"
    unfolding n(1) using True by (simp add: first_of_def hd_append hd_drop_conv_nth)
  moreover have "find_right X N p idx = Inr (p, idx + 1)" using n(2) by (simp add: find_right_def btree_node_get_count_def)
  ultimately show ?thesis using n True by (simp add: found_at_def)
next
  case False
  have l: "leaves = pre @ p # post" using r by (simp add: leaf_row_def leaf_for_def)
  have right: "bn_right (N p) = hd (post @ [0])" using r unfolding leaf_row_def l seg_append by simp
  have big: "\<not> idx + 1 < int (length (bn_entries (N p)))" using False i by linarith
  show ?thesis
  proof (cases post)
    case Nil
    then show ?thesis using big False right by (simp add: found_at_def first_of_def find_right_def btree_node_get_count_def)
  next
    case (Cons q ps)
    have ne: "bn_entries (N q) \<noteq> []" "q \<noteq> 0" using r l Cons by (auto simp: leaf_row_def)
    have rq: "bn_right (N p) = q" using right Cons by simp
    have "find_right X N p idx = Inr (q, 0)"
      using big ne fetch unfolding find_right_def rq by (simp add: btree_node_get_count_def)
    then show ?thesis using ne Cons False by (simp add: found_at_def first_of_def hd_conv_nth hd_append)
  qed
qed

section \<open>The specification of a lookup\<close>

text \<open>
  In the ordered list of all entries: the entry of a key, the last entry below it and the
  first entry above it.
\<close>

definition nearest_below :: "(byte list \<Rightarrow> byte list \<Rightarrow> int) \<Rightarrow> byte list \<Rightarrow> bt_entry list \<Rightarrow> bt_entry option" where
  "nearest_below cmp k es = last_of (takeWhile (\<lambda>x. cmp k (entry_key x) > 0) es)"

definition nearest_above :: "(byte list \<Rightarrow> byte list \<Rightarrow> int) \<Rightarrow> byte list \<Rightarrow> bt_entry list \<Rightarrow> bt_entry option" where
  "nearest_above cmp k es = first_of (dropWhile (\<lambda>x. cmp k (entry_key x) \<ge> 0) es)"

definition find_answer ::
  "(byte list \<Rightarrow> byte list \<Rightarrow> int) \<Rightarrow> u32 \<Rightarrow> byte list \<Rightarrow> bt_entry list \<Rightarrow> (bt_entry \<times> u32) option \<Rightarrow> bool" where
  "find_answer cmp flags k es res \<longleftrightarrow>
     (let lt = lt_flag flags; gt = gt_flag flags;
          below = map_option (\<lambda>e. (e, KEY_IS_LT)) (nearest_below cmp k es);
          above = map_option (\<lambda>e. (e, KEY_IS_GT)) (nearest_above cmp k es)
      in if (flags AND HAM_FIND_EXACT_MATCH \<noteq> 0 \<or> \<not> lt \<and> \<not> gt) \<and> find_entry k es \<noteq> None
         then res = map_option (\<lambda>e. (e, 0)) (find_entry k es)
         else if lt \<and> gt then res \<in> {below, above} \<and> (res = None \<longrightarrow> below = None \<and> above = None)
         else if lt then res = below
         else if gt then res = above
         else res = None)"

lemma rank_present:
  assumes o: "tree_order cmp" and s: "entries_sorted cmp es"
  shows "takeWhile (\<lambda>x. cmp k (entry_key x) > 0) es = take (if present cmp k es then rank cmp k es - 1 else rank cmp k es) es"
    "dropWhile (\<lambda>x. cmp k (entry_key x) \<ge> 0) es = drop (rank cmp k es) es"
    "find_entry k es = (if present cmp k es then Some (es ! (rank cmp k es - 1)) else None)"
proof -
  let ?r = "rank cmp k es"
  have f: "falls (\<lambda>i. cmp k (entry_key (es ! i))) (length es)" by (rule sorted_falls [OF o s])
  have z: "cmp k x = 0 \<longleftrightarrow> k = x" for x by (rule tree_orderD(3) [OF o])
  show "dropWhile (\<lambda>x. cmp k (entry_key x) \<ge> 0) es = drop ?r es" unfolding rank_def by (rule dropWhile_eq_drop)
  let ?a = "if present cmp k es then ?r - 1 else ?r"
  have below: "cmp k (entry_key (es ! i)) > 0" if "i < ?a" for i
  proof -
    have ir: "i < ?r" using that by (auto split: if_splits)
    have "cmp k (entry_key (es ! i)) \<noteq> 0"
    proof
      assume e: "cmp k (entry_key (es ! i)) = 0"
      have "\<not> i < ?r - 1" using fallsD(2) [OF f, of i "?r - 1"] e rank_below [of "?r - 1" cmp k es] rank_le [of cmp k es] ir by fastforce
      then have "i = ?r - 1" using ir by simp
      with that e z ir show False by (auto simp: present_def split: if_splits)
    qed
    with rank_below [OF ir] show ?thesis by simp
  qed
  have at: "\<not> cmp k (entry_key (es ! ?a)) > 0" if "?a < length es"
  proof (cases "present cmp k es")
    case True
    then have "cmp k (entry_key (es ! (?r - 1))) = 0" using z by (simp add: present_def)
    with True show ?thesis by simp
  next
    case False
    with that show ?thesis using rank_at [of cmp k es] by simp
  qed
  have al: "?a \<le> length es" using rank_le [of cmp k es] by (auto split: if_splits)
  show "takeWhile (\<lambda>x. cmp k (entry_key x) > 0) es = take ?a es"
    by (rule takeWhile_eq_take_P_nth) (use below at al in auto)
  show "find_entry k es = (if present cmp k es then Some (es ! (?r - 1)) else None)"
  proof (cases "present cmp k es")
    case True
    then have "?r - 1 < length es" "entry_key (es ! (?r - 1)) = k" using rank_le [of cmp k es] by (auto simp: present_def)
    moreover have "entry_key (es ! i) \<noteq> k" if "i < ?r - 1" for i using below [of i] that True z [of k] by auto
    ultimately have "find_entry k es = Some (es ! (?r - 1))"
      unfolding find_entry_def find_Some_iff by (intro exI [of _ "?r - 1"]) auto
    with True show ?thesis by simp
  next
    case False
    have "entry_key e \<noteq> k" if "e \<in> set es" for e
    proof -
      obtain i where i: "i < length es" "es ! i = e" using \<open>e \<in> set es\<close> by (auto simp: in_set_conv_nth)
      show ?thesis using below [of i] rank_above [OF o s, of k i] False i z [of k] by (cases "i < ?r") auto
    qed
    with False show ?thesis by (auto simp: find_entry_None)
  qed
qed

lemma row_answers:
  assumes o: "tree_order cmp" and row: "leaf_row cmp N leaves k pre p post"
  defines "es \<equiv> bn_entries (N p)"
  defines "r \<equiv> rank cmp k es"
  shows "nearest_below cmp k (entries_of N leaves) = last_of (entries_of N pre @ take (if present cmp k es then r - 1 else r) es)"
    "nearest_above cmp k (entries_of N leaves) = first_of (drop r es @ entries_of N post)"
    "find_entry k (entries_of N leaves) = (if present cmp k es then Some (es ! (r - 1)) else None)"
proof -
  have C: "entries_of N leaves = entries_of N pre @ es @ entries_of N post"
    and pre: "\<And>e. e \<in> set (entries_of N pre) \<Longrightarrow> cmp k (entry_key e) > 0"
    and post: "\<And>e. e \<in> set (entries_of N post) \<Longrightarrow> cmp k (entry_key e) < 0"
    using row by (auto simp: leaf_row_def leaf_for_def es_def entries_of_def)
  have s: "entries_sorted cmp es" using row unfolding leaf_row_def C by simp
  note p = rank_present [OF o s, of k, folded r_def]
  have h: "entries_of N post = [] \<or> \<not> 0 \<le> cmp k (entry_key (hd (entries_of N post))) \<and> \<not> 0 < cmp k (entry_key (hd (entries_of N post)))"
    using post [of "hd (entries_of N post)"] by (cases "entries_of N post") auto
  have "takeWhile (\<lambda>x. cmp k (entry_key x) > 0) (es @ entries_of N post) = takeWhile (\<lambda>x. cmp k (entry_key x) > 0) es"
    using h by (induction es) (auto simp: takeWhile_eq_Nil_iff)
  then show "nearest_below cmp k (entries_of N leaves) = last_of (entries_of N pre @ take (if present cmp k es then r - 1 else r) es)"
    unfolding nearest_below_def C using pre p(1) by (simp add: takeWhile_append2)
  have "dropWhile (\<lambda>x. cmp k (entry_key x) \<ge> 0) (es @ entries_of N post) = dropWhile (\<lambda>x. cmp k (entry_key x) \<ge> 0) es @ entries_of N post"
    using h by (induction es) (auto simp: dropWhile_eq_self_iff)
  then show "nearest_above cmp k (entries_of N leaves) = first_of (drop r es @ entries_of N post)"
    unfolding nearest_above_def C using pre p(2) by (simp add: dropWhile_append2 order.strict_implies_order)
  have z: "cmp k k = 0" using tree_orderD(3) [OF o, of k k] by simp
  have "entry_key e \<noteq> k" if "e \<in> set (entries_of N pre) \<or> e \<in> set (entries_of N post)" for e
    using that pre [of e] post [of e] z by auto
  then have "find_entry k (entries_of N pre) = None" "find_entry k (entries_of N post) = None"
    unfolding find_entry_None by blast+
  then show "find_entry k (entries_of N leaves) = (if present cmp k es then Some (es ! (r - 1)) else None)"
    unfolding C using p(3) by (simp add: find_entry_append)
qed

text \<open>What the position that a lookup arrives at stands for.\<close>

definition find_result :: "(u64 \<Rightarrow> bt_node) \<Rightarrow> int + u64 \<times> int \<times> u32 \<Rightarrow> (bt_entry \<times> u32) option \<Rightarrow> bool" where
  "find_result N r res \<longleftrightarrow>
     (case r of
        Inl st \<Rightarrow> st = NOT_FOUND \<and> res = None
      | Inr (q, i, kf) \<Rightarrow>
          if i < 0 then res = None
          else nat i < length (bn_entries (N q)) \<and> res = Some (bn_entries (N q) ! nat i, kf AND KEY_IS_APPROXIMATE))"

lemma moved_result:
  assumes "found_at N r e" "mark_key kf sign AND KEY_IS_APPROXIMATE = sign"
  shows "find_result N (moved (mark_key kf sign) r) (map_option (\<lambda>e. (e, sign)) e)"
  using assms by (auto simp: found_at_def moved_def find_result_def split: option.splits)

lemmas moved_lt = moved_result [OF _ mark_key_marks(1)]
lemmas moved_gt = moved_result [OF _ mark_key_marks(2)]

lemma find_adjust_present:
  assumes o: "tree_order cmp" and row: "leaf_row cmp N leaves k pre p post" and fetch: "\<And>b. bx_fetch X b = 0"
    and p: "present cmp k (bn_entries (N p))" and kf: "unmarked kf"
  shows "\<exists>res. find_answer cmp flags k (entries_of N leaves) res \<and>
     find_result N (find_adjust X N p (int (rank cmp k (bn_entries (N p))) - 1) kf flags) res"
proof -
  let ?es = "bn_entries (N p)"
  define r where "r = rank cmp k ?es"
  have r: "0 < r" "r \<le> length ?es" using p rank_le [of cmp k ?es] by (auto simp: present_def r_def)
  define idx where "idx = int r - 1"
  have i: "0 \<le> idx" "nat idx = r - 1" "nat idx < length ?es" "Suc (nat idx) = r" using r by (auto simp: idx_def)
  note a = row_answers [OF o row, folded r_def, unfolded if_P [OF p]]
  have below: "found_at N (find_left X N p idx) (nearest_below cmp k (entries_of N leaves))"
    using find_left_neighbour [OF row fetch i(1,3)] unfolding a(1) i(2) .
  have above: "found_at N (find_right X N p idx) (nearest_above cmp k (entries_of N leaves))"
    using find_right_neighbour [OF row fetch i(1,3)] unfolding a(2) i(4) .
  have kf0: "kf AND KEY_IS_APPROXIMATE = 0" using kf by (simp add: unmarked_def)
  note d = find_adjust_def Let_def kf0 lt_flag_def [symmetric] gt_flag_def [symmetric]
  consider (exact) "flags AND HAM_FIND_EXACT_MATCH \<noteq> 0 \<or> \<not> lt_flag flags \<and> \<not> gt_flag flags"
    | (lt) "flags AND HAM_FIND_EXACT_MATCH = 0" "lt_flag flags" "\<not> (idx \<le> 0 \<and> bn_left (N p) = 0)"
    | (edge) "flags AND HAM_FIND_EXACT_MATCH = 0" "lt_flag flags" "idx \<le> 0 \<and> bn_left (N p) = 0"
    | (gt) "flags AND HAM_FIND_EXACT_MATCH = 0" "\<not> lt_flag flags" "gt_flag flags" by blast
  then show ?thesis
  proof cases
    case exact
    then have "find_adjust X N p idx kf flags = Inr (p, idx, kf)" by (auto simp: d)
    moreover have "find_answer cmp flags k (entries_of N leaves) (Some (?es ! (r - 1), 0))"
      using exact a(3) by (auto simp: find_answer_def Let_def)
    ultimately show ?thesis using i kf0 by (auto simp: find_result_def idx_def [symmetric] r_def [symmetric])
  next
    case lt
    then have nz: "flags \<noteq> 0" by (auto simp: lt_flag_def)
    have "find_adjust X N p idx kf flags = moved (mark_key kf KEY_IS_LT) (find_left X N p idx)"
      using lt nz by (auto simp: d)
    moreover have "find_answer cmp flags k (entries_of N leaves) (map_option (\<lambda>e. (e, KEY_IS_LT)) (nearest_below cmp k (entries_of N leaves)))"
    proof -
      have "nearest_below cmp k (entries_of N leaves) \<noteq> None"
      proof
        assume "nearest_below cmp k (entries_of N leaves) = None"
        with below have "find_left X N p idx = Inl NOT_FOUND" by (simp add: found_at_def)
        with lt(3) fetch show False by (auto simp: find_left_def split: if_splits)
      qed
      then show ?thesis using lt by (auto simp: find_answer_def Let_def)
    qed
    ultimately show ?thesis using moved_lt [OF below] by (auto simp: idx_def [symmetric] r_def [symmetric])
  next
    case edge
    then have nz: "flags \<noteq> 0" by (auto simp: lt_flag_def)
    have fl: "find_left X N p idx = Inl NOT_FOUND" using edge by (auto simp: find_left_def)
    then have nb: "nearest_below cmp k (entries_of N leaves) = None"
      using below by (auto simp: found_at_def split: option.splits)
    show ?thesis
    proof (cases "gt_flag flags")
      case True
      have "find_adjust X N p idx kf flags = moved (mark_key kf KEY_IS_GT) (find_right X N p idx)"
        using edge nz True by (auto simp: d)
      moreover have "find_answer cmp flags k (entries_of N leaves) (map_option (\<lambda>e. (e, KEY_IS_GT)) (nearest_above cmp k (entries_of N leaves)))"
        using edge True nb by (auto simp: find_answer_def Let_def)
      ultimately show ?thesis using moved_gt [OF above] by (auto simp: idx_def [symmetric] r_def [symmetric])
    next
      case False
      have "find_adjust X N p idx kf flags = Inl NOT_FOUND" using edge nz False by (auto simp: d)
      moreover have "find_answer cmp flags k (entries_of N leaves) None"
        using edge False nb by (auto simp: find_answer_def Let_def)
      ultimately show ?thesis by (auto simp: find_result_def idx_def [symmetric] r_def [symmetric])
    qed
  next
    case gt
    then have nz: "flags \<noteq> 0" by (auto simp: gt_flag_def)
    have "find_adjust X N p idx kf flags = moved (mark_key kf KEY_IS_GT) (find_right X N p idx)"
      using gt nz by (auto simp: d)
    moreover have "find_answer cmp flags k (entries_of N leaves) (map_option (\<lambda>e. (e, KEY_IS_GT)) (nearest_above cmp k (entries_of N leaves)))"
      using gt by (auto simp: find_answer_def Let_def)
    ultimately show ?thesis using moved_gt [OF above] by (auto simp: idx_def [symmetric] r_def [symmetric])
  qed
qed

lemma find_answer_absent:
  assumes "find_entry k es = None"
  shows "lt_flag flags \<Longrightarrow> (gt_flag flags \<Longrightarrow> nearest_below cmp k es \<noteq> None \<or> nearest_above cmp k es = None) \<Longrightarrow>
       find_answer cmp flags k es (map_option (\<lambda>e. (e, KEY_IS_LT)) (nearest_below cmp k es))"
    "gt_flag flags \<Longrightarrow> (lt_flag flags \<Longrightarrow> nearest_above cmp k es \<noteq> None \<or> nearest_below cmp k es = None) \<Longrightarrow>
       find_answer cmp flags k es (map_option (\<lambda>e. (e, KEY_IS_GT)) (nearest_above cmp k es))"
    "\<not> lt_flag flags \<Longrightarrow> \<not> gt_flag flags \<Longrightarrow> find_answer cmp flags k es None"
  using assms by (auto simp: find_answer_def Let_def)

lemma find_adjust_below:
  assumes o: "tree_order cmp" and row: "leaf_row cmp N leaves k pre p post" and fetch: "\<And>b. bx_fetch X b = 0"
    and np: "\<not> present cmp k (bn_entries (N p))" and kf: "unmarked kf" and fl: "lt_flag flags \<or> gt_flag flags"
    and r: "rank cmp k (bn_entries (N p)) > 0"
  shows "\<exists>res. find_answer cmp flags k (entries_of N leaves) res \<and>
     find_result N (find_adjust X N p (int (rank cmp k (bn_entries (N p))) - 1) (kf OR KEY_IS_LT) flags) res"
proof -
  let ?es = "bn_entries (N p)"
  define r' where "r' = rank cmp k ?es"
  have r': "0 < r'" "r' \<le> length ?es" using r rank_le [of cmp k ?es] by (auto simp: r'_def)
  define idx where "idx = int r' - 1"
  have i: "0 \<le> idx" "nat idx < length ?es" "Suc (nat idx) = r'" "nat idx = r' - 1" using r' by (auto simp: idx_def)
  note a = row_answers [OF o row, folded r'_def, unfolded if_not_P [OF np]]
  have nb: "nearest_below cmp k (entries_of N leaves) = Some (?es ! (r' - 1))"
  proof -
    have "take r' ?es \<noteq> []" using r' by auto
    moreover have "last (take r' ?es) = ?es ! (r' - 1)" using r' by (subst last_conv_nth) (auto simp: min_def)
    ultimately show ?thesis unfolding a(1) by (simp add: last_of_def)
  qed
  note d = find_adjust_def Let_def marks [OF kf] lt_flag_def [symmetric] gt_flag_def [symmetric] both_flags
  show ?thesis
  proof (cases "lt_flag flags")
    case True
    then have "find_adjust X N p idx (kf OR KEY_IS_LT) flags = Inr (p, idx, kf OR KEY_IS_LT)" by (auto simp: d)
    moreover note find_answer_absent(1) [OF a(3) True, of cmp]
    ultimately show ?thesis using nb i marks [OF kf]
      by (auto simp: find_result_def idx_def [symmetric] r'_def [symmetric])
  next
    case False
    with fl have gt: "gt_flag flags" by simp
    have "find_adjust X N p idx (kf OR KEY_IS_LT) flags = moved (mark_key (kf OR KEY_IS_LT) KEY_IS_GT) (find_right X N p idx)"
      using False gt by (auto simp: d)
    moreover have "found_at N (find_right X N p idx) (nearest_above cmp k (entries_of N leaves))"
      using find_right_neighbour [OF row fetch i(1,2)] unfolding a(2) i(3) .
    moreover note find_answer_absent(2) [OF a(3) gt, of cmp]
    ultimately show ?thesis using False moved_gt by (auto simp: idx_def [symmetric] r'_def [symmetric])
  qed
qed

lemma find_adjust_above:
  assumes o: "tree_order cmp" and row: "leaf_row cmp N leaves k pre p post" and fetch: "\<And>b. bx_fetch X b = 0"
    and np: "\<not> present cmp k (bn_entries (N p))" and kf: "unmarked kf"
    and fl: "gt_flag flags \<or> lt_flag flags \<and> rank cmp k (bn_entries (N p)) = 0"
    and r: "rank cmp k (bn_entries (N p)) < length (bn_entries (N p))"
  shows "\<exists>res. find_answer cmp flags k (entries_of N leaves) res \<and>
     find_result N (find_adjust X N p (int (rank cmp k (bn_entries (N p)))) (kf OR KEY_IS_GT) flags) res"
proof -
  let ?es = "bn_entries (N p)"
  define r' where "r' = rank cmp k ?es"
  have r': "r' < length ?es" using r by (simp add: r'_def)
  define idx where "idx = int r'"
  have i: "0 \<le> idx" "nat idx < length ?es" "nat idx = r'" using r' by (auto simp: idx_def)
  note a = row_answers [OF o row, folded r'_def, unfolded if_not_P [OF np]]
  have na: "nearest_above cmp k (entries_of N leaves) = Some (?es ! r')"
    unfolding a(2) using r' by (simp add: first_of_def hd_append hd_drop_conv_nth)
  note d = find_adjust_def Let_def marks [OF kf] lt_flag_def [symmetric] gt_flag_def [symmetric] both_flags
  show ?thesis
  proof (cases "gt_flag flags")
    case True
    then have "find_adjust X N p idx (kf OR KEY_IS_GT) flags = Inr (p, idx, kf OR KEY_IS_GT)" by (auto simp: d)
    moreover note find_answer_absent(2) [OF a(3) True, of cmp]
    ultimately show ?thesis using na i marks [OF kf]
      by (auto simp: find_result_def idx_def [symmetric] r'_def [symmetric])
  next
    case False
    with fl have lt: "lt_flag flags" "r' = 0" by (simp_all add: r'_def)
    have "find_adjust X N p idx (kf OR KEY_IS_GT) flags = moved (mark_key (kf OR KEY_IS_GT) KEY_IS_LT) (find_left X N p idx)"
      using False lt by (auto simp: d)
    moreover have "found_at N (find_left X N p idx) (nearest_below cmp k (entries_of N leaves))"
      using find_left_neighbour [OF row fetch i(1,2)] unfolding a(1) i(3) .
    moreover note find_answer_absent(1) [OF a(3) lt(1), of cmp]
    ultimately show ?thesis using False moved_lt by (auto simp: idx_def [symmetric] r'_def [symmetric])
  qed
qed

text \<open>
  A leaf search with the flags as given in the middle of the leaf or in the only leaf, or
  with both neighbours allowed, ends at an answer.
\<close>

lemma leaf_search_answer:
  assumes o: "tree_order (bx_compare X)" and row: "leaf_row (bx_compare X) N leaves k pre p post"
    and fetch: "\<And>b. bx_fetch X b = 0"
    and res: "leaf_result (present (bx_compare X) k (bn_entries (N p))) lt gt (rank (bx_compare X) k (bn_entries (N p)))
        (length (bn_entries (N p))) = (idx, mark)"
    and c: "lt = lt_flag flags \<and> gt = gt_flag flags \<and> (idx < 0 \<longrightarrow> leaves = [p]) \<or>
        lt \<and> gt \<and> (lt_flag flags \<or> gt_flag flags) \<and> bn_entries (N p) \<noteq> [] \<or>
        \<not> lt \<and> \<not> gt \<and> \<not> lt_flag flags \<and> \<not> gt_flag flags"
    and kf: "unmarked kf"
  shows "\<exists>r. find_answer (bx_compare X) flags k (entries_of N leaves) r \<and>
     find_result N (if idx \<ge> 0 then find_adjust X N p idx (kf OR mark) flags else Inr (p, idx, kf OR mark)) r"
proof -
  let ?cmp = "bx_compare X" and ?es = "bn_entries (N p)"
  define r where "r = rank ?cmp k ?es"
  note res' = res [folded r_def]
  consider (here) "present ?cmp k ?es" "idx = int r - 1" "mark = 0"
    | (below) "\<not> present ?cmp k ?es" "lt" "r > 0" "idx = int r - 1" "mark = KEY_IS_LT"
    | (above) "\<not> present ?cmp k ?es" "gt" "r < length ?es" "lt \<longrightarrow> r = 0" "idx = int r" "mark = KEY_IS_GT"
    | (none) "\<not> present ?cmp k ?es" "\<not> (lt \<and> r > 0)" "\<not> (gt \<and> r < length ?es \<and> (lt \<longrightarrow> r = 0))" "idx = -1"
    using res' unfolding leaf_result_def by (auto split: if_splits)
  then show ?thesis
  proof cases
    case here
    then have "idx \<ge> 0" by (simp add: present_def r_def)
    with here find_adjust_present [OF o row fetch here(1) kf, of flags] show ?thesis by (simp add: r_def)
  next
    case below
    then have "idx \<ge> 0" "lt_flag flags \<or> gt_flag flags" using c by auto
    with below find_adjust_below [OF o row fetch below(1) kf, of flags] show ?thesis by (simp add: r_def)
  next
    case above
    then have "idx \<ge> 0" "gt_flag flags \<or> lt_flag flags \<and> r = 0" using c by auto
    with above find_adjust_above [OF o row fetch above(1) kf, of flags] show ?thesis by (simp add: r_def)
  next
    case none
    note a = row_answers [OF o row, folded r_def, unfolded if_not_P [OF none(1)]]
    have "find_answer ?cmp flags k (entries_of N leaves) None"
    proof (cases "leaves = [p]")
      case True
      then have "[p] = pre @ p # post" using row by (simp add: leaf_row_def leaf_for_def)
      then have pp: "pre = []" "post = []" by (cases pre; simp)+
      have nb: "nearest_below ?cmp k (entries_of N leaves) = None" if "r = 0"
        using a(1) that pp by (simp add: last_of_def)
      have na: "nearest_above ?cmp k (entries_of N leaves) = None" if "\<not> r < length ?es"
        using a(2) that pp by (simp add: first_of_def)
      have rl: "r \<le> length ?es" unfolding r_def by (rule rank_le)
      show ?thesis using c none(2,3) nb na a(3) rl by (auto simp: find_answer_def Let_def)
    next
      case False
      with c none(4) have "(lt \<and> gt \<and> ?es \<noteq> []) \<or> (\<not> lt_flag flags \<and> \<not> gt_flag flags)" by auto
      with none(2,3) show ?thesis using find_answer_absent(3) [OF a(3)] by auto
    qed
    with none(4) show ?thesis by (auto simp: find_result_def)
  qed
qed

section \<open>The lookup in a tree\<close>

lemma inv_leaf_row:
  assumes o: "tree_order cmp" and inv: "bt_inv cmp T h" and f: "leaf_for cmp (bt_nodes T) (bt_leaves T h) k pre p post"
  shows "leaf_row cmp (bt_nodes T) (bt_leaves T h) k pre p post" "entries_of (bt_nodes T) (bt_leaves T h) = bt_contents T h"
proof -
  show C: "entries_of (bt_nodes T) (bt_leaves T h) = bt_contents T h"
    by (simp add: entries_of_def bt_leaves_def bt_contents_def contents_def)
  have lk: "linked (bt_nodes T) (\<lambda>k. level (bt_nodes T) h k (bt_rootpage T))" using inv by (simp add: bt_inv_def)
  have "seg (bt_nodes T) 0 (bt_leaves T h) 0" "0 \<notin> set (bt_leaves T h)"
    unfolding bt_leaves_def by (rule linkedD(1) [OF lk], rule linkedD(3) [OF lk])
  moreover have "entries_sorted cmp (bt_contents T h)"
    using inv bt_tree_contents(1) [OF o] unfolding bt_inv_def bt_contents_def by blast
  moreover have "length (bt_leaves T h) > 1 \<longrightarrow> (\<forall>x \<in> set (bt_leaves T h). bn_entries (bt_nodes T x) \<noteq> [])"
    using inv by (cases "h = 0") (auto simp: bt_inv_def bt_leaves_def)
  ultimately show "leaf_row cmp (bt_nodes T) (bt_leaves T h) k pre p post"
    using f unfolding leaf_row_def C by blast
qed

lemma find_regular_answer:
  assumes o: "tree_order (bx_compare X)" and inv: "bt_inv (bx_compare X) T h" and fetch: "\<And>b. bx_fetch X b = 0"
  shows "\<exists>p idx kf' res. find_regular X T k kf flags = Some (Inr (p, idx, kf')) \<and>
     find_answer (bx_compare X) flags k (bt_contents T h) res \<and>
     find_result (bt_nodes T) (if idx \<ge> 0 then find_adjust X (bt_nodes T) p idx kf' flags else Inr (p, idx, kf')) res"
proof -
  let ?cmp = "bx_compare X" and ?N = "bt_nodes T" and ?root = "bt_rootpage T" and ?both = "HAM_FIND_LT_MATCH OR HAM_FIND_GT_MATCH"
  have t: "bt_tree ?cmp (bt_maxkeys T) ?N h None None ?root" and m: "bt_maxkeys T \<le> MAX_KEYS_PER_NODE"
    using inv by (simp_all add: bt_inv_def)
  obtain pre p post l u where f: "find_leaf X ?N ?root k = Some (Inr p)" "leaf_for ?cmp ?N (bt_leaves T h) k pre p post"
    "bt_tree ?cmp (bt_maxkeys T) ?N 0 l u p"
    using find_leaf_correct [OF o m fetch t in_range_None] unfolding bt_leaves_def by blast
  note row = inv_leaf_row [OF o inv f(2)]
  have root: "?root \<noteq> 0" "btree_node_is_leaf (?N ?root) \<longleftrightarrow> h = 0"
    using t by (cases h; simp add: btree_node_is_leaf_def inner_ok_def)+
  define flags' where "flags' = (if \<not> btree_node_is_leaf (?N ?root) \<and> flags AND ?both \<noteq> 0 then flags OR ?both else flags)"
  have s: "entries_sorted ?cmp (bn_entries (?N p))" "length (bn_entries (?N p)) \<le> MAX_KEYS_PER_NODE"
    using f(3) m by (auto simp: node_ok_def)
  obtain idx mark where sr:
    "leaf_result (present ?cmp k (bn_entries (?N p))) (lt_flag flags') (gt_flag flags') (rank ?cmp k (bn_entries (?N p)))
       (length (bn_entries (?N p))) = (idx, mark)"
    "btree_node_search_by_key X (?N p) k kf flags' = Some (idx, (kf AND NOT KEY_IS_APPROXIMATE) OR mark)"
    using search_by_key_leaf [OF o s, of k flags' kf] by blast
  have idx: "\<not> idx < -1" using sr(1) by (auto simp: leaf_result_def split: if_splits)
  have reg: "find_regular X T k kf flags = Some (Inr (p, idx, (kf AND NOT KEY_IS_APPROXIMATE) OR mark))"
    unfolding find_regular_def Let_def flags'_def [symmetric] using root(1) fetch f(1) sr(2) idx by simp
  have "\<exists>r. find_answer ?cmp flags k (entries_of ?N (bt_leaves T h)) r \<and>
     find_result ?N (if idx \<ge> 0 then find_adjust X ?N p idx ((kf AND NOT KEY_IS_APPROXIMATE) OR mark) flags
       else Inr (p, idx, (kf AND NOT KEY_IS_APPROXIMATE) OR mark)) r"
  proof (rule leaf_search_answer [OF o row(1) fetch sr(1) _ unmarked_clear])
    have "h = 0 \<Longrightarrow> bt_leaves T h = [p]" using f(2) by (auto simp: bt_leaves_def leaf_for_def Cons_eq_append_conv)
    moreover have "h > 0 \<Longrightarrow> bn_entries (?N p) \<noteq> []"
      using inv f(2) by (auto simp: bt_inv_def bt_leaves_def leaf_for_def)
    ultimately show "lt_flag flags' = lt_flag flags \<and> gt_flag flags' = gt_flag flags \<and> (idx < 0 \<longrightarrow> bt_leaves T h = [p]) \<or>
        lt_flag flags' \<and> gt_flag flags' \<and> (lt_flag flags \<or> gt_flag flags) \<and> bn_entries (?N p) \<noteq> [] \<or>
        \<not> lt_flag flags' \<and> \<not> gt_flag flags' \<and> \<not> lt_flag flags \<and> \<not> gt_flag flags"
      unfolding flags'_def root(2) both_flags by (cases "h = 0") auto
  qed
  with reg show ?thesis unfolding row(2) by blast
qed

lemma find_fast_track_answer:
  assumes o: "tree_order (bx_compare X)" and inv: "bt_inv (bx_compare X) T h" and fetch: "\<And>b. bx_fetch X b = 0"
    and hint: "\<And>q. hint = Some q \<Longrightarrow> q \<in> set (bt_leaves T h)"
  shows "find_fast_track X (bt_nodes T) hint k kf flags = Some (Inr None) \<or>
     (\<exists>p idx kf' res. find_fast_track X (bt_nodes T) hint k kf flags = Some (Inr (Some (p, idx, kf'))) \<and> idx \<ge> 0 \<and>
        find_answer (bx_compare X) flags k (bt_contents T h) res \<and>
        find_result (bt_nodes T) (find_adjust X (bt_nodes T) p idx kf' flags) res)"
proof (cases "find_fast_track X (bt_nodes T) hint k kf flags = Some (Inr None)")
  case False
  let ?cmp = "bx_compare X" and ?N = "bt_nodes T"
  obtain p where p: "hint = Some p" using False by (cases hint) (auto simp: find_fast_track_def)
  have t: "bt_tree ?cmp (bt_maxkeys T) ?N h None None (bt_rootpage T)" and m: "bt_maxkeys T \<le> MAX_KEYS_PER_NODE"
    using inv by (simp_all add: bt_inv_def)
  obtain l u where leaf: "bt_tree ?cmp (bt_maxkeys T) ?N 0 l u p"
    using bt_tree_leaves [OF t] hint [OF p] unfolding bt_leaves_def by blast
  have s: "entries_sorted ?cmp (bn_entries (?N p))" "length (bn_entries (?N p)) \<le> MAX_KEYS_PER_NODE"
    using leaf m by (auto simp: node_ok_def)
  define r where "r = rank ?cmp k (bn_entries (?N p))"
  obtain idx mark where sr:
    "leaf_result (present ?cmp k (bn_entries (?N p))) (lt_flag flags) (gt_flag flags) r (length (bn_entries (?N p))) = (idx, mark)"
    "btree_node_search_by_key X (?N p) k kf flags = Some (idx, (kf AND NOT KEY_IS_APPROXIMATE) OR mark)"
    using search_by_key_leaf [OF o s, of k flags kf] unfolding r_def by blast
  have mid: "0 < idx" "idx < int (length (bn_entries (?N p))) - 1"
    and ft: "find_fast_track X ?N hint k kf flags = Some (Inr (Some (p, idx, (kf AND NOT KEY_IS_APPROXIMATE) OR mark)))"
    using False p sr(2) fetch by (auto simp: find_fast_track_def btree_node_get_count_def split: if_splits)
  have rr: "0 < r" "r < length (bn_entries (?N p))"
    using sr(1) mid by (auto simp: leaf_result_def split: if_splits)
  obtain pre post where lv: "bt_leaves T h = pre @ p # post" using hint [OF p] by (metis split_list)
  have C: "entries_sorted ?cmp (entries_of ?N pre @ bn_entries (?N p) @ entries_of ?N post)"
    using bt_tree_contents(1) [OF o t] lv unfolding contents_def bt_leaves_def by (simp add: entries_of_def)
  have "?cmp k (entry_key e) > 0" if "e \<in> set (entries_of ?N pre)" for e
  proof -
    have "bn_entries (?N p) ! 0 \<in> set (bn_entries (?N p))" using rr by (intro nth_mem) linarith
    then have "?cmp (entry_key e) (entry_key (bn_entries (?N p) ! 0)) < 0" using C that by simp
    moreover have "?cmp (entry_key (bn_entries (?N p) ! 0)) k \<le> 0"
      using rank_below [of 0 ?cmp k "bn_entries (?N p)"] rr tree_orderD(4) [OF o, of k "entry_key (bn_entries (?N p) ! 0)"]
      unfolding r_def by simp
    ultimately have "?cmp (entry_key e) k < 0" by (rule tree_orderD(5) [OF o])
    then show ?thesis using tree_orderD(4) [OF o] by blast
  qed
  moreover have "?cmp k (entry_key e) < 0" if "e \<in> set (entries_of ?N post)" for e
  proof -
    have "bn_entries (?N p) ! r \<in> set (bn_entries (?N p))" using rr by simp
    then have "?cmp (entry_key (bn_entries (?N p) ! r)) (entry_key e) < 0" using C that by simp
    moreover have "?cmp k (entry_key (bn_entries (?N p) ! r)) < 0" using rank_at rr unfolding r_def by blast
    ultimately show ?thesis using tree_orderD(5) [OF o] by fastforce
  qed
  ultimately have "leaf_for ?cmp ?N (bt_leaves T h) k pre p post" using lv by (auto simp: leaf_for_def entries_of_def)
  note row = inv_leaf_row [OF o inv this]
  have "\<exists>r. find_answer ?cmp flags k (entries_of ?N (bt_leaves T h)) r \<and>
     find_result ?N (if idx \<ge> 0 then find_adjust X ?N p idx ((kf AND NOT KEY_IS_APPROXIMATE) OR mark) flags
       else Inr (p, idx, (kf AND NOT KEY_IS_APPROXIMATE) OR mark)) r"
    by (rule leaf_search_answer [OF o row(1) fetch sr(1) [unfolded r_def] _ unmarked_clear]) (use mid in auto)
  with ft mid show ?thesis unfolding row(2) by auto
qed simp

lemma find_cursor_answer:
  assumes o: "tree_order (bx_compare X)" and inv: "bt_inv (bx_compare X) T h" and fetch: "\<And>b. bx_fetch X b = 0"
    and rk: "\<And>e. bx_read_key X e = 0" and hint: "\<forall>q. hint = Some q \<longrightarrow> q \<in> set (bt_leaves T h)"
  shows "\<exists>out res. btree_find_cursor X False hint T k kf want flags = Some out \<and>
     find_answer (bx_compare X) flags k (bt_contents T h) res \<and>
     (case res of
        None \<Rightarrow> fo_status out = NOT_FOUND \<and> fo_pos out = None
      | Some (e, mark) \<Rightarrow> \<exists>p i. fo_pos out = Some (p, i) \<and> i < length (bn_entries (bt_nodes T p)) \<and>
          bn_entries (bt_nodes T p) ! i = e \<and> fo_flags out AND KEY_IS_APPROXIMATE = mark \<and>
          fo_status out = (if want then fst (bx_read_record X (be_ptr e, be_flags e) flags (bt_env T)) else 0) \<and>
          (want \<and> fo_status out = 0 \<longrightarrow> fo_record out = Some (snd (bx_read_record X (be_ptr e, be_flags e) flags (bt_env T)))))"
proof -
  obtain p idx kf' res where f:
    "find_fast_track X (bt_nodes T) hint k kf flags = Some (Inr None) \<and> find_regular X T k kf flags = Some (Inr (p, idx, kf')) \<or>
     find_fast_track X (bt_nodes T) hint k kf flags = Some (Inr (Some (p, idx, kf')))"
    "find_answer (bx_compare X) flags k (bt_contents T h) res"
    "find_result (bt_nodes T) (if idx \<ge> 0 then find_adjust X (bt_nodes T) p idx kf' flags else Inr (p, idx, kf')) res"
    using find_fast_track_answer [where hint = hint and k = k and kf = kf and flags = flags, OF o inv fetch hint [rule_format]] find_regular_answer [OF o inv fetch, of k kf flags]
    by (smt (verit))
  define r where "r = (if idx \<ge> 0 then find_adjust X (bt_nodes T) p idx kf' flags else Inr (p, idx, kf'))"
  have b: "btree_find_cursor X False hint T k kf want flags =
      (case r of Inl st \<Rightarrow> Some (find_fail st kf')
       | Inr (page', idx', kf'') \<Rightarrow> Some (find_finish X T k want flags page' idx' kf''))"
    using f(1) by (auto simp: btree_find_cursor_def r_def)
  note fr = f(3) [folded r_def]
  show ?thesis
  proof (cases r)
    case (Inl st)
    with fr b f(2) show ?thesis by (auto simp: find_result_def find_fail_def)
  next
    case (Inr q)
    obtain page' idx' kf'' where q: "q = (page', idx', kf'')" by (metis prod_cases3)
    show ?thesis
    proof (cases "idx' < 0")
      case True
      with Inr q fr b f(2) show ?thesis by (auto simp: find_result_def find_fail_def find_finish_def)
    next
      case False
      with fr Inr q have res: "nat idx' < length (bn_entries (bt_nodes T page'))"
        "res = Some (bn_entries (bt_nodes T page') ! nat idx', kf'' AND KEY_IS_APPROXIMATE)" by (auto simp: find_result_def)
      let ?out = "find_finish X T k want flags page' idx' kf''"
      have "fo_pos ?out = Some (page', nat idx')" "fo_flags ?out = kf''"
        "fo_status ?out = (if want then fst (bx_read_record X (be_ptr (bn_entries (bt_nodes T page') ! nat idx'),
            be_flags (bn_entries (bt_nodes T page') ! nat idx')) flags (bt_env T)) else 0)"
        "want \<and> fo_status ?out = 0 \<longrightarrow> fo_record ?out = Some (snd (bx_read_record X (be_ptr (bn_entries (bt_nodes T page') ! nat idx'),
            be_flags (bn_entries (bt_nodes T page') ! nat idx')) flags (bt_env T)))"
        using False rk by (auto simp: find_finish_def Let_def split: prod.splits)
      with b Inr q f(2) res show ?thesis by auto
    qed
  qed
qed

text \<open>
  C5. A lookup answers from the ordered list of all entries. On a tree that satisfies the
  invariant, whose pages can be read, \<open>btree_find_cursor\<close> always returns; with a hint to any
  leaf of the tree or none, and for every combination of match flags, its answer is the one that
  the entries of all leaves in their order define: the entry of the key if exact matches are
  allowed and it exists, otherwise the nearest smaller or greater entry as the flags demand,
  and HAM_KEY_NOT_FOUND only when there is none. The key is marked accordingly, the position is that
  entry, and the record returned is the record of that entry.
\<close>

theorem btree_find_answers:
  assumes o: "tree_order (bx_compare X)" and inv: "bt_inv (bx_compare X) T h" and fetch: "\<And>b. bx_fetch X b = 0"
    and rk: "\<And>e. bx_read_key X e = 0" and hint: "\<forall>q. hint = Some q \<longrightarrow> q \<in> set (bt_leaves T h)"
  shows "\<exists>out res. btree_find_cursor X False hint T k kf want flags = Some out \<and>
     find_answer (bx_compare X) flags k (bt_contents T h) res \<and>
     (case res of
        None \<Rightarrow> fo_status out = NOT_FOUND \<and> fo_pos out = None
      | Some (e, mark) \<Rightarrow> \<exists>p i. fo_pos out = Some (p, i) \<and> i < length (bn_entries (bt_nodes T p)) \<and>
          bn_entries (bt_nodes T p) ! i = e \<and> fo_flags out AND KEY_IS_APPROXIMATE = mark \<and>
          fo_status out = (if want then fst (bx_read_record X (be_ptr e, be_flags e) flags (bt_env T)) else 0) \<and>
          (want \<and> fo_status out = 0 \<longrightarrow> fo_record out = Some (snd (bx_read_record X (be_ptr e, be_flags e) flags (bt_env T)))))"
  by (rule find_cursor_answer [OF o inv fetch rk hint])

theorem btree_find_answers_witness:
  "\<exists>out p i. btree_find_cursor example_ctx False (Some 0x800) example_tree [3] 0 True HAM_FIND_LEQ_MATCH = Some out \<and>
     fo_pos out = Some (p, i) \<and> bn_entries (example_nodes p) ! i = example_entry 2 \<and> fo_flags out AND KEY_IS_APPROXIMATE = KEY_IS_LT \<and>
     fo_status out = 0 \<and> fo_record out = Some [42]"
proof -
  have fl: "HAM_FIND_LEQ_MATCH AND HAM_FIND_EXACT_MATCH \<noteq> 0" "lt_flag HAM_FIND_LEQ_MATCH" "\<not> gt_flag HAM_FIND_LEQ_MATCH"
    by (simp_all add: lt_flag_def gt_flag_def HAM_FIND_LEQ_MATCH_def HAM_FIND_EXACT_MATCH_def HAM_FIND_LT_MATCH_def HAM_FIND_GT_MATCH_def)
  have c: "db_default_compare [3] [1] > 0" "db_default_compare [3] [2] > 0" "\<not> db_default_compare [3] [5] > 0"
    by code_simp+
  have ans: "find_answer db_default_compare HAM_FIND_LEQ_MATCH [3] (bt_contents example_tree (Suc 0)) res \<Longrightarrow> res = Some (example_entry 2, KEY_IS_LT)" for res
    using c fl by (simp add: find_answer_def Let_def example_contents nearest_below_def last_of_def find_entry_def)
  have ctx: "\<And>b. bx_fetch example_ctx b = 0" "\<And>e. bx_read_key example_ctx e = 0" by (simp_all add: example_ctx_def)
  have hint: "\<forall>q. Some 0x800 = Some q \<longrightarrow> q \<in> set (bt_leaves example_tree (Suc 0))" by (auto simp: example_contents)
  obtain out res where o: "btree_find_cursor example_ctx False (Some 0x800) example_tree [3] 0 True HAM_FIND_LEQ_MATCH = Some out"
    "find_answer db_default_compare HAM_FIND_LEQ_MATCH [3] (bt_contents example_tree (Suc 0)) res"
    "case res of None \<Rightarrow> fo_status out = NOT_FOUND \<and> fo_pos out = None
     | Some (e, mark) \<Rightarrow> \<exists>p i. fo_pos out = Some (p, i) \<and> i < length (bn_entries (bt_nodes example_tree p)) \<and>
          bn_entries (bt_nodes example_tree p) ! i = e \<and> fo_flags out AND KEY_IS_APPROXIMATE = mark \<and>
          fo_status out = (if True then fst (bx_read_record example_ctx (be_ptr e, be_flags e) HAM_FIND_LEQ_MATCH (bt_env example_tree)) else 0) \<and>
          (True \<and> fo_status out = 0 \<longrightarrow>
             fo_record out = Some (snd (bx_read_record example_ctx (be_ptr e, be_flags e) HAM_FIND_LEQ_MATCH (bt_env example_tree))))"
    using btree_find_answers [of example_ctx example_tree "Suc 0" "Some 0x800" "[3]" 0 True HAM_FIND_LEQ_MATCH, unfolded example_compare,
      OF tree_order_default example_inv ctx hint] by (elim exE conjE) (rule that; assumption)
  show ?thesis using o(1,3) unfolding ans [OF o(2)] by (auto simp: example_ctx_def)
qed

end
