(* ===== verification/Ham_Bt_Surgery.thy ===== *)
theory Ham_Bt_Surgery
  imports Ham_Bt_Tree
begin

text \<open>
  Changing a B+tree: what becomes of the tree, its levels and its contents when one
  child was replaced, when a child was split and its new sibling gets an entry in the
  parent, and when a node with too many entries is split in two.
\<close>

section \<open>Trees whose root may have too many entries\<close>

primrec over_tree ::
  "(byte list \<Rightarrow> byte list \<Rightarrow> int) \<Rightarrow> nat \<Rightarrow> (u64 \<Rightarrow> bt_node) \<Rightarrow> nat \<Rightarrow> byte list option \<Rightarrow> byte list option \<Rightarrow> u64 \<Rightarrow> bool" where
  "over_tree cmp m N 0 lo hi a \<longleftrightarrow> a \<noteq> 0 \<and> bn_ptr_left (N a) = 0 \<and> node_ok cmp (length (bn_entries (N a))) lo hi (N a)"
| "over_tree cmp m N (Suc h) lo hi a \<longleftrightarrow> a \<noteq> 0 \<and> inner_ok (N a) \<and> node_ok cmp (length (bn_entries (N a))) lo hi (N a) \<and>
     (\<forall>x \<in> set (kids lo hi (bn_ptr_left (N a)) (bn_entries (N a))). bt_tree cmp m N h (fst x) (fst (snd x)) (snd (snd x)))"

lemma over_tree_iff: "bt_tree cmp m N h lo hi a \<longleftrightarrow> over_tree cmp m N h lo hi a \<and> length (bn_entries (N a)) \<le> m"
  by (cases h) (auto simp: node_ok_def)

section \<open>Disjoint subtrees\<close>

text \<open>In a linked family of levels that contains a tree, its children have no page in common.\<close>

definition placed :: "(u64 \<Rightarrow> bt_node) \<Rightarrow> (nat \<Rightarrow> u64 list) \<Rightarrow> nat \<Rightarrow> (nat \<Rightarrow> u64 list) \<Rightarrow> u64 \<Rightarrow> (nat \<Rightarrow> u64 list) \<Rightarrow> bool" where
  "placed N L h pre a post \<longleftrightarrow> linked N L \<and> (\<forall>k \<le> h. L k = pre k @ level N h k a @ post k)"

lemma placed_pages: "placed N L h pre a post \<Longrightarrow> x \<in> pages N h a \<Longrightarrow> \<exists>k \<le> h. x \<in> set (L k)"
  by (auto simp: placed_def pages_level)

definition before :: "(u64 \<Rightarrow> bt_node) \<Rightarrow> nat \<Rightarrow> u64 \<Rightarrow> nat \<Rightarrow> nat \<Rightarrow> u64 list" where
  "before N h a r k = concat (map (level N h k) (take r (child_ptrs (N a))))"

definition behind :: "(u64 \<Rightarrow> bt_node) \<Rightarrow> nat \<Rightarrow> u64 \<Rightarrow> nat \<Rightarrow> nat \<Rightarrow> u64 list" where
  "behind N h a r k = concat (map (level N h k) (drop (Suc r) (child_ptrs (N a))))"

lemma placed_child:
  assumes p: "placed N L (Suc h) pre a post" and r: "r < length (child_ptrs (N a))"
  shows "placed N L h (\<lambda>k. pre k @ before N h a r k) (child_ptrs (N a) ! r) (\<lambda>k. behind N h a r k @ post k)"
  unfolding placed_def
proof (intro conjI allI impI)
  show "linked N L" using p by (simp add: placed_def)
  fix k assume k: "k \<le> h"
  have "L k = pre k @ level N (Suc h) k a @ post k" using p k by (simp add: placed_def del: level.simps)
  then show "L k = (pre k @ before N h a r k) @ level N h k (child_ptrs (N a) ! r) @ behind N h a r k @ post k"
    unfolding level_split [where N = N and a = a, OF r k] before_def behind_def by simp
qed

lemma placed_root:
  assumes "placed N L h pre a post"
  shows "L h = pre h @ a # post h"
  using assms by (cases h) (auto simp: placed_def)

lemma placed_not_in_child:
  assumes p: "placed N L (Suc h) pre a post" and r: "r < length (child_ptrs (N a))"
  shows "a \<notin> pages N h (child_ptrs (N a) ! r)"
proof
  assume "a \<in> pages N h (child_ptrs (N a) ! r)"
  then obtain k where "k \<le> h" "a \<in> set (L k)" using placed_pages [OF placed_child [OF p r]] by blast
  moreover have "a \<in> set (L (Suc h))" using placed_root [OF p] by simp
  ultimately show False using linkedD(4) [of N L a k "Suc h"] p by (auto simp: placed_def)
qed

lemma placed_children_disjoint:
  assumes p: "placed N L (Suc h) pre a post" and i: "i < length (child_ptrs (N a))" and j: "j < length (child_ptrs (N a))"
    and ij: "i < j" and x: "x \<in> pages N h (child_ptrs (N a) ! i)" "x \<in> pages N h (child_ptrs (N a) ! j)"
  shows False
proof -
  note pi = placed_child [OF p i] and pj = placed_child [OF p j]
  have l: "linked N L" using p by (simp add: placed_def)
  obtain k where k: "k \<le> h" "x \<in> set (level N h k (child_ptrs (N a) ! i))" using x(1) pages_level by blast
  obtain k' where k': "k' \<le> h" "x \<in> set (level N h k' (child_ptrs (N a) ! j))" using x(2) pages_level by blast
  have "x \<in> set (L k)" using k pi by (simp add: placed_def)
  moreover have "x \<in> set (L k')" using k' pj by (simp add: placed_def)
  ultimately have "k = k'" using linkedD(4) [OF l] by blast
  have "child_ptrs (N a) ! i \<in> set (take j (child_ptrs (N a)))"
    using i j ij by (auto simp: in_set_conv_nth [of _ "take j (child_ptrs (N a))"])
  then have "x \<in> set (before N h a j k)" using k(2) by (auto simp: before_def)
  moreover have "L k = (pre k @ before N h a j k) @ level N h k (child_ptrs (N a) ! j) @ behind N h a j k @ post k"
    using pj k(1) by (simp add: placed_def)
  ultimately show False using k'(2) \<open>k = k'\<close> linkedD(2) [OF l, of k] by auto
qed

lemma placed_others:
  assumes p: "placed N L (Suc h) pre a post" and r: "r < length (child_ptrs (N a))"
    and i: "i < length (child_ptrs (N a))" "i \<noteq> r"
  shows "pages N h (child_ptrs (N a) ! i) \<inter> pages N h (child_ptrs (N a) ! r) = {}"
  using placed_children_disjoint [OF p i(1) r] placed_children_disjoint [OF p r i(1)] i(2)
  by (metis disjoint_iff linorder_neqE_nat)

section \<open>A child was changed\<close>

text \<open>The pages outside one child of \<open>a\<close> have the entries they had.\<close>

definition others_kept :: "(u64 \<Rightarrow> bt_node) \<Rightarrow> (u64 \<Rightarrow> bt_node) \<Rightarrow> nat \<Rightarrow> u64 \<Rightarrow> nat \<Rightarrow> bool" where
  "others_kept N N' h a r \<longleftrightarrow> body (N' a) = body (N a) \<and>
     (\<forall>i < length (child_ptrs (N a)). i \<noteq> r \<longrightarrow> (\<forall>x \<in> pages N h (child_ptrs (N a) ! i). body (N' x) = body (N x)))"

lemma others_keptD:
  assumes "others_kept N N' h a r"
  shows "bn_ptr_left (N' a) = bn_ptr_left (N a)" "bn_entries (N' a) = bn_entries (N a)" "child_ptrs (N' a) = child_ptrs (N a)"
    "i < length (child_ptrs (N a)) \<Longrightarrow> i \<noteq> r \<Longrightarrow> level N' h k (child_ptrs (N a) ! i) = level N h k (child_ptrs (N a) ! i)"
    "i < length (child_ptrs (N a)) \<Longrightarrow> i \<noteq> r \<Longrightarrow> contents N' h (child_ptrs (N a) ! i) = contents N h (child_ptrs (N a) ! i)"
    "i < length (child_ptrs (N a)) \<Longrightarrow> i \<noteq> r \<Longrightarrow> pages N' h (child_ptrs (N a) ! i) = pages N h (child_ptrs (N a) ! i)"
    "i < length (child_ptrs (N a)) \<Longrightarrow> i \<noteq> r \<Longrightarrow>
       bt_tree cmp m N' h l u (child_ptrs (N a) ! i) = bt_tree cmp m N h l u (child_ptrs (N a) ! i)"
proof -
  show b: "bn_ptr_left (N' a) = bn_ptr_left (N a)" "bn_entries (N' a) = bn_entries (N a)"
    using assms by (auto simp: others_kept_def body_eq)
  then show "child_ptrs (N' a) = child_ptrs (N a)" by (simp add: child_ptrs_def)
  fix i assume i: "i < length (child_ptrs (N a))" "i \<noteq> r"
  have f: "\<And>x. x \<in> pages N h (child_ptrs (N a) ! i) \<Longrightarrow> body (N' x) = body (N x)" using assms i by (simp add: others_kept_def)
  show "level N' h k (child_ptrs (N a) ! i) = level N h k (child_ptrs (N a) ! i)"
    "contents N' h (child_ptrs (N a) ! i) = contents N h (child_ptrs (N a) ! i)"
    "pages N' h (child_ptrs (N a) ! i) = pages N h (child_ptrs (N a) ! i)"
    "bt_tree cmp m N' h l u (child_ptrs (N a) ! i) = bt_tree cmp m N h l u (child_ptrs (N a) ! i)"
    using frame [of N h "child_ptrs (N a) ! i" N', OF f] by auto
qed

lemma map_take_others:
  assumes "\<And>i. i < length cs \<Longrightarrow> i \<noteq> r \<Longrightarrow> f (cs ! i) = g (cs ! i)"
  shows "map f (take r cs) = map g (take r cs)" "map f (drop (Suc r) cs) = map g (drop (Suc r) cs)"
  by (rule nth_equalityI; use assms in simp)+

lemma others_levels:
  assumes k: "others_kept N N' h a r"
  shows "before N' h a r j = before N h a r j" "behind N' h a r j = behind N h a r j"
    "concat (map (contents N' h) (take r (child_ptrs (N a)))) = concat (map (contents N h) (take r (child_ptrs (N a))))"
    "concat (map (contents N' h) (drop (Suc r) (child_ptrs (N a)))) = concat (map (contents N h) (drop (Suc r) (child_ptrs (N a))))"
proof -
  note d = others_keptD [OF k]
  let ?cs = "child_ptrs (N a)"
  have l: "map (level N' h j) (take r ?cs) = map (level N h j) (take r ?cs)"
    "map (level N' h j) (drop (Suc r) ?cs) = map (level N h j) (drop (Suc r) ?cs)"
    by (rule map_take_others(1), rule d(4), assumption+, rule map_take_others(2), rule d(4), assumption+)
  have c: "map (contents N' h) (take r ?cs) = map (contents N h) (take r ?cs)"
    "map (contents N' h) (drop (Suc r) ?cs) = map (contents N h) (drop (Suc r) ?cs)"
    by (rule map_take_others(1), rule d(5), assumption+, rule map_take_others(2), rule d(5), assumption+)
  show "before N' h a r j = before N h a r j" "behind N' h a r j = behind N h a r j"
    unfolding before_def behind_def d(3) l by (rule refl)+
  show "concat (map (contents N' h) (take r ?cs)) = concat (map (contents N h) (take r ?cs))"
    "concat (map (contents N' h) (drop (Suc r) ?cs)) = concat (map (contents N h) (drop (Suc r) ?cs))"
    unfolding c by (rule refl)+
qed

lemma tree_child_changed:
  assumes t: "bt_tree cmp m N (Suc h) lo hi a" and r: "r < length (child_ptrs (N a))"
    and x: "kids lo hi (bn_ptr_left (N a)) (bn_entries (N a)) ! r = (l, u, child_ptrs (N a) ! r)"
    and k: "others_kept N N' h a r" and c: "bt_tree cmp m N' h l u (child_ptrs (N a) ! r)"
  shows "bt_tree cmp m N' (Suc h) lo hi a"
proof -
  note d = others_keptD [OF k]
  let ?ks = "kids lo hi (bn_ptr_left (N a)) (bn_entries (N a))"
  have "bt_tree cmp m N' h (fst (?ks ! i)) (fst (snd (?ks ! i))) (snd (snd (?ks ! i)))" if "i < length ?ks" for i
  proof (cases "i = r")
    case True
    then show ?thesis using x c by simp
  next
    case False
    have i: "i < length (child_ptrs (N a))" using that by (simp add: child_ptrs_def)
    have p: "snd (snd (?ks ! i)) = child_ptrs (N a) ! i"
      using kids_nth [of i "bn_entries (N a)" lo hi "bn_ptr_left (N a)"] that by (simp add: child_ptrs_def)
    show ?thesis unfolding p d(7) [OF i False] by (rule bt_tree_kid [OF t i])
  qed
  then have "\<forall>x \<in> set ?ks. bt_tree cmp m N' h (fst x) (fst (snd x)) (snd (snd x))" by (metis in_set_conv_nth)
  with t show ?thesis by (simp add: d(1,2) inner_ok_def node_ok_def)
qed

section \<open>A child was split\<close>

lemma kids_insert:
  "r \<le> length es \<Longrightarrow> kids lo hi p es ! r = (l, u, c) \<Longrightarrow>
     kids lo hi p (take r es @ e # drop r es) =
     take r (kids lo hi p es) @ [(l, Some (entry_key e), c), (Some (entry_key e), u, be_ptr e)] @ drop (Suc r) (kids lo hi p es)"
proof (induction es arbitrary: lo p r)
  case (Cons x es)
  then show ?case by (cases r) auto
qed simp

text \<open>A key strictly inside the range of a child.\<close>

definition strictly_in :: "(byte list \<Rightarrow> byte list \<Rightarrow> int) \<Rightarrow> byte list option \<Rightarrow> byte list option \<Rightarrow> byte list \<Rightarrow> bool" where
  "strictly_in cmp lo hi k \<longleftrightarrow> in_range cmp lo hi k \<and> (\<forall>l. lo = Some l \<longrightarrow> cmp l k < 0)"

lemma strictly_between:
  assumes o: "tree_order cmp" and s: "entries_sorted cmp es" and r: "r \<le> length es"
    and x: "kids lo hi p es ! r = (l, u, c)" and k: "strictly_in cmp l u k"
  shows "x \<in> set (take r es) \<Longrightarrow> cmp (entry_key x) k < 0" "y \<in> set (drop r es) \<Longrightarrow> cmp k (entry_key y) < 0"
proof -
  note n = kids_nth [OF r, of lo hi p, unfolded x]
  show "cmp (entry_key x) k < 0" if "x \<in> set (take r es)"
  proof -
    note xin = that
    obtain i where i: "i < r" "x = es ! i" using xin by (auto simp: in_set_conv_nth)
    have "cmp (entry_key (es ! (r - 1))) k < 0" using n k i by (simp add: strictly_in_def)
    moreover have "i = r - 1 \<or> cmp (entry_key (es ! i)) (entry_key (es ! (r - 1))) < 0"
    proof (cases "i = r - 1")
      case False
      with i r have "i < r - 1" "r - 1 < length es" by simp_all
      with s show ?thesis by (simp add: entries_sorted_def sorted_wrt_iff_nth_less)
    qed simp
    ultimately show ?thesis using i(2) tree_orderD(5) [OF o, of "entry_key (es ! i)" "entry_key (es ! (r - 1))" k] by auto
  qed
  show "cmp k (entry_key y) < 0" if "y \<in> set (drop r es)"
  proof -
    note yin = that
    obtain j where j: "j < length es - r" "y = es ! (r + j)" using yin by (auto simp: in_set_conv_nth)
    have "r \<noteq> length es" using j(1) by linarith
    then have "u = Some (entry_key (es ! r))" using n by simp
    then have "cmp k (entry_key (es ! r)) < 0" using k by (simp add: strictly_in_def in_range_def)
    moreover have "j = 0 \<or> cmp (entry_key (es ! r)) (entry_key (es ! (r + j))) < 0"
    proof (cases "j = 0")
      case False
      with j have "r < r + j" "r + j < length es" by simp_all
      with s show ?thesis by (simp add: entries_sorted_def sorted_wrt_iff_nth_less)
    qed simp
    ultimately show ?thesis using j(2) tree_orderD(5) [OF o, of k "entry_key (es ! r)" "entry_key (es ! (r + j))"] by auto
  qed
qed

lemma kid_range:
  assumes o: "tree_order cmp" and rng: "\<And>e. e \<in> set es \<Longrightarrow> in_range cmp lo hi (entry_key e)" and r: "r \<le> length es"
    and x: "kids lo hi p es ! r = (l, u, c)" and k: "in_range cmp l u k"
  shows "in_range cmp lo hi k"
proof -
  note n = kids_nth [OF r, of lo hi p, unfolded x]
  have "in_range cmp lo u k"
  proof (cases "r = 0")
    case False
    then have l: "l = Some (entry_key (es ! (r - 1)))" using n by simp
    have "in_range cmp lo u (entry_key (es ! (r - 1)))"
    proof -
      have a: "in_range cmp lo hi (entry_key (es ! (r - 1)))" using rng False r by simp
      have "cmp (entry_key (es ! (r - 1))) u' < 0" if "u = Some u'" for u'
        using k l that tree_orderD(6) [OF o, of "entry_key (es ! (r - 1))" k u'] by (simp add: in_range_def)
      with a show ?thesis by (auto simp: in_range_def split: option.splits)
    qed
    with k l show ?thesis using in_range_widen_low [OF o] by blast
  qed (use n k in simp)
  moreover have "u = hi \<or> (\<exists>s. u = Some s \<and> in_range cmp lo hi s)" using n rng r by auto
  ultimately show ?thesis using in_range_widen_high [OF o] by blast
qed

lemma tree_child_split:
  assumes o: "tree_order cmp" and t: "bt_tree cmp m N (Suc h) lo hi a" and r: "r < length (child_ptrs (N a))"
    and x: "kids lo hi (bn_ptr_left (N a)) (bn_entries (N a)) ! r = (l, u, child_ptrs (N a) ! r)"
    and k: "others_kept N N' h a r"
    and c: "bt_tree cmp m N' h l (Some (entry_key e)) (child_ptrs (N a) ! r)" "bt_tree cmp m N' h (Some (entry_key e)) u (be_ptr e)"
    and e: "strictly_in cmp l u (entry_key e)" "be_flags e = 0 \<or> be_flags e = KEY_IS_EXTENDED8" "ext_ok e"
    and na: "a \<notin> pages N' h (child_ptrs (N a) ! r)" "a \<notin> pages N' h (be_ptr e)"
      "\<And>i. i < length (child_ptrs (N a)) \<Longrightarrow> a \<notin> pages N h (child_ptrs (N a) ! i)"
    and N'': "bn_ptr_left (N'' a) = bn_ptr_left (N a)" "bn_entries (N'' a) = take r (bn_entries (N a)) @ e # drop r (bn_entries (N a))"
      "\<And>b. b \<noteq> a \<Longrightarrow> body (N'' b) = body (N' b)"
  shows "over_tree cmp m N'' (Suc h) lo hi a"
    "contents N'' (Suc h) a = concat (map (contents N h) (take r (child_ptrs (N a)))) @ contents N' h (child_ptrs (N a) ! r) @
       contents N' h (be_ptr e) @ concat (map (contents N h) (drop (Suc r) (child_ptrs (N a))))"
    "j \<le> h \<Longrightarrow> level N'' (Suc h) j a = before N h a r j @ level N' h j (child_ptrs (N a) ! r) @ level N' h j (be_ptr e) @ behind N h a r j"
proof -
  let ?es = "bn_entries (N a)" and ?cs = "child_ptrs (N a)" and ?ks = "kids lo hi (bn_ptr_left (N a)) (bn_entries (N a))"
  note d = others_keptD [OF k] and ol = others_levels [OF k]
  have r': "r \<le> length ?es" using r by (simp add: child_ptrs_def)
  have s: "entries_sorted cmp ?es" "\<And>x. x \<in> set ?es \<Longrightarrow> in_range cmp lo hi (entry_key x) \<and> ext_ok x"
    "\<And>x. x \<in> set ?es \<Longrightarrow> be_flags x = 0 \<or> be_flags x = KEY_IS_EXTENDED8" "a \<noteq> 0" "bn_ptr_left (N a) \<noteq> 0"
    using t by (auto simp: node_ok_def inner_ok_def)
  have na': "a \<notin> pages N' h (?cs ! i)" if "i < length ?cs" for i
    using na(1,3) d(6) [OF that] that by (cases "i = r") auto
  have fr: "contents N'' h b = contents N' h b" "level N'' h q b = level N' h q b" "bt_tree cmp m N'' h lo' hi' b = bt_tree cmp m N' h lo' hi' b"
    if "a \<notin> pages N' h b" for b q lo' hi'
  proof -
    have f: "\<And>x. x \<in> pages N' h b \<Longrightarrow> body (N'' x) = body (N' x)" using N''(3) that by metis
    show "contents N'' h b = contents N' h b" "level N'' h q b = level N' h q b"
      "bt_tree cmp m N'' h lo' hi' b = bt_tree cmp m N' h lo' hi' b"
      using frame [of N' h b N'', OF f] by auto
  qed
  have cp: "child_ptrs (N'' a) = take r ?cs @ ?cs ! r # be_ptr e # drop (Suc r) ?cs"
  proof -
    have "child_ptrs (N'' a) = take (Suc r) ?cs @ be_ptr e # drop (Suc r) ?cs"
      using N''(1,2) by (simp add: child_ptrs_def take_map drop_map)
    then show ?thesis using take_Suc_conv_app_nth [OF r] by simp
  qed
  have nt: "a \<notin> pages N' h b" if "b \<in> set (take r ?cs) \<or> b \<in> set (drop (Suc r) ?cs)" for b
  proof -
    have "b \<in> set ?cs" using that in_set_takeD in_set_dropD by metis
    then show ?thesis using na' by (auto simp: in_set_conv_nth)
  qed
  have mt: "map (contents N'' h) (take r ?cs) = map (contents N' h) (take r ?cs)"
    "map (contents N'' h) (drop (Suc r) ?cs) = map (contents N' h) (drop (Suc r) ?cs)"
    "map (level N'' h q) (take r ?cs) = map (level N' h q) (take r ?cs)"
    "map (level N'' h q) (drop (Suc r) ?cs) = map (level N' h q) (drop (Suc r) ?cs)" for q
    by (intro map_cong refl fr nt; simp)+
  show "contents N'' (Suc h) a = concat (map (contents N h) (take r ?cs)) @ contents N' h (?cs ! r) @
       contents N' h (be_ptr e) @ concat (map (contents N h) (drop (Suc r) ?cs))"
    unfolding contents_simps cp map_append list.map mt fr(1) [OF na(1)] fr(1) [OF na(2)] concat_append concat.simps ol(3,4) by simp
  show "level N'' (Suc h) j a = before N h a r j @ level N' h j (?cs ! r) @ level N' h j (be_ptr e) @ behind N h a r j" if "j \<le> h"
  proof -
    have "level N'' (Suc h) j a = concat (map (level N'' h j) (child_ptrs (N'' a)))" using that by simp
    also have "\<dots> = before N' h a r j @ level N' h j (?cs ! r) @ level N' h j (be_ptr e) @ behind N' h a r j"
      unfolding cp map_append list.map mt fr(2) [OF na(1)] fr(2) [OF na(2)] concat_append concat.simps before_def behind_def d(3) by simp
    finally show ?thesis unfolding ol .
  qed
  have sb: "cmp (entry_key y) (entry_key e) < 0" if "y \<in> set (take r ?es)" for y
    using strictly_between(1) [OF o s(1) r' x e(1)] that .
  have sa: "cmp (entry_key e) (entry_key y) < 0" if "y \<in> set (drop r ?es)" for y
    using strictly_between(2) [OF o s(1) r' x e(1)] that .
  have srt: "entries_sorted cmp (take r ?es @ e # drop r ?es)"
  proof -
    have "entries_sorted cmp (take r ?es @ drop r ?es)" using s(1) by simp
    then show ?thesis using sa sb unfolding entries_sorted_simps by auto
  qed
  have mem: "x \<in> set ?es" if "x \<in> set (take r ?es) \<or> x \<in> set (drop r ?es)" for x
    using that by (meson in_set_takeD in_set_dropD)
  have er: "in_range cmp lo hi (entry_key e)"
    by (rule kid_range [OF o _ r' x]) (use s(2) e(1) in \<open>auto simp: strictly_in_def\<close>)
  have "\<forall>y \<in> set (take r ?es @ e # drop r ?es). in_range cmp lo hi (entry_key y) \<and> ext_ok y \<and>
      (be_flags y = 0 \<or> be_flags y = KEY_IS_EXTENDED8)"
    using mem s(2,3) e(2,3) er by auto
  moreover have "\<forall>y \<in> set (kids lo hi (bn_ptr_left (N'' a)) (bn_entries (N'' a))).
      bt_tree cmp m N'' h (fst y) (fst (snd y)) (snd (snd y))"
  proof
    fix y assume "y \<in> set (kids lo hi (bn_ptr_left (N'' a)) (bn_entries (N'' a)))"
    then consider "y \<in> set (take r ?ks) \<or> y \<in> set (drop (Suc r) ?ks)" | "y = (l, Some (entry_key e), ?cs ! r)"
      | "y = (Some (entry_key e), u, be_ptr e)"
      unfolding N'' kids_insert [OF r' x] by auto
    then show "bt_tree cmp m N'' h (fst y) (fst (snd y)) (snd (snd y))"
    proof cases
      case 1
      then obtain i where i: "i < length ?ks" "i \<noteq> r" "y = ?ks ! i"
      proof
        assume "y \<in> set (take r ?ks)"
        then show ?thesis using that by (auto simp: in_set_conv_nth)
      next
        assume "y \<in> set (drop (Suc r) ?ks)"
        then obtain j where "j < length ?ks - Suc r" "y = ?ks ! (Suc r + j)"
          by (auto simp: in_set_conv_nth [of _ "drop (Suc r) ?ks"])
        then show ?thesis by (intro that [of "Suc r + j"]) auto
      qed
      have ic: "i < length ?cs" using i(1) by (simp add: child_ptrs_def)
      have p: "snd (snd y) = ?cs ! i"
        using kids_nth [of i ?es lo hi "bn_ptr_left (N a)"] i by (simp add: child_ptrs_def)
      show ?thesis unfolding p fr(3) [OF na' [OF ic]] d(7) [OF ic i(2)] using bt_tree_kid [OF t ic] i(3) by simp
    next
      case 2
      then show ?thesis using fr(3) [OF na(1)] c(1) by simp
    next
      case 3
      then show ?thesis using fr(3) [OF na(2)] c(2) by simp
    qed
  qed
  ultimately show "over_tree cmp m N'' (Suc h) lo hi a"
    using srt s(4,5) by (simp add: N'' node_ok_def inner_ok_def)
qed

section \<open>Splitting a node\<close>

lemma tree_split:
  assumes o: "tree_order cmp" and t: "over_tree cmp m N h lo hi a" and es: "bn_entries (N a) = A @ pe # B"
    and ne: "A \<noteq> []" "0 < h \<Longrightarrow> B \<noteq> []" and len: "length A \<le> m" "length B + (if h = 0 then 1 else 0) \<le> m"
    and y: "y \<noteq> 0" "y \<notin> pages N h a"
    and na: "\<And>g c. h = Suc g \<Longrightarrow> c \<in> set (child_ptrs (N a)) \<Longrightarrow> a \<notin> pages N g c"
    and N': "bn_ptr_left (N' a) = bn_ptr_left (N a)" "bn_entries (N' a) = A"
      "bn_ptr_left (N' y) = (if h = 0 then 0 else be_ptr pe)" "bn_entries (N' y) = (if h = 0 then pe # B else B)"
      "\<And>b. b \<noteq> a \<Longrightarrow> b \<noteq> y \<Longrightarrow> body (N' b) = body (N b)"
  shows "bt_tree cmp m N' h lo (Some (entry_key pe)) a" "bt_tree cmp m N' h (Some (entry_key pe)) hi y"
    "contents N' h a @ contents N' h y = contents N h a" "j < h \<Longrightarrow> level N' h j a @ level N' h j y = level N h j a"
    "pages N' h a \<union> pages N' h y = insert y (pages N h a)" "strictly_in cmp lo hi (entry_key pe)"
proof -
  have nd: "entries_sorted cmp (A @ pe # B)" "\<And>e. e \<in> set (A @ pe # B) \<Longrightarrow> in_range cmp lo hi (entry_key e) \<and> ext_ok e" "a \<noteq> 0"
    using t es by (cases h; auto simp: node_ok_def)+
  have pe: "in_range cmp lo hi (entry_key pe)" using nd(2) by simp
  obtain x A' where A: "A = x # A'" using ne(1) by (cases A) auto
  show sin: "strictly_in cmp lo hi (entry_key pe)"
    unfolding strictly_in_def
  proof (intro conjI allI impI pe)
    fix l assume "lo = Some l"
    then have "cmp l (entry_key x) \<le> 0" using nd(2) A by (auto simp: in_range_def)
    moreover have "cmp (entry_key x) (entry_key pe) < 0" using nd(1) A by simp
    ultimately show "cmp l (entry_key pe) < 0" by (rule tree_orderD(6) [OF o])
  qed
  have left: "node_ok cmp m lo (Some (entry_key pe)) (N' a)"
    using nd len(1) N'(2) by (auto simp: node_ok_def in_range_def)
  have right: "node_ok cmp m (Some (entry_key pe)) hi (N' y)"
  proof -
    have "in_range cmp (Some (entry_key pe)) hi (entry_key e)" if "e \<in> set (pe # B)" for e
    proof -
      have "cmp (entry_key pe) (entry_key e) \<le> 0" using that nd(1) tree_orderD(3) [OF o, of "entry_key pe" "entry_key pe"] by auto
      moreover have "in_range cmp lo hi (entry_key e)" using that nd(2) [of e] by auto
      ultimately show ?thesis by (simp add: in_range_def)
    qed
    then show ?thesis using nd len(2) N'(4) by (cases "h = 0") (auto simp: node_ok_def)
  qed
  have ay: "a \<noteq> y" using y(2) by (cases h) auto
  have "bt_tree cmp m N' h lo (Some (entry_key pe)) a \<and> bt_tree cmp m N' h (Some (entry_key pe)) hi y \<and>
    contents N' h a @ contents N' h y = contents N h a \<and> (\<forall>j < h. level N' h j a @ level N' h j y = level N h j a) \<and>
    pages N' h a \<union> pages N' h y = insert y (pages N h a)"
  proof (cases h)
    case 0
    then show ?thesis using left right N' t es y(1) nd(3) by auto
  next
    case (Suc g)
    have cp: "child_ptrs (N a) = child_ptrs (N' a) @ child_ptrs (N' y)" using N' es Suc by (simp add: child_ptrs_def)
    have fr: "\<And>x. x \<in> pages N g c \<Longrightarrow> body (N' x) = body (N x)" if "c \<in> set (child_ptrs (N a))" for c
    proof -
      fix x assume "x \<in> pages N g c"
      then have "x \<noteq> a" "x \<noteq> y" using na [OF Suc that] y(2) that Suc by auto
      then show "body (N' x) = body (N x)" by (rule N'(5))
    qed
    have frc: "contents N' g c = contents N g c" "level N' g j c = level N g j c" "pages N' g c = pages N g c"
      "bt_tree cmp m N' g lo' hi' c = bt_tree cmp m N g lo' hi' c" if "c \<in> set (child_ptrs (N a))" for c j lo' hi'
      using frame [of N g c N', OF fr [OF that]] by auto
    have m1: "map (contents N' g) (child_ptrs (N' a) @ child_ptrs (N' y)) = map (contents N g) (child_ptrs (N a))"
      "map (level N' g j) (child_ptrs (N' a) @ child_ptrs (N' y)) = map (level N g j) (child_ptrs (N a))" for j
      unfolding cp [symmetric] by (intro map_cong refl frc; simp)+
    have "contents N' h a @ contents N' h y = concat (map (contents N' g) (child_ptrs (N' a) @ child_ptrs (N' y)))"
      by (simp add: Suc)
    also have "\<dots> = contents N h a" unfolding m1 Suc by simp
    finally have c: "contents N' h a @ contents N' h y = contents N h a" .
    have lv: "level N' h j a @ level N' h j y = level N h j a" if "j < h" for j
    proof -
      have "level N' h j a @ level N' h j y = concat (map (level N' g j) (child_ptrs (N' a) @ child_ptrs (N' y)))"
        using that by (simp add: Suc)
      also have "\<dots> = level N h j a" unfolding m1 using that by (simp add: Suc)
      finally show ?thesis .
    qed
    have pg: "pages N' h a \<union> pages N' h y = insert y (pages N h a)"
    proof -
      have "(\<Union>c \<in> set (child_ptrs (N' a)) \<union> set (child_ptrs (N' y)). pages N' g c) = (\<Union>c \<in> set (child_ptrs (N a)). pages N g c)"
        unfolding cp set_append using frc(3) cp by (intro SUP_cong) auto
      then show ?thesis by (auto simp: Suc)
    qed
    have kk: "kids lo hi (bn_ptr_left (N a)) (bn_entries (N a)) =
        kids lo (Some (entry_key pe)) (bn_ptr_left (N' a)) (bn_entries (N' a)) @
        kids (Some (entry_key pe)) hi (bn_ptr_left (N' y)) (bn_entries (N' y))"
      using N' Suc kids_append [of lo hi "bn_ptr_left (N a)" A pe B] es by simp
    have kt: "bt_tree cmp m N' g (fst x) (fst (snd x)) (snd (snd x))"
      if "x \<in> set (kids lo hi (bn_ptr_left (N a)) (bn_entries (N a)))" for x
      using t that frc(4) [OF kid_ptr [OF that]] by (simp add: Suc)
    have fl: "\<forall>e \<in> set (A @ pe # B). be_flags e = 0 \<or> be_flags e = KEY_IS_EXTENDED8" "bn_ptr_left (N a) \<noteq> 0"
      using t es by (simp_all add: Suc inner_ok_def)
    have pp: "be_ptr pe \<noteq> 0"
    proof -
      have "be_ptr pe \<in> set (child_ptrs (N a))" using es by (simp add: child_ptrs_def)
      then obtain i where i: "i < length (child_ptrs (N a))" "child_ptrs (N a) ! i = be_ptr pe" by (auto simp: in_set_conv_nth)
      have "kids lo hi (bn_ptr_left (N a)) (bn_entries (N a)) ! i \<in> set (kids lo hi (bn_ptr_left (N a)) (bn_entries (N a)))"
        using i(1) by (simp add: child_ptrs_def)
      then have "snd (snd (kids lo hi (bn_ptr_left (N a)) (bn_entries (N a)) ! i)) \<noteq> 0" using kt bt_tree_nonzero by blast
      then show ?thesis
        using i kids_nth [of i "bn_entries (N a)" lo hi "bn_ptr_left (N a)"] by (simp add: child_ptrs_def less_Suc_eq_le)
    qed
    have "bt_tree cmp m N' h lo (Some (entry_key pe)) a"
      using left kt kk fl nd(3) ne(1) N'(1,2) by (simp add: Suc inner_ok_def)
    moreover have "bt_tree cmp m N' h (Some (entry_key pe)) hi y"
      using right kt kk fl y(1) ne(2) N'(3,4) pp by (simp add: Suc inner_ok_def)
    ultimately show ?thesis using c lv pg by blast
  qed
  then show "bt_tree cmp m N' h lo (Some (entry_key pe)) a" "bt_tree cmp m N' h (Some (entry_key pe)) hi y"
    "contents N' h a @ contents N' h y = contents N h a" "j < h \<Longrightarrow> level N' h j a @ level N' h j y = level N h j a"
    "pages N' h a \<union> pages N' h y = insert y (pages N h a)" by auto
qed

end
