(* ===== verification/Ham_Bt_Insert.thy ===== *)
theory Ham_Bt_Insert
  imports Ham_Bt_Find Ham_Bt_Surgery
begin

text \<open>
  Inserting a key, \<open>src/btree_insert.cc\<close>: insertion into a node that has room, the split of
  a full node, the recursive descent that propagates splits, a new root, and the append and
  prepend fast path, with the hints that \<open>btree_insert_get_hints\<close> of \<open>src/btree_stats.cc\<close> derives from
  the statistics. The update of the statistics after the insertion is not modelled: the statistics are an
  argument of each insertion.

  The theorems of this theory are that an insertion keeps the invariant of the tree and
  changes the ordered list of its entries in exactly one place, for every height and shape of
  the tree, and what a failing insertion leaves behind.
\<close>

section \<open>State of an insertion\<close>

record insert_hints =
  ih_flags :: u32
  ih_original_flags :: u32
  ih_try_fast_track :: bool
  ih_force_append :: bool
  ih_force_prepend :: bool
  ih_leaf_page_addr :: u64
  ih_processed :: "(u64 \<times> nat) option"

text \<open>
  The scratchpad (\<open>is_key\<close> and \<open>is_rid\<close> carry a split upwards, \<open>is_cursor\<close> is the duplicate id
  of the cursor, if there still is one), the hints, where the cursor was coupled (page, slot and
  duplicate) and the tree.
\<close>

record 'r insert_state =
  is_key :: "byte list"
  is_rid :: u64
  is_cursor :: "nat option"
  is_hints :: insert_hints
  is_coupled :: "(u64 \<times> nat \<times> nat) option"
  is_tree :: "'r btree"

definition SPLIT :: int where "SPLIT = 1"

definition DUPLICATE_KEY :: int where "DUPLICATE_KEY = ham_status_code HAM_DUPLICATE_KEY"

definition zero_btkey :: bt_entry where
  "zero_btkey = \<lparr>be_ptr = 0, be_size = 0, be_flags = 0, be_data = [], be_ext = 0\<rparr>"

definition set_entries :: "u64 \<Rightarrow> bt_entry list \<Rightarrow> 'r btree \<Rightarrow> 'r btree" where
  "set_entries page es T = T\<lparr>bt_nodes := (bt_nodes T)(page := (bt_nodes T page)\<lparr>bn_entries := es\<rparr>)\<rparr>"

section \<open>Hints from the statistics\<close>

text \<open>
  What \<open>btree_insert_get_hints\<close> reads: the counters of the insert operations, the smallest and the greatest
  key that are known with the pages they are in, and whether the last insertion was at an end of the tree.
\<close>

record insert_stats =
  op_last_page_addr :: u64
  op_last_page_sq_hits :: u32
  op_hinting_fail_count :: u32
  op_hinting_count :: u32
  lower_bound :: "byte list"
  lower_bound_index :: u32
  lower_bound_page_address :: u64
  lower_bound_set :: bool
  upper_bound :: "byte list"
  upper_bound_page_address :: u64
  upper_bound_set :: bool
  last_insert_was_append :: bool
  last_insert_was_prepend :: bool

definition HAM_HINT_SEQUENTIAL :: u32 where "HAM_HINT_SEQUENTIAL = 0x10000"
definition HAM_HINT_UBER_FAST_ACCESS :: u32 where "HAM_HINT_UBER_FAST_ACCESS = 0x40000"
definition HAM_HINT_APPEND :: u32 where "HAM_HINT_APPEND = 0x80000"
definition HAM_HINT_PREPEND :: u32 where "HAM_HINT_PREPEND = 0x100000"
definition HAM_HINTS_MASK :: u32 where "HAM_HINTS_MASK = 0xFF0000"

text \<open>The leaf of a cursor that is coupled is hinted if it is the last one (or the first one).\<close>

definition hint_cursor :: "'r btree \<Rightarrow> u64 option \<Rightarrow> insert_hints \<Rightarrow> insert_hints" where
  "hint_cursor T coupled hints =
     (case coupled of
        None \<Rightarrow> hints
      | Some page \<Rightarrow>
          if ih_flags hints AND HAM_HINT_APPEND \<noteq> 0 then
            (if bn_right (bt_nodes T page) \<noteq> 0 then hints\<lparr>ih_force_append := False, ih_try_fast_track := False\<rparr>
             else hints\<lparr>ih_leaf_page_addr := page, ih_force_append := True, ih_try_fast_track := True\<rparr>)
          else if ih_flags hints AND HAM_HINT_PREPEND \<noteq> 0 then
            (if bn_left (bt_nodes T page) \<noteq> 0 then hints\<lparr>ih_force_prepend := False, ih_try_fast_track := False\<rparr>
             else hints\<lparr>ih_leaf_page_addr := page, ih_force_prepend := True, ih_try_fast_track := True\<rparr>)
          else hints)"

text \<open>The last page if few hints failed, then the page of the smallest or of the greatest key.\<close>

definition hint_near :: "'r bt_ctx \<Rightarrow> insert_stats \<Rightarrow> byte list \<Rightarrow> insert_hints \<Rightarrow> insert_hints" where
  "hint_near X D key hints =
     (let h1 = (if op_hinting_fail_count D * 1000 div (1 + op_hinting_count D) < 200
                then hints\<lparr>ih_leaf_page_addr := op_last_page_addr D, ih_try_fast_track := True, ih_force_append := True\<rparr> else hints);
          h2 = (if lower_bound_set D \<and> (lower_bound_index D = 1 \<or> bx_compare X key (lower_bound D) < 0)
                then h1\<lparr>ih_force_prepend := True, ih_leaf_page_addr := lower_bound_page_address D, ih_try_fast_track := True\<rparr> else h1)
      in if upper_bound_set D \<and> bx_compare X key (upper_bound D) > 0
         then h2\<lparr>ih_force_append := True, ih_leaf_page_addr := upper_bound_page_address D, ih_try_fast_track := True\<rparr> else h2)"

text \<open>The flags: a hint to append or to prepend becomes a sequential one, without a hint the access mode of the database counts.\<close>

definition hint_flags :: "'r bt_ctx \<Rightarrow> u32 \<Rightarrow> u32" where
  "hint_flags X flags =
     (let f1 = (if flags AND (HAM_HINT_APPEND OR HAM_HINT_PREPEND) \<noteq> 0
                then (flags AND NOT (HAM_HINT_APPEND OR HAM_HINT_PREPEND)) OR HAM_HINT_SEQUENTIAL else flags)
      in if f1 AND HAM_HINTS_MASK = 0 \<and> bx_sequential X then f1 OR HAM_HINT_SEQUENTIAL else f1)"

definition hint_statistics :: "'r bt_ctx \<Rightarrow> insert_stats \<Rightarrow> byte list \<Rightarrow> insert_hints \<Rightarrow> insert_hints" where
  "hint_statistics X D key hints =
     (let h = hints\<lparr>ih_flags := hint_flags X (ih_flags hints)\<rparr>;
          last_page = h\<lparr>ih_leaf_page_addr := op_last_page_addr D, ih_try_fast_track := True\<rparr>
      in if ih_flags h AND HAM_HINTS_MASK = HAM_HINT_SEQUENTIAL then
           (if unat (op_last_page_sq_hits D) \<ge> 3 then last_page else hint_near X D key h)
         else if ih_flags h AND HAM_HINTS_MASK = HAM_HINT_SEQUENTIAL OR HAM_HINT_UBER_FAST_ACCESS then
           (if unat (op_last_page_sq_hits D) \<ge> 1 then last_page else hint_near X D key h)
         else h)"

definition hint_last_insert :: "insert_stats \<Rightarrow> insert_hints \<Rightarrow> insert_hints" where
  "hint_last_insert D hints =
     hints\<lparr>ih_flags := (if last_insert_was_append D then ih_flags hints OR HAM_HINT_APPEND
        else if last_insert_was_prepend D then ih_flags hints OR HAM_HINT_PREPEND else ih_flags hints)\<rparr>"

text \<open>\<open>coupled\<close> is the page of the cursor, if there is a cursor and it is coupled.\<close>

definition btree_insert_get_hints ::
  "'r bt_ctx \<Rightarrow> insert_stats \<Rightarrow> 'r btree \<Rightarrow> u64 option \<Rightarrow> byte list \<Rightarrow> insert_hints \<Rightarrow> insert_hints" where
  "btree_insert_get_hints X D T coupled key hints =
     (let h1 = hint_cursor T coupled (hint_last_insert D hints)
      in if ih_try_fast_track h1 then h1 else hint_statistics X D key h1)"

section \<open>Insertion into a node with room\<close>

text \<open>
  \<open>__insert_nosplit\<close>, first the slot: the left result is an early return, the right one the
  slot and whether it already holds the key.
\<close>

definition nosplit_slot :: "'r bt_ctx \<Rightarrow> bt_node \<Rightarrow> byte list \<Rightarrow> insert_hints \<Rightarrow> (int + nat \<times> bool) option" where
  "nosplit_slot X n key hints =
     (if btree_node_get_count n = 0 then Some (Inr (0, False))
      else if ih_force_append hints then Some (Inr (btree_node_get_count n, False))
      else if ih_force_prepend hints then Some (Inr (0, False))
      else
        (case btree_get_slot X n key of
           None \<Rightarrow> None
         | Some (st, slot, cmp) \<Rightarrow>
             if st \<noteq> 0 then Some (Inl st)
             else if slot = -1 then Some (Inr (0, False))
             else if cmp = 0 then
               (if ih_flags hints AND HAM_OVERWRITE \<noteq> 0 then
                  (if \<not> btree_node_is_leaf n then Some (Inl 0) else Some (Inr (nat slot, True)))
                else if ih_flags hints AND HAM_DUPLICATE = 0 then Some (Inl DUPLICATE_KEY)
                else Some (Inr (nat slot, True)))
             else Some (Inr (nat (if cmp > 0 then slot + 1 else slot), False))))"

text \<open>
  Then the entry. The entries behind the slot are shifted and the slot is cleared before the
  record and the extended key are stored, and the count is raised last: a failure in between
  leaves \<open>count\<close> entries.
\<close>

definition nosplit_at ::
  "'r bt_ctx \<Rightarrow> u64 \<Rightarrow> byte list \<Rightarrow> u64 \<Rightarrow> nat \<Rightarrow> bool \<Rightarrow> 'r insert_state \<Rightarrow> int \<times> 'r insert_state" where
  "nosplit_at X page key rid slot exists S =
     (let T = is_tree S; n = bt_nodes T page; es = bn_entries n; count = length es; leaf = btree_node_is_leaf n;
          shift = (\<not> exists \<and> slot < count); unc = bx_uncouple X page slot
      in if shift \<and> unc \<noteq> 0 then (unc, S)
         else
           (let es1 = (if exists then es else take slot es @ zero_btkey # drop slot es);
                e1 = es1 ! slot;
                (st, (ptr, fl), dupe, env) =
                  (if leaf then bx_set_record X (be_ptr e1, be_flags e1)
                                  (case is_cursor S of Some d \<Rightarrow> d | None \<Rightarrow> 0) (ih_flags (is_hints S)) (bt_env T)
                   else (0, (rid, be_flags e1), 0, bt_env T));
                e2 = e1\<lparr>be_ptr := ptr, be_flags := fl\<rparr>;
                S1 = S\<lparr>is_tree := (set_entries page (take count (es1[slot := e2])) T)\<lparr>bt_env := env\<rparr>\<rparr>
            in if st \<noteq> 0 then (st, S1)
               else
                 (let ext = (length key > unat (bt_keysize T));
                      e3 = e2\<lparr>be_size := length key, be_flags := (if ext then fl OR KEY_IS_EXTENDED8 else fl)\<rparr>;
                      S2 = S1\<lparr>is_hints := (if leaf then (is_hints S)\<lparr>ih_processed := Some (page, slot)\<rparr> else is_hints S),
                              is_coupled := (if is_cursor S = None then is_coupled S else Some (page, slot, dupe)),
                              is_tree := (set_entries page (take count (es1[slot := e3])) (is_tree S1))
                                \<lparr>bt_dirty_pages := insert page (bt_dirty_pages T)\<rparr>\<rparr>
                  in if exists then (0, S2)
                     else if ext then
                       (case bx_insert_extended X key env of
                          (st, blobid, env') \<Rightarrow>
                            if blobid = 0 then
                              (if st \<noteq> 0 then st else ham_status_code HAM_INTERNAL_ERROR,
                               S2\<lparr>is_tree := (set_entries page (take count (es1[slot := e3\<lparr>be_data := key\<rparr>])) (is_tree S2))
                                    \<lparr>bt_env := env'\<rparr>\<rparr>)
                            else
                              (0, S2\<lparr>is_tree := (set_entries page (es1[slot := e3\<lparr>be_data := key, be_ext := blobid\<rparr>]) (is_tree S2))
                                       \<lparr>bt_env := env'\<rparr>\<rparr>))
                     else (0, S2\<lparr>is_tree := set_entries page (es1[slot := e3\<lparr>be_data := key\<rparr>]) (is_tree S2)\<rparr>))))"

definition insert_nosplit ::
  "'r bt_ctx \<Rightarrow> u64 \<Rightarrow> byte list \<Rightarrow> u64 \<Rightarrow> 'r insert_state \<Rightarrow> (int \<times> 'r insert_state) option" where
  "insert_nosplit X page key rid S =
     (case nosplit_slot X (bt_nodes (is_tree S) page) key (is_hints S) of
        None \<Rightarrow> None
      | Some (Inl st) \<Rightarrow> Some (st, S)
      | Some (Inr (slot, exists)) \<Rightarrow> Some (nosplit_at X page key rid slot exists S))"

section \<open>Splitting a node\<close>

definition split_pivot :: "'r bt_ctx \<Rightarrow> bt_node \<Rightarrow> byte list \<Rightarrow> nat" where
  "split_pivot X n key =
     (let count = btree_node_get_count n
      in if bx_sequential X \<or> bn_right n = 0 \<and> btree_compare_keys X n key (count - 1) > 0
         then count - 2 else count div 2)"

text \<open>
  \<open>__insert_split\<close>. A new page takes the upper half of the entries, of an inner node without the
  pivot, whose pointer becomes the leftmost child of the new page. The new entry is
  inserted into its half, the pages are linked, and the pivot key goes up.
\<close>

definition insert_split ::
  "'r bt_ctx \<Rightarrow> u64 \<Rightarrow> byte list \<Rightarrow> u64 \<Rightarrow> 'r insert_state \<Rightarrow> (int \<times> 'r insert_state) option" where
  "insert_split X page key rid S =
     (let T = is_tree S
      in case bx_alloc X TYPE_B_INDEX (bt_env T) of
           (st, newpage, env) \<Rightarrow>
             if st \<noteq> 0 then Some (st, S\<lparr>is_tree := T\<lparr>bt_env := env\<rparr>\<rparr>)
             else
               (let T1 = T\<lparr>bt_env := env, bt_nodes := (bt_nodes T)(newpage := empty_node),
                           bt_types := (bt_types T)(newpage := TYPE_B_INDEX)\<rparr>;
                    n = bt_nodes T page; es = bn_entries n; leaf = btree_node_is_leaf n;
                    pivot = split_pivot X n key; pe = es ! pivot;
                    unc = bx_uncouple X page pivot; cst = bx_copy_key X pe
                in if unc \<noteq> 0 then Some (unc, S\<lparr>is_tree := T1\<rparr>)
                   else if cst \<noteq> 0 then Some (cst, S\<lparr>is_tree := T1\<lparr>bt_env := bx_free X newpage env\<rparr>\<rparr>)
                   else
                     (let T2 = T1\<lparr>bt_nodes := (bt_nodes T1)
                                 (page := n\<lparr>bn_entries := take pivot es\<rparr>,
                                  newpage := empty_node\<lparr>bn_ptr_left := (if leaf then 0 else be_ptr pe),
                                     bn_entries := (if leaf then drop pivot es else drop (Suc pivot) es)\<rparr>)\<rparr>;
                          cmp = bx_compare X key (entry_key pe)
                      in if cmp < -1 then Some (cmp, S\<lparr>is_tree := T2\<rparr>)
                         else
                           (case insert_nosplit X (if cmp \<ge> 0 then newpage else page) key rid (S\<lparr>is_tree := T2\<rparr>) of
                              None \<Rightarrow> None
                            | Some (st, S3) \<Rightarrow>
                                if st \<noteq> 0 then Some (st, S3)
                                else
                                  (let sib = bn_right (bt_nodes (is_tree S3) page); S4 = S3\<lparr>is_cursor := None\<rparr>
                                   in if sib \<noteq> 0 \<and> bx_fetch X sib \<noteq> 0 then Some (bx_fetch X sib, S4)
                                      else
                                        Some (SPLIT, S4\<lparr>is_key := entry_key pe, is_rid := newpage,
                                          is_tree := (is_tree S4)\<lparr>bt_nodes := link_after page newpage (bt_nodes (is_tree S4)),
                                            bt_dirty_pages := (if sib \<noteq> 0 then insert sib else id)
                                              (insert page (insert newpage (bt_dirty_pages (is_tree S4))))\<rparr>\<rparr>))))))"

section \<open>Descent\<close>

definition insert_in_page ::
  "'r bt_ctx \<Rightarrow> u64 \<Rightarrow> byte list \<Rightarrow> u64 \<Rightarrow> 'r insert_state \<Rightarrow> (int \<times> 'r insert_state) option" where
  "insert_in_page X page key rid S =
     (let n = bt_nodes (is_tree S) page;
          nosplit = map_option (\<lambda>(st, S'). (st, S'\<lparr>is_cursor := None\<rparr>)) (insert_nosplit X page key rid S)
      in if btree_node_get_count n < bt_maxkeys (is_tree S) then nosplit
         else if btree_node_is_leaf n then
           (case btree_node_search_by_key X n key 0 HAM_FIND_EXACT_MATCH of
              None \<Rightarrow> None
            | Some (idx, _) \<Rightarrow>
                if idx \<ge> 0 then
                  (if ih_flags (is_hints S) AND (HAM_OVERWRITE OR HAM_DUPLICATE) = 0 then Some (DUPLICATE_KEY, S) else nosplit)
                else insert_split X page key rid S)
         else insert_split X page key rid S)"

partial_function (option) insert_recursive ::
  "'r bt_ctx \<Rightarrow> u64 \<Rightarrow> byte list \<Rightarrow> u64 \<Rightarrow> 'r insert_state \<Rightarrow> (int \<times> 'r insert_state) option" where
  "insert_recursive X page key rid S =
     (let n = bt_nodes (is_tree S) page
      in if btree_node_is_leaf n then insert_in_page X page key rid S
         else
           (case btree_traverse_tree X n key of
              None \<Rightarrow> None
            | Some (st, _, child) \<Rightarrow>
                (case child of
                   None \<Rightarrow> Some (if st \<noteq> 0 then st else ham_status_code HAM_INTERNAL_ERROR, S)
                 | Some c \<Rightarrow>
                     Option.bind (insert_recursive X c key rid S) (\<lambda>(st, S1).
                       if st = SPLIT then
                         map_option (\<lambda>(st, S2).
                             (st, S2\<lparr>is_hints := (is_hints S2)\<lparr>ih_flags := ih_original_flags (is_hints S2)\<rparr>\<rparr>))
                           (insert_in_page X page (is_key S1) (is_rid S1)
                             (S1\<lparr>is_hints := (is_hints S1)\<lparr>ih_flags := ih_flags (is_hints S1) OR HAM_OVERWRITE\<rparr>\<rparr>))
                       else Some (st, S1)))))"

declare insert_recursive.simps [code]

text \<open>\<open>__insert_cursor\<close>: the descent from the root, and a new root when it was split.\<close>

definition insert_cursor :: "'r bt_ctx \<Rightarrow> byte list \<Rightarrow> 'r insert_state \<Rightarrow> (int \<times> 'r insert_state) option" where
  "insert_cursor X key S =
     (let root = bt_rootpage (is_tree S)
      in if bx_fetch X root \<noteq> 0 then Some (bx_fetch X root, S)
         else
           (case insert_recursive X root key 0 S of
              None \<Rightarrow> None
            | Some (st, S1) \<Rightarrow>
                if st \<noteq> SPLIT then Some (st, S1)
                else
                  (let T1 = is_tree S1
                   in case bx_alloc X TYPE_B_ROOT (bt_env T1) of
                        (st, newroot, env) \<Rightarrow>
                          if st \<noteq> 0 then Some (st, S1\<lparr>is_tree := T1\<lparr>bt_env := env\<rparr>\<rparr>)
                          else
                            (let T2 = T1\<lparr>bt_env := env,
                                   bt_nodes := (bt_nodes T1)(newroot := empty_node\<lparr>bn_ptr_left := bt_rootpage T1\<rparr>),
                                   bt_types := (bt_types T1)(newroot := TYPE_B_ROOT)\<rparr>
                             in case insert_nosplit X newroot (is_key S1) (is_rid S1) (S1\<lparr>is_tree := T2\<rparr>) of
                                  None \<Rightarrow> None
                                | Some (st, S3) \<Rightarrow>
                                    if st \<noteq> 0 then Some (st, S3\<lparr>is_cursor := None\<rparr>)
                                    else
                                      (let T3 = snd (btree_flush ((is_tree S3)
                                                  \<lparr>bt_rootpage := newroot, bt_dirty := True, bt_env_dirty := True\<rparr>))
                                       in Some (0, S3\<lparr>is_cursor := None, is_tree := T3\<lparr>
                                            bt_header_logged := (bx_recovery X \<or> bt_header_logged T3),
                                            bt_types := (bt_types T3)(root := TYPE_B_INDEX),
                                            bt_dirty_pages := insert root (insert newroot (bt_dirty_pages T3))\<rparr>\<rparr>))))))"

section \<open>Appending\<close>

definition no_force :: "'r insert_state \<Rightarrow> 'r insert_state" where
  "no_force S = S\<lparr>is_hints := (is_hints S)\<lparr>ih_force_append := False, ih_force_prepend := False\<rparr>\<rparr>"

definition force :: "bool \<Rightarrow> bool \<Rightarrow> 'r insert_state \<Rightarrow> 'r insert_state" where
  "force app prep S = S\<lparr>is_hints := (is_hints S)\<lparr>ih_force_append := app, ih_force_prepend := prep\<rparr>\<rparr>"

text \<open>
  \<open>__append_key\<close> decides from the hinted leaf whether the key goes to its end or its start; the
  left result is a status, the right one whether to insert into this leaf and with which hints.
\<close>

definition append_decision ::
  "'r bt_ctx \<Rightarrow> bt_node \<Rightarrow> byte list \<Rightarrow> bool \<Rightarrow> bool \<Rightarrow> int + (bool \<times> bool) option" where
  "append_decision X n key app prep =
     (if btree_node_get_count n = 0 then Inr (Some (False, True))
      else
        (let hi = (if prep then -1 else btree_compare_keys X n key (btree_node_get_count n - 1))
         in if hi < -1 then Inl hi
            else if \<not> prep \<and> hi > 0 \<and> bn_right n \<noteq> 0 then Inr None
            else
              (let app1 = (app \<or> \<not> prep \<and> hi > 0); prep1 = prep;
                   lo = (if app1 then 1 else btree_compare_keys X n key 0)
               in if lo < -1 then Inl lo
                  else if \<not> app1 \<and> lo < 0 \<and> bn_left n \<noteq> 0 then Inr None
                  else
                    (let prep2 = (prep1 \<or> \<not> app1 \<and> lo < 0)
                     in if lo \<ge> 0 \<and> hi \<le> 0 \<and> (app1 \<or> prep2) then Inr None
                        else Inr (Some (app1, prep2))))))"

definition append_key :: "'r bt_ctx \<Rightarrow> byte list \<Rightarrow> 'r insert_state \<Rightarrow> (int \<times> 'r insert_state) option" where
  "append_key X key S =
     (let hints = is_hints S; page = ih_leaf_page_addr hints; T = is_tree S; n = bt_nodes T page
      in if bx_fetch X page \<noteq> 0 then Some (bx_fetch X page, S)
         else if \<not> bx_cached X page then insert_cursor X key (no_force S)
         else if ih_force_append hints \<and> bn_right n \<noteq> 0 \<or> ih_force_prepend hints \<and> bn_left n \<noteq> 0
                 \<or> btree_node_get_count n \<ge> bt_maxkeys T then insert_cursor X key (no_force S)
         else
           (case append_decision X n key (ih_force_append hints) (ih_force_prepend hints) of
              Inl st \<Rightarrow> Some (st, S)
            | Inr None \<Rightarrow> insert_cursor X key (no_force S)
            | Inr (Some (app, prep)) \<Rightarrow> insert_nosplit X page key 0 (force app prep S)))"

text \<open>
  \<open>btree_insert_cursor\<close>: the hints are computed, then the key is inserted. A cursor is given by its
  duplicate id and the page it is coupled to, if it is coupled.
\<close>

definition insert_with_hints ::
  "'r bt_ctx \<Rightarrow> insert_hints \<Rightarrow> 'r btree \<Rightarrow> byte list \<Rightarrow> nat option \<Rightarrow> (int \<times> 'r insert_state) option" where
  "insert_with_hints X hints T key cursor =
     (let S = \<lparr>is_key = [], is_rid = 0, is_cursor = cursor, is_hints = hints, is_coupled = None, is_tree = T\<rparr>
      in if ih_force_append hints \<or> ih_force_prepend hints then append_key X key S
         else insert_cursor X key (no_force S))"

definition initial_hints :: "u32 \<Rightarrow> insert_hints" where
  "initial_hints flags = \<lparr>ih_flags = flags, ih_original_flags = flags, ih_try_fast_track = False, ih_force_append = False,
     ih_force_prepend = False, ih_leaf_page_addr = 0, ih_processed = None\<rparr>"

definition insert_hints_for ::
  "'r bt_ctx \<Rightarrow> insert_stats \<Rightarrow> 'r btree \<Rightarrow> byte list \<Rightarrow> (nat \<times> u64 option) option \<Rightarrow> u32 \<Rightarrow> insert_hints" where
  "insert_hints_for X D T key cursor flags =
     btree_insert_get_hints X D T (Option.bind cursor snd) key (initial_hints flags)"

definition btree_insert_cursor ::
  "'r bt_ctx \<Rightarrow> insert_stats \<Rightarrow> 'r btree \<Rightarrow> byte list \<Rightarrow> (nat \<times> u64 option) option \<Rightarrow> u32 \<Rightarrow> (int \<times> 'r insert_state) option" where
  "btree_insert_cursor X D T key cursor flags =
     insert_with_hints X (insert_hints_for X D T key cursor flags) T key (map_option fst cursor)"

section \<open>What an insertion relies on\<close>

text \<open>
  The operations of the other modules succeed while there is room: \<open>room n U r\<close> says that \<open>n\<close>
  pages can still be allocated outside of the pages \<open>U\<close>. A new page is not one of \<open>U\<close>, and storing a record
  keeps the mark of an extended key.
\<close>

definition alloc_works :: "'r bt_ctx \<Rightarrow> (nat \<Rightarrow> u64 set \<Rightarrow> 'r \<Rightarrow> bool) \<Rightarrow> bool" where
  "alloc_works X room \<longleftrightarrow>
     (\<forall>t n U r. room (Suc n) U r \<longrightarrow>
        (\<exists>a r'. bx_alloc X t r = (0, a, r') \<and> a \<noteq> 0 \<and> a \<notin> U \<and> room n (insert a U) r'))"

definition set_record_works :: "'r bt_ctx \<Rightarrow> (nat \<Rightarrow> u64 set \<Rightarrow> 'r \<Rightarrow> bool) \<Rightarrow> bool" where
  "set_record_works X room \<longleftrightarrow>
     (\<forall>p fl d flags n U r. room n U r \<longrightarrow>
        (\<exists>p' fl' d' r'. bx_set_record X (p, fl) d flags r = (0, (p', fl'), d', r') \<and> room n U r' \<and>
           fl' AND KEY_IS_EXTENDED8 = fl AND KEY_IS_EXTENDED8))"

definition insert_extended_works :: "'r bt_ctx \<Rightarrow> (nat \<Rightarrow> u64 set \<Rightarrow> 'r \<Rightarrow> bool) \<Rightarrow> bool" where
  "insert_extended_works X room \<longleftrightarrow>
     (\<forall>k n U r. room n U r \<longrightarrow> (\<exists>b r'. bx_insert_extended X k r = (0, b, r') \<and> b \<noteq> 0 \<and> room n U r'))"

definition insert_env :: "'r bt_ctx \<Rightarrow> (nat \<Rightarrow> u64 set \<Rightarrow> 'r \<Rightarrow> bool) \<Rightarrow> bool" where
  "insert_env X room \<longleftrightarrow>
     (\<forall>b. bx_fetch X b = 0) \<and> (\<forall>b i. bx_uncouple X b i = 0) \<and> (\<forall>e. bx_copy_key X e = 0) \<and>
     alloc_works X room \<and> set_record_works X room \<and> insert_extended_works X room"

lemma insert_envD:
  assumes "insert_env X room"
  shows "bx_fetch X b = 0" "bx_uncouple X b i = 0" "bx_copy_key X e = 0"
    "room (Suc n) U r \<Longrightarrow> \<exists>a r'. bx_alloc X t r = (0, a, r') \<and> a \<noteq> 0 \<and> a \<notin> U \<and> room n (insert a U) r'"
    "room n U r \<Longrightarrow> \<exists>p' fl' d' r'. bx_set_record X (p, fl) d flags r = (0, (p', fl'), d', r') \<and> room n U r' \<and>
       fl' AND KEY_IS_EXTENDED8 = fl AND KEY_IS_EXTENDED8"
    "room n U r \<Longrightarrow> \<exists>b r'. bx_insert_extended X k r = (0, b, r') \<and> b \<noteq> 0 \<and> room n U r'"
proof -
  from assms show "bx_fetch X b = 0" "bx_uncouple X b i = 0" "bx_copy_key X e = 0" by (simp_all add: insert_env_def)
  from assms have w: "alloc_works X room" "set_record_works X room" "insert_extended_works X room" by (simp_all add: insert_env_def)
  show "room (Suc n) U r \<Longrightarrow> \<exists>a r'. bx_alloc X t r = (0, a, r') \<and> a \<noteq> 0 \<and> a \<notin> U \<and> room n (insert a U) r'"
    using w(1) by (simp add: alloc_works_def)
  show "room n U r \<Longrightarrow> \<exists>p' fl' d' r'. bx_set_record X (p, fl) d flags r = (0, (p', fl'), d', r') \<and> room n U r' \<and>
       fl' AND KEY_IS_EXTENDED8 = fl AND KEY_IS_EXTENDED8"
    using w(2) by (simp add: set_record_works_def)
  show "room n U r \<Longrightarrow> \<exists>b r'. bx_insert_extended X k r = (0, b, r') \<and> b \<noteq> 0 \<and> room n U r'"
    using w(3) by (simp add: insert_extended_works_def)
qed

text \<open>An entry marked as extended exactly if its key does not fit.\<close>

definition flagged :: "nat \<Rightarrow> bt_entry \<Rightarrow> bool" where
  "flagged ks e \<longleftrightarrow> (be_flags e AND KEY_IS_EXTENDED8 \<noteq> 0 \<longleftrightarrow> length (entry_key e) > ks)"

text \<open>The entry of a key whose record was stored, over what the entry held before.\<close>

definition stored :: "'r bt_ctx \<Rightarrow> nat \<Rightarrow> byte list \<Rightarrow> u64 \<times> byte \<Rightarrow> u32 \<Rightarrow> bt_entry \<Rightarrow> bool" where
  "stored X ks key old flags e \<longleftrightarrow> entry_key e = key \<and> ext_ok e \<and> flagged ks e \<and>
     (\<exists>d r ptr fl d' r'. bx_set_record X old d flags r = (0, (ptr, fl), d', r') \<and> be_ptr e = ptr \<and>
        be_flags e = (if length key > ks then fl OR KEY_IS_EXTENDED8 else fl))"

definition linking :: "nat \<Rightarrow> byte list \<Rightarrow> u64 \<Rightarrow> bt_entry \<Rightarrow> bool" where
  "linking ks key rid e \<longleftrightarrow> entry_key e = key \<and> ext_ok e \<and> be_ptr e = rid \<and> (be_flags e = 0 \<or> be_flags e = KEY_IS_EXTENDED8)"

definition keeps :: "'r insert_state \<Rightarrow> 'r insert_state \<Rightarrow> bool" where
  "keeps S S' \<longleftrightarrow> bt_rootpage (is_tree S') = bt_rootpage (is_tree S) \<and> bt_maxkeys (is_tree S') = bt_maxkeys (is_tree S) \<and>
     bt_keysize (is_tree S') = bt_keysize (is_tree S) \<and>
     ih_force_append (is_hints S') = ih_force_append (is_hints S) \<and> ih_force_prepend (is_hints S') = ih_force_prepend (is_hints S)"

lemma keeps_trans: "keeps S S' \<Longrightarrow> keeps S' S'' \<Longrightarrow> keeps S S''"
  by (simp add: keeps_def)

lemma keeps_refl [simp]: "keeps S S" "keeps S (S\<lparr>is_cursor := c\<rparr>)" "keeps S (S\<lparr>is_key := k, is_rid := y\<rparr>)"
  by (simp_all add: keeps_def)

lemma ext_bit: "(fl OR KEY_IS_EXTENDED8) AND KEY_IS_EXTENDED8 \<noteq> 0"
  by (simp add: KEY_IS_EXTENDED8_def bit.conj_disj_distrib2)

section \<open>A node with room\<close>

lemma nosplit_at_new:
  assumes env: "insert_env X room" and room: "room n U (bt_env (is_tree S))"
    and slot: "slot \<le> length (bn_entries (bt_nodes (is_tree S) a))"
  shows "\<exists>e S'. nosplit_at X a key rid slot False S = (0, S') \<and>
     bt_nodes (is_tree S') = (bt_nodes (is_tree S))(a := (bt_nodes (is_tree S) a)
       \<lparr>bn_entries := take slot (bn_entries (bt_nodes (is_tree S) a)) @ e # drop slot (bn_entries (bt_nodes (is_tree S) a))\<rparr>) \<and>
     room n U (bt_env (is_tree S')) \<and> keeps S S' \<and>
     (if btree_node_is_leaf (bt_nodes (is_tree S) a)
      then stored X (unat (bt_keysize (is_tree S))) key (0, 0) (ih_flags (is_hints S)) e
      else linking (unat (bt_keysize (is_tree S))) key rid e)"
proof -
  let ?T = "is_tree S" and ?es = "bn_entries (bt_nodes (is_tree S) a)" and ?leaf = "btree_node_is_leaf (bt_nodes (is_tree S) a)"
  let ?ks = "unat (bt_keysize (is_tree S))" and ?d = "case is_cursor S of Some d \<Rightarrow> d | None \<Rightarrow> 0"
  note E = insert_envD [OF env]
  obtain p fl d' r1 where sr: "bx_set_record X (0, 0) ?d (ih_flags (is_hints S)) (bt_env ?T) = (0, (p, fl), d', r1)"
    "room n U r1" "fl AND KEY_IS_EXTENDED8 = 0" using E(5) [OF room, of 0 0] by force
  define ptr fl' r2 where "ptr = (if ?leaf then p else rid)" and "fl' = (if ?leaf then fl else 0)" and "r2 = (if ?leaf then r1 else bt_env ?T)"
  have r2: "room n U r2" "fl' AND KEY_IS_EXTENDED8 = 0" using sr room by (simp_all add: r2_def fl'_def)
  have len: "(take slot ?es @ zero_btkey # drop slot ?es) ! slot = zero_btkey" using slot by (simp add: nth_append)
  have upd: "(take slot ?es @ zero_btkey # drop slot ?es)[slot := x] = take slot ?es @ x # drop slot ?es" for x
    using slot by (simp add: list_update_append)
  obtain b r3 where ie: "bx_insert_extended X key r2 = (0, b, r3)" "b \<noteq> 0" "room n U r3" using E(6) [OF r2(1)] by blast
  define ext where "ext = (length key > ?ks)"
  define e1 where "e1 = zero_btkey\<lparr>be_ptr := ptr, be_size := length key, be_flags := (if ext then fl' OR KEY_IS_EXTENDED8 else fl'), be_data := key\<rparr>"
  define e where "e = (if ext then e1\<lparr>be_ext := b\<rparr> else e1)"
  have z: "be_ptr zero_btkey = 0" "be_flags zero_btkey = 0" by (simp_all add: zero_btkey_def)
  have run: "\<exists>S'. nosplit_at X a key rid slot False S = (0, S') \<and>
     bt_nodes (is_tree S') = (bt_nodes ?T)(a := (bt_nodes ?T a)\<lparr>bn_entries := take slot ?es @ e # drop slot ?es\<rparr>) \<and>
     room n U (bt_env (is_tree S')) \<and> keeps S S'"
    using ie r2 unfolding nosplit_at_def Let_def
    by (cases ?leaf; cases ext)
       (simp_all add: E(2) len upd z sr(1) set_entries_def e_def e1_def ext_def ptr_def fl'_def r2_def keeps_def)
  have ek: "entry_key e = key" by (simp add: e_def e1_def entry_key_def)
  have x: "ext_ok e" using r2(2) ie(2) by (simp add: ext_ok_def e_def e1_def)
  have f: "flagged ?ks e" unfolding flagged_def ek using r2(2) ext_bit [of fl'] by (simp add: e_def e1_def ext_def)
  have "?leaf \<Longrightarrow> stored X ?ks key (0, 0) (ih_flags (is_hints S)) e"
    unfolding stored_def using ek x f
    by (intro conjI exI [of _ ?d] exI [of _ "bt_env ?T"] exI [of _ p] exI [of _ fl] exI [of _ d'] exI [of _ r1] sr(1))
      (simp_all add: e_def e1_def ptr_def fl'_def ext_def)
  moreover have "\<not> ?leaf \<Longrightarrow> linking ?ks key rid e"
    unfolding linking_def using ek x by (simp add: e_def e1_def ptr_def fl'_def)
  moreover obtain S' where "nosplit_at X a key rid slot False S = (0, S')"
     "bt_nodes (is_tree S') = (bt_nodes ?T)(a := (bt_nodes ?T a)\<lparr>bn_entries := take slot ?es @ e # drop slot ?es\<rparr>)"
     "room n U (bt_env (is_tree S'))" "keeps S S'" using run by blast
  ultimately show ?thesis by (intro exI [of _ e] exI [of _ S']) simp
qed

lemma nosplit_at_existing:
  assumes env: "insert_env X room" and room: "room n U (bt_env (is_tree S))"
    and slot: "slot < length (bn_entries (bt_nodes (is_tree S) a))" and leaf: "btree_node_is_leaf (bt_nodes (is_tree S) a)"
  defines "e0 \<equiv> bn_entries (bt_nodes (is_tree S) a) ! slot"
  assumes e0: "entry_key e0 = key" "ext_ok e0" "flagged (unat (bt_keysize (is_tree S))) e0"
  shows "\<exists>e S'. nosplit_at X a key rid slot True S = (0, S') \<and>
     bt_nodes (is_tree S') = (bt_nodes (is_tree S))(a := (bt_nodes (is_tree S) a)
       \<lparr>bn_entries := (bn_entries (bt_nodes (is_tree S) a))[slot := e]\<rparr>) \<and>
     room n U (bt_env (is_tree S')) \<and> keeps S S' \<and>
     stored X (unat (bt_keysize (is_tree S))) key (be_ptr e0, be_flags e0) (ih_flags (is_hints S)) e"
proof -
  let ?T = "is_tree S" and ?es = "bn_entries (bt_nodes (is_tree S) a)" and ?ks = "unat (bt_keysize (is_tree S))"
  let ?d = "case is_cursor S of Some d \<Rightarrow> d | None \<Rightarrow> 0"
  obtain p fl d' r1 where sr: "bx_set_record X (be_ptr e0, be_flags e0) ?d (ih_flags (is_hints S)) (bt_env ?T) = (0, (p, fl), d', r1)"
    "room n U r1" "fl AND KEY_IS_EXTENDED8 = be_flags e0 AND KEY_IS_EXTENDED8" using insert_envD(5) [OF env room] by blast
  define e where "e = e0\<lparr>be_ptr := p, be_size := length key, be_flags := (if length key > ?ks then fl OR KEY_IS_EXTENDED8 else fl)\<rparr>"
  have run: "\<exists>S'. nosplit_at X a key rid slot True S = (0, S') \<and>
     bt_nodes (is_tree S') = (bt_nodes ?T)(a := (bt_nodes ?T a)\<lparr>bn_entries := ?es[slot := e]\<rparr>) \<and>
     room n U (bt_env (is_tree S')) \<and> keeps S S'"
    using sr(1,2) leaf unfolding nosplit_at_def Let_def e0_def
    by (simp add: set_entries_def keeps_def e_def e0_def)
  have ek: "entry_key e = key"
  proof -
    have "length key \<le> be_size e0" using e0(1) by (auto simp: entry_key_def)
    moreover have "entry_key e = take (length key) (be_data e0)" by (simp add: e_def entry_key_def)
    moreover have "key = take (be_size e0) (be_data e0)" using e0(1) by (simp add: entry_key_def)
    ultimately show ?thesis by (metis min_absorb1 take_take length_take min.commute take_all_iff order_refl)
  qed
  have x: "ext_ok e" using e0(2,3) sr(3) by (auto simp: ext_ok_def e_def flagged_def e0(1))
  have f: "flagged ?ks e" unfolding flagged_def ek using e0(3) sr(3) ext_bit [of fl] by (simp add: e_def flagged_def e0(1))
  have "stored X ?ks key (be_ptr e0, be_flags e0) (ih_flags (is_hints S)) e"
    unfolding stored_def using ek x f
    by (intro conjI exI [of _ ?d] exI [of _ "bt_env ?T"] exI [of _ p] exI [of _ fl] exI [of _ d'] exI [of _ r1] sr(1))
      (simp_all add: e_def)
  with run show ?thesis by blast
qed

text \<open>The state of an insertion in which no end of the tree is forced and the node \<open>a\<close> is ordered.\<close>

definition sound_at :: "'r bt_ctx \<Rightarrow> 'r insert_state \<Rightarrow> u64 \<Rightarrow> bool" where
  "sound_at X S a \<longleftrightarrow> \<not> ih_force_append (is_hints S) \<and> \<not> ih_force_prepend (is_hints S) \<and>
     entries_sorted (bx_compare X) (bn_entries (bt_nodes (is_tree S) a)) \<and>
     length (bn_entries (bt_nodes (is_tree S) a)) \<le> MAX_KEYS_PER_NODE"

lemma nosplit_slot_absent:
  assumes o: "tree_order (bx_compare X)" and s: "sound_at X S a"
  defines "es \<equiv> bn_entries (bt_nodes (is_tree S) a)"
  fixes key :: "byte list"
  defines "r \<equiv> rank (bx_compare X) key es"
  assumes np: "\<not> present (bx_compare X) key es"
  shows "nosplit_slot X (bt_nodes (is_tree S) a) key (is_hints S) = Some (Inr (r, False))"
proof (cases "es = []")
  case True
  then show ?thesis using rank_le [of "bx_compare X" key es] by (simp add: nosplit_slot_def btree_node_get_count_def es_def r_def)
next
  case False
  have sorted: "entries_sorted (bx_compare X) es" and len: "length es \<le> MAX_KEYS_PER_NODE"
    using s by (simp_all add: sound_at_def es_def)
  obtain pc where g: "btree_get_slot X (bt_nodes (is_tree S) a) key = Some (0, int r - 1, pc)" "r = 0 \<longrightarrow> pc < 0"
    "r > 0 \<longrightarrow> pc \<ge> 0 \<and> (pc = 0 \<longleftrightarrow> entry_key (es ! (r - 1)) = key)"
    using btree_get_slot_rank [of X "bt_nodes (is_tree S) a", folded es_def, OF o sorted False len, of key, folded r_def] by (elim exE conjE) rule
  have "r > 0 \<Longrightarrow> pc > 0" using g(3) np by (auto simp: present_def r_def)
  then show ?thesis using g(1,2) s False
    by (cases "r = 0") (auto simp: nosplit_slot_def btree_node_get_count_def sound_at_def es_def)
qed

lemma insert_nosplit_absent:
  assumes o: "tree_order (bx_compare X)" and env: "insert_env X room" and room: "room n U (bt_env (is_tree S))"
    and s: "sound_at X S a"
  defines "es \<equiv> bn_entries (bt_nodes (is_tree S) a)"
  fixes key :: "byte list"
  defines "r \<equiv> rank (bx_compare X) key es"
  assumes np: "\<not> present (bx_compare X) key es"
  shows "\<exists>e S'. insert_nosplit X a key rid S = Some (0, S') \<and>
     bt_nodes (is_tree S') = (bt_nodes (is_tree S))(a := (bt_nodes (is_tree S) a)\<lparr>bn_entries := take r es @ e # drop r es\<rparr>) \<and>
     room n U (bt_env (is_tree S')) \<and> keeps S S' \<and>
     (if btree_node_is_leaf (bt_nodes (is_tree S) a)
      then stored X (unat (bt_keysize (is_tree S))) key (0, 0) (ih_flags (is_hints S)) e
      else linking (unat (bt_keysize (is_tree S))) key rid e)"
proof -
  have r: "r \<le> length es" unfolding r_def by (rule rank_le)
  show ?thesis unfolding insert_nosplit_def nosplit_slot_absent [OF o s np [unfolded es_def], folded es_def, folded r_def]
    using nosplit_at_new [OF env room, of r a key rid] r unfolding es_def by simp
qed

lemma insert_nosplit_present:
  assumes o: "tree_order (bx_compare X)" and env: "insert_env X room" and room: "room n U (bt_env (is_tree S))"
    and s: "sound_at X S a" and leaf: "btree_node_is_leaf (bt_nodes (is_tree S) a)"
  defines "es \<equiv> bn_entries (bt_nodes (is_tree S) a)"
  fixes key :: "byte list"
  defines "r \<equiv> rank (bx_compare X) key es"
  assumes p: "present (bx_compare X) key es"
    and es: "\<And>e. e \<in> set es \<Longrightarrow> ext_ok e \<and> flagged (unat (bt_keysize (is_tree S))) e"
  shows "ih_flags (is_hints S) AND (HAM_OVERWRITE OR HAM_DUPLICATE) = 0 \<Longrightarrow> insert_nosplit X a key rid S = Some (DUPLICATE_KEY, S)"
    "ih_flags (is_hints S) AND (HAM_OVERWRITE OR HAM_DUPLICATE) \<noteq> 0 \<Longrightarrow> \<exists>e S'. insert_nosplit X a key rid S = Some (0, S') \<and>
     bt_nodes (is_tree S') = (bt_nodes (is_tree S))(a := (bt_nodes (is_tree S) a)\<lparr>bn_entries := es[r - 1 := e]\<rparr>) \<and>
     room n U (bt_env (is_tree S')) \<and> keeps S S' \<and>
     stored X (unat (bt_keysize (is_tree S))) key (be_ptr (es ! (r - 1)), be_flags (es ! (r - 1))) (ih_flags (is_hints S)) e"
proof -
  have r: "0 < r" "r \<le> length es" "entry_key (es ! (r - 1)) = key" using p rank_le [of _ _ es] by (auto simp: present_def r_def)
  have ne: "es \<noteq> []" using r by auto
  have sorted: "entries_sorted (bx_compare X) es" and len: "length es \<le> MAX_KEYS_PER_NODE"
    using s by (simp_all add: sound_at_def es_def)
  obtain pc where g: "btree_get_slot X (bt_nodes (is_tree S) a) key = Some (0, int r - 1, pc)"
    "r > 0 \<longrightarrow> pc \<ge> 0 \<and> (pc = 0 \<longleftrightarrow> entry_key (es ! (r - 1)) = key)"
    using btree_get_slot_rank [of X "bt_nodes (is_tree S) a", folded es_def, OF o sorted ne len, of key, folded r_def]
    by (elim exE conjE) rule
  have pc: "pc = 0" using g(2) r by simp
  have fl: "ih_flags (is_hints S) AND (HAM_OVERWRITE OR HAM_DUPLICATE) = 0 \<longleftrightarrow>
      ih_flags (is_hints S) AND HAM_OVERWRITE = 0 \<and> ih_flags (is_hints S) AND HAM_DUPLICATE = 0"
    by (simp add: bit.conj_disj_distrib or_eq_0_iff)
  have slot: "nosplit_slot X (bt_nodes (is_tree S) a) key (is_hints S) =
      (if ih_flags (is_hints S) AND (HAM_OVERWRITE OR HAM_DUPLICATE) = 0 then Some (Inl DUPLICATE_KEY) else Some (Inr (r - 1, True)))"
    using g(1) pc s r leaf ne unfolding fl
    by (auto simp: nosplit_slot_def btree_node_get_count_def sound_at_def es_def nat_diff_distrib')
  show "insert_nosplit X a key rid S = Some (DUPLICATE_KEY, S)" if "ih_flags (is_hints S) AND (HAM_OVERWRITE OR HAM_DUPLICATE) = 0"
    unfolding insert_nosplit_def slot using that by simp
  have e0: "ext_ok (es ! (r - 1))" "flagged (unat (bt_keysize (is_tree S))) (es ! (r - 1))" using es r by simp_all
  show "\<exists>e S'. insert_nosplit X a key rid S = Some (0, S') \<and>
     bt_nodes (is_tree S') = (bt_nodes (is_tree S))(a := (bt_nodes (is_tree S) a)\<lparr>bn_entries := es[r - 1 := e]\<rparr>) \<and>
     room n U (bt_env (is_tree S')) \<and> keeps S S' \<and>
     stored X (unat (bt_keysize (is_tree S))) key (be_ptr (es ! (r - 1)), be_flags (es ! (r - 1))) (ih_flags (is_hints S)) e"
    if "ih_flags (is_hints S) AND (HAM_OVERWRITE OR HAM_DUPLICATE) \<noteq> 0"
    using nosplit_at_existing [OF env room, of "r - 1" a key rid] r e0 leaf that
    unfolding insert_nosplit_def slot es_def by simp
qed

section \<open>The split of a full node\<close>

lemma rank_drop:
  assumes "p \<le> rank cmp k es"
  shows "rank cmp k (drop p es) = rank cmp k es - p"
proof (rule rankI)
  show "rank cmp k es - p \<le> length (drop p es)" using rank_le [of cmp k es] by simp
  show "cmp k (entry_key (drop p es ! i)) \<ge> 0" if "i < rank cmp k es - p" for i
    using rank_below [of "p + i" cmp k es] that rank_le [of cmp k es] by (simp add: less_diff_conv2)
  show "cmp k (entry_key (drop p es ! (rank cmp k es - p))) < 0" if "rank cmp k es - p < length (drop p es)"
    using rank_at [of cmp k es] that assms rank_le [of cmp k es] by simp
qed

lemma rank_take:
  assumes "rank cmp k es \<le> p"
  shows "rank cmp k (take p es) = rank cmp k es"
proof (rule rankI)
  show "rank cmp k es \<le> length (take p es)" using rank_le [of cmp k es] assms by simp
  show "cmp k (entry_key (take p es ! i)) \<ge> 0" if "i < rank cmp k es" for i
    using rank_below [OF that] that assms by simp
  show "cmp k (entry_key (take p es ! rank cmp k es)) < 0" if "rank cmp k es < length (take p es)"
    using rank_at [of cmp k es] that by simp
qed

lemma split_pivot_bounds:
  assumes "3 \<le> length (bn_entries n)"
  shows "1 \<le> split_pivot X n key" "Suc (split_pivot X n key) < length (bn_entries n)"
  using assms by (auto simp: split_pivot_def btree_node_get_count_def Let_def)

text \<open>Splitting the list with the new entry at the pivot, on either side of which the new entry may be.\<close>

lemma insert_around_pivot:
  assumes p: "p < length es" and r: "r \<le> length es"
  shows "p < r \<Longrightarrow> take r es @ e # drop r es =
      take p es @ es ! p # (take (r - Suc p) (drop (Suc p) es) @ e # drop (r - Suc p) (drop (Suc p) es))"
    "r \<le> p \<Longrightarrow> take r es @ e # drop r es = (take r (take p es) @ e # drop r (take p es)) @ es ! p # drop (Suc p) es"
    "p < r \<Longrightarrow> take (r - p) (drop p es) @ e # drop (r - p) (drop p es) =
      es ! p # (take (r - Suc p) (drop (Suc p) es) @ e # drop (r - Suc p) (drop (Suc p) es))"
proof -
  have d: "drop p es = es ! p # drop (Suc p) es" by (rule Cons_nth_drop_Suc [OF p, symmetric])
  show c: "take (r - p) (drop p es) @ e # drop (r - p) (drop p es) =
      es ! p # (take (r - Suc p) (drop (Suc p) es) @ e # drop (r - Suc p) (drop (Suc p) es))" if "p < r"
  proof -
    have "r - p = Suc (r - Suc p)" using that by simp
    then show ?thesis unfolding d by simp
  qed
  show "take r es @ e # drop r es =
      take p es @ es ! p # (take (r - Suc p) (drop (Suc p) es) @ e # drop (r - Suc p) (drop (Suc p) es))" if "p < r"
  proof -
    have "take r es = take p es @ take (r - p) (drop p es)" using take_add [of p "r - p" es] that by simp
    moreover have "drop r es = drop (r - p) (drop p es)" using that by simp
    ultimately show ?thesis using c [OF that] by simp
  qed
  show "take r es @ e # drop r es = (take r (take p es) @ e # drop r (take p es)) @ es ! p # drop (Suc p) es" if "r \<le> p"
  proof -
    have "drop r es = drop r (take p es) @ drop p es"
      by (metis append_take_drop_id drop_append length_take min.absorb2 p less_imp_le_nat diff_is_0_eq that drop0)
    then show ?thesis using that by (simp add: d min_def)
  qed
qed

lemma insert_split_absent:
  assumes o: "tree_order (bx_compare X)" and env: "insert_env X room" and room: "room (Suc n) U (bt_env (is_tree S))"
    and a: "a \<in> U" and s: "sound_at X S a"
  defines "N \<equiv> bt_nodes (is_tree S)"
  defines "es \<equiv> bn_entries (N a)"
  fixes key :: "byte list"
  defines "r \<equiv> rank (bx_compare X) key es"
  defines "leaf \<equiv> btree_node_is_leaf (N a)"
  assumes np: "\<not> present (bx_compare X) key es" and len: "3 \<le> length es"
    and ptrs: "\<not> leaf \<longrightarrow> (\<forall>e \<in> set es. be_ptr e \<noteq> 0)"
  shows "\<exists>y e pe A B S' N2. insert_split X a key rid S = Some (SPLIT, S') \<and> y \<noteq> 0 \<and> y \<notin> U \<and> is_rid S' = y \<and> is_key S' = entry_key pe \<and>
     take r es @ e # drop r es = A @ pe # B \<and> A \<noteq> [] \<and> B \<noteq> [] \<and> length A < length es \<and> length B < length es \<and> pe \<in> set es \<and>
     bt_nodes (is_tree S') = link_after a y N2 \<and> N2 a = (N a)\<lparr>bn_entries := A\<rparr> \<and>
     bn_ptr_left (N2 y) = (if leaf then 0 else be_ptr pe) \<and> bn_entries (N2 y) = (if leaf then pe # B else B) \<and>
     (\<forall>b. b \<noteq> a \<and> b \<noteq> y \<longrightarrow> N2 b = N b) \<and>
     room n (insert y U) (bt_env (is_tree S')) \<and> keeps S S' \<and>
     (if leaf then stored X (unat (bt_keysize (is_tree S))) key (0, 0) (ih_flags (is_hints S)) e
      else linking (unat (bt_keysize (is_tree S))) key rid e)"
proof -
  let ?cmp = "bx_compare X" and ?T = "is_tree S" and ?n = "N a"
  note E = insert_envD [OF env]
  obtain y r1 where al: "bx_alloc X TYPE_B_INDEX (bt_env ?T) = (0, y, r1)" "y \<noteq> 0" "y \<notin> U" "room n (insert y U) r1"
    using E(4) [OF room] by blast
  have ay: "a \<noteq> y" using a al(3) by auto
  define p where "p = split_pivot X ?n key"
  have p: "1 \<le> p" "Suc p < length es" using split_pivot_bounds [of ?n X key] len unfolding p_def es_def by auto
  define pe where "pe = es ! p"
  have sorted: "entries_sorted ?cmp es" "length es \<le> MAX_KEYS_PER_NODE" using s by (simp_all add: sound_at_def es_def N_def)
  have r: "r \<le> length es" unfolding r_def by (rule rank_le)
  define Bs where "Bs = (if leaf then drop p es else drop (Suc p) es)"
  define T1 where "T1 = ?T\<lparr>bt_env := r1, bt_nodes := N(y := empty_node), bt_types := (bt_types ?T)(y := TYPE_B_INDEX)\<rparr>"
  define T2 where "T2 = T1\<lparr>bt_nodes := (bt_nodes T1)(a := ?n\<lparr>bn_entries := take p es\<rparr>,
      y := empty_node\<lparr>bn_ptr_left := (if leaf then 0 else be_ptr pe), bn_entries := Bs\<rparr>)\<rparr>"
  define S2 where "S2 = S\<lparr>is_tree := T2\<rparr>"
  define right where "right = (?cmp key (entry_key pe) \<ge> 0)"
  define t where "t = (if right then y else a)"
  have rp: "right \<longleftrightarrow> p < r"
  proof
    assume "p < r"
    then show right using rank_below [of p ?cmp key es] by (simp add: r_def right_def pe_def)
  next
    assume right
    then show "p < r" using rank_above [OF o sorted(1), of key p] p by (fastforce simp: r_def right_def pe_def)
  qed
  have nodes2: "bt_nodes T2 a = ?n\<lparr>bn_entries := take p es\<rparr>" "bn_entries (bt_nodes T2 y) = Bs"
    "bn_ptr_left (bt_nodes T2 y) = (if leaf then 0 else be_ptr pe)" "\<And>b. b \<noteq> a \<Longrightarrow> b \<noteq> y \<Longrightarrow> bt_nodes T2 b = N b"
    using ay by (simp_all add: T2_def T1_def empty_node_def)
  have k2: "keeps S S2" "bt_env T2 = r1" "bt_keysize T2 = bt_keysize ?T" "is_hints S2 = is_hints S"
    by (simp_all add: keeps_def S2_def T2_def T1_def)
  define ts where "ts = bn_entries (bt_nodes T2 t)"
  have ts: "ts = (if right then Bs else take p es)" unfolding ts_def t_def using nodes2(1,2) by simp
  have sub: "entries_sorted ?cmp (take q es)" "entries_sorted ?cmp (drop q es)" for q
    using sorted(1) unfolding entries_sorted_def by (auto intro: sorted_wrt_take sorted_wrt_drop)
  have s2: "sound_at X S2 t"
    unfolding sound_at_def using s sorted(2) sub ts unfolding ts_def S2_def sound_at_def Bs_def
    by (simp add: min_def split: if_splits)
  have rt: "rank ?cmp key ts = (if right then r - (if leaf then p else Suc p) else r)"
    unfolding ts Bs_def using rp rank_drop [of p ?cmp key es] rank_drop [of "Suc p" ?cmp key es] rank_take [of ?cmp key es p]
    by (auto simp: r_def)
  have npt: "\<not> present ?cmp key ts"
  proof -
    have "entry_key e \<noteq> key" if "e \<in> set es" for e
      using rank_present(3) [OF o sorted(1), of key] np that by (auto simp: find_entry_None)
    moreover have "set ts \<subseteq> set es" unfolding ts Bs_def by (auto dest: in_set_takeD in_set_dropD)
    moreover have "present ?cmp key ts \<Longrightarrow> \<exists>e \<in> set ts. entry_key e = key"
      using rank_le [of ?cmp key ts] by (intro bexI [of _ "ts ! (rank ?cmp key ts - 1)"]) (auto simp: present_def)
    ultimately show ?thesis by blast
  qed
  have leaf2: "btree_node_is_leaf (bt_nodes T2 t) \<longleftrightarrow> leaf"
  proof (cases right)
    case False
    then show ?thesis using nodes2(1) by (simp add: t_def leaf_def btree_node_is_leaf_def)
  next
    case True
    have "\<not> leaf \<Longrightarrow> be_ptr pe \<noteq> 0" using ptrs p by (simp add: pe_def)
    then show ?thesis using True nodes2(3) by (simp add: t_def btree_node_is_leaf_def)
  qed
  obtain e S3 where ns: "insert_nosplit X t key rid S2 = Some (0, S3)"
    "bt_nodes (is_tree S3) = (bt_nodes T2)(t := (bt_nodes T2 t)\<lparr>bn_entries := take (rank ?cmp key ts) ts @ e # drop (rank ?cmp key ts) ts\<rparr>)"
    "room n (insert y U) (bt_env (is_tree S3))" "keeps S2 S3"
    "if leaf then stored X (unat (bt_keysize ?T)) key (0, 0) (ih_flags (is_hints S)) e else linking (unat (bt_keysize ?T)) key rid e"
    using insert_nosplit_absent [OF o env _ s2, of n "insert y U" key rid] al(4) npt leaf2 k2 unfolding ts_def S2_def by auto
  define N2 where "N2 = bt_nodes (is_tree S3)"
  define A where "A = (if right then take p es else take r (take p es) @ e # drop r (take p es))"
  define B where "B = (if right then take (r - Suc p) (drop (Suc p) es) @ e # drop (r - Suc p) (drop (Suc p) es) else drop (Suc p) es)"
  have pl: "p < length es" using p by simp
  have AB: "take r es @ e # drop r es = A @ pe # B"
    unfolding A_def B_def pe_def using rp insert_around_pivot(1,2) [OF pl r, of e] by auto
  have N2a: "N2 a = ?n\<lparr>bn_entries := A\<rparr>"
    using ns(2) nodes2(1) rt ts ay unfolding N2_def A_def by (auto simp: t_def)
  have N2y: "bn_ptr_left (N2 y) = (if leaf then 0 else be_ptr pe)" "bn_entries (N2 y) = (if leaf then pe # B else B)"
  proof -
    show "bn_ptr_left (N2 y) = (if leaf then 0 else be_ptr pe)"
      using ns(2) nodes2(3) ay unfolding N2_def by (auto simp: t_def)
    show "bn_entries (N2 y) = (if leaf then pe # B else B)"
    proof (cases right)
      case True
      then have "bn_entries (N2 y) = take (rank ?cmp key ts) ts @ e # drop (rank ?cmp key ts) ts" "ts = Bs"
        using ns(2) ts unfolding N2_def by (auto simp: t_def)
      then show ?thesis
        unfolding rt B_def using True rp insert_around_pivot(3) [OF pl r, of e] by (auto simp: Bs_def pe_def)
    next
      case False
      then have "bn_entries (N2 y) = Bs" using ns(2) nodes2(2) ay unfolding N2_def by (auto simp: t_def)
      then show ?thesis using False Cons_nth_drop_Suc [OF pl] by (simp add: Bs_def B_def pe_def)
    qed
  qed
  have N2o: "N2 b = N b" if "b \<noteq> a" "b \<noteq> y" for b
    using ns(2) nodes2(4) [OF that] that unfolding N2_def by (auto simp: t_def)
  have lens: "A \<noteq> []" "B \<noteq> []" "length A < length es" "length B < length es"
    using p r rp by (auto simp: A_def B_def min_def)
  define S' where "S' = S3\<lparr>is_cursor := None, is_key := entry_key pe, is_rid := y,
      is_tree := (is_tree S3)\<lparr>bt_nodes := link_after a y N2,
        bt_dirty_pages := (if bn_right (N2 a) \<noteq> 0 then insert (bn_right (N2 a)) else id)
          (insert a (insert y (bt_dirty_pages (is_tree S3))))\<rparr>\<rparr>"
  have cge: "\<not> ?cmp key (entry_key pe) < -1" using tree_orderD(2) [OF o, of key "entry_key pe"] by linarith
  have run: "insert_split X a key rid S = Some (SPLIT, S')"
    using al(1) E(1,2,3) cge ns(1)
    unfolding insert_split_def Let_def N_def [symmetric] es_def [symmetric] leaf_def [symmetric] p_def [symmetric] pe_def [symmetric]
      S2_def T2_def T1_def t_def right_def Bs_def
    by (cases leaf; cases "0 \<le> ?cmp key (entry_key pe)"; simp add: N2_def S'_def)
  have "keeps S S'" using keeps_trans [OF k2(1) ns(4)] by (simp add: keeps_def S'_def)
  moreover have "bt_nodes (is_tree S') = link_after a y N2" "is_rid S' = y" "is_key S' = entry_key pe"
    "bt_env (is_tree S') = bt_env (is_tree S3)" by (simp_all add: S'_def)
  moreover have "pe \<in> set es" using pl by (simp add: pe_def)
  ultimately show ?thesis
    using run al(2,3) AB lens N2a N2y N2o ns(3,5)
    by (intro exI [of _ y] exI [of _ e] exI [of _ pe] exI [of _ A] exI [of _ B] exI [of _ S'] exI [of _ N2]) simp
qed

section \<open>The insertion into one page\<close>

lemma exact_flag [simp]: "\<not> lt_flag HAM_FIND_EXACT_MATCH" "\<not> gt_flag HAM_FIND_EXACT_MATCH"
  by (simp_all add: lt_flag_def gt_flag_def HAM_FIND_EXACT_MATCH_def HAM_FIND_LT_MATCH_def HAM_FIND_GT_MATCH_def)

lemma search_exact:
  assumes "tree_order (bx_compare X)" "entries_sorted (bx_compare X) (bn_entries n)" "length (bn_entries n) \<le> MAX_KEYS_PER_NODE"
  shows "\<exists>idx kf. btree_node_search_by_key X n k 0 HAM_FIND_EXACT_MATCH = Some (idx, kf) \<and>
     (idx \<ge> 0 \<longleftrightarrow> present (bx_compare X) k (bn_entries n))"
proof -
  obtain idx mark where "leaf_result (present (bx_compare X) k (bn_entries n)) False False (rank (bx_compare X) k (bn_entries n))
      (length (bn_entries n)) = (idx, mark)"
    "btree_node_search_by_key X n k 0 HAM_FIND_EXACT_MATCH = Some (idx, (0 AND NOT KEY_IS_APPROXIMATE) OR mark)"
    using search_by_key_leaf [OF assms, of k HAM_FIND_EXACT_MATCH 0] by auto
  then show ?thesis by (auto simp: leaf_result_def present_def split: if_splits)
qed

text \<open>
  What inserting an absent key into a page does to the page alone: the entries with the new
  one are in the page, or around a pivot in the page and a new one.
\<close>

definition page_split ::
  "(u64 \<Rightarrow> bt_node) \<Rightarrow> u64 \<Rightarrow> bool \<Rightarrow> u64 \<Rightarrow> bt_entry list \<Rightarrow> bt_entry \<Rightarrow> bt_entry list \<Rightarrow> (u64 \<Rightarrow> bt_node) \<Rightarrow> bool" where
  "page_split N a leaf y A pe B N' \<longleftrightarrow>
     (\<exists>N2. N' = link_after a y N2 \<and> N2 a = (N a)\<lparr>bn_entries := A\<rparr> \<and>
        bn_ptr_left (N2 y) = (if leaf then 0 else be_ptr pe) \<and> bn_entries (N2 y) = (if leaf then pe # B else B) \<and>
        (\<forall>b. b \<noteq> a \<and> b \<noteq> y \<longrightarrow> N2 b = N b))"

lemma insert_in_page_absent:
  assumes o: "tree_order (bx_compare X)" and env: "insert_env X room" and room: "room (Suc n) U (bt_env (is_tree S))"
    and a: "a \<in> U" and s: "sound_at X S a"
  defines "N \<equiv> bt_nodes (is_tree S)" and "m \<equiv> bt_maxkeys (is_tree S)"
  defines "es \<equiv> bn_entries (N a)"
  fixes key :: "byte list"
  defines "r \<equiv> rank (bx_compare X) key es"
  defines "leaf \<equiv> btree_node_is_leaf (N a)"
  assumes np: "\<not> present (bx_compare X) key es" and m: "3 \<le> m"
    and ptrs: "\<not> leaf \<longrightarrow> (\<forall>e \<in> set es. be_ptr e \<noteq> 0)"
  shows "\<exists>e S'. (if leaf then stored X (unat (bt_keysize (is_tree S))) key (0, 0) (ih_flags (is_hints S)) e
                  else linking (unat (bt_keysize (is_tree S))) key rid e) \<and> keeps S S' \<and>
     (insert_in_page X a key rid S = Some (0, S') \<and> length es < m \<and>
        bt_nodes (is_tree S') = N(a := (N a)\<lparr>bn_entries := take r es @ e # drop r es\<rparr>) \<or>
      insert_in_page X a key rid S = Some (SPLIT, S') \<and>
        (\<exists>A pe B. take r es @ e # drop r es = A @ pe # B \<and> A \<noteq> [] \<and> B \<noteq> [] \<and> length A < length es \<and> length B < length es \<and>
           is_rid S' \<noteq> 0 \<and> is_rid S' \<notin> U \<and> is_key S' = entry_key pe \<and> page_split N a leaf (is_rid S') A pe B (bt_nodes (is_tree S')) \<and>
           room n (insert (is_rid S') U) (bt_env (is_tree S'))))"
proof (cases "length es < m")
  case True
  obtain e S' where "insert_nosplit X a key rid S = Some (0, S')"
    "bt_nodes (is_tree S') = N(a := (N a)\<lparr>bn_entries := take r es @ e # drop r es\<rparr>)" "keeps S S'"
    "if leaf then stored X (unat (bt_keysize (is_tree S))) key (0, 0) (ih_flags (is_hints S)) e
     else linking (unat (bt_keysize (is_tree S))) key rid e"
    using insert_nosplit_absent [OF o env room s np [unfolded es_def N_def], of rid]
    unfolding N_def es_def r_def leaf_def by blast
  moreover from this have "insert_in_page X a key rid S = Some (0, S'\<lparr>is_cursor := None\<rparr>)"
    using True by (simp add: insert_in_page_def Let_def btree_node_get_count_def es_def N_def m_def)
  ultimately show ?thesis using True
    by (intro exI [of _ e] exI [of _ "S'\<lparr>is_cursor := None\<rparr>"]) (simp add: keeps_def)
next
  case False
  have len: "3 \<le> length es" using False m by simp
  obtain idx kf where se: "btree_node_search_by_key X (N a) key 0 HAM_FIND_EXACT_MATCH = Some (idx, kf)" "\<not> idx \<ge> 0"
    using search_exact [OF o, of "N a" key] s np unfolding sound_at_def es_def N_def by blast
  have ip: "insert_in_page X a key rid S = insert_split X a key rid S"
    using False se by (simp add: insert_in_page_def Let_def btree_node_get_count_def es_def N_def m_def)
  obtain y e pe A B S' N2 where sp: "insert_split X a key rid S = Some (SPLIT, S')" "y \<noteq> 0" "y \<notin> U" "is_rid S' = y" "is_key S' = entry_key pe"
    "take r es @ e # drop r es = A @ pe # B" "A \<noteq> []" "B \<noteq> []" "length A < length es" "length B < length es"
    "bt_nodes (is_tree S') = link_after a y N2" "N2 a = (N a)\<lparr>bn_entries := A\<rparr>"
    "bn_ptr_left (N2 y) = (if leaf then 0 else be_ptr pe)" "bn_entries (N2 y) = (if leaf then pe # B else B)"
    "\<forall>b. b \<noteq> a \<and> b \<noteq> y \<longrightarrow> N2 b = N b" "room n (insert y U) (bt_env (is_tree S'))" "keeps S S'"
    "if leaf then stored X (unat (bt_keysize (is_tree S))) key (0, 0) (ih_flags (is_hints S)) e
     else linking (unat (bt_keysize (is_tree S))) key rid e"
    using insert_split_absent [OF o env room a s np [unfolded es_def N_def] len [unfolded es_def N_def] ptrs [unfolded es_def N_def leaf_def], of rid,
      folded N_def, folded es_def leaf_def, folded r_def]
    by (elim exE conjE) (rule that; assumption)
  have "page_split N a leaf (is_rid S') A pe B (bt_nodes (is_tree S'))"
    unfolding page_split_def using sp(4,11-15) by (intro exI [of _ N2]) simp
  then have "\<exists>A pe B. take r es @ e # drop r es = A @ pe # B \<and> A \<noteq> [] \<and> B \<noteq> [] \<and> length A < length es \<and> length B < length es \<and>
           is_rid S' \<noteq> 0 \<and> is_rid S' \<notin> U \<and> is_key S' = entry_key pe \<and> page_split N a leaf (is_rid S') A pe B (bt_nodes (is_tree S')) \<and>
           room n (insert (is_rid S') U) (bt_env (is_tree S'))"
    using sp by (intro exI [of _ A] exI [of _ pe] exI [of _ B]) simp
  with sp(1,17,18) ip show ?thesis by (intro exI [of _ e] exI [of _ S'] conjI disjI2) simp_all
qed

section \<open>The trees after a page was changed\<close>

text \<open>
  A node whose entries were split around a pivot into itself and a new page, in a family of
  levels that has the node with all its entries.
\<close>

definition relevel ::
  "(nat \<Rightarrow> u64 list) \<Rightarrow> nat \<Rightarrow> (nat \<Rightarrow> u64 list) \<Rightarrow> (nat \<Rightarrow> u64 list) \<Rightarrow> (nat \<Rightarrow> u64 list) \<Rightarrow> nat \<Rightarrow> u64 list" where
  "relevel L h pre f post k = (if k \<le> h then pre k @ f k @ post k else L k)"

lemma page_split_tree:
  assumes o: "tree_order cmp" and over: "over_tree cmp m N1 h lo hi a" and pl: "placed N1 L h pre a post"
    and U: "\<And>k. set (L k) \<subseteq> U"
    and sp: "page_split N1 a (h = 0) y A pe B N'" and es: "bn_entries (N1 a) = A @ pe # B"
    and AB: "A \<noteq> []" "B \<noteq> []" "length A \<le> m" "length B < m" and y: "y \<noteq> 0" "y \<notin> U"
  shows "bt_tree cmp m N' h lo (Some (entry_key pe)) a" "bt_tree cmp m N' h (Some (entry_key pe)) hi y"
    "contents N' h a @ contents N' h y = contents N1 h a" "strictly_in cmp lo hi (entry_key pe)"
    "pages N' h a \<union> pages N' h y = insert y (pages N1 h a)"
    "linked N' (relevel L h pre (\<lambda>k. level N' h k a @ level N' h k y) post)"
    "\<And>b. b \<noteq> a \<Longrightarrow> b \<noteq> y \<Longrightarrow> body (N' b) = body (N1 b)"
    "\<And>j. j < h \<Longrightarrow> level N' h j a @ level N' h j y = level N1 h j a"
proof -
  obtain N2 where N2: "N' = link_after a y N2" "N2 a = (N1 a)\<lparr>bn_entries := A\<rparr>"
    "bn_ptr_left (N2 y) = (if h = 0 then 0 else be_ptr pe)" "bn_entries (N2 y) = (if h = 0 then pe # B else B)"
    "\<And>b. b \<noteq> a \<Longrightarrow> b \<noteq> y \<Longrightarrow> N2 b = N1 b" using sp unfolding page_split_def by blast
  have bd: "bn_ptr_left (N' b) = bn_ptr_left (N2 b)" "bn_entries (N' b) = bn_entries (N2 b)" for b
    using body_link_after [of a y N2 b] unfolding N2(1) body_eq by simp_all
  show ot: "\<And>b. b \<noteq> a \<Longrightarrow> b \<noteq> y \<Longrightarrow> body (N' b) = body (N1 b)" using N2(5) by (simp add: body_eq bd)
  have pg: "pages N1 h a \<subseteq> U" using placed_pages [OF pl] U by blast
  have na: "a \<notin> pages N1 g c" if "h = Suc g" "c \<in> set (child_ptrs (N1 a))" for g c
  proof -
    note hc = that
    obtain i where "i < length (child_ptrs (N1 a))" "child_ptrs (N1 a) ! i = c" using hc(2) by (auto simp: in_set_conv_nth)
    then show ?thesis using placed_not_in_child [of N1 L g pre a post i] pl hc(1) by auto
  qed
  have ts: "bt_tree cmp m N' h lo (Some (entry_key pe)) a" "bt_tree cmp m N' h (Some (entry_key pe)) hi y"
    "contents N' h a @ contents N' h y = contents N1 h a" "\<And>j. j < h \<Longrightarrow> level N' h j a @ level N' h j y = level N1 h j a"
    "pages N' h a \<union> pages N' h y = insert y (pages N1 h a)" "strictly_in cmp lo hi (entry_key pe)"
    by (rule tree_split [OF o over es AB(1), of y N']; use AB y pg na ot N2(2,3,4) bd in \<open>auto split: if_splits\<close>)+
  show "bt_tree cmp m N' h lo (Some (entry_key pe)) a" "bt_tree cmp m N' h (Some (entry_key pe)) hi y"
    "contents N' h a @ contents N' h y = contents N1 h a" "strictly_in cmp lo hi (entry_key pe)"
    "pages N' h a \<union> pages N' h y = insert y (pages N1 h a)" by (fact ts)+
  show "\<And>j. j < h \<Longrightarrow> level N' h j a @ level N' h j y = level N1 h j a" by (rule ts(4))
  have ya: "y \<noteq> a" using y(2) U [of h] placed_root [OF pl] by auto
  have l1: "linked N1 L" using pl by (simp add: placed_def)
  have "linked N2 L"
  proof -
    have "bn_left (N2 x) = bn_left (N1 x) \<and> bn_right (N2 x) = bn_right (N1 x)" if "x \<in> set (L k)" for x k
    proof -
      have "x \<noteq> y" using that U [of k] y(2) by blast
      then show ?thesis using N2(2) N2(5) [of x] by (cases "x = a") auto
    qed
    then show ?thesis using linked_cong [of L N2 N1] l1 by blast
  qed
  then have "linked N' (L(h := pre h @ a # y # post h))"
    unfolding N2(1) by (rule linked_link_after [where L = L and k = h, OF _ placed_root [OF pl] y(1)]) (use y(2) U in blast)
  moreover have "L(h := pre h @ a # y # post h) = relevel L h pre (\<lambda>k. level N' h k a @ level N' h k y) post"
  proof
    fix k
    have "level N' h h b = [b]" for b by (cases h) simp_all
    moreover have "L k = pre k @ (level N' h k a @ level N' h k y) @ post k" if "k < h"
      unfolding ts(4) [OF that] using pl that by (simp add: placed_def)
    ultimately show "(L(h := pre h @ a # y # post h)) k = relevel L h pre (\<lambda>k. level N' h k a @ level N' h k y) post k"
      by (cases "k = h") (auto simp: relevel_def)
  qed
  ultimately show "linked N' (relevel L h pre (\<lambda>k. level N' h k a @ level N' h k y) post)" by simp
qed

section \<open>What an insertion below a page achieves\<close>

definition old_record :: "byte list \<Rightarrow> bt_entry list \<Rightarrow> u64 \<times> byte" where
  "old_record key es = (case find_entry key es of None \<Rightarrow> (0, 0) | Some e \<Rightarrow> (be_ptr e, be_flags e))"

definition may_replace :: "u32 \<Rightarrow> bool" where
  "may_replace flags \<longleftrightarrow> flags AND (HAM_OVERWRITE OR HAM_DUPLICATE) \<noteq> 0"

definition ins_post ::
  "'r bt_ctx \<Rightarrow> (nat \<Rightarrow> u64 set \<Rightarrow> 'r \<Rightarrow> bool) \<Rightarrow> nat \<Rightarrow> u64 set \<Rightarrow> 'r insert_state \<Rightarrow> nat \<Rightarrow> byte list option \<Rightarrow> byte list option \<Rightarrow>
   u64 \<Rightarrow> byte list \<Rightarrow> bt_entry \<Rightarrow> (nat \<Rightarrow> u64 list) \<Rightarrow> (nat \<Rightarrow> u64 list) \<Rightarrow> (nat \<Rightarrow> u64 list) \<Rightarrow> int \<Rightarrow> 'r insert_state \<Rightarrow> bool" where
  "ins_post X room n U S h lo hi a key e L pre post st S' \<longleftrightarrow>
     (let cmp = bx_compare X; m = bt_maxkeys (is_tree S); N = bt_nodes (is_tree S); N' = bt_nodes (is_tree S');
          y = is_rid S'; pk = is_key S'; new = (if st = SPLIT then [y] else [])
      in keeps S S' \<and> (st = 0 \<or> st = SPLIT) \<and>
         (\<forall>b \<in> U. b \<notin> pages N h a \<longrightarrow> body (N' b) = body (N b)) \<and>
         linked N' (relevel L h pre (\<lambda>k. level N' h k a @ concat (map (level N' h k) new)) post) \<and>
         contents N' h a @ concat (map (contents N' h) new) = upd cmp key e (contents N h a) \<and>
         (\<forall>b \<in> set (a # new). pages N' h b \<subseteq> pages N h a \<union> - U) \<and>
         ((\<forall>x \<in> set (level N h 0 a). h = 0 \<or> bn_entries (N x) \<noteq> []) \<longrightarrow>
            (\<forall>b \<in> set (a # new). \<forall>x \<in> set (level N' h 0 b). bn_entries (N' x) \<noteq> [])) \<and>
         (if st = SPLIT
          then bt_tree cmp m N' h lo (Some pk) a \<and> bt_tree cmp m N' h (Some pk) hi y \<and> strictly_in cmp lo hi pk \<and>
               (\<exists>U'. U \<subseteq> U' \<and> pages N' h a \<union> pages N' h y \<subseteq> U' \<and> room n U' (bt_env (is_tree S')))
          else bt_tree cmp m N' h lo hi a))"

lemma SPLIT_ne: "SPLIT \<noteq> 0" "DUPLICATE_KEY \<noteq> SPLIT" "DUPLICATE_KEY \<noteq> 0"
  by (simp_all add: SPLIT_def DUPLICATE_KEY_def)

lemma absent_split:
  assumes o: "tree_order cmp" and s: "entries_sorted cmp es" and np: "\<not> present cmp k es"
  shows "\<And>x. x \<in> set (take (rank cmp k es) es) \<Longrightarrow> cmp k (entry_key x) > 0"
    "\<And>x. x \<in> set (drop (rank cmp k es) es) \<Longrightarrow> cmp k (entry_key x) < 0"
    "take (rank cmp k es) es @ e # drop (rank cmp k es) es = upd cmp k e es"
proof -
  have tw: "takeWhile (\<lambda>x. cmp k (entry_key x) > 0) es = take (rank cmp k es) es" using rank_present(1) [OF o s, of k] np by simp
  show "\<And>x. x \<in> set (take (rank cmp k es) es) \<Longrightarrow> cmp k (entry_key x) > 0" unfolding tw [symmetric] by (auto dest: set_takeWhileD)
  show "cmp k (entry_key x) < 0" if "x \<in> set (drop (rank cmp k es) es)" for x
  proof -
    note xin = that
    obtain i where "i < length es - rank cmp k es" "x = es ! (rank cmp k es + i)" using xin by (auto simp: in_set_conv_nth)
    then show ?thesis using rank_above [OF o s, of k "rank cmp k es + i"] by simp
  qed
  show "take (rank cmp k es) es @ e # drop (rank cmp k es) es = upd cmp k e es"
    unfolding upd_def tw rank_present(2) [OF o s] ..
qed

lemma upd_sorted_range:
  assumes o: "tree_order cmp" and s: "entries_sorted cmp es" and e: "entry_key e = k"
  shows "entries_sorted cmp (upd cmp k e es)" "x \<in> set (upd cmp k e es) \<Longrightarrow> x = e \<or> x \<in> set es"
proof -
  let ?r = "rank cmp k es" and ?a = "if present cmp k es then rank cmp k es - 1 else rank cmp k es"
  have u: "upd cmp k e es = take ?a es @ e # drop ?r es" unfolding upd_def rank_present(1,2) [OF o s] ..
  have tw: "x \<in> set (take ?a es) \<Longrightarrow> cmp k (entry_key x) > 0" for x
    unfolding rank_present(1) [OF o s, symmetric] by (auto dest: set_takeWhileD)
  have dw: "cmp k (entry_key x) < 0" if "x \<in> set (drop ?r es)" for x
  proof -
    note xin = that
    obtain i where "i < length es - ?r" "x = es ! (?r + i)" using xin by (auto simp: in_set_conv_nth)
    then show ?thesis using rank_above [OF o s, of k "?r + i"] by simp
  qed
  have td: "entries_sorted cmp (take ?a es)" "entries_sorted cmp (drop ?r es)"
    using s unfolding entries_sorted_def by (auto intro: sorted_wrt_take sorted_wrt_drop)
  have "cmp (entry_key x) k < 0" if "x \<in> set (take ?a es)" for x using tw [OF that] tree_orderD(4) [OF o] by blast
  then show "entries_sorted cmp (upd cmp k e es)"
    unfolding u using td dw e tree_orderD(5) [OF o] by (fastforce simp: less_imp_le)
  show "x \<in> set (upd cmp k e es) \<Longrightarrow> x = e \<or> x \<in> set es" unfolding u by (auto dest: in_set_takeD in_set_dropD)
qed

lemma upd_present:
  assumes o: "tree_order cmp" and s: "entries_sorted cmp es" and p: "present cmp k es"
  shows "upd cmp k e es = es[rank cmp k es - 1 := e]"
proof -
  let ?r = "rank cmp k es"
  have "0 < ?r" "?r \<le> length es" using p rank_le [of cmp k es] by (auto simp: present_def)
  then have "?r - 1 < length es" "Suc (?r - 1) = ?r" by simp_all
  then have "es[?r - 1 := e] = take (?r - 1) es @ e # drop ?r es" using upd_conv_take_nth_drop [of "?r - 1" es e] by simp
  then show ?thesis unfolding upd_def rank_present(1,2) [OF o s] using p by simp
qed

lemma leaf_tree_upd:
  assumes o: "tree_order cmp" and t: "bt_tree cmp m N 0 lo hi a" and k: "in_range cmp lo hi k"
    and e: "entry_key e = k" "ext_ok e"
  shows "over_tree cmp m (N(a := (N a)\<lparr>bn_entries := upd cmp k e (bn_entries (N a))\<rparr>)) 0 lo hi a"
proof -
  have s: "entries_sorted cmp (bn_entries (N a))" using t by (simp add: node_ok_def)
  show ?thesis using t k e upd_sorted_range [OF o s e(1)] by (auto simp: node_ok_def)
qed

definition insert_outcome ::
  "'r bt_ctx \<Rightarrow> (nat \<Rightarrow> u64 set \<Rightarrow> 'r \<Rightarrow> bool) \<Rightarrow> nat \<Rightarrow> u64 set \<Rightarrow> 'r insert_state \<Rightarrow> nat \<Rightarrow> byte list option \<Rightarrow> byte list option \<Rightarrow>
   u64 \<Rightarrow> byte list \<Rightarrow> (nat \<Rightarrow> u64 list) \<Rightarrow> (nat \<Rightarrow> u64 list) \<Rightarrow> (nat \<Rightarrow> u64 list) \<Rightarrow> (int \<times> 'r insert_state) option \<Rightarrow> bool" where
  "insert_outcome X room n U S h lo hi a key L pre post res \<longleftrightarrow>
     (let C = contents (bt_nodes (is_tree S)) h a; flags = ih_flags (is_hints S)
      in (find_entry key C \<noteq> None \<and> \<not> may_replace flags \<and> (\<exists>S'. res = Some (DUPLICATE_KEY, S') \<and> is_tree S' = is_tree S)) \<or>
         ((find_entry key C \<noteq> None \<longrightarrow> may_replace flags) \<and>
          (\<exists>e st S'. res = Some (st, S') \<and> ins_post X room n U S h lo hi a key e L pre post st S' \<and>
             stored X (unat (bt_keysize (is_tree S))) key (old_record key C) flags e)))"

text \<open>What the descent needs of the state: capacity and no forced end.\<close>

definition insert_ready :: "'r insert_state \<Rightarrow> bool" where
  "insert_ready S \<longleftrightarrow> 3 \<le> bt_maxkeys (is_tree S) \<and> bt_maxkeys (is_tree S) \<le> MAX_KEYS_PER_NODE \<and>
     \<not> ih_force_append (is_hints S) \<and> \<not> ih_force_prepend (is_hints S)"

lemma insert_leaf:
  assumes o: "tree_order (bx_compare X)" and env: "insert_env X room" and rdy: "insert_ready S"
    and room: "room (Suc n) U (bt_env (is_tree S))"
    and t: "bt_tree (bx_compare X) (bt_maxkeys (is_tree S)) (bt_nodes (is_tree S)) 0 lo hi a" and k: "in_range (bx_compare X) lo hi key"
    and pl: "placed (bt_nodes (is_tree S)) L 0 pre a post" and U: "\<And>j. set (L j) \<subseteq> U"
    and fl: "\<And>e. e \<in> set (bn_entries (bt_nodes (is_tree S) a)) \<Longrightarrow> flagged (unat (bt_keysize (is_tree S))) e"
  shows "insert_outcome X room n U S 0 lo hi a key L pre post (insert_in_page X a key rid S)"
proof -
  let ?cmp = "bx_compare X" and ?m = "bt_maxkeys (is_tree S)" and ?ks = "unat (bt_keysize (is_tree S))" and ?flags = "ih_flags (is_hints S)"
  define N where "N = bt_nodes (is_tree S)"
  define es where "es = bn_entries (N a)"
  define r where "r = rank ?cmp key es"
  have leaf: "btree_node_is_leaf (N a)" and s: "entries_sorted ?cmp es" and len: "length es \<le> ?m"
    and ok: "\<And>e. e \<in> set es \<Longrightarrow> ext_ok e \<and> flagged ?ks e" and a0: "a \<noteq> 0"
    using t fl by (auto simp: btree_node_is_leaf_def node_ok_def es_def N_def)
  have snd: "sound_at X S a" using rdy s len by (simp add: sound_at_def insert_ready_def es_def N_def)
  have La: "L 0 = pre 0 @ a # post 0" using placed_root [OF pl] .
  have aU: "a \<in> U" using La U [of 0] by auto
  have lk: "linked N L" using pl by (simp add: placed_def N_def)
  have fe: "find_entry key es = (if present ?cmp key es then Some (es ! (r - 1)) else None)"
    using rank_present(3) [OF o s, of key] by (simp add: r_def)
  have post0: "ins_post X room n U S 0 lo hi a key e L pre post 0 S'"
    if ks: "keeps S S'" and N': "bt_nodes (is_tree S') = N(a := (N a)\<lparr>bn_entries := upd ?cmp key e es\<rparr>)"
      and e: "entry_key e = key" "ext_ok e" and le: "length (upd ?cmp key e es) \<le> ?m" for e S'
  proof -
    have "over_tree ?cmp ?m (bt_nodes (is_tree S')) 0 lo hi a"
      using leaf_tree_upd [OF o t k e] unfolding N' es_def N_def .
    then have "bt_tree ?cmp ?m (bt_nodes (is_tree S')) 0 lo hi a" unfolding over_tree_iff using le by (simp add: N')
    moreover have "linked (bt_nodes (is_tree S')) L" using lk linked_cong [of L "bt_nodes (is_tree S')" N] by (simp add: N')
    moreover have "relevel L 0 pre (\<lambda>k. level (bt_nodes (is_tree S')) 0 k a) post = L"
      using La by (auto simp: relevel_def)
    moreover have "upd ?cmp key e es \<noteq> []" by (simp add: upd_def)
    ultimately show ?thesis
      unfolding ins_post_def Let_def using ks SPLIT_ne(1) by (simp add: N' N_def [symmetric] es_def [symmetric])
  qed
  show ?thesis
  proof (cases "present ?cmp key es")
    case True
    have r: "0 < r" "r \<le> length es" using True rank_le [of ?cmp key es] by (auto simp: present_def r_def)
    obtain idx kf where se: "btree_node_search_by_key X (N a) key 0 HAM_FIND_EXACT_MATCH = Some (idx, kf)" "idx \<ge> 0"
      using search_exact [OF o, of "N a" key] snd True unfolding sound_at_def es_def N_def by blast
    note np = insert_nosplit_present [OF o env room snd, of key rid, folded N_def, folded es_def, folded r_def, OF leaf True ok]
    show ?thesis
    proof (cases "may_replace ?flags")
      case False
      then have "insert_nosplit X a key rid S = Some (DUPLICATE_KEY, S)" using np(1) by (simp add: may_replace_def)
      then have "\<exists>S'. insert_in_page X a key rid S = Some (DUPLICATE_KEY, S') \<and> is_tree S' = is_tree S"
        using se False leaf by (simp add: insert_in_page_def Let_def N_def may_replace_def)
      then show ?thesis using False fe True by (simp add: insert_outcome_def Let_def N_def [symmetric] es_def [symmetric])
    next
      case rep: True
      obtain e S' where ns: "insert_nosplit X a key rid S = Some (0, S')"
        "bt_nodes (is_tree S') = N(a := (N a)\<lparr>bn_entries := es[r - 1 := e]\<rparr>)" "keeps S S'"
        "stored X ?ks key (be_ptr (es ! (r - 1)), be_flags (es ! (r - 1))) ?flags e"
        using np(2) rep unfolding may_replace_def by blast
      have ip: "insert_in_page X a key rid S = Some (0, S'\<lparr>is_cursor := None\<rparr>)"
        using se rep leaf ns(1) by (simp add: insert_in_page_def Let_def N_def may_replace_def)
      have u: "es[r - 1 := e] = upd ?cmp key e es" using upd_present [OF o s True] by (simp add: r_def)
      have "ins_post X room n U S 0 lo hi a key e L pre post 0 (S'\<lparr>is_cursor := None\<rparr>)"
        by (rule post0) (use ns u len in \<open>auto simp: keeps_def stored_def u [symmetric]\<close>)
      moreover have "old_record key es = (be_ptr (es ! (r - 1)), be_flags (es ! (r - 1)))" using fe True by (simp add: old_record_def)
      ultimately show ?thesis using ip ns(4) rep
        by (auto simp: insert_outcome_def Let_def N_def [symmetric] es_def [symmetric])
    qed
  next
    case False
    have m3: "3 \<le> ?m" using rdy by (simp add: insert_ready_def)
    have pt: "\<not> btree_node_is_leaf (N a) \<longrightarrow> (\<forall>e \<in> set es. be_ptr e \<noteq> 0)" using leaf by simp
    obtain e S' where ia: "stored X ?ks key (0, 0) ?flags e" "keeps S S'"
      "insert_in_page X a key rid S = Some (0, S') \<and> length es < ?m \<and>
        bt_nodes (is_tree S') = N(a := (N a)\<lparr>bn_entries := take r es @ e # drop r es\<rparr>) \<or>
      insert_in_page X a key rid S = Some (SPLIT, S') \<and>
        (\<exists>A pe B. take r es @ e # drop r es = A @ pe # B \<and> A \<noteq> [] \<and> B \<noteq> [] \<and> length A < length es \<and> length B < length es \<and>
           is_rid S' \<noteq> 0 \<and> is_rid S' \<notin> U \<and> is_key S' = entry_key pe \<and> page_split N a True (is_rid S') A pe B (bt_nodes (is_tree S')) \<and>
           room n (insert (is_rid S') U) (bt_env (is_tree S')))"
      using insert_in_page_absent [OF o env room aU snd, of key rid, folded N_def, folded es_def, folded r_def, OF False m3 pt,
        unfolded eqTrueI [OF leaf] if_True]
      by (elim exE conjE) (rule that; assumption)
    have u: "take r es @ e # drop r es = upd ?cmp key e es" using absent_split(3) [OF o s False] by (simp add: r_def)
    have e: "entry_key e = key" "ext_ok e" using ia(1) by (simp_all add: stored_def)
    have old: "old_record key es = (0, 0)" "find_entry key es = None" using fe False by (simp_all add: old_record_def)
    have "\<exists>st. insert_in_page X a key rid S = Some (st, S') \<and> ins_post X room n U S 0 lo hi a key e L pre post st S'"
      using ia(3)
    proof
      assume c: "insert_in_page X a key rid S = Some (0, S') \<and> length es < ?m \<and>
        bt_nodes (is_tree S') = N(a := (N a)\<lparr>bn_entries := take r es @ e # drop r es\<rparr>)"
      have "r \<le> length es" unfolding r_def by (rule rank_le)
      then have "length (upd ?cmp key e es) \<le> ?m" unfolding u [symmetric] using c by simp
      with post0 [OF ia(2) _ e] c show ?thesis unfolding u by blast
    next
      assume c: "insert_in_page X a key rid S = Some (SPLIT, S') \<and>
        (\<exists>A pe B. take r es @ e # drop r es = A @ pe # B \<and> A \<noteq> [] \<and> B \<noteq> [] \<and> length A < length es \<and> length B < length es \<and>
           is_rid S' \<noteq> 0 \<and> is_rid S' \<notin> U \<and> is_key S' = entry_key pe \<and> page_split N a True (is_rid S') A pe B (bt_nodes (is_tree S')) \<and>
           room n (insert (is_rid S') U) (bt_env (is_tree S')))"
      then obtain A pe B where sp: "take r es @ e # drop r es = A @ pe # B" "A \<noteq> []" "B \<noteq> []" "length A < length es" "length B < length es"
        "is_rid S' \<noteq> 0" "is_rid S' \<notin> U" "is_key S' = entry_key pe" "page_split N a True (is_rid S') A pe B (bt_nodes (is_tree S'))"
        "room n (insert (is_rid S') U) (bt_env (is_tree S'))" by blast
      define N1 where "N1 = N(a := (N a)\<lparr>bn_entries := A @ pe # B\<rparr>)"
      have ov: "over_tree ?cmp ?m N1 0 lo hi a"
        using leaf_tree_upd [OF o t k e] u sp(1) unfolding N1_def es_def N_def by simp
      have pl1: "placed N1 L 0 pre a post"
        using pl linked_cong [of L N1 N] by (simp add: placed_def N1_def N_def [symmetric])
      have sp1: "page_split N1 a (0 = (0 :: nat)) (is_rid S') A pe B (bt_nodes (is_tree S'))"
        using sp(9) by (simp add: page_split_def N1_def)
      have es1: "bn_entries (N1 a) = A @ pe # B" by (simp add: N1_def)
      have lm: "length A \<le> ?m" "length B < ?m" using sp(4,5) len by simp_all
      note ps = page_split_tree [OF o ov pl1 U sp1 es1 sp(2,3) lm sp(6,7)]
      have C: "contents N1 0 a = upd ?cmp key e es" using u sp(1) es1 by simp
      have nl: "bn_entries (bt_nodes (is_tree S') a) \<noteq> []" "bn_entries (bt_nodes (is_tree S') (is_rid S')) \<noteq> []"
      proof -
        obtain N2 where "bt_nodes (is_tree S') = link_after a (is_rid S') N2" "N2 a = (N a)\<lparr>bn_entries := A\<rparr>"
          "bn_entries (N2 (is_rid S')) = pe # B" using sp(9) unfolding page_split_def by auto
        moreover from this(1) have "bn_entries (bt_nodes (is_tree S') b) = bn_entries (N2 b)" for b
          using body_link_after [of a "is_rid S'" N2 b] unfolding body_eq by simp
        ultimately show "bn_entries (bt_nodes (is_tree S') a) \<noteq> []" "bn_entries (bt_nodes (is_tree S') (is_rid S')) \<noteq> []"
          using sp(2) by simp_all
      qed
      have bod: "\<forall>b \<in> U. b \<noteq> a \<longrightarrow> body (bt_nodes (is_tree S') b) = body (N b)"
        using ps(7) sp(7) by (auto simp: N1_def)
      have "ins_post X room n U S 0 lo hi a key e L pre post SPLIT S'"
        unfolding ins_post_def Let_def if_P [OF refl]
        using ia(2) ps(1-4,6) C nl bod sp(7,8) aU sp(10)
        by (auto simp: N_def [symmetric] es_def [symmetric] intro!: exI [of _ "insert (is_rid S') U"])
      with c show ?thesis by blast
    qed
    then show ?thesis using ia(1) old by (auto simp: insert_outcome_def Let_def N_def [symmetric] es_def [symmetric])
  qed
qed

end
