(* ===== verification/Ham_Bt_Descent.thy ===== *)
theory Ham_Bt_Descent
  imports Ham_Bt_Insert
begin

text \<open>
  The recursive descent of an insertion, \<open>src/btree_insert.cc\<close>: an insertion into a tree of any
  height, with the splits it propagates, a new root, and the fast path for keys at either end.
  The definitions are in the theory before; here is what they do to the whole tree.
\<close>

section \<open>From a child to its parent\<close>

lemma contents_beside:
  assumes o: "tree_order cmp" and t: "bt_tree cmp m N (Suc h) lo hi a" and r: "r = rank cmp k (bn_entries (N a))"
  shows "e \<in> set (concat (map (contents N h) (take r (child_ptrs (N a))))) \<Longrightarrow> cmp k (entry_key e) > 0"
    "e \<in> set (concat (map (contents N h) (drop (Suc r) (child_ptrs (N a))))) \<Longrightarrow> cmp k (entry_key e) < 0"
  using in_concat_take [of e "contents N h" r "child_ptrs (N a)"] in_concat_drop [of e "contents N h" "Suc r" "child_ptrs (N a)"]
    tree_beside [OF o t] unfolding r by (meson Suc_le_lessD)+

lemma contents_child:
  assumes o: "tree_order cmp" and t: "bt_tree cmp m N (Suc h) lo hi a" and k: "in_range cmp lo hi k"
  defines "r \<equiv> rank cmp k (bn_entries (N a))"
  defines "CA \<equiv> concat (map (contents N h) (take r (child_ptrs (N a))))"
    and "CB \<equiv> concat (map (contents N h) (drop (Suc r) (child_ptrs (N a))))"
  shows "upd cmp k e (contents N (Suc h) a) = CA @ upd cmp k e (contents N h (child_ptrs (N a) ! r)) @ CB"
    "find_entry k (contents N (Suc h) a) = find_entry k (contents N h (child_ptrs (N a) ! r))"
proof -
  have r: "r < length (child_ptrs (N a))" unfolding r_def by (rule tree_child(1) [OF o t k])
  have c: "contents N (Suc h) a = CA @ contents N h (child_ptrs (N a) ! r) @ CB"
    unfolding CA_def CB_def by (rule contents_split [where N = N and a = a and h = h, OF r])
  note b = contents_beside [OF o t r_def [THEN meta_eq_to_obj_eq], folded CA_def CB_def]
  show "upd cmp k e (contents N (Suc h) a) = CA @ upd cmp k e (contents N h (child_ptrs (N a) ! r)) @ CB"
  proof -
    have "upd cmp k e (CA @ contents N h (child_ptrs (N a) ! r) @ CB) = CA @ upd cmp k e (contents N h (child_ptrs (N a) ! r) @ CB)"
      by (rule upd_right) (rule b(1))
    moreover have "upd cmp k e (contents N h (child_ptrs (N a) ! r) @ CB) = upd cmp k e (contents N h (child_ptrs (N a) ! r)) @ CB"
      by (rule upd_left) (rule b(2))
    ultimately show ?thesis unfolding c by simp
  qed
  have z: "cmp k k = 0" using tree_orderD(3) [OF o, of k k] by simp
  have "entry_key e \<noteq> k" if "e \<in> set CA \<or> e \<in> set CB" for e using that b [of e] z by auto
  then have "find_entry k CA = None" "find_entry k CB = None" unfolding find_entry_None by blast+
  then show "find_entry k (contents N (Suc h) a) = find_entry k (contents N h (child_ptrs (N a) ! r))"
    unfolding c by (auto simp: find_entry_append split: option.splits)
qed

lemma rank_strict:
  assumes o: "tree_order cmp" and s: "entries_sorted cmp es" and r: "r \<le> length es"
    and x: "kids lo hi p es ! r = (l, u, c)" and k: "strictly_in cmp l u k"
  shows "rank cmp k es = r" "\<not> present cmp k es"
proof -
  note b = strictly_between [OF o s r x k]
  have low: "cmp k (entry_key (es ! i)) > 0" if "i < r" for i
  proof -
    have "es ! i \<in> set (take r es)" using that r by (auto simp: in_set_conv_nth)
    then show ?thesis using b(1) tree_orderD(4) [OF o] by blast
  qed
  show rk: "rank cmp k es = r"
  proof (rule rankI [OF r])
    show "cmp k (entry_key (es ! i)) \<ge> 0" if "i < r" for i using low [OF that] by simp
    show "cmp k (entry_key (es ! r)) < 0" if "r < length es"
    proof (rule b(2))
      show "es ! r \<in> set (drop r es)" using that by (metis Cons_nth_drop_Suc list.set_intros(1))
    qed
  qed
  show "\<not> present cmp k es"
  proof
    assume "present cmp k es"
    then have "r > 0" "entry_key (es ! (r - 1)) = k" using rk by (auto simp: present_def)
    then show False using low [of "r - 1"] tree_orderD(3) [OF o, of k k] by simp
  qed
qed

text \<open>Only the subtree of one child was touched, apart from sibling links.\<close>

lemma others_kept_frame:
  assumes pl: "placed N L (Suc h) pre a post" and U: "\<And>k. set (L k) \<subseteq> U" and r: "r < length (child_ptrs (N a))"
    and fr: "\<forall>b \<in> U. b \<notin> pages N h (child_ptrs (N a) ! r) \<longrightarrow> body (N' b) = body (N b)"
  shows "others_kept N N' h a r" "a \<in> U" "pages N (Suc h) a \<subseteq> U"
proof -
  show pU: "pages N (Suc h) a \<subseteq> U" using placed_pages [OF pl] U by blast
  then show aU: "a \<in> U" by simp
  show "others_kept N N' h a r"
    unfolding others_kept_def
  proof (intro conjI allI impI ballI)
    show "body (N' a) = body (N a)" using fr aU placed_not_in_child [OF pl r] by blast
    fix i x assume i: "i < length (child_ptrs (N a))" "i \<noteq> r" and x: "x \<in> pages N h (child_ptrs (N a) ! i)"
    have "x \<in> U" using x pU i(1) nth_mem by fastforce
    moreover have "x \<notin> pages N h (child_ptrs (N a) ! r)" using placed_others [OF pl r i] x by blast
    ultimately show "body (N' x) = body (N x)" using fr by blast
  qed
qed

lemma relevel_child:
  assumes pl: "placed N L (Suc h) pre a post" and r: "r < length (child_ptrs (N a))"
    and f: "\<And>k. k \<le> h \<Longrightarrow> g k = before N h a r k @ f k @ behind N h a r k" and top: "g (Suc h) = [a]"
  shows "relevel L h (\<lambda>k. pre k @ before N h a r k) f (\<lambda>k. behind N h a r k @ post k) = relevel L (Suc h) pre g post"
proof
  fix k
  show "relevel L h (\<lambda>k. pre k @ before N h a r k) f (\<lambda>k. behind N h a r k @ post k) k = relevel L (Suc h) pre g post k"
    using f [of k] top placed_root [OF pl] by (cases "k \<le> h"; cases "k = Suc h") (auto simp: relevel_def)
qed

lemma leaves_kept:
  assumes k: "others_kept N N' h a r" and r: "r < length (child_ptrs (N a))"
    and ne: "\<forall>x \<in> set (level N (Suc h) 0 a). bn_entries (N x) \<noteq> []"
    and x: "x \<in> set (before N h a r 0) \<or> x \<in> set (behind N h a r 0)"
  shows "bn_entries (N' x) \<noteq> []"
proof -
  obtain i where i: "i < length (child_ptrs (N a))" "i \<noteq> r" "x \<in> set (level N h 0 (child_ptrs (N a) ! i))"
    using x in_concat_take [of x "level N h 0" r "child_ptrs (N a)"] in_concat_drop [of x "level N h 0" "Suc r" "child_ptrs (N a)"]
    unfolding before_def behind_def by (metis Suc_le_lessD nat_neq_iff)
  have "x \<in> pages N h (child_ptrs (N a) ! i)" using i(3) pages_level by blast
  then have "bn_entries (N' x) = bn_entries (N x)" using k i(1,2) by (simp add: others_kept_def body_eq)
  moreover have "x \<in> set (level N (Suc h) 0 a)" using level_split [where N = N and a = a and k = 0, OF r] x by (auto simp: before_def behind_def)
  ultimately show ?thesis using ne by metis
qed

section \<open>The two outcomes of an insertion\<close>

lemma ins_post_zero:
  "ins_post X room n U S h lo hi a key e L pre post 0 S' \<longleftrightarrow>
     keeps S S' \<and>
     (\<forall>b \<in> U. b \<notin> pages (bt_nodes (is_tree S)) h a \<longrightarrow> body (bt_nodes (is_tree S') b) = body (bt_nodes (is_tree S) b)) \<and>
     linked (bt_nodes (is_tree S')) (relevel L h pre (\<lambda>k. level (bt_nodes (is_tree S')) h k a) post) \<and>
     contents (bt_nodes (is_tree S')) h a = upd (bx_compare X) key e (contents (bt_nodes (is_tree S)) h a) \<and>
     pages (bt_nodes (is_tree S')) h a \<subseteq> pages (bt_nodes (is_tree S)) h a \<union> - U \<and>
     ((\<forall>x \<in> set (level (bt_nodes (is_tree S)) h 0 a). h = 0 \<or> bn_entries (bt_nodes (is_tree S) x) \<noteq> []) \<longrightarrow>
        (\<forall>x \<in> set (level (bt_nodes (is_tree S')) h 0 a). bn_entries (bt_nodes (is_tree S') x) \<noteq> [])) \<and>
     bt_tree (bx_compare X) (bt_maxkeys (is_tree S)) (bt_nodes (is_tree S')) h lo hi a"
  using SPLIT_ne(1) by (simp add: ins_post_def Let_def)

lemma ins_post_split:
  "ins_post X room n U S h lo hi a key e L pre post SPLIT S' \<longleftrightarrow>
     keeps S S' \<and>
     (\<forall>b \<in> U. b \<notin> pages (bt_nodes (is_tree S)) h a \<longrightarrow> body (bt_nodes (is_tree S') b) = body (bt_nodes (is_tree S) b)) \<and>
     linked (bt_nodes (is_tree S')) (relevel L h pre (\<lambda>k. level (bt_nodes (is_tree S')) h k a @ level (bt_nodes (is_tree S')) h k (is_rid S')) post) \<and>
     contents (bt_nodes (is_tree S')) h a @ contents (bt_nodes (is_tree S')) h (is_rid S') =
       upd (bx_compare X) key e (contents (bt_nodes (is_tree S)) h a) \<and>
     pages (bt_nodes (is_tree S')) h a \<union> pages (bt_nodes (is_tree S')) h (is_rid S') \<subseteq> pages (bt_nodes (is_tree S)) h a \<union> - U \<and>
     ((\<forall>x \<in> set (level (bt_nodes (is_tree S)) h 0 a). h = 0 \<or> bn_entries (bt_nodes (is_tree S) x) \<noteq> []) \<longrightarrow>
        (\<forall>x \<in> set (level (bt_nodes (is_tree S')) h 0 a @ level (bt_nodes (is_tree S')) h 0 (is_rid S')).
           bn_entries (bt_nodes (is_tree S') x) \<noteq> [])) \<and>
     bt_tree (bx_compare X) (bt_maxkeys (is_tree S)) (bt_nodes (is_tree S')) h lo (Some (is_key S')) a \<and>
     bt_tree (bx_compare X) (bt_maxkeys (is_tree S)) (bt_nodes (is_tree S')) h (Some (is_key S')) hi (is_rid S') \<and>
     strictly_in (bx_compare X) lo hi (is_key S') \<and>
     (\<exists>U'. U \<subseteq> U' \<and> pages (bt_nodes (is_tree S')) h a \<union> pages (bt_nodes (is_tree S')) h (is_rid S') \<subseteq> U' \<and>
        room n U' (bt_env (is_tree S')))"
  by (simp add: ins_post_def Let_def ball_Un)

section \<open>One level up\<close>

lemma pages_children:
  "r < length (child_ptrs (N a)) \<Longrightarrow> others_kept N N' h a r \<Longrightarrow> pages N' h (child_ptrs (N a) ! r) \<subseteq> pages N h (child_ptrs (N a) ! r) \<union> V \<Longrightarrow>
   pages N' (Suc h) a \<subseteq> pages N (Suc h) a \<union> V"
proof
  fix x assume r: "r < length (child_ptrs (N a))" and k: "others_kept N N' h a r"
    and c: "pages N' h (child_ptrs (N a) ! r) \<subseteq> pages N h (child_ptrs (N a) ! r) \<union> V" and x: "x \<in> pages N' (Suc h) a"
  from x have "x = a \<or> (\<exists>c \<in> set (child_ptrs (N a)). x \<in> pages N' h c)" by (simp add: others_keptD(3) [OF k])
  then have "x = a \<or> (\<exists>i < length (child_ptrs (N a)). x \<in> pages N' h (child_ptrs (N a) ! i))" by (auto simp: in_set_conv_nth)
  then show "x \<in> pages N (Suc h) a \<union> V"
  proof (elim disjE exE conjE)
    fix i assume i: "i < length (child_ptrs (N a))" "x \<in> pages N' h (child_ptrs (N a) ! i)"
    have "x \<in> pages N h (child_ptrs (N a) ! i) \<union> V" using i c others_keptD(6) [OF k i(1)] by (cases "i = r") auto
    then show ?thesis using nth_mem [OF i(1)] by auto
  qed simp
qed

lemma insert_step_kept:
  assumes o: "tree_order (bx_compare X)" and t: "bt_tree (bx_compare X) (bt_maxkeys (is_tree S)) (bt_nodes (is_tree S)) (Suc h) lo hi a"
    and k: "in_range (bx_compare X) lo hi key" and pl: "placed (bt_nodes (is_tree S)) L (Suc h) pre a post" and U: "\<And>j. set (L j) \<subseteq> U"
  defines "N \<equiv> bt_nodes (is_tree S)"
  defines "r \<equiv> rank (bx_compare X) key (bn_entries (N a))"
  assumes x: "kids lo hi (bn_ptr_left (N a)) (bn_entries (N a)) ! r = (l, u, child_ptrs (N a) ! r)"
    and c: "ins_post X room (Suc n) U S h l u (child_ptrs (N a) ! r) key e L (\<lambda>k. pre k @ before N h a r k) (\<lambda>k. behind N h a r k @ post k) 0 S1"
  shows "ins_post X room n U S (Suc h) lo hi a key e L pre post 0 S1"
proof -
  define N1 where "N1 = bt_nodes (is_tree S1)"
  let ?c = "child_ptrs (N a) ! r"
  note c = c [unfolded ins_post_zero, folded N_def N1_def]
  have r: "r < length (child_ptrs (N a))" using tree_child(1) [OF o t k] by (simp add: r_def N_def)
  note fr = others_kept_frame [OF pl [folded N_def] U r, of N1]
  have ok: "others_kept N N1 h a r" by (rule fr(1)) (use c in blast)
  note ol = others_levels [OF ok] and od = others_keptD [OF ok]
  have r1: "r < length (child_ptrs (N1 a))" using r od(3) by simp
  have lv: "level N1 (Suc h) j a = before N h a r j @ level N1 h j ?c @ behind N h a r j" if "j \<le> h" for j
    using level_split [where N = N1 and a = a, OF r1 that, folded before_def behind_def] od(3) ol(1,2) [of j] by simp
  have "relevel L h (\<lambda>k. pre k @ before N h a r k) (\<lambda>k. level N1 h k ?c) (\<lambda>k. behind N h a r k @ post k) =
      relevel L (Suc h) pre (\<lambda>k. level N1 (Suc h) k a) post"
    by (rule relevel_child [OF pl [folded N_def] r]) (use lv in \<open>auto simp del: level.simps(2)\<close>, simp)
  then have lk: "linked N1 (relevel L (Suc h) pre (\<lambda>k. level N1 (Suc h) k a) post)" using c by simp
  have ct: "contents N1 (Suc h) a = upd (bx_compare X) key e (contents N (Suc h) a)"
    unfolding contents_child(1) [OF o t k, folded N_def, folded r_def] contents_split [where N = N1 and a = a and h = h, OF r1] od(3) ol(3,4)
    using c by simp
  have tr: "bt_tree (bx_compare X) (bt_maxkeys (is_tree S)) N1 (Suc h) lo hi a"
    by (rule tree_child_changed [OF t [folded N_def] r x ok]) (use c in blast)
  have pg: "pages N1 (Suc h) a \<subseteq> pages N (Suc h) a \<union> - U"
    by (rule pages_children [OF r ok]) (use c in blast)
  have fm: "\<forall>b \<in> U. b \<notin> pages N (Suc h) a \<longrightarrow> body (N1 b) = body (N b)"
  proof -
    have "pages N h ?c \<subseteq> pages N (Suc h) a" using nth_mem [OF r] by auto
    then show ?thesis using c by blast
  qed
  have ne: "\<forall>x \<in> set (level N1 (Suc h) 0 a). bn_entries (N1 x) \<noteq> []" if nz: "\<forall>x \<in> set (level N (Suc h) 0 a). bn_entries (N x) \<noteq> []"
  proof -
    have "\<forall>x \<in> set (level N h 0 ?c). bn_entries (N x) \<noteq> []"
      using nz level_split [where N = N and a = a and k = 0 and h = h, OF r] by (simp del: level.simps)
    then have "\<forall>x \<in> set (level N1 h 0 ?c). bn_entries (N1 x) \<noteq> []" using c by blast
    then show ?thesis using leaves_kept [OF ok r nz] lv [of 0] by (auto simp del: level.simps)
  qed
  show ?thesis unfolding ins_post_zero N_def [symmetric] N1_def [symmetric] using c lk ct tr pg fm ne by blast
qed

text \<open>
  A child was split: the parent with the entry of the new page is a tree, with possibly one entry too many.
\<close>

lemma insert_step_parent:
  assumes o: "tree_order (bx_compare X)" and t: "bt_tree (bx_compare X) (bt_maxkeys (is_tree S)) (bt_nodes (is_tree S)) (Suc h) lo hi a"
    and k: "in_range (bx_compare X) lo hi key" and pl: "placed (bt_nodes (is_tree S)) L (Suc h) pre a post" and U: "\<And>j. set (L j) \<subseteq> U"
  fixes S1
  defines "N \<equiv> bt_nodes (is_tree S)" and "N1 \<equiv> bt_nodes (is_tree S1)"
  defines "r \<equiv> rank (bx_compare X) key (bn_entries (N a))"
  assumes x: "kids lo hi (bn_ptr_left (N a)) (bn_entries (N a)) ! r = (l, u, child_ptrs (N a) ! r)"
    and c: "ins_post X room (Suc n) U S h l u (child_ptrs (N a) ! r) key e L (\<lambda>k. pre k @ before N h a r k) (\<lambda>k. behind N h a r k @ post k) SPLIT S1"
    and e2: "linking ks (is_key S1) (is_rid S1) e2"
  defines "M \<equiv> N1(a := (N1 a)\<lparr>bn_entries := take r (bn_entries (N a)) @ e2 # drop r (bn_entries (N a))\<rparr>)"
  defines "L1 \<equiv> relevel L (Suc h) pre (\<lambda>k. level M (Suc h) k a) post"
  shows "others_kept N N1 h a r" "over_tree (bx_compare X) (bt_maxkeys (is_tree S)) M (Suc h) lo hi a"
    "contents M (Suc h) a = upd (bx_compare X) key e (contents N (Suc h) a)"
    "placed M L1 (Suc h) pre a post" "pages M (Suc h) a \<subseteq> pages N (Suc h) a \<union> - U"
    "\<forall>b \<in> U. b \<notin> pages N (Suc h) a \<longrightarrow> body (M b) = body (N b)"
    "\<forall>x \<in> set (level N (Suc h) 0 a). bn_entries (N x) \<noteq> [] \<Longrightarrow> \<forall>x \<in> set (level M (Suc h) 0 a). bn_entries (M x) \<noteq> []"
    "U \<subseteq> U' \<Longrightarrow> pages N1 h (child_ptrs (N a) ! r) \<union> pages N1 h (is_rid S1) \<subseteq> U' \<Longrightarrow> set (L1 j) \<subseteq> U'"
proof -
  let ?c = "child_ptrs (N a) ! r" and ?y = "is_rid S1"
  note c = c [unfolded ins_post_split, folded N_def N1_def]
  have e: "entry_key e2 = is_key S1" "be_ptr e2 = ?y" "ext_ok e2" "be_flags e2 = 0 \<or> be_flags e2 = KEY_IS_EXTENDED8"
    using e2 by (simp_all add: linking_def)
  have r: "r < length (child_ptrs (N a))" using tree_child(1) [OF o t k] by (simp add: r_def N_def)
  note pl = pl [folded N_def] and t = t [folded N_def]
  note fr = others_kept_frame [OF pl U r, of N1]
  show ok: "others_kept N N1 h a r" by (rule fr(1)) (use c in blast)
  have aU: "a \<in> U" "pages N (Suc h) a \<subseteq> U" by (rule fr(2), use c in blast, rule fr(3), use c in blast)
  have na: "a \<notin> pages N1 h ?c" "a \<notin> pages N1 h ?y" "\<And>i. i < length (child_ptrs (N a)) \<Longrightarrow> a \<notin> pages N h (child_ptrs (N a) ! i)"
    using c aU(1) placed_not_in_child [OF pl] r by blast+
  have sub: "pages N h ?c \<subseteq> pages N (Suc h) a" using nth_mem [OF r] by auto
  have Ma: "bn_ptr_left (M a) = bn_ptr_left (N a)" "bn_entries (M a) = take r (bn_entries (N a)) @ e2 # drop r (bn_entries (N a))"
    "\<And>b. b \<noteq> a \<Longrightarrow> body (M b) = body (N1 b)" using others_keptD(1) [OF ok] by (simp_all add: M_def)
  have ct: "bt_tree (bx_compare X) (bt_maxkeys (is_tree S)) N1 h l (Some (entry_key e2)) ?c"
    "bt_tree (bx_compare X) (bt_maxkeys (is_tree S)) N1 h (Some (entry_key e2)) u (be_ptr e2)" "strictly_in (bx_compare X) l u (entry_key e2)"
    using c e by simp_all
  have sp: "over_tree (bx_compare X) (bt_maxkeys (is_tree S)) M (Suc h) lo hi a"
    "contents M (Suc h) a = concat (map (contents N h) (take r (child_ptrs (N a)))) @ contents N1 h ?c @
       contents N1 h (be_ptr e2) @ concat (map (contents N h) (drop (Suc r) (child_ptrs (N a))))"
    "\<And>j. j \<le> h \<Longrightarrow> level M (Suc h) j a = before N h a r j @ level N1 h j ?c @ level N1 h j (be_ptr e2) @ behind N h a r j"
    by (rule tree_child_split [OF o t r x ok ct(1,2,3) e(4,3) na(1) na(2) [folded e(2)] na(3) Ma]; assumption)+
  note sp = sp(1) sp(2) [unfolded e(2)] sp(3) [unfolded e(2)]
  show "over_tree (bx_compare X) (bt_maxkeys (is_tree S)) M (Suc h) lo hi a" by (rule sp(1))
  show "contents M (Suc h) a = upd (bx_compare X) key e (contents N (Suc h) a)"
  proof -
    have "contents N1 h ?c @ contents N1 h ?y = upd (bx_compare X) key e (contents N h ?c)" using c by blast
    then show ?thesis using sp(2) contents_child(1) [OF o t k, folded r_def, of e] by (simp del: contents_simps)
  qed
  have lv: "level M (Suc h) j a = before N h a r j @ (level N1 h j ?c @ level N1 h j ?y) @ behind N h a r j" if "j \<le> h" for j
    using sp(3) [OF that] by simp
  have rl: "relevel L h (\<lambda>k. pre k @ before N h a r k) (\<lambda>k. level N1 h k ?c @ level N1 h k ?y) (\<lambda>k. behind N h a r k @ post k) = L1"
    unfolding L1_def by (rule relevel_child [OF pl r]) (use lv in \<open>auto simp del: level.simps(2)\<close>, simp)
  have "linked N1 L1" using c unfolding rl by blast
  then have "linked M L1" using linked_cong [of L1 M N1] by (simp add: M_def)
  then show "placed M L1 (Suc h) pre a post" by (simp add: placed_def L1_def relevel_def del: level.simps)
  have bb: "x \<in> pages N (Suc h) a" if "x \<in> set (before N h a r j) \<or> x \<in> set (behind N h a r j)" "j \<le> h" for x j
    unfolding pages_level using that level_split [where N = N and a = a, OF r that(2), folded before_def behind_def]
    by (intro exI [of _ j]) (auto simp del: level.simps)
  have mp: "x \<in> pages N (Suc h) a \<or> x \<in> pages N1 h ?c \<or> x \<in> pages N1 h ?y" if "x \<in> pages M (Suc h) a" for x
  proof -
    note xin = that
    obtain j where j: "j \<le> Suc h" "x \<in> set (level M (Suc h) j a)" using xin pages_level by blast
    show ?thesis
    proof (cases "j \<le> h")
      case True
      then show ?thesis using j(2) bb [of x j] unfolding lv [OF True] pages_level [of x N1 h] by auto
    next
      case False
      then show ?thesis using j by simp
    qed
  qed
  show "pages M (Suc h) a \<subseteq> pages N (Suc h) a \<union> - U" using mp c sub by blast
  show "\<forall>b \<in> U. b \<notin> pages N (Suc h) a \<longrightarrow> body (M b) = body (N b)" using c sub Ma(3) by (metis insertI1 pages.simps(2) subsetD)
  show "\<forall>x \<in> set (level M (Suc h) 0 a). bn_entries (M x) \<noteq> []" if nz: "\<forall>x \<in> set (level N (Suc h) 0 a). bn_entries (N x) \<noteq> []"
  proof -
    have "\<forall>x \<in> set (level N h 0 ?c). bn_entries (N x) \<noteq> []"
      using nz level_split [where N = N and a = a and k = 0 and h = h, OF r] by (simp del: level.simps)
    then have "\<forall>x \<in> set (level N1 h 0 ?c @ level N1 h 0 ?y). bn_entries (N1 x) \<noteq> []" using c by blast
    then have "\<forall>x \<in> set (level M (Suc h) 0 a). bn_entries (N1 x) \<noteq> []"
      using leaves_kept [OF ok r nz] lv [of 0] by (auto simp del: level.simps)
    then show ?thesis by (simp add: M_def)
  qed
  show "set (L1 j) \<subseteq> U'" if "U \<subseteq> U'" "pages N1 h ?c \<union> pages N1 h ?y \<subseteq> U'"
  proof (cases "j \<le> Suc h")
    case False
    then show ?thesis using U [of j] that(1) by (simp add: L1_def relevel_def)
  next
    case True
    have "L j = pre j @ level N (Suc h) j a @ post j" using pl True by (simp add: placed_def del: level.simps)
    then have "set (pre j) \<union> set (post j) \<subseteq> U'" using U [of j] that(1) by (auto simp del: level.simps)
    moreover have "set (level M (Suc h) j a) \<subseteq> U'"
    proof
      fix x assume "x \<in> set (level M (Suc h) j a)"
      then have "x \<in> pages M (Suc h) a" using True pages_level by blast
      then show "x \<in> U'" using mp aU(2) that by blast
    qed
    ultimately show ?thesis using True by (simp add: L1_def relevel_def del: level.simps)
  qed
qed

definition with_flags :: "u32 \<Rightarrow> 'r insert_state \<Rightarrow> 'r insert_state" where
  "with_flags f S = S\<lparr>is_hints := (is_hints S)\<lparr>ih_flags := f\<rparr>\<rparr>"

lemma with_flags_simps [simp]:
  "is_tree (with_flags f S) = is_tree S" "is_key (with_flags f S) = is_key S" "is_rid (with_flags f S) = is_rid S"
  "ih_flags (is_hints (with_flags f S)) = f" "ih_force_append (is_hints (with_flags f S)) = ih_force_append (is_hints S)"
  "ih_force_prepend (is_hints (with_flags f S)) = ih_force_prepend (is_hints S)"
  "ih_original_flags (is_hints (with_flags f S)) = ih_original_flags (is_hints S)"
  by (simp_all add: with_flags_def)

lemma keeps_with_flags:
  assumes "insert_ready S" "keeps S S1" "keeps (with_flags f S1) S2"
  shows "keeps S (with_flags (ih_original_flags (is_hints S2)) S2)"
  using assms by (simp add: keeps_def insert_ready_def)

lemma insert_step_split:
  assumes o: "tree_order (bx_compare X)" and env: "insert_env X room" and rdy: "insert_ready S"
    and t: "bt_tree (bx_compare X) (bt_maxkeys (is_tree S)) (bt_nodes (is_tree S)) (Suc h) lo hi a"
    and k: "in_range (bx_compare X) lo hi key" and pl: "placed (bt_nodes (is_tree S)) L (Suc h) pre a post" and U: "\<And>j. set (L j) \<subseteq> U"
  fixes S1
  defines "N \<equiv> bt_nodes (is_tree S)" and "N1 \<equiv> bt_nodes (is_tree S1)"
  defines "r \<equiv> rank (bx_compare X) key (bn_entries (N a))"
  assumes x: "kids lo hi (bn_ptr_left (N a)) (bn_entries (N a)) ! r = (l, u, child_ptrs (N a) ! r)"
    and c: "ins_post X room (Suc n) U S h l u (child_ptrs (N a) ! r) key e L (\<lambda>k. pre k @ before N h a r k) (\<lambda>k. behind N h a r k @ post k) SPLIT S1"
  shows "\<exists>st S2. insert_in_page X a (is_key S1) (is_rid S1) (with_flags f S1) = Some (st, S2) \<and>
     ins_post X room n U S (Suc h) lo hi a key e L pre post st (with_flags (ih_original_flags (is_hints S2)) S2)"
proof -
  let ?cmp = "bx_compare X" and ?m = "bt_maxkeys (is_tree S)" and ?c = "child_ptrs (N a) ! r" and ?y = "is_rid S1" and ?S = "with_flags f S1"
  define es where "es = bn_entries (N a)"
  note c' = c [unfolded ins_post_split, folded N_def N1_def]
  note t' = t [folded N_def] and pl' = pl [folded N_def]
  have r: "r < length (child_ptrs (N a))" using tree_child(1) [OF o t k] by (simp add: r_def N_def)
  have rl: "r \<le> length es" using r by (simp add: child_ptrs_def es_def)
  have nd: "entries_sorted ?cmp es" "length es \<le> ?m" "bn_ptr_left (N a) \<noteq> 0" using t' by (auto simp: node_ok_def inner_ok_def es_def)
  obtain U' where U': "U \<subseteq> U'" "pages N1 h ?c \<union> pages N1 h ?y \<subseteq> U'" "room (Suc n) U' (bt_env (is_tree S1))"
    using c' by blast
  have ks: "keeps S S1" using c' by blast
  note mk = rdy [unfolded insert_ready_def] and kp = ks [unfolded keeps_def]
  have ok: "others_kept N N1 h a r" by (rule others_kept_frame(1) [OF pl' U r]) (use c' in blast)
  have aU: "a \<in> U" using U [of "Suc h"] placed_root [OF pl'] by auto
  have N1a: "bn_entries (N1 a) = es" "bn_ptr_left (N1 a) = bn_ptr_left (N a)" using others_keptD(1,2) [OF ok] by (simp_all add: es_def)
  have snd: "sound_at X ?S a" using mk kp nd N1a by (simp add: sound_at_def N1_def)
  have rk: "rank ?cmp (is_key S1) es = r" "\<not> present ?cmp (is_key S1) es"
    using rank_strict [OF o nd(1) rl x [folded es_def]] c' by blast+
  have nl: "btree_node_is_leaf (N1 a) = False" using nd(3) N1a(2) by (simp add: btree_node_is_leaf_def)
  have pt: "\<not> btree_node_is_leaf (N1 a) \<longrightarrow> (\<forall>e \<in> set es. be_ptr e \<noteq> 0)"
  proof (intro impI ballI)
    fix e assume "e \<in> set es"
    then have "be_ptr e \<in> set (child_ptrs (N a))" by (simp add: child_ptrs_def es_def)
    then obtain i where i: "i < length (child_ptrs (N a))" "child_ptrs (N a) ! i = be_ptr e" by (auto simp: in_set_conv_nth)
    show "be_ptr e \<noteq> 0" using bt_tree_nonzero [OF bt_tree_kid [OF t' i(1)]] i(2) by simp
  qed
  have m3: "3 \<le> bt_maxkeys (is_tree ?S)" and mS: "bt_maxkeys (is_tree ?S) = ?m" using mk kp by simp_all
  obtain e2 S2 where ip: "linking (unat (bt_keysize (is_tree S1))) (is_key S1) ?y e2" "keeps ?S S2"
    "insert_in_page X a (is_key S1) ?y ?S = Some (0, S2) \<and> length es < ?m \<and>
       bt_nodes (is_tree S2) = N1(a := (N1 a)\<lparr>bn_entries := take r es @ e2 # drop r es\<rparr>) \<or>
     insert_in_page X a (is_key S1) ?y ?S = Some (SPLIT, S2) \<and>
       (\<exists>A pe B. take r es @ e2 # drop r es = A @ pe # B \<and> A \<noteq> [] \<and> B \<noteq> [] \<and> length A < length es \<and> length B < length es \<and>
          is_rid S2 \<noteq> 0 \<and> is_rid S2 \<notin> U' \<and> is_key S2 = entry_key pe \<and> page_split N1 a False (is_rid S2) A pe B (bt_nodes (is_tree S2)) \<and>
          room n (insert (is_rid S2) U') (bt_env (is_tree S2)))"
    using insert_in_page_absent [OF o env U'(3) [folded with_flags_simps(1) [of f S1]] _ snd, of "is_key S1" ?y,
      unfolded with_flags_simps mS [unfolded with_flags_simps], folded N1_def, unfolded N1a(1) rk nl if_False] subsetD [OF U'(1) aU] rk(2) m3 mS pt nl
    by simp (elim exE conjE, rule that; assumption)
  define M where "M = N1(a := (N1 a)\<lparr>bn_entries := take r es @ e2 # drop r es\<rparr>)"
  define L1 where "L1 = relevel L (Suc h) pre (\<lambda>k. level M (Suc h) k a) post"
  note P = insert_step_parent [OF o t k pl U, folded N_def, folded r_def, OF x c ip(1), folded N1_def, folded es_def, folded M_def, folded L1_def]
  define S3 where "S3 = with_flags (ih_original_flags (is_hints S2)) S2"
  have S3: "is_tree S3 = is_tree S2" "is_key S3 = is_key S2" "is_rid S3 = is_rid S2" by (simp_all add: S3_def)
  have k3: "keeps S S3" unfolding S3_def by (rule keeps_with_flags [OF rdy ks ip(2)])
  from ip(3) show ?thesis
  proof
    assume ns: "insert_in_page X a (is_key S1) ?y ?S = Some (0, S2) \<and> length es < ?m \<and>
       bt_nodes (is_tree S2) = N1(a := (N1 a)\<lparr>bn_entries := take r es @ e2 # drop r es\<rparr>)"
    then have M: "bt_nodes (is_tree S2) = M" by (simp add: M_def)
    have "length (bn_entries (M a)) \<le> ?m" using ns rl by (simp add: M_def)
    then have "bt_tree ?cmp ?m M (Suc h) lo hi a" using P(2) over_tree_iff by blast
    moreover have "linked M L1" using P(4) by (simp add: placed_def)
    ultimately have "ins_post X room n U S (Suc h) lo hi a key e L pre post 0 S3"
      unfolding ins_post_zero S3 M N_def [symmetric] L1_def [symmetric] using k3 P(3,5-7) by blast
    then show ?thesis using ns unfolding S3_def by blast
  next
    assume ns: "insert_in_page X a (is_key S1) ?y ?S = Some (SPLIT, S2) \<and>
       (\<exists>A pe B. take r es @ e2 # drop r es = A @ pe # B \<and> A \<noteq> [] \<and> B \<noteq> [] \<and> length A < length es \<and> length B < length es \<and>
          is_rid S2 \<noteq> 0 \<and> is_rid S2 \<notin> U' \<and> is_key S2 = entry_key pe \<and> page_split N1 a False (is_rid S2) A pe B (bt_nodes (is_tree S2)) \<and>
          room n (insert (is_rid S2) U') (bt_env (is_tree S2)))"
    then obtain A pe B where sp: "take r es @ e2 # drop r es = A @ pe # B" "A \<noteq> []" "B \<noteq> []" "length A < length es" "length B < length es"
      "is_rid S2 \<noteq> 0" "is_rid S2 \<notin> U'" "is_key S2 = entry_key pe" "page_split N1 a False (is_rid S2) A pe B (bt_nodes (is_tree S2))"
      "room n (insert (is_rid S2) U') (bt_env (is_tree S2))" by blast
    define N2 where "N2 = bt_nodes (is_tree S2)"
    let ?z = "is_rid S2"
    have sp1: "page_split M a (Suc h = 0) ?z A pe B N2" using sp(9) by (simp add: page_split_def M_def N2_def)
    have es1: "bn_entries (M a) = A @ pe # B" using sp(1) by (simp add: M_def)
    have lm: "length A \<le> ?m" "length B < ?m" using sp(4,5) nd(2) by simp_all
    have L1U: "set (L1 j) \<subseteq> U'" for j by (rule P(8) [OF U'(1,2)])
    note ps = page_split_tree [OF o P(2,4) L1U sp1 es1 sp(2,3) lm sp(6,7)]
    have rlv: "relevel L1 (Suc h) pre g post = relevel L (Suc h) pre g post" for g by (rule ext) (simp add: relevel_def L1_def)
    have MU: "pages M (Suc h) a \<subseteq> U'" using placed_pages [OF P(4)] L1U by blast
    have pg: "pages N2 (Suc h) a \<union> pages N2 (Suc h) ?z \<subseteq> pages N (Suc h) a \<union> - U" unfolding ps(5) using P(5) sp(7) U'(1) by blast
    have fm: "\<forall>b \<in> U. b \<notin> pages N (Suc h) a \<longrightarrow> body (N2 b) = body (N b)"
    proof (intro ballI impI)
      fix b assume b: "b \<in> U" "b \<notin> pages N (Suc h) a"
      then have "b \<noteq> a" "b \<noteq> ?z" using sp(7) U'(1) by auto
      then show "body (N2 b) = body (N b)" using ps(7) P(6) b by simp
    qed
    have ne: "\<forall>x \<in> set (level N2 (Suc h) 0 a @ level N2 (Suc h) 0 ?z). bn_entries (N2 x) \<noteq> []"
      if "\<forall>x \<in> set (level N (Suc h) 0 a). bn_entries (N x) \<noteq> []"
    proof
      fix x assume "x \<in> set (level N2 (Suc h) 0 a @ level N2 (Suc h) 0 ?z)"
      then have x: "x \<in> set (level M (Suc h) 0 a)" using ps(8) [of 0] by (simp only: zero_less_Suc)
      then have "x \<in> set (L1 0)" by (simp add: L1_def relevel_def del: level.simps)
      moreover have "a \<in> set (L1 (Suc h))" using placed_root [OF P(4)] by simp
      ultimately have "x \<noteq> a" using linkedD(4) [of M L1 a 0 "Suc h"] P(4) by (auto simp: placed_def)
      moreover have "x \<noteq> ?z" using L1U [of 0] \<open>x \<in> set (L1 0)\<close> sp(7) by blast
      ultimately have "body (N2 x) = body (M x)" by (rule ps(7))
      then show "bn_entries (N2 x) \<noteq> []" using P(7) [OF that] x unfolding body_eq by metis
    qed
    have "ins_post X room n U S (Suc h) lo hi a key e L pre post SPLIT S3"
      unfolding ins_post_split S3 N2_def [symmetric] N_def [symmetric] sp(8)
    proof (intro conjI)
      show "linked N2 (relevel L (Suc h) pre (\<lambda>k. level N2 (Suc h) k a @ level N2 (Suc h) k ?z) post)" using ps(6) unfolding rlv .
      show "contents N2 (Suc h) a @ contents N2 (Suc h) ?z = upd ?cmp key e (contents N (Suc h) a)" unfolding ps(3) P(3) ..
      show "\<exists>V. U \<subseteq> V \<and> pages N2 (Suc h) a \<union> pages N2 (Suc h) ?z \<subseteq> V \<and> room n V (bt_env (is_tree S2))"
        unfolding ps(5) by (rule exI [of _ "insert ?z U'"]) (use sp(10) U'(1) MU in blast)
      show "(\<forall>x \<in> set (level N (Suc h) 0 a). Suc h = 0 \<or> bn_entries (N x) \<noteq> []) \<longrightarrow>
        (\<forall>x \<in> set (level N2 (Suc h) 0 a @ level N2 (Suc h) 0 ?z). bn_entries (N2 x) \<noteq> [])" using ne by blast
    qed (fact k3 fm pg ps(1,2,4))+
    then show ?thesis using ns unfolding S3_def by blast
  qed
qed

lemma insert_recursive_correct:
  assumes o: "tree_order (bx_compare X)" and env: "insert_env X room" and rdy: "insert_ready S"
    and U: "\<And>j. set (L j) \<subseteq> U"
  shows "bt_tree (bx_compare X) (bt_maxkeys (is_tree S)) (bt_nodes (is_tree S)) h lo hi a \<Longrightarrow> in_range (bx_compare X) lo hi key \<Longrightarrow>
     placed (bt_nodes (is_tree S)) L h pre a post \<Longrightarrow> room (Suc h + n) U (bt_env (is_tree S)) \<Longrightarrow>
     (\<And>e. e \<in> set (contents (bt_nodes (is_tree S)) h a) \<Longrightarrow> flagged (unat (bt_keysize (is_tree S))) e) \<Longrightarrow>
     insert_outcome X room n U S h lo hi a key L pre post (insert_recursive X a key rid S)"
proof (induction h arbitrary: a lo hi pre post n)
  case 0
  have "btree_node_is_leaf (bt_nodes (is_tree S) a)" using 0(1) by (simp add: btree_node_is_leaf_def)
  then have "insert_recursive X a key rid S = insert_in_page X a key rid S" by (simp add: insert_recursive.simps)
  moreover have "insert_outcome X room n U S 0 lo hi a key L pre post (insert_in_page X a key rid S)"
    by (rule insert_leaf [OF o env rdy _ 0(1,2,3) U]) (use 0(4,5) in simp_all)
  ultimately show ?case by simp
next
  case (Suc h)
  let ?cmp = "bx_compare X" and ?T = "is_tree S" and ?flags = "ih_flags (is_hints S)"
  define N where "N = bt_nodes (is_tree S)"
  define r where "r = rank ?cmp key (bn_entries (N a))"
  define c where "c = child_ptrs (N a) ! r"
  note t = Suc.prems(1) [folded N_def] and pl = Suc.prems(3) [folded N_def]
  have r: "r < length (child_ptrs (N a))" using tree_child(1) [OF o t Suc.prems(2)] by (simp add: r_def)
  obtain l u where x: "kids lo hi (bn_ptr_left (N a)) (bn_entries (N a)) ! r = (l, u, c)" "in_range ?cmp l u key"
      "bt_tree ?cmp (bt_maxkeys ?T) N h l u c" using tree_child(2) [OF o t Suc.prems(2)] unfolding r_def c_def by blast
  have m: "bt_maxkeys ?T \<le> MAX_KEYS_PER_NODE" using rdy by (simp add: insert_ready_def)
  have tv: "btree_traverse_tree X (N a) key = Some (0, int r - 1, Some c)"
    unfolding r_def c_def by (rule traverse_rank [OF o m insert_envD(1) [OF env] t])
  have nl: "\<not> btree_node_is_leaf (N a)" using t by (simp add: btree_node_is_leaf_def inner_ok_def)
  have run: "insert_recursive X a key rid S = Option.bind (insert_recursive X c key rid S) (\<lambda>(st, S1).
      if st = SPLIT then
        map_option (\<lambda>(st, S2). (st, with_flags (ih_original_flags (is_hints S2)) S2))
          (insert_in_page X a (is_key S1) (is_rid S1) (with_flags (ih_flags (is_hints S1) OR HAM_OVERWRITE) S1))
      else Some (st, S1))"
    unfolding with_flags_def by (subst insert_recursive.simps) (use tv nl in \<open>simp add: N_def Let_def\<close>)
  have fe: "find_entry key (contents N (Suc h) a) = find_entry key (contents N h c)"
    unfolding c_def by (rule contents_child(2) [OF o t Suc.prems(2), folded r_def])
  have fl: "flagged (unat (bt_keysize ?T)) e" if "e \<in> set (contents N h c)" for e
    using Suc.prems(5) [folded N_def] that contents_split [where N = N and a = a and h = h, OF r] by (auto simp: c_def simp del: contents_simps)
  have "insert_outcome X room (Suc n) U S h l u c key L (\<lambda>k. pre k @ before N h a r k) (\<lambda>k. behind N h a r k @ post k)
      (insert_recursive X c key rid S)"
    by (rule Suc.IH) (use x fl Suc.prems(4) placed_child [OF pl r] in \<open>auto simp: N_def c_def\<close>)
  then consider (dup) S' where "find_entry key (contents N h c) \<noteq> None" "\<not> may_replace ?flags"
      "insert_recursive X c key rid S = Some (DUPLICATE_KEY, S')" "is_tree S' = ?T"
    | (new) e st S1 where "find_entry key (contents N h c) \<noteq> None \<longrightarrow> may_replace ?flags"
      "insert_recursive X c key rid S = Some (st, S1)"
      "ins_post X room (Suc n) U S h l u c key e L (\<lambda>k. pre k @ before N h a r k) (\<lambda>k. behind N h a r k @ post k) st S1"
      "stored X (unat (bt_keysize ?T)) key (old_record key (contents N h c)) ?flags e"
    unfolding insert_outcome_def Let_def N_def [symmetric] by blast
  then show ?case
  proof cases
    case dup
    then show ?thesis using run fe SPLIT_ne by (simp add: insert_outcome_def Let_def N_def [symmetric] del: contents_simps)
  next
    case new
    have old: "old_record key (contents N (Suc h) a) = old_record key (contents N h c)" by (simp only: old_record_def fe)
    have st: "st = 0 \<or> st = SPLIT" using new(3) by (simp add: ins_post_def Let_def)
    have "\<exists>st S'. insert_recursive X a key rid S = Some (st, S') \<and> ins_post X room n U S (Suc h) lo hi a key e L pre post st S'"
      using st
    proof
      assume z: "st = 0"
      have "ins_post X room n U S (Suc h) lo hi a key e L pre post 0 S1"
        by (rule insert_step_kept [OF o Suc.prems(1-3) U, folded N_def, folded r_def, OF x(1) [unfolded c_def]])
          (use new(3) z c_def in simp)
      then show ?thesis using new(2) z run SPLIT_ne(1) by simp
    next
      assume z: "st = SPLIT"
      obtain st' S2 where "insert_in_page X a (is_key S1) (is_rid S1) (with_flags (ih_flags (is_hints S1) OR HAM_OVERWRITE) S1) = Some (st', S2)"
        "ins_post X room n U S (Suc h) lo hi a key e L pre post st' (with_flags (ih_original_flags (is_hints S2)) S2)"
        using insert_step_split [OF o env rdy Suc.prems(1-3) U, folded N_def, folded r_def, OF x(1) [unfolded c_def] new(3) [unfolded z c_def]]
        by blast
      then show ?thesis using new(2) z run by simp
    qed
    then show ?thesis using new(1,4) fe old unfolding insert_outcome_def Let_def N_def [symmetric] by metis
  qed
qed

section \<open>A new root\<close>

lemma tree_new_root:
  assumes t: "bt_tree cmp m N h None (Some (entry_key e)) a" "bt_tree cmp m N h (Some (entry_key e)) None (be_ptr e)"
    and e: "ext_ok e" "be_flags e = 0 \<or> be_flags e = KEY_IS_EXTENDED8" and m: "1 \<le> m"
    and x: "x \<noteq> 0" "x \<notin> pages N h a" "x \<notin> pages N h (be_ptr e)"
    and lk: "linked N (\<lambda>k. level N h k a @ level N h k (be_ptr e))"
  defines "N' \<equiv> N(x := empty_node\<lparr>bn_ptr_left := a, bn_entries := [e]\<rparr>)"
  shows "bt_tree cmp m N' (Suc h) None None x" "contents N' (Suc h) x = contents N h a @ contents N h (be_ptr e)"
    "linked N' (\<lambda>k. level N' (Suc h) k x)" "level N' (Suc h) 0 x = level N h 0 a @ level N h 0 (be_ptr e)"
proof -
  have fr: "contents N' h b = contents N h b" "level N' h k b = level N h k b" "bt_tree cmp m N' h lo hi b = bt_tree cmp m N h lo hi b"
    if "x \<notin> pages N h b" for b k lo hi
  proof -
    have f: "\<And>z. z \<in> pages N h b \<Longrightarrow> body (N' z) = body (N z)" using that by (auto simp: N'_def)
    show "contents N' h b = contents N h b" "level N' h k b = level N h k b" "bt_tree cmp m N' h lo hi b = bt_tree cmp m N h lo hi b"
      using frame [of N h b N', OF f] by auto
  qed
  have x': "bn_ptr_left (N' x) = a" "bn_entries (N' x) = [e]" "bn_left (N' x) = 0" "bn_right (N' x) = 0" by (simp_all add: N'_def empty_node_def)
  have cp: "child_ptrs (N' x) = [a, be_ptr e]" by (simp add: child_ptrs_def x')
  have a0: "a \<noteq> 0" using bt_tree_nonzero [OF t(1)] .
  show "bt_tree cmp m N' (Suc h) None None x"
    using t e m a0 x(1) fr(3) [OF x(2)] fr(3) [OF x(3)] by (simp add: x' inner_ok_def node_ok_def)
  show "contents N' (Suc h) x = contents N h a @ contents N h (be_ptr e)" by (simp add: cp fr(1) [OF x(2)] fr(1) [OF x(3)])
  have lv: "level N' (Suc h) k x = (if k = Suc h then [x] else level N h k a @ level N h k (be_ptr e))" for k
    by (simp add: cp fr(2) [OF x(2)] fr(2) [OF x(3)])
  then show "level N' (Suc h) 0 x = level N h 0 a @ level N h 0 (be_ptr e)" by (simp only: nat.distinct if_False)
  have xn: "x \<notin> set (level N h k a @ level N h k (be_ptr e))" for k
    using x(2,3) level_above [of h k N] unfolding pages_level by (cases "k \<le> h") auto
  have sg: "seg N' 0 (level N h k a @ level N h k (be_ptr e)) 0" for k
  proof -
    have "seg N' 0 (level N h k a @ level N h k (be_ptr e)) 0 = seg N 0 (level N h k a @ level N h k (be_ptr e)) 0"
      by (rule seg_cong) (use xn [of k] in \<open>auto simp: N'_def\<close>)
    then show ?thesis using linkedD(1) [OF lk, of k] by simp
  qed
  have d: "distinct (level N h k a @ level N h k (be_ptr e))" "0 \<notin> set (level N h k a @ level N h k (be_ptr e))" for k
    using linkedD(2,3) [OF lk, of k] by simp_all
  have dj: "j \<noteq> k \<Longrightarrow> set (level N h j a @ level N h j (be_ptr e)) \<inter> set (level N h k a @ level N h k (be_ptr e)) = {}" for j k
    using lk unfolding linked_def by blast
  show "linked N' (\<lambda>k. level N' (Suc h) k x)"
    unfolding linked_def lv
  proof (intro conjI allI impI)
    fix j k :: nat assume jk: "j \<noteq> k"
    show "set (if j = Suc h then [x] else level N h j a @ level N h j (be_ptr e)) \<inter>
      set (if k = Suc h then [x] else level N h k a @ level N h k (be_ptr e)) = {}"
      using dj [OF jk] xn [of j] xn [of k] jk by (cases "j = Suc h"; cases "k = Suc h") simp_all
  next
    fix k
    show "seg N' 0 (if k = Suc h then [x] else level N h k a @ level N h k (be_ptr e)) 0"
      using sg [of k] x' by (cases "k = Suc h") simp_all
    show "distinct (if k = Suc h then [x] else level N h k a @ level N h k (be_ptr e))"
      "0 \<notin> set (if k = Suc h then [x] else level N h k a @ level N h k (be_ptr e))"
      using d [of k] x(1) by (cases "k = Suc h"; simp)+
  qed
qed

text \<open>The pages of a tree in a backend, and the state that an insertion starts from.\<close>

definition bt_pages :: "'r btree \<Rightarrow> nat \<Rightarrow> u64 set" where
  "bt_pages T h = pages (bt_nodes T) h (bt_rootpage T)"

definition bt_flagged :: "'r btree \<Rightarrow> nat \<Rightarrow> bool" where
  "bt_flagged T h \<longleftrightarrow> (\<forall>e \<in> set (bt_contents T h). flagged (unat (bt_keysize T)) e)"

definition inserted :: "'r bt_ctx \<Rightarrow> u32 \<Rightarrow> byte list \<Rightarrow> 'r btree \<Rightarrow> nat \<Rightarrow> (int \<times> 'r insert_state) option \<Rightarrow> bool" where
  "inserted X flags key T h res \<longleftrightarrow>
     (\<exists>S' h' e. res = Some (0, S') \<and> (h' = h \<or> h' = Suc h) \<and> bt_inv (bx_compare X) (is_tree S') h' \<and> bt_flagged (is_tree S') h' \<and>
        bt_maxkeys (is_tree S') = bt_maxkeys T \<and> bt_keysize (is_tree S') = bt_keysize T \<and>
        stored X (unat (bt_keysize T)) key (old_record key (bt_contents T h)) flags e \<and>
        bt_contents (is_tree S') h' = upd (bx_compare X) key e (bt_contents T h))"

lemma upd_set: "x \<in> set (upd cmp k e es) \<Longrightarrow> x = e \<or> x \<in> set es"
  by (auto simp: upd_def dest: set_takeWhileD set_dropWhileD)

lemma insert_cursor_root:
  assumes o: "tree_order (bx_compare X)" and env: "insert_env X room" and rdy: "insert_ready S"
    and rec: "insert_recursive X (bt_rootpage (is_tree S)) key 0 S = Some (SPLIT, S1)" and ks: "keeps S S1"
    and U: "pages N h (bt_rootpage (is_tree S)) \<union> pages N h (is_rid S1) \<subseteq> U" "room (Suc 0) U (bt_env (is_tree S1))"
    and N: "N = bt_nodes (is_tree S1)" and r0: "bt_rootpage (is_tree S) \<noteq> 0"
  shows "\<exists>S' x e. insert_cursor X key S = Some (0, S') \<and> linking (unat (bt_keysize (is_tree S))) (is_key S1) (is_rid S1) e \<and> x \<noteq> 0 \<and> x \<notin> U \<and>
     bt_rootpage (is_tree S') = x \<and> bt_maxkeys (is_tree S') = bt_maxkeys (is_tree S) \<and> bt_keysize (is_tree S') = bt_keysize (is_tree S) \<and>
     bt_nodes (is_tree S') = N(x := empty_node\<lparr>bn_ptr_left := bt_rootpage (is_tree S), bn_entries := [e]\<rparr>)"
proof -
  let ?root = "bt_rootpage (is_tree S)"
  obtain x r' where al: "bx_alloc X TYPE_B_ROOT (bt_env (is_tree S1)) = (0, x, r')" "x \<noteq> 0" "x \<notin> U" "room 0 (insert x U) r'"
    using insert_envD(4) [OF env U(2)] by blast
  define T2 where "T2 = (is_tree S1)\<lparr>bt_env := r', bt_nodes := N(x := empty_node\<lparr>bn_ptr_left := ?root\<rparr>),
    bt_types := (bt_types (is_tree S1))(x := TYPE_B_ROOT)\<rparr>"
  define S2 where "S2 = S1\<lparr>is_tree := T2\<rparr>"
  have n2: "bt_nodes (is_tree S2) x = empty_node\<lparr>bn_ptr_left := ?root\<rparr>" "bt_env (is_tree S2) = r'" by (simp_all add: S2_def T2_def)
  have e0: "bn_entries (bt_nodes (is_tree S2) x) = []" by (simp add: n2 empty_node_def)
  have nl: "\<not> btree_node_is_leaf (bt_nodes (is_tree S2) x)" by (simp add: btree_node_is_leaf_def n2 r0)
  have r1: "bt_rootpage (is_tree S1) = ?root" "bt_keysize (is_tree S1) = bt_keysize (is_tree S)" "bt_maxkeys (is_tree S1) = bt_maxkeys (is_tree S)"
    using ks by (simp_all add: keeps_def)
  obtain e S3 where ns: "nosplit_at X x (is_key S1) (is_rid S1) 0 False S2 = (0, S3)"
    "bt_nodes (is_tree S3) = (bt_nodes (is_tree S2))(x := (bt_nodes (is_tree S2) x)\<lparr>bn_entries := [e]\<rparr>)" "keeps S2 S3"
    "linking (unat (bt_keysize (is_tree S2))) (is_key S1) (is_rid S1) e"
    using nosplit_at_new [OF env, of 0 "insert x U" S2 0 x "is_key S1" "is_rid S1"] al(4) n2(2) nl by (auto simp: e0)
  have "nosplit_slot X (bt_nodes (is_tree S2) x) (is_key S1) (is_hints S2) = Some (Inr (0, False))"
    by (simp add: nosplit_slot_def btree_node_get_count_def e0)
  then have "insert_nosplit X x (is_key S1) (is_rid S1) S2 = Some (0, S3)" by (simp add: insert_nosplit_def ns(1))
  then have run: "\<exists>S'. insert_cursor X key S = Some (0, S') \<and> bt_rootpage (is_tree S') = x \<and> bt_maxkeys (is_tree S') = bt_maxkeys (is_tree S3) \<and>
      bt_keysize (is_tree S') = bt_keysize (is_tree S3) \<and> bt_nodes (is_tree S') = bt_nodes (is_tree S3)"
    unfolding insert_cursor_def Let_def
    by (simp add: rec insert_envD(1) [OF env] al(1) r1(1) N [symmetric] T2_def [symmetric] S2_def [symmetric] btree_flush_def)
  have "bt_nodes (is_tree S3) = N(x := empty_node\<lparr>bn_ptr_left := ?root, bn_entries := [e]\<rparr>)"
    using ns(2) by (simp add: S2_def T2_def)
  moreover have "bt_maxkeys (is_tree S3) = bt_maxkeys (is_tree S)" "bt_keysize (is_tree S3) = bt_keysize (is_tree S)"
    "bt_keysize (is_tree S2) = bt_keysize (is_tree S)"
    using ns(3) r1 by (simp_all add: keeps_def S2_def T2_def)
  ultimately show ?thesis using run ns(4) al(2,3) by metis
qed

lemma insert_cursor_outcome:
  assumes o: "tree_order (bx_compare X)" and env: "insert_env X room" and rdy: "insert_ready S"
    and inv: "bt_inv (bx_compare X) (is_tree S) h" and fl: "bt_flagged (is_tree S) h"
    and room: "room (Suc (Suc h)) U (bt_env (is_tree S))" "bt_pages (is_tree S) h \<subseteq> U"
  shows "find_entry key (bt_contents (is_tree S) h) \<noteq> None \<and> \<not> may_replace (ih_flags (is_hints S)) \<and>
       (\<exists>S'. insert_cursor X key S = Some (DUPLICATE_KEY, S') \<and> is_tree S' = is_tree S) \<or>
     (find_entry key (bt_contents (is_tree S) h) \<noteq> None \<longrightarrow> may_replace (ih_flags (is_hints S))) \<and>
       inserted X (ih_flags (is_hints S)) key (is_tree S) h (insert_cursor X key S)"
proof -
  let ?T = "is_tree S" and ?N = "bt_nodes (is_tree S)" and ?a = "bt_rootpage (is_tree S)" and ?cmp = "bx_compare X" and ?m = "bt_maxkeys (is_tree S)"
  define L where "L k = level ?N h k ?a" for k
  have iv: "bt_tree ?cmp ?m ?N h None None ?a" "linked ?N L" "0 < h \<longrightarrow> (\<forall>x \<in> set (L 0). bn_entries (?N x) \<noteq> [])" "?m \<le> MAX_KEYS_PER_NODE"
    using inv by (simp_all add: bt_inv_def L_def [abs_def])
  have m3: "3 \<le> ?m" using rdy by (simp add: insert_ready_def)
  have pl: "placed ?N L h (\<lambda>_. []) ?a (\<lambda>_. [])" using iv(2) by (simp add: placed_def L_def)
  have U: "set (L j) \<subseteq> U" for j
  proof
    fix x assume "x \<in> set (L j)"
    then have "x \<in> pages ?N h ?a" using level_above [of h j ?N ?a] unfolding pages_level L_def by (cases "j \<le> h") auto
    then show "x \<in> U" using room(2) by (auto simp: bt_pages_def)
  qed
  have rl: "relevel L h (\<lambda>_. []) f (\<lambda>_. []) = f" if "\<And>k. h < k \<Longrightarrow> f k = []" for f
    using that level_above [of h _ ?N ?a] by (auto simp: relevel_def L_def)
  have "insert_outcome X room 1 U S h None None ?a key L (\<lambda>_. []) (\<lambda>_. []) (insert_recursive X ?a key 0 S)"
    by (rule insert_recursive_correct [OF o env rdy U iv(1) _ pl]) (use room(1) fl in \<open>simp_all add: bt_flagged_def bt_contents_def\<close>)
  then consider (dup) S' where "find_entry key (bt_contents ?T h) \<noteq> None" "\<not> may_replace (ih_flags (is_hints S))"
      "insert_recursive X ?a key 0 S = Some (DUPLICATE_KEY, S')" "is_tree S' = ?T"
    | (new) e st S1 where "find_entry key (bt_contents ?T h) \<noteq> None \<longrightarrow> may_replace (ih_flags (is_hints S))"
      "insert_recursive X ?a key 0 S = Some (st, S1)" "ins_post X room 1 U S h None None ?a key e L (\<lambda>_. []) (\<lambda>_. []) st S1"
      "stored X (unat (bt_keysize ?T)) key (old_record key (bt_contents ?T h)) (ih_flags (is_hints S)) e"
    unfolding insert_outcome_def Let_def bt_contents_def by blast
  then show ?thesis
  proof cases
    case dup
    then have "insert_cursor X key S = Some (DUPLICATE_KEY, S')" by (simp add: insert_cursor_def Let_def insert_envD(1) [OF env] SPLIT_ne)
    with dup show ?thesis by blast
  next
    case new
    define N1 where "N1 = bt_nodes (is_tree S1)"
    have fl': "\<forall>x \<in> set (upd ?cmp key e (bt_contents ?T h)). flagged (unat (bt_keysize ?T)) x"
      using fl new(4) by (auto simp: bt_flagged_def stored_def dest!: upd_set)
    have ne: "\<forall>x \<in> set (level ?N h 0 ?a). h = 0 \<or> bn_entries (?N x) \<noteq> []" using iv(3) by (auto simp: L_def)
    have "st = 0 \<or> st = SPLIT" using new(3) by (simp add: ins_post_def Let_def)
    then have "inserted X (ih_flags (is_hints S)) key ?T h (insert_cursor X key S)"
    proof
      assume z: "st = 0"
      note c = new(3) [unfolded z ins_post_zero, folded N1_def]
      have k: "keeps S S1" using c by blast
      have "insert_cursor X key S = Some (0, S1)" using new(2) z SPLIT_ne by (simp add: insert_cursor_def Let_def insert_envD(1) [OF env])
      moreover have "linked N1 (\<lambda>k. level N1 h k ?a)" using c rl [of "\<lambda>k. level N1 h k ?a"] level_above [of h _ N1 ?a] by simp
      moreover have "\<forall>x \<in> set (level N1 h 0 ?a). bn_entries (N1 x) \<noteq> []" using c ne by blast
      ultimately show ?thesis using k c iv(4) new(4) fl'
        by (auto simp: inserted_def bt_inv_def bt_flagged_def bt_contents_def N1_def keeps_def intro!: exI [of _ S1] exI [of _ h] exI [of _ e])
    next
      assume z: "st = SPLIT"
      note c = new(3) [unfolded z ins_post_split, folded N1_def]
      obtain U' where U': "pages N1 h ?a \<union> pages N1 h (is_rid S1) \<subseteq> U'" "room (Suc 0) U' (bt_env (is_tree S1))" using c by auto
      have k: "keeps S S1" using c by blast
      obtain S' x e2 where r: "insert_cursor X key S = Some (0, S')" "linking (unat (bt_keysize ?T)) (is_key S1) (is_rid S1) e2" "x \<noteq> 0" "x \<notin> U'"
        "bt_rootpage (is_tree S') = x" "bt_maxkeys (is_tree S') = ?m" "bt_keysize (is_tree S') = bt_keysize ?T"
        "bt_nodes (is_tree S') = N1(x := empty_node\<lparr>bn_ptr_left := ?a, bn_entries := [e2]\<rparr>)"
        using insert_cursor_root [OF o env rdy new(2) [unfolded z] k U' N1_def bt_tree_nonzero [OF iv(1)]] by blast
      have e2: "entry_key e2 = is_key S1" "be_ptr e2 = is_rid S1" "ext_ok e2" "be_flags e2 = 0 \<or> be_flags e2 = KEY_IS_EXTENDED8"
        using r(2) by (simp_all add: linking_def)
      have lk: "linked N1 (\<lambda>k. level N1 h k ?a @ level N1 h k (is_rid S1))"
        using c rl [of "\<lambda>k. level N1 h k ?a @ level N1 h k (is_rid S1)"] level_above [of h _ N1] by simp
      have p: "x \<notin> pages N1 h ?a" "x \<notin> pages N1 h (is_rid S1)" using U'(1) r(4) by blast+
      note nr = tree_new_root [of ?cmp ?m N1 h e2 ?a x, unfolded e2(1,2), OF _ _ e2(3,4) _ r(3) p lk, folded r(8)]
      have t: "bt_tree ?cmp ?m N1 h None (Some (is_key S1)) ?a" "bt_tree ?cmp ?m N1 h (Some (is_key S1)) None (is_rid S1)" "1 \<le> ?m"
        using c m3 by simp_all
      note nr = nr [OF t]
      have C: "bt_contents (is_tree S') (Suc h) = upd ?cmp key e (bt_contents ?T h)"
        using nr(2) c by (simp add: bt_contents_def r(5) del: contents_simps)
      have nz: "\<forall>y \<in> set (level (bt_nodes (is_tree S')) (Suc h) 0 x). bn_entries (bt_nodes (is_tree S') y) \<noteq> []"
      proof
        fix y assume y: "y \<in> set (level (bt_nodes (is_tree S')) (Suc h) 0 x)"
        then have y': "y \<in> set (level N1 h 0 ?a @ level N1 h 0 (is_rid S1))" unfolding nr(4) .
        then have "y \<noteq> x" using p unfolding pages_level by auto
        moreover have "bn_entries (N1 y) \<noteq> []" using c ne y' by blast
        ultimately show "bn_entries (bt_nodes (is_tree S') y) \<noteq> []" by (simp add: r(8))
      qed
      have "bt_inv ?cmp (is_tree S') (Suc h)" unfolding bt_inv_def r(5,6) using nr(1,3) nz iv(4) by blast
      moreover have "bt_flagged (is_tree S') (Suc h)" using fl' by (simp add: bt_flagged_def C r(7))
      ultimately show ?thesis unfolding inserted_def using r(1,6,7) C new(4) by blast
    qed
    with new(1) show ?thesis by blast
  qed
qed

section \<open>The fast path for keys at either end\<close>

lemma insert_recursive_leaf:
  assumes o: "tree_order (bx_compare X)" and m: "bt_maxkeys (is_tree S) \<le> MAX_KEYS_PER_NODE" and fetch: "\<And>b. bx_fetch X b = 0"
    and ip: "insert_in_page X p key rid S = Some (st, S1)" "st \<noteq> SPLIT"
  shows "bt_tree (bx_compare X) (bt_maxkeys (is_tree S)) (bt_nodes (is_tree S)) h lo hi a \<Longrightarrow> in_range (bx_compare X) lo hi key \<Longrightarrow>
    find_leaf X (bt_nodes (is_tree S)) a key = Some (Inr p) \<Longrightarrow> insert_recursive X a key rid S = Some (st, S1)"
proof (induction h arbitrary: a lo hi)
  case 0
  then have "btree_node_is_leaf (bt_nodes (is_tree S) a)" by (simp add: btree_node_is_leaf_def)
  then show ?case using 0(3) ip by (simp add: insert_recursive.simps find_leaf.simps)
next
  case (Suc h)
  let ?N = "bt_nodes (is_tree S)"
  define c where "c = child_ptrs (?N a) ! rank (bx_compare X) key (bn_entries (?N a))"
  obtain l u where "in_range (bx_compare X) l u key" "bt_tree (bx_compare X) (bt_maxkeys (is_tree S)) ?N h l u c"
    using tree_child(2) [OF o Suc.prems(1,2)] unfolding c_def by blast
  moreover have nl: "\<not> btree_node_is_leaf (?N a)" using Suc.prems(1) by (simp add: btree_node_is_leaf_def inner_ok_def)
  moreover note tv = traverse_rank [OF o m fetch Suc.prems(1), of key, folded c_def]
  moreover have "find_leaf X ?N c key = Some (Inr p)" using Suc.prems(3) nl tv find_leaf.simps [of X ?N a key] by simp
  ultimately have "insert_recursive X c key rid S = Some (st, S1)" using Suc.IH by blast
  then show ?case using tv nl ip(2) by (simp add: insert_recursive.simps [of X a])
qed

lemma nosplit_at_force:
  "nosplit_at X page key rid slot exists (force ap pp S) =
     (case nosplit_at X page key rid slot exists (no_force S) of (st, S') \<Rightarrow> (st, force ap pp S'))"
proof -
  let ?T = "is_tree S" and ?es = "bn_entries (bt_nodes (is_tree S) page)"
  let ?e1 = "(if exists then ?es else take slot ?es @ zero_btkey # drop slot ?es) ! slot"
  obtain st p fl d env where sr: "bx_set_record X (be_ptr ?e1, be_flags ?e1) (case is_cursor S of Some d \<Rightarrow> d | None \<Rightarrow> 0)
      (ih_flags (is_hints S)) (bt_env ?T) = (st, (p, fl), d, env)" by (metis prod.exhaust)
  obtain st1 b1 env1 where ie1: "bx_insert_extended X key env = (st1, b1, env1)" by (metis prod.exhaust)
  obtain st2 b2 env2 where ie2: "bx_insert_extended X key (bt_env ?T) = (st2, b2, env2)" by (metis prod.exhaust)
  show ?thesis
    using sr ie1 ie2
    by (cases exists; cases "btree_node_is_leaf (bt_nodes ?T page)"; cases "length key > unat (bt_keysize ?T)"; cases "is_cursor S")
      (simp_all add: nosplit_at_def Let_def force_def no_force_def)
qed

text \<open>The decision to insert at an end is right: the key is beyond the entries of the leaf at that end.\<close>

lemma append_decision_end:
  assumes d: "append_decision X n key ap pp = Inr (Some (ap', pp'))" and f: "ap \<or> pp" "ap \<longrightarrow> bn_right n = 0" "pp \<longrightarrow> bn_left n = 0"
  shows "bn_entries n = [] \<or>
     bn_entries n \<noteq> [] \<and> ap' \<and> bn_right n = 0 \<and> bx_compare X key (entry_key (last (bn_entries n))) > 0 \<or>
     bn_entries n \<noteq> [] \<and> \<not> ap' \<and> pp' \<and> bn_left n = 0 \<and> bx_compare X key (entry_key (hd (bn_entries n))) < 0"
proof (cases "bn_entries n = []")
  case False
  have l: "btree_compare_keys X n key (btree_node_get_count n - 1) = bx_compare X key (entry_key (last (bn_entries n)))"
    "btree_compare_keys X n key 0 = bx_compare X key (entry_key (hd (bn_entries n)))"
    using False by (simp_all add: btree_compare_keys_def btree_node_get_count_def last_conv_nth hd_conv_nth)
  have "btree_node_get_count n \<noteq> 0" using False by (simp add: btree_node_get_count_def)
  then show ?thesis using d f False unfolding append_decision_def l Let_def by (auto split: if_splits)
qed simp

lemma end_leaf:
  assumes l: "linked N L" "leaves = L 0" and x: "x \<in> set leaves" and lf: "leaf_for cmp N leaves key pre p post"
    and e: "bn_entries (N x) = [] \<and> leaves = [x] \<or>
      bn_entries (N x) \<noteq> [] \<and> bn_right (N x) = 0 \<and> cmp key (entry_key (last (bn_entries (N x)))) > 0 \<or>
      bn_entries (N x) \<noteq> [] \<and> bn_left (N x) = 0 \<and> cmp key (entry_key (hd (bn_entries (N x)))) < 0"
  shows "p = x"
proof -
  have lv: "leaves = pre @ p # post" and lo: "\<And>b f. b \<in> set pre \<Longrightarrow> f \<in> set (bn_entries (N b)) \<Longrightarrow> cmp key (entry_key f) > 0"
    and up: "\<And>b f. b \<in> set post \<Longrightarrow> f \<in> set (bn_entries (N b)) \<Longrightarrow> cmp key (entry_key f) < 0"
    using lf by (auto simp: leaf_for_def)
  have sg: "seg N 0 leaves 0" "distinct leaves" "0 \<notin> set leaves" using linkedD [OF l(1)] l(2) by auto
  obtain i where i: "i < length leaves" "leaves ! i = x" using x by (auto simp: in_set_conv_nth)
  note n = seg_nth [OF sg(1) i(1), unfolded i(2)]
  have nz: "j < length leaves \<Longrightarrow> leaves ! j \<noteq> 0" for j using sg(3) by (metis nth_mem)
  from e show ?thesis
  proof (elim disjE conjE)
    assume "leaves = [x]"
    then show ?thesis using lv by (cases pre) auto
  next
    assume r: "bn_entries (N x) \<noteq> []" "bn_right (N x) = 0" "cmp key (entry_key (last (bn_entries (N x)))) > 0"
    have "Suc i = length leaves" using n r(2) i(1) nz [of "Suc i"] by (cases "Suc i = length leaves") auto
    then have xl: "x = last leaves" using i by (metis diff_Suc_1 last_conv_nth length_0_conv nat.distinct(1))
    show ?thesis
    proof (cases "post = []")
      case False
      then have "x \<in> set post" using xl lv by simp
      then show ?thesis using up [of x "last (bn_entries (N x))"] r by simp
    qed (use xl lv in simp)
  next
    assume r: "bn_entries (N x) \<noteq> []" "bn_left (N x) = 0" "cmp key (entry_key (hd (bn_entries (N x)))) < 0"
    have "i - 1 < length leaves" using i(1) by simp
    then have "i = 0" using n r(2) nz [of "i - 1"] by (cases "i = 0") simp_all
    then have xh: "x = hd leaves" using i by (metis hd_conv_nth length_greater_0_conv)
    show ?thesis
    proof (cases "pre = []")
      case False
      then have "x \<in> set pre" using xh lv by simp
      then show ?thesis using lo [of x "hd (bn_entries (N x))"] r by simp
    qed (use xh lv in simp)
  qed
qed

lemma end_rank:
  assumes o: "tree_order cmp" and s: "entries_sorted cmp es"
  shows "es \<noteq> [] \<Longrightarrow> cmp key (entry_key (last es)) > 0 \<Longrightarrow> rank cmp key es = length es \<and> \<not> present cmp key es"
    "es \<noteq> [] \<Longrightarrow> cmp key (entry_key (hd es)) < 0 \<Longrightarrow> rank cmp key es = 0 \<and> \<not> present cmp key es"
proof -
  show "rank cmp key es = length es \<and> \<not> present cmp key es" if ne: "es \<noteq> []" "cmp key (entry_key (last es)) > 0"
  proof -
    have l: "last es = es ! (length es - 1)" "length es - 1 < length es" using ne(1) by (simp_all add: last_conv_nth)
    have r: "rank cmp key es = length es"
    proof (rule ccontr)
      assume "rank cmp key es \<noteq> length es"
      then have "rank cmp key es \<le> length es - 1" using rank_le [of cmp key es] by simp
      then show False using rank_above [OF o s _ l(2), of key] ne(2) l(1) by simp
    qed
    have "cmp key key = 0" using tree_orderD(3) [OF o] by simp
    then show ?thesis using r ne l(1) by (auto simp: present_def)
  qed
  show "rank cmp key es = 0 \<and> \<not> present cmp key es" if ne: "es \<noteq> []" "cmp key (entry_key (hd es)) < 0"
  proof -
    have "rank cmp key es = 0"
    proof (rule ccontr)
      assume "rank cmp key es \<noteq> 0"
      then show False using rank_below [of 0 cmp key es] ne by (simp add: hd_conv_nth)
    qed
    then show ?thesis by (simp add: present_def)
  qed
qed

lemma append_key_same:
  assumes o: "tree_order (bx_compare X)" and env: "insert_env X room" and room: "room n U (bt_env (is_tree S))"
    and inv: "bt_inv (bx_compare X) (is_tree S) h"
    and hint: "bx_cached X (ih_leaf_page_addr (is_hints S)) \<longrightarrow> ih_leaf_page_addr (is_hints S) \<in> set (bt_leaves (is_tree S) h)"
    and f: "ih_force_append (is_hints S) \<or> ih_force_prepend (is_hints S)"
  shows "append_key X key S = insert_cursor X key (no_force S) \<or>
    (\<exists>S1 S2. append_key X key S = Some (0, S1) \<and> insert_cursor X key (no_force S) = Some (0, S2) \<and>
       is_tree S1 = is_tree S2 \<and> is_coupled S1 = is_coupled S2)"
proof -
  let ?cmp = "bx_compare X" and ?ap = "ih_force_append (is_hints S)" and ?pp = "ih_force_prepend (is_hints S)"
  define T where "T = is_tree S"
  define N where "N = bt_nodes T"
  define x where "x = ih_leaf_page_addr (is_hints S)"
  have iv: "bt_tree ?cmp (bt_maxkeys T) N h None None (bt_rootpage T)" "linked N (\<lambda>k. level N h k (bt_rootpage T))"
    "0 < h \<longrightarrow> (\<forall>x \<in> set (bt_leaves T h). bn_entries (N x) \<noteq> [])" "bt_maxkeys T \<le> MAX_KEYS_PER_NODE"
    using inv by (simp_all add: bt_inv_def N_def T_def bt_leaves_def)
  have leaves: "bt_leaves T h = level N h 0 (bt_rootpage T)" by (simp add: bt_leaves_def N_def)
  note fetch = insert_envD(1) [OF env]
  show ?thesis
  proof (cases "append_key X key S = insert_cursor X key (no_force S)")
    case False
    have c: "bx_cached X x" "?ap \<longrightarrow> bn_right (N x) = 0" "?pp \<longrightarrow> bn_left (N x) = 0" "btree_node_get_count (N x) < bt_maxkeys T"
      using False fetch by (auto simp: append_key_def Let_def x_def N_def T_def split: if_splits)
    have xl: "x \<in> set (bt_leaves T h)" using hint c(1) by (simp add: x_def T_def)
    obtain l u where xt: "bt_tree ?cmp (bt_maxkeys T) N 0 l u x" using bt_tree_leaves [OF iv(1), of x] xl unfolding leaves by blast
    have xs: "entries_sorted ?cmp (bn_entries (N x))" "length (bn_entries (N x)) \<le> bt_maxkeys T" "btree_node_is_leaf (N x)"
      using xt by (auto simp: node_ok_def btree_node_is_leaf_def)
    have "append_decision X (N x) key ?ap ?pp \<noteq> Inr None"
      using False fetch c by (auto simp: append_key_def Let_def x_def N_def T_def)
    moreover have "append_decision X (N x) key ?ap ?pp \<noteq> Inl st" for st
      using tree_orderD(2) [OF o] by (auto simp: append_decision_def btree_compare_keys_def Let_def)
        (metis add.inverse_inverse less_le_not_le neg_less_iff_less)+
    ultimately obtain ap' pp' where d: "append_decision X (N x) key ?ap ?pp = Inr (Some (ap', pp'))"
      by (metis option.exhaust sum.exhaust surj_pair)
    have ak: "append_key X key S = insert_nosplit X x key 0 (force ap' pp' S)"
      using c d fetch by (simp add: append_key_def Let_def x_def [symmetric] T_def [symmetric] N_def [symmetric]) linarith
    obtain pre p post where fl: "find_leaf X N (bt_rootpage T) key = Some (Inr p)" "leaf_for ?cmp N (bt_leaves T h) key pre p post"
      using find_leaf_correct [OF o iv(4) fetch iv(1) in_range_None] leaves by metis
    note de = append_decision_end [OF d f c(2,3)]
    have h0: "bt_leaves T h = [x]" if "bn_entries (N x) = []"
    proof -
      have "h = 0" using iv(3) xl that by blast
      then show ?thesis using xl leaves by simp
    qed
    have "p = x"
      by (rule end_leaf [OF iv(2) leaves xl fl(2)]) (use de h0 in blast)
    define r where "r = rank ?cmp key (bn_entries (N x))"
    have rk: "\<not> present ?cmp key (bn_entries (N x))" "nosplit_slot X (N x) key (is_hints (force ap' pp' S)) = Some (Inr (r, False))"
      using de end_rank [OF o xs(1), of key] rank_le [of ?cmp key "bn_entries (N x)"]
      by (auto simp: r_def present_def nosplit_slot_def force_def btree_node_get_count_def)
    have snd: "sound_at X (no_force S) x" using xs iv(4) by (simp add: sound_at_def no_force_def N_def T_def)
    have Nn: "bt_nodes (is_tree (no_force S)) = N" "bt_nodes (is_tree (force ap' pp' S)) = N" "is_tree (no_force S) = T"
      by (simp_all add: no_force_def force_def N_def T_def)
    have ns: "nosplit_slot X (N x) key (is_hints (no_force S)) = Some (Inr (r, False))"
      using nosplit_slot_absent [OF o snd, of key] rk(1) by (simp add: Nn N_def r_def)
    obtain S2 where at: "nosplit_at X x key 0 r False (no_force S) = (0, S2)"
      using nosplit_at_new [OF env, of n U "no_force S" r x key 0] room rank_le [of ?cmp key "bn_entries (N x)"]
      by (auto simp: Nn N_def [symmetric] r_def [symmetric] T_def [symmetric])
    have a1: "append_key X key S = Some (0, force ap' pp' S2)"
      unfolding ak insert_nosplit_def Nn rk(2) by (simp add: nosplit_at_force at)
    have ip: "insert_in_page X x key 0 (no_force S) = Some (0, S2\<lparr>is_cursor := None\<rparr>)"
      using c(4) by (simp add: insert_in_page_def Let_def Nn N_def [symmetric] insert_nosplit_def ns at)
    have "insert_recursive X (bt_rootpage T) key 0 (no_force S) = Some (0, S2\<lparr>is_cursor := None\<rparr>)"
      using insert_recursive_leaf [OF o _ fetch ip, of h None None "bt_rootpage T"] iv(1,4) fl(1) \<open>p = x\<close> SPLIT_ne by (simp add: Nn N_def [symmetric])
    then have "insert_cursor X key (no_force S) = Some (0, S2\<lparr>is_cursor := None\<rparr>)"
      using SPLIT_ne by (simp add: insert_cursor_def Let_def fetch Nn)
    with a1 show ?thesis by (simp add: force_def)
  qed simp
qed

section \<open>Insertion into a backend\<close>

definition no_force_hints :: "insert_hints \<Rightarrow> insert_hints" where
  "no_force_hints hints = hints\<lparr>ih_force_append := False, ih_force_prepend := False\<rparr>"

definition insert_start :: "insert_hints \<Rightarrow> 'r btree \<Rightarrow> nat option \<Rightarrow> 'r insert_state" where
  "insert_start hints T cursor = \<lparr>is_key = [], is_rid = 0, is_cursor = cursor, is_hints = hints, is_coupled = None, is_tree = T\<rparr>"

lemma insert_with_hints_start:
  "insert_with_hints X (no_force_hints hints) T key cursor = insert_cursor X key (no_force (insert_start hints T cursor))"
  "\<not> ih_force_append hints \<Longrightarrow> \<not> ih_force_prepend hints \<Longrightarrow>
     insert_with_hints X hints T key cursor = insert_cursor X key (no_force (insert_start hints T cursor))"
  "ih_force_append hints \<or> ih_force_prepend hints \<Longrightarrow> insert_with_hints X hints T key cursor = append_key X key (insert_start hints T cursor)"
  by (simp_all add: insert_with_hints_def insert_start_def no_force_def no_force_hints_def)

lemma inserted_tree: "inserted X flags key T h (Some (0, S2)) \<Longrightarrow> is_tree S1 = is_tree S2 \<Longrightarrow> inserted X flags key T h (Some (0, S1))"
  by (simp add: inserted_def)

text \<open>
  The pages that \<open>btree_insert_get_hints\<close> may name: those of the statistics and the page of the cursor. They are
  usable if each of them that is in the cache is a leaf of the tree. A page that is not cached may be anything:
  the hint is dropped then.
\<close>

definition hint_pages :: "insert_stats \<Rightarrow> (nat \<times> u64 option) option \<Rightarrow> u64 set" where
  "hint_pages D cursor =
     {op_last_page_addr D, lower_bound_page_address D, upper_bound_page_address D} \<union> set_option (Option.bind cursor snd)"

definition hints_usable :: "'r bt_ctx \<Rightarrow> insert_stats \<Rightarrow> (nat \<times> u64 option) option \<Rightarrow> 'r btree \<Rightarrow> nat \<Rightarrow> bool" where
  "hints_usable X D cursor T h \<longleftrightarrow> (\<forall>a \<in> hint_pages D cursor. bx_cached X a \<longrightarrow> a \<in> set (bt_leaves T h))"

lemma hint_near_page:
  "ih_force_append (hint_near X D key hints) \<or> ih_force_prepend (hint_near X D key hints) \<Longrightarrow>
     \<not> ih_force_append hints \<Longrightarrow> \<not> ih_force_prepend hints \<Longrightarrow>
     ih_leaf_page_addr (hint_near X D key hints) \<in> hint_pages D cursor"
  "ih_flags (hint_near X D key hints) = ih_flags hints"
  by (auto simp: hint_near_def hint_pages_def Let_def split: if_splits)

lemma hint_statistics_page:
  assumes f: "ih_force_append (hint_statistics X D key hints) \<or> ih_force_prepend (hint_statistics X D key hints)"
    and n: "\<not> ih_force_append hints" "\<not> ih_force_prepend hints"
  shows "ih_leaf_page_addr (hint_statistics X D key hints) \<in> hint_pages D cursor"
proof -
  let ?h = "hints\<lparr>ih_flags := hint_flags X (ih_flags hints)\<rparr>"
  have "hint_statistics X D key hints = hint_near X D key ?h"
    using f n by (auto simp: hint_statistics_def Let_def split: if_splits)
  then show ?thesis using f n hint_near_page(1) [of X D key ?h cursor] by simp
qed

lemma hint_cursor_page:
  assumes n: "\<not> ih_force_append hints" "\<not> ih_force_prepend hints" "\<not> ih_try_fast_track hints"
  shows "ih_try_fast_track (hint_cursor T coupled hints) \<Longrightarrow> ih_leaf_page_addr (hint_cursor T coupled hints) \<in> set_option coupled"
    and "\<not> ih_try_fast_track (hint_cursor T coupled hints) \<Longrightarrow>
      \<not> ih_force_append (hint_cursor T coupled hints) \<and> \<not> ih_force_prepend (hint_cursor T coupled hints)"
proof -
  show "ih_leaf_page_addr (hint_cursor T coupled hints) \<in> set_option coupled" if "ih_try_fast_track (hint_cursor T coupled hints)"
    using that n by (cases coupled) (simp_all add: hint_cursor_def split: if_splits)
  show "\<not> ih_force_append (hint_cursor T coupled hints) \<and> \<not> ih_force_prepend (hint_cursor T coupled hints)"
    if "\<not> ih_try_fast_track (hint_cursor T coupled hints)"
    using that n by (cases coupled) (simp_all add: hint_cursor_def split: if_splits)
qed

lemma hints_for_page:
  assumes "ih_force_append (insert_hints_for X D T key cursor flags) \<or> ih_force_prepend (insert_hints_for X D T key cursor flags)"
  shows "ih_leaf_page_addr (insert_hints_for X D T key cursor flags) \<in> hint_pages D cursor"
proof -
  define h where "h = hint_cursor T (Option.bind cursor snd) (hint_last_insert D (initial_hints flags))"
  have i: "insert_hints_for X D T key cursor flags = (if ih_try_fast_track h then h else hint_statistics X D key h)"
    by (simp add: insert_hints_for_def btree_insert_get_hints_def Let_def h_def)
  note p = hint_cursor_page [of "hint_last_insert D (initial_hints flags)" T "Option.bind cursor snd", folded h_def]
  show ?thesis
  proof (cases "ih_try_fast_track h")
    case True
    then have "ih_leaf_page_addr h \<in> set_option (Option.bind cursor snd)" using p(1) by (simp add: initial_hints_def hint_last_insert_def)
    then show ?thesis unfolding i hint_pages_def using True by simp
  next
    case False
    then have "\<not> ih_force_append h" "\<not> ih_force_prepend h" using p(2) by (simp_all add: initial_hints_def hint_last_insert_def)
    then show ?thesis using assms hint_statistics_page [of X D key h] False unfolding i by simp
  qed
qed

text \<open>The hints change only the hint bits of the flags.\<close>

lemma hint_bits:
  "(f OR HAM_HINT_APPEND) AND (HAM_OVERWRITE OR HAM_DUPLICATE) = f AND (HAM_OVERWRITE OR HAM_DUPLICATE)"
  "(f OR HAM_HINT_PREPEND) AND (HAM_OVERWRITE OR HAM_DUPLICATE) = f AND (HAM_OVERWRITE OR HAM_DUPLICATE)"
  "(f OR HAM_HINT_SEQUENTIAL) AND (HAM_OVERWRITE OR HAM_DUPLICATE) = f AND (HAM_OVERWRITE OR HAM_DUPLICATE)"
  "(f AND NOT (HAM_HINT_APPEND OR HAM_HINT_PREPEND)) AND (HAM_OVERWRITE OR HAM_DUPLICATE) = f AND (HAM_OVERWRITE OR HAM_DUPLICATE)"
  by (simp_all add: bit.conj_disj_distrib2 and.assoc HAM_HINT_APPEND_def HAM_HINT_PREPEND_def HAM_HINT_SEQUENTIAL_def HAM_OVERWRITE_def HAM_DUPLICATE_def)

lemma hint_flags_bits: "hint_flags X flags AND (HAM_OVERWRITE OR HAM_DUPLICATE) = flags AND (HAM_OVERWRITE OR HAM_DUPLICATE)"
  unfolding hint_flags_def Let_def by (simp only: hint_bits split: if_split) blast

lemma hints_for_replace: "may_replace (ih_flags (insert_hints_for X D T key cursor flags)) = may_replace flags"
proof -
  have s: "ih_flags (hint_statistics X D key hints) = hint_flags X (ih_flags hints)" for hints
    by (simp add: hint_statistics_def Let_def hint_near_page(2))
  have c: "ih_flags (hint_cursor T coupled hints) = ih_flags hints" for coupled and hints :: insert_hints
    by (simp add: hint_cursor_def split: option.splits)
  show ?thesis unfolding may_replace_def
    by (simp add: insert_hints_for_def btree_insert_get_hints_def Let_def s c hint_flags_bits hint_last_insert_def hint_bits initial_hints_def)
qed

text \<open>
  C18. The fast path for keys at either end of the tree, taken when the hints that \<open>btree_insert_get_hints\<close>
  derives from the statistics, the flags and the cursor are to append or to prepend, gives what the descent from the root gives:
  the same status, the same tree and the same position of the cursor, whether or not the key
  belongs to that end. This holds for all statistics as long as each page they name, and the page of the cursor,
  is a leaf of the tree or not in the cache; for a tree with the invariant and at least three entries to
  a node, pages that can be read and allocated, and records that can be stored.
\<close>

theorem btree_append_equals_descent:
  assumes o: "tree_order (bx_compare X)" and env: "insert_env X room" and inv: "bt_inv (bx_compare X) T h" "bt_flagged T h" "3 \<le> bt_maxkeys T"
    and room: "room (Suc (Suc h)) U (bt_env T)" "bt_pages T h \<subseteq> U" and usable: "hints_usable X D cursor T h"
  shows "\<exists>st S1 S2. btree_insert_cursor X D T key cursor flags = Some (st, S1) \<and>
     insert_cursor X key (no_force (insert_start (insert_hints_for X D T key cursor flags) T (map_option fst cursor))) = Some (st, S2) \<and>
     is_tree S1 = is_tree S2 \<and> is_coupled S1 = is_coupled S2"
proof -
  let ?hints = "insert_hints_for X D T key cursor flags"
  let ?S = "insert_start ?hints T (map_option fst cursor)"
  have S: "is_tree ?S = T" "is_hints ?S = ?hints" "is_tree (no_force ?S) = T" "ih_flags (is_hints (no_force ?S)) = ih_flags ?hints"
    by (simp_all add: insert_start_def no_force_def)
  have rdy: "insert_ready (no_force ?S)" using inv by (simp add: insert_ready_def no_force_def insert_start_def bt_inv_def)
  have out: "\<exists>st S2. insert_cursor X key (no_force ?S) = Some (st, S2)"
    using insert_cursor_outcome [OF o env rdy, unfolded S, OF inv(1,2) room, of key] by (auto simp: inserted_def)
  show ?thesis
  proof (cases "ih_force_append ?hints \<or> ih_force_prepend ?hints")
    case True
    have leaf: "bx_cached X (ih_leaf_page_addr ?hints) \<longrightarrow> ih_leaf_page_addr ?hints \<in> set (bt_leaves T h)"
      using hints_for_page [OF True] usable by (simp add: hints_usable_def)
    show ?thesis
      using out append_key_same [OF o env, of _ _ ?S h key, unfolded S, OF room(1) inv(1) leaf True] insert_with_hints_start(3) [OF True, of X T key "map_option fst cursor"]
      by (auto simp: btree_insert_cursor_def)
  qed (use out insert_with_hints_start(2) [of ?hints X T key "map_option fst cursor"] in \<open>auto simp: btree_insert_cursor_def\<close>)
qed

lemma insert_with_hints_outcome:
  assumes o: "tree_order (bx_compare X)" and env: "insert_env X room" and inv: "bt_inv (bx_compare X) T h" "bt_flagged T h" "3 \<le> bt_maxkeys T"
    and room: "room (Suc (Suc h)) U (bt_env T)" "bt_pages T h \<subseteq> U"
    and leaf: "ih_force_append hints \<or> ih_force_prepend hints \<longrightarrow>
      bx_cached X (ih_leaf_page_addr hints) \<longrightarrow> ih_leaf_page_addr hints \<in> set (bt_leaves T h)"
  shows "if find_entry key (bt_contents T h) \<noteq> None \<and> \<not> may_replace (ih_flags hints)
     then \<exists>S'. insert_with_hints X hints T key cursor = Some (DUPLICATE_KEY, S') \<and> is_tree S' = T
     else inserted X (ih_flags hints) key T h (insert_with_hints X hints T key cursor)"
proof -
  let ?S = "insert_start hints T cursor"
  have S: "is_tree ?S = T" "is_hints ?S = hints" "is_tree (no_force ?S) = T" "ih_flags (is_hints (no_force ?S)) = ih_flags hints"
    by (simp_all add: insert_start_def no_force_def)
  have rdy: "insert_ready (no_force ?S)" using inv by (simp add: insert_ready_def no_force_def insert_start_def bt_inv_def)
  note out = insert_cursor_outcome [OF o env rdy, unfolded S, OF inv(1,2) room, of key]
  show ?thesis
  proof (cases "ih_force_append hints \<or> ih_force_prepend hints")
    case False
    then show ?thesis using out insert_with_hints_start(2) [of hints X T key cursor] by auto
  next
    case True
    note same = append_key_same [OF o env, of _ _ ?S h key, unfolded S, OF room(1) inv(1) _ True]
    with leaf True consider (eq) "append_key X key ?S = insert_cursor X key (no_force ?S)"
      | (both) S1 S2 where "append_key X key ?S = Some (0, S1)" "insert_cursor X key (no_force ?S) = Some (0, S2)" "is_tree S1 = is_tree S2"
      by blast
    then show ?thesis
    proof cases
      case eq
      then show ?thesis unfolding insert_with_hints_start(3) [OF True] using out by auto
    next
      case both
      then have "\<not> (find_entry key (bt_contents T h) \<noteq> None \<and> \<not> may_replace (ih_flags hints))"
        "inserted X (ih_flags hints) key T h (Some (0, S2))" using out SPLIT_ne by auto
      then show ?thesis unfolding insert_with_hints_start(3) [OF True] both(1) using inserted_tree [OF _ both(3)] by auto
    qed
  qed
qed

lemma btree_insert_outcome:
  assumes o: "tree_order (bx_compare X)" and env: "insert_env X room" and inv: "bt_inv (bx_compare X) T h" "bt_flagged T h" "3 \<le> bt_maxkeys T"
    and room: "room (Suc (Suc h)) U (bt_env T)" "bt_pages T h \<subseteq> U" and usable: "hints_usable X D cursor T h"
  shows "if find_entry key (bt_contents T h) \<noteq> None \<and> \<not> may_replace flags
     then \<exists>S'. btree_insert_cursor X D T key cursor flags = Some (DUPLICATE_KEY, S') \<and> is_tree S' = T
     else inserted X (ih_flags (insert_hints_for X D T key cursor flags)) key T h (btree_insert_cursor X D T key cursor flags)"
proof -
  let ?hints = "insert_hints_for X D T key cursor flags"
  have "ih_force_append ?hints \<or> ih_force_prepend ?hints \<longrightarrow> bx_cached X (ih_leaf_page_addr ?hints) \<longrightarrow> ih_leaf_page_addr ?hints \<in> set (bt_leaves T h)"
    using hints_for_page usable unfolding hints_usable_def by blast
  from insert_with_hints_outcome [OF o env inv room this, of key "map_option fst cursor"]
  show ?thesis unfolding hints_for_replace btree_insert_cursor_def .
qed

text \<open>
  C4. An insertion changes the ordered list of all entries in exactly one place. On a tree that
  satisfies the invariant, of any height, with a capacity of at least three entries in a node, and while
  pages can be read and allocated and records stored, \<open>btree_insert_cursor\<close> always returns. If the key exists and
  the flags allow neither overwriting nor duplicates, the status is HAM_DUPLICATE_KEY and the tree is
  unchanged. Otherwise the status is 0, the invariant holds again, with at most one level more,
  and the contents are the old ones with the entry of the key put in its place, for a record stored
  over the record that the key had. This holds for all flags, cursors and statistics, from which
  \<open>btree_insert_get_hints\<close> computes the hints, as long as each page that the statistics name, and the page of the cursor, is a leaf of the
  tree or not in the cache.
\<close>

theorem btree_insert_correct:
  assumes o: "tree_order (bx_compare X)" and env: "insert_env X room" and inv: "bt_inv (bx_compare X) T h" "bt_flagged T h" "3 \<le> bt_maxkeys T"
    and room: "room (Suc (Suc h)) U (bt_env T)" "bt_pages T h \<subseteq> U" and usable: "hints_usable X D cursor T h"
  shows "if find_entry key (bt_contents T h) \<noteq> None \<and> \<not> may_replace flags
     then \<exists>S'. btree_insert_cursor X D T key cursor flags = Some (DUPLICATE_KEY, S') \<and> is_tree S' = T
     else inserted X (ih_flags (insert_hints_for X D T key cursor flags)) key T h (btree_insert_cursor X D T key cursor flags)"
  by (rule btree_insert_outcome [OF o env inv room usable])

lemma find_entry_upd:
  assumes o: "tree_order cmp" and s: "entries_sorted cmp es" and e: "entry_key e = key"
  shows "find_entry k (upd cmp key e es) = (if k = key then Some e else find_entry k es)"
proof -
  let ?r = "rank cmp key es" and ?a = "if present cmp key es then rank cmp key es - 1 else rank cmp key es"
  have u: "upd cmp key e es = take ?a es @ e # drop ?r es" unfolding upd_def rank_present(1,2) [OF o s] ..
  have es: "es = take ?a es @ (if present cmp key es then [es ! (?r - 1)] else []) @ drop ?r es"
  proof (cases "present cmp key es")
    case True
    then have "0 < ?r" "?r - 1 < length es" using rank_le [of cmp key es] by (auto simp: present_def)
    then show ?thesis using True id_take_nth_drop [of "?r - 1" es] by simp
  qed simp
  have p: "present cmp key es \<Longrightarrow> entry_key (es ! (?r - 1)) = key" by (simp add: present_def)
  have n: "find_entry key (take ?a es) = None"
  proof -
    have "entry_key x \<noteq> key" if "x \<in> set (take ?a es)" for x
      using that tree_orderD(3) [OF o, of key key] unfolding rank_present(1) [OF o s, symmetric] by (auto dest: set_takeWhileD)
    then show ?thesis unfolding find_entry_None by blast
  qed
  have c: "find_entry k (x # xs) = (if entry_key x = k then Some x else find_entry k xs)" for x xs by (simp add: find_entry_def)
  show ?thesis
  proof (cases "k = key")
    case True
    then show ?thesis using n e unfolding u find_entry_append c by simp
  next
    case False
    have "find_entry k es = find_entry k (take ?a es @ (if present cmp key es then [es ! (?r - 1)] else []) @ drop ?r es)"
      using es by simp
    also have "\<dots> = find_entry k (upd cmp key e es)"
      using False p e unfolding u find_entry_append c
      by (cases "present cmp key es") (simp_all add: c find_entry_append find_entry_def [of k "[]"] split: option.splits)
    finally show ?thesis using False by simp
  qed
qed

lemma find_cursor_exact:
  assumes o: "tree_order (bx_compare X)" and inv: "bt_inv (bx_compare X) T h" and fetch: "\<And>b. bx_fetch X b = 0" and rk: "\<And>e. bx_read_key X e = 0"
  shows "\<exists>out. btree_find_cursor X False None T k kf False HAM_FIND_EXACT_MATCH = Some out \<and>
    (case find_entry k (bt_contents T h) of
       None \<Rightarrow> fo_status out = NOT_FOUND
     | Some f \<Rightarrow> fo_status out = 0 \<and>
         (\<exists>p i. fo_pos out = Some (p, i) \<and> i < length (bn_entries (bt_nodes T p)) \<and> bn_entries (bt_nodes T p) ! i = f))"
proof -
  have fl: "HAM_FIND_EXACT_MATCH AND HAM_FIND_EXACT_MATCH \<noteq> 0" by (simp add: HAM_FIND_EXACT_MATCH_def)
  have hint: "\<forall>q. None = Some q \<longrightarrow> q \<in> set (bt_leaves T h)" by simp
  have ans: "res = map_option (\<lambda>e. (e, 0)) (find_entry k (bt_contents T h))"
    if "find_answer (bx_compare X) HAM_FIND_EXACT_MATCH k (bt_contents T h) res" for res
    using that fl unfolding find_answer_def Let_def by (auto split: if_splits)
  show ?thesis
    using find_cursor_answer [OF o inv fetch rk hint, of k kf False HAM_FIND_EXACT_MATCH]
    by (elim exE conjE) (drule ans, cases "find_entry k (bt_contents T h)", auto)
qed

text \<open>
  C12. What was inserted is found, and nothing else changes. After \<open>btree_insert_cursor\<close> returned 0, a
  lookup of any key by exact match from the root finds the inserted entry if the key is the inserted one, and otherwise exactly the
  entry that a lookup before the insertion would have found, or none. The insertion may use any flags, cursor and statistics, as long as
  each page that the statistics name, and the page of the cursor, is a leaf of the tree or not in the cache; the tree satisfies
  its invariant and has at least three entries to a node, pages can be read and allocated, records stored and keys read, and the lookup has
  no hint that the key is out of bounds.
\<close>

theorem btree_insert_then_find:
  assumes o: "tree_order (bx_compare X)" and env: "insert_env X room" and inv: "bt_inv (bx_compare X) T h" "bt_flagged T h" "3 \<le> bt_maxkeys T"
    and room: "room (Suc (Suc h)) U (bt_env T)" "bt_pages T h \<subseteq> U"
    and usable: "hints_usable X D cursor T h" and ins: "btree_insert_cursor X D T key cursor flags = Some (0, S')" and rk: "\<And>e. bx_read_key X e = 0"
  shows "\<exists>e. stored X (unat (bt_keysize T)) key (old_record key (bt_contents T h)) (ih_flags (insert_hints_for X D T key cursor flags)) e \<and>
     (\<forall>k kf. \<exists>out. btree_find_cursor X False None (is_tree S') k kf False HAM_FIND_EXACT_MATCH = Some out \<and>
        (case if k = key then Some e else find_entry k (bt_contents T h) of
           None \<Rightarrow> fo_status out = NOT_FOUND
         | Some f \<Rightarrow> fo_status out = 0 \<and>
             (\<exists>p i. fo_pos out = Some (p, i) \<and> i < length (bn_entries (bt_nodes (is_tree S') p)) \<and> bn_entries (bt_nodes (is_tree S') p) ! i = f)))"
proof -
  let ?f = "ih_flags (insert_hints_for X D T key cursor flags)"
  have "inserted X ?f key T h (Some (0, S'))"
    using btree_insert_outcome [OF o env inv room usable, of key flags] ins SPLIT_ne by (auto split: if_splits)
  then obtain h' e where r: "bt_inv (bx_compare X) (is_tree S') h'" "stored X (unat (bt_keysize T)) key (old_record key (bt_contents T h)) ?f e"
    "bt_contents (is_tree S') h' = upd (bx_compare X) key e (bt_contents T h)" unfolding inserted_def by auto
  have s: "entries_sorted (bx_compare X) (bt_contents T h)"
    using bt_tree_contents(1) [OF o] inv(1) unfolding bt_contents_def bt_inv_def by blast
  have e: "entry_key e = key" using r(2) by (simp add: stored_def)
  note fe = find_entry_upd [OF o s e, folded r(3)]
  show ?thesis
    using find_cursor_exact [OF o r(1) insert_envD(1) [OF env] rk, unfolded fe] r(2) by blast
qed

section \<open>Examples\<close>

definition example_room :: "nat \<Rightarrow> u64 set \<Rightarrow> nat \<Rightarrow> bool" where
  "example_room n U r \<longleftrightarrow> 0 < r \<and> r + n < 2 ^ 40 \<and> (\<forall>a \<in> U. unat a < r * 1024)"

lemma example_insert_env: "insert_env example_ctx example_room"
proof -
  have "\<exists>a r'. bx_alloc example_ctx t r = (0, a, r') \<and> a \<noteq> 0 \<and> a \<notin> U \<and> example_room n (insert a U) r'" if "example_room (Suc n) U r" for t n U r
  proof -
    have r: "0 < r" "r + Suc n < 2 ^ 40" "\<forall>a \<in> U. unat a < r * 1024" using that by (simp_all add: example_room_def)
    define a where "a = (of_nat r * 1024 :: u64)"
    have "unat a = r * 1024"
    proof -
      have a: "a = of_nat (r * 1024)" by (simp add: a_def)
      have "r * 1024 < 2 ^ 64" using r(2) by simp
      then have "take_bit 64 (r * 1024) = r * 1024" by (rule take_bit_nat_eq_self)
      then show ?thesis unfolding a by (simp only: unsigned_of_nat) simp
    qed
    then have "a \<noteq> 0" "a \<notin> U" "example_room n (insert a U) (Suc r)" using r by (auto simp: example_room_def)
    then show ?thesis by (simp add: example_ctx_def a_def)
  qed
  then have "alloc_works example_ctx example_room" by (simp add: alloc_works_def)
  moreover have "set_record_works example_ctx example_room" "insert_extended_works example_ctx example_room"
    by (simp_all add: set_record_works_def insert_extended_works_def example_ctx_def)
  ultimately show ?thesis by (simp add: insert_env_def) (simp add: example_ctx_def)
qed

text \<open>Statistics after a key was appended (prepended): the page and the bound at that end of the tree.\<close>

definition example_stats :: "bool \<Rightarrow> insert_stats" where
  "example_stats prep =
     \<lparr>op_last_page_addr = (if prep then 0x400 else 0x800), op_last_page_sq_hits = 1, op_hinting_fail_count = 4, op_hinting_count = 4,
      lower_bound = [1], lower_bound_index = 0, lower_bound_page_address = 0x400, lower_bound_set = prep,
      upper_bound = [8], upper_bound_page_address = 0x800, upper_bound_set = \<not> prep,
      last_insert_was_append = \<not> prep, last_insert_was_prepend = prep\<rparr>"

lemma example_ready:
  "tree_order (bx_compare example_ctx)" "bt_inv (bx_compare example_ctx) example_tree (Suc 0)" "bt_flagged example_tree (Suc 0)"
  "3 \<le> bt_maxkeys example_tree" "example_room (Suc (Suc (Suc 0))) {0x400, 0x800, 0xc00} (bt_env example_tree)"
  "bt_pages example_tree (Suc 0) \<subseteq> {0x400, 0x800, 0xc00}" "hints_usable example_ctx (example_stats prep) None example_tree (Suc 0)"
proof -
  show "tree_order (bx_compare example_ctx)" "bt_inv (bx_compare example_ctx) example_tree (Suc 0)"
    using tree_order_default example_inv by simp_all
  show "bt_flagged example_tree (Suc 0)" unfolding bt_flagged_def example_contents by (simp add: flagged_def)
  show "bt_pages example_tree (Suc 0) \<subseteq> {0x400, 0x800, 0xc00}" by (simp add: bt_pages_def child_ptrs_def)
  show "hints_usable example_ctx (example_stats prep) None example_tree (Suc 0)"
    by (simp add: hints_usable_def hint_pages_def example_stats_def example_contents)
qed (simp_all add: example_room_def)

text \<open>The hints for the keys 9 and 0 are to append and to prepend; they change the flags.\<close>

lemma example_hints:
  "insert_hints_for example_ctx (example_stats prep) example_tree (if prep then [0] else [9]) None 0 =
     \<lparr>ih_flags = HAM_HINT_SEQUENTIAL, ih_original_flags = 0, ih_try_fast_track = True, ih_force_append = \<not> prep, ih_force_prepend = prep,
      ih_leaf_page_addr = (if prep then 0x400 else 0x800), ih_processed = None\<rparr>"
  by (simp add: insert_hints_for_def btree_insert_get_hints_def hint_cursor_def hint_statistics_def hint_flags_def hint_last_insert_def hint_near_def initial_hints_def example_stats_def
      db_default_compare_def HAM_HINT_APPEND_def HAM_HINT_PREPEND_def HAM_HINT_SEQUENTIAL_def HAM_HINTS_MASK_def Let_def)

lemmas example_ins = example_ready(1) example_insert_env example_ready(2-6)

theorem btree_append_equals_descent_witness:
  "ih_force_prepend (insert_hints_for example_ctx (example_stats True) example_tree [0] None 0) \<and>
   (\<exists>st S1 S2. btree_insert_cursor example_ctx (example_stats True) example_tree [0] None 0 = Some (st, S1) \<and>
     insert_cursor example_ctx [0] (no_force (insert_start (insert_hints_for example_ctx (example_stats True) example_tree [0] None 0) example_tree None)) = Some (st, S2) \<and>
     is_tree S1 = is_tree S2 \<and> is_coupled S1 = is_coupled S2)"
  using btree_append_equals_descent [OF example_ins example_ready(7) [of True], of "[0]" 0] example_hints [of True] by simp

theorem btree_insert_correct_witness:
  "ih_force_append (insert_hints_for example_ctx (example_stats False) example_tree [9] None 0) \<and>
   inserted example_ctx HAM_HINT_SEQUENTIAL [9] example_tree (Suc 0) (btree_insert_cursor example_ctx (example_stats False) example_tree [9] None 0)"
proof -
  have "find_entry [9] (bt_contents example_tree (Suc 0)) = None" by (simp add: example_contents find_entry_def)
  with btree_insert_correct [OF example_ins example_ready(7) [of False], of "[9]" 0] show ?thesis using example_hints [of False] by simp
qed

theorem btree_insert_then_find_witness:
  "\<exists>S'. btree_insert_cursor example_ctx (example_stats False) example_tree [9] None 0 = Some (0, S') \<and>
     (\<exists>out p i e. btree_find_cursor example_ctx False None (is_tree S') [9] 0 False HAM_FIND_EXACT_MATCH = Some out \<and> fo_status out = 0 \<and>
        fo_pos out = Some (p, i) \<and> bn_entries (bt_nodes (is_tree S') p) ! i = e \<and> entry_key e = [9]) \<and>
     (\<exists>out. btree_find_cursor example_ctx False None (is_tree S') [3] 0 False HAM_FIND_EXACT_MATCH = Some out \<and> fo_status out = NOT_FOUND)"
proof -
  have f: "find_entry [9] (bt_contents example_tree (Suc 0)) = None" "find_entry [3] (bt_contents example_tree (Suc 0)) = None"
    by (simp_all add: example_contents find_entry_def)
  have rk: "\<And>e. bx_read_key example_ctx e = 0" by (simp add: example_ctx_def)
  obtain S' where i: "btree_insert_cursor example_ctx (example_stats False) example_tree [9] None 0 = Some (0, S')"
    using btree_insert_outcome [OF example_ins example_ready(7) [of False], of "[9]" 0] f(1) by (auto simp: inserted_def)
  obtain e where e: "entry_key e = [9]"
    "\<forall>k kf. \<exists>out. btree_find_cursor example_ctx False None (is_tree S') k kf False HAM_FIND_EXACT_MATCH = Some out \<and>
        (case if k = [9] then Some e else find_entry k (bt_contents example_tree (Suc 0)) of
           None \<Rightarrow> fo_status out = NOT_FOUND
         | Some f \<Rightarrow> fo_status out = 0 \<and>
             (\<exists>p i. fo_pos out = Some (p, i) \<and> i < length (bn_entries (bt_nodes (is_tree S') p)) \<and> bn_entries (bt_nodes (is_tree S') p) ! i = f))"
    using btree_insert_then_find [OF example_ins example_ready(7) i rk] unfolding stored_def by blast
  obtain out where "btree_find_cursor example_ctx False None (is_tree S') [9] 0 False HAM_FIND_EXACT_MATCH = Some out" "fo_status out = 0"
    "\<exists>p i. fo_pos out = Some (p, i) \<and> bn_entries (bt_nodes (is_tree S') p) ! i = e" using e(2) [THEN spec, of "[9]", THEN spec, of 0] by auto
  moreover obtain out' where "btree_find_cursor example_ctx False None (is_tree S') [3] 0 False HAM_FIND_EXACT_MATCH = Some out'" "fo_status out' = NOT_FOUND"
    using e(2) [THEN spec, of "[3]", THEN spec, of 0] f(2) by auto
  ultimately show ?thesis using i e(1) by blast
qed

end
