(* ===== verification/Ham_Bt_Walk.thy ===== *)
theory Ham_Bt_Walk
  imports Ham_Bt_Find
begin

text \<open>
  Walking over all pages of a tree, level by level from the root and along the sibling links:
  the enumeration of \<open>src/btree_enum.cc\<close> with its callback, and the integrity check of
  \<open>src/btree_check.cc\<close>. The theorems say which events the callback of an enumeration gets, that the check
  accepts every tree that satisfies the invariant, and what exactly it tests on a level.
\<close>

section \<open>Enumeration\<close>

definition CB_CONTINUE :: int where "CB_CONTINUE = 0"
definition CB_DO_NOT_DESCEND :: int where "CB_DO_NOT_DESCEND = 1"
definition CB_STOP :: int where "CB_STOP = 2"

datatype enum_event =
    ENUM_EVENT_DESCEND nat nat
  | ENUM_EVENT_PAGE_START u64 bool
  | ENUM_EVENT_PAGE_STOP u64 bool
  | ENUM_EVENT_ITEM bt_entry nat

text \<open>The callback changes the state that the context pointer refers to.\<close>

type_synonym 'c enum_cb = "enum_event \<Rightarrow> 'c \<Rightarrow> int \<times> 'c"

fun enumerate_items :: "'c enum_cb \<Rightarrow> nat \<Rightarrow> bt_entry list \<Rightarrow> int \<Rightarrow> 'c \<Rightarrow> int \<times> 'c" where
  "enumerate_items cb count [] st c = (st, c)"
| "enumerate_items cb count (e # es) st c =
     (if st = CB_DO_NOT_DESCEND then (st, c)
      else
        (case cb (ENUM_EVENT_ITEM e count) c of
           (st, c) \<Rightarrow> if st = CB_STOP \<or> st < 0 then (st, c) else enumerate_items cb count es st c))"

definition enumerate_page :: "'c enum_cb \<Rightarrow> (u64 \<Rightarrow> bt_node) \<Rightarrow> u64 \<Rightarrow> 'c \<Rightarrow> int \<times> 'c" where
  "enumerate_page cb N page c =
     (let n = N page; leaf = btree_node_is_leaf n
      in case cb (ENUM_EVENT_PAGE_START page leaf) c of
           (st, c) \<Rightarrow>
             if st = CB_STOP \<or> st < 0 then (st, c)
             else
               (case enumerate_items cb (btree_node_get_count n) (bn_entries n) st c of
                  (st, c) \<Rightarrow>
                    (case cb (ENUM_EVENT_PAGE_STOP page leaf) c of
                       (st2, c) \<Rightarrow> (if st < 0 then st else if st = CB_STOP then CB_STOP else st2, c))))"

partial_function (option) enumerate_level ::
  "'r bt_ctx \<Rightarrow> 'c enum_cb \<Rightarrow> (u64 \<Rightarrow> bt_node) \<Rightarrow> u64 \<Rightarrow> 'c \<Rightarrow> (int \<times> 'c) option" where
  "enumerate_level X cb N page c =
     (case enumerate_page cb N page c of
        (st, c) \<Rightarrow>
          if st = CB_STOP \<or> st < 0 then Some (st, c)
          else
            (let right = bn_right (N page)
             in if right = 0 then Some (st, c)
                else if bx_fetch X right \<noteq> 0 then Some (bx_fetch X right, c)
                else enumerate_level X cb N right c))"

partial_function (option) enumerate_levels ::
  "'r bt_ctx \<Rightarrow> 'c enum_cb \<Rightarrow> (u64 \<Rightarrow> bt_node) \<Rightarrow> u64 \<Rightarrow> nat \<Rightarrow> 'c \<Rightarrow> (int \<times> 'c) option" where
  "enumerate_levels X cb N page lev c =
     (case cb (ENUM_EVENT_DESCEND lev (btree_node_get_count (N page))) c of
        (st, c) \<Rightarrow>
          if st \<noteq> CB_CONTINUE then Some (st, c)
          else
            Option.bind (enumerate_level X cb N page c) (\<lambda>(st, c).
              (let ptr_left = bn_ptr_left (N page)
               in if st = CB_STOP \<or> st < 0 \<or> ptr_left = 0 then Some (if st < 0 then st else 0, c)
                  else if bx_fetch X ptr_left \<noteq> 0 then Some (bx_fetch X ptr_left, c)
                  else enumerate_levels X cb N ptr_left (Suc lev) c)))"

declare enumerate_level.simps [code] enumerate_levels.simps [code]

definition btree_enumerate :: "'r bt_ctx \<Rightarrow> 'c enum_cb \<Rightarrow> 'r btree \<Rightarrow> 'c \<Rightarrow> (int \<times> 'c) option" where
  "btree_enumerate X cb T c =
     (let root = bt_rootpage T
      in if bx_fetch X root \<noteq> 0 then Some (bx_fetch X root, c) else enumerate_levels X cb (bt_nodes T) root 0 c)"

section \<open>Integrity check\<close>

text \<open>
  Comparing two entries loads their extended keys, which may fail; \<open>bx_compare\<close> then has an
  error code as its result, below -1.
\<close>

definition INTEGRITY_VIOLATED :: int where "INTEGRITY_VIOLATED = ham_status_code HAM_INTEGRITY_VIOLATED"

definition key_compare_int_to_int :: "'r bt_ctx \<Rightarrow> bt_node \<Rightarrow> nat \<Rightarrow> nat \<Rightarrow> int" where
  "key_compare_int_to_int X n lhs rhs = bx_compare X (entry_key (bn_entries n ! lhs)) (entry_key (bn_entries n ! rhs))"

fun verify_entries :: "'r bt_ctx \<Rightarrow> bt_entry list \<Rightarrow> int" where
  "verify_entries X (e # f # es) =
     (if be_flags e AND KEY_IS_EXTENDED8 \<noteq> 0 \<and> be_ext e = 0 then INTEGRITY_VIOLATED
      else
        (let cmp = bx_compare X (entry_key e) (entry_key f)
         in if cmp < -1 then cmp else if cmp \<ge> 0 then INTEGRITY_VIOLATED else verify_entries X (f # es)))"
| "verify_entries X es = 0"

definition verify_page :: "'r bt_ctx \<Rightarrow> u64 \<Rightarrow> (u64 \<Rightarrow> bt_node) \<Rightarrow> u64 option \<Rightarrow> u64 \<Rightarrow> int" where
  "verify_page X root N leftsib page =
     (let n = N page; count = btree_node_get_count n
      in if count = 0 then (if page = root then 0 else INTEGRITY_VIOLATED)
         else
           (let st = (case leftsib of
                        None \<Rightarrow> 0
                      | Some s \<Rightarrow>
                          (let sib = bn_entries (N s) ! (btree_node_get_count (N s) - 1); e = bn_entries n ! 0
                           in if be_flags e \<noteq> 0 \<and> be_flags e \<noteq> KEY_IS_EXTENDED8 \<and> \<not> btree_node_is_leaf n then INTEGRITY_VIOLATED
                              else
                                (let cmp = bx_compare X (entry_key sib) (entry_key e)
                                 in if cmp < -1 then cmp else if cmp \<ge> 0 then INTEGRITY_VIOLATED else 0)))
            in if st \<noteq> 0 then st else if count = 1 then 0 else verify_entries X (bn_entries n)))"

partial_function (option) verify_siblings :: "'r bt_ctx \<Rightarrow> u64 \<Rightarrow> (u64 \<Rightarrow> bt_node) \<Rightarrow> u64 option \<Rightarrow> u64 \<Rightarrow> int option" where
  "verify_siblings X root N leftsib page =
     (let st = verify_page X root N leftsib page; right = bn_right (N page)
      in if st \<noteq> 0 then Some st
         else if right = 0 then Some 0
         else if bx_fetch X right \<noteq> 0 then Some (bx_fetch X right)
         else verify_siblings X root N (Some page) right)"

definition verify_level :: "'r bt_ctx \<Rightarrow> u64 \<Rightarrow> (u64 \<Rightarrow> bt_node) \<Rightarrow> bool \<Rightarrow> u64 \<Rightarrow> int option" where
  "verify_level X root N parent page =
     (let n = N page; cmp = key_compare_int_to_int X n 0 (btree_node_get_count n - 1)
      in if parent \<and> bn_left n \<noteq> 0 \<and> cmp < -1 then Some cmp
         else if parent \<and> bn_left n \<noteq> 0 \<and> cmp < 0 then Some INTEGRITY_VIOLATED
         else verify_siblings X root N None page)"

partial_function (option) check_levels :: "'r bt_ctx \<Rightarrow> u64 \<Rightarrow> (u64 \<Rightarrow> bt_node) \<Rightarrow> bool \<Rightarrow> u64 \<Rightarrow> int option" where
  "check_levels X root N parent page =
     Option.bind (verify_level X root N parent page) (\<lambda>st.
       (let ptr_left = bn_ptr_left (N page)
        in if st \<noteq> 0 then Some st
           else if ptr_left = 0 then Some 0
           else if bx_fetch X ptr_left \<noteq> 0 then Some (bx_fetch X ptr_left)
           else check_levels X root N True ptr_left))"

declare verify_siblings.simps [code] check_levels.simps [code]

definition btree_check_integrity :: "'r bt_ctx \<Rightarrow> 'r btree \<Rightarrow> int option" where
  "btree_check_integrity X T =
     (let root = bt_rootpage T
      in if bx_fetch X root \<noteq> 0 then Some (bx_fetch X root) else check_levels X root (bt_nodes T) False root)"

section \<open>The events of an enumeration\<close>

definition page_events :: "(u64 \<Rightarrow> bt_node) \<Rightarrow> u64 \<Rightarrow> enum_event list" where
  "page_events N x = ENUM_EVENT_PAGE_START x (btree_node_is_leaf (N x)) #
     map (\<lambda>e. ENUM_EVENT_ITEM e (btree_node_get_count (N x))) (bn_entries (N x)) @ [ENUM_EVENT_PAGE_STOP x (btree_node_is_leaf (N x))]"

text \<open>The levels from the level \<open>k\<close> down to the leaves; the number of a level counts from the root.\<close>

primrec tree_events :: "(u64 \<Rightarrow> bt_node) \<Rightarrow> nat \<Rightarrow> u64 \<Rightarrow> nat \<Rightarrow> enum_event list" where
  "tree_events N h a 0 = ENUM_EVENT_DESCEND h (btree_node_get_count (N (hd (level N h 0 a)))) # concat (map (page_events N) (level N h 0 a))"
| "tree_events N h a (Suc k) =
     ENUM_EVENT_DESCEND (h - Suc k) (btree_node_get_count (N (hd (level N h (Suc k) a)))) #
       concat (map (page_events N) (level N h (Suc k) a)) @ tree_events N h a k"

definition items_of :: "enum_event list \<Rightarrow> bt_entry list" where
  "items_of evs = concat (map (\<lambda>ev. case ev of ENUM_EVENT_ITEM e n \<Rightarrow> [e] | _ \<Rightarrow> []) evs)"

lemma items_of_simps [simp]:
  "items_of [] = []" "items_of (ENUM_EVENT_ITEM e n # evs) = e # items_of evs" "items_of (ENUM_EVENT_DESCEND l c # evs) = items_of evs"
  "items_of (ENUM_EVENT_PAGE_START p b # evs) = items_of evs" "items_of (ENUM_EVENT_PAGE_STOP p b # evs) = items_of evs"
  "items_of (evs @ evs') = items_of evs @ items_of evs'"
  by (simp_all add: items_of_def)

lemma items_of_page: "items_of (page_events N x) = bn_entries (N x)"
proof -
  have "items_of (map (\<lambda>e. ENUM_EVENT_ITEM e n) es) = es" for n es by (induction es) simp_all
  then show ?thesis by (simp add: page_events_def)
qed

lemma items_of_level: "items_of (concat (map (page_events N) xs)) = entries_of N xs"
  by (induction xs) (simp_all add: items_of_page)

text \<open>A callback that never stops.\<close>

definition go_on :: "(enum_event \<Rightarrow> 'c \<Rightarrow> 'c) \<Rightarrow> 'c enum_cb" where
  "go_on f ev c = (CB_CONTINUE, f ev c)"

lemma CB_simps [simp]: "CB_CONTINUE \<noteq> CB_STOP" "CB_STOP \<noteq> CB_CONTINUE" "CB_CONTINUE \<noteq> CB_DO_NOT_DESCEND" "\<not> CB_CONTINUE < 0"
  by (simp_all add: CB_CONTINUE_def CB_STOP_def CB_DO_NOT_DESCEND_def)

lemma enumerate_items_all:
  "enumerate_items (go_on f) count es CB_CONTINUE c = (CB_CONTINUE, fold f (map (\<lambda>e. ENUM_EVENT_ITEM e count) es) c)"
  by (induction es arbitrary: c) (simp_all add: go_on_def)

lemma enumerate_page_all: "enumerate_page (go_on f) N page c = (CB_CONTINUE, fold f (page_events N page) c)"
  by (simp add: enumerate_page_def page_events_def Let_def enumerate_items_all go_on_def)

lemma enumerate_level_all:
  assumes fetch: "\<And>b. bx_fetch X b = 0"
  shows "seg N p (page # xs) 0 \<Longrightarrow> 0 \<notin> set xs \<Longrightarrow>
     enumerate_level X (go_on f) N page c = Some (CB_CONTINUE, fold f (concat (map (page_events N) (page # xs))) c)"
proof (induction xs arbitrary: p page c)
  case Nil
  then show ?case by (simp add: enumerate_level.simps enumerate_page_all Let_def)
next
  case (Cons y ys)
  then have "bn_right (N page) = y" "y \<noteq> 0" "seg N page (y # ys) 0" "0 \<notin> set ys" by auto
  with Cons.IH [of page y] show ?case
    by (simp add: enumerate_level.simps [of X "go_on f" N page] enumerate_page_all Let_def fetch)
qed

lemma enumerate_level_row:
  assumes fetch: "\<And>b. bx_fetch X b = 0" and "xs \<noteq> []" "seg N 0 xs 0" "0 \<notin> set xs"
  shows "enumerate_level X (go_on f) N (hd xs) c = Some (CB_CONTINUE, fold f (concat (map (page_events N) xs)) c)"
  using assms enumerate_level_all [OF fetch, of N 0 "hd xs" "tl xs"] by (cases xs) auto

lemma level_down: "Suc k \<le> h \<Longrightarrow> bn_ptr_left (N (hd (level N h (Suc k) a))) = hd (level N h k a)"
proof (induction h arbitrary: a)
  case (Suc h)
  have l: "j \<le> h \<Longrightarrow> hd (level N (Suc h) j a) = hd (level N h j (bn_ptr_left (N a)))" for j
    using level_nonempty [of j h N "bn_ptr_left (N a)"] by (simp add: child_ptrs_def)
  show ?case
  proof (cases "k = h")
    case True
    have "hd (level N h h b) = b" for b by (cases h) simp_all
    then show ?thesis using True l [of h] by simp
  next
    case False
    then show ?thesis using Suc l [of k] l [of "Suc k"] by (simp del: level.simps)
  qed
qed simp

lemma enumerate_levels_all:
  assumes fetch: "\<And>b. bx_fetch X b = 0"
    and lk: "linked N (\<lambda>k. level N h k a)" and leaf: "bn_ptr_left (N (hd (level N h 0 a))) = 0"
  shows "k \<le> h \<Longrightarrow> enumerate_levels X (go_on f) N (hd (level N h k a)) (h - k) c = Some (0, fold f (tree_events N h a k) c)"
proof (induction k arbitrary: c)
  case 0
  note e = enumerate_level_row [OF fetch level_nonempty [OF 0] linkedD(1,3) [OF lk], of f]
  then show ?case using leaf by (subst enumerate_levels.simps) (simp add: go_on_def)
next
  case (Suc k)
  note e = enumerate_level_row [OF fetch level_nonempty [OF Suc.prems] linkedD(1,3) [OF lk], of f]
  have d: "bn_ptr_left (N (hd (level N h (Suc k) a))) = hd (level N h k a)" by (rule level_down) (rule Suc.prems)
  have "hd (level N h k a) \<noteq> 0" using linkedD(3) [OF lk, of k] level_nonempty [of k h N a] Suc.prems by (metis Suc_leD hd_in_set)
  moreover have "Suc (h - Suc k) = h - k" using Suc.prems by simp
  ultimately show ?case
    by (subst enumerate_levels.simps) (simp add: go_on_def Let_def e fetch d Suc.IH [OF Suc_leD [OF Suc.prems]])
qed

text \<open>
  C21. An enumeration visits every entry exactly once, in order. On a tree that satisfies the invariant
  and whose pages can be read, \<open>BtreeBackend::enumerate\<close> with a callback that never stops it returns
  success, and the callback gets exactly these events: for every level from the root down to the
  leaves the number of the level, and then for every page of the level from left to right its
  start, its entries in their order and its end. The entries of the leaves, with which the events end, are
  the contents of the tree in ascending order.
\<close>

theorem btree_enumerate_all:
  assumes inv: "bt_inv cmp T h" and fetch: "\<And>b. bx_fetch X b = 0"
  shows "btree_enumerate X (go_on f) T c = Some (0, fold f (tree_events (bt_nodes T) h (bt_rootpage T) h) c) \<and>
     (\<exists>evs. tree_events (bt_nodes T) h (bt_rootpage T) h = evs @ tree_events (bt_nodes T) h (bt_rootpage T) 0) \<and>
     items_of (tree_events (bt_nodes T) h (bt_rootpage T) 0) = bt_contents T h"
proof -
  let ?N = "bt_nodes T" and ?a = "bt_rootpage T"
  have iv: "bt_tree cmp (bt_maxkeys T) ?N h None None ?a" "linked ?N (\<lambda>k. level ?N h k ?a)" using inv by (simp_all add: bt_inv_def)
  have "hd (level ?N h 0 ?a) \<in> set (level ?N h 0 ?a)" using level_nonempty [of 0 h ?N ?a] by simp
  then obtain l u where "bt_tree cmp (bt_maxkeys T) ?N 0 l u (hd (level ?N h 0 ?a))" using bt_tree_leaves [OF iv(1)] by blast
  then have leaf: "bn_ptr_left (?N (hd (level ?N h 0 ?a))) = 0" by simp
  have top: "hd (level ?N h h ?a) = ?a" by (cases h) simp_all
  have 1: "btree_enumerate X (go_on f) T c = Some (0, fold f (tree_events ?N h ?a h) c)"
    using enumerate_levels_all [OF fetch iv(2) leaf order_refl, of f c] by (simp add: btree_enumerate_def Let_def fetch top)
  have 2: "\<exists>evs. tree_events ?N h ?a k = evs @ tree_events ?N h ?a 0" for k
  proof (induction k)
    case (Suc k)
    then obtain evs where "tree_events ?N h ?a k = evs @ tree_events ?N h ?a 0" by blast
    then show ?case
      by (intro exI [of _ "ENUM_EVENT_DESCEND (h - Suc k) (btree_node_get_count (?N (hd (level ?N h (Suc k) ?a)))) #
        concat (map (page_events ?N) (level ?N h (Suc k) ?a)) @ evs"]) simp
  qed simp
  have 3: "items_of (tree_events ?N h ?a 0) = bt_contents T h"
    by (simp add: items_of_level bt_contents_def contents_def entries_of_def)
  show ?thesis using 1 2 3 by blast
qed

theorem btree_enumerate_all_witness:
  "btree_enumerate example_ctx (go_on (\<lambda>ev evs. evs @ [ev])) example_tree [] = Some (0, tree_events example_nodes (Suc 0) 0xc00 (Suc 0)) \<and>
     items_of (tree_events example_nodes (Suc 0) 0xc00 0) = map example_entry [1, 2, 5, 6, 7, 8]"
proof -
  have f: "fold (\<lambda>ev evs. evs @ [ev]) evs xs = xs @ evs" for evs xs :: "enum_event list" by (induction evs arbitrary: xs) simp_all
  have "\<And>b. bx_fetch example_ctx b = 0" by (simp add: example_ctx_def)
  from btree_enumerate_all [OF example_inv this, of "\<lambda>ev evs. evs @ [ev]" "[]"] show ?thesis
    unfolding f example_tree_simps example_contents by simp
qed

section \<open>What the integrity check decides\<close>

lemma sorted_join:
  assumes o: "tree_order cmp" and ne: "as \<noteq> []"
  shows "entries_sorted cmp (as @ bs) \<longleftrightarrow> entries_sorted cmp as \<and> entries_sorted cmp (last as # bs)"
proof
  assume "entries_sorted cmp (as @ bs)"
  then show "entries_sorted cmp as \<and> entries_sorted cmp (last as # bs)" using ne by auto
next
  assume s: "entries_sorted cmp as \<and> entries_sorted cmp (last as # bs)"
  have "cmp (entry_key a) (entry_key b) < 0" if ab: "a \<in> set as" "b \<in> set bs" for a b
  proof -
    have b: "cmp (entry_key (last as)) (entry_key b) < 0" using s ab by auto
    have as: "as = butlast as @ [last as]" using ne by simp
    then have "a = last as \<or> a \<in> set (butlast as)" using ab(1) by (metis Un_iff empty_iff insert_iff list.set set_append)
    moreover have "a \<in> set (butlast as) \<Longrightarrow> cmp (entry_key a) (entry_key (last as)) < 0" using s as entries_sorted_simps(3) [of cmp "butlast as" "[last as]"] by auto
    ultimately show ?thesis using b tree_orderD(5) [OF o, of "entry_key a" "entry_key (last as)" "entry_key b"] by auto
  qed
  with s show "entries_sorted cmp (as @ bs)" by auto
qed

lemma sorted_two: "tree_order cmp \<Longrightarrow> entries_sorted cmp (e # f # es) \<longleftrightarrow> cmp (entry_key e) (entry_key f) < 0 \<and> entries_sorted cmp (f # es)"
  using sorted_join [of cmp "[e, f]" es] by auto

lemma violated_nonzero [simp]: "INTEGRITY_VIOLATED \<noteq> 0"
  by (simp add: INTEGRITY_VIOLATED_def)

lemma verify_entries_iff:
  assumes o: "tree_order (bx_compare X)"
  shows "verify_entries X es = 0 \<longleftrightarrow> entries_sorted (bx_compare X) es \<and> (\<forall>e \<in> set (butlast es). ext_ok e)"
  using o
proof (induction X es rule: verify_entries.induct)
  case (1 X e f es)
  have n: "(bx_compare X a b < -1) = False" for a b using tree_orderD(2) [OF 1(2), of a b] by simp
  show ?case
    using 1(1) [OF _ refl _ _ 1(2)] sorted_two [OF 1(2), of e f es] by (auto simp: Let_def n ext_ok_def not_less)
qed (auto simp: entries_sorted_def)

text \<open>An inner node whose first entry carries flags of a record.\<close>

definition inner_flags_ok :: "bt_node \<Rightarrow> bool" where
  "inner_flags_ok n \<longleftrightarrow> btree_node_is_leaf n \<or> be_flags (hd (bn_entries n)) = 0 \<or> be_flags (hd (bn_entries n)) = KEY_IS_EXTENDED8"

definition page_good :: "bt_node \<Rightarrow> bool" where
  "page_good n \<longleftrightarrow> bn_entries n \<noteq> [] \<and> (\<forall>e \<in> set (butlast (bn_entries n)). ext_ok e)"

lemma verify_page_iff:
  assumes o: "tree_order (bx_compare X)" and r: "page \<noteq> root" and s: "\<And>s. leftsib = Some s \<Longrightarrow> bn_entries (N s) \<noteq> []"
  shows "verify_page X root N leftsib page = 0 \<longleftrightarrow> page_good (N page) \<and> entries_sorted (bx_compare X) (bn_entries (N page)) \<and>
     (case leftsib of None \<Rightarrow> True
      | Some s \<Rightarrow> inner_flags_ok (N page) \<and> bx_compare X (entry_key (last (bn_entries (N s)))) (entry_key (hd (bn_entries (N page)))) < 0)"
proof (cases "bn_entries (N page) = []")
  case True
  then show ?thesis using r by (simp add: verify_page_def Let_def btree_node_get_count_def page_good_def)
next
  case False
  have n: "(bx_compare X a b < -1) = False" for a b using tree_orderD(2) [OF o, of a b] by simp
  have "entries_sorted (bx_compare X) (bn_entries (N page))" "butlast (bn_entries (N page)) = []" if "length (bn_entries (N page)) = 1"
    using that by (auto simp: length_Suc_conv)
  then show ?thesis using False s verify_entries_iff [OF o, of "bn_entries (N page)"]
    by (cases leftsib)
      (auto simp: verify_page_def Let_def btree_node_get_count_def page_good_def inner_flags_ok_def last_conv_nth hd_conv_nth n split: if_splits)
qed

definition row_good :: "'r bt_ctx \<Rightarrow> (u64 \<Rightarrow> bt_node) \<Rightarrow> u64 option \<Rightarrow> u64 list \<Rightarrow> bool" where
  "row_good X N leftsib xs \<longleftrightarrow> (\<forall>x \<in> set xs. page_good (N x)) \<and>
     (\<forall>x \<in> set (if leftsib = None then tl xs else xs). inner_flags_ok (N x)) \<and>
     entries_sorted (bx_compare X) ((case leftsib of None \<Rightarrow> [] | Some s \<Rightarrow> [last (bn_entries (N s))]) @ entries_of N xs)"

lemma row_good_step:
  assumes o: "tree_order (bx_compare X)"
  shows "row_good X N leftsib (page # y # ys) \<longleftrightarrow> row_good X N leftsib [page] \<and> row_good X N (Some page) (y # ys)"
proof (cases "bn_entries (N page) = []")
  case True
  then show ?thesis by (simp add: row_good_def page_good_def)
next
  case False
  let ?l = "(case leftsib of None \<Rightarrow> [] | Some s \<Rightarrow> [last (bn_entries (N s))])"
  have "entries_sorted (bx_compare X) (?l @ entries_of N (page # y # ys)) \<longleftrightarrow>
      entries_sorted (bx_compare X) (?l @ entries_of N [page]) \<and>
      entries_sorted (bx_compare X) ([last (bn_entries (N page))] @ entries_of N (y # ys))"
    using sorted_join [OF o, of "?l @ bn_entries (N page)" "entries_of N (y # ys)"] False by (simp del: entries_sorted_simps)
  then show ?thesis unfolding row_good_def by (auto simp del: entries_sorted_simps entries_of_append)
qed

lemma verify_page_row:
  assumes o: "tree_order (bx_compare X)" and r: "page \<noteq> root" and s: "\<And>s. leftsib = Some s \<Longrightarrow> bn_entries (N s) \<noteq> []"
  shows "verify_page X root N leftsib page = 0 \<longleftrightarrow> row_good X N leftsib [page]"
proof (cases leftsib)
  case None
  then show ?thesis using verify_page_iff [OF o r, of leftsib N] by (simp add: row_good_def)
next
  case (Some t)
  have "entries_sorted (bx_compare X) (f # es) \<longleftrightarrow> entries_sorted (bx_compare X) es \<and> bx_compare X (entry_key f) (entry_key (hd es)) < 0"
    if "es \<noteq> []" for f es using sorted_two [OF o, of f "hd es" "tl es"] that by auto
  then show ?thesis unfolding Some using verify_page_iff [OF o r, of "Some t" N] s Some
    by (auto simp: row_good_def page_good_def simp del: entries_sorted_simps)
qed

lemma verify_siblings_row:
  assumes o: "tree_order (bx_compare X)" and fetch: "\<And>b. bx_fetch X b = 0"
  shows "seg N p (page # xs) 0 \<Longrightarrow> 0 \<notin> set xs \<Longrightarrow> root \<notin> set (page # xs) \<Longrightarrow> (\<And>s. leftsib = Some s \<Longrightarrow> bn_entries (N s) \<noteq> []) \<Longrightarrow>
     \<exists>st. verify_siblings X root N leftsib page = Some st \<and> (st = 0 \<longleftrightarrow> row_good X N leftsib (page # xs))"
proof (induction xs arbitrary: p page leftsib)
  case Nil
  then show ?case using verify_page_row [OF o, of page root leftsib N] by (simp add: verify_siblings.simps Let_def)
next
  case (Cons y ys)
  have sg: "bn_right (N page) = y" "y \<noteq> 0" "seg N page (y # ys) 0" "0 \<notin> set ys" "page \<noteq> root" "root \<notin> set (y # ys)" using Cons.prems by auto
  have v: "verify_page X root N leftsib page = 0 \<longleftrightarrow> row_good X N leftsib [page]" by (rule verify_page_row [OF o sg(5) Cons.prems(4)])
  have step: "verify_siblings X root N leftsib page = (if verify_page X root N leftsib page \<noteq> 0 then Some (verify_page X root N leftsib page)
      else verify_siblings X root N (Some page) y)"
    by (subst verify_siblings.simps) (simp add: Let_def sg(1,2) fetch)
  show ?case
  proof (cases "verify_page X root N leftsib page = 0")
    case False
    then show ?thesis unfolding step row_good_step [OF o] using v by simp
  next
    case True
    then have "bn_entries (N page) \<noteq> []" using v by (simp add: row_good_def page_good_def)
    then show ?thesis unfolding step row_good_step [OF o] using True v Cons.IH [OF sg(3,4,6), of "Some page"] by simp
  qed
qed

text \<open>
  C20. The integrity check of a level decides whether the level is in order. For the pages of a level
  that are linked from left to right and do not contain the root, \<open>__verify_level\<close> on the leftmost page always returns; its
  status is 0 if and only if no page is empty, the keys of all pages together ascend
  strictly from left to right, no entry but the last one of a page is marked as extended without a blob, and
  the first entries of inner pages except the leftmost have no flags of records.
\<close>

theorem verify_level_decides_order:
  assumes o: "tree_order (bx_compare X)" and fetch: "\<And>b. bx_fetch X b = 0" and row: "seg N 0 (page # xs) 0" "0 \<notin> set xs" "root \<notin> set (page # xs)"
  shows "\<exists>st. verify_level X root N parent page = Some st \<and>
     (st = 0 \<longleftrightarrow> (\<forall>x \<in> set (page # xs). bn_entries (N x) \<noteq> []) \<and> entries_sorted (bx_compare X) (entries_of N (page # xs)) \<and>
        (\<forall>x \<in> set (page # xs). \<forall>e \<in> set (butlast (bn_entries (N x))). ext_ok e) \<and> (\<forall>x \<in> set xs. inner_flags_ok (N x)))"
proof -
  have "bn_left (N page) = 0" using row(1) by simp
  then have "verify_level X root N parent page = verify_siblings X root N None page" by (simp add: verify_level_def Let_def)
  then show ?thesis using verify_siblings_row [OF o fetch row, of None] by (auto simp: row_good_def page_good_def)
qed

section \<open>The check accepts every well-formed tree\<close>

lemma bt_tree_level:
  "bt_tree cmp m N h lo hi a \<Longrightarrow> k \<le> h \<Longrightarrow> x \<in> set (level N h k a) \<Longrightarrow> \<exists>l u. bt_tree cmp m N k l u x"
proof (induction h arbitrary: a lo hi)
  case (Suc h)
  show ?case
  proof (cases "k = Suc h")
    case True
    then have "x = a" using Suc.prems(3) by simp
    then show ?thesis unfolding True using Suc.prems(1) by blast
  next
    case False
    then obtain i where i: "i < length (child_ptrs (N a))" "x \<in> set (level N h k (child_ptrs (N a) ! i))"
      using Suc.prems(3) by (auto simp: in_set_conv_nth [of _ "child_ptrs (N a)"])
    show ?thesis by (rule Suc.IH [OF bt_tree_kid [OF Suc.prems(1) i(1)] _ i(2)]) (use False Suc.prems(2) in simp)
  qed
qed auto

lemma bt_tree_level_sorted:
  assumes o: "tree_order cmp"
  shows "bt_tree cmp m N h lo hi a \<Longrightarrow> k \<le> h \<Longrightarrow>
    entries_sorted cmp (entries_of N (level N h k a)) \<and> (\<forall>e \<in> set (entries_of N (level N h k a)). in_range cmp lo hi (entry_key e))"
proof (induction h arbitrary: a lo hi)
  case (Suc h)
  show ?case
  proof (cases "k = Suc h")
    case True
    then show ?thesis using Suc.prems(1) by (simp add: node_ok_def)
  next
    case False
    then have k: "k \<le> h" using Suc.prems(2) by simp
    have c: "entries_of N (concat xss) = concat (map (entries_of N) xss)" for xss by (induction xss) simp_all
    have l: "entries_of N (level N (Suc h) k a) = concat (map (\<lambda>x. entries_of N (level N h k x)) (bn_ptr_left (N a) # map be_ptr (bn_entries (N a))))"
      using False by (simp add: c child_ptrs_def comp_def)
    show ?thesis unfolding l
      by (rule kids_concat [OF o]) (use Suc.prems(1) Suc.IH k in \<open>auto simp: node_ok_def\<close>)
  qed
qed (simp add: node_ok_def)

lemma verify_root_row:
  assumes o: "tree_order (bx_compare X)" and "entries_sorted (bx_compare X) (bn_entries (N a))" "\<forall>e \<in> set (bn_entries (N a)). ext_ok e"
    "bn_left (N a) = 0" "bn_right (N a) = 0"
  shows "verify_level X a N parent a = Some 0"
proof -
  have "verify_entries X (bn_entries (N a)) = 0" unfolding verify_entries_iff [OF o] using assms(2,3) by (meson in_set_butlastD)
  then have "verify_page X a N None a = 0" by (simp add: verify_page_def Let_def)
  then show ?thesis using assms(4,5) by (simp add: verify_level_def Let_def verify_siblings.simps)
qed

lemma verify_level_accepts:
  assumes o: "tree_order (bx_compare X)" and fetch: "\<And>b. bx_fetch X b = 0" and inv: "bt_inv (bx_compare X) T h" and k: "k \<le> h"
  defines "N \<equiv> bt_nodes T" and "a \<equiv> bt_rootpage T"
  shows "verify_level X a N parent (hd (level N h k a)) = Some 0"
proof -
  let ?cmp = "bx_compare X" and ?m = "bt_maxkeys T"
  have iv: "bt_tree ?cmp ?m N h None None a" "linked N (\<lambda>k. level N h k a)" "0 < h \<longrightarrow> (\<forall>x \<in> set (level N h 0 a). bn_entries (N x) \<noteq> [])"
    using inv by (simp_all add: bt_inv_def N_def a_def)
  have top: "level N h h a = [a]" by (cases h) simp_all
  show ?thesis
  proof (cases "k = h")
    case True
    have "node_ok ?cmp ?m None None (N a)" using iv(1) by (cases h) auto
    moreover have "bn_left (N a) = 0" "bn_right (N a) = 0" using linkedD(1) [OF iv(2), of h] unfolding top by simp_all
    ultimately show ?thesis unfolding True top using verify_root_row [OF o] by (simp add: node_ok_def)
  next
    case False
    obtain p xs where l: "level N h k a = p # xs" using level_nonempty [OF k, of N a] by (cases "level N h k a") auto
    have row: "seg N 0 (p # xs) 0" "0 \<notin> set xs" using linkedD(1,3) [OF iv(2), of k] unfolding l by auto
    have nr: "a \<notin> set (p # xs)" using linkedD(4) [OF iv(2), of a k h] top False l by (metis list.set_intros(1))
    have pg: "bn_entries (N x) \<noteq> []" "\<forall>e \<in> set (bn_entries (N x)). ext_ok e" "inner_flags_ok (N x)" if "x \<in> set (p # xs)" for x
    proof -
      note xin = that
      obtain lo hi where x: "bt_tree ?cmp ?m N k lo hi x" using bt_tree_level [OF iv(1) k, of x] xin unfolding l by blast
      then show "\<forall>e \<in> set (bn_entries (N x)). ext_ok e" "inner_flags_ok (N x)"
        by (cases k; auto simp: node_ok_def inner_ok_def inner_flags_ok_def btree_node_is_leaf_def)+
      show "bn_entries (N x) \<noteq> []" using x iv(3) xin l k False by (cases k) (auto simp: inner_ok_def)
    qed
    have s: "entries_sorted ?cmp (entries_of N (p # xs))" using bt_tree_level_sorted [OF o iv(1) k] unfolding l by blast
    have "page_good (N x)" if "x \<in> set (p # xs)" for x using pg(1,2) [OF that] in_set_butlastD [of _ "bn_entries (N x)"] by (auto simp: page_good_def)
    then have "row_good X N None (p # xs)" unfolding row_good_def using pg(3) s by simp
    moreover have "bn_left (N p) = 0" using row(1) by simp
    ultimately show ?thesis unfolding l using verify_siblings_row [OF o fetch row nr, of None] by (auto simp: verify_level_def Let_def)
  qed
qed

text \<open>
  C19. The integrity check accepts every tree that satisfies the invariant: on a tree of any height whose
  pages can be read, \<open>BtreeBackend::check_integrity\<close> walks over all levels, returns, and its
  status is 0.
\<close>

theorem btree_check_integrity_accepts:
  assumes o: "tree_order (bx_compare X)" and inv: "bt_inv (bx_compare X) T h" and fetch: "\<And>b. bx_fetch X b = 0"
  shows "btree_check_integrity X T = Some 0"
proof -
  let ?N = "bt_nodes T" and ?a = "bt_rootpage T"
  have iv: "bt_tree (bx_compare X) (bt_maxkeys T) ?N h None None ?a" "linked ?N (\<lambda>k. level ?N h k ?a)" using inv by (simp_all add: bt_inv_def)
  have "check_levels X ?a ?N parent (hd (level ?N h k ?a)) = Some 0" if "k \<le> h" for k parent
    using that
  proof (induction k arbitrary: parent)
    case 0
    have "hd (level ?N h 0 ?a) \<in> set (level ?N h 0 ?a)" using level_nonempty [of 0 h ?N ?a] by simp
    then have "bn_ptr_left (?N (hd (level ?N h 0 ?a))) = 0" using bt_tree_leaves [OF iv(1)] by fastforce
    then show ?case using verify_level_accepts [OF o fetch inv 0] by (subst check_levels.simps) (simp add: Let_def)
  next
    case (Suc k)
    have "hd (level ?N h k ?a) \<noteq> 0" using linkedD(3) [OF iv(2), of k] level_nonempty [of k h ?N ?a] Suc.prems by (metis Suc_leD hd_in_set)
    then show ?case using verify_level_accepts [OF o fetch inv Suc.prems] level_down [OF Suc.prems, of ?N ?a] Suc.IH [OF Suc_leD [OF Suc.prems]] fetch
      by (subst check_levels.simps) (simp add: Let_def)
  qed
  from this [OF order_refl, of False] show ?thesis by (cases h) (simp_all add: btree_check_integrity_def Let_def fetch)
qed

theorem btree_check_integrity_accepts_witness: "btree_check_integrity example_ctx example_tree = Some 0"
  by (rule btree_check_integrity_accepts [where h = "Suc 0"]) (simp_all add: example_inv tree_order_default, simp add: example_ctx_def)

theorem verify_level_decides_order_witness:
  "verify_level example_ctx 0xc00 (example_nodes(0x800 := (example_nodes 0x800)\<lparr>bn_entries := map example_entry [2, 6]\<rparr>)) True 0x400 \<noteq> Some 0"
proof -
  let ?N = "example_nodes(0x800 := (example_nodes 0x800)\<lparr>bn_entries := map example_entry [2, 6]\<rparr>)"
  have "\<not> entries_sorted db_default_compare (entries_of ?N [0x400, 0x800])"
  proof -
    have "db_default_compare [2] [2] = 0" by code_simp
    then show ?thesis by simp
  qed
  moreover have "seg ?N 0 [0x400, 0x800] 0" "(0 :: u64) \<notin> set [0x800]" "(0xc00 :: u64) \<notin> set [0x400, 0x800]" by simp_all
  moreover have "\<And>b. bx_fetch example_ctx b = 0" by (simp add: example_ctx_def)
  ultimately show ?thesis
    using verify_level_decides_order [of example_ctx ?N "0x400" "[0x800]" "0xc00" True] tree_order_default by (metis example_compare(1) option.inject)
qed

end
