(* ===== verification/Ham_Bt_Cursor.thy ===== *)
theory Ham_Bt_Cursor
  imports Ham_Bt_Find
begin

text \<open>
  Cursors on a B+tree, \<open>src/btree_cursor.cc\<close>: a cursor is coupled to an entry of a page, uncoupled
  with a copy of its key, or nil; with the number of the duplicate it points to. The moves to the first, last,
  next and previous entry go along the sibling links of the leaves and through the duplicates of each
  key. The theorems say that the moves visit every record of the tree in its order. The list of cursors that
  each page keeps is represented by the states of the cursors.
\<close>

section \<open>Cursors\<close>

definition HAM_ONLY_DUPLICATES :: u32 where "HAM_ONLY_DUPLICATES = 0x20"
definition HAM_CURSOR_FIRST :: u32 where "HAM_CURSOR_FIRST = 1"
definition HAM_CURSOR_LAST :: u32 where "HAM_CURSOR_LAST = 2"
definition HAM_CURSOR_NEXT :: u32 where "HAM_CURSOR_NEXT = 4"
definition HAM_CURSOR_PREVIOUS :: u32 where "HAM_CURSOR_PREVIOUS = 8"

definition CURSOR_IS_NIL :: int where "CURSOR_IS_NIL = ham_status_code HAM_CURSOR_IS_NIL"

datatype bt_coupling = BC_NIL | BC_COUPLED u64 nat | BC_UNCOUPLED "byte list"

text \<open>The cache of the current duplicate holds its flags and its record id; \<open>bc_txnop\<close> says whether the parent cursor is
  coupled to an operation of a transaction.\<close>

record bt_cursor =
  bc_state :: bt_coupling
  bc_dupe_id :: nat
  bc_dupe_cache :: "byte \<times> u64"
  bc_txnop :: bool

text \<open>
  What the functions call in other modules: \<open>blob_duplicate_get\<close>, \<open>blob_duplicate_get_count\<close> with the last
  entry, \<open>Database::copy_key\<close>, \<open>blob_get_datasize\<close>, and what the statistics suggest for a lookup.
\<close>

record 'r cur_ctx =
  cx_dup_get :: "u64 \<Rightarrow> nat \<Rightarrow> 'r \<Rightarrow> int \<times> byte \<times> u64"
  cx_dup_count :: "u64 \<Rightarrow> 'r \<Rightarrow> int \<times> nat \<times> byte \<times> u64"
  cx_copy_key :: "byte list \<Rightarrow> int"
  cx_datasize :: "u64 \<Rightarrow> 'r \<Rightarrow> int \<times> nat"
  cx_oob :: bool
  cx_hint :: "u64 option"

definition btree_cursor_set_to_nil :: "bt_cursor \<Rightarrow> bt_cursor" where
  "btree_cursor_set_to_nil c = c\<lparr>bc_state := BC_NIL, bc_dupe_id := 0, bc_dupe_cache := (0, 0)\<rparr>"

definition btree_cursor_is_nil :: "bt_cursor \<Rightarrow> bool" where
  "btree_cursor_is_nil c \<longleftrightarrow> bc_state c = BC_NIL \<and> \<not> bc_txnop c"

definition couple_to :: "u64 \<Rightarrow> nat \<Rightarrow> bt_cursor \<Rightarrow> bt_cursor" where
  "couple_to page i c = c\<lparr>bc_state := BC_COUPLED page i, bc_dupe_id := 0\<rparr>"

definition btree_cursor_find ::
  "'r bt_ctx \<Rightarrow> 'r cur_ctx \<Rightarrow> 'r btree \<Rightarrow> bt_cursor \<Rightarrow> byte list \<Rightarrow> u32 \<Rightarrow> bool \<Rightarrow> u32 \<Rightarrow> (int \<times> find_out \<times> bt_cursor) option" where
  "btree_cursor_find X K T c key kf want_record flags =
     (let c = btree_cursor_set_to_nil c
      in case btree_find_cursor X (cx_oob K) (cx_hint K) T key kf want_record flags of
           None \<Rightarrow> None
         | Some out \<Rightarrow>
             Some (fo_status out, out, case fo_pos out of None \<Rightarrow> c | Some (page, i) \<Rightarrow> c\<lparr>bc_state := BC_COUPLED page i\<rparr>))"

text \<open>Coupling an uncoupled cursor is a lookup of its key that keeps the number of the duplicate.\<close>

definition btree_cursor_couple :: "'r bt_ctx \<Rightarrow> 'r cur_ctx \<Rightarrow> 'r btree \<Rightarrow> byte list \<Rightarrow> bt_cursor \<Rightarrow> (int \<times> bt_cursor) option" where
  "btree_cursor_couple X K T key c =
     (if cx_copy_key K key \<noteq> 0 then Some (cx_copy_key K key, c)
      else map_option (\<lambda>(st, _, c'). (st, c'\<lparr>bc_dupe_id := bc_dupe_id c\<rparr>)) (btree_cursor_find X K T c key 0 False 0))"

definition ensure_coupled :: "'r bt_ctx \<Rightarrow> 'r cur_ctx \<Rightarrow> 'r btree \<Rightarrow> bt_cursor \<Rightarrow> (int \<times> bt_cursor) option" where
  "ensure_coupled X K T c =
     (case bc_state c of
        BC_NIL \<Rightarrow> Some (CURSOR_IS_NIL, c)
      | BC_COUPLED _ _ \<Rightarrow> Some (0, c)
      | BC_UNCOUPLED key \<Rightarrow> btree_cursor_couple X K T key c)"

section \<open>Moving\<close>

partial_function (option) first_leaf :: "'r bt_ctx \<Rightarrow> (u64 \<Rightarrow> bt_node) \<Rightarrow> u64 \<Rightarrow> (int + u64) option" where
  "first_leaf X N page =
     (let n = N page
      in if btree_node_get_count n = 0 then Some (Inl NOT_FOUND)
         else if btree_node_is_leaf n then Some (Inr page)
         else if bx_fetch X (bn_ptr_left n) \<noteq> 0 then Some (Inl (bx_fetch X (bn_ptr_left n)))
         else first_leaf X N (bn_ptr_left n))"

partial_function (option) last_leaf :: "'r bt_ctx \<Rightarrow> (u64 \<Rightarrow> bt_node) \<Rightarrow> u64 \<Rightarrow> (int + u64) option" where
  "last_leaf X N page =
     (let n = N page; child = be_ptr (bn_entries n ! (btree_node_get_count n - 1))
      in if btree_node_get_count n = 0 then Some (Inl NOT_FOUND)
         else if btree_node_is_leaf n then Some (Inr page)
         else if bx_fetch X child \<noteq> 0 then Some (Inl (bx_fetch X child))
         else last_leaf X N child)"

declare first_leaf.simps [code] last_leaf.simps [code]

definition move_first :: "'r bt_ctx \<Rightarrow> 'r btree \<Rightarrow> bt_cursor \<Rightarrow> (int \<times> bt_cursor) option" where
  "move_first X T c =
     (let c = btree_cursor_set_to_nil c; root = bt_rootpage T
      in if root = 0 then Some (NOT_FOUND, c)
         else if bx_fetch X root \<noteq> 0 then Some (bx_fetch X root, c)
         else
           map_option (\<lambda>r. case r of Inl st \<Rightarrow> (st, c) | Inr page \<Rightarrow> (0, couple_to page 0 c)) (first_leaf X (bt_nodes T) root))"

definition has_dupes :: "bt_entry \<Rightarrow> u32 \<Rightarrow> bool" where
  "has_dupes e flags \<longleftrightarrow> be_flags e AND KEY_HAS_DUPLICATES \<noteq> 0 \<and> flags AND HAM_SKIP_DUPLICATES = 0"

definition move_next ::
  "'r bt_ctx \<Rightarrow> 'r cur_ctx \<Rightarrow> 'r btree \<Rightarrow> bt_cursor \<Rightarrow> u32 \<Rightarrow> (int \<times> bt_cursor) option" where
  "move_next X K T c flags =
     (case ensure_coupled X K T c of
        None \<Rightarrow> None
      | Some (st, c) \<Rightarrow>
          if st \<noteq> 0 then Some (st, c)
          else
            (case bc_state c of
               BC_COUPLED page i \<Rightarrow>
                 (let n = bt_nodes T page; e = bn_entries n ! i; next_id = (bc_dupe_id c + 1) mod 2 ^ 32;
                      (dst, dupe) = cx_dup_get K (be_ptr e) next_id (bt_env T)
                  in if has_dupes e flags \<and> dst = 0 then Some (0, c\<lparr>bc_dupe_id := next_id, bc_dupe_cache := dupe\<rparr>)
                     else if has_dupes e flags \<and> dst \<noteq> NOT_FOUND then Some (dst, c)
                     else if flags AND HAM_ONLY_DUPLICATES \<noteq> 0 then Some (NOT_FOUND, c)
                     else if i + 1 < btree_node_get_count n then Some (0, couple_to page (i + 1) c)
                     else if bn_right n = 0 then Some (NOT_FOUND, c)
                     else if bx_fetch X (bn_right n) \<noteq> 0 then Some (bx_fetch X (bn_right n), c\<lparr>bc_state := BC_NIL\<rparr>)
                     else Some (0, couple_to (bn_right n) 0 c))
             | _ \<Rightarrow> None))"

text \<open>At the end of the list of duplicates of an entry.\<close>

definition to_last_dupe :: "'r cur_ctx \<Rightarrow> 'r btree \<Rightarrow> bt_entry \<Rightarrow> u32 \<Rightarrow> bt_cursor \<Rightarrow> int \<times> bt_cursor" where
  "to_last_dupe K T e flags c =
     (if has_dupes e flags then
        (case cx_dup_count K (be_ptr e) (bt_env T) of
           (st, count, dupe) \<Rightarrow>
             if st \<noteq> 0 then (st, c)
             else (0, c\<lparr>bc_dupe_id := (count + (2 ^ 32 - 1)) mod 2 ^ 32, bc_dupe_cache := dupe\<rparr>))
      else (0, c))"

definition move_previous ::
  "'r bt_ctx \<Rightarrow> 'r cur_ctx \<Rightarrow> 'r btree \<Rightarrow> bt_cursor \<Rightarrow> u32 \<Rightarrow> (int \<times> bt_cursor) option" where
  "move_previous X K T c flags =
     (case ensure_coupled X K T c of
        None \<Rightarrow> None
      | Some (st, c) \<Rightarrow>
          if st \<noteq> 0 then Some (st, c)
          else
            (case bc_state c of
               BC_COUPLED page i \<Rightarrow>
                 (let n = bt_nodes T page; e = bn_entries n ! i; dupes = (has_dupes e flags \<and> bc_dupe_id c > 0);
                      (dst, dupe) = cx_dup_get K (be_ptr e) (bc_dupe_id c - 1) (bt_env T)
                  in if dupes \<and> dst = 0 then Some (0, c\<lparr>bc_dupe_id := bc_dupe_id c - 1, bc_dupe_cache := dupe\<rparr>)
                     else if dupes \<and> dst \<noteq> NOT_FOUND then Some (dst, c)
                     else if flags AND HAM_ONLY_DUPLICATES \<noteq> 0 then Some (NOT_FOUND, c)
                     else if i \<noteq> 0 then Some (to_last_dupe K T (bn_entries n ! (i - 1)) flags (couple_to page (i - 1) c))
                     else if bn_left n = 0 then Some (NOT_FOUND, c)
                     else if bx_fetch X (bn_left n) \<noteq> 0 then Some (bx_fetch X (bn_left n), c\<lparr>bc_state := BC_NIL\<rparr>)
                     else
                       (let l = bt_nodes T (bn_left n); k = btree_node_get_count l - 1
                        in Some (to_last_dupe K T (bn_entries l ! k) flags (couple_to (bn_left n) k c))))
             | _ \<Rightarrow> None))"

text \<open>\<open>__move_last\<close> also sets the type of the root page.\<close>

definition move_last ::
  "'r bt_ctx \<Rightarrow> 'r cur_ctx \<Rightarrow> 'r btree \<Rightarrow> bt_cursor \<Rightarrow> u32 \<Rightarrow> (int \<times> bt_cursor \<times> 'r btree) option" where
  "move_last X K T c flags =
     (let c = btree_cursor_set_to_nil c; root = bt_rootpage T; T' = T\<lparr>bt_types := (bt_types T)(root := TYPE_B_ROOT)\<rparr>
      in if root = 0 then Some (NOT_FOUND, c, T)
         else if bx_fetch X root \<noteq> 0 then Some (bx_fetch X root, c, T)
         else
           map_option (\<lambda>r. case r of Inl st \<Rightarrow> (st, c, T')
               | Inr page \<Rightarrow>
                   (let n = bt_nodes T page; k = btree_node_get_count n - 1; (st, c) = to_last_dupe K T (bn_entries n ! k) flags (couple_to page k c)
                    in (st, c, T')))
             (last_leaf X (bt_nodes T) root))"

text \<open>
  \<open>btree_cursor_move\<close>: the move, and then the key and the record of the entry it arrived at, as far as the caller wants
  them. The result is the status, the cursor, the tree, the key and the record.
\<close>

definition cursor_dispatch ::
  "'r bt_ctx \<Rightarrow> 'r cur_ctx \<Rightarrow> 'r btree \<Rightarrow> bt_cursor \<Rightarrow> u32 \<Rightarrow> (int \<times> bt_cursor \<times> 'r btree) option" where
  "cursor_dispatch X K T c flags =
     (if flags AND HAM_CURSOR_FIRST \<noteq> 0 then map_option (\<lambda>(st, c). (st, c, T)) (move_first X T c)
      else if flags AND HAM_CURSOR_LAST \<noteq> 0 then move_last X K T c flags
      else if flags AND HAM_CURSOR_NEXT \<noteq> 0 then map_option (\<lambda>(st, c). (st, c, T)) (move_next X K T c flags)
      else if flags AND HAM_CURSOR_PREVIOUS \<noteq> 0 then map_option (\<lambda>(st, c). (st, c, T)) (move_previous X K T c flags)
      else
        (case bc_state c of
           BC_UNCOUPLED key \<Rightarrow> map_option (\<lambda>(st, c). (st, c, T)) (btree_cursor_couple X K T key c)
         | _ \<Rightarrow> Some (0, c, T)))"

definition cursor_record ::
  "'r bt_ctx \<Rightarrow> 'r cur_ctx \<Rightarrow> 'r btree \<Rightarrow> bt_entry \<Rightarrow> u32 \<Rightarrow> bt_cursor \<Rightarrow> int \<times> bt_cursor \<times> byte list" where
  "cursor_record X K T e flags c =
     (if be_flags e AND KEY_HAS_DUPLICATES \<noteq> 0 \<and> bc_dupe_id c \<noteq> 0 then
        (let (st, dupe) = (if snd (bc_dupe_cache c) = 0 then cx_dup_get K (be_ptr e) (bc_dupe_id c) (bt_env T) else (0, bc_dupe_cache c))
         in if st \<noteq> 0 then (st, c, [])
            else
              (case bx_read_record X (snd dupe, fst dupe) flags (bt_env T) of (st, d) \<Rightarrow> (st, c\<lparr>bc_dupe_cache := dupe\<rparr>, d)))
      else (case bx_read_record X (be_ptr e, be_flags e) flags (bt_env T) of (st, d) \<Rightarrow> (st, c, d)))"

definition btree_cursor_move ::
  "'r bt_ctx \<Rightarrow> 'r cur_ctx \<Rightarrow> 'r btree \<Rightarrow> bt_cursor \<Rightarrow> bool \<Rightarrow> bool \<Rightarrow> u32 \<Rightarrow>
   (int \<times> bt_cursor \<times> 'r btree \<times> byte list option \<times> byte list option) option" where
  "btree_cursor_move X K T c want_key want_record flags =
     (let c = c\<lparr>bc_dupe_cache := (0, 0)\<rparr>;
          moves = HAM_CURSOR_FIRST OR HAM_CURSOR_LAST OR HAM_CURSOR_NEXT OR HAM_CURSOR_PREVIOUS
      in if flags AND moves = 0 \<and> btree_cursor_is_nil c
         then Some (if want_key \<or> want_record then CURSOR_IS_NIL else 0, c, T, None, None)
         else
           (case cursor_dispatch X K T c flags of
              None \<Rightarrow> None
            | Some (st, c, T) \<Rightarrow>
                if st \<noteq> 0 then Some (st, c, T, None, None)
                else
                  (case bc_state c of
                     BC_COUPLED page i \<Rightarrow>
                       (let e = bn_entries (bt_nodes T page) ! i; key = (if want_key then Some (entry_key e) else None)
                        in if want_key \<and> bx_read_key X e \<noteq> 0 then Some (bx_read_key X e, c, T, None, None)
                           else if want_record then
                             (case cursor_record X K T e flags c of (st, c, d) \<Rightarrow> Some (st, c, T, key, if st = 0 then Some d else None))
                           else Some (0, c, T, key, None))
                   | _ \<Rightarrow> None)))"

section \<open>Uncoupling\<close>

text \<open>The result \<open>None\<close> is a cursor whose page is gone.\<close>

definition btree_cursor_uncouple :: "'r bt_ctx \<Rightarrow> (u64 \<Rightarrow> bt_node) \<Rightarrow> bt_cursor \<Rightarrow> (int \<times> bt_cursor) option" where
  "btree_cursor_uncouple X N c =
     (case bc_state c of
        BC_UNCOUPLED _ \<Rightarrow> Some (0, c)
      | BC_NIL \<Rightarrow> if bc_txnop c then None else Some (0, c)
      | BC_COUPLED page i \<Rightarrow>
          (let e = bn_entries (N page) ! i
           in Some (if bx_copy_key X e \<noteq> 0 then (bx_copy_key X e, c) else (0, c\<lparr>bc_state := BC_UNCOUPLED (entry_key e)\<rparr>))))"

text \<open>The cursors of a page whose position is at \<open>start\<close> or behind it.\<close>

fun btree_uncouple_all_cursors :: "'r bt_ctx \<Rightarrow> (u64 \<Rightarrow> bt_node) \<Rightarrow> nat \<Rightarrow> bt_cursor list \<Rightarrow> (int \<times> bt_cursor list) option" where
  "btree_uncouple_all_cursors X N start [] = Some (0, [])"
| "btree_uncouple_all_cursors X N start (c # cs) =
     (case bc_state c of
        BC_COUPLED page i \<Rightarrow>
          if i < start then map_option (\<lambda>(st, cs). (st, c # cs)) (btree_uncouple_all_cursors X N start cs)
          else
            (case btree_cursor_uncouple X N c of
               None \<Rightarrow> None
             | Some (st, c) \<Rightarrow>
                 if st \<noteq> 0 then Some (st, c # cs)
                 else map_option (\<lambda>(st, cs). (st, c # cs)) (btree_uncouple_all_cursors X N start cs))
      | BC_UNCOUPLED _ \<Rightarrow> map_option (\<lambda>(st, cs). (st, c # cs)) (btree_uncouple_all_cursors X N start cs)
      | BC_NIL \<Rightarrow> if bc_txnop c then None else map_option (\<lambda>(st, cs). (st, c # cs)) (btree_uncouple_all_cursors X N start cs))"

definition btree_cursor_couple_to_other :: "bt_cursor \<Rightarrow> bt_cursor \<Rightarrow> bt_cursor" where
  "btree_cursor_couple_to_other c other = (btree_cursor_set_to_nil c)\<lparr>bc_state := bc_state other, bc_dupe_id := bc_dupe_id other\<rparr>"

definition btree_cursor_close :: "bt_cursor \<Rightarrow> bt_cursor" where
  "btree_cursor_close c = btree_cursor_set_to_nil c"

section \<open>The entry of a cursor\<close>

definition btree_cursor_overwrite ::
  "'r bt_ctx \<Rightarrow> 'r cur_ctx \<Rightarrow> 'r btree \<Rightarrow> bt_cursor \<Rightarrow> u32 \<Rightarrow> (int \<times> bt_cursor \<times> 'r btree) option" where
  "btree_cursor_overwrite X K T c flags =
     (case ensure_coupled X K T c of
        None \<Rightarrow> None
      | Some (st, c) \<Rightarrow>
          if st \<noteq> 0 then Some (st, c, T)
          else
            (case bc_state c of
               BC_COUPLED page i \<Rightarrow>
                 (let n = bt_nodes T page; e = bn_entries n ! i;
                      (st, (ptr, fl), _, env) = bx_set_record X (be_ptr e, be_flags e) (bc_dupe_id c) (flags OR HAM_OVERWRITE) (bt_env T);
                      T' = T\<lparr>bt_nodes := (bt_nodes T)(page := n\<lparr>bn_entries := (bn_entries n)[i := e\<lparr>be_ptr := ptr, be_flags := fl\<rparr>]\<rparr>), bt_env := env\<rparr>
                  in Some (st, c\<lparr>bc_dupe_cache := (0, 0)\<rparr>, if st \<noteq> 0 then T' else T'\<lparr>bt_dirty_pages := insert page (bt_dirty_pages T')\<rparr>))
             | _ \<Rightarrow> None))"

definition btree_cursor_get_duplicate_count ::
  "'r bt_ctx \<Rightarrow> 'r cur_ctx \<Rightarrow> 'r btree \<Rightarrow> bt_cursor \<Rightarrow> (int \<times> nat \<times> bt_cursor) option" where
  "btree_cursor_get_duplicate_count X K T c =
     (case ensure_coupled X K T c of
        None \<Rightarrow> None
      | Some (st, c) \<Rightarrow>
          if st \<noteq> 0 then Some (st, 0, c)
          else
            (case bc_state c of
               BC_COUPLED page i \<Rightarrow>
                 (let e = bn_entries (bt_nodes T page) ! i
                  in if be_flags e AND KEY_HAS_DUPLICATES = 0 then Some (0, 1, c)
                     else (case cx_dup_count K (be_ptr e) (bt_env T) of (st, count, _) \<Rightarrow> Some (st, if st = 0 then count else 0, c)))
             | _ \<Rightarrow> None))"

text \<open>The size of a record that is stored in the entry is in its flags, of a tiny one in the last byte of the record id.\<close>

definition record_size :: "'r cur_ctx \<Rightarrow> 'r \<Rightarrow> byte \<Rightarrow> u64 \<Rightarrow> int \<times> nat" where
  "record_size K env fl rid =
     (if fl AND KEY_BLOB_SIZE_TINY \<noteq> 0 then (0, unat (drop_bit 56 rid))
      else if fl AND KEY_BLOB_SIZE_SMALL \<noteq> 0 then (0, 8)
      else if fl AND KEY_BLOB_SIZE_EMPTY \<noteq> 0 then (0, 0)
      else cx_datasize K rid env)"

definition btree_cursor_get_record_size ::
  "'r bt_ctx \<Rightarrow> 'r cur_ctx \<Rightarrow> 'r btree \<Rightarrow> bt_cursor \<Rightarrow> (int \<times> nat \<times> bt_cursor) option" where
  "btree_cursor_get_record_size X K T c =
     (case ensure_coupled X K T c of
        None \<Rightarrow> None
      | Some (st, c) \<Rightarrow>
          if st \<noteq> 0 then Some (st, 0, c)
          else
            (case bc_state c of
               BC_COUPLED page i \<Rightarrow>
                 (let e = bn_entries (bt_nodes T page) ! i
                  in if be_flags e AND KEY_HAS_DUPLICATES \<noteq> 0 then
                       (case cx_dup_get K (be_ptr e) (bc_dupe_id c) (bt_env T) of
                          (st, fl, rid) \<Rightarrow>
                            if st \<noteq> 0 then Some (st, 0, c)
                            else (case record_size K (bt_env T) fl rid of (st, n) \<Rightarrow> Some (st, n, c)))
                     else (case record_size K (bt_env T) (be_flags e) (be_ptr e) of (st, n) \<Rightarrow> Some (st, n, c)))
             | _ \<Rightarrow> None))"

definition btree_cursor_points_to ::
  "'r bt_ctx \<Rightarrow> 'r cur_ctx \<Rightarrow> 'r btree \<Rightarrow> bt_cursor \<Rightarrow> u64 \<times> nat \<Rightarrow> (bool \<times> bt_cursor) option" where
  "btree_cursor_points_to X K T c entry =
     (case bc_state c of
        BC_UNCOUPLED key \<Rightarrow>
          map_option (\<lambda>(st, c). (st = 0 \<and> bc_state c = BC_COUPLED (fst entry) (snd entry), c)) (btree_cursor_couple X K T key c)
      | s \<Rightarrow> Some (s = BC_COUPLED (fst entry) (snd entry), c))"

definition btree_cursor_points_to_key :: "'r bt_ctx \<Rightarrow> (u64 \<Rightarrow> bt_node) \<Rightarrow> bt_cursor \<Rightarrow> byte list \<Rightarrow> bool" where
  "btree_cursor_points_to_key X N c key =
     (case bc_state c of
        BC_UNCOUPLED k \<Rightarrow> length k = length key \<and> bx_compare X key k = 0
      | BC_COUPLED page i \<Rightarrow>
          (let e = bn_entries (N page) ! i
           in be_size e = length key \<and> bx_copy_key X e = 0 \<and> bx_compare X key (entry_key e) = 0)
      | BC_NIL \<Rightarrow> False)"

section \<open>Where a cursor stands\<close>

text \<open>
  A cursor that is coupled to the entry \<open>i\<close> of the leaf \<open>q\<close> stands at that entry of the whole tree, numbered from
  the left, and at the duplicate with its number.
\<close>

definition stands_at :: "'r btree \<Rightarrow> nat \<Rightarrow> bt_cursor \<Rightarrow> nat \<times> nat \<Rightarrow> bool" where
  "stands_at T h c s \<longleftrightarrow>
     (\<exists>q i. q < length (bt_leaves T h) \<and> bc_state c = BC_COUPLED (bt_leaves T h ! q) i \<and>
        i < length (bn_entries (bt_nodes T (bt_leaves T h ! q))) \<and>
        fst s = length (entries_of (bt_nodes T) (take q (bt_leaves T h))) + i \<and> snd s = bc_dupe_id c)"

text \<open>
  The duplicates: for an entry with duplicates, \<open>D\<close> gives the flags and the record ids in its table, which the
  queries report.
\<close>

definition dup_tables :: "'r cur_ctx \<Rightarrow> 'r \<Rightarrow> (u64 \<Rightarrow> (byte \<times> u64) list) \<Rightarrow> bt_entry list \<Rightarrow> bool" where
  "dup_tables K env D es \<longleftrightarrow>
     (\<forall>e \<in> set es. be_flags e AND KEY_HAS_DUPLICATES \<noteq> 0 \<longrightarrow>
        0 < length (D (be_ptr e)) \<and> length (D (be_ptr e)) < 2 ^ 32 \<and>
        cx_dup_count K (be_ptr e) env = (0, length (D (be_ptr e)), last (D (be_ptr e))) \<and>
        (\<forall>d < length (D (be_ptr e)). cx_dup_get K (be_ptr e) d env = (0, D (be_ptr e) ! d)) \<and>
        (\<forall>d \<ge> length (D (be_ptr e)). fst (cx_dup_get K (be_ptr e) d env) = NOT_FOUND))"

definition stops_at :: "(u64 \<Rightarrow> (byte \<times> u64) list) \<Rightarrow> u32 \<Rightarrow> bt_entry \<Rightarrow> nat" where
  "stops_at D flags e = (if has_dupes e flags then length (D (be_ptr e)) else 1)"

fun stops :: "nat \<Rightarrow> nat list \<Rightarrow> (nat \<times> nat) list" where
  "stops j [] = []"
| "stops j (m # ms) = map (Pair j) [0..<m] @ stops (Suc j) ms"

text \<open>The neighbours of a stop.\<close>

definition next_stop :: "nat list \<Rightarrow> nat \<times> nat \<Rightarrow> (nat \<times> nat) option" where
  "next_stop ms s = (if snd s + 1 < ms ! fst s then Some (fst s, snd s + 1) else if fst s + 1 < length ms then Some (fst s + 1, 0) else None)"

definition prev_stop :: "nat list \<Rightarrow> nat \<times> nat \<Rightarrow> (nat \<times> nat) option" where
  "prev_stop ms s = (if 0 < snd s then Some (fst s, snd s - 1) else if 0 < fst s then Some (fst s - 1, ms ! (fst s - 1) - 1) else None)"

lemma stops_append: "stops j (ms @ ns) = stops j ms @ stops (j + length ms) ns"
  by (induction ms arbitrary: j) simp_all

lemma stops_split:
  assumes "\<And>m. m \<in> set ms \<Longrightarrow> 0 < m" and "j < length ms" "d < ms ! j"
  shows "\<exists>as bs. stops 0 ms = as @ (j, d) # bs \<and> next_stop ms (j, d) = (if bs = [] then None else Some (hd bs)) \<and>
     prev_stop ms (j, d) = (if as = [] then None else Some (last as))"
proof -
  let ?as = "stops 0 (take j ms) @ map (Pair j) [0..<d]" and ?bs = "map (Pair j) [Suc d..<ms ! j] @ stops (Suc j) (drop (Suc j) ms)"
  have "ms = take j ms @ ms ! j # drop (Suc j) ms" using assms(2) by (rule id_take_nth_drop)
  then have "stops 0 ms = stops 0 (take j ms) @ stops j (ms ! j # drop (Suc j) ms)"
    using assms(2) by (metis stops_append add_0 length_take min.absorb4)
  moreover have "[0..<ms ! j] = [0..<d] @ d # [Suc d..<ms ! j]" using assms(3)
    by (metis le_add_same_cancel1 upt_add_eq_append upt_conv_Cons less_imp_add_positive zero_le)
  ultimately have s: "stops 0 ms = ?as @ (j, d) # ?bs" by simp
  have "next_stop ms (j, d) = (if ?bs = [] then None else Some (hd ?bs))"
  proof (cases "Suc d < ms ! j")
    case True
    then show ?thesis by (simp add: next_stop_def upt_conv_Cons)
  next
    case False
    show ?thesis
    proof (cases "Suc j < length ms")
      case True
      then have "drop (Suc j) ms = ms ! Suc j # drop (Suc (Suc j)) ms" "0 < ms ! Suc j"
        using assms(1) by (simp_all add: Cons_nth_drop_Suc)
      then show ?thesis using False True by (simp add: next_stop_def upt_conv_Cons)
    qed (use False in \<open>simp add: next_stop_def\<close>)
  qed
  moreover have "prev_stop ms (j, d) = (if ?as = [] then None else Some (last ?as))"
  proof (cases d)
    case 0
    show ?thesis
    proof (cases j)
      case (Suc i)
      have "take j ms = take i ms @ [ms ! i]" "0 < ms ! i" using Suc assms by (simp_all add: take_Suc_conv_app_nth)
      then show ?thesis using 0 Suc assms(2) by (simp add: prev_stop_def stops_append last_map)
    qed (use 0 in \<open>simp add: prev_stop_def\<close>)
  qed (simp add: prev_stop_def)
  ultimately show ?thesis using s by blast
qed

lemma stops_set: "s \<in> set (stops k ms) \<Longrightarrow> k \<le> fst s \<and> fst s < k + length ms \<and> snd s < ms ! (fst s - k)"
proof (induction ms arbitrary: k)
  case (Cons m ms)
  then consider "fst s = k" "snd s < m" | "s \<in> set (stops (Suc k) ms)" by auto
  then show ?case
  proof cases
    case 2
    then have "Suc k \<le> fst s \<and> fst s < Suc k + length ms \<and> snd s < ms ! (fst s - Suc k)" by (rule Cons.IH)
    moreover from this have "fst s - k = Suc (fst s - Suc k)" by linarith
    ultimately show ?thesis by simp
  qed simp
qed simp

lemma distinct_stops: "distinct (stops k ms)"
proof (induction ms arbitrary: k)
  case (Cons m ms)
  have "set (map (Pair k) [0..<m]) \<inter> set (stops (Suc k) ms) = {}" using stops_set [of _ "Suc k" ms] by fastforce
  then show ?case using Cons.IH by (simp add: distinct_map inj_on_def)
qed simp

lemma stops_nth:
  assumes pos: "\<And>m. m \<in> set ms \<Longrightarrow> 0 < m" and n: "n < length (stops 0 ms)"
  shows "fst (stops 0 ms ! n) < length ms" "snd (stops 0 ms ! n) < ms ! fst (stops 0 ms ! n)"
    "next_stop ms (stops 0 ms ! n) = (if Suc n < length (stops 0 ms) then Some (stops 0 ms ! Suc n) else None)"
    "prev_stop ms (stops 0 ms ! n) = (if n = 0 then None else Some (stops 0 ms ! (n - 1)))"
proof -
  obtain j d where s: "stops 0 ms ! n = (j, d)" by fastforce
  show b: "fst (stops 0 ms ! n) < length ms" "snd (stops 0 ms ! n) < ms ! fst (stops 0 ms ! n)"
    using stops_set [OF nth_mem [OF n]] by simp_all
  obtain as bs where sp: "stops 0 ms = as @ (j, d) # bs" "next_stop ms (j, d) = (if bs = [] then None else Some (hd bs))"
      "prev_stop ms (j, d) = (if as = [] then None else Some (last as))"
    using stops_split [where ms = ms and j = j and d = d, OF pos] b unfolding s by auto
  have "n = length as"
    using nth_eq_iff_index_eq [OF distinct_stops [of 0 ms] n, of "length as"] s sp(1) by simp
  then show "next_stop ms (stops 0 ms ! n) = (if Suc n < length (stops 0 ms) then Some (stops 0 ms ! Suc n) else None)"
    "prev_stop ms (stops 0 ms ! n) = (if n = 0 then None else Some (stops 0 ms ! (n - 1)))"
    unfolding s sp(2,3) by (simp_all add: sp(1) nth_append hd_conv_nth last_conv_nth)
qed

lemma entries_of_nth:
  assumes "q < length L" "i < length (bn_entries (N (L ! q)))"
  shows "length (entries_of N (take q L)) + i < length (entries_of N L)"
    "entries_of N L ! (length (entries_of N (take q L)) + i) = bn_entries (N (L ! q)) ! i"
proof -
  have "entries_of N L = entries_of N (take q L) @ bn_entries (N (L ! q)) @ entries_of N (drop (Suc q) L)"
    using id_take_nth_drop [OF assms(1)] by (metis entries_of_append(2,3))
  with assms(2) show "length (entries_of N (take q L)) + i < length (entries_of N L)"
    "entries_of N L ! (length (entries_of N (take q L)) + i) = bn_entries (N (L ! q)) ! i" by (simp_all add: nth_append)
qed

lemma entries_of_take_Suc: "q < length L \<Longrightarrow> entries_of N (take (Suc q) L) = entries_of N (take q L) @ bn_entries (N (L ! q))"
  by (simp add: take_Suc_conv_app_nth)

section \<open>The moves\<close>

text \<open>A cursor that has arrived at a stop; its cache is empty or holds the entry of that duplicate.\<close>

definition arrived :: "(u64 \<Rightarrow> (byte \<times> u64) list) \<Rightarrow> 'r btree \<Rightarrow> nat \<Rightarrow> bt_cursor \<Rightarrow> nat \<times> nat \<Rightarrow> bool" where
  "arrived D T h c s \<longleftrightarrow> stands_at T h c s \<and> fst s < length (bt_contents T h) \<and>
     (let e = bt_contents T h ! fst s
      in bc_dupe_cache c = (0, 0) \<or>
         be_flags e AND KEY_HAS_DUPLICATES \<noteq> 0 \<and> snd s < length (D (be_ptr e)) \<and> bc_dupe_cache c = D (be_ptr e) ! snd s)"

lemma contents_leaves: "bt_contents T h = entries_of (bt_nodes T) (bt_leaves T h)"
  by (simp add: entries_of_def bt_leaves_def bt_contents_def contents_def)

lemma leaf_links:
  assumes "bt_inv cmp T h" "q < length (bt_leaves T h)"
  shows "bn_right (bt_nodes T (bt_leaves T h ! q)) = (if Suc q = length (bt_leaves T h) then 0 else bt_leaves T h ! Suc q)"
    "bn_left (bt_nodes T (bt_leaves T h ! q)) = (if q = 0 then 0 else bt_leaves T h ! (q - 1))"
    "bt_leaves T h ! q \<noteq> 0" "0 < h \<Longrightarrow> bn_entries (bt_nodes T (bt_leaves T h ! q)) \<noteq> []"
proof -
  have l: "linked (bt_nodes T) (\<lambda>k. level (bt_nodes T) h k (bt_rootpage T))"
    and ne: "0 < h \<longrightarrow> (\<forall>x \<in> set (bt_leaves T h). bn_entries (bt_nodes T x) \<noteq> [])"
    using assms(1) by (simp_all add: bt_inv_def bt_leaves_def)
  have s: "seg (bt_nodes T) 0 (bt_leaves T h) 0" unfolding bt_leaves_def by (rule linkedD(1) [OF l])
  show "bn_right (bt_nodes T (bt_leaves T h ! q)) = (if Suc q = length (bt_leaves T h) then 0 else bt_leaves T h ! Suc q)"
    "bn_left (bt_nodes T (bt_leaves T h ! q)) = (if q = 0 then 0 else bt_leaves T h ! (q - 1))"
    using seg_nth [OF s assms(2)] by auto
  have "0 \<notin> set (bt_leaves T h)" unfolding bt_leaves_def by (rule linkedD(3) [OF l])
  then show "bt_leaves T h ! q \<noteq> 0" using nth_mem [OF assms(2)] by auto
  show "0 < h \<Longrightarrow> bn_entries (bt_nodes T (bt_leaves T h ! q)) \<noteq> []" using ne nth_mem [OF assms(2)] by blast
qed

lemma leaves_single: "length (bt_leaves T 0) = 1"
  by (simp add: bt_leaves_def)

text \<open>The next and the previous entry of the tree, along the leaves.\<close>

lemma next_entry:
  assumes inv: "bt_inv cmp T h" and q: "q < length (bt_leaves T h)" and i: "i < length (bn_entries (bt_nodes T (bt_leaves T h ! q)))"
  defines "L \<equiv> bt_leaves T h" and "N \<equiv> bt_nodes T"
  defines "j \<equiv> length (entries_of N (take q L)) + i"
  shows "i + 1 < length (bn_entries (N (L ! q))) \<Longrightarrow> j + 1 < length (bt_contents T h)"
    "\<not> i + 1 < length (bn_entries (N (L ! q))) \<Longrightarrow> Suc q = length L \<Longrightarrow> j + 1 = length (bt_contents T h)"
    "\<not> i + 1 < length (bn_entries (N (L ! q))) \<Longrightarrow> Suc q \<noteq> length L \<Longrightarrow>
       Suc q < length L \<and> bn_entries (N (L ! Suc q)) \<noteq> [] \<and> j + 1 = length (entries_of N (take (Suc q) L)) \<and> j + 1 < length (bt_contents T h)"
proof -
  note c = contents_leaves [of T h, folded L_def N_def]
  show "i + 1 < length (bn_entries (N (L ! q))) \<Longrightarrow> j + 1 < length (bt_contents T h)"
    using entries_of_nth(1) [of q L "i + 1" N] q by (simp add: c j_def L_def)
  have s: "\<not> i + 1 < length (bn_entries (N (L ! q))) \<Longrightarrow> j + 1 = length (entries_of N (take (Suc q) L))"
    using i q by (simp add: entries_of_take_Suc j_def L_def N_def)
  then show "\<not> i + 1 < length (bn_entries (N (L ! q))) \<Longrightarrow> Suc q = length L \<Longrightarrow> j + 1 = length (bt_contents T h)"
    by (simp add: c)
  assume a: "\<not> i + 1 < length (bn_entries (N (L ! q)))" "Suc q \<noteq> length L"
  then have sq: "Suc q < length L" using q by (simp add: L_def)
  then have "0 < h" using leaves_single [of T] by (cases h) (simp_all add: L_def)
  then have ne: "bn_entries (N (L ! Suc q)) \<noteq> []" using leaf_links(4) [OF inv sq [unfolded L_def]] by (simp add: L_def N_def)
  then show "Suc q < length L \<and> bn_entries (N (L ! Suc q)) \<noteq> [] \<and> j + 1 = length (entries_of N (take (Suc q) L)) \<and> j + 1 < length (bt_contents T h)"
    using s [OF a(1)] sq entries_of_nth(1) [of "Suc q" L 0 N] by (simp add: c)
qed

lemma prev_entry:
  assumes inv: "bt_inv cmp T h" and q: "q < length (bt_leaves T h)" and i: "i < length (bn_entries (bt_nodes T (bt_leaves T h ! q)))"
  defines "L \<equiv> bt_leaves T h" and "N \<equiv> bt_nodes T"
  defines "j \<equiv> length (entries_of N (take q L)) + i"
  shows "i = 0 \<Longrightarrow> q = 0 \<Longrightarrow> j = 0"
    "i = 0 \<Longrightarrow> 0 < q \<Longrightarrow> bn_entries (N (L ! (q - 1))) \<noteq> [] \<and> 0 < j \<and>
       j - 1 = length (entries_of N (take (q - 1) L)) + (length (bn_entries (N (L ! (q - 1)))) - 1)"
proof -
  show "i = 0 \<Longrightarrow> q = 0 \<Longrightarrow> j = 0" by (simp add: j_def)
  assume a: "i = 0" "0 < q"
  have q1: "q - 1 < length L" using q by (simp add: L_def)
  have "0 < h" using leaves_single [of T] a q by (cases h) simp_all
  then have ne: "bn_entries (N (L ! (q - 1))) \<noteq> []" using leaf_links(4) [OF inv q1 [unfolded L_def]] by (simp add: L_def N_def)
  have "entries_of N (take q L) = entries_of N (take (q - 1) L) @ bn_entries (N (L ! (q - 1)))"
    using entries_of_take_Suc [OF q1] a(2) by simp
  with ne show "bn_entries (N (L ! (q - 1))) \<noteq> [] \<and> 0 < j \<and>
       j - 1 = length (entries_of N (take (q - 1) L)) + (length (bn_entries (N (L ! (q - 1)))) - 1)"
    using a(1) by (cases "bn_entries (N (L ! (q - 1)))") (simp_all add: j_def)
qed

lemma stands_atE:
  assumes "stands_at T h c (j, d)"
  obtains q i where "q < length (bt_leaves T h)" "bc_state c = BC_COUPLED (bt_leaves T h ! q) i"
    "i < length (bn_entries (bt_nodes T (bt_leaves T h ! q)))" "j = length (entries_of (bt_nodes T) (take q (bt_leaves T h))) + i"
    "d = bc_dupe_id c" "j < length (bt_contents T h)" "bt_contents T h ! j = bn_entries (bt_nodes T (bt_leaves T h ! q)) ! i"
proof -
  obtain q i where "q < length (bt_leaves T h)" "bc_state c = BC_COUPLED (bt_leaves T h ! q) i"
    "i < length (bn_entries (bt_nodes T (bt_leaves T h ! q)))" "j = length (entries_of (bt_nodes T) (take q (bt_leaves T h))) + i"
    "d = bc_dupe_id c" using assms unfolding stands_at_def by auto
  with that show thesis using entries_of_nth [of q "bt_leaves T h" i "bt_nodes T"] unfolding contents_leaves by blast
qed

lemma arrived_couple:
  assumes "q < length (bt_leaves T h)" "i < length (bn_entries (bt_nodes T (bt_leaves T h ! q)))"
    "j = length (entries_of (bt_nodes T) (take q (bt_leaves T h))) + i" "bc_dupe_cache c = (0, 0)"
  shows "arrived D T h (couple_to (bt_leaves T h ! q) i c) (j, 0)"
  unfolding arrived_def stands_at_def contents_leaves couple_to_def using assms entries_of_nth(1) [of q "bt_leaves T h" i "bt_nodes T"]
  by (auto simp: Let_def)

lemma arrived_dupe:
  assumes "stands_at T h c (j, d)" "be_flags (bt_contents T h ! j) AND KEY_HAS_DUPLICATES \<noteq> 0"
    "d' < length (D (be_ptr (bt_contents T h ! j)))"
  shows "arrived D T h (c\<lparr>bc_dupe_id := d', bc_dupe_cache := D (be_ptr (bt_contents T h ! j)) ! d'\<rparr>) (j, d')"
proof -
  have "stands_at T h (c\<lparr>bc_dupe_id := d', bc_dupe_cache := x\<rparr>) (j, d')" for x using assms(1) by (auto simp: stands_at_def)
  then show ?thesis using assms stands_atE [OF assms(1)] by (auto simp: arrived_def Let_def)
qed

lemma stands_coupled: "stands_at T h c s \<Longrightarrow> ensure_coupled X K T c = Some (0, c)"
  by (auto simp: stands_at_def ensure_coupled_def)

lemma dup_tablesD:
  assumes "dup_tables K env D es" "e \<in> set es" "has_dupes e flags"
  shows "0 < length (D (be_ptr e))" "length (D (be_ptr e)) < 2 ^ 32"
    "cx_dup_count K (be_ptr e) env = (0, length (D (be_ptr e)), last (D (be_ptr e)))"
    "d < length (D (be_ptr e)) \<Longrightarrow> cx_dup_get K (be_ptr e) d env = (0, D (be_ptr e) ! d)"
    "\<not> d < length (D (be_ptr e)) \<Longrightarrow> fst (cx_dup_get K (be_ptr e) d env) = NOT_FOUND"
    "be_flags e AND KEY_HAS_DUPLICATES \<noteq> 0"
  using assms unfolding dup_tables_def has_dupes_def by auto

lemma NOT_FOUND_nonzero [simp]: "NOT_FOUND \<noteq> 0" "0 \<noteq> NOT_FOUND"
  by (simp_all add: NOT_FOUND_def)

lemma move_next_step:
  assumes inv: "bt_inv cmp T h" and fetch: "\<forall>b. bx_fetch X b = 0" and tab: "dup_tables K (bt_env T) D (bt_contents T h)"
    and at: "stands_at T h c (j, d)" and empty: "bc_dupe_cache c = (0, 0)" and only: "flags AND HAM_ONLY_DUPLICATES = 0"
    and d: "d < stops_at D flags (bt_contents T h ! j)"
  shows "case next_stop (map (stops_at D flags) (bt_contents T h)) (j, d) of
      None \<Rightarrow> move_next X K T c flags = Some (NOT_FOUND, c)
    | Some s \<Rightarrow> \<exists>c'. move_next X K T c flags = Some (0, c') \<and> arrived D T h c' s"
proof -
  let ?L = "bt_leaves T h" and ?N = "bt_nodes T" and ?C = "bt_contents T h"
  obtain q i where p: "q < length ?L" "bc_state c = BC_COUPLED (?L ! q) i" "i < length (bn_entries (?N (?L ! q)))"
    "j = length (entries_of ?N (take q ?L)) + i" "d = bc_dupe_id c" "j < length ?C" "?C ! j = bn_entries (?N (?L ! q)) ! i"
    by (rule stands_atE [OF at])
  let ?e = "?C ! j" let ?n = "length (D (be_ptr ?e))"
  note t = dup_tablesD [OF tab nth_mem [OF p(6)]]
  note l = leaf_links [OF inv p(1)] and nx = next_entry [OF inv p(1,3), folded p(4)]
  have small: "(d + 1) mod 2 ^ 32 = d + 1" if "has_dupes ?e flags"
    using t(2) [OF that] d that by (simp add: stops_at_def)
  have ns: "next_stop (map (stops_at D flags) ?C) (j, d) =
      (if d + 1 < stops_at D flags ?e then Some (j, d + 1) else if j + 1 < length ?C then Some (j + 1, 0) else None)"
    using p(6) by (simp add: next_stop_def)
  show ?thesis
  proof (cases "d + 1 < stops_at D flags ?e")
    case True
    then have hd: "has_dupes ?e flags" "d + 1 < ?n" by (auto simp: stops_at_def split: if_splits)
    have "move_next X K T c flags = Some (0, c\<lparr>bc_dupe_id := d + 1, bc_dupe_cache := D (be_ptr ?e) ! (d + 1)\<rparr>)"
      unfolding move_next_def stands_coupled [OF at] using p(2,5,7) hd t(4) [OF hd(1,2)] small [OF hd(1)] by simp
    then show ?thesis unfolding ns using True arrived_dupe [where D = D, OF at t(6) [OF hd(1)] hd(2)] by simp
  next
    case False
    have go: "move_next X K T c flags =
        (if i + 1 < btree_node_get_count (?N (?L ! q)) then Some (0, couple_to (?L ! q) (i + 1) c)
         else if bn_right (?N (?L ! q)) = 0 then Some (NOT_FOUND, c) else Some (0, couple_to (bn_right (?N (?L ! q))) 0 c))"
    proof (cases "has_dupes ?e flags")
      case True
      then have "\<not> d + 1 < ?n" using False by (simp add: stops_at_def)
      then have "fst (cx_dup_get K (be_ptr ?e) (d + 1) (bt_env T)) = NOT_FOUND" by (rule t(5) [OF True])
      then show ?thesis unfolding move_next_def stands_coupled [OF at]
        using p(2,5,7) small [OF True] only fetch by (auto simp: Let_def split: prod.splits)
    next
      case False
      then show ?thesis unfolding move_next_def stands_coupled [OF at] using p(2,5,7) only fetch by (auto simp: Let_def split: prod.splits)
    qed
    show ?thesis
    proof (cases "i + 1 < length (bn_entries (?N (?L ! q)))")
      case True
      have "arrived D T h (couple_to (?L ! q) (i + 1) c) (j + 1, 0)" by (rule arrived_couple [OF p(1) True _ empty]) (simp add: p(4))
      then show ?thesis unfolding ns go using True False nx(1) by (simp add: btree_node_get_count_def)
    next
      case fin: False
      show ?thesis
      proof (cases "Suc q = length ?L")
        case True
        then show ?thesis unfolding ns go using fin False nx(2) l(1) by (simp add: btree_node_get_count_def)
      next
        case more: False
        note n3 = nx(3) [OF fin more]
        have "?L ! Suc q \<noteq> 0" using leaf_links(3) [OF inv] n3 by blast
        moreover have "arrived D T h (couple_to (?L ! Suc q) 0 c) (j + 1, 0)"
          by (rule arrived_couple) (use n3 empty in auto)
        ultimately show ?thesis unfolding ns go using fin False l(1) more n3 by (simp add: btree_node_get_count_def)
      qed
    qed
  qed
qed

lemma to_last_dupe_arrives:
  assumes tab: "dup_tables K (bt_env T) D (bt_contents T h)" and at: "arrived D T h c (j, 0)"
  shows "\<exists>c'. to_last_dupe K T (bt_contents T h ! j) flags c = (0, c') \<and> arrived D T h c' (j, stops_at D flags (bt_contents T h ! j) - 1)"
proof (cases "has_dupes (bt_contents T h ! j) flags")
  case True
  let ?l = "D (be_ptr (bt_contents T h ! j))"
  have j: "j < length (bt_contents T h)" using at by (simp add: arrived_def)
  note t = dup_tablesD [OF tab nth_mem [OF j] True]
  have "(length ?l + (2 ^ 32 - 1)) mod 2 ^ 32 = length ?l - 1"
  proof -
    have "length ?l + (2 ^ 32 - 1) = (length ?l - 1) + 2 ^ 32" using t(1) by simp
    then show ?thesis using t(2) by (metis mod_add_self2 mod_less less_imp_diff_less)
  qed
  then have "to_last_dupe K T (bt_contents T h ! j) flags c = (0, c\<lparr>bc_dupe_id := length ?l - 1, bc_dupe_cache := ?l ! (length ?l - 1)\<rparr>)"
    using True t(1,3) by (simp add: to_last_dupe_def last_conv_nth)
  moreover have "stands_at T h c (j, 0)" using at by (simp add: arrived_def)
  ultimately show ?thesis using arrived_dupe [where D = D and d' = "length ?l - 1", OF _ t(6)] t(1) True by (simp add: stops_at_def)
qed (use at in \<open>simp add: to_last_dupe_def stops_at_def\<close>)

lemma move_previous_step:
  assumes inv: "bt_inv cmp T h" and fetch: "\<forall>b. bx_fetch X b = 0" and tab: "dup_tables K (bt_env T) D (bt_contents T h)"
    and at: "stands_at T h c (j, d)" and empty: "bc_dupe_cache c = (0, 0)" and only: "flags AND HAM_ONLY_DUPLICATES = 0"
    and d: "d < stops_at D flags (bt_contents T h ! j)"
  shows "case prev_stop (map (stops_at D flags) (bt_contents T h)) (j, d) of
      None \<Rightarrow> move_previous X K T c flags = Some (NOT_FOUND, c)
    | Some s \<Rightarrow> \<exists>c'. move_previous X K T c flags = Some (0, c') \<and> arrived D T h c' s"
proof -
  let ?L = "bt_leaves T h" and ?N = "bt_nodes T" and ?C = "bt_contents T h"
  obtain q i where p: "q < length ?L" "bc_state c = BC_COUPLED (?L ! q) i" "i < length (bn_entries (?N (?L ! q)))"
    "j = length (entries_of ?N (take q ?L)) + i" "d = bc_dupe_id c" "j < length ?C" "?C ! j = bn_entries (?N (?L ! q)) ! i"
    by (rule stands_atE [OF at])
  let ?e = "?C ! j"
  note t = dup_tablesD [OF tab nth_mem [OF p(6)]]
  note l = leaf_links [OF inv p(1)] and pv = prev_entry [OF inv p(1,3), folded p(4)]
  show ?thesis
  proof (cases "0 < d")
    case True
    then have hd: "has_dupes ?e flags" "d - 1 < length (D (be_ptr ?e))" using d by (auto simp: stops_at_def split: if_splits)
    have "move_previous X K T c flags = Some (0, c\<lparr>bc_dupe_id := d - 1, bc_dupe_cache := D (be_ptr ?e) ! (d - 1)\<rparr>)"
      unfolding move_previous_def stands_coupled [OF at] using p(2,5,7) hd t(4) [OF hd(1,2)] True by simp
    then show ?thesis using True arrived_dupe [where D = D, OF at t(6) [OF hd(1)] hd(2)] by (simp add: prev_stop_def)
  next
    case False
    have go: "move_previous X K T c flags =
        (if i \<noteq> 0 then Some (to_last_dupe K T (bn_entries (?N (?L ! q)) ! (i - 1)) flags (couple_to (?L ! q) (i - 1) c))
         else if bn_left (?N (?L ! q)) = 0 then Some (NOT_FOUND, c)
         else (let b = bn_left (?N (?L ! q)); k = btree_node_get_count (?N b) - 1
               in Some (to_last_dupe K T (bn_entries (?N b) ! k) flags (couple_to b k c))))"
      unfolding move_previous_def stands_coupled [OF at] using p(2,5,7) only fetch False by (auto simp: Let_def split: prod.splits)
    have at': "\<exists>c'. Some (to_last_dupe K T e flags (couple_to b k c)) = Some (0, c') \<and> arrived D T h c' (j - 1, stops_at D flags (?C ! (j - 1)) - 1)"
      if "b = ?L ! q'" "q' < length ?L" "k < length (bn_entries (?N b))" "j - 1 = length (entries_of ?N (take q' ?L)) + k" "e = bn_entries (?N b) ! k" for e b k q'
    proof -
      have "e = ?C ! (j - 1)" using entries_of_nth(2) [of q' ?L k ?N] that by (simp add: contents_leaves)
      then show ?thesis using to_last_dupe_arrives [OF tab arrived_couple [where c = c, OF that(2) that(3) [unfolded that(1)] that(4) empty], of flags] that(1) by simp
    qed
    have ps: "prev_stop (map (stops_at D flags) ?C) (j, d) = (if 0 < j then Some (j - 1, stops_at D flags (?C ! (j - 1)) - 1) else None)"
      using False p(6) by (simp add: prev_stop_def)
    show ?thesis
    proof (cases "i = 0")
      case False
      then show ?thesis unfolding go ps using at' [where b = "?L ! q" and k = "i - 1" and q' = q] p(1,3,4) by simp
    next
      case True
      show ?thesis
      proof (cases "q = 0")
        case True
        then show ?thesis unfolding go ps using \<open>i = 0\<close> l(2) pv(1) by simp
      next
        case False
        then have q1: "q - 1 < length ?L" "bn_left (?N (?L ! q)) = ?L ! (q - 1)" using p(1) l(2) by simp_all
        let ?b = "?L ! (q - 1)" let ?k = "length (bn_entries (?N ?b)) - 1"
        have pv2: "bn_entries (?N ?b) \<noteq> []" "0 < j" "j - 1 = length (entries_of ?N (take (q - 1) ?L)) + ?k" using pv(2) [OF True] False by blast+
        have nz: "?b \<noteq> 0" by (rule leaf_links(3) [OF inv q1(1)])
        have r: "\<exists>c'. Some (to_last_dupe K T (bn_entries (?N ?b) ! ?k) flags (couple_to ?b ?k c)) = Some (0, c') \<and>
            arrived D T h c' (j - 1, stops_at D flags (?C ! (j - 1)) - 1)"
          by (rule at' [OF refl q1(1) _ pv2(3) refl]) (use pv2(1) in simp)
        have g: "move_previous X K T c flags = Some (to_last_dupe K T (bn_entries (?N ?b) ! ?k) flags (couple_to ?b ?k c))"
          unfolding go q1(2) Let_def btree_node_get_count_def using True nz by simp
        show ?thesis unfolding ps g using pv2(2) r by simp
      qed
    qed
  qed
qed

lemma outer_leaves:
  assumes fetch: "\<forall>b. bx_fetch X b = 0"
  shows "bt_tree cmp m N h lo hi a \<Longrightarrow> \<forall>x \<in> set (level N h 0 a). bn_entries (N x) \<noteq> [] \<Longrightarrow>
    first_leaf X N a = Some (Inr (hd (level N h 0 a))) \<and> last_leaf X N a = Some (Inr (last (level N h 0 a)))"
proof (induction h arbitrary: a lo hi)
  case 0
  then show ?case by (simp add: first_leaf.simps last_leaf.simps Let_def btree_node_get_count_def btree_node_is_leaf_def)
next
  case (Suc h)
  let ?n = "N a" let ?c = "child_ptrs ?n"
  have i: "bn_ptr_left ?n \<noteq> 0" "bn_entries ?n \<noteq> []" using Suc.prems(1) by (auto simp: inner_ok_def)
  have kid: "first_leaf X N (?c ! r) = Some (Inr (hd (level N h 0 (?c ! r)))) \<and> last_leaf X N (?c ! r) = Some (Inr (last (level N h 0 (?c ! r))))"
    if "r < length ?c" for r
    by (rule Suc.IH [OF bt_tree_kid [OF Suc.prems(1) that]]) (use Suc.prems(2) that nth_mem in fastforce)
  have lv: "level N (Suc h) 0 a = concat (map (level N h 0) ?c)" by simp
  have ne: "level N h 0 x \<noteq> []" for x by (rule level_nonempty) simp
  have "hd (concat (map (level N h 0) ?c)) = hd (level N h 0 (?c ! 0))" using ne by (simp add: child_ptrs_def)
  moreover have "last (concat (map (level N h 0) ?c)) = last (level N h 0 (?c ! (length ?c - 1)))"
  proof -
    have "?c = butlast ?c @ [?c ! (length ?c - 1)]" by (metis append_butlast_last_id child_ptrs_def last_conv_nth list.distinct(1))
    moreover have "last (concat (map (level N h 0) (bs @ [b]))) = last (level N h 0 b)" for bs b using ne by simp
    ultimately show ?thesis by metis
  qed
  moreover have "?c ! 0 = bn_ptr_left ?n" "?c ! (length ?c - 1) = be_ptr (bn_entries ?n ! (length (bn_entries ?n) - 1))" "0 < length ?c"
    using i(2) by (simp_all add: child_ptrs_def nth_Cons split: nat.split)
  moreover have "first_leaf X N a = first_leaf X N (bn_ptr_left ?n)" using i fetch
    by (subst first_leaf.simps) (simp add: Let_def btree_node_get_count_def btree_node_is_leaf_def)
  moreover have "last_leaf X N a = last_leaf X N (be_ptr (bn_entries ?n ! (length (bn_entries ?n) - 1)))" using i fetch
    by (subst last_leaf.simps) (simp add: Let_def btree_node_get_count_def btree_node_is_leaf_def)
  ultimately show ?case unfolding lv using kid [of 0] kid [of "length ?c - 1"] by simp
qed

lemma inv_root:
  assumes inv: "bt_inv cmp T h"
  shows "bt_rootpage T \<noteq> 0" "bt_tree cmp (bt_maxkeys T) (bt_nodes T) h None None (bt_rootpage T)" "bt_leaves T h \<noteq> []"
proof -
  show t: "bt_tree cmp (bt_maxkeys T) (bt_nodes T) h None None (bt_rootpage T)" using inv by (simp add: bt_inv_def)
  show "bt_rootpage T \<noteq> 0" by (rule bt_tree_nonzero [OF t])
  show "bt_leaves T h \<noteq> []" unfolding bt_leaves_def by (rule level_nonempty) simp
qed

lemma inv_empty:
  assumes inv: "bt_inv cmp T h"
  shows "bt_contents T h = [] \<Longrightarrow> h = 0 \<and> bn_entries (bt_nodes T (bt_rootpage T)) = []"
    "bt_contents T h \<noteq> [] \<Longrightarrow> \<forall>x \<in> set (bt_leaves T h). bn_entries (bt_nodes T x) \<noteq> []"
proof -
  have "h = 0" if "bt_contents T h = []"
  proof (rule ccontr)
    assume "h \<noteq> 0"
    then have "bn_entries (bt_nodes T (hd (bt_leaves T h))) \<noteq> []" using leaf_links(4) [OF inv, of 0] inv_root(3) [OF inv] by (simp add: hd_conv_nth)
    then show False using that inv_root(3) [OF inv] by (cases "bt_leaves T h") (simp_all add: contents_leaves)
  qed
  then show "bt_contents T h = [] \<Longrightarrow> h = 0 \<and> bn_entries (bt_nodes T (bt_rootpage T)) = []" by (auto simp: bt_contents_def)
  show "bt_contents T h \<noteq> [] \<Longrightarrow> \<forall>x \<in> set (bt_leaves T h). bn_entries (bt_nodes T x) \<noteq> []"
    using inv by (cases "h = 0") (auto simp: bt_inv_def bt_leaves_def bt_contents_def)
qed

lemma move_first_step:
  assumes inv: "bt_inv cmp T h" and fetch: "\<forall>b. bx_fetch X b = 0"
  shows "if bt_contents T h = [] then move_first X T c = Some (NOT_FOUND, btree_cursor_set_to_nil c)
    else \<exists>c'. move_first X T c = Some (0, c') \<and> arrived D T h c' (0, 0)"
proof (cases "bt_contents T h = []")
  case True
  then show ?thesis using inv_empty(1) [OF inv] inv_root(1) [OF inv] fetch
    by (simp add: move_first_def Let_def first_leaf.simps btree_node_get_count_def)
next
  case False
  let ?c = "btree_cursor_set_to_nil c"
  have l: "0 < length (bt_leaves T h)" "hd (bt_leaves T h) = bt_leaves T h ! 0" using inv_root(3) [OF inv] by (simp_all add: hd_conv_nth)
  have "first_leaf X (bt_nodes T) (bt_rootpage T) = Some (Inr (bt_leaves T h ! 0))"
    using outer_leaves [OF fetch inv_root(2) [OF inv]] inv_empty(2) [OF inv False] l(2) by (simp add: bt_leaves_def)
  then have "move_first X T c = Some (0, couple_to (bt_leaves T h ! 0) 0 ?c)" using inv_root(1) [OF inv] fetch by (simp add: move_first_def Let_def)
  moreover have "arrived D T h (couple_to (bt_leaves T h ! 0) 0 ?c) (0, 0)"
    by (rule arrived_couple [OF l(1)]) (use inv_empty(2) [OF inv False] l(1) in \<open>auto simp: btree_cursor_set_to_nil_def\<close>)
  ultimately show ?thesis using False by simp
qed

lemma move_last_step:
  assumes inv: "bt_inv cmp T h" and fetch: "\<forall>b. bx_fetch X b = 0" and tab: "dup_tables K (bt_env T) D (bt_contents T h)"
  defines "T' \<equiv> T\<lparr>bt_types := (bt_types T)(bt_rootpage T := TYPE_B_ROOT)\<rparr>" and "j \<equiv> length (bt_contents T h) - 1"
  shows "if bt_contents T h = [] then move_last X K T c flags = Some (NOT_FOUND, btree_cursor_set_to_nil c, T')
    else \<exists>c'. move_last X K T c flags = Some (0, c', T') \<and> arrived D T h c' (j, stops_at D flags (bt_contents T h ! j) - 1)"
proof (cases "bt_contents T h = []")
  case True
  then show ?thesis using inv_empty(1) [OF inv] inv_root(1) [OF inv] fetch
    by (simp add: move_last_def Let_def last_leaf.simps btree_node_get_count_def T'_def)
next
  case False
  let ?c = "btree_cursor_set_to_nil c" and ?L = "bt_leaves T h" and ?N = "bt_nodes T"
  let ?q = "length ?L - 1" let ?b = "?L ! ?q" let ?k = "length (bn_entries (?N ?b)) - 1"
  have l: "?q < length ?L" "last ?L = ?b" using inv_root(3) [OF inv] by (simp_all add: last_conv_nth)
  then have ne: "?k < length (bn_entries (?N ?b))" using inv_empty(2) [OF inv False] by (simp add: nth_mem)
  have ll: "last_leaf X ?N (bt_rootpage T) = Some (Inr ?b)"
    using outer_leaves [OF fetch inv_root(2) [OF inv]] inv_empty(2) [OF inv False] l(2) by (simp add: bt_leaves_def)
  have "entries_of ?N ?L = entries_of ?N (take ?q ?L) @ bn_entries (?N ?b)" using entries_of_take_Suc [OF l(1), of ?N] l(1) by simp
  then have j: "j = length (entries_of ?N (take ?q ?L)) + ?k" using ne by (simp add: j_def contents_leaves)
  have e: "bt_contents T h ! j = bn_entries (?N ?b) ! ?k" unfolding contents_leaves j by (rule entries_of_nth(2) [where N = ?N, OF l(1) ne])
  have "arrived D T h (couple_to ?b ?k ?c) (j, 0)" by (rule arrived_couple [OF l(1) ne j]) (simp add: btree_cursor_set_to_nil_def)
  from to_last_dupe_arrives [OF tab this, of flags] obtain c' where
    c': "to_last_dupe K T (bn_entries (?N ?b) ! ?k) flags (couple_to ?b ?k ?c) = (0, c')"
    "arrived D T h c' (j, stops_at D flags (bt_contents T h ! j) - 1)" unfolding e by blast
  have "move_last X K T c flags = Some (0, c', T')" using inv_root(1) [OF inv] fetch
    by (simp add: move_last_def ll T'_def btree_node_get_count_def c'(1) [simplified])
  then show ?thesis using False c'(2) by simp
qed

section \<open>Scans\<close>

text \<open>
  The records of an entry, and all keys with their records in the order of the tree. \<open>R\<close> is what the records hold.
\<close>

definition entry_records :: "(u64 \<Rightarrow> (byte \<times> u64) list) \<Rightarrow> bt_entry \<Rightarrow> (u64 \<times> byte) list" where
  "entry_records D e = (if be_flags e AND KEY_HAS_DUPLICATES \<noteq> 0 then map prod.swap (D (be_ptr e)) else [(be_ptr e, be_flags e)])"

definition scan_items :: "(u64 \<Rightarrow> (byte \<times> u64) list) \<Rightarrow> (u64 \<times> byte \<Rightarrow> byte list) \<Rightarrow> bt_entry list \<Rightarrow> (byte list \<times> byte list) list" where
  "scan_items D R es = concat (map (\<lambda>e. map (\<lambda>r. (entry_key e, R r)) (entry_records D e)) es)"

text \<open>One move in the direction \<open>f\<close> and then \<open>n\<close> moves in the direction \<open>g\<close>.\<close>

primrec scan ::
  "'r bt_ctx \<Rightarrow> 'r cur_ctx \<Rightarrow> u32 \<Rightarrow> u32 \<Rightarrow> 'r btree \<Rightarrow> bt_cursor \<Rightarrow> nat \<Rightarrow>
   (int \<times> bt_cursor \<times> 'r btree \<times> byte list option \<times> byte list option) option" where
  "scan X K f g T c 0 = btree_cursor_move X K T c True True f"
| "scan X K f g T c (Suc n) =
     (case scan X K f g T c n of None \<Rightarrow> None | Some (st, c', T', _) \<Rightarrow> btree_cursor_move X K T' c' True True g)"

text \<open>Reading whole records succeeds; an entry with duplicates reads as its first one.\<close>

definition readable :: "'r bt_ctx \<Rightarrow> 'r \<Rightarrow> (u64 \<Rightarrow> (byte \<times> u64) list) \<Rightarrow> (u64 \<times> byte \<Rightarrow> byte list) \<Rightarrow> bt_entry list \<Rightarrow> bool" where
  "readable X env D R es \<longleftrightarrow>
     (\<forall>e \<in> set es. bx_read_key X e = 0 \<and>
        (\<forall>flags. flags AND HAM_PARTIAL = 0 \<longrightarrow>
           bx_read_record X (be_ptr e, be_flags e) flags env = (0, R (hd (entry_records D e))) \<and>
           (\<forall>r \<in> set (entry_records D e). bx_read_record X r flags env = (0, R r))))"

lemma length_entry_records: "flags AND HAM_SKIP_DUPLICATES = 0 \<Longrightarrow> stops_at D flags e = length (entry_records D e)"
  by (simp add: stops_at_def has_dupes_def entry_records_def)

lemma concat_stops:
  "concat (map (\<lambda>e. map (g e) [0..<m e]) es) = map (\<lambda>s. g (es ! (fst s - k)) (snd s)) (stops k (map m es))"
proof (induction es arbitrary: k)
  case (Cons e es)
  have "map (\<lambda>s. g ((e # es) ! (fst s - k)) (snd s)) (stops (Suc k) (map m es)) = map (\<lambda>s. g (es ! (fst s - Suc k)) (snd s)) (stops (Suc k) (map m es))"
  proof (rule map_cong [OF refl])
    fix s assume "s \<in> set (stops (Suc k) (map m es))"
    then have "fst s - k = Suc (fst s - Suc k)" using stops_set [of s "Suc k" "map m es"] by linarith
    then show "g ((e # es) ! (fst s - k)) (snd s) = g (es ! (fst s - Suc k)) (snd s)" by simp
  qed
  then show ?case using Cons.IH [of "Suc k"] by (simp add: comp_def)
qed simp

lemma scan_items_stops:
  assumes "flags AND HAM_SKIP_DUPLICATES = 0"
  shows "scan_items D R es = map (\<lambda>s. (entry_key (es ! fst s), R (entry_records D (es ! fst s) ! snd s))) (stops 0 (map (stops_at D flags) es))"
proof -
  have m: "map f xs = map (\<lambda>i. f (xs ! i)) [0..<length xs]" for f :: "u64 \<times> byte \<Rightarrow> byte list \<times> byte list" and xs
    by (rule nth_equalityI) simp_all
  have "scan_items D R es = concat (map (\<lambda>e. map (\<lambda>d. (entry_key e, R (entry_records D e ! d))) [0..<stops_at D flags e]) es)"
    unfolding scan_items_def length_entry_records [OF assms] by (rule arg_cong [where f = concat], rule map_cong [OF refl m])
  then show ?thesis using concat_stops [where k = 0 and es = es and m = "stops_at D flags" and g = "\<lambda>e d. (entry_key e, R (entry_records D e ! d))"] by simp
qed

text \<open>The key and the record of the entry at which a cursor has arrived.\<close>

lemma arrived_record:
  assumes tab: "dup_tables K (bt_env T) D (bt_contents T h)" and rd: "readable X (bt_env T) D R (bt_contents T h)"
    and at: "arrived D T h c (j, d)" and d: "d < length (entry_records D (bt_contents T h ! j))" and pf: "flags AND HAM_PARTIAL = 0"
  shows "\<exists>c'. cursor_record X K T (bt_contents T h ! j) flags c = (0, c', R (entry_records D (bt_contents T h ! j) ! d)) \<and> stands_at T h c' (j, d)"
proof -
  let ?e = "bt_contents T h ! j"
  have j: "j < length (bt_contents T h)" and st: "stands_at T h c (j, d)" using at by (simp_all add: arrived_def)
  then have d': "bc_dupe_id c = d" by (auto simp: stands_at_def)
  have sc: "stands_at T h (c\<lparr>bc_dupe_cache := x\<rparr>) (j, d)" for x using st by (auto simp: stands_at_def)
  note r = rd [unfolded readable_def, rule_format, OF nth_mem [OF j]]
  show ?thesis
  proof (cases "be_flags ?e AND KEY_HAS_DUPLICATES \<noteq> 0 \<and> d \<noteq> 0")
    case True
    then have er: "entry_records D ?e = map prod.swap (D (be_ptr ?e))" by (simp add: entry_records_def)
    then have dl: "d < length (D (be_ptr ?e))" using d by simp
    have hd: "has_dupes ?e 0" using True by (simp add: has_dupes_def)
    let ?x = "D (be_ptr ?e) ! d"
    have get: "(if snd (bc_dupe_cache c) = 0 then cx_dup_get K (be_ptr ?e) d (bt_env T) else (0, bc_dupe_cache c)) = (0, ?x)"
      using dup_tablesD(4) [OF tab nth_mem [OF j] hd dl] at by (auto simp: arrived_def Let_def)
    have "entry_records D ?e ! d = prod.swap ?x" using er dl by simp
    then have "bx_read_record X (snd ?x, fst ?x) flags (bt_env T) = (0, R (entry_records D ?e ! d))"
      using r pf nth_mem [OF d] by (simp add: prod.swap_def)
    then show ?thesis unfolding cursor_record_def d' get using True sc [of ?x] by simp
  next
    case False
    have "hd (entry_records D ?e) = entry_records D ?e ! d"
    proof (cases "d = 0")
      case True
      then show ?thesis using d by (simp add: hd_conv_nth)
    next
      case nz: False
      with False have "be_flags ?e AND KEY_HAS_DUPLICATES = 0" by simp
      then show ?thesis using d nz by (simp add: entry_records_def)
    qed
    then show ?thesis using False r pf st by (auto simp: cursor_record_def d')
  qed
qed

lemma retyped [simp]:
  "bt_leaves (T\<lparr>bt_types := ty\<rparr>) h = bt_leaves T h" "bt_contents (T\<lparr>bt_types := ty\<rparr>) h = bt_contents T h"
  "bt_inv cmp (T\<lparr>bt_types := ty\<rparr>) h = bt_inv cmp T h" "stands_at (T\<lparr>bt_types := ty\<rparr>) h c s = stands_at T h c s"
  "arrived D (T\<lparr>bt_types := ty\<rparr>) h c s = arrived D T h c s"
  by (simp_all add: bt_leaves_def bt_contents_def bt_inv_def stands_at_def arrived_def)

lemma cursor_move_arrived:
  assumes tab: "dup_tables K (bt_env T) D (bt_contents T h)" and rd: "readable X (bt_env T) D R (bt_contents T h)"
    and mv: "flags AND (HAM_CURSOR_FIRST OR HAM_CURSOR_LAST OR HAM_CURSOR_NEXT OR HAM_CURSOR_PREVIOUS) \<noteq> 0"
    and di: "cursor_dispatch X K T (c\<lparr>bc_dupe_cache := (0, 0)\<rparr>) flags = Some (0, c1, T\<lparr>bt_types := ty\<rparr>)"
    and at: "arrived D T h c1 s" and d: "snd s < length (entry_records D (bt_contents T h ! fst s))" and pf: "flags AND HAM_PARTIAL = 0"
  shows "\<exists>c'. btree_cursor_move X K T c True True flags = Some (0, c', T\<lparr>bt_types := ty\<rparr>,
      Some (entry_key (bt_contents T h ! fst s)), Some (R (entry_records D (bt_contents T h ! fst s) ! snd s))) \<and> stands_at T h c' s"
proof -
  let ?T = "T\<lparr>bt_types := ty\<rparr>"
  obtain j d where s: "s = (j, d)" by fastforce
  have st: "stands_at T h c1 (j, d)" using at s by (simp add: arrived_def)
  obtain q i where p: "bc_state c1 = BC_COUPLED (bt_leaves T h ! q) i" "bt_contents T h ! j = bn_entries (bt_nodes T (bt_leaves T h ! q)) ! i"
    "j < length (bt_contents T h)" by (rule stands_atE [OF st]) blast
  have "\<exists>c'. cursor_record X K ?T (bt_contents ?T h ! j) flags c1 = (0, c', R (entry_records D (bt_contents ?T h ! j) ! d)) \<and> stands_at ?T h c' (j, d)"
    by (rule arrived_record) (use tab rd at d s pf in simp_all)
  then obtain c' where r: "cursor_record X K ?T (bn_entries (bt_nodes T (bt_leaves T h ! q)) ! i) flags c1 = (0, c', R (entry_records D (bt_contents T h ! j) ! d))"
    "stands_at T h c' (j, d)" unfolding retyped p(2) by auto
  have "bx_read_key X (bn_entries (bt_nodes T (bt_leaves T h ! q)) ! i) = 0"
    using rd nth_mem [OF p(3)] unfolding p(2) by (simp add: readable_def)
  then have "btree_cursor_move X K T c True True flags =
      Some (0, c', ?T, Some (entry_key (bt_contents T h ! j)), Some (R (entry_records D (bt_contents T h ! j) ! d)))"
    unfolding btree_cursor_move_def Let_def di using mv p(1,2) r(1) by simp
  then show ?thesis using r(2) s by simp
qed

lemma cursor_move_not_found:
  assumes mv: "flags AND (HAM_CURSOR_FIRST OR HAM_CURSOR_LAST OR HAM_CURSOR_NEXT OR HAM_CURSOR_PREVIOUS) \<noteq> 0"
    and di: "cursor_dispatch X K T (c\<lparr>bc_dupe_cache := (0, 0)\<rparr>) flags = Some (NOT_FOUND, c1, T1)"
  shows "btree_cursor_move X K T c True True flags = Some (NOT_FOUND, c1, T1, None, None)"
  unfolding btree_cursor_move_def Let_def di using mv by simp

text \<open>
  A scan in one direction. \<open>S\<close> are the stops in the order of the scan, \<open>f\<close> reaches the first one and \<open>g\<close> goes from
  each to the next.
\<close>

lemma scan_stops:
  assumes tab: "dup_tables K (bt_env T) D (bt_contents T h)" and rd: "readable X (bt_env T) D R (bt_contents T h)"
    and mvf: "f AND (HAM_CURSOR_FIRST OR HAM_CURSOR_LAST OR HAM_CURSOR_NEXT OR HAM_CURSOR_PREVIOUS) \<noteq> 0"
    and mvg: "g AND (HAM_CURSOR_FIRST OR HAM_CURSOR_LAST OR HAM_CURSOR_NEXT OR HAM_CURSOR_PREVIOUS) \<noteq> 0"
    and pf: "f AND HAM_PARTIAL = 0" "g AND HAM_PARTIAL = 0"
    and S: "\<And>s. s \<in> set S \<Longrightarrow> snd s < length (entry_records D (bt_contents T h ! fst s))"
    and first: "\<And>c. bc_dupe_cache c = (0, 0) \<Longrightarrow> \<exists>c1. cursor_dispatch X K T c f = Some (if S = [] then NOT_FOUND else 0, c1, T\<lparr>bt_types := ty\<rparr>) \<and>
        (S \<noteq> [] \<longrightarrow> arrived D T h c1 (hd S))"
    and step: "\<And>c n. bc_dupe_cache c = (0, 0) \<Longrightarrow> n < length S \<Longrightarrow> stands_at T h c (S ! n) \<Longrightarrow>
        \<exists>c1. cursor_dispatch X K (T\<lparr>bt_types := ty\<rparr>) c g = Some (if Suc n < length S then 0 else NOT_FOUND, c1, T\<lparr>bt_types := ty\<rparr>) \<and>
          (Suc n < length S \<longrightarrow> arrived D T h c1 (S ! Suc n))"
    and n: "n \<le> length S"
  shows "\<exists>c'. scan X K f g T c n =
      (if n < length S
       then Some (0, c', T\<lparr>bt_types := ty\<rparr>, Some (entry_key (bt_contents T h ! fst (S ! n))), Some (R (entry_records D (bt_contents T h ! fst (S ! n)) ! snd (S ! n))))
       else Some (NOT_FOUND, c', T\<lparr>bt_types := ty\<rparr>, None, None)) \<and> (n < length S \<longrightarrow> stands_at T h c' (S ! n))"
  using n
proof (induction n)
  case 0
  obtain c1 where c1: "cursor_dispatch X K T (c\<lparr>bc_dupe_cache := (0, 0)\<rparr>) f = Some (if S = [] then NOT_FOUND else 0, c1, T\<lparr>bt_types := ty\<rparr>)"
    "S \<noteq> [] \<longrightarrow> arrived D T h c1 (hd S)" using first [of "c\<lparr>bc_dupe_cache := (0, 0)\<rparr>"] by auto
  show ?case
  proof (cases "S = []")
    case True
    then show ?thesis using cursor_move_not_found [OF mvf, of X K T c c1] c1(1) by simp
  next
    case False
    then show ?thesis using cursor_move_arrived [OF tab rd mvf, of c c1 ty "hd S"] c1 pf S [of "hd S"] by (simp add: hd_conv_nth)
  qed
next
  case (Suc n)
  let ?T = "T\<lparr>bt_types := ty\<rparr>"
  have nl: "n < length S" using Suc.prems by simp
  then obtain c' k r where sc: "scan X K f g T c n = Some (0, c', ?T, k, r)" "stands_at T h c' (S ! n)" using Suc.IH by auto
  have "stands_at T h (c'\<lparr>bc_dupe_cache := (0, 0)\<rparr>) (S ! n)" using sc(2) by (simp add: stands_at_def)
  then obtain c1 where c1: "cursor_dispatch X K ?T (c'\<lparr>bc_dupe_cache := (0, 0)\<rparr>) g = Some (if Suc n < length S then 0 else NOT_FOUND, c1, ?T)"
    "Suc n < length S \<longrightarrow> arrived D T h c1 (S ! Suc n)" using step [where c = "c'\<lparr>bc_dupe_cache := (0, 0)\<rparr>", OF _ nl] by auto
  have go: "scan X K f g T c (Suc n) = btree_cursor_move X K ?T c' True True g" using sc(1) by simp
  show ?case
  proof (cases "Suc n < length S")
    case False
    then show ?thesis unfolding go using cursor_move_not_found [OF mvg, of X K ?T c' c1] c1(1) by simp
  next
    case True
    have "\<exists>c''. btree_cursor_move X K ?T c' True True g = Some (0, c'', ?T\<lparr>bt_types := ty\<rparr>,
        Some (entry_key (bt_contents ?T h ! fst (S ! Suc n))), Some (R (entry_records D (bt_contents ?T h ! fst (S ! Suc n)) ! snd (S ! Suc n)))) \<and> stands_at ?T h c'' (S ! Suc n)"
      by (rule cursor_move_arrived [OF _ _ mvg]) (use tab rd c1 True S pf in simp_all)
    then show ?thesis unfolding go using True by simp
  qed
qed

lemma stops_pos:
  assumes "dup_tables K env D es" "m \<in> set (map (stops_at D flags) es)"
  shows "0 < m"
proof -
  obtain e where "e \<in> set es" "m = stops_at D flags e" using assms(2) by auto
  then show ?thesis using dup_tablesD(1) [OF assms(1), of e flags] by (auto simp: stops_at_def)
qed

lemma stops_bound:
  assumes "s \<in> set (stops 0 (map f es))"
  shows "fst s < length es" "snd s < f (es ! fst s)"
  using stops_set [OF assms] by auto

lemma stops_empty: "(\<And>m. m \<in> set ms \<Longrightarrow> 0 < m) \<Longrightarrow> stops k ms = [] \<longleftrightarrow> ms = []"
  by (cases ms) auto

lemma hd_last_stops:
  assumes "\<And>m. m \<in> set ms \<Longrightarrow> 0 < m" "ms \<noteq> []"
  shows "hd (stops 0 ms) = (0, 0)" "last (stops 0 ms) = (length ms - 1, ms ! (length ms - 1) - 1)"
proof -
  obtain m ms' where m: "ms = m # ms'" "0 < m" using assms by (cases ms) auto
  then show "hd (stops 0 ms) = (0, 0)" by (simp add: upt_conv_Cons)
  have l: "ms = butlast ms @ [last ms]" using assms(2) by simp
  have l2: "0 < last ms" "last ms = ms ! (length ms - 1)" using assms(1) [of "last ms"] assms(2) last_conv_nth [OF assms(2)] by simp_all
  have "stops 0 ms = stops 0 (butlast ms) @ map (Pair (length ms - 1)) [0..<last ms]"
    by (subst l) (simp add: stops_append)
  then show "last (stops 0 ms) = (length ms - 1, ms ! (length ms - 1) - 1)" using l2 by (simp add: last_map)
qed

lemma forward_scan:
  assumes inv: "bt_inv cmp T h" and fetch: "\<forall>b. bx_fetch X b = 0" and tab: "dup_tables K (bt_env T) D (bt_contents T h)"
    and rd: "readable X (bt_env T) D R (bt_contents T h)"
  defines "I \<equiv> scan_items D R (bt_contents T h)"
  assumes n: "n \<le> length I"
  shows "\<exists>c'. scan X K HAM_CURSOR_FIRST HAM_CURSOR_NEXT T c n =
      (if n < length I then Some (0, c', T, Some (fst (I ! n)), Some (snd (I ! n))) else Some (NOT_FOUND, c', T, None, None))"
proof -
  let ?C = "bt_contents T h" let ?ms = "map (stops_at D HAM_CURSOR_NEXT) ?C" let ?S = "stops 0 ?ms"
  have fl: "HAM_CURSOR_NEXT AND HAM_SKIP_DUPLICATES = 0" "HAM_CURSOR_NEXT AND HAM_ONLY_DUPLICATES = 0" by code_simp+
  have I: "I = map (\<lambda>s. (entry_key (?C ! fst s), R (entry_records D (?C ! fst s) ! snd s))) ?S"
    unfolding I_def by (rule scan_items_stops [OF fl(1)])
  have pos: "0 < m" if "m \<in> set ?ms" for m by (rule stops_pos [OF tab that])
  have em: "?S = [] \<longleftrightarrow> ?C = []" using stops_empty [where ms = ?ms and k = 0, OF pos] by simp
  note bound = stops_bound [where f = "stops_at D HAM_CURSOR_NEXT" and es = ?C]
  have "\<exists>c'. scan X K HAM_CURSOR_FIRST HAM_CURSOR_NEXT T c n =
      (if n < length ?S
       then Some (0, c', T\<lparr>bt_types := bt_types T\<rparr>, Some (entry_key (?C ! fst (?S ! n))), Some (R (entry_records D (?C ! fst (?S ! n)) ! snd (?S ! n))))
       else Some (NOT_FOUND, c', T\<lparr>bt_types := bt_types T\<rparr>, None, None)) \<and> (n < length ?S \<longrightarrow> stands_at T h c' (?S ! n))"
  proof (rule scan_stops [OF tab rd])
    show "HAM_CURSOR_FIRST AND (HAM_CURSOR_FIRST OR HAM_CURSOR_LAST OR HAM_CURSOR_NEXT OR HAM_CURSOR_PREVIOUS) \<noteq> 0"
      "HAM_CURSOR_NEXT AND (HAM_CURSOR_FIRST OR HAM_CURSOR_LAST OR HAM_CURSOR_NEXT OR HAM_CURSOR_PREVIOUS) \<noteq> 0"
      "HAM_CURSOR_FIRST AND HAM_PARTIAL = 0" "HAM_CURSOR_NEXT AND HAM_PARTIAL = 0" by code_simp+
    show "snd s < length (entry_records D (?C ! fst s))" if "s \<in> set ?S" for s using bound(2) [OF that] length_entry_records [OF fl(1)] by metis
    show "n \<le> length ?S" using n by (simp add: I)
  next
    fix c
    have "HAM_CURSOR_FIRST AND HAM_CURSOR_FIRST \<noteq> 0" by code_simp
    then show "\<exists>c1. cursor_dispatch X K T c HAM_CURSOR_FIRST = Some (if ?S = [] then NOT_FOUND else 0, c1, T\<lparr>bt_types := bt_types T\<rparr>) \<and>
        (?S \<noteq> [] \<longrightarrow> arrived D T h c1 (hd ?S))"
      using move_first_step [OF inv fetch, of c D] hd_last_stops(1) [where ms = ?ms, OF pos] unfolding em
      by (cases "?C = []") (auto simp: cursor_dispatch_def)
  next
    fix c n assume a: "bc_dupe_cache c = (0, 0)" "n < length ?S" "stands_at T h c (?S ! n)"
    have di: "cursor_dispatch X K T c HAM_CURSOR_NEXT = map_option (\<lambda>(st, c). (st, c, T)) (move_next X K T c HAM_CURSOR_NEXT)"
    proof -
      have "HAM_CURSOR_NEXT AND HAM_CURSOR_FIRST = 0" "HAM_CURSOR_NEXT AND HAM_CURSOR_LAST = 0" "HAM_CURSOR_NEXT AND HAM_CURSOR_NEXT \<noteq> 0" by code_simp+
      then show ?thesis by (simp add: cursor_dispatch_def)
    qed
    obtain j d where s: "?S ! n = (j, d)" by fastforce
    have "case next_stop ?ms (j, d) of None \<Rightarrow> move_next X K T c HAM_CURSOR_NEXT = Some (NOT_FOUND, c)
        | Some s \<Rightarrow> \<exists>c'. move_next X K T c HAM_CURSOR_NEXT = Some (0, c') \<and> arrived D T h c' s"
      by (rule move_next_step [OF inv fetch tab _ a(1) fl(2)]) (use a(3) s bound [OF nth_mem [OF a(2)]] in auto)
    then show "\<exists>c1. cursor_dispatch X K (T\<lparr>bt_types := bt_types T\<rparr>) c HAM_CURSOR_NEXT =
          Some (if Suc n < length ?S then 0 else NOT_FOUND, c1, T\<lparr>bt_types := bt_types T\<rparr>) \<and>
        (Suc n < length ?S \<longrightarrow> arrived D T h c1 (?S ! Suc n))"
      using stops_nth(3) [OF pos a(2)] s di by (auto split: if_splits)
  qed
  then show ?thesis by (auto simp: I split: if_splits)
qed

lemma backward_scan:
  assumes inv: "bt_inv cmp T h" and fetch: "\<forall>b. bx_fetch X b = 0" and tab: "dup_tables K (bt_env T) D (bt_contents T h)"
    and rd: "readable X (bt_env T) D R (bt_contents T h)"
  defines "I \<equiv> rev (scan_items D R (bt_contents T h))" and "T' \<equiv> T\<lparr>bt_types := (bt_types T)(bt_rootpage T := TYPE_B_ROOT)\<rparr>"
  assumes n: "n \<le> length I"
  shows "\<exists>c'. scan X K HAM_CURSOR_LAST HAM_CURSOR_PREVIOUS T c n =
      (if n < length I then Some (0, c', T', Some (fst (I ! n)), Some (snd (I ! n))) else Some (NOT_FOUND, c', T', None, None))"
proof -
  let ?g = HAM_CURSOR_PREVIOUS
  let ?C = "bt_contents T h" let ?ms = "map (stops_at D ?g) ?C" let ?S = "stops 0 ?ms"
  have fl: "?g AND HAM_SKIP_DUPLICATES = 0" "?g AND HAM_ONLY_DUPLICATES = 0" "HAM_CURSOR_LAST AND HAM_SKIP_DUPLICATES = 0" by code_simp+
  have I: "I = map (\<lambda>s. (entry_key (?C ! fst s), R (entry_records D (?C ! fst s) ! snd s))) (rev ?S)"
    unfolding I_def scan_items_stops [OF fl(1)] by (rule rev_map)
  have pos: "0 < m" if "m \<in> set ?ms" for m by (rule stops_pos [OF tab that])
  have em: "?S = [] \<longleftrightarrow> ?C = []" using stops_empty [where ms = ?ms and k = 0, OF pos] by simp
  note bound = stops_bound [where f = "stops_at D ?g" and es = ?C]
  have "\<exists>c'. scan X K HAM_CURSOR_LAST ?g T c n =
      (if n < length (rev ?S)
       then Some (0, c', T\<lparr>bt_types := (bt_types T)(bt_rootpage T := TYPE_B_ROOT)\<rparr>, Some (entry_key (?C ! fst (rev ?S ! n))),
         Some (R (entry_records D (?C ! fst (rev ?S ! n)) ! snd (rev ?S ! n))))
       else Some (NOT_FOUND, c', T\<lparr>bt_types := (bt_types T)(bt_rootpage T := TYPE_B_ROOT)\<rparr>, None, None)) \<and> (n < length (rev ?S) \<longrightarrow> stands_at T h c' (rev ?S ! n))"
  proof (rule scan_stops [OF tab rd])
    show "HAM_CURSOR_LAST AND (HAM_CURSOR_FIRST OR HAM_CURSOR_LAST OR HAM_CURSOR_NEXT OR HAM_CURSOR_PREVIOUS) \<noteq> 0"
      "?g AND (HAM_CURSOR_FIRST OR HAM_CURSOR_LAST OR HAM_CURSOR_NEXT OR HAM_CURSOR_PREVIOUS) \<noteq> 0"
      "HAM_CURSOR_LAST AND HAM_PARTIAL = 0" "?g AND HAM_PARTIAL = 0" by code_simp+
    show "snd s < length (entry_records D (?C ! fst s))" if "s \<in> set (rev ?S)" for s
      using bound(2) [of s] that length_entry_records [OF fl(1)] by (metis set_rev)
    show "n \<le> length (rev ?S)" using n by (simp add: I)
  next
    fix c
    have di: "HAM_CURSOR_LAST AND HAM_CURSOR_FIRST = 0" "HAM_CURSOR_LAST AND HAM_CURSOR_LAST \<noteq> 0" by code_simp+
    have same: "stops_at D HAM_CURSOR_LAST e = stops_at D ?g e" for e using length_entry_records fl(1,3) by metis
    show "\<exists>c1. cursor_dispatch X K T c HAM_CURSOR_LAST = Some (if rev ?S = [] then NOT_FOUND else 0, c1, T\<lparr>bt_types := (bt_types T)(bt_rootpage T := TYPE_B_ROOT)\<rparr>) \<and>
        (rev ?S \<noteq> [] \<longrightarrow> arrived D T h c1 (hd (rev ?S)))"
      using move_last_step [OF inv fetch tab, of c HAM_CURSOR_LAST] hd_last_stops(2) [where ms = ?ms, OF pos] di
      unfolding rev_is_Nil_conv em hd_rev by (cases "?C = []") (auto simp: cursor_dispatch_def same)
  next
    fix c n assume a: "bc_dupe_cache c = (0, 0)" "n < length (rev ?S)" "stands_at T h c (rev ?S ! n)"
    let ?T = "T\<lparr>bt_types := (bt_types T)(bt_rootpage T := TYPE_B_ROOT)\<rparr>" and ?n = "length ?S - Suc n"
    have di: "cursor_dispatch X K ?T c ?g = map_option (\<lambda>(st, c). (st, c, ?T)) (move_previous X K ?T c ?g)"
    proof -
      have "?g AND HAM_CURSOR_FIRST = 0" "?g AND HAM_CURSOR_LAST = 0" "?g AND HAM_CURSOR_NEXT = 0" "?g AND ?g \<noteq> 0" by code_simp+
      then show ?thesis by (simp add: cursor_dispatch_def)
    qed
    have rv: "rev ?S ! n = ?S ! ?n" "?n < length ?S" "Suc n < length ?S \<Longrightarrow> rev ?S ! Suc n = ?S ! (?n - 1)" "Suc n < length ?S \<longleftrightarrow> ?n \<noteq> 0"
      using a(2) by (auto simp: rev_nth)
    obtain j d where s: "?S ! ?n = (j, d)" by fastforce
    have "case prev_stop (map (stops_at D ?g) (bt_contents ?T h)) (j, d) of None \<Rightarrow> move_previous X K ?T c ?g = Some (NOT_FOUND, c)
        | Some s \<Rightarrow> \<exists>c'. move_previous X K ?T c ?g = Some (0, c') \<and> arrived D ?T h c' s"
      by (rule move_previous_step [where cmp = cmp, OF _ fetch _ _ a(1) fl(2)]) (use inv tab a(3) s rv bound [OF nth_mem [OF rv(2)]] in auto)
    then show "\<exists>c1. cursor_dispatch X K ?T c ?g = Some (if Suc n < length (rev ?S) then 0 else NOT_FOUND, c1, ?T) \<and>
        (Suc n < length (rev ?S) \<longrightarrow> arrived D T h c1 (rev ?S ! Suc n))"
      using stops_nth(4) [OF pos rv(2)] rv(3,4) s di by (auto split: if_splits)
  qed
  then show ?thesis unfolding T'_def by (auto simp: I split: if_splits)
qed

text \<open>
  C6. A cursor visits all records of the tree in order, in both directions. On a tree that satisfies the invariant, with readable
  pages and records, moving a cursor to the first entry and then \<open>n\<close> times to the next one
  returns the \<open>n\<close>-th pair of a key and a record, counted over all entries of the leaves in the order of the keys, and for each entry over all its
  duplicates in the order of their table; the move after the last pair returns HAM_KEY_NOT_FOUND. Moving to the last entry and then to the
  previous ones returns the same pairs in the reverse order. Both hold from any state of the cursor, for any height of the
  tree, across the borders of pages and of tables of duplicates, and also for an empty tree.
\<close>

theorem btree_cursor_scans_all:
  assumes inv: "bt_inv cmp T h" and fetch: "\<forall>b. bx_fetch X b = 0" and tab: "dup_tables K (bt_env T) D (bt_contents T h)"
    and rd: "readable X (bt_env T) D R (bt_contents T h)"
  shows "\<forall>n \<le> length (scan_items D R (bt_contents T h)).
     (\<exists>c'. scan X K HAM_CURSOR_FIRST HAM_CURSOR_NEXT T c n =
        (let I = scan_items D R (bt_contents T h)
         in if n < length I then Some (0, c', T, Some (fst (I ! n)), Some (snd (I ! n))) else Some (NOT_FOUND, c', T, None, None))) \<and>
     (\<exists>c' T'. scan X K HAM_CURSOR_LAST HAM_CURSOR_PREVIOUS T c n =
        (let I = rev (scan_items D R (bt_contents T h))
         in if n < length I then Some (0, c', T', Some (fst (I ! n)), Some (snd (I ! n))) else Some (NOT_FOUND, c', T', None, None)))"
  using forward_scan [OF inv fetch tab rd, of _ c] backward_scan [OF inv fetch tab rd, of _ c] unfolding Let_def length_rev by blast

section \<open>Uncoupling and coupling again\<close>

text \<open>
  C14. An uncoupled cursor finds its entry again. When a cursor is uncoupled from an entry of a page (as the tree does before it
  moves entries), and later coupled in any tree that satisfies the invariant, then it is coupled to the entry of its key, wherever
  that is now, with the same number of the duplicate; if the key is no longer in the tree, then the
  status is HAM_KEY_NOT_FOUND and the cursor is nil.
\<close>

theorem btree_cursor_keeps_place:
  assumes o: "tree_order (bx_compare X)" and inv: "bt_inv (bx_compare X) T h" and fetch: "\<And>b. bx_fetch X b = 0"
    and rk: "\<And>e. bx_read_key X e = 0" and ck: "\<And>e. bx_copy_key X e = 0" "\<And>k. cx_copy_key K k = 0"
    and hint: "\<not> cx_oob K" "\<forall>q. cx_hint K = Some q \<longrightarrow> q \<in> set (bt_leaves T h)"
    and c: "bc_state c = BC_COUPLED page i"
  shows "\<exists>u. btree_cursor_uncouple X N c = Some (0, u) \<and>
     (let k = entry_key (bn_entries (N page) ! i)
      in bc_state u = BC_UNCOUPLED k \<and>
         (\<exists>st c'. ensure_coupled X K T u = Some (st, c') \<and> bc_dupe_id c' = bc_dupe_id c \<and>
            (case find_entry k (bt_contents T h) of
               None \<Rightarrow> st = NOT_FOUND \<and> bc_state c' = BC_NIL
             | Some e \<Rightarrow> st = 0 \<and>
                 (\<exists>p j. bc_state c' = BC_COUPLED p j \<and> j < length (bn_entries (bt_nodes T p)) \<and> bn_entries (bt_nodes T p) ! j = e))))"
proof -
  let ?k = "entry_key (bn_entries (N page) ! i)"
  let ?u = "c\<lparr>bc_state := BC_UNCOUPLED ?k\<rparr>"
  have u: "btree_cursor_uncouple X N c = Some (0, ?u)" using c ck(1) by (simp add: btree_cursor_uncouple_def)
  obtain out res where f: "btree_find_cursor X False (cx_hint K) T ?k 0 False 0 = Some out" "find_answer (bx_compare X) 0 ?k (bt_contents T h) res"
      "case res of None \<Rightarrow> fo_status out = NOT_FOUND \<and> fo_pos out = None
       | Some (e, mark) \<Rightarrow> \<exists>p i. fo_pos out = Some (p, i) \<and> i < length (bn_entries (bt_nodes T p)) \<and> bn_entries (bt_nodes T p) ! i = e \<and> fo_status out = 0"
    using find_cursor_answer [OF o inv fetch rk hint(2), of ?k 0 False 0] by (fastforce split: option.splits)
  have r: "res = map_option (\<lambda>e. (e, 0)) (find_entry ?k (bt_contents T h))"
    using f(2) by (auto simp: find_answer_def lt_flag_def gt_flag_def Let_def split: if_splits)
  have "ensure_coupled X K T ?u = Some (fo_status out,
      (case fo_pos out of None \<Rightarrow> btree_cursor_set_to_nil ?u | Some (page, i) \<Rightarrow> (btree_cursor_set_to_nil ?u)\<lparr>bc_state := BC_COUPLED page i\<rparr>)\<lparr>bc_dupe_id := bc_dupe_id c\<rparr>)"
    using ck(2) hint(1) f(1) by (simp add: ensure_coupled_def btree_cursor_couple_def btree_cursor_find_def Let_def)
  with u r f(3) show ?thesis by (cases "find_entry ?k (bt_contents T h)") (auto simp: Let_def btree_cursor_set_to_nil_def)
qed

section \<open>Examples\<close>

text \<open>The tree of two levels, where the key 2 has three duplicates.\<close>

definition dupe_nodes :: "u64 \<Rightarrow> bt_node" where
  "dupe_nodes = example_nodes(0x400 := (example_nodes 0x400)\<lparr>bn_entries := [example_entry 1, (example_entry 2)\<lparr>be_ptr := 20, be_flags := KEY_HAS_DUPLICATES\<rparr>]\<rparr>)"

definition dupe_tree :: "nat btree" where "dupe_tree = example_tree\<lparr>bt_nodes := dupe_nodes\<rparr>"

definition dupe_lists :: "u64 \<Rightarrow> (byte \<times> u64) list" where "dupe_lists t = [(0, t + 1), (0, t + 2), (KEY_BLOB_SIZE_EMPTY, 0)]"

definition dupe_records :: "u64 \<times> byte \<Rightarrow> byte list" where
  "dupe_records r = (if snd r AND KEY_BLOB_SIZE_EMPTY \<noteq> 0 then [] else [ucast (fst r)])"

definition dupe_ctx_cur :: "nat cur_ctx" where
  "dupe_ctx_cur =
     \<lparr>cx_dup_get = (\<lambda>t d _. if d < 3 then (0, dupe_lists t ! d) else (NOT_FOUND, 0, 0)), cx_dup_count = (\<lambda>t _. (0, 3, last (dupe_lists t))),
      cx_copy_key = (\<lambda>_. 0), cx_datasize = (\<lambda>_ _. (0, 1)), cx_oob = False, cx_hint = None\<rparr>"

definition dupe_bt_ctx :: "nat bt_ctx" where
  "dupe_bt_ctx = example_ctx\<lparr>bx_read_record := (\<lambda>(p, fl) _ _.
     (0, if fl AND KEY_HAS_DUPLICATES \<noteq> 0 then dupe_records (prod.swap (hd (dupe_lists p))) else dupe_records (p, fl)))\<rparr>"

definition nil_cursor :: bt_cursor where
  "nil_cursor = \<lparr>bc_state = BC_NIL, bc_dupe_id = 0, bc_dupe_cache = (0, 0), bc_txnop = False\<rparr>"

lemma dupe_tree_simps [simp]:
  "bt_rootpage dupe_tree = 0xc00" "bt_maxkeys dupe_tree = 4" "bt_nodes dupe_tree = dupe_nodes" "bt_env dupe_tree = 4"
  by (simp_all add: dupe_tree_def)

lemma dupe_node_simps [simp]:
  "dupe_nodes 0x400 = \<lparr>bn_left = 0, bn_right = 0x800, bn_ptr_left = 0,
     bn_entries = [example_entry 1, (example_entry 2)\<lparr>be_ptr := 20, be_flags := KEY_HAS_DUPLICATES\<rparr>]\<rparr>"
  "dupe_nodes 0x800 = example_nodes 0x800" "dupe_nodes 0xc00 = example_nodes 0xc00"
  by (simp_all add: dupe_nodes_def)

lemma dupe_entry_simps [simp]:
  "entry_key ((example_entry b)\<lparr>be_ptr := p, be_flags := fl\<rparr>) = [b]" "be_ptr (example_entry b) = 7" "be_ext (example_entry b) = 0"
  by (simp_all add: entry_key_def example_entry_def)

lemma dupe_level: "level dupe_nodes (Suc 0) k 0xc00 = (if k = 1 then [0xc00] else if k = 0 then [0x400, 0x800] else [])"
  by (simp add: child_ptrs_def)

lemma dupe_inv: "bt_inv db_default_compare dupe_tree (Suc 0)"
proof -
  have c: "db_default_compare [1] [2] < 0" "db_default_compare [1] [5] < 0" "db_default_compare [2] [5] < 0" "db_default_compare [5] [5] = 0"
    "db_default_compare [5] [6] < 0" "db_default_compare [5] [7] < 0" "db_default_compare [5] [8] < 0" "db_default_compare [6] [7] < 0"
    "db_default_compare [6] [8] < 0" "db_default_compare [7] [8] < 0" "KEY_HAS_DUPLICATES AND KEY_IS_EXTENDED8 = 0" by code_simp+
  have "bt_tree db_default_compare 4 dupe_nodes (Suc 0) None None 0xc00"
    unfolding bt_tree.simps dupe_node_simps example_node_simps
    using c by (simp add: node_ok_def inner_ok_def in_range_def ext_ok_def less_imp_le)
  moreover have "linked dupe_nodes (\<lambda>k. level dupe_nodes (Suc 0) k 0xc00)"
    unfolding dupe_level linked_def by auto
  moreover have "\<forall>x \<in> set (level dupe_nodes (Suc 0) 0 0xc00). bn_entries (dupe_nodes x) \<noteq> []" unfolding dupe_level by simp
  ultimately show ?thesis by (simp add: bt_inv_def MAX_KEYS_PER_NODE_def del: level.simps bt_tree.simps)
qed

lemma dupe_contents:
  "bt_contents dupe_tree (Suc 0) = [example_entry 1, (example_entry 2)\<lparr>be_ptr := 20, be_flags := KEY_HAS_DUPLICATES\<rparr>] @ map example_entry [5, 6, 7, 8]"
  unfolding bt_contents_def contents_def dupe_tree_simps dupe_level by simp

lemma dupe_tables_ok: "dup_tables dupe_ctx_cur 4 dupe_lists (bt_contents dupe_tree (Suc 0))"
  unfolding dupe_contents by (auto simp: dup_tables_def dupe_ctx_cur_def dupe_lists_def)

lemma dupe_items:
  "scan_items dupe_lists dupe_records (bt_contents dupe_tree (Suc 0)) =
     [([1], [7]), ([2], [21]), ([2], [22]), ([2], []), ([5], [7]), ([6], [7]), ([7], [7]), ([8], [7])]"
proof -
  have "KEY_HAS_DUPLICATES \<noteq> 0" "KEY_BLOB_SIZE_EMPTY \<noteq> 0" by code_simp+
  then show ?thesis unfolding dupe_contents by (simp add: scan_items_def entry_records_def dupe_lists_def dupe_records_def)
qed

lemma dupe_readable: "readable dupe_bt_ctx 4 dupe_lists dupe_records (bt_contents dupe_tree (Suc 0))"
proof -
  have k: "KEY_HAS_DUPLICATES \<noteq> 0" "KEY_BLOB_SIZE_EMPTY AND KEY_HAS_DUPLICATES = 0" by code_simp+
  show ?thesis unfolding dupe_contents
    by (simp add: readable_def dupe_bt_ctx_def example_ctx_def entry_records_def dupe_lists_def k)
qed

theorem btree_cursor_scans_all_witness:
  "(\<exists>c'. scan dupe_bt_ctx dupe_ctx_cur HAM_CURSOR_FIRST HAM_CURSOR_NEXT dupe_tree nil_cursor 3 = Some (0, c', dupe_tree, Some [2], Some [])) \<and>
   (\<exists>c' T'. scan dupe_bt_ctx dupe_ctx_cur HAM_CURSOR_LAST HAM_CURSOR_PREVIOUS dupe_tree nil_cursor 5 = Some (0, c', T', Some [2], Some [22])) \<and>
   (\<exists>c'. scan dupe_bt_ctx dupe_ctx_cur HAM_CURSOR_FIRST HAM_CURSOR_NEXT dupe_tree nil_cursor 8 = Some (NOT_FOUND, c', dupe_tree, None, None))"
proof -
  have f: "\<forall>b. bx_fetch dupe_bt_ctx b = 0" by (simp add: dupe_bt_ctx_def example_ctx_def)
  note s = btree_cursor_scans_all [OF dupe_inv f dupe_tables_ok [folded dupe_tree_simps(4)] dupe_readable [folded dupe_tree_simps(4)], unfolded dupe_items, rule_format]
  show ?thesis using s [of 3 nil_cursor] s [of 5 nil_cursor] s [of 8 nil_cursor] by simp
qed

theorem btree_cursor_keeps_place_witness:
  "\<exists>u. btree_cursor_uncouple dupe_bt_ctx dupe_nodes (nil_cursor\<lparr>bc_state := BC_COUPLED 0x400 1, bc_dupe_id := 2\<rparr>) = Some (0, u) \<and>
     (\<exists>c' p j. ensure_coupled dupe_bt_ctx dupe_ctx_cur dupe_tree u = Some (0, c') \<and> bc_dupe_id c' = 2 \<and>
        bc_state c' = BC_COUPLED p j \<and> entry_key (bn_entries (dupe_nodes p) ! j) = [2])"
proof -
  let ?c = "nil_cursor\<lparr>bc_state := BC_COUPLED 0x400 1, bc_dupe_id := 2\<rparr>"
  have x: "bx_compare dupe_bt_ctx = db_default_compare" "\<And>b. bx_fetch dupe_bt_ctx b = 0" "\<And>e. bx_read_key dupe_bt_ctx e = 0"
    "\<And>e. bx_copy_key dupe_bt_ctx e = 0" by (simp_all add: dupe_bt_ctx_def example_ctx_def)
  have y: "\<And>k. cx_copy_key dupe_ctx_cur k = 0" "\<not> cx_oob dupe_ctx_cur" "\<forall>q. cx_hint dupe_ctx_cur = Some q \<longrightarrow> q \<in> set (bt_leaves dupe_tree (Suc 0))"
    by (simp_all add: dupe_ctx_cur_def)
  have "find_entry [2] (bt_contents dupe_tree (Suc 0)) = Some ((example_entry 2)\<lparr>be_ptr := 20, be_flags := KEY_HAS_DUPLICATES\<rparr>)"
    unfolding dupe_contents by (simp add: find_entry_def)
  then show ?thesis
    using btree_cursor_keeps_place [where X = dupe_bt_ctx and K = dupe_ctx_cur and T = dupe_tree and h = "Suc 0" and N = dupe_nodes and c = ?c and page = "0x400" and i = 1]
      tree_order_default dupe_inv x y by (fastforce simp: Let_def)
qed

section \<open>Well-formed cursors\<close>

text \<open>A cursor that is coupled, is coupled to an entry of a leaf.\<close>

definition well_coupled :: "'r btree \<Rightarrow> nat \<Rightarrow> bt_cursor \<Rightarrow> bool" where
  "well_coupled T h c \<longleftrightarrow>
     (case bc_state c of
        BC_COUPLED p i \<Rightarrow> p \<in> set (bt_leaves T h) \<and> i < length (bn_entries (bt_nodes T p))
      | BC_NIL \<Rightarrow> True
      | BC_UNCOUPLED _ \<Rightarrow> False)"

lemma well_coupled_simps [simp]:
  "well_coupled T h (c\<lparr>bc_state := BC_NIL\<rparr>)" "well_coupled T h (btree_cursor_set_to_nil c)"
  "well_coupled T h (c\<lparr>bc_dupe_id := d\<rparr>) = well_coupled T h c" "well_coupled T h (c\<lparr>bc_dupe_cache := x\<rparr>) = well_coupled T h c"
  "well_coupled T h (couple_to p i c) \<longleftrightarrow> p \<in> set (bt_leaves T h) \<and> i < length (bn_entries (bt_nodes T p))"
  "well_coupled (T\<lparr>bt_types := ty\<rparr>) h c = well_coupled T h c"
  by (simp_all add: well_coupled_def btree_cursor_set_to_nil_def couple_to_def split: bt_coupling.split)

text \<open>The descent to the outermost leaves ends, also when pages cannot be read.\<close>

definition good_end :: "(u64 \<Rightarrow> bt_node) \<Rightarrow> u64 set \<Rightarrow> int + u64 \<Rightarrow> bool" where
  "good_end N L r \<longleftrightarrow> (case r of Inl st \<Rightarrow> st \<noteq> 0 | Inr p \<Rightarrow> p \<in> L \<and> bn_entries (N p) \<noteq> [])"

lemma outer_leaves_total:
  "bt_tree cmp m N h lo hi a \<Longrightarrow>
     (\<exists>r. first_leaf X N a = Some r \<and> good_end N (set (level N h 0 a)) r) \<and> (\<exists>r. last_leaf X N a = Some r \<and> good_end N (set (level N h 0 a)) r)"
proof (induction h arbitrary: a lo hi)
  case 0
  then show ?case by (auto simp: first_leaf.simps last_leaf.simps Let_def btree_node_get_count_def btree_node_is_leaf_def good_end_def)
next
  case (Suc h)
  let ?n = "N a" let ?c = "child_ptrs ?n" let ?L = "set (level N (Suc h) 0 a)"
  have i: "bn_ptr_left ?n \<noteq> 0" "bn_entries ?n \<noteq> []" using Suc.prems by (auto simp: inner_ok_def)
  have kid: "(\<exists>r. first_leaf X N (?c ! k) = Some r \<and> good_end N ?L r) \<and> (\<exists>r. last_leaf X N (?c ! k) = Some r \<and> good_end N ?L r)" if "k < length ?c" for k
  proof -
    have "good_end N (set (level N h 0 (?c ! k))) r \<Longrightarrow> good_end N ?L r" for r using nth_mem [OF that] by (auto simp: good_end_def split: sum.splits)
    then show ?thesis using Suc.IH [OF bt_tree_kid [OF Suc.prems that]] by blast
  qed
  have c: "?c ! 0 = bn_ptr_left ?n" "?c ! (length ?c - 1) = be_ptr (bn_entries ?n ! (length (bn_entries ?n) - 1))" "0 < length ?c" "length ?c - 1 < length ?c"
    using i(2) by (simp_all add: child_ptrs_def nth_Cons split: nat.split)
  have "good_end N L (Inl st) \<longleftrightarrow> st \<noteq> 0" for L st by (simp add: good_end_def)
  then show ?case using kid [OF c(3)] kid [OF c(4)] i unfolding c(1,2)
    by (subst first_leaf.simps, subst last_leaf.simps)
      (auto simp: Let_def btree_node_get_count_def btree_node_is_leaf_def simp del: level.simps)
qed

lemma to_last_dupe_keeps: "well_coupled T h (snd (to_last_dupe K T' e flags c)) = well_coupled T h c"
  by (auto simp: to_last_dupe_def split: prod.splits)

lemma sibling_leaves:
  assumes inv: "bt_inv cmp T h" and p: "p \<in> set (bt_leaves T h)"
  shows "bn_right (bt_nodes T p) \<noteq> 0 \<Longrightarrow> bn_right (bt_nodes T p) \<in> set (bt_leaves T h) \<and> bn_entries (bt_nodes T (bn_right (bt_nodes T p))) \<noteq> []"
    "bn_left (bt_nodes T p) \<noteq> 0 \<Longrightarrow> bn_left (bt_nodes T p) \<in> set (bt_leaves T h) \<and> bn_entries (bt_nodes T (bn_left (bt_nodes T p))) \<noteq> []"
proof -
  obtain q where q: "q < length (bt_leaves T h)" "p = bt_leaves T h ! q" using p by (auto simp: in_set_conv_nth)
  note l = leaf_links [OF inv q(1), folded q(2)]
  have h: "0 < h" if "1 < length (bt_leaves T h)" using leaves_single [of T] that by (cases h) simp_all
  show "bn_right (bt_nodes T p) \<noteq> 0 \<Longrightarrow> bn_right (bt_nodes T p) \<in> set (bt_leaves T h) \<and> bn_entries (bt_nodes T (bn_right (bt_nodes T p))) \<noteq> []"
    using l(1) leaf_links(4) [OF inv, of "Suc q"] h q(1) by (auto split: if_splits)
  show "bn_left (bt_nodes T p) \<noteq> 0 \<Longrightarrow> bn_left (bt_nodes T p) \<in> set (bt_leaves T h) \<and> bn_entries (bt_nodes T (bn_left (bt_nodes T p))) \<noteq> []"
    using l(2) leaf_links(4) [OF inv, of "q - 1"] h q(1) by (auto split: if_splits)
qed

lemma to_last_dupe_state: "bc_state (snd (to_last_dupe K T e flags c)) = bc_state c"
  by (auto simp: to_last_dupe_def split: prod.splits)

lemma move_first_total:
  assumes inv: "bt_inv cmp T h"
  shows "\<exists>st c'. move_first X T c = Some (st, c') \<and> well_coupled T h c' \<and> (st = 0 \<longrightarrow> bc_state c' \<noteq> BC_NIL)"
proof -
  obtain r where r: "first_leaf X (bt_nodes T) (bt_rootpage T) = Some r" "good_end (bt_nodes T) (set (bt_leaves T h)) r"
    using outer_leaves_total [OF inv_root(2) [OF inv]] unfolding bt_leaves_def by blast
  show ?thesis using r inv_root(1) [OF inv]
    by (cases r) (auto simp: move_first_def Let_def couple_to_def well_coupled_def btree_cursor_set_to_nil_def good_end_def)
qed

lemma move_last_total:
  assumes inv: "bt_inv cmp T h"
  shows "\<exists>st c' ty. move_last X K T c flags = Some (st, c', T\<lparr>bt_types := ty\<rparr>) \<and> well_coupled T h c' \<and> (st = 0 \<longrightarrow> bc_state c' \<noteq> BC_NIL)"
proof -
  obtain r where r: "last_leaf X (bt_nodes T) (bt_rootpage T) = Some r" "good_end (bt_nodes T) (set (bt_leaves T h)) r"
    using outer_leaves_total [OF inv_root(2) [OF inv]] unfolding bt_leaves_def by blast
  show ?thesis
  proof (cases "bx_fetch X (bt_rootpage T) = 0")
    case False
    then have "move_last X K T c flags = Some (bx_fetch X (bt_rootpage T), btree_cursor_set_to_nil c, T\<lparr>bt_types := bt_types T\<rparr>)"
      using inv_root(1) [OF inv] by (simp add: move_last_def Let_def)
    then show ?thesis using False well_coupled_simps(2) by blast
  next
    case ok: True
    show ?thesis
    proof (cases r)
      case (Inl st)
      then have "move_last X K T c flags = Some (st, btree_cursor_set_to_nil c, T\<lparr>bt_types := (bt_types T)(bt_rootpage T := TYPE_B_ROOT)\<rparr>)"
        using ok r(1) inv_root(1) [OF inv] by (simp add: move_last_def Let_def)
      moreover have "st \<noteq> 0" using r(2) Inl by (simp add: good_end_def)
      ultimately show ?thesis using well_coupled_simps(2) by blast
    next
      case (Inr p)
      let ?k = "btree_node_get_count (bt_nodes T p) - 1"
      let ?d = "to_last_dupe K T (bn_entries (bt_nodes T p) ! ?k) flags (couple_to p ?k (btree_cursor_set_to_nil c))"
      have "well_coupled T h (snd ?d)" "bc_state (snd ?d) \<noteq> BC_NIL"
        using r(2) Inr by (simp_all add: good_end_def to_last_dupe_keeps to_last_dupe_state btree_node_get_count_def, simp add: couple_to_def)
      moreover have "move_last X K T c flags = Some (fst ?d, snd ?d, T\<lparr>bt_types := (bt_types T)(bt_rootpage T := TYPE_B_ROOT)\<rparr>)"
        using ok r(1) Inr inv_root(1) [OF inv] by (simp add: move_last_def Let_def split_beta)
      ultimately show ?thesis by blast
    qed
  qed
qed

lemma move_next_total:
  assumes inv: "bt_inv cmp T h" and c: "well_coupled T h c"
  shows "\<exists>st c'. move_next X K T c flags = Some (st, c') \<and> well_coupled T h c' \<and> (st = 0 \<longrightarrow> bc_state c' \<noteq> BC_NIL)"
proof (cases "bc_state c")
  case (BC_COUPLED p i)
  then have p: "p \<in> set (bt_leaves T h)" "i < length (bn_entries (bt_nodes T p))" using c by (simp_all add: well_coupled_def)
  show ?thesis using BC_COUPLED c p sibling_leaves(1) [OF inv p(1)]
    by (auto simp: move_next_def ensure_coupled_def Let_def btree_node_get_count_def couple_to_def well_coupled_def split: prod.splits)
qed (use c in \<open>auto simp: move_next_def ensure_coupled_def well_coupled_def CURSOR_IS_NIL_def\<close>)

lemma move_previous_total:
  assumes inv: "bt_inv cmp T h" and c: "well_coupled T h c"
  shows "\<exists>st c'. move_previous X K T c flags = Some (st, c') \<and> well_coupled T h c' \<and> (st = 0 \<longrightarrow> bc_state c' \<noteq> BC_NIL)"
proof (cases "bc_state c")
  case (BC_COUPLED p i)
  then have p: "p \<in> set (bt_leaves T h)" "i < length (bn_entries (bt_nodes T p))" using c by (simp_all add: well_coupled_def)
  have d: "\<exists>st c'. Some (to_last_dupe K T e flags (couple_to b k c)) = Some (st, c') \<and> well_coupled T h c' \<and> (st = 0 \<longrightarrow> bc_state c' \<noteq> BC_NIL)"
    if "b \<in> set (bt_leaves T h)" "k < length (bn_entries (bt_nodes T b))" for e b k
    using to_last_dupe_keeps [of T h K T e flags "couple_to b k c"] to_last_dupe_state [of K T e flags "couple_to b k c"] that
    by (cases "to_last_dupe K T e flags (couple_to b k c)") (auto simp: couple_to_def well_coupled_def)
  show ?thesis using BC_COUPLED c p sibling_leaves(2) [OF inv p(1)] d
    by (auto simp: move_previous_def ensure_coupled_def Let_def btree_node_get_count_def split: prod.splits)
qed (use c in \<open>auto simp: move_previous_def ensure_coupled_def well_coupled_def CURSOR_IS_NIL_def\<close>)

lemma dispatch_total:
  assumes inv: "bt_inv cmp T h" and c: "well_coupled T h c"
    and mv: "flags AND (HAM_CURSOR_FIRST OR HAM_CURSOR_LAST OR HAM_CURSOR_NEXT OR HAM_CURSOR_PREVIOUS) \<noteq> 0 \<or> bc_state c \<noteq> BC_NIL"
  shows "\<exists>st c' ty. cursor_dispatch X K T c flags = Some (st, c', T\<lparr>bt_types := ty\<rparr>) \<and> well_coupled T h c' \<and> (st = 0 \<longrightarrow> bc_state c' \<noteq> BC_NIL)"
proof -
  have same: "T = T\<lparr>bt_types := bt_types T\<rparr>" by simp
  have keep: "\<exists>st c' ty. map_option (\<lambda>(st, c). (st, c, T)) m = Some (st, c', T\<lparr>bt_types := ty\<rparr>) \<and> well_coupled T h c' \<and> (st = 0 \<longrightarrow> bc_state c' \<noteq> BC_NIL)"
    if m: "\<exists>st c'. m = Some (st, c') \<and> well_coupled T h c' \<and> (st = 0 \<longrightarrow> bc_state c' \<noteq> BC_NIL)" for m
  proof -
    obtain st c' where "m = Some (st, c')" "well_coupled T h c'" "st = 0 \<longrightarrow> bc_state c' \<noteq> BC_NIL" using m by blast
    then show ?thesis by (intro exI [of _ st] exI [of _ c'] exI [of _ "bt_types T"]) simp
  qed
  show ?thesis
  proof (cases "flags AND HAM_CURSOR_FIRST = 0 \<and> flags AND HAM_CURSOR_LAST = 0 \<and> flags AND HAM_CURSOR_NEXT = 0 \<and> flags AND HAM_CURSOR_PREVIOUS = 0")
    case True
    then have "bc_state c \<noteq> BC_NIL" using mv by (simp add: bit.conj_disj_distrib)
    moreover have "cursor_dispatch X K T c flags = Some (0, c, T\<lparr>bt_types := bt_types T\<rparr>)"
      using True c calculation by (cases "bc_state c") (simp_all add: cursor_dispatch_def well_coupled_def)
    ultimately show ?thesis using c by blast
  next
    case False
    note k = keep [OF move_first_total [OF inv, of X c]] keep [OF move_next_total [OF inv c, of X K flags]]
      keep [OF move_previous_total [OF inv c, of X K flags]] move_last_total [OF inv, of X K c flags]
    show ?thesis unfolding cursor_dispatch_def using False k by presburger
  qed
qed

lemma cursor_record_state: "bc_state (fst (snd (cursor_record X K T e flags c))) = bc_state c"
  by (auto simp: cursor_record_def Let_def split: prod.splits)

text \<open>
  C13. Moving a cursor never gets stuck and never leaves a dangling position. Given a tree that satisfies the invariant and a
  cursor that is nil or coupled to an entry of a leaf, \<open>btree_cursor_move\<close> returns for all
  flags, whatever pages, records or tables of duplicates fail to load, except when a nil cursor stands for an operation of a
  transaction and no move is requested. Afterwards the cursor is again nil or coupled to an existing entry of a leaf, and it is coupled
  whenever the move was successful.
\<close>

theorem btree_cursor_move_sound:
  assumes inv: "bt_inv cmp T h" and c: "well_coupled T h c"
    and mv: "flags AND (HAM_CURSOR_FIRST OR HAM_CURSOR_LAST OR HAM_CURSOR_NEXT OR HAM_CURSOR_PREVIOUS) \<noteq> 0 \<or> \<not> bc_txnop c \<or> bc_state c \<noteq> BC_NIL"
  shows "\<exists>st c' T' k r. btree_cursor_move X K T c want_key want_record flags = Some (st, c', T', k, r) \<and>
     well_coupled T' h c' \<and> bt_inv cmp T' h \<and>
     (st = 0 \<and> flags AND (HAM_CURSOR_FIRST OR HAM_CURSOR_LAST OR HAM_CURSOR_NEXT OR HAM_CURSOR_PREVIOUS) \<noteq> 0 \<longrightarrow> bc_state c' \<noteq> BC_NIL)"
proof -
  let ?c = "c\<lparr>bc_dupe_cache := (0, 0)\<rparr>" and ?m = "HAM_CURSOR_FIRST OR HAM_CURSOR_LAST OR HAM_CURSOR_NEXT OR HAM_CURSOR_PREVIOUS"
  show ?thesis
  proof (cases "flags AND ?m = 0 \<and> btree_cursor_is_nil ?c")
    case True
    then show ?thesis using c inv by (simp add: btree_cursor_move_def Let_def)
  next
    case False
    then have "flags AND ?m \<noteq> 0 \<or> bc_state ?c \<noteq> BC_NIL" using mv by (auto simp: btree_cursor_is_nil_def)
    moreover have "well_coupled T h ?c" using c by simp
    ultimately obtain st c1 ty where d: "cursor_dispatch X K T ?c flags = Some (st, c1, T\<lparr>bt_types := ty\<rparr>)" "well_coupled T h c1"
        "st = 0 \<longrightarrow> bc_state c1 \<noteq> BC_NIL" using dispatch_total [OF inv] by blast
    have go: "btree_cursor_move X K T c want_key want_record flags =
        (if st \<noteq> 0 then Some (st, c1, T\<lparr>bt_types := ty\<rparr>, None, None)
         else (case bc_state c1 of
            BC_COUPLED page i \<Rightarrow>
              (let e = bn_entries (bt_nodes T page) ! i; key = (if want_key then Some (entry_key e) else None)
               in if want_key \<and> bx_read_key X e \<noteq> 0 then Some (bx_read_key X e, c1, T\<lparr>bt_types := ty\<rparr>, None, None)
                  else if want_record then
                    (case cursor_record X K (T\<lparr>bt_types := ty\<rparr>) e flags c1 of (st, c, d) \<Rightarrow> Some (st, c, T\<lparr>bt_types := ty\<rparr>, key, if st = 0 then Some d else None))
                  else Some (0, c1, T\<lparr>bt_types := ty\<rparr>, key, None))
          | _ \<Rightarrow> None))"
      unfolding btree_cursor_move_def Let_def d(1) if_not_P [OF False] by (simp split: bt_coupling.split)
    show ?thesis
    proof (cases "st = 0")
      case False
      then show ?thesis unfolding go using d(2) inv by simp
    next
      case True
      then obtain page i where p: "bc_state c1 = BC_COUPLED page i" using d(2,3) by (cases "bc_state c1") (auto simp: well_coupled_def)
      have r: "well_coupled T h c2" "bc_state c2 \<noteq> BC_NIL"
        if "cursor_record X K (T\<lparr>bt_types := ty\<rparr>) e flags c1 = (st', c2, x)" for e st' c2 x
        using cursor_record_state [of X K "T\<lparr>bt_types := ty\<rparr>" e flags c1] that d(2) p by (simp_all add: well_coupled_def)
      show ?thesis unfolding go using True p d(2) inv r by (auto simp: Let_def split: prod.splits)
    qed
  qed
qed

theorem btree_cursor_move_sound_witness:
  "\<exists>st c' T' k r. btree_cursor_move (dupe_bt_ctx\<lparr>bx_fetch := (\<lambda>p. if p = 0x800 then -18 else 0)\<rparr>) dupe_ctx_cur dupe_tree
       (nil_cursor\<lparr>bc_state := BC_COUPLED 0x400 1, bc_dupe_id := 2\<rparr>) True True HAM_CURSOR_NEXT = Some (st, c', T', k, r) \<and>
     well_coupled T' (Suc 0) c' \<and> bt_inv db_default_compare T' (Suc 0)"
proof -
  have l: "bt_leaves dupe_tree (Suc 0) = [0x400, 0x800]" unfolding bt_leaves_def dupe_tree_simps dupe_level by simp
  have "well_coupled dupe_tree (Suc 0) (nil_cursor\<lparr>bc_state := BC_COUPLED 0x400 1, bc_dupe_id := 2\<rparr>)"
    unfolding well_coupled_def l by simp
  then show ?thesis
    using btree_cursor_move_sound [OF dupe_inv, of "nil_cursor\<lparr>bc_state := BC_COUPLED 0x400 1, bc_dupe_id := 2\<rparr>" HAM_CURSOR_NEXT
        "dupe_bt_ctx\<lparr>bx_fetch := (\<lambda>p. if p = 0x800 then -18 else 0)\<rparr>" dupe_ctx_cur True True] by fastforce
qed

end
