(* ===== verification/Ham_Bt_Key.thy ===== *)
theory Ham_Bt_Key
  imports Ham_Dupes Ham_Compare
begin

text \<open>
  The records of the entries of a node, \<open>src/btree_key.cc\<close> and \<open>btree_read_record\<close> in \<open>src/btree.cc\<close>, on top of the blobs
  and the tables of duplicates. A record of at most eight bytes is stored in the entry in place of the record id, a larger one as a blob,
  and several records of one key in a table; the flags of the entry say which. The theorems say that a record
  that is stored is the one that is read, for every size, that a second record makes a table with both of them, and what
  goes wrong when storing fails.
\<close>

section \<open>Storing records\<close>

definition size_flags :: byte where
  "size_flags = (KEY_BLOB_SIZE_SMALL OR KEY_BLOB_SIZE_TINY OR KEY_BLOB_SIZE_EMPTY)"

definition duplicate_flags :: u32 where
  "duplicate_flags = (HAM_DUPLICATE OR HAM_DUPLICATE_INSERT_BEFORE OR HAM_DUPLICATE_INSERT_AFTER OR HAM_DUPLICATE_INSERT_FIRST OR
     HAM_DUPLICATE_INSERT_LAST)"

text \<open>
  \<open>key_insert_extended\<close>: the rest of a key that is too long for an entry is stored as a blob, and the whole key in the cache
  of extended keys, if there is one. The result has the id of the blob, which \<open>key_set_extended_rid\<close> stores in the last bytes of
  the entry.
\<close>

definition key_insert_extended ::
  "blob_ctx \<Rightarrow> nat \<Rightarrow> u64 \<Rightarrow> byte list \<Rightarrow> extkey_cache option \<Rightarrow> page_env \<Rightarrow> (ham_status \<times> nat \<times> extkey_cache option \<times> page_env) option" where
  "key_insert_extended B keysize txn_id key ec pe =
     (let d = drop (keysize - 8) key
      in map_option (\<lambda>(st, blobid, pe').
             if st \<noteq> HAM_SUCCESS then (st, 0, ec, pe')
             else (HAM_SUCCESS, blobid, map_option (extkey_insert txn_id (of_nat blobid) (of_nat (length key)) key) ec, pe'))
           (blob_allocate B \<lparr>br_data = d, br_size = length d, br_partial_offset = 0, br_partial_size = 0\<rparr> 0 pe))"

definition key_get_extended_rid :: "nat \<Rightarrow> byte list \<Rightarrow> u64" where
  "key_get_extended_rid keysize data = get_u64 (keysize - 8) data"

definition key_set_extended_rid :: "nat \<Rightarrow> byte list \<Rightarrow> u64 \<Rightarrow> byte list" where
  "key_set_extended_rid keysize data rid = take (keysize - 8) data @ put_u64 rid @ drop keysize data"

text \<open>
  A record in place of the record id: its bytes, and its size in the last byte if it is
  shorter. Without data the bytes are zero.
\<close>

definition inline_rid :: "blob_rec \<Rightarrow> u64" where
  "inline_rid r =
     (let b = take 8 (take (br_size r) (br_data r) @ replicate 8 0)
      in get_u64 0 (if 0 < br_size r \<and> br_size r < 8 then b[7 := of_nat (br_size r)] else b))"

definition inline_flag :: "blob_rec \<Rightarrow> byte" where
  "inline_flag r = (if br_size r = 0 then KEY_BLOB_SIZE_EMPTY else if br_size r < 8 then KEY_BLOB_SIZE_TINY else KEY_BLOB_SIZE_SMALL)"

text \<open>
  The last part of \<open>key_set_record\<close>: the record becomes a duplicate. \<open>ptr\<close> and \<open>oldflags\<close> are the entry before the call. The result
  has the status, the pointer of the entry, whether it now has duplicates, and the position of the new one.
\<close>

definition dupe_of :: "byte \<Rightarrow> u64 \<Rightarrow> dupe_entry" where
  "dupe_of fl rid = \<lparr>de_padding = replicate 7 0, de_flags = fl, de_rid = rid\<rparr>"

definition add_duplicate ::
  "blob_ctx \<Rightarrow> dupe_ctx \<Rightarrow> u64 \<Rightarrow> byte \<Rightarrow> blob_rec \<Rightarrow> nat \<Rightarrow> u32 \<Rightarrow> page_env \<Rightarrow> (ham_status \<times> u64 \<times> nat \<times> page_env) option" where
  "add_duplicate B D ptr oldflags r position flags pe =
     (case (if br_size r \<le> 8 then Some (HAM_SUCCESS, dupe_of (inline_flag r) (inline_rid r), pe)
            else map_option (\<lambda>(st, rid, pe'). (st, dupe_of 0 (of_nat rid), pe')) (blob_allocate B r flags pe)) of
        None \<Rightarrow> None
      | Some (st, e, pe1) \<Rightarrow>
          if st \<noteq> HAM_SUCCESS then Some (st, ptr, position, pe1)
          else
            (let fresh = oldflags AND KEY_HAS_DUPLICATES = 0;
                 entries = (if fresh then [dupe_of (oldflags AND size_flags) ptr, e] else [e])
             in case blob_duplicate_insert B D (if fresh then 0 else unat ptr) (br_data r) position flags entries pe1 of
                  None \<Rightarrow> None
                | Some (st, rid, pos, pe2) \<Rightarrow>
                    if st \<noteq> HAM_SUCCESS then
                      (if br_size r > 8 then map_option (\<lambda>(_, pe3). (st, ptr, pos, pe3)) (blob_free B (unat (de_rid e)) pe2)
                       else Some (st, ptr, pos, pe2))
                    else Some (HAM_SUCCESS, case rid of Some i \<Rightarrow> (if i \<noteq> 0 then of_nat i else ptr) | None \<Rightarrow> ptr, pos, pe2)))"

text \<open>
  \<open>key_set_record\<close>. The entry is its pointer and its flags; the flags of the record size are cleared first, and stay so when the
  function fails. The position of a new duplicate is set only on the last path.
\<close>

definition key_set_record ::
  "blob_ctx \<Rightarrow> dupe_ctx \<Rightarrow> u64 \<times> byte \<Rightarrow> blob_rec \<Rightarrow> nat \<Rightarrow> u32 \<Rightarrow> page_env \<Rightarrow> (ham_status \<times> (u64 \<times> byte) \<times> nat option \<times> page_env) option" where
  "key_set_record B D key r position flags pe =
     (let ptr = fst key; oldflags = snd key; fl = oldflags AND NOT size_flags; no_size = (oldflags AND size_flags = 0);
          inline = (HAM_SUCCESS, (inline_rid r, fl OR inline_flag r), None)
      in if ptr = 0 \<and> no_size then
           (if br_size r \<le> 8 then Some (case inline of (st, k, pos) \<Rightarrow> (st, k, pos, pe))
            else
              map_option (\<lambda>(st, rid, pe'). (st, (if st = HAM_SUCCESS then of_nat rid else ptr, fl), None, pe')) (blob_allocate B r flags pe))
         else if oldflags AND KEY_HAS_DUPLICATES = 0 \<and> br_size r > 8 \<and> flags AND duplicate_flags = 0 then
           (if \<not> no_size then
              map_option (\<lambda>(st, rid, pe'). (st, (if st = HAM_SUCCESS \<and> rid \<noteq> 0 then of_nat rid else ptr, fl), None, pe')) (blob_allocate B r flags pe)
            else
              map_option (\<lambda>(st, rid, pe'). (st, (if st = HAM_SUCCESS then of_nat rid else ptr, fl), None, pe')) (blob_overwrite B (unat ptr) r flags pe))
         else if oldflags AND KEY_HAS_DUPLICATES = 0 \<and> br_size r \<le> 8 \<and> flags AND duplicate_flags = 0 then
           (case (if no_size then blob_free B (unat ptr) pe else Some (HAM_SUCCESS, pe)) of
              None \<Rightarrow> None
            | Some (st, pe1) \<Rightarrow> Some (if st \<noteq> HAM_SUCCESS then (st, (ptr, fl), None, pe1) else (case inline of (st, k, pos) \<Rightarrow> (st, k, pos, pe1))))
         else
           map_option (\<lambda>(st, ptr', pos, pe'). (st, (ptr', if st = HAM_SUCCESS then fl OR KEY_HAS_DUPLICATES else fl), Some pos, pe'))
             (add_duplicate B D ptr oldflags r position flags pe))"

section \<open>Erasing and reading records\<close>

definition key_erase_record ::
  "blob_ctx \<Rightarrow> u64 \<times> byte \<Rightarrow> nat \<Rightarrow> u32 \<Rightarrow> page_env \<Rightarrow> (ham_status \<times> (u64 \<times> byte) \<times> page_env) option" where
  "key_erase_record B key dupe_id flags pe =
     (let ptr = fst key; fl = snd key
      in if fl AND size_flags \<noteq> 0 then Some (HAM_SUCCESS, (0, fl AND NOT (size_flags OR KEY_HAS_DUPLICATES)), pe)
         else if fl AND KEY_HAS_DUPLICATES \<noteq> 0 then
           map_option (\<lambda>(st, rid, pe'). (st,
               if st \<noteq> HAM_SUCCESS then (ptr, fl)
               else if flags AND HAM_ERASE_ALL_DUPLICATES \<noteq> 0 then (0, fl AND NOT KEY_HAS_DUPLICATES)
               else (of_nat rid, if rid = 0 then 0 else fl), pe'))
             (blob_duplicate_erase B (unat ptr) dupe_id flags pe)
         else map_option (\<lambda>(st, pe'). (st, (if st \<noteq> HAM_SUCCESS then ptr else 0, fl), pe')) (blob_free B (unat ptr) pe))"

text \<open>
  \<open>btree_read_record\<close>; \<open>r\<close> has the range of a partial read. The size of a tiny record is the last byte of the record id; a size that is
  greater than the record id makes the copy read behind it.
\<close>

definition inline_record :: "u64 \<Rightarrow> byte \<Rightarrow> byte list" where
  "inline_record rid fl =
     take (if fl AND KEY_BLOB_SIZE_TINY \<noteq> 0 then unat (put_u64 rid ! 7) else if fl AND KEY_BLOB_SIZE_SMALL \<noteq> 0 then 8 else 0) (put_u64 rid)"

definition btree_read_record ::
  "blob_ctx \<Rightarrow> u64 \<times> byte \<Rightarrow> blob_rec \<Rightarrow> u32 \<Rightarrow> page_env \<Rightarrow> (ham_status \<times> byte list \<times> page_env) option" where
  "btree_read_record B key r flags pe =
     (case (if snd key AND KEY_HAS_DUPLICATES \<noteq> 0 then
              map_option (\<lambda>(e, pe'). (case e of Inl st \<Rightarrow> Inl st | Inr e \<Rightarrow> Inr (de_rid e, de_flags e), pe')) (blob_duplicate_get B (unat (fst key)) 0 pe)
            else Some (Inr key, pe)) of
        None \<Rightarrow> None
      | Some (Inl st, pe1) \<Rightarrow> Some (st, [], pe1)
      | Some (Inr (rid, fl), pe1) \<Rightarrow>
          if fl AND size_flags \<noteq> 0 then
            (if fl AND KEY_BLOB_SIZE_TINY \<noteq> 0 \<and> 8 < unat (put_u64 rid ! 7) then None
             else if inline_record rid fl \<noteq> [] \<and> flags AND HAM_PARTIAL \<noteq> 0 then Some (HAM_INV_PARAMETER, [], pe1)
             else Some (HAM_SUCCESS, inline_record rid fl, pe1))
          else blob_read B (unat rid) r flags pe1)"

section \<open>Records in entries\<close>

lemma le_bytes_le_nat: "length b = n \<Longrightarrow> le_bytes n (le_nat b) = b"
proof (induction b arbitrary: n)
  case (Cons x b)
  have "unat x < 256" using unsigned_less [of x] by simp
  moreover have "of_nat (256 * le_nat b) = (0 :: byte)" unfolding word_of_nat_eq_0_iff by simp
  then have "of_nat (unat x + 256 * le_nat b) = x" by (simp only: of_nat_add) simp
  moreover have "(unat x + 256 * le_nat b) div 256 = le_nat b" using calculation(1) by simp
  ultimately have "of_nat (unat x + 256 * le_nat b) = x" "(unat x + 256 * le_nat b) div 256 = le_nat b" by blast+
  then show ?case using Cons by (cases n) auto
qed simp

lemma le_nat_bound: "le_nat b < 256 ^ length b"
proof (induction b)
  case (Cons x b)
  have "unat x < 256" using unsigned_less [of x] by simp
  then show ?case using Cons by simp
qed simp

lemma put_get_u64: "length b = 8 \<Longrightarrow> put_u64 (get_u64 0 b) = b"
  using le_nat_bound [of b] by (simp add: put_u64_def get_u64_def unat_of_nat le_bytes_le_nat)

text \<open>Flags that are cleared by a mask and set again.\<close>

lemma cleared_and: "g AND NOT m = 0 \<Longrightarrow> ((x AND NOT m) OR f) AND g = f AND (g :: 'a :: len word)"
  by (auto simp: bit_eq_iff bit_simps)

lemma kept_and: "g AND m = 0 \<Longrightarrow> f AND g = 0 \<Longrightarrow> ((x AND NOT m) OR f) AND g = x AND (g :: 'a :: len word)"
  by (auto simp: bit_eq_iff bit_simps)

lemma key_masks [simp]:
  "KEY_BLOB_SIZE_TINY AND NOT size_flags = 0" "KEY_BLOB_SIZE_SMALL AND NOT size_flags = 0" "KEY_BLOB_SIZE_EMPTY AND NOT size_flags = 0"
  "KEY_HAS_DUPLICATES AND size_flags = 0" "KEY_IS_EXTENDED8 AND size_flags = 0" "size_flags AND NOT size_flags = 0"
  by code_simp+

lemma inline_flag_masks [simp]:
  "inline_flag r AND KEY_HAS_DUPLICATES = 0" "inline_flag r AND KEY_IS_EXTENDED8 = 0" "inline_flag r AND size_flags \<noteq> 0"
  "inline_flag r AND KEY_BLOB_SIZE_TINY \<noteq> 0 \<longleftrightarrow> 0 < br_size r \<and> br_size r < 8"
  "inline_flag r AND KEY_BLOB_SIZE_SMALL \<noteq> 0 \<longleftrightarrow> 8 \<le> br_size r"
  by (simp_all add: inline_flag_def KEY_BLOB_SIZE_TINY_def KEY_BLOB_SIZE_SMALL_def KEY_BLOB_SIZE_EMPTY_def KEY_HAS_DUPLICATES_def KEY_IS_EXTENDED8_def size_flags_def)

lemma inline_flag_set:
  "((x AND NOT size_flags) OR inline_flag r) AND KEY_HAS_DUPLICATES = x AND KEY_HAS_DUPLICATES"
  "((x AND NOT size_flags) OR inline_flag r) AND KEY_IS_EXTENDED8 = x AND KEY_IS_EXTENDED8"
  "((x AND NOT size_flags) OR inline_flag r) AND size_flags \<noteq> 0"
  "((x AND NOT size_flags) OR inline_flag r) AND KEY_BLOB_SIZE_TINY = inline_flag r AND KEY_BLOB_SIZE_TINY"
  "((x AND NOT size_flags) OR inline_flag r) AND KEY_BLOB_SIZE_SMALL = inline_flag r AND KEY_BLOB_SIZE_SMALL"
  by (simp_all add: cleared_and kept_and)

lemma flags_cleared:
  "(x AND NOT size_flags) AND size_flags = 0" "(x AND NOT size_flags) AND KEY_HAS_DUPLICATES = x AND KEY_HAS_DUPLICATES"
  "(x AND NOT size_flags) AND KEY_IS_EXTENDED8 = x AND KEY_IS_EXTENDED8"
  using kept_and [of KEY_HAS_DUPLICATES size_flags 0 x] kept_and [of KEY_IS_EXTENDED8 size_flags 0 x] cleared_and [of size_flags size_flags x 0]
  by simp_all

text \<open>The bytes of a record that is stored in place of the record id.\<close>

lemma inline_bytes:
  assumes "br_size r \<le> 8" "br_size r \<le> length (br_data r)"
  shows "length (put_u64 (inline_rid r)) = 8" "take (br_size r) (put_u64 (inline_rid r)) = take (br_size r) (br_data r)"
    "0 < br_size r \<Longrightarrow> br_size r < 8 \<Longrightarrow> unat (put_u64 (inline_rid r) ! 7) = br_size r"
proof -
  let ?n = "br_size r" let ?b = "take 8 (take ?n (br_data r) @ replicate 8 0)"
  have l: "length ?b = 8" by simp
  have p: "put_u64 (inline_rid r) = (if 0 < ?n \<and> ?n < 8 then ?b[7 := of_nat ?n] else ?b)"
    unfolding inline_rid_def Let_def by (rule put_get_u64) (simp only: if_distrib length_list_update l if_cancel)
  show "length (put_u64 (inline_rid r)) = 8" by simp
  have t: "take ?n ?b = take ?n (br_data r)" using assms by (simp add: min_def)
  show "take ?n (put_u64 (inline_rid r)) = take ?n (br_data r)" unfolding p using t assms(1) by (cases "?n < 8") (simp_all add: take_update_swap list_update_beyond)
  show "0 < ?n \<Longrightarrow> ?n < 8 \<Longrightarrow> unat (put_u64 (inline_rid r) ! 7) = ?n" unfolding p using l by (simp add: unat_of_nat)
qed

lemma inline_record_ok:
  assumes "br_size r \<le> 8" "br_size r \<le> length (br_data r)"
  shows "inline_record (inline_rid r) ((x AND NOT size_flags) OR inline_flag r) = take (br_size r) (br_data r)"
    "\<not> (((x AND NOT size_flags) OR inline_flag r) AND KEY_BLOB_SIZE_TINY \<noteq> 0 \<and> 8 < unat (put_u64 (inline_rid r) ! 7))"
  using inline_bytes [OF assms] assms by (auto simp: inline_record_def inline_flag_set)

section \<open>A record that is stored is read\<close>

definition plain_record :: "byte list \<Rightarrow> blob_rec" where
  "plain_record d = \<lparr>br_data = d, br_size = length d, br_partial_offset = 0, br_partial_size = 0\<rparr>"

lemma plain_record_simps [simp]:
  "br_data (plain_record d) = d" "br_size (plain_record d) = length d" "br_partial_offset (plain_record d) = 0" "br_partial_size (plain_record d) = 0"
  by (simp_all add: plain_record_def)

lemma blob_at_unat:
  assumes "blob_ok pe xs" "blob_at pe blobid img"
  shows "unat (of_nat blobid :: u64) = blobid" "blobid \<noteq> 0" "(of_nat blobid :: u64) \<noteq> 0"
proof -
  have "blobid < off_max" "0 < blobid" using assms blob_okD [OF assms(1)] by (auto simp: blob_at_def)
  then have b: "blobid < 2 ^ 64" by (simp add: off_max_def)
  then show "unat (of_nat blobid :: u64) = blobid" by (simp add: unat_of_nat)
  then show "blobid \<noteq> 0" "(of_nat blobid :: u64) \<noteq> 0" using \<open>0 < blobid\<close> by auto
qed

lemma read_blob_record:
  assumes "blob_ok pe xs" "blob_at pe blobid d" "length d < 2 ^ 32" "fl AND size_flags = 0" "fl AND KEY_HAS_DUPLICATES = 0" "flags AND HAM_PARTIAL = 0"
  shows "\<exists>pe'. btree_read_record B (of_nat blobid, fl) (plain_record []) flags pe = Some (HAM_SUCCESS, d, pe')"
proof -
  have "\<exists>pe' xs'. blob_read B blobid (plain_record []) flags pe =
      Some (if flags AND HAM_PARTIAL \<noteq> 0 \<and> length d < br_partial_offset (plain_record []) then (HAM_INV_PARAMETER, [], pe')
            else (HAM_SUCCESS, blob_part flags (plain_record []) d, pe')) \<and> blob_keeps xs pe pe' xs' \<and> wrote_bytes 0 [] pe pe'"
    by (rule blob_read_ok [OF assms(1-3)]) simp
  then show ?thesis using assms(4-6) blob_at_unat(1) [OF assms(1,2)] by (auto simp: btree_read_record_def blob_part_def)
qed

lemma read_inline_record:
  assumes "br_size r \<le> 8" "br_size r \<le> length (br_data r)" "x AND KEY_HAS_DUPLICATES = 0" "flags AND HAM_PARTIAL = 0"
  shows "btree_read_record B (inline_rid r, (x AND NOT size_flags) OR inline_flag r) r' flags pe = Some (HAM_SUCCESS, take (br_size r) (br_data r), pe)"
  using inline_record_ok [OF assms(1,2), of x] assms(3,4) by (auto simp: btree_read_record_def inline_flag_set)

text \<open>
  C15. A record that is stored for a key is the record that is read. For an entry that is new or holds a record in place of
  its record id, \<open>key_set_record\<close> stores a record of any size, from the empty one to one that needs several pages: in the
  entry if it has at most eight bytes and as a blob otherwise. \<open>btree_read_record\<close> then returns exactly its bytes; the
  marks of the key for extended keys and duplicates do not change. The record is not a partial one and the flags ask for no duplicate. The
  environment is that of a file: consistent, without file filters and without a strict limit of the cache, with system calls that
  succeed, a freelist that hands out areas of the file only, and room in the file for the record and two pages.
\<close>

theorem key_record_roundtrip:
  assumes ok: "blob_ok pe xs" and B: "freel_ok B" and key: "fst key = 0 \<or> snd key AND size_flags \<noteq> 0" "snd key AND KEY_HAS_DUPLICATES = 0"
    and flags: "flags AND duplicate_flags = 0" "flags AND HAM_PARTIAL = 0" "flags' AND HAM_PARTIAL = 0"
    and room: "blob_room pe (sizeof_blob_t + length d + DB_CHUNKSIZE)"
  shows "\<exists>ptr fl pe1 pe2. key_set_record B D key (plain_record d) position flags pe = Some (HAM_SUCCESS, (ptr, fl), None, pe1) \<and>
     fl AND KEY_HAS_DUPLICATES = 0 \<and> fl AND KEY_IS_EXTENDED8 = snd key AND KEY_IS_EXTENDED8 \<and>
     btree_read_record B (ptr, fl) (plain_record []) flags' pe1 = Some (HAM_SUCCESS, d, pe2)"
proof (cases "length d \<le> 8")
  case True
  let ?fl = "(snd key AND NOT size_flags) OR inline_flag (plain_record d)"
  have "key_set_record B D key (plain_record d) position flags pe = Some (HAM_SUCCESS, (inline_rid (plain_record d), ?fl), None, pe)"
    using key flags(1) True by (auto simp: key_set_record_def Let_def)
  moreover have "btree_read_record B (inline_rid (plain_record d), ?fl) (plain_record []) flags' pe = Some (HAM_SUCCESS, d, pe)"
    using read_inline_record [of "plain_record d" "snd key" flags' B "plain_record []" pe] True key(2) flags(3) by simp
  ultimately show ?thesis using inline_flag_set(1,2) [of "snd key" "plain_record d"] key(2) by auto
next
  case False
  let ?fl = "snd key AND NOT size_flags"
  have np: "\<not> is_partial flags (plain_record d)" using flags(2) by (simp add: is_partial_def)
  have "rec_ok flags (plain_record d)" "blob_image flags (plain_record d) = d" using np by (simp_all add: rec_ok_def blob_image_def)
  then obtain blobid pe1 xs1 where a: "blob_allocate B (plain_record d) flags pe = Some (HAM_SUCCESS, blobid, pe1)" "blob_grows xs pe pe1 xs1" "blob_at pe1 blobid d"
    using blob_allocate_ok [OF ok B, of flags "plain_record d"] room np by (auto simp: full_gap_def)
  have ok1: "blob_ok pe1 xs1" using a(2) by (simp add: blob_grows_def)
  have "key_set_record B D key (plain_record d) position flags pe = Some (HAM_SUCCESS, (of_nat blobid, ?fl), None, pe1)"
    using key flags(1) False a(1) blob_at_unat(2) [OF ok1 a(3)] by (auto simp: key_set_record_def Let_def)
  moreover have "length d < 2 ^ 32" using room blob_okD(1) [OF ok] by (simp add: blob_room_def)
  then obtain pe2 where "btree_read_record B (of_nat blobid, ?fl) (plain_record []) flags' pe1 = Some (HAM_SUCCESS, d, pe2)"
    using read_blob_record [where B = B and fl = ?fl, OF ok1 a(3) _ flags_cleared(1) _ flags(3)] flags_cleared(2) [of "snd key"] key(2) by auto
  ultimately show ?thesis using flags_cleared(2,3) [of "snd key"] key(2) by auto
qed

section \<open>An extended key that is stored is read\<close>

text \<open>The reader of blobs that \<open>Database::get_extended_key\<close> is run with.\<close>

definition extkey_blob_read :: "blob_ctx \<Rightarrow> page_env \<Rightarrow> u64 \<Rightarrow> nat \<Rightarrow> ham_status \<times> byte list" where
  "extkey_blob_read B pe blobid n =
     (case blob_read B (unat blobid) (plain_record []) 0 pe of None \<Rightarrow> (HAM_INTERNAL_ERROR, []) | Some (st, d, _) \<Rightarrow> (st, d))"

lemma extkey_blob_read_ok:
  assumes "blob_ok pe xs" "blob_at pe blobid d" "length d < 2 ^ 32"
  shows "extkey_blob_read B pe (of_nat blobid) n = (HAM_SUCCESS, d)"
proof -
  have "\<exists>pe' xs'. blob_read B blobid (plain_record []) 0 pe =
      Some (if 0 AND HAM_PARTIAL \<noteq> 0 \<and> length d < br_partial_offset (plain_record []) then (HAM_INV_PARAMETER, [], pe')
            else (HAM_SUCCESS, blob_part 0 (plain_record []) d, pe')) \<and> blob_keeps xs pe pe' xs' \<and> wrote_bytes 0 [] pe pe'"
    by (rule blob_read_ok [OF assms]) simp
  then show ?thesis using blob_at_unat(1) [OF assms(1,2)] by (auto simp: extkey_blob_read_def blob_part_def)
qed

lemma extkey_insert_fetch:
  assumes "extkey_inv c" "length v < 2 ^ 32"
  shows "\<exists>c'. extkey_fetch t' k (extkey_insert t k (of_nat (length v)) v c) = (HAM_SUCCESS, Some (of_nat (length v), v), c')"
proof -
  have l: "unat (of_nat (length v) :: u32) = length v" using assms(2) by (simp add: unat_of_nat take_bit_nat_eq_self)
  have "ec_hash c \<noteq> []" using assms(1) by (simp add: extkey_inv_def ht_inv_def)
  note h = ht_hash_lt [OF this, of extkey_helper k]
  have "ht_hash extkey_helper ((ec_hash c)[i := b]) = ht_hash extkey_helper (ec_hash c)" for i b by (rule ht_hash_length) simp
  then have "ht_get extkey_helper (ht_put extkey_helper e (ec_hash c)) k = Some e" if "ek_blobid e = k" for e
    using that h by (simp add: ht_get_def ht_put_def Let_def)
  then show ?thesis using l by (simp add: extkey_fetch_def extkey_insert_def)
qed

lemma extkey_fetch_new: "extkey_fetch t k extkey_cache_new = (HAM_KEY_NOT_FOUND, None, extkey_cache_new)"
proof -
  have "ht_get extkey_helper (ec_hash extkey_cache_new) k = None"
    using fun_cong [OF extkey_new_inv(2), of k] unfolding extkey_abs_def by simp
  then show ?thesis by (simp only: extkey_fetch_def option.case)
qed

lemma extended_rid_roundtrip:
  assumes "8 \<le> keysize" "keysize \<le> length data"
  shows "key_get_extended_rid keysize (key_set_extended_rid keysize data rid) = rid"
    "take (keysize - 8) (key_set_extended_rid keysize data rid) = take (keysize - 8) data"
  using assms get_u64_put [of "keysize - 8" "take (keysize - 8) data" rid "drop keysize data"]
  by (simp_all add: key_get_extended_rid_def key_set_extended_rid_def)

text \<open>
  C22. A key that is too long for an entry is read back whole. \<open>key_insert_extended\<close> stores the rest of the key as a blob; when its
  id is then written into an entry that has the first bytes of the key, \<open>Database::get_extended_key\<close> on the entry returns every
  byte of the key and its size, both with the cache that the insertion left behind and when the key is in no cache and its blob has to be read.
  The environment is that of a file: consistent, without file filters and without a strict limit of the page cache, with system calls that
  succeed, a freelist that hands out areas of the file only, and room in the file for the rest of the key and two pages.
\<close>

theorem extended_key_roundtrip:
  assumes ok: "blob_ok pe xs" and B: "freel_ok B" and size: "8 \<le> keysize" "keysize < length key" "length key < 2 ^ 16"
    and ec: "\<forall>c. ec = Some c \<longrightarrow> extkey_inv c" and room: "blob_room pe (sizeof_blob_t + (length key - (keysize - 8)) + DB_CHUNKSIZE)"
    and data: "keysize \<le> length data" "take (keysize - 8) data = take (keysize - 8) key"
  shows "\<exists>blobid ec' pe1. key_insert_extended B keysize t key ec pe = Some (HAM_SUCCESS, blobid, ec', pe1) \<and>
     (\<forall>cache \<in> {ec', None}. \<exists>cache'. get_extended_key (extkey_blob_read B pe1) False keysize t' (key_set_extended_rid keysize data (of_nat blobid))
        (length key) k cache = (HAM_SUCCESS, k\<lparr>k_data := key, k_size := of_nat (length key)\<rparr>, cache'))"
proof -
  let ?d = "drop (keysize - 8) key" and ?n = "keysize - 8"
  have "rec_ok 0 (plain_record ?d)" "blob_image 0 (plain_record ?d) = ?d" by (simp_all add: rec_ok_def blob_image_def is_partial_def)
  then obtain blobid pe1 xs1 where a: "blob_allocate B (plain_record ?d) 0 pe = Some (HAM_SUCCESS, blobid, pe1)" "blob_grows xs pe pe1 xs1" "blob_at pe1 blobid ?d"
    using blob_allocate_ok [OF ok B, of 0 "plain_record ?d"] room by (auto simp: full_gap_def is_partial_def)
  let ?ec = "map_option (extkey_insert t (of_nat blobid) (of_nat (length key)) key) ec"
    and ?e = "key_set_extended_rid keysize data (of_nat blobid)"
  have ins: "key_insert_extended B keysize t key ec pe = Some (HAM_SUCCESS, blobid, ?ec, pe1)"
    using a(1) by (simp add: key_insert_extended_def plain_record_def)
  have rid: "get_u64 ?n ?e = of_nat blobid" "take ?n ?e = take ?n key"
    using extended_rid_roundtrip [OF size(1) data(1), of "of_nat blobid"] data(2) by (simp_all add: key_get_extended_rid_def)
  have rd: "extkey_blob_read B pe1 (of_nat blobid) n = (HAM_SUCCESS, ?d)" for n
    by (rule extkey_blob_read_ok [OF _ a(3)]) (use a(2) size(3) in \<open>auto simp: blob_grows_def\<close>)
  have none: "\<exists>cache'. get_extended_key (extkey_blob_read B pe1) False keysize t' ?e (length key) k None =
      (HAM_SUCCESS, k\<lparr>k_data := key, k_size := of_nat (length key)\<rparr>, cache')"
    using extkey_fetch_new rid rd by (simp add: get_extended_key_def Let_def)
  have some: "\<exists>cache'. get_extended_key (extkey_blob_read B pe1) False keysize t' ?e (length key) k ?ec =
      (HAM_SUCCESS, k\<lparr>k_data := key, k_size := of_nat (length key)\<rparr>, cache')" if "ec = Some c" for c
  proof -
    have "extkey_inv c" "length key < 2 ^ 32" using ec that size(3) by auto
    from extkey_insert_fetch [OF this, of t' "of_nat blobid" t] obtain c' where
      "extkey_fetch t' (of_nat blobid) (extkey_insert t (of_nat blobid) (of_nat (length key)) key c) = (HAM_SUCCESS, Some (of_nat (length key), key), c')" by blast
    then show ?thesis using that rid by (simp add: get_extended_key_def Let_def)
  qed
  show ?thesis using ins none some by (cases ec) auto
qed

section \<open>A second record makes a table\<close>

lemma dupe_of_ok: "entry_ok (dupe_of fl rid)" "entry_ok zero_entry"
  by (simp_all add: dupe_of_def entry_ok_def zero_entry_def)

lemma dupe_table_insert_entries:
  assumes "dupe_table_insert p e t = Some t'" "entry_ok e" "\<forall>x \<in> set (dt_entries t). entry_ok x"
  shows "\<forall>x \<in> set (dt_entries t'). entry_ok x" "dt_capacity t' = dt_capacity t"
proof -
  let ?es = "if p = dt_count t then dt_entries t
    else take (p + 1) (dt_entries t) @ take (dt_count t - p) (drop p (dt_entries t)) @ drop (dt_count t + 1) (dt_entries t)"
  have i: "t' = t\<lparr>dt_count := dt_count t + 1, dt_entries := ?es[p := e]\<rparr>" using assms(1) by (auto simp: dupe_table_insert_def Let_def split: if_splits)
  have "set ?es \<subseteq> set (dt_entries t)" by (auto dest: in_set_takeD in_set_dropD)
  then have "set (?es[p := e]) \<subseteq> insert e (set (dt_entries t))" using set_update_subset_insert [of ?es p e] by blast
  then show "\<forall>x \<in> set (dt_entries t'). entry_ok x" unfolding i using assms(2,3) by auto
  show "dt_capacity t' = dt_capacity t" unfolding i by simp
qed

text \<open>The table of a key that had one record: both entries, with the new one at the position that the flags ask for.\<close>

lemma new_table:
  assumes ok: "blob_ok pe xs" and B: "freel_ok B" and D: "dc_rt_flags D AND HAM_SORT_DUPLICATES = 0" and fl: "flags AND HAM_OVERWRITE = 0"
    and pos: "position \<le> 1" and e: "entry_ok old" "entry_ok e" and room: "blob_room pe (sizeof_blob_t + dupe_table_bytes 8 + DB_CHUNKSIZE)"
  defines "p \<equiv> (if flags AND HAM_DUPLICATE_INSERT_BEFORE \<noteq> 0 then position
    else if flags AND HAM_DUPLICATE_INSERT_AFTER \<noteq> 0 then 1 else if flags AND HAM_DUPLICATE_INSERT_FIRST \<noteq> 0 then 0 else 1)"
  shows "\<exists>table t pe1 xs1. blob_duplicate_insert B D 0 d position flags [old, e] pe = Some (HAM_SUCCESS, Some table, p, pe1) \<and>
     blob_grows xs pe pe1 xs1 \<and> blob_at pe1 table (enc_dupe_table t) \<and> dupe_ok t \<and> (\<forall>x \<in> set (dt_entries t). entry_ok x) \<and> dt_capacity t = 8 \<and>
     dupes t = take p [old] @ e # drop p [old]"
proof -
  let ?t = "dupe_table_new old"
  have t: "dt_count ?t = 1" "dt_capacity ?t = 8" "\<forall>x \<in> set (dt_entries ?t). entry_ok x" using e(1) dupe_of_ok by (auto simp: dupe_table_new_def)
  have p: "p \<le> dt_count ?t" using pos t(1) by (simp add: p_def)
  obtain t' where i: "dupe_table_insert p e ?t = Some t'" "dupe_ok t'" "dupes t' = take p [old] @ e # drop p [old]"
    using dupe_table_insert_ok [OF dupe_table_new_ok(1) _ p, of e] t(1,2) unfolding dupe_table_new_ok(2) by auto
  note en = dupe_table_insert_entries [OF i(1) e(2) t(3)]
  have len: "length (enc_dupe_table t') = dupe_table_bytes 8"
    using length_enc_dupe_table [OF en(1)] i(2) en(2) t(2) by (simp add: dupe_ok_def dupe_table_bytes_len)
  have r: "rec_ok 0 (dupe_record t')" "blob_image 0 (dupe_record t') = enc_dupe_table t'" "br_size (dupe_record t') = dupe_table_bytes 8"
    using len en(2) t(2) by (simp_all add: dupe_record_def rec_ok_def blob_image_def is_partial_def)
  obtain table pe1 xs1 where a: "blob_allocate B (dupe_record t') 0 pe = Some (HAM_SUCCESS, table, pe1)" "blob_grows xs pe pe1 xs1" "blob_at pe1 table (enc_dupe_table t')"
    using blob_allocate_ok [OF ok B r(1)] room unfolding r(2,3) by (auto simp: full_gap_def is_partial_def)
  have "dupe_position D flags position d ?t = Some p" using D pos t(1) by (auto simp: dupe_position_def p_def sz32_def)
  moreover have "\<not> dupe_table_needs_resize flags ?t" using t(1,2) by (simp add: dupe_table_needs_resize_def sz32_def)
  ultimately have "blob_duplicate_insert B D 0 d position flags [old, e] pe = Some (HAM_SUCCESS, Some table, p, pe1)"
    using fl i(1) a(1) by (simp add: blob_duplicate_insert_def dupe_load_def Let_def dupe_modify_def dupe_write_back_def)
  then show ?thesis using a(2,3) i(2,3) en t(2) by (intro exI [of _ table] exI [of _ t'] exI [of _ pe1] exI [of _ xs1]) simp
qed

text \<open>
  C16. The second record of a key makes a table of duplicates that has both. If a key has one record and
  a small record is added to it as a duplicate (and duplicates are not sorted), then \<open>key_set_record\<close> succeeds, marks the key as
  one with duplicates, keeps its mark for extended keys and reports the position that the flags ask for. The queries of
  the table return the two records and nothing else, in the order that the position gives: first the new record and then the old one if it
  is 0, and first the old one and then the new one otherwise. Reading the record of the key is
  reading the first of them. The header of the table must not cross the end of a page, which its alignment ensures. The environment is
  that of a file: consistent, without file filters and without a strict limit of the cache, with system calls that succeed, a freelist
  that hands out areas of the file only, and room in the file for the table and two pages.
\<close>

theorem second_record_makes_table:
  assumes ok: "blob_ok pe xs" and B: "freel_ok B" "blob_from_cache B pe sizeof_blob_t" and D: "dc_rt_flags D AND HAM_SORT_DUPLICATES = 0"
    and key: "fst key \<noteq> 0 \<or> snd key AND size_flags \<noteq> 0" "snd key AND KEY_HAS_DUPLICATES = 0"
    and flags: "flags AND duplicate_flags \<noteq> 0" "flags AND HAM_OVERWRITE = 0" and pos: "position \<le> 1"
    and r: "br_size r \<le> 8" and room: "blob_room pe (sizeof_blob_t + dupe_table_bytes 8 + DB_CHUNKSIZE)"
  defines "p \<equiv> (if flags AND HAM_DUPLICATE_INSERT_BEFORE \<noteq> 0 then position
    else if flags AND HAM_DUPLICATE_INSERT_AFTER \<noteq> 0 then 1 else if flags AND HAM_DUPLICATE_INSERT_FIRST \<noteq> 0 then 0 else 1)"
    and "old \<equiv> dupe_of (snd key AND size_flags) (fst key)" and "new \<equiv> dupe_of (inline_flag r) (inline_rid r)"
    and "fl \<equiv> (snd key AND NOT size_flags) OR KEY_HAS_DUPLICATES"
  shows "\<exists>table pe1. key_set_record B D key r position flags pe = Some (HAM_SUCCESS, (of_nat table, fl), Some p, pe1) \<and>
     fl AND KEY_IS_EXTENDED8 = snd key AND KEY_IS_EXTENDED8 \<and>
     (table mod pagesize_of pe + sizeof_blob_t \<le> pagesize_of pe \<longrightarrow>
       (\<forall>i. \<exists>pe2. blob_duplicate_get B table i pe1 = Some (if i < 2 then Inr ((if p = 0 then [new, old] else [old, new]) ! i) else Inl HAM_KEY_NOT_FOUND, pe2)) \<and>
       (\<exists>pe2. \<forall>r' flags'. btree_read_record B (of_nat table, fl) r' flags' pe1 =
          btree_read_record B (let e = (if p = 0 then new else old) in (de_rid e, de_flags e)) r' flags' pe2))"
proof -
  obtain table t pe1 xs1 where n: "blob_duplicate_insert B D 0 (br_data r) position flags [old, new] pe = Some (HAM_SUCCESS, Some table, p, pe1)"
      "blob_grows xs pe pe1 xs1" "blob_at pe1 table (enc_dupe_table t)" "dupe_ok t" "\<forall>x \<in> set (dt_entries t). entry_ok x" "dt_capacity t = 8"
      "dupes t = take p [old] @ new # drop p [old]"
    using new_table [where d = "br_data r", OF ok B(1) D flags(2) pos dupe_of_ok(1) dupe_of_ok(1) room] unfolding p_def old_def new_def by blast
  have p1: "p \<le> 1" using pos by (simp add: p_def)
  have ds: "dupes t = (if p = 0 then [new, old] else [old, new])" using n(7) p1 by (cases p) auto
  have ok1: "blob_ok pe1 xs1" and ps: "pagesize_of pe1 = pagesize_of pe" using n(2) by (simp_all add: blob_grows_def)
  note u = blob_at_unat [OF ok1 n(3)]
  have "add_duplicate B D (fst key) (snd key) r position flags pe = Some (HAM_SUCCESS, of_nat table, p, pe1)"
    using r key(2) n(1) u(2) by (simp add: add_duplicate_def Let_def old_def new_def)
  then have set: "key_set_record B D key r position flags pe = Some (HAM_SUCCESS, (of_nat table, fl), Some p, pe1)"
    using key flags(1) by (auto simp: key_set_record_def Let_def fl_def)
  have fld: "fl AND KEY_HAS_DUPLICATES \<noteq> 0" "fl AND KEY_IS_EXTENDED8 = snd key AND KEY_IS_EXTENDED8"
  proof -
    have d: "KEY_HAS_DUPLICATES AND KEY_IS_EXTENDED8 = 0" "KEY_HAS_DUPLICATES AND KEY_HAS_DUPLICATES \<noteq> 0" by code_simp+
    show "fl AND KEY_IS_EXTENDED8 = snd key AND KEY_IS_EXTENDED8" unfolding fl_def using d(1) by (simp add: kept_and)
    show "fl AND KEY_HAS_DUPLICATES \<noteq> 0" unfolding fl_def using d(2) by (simp add: bit.conj_disj_distrib2)
  qed
  {
    assume h: "table mod pagesize_of pe + sizeof_blob_t \<le> pagesize_of pe"
    have at: "dupes_at pe1 table t" using n(3-6) h ps by (simp add: dupes_at_def table_len_def sizeof_dupe_entry_def)
    have c: "dt_count t = 2" using length_dupes [OF n(4)] ds by (simp split: if_splits)
    have bc: "blob_from_cache B pe1 sizeof_blob_t" using B(2) ps by (simp add: blob_from_cache_def)
    have get: "\<exists>pe2. blob_duplicate_get B table i pe1 = Some (if i < 2 then Inr ((if p = 0 then [new, old] else [old, new]) ! i) else Inl HAM_KEY_NOT_FOUND, pe2)" for i
      using duplicate_get_ok [OF ok1 at bc, of i] unfolding c ds by blast
    from get [of 0] obtain pe2 where g: "blob_duplicate_get B table 0 pe1 = Some (Inr (if p = 0 then new else old), pe2)" by (auto split: if_splits)
    have nd: "de_flags (if p = 0 then new else old) AND KEY_HAS_DUPLICATES = 0"
    proof -
      have "(snd key AND size_flags) AND KEY_HAS_DUPLICATES = 0" using key_masks(4) by (simp add: and.assoc and.commute [of size_flags])
      then show ?thesis by (simp add: new_def old_def dupe_of_def)
    qed
    have "btree_read_record B (of_nat table, fl) r' flags' pe1 = btree_read_record B (let e = (if p = 0 then new else old) in (de_rid e, de_flags e)) r' flags' pe2" for r' flags'
      using fld(1) g nd u(1) by (simp add: btree_read_record_def Let_def)
    with get have "(\<forall>i. \<exists>pe2. blob_duplicate_get B table i pe1 = Some (if i < 2 then Inr ((if p = 0 then [new, old] else [old, new]) ! i) else Inl HAM_KEY_NOT_FOUND, pe2)) \<and>
       (\<exists>pe2. \<forall>r' flags'. btree_read_record B (of_nat table, fl) r' flags' pe1 = btree_read_record B (let e = (if p = 0 then new else old) in (de_rid e, de_flags e)) r' flags' pe2)"
      by blast
  }
  then show ?thesis using set fld(2) by blast
qed

section \<open>A failed overwrite\<close>

text \<open>
  C39. Overwriting a small record with a large one destroys the small one when there is no space for the blob. The flags of the
  record size are cleared before the blob is allocated and not restored: after the
  failure the entry still holds the bytes of the small record, but they are taken as the id of a blob.
\<close>

theorem failed_overwrite_loses_record:
  assumes "snd key AND size_flags \<noteq> 0" "snd key AND KEY_HAS_DUPLICATES = 0" "flags AND duplicate_flags = 0" "8 < br_size r"
    and "blob_allocate B r flags pe = Some (st, x, pe1)" "st \<noteq> HAM_SUCCESS"
  shows "\<exists>fl. key_set_record B D key r position flags pe = Some (st, (fst key, fl), None, pe1) \<and> fl AND size_flags = 0 \<and>
     (\<forall>r' flags' pe2. btree_read_record B (fst key, fl) r' flags' pe2 = blob_read B (unat (fst key)) r' flags' pe2)"
proof -
  let ?fl = "snd key AND NOT size_flags"
  have "key_set_record B D key r position flags pe = Some (st, (fst key, ?fl), None, pe1)"
    using assms by (simp add: key_set_record_def Let_def)
  moreover have "btree_read_record B (fst key, ?fl) r' flags' pe2 = blob_read B (unat (fst key)) r' flags' pe2" for r' flags' pe2
    using flags_cleared(1,2) [of "snd key"] assms(2) by (simp add: btree_read_record_def)
  ultimately show ?thesis using flags_cleared(1) by blast
qed

section \<open>Examples\<close>

theorem key_record_roundtrip_witness:
  "\<exists>ptr fl pe1 pe2. key_set_record plain_blobs (byte_dupes 0) (0x0500000000000007, KEY_BLOB_SIZE_TINY) (plain_record [1, 2, 3, 4, 5, 6, 7, 8, 9]) 0 0 small_pe =
       Some (HAM_SUCCESS, (ptr, fl), None, pe1) \<and>
     btree_read_record plain_blobs (ptr, fl) (plain_record []) 0 pe1 = Some (HAM_SUCCESS, [1, 2, 3, 4, 5, 6, 7, 8, 9], pe2)"
proof -
  have "KEY_BLOB_SIZE_TINY AND size_flags \<noteq> 0" "KEY_BLOB_SIZE_TINY AND KEY_HAS_DUPLICATES = 0" by code_simp+
  moreover have "blob_room small_pe (sizeof_blob_t + length [1, 2, 3, 4, 5, 6, 7, 8, 9 :: byte] + DB_CHUNKSIZE)"
    using small_pe_blob_ok by (simp add: blob_room_def sizeof_blob_t_def DB_CHUNKSIZE_def off_max_def)
  ultimately show ?thesis
    using key_record_roundtrip [OF small_pe_blob_ok(1) plain_blobs_ok, of "(0x0500000000000007, KEY_BLOB_SIZE_TINY)" 0 0 "[1, 2, 3, 4, 5, 6, 7, 8, 9]" "byte_dupes 0" 0]
    by (simp del: list.size) blast
qed

theorem second_record_makes_table_witness:
  "\<exists>table pe1. key_set_record (plain_blobs\<lparr>bc_has_log := True\<rparr>) ((byte_dupes 0)\<lparr>dc_rt_flags := 0\<rparr>) (0x0100000000000007, KEY_BLOB_SIZE_TINY) (plain_record [9]) 0
       HAM_DUPLICATE dupe_pe = Some (HAM_SUCCESS, (of_nat table, KEY_HAS_DUPLICATES), Some 1, pe1)"
proof -
  let ?B = "plain_blobs\<lparr>bc_has_log := True\<rparr>" and ?D = "(byte_dupes 0)\<lparr>dc_rt_flags := 0\<rparr>"
  have fl: "KEY_BLOB_SIZE_TINY AND size_flags \<noteq> 0" "KEY_BLOB_SIZE_TINY AND KEY_HAS_DUPLICATES = 0" "HAM_DUPLICATE AND duplicate_flags \<noteq> 0"
    "HAM_DUPLICATE AND HAM_OVERWRITE = 0" "HAM_DUPLICATE AND HAM_DUPLICATE_INSERT_BEFORE = 0" "HAM_DUPLICATE AND HAM_DUPLICATE_INSERT_AFTER = 0"
    "HAM_DUPLICATE AND HAM_DUPLICATE_INSERT_FIRST = 0" "(KEY_BLOB_SIZE_TINY AND NOT size_flags) OR KEY_HAS_DUPLICATES = KEY_HAS_DUPLICATES" by code_simp+
  have c: "blob_from_cache ?B dupe_pe sizeof_blob_t"
    using dupe_pe_ok(3) by (simp add: blob_from_cache_def sizeof_blob_t_def sizeof_persistent_header_def)
  have f: "freel_ok ?B" using plain_blobs_ok by (simp add: freel_ok_def)
  have room: "blob_room dupe_pe (sizeof_blob_t + dupe_table_bytes 8 + DB_CHUNKSIZE)"
    using dupe_pe_ok by (simp add: blob_room_def sizeof_blob_t_def DB_CHUNKSIZE_def off_max_def dupe_table_bytes_def sizeof_dupe_entry_def sz32_def)
  have d: "dc_rt_flags ?D AND HAM_SORT_DUPLICATES = 0" by simp
  show ?thesis
    using second_record_makes_table [where key = "(0x0100000000000007, KEY_BLOB_SIZE_TINY)" and flags = HAM_DUPLICATE and position = 0 and r = "plain_record [9]", OF dupe_pe_ok(2) f c d _ _ fl(3,4) _ _ room]
      fl by (simp del: list.size) auto
qed

theorem failed_overwrite_loses_record_witness:
  "\<exists>fl. key_set_record (plain_blobs\<lparr>bc_freel_alloc_area := (\<lambda>n pe. (HAM_IO_ERROR, 0, pe))\<rparr>) (byte_dupes 0) (0x0100000000000007, KEY_BLOB_SIZE_TINY)
     (plain_record (replicate 9 1)) 0 0 small_pe = Some (HAM_IO_ERROR, (0x0100000000000007, fl), None, small_pe) \<and> fl AND size_flags = 0"
proof -
  let ?B = "plain_blobs\<lparr>bc_freel_alloc_area := (\<lambda>n pe. (HAM_IO_ERROR, 0, pe))\<rparr>"
  have "KEY_BLOB_SIZE_TINY AND size_flags \<noteq> 0" "KEY_BLOB_SIZE_TINY AND KEY_HAS_DUPLICATES = 0" by code_simp+
  moreover have "blob_allocate ?B (plain_record (replicate 9 1)) 0 small_pe = Some (HAM_IO_ERROR, 0, small_pe)"
    by (simp add: blob_allocate_def Let_def blob_find_space_def)
  ultimately show ?thesis
    using failed_overwrite_loses_record [of "(0x0100000000000007, KEY_BLOB_SIZE_TINY)" 0 "plain_record (replicate 9 1)" ?B small_pe HAM_IO_ERROR 0 small_pe "byte_dupes 0" 0] by simp blast
qed

theorem extended_key_roundtrip_witness:
  "\<exists>blobid ec' pe1. key_insert_extended plain_blobs 10 1 [1, 2, 3, 4, 5, 6, 7, 8, 9, 10, 11, 12] (Some extkey_cache_new) small_pe = Some (HAM_SUCCESS, blobid, ec', pe1) \<and>
     (\<forall>cache \<in> {ec', None}. \<exists>cache'. get_extended_key (extkey_blob_read plain_blobs pe1) False 10 2
        (key_set_extended_rid 10 [1, 2, 0, 0, 0, 0, 0, 0, 0, 0] (of_nat blobid)) 12 \<lparr>k_data = [], k_size = 0, k_flags = 0\<rparr> cache =
        (HAM_SUCCESS, \<lparr>k_data = [1, 2, 3, 4, 5, 6, 7, 8, 9, 10, 11, 12], k_size = 12, k_flags = 0\<rparr>, cache'))"
proof -
  let ?key = "[1, 2, 3, 4, 5, 6, 7, 8, 9, 10, 11, 12 :: byte]" and ?k = "\<lparr>k_data = [], k_size = 0, k_flags = 0\<rparr>"
  have l: "length ?key = 12" by simp
  have "blob_room small_pe (sizeof_blob_t + (length ?key - (10 - 8)) + DB_CHUNKSIZE)"
    unfolding l using small_pe_blob_ok by (simp add: blob_room_def sizeof_blob_t_def DB_CHUNKSIZE_def off_max_def)
  from extended_key_roundtrip [OF small_pe_blob_ok(1) plain_blobs_ok _ _ _ _ this, of "Some extkey_cache_new" "[1, 2, 0, 0, 0, 0, 0, 0, 0, 0]" 1 2 ?k]
  show ?thesis unfolding l using extkey_new_inv(1) by simp
qed

end
