(* ===== verification/Ham_Bt_Store.thy ===== *)
theory Ham_Bt_Store
  imports Ham_Bt_Cursor Ham_Bt_Key
begin

text \<open>
  The B+tree cursors on top of the stored records. The interface between them is a locale: the queries of a table of duplicates
  and the reader of records, with the laws on which the scans rely. The blobs and tables in the pages of a file are
  an instance, so that a cursor returns what \<open>key_set_record\<close> has stored.
\<close>

section \<open>What cursors rely on\<close>

text \<open>
  \<open>tables\<close> says which records a table has, \<open>holds\<close> what a record holds. A whole record is read without the flag for partial
  access; the entry of a key with duplicates reads as its first duplicate.
\<close>

locale record_store =
  fixes dup_get :: "u64 \<Rightarrow> nat \<Rightarrow> 'r \<Rightarrow> int \<times> byte \<times> u64"
    and dup_count :: "u64 \<Rightarrow> 'r \<Rightarrow> int \<times> nat \<times> byte \<times> u64"
    and read :: "u64 \<times> byte \<Rightarrow> u32 \<Rightarrow> 'r \<Rightarrow> int \<times> byte list"
    and tables :: "'r \<Rightarrow> u64 \<Rightarrow> (byte \<times> u64) list \<Rightarrow> bool"
    and holds :: "'r \<Rightarrow> u64 \<times> byte \<Rightarrow> byte list \<Rightarrow> bool"
  assumes table_size: "tables env t ds \<Longrightarrow> 0 < length ds \<and> length ds < 2 ^ 32"
    and get_entry: "tables env t ds \<Longrightarrow> d < length ds \<Longrightarrow> dup_get t d env = (0, ds ! d)"
    and get_none: "tables env t ds \<Longrightarrow> length ds \<le> d \<Longrightarrow> fst (dup_get t d env) = NOT_FOUND"
    and count_all: "tables env t ds \<Longrightarrow> dup_count t env = (0, length ds, last ds)"
    and read_one: "holds env (rid, fl) x \<Longrightarrow> fl AND KEY_HAS_DUPLICATES = 0 \<Longrightarrow> flags AND HAM_PARTIAL = 0 \<Longrightarrow> read (rid, fl) flags env = (0, x)"
    and read_first: "tables env t ds \<Longrightarrow> holds env (prod.swap (hd ds)) x \<Longrightarrow> fst (hd ds) AND KEY_HAS_DUPLICATES = 0 \<Longrightarrow>
      fl AND KEY_HAS_DUPLICATES \<noteq> 0 \<Longrightarrow> flags AND HAM_PARTIAL = 0 \<Longrightarrow> read (t, fl) flags env = (0, x)"
begin

text \<open>The records of all entries are in the store; \<open>D\<close> are the tables and \<open>R\<close> the records.\<close>

lemma entries_stored:
  assumes K: "cx_dup_get K = dup_get" "cx_dup_count K = dup_count" and X: "bx_read_record X = read" "\<And>e. bx_read_key X e = 0"
    and dup: "\<And>e. e \<in> set es \<Longrightarrow> be_flags e AND KEY_HAS_DUPLICATES \<noteq> 0 \<Longrightarrow> tables env (be_ptr e) (D (be_ptr e))"
    and rec: "\<And>e r. e \<in> set es \<Longrightarrow> r \<in> set (entry_records D e) \<Longrightarrow> snd r AND KEY_HAS_DUPLICATES = 0 \<and> holds env r (R r)"
  shows "dup_tables K env D es" "readable X env D R es"
proof -
  show "dup_tables K env D es" unfolding dup_tables_def K
    using dup table_size get_entry get_none count_all by blast
  show "readable X env D R es" unfolding readable_def X
  proof (intro ballI conjI allI impI)
    fix e and flags :: u32 assume e: "e \<in> set es" and fl: "flags AND HAM_PARTIAL = 0"
    have one: "read r flags env = (0, R r)" if "r \<in> set (entry_records D e)" for r
      using rec [OF e that] read_one [of env "fst r" "snd r"] fl by simp
    then show "read r flags env = (0, R r)" if "r \<in> set (entry_records D e)" for r using that .
    show "read (be_ptr e, be_flags e) flags env = (0, R (hd (entry_records D e)))"
    proof (cases "be_flags e AND KEY_HAS_DUPLICATES = 0")
      case True
      then show ?thesis using one [of "(be_ptr e, be_flags e)"] by (simp add: entry_records_def)
    next
      case False
      let ?ds = "D (be_ptr e)"
      have t: "tables env (be_ptr e) ?ds" by (rule dup [OF e False])
      then have ne: "?ds \<noteq> []" using table_size by blast
      then have h: "hd (entry_records D e) = prod.swap (hd ?ds)" "hd (entry_records D e) \<in> set (entry_records D e)"
        using False by (simp_all add: entry_records_def hd_map)
      show ?thesis using read_first [OF t _ _ False fl, of "R (prod.swap (hd ?ds))"] rec [OF e h(2)] unfolding h(1) by simp
    qed
  qed (use X(2) in simp)
qed

end

section \<open>The records in a file\<close>

text \<open>
  The answers of the blob functions in one state of the pages; an access outside a table, which is not a status, is represented by an
  internal error.
\<close>

definition file_dup_get :: "blob_ctx \<Rightarrow> u64 \<Rightarrow> nat \<Rightarrow> page_env \<Rightarrow> int \<times> byte \<times> u64" where
  "file_dup_get B t d pe =
     (case blob_duplicate_get B (unat t) d pe of
        None \<Rightarrow> (ham_status_code HAM_INTERNAL_ERROR, 0, 0)
      | Some (Inl st, _) \<Rightarrow> (ham_status_code st, 0, 0)
      | Some (Inr e, _) \<Rightarrow> (0, de_flags e, de_rid e))"

definition file_dup_count :: "blob_ctx \<Rightarrow> u64 \<Rightarrow> page_env \<Rightarrow> int \<times> nat \<times> byte \<times> u64" where
  "file_dup_count B t pe =
     (case blob_duplicate_get_count B (unat t) True pe of
        Some (Inl st, _) \<Rightarrow> (ham_status_code st, 0, 0, 0)
      | Some (Inr (n, Some e), _) \<Rightarrow> (0, n, de_flags e, de_rid e)
      | _ \<Rightarrow> (ham_status_code HAM_INTERNAL_ERROR, 0, 0, 0))"

definition file_read :: "blob_ctx \<Rightarrow> u64 \<times> byte \<Rightarrow> u32 \<Rightarrow> page_env \<Rightarrow> int \<times> byte list" where
  "file_read B key flags pe =
     (case btree_read_record B key (plain_record []) flags pe of
        None \<Rightarrow> (ham_status_code HAM_INTERNAL_ERROR, [])
      | Some (st, d, _) \<Rightarrow> (ham_status_code st, d))"

definition file_tables :: "blob_ctx \<Rightarrow> page_env \<Rightarrow> u64 \<Rightarrow> (byte \<times> u64) list \<Rightarrow> bool" where
  "file_tables B pe t ds \<longleftrightarrow>
     (\<exists>xs tb. blob_ok pe xs \<and> dupes_at pe (unat t) tb \<and> blob_from_cache B pe sizeof_blob_t \<and> 0 < dt_count tb \<and>
        ds = map (\<lambda>e. (de_flags e, de_rid e)) (dupes tb))"

definition file_holds :: "page_env \<Rightarrow> u64 \<times> byte \<Rightarrow> byte list \<Rightarrow> bool" where
  "file_holds pe r d \<longleftrightarrow>
     (if snd r AND size_flags \<noteq> 0
      then d = inline_record (fst r) (snd r) \<and> (snd r AND KEY_BLOB_SIZE_TINY \<noteq> 0 \<longrightarrow> unat (put_u64 (fst r) ! 7) \<le> 8)
      else (\<exists>xs. blob_ok pe xs) \<and> blob_at pe (unat (fst r)) d \<and> length d < 2 ^ 32)"

lemma last_take_nth: "0 < n \<Longrightarrow> n \<le> length xs \<Longrightarrow> last (take n xs) = xs ! (n - 1)"
  by (subst last_conv_nth) auto

lemma file_count:
  assumes "blob_ok pe xs" "dupes_at pe t tb" "blob_from_cache B pe sizeof_blob_t" "0 < dt_count tb"
  shows "\<exists>pe'. blob_duplicate_get_count B t True pe = Some (Inr (dt_count tb, Some (last (dupes tb))), pe')"
proof -
  from loaded_table [OF assms(1-3)] obtain t' page pe' where
    g: "get_duplicate_table B t pe = Some (Inr (t', page), pe')" "dt_count t' = dt_count tb" "dt_count tb \<le> length (dt_entries t')" "dupes t' = dupes tb"
    by blast
  have "dt_count tb < 2 ^ 31" using assms(2) by (auto simp: dupes_at_def dupe_ok_def table_len_def sizeof_dupe_entry_def)
  note i = last_index [OF assms(4) this]
  have "last (dupes t') = dt_entries t' ! (dt_count tb - 1)" unfolding dupes_def g(2) by (rule last_take_nth) (use assms(4) g(3) in simp_all)
  then have "last (dupes tb) = dt_entries t' ! (dt_count tb - 1)" unfolding g(4) .
  then have "dupe_table_get_entry t' (dt_count tb - 1) = Some (last (dupes tb))" using g(3) assms(4) by (simp add: dupe_table_get_entry_def)
  then show ?thesis unfolding blob_duplicate_get_count_def g(1) using g(2) i by simp
qed

text \<open>Reading changes no byte of the file, so that every blob stays where it is.\<close>

lemma blob_at_same:
  assumes "blob_at pe a d" "wrote_bytes 0 [] pe pe'" "blob_keeps xs pe pe' xs'"
  shows "blob_at pe' a d"
proof -
  have "bytes_at pe' a (sizeof_blob_t + length d) = bytes_at pe a (sizeof_blob_t + length d)"
    by (rule wrote_bytes_at [OF assms(2)]) (use assms(1) in \<open>auto simp: blob_at_def\<close>)
  then show ?thesis using assms(1,3) by (auto simp: blob_at_def blob_keeps_def)
qed

lemma file_holds_read:
  assumes "file_holds pe (rid, fl) d" "fl AND KEY_HAS_DUPLICATES = 0" "flags AND HAM_PARTIAL = 0"
  shows "\<exists>pe'. btree_read_record B (rid, fl) (plain_record []) flags pe = Some (HAM_SUCCESS, d, pe')"
proof (cases "fl AND size_flags = 0")
  case True
  then obtain xs where "blob_ok pe xs" "blob_at pe (unat rid) d" "length d < 2 ^ 32" using assms(1) by (auto simp: file_holds_def)
  then show ?thesis using read_blob_record [where B = B and fl = fl and flags = flags] assms(2,3) True by fastforce
next
  case False
  then show ?thesis using assms by (auto simp: file_holds_def btree_read_record_def)
qed

lemma file_holds_same:
  assumes "file_holds pe r d" "wrote_bytes 0 [] pe pe'" "blob_keeps xs pe pe' xs'"
  shows "file_holds pe' r d"
  using assms(1) blob_at_same [OF _ assms(2,3)] keeps_blob_ok [OF assms(3)] by (auto simp: file_holds_def split: if_splits)
interpretation file_store: record_store "file_dup_get B" "file_dup_count B" "file_read B" "file_tables B" file_holds for B
proof
  fix env :: page_env and t :: u64 and ds :: "(byte \<times> u64) list"
  assume "file_tables B env t ds"
  then obtain xs tb where f: "blob_ok env xs" "dupes_at env (unat t) tb" "blob_from_cache B env sizeof_blob_t" "0 < dt_count tb"
      "ds = map (\<lambda>e. (de_flags e, de_rid e)) (dupes tb)" by (auto simp: file_tables_def)
  have l: "length (dupes tb) = dt_count tb" "dt_count tb < 2 ^ 32" using f(2) dupes_atD(2) [OF f(2)] length_dupes by (auto simp: dupes_at_def)
  show "0 < length ds \<and> length ds < 2 ^ 32" using f(4,5) l by simp
  show "file_dup_get B t d env = (0, ds ! d)" if "d < length ds" for d
    using duplicate_get_ok [OF f(1-3), of d] that l f(5) by (auto simp: file_dup_get_def)
  show "fst (file_dup_get B t d env) = NOT_FOUND" if "length ds \<le> d" for d
    using duplicate_get_ok [OF f(1-3), of d] that l f(5) by (auto simp: file_dup_get_def NOT_FOUND_def)
  show "file_dup_count B t env = (0, length ds, last ds)"
  proof -
    have "dupes tb \<noteq> []" using f(4) l(1) by auto
    then show ?thesis using file_count [OF f(1-4)] f(5) l(1) last_map [of "dupes tb" "\<lambda>e. (de_flags e, de_rid e)"] by (auto simp: file_dup_count_def)
  qed
  show "file_read B (t, fl) flags env = (0, x)" if h: "file_holds env (prod.swap (hd ds)) x" and e: "fst (hd ds) AND KEY_HAS_DUPLICATES = 0"
    "fl AND KEY_HAS_DUPLICATES \<noteq> 0" "flags AND HAM_PARTIAL = 0" for x fl flags
  proof -
    obtain pe' xs' where g: "blob_duplicate_get B (unat t) 0 env = Some (Inr (dupes tb ! 0), pe')" "blob_keeps xs env pe' xs'" "wrote_bytes 0 [] env pe'"
      using duplicate_get_ok [OF f(1-3), of 0] f(4) by auto
    have hd: "hd ds = (de_flags (dupes tb ! 0), de_rid (dupes tb ! 0))" using f(4,5) l(1) by (cases "dupes tb") simp_all
    obtain pe2 where "btree_read_record B (de_rid (dupes tb ! 0), de_flags (dupes tb ! 0)) (plain_record []) flags pe' = Some (HAM_SUCCESS, x, pe2)"
      using file_holds_read [OF file_holds_same [OF h g(3,2), unfolded hd prod.swap_def fst_conv snd_conv] _ e(3), of B] e(1) hd by auto
    moreover have "btree_read_record B (t, fl) (plain_record []) flags env =
        btree_read_record B (de_rid (dupes tb ! 0), de_flags (dupes tb ! 0)) (plain_record []) flags pe'"
      using e(1,2) g(1) hd by (simp add: btree_read_record_def)
    ultimately show ?thesis by (simp add: file_read_def)
  qed
next
  show "file_read B (rid, fl) flags env = (0, x)" if "file_holds env (rid, fl) x" "fl AND KEY_HAS_DUPLICATES = 0" "flags AND HAM_PARTIAL = 0"
    for env :: page_env and rid fl x flags
    using file_holds_read [OF that, of B] by (auto simp: file_read_def)
qed

section \<open>Scanning the records of a file\<close>

text \<open>
  C17. A cursor returns the records that the pages of the file hold. In a tree that satisfies the invariant, let every entry
  refer to a record that is stored in the entry or as a blob, or to a table of duplicates in the file whose records are. Then
  the \<open>n\<close>-th step of a scan with the blob functions, forwards or backwards, returns the
  key and the stored bytes of the \<open>n\<close>-th record, and the step after the last one reports that there is none. Every record is read
  in the environment that the scan starts with: the pages that a step brings into the cache are not handed to the next one, which changes
  no content.
\<close>

theorem cursor_scans_stored_records:
  assumes inv: "bt_inv cmp T h" and fetch: "\<forall>b. bx_fetch X b = 0" and keys: "\<forall>e. bx_read_key X e = 0"
    and fs: "bx_read_record X = file_read B" "cx_dup_get K = file_dup_get B" "cx_dup_count K = file_dup_count B"
    and dup: "\<forall>e \<in> set (bt_contents T h). be_flags e AND KEY_HAS_DUPLICATES \<noteq> 0 \<longrightarrow> file_tables B (bt_env T) (be_ptr e) (D (be_ptr e))"
    and rec: "\<forall>e \<in> set (bt_contents T h). \<forall>r \<in> set (entry_records D e). snd r AND KEY_HAS_DUPLICATES = 0 \<and> file_holds (bt_env T) r (R r)"
  shows "\<forall>n \<le> length (scan_items D R (bt_contents T h)).
     (\<exists>c'. scan X K HAM_CURSOR_FIRST HAM_CURSOR_NEXT T c n =
        (let I = scan_items D R (bt_contents T h)
         in if n < length I then Some (0, c', T, Some (fst (I ! n)), Some (snd (I ! n))) else Some (NOT_FOUND, c', T, None, None))) \<and>
     (\<exists>c' T'. scan X K HAM_CURSOR_LAST HAM_CURSOR_PREVIOUS T c n =
        (let I = rev (scan_items D R (bt_contents T h))
         in if n < length I then Some (0, c', T', Some (fst (I ! n)), Some (snd (I ! n))) else Some (NOT_FOUND, c', T', None, None)))"
proof -
  note s = file_store.entries_stored [OF fs(2,3,1), where env = "bt_env T" and es = "bt_contents T h" and D = D and R = R]
  have "dup_tables K (bt_env T) D (bt_contents T h)" "readable X (bt_env T) D R (bt_contents T h)"
    by (rule s; use keys dup rec in blast)+
  note h = inv fetch this
  show ?thesis using forward_scan [OF h, of _ c] backward_scan [OF h, of _ c] unfolding Let_def length_rev by blast
qed

text \<open>The table of three records of one byte, as the records of the key 2 of the example.\<close>

definition file_nodes :: "u64 \<Rightarrow> bt_node" where
  "file_nodes = example_nodes(0x400 := (example_nodes 0x400)\<lparr>bn_entries := [(example_entry 2)\<lparr>be_ptr := 256, be_flags := KEY_HAS_DUPLICATES\<rparr>]\<rparr>,
     0x800 := (example_nodes 0x800)\<lparr>bn_entries := [(example_entry 5)\<lparr>be_ptr := inline_rid (plain_record [9]), be_flags := KEY_BLOB_SIZE_TINY\<rparr>]\<rparr>)"

definition file_ctx :: "page_env bt_ctx" where
  "file_ctx =
     \<lparr>bx_compare = db_default_compare, bx_pagesize = 256, bx_recovery = True, bx_sequential = False,
      bx_fetch = (\<lambda>_. 0), bx_cached = (\<lambda>_. True), bx_alloc = (\<lambda>_ r. (0, 0x1000, r)), bx_free = (\<lambda>_ r. r),
      bx_set_record = (\<lambda>(p, fl) d flags r. (0, (p, fl), d, r)), bx_erase_record = (\<lambda>(p, fl) d flags r. (0, (0, fl), r)),
      bx_read_record = file_read (plain_blobs\<lparr>bc_has_log := True\<rparr>), bx_insert_extended = (\<lambda>_ r. (0, 9, r)), bx_remove_extended = (\<lambda>_ r. (0, r)),
      bx_copy_extended = (\<lambda>_ r. (0, 9, r)), bx_read_key = (\<lambda>_. 0), bx_copy_key = (\<lambda>_. 0), bx_uncouple = (\<lambda>_ _. 0)\<rparr>"

definition file_cur_ctx :: "page_env cur_ctx" where
  "file_cur_ctx =
     \<lparr>cx_dup_get = file_dup_get (plain_blobs\<lparr>bc_has_log := True\<rparr>), cx_dup_count = file_dup_count (plain_blobs\<lparr>bc_has_log := True\<rparr>),
      cx_copy_key = (\<lambda>_. 0), cx_datasize = (\<lambda>_ _. (0, 1)), cx_oob = False, cx_hint = None\<rparr>"

definition file_tree :: "page_env btree" where
  "file_tree =
     \<lparr>bt_rootpage = 0xc00, bt_maxkeys = 4, bt_keysize = 21, bt_flags = 0, bt_recno = 0, bt_dirty = False, bt_active = True,
      bt_index = \<lparr>ix_dbname = 1, ix_maxkeys = 0, ix_keysize = 0, ix_reserved1 = 0, ix_self = 0, ix_flags = 0, ix_recno = 0, ix_reserved2 = 0\<rparr>,
      bt_env_dirty = False, bt_header_logged = False, bt_nodes = file_nodes, bt_types = (\<lambda>_. 0), bt_dirty_pages = {}, bt_env = dupe_pe\<rparr>"

lemma file_tree_simps [simp]:
  "bt_rootpage file_tree = 0xc00" "bt_maxkeys file_tree = 4" "bt_nodes file_tree = file_nodes" "bt_env file_tree = dupe_pe"
  by (simp_all add: file_tree_def)

lemma file_node_simps [simp]:
  "file_nodes 0x400 = \<lparr>bn_left = 0, bn_right = 0x800, bn_ptr_left = 0, bn_entries = [(example_entry 2)\<lparr>be_ptr := 256, be_flags := KEY_HAS_DUPLICATES\<rparr>]\<rparr>"
  "file_nodes 0x800 = \<lparr>bn_left = 0x400, bn_right = 0, bn_ptr_left = 0,
     bn_entries = [(example_entry 5)\<lparr>be_ptr := inline_rid (plain_record [9]), be_flags := KEY_BLOB_SIZE_TINY\<rparr>]\<rparr>"
  "file_nodes 0xc00 = example_nodes 0xc00"
  by (simp_all add: file_nodes_def)

lemma file_level: "level file_nodes (Suc 0) k 0xc00 = (if k = 1 then [0xc00] else if k = 0 then [0x400, 0x800] else [])"
  by (simp add: child_ptrs_def)

lemma file_inv: "bt_inv db_default_compare file_tree (Suc 0)"
proof -
  have c: "db_default_compare [2] [5] < 0" "db_default_compare [5] [5] = 0" "KEY_HAS_DUPLICATES AND KEY_IS_EXTENDED8 = 0" "KEY_BLOB_SIZE_TINY AND KEY_IS_EXTENDED8 = 0"
    by code_simp+
  have "bt_tree db_default_compare 4 file_nodes (Suc 0) None None 0xc00"
    unfolding bt_tree.simps file_node_simps example_node_simps
    using c by (simp add: node_ok_def inner_ok_def in_range_def ext_ok_def less_imp_le)
  moreover have "linked file_nodes (\<lambda>k. level file_nodes (Suc 0) k 0xc00)" unfolding file_level linked_def by auto
  moreover have "\<forall>x \<in> set (level file_nodes (Suc 0) 0 0xc00). bn_entries (file_nodes x) \<noteq> []" unfolding file_level by simp
  ultimately show ?thesis by (simp add: bt_inv_def MAX_KEYS_PER_NODE_def del: level.simps bt_tree.simps)
qed

lemma file_contents:
  "bt_contents file_tree (Suc 0) = [(example_entry 2)\<lparr>be_ptr := 256, be_flags := KEY_HAS_DUPLICATES\<rparr>,
     (example_entry 5)\<lparr>be_ptr := inline_rid (plain_record [9]), be_flags := KEY_BLOB_SIZE_TINY\<rparr>]"
  unfolding bt_contents_def contents_def file_tree_simps file_level by simp

definition file_lists :: "u64 \<Rightarrow> (byte \<times> u64) list" where
  "file_lists _ = [(KEY_BLOB_SIZE_TINY, 10), (KEY_BLOB_SIZE_TINY, 20), (KEY_BLOB_SIZE_TINY, 30)]"

lemma le_bytes_nth: "i < n \<Longrightarrow> le_bytes n v ! i = of_nat (v div 256 ^ i)"
proof (induction n arbitrary: v i)
  case (Suc n)
  then show ?case by (cases i) (simp_all add: div_mult2_eq)
qed simp

theorem cursor_scans_stored_records_witness:
  "\<exists>c'. scan file_ctx file_cur_ctx HAM_CURSOR_FIRST HAM_CURSOR_NEXT file_tree nil_cursor 3 = Some (0, c', file_tree, Some [5], Some [9])"
proof -
  let ?B = "plain_blobs\<lparr>bc_has_log := True\<rparr>" and ?R = "\<lambda>r. inline_record (fst r) (snd r)"
  have k: "KEY_HAS_DUPLICATES \<noteq> 0" "KEY_BLOB_SIZE_TINY \<noteq> 0" "KEY_BLOB_SIZE_TINY AND KEY_HAS_DUPLICATES = 0" "KEY_BLOB_SIZE_TINY AND size_flags \<noteq> 0"
    by code_simp+
  have r9: "inline_record (inline_rid (plain_record [9])) KEY_BLOB_SIZE_TINY = [9]" "unat (put_u64 (inline_rid (plain_record [9])) ! 7) \<le> 8"
    using inline_record_ok(1) [of "plain_record [9]" 0] inline_bytes(3) [of "plain_record [9]"] by (simp_all add: inline_flag_def)
  have s: "put_u64 10 ! 7 = 0" "put_u64 20 ! 7 = 0" "put_u64 30 ! 7 = 0" by (simp_all add: put_u64_def le_bytes_nth)
  have "blob_from_cache ?B dupe_pe sizeof_blob_t"
    using dupe_pe_ok(3) by (simp add: blob_from_cache_def sizeof_blob_t_def sizeof_persistent_header_def)
  then have t: "file_tables ?B dupe_pe 256 (file_lists 256)"
    unfolding file_tables_def using dupe_pe_ok(2) dupe_pe_dupes byte_table_dupes
    by (intro exI [of _ "[]"] exI [of _ byte_table]) (simp add: file_lists_def byte_entry_def byte_table_def)
  have rec: "\<forall>e \<in> set (bt_contents file_tree (Suc 0)). \<forall>r \<in> set (entry_records file_lists e).
      snd r AND KEY_HAS_DUPLICATES = 0 \<and> file_holds (bt_env file_tree) r (?R r)"
    unfolding file_contents using k r9 s by (simp add: entry_records_def file_lists_def file_holds_def)
  have it: "scan_items file_lists ?R (bt_contents file_tree (Suc 0)) = map (Pair [2]) (map ?R (map prod.swap (file_lists 256))) @ [([5], [9])]" "length (file_lists 256) = 3"
    unfolding file_contents using k r9 by (simp_all add: scan_items_def entry_records_def file_lists_def)
  have m: "\<forall>n \<le> length (scan_items file_lists ?R (bt_contents file_tree (Suc 0))).
     (\<exists>c'. scan file_ctx file_cur_ctx HAM_CURSOR_FIRST HAM_CURSOR_NEXT file_tree nil_cursor n =
        (let I = scan_items file_lists ?R (bt_contents file_tree (Suc 0))
         in if n < length I then Some (0, c', file_tree, Some (fst (I ! n)), Some (snd (I ! n))) else Some (NOT_FOUND, c', file_tree, None, None)))"
    using cursor_scans_stored_records [OF file_inv, of file_ctx ?B file_cur_ctx file_lists ?R nil_cursor] t rec k(1,3)
    unfolding file_contents by (simp add: file_ctx_def file_cur_ctx_def)
  show ?thesis using m [rule_format, of 3] it(2) unfolding it(1) Let_def by (simp add: nth_append)
qed

end
