(* ===== verification/Spec2Isabelle.thy ===== *)
theory Spec2Isabelle
  imports Ham_Prelude Os_Posix Dlist_Heap Ham_Page Ham_Cache Ham_Device Ham_Log Ham_Changeset Ham_Env
    Ham_Freelist Ham_Journal Ham_Txn Ham_Extkeys Ham_Compare Ham_Filter Ham_Db
    Ham_Blob Ham_Dupes Ham_Btree Ham_Bt_Tree Ham_Bt_Find Ham_Bt_Surgery Ham_Bt_Insert Ham_Bt_Descent Ham_Bt_Walk Ham_Bt_Cursor Ham_Bt_Key Ham_Bt_Store
begin

text \<open>
  A verification library for the storage engine hamsterdb (\<open>src/src\<close>).

  \<^bold>\<open>The program.\<close> hamsterdb is an embedded key/value store. A database lives in a file that is
  read and written in pages. Pages are kept in a cache; the pages that one operation modifies
  form a changeset, which is written to a physical log before it is written to the file, so
  that a crash between two page writes can be repaired. Space in the file is handed out by a
  freelist. Updates run under transactions: they are kept in memory, as operations attached
  to a tree of keys, until the transaction is committed and flushed to the B+tree, and they
  are recorded in a logical journal of two files that take turns. Keys that are too long for
  a tree node are stored apart and cached.

  \<^bold>\<open>The theories.\<close>
  \<^item> \<open>Ham_Prelude\<close>: status codes, machine integers, little-endian fields, shared lemmas.
  \<^item> \<open>Os_Posix\<close>: the file layer of \<open>os_posix.cc\<close>. A file is its contents, its position and a
    script of system call outcomes, so that short reads, short writes and failures are part
    of the model.
  \<^item> \<open>Dlist_Heap\<close>: doubly linked lists through link fields of a shared store; the locale
    \<open>link_fields\<close> is the interface that \<open>Ham_Page\<close> and \<open>Ham_Txn\<close> interpret for each of their
    lists.
  \<^item> \<open>Ham_Page\<close>, \<open>Ham_Cache\<close>, \<open>Ham_Device\<close>: \<open>page.h\<close>, \<open>page.cc\<close>, \<open>cache.h\<close>, \<open>cache.cc\<close>,
    \<open>device.h\<close> and \<open>device.cc\<close>. Pages live in a store from page references to page records, the
    cache is a recency list and a table of buckets threaded through the pages, the device is
    a file with a chain of file filters.
  \<^item> \<open>Ham_Log\<close>, \<open>Ham_Changeset\<close>: \<open>log.cc\<close> with its byte layout and recovery, and
    \<open>changeset.cc\<close> with all its points of failure.
  \<^item> \<open>Ham_Env\<close>: the page management of \<open>db.cc\<close> and \<open>env.cc\<close> that joins cache, changeset and
    device: fetching, allocating, writing, deleting, purging.
  \<^item> \<open>Ham_Freelist\<close>: the bitmap, the table of entries and the chain of freelist pages of
    \<open>freelist.cc\<close>, up to the freeing of an area.
  \<^item> \<open>Ham_Blob\<close>, \<open>Ham_Dupes\<close>: \<open>blob.cc\<close> and \<open>blob.h\<close> for databases in a file: the transfer of blobs in
    pieces through the cache or around it, allocating, reading, overwriting and freeing, and
    the tables of duplicates with their sorted search.
  \<^item> \<open>Ham_Journal\<close>: \<open>journal.cc\<close> and \<open>journal_entries.h\<close>: the records byte by byte, the switch
    between the two files, iteration and recovery.
  \<^item> \<open>Ham_Txn\<close>: \<open>txn.cc\<close> and the flushing of transactions in \<open>env.cc\<close>, on a heap of operations,
    nodes, transactions and cursors. The red-black tree of nodes is represented by its
    sequence in key order.
  \<^item> \<open>Ham_Extkeys\<close>, \<open>Ham_Compare\<close>: the cache of extended keys with its hash table
    (\<open>extkeys.cc\<close>, \<open>hash-table.h\<close>) and the comparison of keys that uses it (\<open>db.cc\<close>, \<open>db.h\<close>).
  \<^item> \<open>Ham_Filter\<close>: the chain of record filters (\<open>hamsterdb.cc\<close>, \<open>db.cc\<close>).
  \<^item> \<open>Ham_Db\<close>: insert, erase and lookup under a transaction with the conflict checks of
    \<open>db.cc\<close>, and beginning and ending a transaction.
  \<^item> \<open>Ham_Btree\<close>: the nodes of the B+tree as lists of entries, the search in a node, and the life cycle of
    a backend (\<open>btree.cc\<close>, \<open>btree.h\<close>, \<open>btree_key.h\<close>). \<open>Ham_Bt_Tree\<close> and \<open>Ham_Bt_Surgery\<close> hold the invariant of a tree of
    any height in its pages (\<open>bt_inv\<close>: ordered keys, levels linked in both directions, capacity), its contents, and what
    replacing or splitting a child does to them.
  \<^item> \<open>Ham_Bt_Find\<close>: \<open>btree_find.cc\<close> with the fast track over a hinted leaf and the step to a neighbour for approximate matches.
  \<^item> \<open>Ham_Bt_Insert\<close>, \<open>Ham_Bt_Descent\<close>: \<open>btree_insert.cc\<close> with splits, a new root and the fast path at both ends of the tree, and the
    hints of an insertion (\<open>btree_insert_get_hints\<close> in \<open>btree_stats.cc\<close>) from any statistics; then the theorems about the recursion.
  \<^item> \<open>Ham_Bt_Walk\<close>: the enumeration (\<open>btree_enum.cc\<close>) and the integrity check (\<open>btree_check.cc\<close>).
  \<^item> \<open>Ham_Bt_Cursor\<close>: coupling, uncoupling, moves and queries of \<open>btree_cursor.cc\<close>.
  \<^item> \<open>Ham_Bt_Key\<close>, \<open>Ham_Bt_Store\<close>: the records and extended keys of entries (\<open>btree_key.cc\<close>, \<open>btree_read_record\<close>) on top of the blobs,
    and cursors that read what they stored.

  \<^bold>\<open>How code is represented.\<close> Structures are records, enumerations datatypes, fields keep their
  width as words where it matters; counters of chunks, bytes and list positions are natural numbers. Where the code
  computes such a number in 32 bits and can leave their range, the wrap-around is written out: the bytes of a range of chunks and
  the offset of an address in a freelist entry (\<open>chunk_bytes\<close>, \<open>mark_free_in\<close>), sizes of blobs and of tables of
  duplicates (\<open>sz32\<close>). Pointers are indices into stores. Errors are values
  of \<open>ham_status\<close>; the B+tree, whose functions return a status or a slot in one integer, keeps the integer. A loop over links or over a
  growing table is a \<open>partial_function\<close> into options, \<open>None\<close> standing for a run that does not end; the theorems about such loops state that
  there is a result, not only what it is. Assertions of the debug build are not part of the
  model, with one exception: the assertion of \<open>blob_allocate\<close> on the gap behind a partial record, which
  can fail, is checked when \<open>bc_debug\<close> is set.

  \<^bold>\<open>Parameters.\<close> The B+tree below the transactions is a record of functions (\<open>backend\<close>). The B+tree in turn runs on a context of
  functions for what it calls in other modules (\<open>bt_ctx\<close>: page fetch and allocation, comparison, storing of records and extended
  keys, uncoupling of cursors; \<open>cur_ctx\<close>: the tables of duplicates), and \<open>Ham_Bt_Store\<close> instantiates the records among them by the
  model of the blobs. The
  reader of blobs below the key comparison, the reader of records below the sorted
  duplicates, user callbacks (comparison functions, file and record filters, the callback of an enumeration), in the freelist
  the page allocation of the environment, and in the blobs the answers of the freelist
  (\<open>blob_ctx\<close>, with its contract \<open>freel_ok\<close>) are parameters as well. The statistics of earlier operations are an argument of an
  insertion (\<open>insert_stats\<close>), and the hinted leaf one of a lookup. Hypotheses
  about them are stated in the theorems, and every such theorem has a concrete instance.

  \<^bold>\<open>What is shown.\<close>
  \<^item> Durability: a changeset is atomic whatever step of its flush fails (\<open>Ham_Changeset\<close>), the
    log repairs exactly complete changesets, for pages inside the file and for pages at its end (\<open>Ham_Log\<close>), the journal replays exactly its
    records and keeps those of open transactions when it switches files (\<open>Ham_Journal\<close>),
    committed transactions reach the tree in order and once (\<open>Ham_Txn\<close>).
  \<^item> Page management: the cache refines a recency list and evicts the oldest page that is in
    no changeset (\<open>Ham_Cache\<close>); the contents of the database read through the cache do not
    depend on what is cached, fetching returns them, and purging the cache keeps them and
    ends, as long as the system calls succeed (\<open>Ham_Env\<close>); flush and fetch of a page are inverse (\<open>Ham_Device\<close>).
  \<^item> Space: updates of the freelist's bitmap by words are exact, and freeing an area frees
    exactly that area, through growth of the table and of the chain of pages, for entries of less than \<open>2^27\<close> chunks (\<open>Ham_Freelist\<close>).
  \<^item> Records: a blob is read back as it was stored, with zeros in the gaps of a partial one,
    and storing it changes no byte outside its area (\<open>Ham_Blob\<close>); a table of duplicates behaves
    like a list, sorted insertion keeps it sorted unless the access mode is that of sequential insertion (\<open>Ham_Dupes\<close>).
  \<^item> Isolation: inserts and erases keep the invariant that a key has at most one active
    writer, what was inserted is found (\<open>Ham_Db\<close>), operations of a node and of a transaction
    stay in chronological order (\<open>Ham_Txn\<close>).
  \<^item> Keys: the default order is lexicographic, and comparing through prefixes and cached
    extended keys gives the order of the full keys (\<open>Ham_Compare\<close>); the key cache refines a
    partial map with the last use of each entry (\<open>Ham_Extkeys\<close>).
  \<^item> The B+tree: an insertion, whatever the statistics hint, keeps the invariant, adds exactly its entry and is found; the fast path at the ends
    gives the same contents as the descent (\<open>Ham_Bt_Descent\<close>). A lookup answers every match flag from the ordered contents
    (\<open>Ham_Bt_Find\<close>), a scan visits every entry and duplicate once in both directions, cursors survive changes of the tree
    (\<open>Ham_Bt_Cursor\<close>), enumeration and integrity check cover all levels (\<open>Ham_Bt_Walk\<close>). Records and extended keys are read as they
    were stored (\<open>Ham_Bt_Key\<close>), also through a cursor (\<open>Ham_Bt_Store\<close>).
  \<^item> Places where the code does not do what it means to, each proved on the model: short
    writes, filters that run twice or not at all, a log that is destroyed by opening, serial
    numbers misread after reopening, dangling operations after an abort, approximate lookups
    that fault or return the wrong key, a freelist estimate and sizes of entries and tables that overflow, sorted duplicates
    that are put in the wrong place, a failed overwrite that loses the old record.

  \<^bold>\<open>Interfaces.\<close> \<open>link_fields\<close> (linked lists), \<open>recency_cache\<close> (the page cache as a recency order),
  \<open>redo_log\<close> (a log whose complete groups are redone), \<open>key_cache\<close> and \<open>memoised\<close> (a cache in front of a function), \<open>node_walk\<close> (walks over the operations of a
  node, interpreted for the insert and erase checks and for the exact lookup), \<open>record_store\<close> (what cursors expect of stored records
  and tables of duplicates, interpreted on the blobs of a file) are locales;
  each is interpreted on the definitions of the component that provides it.

  \<^bold>\<open>Not modelled.\<close> Erasing from the B+tree with its merging and shifting of pages (\<open>btree_erase.cc\<close>); the classes that merge a cursor of the
  B+tree with one over the transactions (\<open>cursor.cc\<close>, \<open>txn_cursor.cc\<close>) beyond their coupling to operations; the search for
  free space in the freelist with the statistics that steer it; creating, opening and closing environments and databases and the
  parameter checks of the C interface. Of the statistics (\<open>btree_stats.cc\<close>,
  \<open>freelist_statistics.cc\<close>) the hints of an insertion are modelled, but not how the counters are collected and aged: the theorems hold for
  any counters. Blobs of in-memory databases and the
  in-memory device are wrappers of the allocator; the remote client and server
  rest on libcurl, mongoose and generated protocol code; \<open>os_win32.cc\<close> repeats the contract of
  the POSIX layer; bindings, tools and tests are clients.
\<close>

end
